(* ===== verification/Lwip_Prelude.thy ===== *)
theory Lwip_Prelude
  imports Main "HOL-Library.Word"
begin

unbundle bit_operations_syntax

text \<open>
  Shared vocabulary of the development: the fixed-width integer types of
  \<^verbatim>\<open>arch/cc.h\<close>, C's conversions to them, and the bridge between the bitwise
  operations of the source and natural-number arithmetic.
\<close>

section \<open>Integer types of arch/cc.h\<close>

type_synonym u8_t = "8 word"
type_synonym u16_t = "16 word"
type_synonym u32_t = "32 word"

text \<open>Addresses are natural numbers; the null pointer is 0.\<close>

type_synonym addr = nat

abbreviation (input) NULL :: addr where "NULL \<equiv> 0"

text \<open>
  Where the code keeps an unsigned quantity whose arithmetic matters more than its bits,
  the model keeps it as a natural number and writes the conversion that C performs at the
  assignment: \<open>to_u16 n\<close> is \<^verbatim>\<open>(u16_t)n\<close>.
\<close>

definition to_u8 :: "nat \<Rightarrow> nat" where
  "to_u8 n = n mod 256"

definition to_u16 :: "nat \<Rightarrow> nat" where
  "to_u16 n = n mod 65536"

definition to_u32 :: "nat \<Rightarrow> nat" where
  "to_u32 n = n mod 4294967296"

section \<open>Collections\<close>

named_theorems word_nat \<open>bitwise word operations as arithmetic on natural numbers\<close>

section \<open>Bitwise operations as arithmetic\<close>

lemma to_u8_less [simp, intro]: "to_u8 n < 256"
  by (simp add: to_u8_def)

lemma to_u16_less [simp, intro]: "to_u16 n < 65536"
  by (simp add: to_u16_def)

lemma to_u16_id [simp]: "n < 65536 \<Longrightarrow> to_u16 n = n"
  by (simp add: to_u16_def)

lemma to_u8_id [simp]: "n < 256 \<Longrightarrow> to_u8 n = n"
  by (simp add: to_u8_def)

lemma to_u32_less [simp, intro]: "to_u32 n < 4294967296"
  by (simp add: to_u32_def)

lemma to_u32_id [simp]: "n < 4294967296 \<Longrightarrow> to_u32 n = n"
  by (simp add: to_u32_def)

lemma to_u32_sub: "b \<le> a \<Longrightarrow> a - b < 4294967296 \<Longrightarrow> to_u32 (a + 4294967296 - b) = a - b"
  using mod_add_self2 [of "a - b" 4294967296] by (simp add: to_u32_def)

lemma to_u16_le: "to_u16 n \<le> n"
  by (simp add: to_u16_def)

text \<open>A 16-bit subtraction that does not borrow.\<close>

lemma to_u16_sub: "b \<le> a \<Longrightarrow> a - b < 65536 \<Longrightarrow> to_u16 (a + 65536 - b) = a - b"
  using mod_add_self2 [of "a - b" 65536] by (simp add: to_u16_def)

lemma to_u16_pred: "0 < a \<Longrightarrow> a < 65536 \<Longrightarrow> to_u16 (a + 65535) = a - 1"
  using to_u16_sub [of 1 a] by (simp add: add.commute)

lemma unat_drop_bit [word_nat]:
  "unat (drop_bit n (x :: 'a::len word)) = unat x div 2 ^ n"
  by (subst unat_drop_bit_eq) (rule drop_bit_eq_div)

lemma unat_and_mask [word_nat]:
  "unat (x AND mask n :: 'a::len word) = unat x mod 2 ^ n"
  by (subst take_bit_eq_mask [symmetric], subst unsigned_take_bit_eq) (rule take_bit_eq_mod)

lemma and_mask_numerals:
  fixes x :: "'a::len word"
  shows "x AND 0xff = x AND mask 8"
    and "x AND 0xffff = x AND mask 16"
  by (simp_all add: mask_eq_exp_minus_1)

text \<open>The masks the source selects single bytes with, as shifted runs of ones.\<close>

lemma byte_masks:
  "(0xff :: 'a::len word) = mask 8"
  "(0xffff :: 'a::len word) = mask 16"
  "(0xff00 :: 'a::len word) = push_bit 8 (mask 8)"
  "(0xff0000 :: 'a::len word) = push_bit 16 (mask 8)"
  "(0xff000000 :: 'a::len word) = push_bit 24 (mask 8)"
  by (simp_all only: mask_eq_exp_minus_1 push_bit_eq_mult) simp_all

lemma unat_push_bit [word_nat]:
  "unat (push_bit n (x :: 'a::len word)) = unat x * 2 ^ n mod 2 ^ LENGTH('a)"
  by (subst unsigned_push_bit_eq) (simp only: take_bit_eq_mod push_bit_eq_mult)

lemma unat_ucast_mod [word_nat]:
  "unat (ucast (x :: 'b::len word) :: 'a::len word) = unat x mod 2 ^ LENGTH('a)"
  by (subst unsigned_ucast_eq) (rule take_bit_eq_mod)

text \<open>Two words that share no bit are added by a bitwise or.\<close>

lemma unat_or_disjoint:
  fixes x y :: "'a::len word"
  assumes "unat x mod 2 ^ n = 0" "unat y < 2 ^ n"
  shows "unat (x OR y) = unat x + unat y"
proof -
  have "bit x i \<longrightarrow> n \<le> i" for i
  proof (rule ccontr)
    assume "\<not> (bit x i \<longrightarrow> n \<le> i)"
    then have "bit (take_bit n (unat x)) i" by (simp add: bit_simps)
    with assms(1) show False by (simp add: take_bit_eq_mod)
  qed
  moreover have "bit y i \<longrightarrow> i < n" for i
  proof -
    have "take_bit n (unat y) = unat y" using assms(2) by (simp add: take_bit_nat_eq_self)
    then have "bit (unat y) i \<longleftrightarrow> i < n \<and> bit (unat y) i"
      by (metis bit_take_bit_iff)
    then show ?thesis by (auto simp: bit_simps)
  qed
  ultimately have "unat x AND unat y = 0"
    by (intro bit_eqI) (metis bit_and_iff bit_unsigned_iff bot_nat_0.extremum_strict bit_0_eq
        bot_apply bot_bool_def not_le)
  then show ?thesis by (simp add: unsigned_or_eq disjunctive_add_eq_or)
qed

lemma unat_u16_less [simp, intro]: "unat (x :: u16_t) < 65536"
  using unsigned_less [of x] by simp

lemma unat_u8_less [simp, intro]: "unat (x :: u8_t) < 256"
  using unsigned_less [of x] by simp

lemma unat_u32_less [simp, intro]: "unat (x :: u32_t) < 4294967296"
  using unsigned_less [of x] by simp

text \<open>The same bounds for arithmetic, kept out of the simpset.\<close>

lemma unat_u8_le: "unat (x :: u8_t) \<le> 255"
  using unat_u8_less [of x] by linarith

lemma unat_u16_le: "unat (x :: u16_t) \<le> 65535"
  using unat_u16_less [of x] by linarith

lemma unat_u32_le: "unat (x :: u32_t) \<le> 4294967295"
  using unat_u32_less [of x] by linarith

lemma unat_ucast_up [simp]:
  "unat (ucast (b :: u8_t) :: u16_t) = unat b"
  "unat (ucast (b :: u8_t) :: u32_t) = unat b"
  "unat (ucast (h :: u16_t) :: u32_t) = unat h"
  by (simp_all add: unat_ucast_mod less_trans [OF unat_u8_less] less_trans [OF unat_u16_less])

lemma unat_shift_byte [simp]: "unat (push_bit 8 (ucast (b :: u8_t)) :: u16_t) = 256 * unat b"
proof -
  have "unat b * 256 < 65536" using unat_u8_less [of b] by linarith
  then show ?thesis by (simp add: unat_push_bit mult.commute)
qed

lemma unat_shift_half [simp]: "unat (push_bit 16 (ucast (h :: u16_t)) :: u32_t) = 65536 * unat h"
proof -
  have "unat h * 65536 < 4294967296" using unat_u16_less [of h] by linarith
  then show ?thesis by (simp add: unat_push_bit mult.commute)
qed

lemma unat_NOT_u16: "unat (NOT x) = 65535 - unat x" for x :: u16_t
proof -
  have "NOT x = - 1 - x" by (simp add: not_eq_complement)
  then show ?thesis
    using unat_sub [of x "-1"] by (simp add: unsigned_minus_1_eq_mask mask_eq_exp_minus_1)
qed

section \<open>Overwriting a part of a list\<close>

definition overwrite :: "nat \<Rightarrow> 'a list \<Rightarrow> 'a list \<Rightarrow> 'a list" where
  "overwrite i xs d = take i d @ xs @ drop (i + length xs) d"

lemma overwrite_Nil [simp]: "overwrite i [] d = d"
  by (simp add: overwrite_def)

lemma overwrite_Cons: "i < length d \<Longrightarrow> overwrite (Suc i) xs (d[i := x]) = overwrite i (x # xs) d"
  by (simp add: overwrite_def take_Suc_conv_app_nth)

lemma overwrite_one: "i < length d \<Longrightarrow> d[i := x] = overwrite i [x] d"
  using overwrite_Cons [of i d "[]" x] by simp

lemma length_overwrite [simp]: "i + length xs \<le> length d \<Longrightarrow> length (overwrite i xs d) = length d"
  by (simp add: overwrite_def)

lemma nth_overwrite: "i + length xs \<le> length d \<Longrightarrow> k < length xs \<Longrightarrow> overwrite i xs d ! (i + k) = xs ! k"
  by (simp add: overwrite_def nth_append)

lemma overwrite_append:
  "i + length xs \<le> length d \<Longrightarrow> overwrite (i + length xs) ys (overwrite i xs d) = overwrite i (xs @ ys) d"
  by (simp add: overwrite_def ac_simps)

lemma drop_overwrite: "i + length xs \<le> length d \<Longrightarrow> drop i (overwrite i xs d) = xs @ drop (i + length xs) d"
  by (simp add: overwrite_def)

end
