(* ===== verification/Allocator.thy ===== *)
theory Allocator
  imports Lwip_Prelude
begin

text \<open>
  What the allocators of the stack promise their clients. Both the heap of \<^verbatim>\<open>mem.c\<close> and the
  pools of \<^verbatim>\<open>memp.c\<close> hand out an address that was not handed out before, or \<^verbatim>\<open>NULL\<close>, and take
  back an address they handed out. The locale states that contract once; the lemmas in it are
  what every client may rely on. The theories of the two allocators interpret it.
\<close>

text \<open>
  A client's workload: requests for memory, and releases of what it still holds, by position in
  the list of outstanding pointers.
\<close>

datatype 'k request = Alloc 'k | Release nat

definition remove_nth :: "nat \<Rightarrow> 'a list \<Rightarrow> 'a list" where
  "remove_nth i xs = take i xs @ drop (Suc i) xs"

fun run_requests ::
  "('k \<Rightarrow> 's \<Rightarrow> (addr \<times> 's) option) \<Rightarrow> (addr \<Rightarrow> 's \<Rightarrow> 's option) \<Rightarrow> 'k request list \<Rightarrow>
   's \<times> addr list \<Rightarrow> ('s \<times> addr list) option" where
  "run_requests malloc free [] (s, held) = Some (s, held)"
| "run_requests malloc free (Alloc k # rs) (s, held) =
     (case malloc k s of
        None \<Rightarrow> None
      | Some (p, s') \<Rightarrow> run_requests malloc free rs (s', if p = NULL then held else held @ [p]))"
| "run_requests malloc free (Release i # rs) (s, held) =
     (if i < length held
      then case free (held ! i) s of
             None \<Rightarrow> None
           | Some s' \<Rightarrow> run_requests malloc free rs (s', remove_nth i held)
      else run_requests malloc free rs (s, held))"

lemma set_remove_nth:
  assumes "distinct xs" "i < length xs"
  shows "set (remove_nth i xs) = set xs - {xs ! i}" "distinct (remove_nth i xs)"
proof -
  have xs: "xs = take i xs @ xs ! i # drop (Suc i) xs" using assms(2) by (rule id_take_nth_drop)
  from assms(1) have d: "distinct (take i xs @ xs ! i # drop (Suc i) xs)" by (subst (asm) xs)
  have "set xs = set (take i xs) \<union> {xs ! i} \<union> set (drop (Suc i) xs)" by (subst xs) auto
  with d show "set (remove_nth i xs) = set xs - {xs ! i}" unfolding remove_nth_def by auto
  from d show "distinct (remove_nth i xs)" unfolding remove_nth_def by simp
qed

locale allocator =
  fixes malloc :: "'k \<Rightarrow> 's \<Rightarrow> (addr \<times> 's) option"
    and free :: "addr \<Rightarrow> 's \<Rightarrow> 's option"
    and inv :: "'s \<Rightarrow> bool"
    and live :: "'s \<Rightarrow> addr set"
  assumes malloc_law: "inv s \<Longrightarrow>
      \<exists>p s'. malloc k s = Some (p, s') \<and> inv s'
        \<and> (p = NULL \<and> live s' = live s \<or> p \<noteq> NULL \<and> p \<notin> live s \<and> live s' = insert p (live s))"
    and free_law: "inv s \<Longrightarrow> p \<in> live s \<Longrightarrow>
      \<exists>s'. free p s = Some s' \<and> inv s' \<and> live s' = live s - {p}"
begin

lemma malloc_cases:
  assumes "inv s"
  obtains s' where "malloc k s = Some (NULL, s')" "inv s'" "live s' = live s"
  | p s' where "malloc k s = Some (p, s')" "p \<noteq> NULL" "inv s'" "p \<notin> live s" "live s' = insert p (live s)"
  using malloc_law [OF assms, of k] by auto

text \<open>What is allocated can be freed, and then the same addresses are live as before.\<close>

lemma malloc_free:
  assumes "inv s" "malloc k s = Some (p, s')" "p \<noteq> NULL"
  shows "\<exists>s''. free p s' = Some s'' \<and> inv s'' \<and> live s'' = live s"
  using assms(1)
proof (cases rule: malloc_cases [where k = k])
  case 1
  with assms show ?thesis by simp
next
  case (2 q t)
  with assms have "p \<in> live s'" "inv s'" "live s' - {p} = live s" by auto
  then show ?thesis using free_law by metis
qed

text \<open>
  No workload gets stuck; at every point the client holds distinct addresses, and exactly the
  ones the allocator counts as live.
\<close>

lemma workload:
  assumes "inv s" "distinct held" "set held = live s"
  shows "\<exists>s' held'. run_requests malloc free rs (s, held) = Some (s', held')
    \<and> inv s' \<and> distinct held' \<and> set held' = live s'"
  using assms
proof (induction rs arbitrary: s held)
  case (Cons r rs)
  show ?case
  proof (cases r)
    case (Alloc k)
    from Cons.prems(1) show ?thesis
    proof (cases rule: malloc_cases [where k = k])
      case (1 s')
      then show ?thesis using Cons.IH [of s' held] Cons.prems Alloc by simp
    next
      case (2 p s')
      then show ?thesis using Cons.IH [of s' "held @ [p]"] Cons.prems Alloc by simp
    qed
  next
    case (Release i)
    show ?thesis
    proof (cases "i < length held")
      case True
      then have "held ! i \<in> live s" using Cons.prems(3) nth_mem by metis
      then obtain s' where "free (held ! i) s = Some s'" "inv s'" "live s' = live s - {held ! i}"
        using free_law [OF Cons.prems(1)] by blast
      then show ?thesis
        using Cons.IH [of s' "remove_nth i held"] set_remove_nth [OF Cons.prems(2) True]
          Cons.prems(3) True Release by simp
    next
      case False
      then show ?thesis using Cons.IH [OF Cons.prems] Release by simp
    qed
  qed
qed simp

end

end
