(* ===== verification/Mem.thy ===== *)
theory Mem
  imports Allocator
begin

text \<open>
  The heap allocator of \<^verbatim>\<open>core/mem.c\<close> in the configuration of the build: \<^verbatim>\<open>MEM_SIZE\<close> 16000,
  \<^verbatim>\<open>MEM_ALIGNMENT\<close> 4, hence a 16-bit \<^verbatim>\<open>mem_size_t\<close>; \<^verbatim>\<open>NO_SYS\<close>, so the mutex calls vanish;
  \<^verbatim>\<open>MEM_STATS\<close> on. A \<open>struct mem\<close> is read at an offset into \<open>ram\<close>; pointers into the heap are
  \<open>ram\<close> plus an offset. A failed \<^verbatim>\<open>LWIP_ASSERT\<close> aborts in this port: the operation returns
  \<open>None\<close>. The loops may run for ever on a corrupt heap, which is \<open>None\<close> too.

  The specification is the list of blocks in address order, each with its start, its end and
  whether it is in use; \<open>heap_inv\<close> relates it to the linked structs of the code.
\<close>

section \<open>Data\<close>

record struct_mem =
  m_next :: nat
  m_prev :: nat
  m_used :: bool

record stats_mem =
  st_avail :: nat
  st_used :: nat
  st_max :: nat
  st_err :: nat
  st_illegal :: nat

record mem_state =
  ram :: addr
  mems :: "nat \<Rightarrow> struct_mem"
  lfree :: nat
  mem_stats :: stats_mem

abbreviation (input) MEM_ALIGNMENT :: nat where "MEM_ALIGNMENT \<equiv> 4"
abbreviation (input) SIZEOF_STRUCT_MEM :: nat where "SIZEOF_STRUCT_MEM \<equiv> 8"
abbreviation (input) MIN_SIZE_ALIGNED :: nat where "MIN_SIZE_ALIGNED \<equiv> 12"
abbreviation (input) MEM_SIZE_ALIGNED :: nat where "MEM_SIZE_ALIGNED \<equiv> 16000"

definition LWIP_MEM_ALIGN_SIZE :: "nat \<Rightarrow> nat" where
  "LWIP_MEM_ALIGN_SIZE sz = (sz + MEM_ALIGNMENT - 1) div MEM_ALIGNMENT * MEM_ALIGNMENT"

text \<open>
  The size \<^verbatim>\<open>mem_trim\<close> and \<^verbatim>\<open>mem_malloc\<close> work with: aligned, stored back into the 16-bit variable,
  raised to the minimum.
\<close>

definition norm_size :: "nat \<Rightarrow> nat" where
  "norm_size sz = (let n = to_u16 (LWIP_MEM_ALIGN_SIZE sz) in if n < MIN_SIZE_ALIGNED then MIN_SIZE_ALIGNED else n)"

text \<open>Subtraction of two values of the 64-bit \<^verbatim>\<open>size_t\<close>, the type of \<^verbatim>\<open>SIZEOF_STRUCT_MEM\<close>.\<close>

definition size_t_sub :: "nat \<Rightarrow> nat \<Rightarrow> nat" where
  "size_t_sub a b = (if b \<le> a then a - b else 2 ^ 64 + a - b)"

section \<open>Assignments to the fields of a struct mem\<close>

definition set_next :: "nat \<Rightarrow> nat \<Rightarrow> mem_state \<Rightarrow> mem_state" where
  "set_next off v s = s\<lparr>mems := (mems s)(off := (mems s off)\<lparr>m_next := v\<rparr>)\<rparr>"

definition set_prev :: "nat \<Rightarrow> nat \<Rightarrow> mem_state \<Rightarrow> mem_state" where
  "set_prev off v s = s\<lparr>mems := (mems s)(off := (mems s off)\<lparr>m_prev := v\<rparr>)\<rparr>"

definition set_used :: "nat \<Rightarrow> bool \<Rightarrow> mem_state \<Rightarrow> mem_state" where
  "set_used off v s = s\<lparr>mems := (mems s)(off := (mems s off)\<lparr>m_used := v\<rparr>)\<rparr>"

definition MEM_STATS_INC_USED :: "nat \<Rightarrow> mem_state \<Rightarrow> mem_state" where
  "MEM_STATS_INC_USED y s =
     (let st = mem_stats s; u = to_u16 (st_used st + y)
      in s\<lparr>mem_stats := st\<lparr>st_used := u, st_max := (if st_max st < u then u else st_max st)\<rparr>\<rparr>)"

definition MEM_STATS_DEC_USED :: "nat \<Rightarrow> mem_state \<Rightarrow> mem_state" where
  "MEM_STATS_DEC_USED y s =
     (let st = mem_stats s
      in s\<lparr>mem_stats := st\<lparr>st_used := to_u16 (st_used st + 65536 - y)\<rparr>\<rparr>)"

definition MEM_STATS_INC_err :: "mem_state \<Rightarrow> mem_state" where
  "MEM_STATS_INC_err s =
     (let st = mem_stats s in s\<lparr>mem_stats := st\<lparr>st_err := to_u16 (st_err st + 1)\<rparr>\<rparr>)"

section \<open>Operations of mem.c\<close>

text \<open>The two halves of \<^verbatim>\<open>plug_holes\<close>: combine with the next struct, then with the previous one.\<close>

definition plug_forward :: "nat \<Rightarrow> mem_state \<Rightarrow> mem_state" where
  "plug_forward mem s =
     (let nmem = m_next (mems s mem)
      in if mem \<noteq> nmem \<and> \<not> m_used (mems s nmem) \<and> nmem \<noteq> MEM_SIZE_ALIGNED
         then let s = (if lfree s = nmem then s\<lparr>lfree := mem\<rparr> else s);
                  s = set_next mem (m_next (mems s nmem)) s
              in set_prev (m_next (mems s nmem)) mem s
         else s)"

definition plug_backward :: "nat \<Rightarrow> mem_state \<Rightarrow> mem_state" where
  "plug_backward mem s =
     (let pmem = m_prev (mems s mem)
      in if pmem \<noteq> mem \<and> \<not> m_used (mems s pmem)
         then let s = (if lfree s = mem then s\<lparr>lfree := pmem\<rparr> else s);
                  s = set_next pmem (m_next (mems s mem)) s
              in set_prev (m_next (mems s mem)) pmem s
         else s)"

definition plug_holes :: "nat \<Rightarrow> mem_state \<Rightarrow> mem_state option" where
  "plug_holes mem s =
     (if \<not> mem < MEM_SIZE_ALIGNED \<or> m_used (mems s mem) \<or> \<not> m_next (mems s mem) \<le> MEM_SIZE_ALIGNED
      then None
      else Some (plug_backward mem (plug_forward mem s)))"

definition mem_init :: "addr \<Rightarrow> mem_state \<Rightarrow> mem_state" where
  "mem_init ram_heap s =
     (let s = s\<lparr>ram := LWIP_MEM_ALIGN_SIZE ram_heap\<rparr>;
          s = set_next 0 MEM_SIZE_ALIGNED s;
          s = set_prev 0 0 s;
          s = set_used 0 False s;
          s = set_used MEM_SIZE_ALIGNED True s;
          s = set_next MEM_SIZE_ALIGNED MEM_SIZE_ALIGNED s;
          s = set_prev MEM_SIZE_ALIGNED MEM_SIZE_ALIGNED s;
          s = s\<lparr>lfree := 0\<rparr>
      in s\<lparr>mem_stats := (mem_stats s)\<lparr>st_avail := MEM_SIZE_ALIGNED\<rparr>\<rparr>)"

definition mem_free :: "addr \<Rightarrow> mem_state \<Rightarrow> mem_state option" where
  "mem_free rmem s =
     (if rmem = NULL then Some s
      else if rmem mod MEM_ALIGNMENT \<noteq> 0 then None
      else if \<not> (ram s \<le> rmem \<and> rmem < ram s + MEM_SIZE_ALIGNED) then None
      else if rmem < ram s + SIZEOF_STRUCT_MEM then None
      else
        let mem = rmem - SIZEOF_STRUCT_MEM - ram s
        in if \<not> m_used (mems s mem) then None
           else
             let s = set_used mem False s;
                 s = (if mem < lfree s then s\<lparr>lfree := mem\<rparr> else s);
                 s = MEM_STATS_DEC_USED (to_u16 (m_next (mems s mem) + 65536 - mem)) s
             in plug_holes mem s)"

text \<open>
  \<^verbatim>\<open>mem_trim\<close>: the two branches that give memory back differ in what becomes of the struct behind
  the trimmed one. The result pointer comes first.
\<close>

definition mem_trim :: "addr \<Rightarrow> nat \<Rightarrow> mem_state \<Rightarrow> (addr \<times> mem_state) option" where
  "mem_trim rmem newsize s =
     (let newsize = norm_size newsize
      in if newsize > MEM_SIZE_ALIGNED then Some (NULL, s)
         else if \<not> (ram s \<le> rmem \<and> rmem < ram s + MEM_SIZE_ALIGNED) then None
         else if rmem < ram s + SIZEOF_STRUCT_MEM then None
         else
           let ptr = to_u16 (rmem - SIZEOF_STRUCT_MEM - ram s);
               sz = to_u16 (size_t_sub (m_next (mems s ptr)) (ptr + SIZEOF_STRUCT_MEM))
           in if \<not> newsize \<le> sz then None
              else if newsize = sz then Some (rmem, s)
              else
                let mem2 = m_next (mems s ptr);
                    ptr2 = to_u16 (ptr + SIZEOF_STRUCT_MEM + newsize)
                in if \<not> m_used (mems s mem2)
                   then
                     let nxt = m_next (mems s mem2);
                         s = (if lfree s = mem2 then s\<lparr>lfree := ptr2\<rparr> else s);
                         s = set_used ptr2 False s;
                         s = set_next ptr2 nxt s;
                         s = set_prev ptr2 ptr s;
                         s = set_next ptr ptr2 s;
                         s = (if m_next (mems s ptr2) \<noteq> MEM_SIZE_ALIGNED
                              then set_prev (m_next (mems s ptr2)) ptr2 s else s)
                     in Some (rmem, MEM_STATS_DEC_USED (sz - newsize) s)
                   else if newsize + SIZEOF_STRUCT_MEM + MIN_SIZE_ALIGNED \<le> sz
                   then
                     let s = (if ptr2 < lfree s then s\<lparr>lfree := ptr2\<rparr> else s);
                         s = set_used ptr2 False s;
                         s = set_next ptr2 (m_next (mems s ptr)) s;
                         s = set_prev ptr2 ptr s;
                         s = set_next ptr ptr2 s;
                         s = (if m_next (mems s ptr2) \<noteq> MEM_SIZE_ALIGNED
                              then set_prev (m_next (mems s ptr2)) ptr2 s else s)
                     in Some (rmem, MEM_STATS_DEC_USED (sz - newsize) s)
                   else Some (rmem, s))"

text \<open>The search loop of \<^verbatim>\<open>mem_malloc\<close>: \<open>Some None\<close> when it runs off the end.\<close>

partial_function (option) mem_scan :: "(nat \<Rightarrow> struct_mem) \<Rightarrow> nat \<Rightarrow> nat \<Rightarrow> nat option option" where
  "mem_scan h sz ptr =
     (if ptr < MEM_SIZE_ALIGNED - sz
      then if \<not> m_used (h ptr) \<and> size_t_sub (m_next (h ptr)) (ptr + SIZEOF_STRUCT_MEM) \<ge> sz
           then Some (Some ptr)
           else mem_scan h sz (m_next (h ptr))
      else Some None)"

text \<open>The loop that moves \<open>lfree\<close> to the next unused block.\<close>

partial_function (option) mem_next_free :: "(nat \<Rightarrow> struct_mem) \<Rightarrow> nat \<Rightarrow> nat option" where
  "mem_next_free h cur =
     (if m_used (h cur) \<and> cur \<noteq> MEM_SIZE_ALIGNED then mem_next_free h (m_next (h cur)) else Some cur)"

text \<open>Taking the block found: split off what is not needed, or hand out the whole block.\<close>

definition mem_take :: "nat \<Rightarrow> nat \<Rightarrow> mem_state \<Rightarrow> mem_state" where
  "mem_take ptr sz s =
     (if size_t_sub (m_next (mems s ptr)) (ptr + SIZEOF_STRUCT_MEM) \<ge> sz + SIZEOF_STRUCT_MEM + MIN_SIZE_ALIGNED
      then
        let ptr2 = to_u16 (ptr + SIZEOF_STRUCT_MEM + sz);
            s = set_used ptr2 False s;
            s = set_next ptr2 (m_next (mems s ptr)) s;
            s = set_prev ptr2 ptr s;
            s = set_next ptr ptr2 s;
            s = set_used ptr True s;
            s = (if m_next (mems s ptr2) \<noteq> MEM_SIZE_ALIGNED
                 then set_prev (m_next (mems s ptr2)) ptr2 s else s)
        in MEM_STATS_INC_USED (sz + SIZEOF_STRUCT_MEM) s
      else
        let s = set_used ptr True s
        in MEM_STATS_INC_USED (to_u16 (m_next (mems s ptr) + 65536 - ptr)) s)"

definition mem_malloc :: "nat \<Rightarrow> mem_state \<Rightarrow> (addr \<times> mem_state) option" where
  "mem_malloc sz s =
     (if sz = 0 then Some (NULL, s)
      else
        let sz = norm_size sz
        in if sz > MEM_SIZE_ALIGNED then Some (NULL, s)
           else case mem_scan (mems s) sz (lfree s) of
             None \<Rightarrow> None
           | Some None \<Rightarrow> Some (NULL, MEM_STATS_INC_err s)
           | Some (Some ptr) \<Rightarrow>
               let s = mem_take ptr sz s
               in case (if ptr = lfree s then mem_next_free (mems s) (lfree s) else Some (lfree s)) of
                    None \<Rightarrow> None
                  | Some cur \<Rightarrow>
                      if ptr + SIZEOF_STRUCT_MEM + sz \<le> MEM_SIZE_ALIGNED
                         \<and> (ram s + ptr + SIZEOF_STRUCT_MEM) mod MEM_ALIGNMENT = 0
                         \<and> (ram s + ptr) mod MEM_ALIGNMENT = 0
                      then Some (ram s + ptr + SIZEOF_STRUCT_MEM, s\<lparr>lfree := cur\<rparr>)
                      else None)"

text \<open>
  \<^verbatim>\<open>mem_calloc\<close> converts the product to \<^verbatim>\<open>mem_size_t\<close> for the allocation but clears the whole
  product; \<open>bytes\<close> is the memory it clears.
\<close>

definition mem_calloc ::
  "nat \<Rightarrow> nat \<Rightarrow> mem_state \<times> (addr \<Rightarrow> u8_t) \<Rightarrow> (addr \<times> mem_state \<times> (addr \<Rightarrow> u8_t)) option" where
  "mem_calloc count sz sb =
     (case mem_malloc (to_u16 (count * sz)) (fst sb) of
        None \<Rightarrow> None
      | Some (p, s) \<Rightarrow>
          Some (p, s, if p \<noteq> NULL
                      then (\<lambda>a. if p \<le> a \<and> a < p + count * sz then 0 else snd sb a)
                      else snd sb))"

section \<open>Specification: the list of blocks\<close>

type_synonym blk = "nat \<times> nat \<times> bool"

text \<open>
  \<open>rep h p bl q\<close>: following the \<open>next\<close> offsets from \<open>p\<close> visits exactly the blocks \<open>bl\<close> and
  ends at \<open>q\<close>. Blocks are aligned and hold a struct and at least \<^verbatim>\<open>MIN_SIZE_ALIGNED\<close> bytes, and
  each struct but the last points back to its predecessor (the code leaves \<open>prev\<close> of the end
  marker stale).
\<close>

fun rep :: "(nat \<Rightarrow> struct_mem) \<Rightarrow> nat \<Rightarrow> blk list \<Rightarrow> nat \<Rightarrow> bool" where
  "rep h p [] q \<longleftrightarrow> p = q"
| "rep h p ((b, e, u) # bl) q \<longleftrightarrow>
     p = b \<and> m_next (h b) = e \<and> m_used (h b) = u \<and> b + 20 \<le> e \<and> b mod 4 = 0
     \<and> (e \<noteq> MEM_SIZE_ALIGNED \<longrightarrow> m_prev (h e) = b) \<and> rep h e bl q"

fun no_adjacent_free :: "blk list \<Rightarrow> bool" where
  "no_adjacent_free ((_, _, u) # (b, e, v) # bl) \<longleftrightarrow> (u \<or> v) \<and> no_adjacent_free ((b, e, v) # bl)"
| "no_adjacent_free _ \<longleftrightarrow> True"

fun lowest_free :: "blk list \<Rightarrow> nat" where
  "lowest_free [] = MEM_SIZE_ALIGNED"
| "lowest_free ((b, _, u) # bl) = (if u then lowest_free bl else b)"

fun all_used :: "blk list \<Rightarrow> bool" where
  "all_used [] \<longleftrightarrow> True"
| "all_used ((b, e, u) # bl) \<longleftrightarrow> u \<and> all_used bl"

fun used_bytes :: "blk list \<Rightarrow> nat" where
  "used_bytes [] = 0"
| "used_bytes ((b, e, u) # bl) = (if u then e - b else 0) + used_bytes bl"

definition heap_inv :: "mem_state \<Rightarrow> blk list \<Rightarrow> bool" where
  "heap_inv s bl \<longleftrightarrow>
     rep (mems s) 0 bl MEM_SIZE_ALIGNED \<and> m_prev (mems s 0) = 0 \<and> m_used (mems s MEM_SIZE_ALIGNED)
     \<and> no_adjacent_free bl \<and> lfree s = lowest_free bl \<and> st_used (mem_stats s) = used_bytes bl
     \<and> ram s mod MEM_ALIGNMENT = 0 \<and> 0 < ram s"

text \<open>The invariant without \<open>no_adjacent_free\<close>: what holds between the steps of \<^verbatim>\<open>plug_holes\<close>.\<close>

definition heap_core :: "mem_state \<Rightarrow> blk list \<Rightarrow> bool" where
  "heap_core s bl \<longleftrightarrow>
     rep (mems s) 0 bl MEM_SIZE_ALIGNED \<and> m_prev (mems s 0) = 0 \<and> m_used (mems s MEM_SIZE_ALIGNED)
     \<and> lfree s = lowest_free bl \<and> st_used (mem_stats s) = used_bytes bl
     \<and> ram s mod MEM_ALIGNMENT = 0 \<and> 0 < ram s"

text \<open>The addresses a client holds.\<close>

definition mem_inv :: "mem_state \<Rightarrow> bool" where
  "mem_inv s \<longleftrightarrow> (\<exists>bl. heap_inv s bl)"

definition used_starts :: "blk list \<Rightarrow> nat set" where
  "used_starts bl = {b. \<exists>e. (b, e, True) \<in> set bl}"

definition mem_live :: "mem_state \<Rightarrow> addr set" where
  "mem_live s = {ram s + b + SIZEOF_STRUCT_MEM | b e bl. heap_inv s bl \<and> (b, e, True) \<in> set bl}"

text \<open>First fit: the lowest free block of at least \<open>n\<close> bytes, split when the rest can be a block.\<close>

fun alloc_spec :: "nat \<Rightarrow> blk list \<Rightarrow> (nat \<times> blk list) option" where
  "alloc_spec n [] = None"
| "alloc_spec n ((b, e, u) # bl) =
     (if \<not> u \<and> n \<le> e - b - 8
      then Some (b, if n + 20 \<le> e - b - 8 then (b, b + 8 + n, True) # (b + 8 + n, e, False) # bl
                    else (b, e, True) # bl)
      else map_option (\<lambda>(p, bl'). (p, (b, e, u) # bl')) (alloc_spec n bl))"

text \<open>Merging neighbouring free blocks, and freeing the block at offset \<open>b\<close>.\<close>

fun coalesce :: "blk list \<Rightarrow> blk list" where
  "coalesce ((b, e, False) # (b', e', False) # bl) = coalesce ((b, e', False) # bl)"
| "coalesce (x # bl) = x # coalesce bl"
| "coalesce [] = []"

definition free_spec :: "nat \<Rightarrow> blk list \<Rightarrow> blk list" where
  "free_spec b bl = coalesce (map (\<lambda>(x, e, u). (x, e, u \<and> x \<noteq> b)) bl)"

text \<open>Shrinking the block at offset \<open>b\<close> to \<open>n\<close> bytes: what is cut off joins a free successor.\<close>

fun trim_spec :: "nat \<Rightarrow> nat \<Rightarrow> blk list \<Rightarrow> blk list" where
  "trim_spec b n [] = []"
| "trim_spec b n ((x, e, u) # bl) =
     (if x \<noteq> b then (x, e, u) # trim_spec b n bl
      else if e - b - 8 = n then (x, e, u) # bl
      else case bl of
        (_, e', False) # bl' \<Rightarrow> (b, b + 8 + n, u) # (b + 8 + n, e', False) # bl'
      | _ \<Rightarrow> if n + 20 \<le> e - b - 8 then (b, b + 8 + n, u) # (b + 8 + n, e, False) # bl
             else (x, e, u) # bl)"

text \<open>The new struct of the two branches that cut: its fields, and the neighbours relinked.\<close>

definition trim_cut :: "nat \<Rightarrow> nat \<Rightarrow> nat \<Rightarrow> nat \<Rightarrow> mem_state \<Rightarrow> mem_state" where
  "trim_cut b m e d s =
     MEM_STATS_DEC_USED d
       (let s = set_next b m (set_prev m b (set_next m e (set_used m False s)))
        in if e \<noteq> MEM_SIZE_ALIGNED then set_prev e m s else s)"

section \<open>Lemmas on the block list\<close>

lemma rep_append: "rep h p (xs @ ys) q \<longleftrightarrow> (\<exists>r. rep h p xs r \<and> rep h r ys q)"
  by (induction xs arbitrary: p) auto

lemma rep_le: "rep h p bl q \<Longrightarrow> p \<le> q"
  by (induction bl arbitrary: p) fastforce+

lemma rep_bounds:
  "rep h p bl q \<Longrightarrow> (b, e, u) \<in> set bl \<Longrightarrow> p \<le> b \<and> b + 20 \<le> e \<and> e \<le> q \<and> b mod 4 = 0"
  by (induction bl arbitrary: p) (fastforce dest: rep_le)+

lemma rep_cong:
  assumes "rep h p bl q"
    and "\<And>b e u. (b, e, u) \<in> set bl \<Longrightarrow>
      m_next (h' b) = m_next (h b) \<and> m_used (h' b) = m_used (h b) \<and> m_prev (h' e) = m_prev (h e)"
  shows "rep h' p bl q"
  using assms by (induction bl arbitrary: p) fastforce+

text \<open>Blocks below \<open>p\<close> survive changes at or above \<open>p\<close> that leave \<open>prev\<close> of \<open>p\<close> alone.\<close>

lemma rep_below:
  assumes "rep h p bl q" and "\<And>x. x < q \<Longrightarrow> h' x = h x" and "m_prev (h' q) = m_prev (h q)"
  shows "rep h' p bl q"
  using assms(1)
proof (rule rep_cong)
  fix b e u assume "(b, e, u) \<in> set bl"
  then have "b + 20 \<le> e" "e \<le> q" using rep_bounds [OF assms(1)] by auto
  then show "m_next (h' b) = m_next (h b) \<and> m_used (h' b) = m_used (h b) \<and> m_prev (h' e) = m_prev (h e)"
    using assms(2) [of b] assms(2) [of e] assms(3) by (cases "e = q") auto
qed

lemma rep_above:
  assumes "rep h p bl q" and "\<And>x. p < x \<Longrightarrow> h' x = h x"
    and "m_next (h' p) = m_next (h p)" and "m_used (h' p) = m_used (h p)"
  shows "rep h' p bl q"
  using assms(1)
proof (rule rep_cong)
  fix b e u assume "(b, e, u) \<in> set bl"
  then have "p \<le> b" "b + 20 \<le> e" using rep_bounds [OF assms(1)] by auto
  then show "m_next (h' b) = m_next (h b) \<and> m_used (h' b) = m_used (h b) \<and> m_prev (h' e) = m_prev (h e)"
    using assms(2) [of b] assms(2) [of e] assms(3,4) by (cases "b = p") auto
qed

lemma no_adjacent_free_Cons:
  "no_adjacent_free ((b, e, u) # bl) \<longleftrightarrow>
   (u \<or> bl = [] \<or> snd (snd (hd bl))) \<and> no_adjacent_free bl"
  by (cases bl) auto

lemma no_adjacent_free_append:
  "no_adjacent_free (xs @ ys) \<longleftrightarrow>
   no_adjacent_free xs \<and> no_adjacent_free ys
   \<and> (xs = [] \<or> ys = [] \<or> snd (snd (last xs)) \<or> snd (snd (hd ys)))"
  by (induction xs rule: no_adjacent_free.induct) (auto simp: no_adjacent_free_Cons)

lemma used_bytes_append [simp]: "used_bytes (xs @ ys) = used_bytes xs + used_bytes ys"
  by (induction xs rule: used_bytes.induct) auto

lemma used_bytes_le: "rep h p bl q \<Longrightarrow> used_bytes bl \<le> q - p"
  by (induction bl arbitrary: p) (fastforce dest: rep_le)+

lemma lowest_free_append:
  "lowest_free (xs @ ys) = (if all_used xs then lowest_free ys else lowest_free xs)"
  by (induction xs rule: lowest_free.induct) auto

lemma lowest_free_split:
  "\<exists>xs ys. bl = xs @ ys \<and> all_used xs \<and> (ys = [] \<or> (\<exists>b e zs. ys = (b, e, False) # zs))"
proof (induction bl)
  case (Cons x bl)
  obtain b e u where x: "x = (b, e, u)" by (cases x)
  from Cons obtain xs ys where bl: "bl = xs @ ys" "all_used xs"
    "ys = [] \<or> (\<exists>b e zs. ys = (b, e, False) # zs)" by blast
  show ?case
  proof (cases u)
    case True
    then show ?thesis using bl x by (intro exI [of _ "x # xs"] exI [of _ ys]) simp
  next
    case False
    then show ?thesis using x by (intro exI [of _ "[]"] exI [of _ "x # bl"]) simp
  qed
qed simp

section \<open>mem\_malloc is first fit\<close>

lemma alloc_spec_append_used:
  "all_used xs \<Longrightarrow>
   alloc_spec n (xs @ ys) = map_option (\<lambda>(p, bl'). (p, xs @ bl')) (alloc_spec n ys)"
  by (induction xs) (auto simp: option.map_comp comp_def split_def option.map_ident)

lemma alloc_spec_None:
  "alloc_spec n bl = None \<longleftrightarrow> (\<forall>(b, e, u) \<in> set bl. u \<or> e - b - 8 < n)"
  by (induction n bl rule: alloc_spec.induct) auto

lemma alloc_spec_Some:
  "alloc_spec n bl = Some (p, bl') \<Longrightarrow>
   \<exists>xs e ys. bl = xs @ (p, e, False) # ys \<and> n \<le> e - p - 8
     \<and> bl' = xs @ (if n + 20 \<le> e - p - 8 then (p, p + 8 + n, True) # (p + 8 + n, e, False) # ys
                   else (p, e, True) # ys)"
proof (induction n bl arbitrary: bl' rule: alloc_spec.induct)
  case (2 n b e u bl)
  show ?case
  proof (cases "\<not> u \<and> n \<le> e - b - 8")
    case True
    with "2.prems" show ?thesis by (intro exI [of _ "[]"] exI [of _ e] exI [of _ bl]) auto
  next
    case False
    with "2.prems" obtain bl2 where "alloc_spec n bl = Some (p, bl2)" "bl' = (b, e, u) # bl2"
      by auto
    moreover from this "2.IH" [OF False] obtain xs e' ys where
      "bl = xs @ (p, e', False) # ys" "n \<le> e' - p - 8"
      "bl2 = xs @ (if n + 20 \<le> e' - p - 8 then (p, p + 8 + n, True) # (p + 8 + n, e', False) # ys
                   else (p, e', True) # ys)"
      by blast
    ultimately show ?thesis
      by (intro exI [of _ "(b, e, u) # xs"] exI [of _ e'] exI [of _ ys]) simp
  qed
qed simp

lemma mem_scan_alloc_spec:
  assumes "rep h p bl MEM_SIZE_ALIGNED"
  shows "mem_scan h n p = Some (map_option fst (alloc_spec n bl))"
  using assms
proof (induction bl arbitrary: p)
  case Nil
  have "\<not> MEM_SIZE_ALIGNED < MEM_SIZE_ALIGNED - n" by linarith
  with Nil show ?case by (subst mem_scan.simps) simp
next
  case (Cons x bl)
  obtain b e u where x: "x = (b, e, u)" by (cases x)
  with Cons.prems have blk: "p = b" "m_next (h b) = e" "m_used (h b) = u" "b + 20 \<le> e"
    and rest: "rep h e bl MEM_SIZE_ALIGNED" by auto
  have sub: "size_t_sub e (b + 8) = e - b - 8" using blk(4) by (simp add: size_t_sub_def)
  have IH: "mem_scan h n e = Some (map_option fst (alloc_spec n bl))" by (rule Cons.IH [OF rest])
  show ?case
  proof (cases "b < MEM_SIZE_ALIGNED - n")
    case True
    then show ?thesis
      using blk sub IH by (simp add: mem_scan.simps [of h n b] x option.map_comp comp_def split_def)
  next
    case False
    have "e' - b' - 8 < n" if "(b', e', u') \<in> set (x # bl)" for b' e' u'
      using rep_bounds [OF Cons.prems that] False blk(1) by linarith
    then have "alloc_spec n (x # bl) = None" unfolding alloc_spec_None by blast
    with False show ?thesis using blk(1) by (subst mem_scan.simps) simp
  qed
qed

lemma mem_next_free_lowest:
  "rep h p bl MEM_SIZE_ALIGNED \<Longrightarrow> mem_next_free h p = Some (lowest_free bl)"
proof (induction bl arbitrary: p)
  case Nil
  then show ?case by (simp add: mem_next_free.simps)
next
  case (Cons x bl)
  obtain b e u where x: "x = (b, e, u)" by (cases x)
  with Cons.prems have "p = b" "m_next (h b) = e" "m_used (h b) = u" "rep h e bl MEM_SIZE_ALIGNED"
    and "b < MEM_SIZE_ALIGNED" using rep_le by fastforce+
  then show ?case using Cons.IH [of e] by (simp add: mem_next_free.simps [of h b] x)
qed

text \<open>The search starts at \<open>lfree\<close>; nothing below it is free.\<close>

lemma heap_inv_lfree_rep:
  assumes "heap_inv s bl"
  obtains xs ys where "bl = xs @ ys" "all_used xs" "rep (mems s) (lfree s) ys MEM_SIZE_ALIGNED"
proof -
  obtain xs ys where bl: "bl = xs @ ys" "all_used xs"
    "ys = [] \<or> (\<exists>b e zs. ys = (b, e, False) # zs)"
    using lowest_free_split [of bl] by blast
  from assms obtain r where "rep (mems s) 0 xs r" and r: "rep (mems s) r ys MEM_SIZE_ALIGNED"
    and lf: "lfree s = lowest_free (xs @ ys)"
    unfolding heap_inv_def bl(1) rep_append by blast
  have "lfree s = lowest_free ys" using lf bl(2) by (simp add: lowest_free_append)
  also have "\<dots> = r" using bl(3) r by auto
  finally show ?thesis using that [OF bl(1,2)] r by simp
qed

lemma heap_inv_scan:
  assumes "heap_inv s bl"
  shows "mem_scan (mems s) n (lfree s) = Some (map_option fst (alloc_spec n bl))"
proof -
  obtain xs ys where bl: "bl = xs @ ys" "all_used xs"
    and ys: "rep (mems s) (lfree s) ys MEM_SIZE_ALIGNED"
    by (rule heap_inv_lfree_rep [OF assms])
  show ?thesis
    unfolding mem_scan_alloc_spec [OF ys] bl(1) alloc_spec_append_used [OF bl(2)]
    by (simp add: option.map_comp comp_def split_def)
qed

text \<open>
  Three ways a block list changes under the structs: a block is split in two, two neighbours are
  merged, a block changes hands. Each is stated over the fields that really differ.
\<close>

lemma rep_mark:
  assumes "rep h 0 (xs @ (b, e, u) # ys) MEM_SIZE_ALIGNED"
    and "h' = h(b := (h b)\<lparr>m_used := v\<rparr>)"
  shows "rep h' 0 (xs @ (b, e, v) # ys) MEM_SIZE_ALIGNED"
proof -
  from assms(1) have xs: "rep h 0 xs b" and ys: "rep h e ys MEM_SIZE_ALIGNED"
    and blk: "m_next (h b) = e" "b + 20 \<le> e" "b mod 4 = 0" "e \<noteq> MEM_SIZE_ALIGNED \<longrightarrow> m_prev (h e) = b"
    unfolding rep_append by auto
  have "rep h' 0 xs b" by (rule rep_below [OF xs]) (auto simp: assms(2))
  moreover have "rep h' e ys MEM_SIZE_ALIGNED"
    by (rule rep_above [OF ys]) (use blk(2) in \<open>auto simp: assms(2)\<close>)
  ultimately show ?thesis unfolding rep_append using blk by (auto simp: assms(2))
qed

lemma rep_split:
  assumes "rep h 0 (xs @ (b, e, u) # ys) MEM_SIZE_ALIGNED"
    and "b + 20 \<le> m" "m + 20 \<le> e" "m mod 4 = 0"
    and b: "m_next (h' b) = m" "m_used (h' b) = v" "m_prev (h' b) = m_prev (h b)"
    and m: "m_next (h' m) = e" "m_used (h' m) = w" "m_prev (h' m) = b"
    and e: "m_next (h' e) = m_next (h e)" "m_used (h' e) = m_used (h e)"
      "e \<noteq> MEM_SIZE_ALIGNED \<longrightarrow> m_prev (h' e) = m"
    and same: "\<And>x. x \<noteq> b \<Longrightarrow> x \<noteq> m \<Longrightarrow> x \<noteq> e \<Longrightarrow> h' x = h x"
  shows "rep h' 0 (xs @ (b, m, v) # (m, e, w) # ys) MEM_SIZE_ALIGNED"
proof -
  from assms(1) have xs: "rep h 0 xs b" and ys: "rep h e ys MEM_SIZE_ALIGNED"
    and blk: "b mod 4 = 0"
    unfolding rep_append by auto
  have "rep h' 0 xs b" by (rule rep_below [OF xs]) (use assms(2,3) b(3) same in auto)
  moreover have "rep h' e ys MEM_SIZE_ALIGNED"
    by (rule rep_above [OF ys]) (use assms(2,3) e same in auto)
  ultimately show ?thesis unfolding rep_append using blk assms(2-4) b m e by auto
qed

lemma rep_move:
  assumes "rep h 0 (xs @ (b, c, u) # (c, e, w) # ys) MEM_SIZE_ALIGNED"
    and "b + 20 \<le> m" "m + 20 \<le> e" "m mod 4 = 0"
    and b: "m_next (h' b) = m" "m_used (h' b) = u" "m_prev (h' b) = m_prev (h b)"
    and m: "m_next (h' m) = e" "m_used (h' m) = w" "m_prev (h' m) = b"
    and e: "m_next (h' e) = m_next (h e)" "m_used (h' e) = m_used (h e)"
      "e \<noteq> MEM_SIZE_ALIGNED \<longrightarrow> m_prev (h' e) = m"
    and same: "\<And>x. x \<noteq> b \<Longrightarrow> x \<noteq> m \<Longrightarrow> x \<noteq> e \<Longrightarrow> h' x = h x"
  shows "rep h' 0 (xs @ (b, m, u) # (m, e, w) # ys) MEM_SIZE_ALIGNED"
proof -
  from assms(1) have xs: "rep h 0 xs b" and ys: "rep h e ys MEM_SIZE_ALIGNED"
    and blk: "b mod 4 = 0"
    unfolding rep_append by auto
  have "rep h' 0 xs b" by (rule rep_below [OF xs]) (use assms(2,3) b(3) same in auto)
  moreover have "rep h' e ys MEM_SIZE_ALIGNED"
    by (rule rep_above [OF ys]) (use assms(2,3) e same in auto)
  ultimately show ?thesis unfolding rep_append using blk assms(2-4) b m e by auto
qed

lemma rep_merge:
  assumes "rep h 0 (xs @ (b, m, u) # (m, e, v) # ys) MEM_SIZE_ALIGNED"
    and b: "m_next (h' b) = e" "m_used (h' b) = u" "m_prev (h' b) = m_prev (h b)"
    and e: "m_next (h' e) = m_next (h e)" "m_used (h' e) = m_used (h e)" "m_prev (h' e) = b"
    and same: "\<And>x. x \<noteq> b \<Longrightarrow> x \<noteq> e \<Longrightarrow> h' x = h x"
  shows "rep h' 0 (xs @ (b, e, u) # ys) MEM_SIZE_ALIGNED"
proof -
  from assms(1) have xs: "rep h 0 xs b" and ys: "rep h e ys MEM_SIZE_ALIGNED"
    and blk: "b mod 4 = 0" "b + 20 \<le> m" "m + 20 \<le> e"
    unfolding rep_append by auto
  have "rep h' 0 xs b" by (rule rep_below [OF xs]) (use blk b(3) same in auto)
  moreover have "rep h' e ys MEM_SIZE_ALIGNED"
    by (rule rep_above [OF ys]) (use blk e same in auto)
  ultimately show ?thesis unfolding rep_append using blk b e by auto
qed

lemmas set_field_defs = set_next_def set_prev_def set_used_def

lemmas mem_stats_defs = MEM_STATS_INC_USED_def MEM_STATS_DEC_USED_def MEM_STATS_INC_err_def Let_def

lemma lowest_free_mem:
  "\<not> all_used xs \<Longrightarrow> \<exists>e. (lowest_free xs, e, False) \<in> set xs"
  by (induction xs rule: lowest_free.induct) auto

lemma lowest_free_less: "rep h p xs q \<Longrightarrow> \<not> all_used xs \<Longrightarrow> lowest_free xs < q"
  using lowest_free_mem rep_bounds by fastforce

lemma lowest_free_ge: "rep h p bl MEM_SIZE_ALIGNED \<Longrightarrow> p \<le> lowest_free bl"
  by (induction bl arbitrary: p) (fastforce dest: rep_le)+

text \<open>The end of \<^verbatim>\<open>mem_malloc\<close>: \<open>lfree\<close> is again the lowest free block.\<close>

lemma lfree_adjusted:
  assumes "rep h 0 (xs @ (b, e, False) # ys) MEM_SIZE_ALIGNED"
    and "rep h' 0 (xs @ zs) MEM_SIZE_ALIGNED" and "rep h' b zs MEM_SIZE_ALIGNED"
    and "lf = lowest_free (xs @ (b, e, False) # ys)"
  shows "(if b = lf then mem_next_free h' lf else Some lf) = Some (lowest_free (xs @ zs))"
proof (cases "all_used xs")
  case True
  then have "lf = b" using assms(4) by (simp add: lowest_free_append)
  with True show ?thesis
    using mem_next_free_lowest [OF assms(3)] by (simp add: lowest_free_append)
next
  case False
  moreover from assms(1) have "rep h 0 xs b" unfolding rep_append by auto
  ultimately have "lowest_free xs < b" using lowest_free_less by blast
  with False show ?thesis using assms(4) by (simp add: lowest_free_append)
qed

lemma norm_size_props: "12 \<le> norm_size sz" "norm_size sz mod 4 = 0"
proof -
  have "4 dvd LWIP_MEM_ALIGN_SIZE sz" by (simp add: LWIP_MEM_ALIGN_SIZE_def)
  then have "4 dvd to_u16 (LWIP_MEM_ALIGN_SIZE sz)"
    unfolding to_u16_def by (rule dvd_mod) simp
  then show "12 \<le> norm_size sz" "norm_size sz mod 4 = 0"
    by (auto simp: norm_size_def Let_def)
qed

lemma alloc_spec_too_big:
  assumes "heap_inv s bl" "n > MEM_SIZE_ALIGNED"
  shows "alloc_spec n bl = None"
  unfolding alloc_spec_None using assms rep_bounds unfolding heap_inv_def by fastforce

text \<open>The two updates of the structs, and that they carry the invariant over.\<close>

lemma mem_take_split:
  assumes inv: "heap_inv s (xs @ (b, e, False) # ys)" and n: "n + 20 \<le> e - b - 8" "12 \<le> n" "n mod 4 = 0"
    and s': "s' = mem_take b n s"
  shows "rep (mems s') 0 (xs @ (b, b + 8 + n, True) # (b + 8 + n, e, False) # ys) 16000
    \<and> m_prev (mems s' 0) = 0 \<and> m_used (mems s' 16000) \<and> ram s' = ram s \<and> lfree s' = lfree s
    \<and> st_used (mem_stats s') = used_bytes (xs @ (b, b + 8 + n, True) # (b + 8 + n, e, False) # ys)"
proof -
  define m where "m = b + 8 + n"
  from inv have r: "rep (mems s) 0 (xs @ (b, e, False) # ys) 16000"
    and z: "m_prev (mems s 0) = 0" "m_used (mems s 16000)"
    and u: "st_used (mem_stats s) = used_bytes (xs @ (b, e, False) # ys)"
    unfolding heap_inv_def by auto
  have b: "m_next (mems s b) = e" "b mod 4 = 0" using r unfolding rep_append by auto
  have bd: "b + 20 \<le> m" "m + 20 \<le> e" "e \<le> 16000" "m mod 4 = 0" "to_u16 (b + 8 + n) = m"
    using n b(2) rep_bounds [OF r, of b e False] by (auto simp: m_def mod_add_eq [symmetric])
  then have neq: "b \<noteq> m" "m \<noteq> e" "b \<noteq> e" "b \<noteq> 16000" "m \<noteq> 16000" "m \<noteq> 0" "e \<noteq> 0" by auto
  have take: "size_t_sub (m_next (mems s b)) (b + 8) \<ge> n + 8 + 12"
    using b n(1) by (simp add: size_t_sub_def)
  note s'_def = s' [unfolded mem_take_def Let_def if_P [OF take] bd(5)]
  have ms: "mems s' x = (if x = b then (mems s b)\<lparr>m_next := m, m_used := True\<rparr>
      else if x = m then \<lparr>m_next = e, m_prev = b, m_used = False\<rparr>
      else if x = e \<and> e \<noteq> 16000 then (mems s e)\<lparr>m_prev := m\<rparr> else mems s x)" for x
    using neq b by (simp add: s'_def set_field_defs mem_stats_defs)
  have rep': "rep (mems s') 0 (xs @ (b, m, True) # (m, e, False) # ys) 16000"
    by (rule rep_split [OF r bd(1,2,4)]) (use neq in \<open>simp_all add: ms\<close>)
  have "used_bytes (xs @ (b, m, True) # (m, e, False) # ys) \<le> 16000"
    using used_bytes_le [OF rep'] by simp
  moreover have "st_used (mem_stats s') = to_u16 (st_used (mem_stats s) + (n + 8))"
    by (simp add: s'_def set_field_defs mem_stats_defs)
  ultimately have "st_used (mem_stats s') = used_bytes (xs @ (b, m, True) # (m, e, False) # ys)"
    using u by (simp add: m_def)
  moreover have "ram s' = ram s" "lfree s' = lfree s"
    by (simp_all add: s'_def set_field_defs mem_stats_defs)
  moreover have "m_prev (mems s' 0) = 0" "m_used (mems s' 16000)"
    using z neq by (simp_all add: ms)
  ultimately show ?thesis using rep' by (simp add: m_def)
qed

lemma mem_take_whole:
  assumes inv: "heap_inv s (xs @ (b, e, False) # ys)" and n: "\<not> n + 20 \<le> e - b - 8"
    and s': "s' = mem_take b n s"
  shows "rep (mems s') 0 (xs @ (b, e, True) # ys) 16000
    \<and> m_prev (mems s' 0) = 0 \<and> m_used (mems s' 16000) \<and> ram s' = ram s \<and> lfree s' = lfree s
    \<and> st_used (mem_stats s') = used_bytes (xs @ (b, e, True) # ys)"
proof -
  from inv have r: "rep (mems s) 0 (xs @ (b, e, False) # ys) 16000"
    and z: "m_prev (mems s 0) = 0" "m_used (mems s 16000)"
    and u: "st_used (mem_stats s) = used_bytes (xs @ (b, e, False) # ys)"
    unfolding heap_inv_def by auto
  have b: "m_next (mems s b) = e" using r unfolding rep_append by auto
  have bd: "b + 20 \<le> e" "e \<le> 16000" using rep_bounds [OF r, of b e False] by auto
  have take: "\<not> size_t_sub (m_next (mems s b)) (b + 8) \<ge> n + 8 + 12"
    using b n bd by (simp add: size_t_sub_def)
  note s'_def = s' [unfolded mem_take_def Let_def if_not_P [OF take]]
  have ms: "mems s' = (mems s)(b := (mems s b)\<lparr>m_used := True\<rparr>)"
    by (simp add: s'_def set_field_defs mem_stats_defs)
  have rep': "rep (mems s') 0 (xs @ (b, e, True) # ys) 16000" by (rule rep_mark [OF r ms])
  have "to_u16 (e + 65536 - b) = e - b"
    using bd by (intro to_u16_sub) linarith+
  then have "st_used (mem_stats s') = to_u16 (st_used (mem_stats s) + (e - b))"
    using b by (simp add: s'_def set_field_defs mem_stats_defs)
  moreover have "used_bytes (xs @ (b, e, True) # ys) \<le> 16000" using used_bytes_le [OF rep'] by simp
  ultimately have "st_used (mem_stats s') = used_bytes (xs @ (b, e, True) # ys)" using u by simp
  moreover have "ram s' = ram s" "lfree s' = lfree s" "m_prev (mems s' 0) = 0" "m_used (mems s' 16000)"
    using z by (simp_all add: s'_def set_field_defs mem_stats_defs)
  ultimately show ?thesis using rep' by simp
qed

text \<open>On a well-formed heap \<^verbatim>\<open>mem_malloc\<close> returns, trips no assertion and is first fit.\<close>

lemma mem_malloc_Some:
  assumes inv: "heap_inv s bl" and "0 < sz" and alloc: "alloc_spec (norm_size sz) bl = Some (b, bl')"
  shows "\<exists>s'. mem_malloc sz s = Some (ram s + b + 8, s') \<and> heap_inv s' bl' \<and> ram s' = ram s"
proof -
  define n where "n = norm_size sz"
  have n: "12 \<le> n" "n mod 4 = 0" by (simp_all add: n_def norm_size_props)
  obtain xs e ys where bl: "bl = xs @ (b, e, False) # ys" and fit: "n \<le> e - b - 8"
    and bl': "bl' = xs @ (if n + 20 \<le> e - b - 8 then (b, b + 8 + n, True) # (b + 8 + n, e, False) # ys
                   else (b, e, True) # ys)"
    using alloc_spec_Some [OF alloc] unfolding n_def by blast
  define split where "split = (n + 20 \<le> e - b - 8)"
  define zs where "zs = (if split then (b, b + 8 + n, True) # (b + 8 + n, e, False) # ys else (b, e, True) # ys)"
  define s1 where "s1 = mem_take b n s"
  have inv1: "heap_inv s (xs @ (b, e, False) # ys)" using inv bl by simp
  then have r: "rep (mems s) 0 (xs @ (b, e, False) # ys) 16000"
    and al: "ram s mod 4 = 0" "0 < ram s" and lf: "lfree s = lowest_free (xs @ (b, e, False) # ys)"
    and adj: "no_adjacent_free (xs @ (b, e, False) # ys)"
    unfolding heap_inv_def by auto
  have blk: "m_next (mems s b) = e" "b + 20 \<le> e" "b mod 4 = 0" using r unfolding rep_append by auto
  have e: "e \<le> 16000" using rep_bounds [OF r, of b e False] by simp
  have s1: "rep (mems s1) 0 (xs @ zs) 16000 \<and> m_prev (mems s1 0) = 0 \<and> m_used (mems s1 16000)
      \<and> ram s1 = ram s \<and> lfree s1 = lfree s \<and> st_used (mem_stats s1) = used_bytes (xs @ zs)"
  proof (cases split)
    case True
    then show ?thesis
      using mem_take_split [OF inv1 _ n s1_def] by (simp add: zs_def split_def)
  next
    case False
    then show ?thesis
      using mem_take_whole [OF inv1 _ s1_def] by (simp add: zs_def split_def)
  qed
  then have "rep (mems s1) b zs 16000" unfolding rep_append zs_def by (auto split: if_splits)
  then have lfree: "(if b = lfree s1 then mem_next_free (mems s1) (lfree s1) else Some (lfree s1))
      = Some (lowest_free (xs @ zs))"
    using s1 lfree_adjusted [OF r, of "mems s1" zs "lfree s1"] lf by simp
  have "no_adjacent_free (xs @ zs)"
    using adj by (auto simp: zs_def no_adjacent_free_append no_adjacent_free_Cons)
  then have "heap_inv (s1\<lparr>lfree := lowest_free (xs @ zs)\<rparr>) bl'"
    using s1 al unfolding heap_inv_def bl' by (simp add: zs_def split_def)
  moreover have "mem_malloc sz s = Some (ram s + b + 8, s1\<lparr>lfree := lowest_free (xs @ zs)\<rparr>)"
  proof -
    have scan: "mem_scan (mems s) n (lfree s) = Some (Some b)"
      using heap_inv_scan [OF inv, of n] alloc by (simp add: n_def)
    have "b + 8 + n \<le> 16000" using fit e blk(2) by linarith
    moreover have "(ram s + b + 8) mod 4 = 0" "(ram s + b) mod 4 = 0"
      using al(1) blk(3) by (simp_all add: mod_add_eq [symmetric])
    ultimately show ?thesis
      using assms(2) scan lfree s1 unfolding mem_malloc_def
      by (simp add: Let_def flip: n_def s1_def)
  qed
  ultimately show ?thesis using s1 by auto
qed

lemma mem_malloc_None:
  assumes inv: "heap_inv s bl" and alloc: "alloc_spec (norm_size sz) bl = None"
  shows "\<exists>s'. mem_malloc sz s = Some (NULL, s') \<and> heap_inv s' bl \<and> ram s' = ram s"
proof (cases "sz = 0 \<or> norm_size sz > 16000")
  case True
  then have "mem_malloc sz s = Some (NULL, s)" by (auto simp: mem_malloc_def Let_def)
  with inv show ?thesis by blast
next
  case False
  then have "mem_malloc sz s = Some (NULL, MEM_STATS_INC_err s)"
    using heap_inv_scan [OF inv, of "norm_size sz"] alloc by (simp add: mem_malloc_def Let_def)
  moreover have "heap_inv (MEM_STATS_INC_err s) bl"
    using inv by (simp add: heap_inv_def mem_stats_defs)
  ultimately show ?thesis by (simp add: mem_stats_defs)
qed

lemma mem_malloc_nonnull:
  assumes "heap_inv s bl" "mem_malloc sz s = Some (p, s')" "p \<noteq> NULL"
  obtains b bl' where "alloc_spec (norm_size sz) bl = Some (b, bl')" "p = ram s + b + 8"
    "heap_inv s' bl'" "ram s' = ram s"
proof -
  have sz: "0 < sz" using assms(2,3) by (cases "sz = 0") (auto simp: mem_malloc_def)
  show ?thesis
  proof (cases "alloc_spec (norm_size sz) bl")
    case None
    then show ?thesis using mem_malloc_None [OF assms(1) None] assms(2,3) by simp
  next
    case (Some r)
    obtain b bl' where r: "alloc_spec (norm_size sz) bl = Some (b, bl')" using Some by (cases r) auto
    show ?thesis using mem_malloc_Some [OF assms(1) sz r] assms(2) that [OF r] by auto
  qed
qed

lemma mem_malloc_0 [simp]: "mem_malloc 0 s = Some (NULL, s)"
  by (simp add: mem_malloc_def)

section \<open>mem\_init\<close>

lemma mem_init_inv:
  assumes "0 < ram_heap" and "st_used (mem_stats s) = 0"
  shows "heap_inv (mem_init ram_heap s) [(0, MEM_SIZE_ALIGNED, False)]"
  using assms
  by (simp add: heap_inv_def mem_init_def set_field_defs Let_def LWIP_MEM_ALIGN_SIZE_def)

section \<open>mem\_free merges with both neighbours\<close>

lemma heap_inv_core: "heap_inv s bl \<longleftrightarrow> heap_core s bl \<and> no_adjacent_free bl"
  by (auto simp: heap_inv_def heap_core_def)

lemma coalesce_id [simp]: "no_adjacent_free bl \<Longrightarrow> coalesce bl = bl"
  by (induction bl rule: coalesce.induct) (auto simp: no_adjacent_free_Cons)

lemma coalesce_append_used:
  "coalesce (xs @ (b, e, True) # ys) = coalesce xs @ (b, e, True) # coalesce ys"
  by (induction xs rule: coalesce.induct) (auto simp: neq_Nil_conv)

lemma plug_forward_merge:
  assumes "heap_core s (xs @ (b, m, False) # (m, e, False) # ys)"
  shows "heap_core (plug_forward b s) (xs @ (b, e, False) # ys)
    \<and> ram (plug_forward b s) = ram s"
proof -
  from assms have r: "rep (mems s) 0 (xs @ (b, m, False) # (m, e, False) # ys) 16000"
    and z: "m_prev (mems s 0) = 0" "m_used (mems s 16000)"
    and lf: "lfree s = lowest_free (xs @ (b, m, False) # (m, e, False) # ys)"
    and rest: "st_used (mem_stats s) = used_bytes (xs @ (b, m, False) # (m, e, False) # ys)"
      "ram s mod 4 = 0" "0 < ram s"
    unfolding heap_core_def by auto
  have b: "m_next (mems s b) = m" "m_next (mems s m) = e" "\<not> m_used (mems s m)" "\<not> m_used (mems s b)"
    using r unfolding rep_append by auto
  have bd: "b + 20 \<le> m" "m + 20 \<le> e" "e \<le> 16000"
    using rep_bounds [OF r, of b m False] rep_bounds [OF r, of m e False] by auto
  then have neq: "b \<noteq> m" "m \<noteq> e" "b \<noteq> e" "b \<noteq> 16000" "m \<noteq> 16000" "m \<noteq> 0" "e \<noteq> 0" by auto
  have "lfree s \<noteq> m"
  proof (cases "all_used xs")
    case False
    moreover from r have "rep (mems s) 0 xs b" unfolding rep_append by auto
    ultimately have "lowest_free xs < b" using lowest_free_less by blast
    then show ?thesis using False lf bd by (simp add: lowest_free_append)
  qed (use lf neq in \<open>simp add: lowest_free_append\<close>)
  then have s': "plug_forward b s = set_prev e b (set_next b e s)"
    using b neq by (simp add: plug_forward_def Let_def set_field_defs)
  have ms: "mems (plug_forward b s) x = (if x = b then (mems s b)\<lparr>m_next := e\<rparr>
      else if x = e then (mems s e)\<lparr>m_prev := b\<rparr> else mems s x)" for x
    using neq by (simp add: s' set_field_defs)
  have "rep (mems (plug_forward b s)) 0 (xs @ (b, e, False) # ys) 16000"
    by (rule rep_merge [OF r]) (use b neq in \<open>simp_all add: ms\<close>)
  moreover have "m_prev (mems (plug_forward b s) 0) = 0" "m_used (mems (plug_forward b s) 16000)"
    using z neq by (simp_all add: ms)
  moreover have "lfree (plug_forward b s) = lfree s" "ram (plug_forward b s) = ram s"
    "mem_stats (plug_forward b s) = mem_stats s" by (simp_all add: s' set_field_defs)
  ultimately show ?thesis using lf rest by (simp add: heap_core_def lowest_free_append)
qed

lemma plug_forward_none:
  assumes "heap_core s (xs @ (b, e, False) # ys)" and "ys = [] \<or> snd (snd (hd ys))"
  shows "plug_forward b s = s"
proof -
  from assms(1) have b: "m_next (mems s b) = e" "rep (mems s) e ys 16000" "m_used (mems s 16000)"
    unfolding heap_core_def rep_append by auto
  with assms(2) have "m_used (mems s e)" by (cases ys) auto
  with b show ?thesis by (simp add: plug_forward_def)
qed

lemma plug_backward_merge:
  assumes "heap_core s (xs @ (p, b, False) # (b, e, False) # ys)"
  shows "heap_core (plug_backward b s) (xs @ (p, e, False) # ys)
    \<and> ram (plug_backward b s) = ram s"
proof -
  from assms have r: "rep (mems s) 0 (xs @ (p, b, False) # (b, e, False) # ys) 16000"
    and z: "m_prev (mems s 0) = 0" "m_used (mems s 16000)"
    and lf: "lfree s = lowest_free (xs @ (p, b, False) # (b, e, False) # ys)"
    and rest: "st_used (mem_stats s) = used_bytes (xs @ (p, b, False) # (b, e, False) # ys)"
      "ram s mod 4 = 0" "0 < ram s"
    unfolding heap_core_def by auto
  have bd: "p + 20 \<le> b" "b + 20 \<le> e" "e \<le> 16000"
    using rep_bounds [OF r, of p b False] rep_bounds [OF r, of b e False] by auto
  then have neq: "p \<noteq> b" "b \<noteq> e" "p \<noteq> e" "p \<noteq> 16000" "b \<noteq> 16000" "b \<noteq> 0" "e \<noteq> 0" by auto
  have b: "m_next (mems s p) = b" "m_next (mems s b) = e" "m_prev (mems s b) = p" "\<not> m_used (mems s p)"
    using r neq unfolding rep_append by auto
  have "lfree s \<noteq> b"
  proof (cases "all_used xs")
    case False
    moreover from r have "rep (mems s) 0 xs p" unfolding rep_append by auto
    ultimately have "lowest_free xs < p" using lowest_free_less by blast
    then show ?thesis using False lf bd by (simp add: lowest_free_append)
  qed (use lf neq in \<open>simp add: lowest_free_append\<close>)
  then have s': "plug_backward b s = set_prev e p (set_next p e s)"
    using b neq by (simp add: plug_backward_def Let_def set_field_defs)
  have ms: "mems (plug_backward b s) x = (if x = p then (mems s p)\<lparr>m_next := e\<rparr>
      else if x = e then (mems s e)\<lparr>m_prev := p\<rparr> else mems s x)" for x
    using neq by (simp add: s' set_field_defs)
  have "rep (mems (plug_backward b s)) 0 (xs @ (p, e, False) # ys) 16000"
    by (rule rep_merge [OF r]) (use b neq in \<open>simp_all add: ms\<close>)
  moreover have "m_prev (mems (plug_backward b s) 0) = 0" "m_used (mems (plug_backward b s) 16000)"
    using z neq by (simp_all add: ms)
  moreover have "lfree (plug_backward b s) = lfree s" "ram (plug_backward b s) = ram s"
    "mem_stats (plug_backward b s) = mem_stats s" by (simp_all add: s' set_field_defs)
  ultimately show ?thesis using lf rest by (simp add: heap_core_def lowest_free_append)
qed

lemma plug_backward_none:
  assumes "heap_core s (xs @ (b, e, False) # ys)" and "xs = [] \<or> snd (snd (last xs))"
  shows "plug_backward b s = s"
proof (cases xs rule: rev_cases)
  case Nil
  with assms(1) have "b = 0" "m_prev (mems s 0) = 0" unfolding heap_core_def by auto
  then show ?thesis by (simp add: plug_backward_def)
next
  case (snoc zs z)
  obtain p b' where z: "z = (p, b', True)" using assms(2) snoc by (cases z) auto
  have r: "rep (mems s) 0 (xs @ (b, e, False) # ys) 16000" using assms(1) unfolding heap_core_def by simp
  then have "b < 16000" using rep_bounds [OF r, of b e False] by auto
  then have "m_prev (mems s b) = p" "m_used (mems s p)"
    using r unfolding snoc z append_assoc rep_append by auto
  then show ?thesis by (simp add: plug_backward_def)
qed

lemma coalesce_prefix:
  assumes "no_adjacent_free xs" and "xs = [] \<or> snd (snd (last xs))"
  shows "coalesce (xs @ zs) = xs @ coalesce zs"
proof (cases xs rule: rev_cases)
  case (snoc ws w)
  then obtain a c where w: "w = (a, c, True)" using assms(2) by (cases w) auto
  have "coalesce ws = ws" using assms(1) snoc by (simp add: no_adjacent_free_append)
  then show ?thesis using coalesce_append_used [of ws a c zs] by (simp add: snoc w)
qed simp

lemma no_adjacent_free_snocE:
  assumes "no_adjacent_free xs"
  obtains "xs = [] \<or> snd (snd (last xs))"
  | zs p e where "xs = zs @ [(p, e, False)]" "no_adjacent_free zs" "zs = [] \<or> snd (snd (last zs))"
proof (cases xs rule: rev_cases)
  case (snoc zs z)
  obtain p e u where z: "z = (p, e, u)" by (cases z)
  show ?thesis
  proof (cases u)
    case False
    then show ?thesis using that(2) [of zs p e] assms snoc z by (auto simp: no_adjacent_free_append)
  qed (use that(1) snoc z in auto)
qed (use that(1) in auto)

lemma plug_forward_coalesce:
  assumes "heap_core s (xs @ (b, e, False) # ys)" "no_adjacent_free ys"
  obtains e' ys' where "heap_core (plug_forward b s) (xs @ (b, e', False) # ys')"
    "ram (plug_forward b s) = ram s" "no_adjacent_free ((b, e', False) # ys')"
    "\<And>p. coalesce ((p, e, False) # ys) = (p, e', False) # ys'"
proof (cases "ys = [] \<or> snd (snd (hd ys))")
  case True
  then have "no_adjacent_free ((p, e, False) # ys)" for p
    using assms(2) by (auto simp: no_adjacent_free_Cons)
  moreover have "plug_forward b s = s" by (rule plug_forward_none [OF assms(1) True])
  ultimately show ?thesis using that [of e ys] assms(1) coalesce_id by simp
next
  case False
  then obtain m e' ys' where ys: "ys = (m, e', False) # ys'" by (cases ys) auto
  have m: "m = e" using assms(1) unfolding heap_core_def rep_append ys by auto
  have "no_adjacent_free ((p, e', False) # ys')" for p
    using assms(2) ys by (auto simp: no_adjacent_free_Cons)
  then show ?thesis
    using that [of e' ys'] plug_forward_merge [of s xs b e e' ys'] assms(1) coalesce_id
    by (simp add: ys m)
qed

lemma plug_holes_coalesce:
  assumes core: "heap_core s (xs @ (b, e, False) # ys)" and "no_adjacent_free xs" "no_adjacent_free ys"
  shows "\<exists>s'. plug_holes b s = Some s' \<and> heap_inv s' (coalesce (xs @ (b, e, False) # ys)) \<and> ram s' = ram s"
proof -
  define s1 where "s1 = plug_forward b s"
  obtain e' ys' where s1: "heap_core s1 (xs @ (b, e', False) # ys')" "ram s1 = ram s"
    and adj: "no_adjacent_free ((b, e', False) # ys')"
    and co: "\<And>p. coalesce ((p, e, False) # ys) = (p, e', False) # ys'"
    using plug_forward_coalesce [OF core assms(3)] unfolding s1_def by metis
  have r: "rep (mems s) 0 (xs @ (b, e, False) # ys) 16000" using core unfolding heap_core_def by simp
  have plug: "plug_holes b s = Some (plug_backward b s1)"
    using rep_bounds [OF r, of b e False] r unfolding plug_holes_def s1_def rep_append by auto
  from assms(2) show ?thesis
  proof (cases rule: no_adjacent_free_snocE)
    case 1
    then have "no_adjacent_free (xs @ (b, e', False) # ys')"
      using assms(2) adj by (auto simp: no_adjacent_free_append)
    moreover have "plug_backward b s1 = s1" by (rule plug_backward_none [OF s1(1) 1])
    ultimately show ?thesis
      using s1 plug by (simp add: coalesce_prefix [OF assms(2) 1] co heap_inv_core)
  next
    case (2 zs p c)
    have c: "c = b" using s1(1) unfolding heap_core_def 2(1) append_assoc rep_append by auto
    have "no_adjacent_free (zs @ (p, e', False) # ys')"
      using 2 adj by (auto simp: no_adjacent_free_append no_adjacent_free_Cons)
    moreover have "coalesce (xs @ (b, e, False) # ys) = zs @ (p, e', False) # ys'"
      using coalesce_prefix [OF 2(2,3)] co by (simp add: 2(1))
    ultimately show ?thesis
      using plug_backward_merge [of s1 zs p b e' ys'] s1 plug by (simp add: heap_inv_core 2(1) c)
  qed
qed

lemma map_free_mark:
  assumes "rep h 0 (xs @ (b, e, u) # ys) q"
  shows "map (\<lambda>(x, e, u). (x, e, u \<and> x \<noteq> b)) (xs @ (b, e, u) # ys) = xs @ (b, e, False) # ys"
proof -
  from assms have "rep h 0 xs b" "rep h e ys q" "b + 20 \<le> e" unfolding rep_append by auto
  then have "x \<noteq> b" if "(x, e', u') \<in> set xs \<union> set ys" for x e' u'
    using that rep_bounds by fastforce
  then have "map (\<lambda>(x, e, u). (x, e, u \<and> x \<noteq> b)) xs = xs" "map (\<lambda>(x, e, u). (x, e, u \<and> x \<noteq> b)) ys = ys"
    by (auto intro!: map_idI)
  then show ?thesis by simp
qed

text \<open>
  Freeing a block in use never trips an assertion, and the result is the block list with that
  block marked free and merged with its free neighbours.
\<close>

lemma mem_free_refines:
  assumes inv: "heap_inv s bl" and "(b, e, True) \<in> set bl"
  shows "\<exists>s'. mem_free (ram s + b + 8) s = Some s' \<and> heap_inv s' (free_spec b bl) \<and> ram s' = ram s"
proof -
  obtain xs ys where bl: "bl = xs @ (b, e, True) # ys" using assms(2) by (meson split_list)
  from inv have r: "rep (mems s) 0 (xs @ (b, e, True) # ys) 16000"
    and z: "m_prev (mems s 0) = 0" "m_used (mems s 16000)"
    and lf: "lfree s = lowest_free (xs @ (b, e, True) # ys)"
    and adj: "no_adjacent_free xs" "no_adjacent_free ys"
    and u: "st_used (mem_stats s) = used_bytes (xs @ (b, e, True) # ys)"
    and al: "ram s mod 4 = 0" "0 < ram s"
    unfolding heap_inv_def bl by (auto simp: no_adjacent_free_append no_adjacent_free_Cons)
  have bd: "b + 20 \<le> e" "e \<le> 16000" "b mod 4 = 0" using rep_bounds [OF r, of b e True] by auto
  have b: "m_next (mems s b) = e" "m_used (mems s b)" "rep (mems s) 0 xs b" "rep (mems s) e ys 16000"
    using r unfolding rep_append by auto
  have sz: "to_u16 (e + 65536 - b) = e - b"
    using bd by (intro to_u16_sub) linarith+
  define s1 where "s1 = MEM_STATS_DEC_USED (e - b)
    (let s = set_used b False s in if b < lfree s then s\<lparr>lfree := b\<rparr> else s)"
  have rep1: "rep (mems s1) 0 (xs @ (b, e, False) # ys) 16000"
    by (rule rep_mark [OF r]) (simp add: s1_def set_field_defs mem_stats_defs)
  have "used_bytes xs + used_bytes ys \<le> 16000" using used_bytes_le [OF rep1] by simp
  then have u1: "st_used (mem_stats s1) = used_bytes (xs @ (b, e, False) # ys)"
    using u bd to_u16_sub [of "e - b" "used_bytes xs + (e - b) + used_bytes ys"]
    by (simp add: s1_def set_field_defs mem_stats_defs)
  have ge: "e \<le> lowest_free ys" by (rule lowest_free_ge [OF b(4)])
  have lf1: "lfree s1 = lowest_free (xs @ (b, e, False) # ys)"
  proof (cases "all_used xs")
    case True
    then show ?thesis
      using lf ge bd by (simp add: s1_def set_field_defs mem_stats_defs lowest_free_append)
  next
    case False
    then have "lowest_free xs < b" using lowest_free_less [OF b(3)] by blast
    with False show ?thesis
      using lf by (simp add: s1_def set_field_defs mem_stats_defs lowest_free_append)
  qed
  have "heap_core s1 (xs @ (b, e, False) # ys)" "ram s1 = ram s"
    using rep1 u1 lf1 z al bd unfolding heap_core_def
    by (simp_all add: s1_def set_field_defs mem_stats_defs)
  from plug_holes_coalesce [OF this(1) adj] this(2) obtain s' where
    s': "plug_holes b s1 = Some s'" "heap_inv s' (coalesce (xs @ (b, e, False) # ys))" "ram s' = ram s"
    by auto
  have "(ram s + b + 8) mod 4 = 0" using al(1) bd(3) by (simp add: mod_add_eq [symmetric])
  then have "mem_free (ram s + b + 8) s = Some s'"
    using b(1,2) bd s'(1) al(2) sz
    by (cases "b < lfree s") (simp_all add: mem_free_def Let_def s1_def set_field_defs)
  then show ?thesis using s' map_free_mark [OF r] by (simp add: free_spec_def bl)
qed

section \<open>mem\_trim gives back what it cuts off\<close>

lemma trim_spec_skip:
  assumes "rep h 0 (xs @ (b, e, u) # ys) q"
  shows "trim_spec b n (xs @ (b, e, u) # ys) = xs @ trim_spec b n ((b, e, u) # ys)"
proof -
  from assms have "rep h 0 xs b" unfolding rep_append by auto
  then have "b \<notin> fst ` set xs" using rep_bounds by fastforce
  then show ?thesis by (induction xs) auto
qed

lemma trim_cut_mems:
  assumes "b \<noteq> m" "m \<noteq> e" "b \<noteq> e"
  shows "mems (trim_cut b m e d s) x = (if x = b then (mems s b)\<lparr>m_next := m\<rparr>
      else if x = m then \<lparr>m_next = e, m_prev = b, m_used = False\<rparr>
      else if x = e \<and> e \<noteq> 16000 then (mems s e)\<lparr>m_prev := m\<rparr> else mems s x)"
  using assms by (simp add: trim_cut_def set_field_defs mem_stats_defs)

lemma trim_cut_other [simp]:
  "ram (trim_cut b m e d s) = ram s" "lfree (trim_cut b m e d s) = lfree s"
  "st_used (mem_stats (trim_cut b m e d s)) = to_u16 (st_used (mem_stats s) + 65536 - d)"
  by (simp_all add: trim_cut_def set_field_defs mem_stats_defs)

lemma trim_cut_lfree:
  "trim_cut b m e d (if c then s\<lparr>lfree := l\<rparr> else s)
   = (trim_cut b m e d s)\<lparr>lfree := (if c then l else lfree s)\<rparr>"
  by (cases s) (simp add: trim_cut_def set_field_defs mem_stats_defs)

text \<open>What every use of \<open>trim_cut\<close> keeps of the invariant once the block list is known.\<close>

lemma trim_cut_inv:
  assumes inv: "heap_inv s bl" and rep': "rep (mems (trim_cut b m e d s)) 0 bl' 16000"
    and "no_adjacent_free bl'" "used_bytes bl = used_bytes bl' + d"
    and "b < m" "m < e" "e \<le> 16000"
  shows "heap_inv ((trim_cut b m e d s)\<lparr>lfree := lowest_free bl'\<rparr>) bl'"
proof -
  have "used_bytes bl' + d \<le> 16000"
    using used_bytes_le [of "mems s" 0 bl 16000] inv assms(4) unfolding heap_inv_def by simp
  then have "to_u16 (used_bytes bl + 65536 - d) = used_bytes bl'"
    using to_u16_sub [of d "used_bytes bl"] assms(4) by simp
  moreover have "m_prev (mems (trim_cut b m e d s) 0) = 0" "m_used (mems (trim_cut b m e d s) 16000)"
    using inv assms(5-7) unfolding heap_inv_def by (auto simp: trim_cut_mems)
  ultimately show ?thesis using inv rep' assms(3) unfolding heap_inv_def by simp
qed

lemma trim_move_inv:
  assumes inv: "heap_inv s (xs @ (b, c, True) # (c, e, False) # ys)"
    and m: "m = b + 8 + n" "n < c - b - 8" "12 \<le> n" "n mod 4 = 0"
  shows "heap_inv (trim_cut b m e (c - b - 8 - n) (if lfree s = c then s\<lparr>lfree := m\<rparr> else s))
    (xs @ (b, m, True) # (m, e, False) # ys)"
proof -
  define t where "t = trim_cut b m e (c - b - 8 - n) s"
  from inv have r: "rep (mems s) 0 (xs @ (b, c, True) # (c, e, False) # ys) 16000"
    and lf: "lfree s = lowest_free (xs @ (b, c, True) # (c, e, False) # ys)"
    unfolding heap_inv_def by auto
  have bd: "b + 20 \<le> c" "c + 20 \<le> e" "e \<le> 16000" "b mod 4 = 0"
    using rep_bounds [OF r, of b c True] rep_bounds [OF r, of c e False] by auto
  have m': "b + 20 \<le> m" "m + 20 \<le> e" "m mod 4 = 0" "m < c"
    using m bd by (auto simp: mod_add_eq [symmetric])
  then have ms: "mems t x = (if x = b then (mems s b)\<lparr>m_next := m\<rparr>
      else if x = m then \<lparr>m_next = e, m_prev = b, m_used = False\<rparr>
      else if x = e \<and> e \<noteq> 16000 then (mems s e)\<lparr>m_prev := m\<rparr> else mems s x)" for x
    unfolding t_def by (intro trim_cut_mems) auto
  have "m_used (mems s b)" "rep (mems s) 0 xs b" using r unfolding rep_append by auto
  then have "rep (mems t) 0 (xs @ (b, m, True) # (m, e, False) # ys) 16000"
    by (intro rep_move [OF r m'(1-3)]) (use m' in \<open>auto simp: ms\<close>)
  moreover have "no_adjacent_free (xs @ (b, m, True) # (m, e, False) # ys)"
    using inv unfolding heap_inv_def by (auto simp: no_adjacent_free_append no_adjacent_free_Cons)
  ultimately have "heap_inv (t\<lparr>lfree := lowest_free (xs @ (b, m, True) # (m, e, False) # ys)\<rparr>)
      (xs @ (b, m, True) # (m, e, False) # ys)"
    unfolding t_def by (rule trim_cut_inv [OF inv]) (use m m' bd in auto)
  moreover have "lowest_free (xs @ (b, m, True) # (m, e, False) # ys) = (if lfree s = c then m else lfree s)"
    using lf lowest_free_less [OF \<open>rep (mems s) 0 xs b\<close>] bd(1) by (auto simp: lowest_free_append)
  ultimately show ?thesis unfolding trim_cut_lfree t_def by simp
qed

lemma trim_split_inv:
  assumes inv: "heap_inv s (xs @ (b, e, True) # ys)"
    and m: "m = b + 8 + n" "n + 20 \<le> e - b - 8" "12 \<le> n" "n mod 4 = 0"
    and ys: "ys = [] \<or> snd (snd (hd ys))"
  shows "heap_inv (trim_cut b m e (e - b - 8 - n) (if m < lfree s then s\<lparr>lfree := m\<rparr> else s))
    (xs @ (b, m, True) # (m, e, False) # ys)"
proof -
  define t where "t = trim_cut b m e (e - b - 8 - n) s"
  from inv have r: "rep (mems s) 0 (xs @ (b, e, True) # ys) 16000"
    and lf: "lfree s = lowest_free (xs @ (b, e, True) # ys)"
    unfolding heap_inv_def by auto
  have bd: "b + 20 \<le> e" "e \<le> 16000" "b mod 4 = 0"
    using rep_bounds [OF r, of b e True] by auto
  have m': "b + 20 \<le> m" "m + 20 \<le> e" "m mod 4 = 0"
    using m bd by (auto simp: mod_add_eq [symmetric])
  then have ms: "mems t x = (if x = b then (mems s b)\<lparr>m_next := m\<rparr>
      else if x = m then \<lparr>m_next = e, m_prev = b, m_used = False\<rparr>
      else if x = e \<and> e \<noteq> 16000 then (mems s e)\<lparr>m_prev := m\<rparr> else mems s x)" for x
    unfolding t_def by (intro trim_cut_mems) auto
  have b: "m_used (mems s b)" "rep (mems s) 0 xs b" "rep (mems s) e ys 16000"
    using r unfolding rep_append by auto
  then have "rep (mems t) 0 (xs @ (b, m, True) # (m, e, False) # ys) 16000"
    by (intro rep_split [OF r m']) (use m' in \<open>auto simp: ms\<close>)
  moreover have "no_adjacent_free (xs @ (b, m, True) # (m, e, False) # ys)"
    using inv ys unfolding heap_inv_def by (auto simp: no_adjacent_free_append no_adjacent_free_Cons)
  ultimately have "heap_inv (t\<lparr>lfree := lowest_free (xs @ (b, m, True) # (m, e, False) # ys)\<rparr>)
      (xs @ (b, m, True) # (m, e, False) # ys)"
    unfolding t_def by (rule trim_cut_inv [OF inv]) (use m m' bd in auto)
  moreover have "lowest_free (xs @ (b, m, True) # (m, e, False) # ys) = (if m < lfree s then m else lfree s)"
    using lf lowest_free_less [OF b(2)] lowest_free_ge [OF b(3)] m' by (auto simp: lowest_free_append)
  ultimately show ?thesis unfolding trim_cut_lfree t_def by simp
qed

text \<open>
  Shrinking a block in use (the new size at most the old one) never trips an assertion and
  returns the pointer it was given; on a request above the heap size it changes nothing.
\<close>

lemma mem_trim_refines:
  assumes inv: "heap_inv s bl" and "(b, e, True) \<in> set bl" and n: "norm_size newsize \<le> e - b - 8"
  shows "\<exists>s'. mem_trim (ram s + b + 8) newsize s = Some (ram s + b + 8, s')
    \<and> heap_inv s' (trim_spec b (norm_size newsize) bl) \<and> ram s' = ram s"
proof -
  define n' where "n' = norm_size newsize"
  define m where "m = b + 8 + n'"
  obtain xs ys where bl: "bl = xs @ (b, e, True) # ys" using assms(2) by (meson split_list)
  from inv have r: "rep (mems s) 0 (xs @ (b, e, True) # ys) 16000" and end16: "m_used (mems s 16000)"
    unfolding heap_inv_def bl by auto
  have bd: "b + 20 \<le> e" "e \<le> 16000" using rep_bounds [OF r, of b e True] by auto
  have b: "m_next (mems s b) = e" "rep (mems s) e ys 16000" using r unfolding rep_append by auto
  have n': "12 \<le> n'" "n' mod 4 = 0" "n' \<le> e - b - 8" "n' \<le> 16000"
    using norm_size_props [of newsize] n bd unfolding n'_def by auto
  have c: "to_u16 b = b" "to_u16 (size_t_sub e (b + 8)) = e - b - 8" "to_u16 (b + 8 + n') = m"
    using bd n' by (auto simp: size_t_sub_def m_def)
  note spec = trim_spec_skip [OF r, of n']
  note trim = mem_trim_def [of _ newsize, folded n'_def]
  have "n' = e - b - 8 \<or> n' < e - b - 8" using n'(3) by linarith
  then consider "n' = e - b - 8"
    | c e' ys' where "n' < e - b - 8" "ys = (c, e', False) # ys'"
    | "n' < e - b - 8" "ys = [] \<or> snd (snd (hd ys))"
    by (cases ys; cases "snd (snd (hd ys))") auto
  then show ?thesis
  proof cases
    case 1
    then show ?thesis
      using inv n' bd b c spec unfolding trim bl n'_def [symmetric] by (simp add: Let_def)
  next
    case (2 c' e' ys')
    then have c': "c' = e" "m_next (mems s e) = e'" "\<not> m_used (mems s e)" "m + 20 \<le> e'" "m < e"
      using b(2) n' bd by (auto simp: m_def)
    have "mem_trim (ram s + b + 8) newsize s = Some (ram s + b + 8,
        trim_cut b m e' (e - b - 8 - n') (if lfree s = e then s\<lparr>lfree := m\<rparr> else s))"
      using 2(1) n' bd b c c' unfolding trim by (simp add: Let_def trim_cut_def set_field_defs)
    moreover have "heap_inv (trim_cut b m e' (e - b - 8 - n') (if lfree s = e then s\<lparr>lfree := m\<rparr> else s))
        (xs @ (b, m, True) # (m, e', False) # ys')"
      by (rule trim_move_inv) (use inv 2 n' bl c' m_def in auto)
    ultimately show ?thesis
      using spec 2 c' unfolding bl n'_def [symmetric] by (simp add: m_def)
  next
    case 3
    then have used: "m_used (mems s e)" using b(2) end16 by (cases ys) auto
    have tspec: "trim_spec b n' bl = xs @ (if n' + 20 \<le> e - b - 8
        then (b, m, True) # (m, e, False) # ys else (b, e, True) # ys)"
      using spec 3 unfolding bl by (cases ys) (auto simp: m_def)
    show ?thesis
    proof (cases "n' + 20 \<le> e - b - 8")
      case True
      then have "m + 20 \<le> e" by (simp add: m_def)
      then have "mem_trim (ram s + b + 8) newsize s = Some (ram s + b + 8,
          trim_cut b m e (e - b - 8 - n') (if m < lfree s then s\<lparr>lfree := m\<rparr> else s))"
        using True 3(1) n' bd b c used unfolding trim
        by (simp add: Let_def trim_cut_def set_field_defs)
      moreover have "heap_inv (trim_cut b m e (e - b - 8 - n') (if m < lfree s then s\<lparr>lfree := m\<rparr> else s))
          (xs @ (b, m, True) # (m, e, False) # ys)"
        by (rule trim_split_inv) (use inv True 3 n' bl m_def in auto)
      ultimately show ?thesis using tspec True unfolding n'_def [symmetric] by simp
    next
      case False
      then show ?thesis
        using inv tspec 3(1) n' bd b c used bl unfolding trim n'_def [symmetric] by (simp add: Let_def)
    qed
  qed
qed

section \<open>The heap is an allocator\<close>

lemma rep_unique: "rep h p bl q \<Longrightarrow> rep h p bl' q \<Longrightarrow> bl = bl'"
proof (induction bl arbitrary: p bl')
  case Nil
  then show ?case using rep_le by (cases bl') fastforce+
next
  case (Cons x bl)
  then obtain b e u where x: "x = (b, e, u)" "b + 20 \<le> e" "rep h e bl q" "p = b"
    "m_next (h b) = e" "m_used (h b) = u"
    by (cases x) auto
  then have "p \<noteq> q" using rep_le by fastforce
  with x Cons.prems(2) obtain bl2 where "bl' = x # bl2" "rep h e bl2 q" by (cases bl') auto
  then show ?case using Cons.IH x(3) by blast
qed

lemma heap_inv_unique: "heap_inv s bl \<Longrightarrow> heap_inv s bl' \<Longrightarrow> bl = bl'"
  unfolding heap_inv_def using rep_unique by blast

lemma mem_live_eq:
  "heap_inv s bl \<Longrightarrow> mem_live s = (\<lambda>b. ram s + b + 8) ` used_starts bl"
  unfolding mem_live_def used_starts_def using heap_inv_unique by blast

lemma used_starts_coalesce:
  "used_starts (coalesce bl) = used_starts bl"
  unfolding used_starts_def by (induction bl rule: coalesce.induct) auto

lemma used_starts_free:
  "used_starts (free_spec b bl) = used_starts bl - {b}"
  unfolding free_spec_def used_starts_coalesce unfolding used_starts_def by force

lemma heap_inv_distinct_starts:
  assumes "heap_inv s (xs @ (b, e, u) # ys)"
  shows "b \<notin> fst ` set xs" "b \<notin> fst ` set ys"
proof -
  from assms have "rep (mems s) 0 xs b" "rep (mems s) e ys 16000" "b + 20 \<le> e"
    unfolding heap_inv_def rep_append by auto
  then show "b \<notin> fst ` set xs" "b \<notin> fst ` set ys" using rep_bounds by fastforce+
qed

lemma alloc_spec_shape:
  assumes "alloc_spec n bl = Some (p, bl')"
  obtains xs e ys e' zs where "bl = xs @ (p, e, False) # ys" "bl' = xs @ (p, e', True) # zs @ ys"
    "\<forall>x \<in> set zs. \<not> snd (snd x)"
proof -
  obtain xs e ys where "bl = xs @ (p, e, False) # ys"
    and "bl' = xs @ (if n + 20 \<le> e - p - 8 then (p, p + 8 + n, True) # (p + 8 + n, e, False) # ys
                   else (p, e, True) # ys)"
    using alloc_spec_Some [OF assms] by blast
  then show ?thesis
    using that [of xs e ys "p + 8 + n" "[(p + 8 + n, e, False)]"] that [of xs e ys e "[]"]
    by (cases "n + 20 \<le> e - p - 8") auto
qed

interpretation heap: allocator mem_malloc mem_free mem_inv mem_live
proof
  fix s and k :: nat
  assume "mem_inv s"
  then obtain bl where inv: "heap_inv s bl" unfolding mem_inv_def by blast
  show "\<exists>p s'. mem_malloc k s = Some (p, s') \<and> mem_inv s'
    \<and> (p = NULL \<and> mem_live s' = mem_live s
       \<or> p \<noteq> NULL \<and> p \<notin> mem_live s \<and> mem_live s' = insert p (mem_live s))"
  proof (cases "k = 0 \<or> alloc_spec (norm_size k) bl = None")
    case True
    then obtain s' where "mem_malloc k s = Some (NULL, s')" "heap_inv s' bl" "ram s' = ram s"
      using mem_malloc_None [OF inv, of k] inv by auto
    then show ?thesis using inv mem_live_eq unfolding mem_inv_def by auto
  next
    case False
    then obtain b bl' where sp: "alloc_spec (norm_size k) bl = Some (b, bl')" "0 < k" by auto
    obtain s' where s': "mem_malloc k s = Some (ram s + b + 8, s')" "heap_inv s' bl'" "ram s' = ram s"
      using mem_malloc_Some [OF inv sp(2,1)] by auto
    from sp(1) obtain xs e ys e' zs where bl: "bl = xs @ (b, e, False) # ys"
      and bl': "bl' = xs @ (b, e', True) # zs @ ys" "\<forall>x \<in> set zs. \<not> snd (snd x)"
      by (rule alloc_spec_shape)
    note fresh = heap_inv_distinct_starts [OF inv [unfolded bl]]
    have "used_starts bl' = insert b (used_starts bl)"
      unfolding used_starts_def using bl bl' by force
    then have "mem_live s' = insert (ram s + b + 8) (mem_live s)"
      unfolding mem_live_eq [OF inv] mem_live_eq [OF s'(2)] s'(3) by simp
    moreover have "ram s + b + 8 \<notin> mem_live s"
      unfolding mem_live_eq [OF inv] used_starts_def using bl fresh by force
    ultimately show ?thesis using s' unfolding mem_inv_def by auto
  qed
next
  fix s p
  assume "mem_inv s" and "p \<in> mem_live s"
  then obtain bl b e where inv: "heap_inv s bl" and p: "(b, e, True) \<in> set bl" "p = ram s + b + 8"
    unfolding mem_live_def by blast
  obtain s' where s': "mem_free p s = Some s'" "heap_inv s' (free_spec b bl)" "ram s' = ram s"
    using mem_free_refines [OF inv p(1)] p(2) by blast
  have "mem_live s' = mem_live s - {p}"
    unfolding mem_live_eq [OF inv] mem_live_eq [OF s'(2)] s'(3) p(2) used_starts_free
    by (subst image_set_diff) (simp_all add: inj_def)
  then show "\<exists>s'. mem_free p s = Some s' \<and> mem_inv s' \<and> mem_live s' = mem_live s - {p}"
    using s' unfolding mem_inv_def by blast
qed

section \<open>Properties\<close>

text \<open>
  C3. On a well-formed heap \<^verbatim>\<open>mem_malloc\<close> returns and trips no assertion. It is first fit: it hands
  out the lowest free block that can hold the size rounded up, split when the rest can be a
  block of its own, and returns \<^verbatim>\<open>NULL\<close> with the blocks unchanged exactly when there is none. The
  invariant (block list, back links, \<open>lfree\<close> at the lowest free block, no two free neighbours,
  the statistics) is kept.
\<close>

theorem mem_malloc_first_fit:
  assumes "heap_inv s bl" "0 < sz"
  shows "\<exists>p s'. mem_malloc sz s = Some (p, s') \<and> ram s' = ram s
    \<and> (case alloc_spec (norm_size sz) bl of
         None \<Rightarrow> p = NULL \<and> heap_inv s' bl
       | Some (b, bl') \<Rightarrow> p = ram s + b + SIZEOF_STRUCT_MEM \<and> heap_inv s' bl')"
  using mem_malloc_None [OF assms(1), of sz] mem_malloc_Some [OF assms]
  by (cases "alloc_spec (norm_size sz) bl") auto

text \<open>The start state of the witnesses: a heap at address 4 with one block of 24 bytes handed out.\<close>

definition heap0 :: mem_state where
  "heap0 = mem_init 4 \<lparr>ram = 0, mems = (\<lambda>_. \<lparr>m_next = 0, m_prev = 0, m_used = False\<rparr>), lfree = 0,
     mem_stats = \<lparr>st_avail = 0, st_used = 0, st_max = 0, st_err = 0, st_illegal = 0\<rparr>\<rparr>"

lemma heap0_inv: "heap_inv heap0 [(0, 16000, False)]"
  unfolding heap0_def by (rule mem_init_inv) simp_all

lemma heap0_ram: "ram heap0 = 4"
  by (simp add: heap0_def mem_init_def Let_def set_field_defs LWIP_MEM_ALIGN_SIZE_def)

lemma heap0_malloc: "\<exists>s'. mem_malloc 10 heap0 = Some (12, s') \<and> heap_inv s' [(0, 20, True), (20, 16000, False)]
    \<and> ram s' = 4"
  using mem_malloc_Some [OF heap0_inv, of 10]
  by (simp add: heap0_ram norm_size_def LWIP_MEM_ALIGN_SIZE_def Let_def)

theorem mem_malloc_first_fit_witness:
  "\<exists>s'. mem_malloc 10 heap0 = Some (12, s') \<and> heap_inv s' [(0, 20, True), (20, 16000, False)]"
  using mem_malloc_first_fit [OF heap0_inv, of 10]
  by (auto simp: heap0_ram norm_size_def LWIP_MEM_ALIGN_SIZE_def Let_def)

text \<open>
  C7. \<^verbatim>\<open>mem_free\<close> of a block in use trips no assertion and merges it with whichever of its two
  neighbours is free, so that again no two free blocks are adjacent.
\<close>

theorem mem_free_coalesces:
  assumes "heap_inv s bl" "(b, e, True) \<in> set bl"
  shows "\<exists>s'. mem_free (ram s + b + SIZEOF_STRUCT_MEM) s = Some s' \<and> heap_inv s' (free_spec b bl)
    \<and> ram s' = ram s"
  using mem_free_refines [OF assms] .

theorem mem_free_coalesces_witness:
  "\<exists>s s'. mem_free 12 s = Some s' \<and> heap_inv s' [(0, 16000, False)]"
proof -
  obtain s where s: "heap_inv s [(0, 20, True), (20, 16000, False)]" "ram s = 4"
    using heap0_malloc by blast
  from mem_free_coalesces [OF s(1), of 0 20] show ?thesis
    by (auto simp: s(2) free_spec_def)
qed

text \<open>
  \<^verbatim>\<open>mem_trim\<close> of a block in use, to a size not above the current one, returns the pointer it
  got. What is cut off becomes part of a free successor, or a free block of its own when it can
  hold one; otherwise the block stays as it was.
\<close>

theorem mem_trim_shrinks:
  assumes "heap_inv s bl" "(b, e, True) \<in> set bl" "norm_size newsize \<le> e - b - SIZEOF_STRUCT_MEM"
  shows "\<exists>s'. mem_trim (ram s + b + SIZEOF_STRUCT_MEM) newsize s = Some (ram s + b + SIZEOF_STRUCT_MEM, s')
    \<and> heap_inv s' (trim_spec b (norm_size newsize) bl) \<and> ram s' = ram s"
  using mem_trim_refines [OF assms] .

theorem mem_trim_shrinks_witness:
  "\<exists>s s' s''. mem_malloc 100 s = Some (12, s') \<and> mem_trim 12 16 s' = Some (12, s'')
    \<and> heap_inv s'' [(0, 24, True), (24, 16000, False)]"
proof -
  obtain s' where s': "mem_malloc 100 heap0 = Some (12, s')"
    "heap_inv s' [(0, 108, True), (108, 16000, False)]" "ram s' = 4"
    using mem_malloc_Some [OF heap0_inv, of 100]
    by (auto simp: heap0_ram norm_size_def LWIP_MEM_ALIGN_SIZE_def Let_def)
  from mem_trim_shrinks [OF s'(2), of 0 108 16] s'(1) show ?thesis
    by (auto simp: s'(3) norm_size_def LWIP_MEM_ALIGN_SIZE_def Let_def)
qed

text \<open>
  C31. Whatever sequence of allocations and releases a client makes on a well-formed heap, no
  assertion fails and every call returns; the pointers it holds are distinct and are exactly the
  blocks in use, so nothing leaks and nothing is handed out twice.
\<close>

theorem mem_workload_safe:
  assumes "mem_inv s" "distinct held" "set held = mem_live s"
  shows "\<exists>s' held'. run_requests mem_malloc mem_free rs (s, held) = Some (s', held')
    \<and> mem_inv s' \<and> distinct held' \<and> set held' = mem_live s'"
  using heap.workload [OF assms] .

theorem mem_workload_safe_witness:
  "\<exists>s' held'. run_requests mem_malloc mem_free [Alloc 10, Alloc 20000, Alloc 300, Release 0, Alloc 4] (heap0, [])
     = Some (s', held') \<and> distinct held' \<and> set held' = mem_live s'"
proof -
  have "mem_live heap0 = {}" by (simp add: mem_live_eq [OF heap0_inv] used_starts_def)
  moreover have "mem_inv heap0" using heap0_inv unfolding mem_inv_def by blast
  ultimately show ?thesis
    using mem_workload_safe [of heap0 "[]" "[Alloc 10, Alloc 20000, Alloc 300, Release 0, Alloc 4]"]
    by (simp only: list.set distinct.simps) blast
qed

lemma free_spec_alloc_spec:
  assumes "heap_inv s bl" "alloc_spec n bl = Some (b, bl')" "rep h 0 bl' 16000"
  shows "free_spec b bl' = bl"
proof -
  obtain xs e ys where bl: "bl = xs @ (b, e, False) # ys"
    and bl': "bl' = xs @ (if n + 20 \<le> e - b - 8 then (b, b + 8 + n, True) # (b + 8 + n, e, False) # ys
                   else (b, e, True) # ys)"
    using alloc_spec_Some [OF assms(2)] by blast
  have adj: "no_adjacent_free bl" using assms(1) unfolding heap_inv_def by simp
  then have xs: "no_adjacent_free xs" "xs = [] \<or> snd (snd (last xs))"
    unfolding bl by (auto simp: no_adjacent_free_append)
  have "coalesce ((b, e, False) # ys) = (b, e, False) # ys"
    using adj unfolding bl by (intro coalesce_id) (simp add: no_adjacent_free_append)
  moreover have "map (\<lambda>(x, e, u). (x, e, u \<and> x \<noteq> b)) bl' = xs @ (if n + 20 \<le> e - b - 8
      then (b, b + 8 + n, False) # (b + 8 + n, e, False) # ys else (b, e, False) # ys)"
    using assms(3) map_free_mark [of h xs b "b + 8 + n" True "(b + 8 + n, e, False) # ys" 16000]
      map_free_mark [of h xs b e True ys 16000]
    unfolding bl' by (cases "n + 20 \<le> e - b - 8") auto
  ultimately show ?thesis unfolding free_spec_def by (simp add: coalesce_prefix [OF xs] bl)
qed

text \<open>
  Freeing what \<^verbatim>\<open>mem_malloc\<close> returned gives back the very block list there was before, however
  the allocation split a block.
\<close>

theorem mem_free_undoes_malloc:
  assumes "heap_inv s bl" "mem_malloc sz s = Some (p, s1)" "p \<noteq> NULL"
  shows "\<exists>s2. mem_free p s1 = Some s2 \<and> heap_inv s2 bl"
proof -
  from assms(1-3) obtain b bl' where sp: "alloc_spec (norm_size sz) bl = Some (b, bl')"
    and s1: "p = ram s + b + 8" "heap_inv s1 bl'" "ram s1 = ram s"
    by (rule mem_malloc_nonnull)
  from sp obtain xs e ys e' zs where "bl' = xs @ (b, e', True) # zs @ ys" by (rule alloc_spec_shape)
  then have "(b, e', True) \<in> set bl'" by simp
  from mem_free_refines [OF s1(2) this] s1 show ?thesis
    using free_spec_alloc_spec [OF assms(1) sp, of "mems s1"] by (auto simp: heap_inv_def)
qed

theorem mem_free_undoes_malloc_witness:
  "\<exists>s1 s2. mem_malloc 10 heap0 = Some (12, s1) \<and> mem_free 12 s1 = Some s2 \<and> heap_inv s2 [(0, 16000, False)]"
proof -
  obtain s1 where s1: "mem_malloc 10 heap0 = Some (12, s1)" using heap0_malloc by blast
  from mem_free_undoes_malloc [OF heap0_inv s1] s1 show ?thesis by auto
qed

lemma norm_size_ge: "sz \<le> 65532 \<Longrightarrow> sz \<le> norm_size sz"
  unfolding norm_size_def LWIP_MEM_ALIGN_SIZE_def Let_def to_u16_def by auto

text \<open>
  The memory \<^verbatim>\<open>mem_malloc\<close> returns is aligned, inside the heap, holds the bytes asked for (for
  every size whose rounding up still fits 16 bits) and overlaps no block in use.
\<close>

theorem mem_malloc_memory:
  assumes "heap_inv s bl" "mem_malloc sz s = Some (p, s')" "p \<noteq> NULL" "sz \<le> 65532"
  shows "p mod MEM_ALIGNMENT = 0 \<and> ram s + SIZEOF_STRUCT_MEM \<le> p \<and> p + sz \<le> ram s + MEM_SIZE_ALIGNED
    \<and> (\<forall>(b, e, u) \<in> set bl. u \<longrightarrow> p + sz \<le> ram s + b \<or> ram s + e + SIZEOF_STRUCT_MEM \<le> p)"
proof -
  from assms(1-3) obtain b bl' where sp: "alloc_spec (norm_size sz) bl = Some (b, bl')"
    and p: "p = ram s + b + 8"
    by (rule mem_malloc_nonnull)
  obtain xs e ys where bl: "bl = xs @ (b, e, False) # ys" and fit: "norm_size sz \<le> e - b - 8"
    using alloc_spec_Some [OF sp] by blast
  have r: "rep (mems s) 0 (xs @ (b, e, False) # ys) 16000" and al: "ram s mod 4 = 0"
    using assms(1) unfolding heap_inv_def bl by auto
  then have xs: "rep (mems s) 0 xs b" and ys: "rep (mems s) e ys 16000" unfolding rep_append by auto
  have b: "b + 20 \<le> e" "e \<le> 16000" "b mod 4 = 0" using rep_bounds [OF r, of b e False] by auto
  have sz: "sz \<le> e - b - 8" using norm_size_ge [OF assms(4)] fit by linarith
  have disj: "p + sz \<le> ram s + b' \<or> ram s + e' + 8 \<le> p" if "(b', e', True) \<in> set bl" for b' e'
  proof -
    from that bl consider "(b', e', True) \<in> set xs" | "(b', e', True) \<in> set ys" by auto
    then show ?thesis
    proof cases
      case 1
      then show ?thesis using rep_bounds [OF xs] p by fastforce
    next
      case 2
      then have "e \<le> b'" using rep_bounds [OF ys] by blast
      then show ?thesis using sz b p by linarith
    qed
  qed
  have "(ram s + b + 8) mod 4 = 0" using al b(3) by (simp add: mod_add_eq [symmetric])
  moreover have "\<forall>(b, e, u) \<in> set bl. u \<longrightarrow> p + sz \<le> ram s + b \<or> ram s + e + 8 \<le> p"
    by (intro ballI) (clarsimp, drule disj, simp)
  ultimately show ?thesis using p sz b by simp
qed

theorem mem_malloc_memory_witness:
  "\<exists>s s'. mem_malloc 10 s = Some (12, s') \<and> (12::nat) + 10 \<le> ram s + 16000"
  using mem_malloc_memory [OF heap0_inv, of 10 12] heap0_malloc by auto

lemma norm_size_wraps: "65533 \<le> sz \<Longrightarrow> sz < 65536 \<Longrightarrow> norm_size sz = 12"
proof -
  assume "65533 \<le> sz" "sz < 65536"
  then have "sz = 65533 \<or> sz = 65534 \<or> sz = 65535" by linarith
  then show ?thesis by (auto simp: norm_size_def LWIP_MEM_ALIGN_SIZE_def to_u16_def)
qed

text \<open>
  Rounding the size up wraps in the 16-bit \<^verbatim>\<open>mem_size_t\<close>: a request for 65533 to 65535 bytes is
  treated as one for 12 bytes, and succeeds on the fresh heap of 16000 bytes.
\<close>

theorem mem_malloc_size_wraps:
  assumes "65533 \<le> sz" "sz < 65536" "0 < ram_heap" "st_used (mem_stats s) = 0"
  shows "\<exists>s'. mem_malloc sz (mem_init ram_heap s) = Some (ram (mem_init ram_heap s) + SIZEOF_STRUCT_MEM, s')
    \<and> heap_inv s' [(0, 20, True), (20, MEM_SIZE_ALIGNED, False)]"
  using mem_malloc_Some [OF mem_init_inv [OF assms(3,4)], of sz] norm_size_wraps [OF assms(1,2)] assms(1)
  by auto

theorem mem_malloc_size_wraps_witness:
  "\<exists>s'. mem_malloc 65535 heap0 = Some (12, s') \<and> heap_inv s' [(0, 20, True), (20, 16000, False)]"
  using mem_malloc_size_wraps [of 65535 4 "\<lparr>ram = 0, mems = (\<lambda>_. \<lparr>m_next = 0, m_prev = 0, m_used = False\<rparr>),
     lfree = 0, mem_stats = \<lparr>st_avail = 0, st_used = 0, st_max = 0, st_err = 0, st_illegal = 0\<rparr>\<rparr>"]
  unfolding heap0_def [symmetric] heap0_ram by simp

end
