(* ===== verification/Linked_List.thy ===== *)
theory Linked_List
  imports Lwip_Prelude
begin

text \<open>
  Singly linked lists in the style the whole stack uses them: a \<open>next\<close> field read through an
  address, \<^verbatim>\<open>NULL\<close> at the end. \<open>chain nxt p xs\<close> says that following \<open>nxt\<close> from \<open>p\<close> visits
  exactly the addresses \<open>xs\<close> and then reaches \<^verbatim>\<open>NULL\<close>.
\<close>

fun chain :: "(addr \<Rightarrow> addr) \<Rightarrow> addr \<Rightarrow> addr list \<Rightarrow> bool" where
  "chain nxt p [] \<longleftrightarrow> p = NULL"
| "chain nxt p (x # xs) \<longleftrightarrow> p = x \<and> x \<noteq> NULL \<and> chain nxt (nxt x) xs"

lemma chain_NULL [simp]: "chain nxt 0 xs \<longleftrightarrow> xs = []"
  by (cases xs) auto

lemma chain_nonNULL: "p \<noteq> NULL \<Longrightarrow> chain nxt p xs \<longleftrightarrow> (\<exists>ys. xs = p # ys \<and> chain nxt (nxt p) ys)"
  by (cases xs) auto

lemma chain_NULL_notin [simp]: "chain nxt p xs \<Longrightarrow> 0 \<notin> set xs"
  by (induction xs arbitrary: p) auto

lemma chain_unique: "chain nxt p xs \<Longrightarrow> chain nxt p ys \<Longrightarrow> xs = ys"
  by (induction xs arbitrary: p ys) (auto simp: chain_nonNULL)

lemma chain_suffix: "chain nxt p (xs @ y # ys) \<Longrightarrow> chain nxt y (y # ys)"
  by (induction xs arbitrary: p) auto

lemma chain_hd_notin:
  assumes "chain nxt p (p # xs)"
  shows "p \<notin> set xs"
proof
  assume "p \<in> set xs"
  then obtain ys zs where "xs = ys @ p # zs" by (meson split_list)
  then have "chain nxt p (p # zs)" using assms chain_suffix [of nxt p "p # ys" p zs] by simp
  from chain_unique [OF assms this] \<open>xs = ys @ p # zs\<close> show False by simp
qed

lemma chain_distinct: "chain nxt p xs \<Longrightarrow> distinct xs"
proof (induction xs arbitrary: p)
  case (Cons x xs)
  then show ?case using chain_hd_notin [of nxt x xs] by auto
qed simp

lemma chain_cong: "(\<And>x. x \<in> set xs \<Longrightarrow> nxt' x = nxt x) \<Longrightarrow> chain nxt' p xs \<longleftrightarrow> chain nxt p xs"
  by (induction xs arbitrary: p) auto

lemma chain_upd_notin [simp]: "y \<notin> set xs \<Longrightarrow> chain (nxt(y := v)) p xs \<longleftrightarrow> chain nxt p xs"
  by (rule chain_cong) auto

text \<open>The same address list, cut at an inner node.\<close>

fun chain_to :: "(addr \<Rightarrow> addr) \<Rightarrow> addr \<Rightarrow> addr list \<Rightarrow> addr \<Rightarrow> bool" where
  "chain_to nxt p [] q \<longleftrightarrow> p = q"
| "chain_to nxt p (x # xs) q \<longleftrightarrow> p = x \<and> x \<noteq> NULL \<and> chain_to nxt (nxt x) xs q"

lemma chain_append: "chain nxt p (xs @ ys) \<longleftrightarrow> (\<exists>q. chain_to nxt p xs q \<and> chain nxt q ys)"
  by (induction xs arbitrary: p) auto

lemma chain_to_append: "chain_to nxt p (xs @ ys) r \<longleftrightarrow> (\<exists>q. chain_to nxt p xs q \<and> chain_to nxt q ys r)"
  by (induction xs arbitrary: p) auto

lemma chain_to_cong:
  "(\<And>x. x \<in> set xs \<Longrightarrow> nxt' x = nxt x) \<Longrightarrow> chain_to nxt' p xs q \<longleftrightarrow> chain_to nxt p xs q"
  by (induction xs arbitrary: p) auto

lemma chain_to_NULL: "chain_to nxt p xs 0 \<longleftrightarrow> chain nxt p xs"
  by (induction xs arbitrary: p) auto

text \<open>A node put between two parts of a list.\<close>

lemma chain_insert:
  assumes "chain nxt h (xs @ ys)" "p \<noteq> NULL" "p \<notin> set xs" "p \<notin> set ys"
    and "nxt' p = (if ys = [] then NULL else hd ys)" "xs \<noteq> [] \<Longrightarrow> nxt' (last xs) = p"
    and "\<And>q. q \<in> set (xs @ ys) \<Longrightarrow> xs = [] \<or> q \<noteq> last xs \<Longrightarrow> nxt' q = nxt q"
  shows "chain nxt' (if xs = [] then p else h) (xs @ p # ys)"
  using assms
proof (induction xs arbitrary: h)
  case Nil
  have "chain nxt' h ys \<longleftrightarrow> chain nxt h ys" using Nil.prems(7) by (intro chain_cong) auto
  then show ?case using Nil.prems by (cases ys) auto
next
  case (Cons x xs)
  have d: "distinct (x # xs @ ys)" using chain_distinct [OF Cons.prems(1)] by simp
  show ?case
  proof (cases "xs = []")
    case True
    have "chain nxt' (nxt x) ys \<longleftrightarrow> chain nxt (nxt x) ys" using Cons.prems(7) True d by (intro chain_cong) auto
    then show ?thesis using Cons.prems True by (cases ys) auto
  next
    case False
    have "chain nxt' (if xs = [] then p else nxt x) (xs @ p # ys)"
      using Cons.prems False d by (intro Cons.IH) auto
    moreover have "x \<noteq> last xs" using False d by auto
    then have "nxt' x = nxt x" using Cons.prems(7) [of x] False by simp
    ultimately show ?thesis using Cons.prems False by simp
  qed
qed

end
