(* ===== verification/Memp.thy ===== *)
theory Memp
  imports Mem Linked_List
begin

text \<open>
  The fixed-size pools of \<^verbatim>\<open>core/memp.c\<close>: \<^verbatim>\<open>memp_init\<close> carves one array into a linked list of
  elements per pool, \<^verbatim>\<open>memp_malloc\<close> pops and \<^verbatim>\<open>memp_free\<close> pushes. The pools are those that
  \<^verbatim>\<open>memp_std.h\<close> lists in the configuration of the build, in its order; the element sizes, which
  depend on the layout of structs of other files, are an argument of \<open>memp_init\<close>.
  \<^verbatim>\<open>memp_sanity\<close>, Floyd's cycle check that \<^verbatim>\<open>MEMP_SANITY_CHECK\<close> turns on, is modelled too.
\<close>

section \<open>Data\<close>

text \<open>The pool types of \<^verbatim>\<open>memp_t\<close> are numbers below \<^verbatim>\<open>MEMP_MAX\<close>.\<close>

type_synonym memp_t = nat

abbreviation (input) MEMP_SYS_TIMEOUT :: memp_t where "MEMP_SYS_TIMEOUT \<equiv> 7"
abbreviation (input) MEMP_PBUF :: memp_t where "MEMP_PBUF \<equiv> 8"
abbreviation (input) MEMP_PBUF_POOL :: memp_t where "MEMP_PBUF_POOL \<equiv> 9"
abbreviation (input) MEMP_MAX :: memp_t where "MEMP_MAX \<equiv> 10"

definition memp_num :: "memp_t \<Rightarrow> nat" where
  "memp_num t = (if t < MEMP_MAX then [4, 4, 5, 8, 40, 5, 15, 3, 16, 16] ! t else 0)"

record memp_state =
  memp_tab :: "memp_t \<Rightarrow> addr"
  memp_next :: "addr \<Rightarrow> addr"
  memp_stats :: "memp_t \<Rightarrow> stats_mem"

definition MEMP_STATS_INC_USED :: "memp_t \<Rightarrow> memp_state \<Rightarrow> memp_state" where
  "MEMP_STATS_INC_USED t s =
     (let st = memp_stats s t; u = to_u16 (st_used st + 1)
      in s\<lparr>memp_stats := (memp_stats s)(t := st\<lparr>st_used := u, st_max := (if st_max st < u then u else st_max st)\<rparr>)\<rparr>)"

definition MEMP_STATS_INC_err :: "memp_t \<Rightarrow> memp_state \<Rightarrow> memp_state" where
  "MEMP_STATS_INC_err t s =
     (let st = memp_stats s t
      in s\<lparr>memp_stats := (memp_stats s)(t := st\<lparr>st_err := to_u16 (st_err st + 1)\<rparr>)\<rparr>)"

definition MEMP_STATS_DEC_used :: "memp_t \<Rightarrow> memp_state \<Rightarrow> memp_state" where
  "MEMP_STATS_DEC_used t s =
     (let st = memp_stats s t
      in s\<lparr>memp_stats := (memp_stats s)(t := st\<lparr>st_used := to_u16 (st_used st + 65535)\<rparr>)\<rparr>)"

section \<open>Operations of memp.c\<close>

text \<open>The inner loop of \<^verbatim>\<open>memp_init\<close>: \<open>n\<close> elements of pool \<open>i\<close> from \<open>memp\<close> on.\<close>

fun memp_carve :: "memp_t \<Rightarrow> nat \<Rightarrow> nat \<Rightarrow> addr \<Rightarrow> memp_state \<Rightarrow> addr \<times> memp_state" where
  "memp_carve i 0 sz memp s = (memp, s)"
| "memp_carve i (Suc n) sz memp s =
     (let s = s\<lparr>memp_next := (memp_next s)(memp := memp_tab s i)\<rparr>;
          s = s\<lparr>memp_tab := (memp_tab s)(i := memp)\<rparr>
      in memp_carve i n sz (memp + sz) s)"

fun memp_init_pools :: "(memp_t \<Rightarrow> nat) \<Rightarrow> memp_t list \<Rightarrow> addr \<Rightarrow> memp_state \<Rightarrow> memp_state" where
  "memp_init_pools sizes [] memp s = s"
| "memp_init_pools sizes (i # is) memp s =
     (let s = s\<lparr>memp_tab := (memp_tab s)(i := NULL)\<rparr>;
          (memp, s) = memp_carve i (memp_num i) (sizes i) memp s
      in memp_init_pools sizes is memp s)"

definition memp_init :: "(memp_t \<Rightarrow> nat) \<Rightarrow> addr \<Rightarrow> memp_state \<Rightarrow> memp_state" where
  "memp_init sizes memp_memory s =
     (let s = s\<lparr>memp_stats := (\<lambda>i. if i < MEMP_MAX
                then (memp_stats s i)\<lparr>st_used := 0, st_max := 0, st_err := 0, st_avail := memp_num i\<rparr>
                else memp_stats s i)\<rparr>
      in memp_init_pools sizes [0..<MEMP_MAX] (LWIP_MEM_ALIGN_SIZE memp_memory) s)"

definition memp_malloc :: "memp_t \<Rightarrow> memp_state \<Rightarrow> (addr \<times> memp_state) option" where
  "memp_malloc t s =
     (if \<not> t < MEMP_MAX then None
      else
        let memp = memp_tab s t
        in if memp \<noteq> NULL
           then let s = s\<lparr>memp_tab := (memp_tab s)(t := memp_next s memp)\<rparr>;
                    s = MEMP_STATS_INC_USED t s
                in if memp mod MEM_ALIGNMENT \<noteq> 0 then None else Some (memp, s)
           else Some (NULL, MEMP_STATS_INC_err t s))"

text \<open>\<^verbatim>\<open>memp_free\<close> does not check the type; a type outside the array has no defined behaviour.\<close>

definition memp_free :: "memp_t \<Rightarrow> addr \<Rightarrow> memp_state \<Rightarrow> memp_state option" where
  "memp_free t mem s =
     (if mem = NULL then Some s
      else if mem mod MEM_ALIGNMENT \<noteq> 0 then None
      else if \<not> t < MEMP_MAX then None
      else
        let s = MEMP_STATS_DEC_used t s;
            s = s\<lparr>memp_next := (memp_next s)(mem := memp_tab s t)\<rparr>
        in Some (s\<lparr>memp_tab := (memp_tab s)(t := mem)\<rparr>))"

text \<open>
  The loop of \<^verbatim>\<open>memp_sanity\<close> over one list: \<open>t\<close> moves one step, \<open>h\<close> two. \<open>Some True\<close> is the end
  of the list, \<open>Some False\<close> the \<^verbatim>\<open>return 0\<close>.
\<close>

partial_function (option) sanity_loop :: "(addr \<Rightarrow> addr) \<Rightarrow> addr \<Rightarrow> addr \<Rightarrow> bool option" where
  "sanity_loop nxt t h =
     (if t \<noteq> NULL \<and> h \<noteq> NULL
      then if t = h then Some False
           else sanity_loop nxt (nxt t) (if nxt h \<noteq> NULL \<and> nxt (nxt h) \<noteq> NULL then nxt (nxt h) else NULL)
      else Some True)"

fun memp_sanity_from :: "memp_t list \<Rightarrow> memp_state \<Rightarrow> bool option" where
  "memp_sanity_from [] s = Some True"
| "memp_sanity_from (i # is) s =
     (let t = memp_tab s i
      in if t \<noteq> NULL
         then case sanity_loop (memp_next s) t (memp_next s t) of
                None \<Rightarrow> None
              | Some False \<Rightarrow> Some False
              | Some True \<Rightarrow> memp_sanity_from is s
         else memp_sanity_from is s)"

definition memp_sanity :: "memp_state \<Rightarrow> bool option" where
  "memp_sanity s = memp_sanity_from [0..<MEMP_MAX] s"

section \<open>Specification\<close>

text \<open>The elements of a pool, and the address where pool \<open>t\<close> starts.\<close>

definition pool_base :: "(memp_t \<Rightarrow> nat) \<Rightarrow> addr \<Rightarrow> memp_t \<Rightarrow> addr" where
  "pool_base sizes a t = a + (\<Sum>i<t. memp_num i * sizes i)"

definition pool_elems :: "(memp_t \<Rightarrow> nat) \<Rightarrow> addr \<Rightarrow> memp_t \<Rightarrow> addr list" where
  "pool_elems sizes a t = map (\<lambda>j. pool_base sizes a t + j * sizes t) [0..<memp_num t]"

text \<open>The configuration the pools need: elements that can hold a pointer, aligned.\<close>

definition sizes_ok :: "(memp_t \<Rightarrow> nat) \<Rightarrow> bool" where
  "sizes_ok sizes \<longleftrightarrow> (\<forall>t<MEMP_MAX. 8 \<le> sizes t \<and> sizes t mod 4 = 0)"

text \<open>\<open>free\<close> gives the free list of each pool, the element to be handed out next first.\<close>

definition memp_rep :: "(memp_t \<Rightarrow> nat) \<Rightarrow> addr \<Rightarrow> memp_state \<Rightarrow> (memp_t \<Rightarrow> addr list) \<Rightarrow> bool" where
  "memp_rep sizes a s free \<longleftrightarrow>
     sizes_ok sizes \<and> 0 < a \<and> a mod 4 = 0
     \<and> (\<forall>t<MEMP_MAX. chain (memp_next s) (memp_tab s t) (free t)
          \<and> set (free t) \<subseteq> set (pool_elems sizes a t)
          \<and> st_used (memp_stats s t) + length (free t) = memp_num t)"

definition memp_inv :: "(memp_t \<Rightarrow> nat) \<Rightarrow> addr \<Rightarrow> memp_state \<Rightarrow> bool" where
  "memp_inv sizes a s \<longleftrightarrow> (\<exists>free. memp_rep sizes a s free)"

definition memp_live :: "(memp_t \<Rightarrow> nat) \<Rightarrow> addr \<Rightarrow> memp_t \<Rightarrow> memp_state \<Rightarrow> addr set" where
  "memp_live sizes a t s =
     set (pool_elems sizes a t) - {p. \<exists>free. memp_rep sizes a s free \<and> p \<in> set (free t)}"

text \<open>A list that runs into a circle.\<close>

definition cyclic :: "(addr \<Rightarrow> addr) \<Rightarrow> addr \<Rightarrow> bool" where
  "cyclic nxt p \<longleftrightarrow> (\<forall>k. (nxt ^^ k) p \<noteq> NULL) \<and> (\<exists>m n. 0 < n \<and> (nxt ^^ (m + n)) p = (nxt ^^ m) p)"

section \<open>Layout of the pools\<close>

lemma sizes_okD: "sizes_ok sizes \<Longrightarrow> t < MEMP_MAX \<Longrightarrow> 8 \<le> sizes t \<and> sizes t mod 4 = 0"
  by (simp add: sizes_ok_def)

lemma pool_base_Suc: "pool_base sizes a (Suc t) = pool_base sizes a t + memp_num t * sizes t"
  by (simp add: pool_base_def)

lemma pool_base_mono: "t \<le> t' \<Longrightarrow> pool_base sizes a t \<le> pool_base sizes a t'"
  by (simp add: pool_base_def sum_mono2)

lemma pool_elems_bounds:
  assumes "x \<in> set (pool_elems sizes a t)"
  shows "pool_base sizes a t \<le> x \<and> x + sizes t \<le> pool_base sizes a (Suc t)"
proof -
  obtain j where j: "j < memp_num t" "x = pool_base sizes a t + j * sizes t"
    using assms unfolding pool_elems_def by auto
  then have "Suc j * sizes t \<le> memp_num t * sizes t" by (intro mult_le_mono1) simp
  then show ?thesis using j by (simp add: pool_base_Suc)
qed

lemma pool_elems_disjoint:
  assumes "sizes_ok sizes" "t < MEMP_MAX" "t' < MEMP_MAX" "t \<noteq> t'"
    and "x \<in> set (pool_elems sizes a t)"
  shows "x \<notin> set (pool_elems sizes a t')"
proof
  assume y: "x \<in> set (pool_elems sizes a t')"
  have sz: "8 \<le> sizes t" "8 \<le> sizes t'" using assms(1-3) unfolding sizes_ok_def by auto
  from assms(4) consider "Suc t \<le> t'" | "Suc t' \<le> t" by linarith
  then show False
  proof cases
    case 1
    then show False
      using pool_base_mono [OF 1, of sizes a] pool_elems_bounds [OF assms(5)] pool_elems_bounds [OF y] sz
      by linarith
  next
    case 2
    then show False
      using pool_base_mono [OF 2, of sizes a] pool_elems_bounds [OF assms(5)] pool_elems_bounds [OF y] sz
      by linarith
  qed
qed

lemma pool_base_aligned:
  assumes "sizes_ok sizes" "a mod 4 = 0" "t \<le> MEMP_MAX"
  shows "pool_base sizes a t mod 4 = 0"
  using assms(3)
proof (induction t)
  case 0
  then show ?case using assms(2) by (simp add: pool_base_def)
next
  case (Suc t)
  then have "sizes t mod 4 = 0" using assms(1) unfolding sizes_ok_def by simp
  then have "4 dvd memp_num t * sizes t" by (auto intro: dvd_mult)
  then show ?case using Suc by (auto simp: pool_base_Suc dvd_eq_mod_eq_0 [symmetric])
qed

lemma pool_elems_aligned:
  assumes "sizes_ok sizes" "a mod 4 = 0" "0 < a" "t < MEMP_MAX" "x \<in> set (pool_elems sizes a t)"
  shows "x mod 4 = 0 \<and> x \<noteq> NULL"
proof -
  obtain j where j: "x = pool_base sizes a t + j * sizes t"
    using assms(5) unfolding pool_elems_def by auto
  have "sizes t mod 4 = 0" using assms(1,4) unfolding sizes_ok_def by simp
  then have "4 dvd j * sizes t" by (auto intro: dvd_mult)
  moreover have "4 dvd pool_base sizes a t"
    using pool_base_aligned [OF assms(1,2), of t] assms(4) by (simp add: dvd_eq_mod_eq_0)
  ultimately have "4 dvd x" using j by simp
  moreover have "a \<le> pool_base sizes a t" by (simp add: pool_base_def)
  then have "x \<noteq> NULL" using assms(3) j by linarith
  ultimately show ?thesis by (simp add: dvd_eq_mod_eq_0)
qed

section \<open>memp\_malloc pops, memp\_free pushes\<close>

lemmas memp_stats_defs = MEMP_STATS_INC_USED_def MEMP_STATS_INC_err_def MEMP_STATS_DEC_used_def Let_def

lemma memp_num_le: "memp_num t \<le> 40"
proof (cases "t < 10")
  case True
  then have "t \<in> set [0..<10]" by simp
  then show ?thesis by (simp add: upt_rec memp_num_def) auto
qed (simp add: memp_num_def)

lemma memp_malloc_pop:
  assumes r: "memp_rep sizes a s free" and t: "t < MEMP_MAX" and "free t = x # xs"
  shows "\<exists>s'. memp_malloc t s = Some (x, s') \<and> memp_rep sizes a s' (free(t := xs))"
proof -
  from r t have c: "chain (memp_next s) (memp_tab s t) (x # xs)"
    and x: "x \<in> set (pool_elems sizes a t)" "set xs \<subseteq> set (pool_elems sizes a t)"
    and u: "st_used (memp_stats s t) + Suc (length xs) = memp_num t"
    and ok: "sizes_ok sizes" "0 < a" "a mod 4 = 0"
    using assms(3) unfolding memp_rep_def by (auto dest!: spec [of _ t])
  define s' where "s' = MEMP_STATS_INC_USED t (s\<lparr>memp_tab := (memp_tab s)(t := memp_next s x)\<rparr>)"
  have "memp_malloc t s = Some (x, s')"
    using t c pool_elems_aligned [OF ok(1,3,2) t x(1)] by (simp add: memp_malloc_def Let_def s'_def)
  moreover have "to_u16 (st_used (memp_stats s t) + 1) + length xs = memp_num t"
    using u memp_num_le [of t] by simp
  then have "memp_rep sizes a s' (free(t := xs))"
    using r c x t unfolding memp_rep_def by (simp add: s'_def memp_stats_defs)
  ultimately show ?thesis by blast
qed

lemma memp_malloc_empty:
  assumes r: "memp_rep sizes a s free" and t: "t < MEMP_MAX" and "free t = []"
  shows "\<exists>s'. memp_malloc t s = Some (NULL, s') \<and> memp_rep sizes a s' free"
proof -
  have "memp_tab s t = NULL" using r t assms(3) unfolding memp_rep_def by (auto dest!: spec [of _ t])
  then have "memp_malloc t s = Some (NULL, MEMP_STATS_INC_err t s)"
    using t by (simp add: memp_malloc_def)
  moreover have "memp_rep sizes a (MEMP_STATS_INC_err t s) free"
    using r unfolding memp_rep_def by (simp add: memp_stats_defs)
  ultimately show ?thesis by blast
qed

lemma memp_free_push:
  assumes r: "memp_rep sizes a s free" and t: "t < MEMP_MAX"
    and p: "p \<in> set (pool_elems sizes a t)" "p \<notin> set (free t)"
  shows "\<exists>s'. memp_free t p s = Some s' \<and> memp_rep sizes a s' (free(t := p # free t))"
proof -
  from r have ok: "sizes_ok sizes" "0 < a" "a mod 4 = 0"
    and all: "\<And>t'. t' < MEMP_MAX \<Longrightarrow> chain (memp_next s) (memp_tab s t') (free t')
      \<and> set (free t') \<subseteq> set (pool_elems sizes a t') \<and> st_used (memp_stats s t') + length (free t') = memp_num t'"
    unfolding memp_rep_def by auto
  have al: "p mod 4 = 0" "p \<noteq> NULL" using pool_elems_aligned [OF ok(1,3,2) t p(1)] by auto
  define s' where "s' = (let s = MEMP_STATS_DEC_used t s;
    s = s\<lparr>memp_next := (memp_next s)(p := memp_tab s t)\<rparr> in s\<lparr>memp_tab := (memp_tab s)(t := p)\<rparr>)"
  have len: "length (pool_elems sizes a t) = memp_num t" by (simp add: pool_elems_def)
  have "memp_free t p s = Some s'" using al t by (simp add: memp_free_def s'_def Let_def)
  moreover have "p \<notin> set (free t')" if "t' < MEMP_MAX" for t'
    using p all [OF that] pool_elems_disjoint [OF ok(1) t that _ p(1)] by (cases "t' = t") auto
  then have "chain (memp_next s') (memp_tab s' t') ((free(t := p # free t)) t')" if "t' < MEMP_MAX" for t'
    using all [OF that] al that by (cases "t' = t") (simp_all add: s'_def memp_stats_defs)
  moreover have "card (insert p (set (free t))) \<le> card (set (pool_elems sizes a t))"
    using p all [OF t] by (intro card_mono) auto
  then have "Suc (length (free t)) \<le> memp_num t"
    using p(2) all [OF t] chain_distinct [of "memp_next s" "memp_tab s t" "free t"]
      card_length [of "pool_elems sizes a t"] len by (simp add: distinct_card)
  then have "to_u16 (st_used (memp_stats s t) + 65535) + Suc (length (free t)) = memp_num t"
    using all [OF t] memp_num_le [of t] to_u16_pred [of "st_used (memp_stats s t)"] by simp
  then have "st_used (memp_stats s' t') + length ((free(t := p # free t)) t') = memp_num t'"
    if "t' < MEMP_MAX" for t'
    using all [OF that] by (simp add: s'_def memp_stats_defs)
  ultimately show ?thesis
    using ok all p(1) unfolding memp_rep_def by (intro exI [of _ s'] conjI) auto
qed

section \<open>Each pool is an allocator\<close>

lemma memp_rep_unique:
  "memp_rep sizes a s free \<Longrightarrow> memp_rep sizes a s free' \<Longrightarrow> t < MEMP_MAX \<Longrightarrow> free t = free' t"
  unfolding memp_rep_def using chain_unique by blast

lemma memp_live_eq:
  assumes "memp_rep sizes a s free" "t < MEMP_MAX"
  shows "memp_live sizes a t s = set (pool_elems sizes a t) - set (free t)"
proof -
  have "{p. \<exists>free. memp_rep sizes a s free \<and> p \<in> set (free t)} = set (free t)"
  proof (intro set_eqI iffI)
    fix p assume "p \<in> {p. \<exists>free. memp_rep sizes a s free \<and> p \<in> set (free t)}"
    then obtain free' where "memp_rep sizes a s free'" "p \<in> set (free' t)" by blast
    then show "p \<in> set (free t)" using memp_rep_unique [OF assms(1) _ assms(2)] by metis
  qed (use assms(1) in blast)
  then show ?thesis by (simp add: memp_live_def)
qed

text \<open>What the two operations do to the elements handed out, in every pool.\<close>

lemma memp_malloc_live:
  assumes "memp_inv sizes a s" and t: "t < MEMP_MAX"
  obtains s' where "memp_malloc t s = Some (NULL, s')" "memp_inv sizes a s'"
    "\<And>t'. t' < MEMP_MAX \<Longrightarrow> memp_live sizes a t' s' = memp_live sizes a t' s"
  | p s' where "memp_malloc t s = Some (p, s')" "p \<noteq> NULL" "p mod MEM_ALIGNMENT = 0" "memp_inv sizes a s'"
    "p \<notin> memp_live sizes a t s" "p \<in> set (pool_elems sizes a t)"
    "\<And>t'. t' < MEMP_MAX \<Longrightarrow> memp_live sizes a t' s' =
       (if t' = t then insert p (memp_live sizes a t s) else memp_live sizes a t' s)"
proof -
  from assms obtain free where r: "memp_rep sizes a s free" unfolding memp_inv_def by blast
  show thesis
  proof (cases "free t")
    case Nil
    then obtain s' where s': "memp_malloc t s = Some (NULL, s')" "memp_rep sizes a s' free"
      using memp_malloc_empty [OF r t] by blast
    then show thesis
      using that(1) [OF s'(1)] memp_live_eq [OF r] memp_live_eq [OF s'(2)] unfolding memp_inv_def by auto
  next
    case (Cons x xs)
    then obtain s' where s': "memp_malloc t s = Some (x, s')" "memp_rep sizes a s' (free(t := xs))"
      using memp_malloc_pop [OF r t] by blast
    from r t have c: "chain (memp_next s) (memp_tab s t) (free t)" "set (free t) \<subseteq> set (pool_elems sizes a t)"
      "sizes_ok sizes" "0 < a" "a mod 4 = 0" unfolding memp_rep_def by auto
    have x: "x \<in> set (pool_elems sizes a t)" "distinct (x # xs)" using c chain_distinct [OF c(1)] Cons by auto
    then have nz: "x \<noteq> NULL" "x mod 4 = 0" using pool_elems_aligned [OF c(3,5,4) t] by auto
    have live: "memp_live sizes a t' s' = (if t' = t then insert x (memp_live sizes a t s) else memp_live sizes a t' s)"
      if "t' < MEMP_MAX" for t'
      using memp_live_eq [OF r that] memp_live_eq [OF s'(2) that] Cons x by auto
    have fresh: "x \<notin> memp_live sizes a t s" using memp_live_eq [OF r t] Cons by simp
    have "memp_inv sizes a s'" using s'(2) unfolding memp_inv_def by blast
    then show thesis by (rule that(2) [OF s'(1) nz _ fresh x(1) live])
  qed
qed

lemma memp_free_live:
  assumes "memp_inv sizes a s" and t: "t < MEMP_MAX" and p: "p \<in> memp_live sizes a t s"
  obtains s' where "memp_free t p s = Some s'" "memp_inv sizes a s'"
    "\<And>t'. t' < MEMP_MAX \<Longrightarrow> memp_live sizes a t' s' =
       (if t' = t then memp_live sizes a t s - {p} else memp_live sizes a t' s)"
proof -
  from assms obtain free where r: "memp_rep sizes a s free" unfolding memp_inv_def by blast
  then have "p \<in> set (pool_elems sizes a t)" "p \<notin> set (free t)" using p memp_live_eq [OF r t] by auto
  from memp_free_push [OF r t this] obtain s' where
    s': "memp_free t p s = Some s'" "memp_rep sizes a s' (free(t := p # free t))" by blast
  have "memp_live sizes a t' s' = (if t' = t then memp_live sizes a t s - {p} else memp_live sizes a t' s)"
    if "t' < MEMP_MAX" for t'
    using memp_live_eq [OF r that] memp_live_eq [OF s'(2) that] by auto
  then show thesis using that s' unfolding memp_inv_def by blast
qed

lemma memp_allocator:
  assumes t: "t < MEMP_MAX"
  shows "allocator (\<lambda>_::unit. memp_malloc t) (memp_free t) (memp_inv sizes a) (memp_live sizes a t)"
proof
  fix s and k :: unit
  assume inv: "memp_inv sizes a s"
  show "\<exists>p s'. memp_malloc t s = Some (p, s') \<and> memp_inv sizes a s'
    \<and> (p = NULL \<and> memp_live sizes a t s' = memp_live sizes a t s
       \<or> p \<noteq> NULL \<and> p \<notin> memp_live sizes a t s \<and> memp_live sizes a t s' = insert p (memp_live sizes a t s))"
    using inv t by (rule memp_malloc_live) (use t in auto)
next
  fix s p
  assume inv: "memp_inv sizes a s" and p: "p \<in> memp_live sizes a t s"
  show "\<exists>s'. memp_free t p s = Some s' \<and> memp_inv sizes a s'
    \<and> memp_live sizes a t s' = memp_live sizes a t s - {p}"
    using inv t p by (rule memp_free_live) (use t in auto)
qed

interpretation pbuf_structs: allocator "\<lambda>_::unit. memp_malloc MEMP_PBUF" "memp_free MEMP_PBUF"
  "memp_inv sizes a" "memp_live sizes a MEMP_PBUF" for sizes a
  by (rule memp_allocator) simp

interpretation pbuf_pool: allocator "\<lambda>_::unit. memp_malloc MEMP_PBUF_POOL" "memp_free MEMP_PBUF_POOL"
  "memp_inv sizes a" "memp_live sizes a MEMP_PBUF_POOL" for sizes a
  by (rule memp_allocator) simp

section \<open>memp\_init\<close>

lemma memp_carve_props:
  assumes "memp_carve i n sz m s = (m', s')" "m \<noteq> NULL" "0 < sz"
    and "chain (memp_next s) (memp_tab s i) xs" "\<forall>x\<in>set xs. x < m"
  shows "m' = m + n * sz \<and> memp_stats s' = memp_stats s
    \<and> chain (memp_next s') (memp_tab s' i) (rev (map (\<lambda>j. m + j * sz) [0..<n]) @ xs)
    \<and> (\<forall>t. t \<noteq> i \<longrightarrow> memp_tab s' t = memp_tab s t) \<and> (\<forall>x<m. memp_next s' x = memp_next s x)"
  using assms
proof (induction n arbitrary: m s xs)
  case (Suc n)
  define s1 where "s1 = s\<lparr>memp_next := (memp_next s)(m := memp_tab s i), memp_tab := (memp_tab s)(i := m)\<rparr>"
  have "chain (memp_next s1) (memp_tab s1 i) (m # xs)"
    using Suc.prems by (subst chain.simps) (auto simp: s1_def)
  moreover have "memp_carve i n sz (m + sz) s1 = (m', s')"
    using Suc.prems(1) by (simp add: Let_def s1_def)
  moreover have "\<forall>x\<in>set (m # xs). x < m + sz" using Suc.prems(3,5) by auto
  ultimately have IH: "m' = (m + sz) + n * sz \<and> memp_stats s' = memp_stats s1
    \<and> chain (memp_next s') (memp_tab s' i) (rev (map (\<lambda>j. (m + sz) + j * sz) [0..<n]) @ (m # xs))
    \<and> (\<forall>t. t \<noteq> i \<longrightarrow> memp_tab s' t = memp_tab s1 t) \<and> (\<forall>x<m + sz. memp_next s' x = memp_next s1 x)"
    using Suc.IH [of "m + sz" s1 "m # xs"] Suc.prems(2,3) by simp
  have "map (\<lambda>j. m + j * sz) [0..<Suc n] = m # map (\<lambda>j. (m + sz) + j * sz) [0..<n]"
    by (simp add: map_upt_Suc algebra_simps del: upt_Suc)
  then show ?case using IH by (simp add: s1_def algebra_simps del: upt_Suc)
qed simp

lemma memp_init_pools_props:
  assumes "sizes_ok sizes" "0 < a" "k \<le> MEMP_MAX"
    and "\<forall>t<k. chain (memp_next s) (memp_tab s t) (rev (pool_elems sizes a t))"
    and "s' = memp_init_pools sizes [k..<MEMP_MAX] (pool_base sizes a k) s"
  shows "(\<forall>t<MEMP_MAX. chain (memp_next s') (memp_tab s' t) (rev (pool_elems sizes a t)))
    \<and> memp_stats s' = memp_stats s"
  using assms(3-5)
proof (induction "MEMP_MAX - k" arbitrary: k s)
  case 0
  then show ?case by simp
next
  case (Suc n)
  then have k: "k < MEMP_MAX" by simp
  define s0 where "s0 = s\<lparr>memp_tab := (memp_tab s)(k := NULL)\<rparr>"
  obtain m1 s1 where carve: "memp_carve k (memp_num k) (sizes k) (pool_base sizes a k) s0 = (m1, s1)"
    by (cases "memp_carve k (memp_num k) (sizes k) (pool_base sizes a k) s0")
  have "0 < sizes k" "pool_base sizes a k \<noteq> 0"
    using assms(1,2) k unfolding sizes_ok_def pool_base_def by fastforce+
  then have s1: "m1 = pool_base sizes a (Suc k)" "memp_stats s1 = memp_stats s"
    "chain (memp_next s1) (memp_tab s1 k) (rev (pool_elems sizes a k))"
    "\<And>t. t \<noteq> k \<Longrightarrow> memp_tab s1 t = memp_tab s t"
    "\<And>x. x < pool_base sizes a k \<Longrightarrow> memp_next s1 x = memp_next s x"
    using memp_carve_props [OF carve, of "[]"] by (simp_all add: s0_def pool_base_Suc pool_elems_def)
  have "chain (memp_next s1) (memp_tab s1 t) (rev (pool_elems sizes a t))" if "t < Suc k" for t
  proof (cases "t = k")
    case False
    then have t: "t < k" using that by simp
    have "x < pool_base sizes a k" if "x \<in> set (rev (pool_elems sizes a t))" for x
    proof -
      have "0 < sizes t" using sizes_okD [OF assms(1), of t] t k by simp
      then show ?thesis
        using pool_elems_bounds [of x sizes a t] that pool_base_mono [of "Suc t" k sizes a] t by simp
    qed
    then have "chain (memp_next s1) (memp_tab s t) (rev (pool_elems sizes a t))"
      using Suc.prems(2) t s1(5) by (subst chain_cong [where nxt = "memp_next s"]) auto
    then show ?thesis using s1(4) False by simp
  qed (use s1(3) in simp)
  moreover have "s' = memp_init_pools sizes [Suc k..<MEMP_MAX] (pool_base sizes a (Suc k)) s1"
    using Suc.prems(3) k carve s1(1) by (simp add: upt_rec [of k] s0_def)
  ultimately show ?case
    using Suc.hyps(1) [of "Suc k" s1] Suc.hyps(2) k s1(2) by simp
qed

lemma memp_init_rep:
  assumes "sizes_ok sizes" "0 < memp_memory"
  shows "memp_rep sizes (LWIP_MEM_ALIGN_SIZE memp_memory) (memp_init sizes memp_memory s)
    (\<lambda>t. rev (pool_elems sizes (LWIP_MEM_ALIGN_SIZE memp_memory) t))"
proof -
  define a where "a = LWIP_MEM_ALIGN_SIZE memp_memory"
  have a: "0 < a" "a mod 4 = 0" using assms(2) by (simp_all add: a_def LWIP_MEM_ALIGN_SIZE_def)
  define s0 where "s0 = s\<lparr>memp_stats := (\<lambda>i. if i < MEMP_MAX
                then (memp_stats s i)\<lparr>st_used := 0, st_max := 0, st_err := 0, st_avail := memp_num i\<rparr>
                else memp_stats s i)\<rparr>"
  have "memp_init sizes memp_memory s = memp_init_pools sizes [0..<MEMP_MAX] (pool_base sizes a 0) s0"
    by (simp add: memp_init_def s0_def a_def pool_base_def del: upt_rec_numeral upt_Suc)
  from memp_init_pools_props [OF assms(1) a(1) _ _ this] show ?thesis
    using assms(1) a unfolding memp_rep_def a_def [symmetric] by (simp add: s0_def pool_elems_def)
qed

section \<open>memp\_sanity finds every circle\<close>

lemma sanity_loop_chain:
  "chain nxt t xs \<Longrightarrow> chain nxt h ys \<Longrightarrow> length ys < length xs \<Longrightarrow> sanity_loop nxt t h = Some True"
proof (induction xs arbitrary: t h ys)
  case (Cons x xs)
  show ?case
  proof (cases "h = NULL")
    case True
    then show ?thesis by (simp add: sanity_loop.simps)
  next
    case False
    have t: "t \<noteq> NULL" "chain nxt (nxt t) xs" using Cons.prems(1) by auto
    have "t \<noteq> h"
    proof
      assume "t = h"
      then have "x # xs = ys" using chain_unique [OF Cons.prems(1)] Cons.prems(2) by simp
      then show False using Cons.prems(3) by auto
    qed
    from False Cons.prems(2) obtain ys' where ys: "ys = h # ys'" "chain nxt (nxt h) ys'"
      by (auto simp: chain_nonNULL)
    define h' where "h' = (if nxt h \<noteq> NULL \<and> nxt (nxt h) \<noteq> NULL then nxt (nxt h) else NULL)"
    have "\<exists>zs. chain nxt h' zs \<and> length zs < length xs"
    proof (cases "nxt h = NULL")
      case True
      then show ?thesis using Cons.prems(3) ys by (simp add: h'_def)
    next
      case False
      then obtain zs where "ys' = nxt h # zs" "chain nxt (nxt (nxt h)) zs"
        using ys(2) by (auto simp: chain_nonNULL)
      then have "chain nxt h' zs" using False by (auto simp: h'_def)
      then show ?thesis using \<open>ys' = nxt h # zs\<close> ys(1) Cons.prems(3) by (intro exI [of _ zs]) simp
    qed
    then have "sanity_loop nxt (nxt t) h' = Some True" using Cons.IH [OF t(2)] by blast
    then show ?thesis
      using False t(1) \<open>t \<noteq> h\<close> by (simp add: sanity_loop.simps [of nxt t h] h'_def)
  qed
qed simp

lemma funpow_period:
  fixes f :: "'a \<Rightarrow> 'a"
  assumes "(f ^^ (m + n)) x = (f ^^ m) x" "m \<le> k"
  shows "(f ^^ (k + n * c)) x = (f ^^ k) x"
proof (induction c)
  case (Suc c)
  have split: "k + n * c = (k - m + n * c) + m" "k + n * Suc c = (k - m + n * c) + (m + n)"
    using assms(2) by simp_all
  have "(f ^^ (k + n * Suc c)) x = (f ^^ (k - m + n * c)) ((f ^^ (m + n)) x)"
    unfolding split(2) funpow_add [of "k - m + n * c"] by simp
  also have "\<dots> = (f ^^ (k + n * c)) x" unfolding assms(1) split(1) funpow_add [of _ m] by simp
  finally show ?case using Suc by simp
qed simp

lemma sanity_loop_cyclic:
  assumes "cyclic nxt p"
  shows "sanity_loop nxt p (nxt p) = Some False"
proof -
  define f where "f k = (nxt ^^ k) p" for k
  from assms obtain m n where mn: "0 < n" "(nxt ^^ (m + n)) p = (nxt ^^ m) p" and nz: "\<And>k. f k \<noteq> NULL"
    unfolding cyclic_def f_def by blast
  have step: "nxt (f k) = f (Suc k)" for k by (simp add: f_def)
  define K where "K = n * (m + 1) - 1"
  have K: "m \<le> K" "2 * K + 1 = K + n * (m + 1)"
    using mn(1) by (auto simp: K_def Suc_le_eq add_mult_distrib2 gr0_conv_Suc)
  have meet: "f K = f (2 * K + 1)"
    unfolding K(2) f_def using funpow_period [OF mn(2) K(1), of "m + 1"] by simp
  have "sanity_loop nxt (f k) (f (2 * k + 1)) = Some False" if "k \<le> K" for k
    using that
  proof (induction "K - k" arbitrary: k)
    case 0
    then show ?case using meet nz by (simp add: sanity_loop.simps)
  next
    case (Suc d)
    then have "sanity_loop nxt (f (Suc k)) (f (2 * Suc k + 1)) = Some False" by (intro Suc.hyps) auto
    then show ?case using nz by (simp add: sanity_loop.simps [of nxt "f k"] step)
  qed
  from this [of 0] show ?thesis by (simp add: f_def)
qed

lemma chain_funpow: "chain nxt p xs \<Longrightarrow> (nxt ^^ length xs) p = NULL"
  by (induction xs arbitrary: p) (auto simp: funpow_swap1)

lemma chain_not_cyclic: "chain nxt p xs \<Longrightarrow> \<not> cyclic nxt p"
  using chain_funpow unfolding cyclic_def by blast

lemma memp_sanity_from_exact:
  assumes "\<forall>i\<in>set is. (\<exists>xs. chain (memp_next s) (memp_tab s i) xs) \<or> cyclic (memp_next s) (memp_tab s i)"
  shows "memp_sanity_from is s = Some (\<forall>i\<in>set is. \<not> cyclic (memp_next s) (memp_tab s i))"
  using assms
proof (induction "is")
  case (Cons i "is")
  show ?case
  proof (cases "cyclic (memp_next s) (memp_tab s i)")
    case True
    then have "(memp_next s ^^ 0) (memp_tab s i) \<noteq> NULL" unfolding cyclic_def by blast
    then show ?thesis using True sanity_loop_cyclic [OF True] by simp
  next
    case False
    then obtain xs where xs: "chain (memp_next s) (memp_tab s i) xs" using Cons.prems by auto
    have "sanity_loop (memp_next s) (memp_tab s i) (memp_next s (memp_tab s i)) = Some True"
      if "memp_tab s i \<noteq> NULL"
    proof -
      from that xs obtain ys where "xs = memp_tab s i # ys" "chain (memp_next s) (memp_next s (memp_tab s i)) ys"
        by (auto simp: chain_nonNULL)
      then show ?thesis using sanity_loop_chain [OF xs, of _ ys] by simp
    qed
    then show ?thesis using False Cons by (simp add: Let_def)
  qed
qed simp

section \<open>Properties\<close>

text \<open>
  \<^verbatim>\<open>memp_init\<close> carves the array into pools: every element of every pool is free, each pool's list
  runs through its elements from the last to the first, and no two pools share an element.
  A pool then hands out its elements in the order last freed, first out: \<^verbatim>\<open>memp_malloc\<close> pops the
  head of the list, or returns \<^verbatim>\<open>NULL\<close> when it is empty, and \<^verbatim>\<open>memp_free\<close> pushes the element back,
  while the lists of the other pools stay as they are.
\<close>

theorem memp_pools_lifo:
  assumes "sizes_ok sizes" "0 < memp_memory"
  shows "memp_rep sizes (LWIP_MEM_ALIGN_SIZE memp_memory) (memp_init sizes memp_memory s0)
      (\<lambda>t. rev (pool_elems sizes (LWIP_MEM_ALIGN_SIZE memp_memory) t))
    \<and> (memp_rep sizes a s free \<and> t < MEMP_MAX \<longrightarrow>
        (case free t of
           [] \<Rightarrow> \<exists>s'. memp_malloc t s = Some (NULL, s') \<and> memp_rep sizes a s' free
         | p # ps \<Rightarrow> \<exists>s'. memp_malloc t s = Some (p, s') \<and> memp_rep sizes a s' (free(t := ps))))
    \<and> (memp_rep sizes a s free \<and> t < MEMP_MAX \<and> p \<in> set (pool_elems sizes a t) \<and> p \<notin> set (free t) \<longrightarrow>
        (\<exists>s'. memp_free t p s = Some s' \<and> memp_rep sizes a s' (free(t := p # free t))))"
  using memp_init_rep [OF assms] memp_malloc_pop [of sizes a s free t]
    memp_malloc_empty [of sizes a s free t] memp_free_push [of sizes a s free t p]
  by (auto split: list.split)

text \<open>Pools at address 4 for the witnesses, with pbuf elements of the size of the build.\<close>

definition sizes0 :: "memp_t \<Rightarrow> nat" where
  "sizes0 t = (if t = MEMP_PBUF_POOL then 616 else 24)"

definition pools0 :: memp_state where
  "pools0 = memp_init sizes0 4
     \<lparr>memp_tab = (\<lambda>_. 0), memp_next = (\<lambda>_. 0),
      memp_stats = (\<lambda>_. \<lparr>st_avail = 0, st_used = 0, st_max = 0, st_err = 0, st_illegal = 0\<rparr>)\<rparr>"

lemma sizes0_ok: "sizes_ok sizes0"
  by (simp add: sizes_ok_def sizes0_def)

lemma align_4: "LWIP_MEM_ALIGN_SIZE 4 = 4"
  by (simp add: LWIP_MEM_ALIGN_SIZE_def)

lemma pools0_rep: "memp_rep sizes0 4 pools0 (\<lambda>t. rev (pool_elems sizes0 4 t))"
  using memp_init_rep [OF sizes0_ok, of 4] unfolding pools0_def align_4 by simp

lemma pools0_inv: "memp_inv sizes0 4 pools0"
  using pools0_rep unfolding memp_inv_def by blast

lemma pools0_live: "t < MEMP_MAX \<Longrightarrow> memp_live sizes0 4 t pools0 = {}"
  using memp_live_eq [OF pools0_rep] by simp

theorem memp_pools_lifo_witness:
  "memp_rep sizes0 (LWIP_MEM_ALIGN_SIZE 4) pools0 (\<lambda>t. rev (pool_elems sizes0 (LWIP_MEM_ALIGN_SIZE 4) t))
   \<and> (\<exists>s'. memp_malloc 0 pools0 = Some (76, s'))"
proof -
  have "rev (pool_elems sizes0 4 0) = [76, 52, 28, 4]"
    by (simp add: pool_elems_def memp_num_def pool_base_def upt_rec sizes0_def)
  then show ?thesis
    using memp_pools_lifo [OF sizes0_ok, of 4 _ 4 pools0 "\<lambda>t. rev (pool_elems sizes0 4 t)" 0] pools0_rep
    unfolding align_4 by fastforce
qed

text \<open>
  Whatever sequence of allocations and releases a client makes on the pool of pbuf buffers, no
  assertion fails; the elements it holds are distinct, and are exactly those missing from the
  free list.
\<close>

theorem memp_workload_safe:
  assumes "memp_inv sizes a s" "distinct held" "set held = memp_live sizes a MEMP_PBUF_POOL s"
  shows "\<exists>s' held'. run_requests (\<lambda>_::unit. memp_malloc MEMP_PBUF_POOL) (memp_free MEMP_PBUF_POOL) rs (s, held)
      = Some (s', held')
    \<and> memp_inv sizes a s' \<and> distinct held' \<and> set held' = memp_live sizes a MEMP_PBUF_POOL s'"
  using pbuf_pool.workload [OF assms] .

theorem memp_workload_safe_witness:
  "\<exists>s' held'. run_requests (\<lambda>_::unit. memp_malloc MEMP_PBUF_POOL) (memp_free MEMP_PBUF_POOL)
      [Alloc (), Alloc (), Release 0, Alloc ()] (pools0, []) = Some (s', held') \<and> distinct held'"
proof -
  have "memp_live sizes0 4 MEMP_PBUF_POOL pools0 = {}" by (rule pools0_live) simp
  then show ?thesis
    using memp_workload_safe [OF pools0_inv, of "[]" "[Alloc (), Alloc (), Release 0, Alloc ()]"]
    by (simp only: list.set distinct.simps) blast
qed

text \<open>
  \<^verbatim>\<open>memp_sanity\<close> always terminates, even on corrupt lists, and is exact: when every free list
  either ends or runs into a circle, it returns 1 precisely when none runs into a circle.
\<close>

theorem memp_sanity_exact:
  assumes "\<forall>i<MEMP_MAX. (\<exists>xs. chain (memp_next s) (memp_tab s i) xs) \<or> cyclic (memp_next s) (memp_tab s i)"
  shows "memp_sanity s = Some (\<forall>i<MEMP_MAX. \<not> cyclic (memp_next s) (memp_tab s i))"
proof -
  have eq: "i \<in> set [0..<MEMP_MAX] \<longleftrightarrow> i < MEMP_MAX" for i
    unfolding set_upt atLeastLessThan_iff by simp
  show ?thesis
    using memp_sanity_from_exact [of "[0..<MEMP_MAX]" s] assms unfolding memp_sanity_def Ball_def eq
    by (simp only: HOL.simp_thms)
qed

theorem memp_sanity_exact_witness:
  "memp_sanity (pools0\<lparr>memp_tab := (\<lambda>_. 8), memp_next := (\<lambda>_. 8)\<rparr>) = Some False"
proof -
  have "((\<lambda>_::nat. 8::nat) ^^ k) 8 = 8" for k by (induction k) auto
  then have "cyclic (\<lambda>_. 8) 8" unfolding cyclic_def by auto
  then show ?thesis
    using memp_sanity_exact [of "pools0\<lparr>memp_tab := (\<lambda>_. 8), memp_next := (\<lambda>_. 8)\<rparr>"]
    by (auto intro: exI [of _ 0])
qed

end
