(* ===== verification/Timers.thy ===== *)
theory Timers
  imports Memp
begin

text \<open>
  The timeout list of \<^verbatim>\<open>core/timers.c\<close>, in its \<^verbatim>\<open>NO_SYS\<close> variant. Pending timeouts are a singly
  linked list of elements of the pool \<^verbatim>\<open>MEMP_SYS_TIMEOUT\<close>; each holds the time between its predecessor's
  expiry and its own. The specification is a list of deadlines. Handlers are function pointers,
  here numbers; what they do is a parameter of \<^verbatim>\<open>sys_check_timeouts\<close>, as is \<^verbatim>\<open>sys_now\<close>. The state is
  extensible, so that handlers may act on more than the timers. \<open>None\<close> stands for a failed assertion.
\<close>

section \<open>State and operations\<close>

record sys_timeo =
  t_next :: addr
  t_time :: nat
  t_h :: nat
  t_arg :: addr

record timer_state =
  next_timeout :: addr
  timeouts_last_time :: nat
  timeos :: "addr \<Rightarrow> sys_timeo"
  timer_pools :: memp_state

text \<open>Subtraction and addition on the 32-bit time fields.\<close>

definition time_sub :: "nat \<Rightarrow> nat \<Rightarrow> nat" where
  "time_sub a b = to_u32 (a + 4294967296 - b)"

definition time_add :: "nat \<Rightarrow> nat \<Rightarrow> nat" where
  "time_add a b = to_u32 (a + b)"

definition set_time :: "addr \<Rightarrow> nat \<Rightarrow> (addr \<Rightarrow> sys_timeo) \<Rightarrow> addr \<Rightarrow> sys_timeo" where
  "set_time p v f = f(p := (f p)\<lparr>t_time := v\<rparr>)"

definition link_to :: "addr \<Rightarrow> addr \<Rightarrow> (addr \<Rightarrow> sys_timeo) \<Rightarrow> addr \<Rightarrow> sys_timeo" where
  "link_to p q f = f(p := (f p)\<lparr>t_next := q\<rparr>)"

text \<open>The loop of \<^verbatim>\<open>sys_timeout\<close>: \<open>p\<close> is the new timeout, \<open>t\<close> the position in the list.\<close>

partial_function (option) timeout_loop :: "addr \<Rightarrow> addr \<Rightarrow> (addr \<Rightarrow> sys_timeo) \<Rightarrow> (addr \<Rightarrow> sys_timeo) option" where
  "timeout_loop p t f =
     (if t = NULL then Some f
      else
        let f = set_time p (time_sub (t_time (f p)) (t_time (f t))) f;
            n = t_next (f t)
        in if n = NULL \<or> t_time (f n) > t_time (f p)
           then let f = (if n \<noteq> NULL then set_time n (time_sub (t_time (f n)) (t_time (f p))) f else f)
                in Some (link_to t p (link_to p n f))
           else timeout_loop p n f)"

definition sys_timeout :: "nat \<Rightarrow> nat \<Rightarrow> addr \<Rightarrow> 'a timer_state_scheme \<Rightarrow> 'a timer_state_scheme option" where
  "sys_timeout msecs h arg s =
     (case memp_malloc MEMP_SYS_TIMEOUT (timer_pools s) of
        None \<Rightarrow> None
      | Some (p, m) \<Rightarrow>
          if p = NULL then None
          else
            let s = s\<lparr>timer_pools := m\<rparr>;
                f = (timeos s)(p := \<lparr>t_next = NULL, t_time = msecs, t_h = h, t_arg = arg\<rparr>);
                q = next_timeout s
            in if q = NULL then Some (s\<lparr>timeos := f, next_timeout := p\<rparr>)
               else if t_time (f q) > msecs
               then Some (s\<lparr>timeos := link_to p q (set_time q (time_sub (t_time (f q)) msecs) f), next_timeout := p\<rparr>)
               else map_option (\<lambda>f. s\<lparr>timeos := f\<rparr>) (timeout_loop p q f))"

partial_function (option) untimeout_loop ::
  "nat \<Rightarrow> addr \<Rightarrow> addr \<Rightarrow> addr \<Rightarrow> 'a timer_state_scheme \<Rightarrow> 'a timer_state_scheme option" where
  "untimeout_loop h arg prev t s =
     (if t = NULL then Some s
      else if t_h (timeos s t) = h \<and> t_arg (timeos s t) = arg
      then
        let n = t_next (timeos s t);
            s = (if prev = NULL then s\<lparr>next_timeout := n\<rparr> else s\<lparr>timeos := link_to prev n (timeos s)\<rparr>);
            s = (if n \<noteq> NULL
                 then s\<lparr>timeos := set_time n (time_add (t_time (timeos s n)) (t_time (timeos s t))) (timeos s)\<rparr>
                 else s)
        in map_option (\<lambda>m. s\<lparr>timer_pools := m\<rparr>) (memp_free MEMP_SYS_TIMEOUT t (timer_pools s))
      else untimeout_loop h arg t (t_next (timeos s t)) s)"

definition sys_untimeout :: "nat \<Rightarrow> addr \<Rightarrow> 'a timer_state_scheme \<Rightarrow> 'a timer_state_scheme option" where
  "sys_untimeout h arg s = (if next_timeout s = NULL then Some s else untimeout_loop h arg NULL (next_timeout s) s)"

text \<open>
  The loop of \<^verbatim>\<open>sys_check_timeouts\<close>. \<open>call\<close> runs a handler; \<open>ooseq\<close> is \<^verbatim>\<open>PBUF_CHECK_FREE_OOSEQ\<close>, which
  may release queued TCP segments.
\<close>

partial_function (option) check_timeouts_loop ::
  "(nat \<Rightarrow> addr \<Rightarrow> 'a timer_state_scheme \<Rightarrow> 'a timer_state_scheme option) \<Rightarrow>
   ('a timer_state_scheme \<Rightarrow> 'a timer_state_scheme option) \<Rightarrow> nat \<Rightarrow> nat \<Rightarrow>
   'a timer_state_scheme \<Rightarrow> 'a timer_state_scheme option" where
  "check_timeouts_loop call ooseq now diff s =
     (case ooseq s of
        None \<Rightarrow> None
      | Some s \<Rightarrow>
          let t = next_timeout s
          in if t \<noteq> NULL \<and> t_time (timeos s t) \<le> diff
             then
               let diff = diff - t_time (timeos s t);
                   h = t_h (timeos s t);
                   arg = t_arg (timeos s t);
                   s = s\<lparr>timeouts_last_time := now, next_timeout := t_next (timeos s t)\<rparr>
               in case memp_free MEMP_SYS_TIMEOUT t (timer_pools s) of
                    None \<Rightarrow> None
                  | Some m \<Rightarrow>
                      let s = s\<lparr>timer_pools := m\<rparr>
                      in case (if h \<noteq> NULL then call h arg s else Some s) of
                           None \<Rightarrow> None
                         | Some s \<Rightarrow> check_timeouts_loop call ooseq now diff s
             else Some s)"

definition sys_check_timeouts ::
  "(nat \<Rightarrow> addr \<Rightarrow> 'a timer_state_scheme \<Rightarrow> 'a timer_state_scheme option) \<Rightarrow>
   ('a timer_state_scheme \<Rightarrow> 'a timer_state_scheme option) \<Rightarrow> nat \<Rightarrow>
   'a timer_state_scheme \<Rightarrow> 'a timer_state_scheme option" where
  "sys_check_timeouts call ooseq now s =
     (if next_timeout s \<noteq> NULL
      then check_timeouts_loop call ooseq now (time_sub now (timeouts_last_time s)) s
      else Some s)"

definition sys_restart_timeouts :: "nat \<Rightarrow> 'a timer_state_scheme \<Rightarrow> 'a timer_state_scheme" where
  "sys_restart_timeouts now s = s\<lparr>timeouts_last_time := now\<rparr>"

section \<open>Specification: a list of deadlines\<close>

text \<open>A pending timer: its deadline, counted from \<^verbatim>\<open>timeouts_last_time\<close>, its handler and the argument.\<close>

type_synonym timer = "nat \<times> nat \<times> addr"

fun insert_timer :: "nat \<Rightarrow> nat \<Rightarrow> addr \<Rightarrow> timer list \<Rightarrow> timer list" where
  "insert_timer d h arg [] = [(d, h, arg)]"
| "insert_timer d h arg (e # es) = (if fst e > d then (d, h, arg) # e # es else e # insert_timer d h arg es)"

fun cancel_timer :: "nat \<Rightarrow> addr \<Rightarrow> timer list \<Rightarrow> timer list" where
  "cancel_timer h arg [] = []"
| "cancel_timer h arg (e # es) = (if snd e = (h, arg) then es else e # cancel_timer h arg es)"

fun entries :: "(addr \<Rightarrow> sys_timeo) \<Rightarrow> nat \<Rightarrow> addr list \<Rightarrow> timer list" where
  "entries f acc [] = []"
| "entries f acc (x # xs) =
     (acc + t_time (f x), t_h (f x), t_arg (f x)) # entries f (acc + t_time (f x)) xs"

definition timer_list :: "(memp_t \<Rightarrow> nat) \<Rightarrow> addr \<Rightarrow> 'a timer_state_scheme \<Rightarrow> addr list \<Rightarrow> timer list \<Rightarrow> bool" where
  "timer_list sizes a s xs es \<longleftrightarrow>
     chain (\<lambda>x. t_next (timeos s x)) (next_timeout s) xs \<and> es = entries (timeos s) 0 xs
     \<and> (\<forall>e\<in>set es. fst e < 4294967296)
     \<and> memp_inv sizes a (timer_pools s) \<and> set xs = memp_live sizes a MEMP_SYS_TIMEOUT (timer_pools s)"

definition timer_rep :: "(memp_t \<Rightarrow> nat) \<Rightarrow> addr \<Rightarrow> 'a timer_state_scheme \<Rightarrow> timer list \<Rightarrow> bool" where
  "timer_rep sizes a s es \<longleftrightarrow> (\<exists>xs. timer_list sizes a s xs es)"

section \<open>Lists of deadlines\<close>

lemma set_insert_timer [simp]: "set (insert_timer d h arg es) = insert (d, h, arg) (set es)"
  by (induction es) auto

lemma length_insert_timer [simp]: "length (insert_timer d h arg es) = Suc (length es)"
  by (induction es) auto

lemma sorted_insert_timer: "sorted (map fst es) \<Longrightarrow> sorted (map fst (insert_timer d h arg es))"
  by (induction es) (auto simp: less_imp_le order_trans)

lemma set_cancel_timer: "set (cancel_timer h arg es) \<subseteq> set es"
  by (induction es) auto

lemma cancel_timer_absent: "(h, arg) \<notin> snd ` set es \<Longrightarrow> cancel_timer h arg es = es"
  by (induction es) auto

lemma cancel_insert_timer: "(h, arg) \<notin> snd ` set es \<Longrightarrow> cancel_timer h arg (insert_timer d h arg es) = es"
  by (induction es) (auto simp: cancel_timer_absent)

lemma entries_ge: "e \<in> set (entries f acc xs) \<Longrightarrow> acc \<le> fst e"
  by (induction xs arbitrary: acc) fastforce+

lemma entries_sorted: "sorted (map fst (entries f acc xs))"
  by (induction xs arbitrary: acc) (auto dest: entries_ge)

lemma length_entries [simp]: "length (entries f acc xs) = length xs"
  by (induction xs arbitrary: acc) auto

lemma entries_cong: "(\<And>x. x \<in> set xs \<Longrightarrow> f' x = f x) \<Longrightarrow> entries f' acc xs = entries f acc xs"
  by (induction xs arbitrary: acc) auto

lemma entries_upd_notin [simp]: "y \<notin> set xs \<Longrightarrow> entries (f(y := v)) acc xs = entries f acc xs"
  by (rule entries_cong) auto

lemma entries_shift: "entries f (acc + d) xs = map (\<lambda>(e, ha). (e + d, ha)) (entries f acc xs)"
proof (induction xs arbitrary: acc)
  case (Cons x xs)
  then show ?case using Cons.IH [of "acc + t_time (f x)"] by (simp add: ac_simps)
qed simp

section \<open>Setting a timer\<close>

lemma time_sub_le [simp]: "b \<le> a \<Longrightarrow> a < 4294967296 \<Longrightarrow> time_sub a b = a - b"
  unfolding time_sub_def by (rule to_u32_sub) auto

lemma time_add_le [simp]: "a + b < 4294967296 \<Longrightarrow> time_add a b = a + b"
  by (simp add: time_add_def)

lemma timeout_loop_spec:
  assumes "chain (\<lambda>x. t_next (f x)) t (t # xs)" "p \<notin> set (t # xs)" "p \<noteq> NULL"
    and "t_time (f t) \<le> t_time (f p)" "t_time (f p) < 4294967296"
    and "\<forall>e\<in>set (entries f acc (t # xs)). fst e < 4294967296"
  shows "\<exists>f' ys. timeout_loop p t f = Some f' \<and> chain (\<lambda>x. t_next (f' x)) t ys
    \<and> set ys = insert p (set (t # xs)) \<and> (\<forall>x. x \<notin> set (p # t # xs) \<longrightarrow> f' x = f x)
    \<and> entries f' acc ys = insert_timer (acc + t_time (f p)) (t_h (f p)) (t_arg (f p)) (entries f acc (t # xs))"
  using assms
proof (induction xs arbitrary: t f acc)
  case Nil
  let ?f = "link_to t p (link_to p NULL (set_time p (t_time (f p) - t_time (f t)) f))"
  have "timeout_loop p t f = Some ?f"
    using Nil.prems by (subst timeout_loop.simps) (auto simp: Let_def set_time_def)
  moreover have "chain (\<lambda>x. t_next (?f x)) t [t, p]" using Nil.prems by (auto simp: link_to_def set_time_def)
  ultimately show ?case
    using Nil.prems by (intro exI [of _ ?f] exI [of _ "[t, p]"]) (auto simp: link_to_def set_time_def)
next
  case (Cons n xs)
  define g where "g = set_time p (t_time (f p) - t_time (f t)) f"
  have n: "t_next (f t) = n" "n \<noteq> NULL" "n \<noteq> p" "t \<noteq> p" "t \<noteq> NULL" "p \<notin> set xs" "t \<notin> set (n # xs)"
    using Cons.prems(1,2) chain_hd_notin [OF Cons.prems(1)] by auto
  have g: "g p = (f p)\<lparr>t_time := t_time (f p) - t_time (f t)\<rparr>" "\<And>x. x \<noteq> p \<Longrightarrow> g x = f x"
    by (simp_all add: g_def set_time_def)
  have bound: "acc + t_time (f t) + t_time (f n) < 4294967296" using Cons.prems(6) by simp
  show ?case
  proof (cases "t_time (f n) > t_time (g p)")
    case True
    define F where "F = link_to t p (link_to p n (set_time n (t_time (f n) - t_time (g p)) g))"
    have eq: "timeout_loop p t f = Some F"
      using Cons.prems(4,5) n True bound g unfolding F_def
      by (subst timeout_loop.simps) (auto simp: Let_def g_def set_time_def)
    have F: "F t = (f t)\<lparr>t_next := p\<rparr>" "F p = (g p)\<lparr>t_next := n\<rparr>"
      "F n = (f n)\<lparr>t_time := t_time (f n) - t_time (g p)\<rparr>" "\<And>x. x \<noteq> t \<Longrightarrow> x \<noteq> p \<Longrightarrow> x \<noteq> n \<Longrightarrow> F x = f x"
      unfolding F_def using n g(2) by (auto simp: link_to_def set_time_def)
    have cn: "chain (\<lambda>x. t_next (f x)) n (n # xs)" using Cons.prems(1) n(1) by simp
    have nx: "n \<notin> set xs" using chain_hd_notin [OF cn] .
    have Fxs: "F x = f x" if "x \<in> set xs" for x by (rule F(4)) (use that n(6,7) nx in auto)
    then have c: "chain (\<lambda>x. t_next (F x)) (t_next (f n)) xs" "entries F b xs = entries f b xs" for b
      using cn chain_cong [of xs "\<lambda>x. t_next (F x)" "\<lambda>x. t_next (f x)" "t_next (f n)"]
      by (simp_all cong: entries_cong)
    have "chain (\<lambda>x. t_next (F x)) t (t # p # n # xs)" using c(1) n Cons.prems(3) F by simp
    moreover have "entries F acc (t # p # n # xs) =
        insert_timer (acc + t_time (f p)) (t_h (f p)) (t_arg (f p)) (entries f acc (t # n # xs))"
    proof -
      have "t_time (f p) < t_time (f t) + t_time (f n)" using True Cons.prems(4) g(1) by simp
      then show ?thesis using True Cons.prems(4) by (simp add: F c(2) g(1) ac_simps)
    qed
    moreover have "\<forall>x. x \<notin> set (p # t # n # xs) \<longrightarrow> F x = f x" using F(4) by simp
    moreover have "set (t # p # n # xs) = insert p (set (t # n # xs))" by auto
    ultimately show ?thesis using eq by blast
  next
    case False
    have step: "timeout_loop p t f = timeout_loop p n g"
      using Cons.prems(4,5) n False g
      by (subst timeout_loop.simps) (auto simp: Let_def g_def set_time_def)
    have c: "chain (\<lambda>x. t_next (g x)) n (n # xs)"
    proof -
      have "chain (\<lambda>x. t_next (f x)) n (n # xs)" using Cons.prems(1) n(1) by simp
      moreover have "t_next (g x) = t_next (f x)" for x by (simp add: g_def set_time_def)
      ultimately show ?thesis by presburger
    qed
    have e: "entries g b (n # xs) = entries f b (n # xs)" for b
      by (rule entries_cong, rule g(2)) (use n in auto)
    have hyps: "p \<notin> set (n # xs)" "t_time (g n) \<le> t_time (g p)" "t_time (g p) < 4294967296"
      "\<forall>e\<in>set (entries g (acc + t_time (f t)) (n # xs)). fst e < 4294967296"
      using n g False Cons.prems(5,6) unfolding e by auto
    from Cons.IH [OF c hyps(1) Cons.prems(3) hyps(2-4)] obtain f' ys where r:
      "timeout_loop p n g = Some f'" "chain (\<lambda>x. t_next (f' x)) n ys" "set ys = insert p (set (n # xs))"
      "\<forall>x. x \<notin> set (p # n # xs) \<longrightarrow> f' x = g x"
      "entries f' (acc + t_time (f t)) ys = insert_timer (acc + t_time (f t) + t_time (g p)) (t_h (g p)) (t_arg (g p))
         (entries g (acc + t_time (f t)) (n # xs))"
      by blast
    have ft: "f' t = f t" using r(4) n g(2) by simp
    then show ?thesis
      using step r n g e Cons.prems(4) by (intro exI [of _ f'] exI [of _ "t # ys"]) auto
  qed
qed


section \<open>The pool of timers\<close>

text \<open>
  The timers are the elements of their pool that are in use: what \<^verbatim>\<open>timers.c\<close> relies on is the contract of
  the allocators, and that the pool hands out all of its elements before it runs dry.
\<close>

interpretation timeo_pool: allocator "\<lambda>_::unit. memp_malloc MEMP_SYS_TIMEOUT" "memp_free MEMP_SYS_TIMEOUT"
  "memp_inv sizes a" "memp_live sizes a MEMP_SYS_TIMEOUT" for sizes :: "memp_t \<Rightarrow> nat" and a :: addr
  by (rule memp_allocator) simp

lemma pool_elems_distinct: "sizes_ok sizes \<Longrightarrow> t < MEMP_MAX \<Longrightarrow> distinct (pool_elems sizes a t)"
  using sizes_okD [of sizes t] by (auto simp: pool_elems_def distinct_map inj_on_def)

lemma timeo_pool_full:
  assumes "memp_inv sizes a m"
  shows "(\<exists>m'. memp_malloc MEMP_SYS_TIMEOUT m = Some (NULL, m'))
    \<longleftrightarrow> memp_num MEMP_SYS_TIMEOUT \<le> card (memp_live sizes a MEMP_SYS_TIMEOUT m)"
proof -
  have t: "MEMP_SYS_TIMEOUT < MEMP_MAX" by simp
  from assms obtain free where r: "memp_rep sizes a m free" unfolding memp_inv_def by blast
  have elems: "card (set (pool_elems sizes a MEMP_SYS_TIMEOUT)) = memp_num MEMP_SYS_TIMEOUT"
    using r t distinct_card [OF pool_elems_distinct] unfolding memp_rep_def by (simp add: pool_elems_def)
  show ?thesis
  proof (cases "free MEMP_SYS_TIMEOUT")
    case Nil
    then show ?thesis
      using memp_malloc_empty [OF r t Nil] memp_live_eq [OF r t] elems by auto
  next
    case (Cons x xs)
    have x: "x \<in> set (pool_elems sizes a MEMP_SYS_TIMEOUT)" "x \<noteq> NULL"
      using r t Cons chain_NULL_notin unfolding memp_rep_def by (metis list.set_intros(1) subsetD)+
    then have "memp_live sizes a MEMP_SYS_TIMEOUT m \<subset> set (pool_elems sizes a MEMP_SYS_TIMEOUT)"
      unfolding memp_live_eq [OF r t] Cons by auto
    then have "card (memp_live sizes a MEMP_SYS_TIMEOUT m) < memp_num MEMP_SYS_TIMEOUT"
      using psubset_card_mono [OF finite_set] elems by metis
    then show ?thesis using memp_malloc_pop [OF r t Cons] x(2) by auto
  qed
qed

lemma timer_list_card:
  assumes "timer_list sizes a s xs es"
  shows "card (memp_live sizes a MEMP_SYS_TIMEOUT (timer_pools s)) = length es"
  using assms chain_distinct distinct_card unfolding timer_list_def by (metis length_entries)

lemma timer_rep_props:
  assumes "timer_rep sizes a s es"
  shows "sorted (map fst es)" "length es \<le> memp_num MEMP_SYS_TIMEOUT" "\<forall>e\<in>set es. fst e < 4294967296"
proof -
  from assms obtain xs where l: "timer_list sizes a s xs es" unfolding timer_rep_def by blast
  then have inv: "memp_inv sizes a (timer_pools s)" by (simp add: timer_list_def)
  then obtain free where "memp_rep sizes a (timer_pools s) free" unfolding memp_inv_def by blast
  then have "memp_live sizes a MEMP_SYS_TIMEOUT (timer_pools s) \<subseteq> set (pool_elems sizes a MEMP_SYS_TIMEOUT)"
    by (simp add: memp_live_eq)
  then have "length es \<le> card (set (pool_elems sizes a MEMP_SYS_TIMEOUT))"
    using timer_list_card [OF l] by (metis card_mono finite_set)
  also have "\<dots> \<le> memp_num MEMP_SYS_TIMEOUT" by (rule card_length [THEN le_trans]) (simp add: pool_elems_def)
  finally show "length es \<le> memp_num MEMP_SYS_TIMEOUT" .
  show "sorted (map fst es)" "\<forall>e\<in>set es. fst e < 4294967296"
    using l entries_sorted by (auto simp: timer_list_def)
qed

lemma sys_timeout_spec:
  assumes "timer_list sizes a s xs es" "d < 4294967296"
  shows "(if length es < memp_num MEMP_SYS_TIMEOUT
          then \<exists>s'. sys_timeout d h arg s = Some s' \<and> timer_rep sizes a s' (insert_timer d h arg es)
          else sys_timeout d h arg s = None)"
proof -
  have inv: "memp_inv sizes a (timer_pools s)" and c: "chain (\<lambda>x. t_next (timeos s x)) (next_timeout s) xs"
    and es: "es = entries (timeos s) 0 xs" "\<forall>e\<in>set es. fst e < 4294967296"
    and xs: "set xs = memp_live sizes a MEMP_SYS_TIMEOUT (timer_pools s)"
    using assms(1) by (auto simp: timer_list_def)
  note full = timeo_pool_full [OF inv, unfolded timer_list_card [OF assms(1)]]
  from inv show ?thesis
  proof (cases rule: timeo_pool.malloc_cases)
    case (1 m)
    then show ?thesis using full by (auto simp: sys_timeout_def)
  next
    case (2 p m)
    then have room: "length es < memp_num MEMP_SYS_TIMEOUT" using full by auto
    define f where "f = (timeos s)(p := \<lparr>t_next = NULL, t_time = d, t_h = h, t_arg = arg\<rparr>)"
    have p: "p \<notin> set xs" using 2 xs by simp
    have cf: "chain (\<lambda>x. t_next (f x)) (next_timeout s) xs" and ef: "entries f 0 xs = es"
    proof -
      have "chain (\<lambda>x. t_next (f x)) (next_timeout s) xs = chain (\<lambda>x. t_next (timeos s x)) (next_timeout s) xs"
        by (rule chain_cong) (use p f_def in auto)
      then show "chain (\<lambda>x. t_next (f x)) (next_timeout s) xs" using c by simp
      show "entries f 0 xs = es" unfolding es f_def using p by simp
    qed
    have built: "timer_rep sizes a (s\<lparr>timer_pools := m, timeos := f', next_timeout := q\<rparr>) (insert_timer d h arg es)"
      if "chain (\<lambda>x. t_next (f' x)) q ys" "set ys = insert p (set xs)" "entries f' 0 ys = insert_timer d h arg es" for f' q ys
      unfolding timer_rep_def timer_list_def
      by (intro exI [of _ ys]) (use that 2 xs es(2) assms(2) in auto)
    show ?thesis
    proof (cases xs)
      case Nil
      then have nt: "next_timeout s = NULL" "es = []" using c ef by auto
      then have "sys_timeout d h arg s = Some (s\<lparr>timer_pools := m, timeos := f, next_timeout := p\<rparr>)"
        using 2 by (simp add: sys_timeout_def Let_def f_def)
      moreover have "chain (\<lambda>x. t_next (f x)) p [p]" "entries f 0 [p] = insert_timer d h arg es"
        using 2(2) nt(2) by (simp_all add: f_def)
      ultimately show ?thesis using built [of f p "[p]"] Nil room by auto
    next
      case (Cons q xs')
      then have q: "next_timeout s = q" "q \<noteq> NULL" "q \<noteq> p" "q \<notin> set xs'" "p \<notin> set xs'"
        using c p chain_hd_notin [of _ q xs'] by auto
      have fp: "f p = \<lparr>t_next = NULL, t_time = d, t_h = h, t_arg = arg\<rparr>" by (simp add: f_def)
      show ?thesis
      proof (cases "t_time (f q) > d")
        case True
        let ?f = "link_to p q (set_time q (t_time (f q) - d) f)"
        have tq: "t_time (f q) < 4294967296" using es(2) ef Cons by auto
        then have eq: "sys_timeout d h arg s = Some (s\<lparr>timer_pools := m, timeos := ?f, next_timeout := p\<rparr>)"
          using 2 q True by (simp add: sys_timeout_def Let_def f_def)
        have F: "?f x = f x" if "x \<in> set xs'" for x using that q by (auto simp: link_to_def set_time_def)
        have "chain (\<lambda>x. t_next (?f x)) (t_next (f q)) xs' = chain (\<lambda>x. t_next (f x)) (t_next (f q)) xs'"
          by (rule chain_cong) (simp only: F)
        then have "chain (\<lambda>x. t_next (?f x)) p (p # xs)"
          using cf q 2(2) Cons by (simp add: link_to_def set_time_def)
        moreover have "entries ?f b xs' = entries f b xs'" for b by (rule entries_cong) (rule F)
        then have "entries ?f 0 (p # xs) = insert_timer d h arg es"
          using True q fp unfolding ef [symmetric] Cons by (simp add: link_to_def set_time_def)
        ultimately show ?thesis using built [of ?f p "p # xs"] eq room by auto
      next
        case False
        have hyps: "chain (\<lambda>x. t_next (f x)) q (q # xs')" "p \<notin> set (q # xs')"
          "t_time (f q) \<le> t_time (f p)" "t_time (f p) < 4294967296"
          "\<forall>e\<in>set (entries f 0 (q # xs')). fst e < 4294967296"
          using cf q Cons False fp assms(2) es(2) ef by auto
        from timeout_loop_spec [OF hyps(1,2) 2(2) hyps(3-5)] obtain f' ys where r:
          "timeout_loop p q f = Some f'" "chain (\<lambda>x. t_next (f' x)) q ys" "set ys = insert p (set xs)"
          "entries f' 0 ys = insert_timer d h arg es"
          using fp ef Cons by auto
        have "sys_timeout d h arg s = Some (s\<lparr>timer_pools := m, timeos := f', next_timeout := q\<rparr>)"
          using 2 q False r(1) by (simp add: sys_timeout_def Let_def f_def)
        then show ?thesis using built [OF r(2-4)] room by auto
      qed
    qed
  qed
qed


section \<open>Cancelling a timer\<close>

lemma entries_give_back:
  assumes "x \<notin> set xs"
  shows "entries (set_time x (t_time (f x) + d) f) acc (x # xs) = entries f (acc + d) (x # xs)"
  using assms by (simp add: set_time_def ac_simps)

text \<open>Unlinking \<open>t\<close> behind \<open>prev\<close>: the rest keeps its deadlines.\<close>

definition unlink :: "addr \<Rightarrow> addr \<Rightarrow> (addr \<Rightarrow> sys_timeo) \<Rightarrow> addr \<Rightarrow> sys_timeo" where
  "unlink prev t f =
     (let n = t_next (f t);
          f = (if prev = NULL then f else link_to prev n f)
      in if n \<noteq> NULL then set_time n (time_add (t_time (f n)) (t_time (f t))) f else f)"

lemma unlink_spec:
  assumes "chain (\<lambda>x. t_next (f x)) t (t # xs)" "prev \<notin> set (t # xs)"
    and "\<forall>e\<in>set (entries f acc (t # xs)). fst e < 4294967296"
  shows "chain (\<lambda>x. t_next (unlink prev t f x)) (t_next (f t)) xs"
    and "entries (unlink prev t f) acc xs = entries f (acc + t_time (f t)) xs"
    and "x \<notin> set xs \<Longrightarrow> x \<noteq> prev \<or> prev = NULL \<Longrightarrow> unlink prev t f x = f x"
    and "prev \<noteq> NULL \<Longrightarrow> unlink prev t f prev = (f prev)\<lparr>t_next := t_next (f t)\<rparr>"
proof -
  have c: "chain (\<lambda>x. t_next (f x)) (t_next (f t)) xs" "t \<notin> set xs"
    using assms(1) chain_hd_notin [OF assms(1)] by auto
  have "chain (\<lambda>x. t_next (unlink prev t f x)) (t_next (f t)) xs = chain (\<lambda>x. t_next (f x)) (t_next (f t)) xs"
    by (rule chain_cong) (use assms(2) in \<open>auto simp: unlink_def Let_def link_to_def set_time_def\<close>)
  then show "chain (\<lambda>x. t_next (unlink prev t f x)) (t_next (f t)) xs" using c by simp
  show "entries (unlink prev t f) acc xs = entries f (acc + t_time (f t)) xs"
  proof (cases xs)
    case (Cons n zs)
    define g where "g = (if prev = NULL then f else link_to prev n f)"
    have n: "t_next (f t) = n" "n \<noteq> NULL" "n \<noteq> prev" "t \<noteq> prev" "n \<notin> set zs" "acc + t_time (f t) + t_time (f n) < 4294967296"
      using c Cons assms(2,3) chain_hd_notin [of "\<lambda>x. t_next (f x)" n zs] by auto
    have g: "g x = f x" if "x \<noteq> prev" for x using that by (simp add: g_def link_to_def)
    have "unlink prev t f = set_time n (t_time (g n) + t_time (f t)) g"
      using n g by (simp add: unlink_def Let_def g_def [symmetric])
    then have "entries (unlink prev t f) acc xs = entries g (acc + t_time (f t)) xs"
      unfolding Cons using entries_give_back [OF n(5)] by metis
    also have "\<dots> = entries f (acc + t_time (f t)) xs"
      by (rule entries_cong, rule g) (use assms(2) in auto)
    finally show ?thesis .
  qed simp
  show "unlink prev t f x = f x" if "x \<notin> set xs" "x \<noteq> prev \<or> prev = NULL"
  proof -
    have "x \<noteq> t_next (f t)" if "t_next (f t) \<noteq> NULL"
      using c(1) \<open>x \<notin> set xs\<close> that by (cases xs) auto
    then show ?thesis using that by (auto simp: unlink_def Let_def link_to_def set_time_def)
  qed
  show "unlink prev t f prev = (f prev)\<lparr>t_next := t_next (f t)\<rparr>" if "prev \<noteq> NULL"
  proof -
    have "prev \<noteq> t_next (f t)" if "t_next (f t) \<noteq> NULL" using c(1) assms(2) that by (cases xs) auto
    then show ?thesis using that by (auto simp: unlink_def Let_def link_to_def set_time_def)
  qed
qed

lemma untimeout_match:
  assumes "t \<noteq> NULL" "t_h (timeos s t) = h" "t_arg (timeos s t) = arg" "t \<noteq> prev"
    and "memp_free MEMP_SYS_TIMEOUT t (timer_pools s) = Some m"
  shows "untimeout_loop h arg prev t s =
    Some (s\<lparr>timeos := unlink prev t (timeos s), timer_pools := m,
            next_timeout := (if prev = NULL then t_next (timeos s t) else next_timeout s)\<rparr>)"
  using assms by (subst untimeout_loop.simps) (auto simp: Let_def unlink_def link_to_def)

lemma untimeout_loop_spec:
  assumes "chain (\<lambda>x. t_next (timeos s x)) prev (prev # xs)"
    and "\<forall>e\<in>set (entries (timeos s) acc xs). fst e < 4294967296"
    and "memp_inv sizes a (timer_pools s)" "set xs \<subseteq> memp_live sizes a MEMP_SYS_TIMEOUT (timer_pools s)"
  shows "\<exists>f m ys. untimeout_loop h arg prev (t_next (timeos s prev)) s = Some (s\<lparr>timeos := f, timer_pools := m\<rparr>)
    \<and> chain (\<lambda>x. t_next (f x)) prev (prev # ys) \<and> set ys \<subseteq> set xs \<and> memp_inv sizes a m
    \<and> memp_live sizes a MEMP_SYS_TIMEOUT m = memp_live sizes a MEMP_SYS_TIMEOUT (timer_pools s) - (set xs - set ys)
    \<and> (\<forall>x. x \<notin> set (prev # xs) \<longrightarrow> f x = timeos s x) \<and> (f prev)\<lparr>t_next := 0\<rparr> = (timeos s prev)\<lparr>t_next := 0\<rparr>
    \<and> entries f acc ys = cancel_timer h arg (entries (timeos s) acc xs)"
  using assms
proof (induction xs arbitrary: prev acc)
  case Nil
  then have "untimeout_loop h arg prev (t_next (timeos s prev)) s = Some s" by (simp add: untimeout_loop.simps)
  then show ?case using Nil by (intro exI [of _ "timeos s"] exI [of _ "timer_pools s"] exI [of _ "[]"]) auto
next
  case (Cons t xs)
  let ?f = "timeos s"
  have t: "t_next (?f prev) = t" "t \<noteq> NULL" "t \<noteq> prev" "prev \<noteq> NULL" "prev \<notin> set (t # xs)" "t \<notin> set xs"
    and c: "chain (\<lambda>x. t_next (?f x)) t (t # xs)"
    using Cons.prems(1) chain_hd_notin [OF Cons.prems(1)] chain_hd_notin [of _ t xs] by auto
  show ?case
  proof (cases "t_h (?f t) = h \<and> t_arg (?f t) = arg")
    case True
    have "t \<in> memp_live sizes a MEMP_SYS_TIMEOUT (timer_pools s)" using Cons.prems(4) by simp
    then obtain m where m: "memp_free MEMP_SYS_TIMEOUT t (timer_pools s) = Some m" "memp_inv sizes a m"
      "memp_live sizes a MEMP_SYS_TIMEOUT m = memp_live sizes a MEMP_SYS_TIMEOUT (timer_pools s) - {t}"
      using timeo_pool.free_law [OF Cons.prems(3)] by blast
    note u = unlink_spec [OF c t(5) Cons.prems(2)]
    have "untimeout_loop h arg prev t s = Some (s\<lparr>timeos := unlink prev t ?f, timer_pools := m\<rparr>)"
      using untimeout_match [of t s h arg prev m] t m(1) True by simp
    moreover have "chain (\<lambda>x. t_next (unlink prev t ?f x)) prev (prev # xs)" using u(1,4) t by simp
    moreover have "memp_live sizes a MEMP_SYS_TIMEOUT m
        = memp_live sizes a MEMP_SYS_TIMEOUT (timer_pools s) - (set (t # xs) - set xs)"
      using m(3) t(6) by auto
    ultimately show ?thesis
      using t m True u(2-4)
      by (intro exI [of _ "unlink prev t ?f"] exI [of _ m] exI [of _ xs]) auto
  next
    case False
    then have step: "untimeout_loop h arg prev t s = untimeout_loop h arg t (t_next (?f t)) s"
      using t by (subst untimeout_loop.simps) auto
    have "\<forall>e\<in>set (entries ?f (acc + t_time (?f t)) xs). fst e < 4294967296"
      "set xs \<subseteq> memp_live sizes a MEMP_SYS_TIMEOUT (timer_pools s)" using Cons.prems(2,4) by auto
    from Cons.IH [OF c this(1) Cons.prems(3) this(2)] obtain f m ys where r:
      "untimeout_loop h arg t (t_next (?f t)) s = Some (s\<lparr>timeos := f, timer_pools := m\<rparr>)"
      "chain (\<lambda>x. t_next (f x)) t (t # ys)" "set ys \<subseteq> set xs" "memp_inv sizes a m"
      "memp_live sizes a MEMP_SYS_TIMEOUT m = memp_live sizes a MEMP_SYS_TIMEOUT (timer_pools s) - (set xs - set ys)"
      "\<forall>x. x \<notin> set (t # xs) \<longrightarrow> f x = ?f x" "(f t)\<lparr>t_next := 0\<rparr> = (?f t)\<lparr>t_next := 0\<rparr>"
      "entries f (acc + t_time (?f t)) ys = cancel_timer h arg (entries ?f (acc + t_time (?f t)) xs)"
      by blast
    have fp: "f prev = ?f prev" using r(6) t(5) by blast
    have ft: "t_time (f t) = t_time (?f t)" "t_h (f t) = t_h (?f t)" "t_arg (f t) = t_arg (?f t)"
      using r(7) by (metis sys_timeo.ext_inject sys_timeo.surjective sys_timeo.update_convs(1))+
    have "set (t # xs) - set (t # ys) = set xs - set ys" using t(6) by auto
    then show ?thesis
      using r t fp ft False step by (intro exI [of _ f] exI [of _ m] exI [of _ "t # ys"]) auto
  qed
qed

lemma sys_untimeout_spec:
  assumes "timer_list sizes a s xs es"
  shows "\<exists>s'. sys_untimeout h arg s = Some s' \<and> timer_rep sizes a s' (cancel_timer h arg es)"
proof -
  have inv: "memp_inv sizes a (timer_pools s)" and c: "chain (\<lambda>x. t_next (timeos s x)) (next_timeout s) xs"
    and es: "es = entries (timeos s) 0 xs" "\<forall>e\<in>set es. fst e < 4294967296"
    and xs: "set xs = memp_live sizes a MEMP_SYS_TIMEOUT (timer_pools s)"
    using assms(1) by (auto simp: timer_list_def)
  have bound: "\<forall>e\<in>set (cancel_timer h arg es). fst e < 4294967296" using es(2) set_cancel_timer by fast
  have built: "timer_rep sizes a (s\<lparr>timeos := f, timer_pools := m, next_timeout := q\<rparr>) (cancel_timer h arg es)"
    if "chain (\<lambda>x. t_next (f x)) q ys" "set ys = memp_live sizes a MEMP_SYS_TIMEOUT m" "memp_inv sizes a m"
      "entries f 0 ys = cancel_timer h arg es" for f m q ys
    unfolding timer_rep_def timer_list_def by (intro exI [of _ ys]) (use that bound in auto)
  show ?thesis
  proof (cases xs)
    case Nil
    then have "next_timeout s = NULL" "es = []" using c es by auto
    then show ?thesis using assms unfolding sys_untimeout_def timer_rep_def by auto
  next
    case (Cons t zs)
    let ?f = "timeos s"
    have t: "next_timeout s = t" "t \<noteq> NULL" "t \<notin> set zs" "0 \<notin> set (t # zs)"
      and ct: "chain (\<lambda>x. t_next (?f x)) t (t # zs)"
      using c Cons chain_hd_notin [of _ t zs] chain_NULL_notin [OF c] by auto
    show ?thesis
    proof (cases "t_h (?f t) = h \<and> t_arg (?f t) = arg")
      case True
      have "t \<in> memp_live sizes a MEMP_SYS_TIMEOUT (timer_pools s)" using xs Cons by auto
      then obtain m where m: "memp_free MEMP_SYS_TIMEOUT t (timer_pools s) = Some m" "memp_inv sizes a m"
        "memp_live sizes a MEMP_SYS_TIMEOUT m = memp_live sizes a MEMP_SYS_TIMEOUT (timer_pools s) - {t}"
        using timeo_pool.free_law [OF inv] by blast
      have "sys_untimeout h arg s = Some (s\<lparr>timeos := unlink 0 t ?f, timer_pools := m, next_timeout := t_next (?f t)\<rparr>)"
        using untimeout_match [of t s h arg 0 m] t m(1) True unfolding sys_untimeout_def by simp
      moreover have "entries (unlink 0 t ?f) 0 zs = cancel_timer h arg es"
        using unlink_spec(2) [OF ct t(4), of 0] es True unfolding Cons by simp
      moreover have "set zs = memp_live sizes a MEMP_SYS_TIMEOUT m" using m(3) xs Cons t(3) by auto
      ultimately show ?thesis
        using built [of "unlink 0 t ?f" "t_next (?f t)" zs m] unlink_spec(1) [OF ct t(4), of 0] es m(2)
        unfolding Cons by blast
    next
      case False
      have step: "sys_untimeout h arg s = untimeout_loop h arg t (t_next (?f t)) s"
        using t False unfolding sys_untimeout_def by (subst untimeout_loop.simps) auto
      have "\<forall>e\<in>set (entries ?f (t_time (?f t)) zs). fst e < 4294967296"
        "set zs \<subseteq> memp_live sizes a MEMP_SYS_TIMEOUT (timer_pools s)" using es xs Cons by auto
      from untimeout_loop_spec [OF ct this(1) inv this(2)] obtain f m ys where r:
        "untimeout_loop h arg t (t_next (?f t)) s = Some (s\<lparr>timeos := f, timer_pools := m\<rparr>)"
        "chain (\<lambda>x. t_next (f x)) t (t # ys)" "set ys \<subseteq> set zs" "memp_inv sizes a m"
        "memp_live sizes a MEMP_SYS_TIMEOUT m = memp_live sizes a MEMP_SYS_TIMEOUT (timer_pools s) - (set zs - set ys)"
        "(f t)\<lparr>t_next := 0\<rparr> = (?f t)\<lparr>t_next := 0\<rparr>"
        "entries f (t_time (?f t)) ys = cancel_timer h arg (entries ?f (t_time (?f t)) zs)"
        by blast
      have ft: "t_time (f t) = t_time (?f t)" "t_h (f t) = t_h (?f t)" "t_arg (f t) = t_arg (?f t)"
        using r(6) by (metis sys_timeo.ext_inject sys_timeo.surjective sys_timeo.update_convs(1))+
      have "s\<lparr>timeos := f, timer_pools := m\<rparr> = s\<lparr>timeos := f, timer_pools := m, next_timeout := t\<rparr>" using t(1) by simp
      moreover have "set (t # ys) = memp_live sizes a MEMP_SYS_TIMEOUT m" using r(3,5) xs Cons t(3) by auto
      moreover have "entries f 0 (t # ys) = cancel_timer h arg es" using r(7) ft False es Cons by auto
      ultimately show ?thesis using built [OF r(2) _ r(4)] r(1) step by metis
    qed
  qed
qed


section \<open>Running the timers that have expired\<close>

text \<open>
  What \<^verbatim>\<open>sys_check_timeouts\<close> is for, over an agenda of deadlines: while the first timer is due within \<open>diff\<close>, time moves on to its deadline, it leaves the agenda,
  and its handler runs. A handler may change the agenda, \<open>arm\<close>, and the rest of the state, \<open>eff\<close>; \<open>pre\<close> is what \<^verbatim>\<open>PBUF_CHECK_FREE_OOSEQ\<close> does before each look at the
  agenda. The handlers called are logged. A null handler is not called.
\<close>

definition rebase :: "nat \<Rightarrow> timer list \<Rightarrow> timer list" where
  "rebase d es = map (\<lambda>(e, ha). (e - d, ha)) es"

inductive fires ::
  "(nat \<Rightarrow> addr \<Rightarrow> 'm \<Rightarrow> timer list \<Rightarrow> timer list) \<Rightarrow> (nat \<Rightarrow> addr \<Rightarrow> 'm \<Rightarrow> 'm) \<Rightarrow> ('m \<Rightarrow> 'm) \<Rightarrow>
   nat \<Rightarrow> timer list \<Rightarrow> 'm \<Rightarrow> (nat \<times> addr) list \<Rightarrow> timer list \<Rightarrow> 'm \<Rightarrow> bool"
  for arm eff pre where
  none_due: "\<forall>e\<in>set es. diff < fst e \<Longrightarrow> fires arm eff pre diff es m [] es (pre m)"
| due: "d \<le> diff \<Longrightarrow> h \<noteq> NULL \<Longrightarrow>
    fires arm eff pre (diff - d) (arm h arg (pre m) (rebase d es)) (eff h arg (pre m)) calls es' m' \<Longrightarrow>
    fires arm eff pre diff ((d, h, arg) # es) m ((h, arg) # calls) es' m'"
| due_null: "d \<le> diff \<Longrightarrow> fires arm eff pre (diff - d) (rebase d es) (pre m) calls es' m' \<Longrightarrow>
    fires arm eff pre diff ((d, NULL, arg) # es) m calls es' m'"

text \<open>The timers that are due at once.\<close>

definition due_now :: "timer list \<Rightarrow> nat" where
  "due_now es = length (filter (\<lambda>e. fst e = 0) es)"

text \<open>
  What is asked of a handler: given a free place in the list it returns, its effect on the agenda and on the rest is that of \<open>arm\<close> and \<open>eff\<close>, and it sets no
  timer that is due at once. It may set itself again, as the cyclic handlers of \<^verbatim>\<open>timers.c\<close> do, cancel timers or set others.
\<close>

definition handlers_do ::
  "(memp_t \<Rightarrow> nat) \<Rightarrow> addr \<Rightarrow> (nat \<Rightarrow> addr \<Rightarrow> 'm timer_state_scheme \<Rightarrow> 'm timer_state_scheme option) \<Rightarrow>
   (nat \<Rightarrow> addr \<Rightarrow> 'm \<Rightarrow> timer list \<Rightarrow> timer list) \<Rightarrow> (nat \<Rightarrow> addr \<Rightarrow> 'm \<Rightarrow> 'm) \<Rightarrow> bool" where
  "handlers_do sizes a call arm eff \<longleftrightarrow>
     (\<forall>h arg s es. timer_rep sizes a s es \<longrightarrow> length es < memp_num MEMP_SYS_TIMEOUT \<longrightarrow>
       (\<exists>s'. call h arg s = Some s' \<and> timer_rep sizes a s' (arm h arg (timer_state.more s) es)
         \<and> timer_state.more s' = eff h arg (timer_state.more s) \<and> timeouts_last_time s' = timeouts_last_time s
         \<and> due_now (arm h arg (timer_state.more s) es) \<le> due_now es))"

lemma pop_timer:
  fixes s :: "'m timer_state_scheme"
  assumes "timer_rep sizes a s ((d, h, arg) # es)"
  obtains t m where "next_timeout s = t" "t \<noteq> NULL" "t_time (timeos s t) = d" "t_h (timeos s t) = h" "t_arg (timeos s t) = arg"
    "memp_free MEMP_SYS_TIMEOUT t (timer_pools s) = Some m"
    "\<And>s1 :: 'm timer_state_scheme. next_timeout s1 = t_next (timeos s t) \<Longrightarrow> timeos s1 = timeos s \<Longrightarrow> timer_pools s1 = m \<Longrightarrow>
       timer_rep sizes a s1 (rebase d es)"
proof -
  define f where "f = timeos s"
  obtain t xs where l: "timer_list sizes a s (t # xs) ((d, h, arg) # es)"
    using assms unfolding timer_rep_def timer_list_def by (metis entries.simps(1) list.distinct(1) neq_Nil_conv)
  have t: "next_timeout s = t" "t \<noteq> NULL" "t \<notin> set xs" "t_time (f t) = d" "t_h (f t) = h" "t_arg (f t) = arg"
    and c: "chain (\<lambda>x. t_next (f x)) (t_next (f t)) xs" and es: "es = entries f d xs" "\<forall>e\<in>set es. fst e < 4294967296"
    and inv: "memp_inv sizes a (timer_pools s)"
    and live: "insert t (set xs) = memp_live sizes a MEMP_SYS_TIMEOUT (timer_pools s)"
    using l chain_hd_notin [of "\<lambda>x. t_next (f x)" t xs] by (auto simp: timer_list_def f_def)
  have "t \<in> memp_live sizes a MEMP_SYS_TIMEOUT (timer_pools s)" using live by blast
  then obtain m where m: "memp_free MEMP_SYS_TIMEOUT t (timer_pools s) = Some m" "memp_inv sizes a m"
    "memp_live sizes a MEMP_SYS_TIMEOUT m = memp_live sizes a MEMP_SYS_TIMEOUT (timer_pools s) - {t}"
    using timeo_pool.free_law [OF inv] by blast
  have re: "rebase d es = entries f 0 xs"
    unfolding es(1) using entries_shift [of f 0 d xs] by (simp add: rebase_def comp_def case_prod_beta')
  have bound: "\<forall>e\<in>set (rebase d es). fst e < 4294967296" using es(2) by (fastforce simp: rebase_def)
  have "timer_rep sizes a s1 (rebase d es)"
    if "next_timeout s1 = t_next (timeos s t)" "timeos s1 = timeos s" "timer_pools s1 = m" for s1 :: "'m timer_state_scheme"
    unfolding timer_rep_def timer_list_def
    by (rule exI [of _ xs]) (use c bound m(2,3) live t(3) that re in \<open>auto simp: f_def\<close>)
  then show thesis using t(1,2,4-6) m(1) by (intro that [of t m]) (simp_all add: f_def)
qed

lemma timer_rep_cong:
  "next_timeout s' = next_timeout s \<Longrightarrow> timeos s' = timeos s \<Longrightarrow> timer_pools s' = timer_pools s \<Longrightarrow>
   timer_rep sizes a s' es = timer_rep sizes a s es"
  by (simp add: timer_rep_def timer_list_def)

lemma due_now_rebase: "due_now (rebase 0 es) = due_now es"
  by (simp add: due_now_def rebase_def case_prod_beta')

lemma due_now_le: "due_now es \<le> length es"
  by (simp add: due_now_def)

lemma check_timeouts_loop_fires:
  fixes s :: "'m timer_state_scheme"
  assumes do: "handlers_do sizes a call arm eff" and ooseq: "\<And>s. ooseq s = Some (timer_state.more_update pre s)"
  shows "timer_rep sizes a s es \<Longrightarrow> \<exists>s' es' calls. check_timeouts_loop call ooseq now diff s = Some s' \<and> timer_rep sizes a s' es'
    \<and> fires arm eff pre diff es (timer_state.more s) calls es' (timer_state.more s')
    \<and> timeouts_last_time s' = (if \<exists>e\<in>set es. fst e \<le> diff then now else timeouts_last_time s)"
proof (induction "diff * Suc (memp_num MEMP_SYS_TIMEOUT) + due_now es" arbitrary: diff es s rule: less_induct)
  case less
  let ?N = "memp_num MEMP_SYS_TIMEOUT"
  define s1 where "s1 = timer_state.more_update pre s"
  have rep1: "timer_rep sizes a s1 es" using less.prems timer_rep_cong [of s1 s] by (simp add: s1_def)
  note props = timer_rep_props [OF less.prems]
  show ?case
  proof (cases "es = [] \<or> diff < fst (hd es)")
    case True
    have "\<forall>e\<in>set es. diff < fst e" using True props(1) by (cases es) auto
    moreover have "\<not> (next_timeout s1 \<noteq> NULL \<and> t_time (timeos s1 (next_timeout s1)) \<le> diff)"
    proof (cases es)
      case Nil
      obtain xs where xs: "timer_list sizes a s1 xs es" using rep1 by (auto simp: timer_rep_def)
      then have "length xs = 0" using Nil length_entries [of "timeos s1" 0 xs] by (simp add: timer_list_def)
      then show ?thesis using xs by (simp add: timer_list_def)
    next
      case (Cons e es')
      then show ?thesis using rep1 True pop_timer [of sizes a s1 "fst e" "fst (snd e)" "snd (snd e)" es'] by (metis list.sel(1) not_le prod.collapse list.distinct(1))
    qed
    then have "check_timeouts_loop call ooseq now diff s = Some s1"
      by (subst check_timeouts_loop.simps) (auto simp: ooseq s1_def [symmetric] Let_def)
    ultimately show ?thesis
      using rep1 fires.none_due [of es diff arm eff pre "timer_state.more s"]
      by (intro exI [of _ s1] exI [of _ es] exI [of _ "[]"]) (auto simp: s1_def dest: leD)
  next
    case False
    then obtain d h arg es0 where es: "es = (d, h, arg) # es0" "d \<le> diff" by (cases es) auto
    obtain t m where t: "next_timeout s1 = t" "t \<noteq> NULL" "t_time (timeos s1 t) = d" "t_h (timeos s1 t) = h" "t_arg (timeos s1 t) = arg"
        "memp_free MEMP_SYS_TIMEOUT t (timer_pools s1) = Some m"
        "\<And>s2 :: 'm timer_state_scheme. next_timeout s2 = t_next (timeos s1 t) \<Longrightarrow> timeos s2 = timeos s1 \<Longrightarrow> timer_pools s2 = m \<Longrightarrow>
           timer_rep sizes a s2 (rebase d es0)"
      using pop_timer [OF rep1 [unfolded es(1)]] by metis
    define s2 where "s2 = s1\<lparr>timeouts_last_time := now, next_timeout := t_next (timeos s1 t), timer_pools := m\<rparr>"
    have rep2: "timer_rep sizes a s2 (rebase d es0)" by (rule t(7)) (simp_all add: s2_def)
    have room: "length (rebase d es0) < ?N" using props(2) by (simp add: es(1) rebase_def)
    have m2: "timer_state.more s2 = pre (timer_state.more s)" "timeouts_last_time s2 = now" by (simp_all add: s2_def s1_def)
    have step: "check_timeouts_loop call ooseq now diff s =
        (case (if h \<noteq> NULL then call h arg s2 else Some s2) of None \<Rightarrow> None | Some s \<Rightarrow> check_timeouts_loop call ooseq now (diff - d) s)"
      using t(1-6) es(2) by (subst check_timeouts_loop.simps) (simp add: ooseq s1_def [symmetric] Let_def s2_def)
    define es1 where "es1 = (if h \<noteq> NULL then arm h arg (timer_state.more s2) (rebase d es0) else rebase d es0)"
    obtain s3 where s3: "(if h \<noteq> NULL then call h arg s2 else Some s2) = Some s3" "timer_rep sizes a s3 es1"
        "timer_state.more s3 = (if h \<noteq> NULL then eff h arg (timer_state.more s2) else timer_state.more s2)"
        "timeouts_last_time s3 = now" "due_now es1 \<le> due_now (rebase d es0)"
      using do rep2 room m2 unfolding handlers_do_def es1_def by (cases "h = NULL") force+
    have small: "(diff - d) * Suc ?N + due_now es1 < diff * Suc ?N + due_now es"
    proof (cases "d = 0")
      case True
      then have "due_now es1 < due_now es" using s3(5) due_now_rebase [of es0] by (simp add: es(1)) (simp add: due_now_def)
      then show ?thesis using True by simp
    next
      case False
      have "due_now es1 < Suc ?N" using due_now_le [of es1] timer_rep_props(2) [OF s3(2)] by simp
      moreover have "(diff - d) * Suc ?N + Suc ?N \<le> diff * Suc ?N"
      proof -
        have "Suc (diff - d) * Suc ?N \<le> diff * Suc ?N" using False es(2) by (intro mult_le_mono1) simp
        then show ?thesis by (simp only: mult_Suc add.commute)
      qed
      ultimately show ?thesis by linarith
    qed
    from less.hyps [OF small s3(2)] obtain s' es' calls where r: "check_timeouts_loop call ooseq now (diff - d) s3 = Some s'"
        "timer_rep sizes a s' es'" "fires arm eff pre (diff - d) es1 (timer_state.more s3) calls es' (timer_state.more s')"
        "timeouts_last_time s' = now" using s3(4) by auto
    have "fires arm eff pre diff es (timer_state.more s) (if h \<noteq> NULL then (h, arg) # calls else calls) es' (timer_state.more s')"
      using r(3) es m2(1) s3(3) fires.due [of d diff h arm eff pre arg "timer_state.more s" es0 calls es' "timer_state.more s'"]
        fires.due_null [of d diff arm eff pre es0 "timer_state.more s" calls es' "timer_state.more s'" arg]
      by (auto simp: es1_def split: if_splits)
    then show ?thesis using r(1,2,4) es step s3(1)
      by (intro exI [of _ s'] exI [of _ es'] exI [of _ "if h \<noteq> NULL then (h, arg) # calls else calls"]) simp
  qed
qed

section \<open>The contract of the timer list\<close>

text \<open>
  What the rest of the stack relies on: setting and cancelling timers act on the list of deadlines as
  \<open>insert_timer\<close> and \<open>cancel_timer\<close> do, and setting one fails only when \<open>cap\<close> timers are pending.
\<close>

locale timer_queue =
  fixes set_timer :: "nat \<Rightarrow> nat \<Rightarrow> addr \<Rightarrow> 's \<Rightarrow> 's option"
    and cancel :: "nat \<Rightarrow> addr \<Rightarrow> 's \<Rightarrow> 's option"
    and rep :: "'s \<Rightarrow> timer list \<Rightarrow> bool"
    and cap :: nat
  assumes set_law: "rep s es \<Longrightarrow> d < 4294967296 \<Longrightarrow>
      (if length es < cap then \<exists>s'. set_timer d h arg s = Some s' \<and> rep s' (insert_timer d h arg es)
       else set_timer d h arg s = None)"
    and cancel_law: "rep s es \<Longrightarrow> \<exists>s'. cancel h arg s = Some s' \<and> rep s' (cancel_timer h arg es)"
begin

text \<open>A timer that was not pending can be set and cancelled without a trace.\<close>

lemma set_cancel:
  assumes "rep s es" "d < 4294967296" "length es < cap" "(h, arg) \<notin> snd ` set es"
  shows "\<exists>s1 s2. set_timer d h arg s = Some s1 \<and> rep s1 (insert_timer d h arg es)
    \<and> cancel h arg s1 = Some s2 \<and> rep s2 es"
proof -
  obtain s1 where s1: "set_timer d h arg s = Some s1" "rep s1 (insert_timer d h arg es)"
    using set_law [OF assms(1,2)] assms(3) by auto
  obtain s2 where "cancel h arg s1 = Some s2" "rep s2 (cancel_timer h arg (insert_timer d h arg es))"
    using cancel_law [OF s1(2)] by blast
  then show ?thesis using s1 cancel_insert_timer [OF assms(4)] by auto
qed

end

interpretation timers: timer_queue sys_timeout sys_untimeout "timer_rep sizes a" "memp_num MEMP_SYS_TIMEOUT"
  for sizes :: "memp_t \<Rightarrow> nat" and a :: addr
proof
  fix s :: "'a timer_state_scheme" and es and d h :: nat and arg
  assume "timer_rep sizes a s es" "d < 4294967296"
  then show "if length es < memp_num MEMP_SYS_TIMEOUT
      then \<exists>s'. sys_timeout d h arg s = Some s' \<and> timer_rep sizes a s' (insert_timer d h arg es)
      else sys_timeout d h arg s = None"
    using sys_timeout_spec unfolding timer_rep_def by blast
next
  fix s :: "'a timer_state_scheme" and es and h :: nat and arg
  assume "timer_rep sizes a s es"
  then show "\<exists>s'. sys_untimeout h arg s = Some s' \<and> timer_rep sizes a s' (cancel_timer h arg es)"
    using sys_untimeout_spec unfolding timer_rep_def by blast
qed

section \<open>Properties\<close>

text \<open>
  C8. \<^verbatim>\<open>sys_timeout\<close> keeps the timers in order of their deadlines, a new one behind those with the same
  deadline, and aborts exactly when the pool of timers is used up. \<^verbatim>\<open>sys_untimeout\<close> takes out the first
  timer with the given handler and argument and leaves the deadlines of all others as they were.
\<close>

theorem timer_list_refines:
  assumes "timer_rep sizes a s es" "d < 4294967296"
  shows "(if length es < memp_num MEMP_SYS_TIMEOUT
          then \<exists>s'. sys_timeout d h arg s = Some s' \<and> timer_rep sizes a s' (insert_timer d h arg es)
          else sys_timeout d h arg s = None)
    \<and> (\<exists>s'. sys_untimeout h arg s = Some s' \<and> timer_rep sizes a s' (cancel_timer h arg es))
    \<and> sorted (map fst es)"
  using timers.set_law [OF assms] timers.cancel_law [OF assms(1)] timer_rep_props [OF assms(1)] by auto

text \<open>
  A timer that is not yet pending can be set and cancelled again, and then the same timers are pending
  as before, with the same deadlines.
\<close>

theorem timer_set_cancel:
  assumes "timer_rep sizes a s es" "d < 4294967296" "length es < memp_num MEMP_SYS_TIMEOUT" "(h, arg) \<notin> snd ` set es"
  shows "\<exists>s1 s2. sys_timeout d h arg s = Some s1 \<and> timer_rep sizes a s1 (insert_timer d h arg es)
    \<and> sys_untimeout h arg s1 = Some s2 \<and> timer_rep sizes a s2 es"
  using timers.set_cancel [OF assms] .

definition timers0 :: "(nat \<times> addr) list timer_state_scheme" where
  "timers0 = \<lparr>next_timeout = NULL, timeouts_last_time = 100, timeos = (\<lambda>_. \<lparr>t_next = 0, t_time = 0, t_h = 0, t_arg = 0\<rparr>),
     timer_pools = pools0, \<dots> = []\<rparr>"

lemma timers0_rep: "timer_rep sizes0 4 timers0 []"
  unfolding timer_rep_def timer_list_def using pools0_inv pools0_live [of 7]
  by (intro exI [of _ "[]"]) (simp add: timers0_def)

lemma memp_num_timeouts: "memp_num MEMP_SYS_TIMEOUT = 3"
  by (simp add: memp_num_def)

theorem timer_list_refines_witness:
  "\<exists>s'. sys_timeout 5000 1 0 timers0 = Some s' \<and> timer_rep sizes0 4 s' [(5000, 1, 0)]"
  using timer_list_refines [OF timers0_rep, of 5000 1 0] by (simp add: memp_num_timeouts)

theorem timer_set_cancel_witness:
  "\<exists>s1 s2. sys_timeout 5000 1 0 timers0 = Some s1 \<and> sys_untimeout 1 0 s1 = Some s2 \<and> timer_rep sizes0 4 s2 []"
  using timer_set_cancel [OF timers0_rep, of 5000 1 0] by (auto simp: memp_num_timeouts)

text \<open>
  C34. \<^verbatim>\<open>sys_check_timeouts\<close> returns, and runs the agenda: it calls the handlers of the timers that are due, each when its turn comes in the order of the deadlines and with
  the timer out of the list, and stops when none is due within the time that has passed. A handler may set itself again, cancel timers and set others; a timer that
  falls due within the same time is served in the same call. It must return, find a free place in the list, and set no timer that is due at once. What is
  pending at the end is counted from the last timer that fired although the clock is set to now: the time by which the check came late is added to it.
\<close>

theorem check_timeouts_fires:
  assumes "timer_rep sizes a s es" "handlers_do sizes a call arm eff"
    and ooseq: "\<And>s. ooseq s = Some (timer_state.more_update pre s)"
    and diff: "diff = time_sub now (timeouts_last_time s)" and "es \<noteq> []"
  shows "\<exists>s' es' calls. sys_check_timeouts call ooseq now s = Some s' \<and> timer_rep sizes a s' es'
    \<and> fires arm eff pre diff es (timer_state.more s) calls es' (timer_state.more s')
    \<and> timeouts_last_time s' = (if \<exists>e\<in>set es. fst e \<le> diff then now else timeouts_last_time s)"
proof -
  from assms(1) obtain xs where "timer_list sizes a s xs es" unfolding timer_rep_def by blast
  then have "next_timeout s \<noteq> NULL" using assms(5) by (cases xs) (auto simp: timer_list_def)
  then show ?thesis
    using check_timeouts_loop_fires [OF assms(2) ooseq assms(1), of now diff] diff unfolding sys_check_timeouts_def by simp
qed

text \<open>
  A handler that leaves a log and, if it is handler 1, sets itself again 10 ms later, in the form of \<^verbatim>\<open>arp_timer\<close>; and a cyclic and a one-shot timer.
\<close>

definition cyclic_call :: "nat \<Rightarrow> addr \<Rightarrow> (nat \<times> addr) list timer_state_scheme \<Rightarrow> (nat \<times> addr) list timer_state_scheme option" where
  "cyclic_call h arg s = (let s = timer_state.more_update (\<lambda>l. l @ [(h, arg)]) s in if h = 1 then sys_timeout 10 h arg s else Some s)"

definition cyclic_arm :: "nat \<Rightarrow> addr \<Rightarrow> 'm \<Rightarrow> timer list \<Rightarrow> timer list" where
  "cyclic_arm h arg m es = (if h = 1 then insert_timer 10 h arg es else es)"

lemma sys_timeout_rest:
  "sys_timeout d h arg s = Some s' \<Longrightarrow> timer_state.more s' = timer_state.more s \<and> timeouts_last_time s' = timeouts_last_time s"
  by (auto simp: sys_timeout_def Let_def split: option.splits prod.splits if_splits)

lemma due_now_insert: "due_now (insert_timer d h arg es) = due_now es + (if d = 0 then 1 else 0)"
  by (induction es) (auto simp: due_now_def)

lemma cyclic_handlers: "handlers_do sizes a cyclic_call cyclic_arm (\<lambda>h arg l. l @ [(h, arg)])"
  unfolding handlers_do_def
proof (intro allI impI)
  fix h arg and s :: "(nat \<times> addr) list timer_state_scheme" and es
  assume r: "timer_rep sizes a s es" "length es < memp_num MEMP_SYS_TIMEOUT"
  define s1 where "s1 = timer_state.more_update (\<lambda>l. l @ [(h, arg)]) s"
  have r1: "timer_rep sizes a s1 es" using r(1) timer_rep_cong [of s1 s] by (simp add: s1_def)
  obtain s2 where s2: "sys_timeout 10 h arg s1 = Some s2" "timer_rep sizes a s2 (insert_timer 10 h arg es)"
    using timers.set_law [OF r1, of 10 h arg] r(2) by auto
  show "\<exists>s'. cyclic_call h arg s = Some s' \<and> timer_rep sizes a s' (cyclic_arm h arg (timer_state.more s) es)
      \<and> timer_state.more s' = timer_state.more s @ [(h, arg)] \<and> timeouts_last_time s' = timeouts_last_time s
      \<and> due_now (cyclic_arm h arg (timer_state.more s) es) \<le> due_now es"
    using r1 s2 sys_timeout_rest [OF s2(1)]
    by (cases "h = 1") (auto simp: cyclic_call_def cyclic_arm_def s1_def [symmetric] Let_def due_now_insert, auto simp: s1_def)
qed

lemma two_timers:
  obtains s :: "(nat \<times> addr) list timer_state_scheme"
  where "timer_rep sizes0 4 s [(10, 1, 7), (15, 2, 8)]" "timer_state.more s = []" "timeouts_last_time s = 100"
proof -
  obtain s1 where s1: "sys_timeout 15 2 8 timers0 = Some s1" "timer_rep sizes0 4 s1 [(15, 2, 8)]"
    using timers.set_law [OF timers0_rep, of 15 2 8] by (auto simp: memp_num_timeouts)
  obtain s2 where s2: "sys_timeout 10 1 7 s1 = Some s2" "timer_rep sizes0 4 s2 [(10, 1, 7), (15, 2, 8)]"
    using timers.set_law [OF s1(2), of 10 1 7] by (auto simp: memp_num_timeouts)
  show thesis
    using that [OF s2(2)] sys_timeout_rest [OF s1(1)] sys_timeout_rest [OF s2(1)] by (simp add: timers0_def)
qed

inductive_cases fires_ConsE: "fires arm eff pre diff (e # es) m calls es' m'"

theorem check_timeouts_fires_witness:
  "\<exists>s s'. sys_check_timeouts cyclic_call Some 122 s = Some s' \<and> timer_state.more s = []
    \<and> timer_state.more s' = [(1, 7), (2, 8), (1, 7)] \<and> timer_rep sizes0 4 s' [(10, 1, 7)]"
proof -
  obtain s :: "(nat \<times> addr) list timer_state_scheme" where
    s: "timer_rep sizes0 4 s [(10, 1, 7), (15, 2, 8)]" "timer_state.more s = []" "timeouts_last_time s = 100"
    by (rule two_timers)
  have "22 = time_sub 122 (timeouts_last_time s)" using s(3) by simp
  then obtain s' es' calls where s': "sys_check_timeouts cyclic_call Some 122 s = Some s'" "timer_rep sizes0 4 s' es'"
    "fires cyclic_arm (\<lambda>h arg l. l @ [(h, arg)]) (\<lambda>m. m) 22 [(10, 1, 7), (15, 2, 8)] [] calls es' (timer_state.more s')"
    using check_timeouts_fires [OF s(1) cyclic_handlers, of Some "\<lambda>m. m" 22 122] s(2) by auto
  from s'(3) have "timer_state.more s' = [(1, 7), (2, 8), (1, 7)]" "es' = [(10, 1, 7)]"
    by (auto elim!: fires_ConsE simp: cyclic_arm_def rebase_def)
  then show ?thesis using s'(1,2) s(2) by blast
qed

end
