(* ===== verification/Option_Wp.thy ===== *)
theory Option_Wp
  imports Lwip_Prelude "HOL-Library.Monad_Syntax"
begin

text \<open>
  A small calculus for code that may abort. The models return an option, \<open>None\<close> standing for a failed
  assertion; \<open>yields m Q\<close> says that the computation does return, in a state that satisfies \<open>Q\<close>.
  The collection \<open>wp\<close> gathers the rules for the operations, and \<open>yields_bind\<close> puts them together.
\<close>

definition yields :: "'a option \<Rightarrow> ('a \<Rightarrow> bool) \<Rightarrow> bool" where
  "yields m Q \<longleftrightarrow> (\<exists>x. m = Some x \<and> Q x)"

named_theorems wp \<open>rules for the operations of a component\<close>

lemma yields_Some [simp]: "yields (Some x) Q \<longleftrightarrow> Q x"
  by (simp add: yields_def)

lemma yields_bind: "yields m R \<Longrightarrow> (\<And>x. R x \<Longrightarrow> yields (k x) Q) \<Longrightarrow> yields (m \<bind> k) Q"
  by (auto simp: yields_def)

lemma yields_mono: "yields m R \<Longrightarrow> (\<And>x. R x \<Longrightarrow> Q x) \<Longrightarrow> yields m Q"
  by (auto simp: yields_def)

lemma yieldsE: "yields m Q \<Longrightarrow> (\<And>x. m = Some x \<Longrightarrow> Q x \<Longrightarrow> thesis) \<Longrightarrow> thesis"
  by (auto simp: yields_def)

text \<open>A function pointer that may be null.\<close>

definition call_opt :: "('s \<Rightarrow> 's option) option \<Rightarrow> 's \<Rightarrow> 's option" where
  "call_opt c s = (case c of None \<Rightarrow> Some s | Some f \<Rightarrow> f s)"

end
