(* ===== verification/Fsm.thy ===== *)
theory Fsm
  imports Timers Option_Wp
begin

text \<open>
  The automaton that PPP's control protocols share, \<^verbatim>\<open>netif/ppp/fsm.c\<close>: option negotiation, opening and
  closing of a link. Its state extends the state of the timers, since every wait for the peer is
  guarded by a restart timer in the list of \<^verbatim>\<open>timers.c\<close>. The protocol's callbacks (\<^verbatim>\<open>fsm_callbacks\<close>) are
  a record of functions, null pointers being \<open>None\<close>; the packets handed to \<^verbatim>\<open>pppWrite\<close> are collected
  in the field \<open>sent\<close>. \<open>None\<close> as a result stands for an abort in the timer list or a copy of a
  negative number of bytes.
\<close>

section \<open>Data\<close>

datatype link_state =
  LS_INITIAL | LS_STARTING | LS_CLOSED | LS_STOPPED | LS_CLOSING | LS_STOPPING
| LS_REQSENT | LS_ACKRCVD | LS_ACKSENT | LS_OPENED

record fsm_state = timer_state +
  f_addr :: addr
  f_protocol :: u16_t
  f_state :: link_state
  f_flags :: u32_t
  f_id :: u8_t
  f_reqid :: u8_t
  f_seen_ack :: bool
  f_timeouttime :: int
  f_maxconfreqtransmits :: int
  f_retransmits :: int
  f_maxtermtransmits :: int
  f_nakloops :: int
  f_maxnakloops :: int
  f_term_reason :: "u8_t list"
  peer_mru :: int
  sent :: "u8_t list list"

text \<open>
  The callbacks. Buffers the C code passes with a length are lists; a callback that changes the buffer
  and the length returns the new bytes.
\<close>

record 's fsm_callbacks =
  cb_resetci :: "('s \<Rightarrow> 's option) option"
  cb_cilen :: "('s \<Rightarrow> (int \<times> 's) option) option"
  cb_addci :: "(int \<Rightarrow> 's \<Rightarrow> (u8_t list \<times> 's) option) option"
  cb_ackci :: "(u8_t list \<Rightarrow> 's \<Rightarrow> (int \<times> 's) option) option"
  cb_nakci :: "(u8_t list \<Rightarrow> 's \<Rightarrow> (int \<times> 's) option) option"
  cb_rejci :: "(u8_t list \<Rightarrow> 's \<Rightarrow> (int \<times> 's) option) option"
  cb_reqci :: "(u8_t list \<Rightarrow> bool \<Rightarrow> 's \<Rightarrow> (u8_t \<times> u8_t list \<times> 's) option) option"
  cb_up :: "('s \<Rightarrow> 's option) option"
  cb_down :: "('s \<Rightarrow> 's option) option"
  cb_starting :: "('s \<Rightarrow> 's option) option"
  cb_finished :: "('s \<Rightarrow> 's option) option"
  cb_retransmit :: "('s \<Rightarrow> 's option) option"
  cb_extcode :: "(u8_t \<Rightarrow> u8_t \<Rightarrow> u8_t list \<Rightarrow> 's \<Rightarrow> (bool \<times> 's) option) option"

abbreviation (input) CONFREQ :: u8_t where "CONFREQ \<equiv> 1"
abbreviation (input) CONFACK :: u8_t where "CONFACK \<equiv> 2"
abbreviation (input) CONFNAK :: u8_t where "CONFNAK \<equiv> 3"
abbreviation (input) CONFREJ :: u8_t where "CONFREJ \<equiv> 4"
abbreviation (input) TERMREQ :: u8_t where "TERMREQ \<equiv> 5"
abbreviation (input) TERMACK :: u8_t where "TERMACK \<equiv> 6"
abbreviation (input) CODEREJ :: u8_t where "CODEREJ \<equiv> 7"
abbreviation (input) OPT_PASSIVE :: u32_t where "OPT_PASSIVE \<equiv> 1"
abbreviation (input) OPT_RESTART :: u32_t where "OPT_RESTART \<equiv> 2"
abbreviation (input) OPT_SILENT :: u32_t where "OPT_SILENT \<equiv> 4"
abbreviation (input) HEADERLEN :: nat where "HEADERLEN \<equiv> 4"
abbreviation (input) PPP_HDRLEN :: nat where "PPP_HDRLEN \<equiv> 4"

text \<open>The number that stands for the handler \<^verbatim>\<open>fsm_timeout\<close> in the timer list.\<close>

abbreviation (input) FSM_TIMEOUT :: nat where "FSM_TIMEOUT \<equiv> 1"

section \<open>Operations\<close>

definition UNTIMEOUT :: "'a fsm_state_scheme \<Rightarrow> 'a fsm_state_scheme option" where
  "UNTIMEOUT s = sys_untimeout FSM_TIMEOUT (f_addr s) s"

definition TIMEOUT :: "int \<Rightarrow> 'a fsm_state_scheme \<Rightarrow> 'a fsm_state_scheme option" where
  "TIMEOUT t s = do {
     s \<leftarrow> sys_untimeout FSM_TIMEOUT (f_addr s) s;
     sys_timeout (nat (t * 1000 mod 4294967296)) FSM_TIMEOUT (f_addr s) s }"

text \<open>\<^verbatim>\<open>MAKEHEADER\<close>, and the big-endian 16-bit numbers of \<^verbatim>\<open>PUTSHORT\<close> and \<^verbatim>\<open>GETSHORT\<close>.\<close>

definition PUTSHORT :: "nat \<Rightarrow> u8_t list" where
  "PUTSHORT n = [of_nat (n div 256), of_nat n]"

definition GETSHORT :: "u8_t \<Rightarrow> u8_t \<Rightarrow> nat" where
  "GETSHORT hi lo = 256 * unat hi + unat lo"

definition fsm_sdata :: "u8_t \<Rightarrow> u8_t \<Rightarrow> u8_t list \<Rightarrow> 'a fsm_state_scheme \<Rightarrow> 'a fsm_state_scheme option" where
  "fsm_sdata code i data s =
     (let datalen = int (length data);
          datalen = (if datalen > peer_mru s - int HEADERLEN then peer_mru s - int HEADERLEN else datalen)
      in if datalen < 0 then None
         else
           let outlen = nat datalen + HEADERLEN;
               packet = [0xff, 0x03] @ PUTSHORT (unat (f_protocol s)) @ [code, i] @ PUTSHORT outlen
                        @ take (nat datalen) data
           in Some (s\<lparr>sent := sent s @ [packet]\<rparr>))"

definition fsm_sconfreq :: "'a fsm_state_scheme fsm_callbacks \<Rightarrow> bool \<Rightarrow> 'a fsm_state_scheme \<Rightarrow> 'a fsm_state_scheme option" where
  "fsm_sconfreq cb retransmit s = do {
     s \<leftarrow> (if f_state s \<noteq> LS_REQSENT \<and> f_state s \<noteq> LS_ACKRCVD \<and> f_state s \<noteq> LS_ACKSENT
          then do { s \<leftarrow> call_opt (cb_resetci cb) s; Some (s\<lparr>f_nakloops := 0\<rparr>) }
          else Some s);
     s \<leftarrow> Some (if \<not> retransmit
               then s\<lparr>f_retransmits := f_maxconfreqtransmits s, f_id := f_id s + 1, f_reqid := f_id s + 1\<rparr>
               else s);
     s \<leftarrow> Some (s\<lparr>f_seen_ack := False\<rparr>);
     (ci, s) \<leftarrow> (case (cb_cilen cb, cb_addci cb) of
         (Some cilen, Some addci) \<Rightarrow> do {
           (n, s) \<leftarrow> cilen s;
           addci (if n > peer_mru s - int HEADERLEN then peer_mru s - int HEADERLEN else n) s }
       | _ \<Rightarrow> Some ([], s));
     s \<leftarrow> fsm_sdata CONFREQ (f_reqid s) ci s;
     s \<leftarrow> Some (s\<lparr>f_retransmits := f_retransmits s - 1\<rparr>);
     TIMEOUT (f_timeouttime s) s }"

definition fsm_init :: "'a fsm_state_scheme \<Rightarrow> 'a fsm_state_scheme" where
  "fsm_init s = s\<lparr>f_state := LS_INITIAL, f_flags := 0, f_id := 0, f_timeouttime := 6,
     f_maxconfreqtransmits := 10, f_maxtermtransmits := 2, f_maxnakloops := 5, f_term_reason := []\<rparr>"

definition fsm_lowerup :: "'a fsm_state_scheme fsm_callbacks \<Rightarrow> 'a fsm_state_scheme \<Rightarrow> 'a fsm_state_scheme option" where
  "fsm_lowerup cb s =
     (case f_state s of
        LS_INITIAL \<Rightarrow> Some (s\<lparr>f_state := LS_CLOSED\<rparr>)
      | LS_STARTING \<Rightarrow>
          if f_flags s AND OPT_SILENT \<noteq> 0 then Some (s\<lparr>f_state := LS_STOPPED\<rparr>)
          else do { s \<leftarrow> fsm_sconfreq cb False s; Some (s\<lparr>f_state := LS_REQSENT\<rparr>) }
      | _ \<Rightarrow> Some s)"

definition fsm_lowerdown :: "'a fsm_state_scheme fsm_callbacks \<Rightarrow> 'a fsm_state_scheme \<Rightarrow> 'a fsm_state_scheme option" where
  "fsm_lowerdown cb s =
     (if f_state s = LS_CLOSED then Some (s\<lparr>f_state := LS_INITIAL\<rparr>)
      else if f_state s = LS_STOPPED then call_opt (cb_starting cb) (s\<lparr>f_state := LS_STARTING\<rparr>)
      else if f_state s = LS_CLOSING then UNTIMEOUT (s\<lparr>f_state := LS_INITIAL\<rparr>)
      else if f_state s \<in> {LS_STOPPING, LS_REQSENT, LS_ACKRCVD, LS_ACKSENT} then UNTIMEOUT (s\<lparr>f_state := LS_STARTING\<rparr>)
      else if f_state s = LS_OPENED then do { s \<leftarrow> call_opt (cb_down cb) s; Some (s\<lparr>f_state := LS_STARTING\<rparr>) }
      else Some s)"

definition fsm_open :: "'a fsm_state_scheme fsm_callbacks \<Rightarrow> 'a fsm_state_scheme \<Rightarrow> 'a fsm_state_scheme option" where
  "fsm_open cb s =
     (if f_state s = LS_INITIAL then call_opt (cb_starting cb) (s\<lparr>f_state := LS_STARTING\<rparr>)
      else if f_state s = LS_CLOSED
      then if f_flags s AND OPT_SILENT \<noteq> 0 then Some (s\<lparr>f_state := LS_STOPPED\<rparr>)
           else do { s \<leftarrow> fsm_sconfreq cb False s; Some (s\<lparr>f_state := LS_REQSENT\<rparr>) }
      else if f_state s \<in> {LS_CLOSING, LS_STOPPED, LS_OPENED}
      then
        let s = (if f_state s = LS_CLOSING then s\<lparr>f_state := LS_STOPPING\<rparr> else s)
        in if f_flags s AND OPT_RESTART \<noteq> 0 then do { s \<leftarrow> fsm_lowerdown cb s; fsm_lowerup cb s } else Some s
      else Some s)"

text \<open>Sending a Terminate-Request, as \<^verbatim>\<open>fsm_close\<close>, \<^verbatim>\<open>fsm_timeout\<close> and \<^verbatim>\<open>fsm_protreject\<close> do.\<close>

definition send_termreq :: "'a fsm_state_scheme \<Rightarrow> 'a fsm_state_scheme option" where
  "send_termreq s = do {
     s \<leftarrow> Some (s\<lparr>f_id := f_id s + 1, f_reqid := f_id s + 1\<rparr>);
     s \<leftarrow> fsm_sdata TERMREQ (f_reqid s) (f_term_reason s) s;
     s \<leftarrow> TIMEOUT (f_timeouttime s) s;
     Some (s\<lparr>f_retransmits := f_retransmits s - 1\<rparr>) }"

definition fsm_close ::
  "'a fsm_state_scheme fsm_callbacks \<Rightarrow> u8_t list option \<Rightarrow> 'a fsm_state_scheme \<Rightarrow> 'a fsm_state_scheme option" where
  "fsm_close cb reason s =
     (let s = s\<lparr>f_term_reason := (case reason of None \<Rightarrow> [] | Some r \<Rightarrow> r)\<rparr>
      in if f_state s = LS_STARTING then Some (s\<lparr>f_state := LS_INITIAL\<rparr>)
         else if f_state s = LS_STOPPED then Some (s\<lparr>f_state := LS_CLOSED\<rparr>)
         else if f_state s = LS_STOPPING then Some (s\<lparr>f_state := LS_CLOSING\<rparr>)
         else if f_state s \<in> {LS_REQSENT, LS_ACKRCVD, LS_ACKSENT, LS_OPENED}
         then do {
           s \<leftarrow> (if f_state s \<noteq> LS_OPENED then UNTIMEOUT s else call_opt (cb_down cb) s);
           s \<leftarrow> Some (s\<lparr>f_retransmits := f_maxtermtransmits s\<rparr>);
           s \<leftarrow> send_termreq s;
           Some (s\<lparr>f_state := LS_CLOSING\<rparr>) }
         else Some s)"

definition fsm_timeout :: "'a fsm_state_scheme fsm_callbacks \<Rightarrow> 'a fsm_state_scheme \<Rightarrow> 'a fsm_state_scheme option" where
  "fsm_timeout cb s =
     (if f_state s \<in> {LS_CLOSING, LS_STOPPING}
      then if f_retransmits s \<le> 0
           then call_opt (cb_finished cb) (s\<lparr>f_state := (if f_state s = LS_CLOSING then LS_CLOSED else LS_STOPPED)\<rparr>)
           else send_termreq s
      else if f_state s \<in> {LS_REQSENT, LS_ACKRCVD, LS_ACKSENT}
      then if f_retransmits s \<le> 0
           then let s = s\<lparr>f_state := LS_STOPPED\<rparr>
                in if f_flags s AND OPT_PASSIVE = 0 then call_opt (cb_finished cb) s else Some s
           else do {
             s \<leftarrow> call_opt (cb_retransmit cb) s;
             s \<leftarrow> fsm_sconfreq cb True s;
             Some (if f_state s = LS_ACKRCVD then s\<lparr>f_state := LS_REQSENT\<rparr> else s) }
      else Some s)"

text \<open>The second half of \<^verbatim>\<open>fsm_rconfreq\<close>: the Ack, Nak or Reject, and the new state.\<close>

definition fsm_answer_confreq ::
  "'a fsm_state_scheme fsm_callbacks \<Rightarrow> u8_t \<Rightarrow> u8_t \<Rightarrow> u8_t list \<Rightarrow> 'a fsm_state_scheme \<Rightarrow> 'a fsm_state_scheme option" where
  "fsm_answer_confreq cb i code inp s = do {
     s \<leftarrow> fsm_sdata code i inp s;
     if code = CONFACK
     then do {
       s \<leftarrow> (if f_state s = LS_ACKRCVD
            then do { s \<leftarrow> UNTIMEOUT s; call_opt (cb_up cb) (s\<lparr>f_state := LS_OPENED\<rparr>) }
            else Some (s\<lparr>f_state := LS_ACKSENT\<rparr>));
       Some (s\<lparr>f_nakloops := 0\<rparr>) }
     else
       let s = (if f_state s \<noteq> LS_ACKRCVD then s\<lparr>f_state := LS_REQSENT\<rparr> else s)
       in Some (if code = CONFNAK then s\<lparr>f_nakloops := f_nakloops s + 1\<rparr> else s) }"

definition fsm_rconfreq ::
  "'a fsm_state_scheme fsm_callbacks \<Rightarrow> u8_t \<Rightarrow> u8_t list \<Rightarrow> 'a fsm_state_scheme \<Rightarrow> 'a fsm_state_scheme option" where
  "fsm_rconfreq cb i inp s =
     (if f_state s = LS_CLOSED then fsm_sdata TERMACK i [] s
      else if f_state s \<in> {LS_CLOSING, LS_STOPPING} then Some s
      else do {
        s \<leftarrow> (if f_state s = LS_OPENED then do { s \<leftarrow> call_opt (cb_down cb) s; fsm_sconfreq cb False s }
             else if f_state s = LS_STOPPED then do { s \<leftarrow> fsm_sconfreq cb False s; Some (s\<lparr>f_state := LS_REQSENT\<rparr>) }
             else Some s);
        (code, inp, s) \<leftarrow> (case cb_reqci cb of
            Some reqci \<Rightarrow> reqci inp (f_nakloops s \<ge> f_maxnakloops s) s
          | None \<Rightarrow> Some (if inp \<noteq> [] then CONFREJ else CONFACK, inp, s));
        fsm_answer_confreq cb i code inp s })"

text \<open>What follows an Ack, or a Nak or Reject, that was found good.\<close>

definition fsm_good_ack ::
  "'a fsm_state_scheme fsm_callbacks \<Rightarrow> u8_t \<Rightarrow> 'a fsm_state_scheme \<Rightarrow> 'a fsm_state_scheme option" where
  "fsm_good_ack cb i s =
     (if f_state s \<in> {LS_CLOSED, LS_STOPPED} then fsm_sdata TERMACK i [] s
      else if f_state s = LS_REQSENT then Some (s\<lparr>f_state := LS_ACKRCVD, f_retransmits := f_maxconfreqtransmits s\<rparr>)
      else if f_state s = LS_ACKRCVD
      then do { s \<leftarrow> UNTIMEOUT s; s \<leftarrow> fsm_sconfreq cb False s; Some (s\<lparr>f_state := LS_REQSENT\<rparr>) }
      else if f_state s = LS_ACKSENT
      then do {
        s \<leftarrow> UNTIMEOUT s;
        call_opt (cb_up cb) (s\<lparr>f_state := LS_OPENED, f_retransmits := f_maxconfreqtransmits s\<rparr>) }
      else if f_state s = LS_OPENED
      then do { s \<leftarrow> call_opt (cb_down cb) s; s \<leftarrow> fsm_sconfreq cb False s; Some (s\<lparr>f_state := LS_REQSENT\<rparr>) }
      else Some s)"

definition fsm_rconfack ::
  "'a fsm_state_scheme fsm_callbacks \<Rightarrow> u8_t \<Rightarrow> u8_t list \<Rightarrow> 'a fsm_state_scheme \<Rightarrow> 'a fsm_state_scheme option" where
  "fsm_rconfack cb i inp s =
     (if i \<noteq> f_reqid s \<or> f_seen_ack s then Some s
      else do {
        (good, s) \<leftarrow> (case cb_ackci cb of
            Some ackci \<Rightarrow> ackci inp s
          | None \<Rightarrow> Some (if inp = [] then 1 else 0, s));
        if good = 0 then Some s else fsm_good_ack cb i (s\<lparr>f_seen_ack := True\<rparr>) })"

definition fsm_good_nakrej ::
  "'a fsm_state_scheme fsm_callbacks \<Rightarrow> u8_t \<Rightarrow> int \<Rightarrow> 'a fsm_state_scheme \<Rightarrow> 'a fsm_state_scheme option" where
  "fsm_good_nakrej cb i ret s =
     (if f_state s \<in> {LS_CLOSED, LS_STOPPED} then fsm_sdata TERMACK i [] s
      else if f_state s \<in> {LS_REQSENT, LS_ACKSENT}
      then do {
        s \<leftarrow> UNTIMEOUT s;
        if ret < 0 then Some (s\<lparr>f_state := LS_STOPPED\<rparr>) else fsm_sconfreq cb False s }
      else if f_state s = LS_ACKRCVD
      then do { s \<leftarrow> UNTIMEOUT s; s \<leftarrow> fsm_sconfreq cb False s; Some (s\<lparr>f_state := LS_REQSENT\<rparr>) }
      else if f_state s = LS_OPENED
      then do { s \<leftarrow> call_opt (cb_down cb) s; s \<leftarrow> fsm_sconfreq cb False s; Some (s\<lparr>f_state := LS_REQSENT\<rparr>) }
      else Some s)"

definition fsm_rconfnakrej ::
  "'a fsm_state_scheme fsm_callbacks \<Rightarrow> u8_t \<Rightarrow> u8_t \<Rightarrow> u8_t list \<Rightarrow> 'a fsm_state_scheme \<Rightarrow> 'a fsm_state_scheme option" where
  "fsm_rconfnakrej cb code i inp s =
     (if i \<noteq> f_reqid s \<or> f_seen_ack s then Some s
      else do {
        (ret, s) \<leftarrow> (case (if code = CONFNAK then cb_nakci cb else cb_rejci cb) of
            Some proc \<Rightarrow> proc inp s
          | None \<Rightarrow> Some (0, s));
        if ret = 0 then Some s else fsm_good_nakrej cb i ret (s\<lparr>f_seen_ack := True\<rparr>) })"

definition fsm_rtermreq ::
  "'a fsm_state_scheme fsm_callbacks \<Rightarrow> u8_t \<Rightarrow> 'a fsm_state_scheme \<Rightarrow> 'a fsm_state_scheme option" where
  "fsm_rtermreq cb i s = do {
     s \<leftarrow> (if f_state s \<in> {LS_ACKRCVD, LS_ACKSENT} then Some (s\<lparr>f_state := LS_REQSENT\<rparr>)
          else if f_state s = LS_OPENED
          then do {
            s \<leftarrow> call_opt (cb_down cb) s;
            s \<leftarrow> Some (s\<lparr>f_retransmits := 0, f_state := LS_STOPPING\<rparr>);
            TIMEOUT (f_timeouttime s) s }
          else Some s);
     fsm_sdata TERMACK i [] s }"

definition fsm_rtermack :: "'a fsm_state_scheme fsm_callbacks \<Rightarrow> 'a fsm_state_scheme \<Rightarrow> 'a fsm_state_scheme option" where
  "fsm_rtermack cb s =
     (if f_state s = LS_CLOSING then do { s \<leftarrow> UNTIMEOUT s; call_opt (cb_finished cb) (s\<lparr>f_state := LS_CLOSED\<rparr>) }
      else if f_state s = LS_STOPPING then do { s \<leftarrow> UNTIMEOUT s; call_opt (cb_finished cb) (s\<lparr>f_state := LS_STOPPED\<rparr>) }
      else if f_state s = LS_ACKRCVD then Some (s\<lparr>f_state := LS_REQSENT\<rparr>)
      else if f_state s = LS_OPENED then do { s \<leftarrow> call_opt (cb_down cb) s; fsm_sconfreq cb False s }
      else Some s)"

definition fsm_rcoderej :: "u8_t list \<Rightarrow> 'a fsm_state_scheme \<Rightarrow> 'a fsm_state_scheme option" where
  "fsm_rcoderej inp s =
     (if length inp < HEADERLEN then Some s
      else if f_state s = LS_ACKRCVD then Some (s\<lparr>f_state := LS_REQSENT\<rparr>) else Some s)"

definition fsm_protreject :: "'a fsm_state_scheme fsm_callbacks \<Rightarrow> 'a fsm_state_scheme \<Rightarrow> 'a fsm_state_scheme option" where
  "fsm_protreject cb s =
     (if f_state s \<in> {LS_CLOSING, LS_CLOSED}
      then do {
        s \<leftarrow> (if f_state s = LS_CLOSING then UNTIMEOUT s else Some s);
        call_opt (cb_finished cb) (s\<lparr>f_state := LS_CLOSED\<rparr>) }
      else if f_state s \<in> {LS_STOPPING, LS_REQSENT, LS_ACKRCVD, LS_ACKSENT, LS_STOPPED}
      then do {
        s \<leftarrow> (if f_state s \<noteq> LS_STOPPED then UNTIMEOUT s else Some s);
        call_opt (cb_finished cb) (s\<lparr>f_state := LS_STOPPED\<rparr>) }
      else if f_state s = LS_OPENED
      then do {
        s \<leftarrow> call_opt (cb_down cb) s;
        s \<leftarrow> Some (s\<lparr>f_retransmits := f_maxtermtransmits s\<rparr>);
        s \<leftarrow> send_termreq s;
        Some (s\<lparr>f_state := LS_STOPPING\<rparr>) }
      else Some s)"

text \<open>The header of a received packet: code, identifier, and the data its length field announces.\<close>

definition fsm_header :: "u8_t list \<Rightarrow> (u8_t \<times> u8_t \<times> u8_t list) option" where
  "fsm_header inpacket =
     (case inpacket of
        code # i # hi # lo # inp \<Rightarrow>
          let len = GETSHORT hi lo
          in if len < HEADERLEN then None
             else if len > length inpacket then None
             else Some (code, i, take (len - HEADERLEN) inp)
      | _ \<Rightarrow> None)"

definition fsm_input ::
  "'a fsm_state_scheme fsm_callbacks \<Rightarrow> u8_t list \<Rightarrow> 'a fsm_state_scheme \<Rightarrow> 'a fsm_state_scheme option" where
  "fsm_input cb inpacket s =
     (case fsm_header inpacket of
        None \<Rightarrow> Some s
      | Some (code, i, inp) \<Rightarrow>
          if f_state s = LS_INITIAL \<or> f_state s = LS_STARTING then Some s
          else if code = CONFREQ then fsm_rconfreq cb i inp s
          else if code = CONFACK then fsm_rconfack cb i inp s
          else if code = CONFNAK \<or> code = CONFREJ then fsm_rconfnakrej cb code i inp s
          else if code = TERMREQ then fsm_rtermreq cb i s
          else if code = TERMACK then fsm_rtermack cb s
          else if code = CODEREJ then fsm_rcoderej inp s
          else do {
            (handled, s) \<leftarrow> (case cb_extcode cb of Some ext \<Rightarrow> ext code i inp s | None \<Rightarrow> Some (False, s));
            if handled then Some s
            else let s = s\<lparr>f_id := f_id s + 1\<rparr>
                 in fsm_sdata CODEREJ (f_id s) (take (length inp + HEADERLEN) inpacket) s })"


section \<open>The restart timer\<close>

text \<open>
  \<open>restart_timer sizes a s b\<close>: the timer list is well-formed, the timers of others leave room for one more,
  and the restart timer of this automaton is pending exactly when \<open>b\<close>.
\<close>

definition restart_timer :: "(memp_t \<Rightarrow> nat) \<Rightarrow> addr \<Rightarrow> 'a fsm_state_scheme \<Rightarrow> bool \<Rightarrow> bool" where
  "restart_timer sizes a s b \<longleftrightarrow>
     (\<exists>es. timer_rep sizes a s es
        \<and> length (filter (\<lambda>e. snd e \<noteq> (FSM_TIMEOUT, f_addr s)) es) < memp_num MEMP_SYS_TIMEOUT
        \<and> length (filter (\<lambda>e. snd e = (FSM_TIMEOUT, f_addr s)) es) = (if b then 1 else 0))"

lemma filter_cancel_timer:
  "length (filter (\<lambda>e. snd e \<noteq> (h, arg)) (cancel_timer h arg es)) = length (filter (\<lambda>e. snd e \<noteq> (h, arg)) es)"
  "length (filter (\<lambda>e. snd e = (h, arg)) (cancel_timer h arg es)) = length (filter (\<lambda>e. snd e = (h, arg)) es) - 1"
  by (induction es) auto

lemma filter_insert_timer:
  "length (filter P (insert_timer d h arg es)) = length (filter P es) + (if P (d, h, arg) then 1 else 0)"
  by (induction es) auto

lemma length_filters: "length es = length (filter (\<lambda>e. P e) es) + length (filter (\<lambda>e. \<not> P e) es)"
  by (induction es) auto

text \<open>The timer operations change nothing but the timer list.\<close>

definition timers_only :: "'a timer_state_scheme \<Rightarrow> 'a timer_state_scheme \<Rightarrow> bool" where
  "timers_only s s' \<longleftrightarrow> (\<exists>q f m. s' = s\<lparr>next_timeout := q, timeos := f, timer_pools := m\<rparr>)"

lemma timers_only_intros:
  "timers_only s s" "timers_only s (s\<lparr>next_timeout := q\<rparr>)" "timers_only s (s\<lparr>timeos := f\<rparr>)" "timers_only s (s\<lparr>timer_pools := m\<rparr>)"
proof -
  show "timers_only s s" unfolding timers_only_def
    by (rule exI [of _ "next_timeout s"], rule exI [of _ "timeos s"], rule exI [of _ "timer_pools s"]) simp
  show "timers_only s (s\<lparr>next_timeout := q\<rparr>)" unfolding timers_only_def
    by (rule exI [of _ q], rule exI [of _ "timeos s"], rule exI [of _ "timer_pools s"]) simp
  show "timers_only s (s\<lparr>timeos := f\<rparr>)" unfolding timers_only_def
    by (rule exI [of _ "next_timeout s"], rule exI [of _ f], rule exI [of _ "timer_pools s"]) simp
  show "timers_only s (s\<lparr>timer_pools := m\<rparr>)" unfolding timers_only_def
    by (rule exI [of _ "next_timeout s"], rule exI [of _ "timeos s"], rule exI [of _ m]) simp
qed

lemma timers_only_trans: "timers_only s s1 \<Longrightarrow> timers_only s1 s2 \<Longrightarrow> timers_only s s2"
  unfolding timers_only_def by fastforce

lemma untimeout_loop_frame: "untimeout_loop h arg prev t s = Some s' \<Longrightarrow> timers_only s s'"
proof (erule untimeout_loop.raw_induct [rotated], goal_cases)
  case (1 loop h arg prev t s s')
  then show ?case
    by (auto simp: Let_def split: if_splits intro!: timers_only_intros
        intro: timers_only_trans [OF timers_only_intros(2)] timers_only_trans [OF timers_only_intros(3)]
          timers_only_trans [OF timers_only_trans [OF timers_only_intros(2) timers_only_intros(3)]]
          timers_only_trans [OF timers_only_trans [OF timers_only_intros(3) timers_only_intros(3)]])
qed

lemma sys_untimeout_frame: "sys_untimeout h arg s = Some s' \<Longrightarrow> timers_only s s'"
  unfolding sys_untimeout_def by (auto split: if_splits dest: untimeout_loop_frame intro: timers_only_intros)

lemma sys_timeout_frame: "sys_timeout d h arg s = Some s' \<Longrightarrow> timers_only s s'"
  unfolding sys_timeout_def timers_only_def
  by (auto simp: Let_def split: option.splits prod.splits if_splits) (metis timer_state.surjective timer_state.update_convs)+


section \<open>What the operations do to the automaton\<close>

text \<open>
  \<open>view\<close> is what the control flow depends on: the link state, whether the restart timer is pending, and
  the number of retransmissions left.
\<close>

definition view :: "(memp_t \<Rightarrow> nat) \<Rightarrow> addr \<Rightarrow> 'a fsm_state_scheme \<Rightarrow> link_state \<Rightarrow> bool \<Rightarrow> int \<Rightarrow> bool" where
  "view sizes a s st b r \<longleftrightarrow>
     4 \<le> peer_mru s \<and> f_state s = st \<and> restart_timer sizes a s b \<and> f_retransmits s = r"

lemma restart_timer_cong:
  "next_timeout s' = next_timeout s \<Longrightarrow> timeos s' = timeos s \<Longrightarrow> timer_pools s' = timer_pools s \<Longrightarrow> f_addr s' = f_addr s \<Longrightarrow>
   restart_timer sizes a s' b = restart_timer sizes a s b"
  unfolding restart_timer_def using timer_rep_cong [of s' s sizes a] by simp

lemma view_cong:
  "next_timeout s' = next_timeout s \<Longrightarrow> timeos s' = timeos s \<Longrightarrow> timer_pools s' = timer_pools s \<Longrightarrow> f_addr s' = f_addr s \<Longrightarrow>
   peer_mru s' = peer_mru s \<Longrightarrow> f_state s' = f_state s \<Longrightarrow> f_retransmits s' = f_retransmits s \<Longrightarrow>
   view sizes a s' st b r = view sizes a s st b r"
  unfolding view_def using restart_timer_cong [of s' s sizes a b] by simp

lemma view_upd [simp]:
  "view sizes a (s\<lparr>f_id := i\<rparr>) st b r = view sizes a s st b r"
  "view sizes a (s\<lparr>f_reqid := i\<rparr>) st b r = view sizes a s st b r"
  "view sizes a (s\<lparr>f_seen_ack := k\<rparr>) st b r = view sizes a s st b r"
  "view sizes a (s\<lparr>f_nakloops := n\<rparr>) st b r = view sizes a s st b r"
  "view sizes a (s\<lparr>f_term_reason := d\<rparr>) st b r = view sizes a s st b r"
  "view sizes a (s\<lparr>sent := p\<rparr>) st b r = view sizes a s st b r"
  by (rule view_cong; simp)+

lemma view_state: "view sizes a s st b r \<Longrightarrow> view sizes a (s\<lparr>f_state := st'\<rparr>) st' b r"
  unfolding view_def using restart_timer_cong [of "s\<lparr>f_state := st'\<rparr>" s sizes a b] by simp

lemma view_retransmits: "view sizes a s st b r \<Longrightarrow> view sizes a (s\<lparr>f_retransmits := r'\<rparr>) st b r'"
  unfolding view_def using restart_timer_cong [of "s\<lparr>f_retransmits := r'\<rparr>" s sizes a b] by simp

lemma view_timers_only:
  assumes "view sizes a s st b r" "timers_only s s'" "restart_timer sizes a s' b'"
  shows "view sizes a s' st b' r"
  using assms by (auto simp: view_def timers_only_def)

lemma sys_untimeout_view:
  assumes "view sizes a s st b r" "h = FSM_TIMEOUT" "arg = f_addr s"
  shows "yields (sys_untimeout h arg s) (\<lambda>s'. view sizes a s' st False r \<and> timers_only s s')"
proof -
  from assms obtain es where es: "timer_rep sizes a s es"
    "length (filter (\<lambda>e. snd e \<noteq> (FSM_TIMEOUT, f_addr s)) es) < memp_num MEMP_SYS_TIMEOUT"
    "length (filter (\<lambda>e. snd e = (FSM_TIMEOUT, f_addr s)) es) = (if b then 1 else 0)"
    unfolding view_def restart_timer_def by blast
  obtain s' where s': "sys_untimeout h arg s = Some s'" "timer_rep sizes a s' (cancel_timer h arg es)"
    using timers.cancel_law [OF es(1)] by blast
  note fr = sys_untimeout_frame [OF s'(1)]
  have "f_addr s' = f_addr s" using fr by (auto simp: timers_only_def)
  then have "restart_timer sizes a s' False"
    unfolding restart_timer_def using s'(2) es(2,3) assms(2,3)
    by (intro exI [of _ "cancel_timer h arg es"]) (auto simp: filter_cancel_timer)
  then show ?thesis using s'(1) view_timers_only [OF assms(1) fr] fr by (auto simp: yields_def)
qed

lemma UNTIMEOUT_view: "view sizes a s st b r \<Longrightarrow> yields (UNTIMEOUT s) (\<lambda>s'. view sizes a s' st False r)"
  unfolding UNTIMEOUT_def by (rule yields_mono [OF sys_untimeout_view]) auto

lemma TIMEOUT_view:
  assumes "view sizes a s st b r"
  shows "yields (TIMEOUT t s) (\<lambda>s'. view sizes a s' st True r)"
  unfolding TIMEOUT_def
proof (rule yields_bind [OF sys_untimeout_view [OF assms refl refl]])
  fix s1 assume s1: "view sizes a s1 st False r \<and> timers_only s s1"
  define d where "d = nat (t * 1000 mod 4294967296)"
  have d: "d < 4294967296" unfolding d_def by (simp add: nat_less_iff)
  from s1 obtain es where es: "timer_rep sizes a s1 es"
    "length (filter (\<lambda>e. snd e \<noteq> (FSM_TIMEOUT, f_addr s1)) es) < memp_num MEMP_SYS_TIMEOUT"
    "length (filter (\<lambda>e. snd e = (FSM_TIMEOUT, f_addr s1)) es) = 0"
    unfolding view_def restart_timer_def by fastforce
  then have "length es < memp_num MEMP_SYS_TIMEOUT"
    using length_filters [of es "\<lambda>e. snd e = (FSM_TIMEOUT, f_addr s1)"] by simp
  then obtain s2 where s2: "sys_timeout d FSM_TIMEOUT (f_addr s1) s1 = Some s2"
    "timer_rep sizes a s2 (insert_timer d FSM_TIMEOUT (f_addr s1) es)"
    using timers.set_law [OF es(1) d, of FSM_TIMEOUT "f_addr s1"] by auto
  note fr = sys_timeout_frame [OF s2(1)]
  have "f_addr s2 = f_addr s1" using fr by (auto simp: timers_only_def)
  then have "restart_timer sizes a s2 True"
    unfolding restart_timer_def using s2(2) es(2,3)
    by (intro exI [of _ "insert_timer d FSM_TIMEOUT (f_addr s1) es"]) (auto simp: filter_insert_timer)
  then show "yields (sys_timeout (nat (t * 1000 mod 4294967296)) FSM_TIMEOUT (f_addr s1) s1) (\<lambda>s'. view sizes a s' st True r)"
    using s2(1) view_timers_only [OF _ fr] s1 unfolding d_def by (auto simp: yields_def)
qed

lemma fsm_sdata_view: "view sizes a s st b r \<Longrightarrow> yields (fsm_sdata code i data s) (\<lambda>s'. view sizes a s' st b r)"
  by (auto simp: fsm_sdata_def Let_def) (auto simp: view_def)

section \<open>The invariant\<close>

text \<open>The states in which the automaton waits for its peer.\<close>

definition waiting :: "link_state \<Rightarrow> bool" where
  "waiting st \<longleftrightarrow> st \<in> {LS_CLOSING, LS_STOPPING, LS_REQSENT, LS_ACKRCVD, LS_ACKSENT}"

definition fsm_ok :: "(memp_t \<Rightarrow> nat) \<Rightarrow> addr \<Rightarrow> 'a fsm_state_scheme \<Rightarrow> bool" where
  "fsm_ok sizes a s \<longleftrightarrow> (\<exists>st b r. view sizes a s st b r \<and> (waiting st \<longrightarrow> b))"

section \<open>The contract of the callbacks\<close>

text \<open>
  The callbacks that build the option list of a request (\<^verbatim>\<open>resetci\<close>, \<^verbatim>\<open>cilen\<close>, \<^verbatim>\<open>addci\<close>, \<^verbatim>\<open>retransmit\<close>) and answer that of the peer (\<^verbatim>\<open>reqci\<close>) work on the options
  of the protocol: they return, and leave the automaton, the timers and the retransmission counter alone. Those of \<^verbatim>\<open>lcp.c\<close> and \<^verbatim>\<open>ipcp.c\<close> do so.
\<close>

definition untouched :: "'a fsm_state_scheme \<Rightarrow> 'a fsm_state_scheme \<Rightarrow> bool" where
  "untouched s s' \<longleftrightarrow> next_timeout s' = next_timeout s \<and> timeos s' = timeos s \<and> timer_pools s' = timer_pools s
     \<and> f_addr s' = f_addr s \<and> f_state s' = f_state s \<and> f_retransmits s' = f_retransmits s \<and> 4 \<le> peer_mru s'"

definition quietly :: "('a fsm_state_scheme \<Rightarrow> 'a fsm_state_scheme option) option \<Rightarrow> bool" where
  "quietly c \<longleftrightarrow> (\<forall>f s. c = Some f \<longrightarrow> 4 \<le> peer_mru s \<longrightarrow> yields (f s) (untouched s))"

definition quietly_with :: "('x \<Rightarrow> 'a fsm_state_scheme \<Rightarrow> ('y \<times> 'a fsm_state_scheme) option) option \<Rightarrow> bool" where
  "quietly_with c \<longleftrightarrow> (\<forall>f x s. c = Some f \<longrightarrow> 4 \<le> peer_mru s \<longrightarrow> yields (f x s) (\<lambda>(y, s'). untouched s s'))"

definition quiet_options :: "'a fsm_state_scheme fsm_callbacks \<Rightarrow> bool" where
  "quiet_options cb \<longleftrightarrow>
     quietly (cb_resetci cb) \<and> quietly (cb_retransmit cb)
     \<and> quietly_with (map_option (\<lambda>f (_ :: unit). f) (cb_cilen cb)) \<and> quietly_with (cb_addci cb)
     \<and> quietly_with (map_option (\<lambda>f (inp, b) s. map_option (\<lambda>(c, d, s). ((c, d), s)) (f inp b s)) (cb_reqci cb))"

text \<open>
  The callbacks that tell other layers that the link is up, down, needed or finished, those that judge the peer's answers and the one for further codes may call
  the automaton again, as \<^verbatim>\<open>ipcp_up\<close> does with \<^verbatim>\<open>ipcp_close\<close>, \<^verbatim>\<open>lcp_nakci\<close> with \<^verbatim>\<open>lcp_close\<close> on a loopback and \<^verbatim>\<open>ipcp_finished\<close> through \<^verbatim>\<open>lcp_close\<close>, and set and cancel timers of
  others. What is asked of them is that they return
  and keep the invariant: the timer list well-formed with room for one more timer, and the restart timer pending where the automaton waits.
\<close>

definition orderly :: "(memp_t \<Rightarrow> nat) \<Rightarrow> addr \<Rightarrow> ('a fsm_state_scheme \<Rightarrow> 'a fsm_state_scheme option) option \<Rightarrow> bool" where
  "orderly sizes a c \<longleftrightarrow> (\<forall>f s. c = Some f \<longrightarrow> fsm_ok sizes a s \<longrightarrow> yields (f s) (fsm_ok sizes a))"

definition orderly_with ::
  "(memp_t \<Rightarrow> nat) \<Rightarrow> addr \<Rightarrow> ('x \<Rightarrow> 'a fsm_state_scheme \<Rightarrow> ('y \<times> 'a fsm_state_scheme) option) option \<Rightarrow> bool" where
  "orderly_with sizes a c \<longleftrightarrow> (\<forall>f x s. c = Some f \<longrightarrow> fsm_ok sizes a s \<longrightarrow> yields (f x s) (\<lambda>(y, s'). fsm_ok sizes a s'))"

definition orderly_callbacks :: "(memp_t \<Rightarrow> nat) \<Rightarrow> addr \<Rightarrow> 'a fsm_state_scheme fsm_callbacks \<Rightarrow> bool" where
  "orderly_callbacks sizes a cb \<longleftrightarrow> quiet_options cb
     \<and> orderly sizes a (cb_up cb) \<and> orderly sizes a (cb_down cb) \<and> orderly sizes a (cb_starting cb) \<and> orderly sizes a (cb_finished cb)
     \<and> orderly_with sizes a (cb_ackci cb) \<and> orderly_with sizes a (cb_nakci cb) \<and> orderly_with sizes a (cb_rejci cb)
     \<and> orderly_with sizes a (map_option (\<lambda>f (code, i, inp). f code i inp) (cb_extcode cb))"

lemma untouched_view: "view sizes a s st b r \<Longrightarrow> untouched s s' \<Longrightarrow> view sizes a s' st b r"
  unfolding view_def untouched_def using restart_timer_cong [of s' s sizes a b] by simp

lemma call_opt_view:
  "quietly c \<Longrightarrow> view sizes a s st b r \<Longrightarrow> yields (call_opt c s) (\<lambda>s'. view sizes a s' st b r)"
proof (cases c)
  case (Some f)
  assume "quietly c" and v: "view sizes a s st b r"
  then have "yields (f s) (untouched s)" using Some unfolding quietly_def view_def by blast
  then show ?thesis using untouched_view [OF v] Some by (auto simp: call_opt_def elim: yields_mono)
qed (simp add: call_opt_def)

lemma quietly_with_view:
  assumes "quietly_with (Some f)" and v: "view sizes a s st b r"
  shows "yields (f x s) (\<lambda>(y, s'). view sizes a s' st b r)"
proof -
  have "yields (f x s) (\<lambda>(y, s'). untouched s s')" using assms unfolding quietly_with_def view_def by blast
  then show ?thesis using untouched_view [OF v] by (auto elim: yields_mono)
qed

lemma view_ok: "view sizes a s st b r \<Longrightarrow> (waiting st \<Longrightarrow> b) \<Longrightarrow> fsm_ok sizes a s"
  unfolding fsm_ok_def by blast

lemma fsm_okE:
  assumes "fsm_ok sizes a s"
  obtains b where "view sizes a s (f_state s) b (f_retransmits s)" "waiting (f_state s) \<longrightarrow> b"
  using assms unfolding fsm_ok_def view_def by auto

lemma fsm_ok_upd [simp]:
  "fsm_ok sizes a (s\<lparr>f_id := i\<rparr>) = fsm_ok sizes a s"
  "fsm_ok sizes a (s\<lparr>f_nakloops := n\<rparr>) = fsm_ok sizes a s"
  "fsm_ok sizes a (s\<lparr>f_seen_ack := k\<rparr>) = fsm_ok sizes a s"
  "fsm_ok sizes a (s\<lparr>f_term_reason := d\<rparr>) = fsm_ok sizes a s"
  by (simp_all add: fsm_ok_def)

lemma quiet_optionsD:
  assumes "quiet_options cb"
  shows "quietly (cb_resetci cb)" "quietly (cb_retransmit cb)"
    "quietly_with (map_option (\<lambda>f (_ :: unit). f) (cb_cilen cb))" "quietly_with (cb_addci cb)"
    "quietly_with (map_option (\<lambda>f (inp, b) s. map_option (\<lambda>(c, d, s). ((c, d), s)) (f inp b s)) (cb_reqci cb))"
  using assms by (simp_all add: quiet_options_def)

lemma orderlyD:
  assumes "orderly_callbacks sizes a cb"
  shows "quiet_options cb" "orderly sizes a (cb_up cb)" "orderly sizes a (cb_down cb)" "orderly sizes a (cb_starting cb)"
    "orderly sizes a (cb_finished cb)" "orderly_with sizes a (cb_ackci cb)" "orderly_with sizes a (cb_nakci cb)" "orderly_with sizes a (cb_rejci cb)"
    "orderly_with sizes a (map_option (\<lambda>f (code, i, inp). f code i inp) (cb_extcode cb))"
  using assms by (simp_all add: orderly_callbacks_def)

lemma view_dec: "view sizes a s st b r \<Longrightarrow> view sizes a (s\<lparr>f_retransmits := f_retransmits s - 1\<rparr>) st b (r - 1)"
  using view_retransmits [of sizes a s st b r "r - 1"] by (simp add: view_def [of sizes a s])

lemma fsm_sconfreq_view:
  fixes s :: "'a fsm_state_scheme"
  assumes q: "quiet_options cb" and v: "view sizes a s st b r"
  shows "yields (fsm_sconfreq cb re s) (\<lambda>s'. \<exists>r'. view sizes a s' st True r' \<and> (re \<longrightarrow> r' = r - 1))"
  unfolding fsm_sconfreq_def
proof (rule yields_bind)
  show "yields (if f_state s \<noteq> LS_REQSENT \<and> f_state s \<noteq> LS_ACKRCVD \<and> f_state s \<noteq> LS_ACKSENT
      then call_opt (cb_resetci cb) s \<bind> (\<lambda>s. Some (s\<lparr>f_nakloops := 0\<rparr>)) else Some s) (\<lambda>s'. view sizes a s' st b r)"
    using v by (auto intro!: yields_bind [OF call_opt_view [OF quiet_optionsD(1) [OF q] v]])
next
  fix s1 :: "'a fsm_state_scheme" assume v1: "view sizes a s1 st b r"
  let ?s2 = "(if \<not> re then s1\<lparr>f_retransmits := f_maxconfreqtransmits s1, f_id := f_id s1 + 1, f_reqid := f_id s1 + 1\<rparr> else s1)\<lparr>f_seen_ack := False\<rparr>"
  obtain r2 where v2: "view sizes a ?s2 st b r2" "re \<longrightarrow> r2 = r"
    using v1 view_retransmits [OF v1, of "f_maxconfreqtransmits s1"] by (cases re) auto
  let ?ci = "\<lambda>s. case (cb_cilen cb, cb_addci cb) of
      (Some cilen, Some addci) \<Rightarrow> cilen s \<bind> (\<lambda>(n, s). addci (if n > peer_mru s - int HEADERLEN then peer_mru s - int HEADERLEN else n) s)
    | _ \<Rightarrow> Some ([], s)"
  have ci: "yields (?ci ?s2) (\<lambda>(ci, s'). view sizes a s' st b r2)"
  proof (cases "cb_cilen cb = None \<or> cb_addci cb = None")
    case True
    then show ?thesis using v2 by (auto split: option.splits)
  next
    case False
    then obtain f g where fg: "cb_cilen cb = Some f" "cb_addci cb = Some g" by auto
    then have qf: "quietly_with (Some (\<lambda>_ :: unit. f))" "quietly_with (Some g)" using quiet_optionsD(3,4) [OF q] by simp_all
    have 1: "yields (f ?s2) (\<lambda>(n, s'). view sizes a s' st b r2)" using quietly_with_view [OF qf(1) v2(1)] by simp
    have "yields (g m s') (\<lambda>(ci, s'). view sizes a s' st b r2)" if "view sizes a s' st b r2" for m s'
      using quietly_with_view [OF qf(2) that] .
    then show ?thesis
      unfolding fg option.case prod.case by (intro yields_bind [OF 1]) (auto split: prod.splits)
  qed
  have "yields (?ci ?s2 \<bind> (\<lambda>(ci, s). fsm_sdata CONFREQ (f_reqid s) ci s \<bind> (\<lambda>s. Some (s\<lparr>f_retransmits := f_retransmits s - 1\<rparr>)
      \<bind> (\<lambda>s. TIMEOUT (f_timeouttime s) s)))) (\<lambda>s'. view sizes a s' st True (r2 - 1))" (is "yields ?body _")
  proof (rule yields_bind [OF ci], clarsimp)
    fix ci s3 assume "view sizes a s3 st b r2"
    then show "yields (fsm_sdata CONFREQ (f_reqid s3) ci s3 \<bind> (\<lambda>s. TIMEOUT (f_timeouttime s) (s\<lparr>f_retransmits := f_retransmits s - 1\<rparr>)))
        (\<lambda>s'. view sizes a s' st True (r2 - 1))"
    proof (rule yields_bind [OF fsm_sdata_view])
      fix s4 assume v4: "view sizes a s4 st b r2"
      show "yields (TIMEOUT (f_timeouttime s4) (s4\<lparr>f_retransmits := f_retransmits s4 - 1\<rparr>)) (\<lambda>s'. view sizes a s' st True (r2 - 1))"
        by (rule TIMEOUT_view [OF view_dec [OF v4]])
    qed
  qed
  note body = this
  show "yields (Some (if \<not> re then s1\<lparr>f_retransmits := f_maxconfreqtransmits s1, f_id := f_id s1 + 1, f_reqid := f_id s1 + 1\<rparr> else s1) \<bind>
      (\<lambda>s. Some (s\<lparr>f_seen_ack := False\<rparr>) \<bind> (\<lambda>s. ?ci s \<bind> (\<lambda>(ci, s). fsm_sdata CONFREQ (f_reqid s) ci s \<bind>
      (\<lambda>s. Some (s\<lparr>f_retransmits := f_retransmits s - 1\<rparr>) \<bind> (\<lambda>s. TIMEOUT (f_timeouttime s) s))))))
      (\<lambda>s'. \<exists>r'. view sizes a s' st True r' \<and> (re \<longrightarrow> r' = r - 1))"
    unfolding Option.bind.bind_lunit
    by (rule yields_mono [OF body [unfolded Option.bind.bind_lunit]]) (use v2(2) in auto)
qed

lemma send_termreq_view:
  assumes "view sizes a s st b r"
  shows "yields (send_termreq s) (\<lambda>s'. view sizes a s' st True (r - 1))"
  unfolding send_termreq_def
proof (simp, rule yields_bind [OF fsm_sdata_view], simp, rule assms)
  fix s1 assume "view sizes a s1 st b r"
  then show "yields (TIMEOUT (f_timeouttime s1) s1 \<bind> (\<lambda>s. Some (s\<lparr>f_retransmits := f_retransmits s - 1\<rparr>))) (\<lambda>s'. view sizes a s' st True (r - 1))"
    by (rule yields_bind [OF TIMEOUT_view]) (auto intro: view_dec)
qed


text \<open>
  The rules in the form the operations use them: an operation followed by a continuation, and an
  operation at the end.
\<close>

lemma call_opt_ok: "orderly sizes a c \<Longrightarrow> fsm_ok sizes a s \<Longrightarrow> yields (call_opt c s) (fsm_ok sizes a)"
  by (cases c) (simp_all add: call_opt_def orderly_def)

lemma call_opt_ok_view:
  "orderly sizes a c \<Longrightarrow> fsm_ok sizes a s \<Longrightarrow> yields (call_opt c s) (\<lambda>s'. \<exists>st b r. view sizes a s' st b r)"
  by (rule yields_mono [OF call_opt_ok]) (auto simp: fsm_ok_def)

lemma fsm_sdata_ok: "fsm_ok sizes a s \<Longrightarrow> yields (fsm_sdata code i data s) (fsm_ok sizes a)"
  unfolding fsm_ok_def using fsm_sdata_view by (fastforce elim: yields_mono)

lemma fsm_sconfreq_ok:
  assumes "quiet_options cb" "view sizes a s st b r"
  shows "yields (fsm_sconfreq cb re s) (\<lambda>s'. \<exists>r'. view sizes a s' st True r')"
  using fsm_sconfreq_view [OF assms, of re] by (auto elim: yields_mono)

lemma state_ok: "view sizes a s st b r \<Longrightarrow> (waiting st' \<Longrightarrow> b) \<Longrightarrow> fsm_ok sizes a (s\<lparr>f_state := st'\<rparr>)"
  by (rule view_ok [OF view_state])

lemma sconfreq_reqsent_ok:
  assumes "quiet_options cb" "view sizes a s st b r"
  shows "yields (fsm_sconfreq cb False s \<bind> (\<lambda>s. Some (s\<lparr>f_state := LS_REQSENT\<rparr>))) (fsm_ok sizes a)"
  by (rule yields_bind [OF fsm_sconfreq_ok [OF assms]]) (auto intro: state_ok)

lemma down_sconfreq_ok:
  assumes q: "orderly_callbacks sizes a cb" and ok: "fsm_ok sizes a s"
  shows "yields (call_opt (cb_down cb) s \<bind> (\<lambda>s. fsm_sconfreq cb False s \<bind> (\<lambda>s. Some (s\<lparr>f_state := LS_REQSENT\<rparr>)))) (fsm_ok sizes a)"
  by (rule yields_bind [OF call_opt_ok_view [OF orderlyD(3) [OF q] ok]], elim exE, rule sconfreq_reqsent_ok [OF orderlyD(1) [OF q]])

lemma untimeout_sconfreq_ok:
  assumes q: "quiet_options cb" and v: "view sizes a s st b r"
  shows "yields (UNTIMEOUT s \<bind> (\<lambda>s. fsm_sconfreq cb False s \<bind> (\<lambda>s. Some (s\<lparr>f_state := LS_REQSENT\<rparr>)))) (fsm_ok sizes a)"
  by (rule yields_bind [OF UNTIMEOUT_view [OF v]], rule sconfreq_reqsent_ok [OF q])

lemma untimeout_call_ok:
  assumes "orderly sizes a c" and v: "view sizes a s st b r" and "\<not> waiting st'"
  shows "yields (UNTIMEOUT s \<bind> (\<lambda>s. call_opt c (s\<lparr>f_state := st'\<rparr>))) (fsm_ok sizes a)"
  by (rule yields_bind [OF UNTIMEOUT_view [OF v]], rule call_opt_ok [OF assms(1) state_ok]) (use assms(3) in auto)

lemma untimeout_state_ok:
  assumes "view sizes a s st b r" and "\<not> waiting st'"
  shows "yields (UNTIMEOUT (s\<lparr>f_state := st'\<rparr>)) (fsm_ok sizes a)"
  by (rule yields_mono [OF UNTIMEOUT_view [OF view_state [OF assms(1)]]]) (use assms(2) in \<open>auto intro: view_ok\<close>)

lemma termreq_state_ok:
  assumes "view sizes a s st b r"
  shows "yields (Some (s\<lparr>f_retransmits := n s\<rparr>) \<bind> (\<lambda>s. send_termreq s \<bind> (\<lambda>s. Some (s\<lparr>f_state := st'\<rparr>)))) (fsm_ok sizes a)"
  by simp (rule yields_bind [OF send_termreq_view [OF view_retransmits [OF assms]]], auto intro: state_ok)

lemma waiting_simps [simp]:
  "waiting LS_CLOSING" "waiting LS_STOPPING" "waiting LS_REQSENT" "waiting LS_ACKRCVD" "waiting LS_ACKSENT"
  "\<not> waiting LS_INITIAL" "\<not> waiting LS_STARTING" "\<not> waiting LS_CLOSED" "\<not> waiting LS_STOPPED" "\<not> waiting LS_OPENED"
  by (simp_all add: waiting_def)

lemma fsm_lowerup_ok:
  assumes q: "orderly_callbacks sizes a cb" and ok: "fsm_ok sizes a s"
  shows "yields (fsm_lowerup cb s) (fsm_ok sizes a)"
proof -
  from ok obtain b where v: "view sizes a s (f_state s) b (f_retransmits s)" by (rule fsm_okE)
  then show ?thesis
    unfolding fsm_lowerup_def using ok
    by (cases "f_state s") (auto intro: state_ok [OF v] sconfreq_reqsent_ok [OF orderlyD(1) [OF q] v, simplified])
qed

lemma fsm_lowerdown_ok:
  assumes q: "orderly_callbacks sizes a cb" and ok: "fsm_ok sizes a s"
  shows "yields (fsm_lowerdown cb s) (fsm_ok sizes a)"
proof -
  from ok obtain b where v: "view sizes a s (f_state s) b (f_retransmits s)" by (rule fsm_okE)
  have "yields (call_opt (cb_down cb) s \<bind> (\<lambda>s. Some (s\<lparr>f_state := LS_STARTING\<rparr>))) (fsm_ok sizes a)"
    by (rule yields_bind [OF call_opt_ok_view [OF orderlyD(3) [OF q] ok]]) (auto intro: state_ok)
  moreover have "yields (call_opt (cb_starting cb) (s\<lparr>f_state := LS_STARTING\<rparr>)) (fsm_ok sizes a)"
    by (rule call_opt_ok [OF orderlyD(4) [OF q] state_ok [OF v]]) simp
  ultimately show ?thesis
    unfolding fsm_lowerdown_def using ok state_ok [OF v, of LS_INITIAL] untimeout_state_ok [OF v]
    by (cases "f_state s") auto
qed

lemma fsm_open_ok:
  assumes q: "orderly_callbacks sizes a cb" and ok: "fsm_ok sizes a s"
  shows "yields (fsm_open cb s) (fsm_ok sizes a)"
proof -
  from ok obtain b where v: "view sizes a s (f_state s) b (f_retransmits s)" "waiting (f_state s) \<longrightarrow> b" by (rule fsm_okE)
  have restart: "yields (fsm_lowerdown cb s \<bind> fsm_lowerup cb) (fsm_ok sizes a)" if "fsm_ok sizes a s" for s
    by (rule yields_bind [OF fsm_lowerdown_ok [OF q that]], rule fsm_lowerup_ok [OF q])
  have "yields (call_opt (cb_starting cb) (s\<lparr>f_state := LS_STARTING\<rparr>)) (fsm_ok sizes a)"
    by (rule call_opt_ok [OF orderlyD(4) [OF q] state_ok [OF v(1)]]) simp
  moreover have "fsm_ok sizes a (s\<lparr>f_state := LS_STOPPING\<rparr>)" if "f_state s = LS_CLOSING"
    by (rule state_ok [OF v(1)]) (use v(2) that in simp)
  ultimately show ?thesis
    unfolding fsm_open_def using ok state_ok [OF v(1), of LS_STOPPED] sconfreq_reqsent_ok [OF orderlyD(1) [OF q] v(1)] restart
    by (cases "f_state s") (auto simp: Let_def)
qed

lemma fsm_close_ok:
  assumes q: "orderly_callbacks sizes a cb" and ok: "fsm_ok sizes a s"
  shows "yields (fsm_close cb reason s) (fsm_ok sizes a)"
proof -
  define s1 where "s1 = s\<lparr>f_term_reason := (case reason of None \<Rightarrow> [] | Some d \<Rightarrow> d)\<rparr>"
  have "fsm_ok sizes a s1" using ok by (simp add: s1_def)
  then obtain b where v: "view sizes a s1 (f_state s1) b (f_retransmits s1)" "waiting (f_state s1) \<longrightarrow> b" by (rule fsm_okE)
  have un: "yields (UNTIMEOUT s1 \<bind> (\<lambda>s. Some (s\<lparr>f_retransmits := f_maxtermtransmits s\<rparr>) \<bind> (\<lambda>s. send_termreq s \<bind>
      (\<lambda>s. Some (s\<lparr>f_state := LS_CLOSING\<rparr>))))) (fsm_ok sizes a)"
    by (rule yields_bind [OF UNTIMEOUT_view [OF v(1)]], rule termreq_state_ok)
  have down: "yields (call_opt (cb_down cb) s1 \<bind> (\<lambda>s. Some (s\<lparr>f_retransmits := f_maxtermtransmits s\<rparr>) \<bind> (\<lambda>s. send_termreq s \<bind>
      (\<lambda>s. Some (s\<lparr>f_state := LS_CLOSING\<rparr>))))) (fsm_ok sizes a)"
    by (rule yields_bind [OF call_opt_ok_view [OF orderlyD(3) [OF q] \<open>fsm_ok sizes a s1\<close>]], elim exE, rule termreq_state_ok)
  have state: "fsm_ok sizes a (s1\<lparr>f_state := st'\<rparr>)" if "waiting st' \<longrightarrow> waiting (f_state s1)" for st'
    by (rule state_ok [OF v(1)]) (use v(2) that in blast)
  show ?thesis
    unfolding fsm_close_def Let_def s1_def [symmetric] using \<open>fsm_ok sizes a s1\<close> un down state
    by (cases "f_state s1") auto
qed


lemma fsm_timeout_ok:
  assumes q: "orderly_callbacks sizes a cb" and v: "view sizes a s st b r"
  shows "yields (fsm_timeout cb s) (fsm_ok sizes a)"
proof -
  have st: "f_state s = st" using v by (simp add: view_def)
  have fin: "yields (call_opt (cb_finished cb) (s\<lparr>f_state := st'\<rparr>)) (fsm_ok sizes a)" if "\<not> waiting st'" for st'
    by (rule call_opt_ok [OF orderlyD(5) [OF q] state_ok [OF v]]) (use that in simp)
  have req: "yields (send_termreq s) (fsm_ok sizes a)"
    using send_termreq_view [OF v] by (auto elim!: yields_mono intro: view_ok)
  have conf: "yields (call_opt (cb_retransmit cb) s \<bind> (\<lambda>s. fsm_sconfreq cb True s \<bind>
      (\<lambda>s. Some (if f_state s = LS_ACKRCVD then s\<lparr>f_state := LS_REQSENT\<rparr> else s)))) (fsm_ok sizes a)"
  proof (rule yields_bind [OF call_opt_view [OF quiet_optionsD(2) [OF orderlyD(1) [OF q]] v]], rule yields_bind [OF fsm_sconfreq_ok [OF orderlyD(1) [OF q]]])
    fix s1 s2 assume "view sizes a s1 st b r" "\<exists>r'. view sizes a s2 st True r'"
    then show "yields (Some (if f_state s2 = LS_ACKRCVD then s2\<lparr>f_state := LS_REQSENT\<rparr> else s2)) (fsm_ok sizes a)"
      by (auto intro: view_ok view_state)
  qed
  have "fsm_ok sizes a s" if "\<not> waiting st" using view_ok [OF v] that by simp
  moreover have "fsm_ok sizes a (s\<lparr>f_state := LS_STOPPED\<rparr>)" by (rule state_ok [OF v]) simp
  ultimately show ?thesis
    unfolding fsm_timeout_def Let_def using fin req conf st by (cases st) auto
qed

lemma fsm_answer_confreq_ok:
  fixes s :: "'a fsm_state_scheme"
  assumes q: "orderly_callbacks sizes a cb" and v: "view sizes a s st True r"
  shows "yields (fsm_answer_confreq cb i code inp s) (fsm_ok sizes a)"
  unfolding fsm_answer_confreq_def
proof (rule yields_bind [OF fsm_sdata_view [OF v]])
  fix s1 :: "'a fsm_state_scheme" assume v1: "view sizes a s1 st True r"
  let ?open = "if f_state s1 = LS_ACKRCVD then UNTIMEOUT s1 \<bind> (\<lambda>s. call_opt (cb_up cb) (s\<lparr>f_state := LS_OPENED\<rparr>))
       else Some (s1\<lparr>f_state := LS_ACKSENT\<rparr>)"
  have "yields ?open (fsm_ok sizes a)"
    using untimeout_call_ok [OF orderlyD(2) [OF q] v1] state_ok [OF v1] by simp
  then have ack: "yields (?open \<bind> (\<lambda>s. Some (s\<lparr>f_nakloops := 0\<rparr>))) (fsm_ok sizes a)"
    by (rule yields_bind) simp
  have "fsm_ok sizes a s1" "fsm_ok sizes a (s1\<lparr>f_state := LS_REQSENT\<rparr>)"
    using view_ok [OF v1] state_ok [OF v1] by simp_all
  then show "yields (if code = CONFACK then ?open \<bind> (\<lambda>s. Some (s\<lparr>f_nakloops := 0\<rparr>))
      else let s = (if f_state s1 \<noteq> LS_ACKRCVD then s1\<lparr>f_state := LS_REQSENT\<rparr> else s1)
           in Some (if code = CONFNAK then s\<lparr>f_nakloops := f_nakloops s + 1\<rparr> else s)) (fsm_ok sizes a)"
    using ack by (simp add: Let_def)
qed

lemma reqci_view:
  assumes q: "quiet_options cb" and v: "view sizes a s st b r"
  shows "yields (case cb_reqci cb of Some reqci \<Rightarrow> reqci inp rej s | None \<Rightarrow> Some (if inp \<noteq> [] then CONFREJ else CONFACK, inp, s))
    (\<lambda>(code, inp, s'). view sizes a s' st b r)"
proof (cases "cb_reqci cb")
  case (Some f)
  have "yields (map_option (\<lambda>(c, d, s). ((c, d), s)) (f inp rej s)) (\<lambda>(y, s'). view sizes a s' st b r)"
    using quietly_with_view [OF _ v, of _ "(inp, rej)"] quiet_optionsD(5) [OF q] Some by fastforce
  then show ?thesis using Some by (auto simp: yields_def)
qed (use v in simp)

lemma fsm_rconfreq_ok:
  assumes q: "orderly_callbacks sizes a cb" and ok: "fsm_ok sizes a s" and st: "f_state s \<notin> {LS_INITIAL, LS_STARTING}"
  shows "yields (fsm_rconfreq cb i inp s) (fsm_ok sizes a)"
proof (cases "f_state s \<in> {LS_CLOSED, LS_CLOSING, LS_STOPPING}")
  case True
  then show ?thesis using ok fsm_sdata_ok [OF ok] unfolding fsm_rconfreq_def by auto
next
  case False
  from ok obtain b where v: "view sizes a s (f_state s) b (f_retransmits s)" "waiting (f_state s) \<longrightarrow> b" by (rule fsm_okE)
  let ?start = "if f_state s = LS_OPENED then call_opt (cb_down cb) s \<bind> fsm_sconfreq cb False
      else if f_state s = LS_STOPPED then fsm_sconfreq cb False s \<bind> (\<lambda>s. Some (s\<lparr>f_state := LS_REQSENT\<rparr>)) else Some s"
  have "yields ?start (\<lambda>s'. \<exists>st r. view sizes a s' st True r)"
  proof -
    have "yields (call_opt (cb_down cb) s \<bind> fsm_sconfreq cb False) (\<lambda>s'. \<exists>st r. view sizes a s' st True r)"
      by (rule yields_bind [OF call_opt_ok_view [OF orderlyD(3) [OF q] ok]], elim exE)
        (use fsm_sconfreq_ok [OF orderlyD(1) [OF q]] in \<open>fastforce elim: yields_mono\<close>)
    moreover have "yields (fsm_sconfreq cb False s \<bind> (\<lambda>s. Some (s\<lparr>f_state := LS_REQSENT\<rparr>))) (\<lambda>s'. \<exists>st r. view sizes a s' st True r)"
      by (rule yields_bind [OF fsm_sconfreq_ok [OF orderlyD(1) [OF q] v(1)]]) (auto intro: view_state)
    moreover have "\<exists>st r. view sizes a s st True r" if "f_state s \<noteq> LS_OPENED" "f_state s \<noteq> LS_STOPPED"
      using that v st False by (cases "f_state s") auto
    ultimately show ?thesis by auto
  qed
  then have "yields (?start \<bind> (\<lambda>s. (case cb_reqci cb of
            Some reqci \<Rightarrow> reqci inp (f_nakloops s \<ge> f_maxnakloops s) s
          | None \<Rightarrow> Some (if inp \<noteq> [] then CONFREJ else CONFACK, inp, s)) \<bind> (\<lambda>(code, inp, s). fsm_answer_confreq cb i code inp s)))
      (fsm_ok sizes a)"
    by (rule yields_bind, elim exE, intro yields_bind [OF reqci_view [OF orderlyD(1) [OF q]]])
      (auto intro: fsm_answer_confreq_ok [OF q] split: prod.splits)
  moreover have "f_state s \<noteq> LS_CLOSED" "f_state s \<notin> {LS_CLOSING, LS_STOPPING}" using False by auto
  ultimately show ?thesis unfolding fsm_rconfreq_def by (simp only: if_False)
qed


lemma fsm_good_ack_ok:
  assumes q: "orderly_callbacks sizes a cb" and ok: "fsm_ok sizes a s"
  shows "yields (fsm_good_ack cb i s) (fsm_ok sizes a)"
proof -
  from ok obtain b where v: "view sizes a s (f_state s) b (f_retransmits s)" "waiting (f_state s) \<longrightarrow> b" by (rule fsm_okE)
  have rcvd: "fsm_ok sizes a (s\<lparr>f_state := LS_ACKRCVD, f_retransmits := f_maxconfreqtransmits s\<rparr>)" if "waiting (f_state s)"
    by (rule view_ok [OF view_retransmits [OF view_state [OF v(1)]]]) (use v(2) that in simp)
  have up: "yields (UNTIMEOUT s \<bind> (\<lambda>s. call_opt (cb_up cb) (s\<lparr>f_state := LS_OPENED, f_retransmits := f_maxconfreqtransmits s\<rparr>))) (fsm_ok sizes a)"
    by (rule yields_bind [OF UNTIMEOUT_view [OF v(1)]], rule call_opt_ok [OF orderlyD(2) [OF q]],
        erule view_ok [OF view_retransmits [OF view_state]]) simp
  show ?thesis
    unfolding fsm_good_ack_def
    using ok rcvd up fsm_sdata_ok [OF ok] untimeout_sconfreq_ok [OF orderlyD(1) [OF q] v(1)] down_sconfreq_ok [OF q ok]
    by (cases "f_state s") auto
qed

lemma fsm_rconfack_ok:
  assumes q: "orderly_callbacks sizes a cb" and ok: "fsm_ok sizes a s"
  shows "yields (fsm_rconfack cb i inp s) (fsm_ok sizes a)"
proof -
  have chk: "yields (case cb_ackci cb of Some ackci \<Rightarrow> ackci inp s | None \<Rightarrow> Some (if inp = [] then 1 else 0, s)) (\<lambda>(good, s'). fsm_ok sizes a s')"
    using orderlyD(6) [OF q] ok by (cases "cb_ackci cb") (simp_all add: orderly_with_def)
  have "yields ((case cb_ackci cb of Some ackci \<Rightarrow> ackci inp s | None \<Rightarrow> Some (if inp = [] then 1 else 0, s)) \<bind>
      (\<lambda>(good, s). if good = 0 then Some s else fsm_good_ack cb i (s\<lparr>f_seen_ack := True\<rparr>))) (fsm_ok sizes a)"
    by (rule yields_bind [OF chk]) (auto intro!: fsm_good_ack_ok [OF q])
  then show ?thesis unfolding fsm_rconfack_def using ok by (simp only: yields_Some split: if_split) blast
qed

lemma fsm_good_nakrej_ok:
  assumes q: "orderly_callbacks sizes a cb" and ok: "fsm_ok sizes a s"
  shows "yields (fsm_good_nakrej cb i ret s) (fsm_ok sizes a)"
proof -
  from ok obtain b where v: "view sizes a s (f_state s) b (f_retransmits s)" "waiting (f_state s) \<longrightarrow> b" by (rule fsm_okE)
  have again: "yields (UNTIMEOUT s \<bind> (\<lambda>s. if ret < 0 then Some (s\<lparr>f_state := LS_STOPPED\<rparr>) else fsm_sconfreq cb False s)) (fsm_ok sizes a)"
    by (rule yields_bind [OF UNTIMEOUT_view [OF v(1)]])
      (auto intro: state_ok view_ok intro!: yields_mono [OF fsm_sconfreq_ok [OF orderlyD(1) [OF q]]])
  show ?thesis
    unfolding fsm_good_nakrej_def
    using ok again fsm_sdata_ok [OF ok] untimeout_sconfreq_ok [OF orderlyD(1) [OF q] v(1)] down_sconfreq_ok [OF q ok]
    by (cases "f_state s") auto
qed

lemma fsm_rconfnakrej_ok:
  assumes q: "orderly_callbacks sizes a cb" and ok: "fsm_ok sizes a s"
  shows "yields (fsm_rconfnakrej cb code i inp s) (fsm_ok sizes a)"
proof -
  define proc where "proc = (if code = CONFNAK then cb_nakci cb else cb_rejci cb)"
  have "orderly_with sizes a proc" using orderlyD(7,8) [OF q] by (simp add: proc_def)
  then have chk: "yields (case proc of Some f \<Rightarrow> f inp s | None \<Rightarrow> Some (0, s)) (\<lambda>(ret, s'). fsm_ok sizes a s')"
    using ok by (cases proc) (simp_all add: orderly_with_def)
  have "yields ((case proc of Some f \<Rightarrow> f inp s | None \<Rightarrow> Some (0, s)) \<bind>
      (\<lambda>(ret, s). if ret = 0 then Some s else fsm_good_nakrej cb i ret (s\<lparr>f_seen_ack := True\<rparr>))) (fsm_ok sizes a)"
    by (rule yields_bind [OF chk]) (auto intro!: fsm_good_nakrej_ok [OF q])
  then show ?thesis
    unfolding fsm_rconfnakrej_def proc_def [symmetric] using ok by (simp only: yields_Some split: if_split) blast
qed

lemma fsm_rtermreq_ok:
  assumes q: "orderly_callbacks sizes a cb" and ok: "fsm_ok sizes a s"
  shows "yields (fsm_rtermreq cb i s) (fsm_ok sizes a)"
proof -
  from ok obtain b where v: "view sizes a s (f_state s) b (f_retransmits s)" "waiting (f_state s) \<longrightarrow> b" by (rule fsm_okE)
  have down: "yields (call_opt (cb_down cb) s \<bind> (\<lambda>s. Some (s\<lparr>f_retransmits := 0, f_state := LS_STOPPING\<rparr>) \<bind> (\<lambda>s. TIMEOUT (f_timeouttime s) s)))
      (fsm_ok sizes a)"
  proof (rule yields_bind [OF call_opt_ok_view [OF orderlyD(3) [OF q] ok]], elim exE, simp only: Option.bind.bind_lunit)
    fix s1 st b' r assume "view sizes a s1 st b' r"
    then show "yields (TIMEOUT (f_timeouttime (s1\<lparr>f_retransmits := 0, f_state := LS_STOPPING\<rparr>)) (s1\<lparr>f_retransmits := 0, f_state := LS_STOPPING\<rparr>)) (fsm_ok sizes a)"
      by (intro yields_mono [OF TIMEOUT_view [OF view_state [OF view_retransmits]]]) (auto intro: view_ok)
  qed
  have reqs: "fsm_ok sizes a (s\<lparr>f_state := LS_REQSENT\<rparr>)" if "waiting (f_state s)"
    by (rule state_ok [OF v(1)]) (use v(2) that in simp)
  have "yields (if f_state s \<in> {LS_ACKRCVD, LS_ACKSENT} then Some (s\<lparr>f_state := LS_REQSENT\<rparr>)
          else if f_state s = LS_OPENED
          then call_opt (cb_down cb) s \<bind> (\<lambda>s. Some (s\<lparr>f_retransmits := 0, f_state := LS_STOPPING\<rparr>) \<bind> (\<lambda>s. TIMEOUT (f_timeouttime s) s))
          else Some s) (fsm_ok sizes a)"
    using down reqs ok by auto
  then show ?thesis unfolding fsm_rtermreq_def by (rule yields_bind) (rule fsm_sdata_ok)
qed

lemma fsm_rtermack_ok:
  assumes q: "orderly_callbacks sizes a cb" and ok: "fsm_ok sizes a s"
  shows "yields (fsm_rtermack cb s) (fsm_ok sizes a)"
proof -
  from ok obtain b where v: "view sizes a s (f_state s) b (f_retransmits s)" "waiting (f_state s) \<longrightarrow> b" by (rule fsm_okE)
  have down: "yields (call_opt (cb_down cb) s \<bind> fsm_sconfreq cb False) (fsm_ok sizes a)"
    by (rule yields_bind [OF call_opt_ok_view [OF orderlyD(3) [OF q] ok]], elim exE, rule yields_mono [OF fsm_sconfreq_ok [OF orderlyD(1) [OF q]]])
      (auto intro: view_ok)
  have reqs: "fsm_ok sizes a (s\<lparr>f_state := LS_REQSENT\<rparr>)" if "waiting (f_state s)"
    by (rule state_ok [OF v(1)]) (use v(2) that in simp)
  show ?thesis
    unfolding fsm_rtermack_def using ok down reqs untimeout_call_ok [OF orderlyD(5) [OF q] v(1)] by (cases "f_state s") auto
qed

lemma fsm_rcoderej_ok:
  assumes ok: "fsm_ok sizes a s"
  shows "yields (fsm_rcoderej inp s) (fsm_ok sizes a)"
proof -
  from ok obtain b where v: "view sizes a s (f_state s) b (f_retransmits s)" "waiting (f_state s) \<longrightarrow> b" by (rule fsm_okE)
  have "fsm_ok sizes a (s\<lparr>f_state := LS_REQSENT\<rparr>)" if "waiting (f_state s)"
    by (rule state_ok [OF v(1)]) (use v(2) that in simp)
  then show ?thesis using ok unfolding fsm_rcoderej_def by auto
qed

lemma fsm_protreject_ok:
  assumes q: "orderly_callbacks sizes a cb" and ok: "fsm_ok sizes a s"
  shows "yields (fsm_protreject cb s) (fsm_ok sizes a)"
proof -
  from ok obtain b where v: "view sizes a s (f_state s) b (f_retransmits s)" "waiting (f_state s) \<longrightarrow> b" by (rule fsm_okE)
  have down: "yields (call_opt (cb_down cb) s \<bind> (\<lambda>s. Some (s\<lparr>f_retransmits := f_maxtermtransmits s\<rparr>) \<bind> (\<lambda>s. send_termreq s \<bind>
      (\<lambda>s. Some (s\<lparr>f_state := LS_STOPPING\<rparr>))))) (fsm_ok sizes a)"
    by (rule yields_bind [OF call_opt_ok_view [OF orderlyD(3) [OF q] ok]], elim exE, rule termreq_state_ok)
  have fin: "yields (call_opt (cb_finished cb) (s\<lparr>f_state := st'\<rparr>)) (fsm_ok sizes a)" if "\<not> waiting st'" for st'
    by (rule call_opt_ok [OF orderlyD(5) [OF q] state_ok [OF v(1)]]) (use that in simp)
  show ?thesis
    unfolding fsm_protreject_def using ok down fin untimeout_call_ok [OF orderlyD(5) [OF q] v(1)]
    by (cases "f_state s") auto
qed

lemma fsm_input_ok:
  assumes q: "orderly_callbacks sizes a cb" and ok: "fsm_ok sizes a s"
  shows "yields (fsm_input cb inpacket s) (fsm_ok sizes a)"
proof (cases "fsm_header inpacket")
  case None
  then show ?thesis using ok by (simp add: fsm_input_def)
next
  case (Some h)
  obtain code i inp where h: "h = (code, i, inp)" by (cases h)
  have ext: "yields (case cb_extcode cb of Some ext \<Rightarrow> ext code i inp s | None \<Rightarrow> Some (False, s)) (\<lambda>(handled, s'). fsm_ok sizes a s')"
    using orderlyD(9) [OF q] ok by (cases "cb_extcode cb") (auto simp: orderly_with_def)
  have rej: "yields ((case cb_extcode cb of Some ext \<Rightarrow> ext code i inp s | None \<Rightarrow> Some (False, s)) \<bind> (\<lambda>(handled, s).
      if handled then Some s
      else let s = s\<lparr>f_id := f_id s + 1\<rparr> in fsm_sdata CODEREJ (f_id s) (take (length inp + HEADERLEN) inpacket) s)) (fsm_ok sizes a)"
    by (rule yields_bind [OF ext]) (auto simp: Let_def intro!: fsm_sdata_ok)
  show ?thesis
    unfolding fsm_input_def Some h
    using ok rej fsm_rconfreq_ok [OF q ok] fsm_rconfack_ok [OF q ok] fsm_rconfnakrej_ok [OF q ok]
      fsm_rtermreq_ok [OF q ok] fsm_rtermack_ok [OF q ok] fsm_rcoderej_ok [OF ok]
    by auto
qed


section \<open>Runs of the automaton\<close>

text \<open>
  The events: the lower layer comes up or goes down, the user opens or closes the link, the peer
  rejects the protocol, a packet arrives, the restart timer expires. An expired timer is out of the
  list when its handler runs.
\<close>

datatype fsm_event = Lowerup | Lowerdown | Open | Close "u8_t list option" | Protreject | Input "u8_t list" | Expire

definition fsm_expire :: "'a fsm_state_scheme fsm_callbacks \<Rightarrow> 'a fsm_state_scheme \<Rightarrow> 'a fsm_state_scheme option" where
  "fsm_expire cb s = do { s \<leftarrow> UNTIMEOUT s; fsm_timeout cb s }"

fun fsm_handle ::
  "'a fsm_state_scheme fsm_callbacks \<Rightarrow> fsm_event \<Rightarrow> 'a fsm_state_scheme \<Rightarrow> 'a fsm_state_scheme option" where
  "fsm_handle cb Lowerup s = fsm_lowerup cb s"
| "fsm_handle cb Lowerdown s = fsm_lowerdown cb s"
| "fsm_handle cb Open s = fsm_open cb s"
| "fsm_handle cb (Close reason) s = fsm_close cb reason s"
| "fsm_handle cb Protreject s = fsm_protreject cb s"
| "fsm_handle cb (Input inpacket) s = fsm_input cb inpacket s"
| "fsm_handle cb Expire s = fsm_expire cb s"

text \<open>The states reached from \<open>s0\<close> by a sequence of events.\<close>

inductive fsm_reaches ::
  "'a fsm_state_scheme fsm_callbacks \<Rightarrow> 'a fsm_state_scheme \<Rightarrow> fsm_event list \<Rightarrow> 'a fsm_state_scheme \<Rightarrow> bool"
  for cb s0 where
  start: "fsm_reaches cb s0 [] s0"
| event: "fsm_reaches cb s0 es s \<Longrightarrow> fsm_handle cb e s = Some s' \<Longrightarrow> fsm_reaches cb s0 (es @ [e]) s'"

lemma fsm_expire_ok:
  assumes q: "orderly_callbacks sizes a cb" and "view sizes a s st b r"
  shows "yields (fsm_expire cb s) (fsm_ok sizes a)"
  unfolding fsm_expire_def by (rule yields_bind [OF UNTIMEOUT_view [OF assms(2)]], rule fsm_timeout_ok [OF q])

lemma fsm_handle_ok:
  assumes q: "orderly_callbacks sizes a cb" and ok: "fsm_ok sizes a s"
  shows "yields (fsm_handle cb e s) (fsm_ok sizes a)"
proof -
  from ok obtain b where v: "view sizes a s (f_state s) b (f_retransmits s)" by (rule fsm_okE)
  show ?thesis
    using fsm_lowerup_ok [OF q ok] fsm_lowerdown_ok [OF q ok] fsm_open_ok [OF q ok] fsm_close_ok [OF q ok]
      fsm_protreject_ok [OF q ok] fsm_input_ok [OF q ok] fsm_expire_ok [OF q v]
    by (cases e) simp_all
qed

lemma fsm_reaches_ok:
  assumes "fsm_reaches cb s0 es s" "orderly_callbacks sizes a cb" "fsm_ok sizes a s0"
  shows "fsm_ok sizes a s"
  using assms
proof induction
  case (event es s e s')
  then show ?case using fsm_handle_ok [of sizes a cb s e] by (simp add: yields_def)
qed simp

lemma fsm_run_total:
  assumes q: "orderly_callbacks sizes a cb" and ok: "fsm_ok sizes a s0"
  shows "\<exists>s. fsm_reaches cb s0 es s \<and> fsm_ok sizes a s"
proof (induction es rule: rev_induct)
  case Nil
  then show ?case using ok fsm_reaches.start by blast
next
  case (snoc e es)
  then obtain s where s: "fsm_reaches cb s0 es s" "fsm_ok sizes a s" by blast
  from fsm_handle_ok [OF q s(2), of e] obtain s' where "fsm_handle cb e s = Some s'" "fsm_ok sizes a s'"
    by (rule yieldsE)
  then show ?case using fsm_reaches.event [OF s(1)] by blast
qed

text \<open>
  Timeouts alone: each one uses up a retransmission and starts the timer again, and the last one ends in \<^verbatim>\<open>LS_CLOSED\<close> or \<^verbatim>\<open>LS_STOPPED\<close>, where the layer
  below is told, unless the automaton is passive.
\<close>

definition rest_state :: "link_state \<Rightarrow> link_state" where
  "rest_state st = (if st = LS_CLOSING then LS_CLOSED else LS_STOPPED)"

definition gives_up :: "'a fsm_state_scheme fsm_callbacks \<Rightarrow> link_state \<Rightarrow> 'a fsm_state_scheme \<Rightarrow> 'a fsm_state_scheme option \<Rightarrow> bool" where
  "gives_up cb st t res \<longleftrightarrow> f_state t = rest_state st
     \<and> (res = call_opt (cb_finished cb) t \<or> st \<notin> {LS_CLOSING, LS_STOPPING} \<and> f_flags t AND OPT_PASSIVE \<noteq> 0 \<and> res = Some t)"

lemma fsm_expire_last:
  assumes v: "view sizes a s st b r" and w: "waiting st" and "r \<le> 0"
  shows "\<exists>t. gives_up cb st t (fsm_expire cb s) \<and> restart_timer sizes a t False"
proof -
  obtain s1 where s1: "UNTIMEOUT s = Some s1" "view sizes a s1 st False r"
    using UNTIMEOUT_view [OF v] by (rule yieldsE)
  then have st: "f_state s1 = st" "f_retransmits s1 = r" by (simp_all add: view_def)
  have t: "restart_timer sizes a (s1\<lparr>f_state := rest_state st\<rparr>) False"
    using view_state [OF s1(2), of "rest_state st"] by (simp add: view_def)
  moreover have "gives_up cb st (s1\<lparr>f_state := rest_state st\<rparr>) (fsm_expire cb s)"
    using w assms(3) s1(1) st unfolding fsm_expire_def gives_up_def fsm_timeout_def Let_def rest_state_def by (cases st) auto
  ultimately show ?thesis by blast
qed

lemma fsm_expire_again:
  fixes s :: "'a fsm_state_scheme"
  assumes q: "quiet_options cb" and v: "view sizes a s st b r" and w: "waiting st" and r: "\<not> r \<le> 0"
  shows "yields (fsm_expire cb s) (\<lambda>s'. \<exists>st'. waiting st' \<and> rest_state st' = rest_state st
    \<and> (st' \<in> {LS_CLOSING, LS_STOPPING} \<longleftrightarrow> st \<in> {LS_CLOSING, LS_STOPPING}) \<and> view sizes a s' st' True (r - 1))"
    (is "yields _ ?Q")
  unfolding fsm_expire_def
proof (rule yields_bind [OF UNTIMEOUT_view [OF v]])
  fix s1 :: "'a fsm_state_scheme" assume v1: "view sizes a s1 st False r"
  then have st: "f_state s1 = st" "f_retransmits s1 = r" by (simp_all add: view_def)
  have req: "yields (send_termreq s1) ?Q"
    by (rule yields_mono [OF send_termreq_view [OF v1]]) (use w in auto)
  have conf: "yields (call_opt (cb_retransmit cb) s1 \<bind> (\<lambda>s. fsm_sconfreq cb True s \<bind>
      (\<lambda>s. Some (if f_state s = LS_ACKRCVD then s\<lparr>f_state := LS_REQSENT\<rparr> else s)))) ?Q"
    if no: "st \<notin> {LS_CLOSING, LS_STOPPING}"
  proof (rule yields_bind [OF call_opt_view [OF quiet_optionsD(2) [OF q] v1]], rule yields_bind [OF fsm_sconfreq_view [OF q]])
    fix s2 s3 :: "'a fsm_state_scheme" assume "view sizes a s2 st False r" "\<exists>r'. view sizes a s3 st True r' \<and> (True \<longrightarrow> r' = r - 1)"
    then have v3: "view sizes a s3 st True (r - 1)" by auto
    have "?Q (s3\<lparr>f_state := LS_REQSENT\<rparr>)"
      using view_state [OF v3] no by (intro exI [of _ LS_REQSENT]) (auto simp: rest_state_def)
    then show "yields (Some (if f_state s3 = LS_ACKRCVD then s3\<lparr>f_state := LS_REQSENT\<rparr> else s3)) ?Q"
      using w v3 by auto
  qed
  show "yields (fsm_timeout cb s1) ?Q"
    unfolding fsm_timeout_def Let_def using w req conf st r by (cases st) auto
qed

fun expire_times :: "'a fsm_state_scheme fsm_callbacks \<Rightarrow> nat \<Rightarrow> 'a fsm_state_scheme \<Rightarrow> 'a fsm_state_scheme option" where
  "expire_times cb 0 s = Some s"
| "expire_times cb (Suc n) s = do { s \<leftarrow> fsm_expire cb s; expire_times cb n s }"

lemma expire_times_end:
  assumes q: "quiet_options cb" and "view sizes a s st True r" "waiting st"
  shows "(\<forall>k \<le> nat r. \<exists>t. expire_times cb k s = Some t \<and> waiting (f_state t) \<and> restart_timer sizes a t True)
    \<and> (\<exists>t. gives_up cb st t (expire_times cb (Suc (nat r)) s) \<and> restart_timer sizes a t False)"
  using assms(2,3)
proof (induction "nat r" arbitrary: s st r)
  case 0
  then have r: "r \<le> 0" by simp
  have "(m \<bind> expire_times cb 0) = m" for m by (cases m) simp_all
  then have "expire_times cb (Suc (nat r)) s = fsm_expire cb s" using 0(1) by simp
  then show ?case
    using fsm_expire_last [OF 0(2,3) r, of cb] 0 by (auto simp: view_def simp del: expire_times.simps(2))
next
  case (Suc n)
  then have r: "\<not> r \<le> 0" "n = nat (r - 1)" "nat r = Suc (nat (r - 1))" by simp_all
  from fsm_expire_again [OF q Suc(3,4) r(1)] obtain s1 st1 where s1: "fsm_expire cb s = Some s1" "waiting st1" "rest_state st1 = rest_state st"
      "st1 \<in> {LS_CLOSING, LS_STOPPING} \<longleftrightarrow> st \<in> {LS_CLOSING, LS_STOPPING}" "view sizes a s1 st1 True (r - 1)"
    by (auto elim!: yieldsE)
  note IH = Suc(1) [OF r(2) s1(5,2)]
  have "\<exists>t. expire_times cb k s = Some t \<and> waiting (f_state t) \<and> restart_timer sizes a t True" if "k \<le> nat r" for k
    using IH that r(3) s1(1) Suc(3,4) by (cases k) (auto simp: view_def)
  moreover have "expire_times cb (Suc (nat r)) s = expire_times cb (Suc (nat (r - 1))) s1" unfolding r(3) using s1(1) by simp
  moreover have "gives_up cb st t res = gives_up cb st1 t res" for t res using s1(3,4) by (simp add: gives_up_def)
  ultimately show ?case using IH by (simp del: expire_times.simps)
qed


section \<open>Packets\<close>

lemma GETSHORT_PUTSHORT: "n < 65536 \<Longrightarrow> GETSHORT (of_nat (n div 256)) (of_nat n) = n"
  by (simp add: GETSHORT_def unat_of_nat)

lemma fsm_header_packet:
  assumes "length data + HEADERLEN < 65536"
  shows "fsm_header ([code, i] @ PUTSHORT (length data + HEADERLEN) @ data @ junk) = Some (code, i, data)"
  using GETSHORT_PUTSHORT [OF assms] by (simp add: fsm_header_def PUTSHORT_def Let_def del: of_nat_add)

lemma fsm_sdata_packet:
  assumes "4 \<le> peer_mru s" "int (length data) + int HEADERLEN \<le> peer_mru s"
  shows "fsm_sdata code i data s = Some (s\<lparr>sent := sent s @ [[0xff, 0x03] @ PUTSHORT (unat (f_protocol s))
      @ [code, i] @ PUTSHORT (length data + HEADERLEN) @ data]\<rparr>)"
  using assms by (simp add: fsm_sdata_def Let_def)

section \<open>Properties\<close>

text \<open>
  C6. Whatever events occur in whatever order, no operation of the automaton aborts, and in every
  state in which it waits for its peer the restart timer is pending, so that it cannot wait for ever. The callbacks that build requests and answers leave the automaton and the
  timers alone; the others, which judge the peer's answers and report to other layers, may close or open the automaton again and set timers, as long as they keep the
  same invariant and leave room for one more timer.
\<close>

theorem fsm_never_stuck:
  assumes "orderly_callbacks sizes a cb" "restart_timer sizes a s0 False" "4 \<le> peer_mru s0" "f_state s0 = LS_INITIAL"
  shows "\<exists>s. fsm_reaches cb s0 es s \<and> (\<exists>b. restart_timer sizes a s b \<and> (waiting (f_state s) \<longrightarrow> b))"
proof -
  have "view sizes a s0 LS_INITIAL False (f_retransmits s0)" using assms(2-4) by (simp add: view_def)
  then have "fsm_ok sizes a s0" by (rule view_ok) simp
  from fsm_run_total [OF assms(1) this, of es] show ?thesis by (auto simp: fsm_ok_def view_def)
qed

definition cb0 :: "unit fsm_state_scheme fsm_callbacks" where
  "cb0 = \<lparr>cb_resetci = None, cb_cilen = None, cb_addci = None, cb_ackci = None, cb_nakci = None, cb_rejci = None,
     cb_reqci = None, cb_up = Some Some, cb_down = Some Some, cb_starting = None, cb_finished = None,
     cb_retransmit = None, cb_extcode = None\<rparr>"

definition fsm0 :: "unit fsm_state_scheme" where
  "fsm0 = \<lparr>next_timeout = NULL, timeouts_last_time = 0, timeos = (\<lambda>_. \<lparr>t_next = 0, t_time = 0, t_h = 0, t_arg = 0\<rparr>),
     timer_pools = pools0, f_addr = 64, f_protocol = 0xc021, f_state = LS_INITIAL, f_flags = 0, f_id = 0, f_reqid = 0,
     f_seen_ack = False, f_timeouttime = 6, f_maxconfreqtransmits = 10, f_retransmits = 2, f_maxtermtransmits = 2,
     f_nakloops = 0, f_maxnakloops = 5, f_term_reason = [], peer_mru = 1500, sent = [], \<dots> = ()\<rparr>"

lemma cb0_quiet: "quiet_options cb0" "orderly_callbacks sizes a cb0"
  by (simp_all add: orderly_callbacks_def quiet_options_def cb0_def quietly_def quietly_with_def orderly_def orderly_with_def)

text \<open>A protocol that closes the link as soon as it is up, as \<^verbatim>\<open>ipcp_up\<close> does when no address was negotiated.\<close>

definition cb_closing :: "unit fsm_state_scheme fsm_callbacks" where
  "cb_closing = cb0\<lparr>cb_up := Some (fsm_close cb0 None)\<rparr>"

lemma cb_closing_orderly: "orderly_callbacks sizes a cb_closing"
  using cb0_quiet(2) [of sizes a] fsm_close_ok [OF cb0_quiet(2)]
  by (simp add: orderly_callbacks_def quiet_options_def cb_closing_def orderly_def)

lemma fsm0_timer: "restart_timer sizes0 4 fsm0 False"
proof -
  have "timer_rep sizes0 4 fsm0 []"
    unfolding timer_rep_def timer_list_def using pools0_inv pools0_live [of 7]
    by (intro exI [of _ "[]"]) (simp add: fsm0_def)
  then show ?thesis unfolding restart_timer_def by (intro exI [of _ "[]"]) (simp add: memp_num_timeouts)
qed

theorem fsm_never_stuck_witness:
  "\<exists>s b. fsm_reaches cb_closing fsm0 [Open, Lowerup, Input [1, 1, 0, 4], Input [2, 1, 0, 4]] s
    \<and> restart_timer sizes0 4 s b \<and> (waiting (f_state s) \<longrightarrow> b)"
  using fsm_never_stuck [OF cb_closing_orderly fsm0_timer, of "[Open, Lowerup, Input [1, 1, 0, 4], Input [2, 1, 0, 4]]"] by (auto simp: fsm0_def)

text \<open>
  C35. When the peer is silent, the automaton gives up. From every state in which it waits with its restart timer pending, the timer is started again at
  each of as many expiries as there are retransmissions left; the next expiry brings the automaton to rest, in \<^verbatim>\<open>LS_CLOSED\<close> if it was closing and in
  \<^verbatim>\<open>LS_STOPPED\<close> otherwise, with no timer pending, and then the \<^verbatim>\<open>finished\<close> callback is called, unless the automaton was opening and is passive. Nothing
  is asked of that callback; those that build the request leave the automaton and the timers alone.
\<close>

theorem fsm_gives_up:
  assumes "quiet_options cb" "restart_timer sizes a s True" "4 \<le> peer_mru s" "waiting (f_state s)"
  defines "n \<equiv> nat (f_retransmits s)"
  shows "(\<forall>k \<le> n. \<exists>t. expire_times cb k s = Some t \<and> waiting (f_state t) \<and> restart_timer sizes a t True)
    \<and> (\<exists>t. f_state t = (if f_state s = LS_CLOSING then LS_CLOSED else LS_STOPPED) \<and> restart_timer sizes a t False
        \<and> (expire_times cb (Suc n) s = call_opt (cb_finished cb) t
           \<or> f_state s \<notin> {LS_CLOSING, LS_STOPPING} \<and> f_flags t AND OPT_PASSIVE \<noteq> 0 \<and> expire_times cb (Suc n) s = Some t))"
proof -
  have "view sizes a s (f_state s) True (f_retransmits s)" using assms(2,3) by (simp add: view_def)
  from expire_times_end [OF assms(1) this assms(4)] show ?thesis unfolding gives_up_def rest_state_def n_def by blast
qed

lemma fsm0_pending:
  obtains s :: "unit fsm_state_scheme" where "restart_timer sizes0 4 s True" "f_state s = LS_REQSENT" "4 \<le> peer_mru s" "f_retransmits s = 2"
proof -
  have "restart_timer sizes0 4 (fsm0\<lparr>f_state := LS_REQSENT\<rparr>) False"
    using fsm0_timer restart_timer_cong [of "fsm0\<lparr>f_state := LS_REQSENT\<rparr>" fsm0 sizes0 4 False] by simp
  then have "view sizes0 4 (fsm0\<lparr>f_state := LS_REQSENT\<rparr>) LS_REQSENT False 2" by (simp add: view_def fsm0_def)
  from TIMEOUT_view [OF this, of 6] obtain s :: "unit fsm_state_scheme" where "view sizes0 4 s LS_REQSENT True 2" by (rule yieldsE)
  then show thesis by (intro that [of s]) (simp_all add: view_def)
qed

theorem fsm_gives_up_witness:
  "\<exists>s t. restart_timer sizes0 4 s True \<and> f_state s = LS_REQSENT \<and> expire_times cb0 3 s = Some t \<and> f_state t = LS_STOPPED
    \<and> restart_timer sizes0 4 t False"
proof -
  obtain s :: "unit fsm_state_scheme" where s: "restart_timer sizes0 4 s True" "f_state s = LS_REQSENT" "4 \<le> peer_mru s" "f_retransmits s = 2" by (rule fsm0_pending)
  have fin: "call_opt (cb_finished cb0) t = Some t" for t by (simp add: call_opt_def cb0_def)
  have three: "Suc (nat 2) = 3" by simp
  have w: "waiting (f_state s)" by (simp add: s(2))
  from fsm_gives_up [OF cb0_quiet(1) s(1,3) w] show ?thesis unfolding s(2,4) fin three
    using s(1,2) by (auto simp del: expire_times.simps)
qed

text \<open>
  A packet whose header is incomplete, whose length field is below the header size or exceeds the
  packet, is dropped: \<^verbatim>\<open>fsm_input\<close> changes nothing. So is every packet while the link has not come up.
\<close>

theorem fsm_input_drops:
  assumes "length inpacket < HEADERLEN \<or> GETSHORT (inpacket ! 2) (inpacket ! 3) < HEADERLEN
      \<or> length inpacket < GETSHORT (inpacket ! 2) (inpacket ! 3) \<or> f_state s \<in> {LS_INITIAL, LS_STARTING}"
  shows "fsm_input cb inpacket s = Some s"
proof (cases "fsm_header inpacket")
  case (Some h)
  then obtain code i hi lo inp where "inpacket = code # i # hi # lo # inp"
    "\<not> GETSHORT hi lo < HEADERLEN" "\<not> GETSHORT hi lo > length inpacket"
    unfolding fsm_header_def Let_def by (auto split: list.splits if_splits)
  then have "f_state s \<in> {LS_INITIAL, LS_STARTING}" using assms by auto
  then show ?thesis using Some by (cases h) (auto simp: fsm_input_def)
qed (simp add: fsm_input_def)

theorem fsm_input_drops_witness: "fsm_input cb0 [1, 1, 0, 9, 0] (fsm0\<lparr>f_state := LS_OPENED\<rparr>) = Some (fsm0\<lparr>f_state := LS_OPENED\<rparr>)"
  using fsm_input_drops [of "[1, 1, 0, 9, 0]" "fsm0\<lparr>f_state := LS_OPENED\<rparr>" cb0] by (simp add: GETSHORT_def)

text \<open>
  A packet that \<^verbatim>\<open>fsm_sdata\<close> sends carries the PPP header of its protocol, and \<^verbatim>\<open>fsm_input\<close> at the other
  end reads the same code, identifier and data from it; no packet is longer than the peer's MRU and
  the PPP header allow.
\<close>

theorem fsm_packet_roundtrip:
  assumes "4 \<le> peer_mru s" "int (length data) + int HEADERLEN \<le> peer_mru s" "peer_mru s < 65536"
  shows "\<exists>packet. fsm_sdata code i data s = Some (s\<lparr>sent := sent s @ [packet]\<rparr>)
    \<and> take PPP_HDRLEN packet = [0xff, 0x03] @ PUTSHORT (unat (f_protocol s))
    \<and> fsm_header (drop PPP_HDRLEN packet) = Some (code, i, data)
    \<and> int (length packet) \<le> peer_mru s + int PPP_HDRLEN"
proof -
  have "length data + HEADERLEN < 65536" using assms(2,3) by linarith
  from fsm_header_packet [OF this, of code i "[]"] show ?thesis
    using assms(2) unfolding fsm_sdata_packet [OF assms(1,2)] by (auto simp: PUTSHORT_def)
qed

theorem fsm_packet_roundtrip_witness:
  "\<exists>packet. fsm_sdata 1 7 [0x05, 0x06] fsm0 = Some (fsm0\<lparr>sent := [packet]\<rparr>) \<and> fsm_header (drop 4 packet) = Some (1, 7, [0x05, 0x06])"
proof -
  have "4 \<le> peer_mru fsm0" "int (length [0x05, 0x06 :: u8_t]) + int HEADERLEN \<le> peer_mru fsm0" "peer_mru fsm0 < 65536" "sent fsm0 = []"
    by (simp_all add: fsm0_def)
  then show ?thesis using fsm_packet_roundtrip [of fsm0 "[0x05, 0x06]" 1 7] by auto
qed

text \<open>
  A Terminate-Ack that arrives while the link is open tells the upper layers that the link is down, starts a
  new negotiation and leaves the automaton in \<^verbatim>\<open>LS_OPENED\<close>, where the restart timer is ignored; RFC 1661
  asks for \<^verbatim>\<open>Req-Sent\<close>.
\<close>

lemma rtermack_stays_open:
  assumes q: "quiet_options cb" "quietly (cb_down cb)" and "view sizes a s LS_OPENED b r"
  shows "yields (fsm_rtermack cb s) (\<lambda>s'. f_state s' = LS_OPENED \<and> restart_timer sizes a s' True)"
proof -
  have st: "f_state s = LS_OPENED" using assms(3) by (simp add: view_def)
  have "yields (call_opt (cb_down cb) s \<bind> fsm_sconfreq cb False) (\<lambda>s'. f_state s' = LS_OPENED \<and> restart_timer sizes a s' True)"
    by (rule yields_bind [OF call_opt_view [OF q(2) assms(3)]], rule yields_mono [OF fsm_sconfreq_ok [OF q(1)]])
      (auto simp: view_def)
  then show ?thesis by (simp add: fsm_rtermack_def st)
qed

end
