(* ===== verification/Pbuf.thy ===== *)
theory Pbuf
  imports Memp
begin

text \<open>
  The packet buffers of \<^verbatim>\<open>core/pbuf.c\<close>. The state holds the \<open>struct pbuf\<close> found at each address,
  the bytes of memory the payload pointers refer to, the heap of \<^verbatim>\<open>mem.c\<close> and the pools of
  \<^verbatim>\<open>memp.c\<close>. Structs, payload bytes and the free lists are separate views of memory: no operation
  of the file reads one through another. A failed \<^verbatim>\<open>LWIP_ASSERT\<close> or \<^verbatim>\<open>LWIP_ERROR\<close> (both abort in
  this port), a null pointer followed, and a loop that does not end are \<open>None\<close>.

  16-bit fields are natural numbers, stored back through \<open>to_u16\<close> wherever C assigns them.
\<close>

section \<open>Data\<close>

datatype err_t =
  ERR_OK | ERR_MEM | ERR_BUF | ERR_TIMEOUT | ERR_RTE | ERR_INPROGRESS | ERR_VAL | ERR_WOULDBLOCK
| ERR_USE | ERR_ISCONN | ERR_ABRT | ERR_RST | ERR_CLSD | ERR_CONN | ERR_ARG | ERR_IF

datatype pbuf_layer = PBUF_TRANSPORT | PBUF_IP | PBUF_LINK | PBUF_RAW

datatype pbuf_type = PBUF_RAM | PBUF_ROM | PBUF_REF | PBUF_POOL

record pbuf =
  pb_next :: addr
  pb_payload :: addr
  pb_tot_len :: nat
  pb_len :: nat
  pb_type :: pbuf_type
  pb_flags :: u8_t
  pb_ref :: nat

record pbuf_state =
  pbufs :: "addr \<Rightarrow> pbuf"
  bytes :: "addr \<Rightarrow> u8_t"
  heap :: mem_state
  pools :: memp_state
  pbuf_free_ooseq_pending :: bool

abbreviation (input) PBUF_FLAG_IS_CUSTOM :: u8_t where "PBUF_FLAG_IS_CUSTOM \<equiv> 0x02"
abbreviation (input) SIZEOF_STRUCT_PBUF :: nat where "SIZEOF_STRUCT_PBUF \<equiv> 24"
abbreviation (input) PBUF_POOL_BUFSIZE_ALIGNED :: nat where "PBUF_POOL_BUFSIZE_ALIGNED \<equiv> 592"

abbreviation nxt :: "pbuf_state \<Rightarrow> addr \<Rightarrow> addr" where "nxt s p \<equiv> pb_next (pbufs s p)"
abbreviation payload :: "pbuf_state \<Rightarrow> addr \<Rightarrow> addr" where "payload s p \<equiv> pb_payload (pbufs s p)"
abbreviation tot_len :: "pbuf_state \<Rightarrow> addr \<Rightarrow> nat" where "tot_len s p \<equiv> pb_tot_len (pbufs s p)"
abbreviation len :: "pbuf_state \<Rightarrow> addr \<Rightarrow> nat" where "len s p \<equiv> pb_len (pbufs s p)"
abbreviation ref :: "pbuf_state \<Rightarrow> addr \<Rightarrow> nat" where "ref s p \<equiv> pb_ref (pbufs s p)"

text \<open>Assignment to the fields of one struct, and \<^verbatim>\<open>MEMCPY\<close>.\<close>

definition upd :: "addr \<Rightarrow> (pbuf \<Rightarrow> pbuf) \<Rightarrow> pbuf_state \<Rightarrow> pbuf_state" where
  "upd p f s = s\<lparr>pbufs := (pbufs s)(p := f (pbufs s p))\<rparr>"

definition MEMCPY :: "addr \<Rightarrow> addr \<Rightarrow> nat \<Rightarrow> (addr \<Rightarrow> u8_t) \<Rightarrow> addr \<Rightarrow> u8_t" where
  "MEMCPY dst src n b = (\<lambda>a. if dst \<le> a \<and> a < dst + n then b (src + (a - dst)) else b a)"

section \<open>Reference counts and freeing\<close>

text \<open>
  The loop of \<^verbatim>\<open>pbuf_free\<close>. \<open>cf\<close> stands for the \<^verbatim>\<open>custom_free_function\<close> found behind a custom pbuf;
  it is \<open>None\<close> when that pointer is null.
\<close>

definition pbuf_dealloc ::
  "(addr \<Rightarrow> pbuf_state \<Rightarrow> pbuf_state option) \<Rightarrow> addr \<Rightarrow> pbuf_state \<Rightarrow> pbuf_state option" where
  "pbuf_dealloc cf p s =
     (if pb_flags (pbufs s p) AND PBUF_FLAG_IS_CUSTOM \<noteq> 0 then cf p s
      else case pb_type (pbufs s p) of
        PBUF_POOL \<Rightarrow> map_option (\<lambda>m. s\<lparr>pools := m\<rparr>) (memp_free MEMP_PBUF_POOL p (pools s))
      | PBUF_ROM \<Rightarrow> map_option (\<lambda>m. s\<lparr>pools := m\<rparr>) (memp_free MEMP_PBUF p (pools s))
      | PBUF_REF \<Rightarrow> map_option (\<lambda>m. s\<lparr>pools := m\<rparr>) (memp_free MEMP_PBUF p (pools s))
      | PBUF_RAM \<Rightarrow> map_option (\<lambda>m. s\<lparr>heap := m\<rparr>) (mem_free p (heap s)))"

partial_function (option) pbuf_free_loop ::
  "(addr \<Rightarrow> pbuf_state \<Rightarrow> pbuf_state option) \<Rightarrow> addr \<Rightarrow> nat \<Rightarrow> pbuf_state \<Rightarrow> (nat \<times> pbuf_state) option" where
  "pbuf_free_loop cf p count s =
     (if p = NULL then Some (count, s)
      else if \<not> ref s p > 0 then None
      else
        let r = to_u16 (ref s p - 1);
            s = upd p (\<lambda>x. x\<lparr>pb_ref := r\<rparr>) s
        in if r = 0
           then let q = nxt s p
                in case pbuf_dealloc cf p s of
                     None \<Rightarrow> None
                   | Some s' \<Rightarrow> pbuf_free_loop cf q (to_u8 (count + 1)) s'
           else Some (count, s))"

definition pbuf_free ::
  "(addr \<Rightarrow> pbuf_state \<Rightarrow> pbuf_state option) \<Rightarrow> addr \<Rightarrow> pbuf_state \<Rightarrow> (nat \<times> pbuf_state) option" where
  "pbuf_free cf p s = (if p = NULL then None else pbuf_free_loop cf p 0 s)"

definition pbuf_ref :: "addr \<Rightarrow> pbuf_state \<Rightarrow> pbuf_state" where
  "pbuf_ref p s = (if p \<noteq> NULL then upd p (\<lambda>x. x\<lparr>pb_ref := to_u16 (pb_ref x + 1)\<rparr>) s else s)"

partial_function (option) pbuf_clen_loop :: "pbuf_state \<Rightarrow> addr \<Rightarrow> nat \<Rightarrow> nat option" where
  "pbuf_clen_loop s p n = (if p \<noteq> NULL then pbuf_clen_loop s (nxt s p) (to_u8 (n + 1)) else Some n)"

definition pbuf_clen :: "addr \<Rightarrow> pbuf_state \<Rightarrow> nat option" where
  "pbuf_clen p s = pbuf_clen_loop s p 0"

section \<open>Allocation\<close>

definition layer_offset :: "pbuf_layer \<Rightarrow> nat" where
  "layer_offset l = (case l of PBUF_TRANSPORT \<Rightarrow> 14 + 20 + 20 | PBUF_IP \<Rightarrow> 14 + 20 | PBUF_LINK \<Rightarrow> 14 | PBUF_RAW \<Rightarrow> 0)"

text \<open>In the \<^verbatim>\<open>NO_SYS\<close> build \<^verbatim>\<open>pbuf_pool_is_empty\<close> only leaves a note for the main loop.\<close>

definition pbuf_pool_is_empty :: "pbuf_state \<Rightarrow> pbuf_state" where
  "pbuf_pool_is_empty s = s\<lparr>pbuf_free_ooseq_pending := True\<rparr>"

text \<open>
  The loop that allocates the tail of a pool chain: \<open>p\<close> is the head, \<open>r\<close> the last pbuf so far,
  \<open>rem_len\<close> what is still to be allocated. The result is false when the pool ran out.
\<close>

function pbuf_pool_tail ::
  "(addr \<Rightarrow> pbuf_state \<Rightarrow> pbuf_state option) \<Rightarrow> addr \<Rightarrow> addr \<Rightarrow> nat \<Rightarrow> pbuf_state \<Rightarrow> (bool \<times> pbuf_state) option" where
  "pbuf_pool_tail cf p r rem_len s =
     (if \<not> rem_len > 0 then Some (True, s)
      else case memp_malloc MEMP_PBUF_POOL (pools s) of
        None \<Rightarrow> None
      | Some (q, m) \<Rightarrow>
          let s = s\<lparr>pools := m\<rparr>
          in if q = NULL
             then map_option (\<lambda>(_, s). (False, s)) (pbuf_free cf p (pbuf_pool_is_empty s))
             else
               let s = upd q (\<lambda>x. x\<lparr>pb_type := PBUF_POOL, pb_flags := 0, pb_next := NULL\<rparr>) s;
                   s = upd r (\<lambda>x. x\<lparr>pb_next := q\<rparr>) s
               in if \<not> rem_len < 0xffff then None
                  else
                    let s = upd q (\<lambda>x. x\<lparr>pb_tot_len := to_u16 rem_len,
                                         pb_len := min (to_u16 rem_len) PBUF_POOL_BUFSIZE_ALIGNED,
                                         pb_payload := q + SIZEOF_STRUCT_PBUF\<rparr>) s
                    in if \<not> payload s q mod MEM_ALIGNMENT = 0
                          \<or> \<not> payload s p + len s p \<le> p + SIZEOF_STRUCT_PBUF + PBUF_POOL_BUFSIZE_ALIGNED
                       then None
                       else pbuf_pool_tail cf p q (rem_len - min (to_u16 rem_len) PBUF_POOL_BUFSIZE_ALIGNED)
                              (upd q (\<lambda>x. x\<lparr>pb_ref := 1\<rparr>) s))"
  by pat_completeness auto
termination
  by (relation "measure (\<lambda>(cf, p, r, rem_len, s). rem_len)") (auto simp: to_u16_def)

declare pbuf_pool_tail.simps [simp del]

definition pbuf_alloc ::
  "(addr \<Rightarrow> pbuf_state \<Rightarrow> pbuf_state option) \<Rightarrow> pbuf_layer \<Rightarrow> nat \<Rightarrow> pbuf_type \<Rightarrow> pbuf_state \<Rightarrow>
   (addr \<times> pbuf_state) option" where
  "pbuf_alloc cf layer plen type s =
     (let offset = layer_offset layer;
          finish = (\<lambda>p s. Some (p, upd p (\<lambda>x. x\<lparr>pb_ref := 1, pb_flags := 0\<rparr>) s))
      in case type of
        PBUF_POOL \<Rightarrow>
          (case memp_malloc MEMP_PBUF_POOL (pools s) of
             None \<Rightarrow> None
           | Some (p, m) \<Rightarrow>
               let s = s\<lparr>pools := m\<rparr>
               in if p = NULL then Some (NULL, pbuf_pool_is_empty s)
                  else
                    let s = upd p (\<lambda>x. x\<lparr>pb_type := type, pb_next := NULL,
                              pb_payload := LWIP_MEM_ALIGN_SIZE (p + (SIZEOF_STRUCT_PBUF + offset))\<rparr>) s
                    in if \<not> payload s p mod MEM_ALIGNMENT = 0 then None
                       else
                         let s = upd p (\<lambda>x. x\<lparr>pb_tot_len := plen,
                                   pb_len := min plen (PBUF_POOL_BUFSIZE_ALIGNED - LWIP_MEM_ALIGN_SIZE offset)\<rparr>) s
                         in if \<not> payload s p + len s p \<le> p + SIZEOF_STRUCT_PBUF + PBUF_POOL_BUFSIZE_ALIGNED
                               \<or> \<not> PBUF_POOL_BUFSIZE_ALIGNED - LWIP_MEM_ALIGN_SIZE offset > 0
                            then None
                            else
                              let s = upd p (\<lambda>x. x\<lparr>pb_ref := 1\<rparr>) s
                              in case pbuf_pool_tail cf p p (plen - len s p) s of
                                   None \<Rightarrow> None
                                 | Some (ok, s) \<Rightarrow> if ok then finish p s else Some (NULL, s))
      | PBUF_RAM \<Rightarrow>
          (case mem_malloc (to_u16 (LWIP_MEM_ALIGN_SIZE (SIZEOF_STRUCT_PBUF + offset) + LWIP_MEM_ALIGN_SIZE plen))
                  (heap s) of
             None \<Rightarrow> None
           | Some (p, m) \<Rightarrow>
               let s = s\<lparr>heap := m\<rparr>
               in if p = NULL then Some (NULL, s)
                  else
                    let s = upd p (\<lambda>x. x\<lparr>pb_payload := LWIP_MEM_ALIGN_SIZE (p + SIZEOF_STRUCT_PBUF + offset),
                              pb_tot_len := plen, pb_len := plen, pb_next := NULL, pb_type := type\<rparr>) s
                    in if \<not> payload s p mod MEM_ALIGNMENT = 0 then None else finish p s)
      | _ \<Rightarrow>
          (case memp_malloc MEMP_PBUF (pools s) of
             None \<Rightarrow> None
           | Some (p, m) \<Rightarrow>
               let s = s\<lparr>pools := m\<rparr>
               in if p = NULL then Some (NULL, s)
                  else finish p (upd p (\<lambda>x. x\<lparr>pb_payload := NULL, pb_tot_len := plen, pb_len := plen,
                                           pb_next := NULL, pb_type := type\<rparr>) s)))"

definition pbuf_alloced_custom ::
  "pbuf_layer \<Rightarrow> nat \<Rightarrow> pbuf_type \<Rightarrow> addr \<Rightarrow> addr \<Rightarrow> nat \<Rightarrow> pbuf_state \<Rightarrow> addr \<times> pbuf_state" where
  "pbuf_alloced_custom l plen type p payload_mem payload_mem_len s =
     (let offset = layer_offset l
      in if LWIP_MEM_ALIGN_SIZE offset + plen > payload_mem_len then (NULL, s)
         else (p, upd p (\<lambda>x. x\<lparr>pb_next := NULL,
                    pb_payload := (if payload_mem \<noteq> NULL then payload_mem + LWIP_MEM_ALIGN_SIZE offset else NULL),
                    pb_flags := PBUF_FLAG_IS_CUSTOM, pb_tot_len := plen, pb_len := plen,
                    pb_type := type, pb_ref := 1\<rparr>) s))"

section \<open>Lengths and headers\<close>

text \<open>The loop of \<^verbatim>\<open>pbuf_realloc\<close> over the pbufs that stay; \<open>shrink\<close> is the amount \<^verbatim>\<open>-grow\<close>.\<close>

partial_function (option) pbuf_realloc_loop ::
  "nat \<Rightarrow> addr \<Rightarrow> nat \<Rightarrow> pbuf_state \<Rightarrow> (addr \<times> nat \<times> pbuf_state) option" where
  "pbuf_realloc_loop shrink q rem_len s =
     (if rem_len > len s q
      then let r = rem_len - len s q;
               s = upd q (\<lambda>x. x\<lparr>pb_tot_len := to_u16 (pb_tot_len x + 65536 - shrink)\<rparr>) s;
               q = nxt s q
           in if q = NULL then None else pbuf_realloc_loop shrink q r s
      else Some (q, rem_len, s))"

definition pbuf_realloc ::
  "(addr \<Rightarrow> pbuf_state \<Rightarrow> pbuf_state option) \<Rightarrow> addr \<Rightarrow> nat \<Rightarrow> pbuf_state \<Rightarrow> pbuf_state option" where
  "pbuf_realloc cf p new_len s =
     (if p = NULL then None
      else if new_len \<ge> tot_len s p then Some s
      else
        case pbuf_realloc_loop (tot_len s p - new_len) p new_len s of
          None \<Rightarrow> None
        | Some (q, rem_len, s) \<Rightarrow>
            (case (if pb_type (pbufs s q) = PBUF_RAM \<and> rem_len \<noteq> len s q
                   then map_option (\<lambda>(q, m). (q, s\<lparr>heap := m\<rparr>))
                          (mem_trim q (to_u16 (to_u16 (payload s q - q) + rem_len)) (heap s))
                   else Some (q, s)) of
               None \<Rightarrow> None
             | Some (q, s) \<Rightarrow>
                 if q = NULL then None
                 else
                   let s = upd q (\<lambda>x. x\<lparr>pb_len := rem_len, pb_tot_len := rem_len\<rparr>) s
                   in case (if nxt s q \<noteq> NULL then map_option snd (pbuf_free cf (nxt s q) s) else Some s) of
                        None \<Rightarrow> None
                      | Some s \<Rightarrow> Some (upd q (\<lambda>x. x\<lparr>pb_next := NULL\<rparr>) s)))"

text \<open>\<^verbatim>\<open>pbuf_header\<close>: the increment is a signed 16-bit number; the result is 0 for success.\<close>

definition pbuf_header :: "addr \<Rightarrow> int \<Rightarrow> pbuf_state \<Rightarrow> (nat \<times> pbuf_state) option" where
  "pbuf_header p inc s =
     (if p = NULL then None
      else if inc = 0 then Some (0, s)
      else if inc < 0 \<and> \<not> nat (- inc) \<le> len s p then None
      else
        let pl = int (payload s p) - inc;
            adjust = (\<lambda>s. upd p (\<lambda>x. x\<lparr>pb_payload := nat pl,
                pb_len := nat ((int (pb_len x) + inc) mod 65536),
                pb_tot_len := nat ((int (pb_tot_len x) + inc) mod 65536)\<rparr>) s)
        in if pb_type (pbufs s p) = PBUF_RAM \<or> pb_type (pbufs s p) = PBUF_POOL
           then if pl < int (p + SIZEOF_STRUCT_PBUF) then Some (1, s) else Some (0, adjust s)
           else if inc < 0 \<and> nat (- inc) \<le> len s p then Some (0, adjust s) else Some (1, s))"

section \<open>Chains\<close>

text \<open>The loop of \<^verbatim>\<open>pbuf_cat\<close>: add the length of \<open>t\<close> to all but the last pbuf and find the last.\<close>

partial_function (option) pbuf_cat_loop :: "addr \<Rightarrow> addr \<Rightarrow> pbuf_state \<Rightarrow> (addr \<times> pbuf_state) option" where
  "pbuf_cat_loop t p s =
     (if nxt s p \<noteq> NULL
      then let s = upd p (\<lambda>x. x\<lparr>pb_tot_len := to_u16 (pb_tot_len x + tot_len s t)\<rparr>) s
           in pbuf_cat_loop t (nxt s p) s
      else Some (p, s))"

definition pbuf_cat :: "addr \<Rightarrow> addr \<Rightarrow> pbuf_state \<Rightarrow> pbuf_state option" where
  "pbuf_cat h t s =
     (if \<not> (h \<noteq> NULL \<and> t \<noteq> NULL) then None
      else case pbuf_cat_loop t h s of
        None \<Rightarrow> None
      | Some (p, s) \<Rightarrow>
          if tot_len s p \<noteq> len s p then None
          else
            let s = upd p (\<lambda>x. x\<lparr>pb_tot_len := to_u16 (pb_tot_len x + tot_len s t)\<rparr>) s
            in Some (upd p (\<lambda>x. x\<lparr>pb_next := t\<rparr>) s))"

definition pbuf_chain :: "addr \<Rightarrow> addr \<Rightarrow> pbuf_state \<Rightarrow> pbuf_state option" where
  "pbuf_chain h t s = map_option (pbuf_ref t) (pbuf_cat h t s)"

definition pbuf_dechain ::
  "(addr \<Rightarrow> pbuf_state \<Rightarrow> pbuf_state option) \<Rightarrow> addr \<Rightarrow> pbuf_state \<Rightarrow> (addr \<times> pbuf_state) option" where
  "pbuf_dechain cf p s =
     (if p = NULL then None
      else
        let q = nxt s p
        in case (if q \<noteq> NULL
                 then if int (tot_len s q) \<noteq> int (tot_len s p) - int (len s p) then None
                      else
                        let s = upd q (\<lambda>x. x\<lparr>pb_tot_len := tot_len s p - len s p\<rparr>) s;
                            s = upd p (\<lambda>x. x\<lparr>pb_next := NULL, pb_tot_len := pb_len x\<rparr>) s
                        in pbuf_free cf q s
                 else Some (1, s)) of
             None \<Rightarrow> None
           | Some (tail_gone, s) \<Rightarrow>
               if tot_len s p \<noteq> len s p then None
               else Some (if tail_gone > 0 then NULL else q, s))"

section \<open>Copying\<close>

partial_function (option) pbuf_copy_loop ::
  "addr \<Rightarrow> addr \<Rightarrow> nat \<Rightarrow> nat \<Rightarrow> pbuf_state \<Rightarrow> pbuf_state option" where
  "pbuf_copy_loop p_to p_from offset_to offset_from s =
     (let n = (if len s p_to - offset_to \<ge> len s p_from - offset_from
               then len s p_from - offset_from else len s p_to - offset_to);
          s = s\<lparr>bytes := MEMCPY (payload s p_to + offset_to) (payload s p_from + offset_from) n (bytes s)\<rparr>;
          offset_to = offset_to + n;
          offset_from = offset_from + n
      in if \<not> offset_to \<le> len s p_to \<or> \<not> offset_from \<le> len s p_from then None
         else
           let (offset_from, p_from) = (if offset_from \<ge> len s p_from then (0, nxt s p_from) else (offset_from, p_from));
               (offset_to, p_to') = (if offset_to = len s p_to then (0, nxt s p_to) else (offset_to, p_to))
           in if p_to' = NULL \<and> p_from \<noteq> NULL then None
              else if p_from \<noteq> NULL \<and> len s p_from = tot_len s p_from \<and> nxt s p_from \<noteq> NULL then None
              else if p_to' \<noteq> NULL \<and> len s p_to' = tot_len s p_to' \<and> nxt s p_to' \<noteq> NULL then None
              else if p_from \<noteq> NULL then pbuf_copy_loop p_to' p_from offset_to offset_from s
              else Some s)"

definition pbuf_copy :: "addr \<Rightarrow> addr \<Rightarrow> pbuf_state \<Rightarrow> (err_t \<times> pbuf_state) option" where
  "pbuf_copy p_to p_from s =
     (if \<not> (p_to \<noteq> NULL \<and> p_from \<noteq> NULL \<and> tot_len s p_to \<ge> tot_len s p_from) then None
      else map_option (\<lambda>s. (ERR_OK, s)) (pbuf_copy_loop p_to p_from 0 0 s))"

partial_function (option) pbuf_copy_partial_loop ::
  "addr \<Rightarrow> addr \<Rightarrow> nat \<Rightarrow> nat \<Rightarrow> nat \<Rightarrow> nat \<Rightarrow> pbuf_state \<Rightarrow> (nat \<times> pbuf_state) option" where
  "pbuf_copy_partial_loop p dataptr n offset left copied_total s =
     (if n \<noteq> 0 \<and> p \<noteq> NULL
      then if offset \<noteq> 0 \<and> offset \<ge> len s p
           then pbuf_copy_partial_loop (nxt s p) dataptr n (offset - len s p) left copied_total s
           else
             let k = (if len s p - offset > n then n else len s p - offset);
                 s = s\<lparr>bytes := MEMCPY (dataptr + left) (payload s p + offset) k (bytes s)\<rparr>
             in pbuf_copy_partial_loop (nxt s p) dataptr (n - k) 0 (to_u16 (left + k)) (to_u16 (copied_total + k)) s
      else Some (copied_total, s))"

definition pbuf_copy_partial :: "addr \<Rightarrow> addr \<Rightarrow> nat \<Rightarrow> nat \<Rightarrow> pbuf_state \<Rightarrow> (nat \<times> pbuf_state) option" where
  "pbuf_copy_partial buf dataptr n offset s =
     (if buf = NULL \<or> dataptr = NULL then None
      else pbuf_copy_partial_loop buf dataptr n offset 0 0 s)"

partial_function (option) pbuf_take_loop ::
  "addr \<Rightarrow> addr \<Rightarrow> nat \<Rightarrow> nat \<Rightarrow> pbuf_state \<Rightarrow> pbuf_state option" where
  "pbuf_take_loop p dataptr total_copy_len copied_total s =
     (if total_copy_len \<noteq> 0
      then if p = NULL then None
           else
             let k = (if total_copy_len > len s p then len s p else total_copy_len);
                 s = s\<lparr>bytes := MEMCPY (payload s p) (dataptr + copied_total) k (bytes s)\<rparr>
             in pbuf_take_loop (nxt s p) dataptr (total_copy_len - k) (to_u16 (copied_total + k)) s
      else Some s)"

definition pbuf_take :: "addr \<Rightarrow> addr \<Rightarrow> nat \<Rightarrow> pbuf_state \<Rightarrow> (err_t \<times> pbuf_state) option" where
  "pbuf_take buf dataptr n s =
     (if buf = NULL \<or> dataptr = NULL then None
      else if tot_len s buf < n then Some (ERR_ARG, s)
      else map_option (\<lambda>s. (ERR_OK, s)) (pbuf_take_loop buf dataptr n 0 s))"

definition pbuf_coalesce ::
  "(addr \<Rightarrow> pbuf_state \<Rightarrow> pbuf_state option) \<Rightarrow> addr \<Rightarrow> pbuf_layer \<Rightarrow> pbuf_state \<Rightarrow> (addr \<times> pbuf_state) option" where
  "pbuf_coalesce cf p layer s =
     (if p = NULL then None
      else if nxt s p = NULL then Some (p, s)
      else case pbuf_alloc cf layer (tot_len s p) PBUF_RAM s of
        None \<Rightarrow> None
      | Some (q, s) \<Rightarrow>
          if q = NULL then Some (p, s)
          else case pbuf_copy q p s of
            None \<Rightarrow> None
          | Some (err, s) \<Rightarrow>
              if err \<noteq> ERR_OK then None
              else map_option (\<lambda>(_, s). (q, s)) (pbuf_free cf p s))"

section \<open>Reading and searching\<close>

text \<open>The loop that \<^verbatim>\<open>pbuf_get_at\<close> and \<^verbatim>\<open>pbuf_memcmp\<close> share: find the pbuf that holds an offset.\<close>

partial_function (option) pbuf_skip :: "pbuf_state \<Rightarrow> addr \<Rightarrow> nat \<Rightarrow> (addr \<times> nat) option" where
  "pbuf_skip s q off =
     (if q \<noteq> NULL \<and> len s q \<le> off then pbuf_skip s (nxt s q) (off - len s q) else Some (q, off))"

definition pbuf_get_at :: "addr \<Rightarrow> nat \<Rightarrow> pbuf_state \<Rightarrow> u8_t option" where
  "pbuf_get_at p offset s =
     (case pbuf_skip s p offset of
        None \<Rightarrow> None
      | Some (q, copy_from) \<Rightarrow>
          Some (if q \<noteq> NULL \<and> len s q > copy_from then bytes s (payload s q + copy_from) else 0))"

fun pbuf_memcmp_loop :: "pbuf_state \<Rightarrow> addr \<Rightarrow> nat \<Rightarrow> addr \<Rightarrow> nat \<Rightarrow> nat \<Rightarrow> nat option" where
  "pbuf_memcmp_loop s q start s2 i 0 = Some 0"
| "pbuf_memcmp_loop s q start s2 i (Suc k) =
     (case pbuf_get_at q (to_u16 (start + i)) s of
        None \<Rightarrow> None
      | Some a \<Rightarrow> if a \<noteq> bytes s (s2 + i) then Some (to_u16 (i + 1))
                 else pbuf_memcmp_loop s q start s2 (i + 1) k)"

definition pbuf_memcmp :: "addr \<Rightarrow> nat \<Rightarrow> addr \<Rightarrow> nat \<Rightarrow> pbuf_state \<Rightarrow> nat option" where
  "pbuf_memcmp p offset s2 n s =
     (case pbuf_skip s p offset of
        None \<Rightarrow> None
      | Some (q, start) \<Rightarrow>
          if q \<noteq> NULL \<and> len s q > start then pbuf_memcmp_loop s q start s2 0 n else Some 0xffff)"

partial_function (option) pbuf_memfind_loop ::
  "addr \<Rightarrow> addr \<Rightarrow> nat \<Rightarrow> nat \<Rightarrow> nat \<Rightarrow> pbuf_state \<Rightarrow> nat option" where
  "pbuf_memfind_loop p mem mem_len mx i s =
     (if i \<le> mx
      then case pbuf_memcmp p i mem mem_len s of
             None \<Rightarrow> None
           | Some step \<Rightarrow> if step = 0 then Some i
                         else pbuf_memfind_loop p mem mem_len mx (to_u16 (i + step)) s
      else Some 0xFFFF)"

definition pbuf_memfind :: "addr \<Rightarrow> addr \<Rightarrow> nat \<Rightarrow> nat \<Rightarrow> pbuf_state \<Rightarrow> nat option" where
  "pbuf_memfind p mem mem_len start_offset s =
     (if p = NULL then None
      else
        let mx = to_u16 (tot_len s p + 65536 - mem_len)
        in if tot_len s p \<ge> mem_len + start_offset
           then pbuf_memfind_loop p mem mem_len mx start_offset s else Some 0xFFFF)"

partial_function (option) strlen_from :: "(addr \<Rightarrow> u8_t) \<Rightarrow> addr \<Rightarrow> nat \<Rightarrow> nat option" where
  "strlen_from b a n = (if b (a + n) = 0 then Some n else strlen_from b a (n + 1))"

definition pbuf_strstr :: "addr \<Rightarrow> addr \<Rightarrow> pbuf_state \<Rightarrow> nat option" where
  "pbuf_strstr p substr s =
     (if substr = NULL \<or> bytes s substr = 0 then Some 0xFFFF
      else if p = NULL then None
      else if tot_len s p = 0xFFFF then Some 0xFFFF
      else case strlen_from (bytes s) substr 0 of
        None \<Rightarrow> None
      | Some substr_len \<Rightarrow>
          if substr_len \<ge> 0xFFFF then Some 0xFFFF else pbuf_memfind p substr (to_u16 substr_len) 0 s)"

section \<open>Specification: the data of a chain\<close>

definition mem_bytes :: "(addr \<Rightarrow> u8_t) \<Rightarrow> addr \<Rightarrow> nat \<Rightarrow> u8_t list" where
  "mem_bytes b a n = map b [a..<a + n]"

definition pdata :: "pbuf_state \<Rightarrow> addr \<Rightarrow> u8_t list" where
  "pdata s x = mem_bytes (bytes s) (payload s x) (len s x)"

definition data :: "pbuf_state \<Rightarrow> addr list \<Rightarrow> u8_t list" where
  "data s ps = concat (map (pdata s) ps)"

text \<open>The invariant of \<^verbatim>\<open>pbuf.h\<close>: \<^verbatim>\<open>tot_len\<close> is \<^verbatim>\<open>len\<close> plus the \<^verbatim>\<open>tot_len\<close> of the next pbuf, in 16 bits.\<close>

fun tot_ok :: "pbuf_state \<Rightarrow> addr list \<Rightarrow> bool" where
  "tot_ok s [] \<longleftrightarrow> True"
| "tot_ok s (x # ps) \<longleftrightarrow>
     tot_len s x = len s x + (case ps of [] \<Rightarrow> 0 | y # _ \<Rightarrow> tot_len s y) \<and> tot_len s x < 65536 \<and> tot_ok s ps"

text \<open>\<open>packet s p ps\<close>: at \<open>p\<close> starts a packet made of the pbufs \<open>ps\<close>.\<close>

definition packet :: "pbuf_state \<Rightarrow> addr \<Rightarrow> addr list \<Rightarrow> bool" where
  "packet s p ps \<longleftrightarrow> chain (nxt s) p ps \<and> ps \<noteq> [] \<and> tot_ok s ps"

text \<open>The index of the first difference, counted from 1; 0 when there is none.\<close>

fun first_diff :: "u8_t list \<Rightarrow> u8_t list \<Rightarrow> nat" where
  "first_diff (x # xs) (y # ys) = (if x \<noteq> y then 1 else case first_diff xs ys of 0 \<Rightarrow> 0 | Suc k \<Rightarrow> Suc (Suc k))"
| "first_diff _ _ = 0"

section \<open>Lemmas on the data of a chain\<close>

lemma length_mem_bytes [simp]: "length (mem_bytes b a n) = n"
  by (simp add: mem_bytes_def)

lemma nth_mem_bytes [simp]: "i < n \<Longrightarrow> mem_bytes b a n ! i = b (a + i)"
  by (simp add: mem_bytes_def)

lemma mem_bytes_0 [simp]: "mem_bytes b a 0 = []"
  by (simp add: mem_bytes_def)

lemma mem_bytes_append: "mem_bytes b a (m + n) = mem_bytes b a m @ mem_bytes b (a + m) n"
  by (rule nth_equalityI) (simp_all add: nth_append add.assoc)

lemma take_mem_bytes [simp]: "take k (mem_bytes b a n) = mem_bytes b a (min k n)"
  by (rule nth_equalityI) simp_all

lemma drop_mem_bytes [simp]: "drop k (mem_bytes b a n) = mem_bytes b (a + k) (n - k)"
  by (rule nth_equalityI) (simp_all add: add.assoc)

lemma mem_bytes_cong: "(\<And>i. i < n \<Longrightarrow> b (a + i) = b' (a + i)) \<Longrightarrow> mem_bytes b a n = mem_bytes b' a n"
  by (rule nth_equalityI) simp_all

lemma length_pdata [simp]: "length (pdata s x) = len s x"
  by (simp add: pdata_def)

lemma data_Nil [simp]: "data s [] = []"
  by (simp add: data_def)

lemma data_Cons [simp]: "data s (x # ps) = pdata s x @ data s ps"
  by (simp add: data_def)

lemma data_append [simp]: "data s (xs @ ys) = data s xs @ data s ys"
  by (simp add: data_def)

lemma data_cong:
  "(\<And>x. x \<in> set ps \<Longrightarrow> pdata s' x = pdata s x) \<Longrightarrow> data s' ps = data s ps"
  by (simp add: data_def cong: map_cong)

lemma tot_ok_length: "tot_ok s (x # ps) \<Longrightarrow> tot_len s x = length (data s (x # ps))"
  by (induction ps arbitrary: x) auto

lemma tot_ok_cong:
  "(\<And>y. y \<in> set ps \<Longrightarrow> tot_len s' y = tot_len s y \<and> len s' y = len s y) \<Longrightarrow> tot_ok s' ps = tot_ok s ps"
proof (induction ps)
  case (Cons x ps)
  then have "tot_ok s' ps = tot_ok s ps" by simp
  moreover have "(case ps of [] \<Rightarrow> 0 | y # _ \<Rightarrow> tot_len s' y) = (case ps of [] \<Rightarrow> 0 | y # _ \<Rightarrow> tot_len s y)"
    using Cons.prems by (cases ps) simp_all
  ultimately show ?case using Cons.prems [of x] by simp
qed simp

lemma tot_ok_append: "tot_ok s (xs @ ys) \<Longrightarrow> tot_ok s ys"
  by (induction xs) auto

lemma packet_length: "packet s p ps \<Longrightarrow> tot_len s p = length (data s ps) \<and> length (data s ps) < 65536"
  unfolding packet_def using tot_ok_length by (cases ps) fastforce+

lemma packet_chain: "packet s p ps \<Longrightarrow> chain (nxt s) p ps"
  by (simp add: packet_def)

lemma packet_nonNULL: "packet s p ps \<Longrightarrow> p \<noteq> NULL"
  by (cases ps) (auto simp: packet_def)

lemma upd_simps [simp]:
  "pbufs (upd p f s) = (pbufs s)(p := f (pbufs s p))"
  "bytes (upd p f s) = bytes s" "heap (upd p f s) = heap s" "pools (upd p f s) = pools s"
  "pbuf_free_ooseq_pending (upd p f s) = pbuf_free_ooseq_pending s"
  by (simp_all add: upd_def)

section \<open>Reading\<close>

lemma pbuf_skip_chain:
  assumes "chain (nxt s) p ps"
  shows "\<exists>q off'. pbuf_skip s p off = Some (q, off')
    \<and> (if off < length (data s ps)
       then \<exists>xs ys. ps = xs @ q # ys \<and> q \<noteq> NULL \<and> off = length (data s xs) + off' \<and> off' < len s q
       else q = NULL)"
  using assms
proof (induction ps arbitrary: p off)
  case Nil
  then show ?case by (simp add: pbuf_skip.simps)
next
  case (Cons x ps)
  then have x: "p = x" "x \<noteq> NULL" "chain (nxt s) (nxt s x) ps" by auto
  show ?case
  proof (cases "len s x \<le> off")
    case True
    obtain q off' where q: "pbuf_skip s (nxt s x) (off - len s x) = Some (q, off')"
      "if off - len s x < length (data s ps)
       then \<exists>xs ys. ps = xs @ q # ys \<and> q \<noteq> NULL \<and> off - len s x = length (data s xs) + off' \<and> off' < len s q
       else q = NULL"
      using Cons.IH [OF x(3)] by blast
    have "pbuf_skip s p off = Some (q, off')" using True x q(1) by (simp add: pbuf_skip.simps [of s x])
    moreover have "\<exists>xs ys. x # ps = xs @ q # ys \<and> q \<noteq> NULL \<and> off = length (data s xs) + off' \<and> off' < len s q"
      if lt: "off < length (data s (x # ps))"
    proof -
      from lt True q(2) obtain xs ys where "ps = xs @ q # ys" "q \<noteq> NULL"
        "off - len s x = length (data s xs) + off'" "off' < len s q"
        by (auto split: if_splits)
      then show ?thesis using True by (intro exI [of _ "x # xs"] exI [of _ ys]) simp
    qed
    moreover have "q = NULL" if "\<not> off < length (data s (x # ps))" using that True q(2) by auto
    ultimately show ?thesis by auto
  next
    case False
    then have "pbuf_skip s p off = Some (x, off)" using x by (simp add: pbuf_skip.simps)
    then show ?thesis using False x by (intro exI [of _ x] exI [of _ off]) fastforce
  qed
qed

lemma pbuf_skip_inside:
  assumes "chain (nxt s) p ps" "off < length (data s ps)"
  obtains q off' xs ys where "pbuf_skip s p off = Some (q, off')" "ps = xs @ q # ys" "q \<noteq> NULL"
    "off = length (data s xs) + off'" "off' < len s q" "chain (nxt s) q (q # ys)"
  using pbuf_skip_chain [OF assms(1), of off] assms chain_suffix that by fastforce

lemma pbuf_get_at_chain:
  assumes "chain (nxt s) p ps"
  shows "pbuf_get_at p off s = Some (if off < length (data s ps) then data s ps ! off else 0)"
proof (cases "off < length (data s ps)")
  case True
  from assms True obtain q off' xs ys where q: "pbuf_skip s p off = Some (q, off')" "ps = xs @ q # ys"
    "q \<noteq> NULL" "off = length (data s xs) + off'" "off' < len s q" "chain (nxt s) q (q # ys)"
    by (rule pbuf_skip_inside)
  then have "data s ps ! off = bytes s (payload s q + off')"
    by (simp add: nth_append pdata_def)
  then show ?thesis using True q by (simp add: pbuf_get_at_def)
next
  case False
  then show ?thesis using pbuf_skip_chain [OF assms, of off] by (auto simp: pbuf_get_at_def)
qed

lemma first_diff_nth:
  assumes "length xs = length ys"
  shows "first_diff xs ys = 0 \<longleftrightarrow> xs = ys"
    and "first_diff xs ys = Suc k \<Longrightarrow> k < length xs \<and> xs ! k \<noteq> ys ! k \<and> take k xs = take k ys"
proof -
  show "first_diff xs ys = 0 \<longleftrightarrow> xs = ys"
    using assms by (induction xs ys rule: list_induct2) (auto split: nat.splits)
  show "first_diff xs ys = Suc k \<Longrightarrow> k < length xs \<and> xs ! k \<noteq> ys ! k \<and> take k xs = take k ys"
    using assms
  proof (induction xs ys arbitrary: k rule: first_diff.induct)
    case (1 x xs y ys)
    show ?case
    proof (cases "x = y")
      case True
      with "1.prems" obtain j where j: "first_diff xs ys = Suc j" "k = Suc j"
        by (cases "first_diff xs ys") simp_all
      with "1.IH" [of j] True "1.prems" show ?thesis by simp
    qed (use "1.prems" in simp)
  qed simp_all
qed

lemma first_diff_le: "first_diff xs ys \<le> length xs"
  by (induction xs ys rule: first_diff.induct) (auto split: nat.splits)

text \<open>The bytes \<^verbatim>\<open>pbuf_memcmp\<close> sees: those of the packet, then zeros.\<close>

definition padded :: "u8_t list \<Rightarrow> nat \<Rightarrow> nat \<Rightarrow> u8_t list" where
  "padded d off n = map (\<lambda>j. if off + j < length d then d ! (off + j) else 0) [0..<n]"

lemma padded_inside: "off + n \<le> length d \<Longrightarrow> padded d off n = take n (drop off d)"
  by (rule nth_equalityI) (auto simp: padded_def)

lemma padded_Suc:
  "padded d off (Suc n) = (if off < length d then d ! off else 0) # padded d (Suc off) n"
  by (simp add: padded_def map_upt_Suc del: upt_Suc)

lemma mem_bytes_Suc: "mem_bytes b a (Suc n) = b a # mem_bytes b (Suc a) n"
  using mem_bytes_append [of b a 1 n] by (simp add: mem_bytes_def)

lemma pbuf_memcmp_loop_chain:
  assumes "chain (nxt s) q qs" "start + i + k < 65536"
  shows "pbuf_memcmp_loop s q start s2 i k =
    Some (case first_diff (padded (data s qs) (start + i) k) (mem_bytes (bytes s) (s2 + i) k) of
            0 \<Rightarrow> 0 | Suc j \<Rightarrow> i + Suc j)"
  using assms(2)
proof (induction k arbitrary: i)
  case 0
  then show ?case by (simp add: padded_def)
next
  case (Suc k)
  then show ?case
    using pbuf_get_at_chain [OF assms(1)] Suc.IH [of "Suc i"]
    by (auto simp: padded_Suc mem_bytes_Suc split: nat.splits)
qed

lemma pbuf_memcmp_packet:
  assumes "packet s p ps" "offset + n < 65536"
  shows "pbuf_memcmp p offset s2 n s =
    Some (if offset < length (data s ps)
          then first_diff (padded (data s ps) offset n) (mem_bytes (bytes s) s2 n) else 0xffff)"
proof (cases "offset < length (data s ps)")
  case True
  from packet_chain [OF assms(1)] True obtain q start xs ys where q: "pbuf_skip s p offset = Some (q, start)"
    "ps = xs @ q # ys" "q \<noteq> NULL" "offset = length (data s xs) + start" "start < len s q"
    "chain (nxt s) q (q # ys)"
    by (rule pbuf_skip_inside)
  have "padded (data s ps) offset n = padded (data s (q # ys)) start n"
    using q(2,4) by (auto simp: padded_def nth_append)
  then show ?thesis
    using True q pbuf_memcmp_loop_chain [OF q(6), of start 0 n s2] assms(2)
    by (auto simp: pbuf_memcmp_def split: nat.splits)
next
  case False
  then show ?thesis
    using pbuf_skip_chain [OF packet_chain [OF assms(1)], of offset] by (auto simp: pbuf_memcmp_def)
qed

text \<open>What \<^verbatim>\<open>pbuf_memfind\<close> returns is right when it finds something; it always returns.\<close>

lemma pbuf_memfind_loop_sound:
  assumes "packet s p ps" "0 < n" "n \<le> length (data s ps)" "mx = length (data s ps) - n"
  shows "\<exists>r. pbuf_memfind_loop p mem n mx i s = Some r
    \<and> (r = 0xFFFF \<or> i \<le> r \<and> r + n \<le> length (data s ps)
         \<and> take n (drop r (data s ps)) = mem_bytes (bytes s) mem n)"
proof (induction "length (data s ps) - i" arbitrary: i rule: less_induct)
  case less
  have len: "length (data s ps) < 65536" using packet_length [OF assms(1)] by simp
  show ?case
  proof (cases "i \<le> mx")
    case False
    then show ?thesis by (simp add: pbuf_memfind_loop.simps)
  next
    case True
    then have in_data: "i + n \<le> length (data s ps)" "i < length (data s ps)" using assms(2-4) by auto
    define d where "d = first_diff (take n (drop i (data s ps))) (mem_bytes (bytes s) mem n)"
    have cmp: "pbuf_memcmp p i mem n s = Some d"
      using pbuf_memcmp_packet [OF assms(1), of i n mem] in_data len by (simp add: padded_inside d_def)
    show ?thesis
    proof (cases "d = 0")
      case True
      then have "take n (drop i (data s ps)) = mem_bytes (bytes s) mem n"
        using first_diff_nth(1) [of "take n (drop i (data s ps))" "mem_bytes (bytes s) mem n"] in_data
        by (simp add: d_def)
      then show ?thesis
        using \<open>i \<le> mx\<close> cmp True in_data by (simp add: pbuf_memfind_loop.simps [of p mem n mx i s])
    next
      case False
      have "d \<le> n" using first_diff_le [of "take n (drop i (data s ps))"] in_data by (simp add: d_def)
      then have i': "to_u16 (i + d) = i + d" using in_data len by simp
      have "length (data s ps) - (i + d) < length (data s ps) - i" using False in_data by linarith
      from less [OF this] obtain r where "pbuf_memfind_loop p mem n mx (i + d) s = Some r"
        "r = 0xFFFF \<or> i + d \<le> r \<and> r + n \<le> length (data s ps)
         \<and> take n (drop r (data s ps)) = mem_bytes (bytes s) mem n" by blast
      then show ?thesis
        using \<open>i \<le> mx\<close> cmp False i' by (auto simp: pbuf_memfind_loop.simps [of p mem n mx i s])
    qed
  qed
qed

section \<open>Copying\<close>

text \<open>Two regions of memory that do not meet, and the region of a pbuf's payload.\<close>

definition apart :: "addr \<Rightarrow> nat \<Rightarrow> addr \<Rightarrow> nat \<Rightarrow> bool" where
  "apart a m b n \<longleftrightarrow> a + m \<le> b \<or> b + n \<le> a \<or> m = 0 \<or> n = 0"

definition payload_apart :: "pbuf_state \<Rightarrow> addr \<Rightarrow> addr \<Rightarrow> nat \<Rightarrow> bool" where
  "payload_apart s x a n \<longleftrightarrow> apart (payload s x) (len s x) a n"

text \<open>The payloads of a chain do not meet each other.\<close>

fun payloads_disjoint :: "pbuf_state \<Rightarrow> addr list \<Rightarrow> bool" where
  "payloads_disjoint s [] \<longleftrightarrow> True"
| "payloads_disjoint s (x # ps) \<longleftrightarrow>
     (\<forall>y\<in>set ps. payload_apart s x (payload s y) (len s y)) \<and> payloads_disjoint s ps"

lemma mem_bytes_MEMCPY [simp]: "apart dst n src n \<Longrightarrow> mem_bytes (MEMCPY dst src n b) dst n = mem_bytes b src n"
  by (rule nth_equalityI) (simp_all add: MEMCPY_def)

lemma mem_bytes_MEMCPY_apart: "apart a m dst n \<Longrightarrow> mem_bytes (MEMCPY dst src n b) a m = mem_bytes b a m"
  by (rule mem_bytes_cong) (auto simp: MEMCPY_def apart_def)

lemma apart_sym: "apart a m b n \<longleftrightarrow> apart b n a m"
  by (auto simp: apart_def)

lemma apart_mono: "apart a m b n \<Longrightarrow> b \<le> b' \<Longrightarrow> b' + n' \<le> b + n \<Longrightarrow> apart a m b' n'"
  by (auto simp: apart_def)

text \<open>Writing memory changes neither the structs nor what the chain predicates say.\<close>

lemma tot_ok_bytes [simp]: "tot_ok (s\<lparr>bytes := b\<rparr>) ps = tot_ok s ps"
  by (induction ps) (auto split: list.splits)

lemma packet_cong: "\<forall>x\<in>set ps. pbufs s' x = pbufs s x \<Longrightarrow> packet s' p ps = packet s p ps"
  unfolding packet_def by (metis (no_types, lifting) chain_cong tot_ok_cong)

lemma clen_chain: "chain (nxt s) p ps \<Longrightarrow> \<exists>k. pbuf_clen_loop s p n = Some k"
proof (induction ps arbitrary: p n)
  case (Cons x ps)
  then show ?case using Cons.IH [of "nxt s x" "to_u8 (n + 1)"] by (subst pbuf_clen_loop.simps) auto
qed (simp add: pbuf_clen_loop.simps)

lemma packet_bytes [simp]: "packet (s\<lparr>bytes := b\<rparr>) p ps = packet s p ps"
  by (simp add: packet_def)

lemma payloads_disjoint_bytes [simp]: "payloads_disjoint (s\<lparr>bytes := b\<rparr>) ps = payloads_disjoint s ps"
  by (induction ps) (auto simp: payload_apart_def)

lemma data_MEMCPY_apart:
  "(\<And>x. x \<in> set ps \<Longrightarrow> payload_apart s x dst n) \<Longrightarrow>
   data (s\<lparr>bytes := MEMCPY dst src n (bytes s)\<rparr>) ps = data s ps"
  by (rule data_cong) (auto simp: pdata_def payload_apart_def mem_bytes_MEMCPY_apart)

lemma pbuf_copy_partial_loop_chain:
  assumes "chain (nxt s) p ps" "\<forall>x\<in>set ps. payload_apart s x dataptr (left + n)"
    and "left + n < 65536" "copied = left"
  shows "\<exists>b. pbuf_copy_partial_loop p dataptr n offset left copied s
      = Some (left + min n (length (data s ps) - offset), s\<lparr>bytes := b\<rparr>)
    \<and> mem_bytes b (dataptr + left) (min n (length (data s ps) - offset)) = take n (drop offset (data s ps))
    \<and> (\<forall>a. \<not> (dataptr + left \<le> a \<and> a < dataptr + left + n) \<longrightarrow> b a = bytes s a)"
  using assms
proof (induction ps arbitrary: p n offset left copied s)
  case Nil
  then show ?case
    by (intro exI [of _ "bytes s"]) (simp add: pbuf_copy_partial_loop.simps [of 0])
next
  case (Cons x ps)
  then have x: "p = x" "x \<noteq> NULL" "chain (nxt s) (nxt s x) ps" by auto
  show ?case
  proof (cases "n = 0")
    case True
    then show ?thesis
      using Cons.prems(4) by (intro exI [of _ "bytes s"]) (simp add: pbuf_copy_partial_loop.simps [of p])
  next
    case n: False
    show ?thesis
    proof (cases "offset \<noteq> 0 \<and> offset \<ge> len s x")
      case True
      have "\<forall>y\<in>set ps. payload_apart s y dataptr (left + n)" using Cons.prems(2) by simp
      from Cons.IH [OF x(3) this Cons.prems(3,4), of "offset - len s x"] show ?thesis
        using True n x
        by (simp add: pbuf_copy_partial_loop.simps [of x] add.commute [of "length (data s ps)"])
    next
      case False
      define k where "k = (if len s x - offset > n then n else len s x - offset)"
      define s1 where "s1 = s\<lparr>bytes := MEMCPY (dataptr + left) (payload s x + offset) k (bytes s)\<rparr>"
      have off: "offset \<le> len s x" using False by auto
      have k: "k \<le> n" "k \<le> len s x - offset" by (auto simp: k_def)
      have ap: "payload_apart s y dataptr (left + n)" if "y \<in> set (x # ps)" for y
        using Cons.prems(2) that by blast
      have data1: "data s1 ps = data s ps" unfolding s1_def
        by (rule data_MEMCPY_apart)
          (use ap k in \<open>fastforce simp: payload_apart_def apart_def\<close>)
      have "chain (nxt s1) (nxt s x) ps" "\<forall>y\<in>set ps. payload_apart s1 y dataptr (left + k + (n - k))"
        using x(3) ap k by (auto simp: s1_def payload_apart_def)
      from Cons.IH [OF this, of "left + k" 0] Cons.prems(3) k obtain b where
        b: "pbuf_copy_partial_loop (nxt s x) dataptr (n - k) 0 (left + k) (left + k) s1
            = Some (left + k + min (n - k) (length (data s ps)), s1\<lparr>bytes := b\<rparr>)"
          "mem_bytes b (dataptr + (left + k)) (min (n - k) (length (data s ps))) = take (n - k) (data s ps)"
          "\<forall>a. \<not> (dataptr + (left + k) \<le> a \<and> a < dataptr + (left + k) + (n - k)) \<longrightarrow> b a = bytes s1 a"
        by (auto simp: data1)
      have step: "pbuf_copy_partial_loop p dataptr n offset left copied s
          = pbuf_copy_partial_loop (nxt s x) dataptr (n - k) 0 (left + k) (left + k) s1"
        using False n x k Cons.prems(3,4)
        by (auto simp: pbuf_copy_partial_loop.simps [of x] k_def s1_def Let_def)
      have tot: "min n (length (data s (x # ps)) - offset) = k + min (n - k) (length (data s ps))"
        using off by (auto simp: k_def)
      have "mem_bytes b (dataptr + left) k = mem_bytes (bytes s1) (dataptr + left) k"
        using b(3) by (intro mem_bytes_cong) auto
      also have "\<dots> = mem_bytes (bytes s) (payload s x + offset) k"
      proof -
        have "apart (dataptr + left) k (payload s x + offset) k"
          using ap [of x] k off unfolding payload_apart_def apart_def by auto
        then show ?thesis by (simp add: s1_def)
      qed
      also have "\<dots> = take n (drop offset (pdata s x))"
        by (simp add: pdata_def k_def min_def)
      finally have first: "mem_bytes b (dataptr + left) k = take n (drop offset (pdata s x))" .
      have "take n (drop offset (data s (x # ps))) = take n (drop offset (pdata s x)) @ take (n - k) (data s ps)"
        using off by (auto simp: k_def)
      then have "mem_bytes b (dataptr + left) (k + min (n - k) (length (data s ps)))
          = take n (drop offset (data s (x # ps)))"
        using b(2) first by (simp add: mem_bytes_append add.assoc)
      moreover have "\<forall>a. \<not> (dataptr + left \<le> a \<and> a < dataptr + left + n) \<longrightarrow> b a = bytes s a"
        using b(3) k by (auto simp: s1_def MEMCPY_def)
      ultimately show ?thesis
        unfolding step tot using b(1) by (intro exI [of _ b]) (simp add: s1_def add.assoc)
    qed
  qed
qed

definition in_payload :: "pbuf_state \<Rightarrow> addr \<Rightarrow> addr \<Rightarrow> bool" where
  "in_payload s x a \<longleftrightarrow> payload s x \<le> a \<and> a < payload s x + len s x"

lemma pbuf_take_loop_chain:
  assumes "chain (nxt s) p ps" "payloads_disjoint s ps" "n \<le> length (data s ps)"
    and "\<forall>x\<in>set ps. payload_apart s x dataptr (copied + n)" "copied + n < 65536"
  shows "\<exists>b. pbuf_take_loop p dataptr n copied s = Some (s\<lparr>bytes := b\<rparr>)
    \<and> data (s\<lparr>bytes := b\<rparr>) ps = mem_bytes (bytes s) (dataptr + copied) n @ drop n (data s ps)
    \<and> (\<forall>a. (\<forall>x\<in>set ps. \<not> in_payload s x a) \<longrightarrow> b a = bytes s a)"
  using assms
proof (induction ps arbitrary: p n copied s)
  case Nil
  then show ?case by (intro exI [of _ "bytes s"]) (simp add: pbuf_take_loop.simps [of 0])
next
  case (Cons x ps)
  then have x: "p = x" "x \<noteq> NULL" "chain (nxt s) (nxt s x) ps" by auto
  show ?case
  proof (cases "n = 0")
    case True
    then show ?thesis by (intro exI [of _ "bytes s"]) (simp add: pbuf_take_loop.simps [of p])
  next
    case n: False
    define k where "k = (if n > len s x then len s x else n)"
    define s1 where "s1 = s\<lparr>bytes := MEMCPY (payload s x) (dataptr + copied) k (bytes s)\<rparr>"
    have k: "k \<le> n" "k \<le> len s x" by (auto simp: k_def)
    have ap: "payload_apart s y dataptr (copied + n)" if "y \<in> set (x # ps)" for y
      using Cons.prems(4) that by blast
    have dis: "payload_apart s x (payload s y) (len s y)" if "y \<in> set ps" for y
      using Cons.prems(2) that by simp
    have data1: "data s1 ps = data s ps" unfolding s1_def
      by (rule data_MEMCPY_apart) (use dis k in \<open>fastforce simp: payload_apart_def apart_def\<close>)
    have src1: "mem_bytes (bytes s1) (dataptr + (copied + k)) (n - k) = mem_bytes (bytes s) (dataptr + (copied + k)) (n - k)"
      unfolding s1_def using ap [of x] k
      by (simp, intro mem_bytes_MEMCPY_apart) (auto simp: payload_apart_def apart_def)
    have "chain (nxt s1) (nxt s x) ps" "payloads_disjoint s1 ps" "n - k \<le> length (data s1 ps)"
      "\<forall>y\<in>set ps. payload_apart s1 y dataptr (copied + k + (n - k))"
      using x(3) ap k Cons.prems(2,3) by (auto simp: data1) (auto simp: s1_def payload_apart_def k_def)
    from Cons.IH [OF this] Cons.prems(5) k obtain b where
      b: "pbuf_take_loop (nxt s x) dataptr (n - k) (copied + k) s1 = Some (s1\<lparr>bytes := b\<rparr>)"
        "data (s1\<lparr>bytes := b\<rparr>) ps = mem_bytes (bytes s) (dataptr + (copied + k)) (n - k) @ drop (n - k) (data s ps)"
        "\<forall>a. (\<forall>y\<in>set ps. \<not> in_payload s1 y a) \<longrightarrow> b a = bytes s1 a"
      by (auto simp: data1 src1)
    have step: "pbuf_take_loop p dataptr n copied s
        = pbuf_take_loop (nxt s x) dataptr (n - k) (copied + k) s1"
      using n x k Cons.prems(5) by (simp add: pbuf_take_loop.simps [of x] k_def s1_def Let_def)
    have "mem_bytes b (payload s x) (len s x) = mem_bytes (bytes s1) (payload s x) (len s x)"
    proof (rule mem_bytes_cong)
      fix i assume "i < len s x"
      then have "\<not> in_payload s1 y (payload s x + i)" if "y \<in> set ps" for y
        using dis [OF that] by (auto simp: payload_apart_def apart_def in_payload_def s1_def)
      then show "b (payload s x + i) = bytes s1 (payload s x + i)" using b(3) by blast
    qed
    also have "\<dots> = mem_bytes (bytes s) (dataptr + copied) k @ drop k (pdata s x)"
    proof -
      have "apart (payload s x) k (dataptr + copied) k"
        using ap [of x] k unfolding payload_apart_def apart_def by auto
      moreover have "mem_bytes (bytes s1) (payload s x + k) (len s x - k) = mem_bytes (bytes s) (payload s x + k) (len s x - k)"
        unfolding s1_def by (simp, intro mem_bytes_MEMCPY_apart) (auto simp: apart_def)
      ultimately show ?thesis
        using k mem_bytes_append [of "bytes s1" "payload s x" k "len s x - k"] by (simp add: pdata_def s1_def)
    qed
    finally have first: "pdata (s\<lparr>bytes := b\<rparr>) x = mem_bytes (bytes s) (dataptr + copied) k @ drop k (pdata s x)"
      by (simp add: pdata_def)
    have rest: "data (s\<lparr>bytes := b\<rparr>) ps = data (s1\<lparr>bytes := b\<rparr>) ps" by (simp add: s1_def)
    have "data (s\<lparr>bytes := b\<rparr>) (x # ps) = mem_bytes (bytes s) (dataptr + copied) n @ drop n (data s (x # ps))"
    proof (cases "n > len s x")
      case True
      then show ?thesis
        using first rest b(2) mem_bytes_append [of "bytes s" "dataptr + copied" "len s x" "n - len s x"]
        by (simp add: k_def add.assoc)
    next
      case False
      then show ?thesis using first rest b(2) by (simp add: k_def)
    qed
    moreover have "\<forall>a. (\<forall>y\<in>set (x # ps). \<not> in_payload s y a) \<longrightarrow> b a = bytes s a"
      using b(3) k by (auto simp: s1_def MEMCPY_def in_payload_def)
    ultimately show ?thesis
      unfolding step using b(1) by (intro exI [of _ b]) (simp add: s1_def)
  qed
qed

text \<open>
  \<^verbatim>\<open>pbuf_copy\<close> takes a pbuf whose \<^verbatim>\<open>len\<close> equals its \<^verbatim>\<open>tot_len\<close> for the end of a packet, so no packet may
  end in empty pbufs.
\<close>

fun solid :: "pbuf_state \<Rightarrow> addr list \<Rightarrow> bool" where
  "solid s (x # y # ps) \<longleftrightarrow> 0 < tot_len s y \<and> solid s (y # ps)"
| "solid s _ \<longleftrightarrow> True"

lemma solid_bytes [simp]: "solid (s\<lparr>bytes := b\<rparr>) ps = solid s ps"
  by (induction s ps rule: solid.induct) auto

lemma solid_Cons: "solid s (x # ps) \<Longrightarrow> solid s ps"
  by (cases ps) auto

text \<open>No packet of that kind trips the check for packet queues.\<close>

lemma solid_no_queue:
  assumes "chain (nxt s) p ps" "tot_ok s ps" "solid s ps"
  shows "\<not> (p \<noteq> NULL \<and> len s p = tot_len s p \<and> nxt s p \<noteq> NULL)"
proof (cases ps)
  case (Cons x qs)
  then show ?thesis using assms by (cases qs) auto
qed (use assms in simp)

lemma solid_tail_data:
  assumes "tot_ok s (x # ps)" "solid s (x # ps)" "ps \<noteq> []"
  shows "data s ps \<noteq> []"
proof -
  obtain y qs where ps: "ps = y # qs" using assms(3) by (cases ps) auto
  then have "length (data s ps) = tot_len s y" using tot_ok_length [of s y qs] assms(1) by simp
  then have "0 < length (data s ps)" using assms(2) ps by simp
  then show ?thesis by (metis length_greater_0_conv)
qed

definition all_apart :: "pbuf_state \<Rightarrow> addr list \<Rightarrow> addr list \<Rightarrow> bool" where
  "all_apart s xs ys \<longleftrightarrow> (\<forall>x\<in>set xs. \<forall>y\<in>set ys. payload_apart s x (payload s y) (len s y))"

lemma all_apart_bytes [simp]: "all_apart (s\<lparr>bytes := b\<rparr>) xs ys = all_apart s xs ys"
  by (simp add: all_apart_def payload_apart_def)

text \<open>What one \<^verbatim>\<open>MEMCPY\<close> of the loop does to the data.\<close>

lemma copy_step_data:
  assumes "payloads_disjoint s (t # ts)" "all_apart s (t # ts) (f # fs)" "n \<le> len s t - ot" "n \<le> len s f - fo"
    "ot \<le> len s t" "fo \<le> len s f"
    and s1: "s1 = s\<lparr>bytes := MEMCPY (payload s t + ot) (payload s f + fo) n (bytes s)\<rparr>"
  shows "data s1 (f # fs) = data s (f # fs)" "data s1 ts = data s ts"
    "pdata s1 t = take ot (pdata s t) @ take n (drop fo (pdata s f)) @ drop (ot + n) (pdata s t)"
proof -
  show "data s1 (f # fs) = data s (f # fs)" unfolding s1
    by (rule data_MEMCPY_apart)
      (use assms(2-6) in \<open>fastforce simp: all_apart_def payload_apart_def apart_def\<close>)
  show "data s1 ts = data s ts" unfolding s1
    by (rule data_MEMCPY_apart)
      (use assms(1,3-6) in \<open>fastforce simp: payload_apart_def apart_def\<close>)
  have "len s t = ot + (n + (len s t - ot - n))" using assms(3,5) by simp
  then have "pdata s1 t = mem_bytes (bytes s1) (payload s t) ot @ mem_bytes (bytes s1) (payload s t + ot) n
      @ mem_bytes (bytes s1) (payload s t + ot + n) (len s t - ot - n)"
    unfolding pdata_def s1 by (simp add: mem_bytes_append [symmetric])
  moreover have "mem_bytes (bytes s1) (payload s t) ot = mem_bytes (bytes s) (payload s t) ot"
    unfolding s1 by (simp, intro mem_bytes_MEMCPY_apart) (simp add: apart_def)
  moreover have "mem_bytes (bytes s1) (payload s t + ot + n) (len s t - ot - n)
      = mem_bytes (bytes s) (payload s t + ot + n) (len s t - ot - n)"
    unfolding s1 by (simp, intro mem_bytes_MEMCPY_apart) (simp add: apart_def)
  moreover have "apart (payload s t + ot) n (payload s f + fo) n"
    using assms(2-6) by (auto simp: all_apart_def payload_apart_def apart_def)
  then have "mem_bytes (bytes s1) (payload s t + ot) n = mem_bytes (bytes s) (payload s f + fo) n"
    unfolding s1 by simp
  ultimately show "pdata s1 t = take ot (pdata s t) @ take n (drop fo (pdata s f)) @ drop (ot + n) (pdata s t)"
    using assms(3-6) by (simp add: pdata_def min_def add.assoc)
qed

text \<open>One round of the loop, with the next position in each chain.\<close>

lemma pbuf_copy_loop_step:
  assumes to: "chain (nxt s) t (t # ts)" "tot_ok s (t # ts)" "solid s (t # ts)"
    and fm: "chain (nxt s) f (f # fs)" "tot_ok s (f # fs)" "solid s (f # fs)"
    and off: "ot \<le> len s t" "fo \<le> len s f"
    and fits: "length (drop fo (data s (f # fs))) \<le> length (drop ot (data s (t # ts)))"
    and n: "n = min (len s t - ot) (len s f - fo)"
    and s1: "s1 = s\<lparr>bytes := MEMCPY (payload s t + ot) (payload s f + fo) n (bytes s)\<rparr>"
  shows "pbuf_copy_loop t f ot fo s =
    (if fo + n < len s f then pbuf_copy_loop (nxt s t) f 0 (fo + n) s1
     else if fs = [] then Some s1
     else if ot + n = len s t then pbuf_copy_loop (nxt s t) (nxt s f) 0 0 s1
     else pbuf_copy_loop t (nxt s f) (ot + n) 0 s1)"
proof -
  define fo1 f1 where "fo1 = (if fo + n \<ge> len s f then 0 else fo + n)"
    and "f1 = (if fo + n \<ge> len s f then nxt s f else f)"
  define ot1 t1 where "ot1 = (if ot + n = len s t then 0 else ot + n)"
    and "t1 = (if ot + n = len s t then nxt s t else t)"
  have nt: "ot + n \<le> len s t" "fo + n \<le> len s f" using n off by auto
  have full: "ot + n = len s t" if "fo + n < len s f" using that n off by (auto simp: min_def split: if_splits)
  have chains: "chain (nxt s) (nxt s t) ts" "chain (nxt s) (nxt s f) fs" "t \<noteq> NULL" "f \<noteq> NULL"
    using to(1) fm(1) by auto
  have noqueue: "\<not> (f1 \<noteq> NULL \<and> len s f1 = tot_len s f1 \<and> nxt s f1 \<noteq> NULL)"
    "\<not> (t1 \<noteq> NULL \<and> len s t1 = tot_len s t1 \<and> nxt s t1 \<noteq> NULL)"
    using solid_no_queue [OF fm] solid_no_queue [OF to] solid_no_queue [OF chains(1)] solid_no_queue [OF chains(2)]
      to(2,3) fm(2,3) solid_Cons unfolding f1_def t1_def by (auto simp del: solid.simps)
  have room: "\<not> (t1 = NULL \<and> f1 \<noteq> NULL)"
  proof
    assume "t1 = NULL \<and> f1 \<noteq> NULL"
    then have "ot + n = len s t" "ts = []" "f1 \<noteq> NULL" using chains by (auto simp: t1_def split: if_splits)
    moreover have "length (drop fo (data s (f # fs))) > n"
    proof (cases "fo + n \<ge> len s f")
      case True
      then have "fs \<noteq> []" using \<open>f1 \<noteq> NULL\<close> chains(2) by (auto simp: f1_def)
      then have "data s fs \<noteq> []" using solid_tail_data [OF fm(2,3)] by blast
      then show ?thesis using True nt by (cases "data s fs") auto
    qed (use nt in auto)
    ultimately show False using fits off by auto
  qed
  have "pbuf_copy_loop t f ot fo s = (if f1 \<noteq> NULL then pbuf_copy_loop t1 f1 ot1 fo1 s1 else Some s1)"
  proof -
    have n': "(if len s t - ot \<ge> len s f - fo then len s f - fo else len s t - ot) = n" using n by auto
    have pairs: "(if fo + n \<ge> len s f then (0, nxt s f) else (fo + n, f)) = (fo1, f1)"
      "(if ot + n = len s t then (0, nxt s t) else (ot + n, t)) = (ot1, t1)"
      by (simp_all add: f1_def t1_def fo1_def ot1_def)
    have pb: "pbufs s1 = pbufs s" by (simp add: s1)
    have bad: "\<not> (\<not> ot + n \<le> len s t \<or> \<not> fo + n \<le> len s f)" using nt by simp
    show ?thesis
      unfolding pbuf_copy_loop.simps [of t f ot fo s] Let_def n' s1 [symmetric] pb pairs prod.case
        if_not_P [OF bad] if_not_P [OF room] if_not_P [OF noqueue(1)] if_not_P [OF noqueue(2)] ..
  qed
  moreover have "nxt s f = NULL \<longleftrightarrow> fs = []" using chains(2) by (cases fs) auto
  ultimately show ?thesis
    using full chains(4) nt by (auto simp: f1_def t1_def fo1_def ot1_def)
qed

lemma copy_advance_data:
  fixes P Q F :: "u8_t list"
  assumes "length P = ot + n" "n \<le> length F"
  shows "(take ot P @ take n F) @ drop n F @ drop (length F - n) Q = take ot (P @ Q) @ F @ drop (ot + length F) (P @ Q)"
proof -
  have "drop (ot + length F) (P @ Q) = drop (length F - n) Q" using assms by simp
  moreover have "take ot (P @ Q) = take ot P" using assms(1) by simp
  ultimately show ?thesis by (simp flip: append.assoc [of "take n F"])
qed

text \<open>The data of \<open>t\<close> survives whatever is written to the pbufs behind it.\<close>

lemma pdata_frame:
  assumes "payloads_disjoint s (t # ts)" "\<forall>a. (\<forall>x\<in>set ts. \<not> in_payload s x a) \<longrightarrow> b a = bytes s1 a"
    and "pbufs s1 = pbufs s"
  shows "mem_bytes b (payload s t) (len s t) = pdata s1 t"
proof -
  have "b (payload s t + i) = bytes s1 (payload s t + i)" if "i < len s t" for i
  proof -
    have "\<not> in_payload s y (payload s t + i)" if "y \<in> set ts" for y
      using assms(1) that \<open>i < len s t\<close> by (auto simp: payload_apart_def apart_def in_payload_def)
    then show ?thesis using assms(2) by blast
  qed
  then show ?thesis using assms(3) by (auto simp: pdata_def intro: mem_bytes_cong)
qed

definition copied_ok :: "pbuf_state \<Rightarrow> addr list \<Rightarrow> nat \<Rightarrow> u8_t list \<Rightarrow> pbuf_state option \<Rightarrow> bool" where
  "copied_ok s ts ot F r \<longleftrightarrow>
     (\<exists>b. r = Some (s\<lparr>bytes := b\<rparr>)
        \<and> data (s\<lparr>bytes := b\<rparr>) ts = take ot (data s ts) @ F @ drop (ot + length F) (data s ts)
        \<and> (\<forall>a. (\<forall>x\<in>set ts. \<not> in_payload s x a) \<longrightarrow> b a = bytes s a))"

lemma copied_ok_advance:
  assumes "payloads_disjoint s (t # ts)" "s1 = s\<lparr>bytes := b1\<rparr>"
    and "pdata s1 t = take ot (pdata s t) @ take n F" "data s1 ts = data s ts"
    and "len s t = ot + n" "n \<le> length F"
    and "\<forall>a. \<not> in_payload s t a \<longrightarrow> b1 a = bytes s a"
    and "copied_ok s1 ts 0 (drop n F) r"
  shows "copied_ok s (t # ts) ot F r"
proof -
  from assms(8) obtain b where b: "r = Some (s1\<lparr>bytes := b\<rparr>)"
    "data (s1\<lparr>bytes := b\<rparr>) ts = drop n F @ drop (length (drop n F)) (data s1 ts)"
    "\<forall>a. (\<forall>x\<in>set ts. \<not> in_payload s1 x a) \<longrightarrow> b a = bytes s1 a"
    unfolding copied_ok_def by auto
  have pb: "in_payload s1 x a = in_payload s x a" "pbufs s1 = pbufs s" for x a
    by (simp_all add: assms(2) in_payload_def)
  have "pdata (s\<lparr>bytes := b\<rparr>) t = pdata s1 t"
    using pdata_frame [OF assms(1) _ pb(2), of b] b(3) pb(1) by (simp add: pdata_def)
  moreover have "data (s\<lparr>bytes := b\<rparr>) ts = drop n F @ drop (length F - n) (data s ts)"
    using b(2) assms(4) by (simp add: assms(2))
  ultimately have "data (s\<lparr>bytes := b\<rparr>) (t # ts) = take ot (data s (t # ts)) @ F @ drop (ot + length F) (data s (t # ts))"
    using copy_advance_data [of "pdata s t" ot n F "data s ts"] assms(3,5,6) by simp
  moreover have "\<forall>a. (\<forall>x\<in>set (t # ts). \<not> in_payload s x a) \<longrightarrow> b a = bytes s a"
    using b(3) assms(2,7) pb(1) by auto
  ultimately show ?thesis using b(1) assms(2) unfolding copied_ok_def by auto
qed

lemma copied_ok_stay:
  assumes "s1 = s\<lparr>bytes := b1\<rparr>"
    and "data s1 (t # ts) = take ot (data s (t # ts)) @ take n F @ drop (ot + n) (data s (t # ts))"
    and "ot + n \<le> length (data s (t # ts))" "n \<le> length F"
    and "\<forall>a. \<not> in_payload s t a \<longrightarrow> b1 a = bytes s a"
    and "copied_ok s1 (t # ts) (ot + n) (drop n F) r"
  shows "copied_ok s (t # ts) ot F r"
proof -
  define D where "D = data s (t # ts)"
  from assms(6) obtain b where b: "r = Some (s1\<lparr>bytes := b\<rparr>)"
    "data (s1\<lparr>bytes := b\<rparr>) (t # ts) = take (ot + n) (data s1 (t # ts)) @ drop n F
       @ drop (ot + n + length (drop n F)) (data s1 (t # ts))"
    "\<forall>a. (\<forall>x\<in>set (t # ts). \<not> in_payload s1 x a) \<longrightarrow> b a = bytes s1 a"
    unfolding copied_ok_def by auto
  have D: "ot + n \<le> length D" using assms(3) by (simp only: D_def)
  have D1: "data s1 (t # ts) = take ot D @ take n F @ drop (ot + n) D"
    unfolding D_def by (rule assms(2))
  have "take (ot + n) (data s1 (t # ts)) = take ot D @ take n F"
    unfolding D1 using D assms(4) by simp
  moreover have "drop (ot + n + length (drop n F)) (data s1 (t # ts)) = drop (ot + length F) D"
    unfolding D1 using D assms(4) by (simp add: add.commute)
  ultimately have "data (s1\<lparr>bytes := b\<rparr>) (t # ts) = take ot D @ F @ drop (ot + length F) D"
    using b(2) by (metis append.assoc append_take_drop_id)
  moreover have "data (s1\<lparr>bytes := b\<rparr>) (t # ts) = data (s\<lparr>bytes := b\<rparr>) (t # ts)" by (simp add: assms(1))
  moreover have "\<forall>a. (\<forall>x\<in>set (t # ts). \<not> in_payload s x a) \<longrightarrow> b a = bytes s a"
    using b(3) assms(1,5) by (auto simp: in_payload_def)
  ultimately show ?thesis using b(1) unfolding copied_ok_def D_def by (auto simp: assms(1))
qed

lemma pbuf_copy_loop_correct:
  assumes "chain (nxt s) t (t # ts)" "tot_ok s (t # ts)" "solid s (t # ts)"
    and "chain (nxt s) f (f # fs)" "tot_ok s (f # fs)" "solid s (f # fs)"
    and "payloads_disjoint s (t # ts)" "all_apart s (t # ts) (f # fs)"
    and "ot \<le> len s t" "fo \<le> len s f"
    and "length (drop fo (data s (f # fs))) \<le> length (drop ot (data s (t # ts)))"
  shows "copied_ok s (t # ts) ot (drop fo (data s (f # fs))) (pbuf_copy_loop t f ot fo s)"
  using assms
proof (induction "length ts + length fs" arbitrary: s t ts f fs ot fo rule: less_induct)
  case less
  note p = less.prems
  define n where "n = min (len s t - ot) (len s f - fo)"
  define b1 where "b1 = MEMCPY (payload s t + ot) (payload s f + fo) n (bytes s)"
  define s1 where "s1 = s\<lparr>bytes := b1\<rparr>"
  define F where "F = drop fo (data s (f # fs))"
  have n: "ot + n \<le> len s t" "fo + n \<le> len s f" using p(9,10) by (auto simp: n_def)
  have step: "pbuf_copy_loop t f ot fo s =
    (if fo + n < len s f then pbuf_copy_loop (nxt s t) f 0 (fo + n) s1
     else if fs = [] then Some s1
     else if ot + n = len s t then pbuf_copy_loop (nxt s t) (nxt s f) 0 0 s1
     else pbuf_copy_loop t (nxt s f) (ot + n) 0 s1)"
    by (rule pbuf_copy_loop_step [OF p(1-6) p(9-11) n_def s1_def [unfolded b1_def]])
  have d: "data s1 (f # fs) = data s (f # fs)" "data s1 ts = data s ts"
    "pdata s1 t = take ot (pdata s t) @ take n (drop fo (pdata s f)) @ drop (ot + n) (pdata s t)"
    by (rule copy_step_data [OF p(7,8) _ _ p(9,10) s1_def [unfolded b1_def]]; simp add: n_def)+
  have F: "take n F = take n (drop fo (pdata s f))" "n \<le> length F" using n by (auto simp: F_def)
  have frame: "\<forall>a. \<not> in_payload s t a \<longrightarrow> b1 a = bytes s a"
    using n by (auto simp: b1_def MEMCPY_def in_payload_def)
  have fits: "length F \<le> length (data s (t # ts)) - ot" using p(11) by (simp only: F_def length_drop)
  have pb: "pbufs s1 = pbufs s" by (simp add: s1_def)
  have inv1: "tot_ok s1 ps = tot_ok s ps" "solid s1 ps = solid s ps" "payloads_disjoint s1 ps = payloads_disjoint s ps"
    "all_apart s1 ps qs = all_apart s ps qs" for ps qs by (simp_all add: s1_def)
  have sub: "tot_ok s ts" "solid s ts" "payloads_disjoint s ts" "all_apart s ts (f # fs)"
    "tot_ok s fs" "solid s fs" "all_apart s ts fs" "all_apart s (t # ts) fs"
    using p solid_Cons by (auto simp: all_apart_def)
  show ?case unfolding F_def [symmetric]
  proof (cases "fo + n < len s f \<or> fs \<noteq> []")
    case False
    then have "drop n F = []" using n by (simp add: F_def)
    then have FF: "F = take n (drop fo (pdata s f))" using F(1) append_take_drop_id [of n F] by simp
    have "len s f - fo - n = 0" using False n by simp
    have "data (s\<lparr>bytes := b1\<rparr>) (t # ts) = take ot (data s (t # ts)) @ F @ drop (ot + length F) (data s (t # ts))"
      using d(2,3) n FF unfolding s1_def [symmetric] by (simp add: min_absorb2)
    then show "copied_ok s (t # ts) ot F (pbuf_copy_loop t f ot fo s)"
      using step False frame unfolding copied_ok_def s1_def by auto
  next
    case more: True
    have rest: "data s fs \<noteq> []" if "fs \<noteq> []" using solid_tail_data [OF p(5,6) that] .
    have "n < length F"
    proof (cases "fo + n < len s f")
      case False
      then show ?thesis using more rest n by (cases "data s fs") (auto simp: F_def)
    qed (simp add: F_def)
    show "copied_ok s (t # ts) ot F (pbuf_copy_loop t f ot fo s)"
    proof (cases "ot + n = len s t")
      case adv: True
      then have "ts \<noteq> []" using fits \<open>n < length F\<close> p(9) by auto
      then obtain t' ts' where ts: "ts = t' # ts'" by (cases ts) auto
      then have t': "nxt s t = t'" "chain (nxt s) t' (t' # ts')" using p(1) by auto
      have fits': "length F - n \<le> length (data s ts)" using fits adv by simp
      have "copied_ok s1 ts 0 (drop n F) (pbuf_copy_loop t f ot fo s)"
      proof (cases "fo + n < len s f")
        case True
        have "drop (fo + n) (data s1 (f # fs)) = drop n F" using d(1) by (simp add: F_def add.commute del: data_Cons)
        then show ?thesis
          using less.hyps [of ts' fs s1 t' f 0 "fo + n"] step True t' ts p(4-6) sub fits' d(2) pb
          by (simp add: inv1 del: data_Cons tot_ok.simps payloads_disjoint.simps solid.simps)
      next
        case False
        then obtain f' fs' where fs: "fs = f' # fs'" using more by (cases fs) auto
        then have f': "nxt s f = f'" "chain (nxt s) f' (f' # fs')" using p(4) by auto
        have "data s1 (f' # fs') = drop n F"
          using d(1) False n fs by (simp add: F_def pdata_def) (simp add: s1_def)
        then show ?thesis
          using less.hyps [of ts' fs' s1 t' f' 0 0] step False t' ts f' fs adv sub fits' d(2) pb
          by (simp add: inv1 del: data_Cons tot_ok.simps payloads_disjoint.simps solid.simps)
      qed
      then show ?thesis
        by (intro copied_ok_advance [OF p(7) s1_def _ d(2) adv [symmetric] F(2) frame])
          (use d(3) adv F(1) in simp)
    next
      case stay: False
      then have fl: "\<not> fo + n < len s f" using p(9,10) by (auto simp: n_def min_def split: if_splits)
      then obtain f' fs' where fs: "fs = f' # fs'" using more by (cases fs) auto
      then have f': "nxt s f = f'" "chain (nxt s) f' (f' # fs')" using p(4) by auto
      have F1: "data s1 (f' # fs') = drop n F"
        using d(1) fl n fs by (simp add: F_def pdata_def) (simp add: s1_def)
      have len1: "length (data s1 (t # ts)) = length (data s (t # ts))" using d(2,3) n by (simp add: pb)
      have "copied_ok s1 (t # ts) (ot + n) (drop n F) (pbuf_copy_loop t f ot fo s)"
        using less.hyps [of ts fs' s1 t f' "ot + n" 0] step fl f' fs stay p(1-3,7) sub fits n F1 len1 pb
        by (simp add: inv1 del: data_Cons tot_ok.simps payloads_disjoint.simps solid.simps)
      moreover have "data s1 (t # ts) = take ot (data s (t # ts)) @ take n F @ drop (ot + n) (data s (t # ts))"
        using d(2,3) n F(1) by simp
      ultimately show ?thesis
        by (intro copied_ok_stay [OF s1_def _ _ F(2) frame]) (use n in auto)
    qed
  qed
qed

section \<open>Chaining\<close>

text \<open>The structs after \<^verbatim>\<open>pbuf_cat\<close>: the totals of the head grow, its last pbuf points to the tail.\<close>

definition cat_pbufs :: "addr list \<Rightarrow> addr \<Rightarrow> pbuf_state \<Rightarrow> addr \<Rightarrow> pbuf" where
  "cat_pbufs hs t s = (\<lambda>x. if x \<in> set hs
     then (pbufs s x)\<lparr>pb_tot_len := to_u16 (tot_len s x + tot_len s t),
                      pb_next := (if x = last hs then t else nxt s x)\<rparr>
     else pbufs s x)"

lemma pbuf_cat_loop_chain:
  assumes "chain (nxt s) h hs" "hs \<noteq> []" "t \<notin> set hs"
  shows "pbuf_cat_loop t h s = Some (last hs, s\<lparr>pbufs := (\<lambda>x. if x \<in> set (butlast hs)
     then (pbufs s x)\<lparr>pb_tot_len := to_u16 (tot_len s x + tot_len s t)\<rparr> else pbufs s x)\<rparr>)"
  using assms
proof (induction hs arbitrary: h s)
  case (Cons x hs)
  show ?case
  proof (cases hs)
    case Nil
    then show ?thesis using Cons.prems by (simp add: pbuf_cat_loop.simps)
  next
    case (Cons y ys)
    define s1 where "s1 = upd x (\<lambda>z. z\<lparr>pb_tot_len := to_u16 (pb_tot_len z + tot_len s t)\<rparr>) s"
    have x: "h = x" "nxt s x = y" "y \<noteq> NULL" "chain (nxt s) y hs" "x \<notin> set hs"
      using Cons.prems(1) chain_distinct [OF Cons.prems(1)] Cons by auto
    have "chain (nxt s1) y hs" using x(4,5) by (subst chain_cong [where nxt = "nxt s"]) (auto simp: s1_def)
    from Cons.IH [OF this] Cons.prems(3) Cons have
      "pbuf_cat_loop t y s1 = Some (last hs, s1\<lparr>pbufs := (\<lambda>x. if x \<in> set (butlast hs)
         then (pbufs s1 x)\<lparr>pb_tot_len := to_u16 (tot_len s1 x + tot_len s1 t)\<rparr> else pbufs s1 x)\<rparr>)" by simp
    moreover have "pbuf_cat_loop t h s = pbuf_cat_loop t y s1"
      using x Cons.prems(3) by (simp add: pbuf_cat_loop.simps [of t x] s1_def Let_def)
    moreover have "tot_len s1 t = tot_len s t" using Cons.prems(3) by (auto simp: s1_def)
    moreover have "x \<notin> set (butlast hs)" using x(5) by (auto dest: in_set_butlastD)
    ultimately show ?thesis
      using Cons x(5) by (auto simp: s1_def upd_def fun_eq_iff)
  qed
qed simp

lemma pbuf_cat_result:
  assumes h: "packet s h hs" and t: "t \<noteq> NULL" "t \<notin> set hs"
  shows "pbuf_cat h t s = Some (s\<lparr>pbufs := cat_pbufs hs t s\<rparr>)"
proof -
  have c: "chain (nxt s) h hs" "hs \<noteq> []" "distinct hs" "h \<noteq> NULL"
    using h chain_distinct packet_nonNULL [OF h] by (auto simp: packet_def)
  from c(2) obtain ks l where hs: "hs = ks @ [l]" by (cases hs rule: rev_cases) auto
  have l: "l \<notin> set ks" "t \<notin> set ks" "t \<noteq> l" using c(3) hs t(2) by auto
  have "tot_ok s [l]" using h hs tot_ok_append [of s ks "[l]"] by (simp add: packet_def)
  then have tl: "tot_len s l = len s l" by simp
  define s1 where "s1 = s\<lparr>pbufs := (\<lambda>x. if x \<in> set ks
     then (pbufs s x)\<lparr>pb_tot_len := to_u16 (tot_len s x + tot_len s t)\<rparr> else pbufs s x)\<rparr>"
  have loop: "pbuf_cat_loop t h s = Some (l, s1)"
    using pbuf_cat_loop_chain [OF c(1,2) t(2)] by (simp add: hs s1_def)
  have "pbuf_cat h t s = Some (upd l (\<lambda>x. x\<lparr>pb_next := t\<rparr>)
      (upd l (\<lambda>x. x\<lparr>pb_tot_len := to_u16 (pb_tot_len x + tot_len s t)\<rparr>) s1))"
    using c(4) t(1) l tl unfolding pbuf_cat_def loop by (simp add: s1_def)
  also have "\<dots> = Some (s\<lparr>pbufs := cat_pbufs hs t s\<rparr>)"
  proof -
    have "(pbufs s1)(l := (pbufs s1 l)\<lparr>pb_tot_len := to_u16 (tot_len s1 l + tot_len s t), pb_next := t\<rparr>)
        = cat_pbufs hs t s"
      using l by (auto simp: cat_pbufs_def hs s1_def)
    then show ?thesis by (simp add: upd_def) (simp add: s1_def)
  qed
  finally show ?thesis .
qed

lemma tot_ok_cat:
  assumes "tot_ok s (x # hs)" "tot_ok s (t # ts)" "tot_len s x + tot_len s t < 65536"
    and "\<And>y. y \<in> set (x # hs) \<Longrightarrow> tot_len s' y = tot_len s y + tot_len s t \<and> len s' y = len s y"
    and "\<And>y. y \<in> set (t # ts) \<Longrightarrow> tot_len s' y = tot_len s y \<and> len s' y = len s y"
  shows "tot_ok s' ((x # hs) @ t # ts)"
  using assms(1,3,4)
proof (induction hs arbitrary: x)
  case Nil
  have "tot_ok s' (t # ts)" using assms(2) tot_ok_cong [OF assms(5)] by blast
  then show ?case using Nil(1,2) Nil(3) [of x] assms(5) [of t] by simp
next
  case (Cons y hs)
  then have "tot_ok s' ((y # hs) @ t # ts)" by (intro Cons.IH) simp_all
  then show ?case using Cons.prems(1,2) Cons.prems(3) [of x] Cons.prems(3) [of y] by simp
qed

lemma tot_ok_le: "tot_ok s (x # ps) \<Longrightarrow> y \<in> set (x # ps) \<Longrightarrow> tot_len s y \<le> tot_len s x"
proof (induction ps arbitrary: x)
  case (Cons z ps)
  then show ?case by (cases "y = x") force+
qed simp

text \<open>
  Concatenating two packets: one packet whose data is the data of both, provided its length fits
  the 16-bit total.
\<close>

lemma pbuf_cat_packet:
  assumes h: "packet s h hs" and t: "packet s t ts" and disj: "set hs \<inter> set ts = {}"
    and len: "length (data s hs) + length (data s ts) < 65536"
  shows "\<exists>s'. pbuf_cat h t s = Some s' \<and> packet s' h (hs @ ts)
    \<and> data s' (hs @ ts) = data s hs @ data s ts
    \<and> bytes s' = bytes s \<and> heap s' = heap s \<and> pools s' = pools s \<and> (\<forall>x. ref s' x = ref s x)"
proof -
  obtain x hs' where hs: "hs = x # hs'" using h by (cases hs) (auto simp: packet_def)
  obtain y ts' where ts: "ts = y # ts'" using t by (cases ts) (auto simp: packet_def)
  have heads: "h = x" "t = y" "t \<noteq> NULL" "t \<notin> set hs" using h t hs ts disj by (auto simp: packet_def)
  define s' where "s' = s\<lparr>pbufs := cat_pbufs hs t s\<rparr>"
  have tot: "tot_len s x + tot_len s y < 65536"
    using packet_length [OF h] packet_length [OF t] len heads by simp
  have "tot_ok s' ((x # hs') @ y # ts')"
  proof (rule tot_ok_cat [where s = s])
    show "tot_ok s (x # hs')" "tot_ok s (y # ts')" using h t hs ts by (auto simp: packet_def)
    then have "tot_len s z + tot_len s y < 65536" if "z \<in> set (x # hs')" for z
      using tot_ok_le [OF _ that] tot by fastforce
    then show "tot_len s' z = tot_len s z + tot_len s y \<and> len s' z = len s z" if "z \<in> set (x # hs')" for z
      using that heads by (simp add: s'_def cat_pbufs_def hs)
    show "tot_len s' z = tot_len s z \<and> len s' z = len s z" if "z \<in> set (y # ts')" for z
      using that disj hs ts by (auto simp: s'_def cat_pbufs_def)
  qed (rule tot)
  moreover have "chain (nxt s') h (hs @ ts)"
  proof -
    obtain ks l where ks: "hs = ks @ [l]" using hs by (metis list.distinct(1) rev_exhaust)
    have "distinct hs" using chain_distinct packet_chain [OF h] by blast
    then have l: "l \<notin> set ks" "last hs = l" using ks by auto
    have ch: "chain_to (nxt s) h ks l" "l \<noteq> NULL"
      using packet_chain [OF h] unfolding ks chain_append by auto
    then have "chain_to (nxt s') h ks l"
      using l by (subst chain_to_cong [where nxt = "nxt s"]) (auto simp: s'_def cat_pbufs_def)
    moreover have "nxt s' l = t" by (simp add: s'_def cat_pbufs_def ks)
    moreover have "chain (nxt s') t ts"
      using packet_chain [OF t] disj
      by (subst chain_cong [where nxt = "nxt s"]) (auto simp: s'_def cat_pbufs_def)
    ultimately show ?thesis unfolding ks append_assoc chain_append using ch(2) by auto
  qed
  moreover have "data s' (hs @ ts) = data s (hs @ ts)"
    by (rule data_cong) (auto simp: s'_def cat_pbufs_def pdata_def)
  moreover have "ref s' z = ref s z" for z by (auto simp: s'_def cat_pbufs_def)
  ultimately show ?thesis
    using pbuf_cat_result [OF h heads(3,4)] hs ts unfolding packet_def s'_def by auto
qed

section \<open>Headers\<close>

text \<open>Hiding \<open>n\<close> bytes at the front of a packet, and revealing them again.\<close>

lemma pbuf_header_hide:
  assumes p: "packet s p (p # ps)" and n: "0 < n" "n \<le> len s p"
    and own: "pb_type (pbufs s p) = PBUF_RAM \<or> pb_type (pbufs s p) = PBUF_POOL \<Longrightarrow> p + SIZEOF_STRUCT_PBUF \<le> payload s p"
  shows "\<exists>s'. pbuf_header p (- int n) s = Some (0, s') \<and> packet s' p (p # ps)
    \<and> data s' (p # ps) = drop n (data s (p # ps)) \<and> bytes s' = bytes s
    \<and> pbufs s' = (pbufs s)(p := (pbufs s p)\<lparr>pb_payload := payload s p + n, pb_len := len s p - n,
                                   pb_tot_len := tot_len s p - n\<rparr>)"
proof -
  have tot: "tot_ok s (p # ps)" and c: "chain (nxt s) p (p # ps)" using p by (auto simp: packet_def)
  have np: "p \<noteq> NULL" "p \<notin> set ps" using packet_nonNULL [OF p] chain_hd_notin [OF c] by auto
  have bd: "n \<le> tot_len s p" "tot_len s p < 65536" "len s p < 65536" using tot n by auto
  define x where "x = (pbufs s p)\<lparr>pb_payload := payload s p + n, pb_len := len s p - n, pb_tot_len := tot_len s p - n\<rparr>"
  define s' where "s' = s\<lparr>pbufs := (pbufs s)(p := x)\<rparr>"
  have "nat (int (payload s p) + int n) = payload s p + n" by (simp add: nat_add_distrib)
  then have "pbuf_header p (- int n) s = Some (0, s')"
    using np n bd own unfolding pbuf_header_def s'_def x_def
    by (cases "pb_type (pbufs s p)") (simp_all add: Let_def upd_def nat_diff_distrib)
  moreover have "packet s' p (p # ps)"
  proof -
    have "tot_ok s' ps = tot_ok s ps" using np by (intro tot_ok_cong) (auto simp: s'_def)
    moreover have "(case ps of [] \<Rightarrow> 0 | y # _ \<Rightarrow> tot_len s' y) = (case ps of [] \<Rightarrow> 0 | y # _ \<Rightarrow> tot_len s y)"
      using np by (cases ps) (auto simp: s'_def)
    moreover have "chain (nxt s') p (p # ps)" using c by (subst chain_cong [where nxt = "nxt s"]) (auto simp: s'_def x_def)
    moreover have "tot_len s' p = tot_len s p - n" "len s' p = len s p - n" by (simp_all add: s'_def x_def)
    ultimately show ?thesis using tot n bd unfolding packet_def by simp
  qed
  moreover have "data s' ps = data s ps" using np by (intro data_cong) (auto simp: s'_def pdata_def)
  then have "data s' (p # ps) = drop n (data s (p # ps))"
    using n by (simp add: pdata_def) (simp add: s'_def x_def)
  ultimately show ?thesis unfolding s'_def x_def by auto
qed

lemma pbuf_header_reveal:
  assumes "p \<noteq> NULL" "pb_type (pbufs s p) = PBUF_RAM \<or> pb_type (pbufs s p) = PBUF_POOL" "0 < n"
    and "p + SIZEOF_STRUCT_PBUF + n \<le> payload s p" "tot_len s p + n < 65536" "len s p \<le> tot_len s p"
  shows "pbuf_header p (int n) s = Some (0, s\<lparr>pbufs := (pbufs s)(p := (pbufs s p)\<lparr>pb_payload := payload s p - n,
           pb_len := len s p + n, pb_tot_len := tot_len s p + n\<rparr>)\<rparr>)"
proof -
  have "nat (int (payload s p) - int n) = payload s p - n" by (simp add: nat_diff_distrib)
  then show ?thesis
    using assms unfolding pbuf_header_def by (auto simp: Let_def upd_def nat_add_distrib)
qed

section \<open>Ownership of pbuf memory\<close>

text \<open>Where the memory of a pbuf comes from, and the memory handed out in a state.\<close>

datatype store = Heap | Structs | Pool

definition store_of :: "pbuf_type \<Rightarrow> store" where
  "store_of t = (case t of PBUF_RAM \<Rightarrow> Heap | PBUF_POOL \<Rightarrow> Pool | _ \<Rightarrow> Structs)"

definition live :: "(memp_t \<Rightarrow> nat) \<Rightarrow> addr \<Rightarrow> pbuf_state \<Rightarrow> (store \<times> addr) set" where
  "live sizes a s = Pair Heap ` mem_live (heap s) \<union> Pair Structs ` memp_live sizes a MEMP_PBUF (pools s)
     \<union> Pair Pool ` memp_live sizes a MEMP_PBUF_POOL (pools s)"

definition pbuf_inv :: "(memp_t \<Rightarrow> nat) \<Rightarrow> addr \<Rightarrow> pbuf_state \<Rightarrow> bool" where
  "pbuf_inv sizes a s \<longleftrightarrow> mem_inv (heap s) \<and> memp_inv sizes a (pools s)"

definition key :: "pbuf_state \<Rightarrow> addr \<Rightarrow> store \<times> addr" where
  "key s x = (store_of (pb_type (pbufs s x)), x)"

definition owned :: "(memp_t \<Rightarrow> nat) \<Rightarrow> addr \<Rightarrow> pbuf_state \<Rightarrow> addr \<Rightarrow> bool" where
  "owned sizes a s x \<longleftrightarrow> pb_flags (pbufs s x) AND PBUF_FLAG_IS_CUSTOM = 0 \<and> key s x \<in> live sizes a s"

lemma live_iff:
  "(Heap, x) \<in> live sizes a s \<longleftrightarrow> x \<in> mem_live (heap s)"
  "(Structs, x) \<in> live sizes a s \<longleftrightarrow> x \<in> memp_live sizes a MEMP_PBUF (pools s)"
  "(Pool, x) \<in> live sizes a s \<longleftrightarrow> x \<in> memp_live sizes a MEMP_PBUF_POOL (pools s)"
  by (auto simp: live_def)

lemma live_eqI:
  assumes "\<And>x. (Heap, x) \<in> A \<longleftrightarrow> x \<in> mem_live (heap s)"
    "\<And>x. (Structs, x) \<in> A \<longleftrightarrow> x \<in> memp_live sizes a MEMP_PBUF (pools s)"
    "\<And>x. (Pool, x) \<in> A \<longleftrightarrow> x \<in> memp_live sizes a MEMP_PBUF_POOL (pools s)"
  shows "live sizes a s = A"
proof (rule set_eqI)
  fix y :: "store \<times> addr"
  obtain k x where y: "y = (k, x)" by (cases y)
  show "y \<in> live sizes a s \<longleftrightarrow> y \<in> A" using assms unfolding y by (cases k) (auto simp: live_iff)
qed

lemma pbuf_dealloc_owned:
  assumes inv: "pbuf_inv sizes a s" and own: "owned sizes a s p"
  shows "\<exists>s'. pbuf_dealloc cf p s = Some s' \<and> pbuf_inv sizes a s' \<and> live sizes a s' = live sizes a s - {key s p}
    \<and> pbufs s' = pbufs s \<and> bytes s' = bytes s"
proof -
  have flag: "pb_flags (pbufs s p) AND PBUF_FLAG_IS_CUSTOM = 0" and k: "key s p \<in> live sizes a s"
    using own by (auto simp: owned_def)
  have mi: "mem_inv (heap s)" "memp_inv sizes a (pools s)" using inv by (auto simp: pbuf_inv_def)
  have pool: "\<exists>s'. map_option (\<lambda>m. s\<lparr>pools := m\<rparr>) (memp_free t p (pools s)) = Some s' \<and> pbuf_inv sizes a s'
      \<and> live sizes a s' = live sizes a s - {(st, p)} \<and> pbufs s' = pbufs s \<and> bytes s' = bytes s"
    if t: "t = MEMP_PBUF \<and> st = Structs \<or> t = MEMP_PBUF_POOL \<and> st = Pool" "p \<in> memp_live sizes a t (pools s)" for t st
  proof -
    have "t < 10" using t(1) by auto
    from mi(2) this t(2) show ?thesis
    proof (rule memp_free_live)
      fix m assume m: "memp_free t p (pools s) = Some m" "memp_inv sizes a m"
        "\<And>t'. t' < MEMP_MAX \<Longrightarrow> memp_live sizes a t' m =
          (if t' = t then memp_live sizes a t (pools s) - {p} else memp_live sizes a t' (pools s))"
      have "live sizes a (s\<lparr>pools := m\<rparr>) = live sizes a s - {(st, p)}"
        using t(1) by (intro live_eqI) (auto simp: live_iff m(3))
      then show ?thesis using m mi by (simp add: pbuf_inv_def)
    qed
  qed
  show ?thesis
  proof (cases "pb_type (pbufs s p)")
    case PBUF_RAM
    then have "p \<in> mem_live (heap s)" using k by (simp add: key_def store_of_def live_iff)
    from heap.free_law [OF mi(1) this] obtain m where
      m: "mem_free p (heap s) = Some m" "mem_inv m" "mem_live m = mem_live (heap s) - {p}" by blast
    have "live sizes a (s\<lparr>heap := m\<rparr>) = live sizes a s - {key s p}"
      by (intro live_eqI) (auto simp: live_iff m(3) key_def store_of_def PBUF_RAM)
    then show ?thesis using m mi flag PBUF_RAM by (simp add: pbuf_dealloc_def pbuf_inv_def)
  next
    case PBUF_ROM
    then show ?thesis
      using pool [of MEMP_PBUF Structs] k flag by (simp add: pbuf_dealloc_def key_def store_of_def live_iff)
  next
    case PBUF_REF
    then show ?thesis
      using pool [of MEMP_PBUF Structs] k flag by (simp add: pbuf_dealloc_def key_def store_of_def live_iff)
  next
    case PBUF_POOL
    then show ?thesis
      using pool [of MEMP_PBUF_POOL Pool] k flag by (simp add: pbuf_dealloc_def key_def store_of_def live_iff)
  qed
qed

section \<open>pbuf\_free\<close>

text \<open>The pbufs at the head of a chain that \<^verbatim>\<open>pbuf_free\<close> de-allocates: those with one reference.\<close>

fun free_count :: "pbuf_state \<Rightarrow> addr list \<Rightarrow> nat" where
  "free_count s [] = 0"
| "free_count s (x # ps) = (if ref s x = 1 then Suc (free_count s ps) else 0)"

text \<open>The structs afterwards: references dropped along the freed prefix and on the pbuf behind it.\<close>

definition free_refs :: "pbuf_state \<Rightarrow> addr list \<Rightarrow> addr \<Rightarrow> pbuf" where
  "free_refs s ps = (\<lambda>x. if x \<in> set (take (Suc (free_count s ps)) ps)
     then (pbufs s x)\<lparr>pb_ref := ref s x - 1\<rparr> else pbufs s x)"

lemma free_count_cong: "(\<And>x. x \<in> set ps \<Longrightarrow> ref s' x = ref s x) \<Longrightarrow> free_count s' ps = free_count s ps"
  by (induction ps) auto

lemma free_count_le: "free_count s ps \<le> length ps"
  by (induction ps) auto

lemma pbuf_free_loop_chain:
  assumes "chain (nxt s) p ps" "pbuf_inv sizes a s" "\<forall>x\<in>set ps. 1 \<le> ref s x \<and> ref s x < 65536"
    and "\<forall>x\<in>set (take (free_count s ps) ps). owned sizes a s x" "c < 256"
  shows "\<exists>s'. pbuf_free_loop cf p c s = Some (to_u8 (c + free_count s ps), s') \<and> pbuf_inv sizes a s'
    \<and> live sizes a s' = live sizes a s - key s ` set (take (free_count s ps) ps)
    \<and> pbufs s' = free_refs s ps \<and> bytes s' = bytes s"
  using assms
proof (induction ps arbitrary: p c s)
  case Nil
  then show ?case by (simp add: pbuf_free_loop.simps [of cf 0] free_refs_def)
next
  case (Cons x ps)
  have x: "p = x" "x \<noteq> NULL" "chain (nxt s) (nxt s x) ps" "x \<notin> set ps"
    using Cons.prems(1) chain_distinct [OF Cons.prems(1)] by auto
  have r: "1 \<le> ref s x" "ref s x < 65536" using Cons.prems(3) by auto
  define s1 where "s1 = upd x (\<lambda>y. y\<lparr>pb_ref := ref s x - 1\<rparr>) s"
  have s1: "live sizes a s1 = live sizes a s" "pbuf_inv sizes a s1 = pbuf_inv sizes a s"
    "key s1 y = key s y" "owned sizes a s1 y = owned sizes a s y" for y
    by (auto simp: s1_def live_def pbuf_inv_def key_def owned_def)
  show ?case
  proof (cases "ref s x = 1")
    case False
    then have "pbuf_free_loop cf p c s = Some (c, s1)"
      using x r by (simp add: pbuf_free_loop.simps [of cf x] s1_def Let_def)
    moreover have "pbufs s1 = free_refs s (x # ps)" using False by (auto simp: s1_def free_refs_def)
    ultimately show ?thesis using False Cons.prems(2,5) s1 by (simp add: s1_def [unfolded upd_def])
  next
    case True
    have "owned sizes a s1 x" using Cons.prems(4) True s1 by simp
    from pbuf_dealloc_owned [OF _ this, of cf] Cons.prems(2) s1 obtain s2 where
      s2: "pbuf_dealloc cf x s1 = Some s2" "pbuf_inv sizes a s2" "live sizes a s2 = live sizes a s - {key s x}"
        "pbufs s2 = pbufs s1" "bytes s2 = bytes s1" by auto
    have same: "pbufs s2 y = pbufs s y" if "y \<in> set ps" for y using that x(4) s2(4) by (auto simp: s1_def)
    have fc: "free_count s2 ps = free_count s ps" using same by (intro free_count_cong) simp
    have key2: "key s2 y = key s y" for y by (simp add: key_def s2(4) s1_def)
    have own2: "owned sizes a s2 y" if "y \<in> set (take (free_count s2 ps) ps)" for y
    proof -
      have y: "y \<in> set ps" "y \<noteq> x" using that x(4) by (auto dest: in_set_takeD)
      have "owned sizes a s y" using Cons.prems(4) that True fc by auto
      then show ?thesis using same [OF y(1)] y(2) s2(3) key2 by (auto simp: owned_def key_def)
    qed
    have ch2: "chain (nxt s2) (nxt s x) ps" using x(3) same by (subst chain_cong [where nxt = "nxt s"]) auto
    have ref2: "\<forall>y\<in>set ps. 1 \<le> ref s2 y \<and> ref s2 y < 65536" using Cons.prems(3) same by auto
    obtain s' where s': "pbuf_free_loop cf (nxt s x) (to_u8 (c + 1)) s2
          = Some (to_u8 (to_u8 (c + 1) + free_count s ps), s')" "pbuf_inv sizes a s'"
        "live sizes a s' = live sizes a s2 - key s2 ` set (take (free_count s ps) ps)"
        "pbufs s' = free_refs s2 ps" "bytes s' = bytes s2"
      using Cons.IH [OF ch2 s2(2) ref2 ballI [OF own2], of "to_u8 (c + 1)"] unfolding fc by auto
    have "pbuf_free_loop cf p c s = Some (to_u8 (c + free_count s (x # ps)), s')"
    proof -
      have s1e: "upd x (\<lambda>y. y\<lparr>pb_ref := to_u16 (ref s x - 1)\<rparr>) s = s1" using r by (simp add: s1_def)
      have nx: "nxt s1 x = nxt s x" by (simp add: s1_def)
      have "pbuf_free_loop cf x c s = pbuf_free_loop cf (nxt s x) (to_u8 (c + 1)) s2"
        unfolding pbuf_free_loop.simps [of cf x c s] Let_def s1e nx s2(1) using x(2) True by simp
      moreover have "to_u8 (to_u8 (c + 1) + free_count s ps) = to_u8 (c + free_count s (x # ps))"
        using True by (simp add: to_u8_def mod_add_left_eq mod_Suc_eq)
      ultimately show ?thesis using s'(1) x(1) by simp
    qed
    moreover have "live sizes a s' = live sizes a s - key s ` set (take (free_count s (x # ps)) (x # ps))"
      using s'(3) s2(3) key2 True by auto
    moreover have "pbufs s' = free_refs s (x # ps)"
      unfolding s'(4) free_refs_def fc using True same x(4)
      by (auto simp: fun_eq_iff s2(4) s1_def dest: in_set_takeD)
    ultimately show ?thesis using s' s2(5) by (simp add: s1_def)
  qed
qed

section \<open>pbuf\_alloc of a pool chain\<close>

text \<open>The totals of a chain of which \<open>rm\<close> bytes are still to be allocated.\<close>

fun tot_rem :: "pbuf_state \<Rightarrow> nat \<Rightarrow> addr list \<Rightarrow> bool" where
  "tot_rem s rm [] \<longleftrightarrow> True"
| "tot_rem s rm (x # ps) \<longleftrightarrow>
     tot_len s x = len s x + (case ps of [] \<Rightarrow> rm | y # _ \<Rightarrow> tot_len s y) \<and> tot_len s x < 65536 \<and> tot_rem s rm ps"

lemma tot_rem_0: "tot_rem s 0 ps = tot_ok s ps"
  by (induction ps) (auto split: list.splits)

lemma tot_rem_snoc:
  "tot_rem s rm (ps @ [x]) \<longleftrightarrow> tot_len s x = len s x + rm \<and> tot_len s x < 65536 \<and> tot_rem s (tot_len s x) ps"
proof (induction ps)
  case (Cons y ps)
  then show ?case by (cases ps; simp; blast)
qed auto

lemma tot_rem_cong:
  assumes "\<And>y. y \<in> set ps \<Longrightarrow> tot_len s' y = tot_len s y \<and> len s' y = len s y"
  shows "tot_rem s' rm ps = tot_rem s rm ps"
  using assms
proof (induction ps)
  case (Cons x ps)
  have "(case ps of [] \<Rightarrow> rm | y # _ \<Rightarrow> tot_len s' y) = (case ps of [] \<Rightarrow> rm | y # _ \<Rightarrow> tot_len s y)"
    using Cons.prems by (cases ps) simp_all
  then show ?case using Cons.IH Cons.prems [of x] Cons.prems by simp
qed simp

text \<open>A pbuf of the pool whose payload lies in its own element.\<close>

definition pool_pbuf :: "(memp_t \<Rightarrow> nat) \<Rightarrow> addr \<Rightarrow> pbuf_state \<Rightarrow> addr \<Rightarrow> bool" where
  "pool_pbuf sizes a s x \<longleftrightarrow> pb_type (pbufs s x) = PBUF_POOL \<and> ref s x = 1
     \<and> pb_flags (pbufs s x) AND PBUF_FLAG_IS_CUSTOM = 0 \<and> x \<in> set (pool_elems sizes a MEMP_PBUF_POOL)
     \<and> x + SIZEOF_STRUCT_PBUF \<le> payload s x
     \<and> payload s x + len s x \<le> x + SIZEOF_STRUCT_PBUF + PBUF_POOL_BUFSIZE_ALIGNED"

text \<open>Where the loop stands: \<open>ps\<close> allocated on top of \<open>s0\<close>, \<open>rm\<close> bytes to go.\<close>

definition tail_inv :: "(memp_t \<Rightarrow> nat) \<Rightarrow> addr \<Rightarrow> pbuf_state \<Rightarrow> pbuf_state \<Rightarrow> addr \<Rightarrow> addr list \<Rightarrow> nat \<Rightarrow> bool" where
  "tail_inv sizes a s0 s p ps rm \<longleftrightarrow>
     ps \<noteq> [] \<and> chain (nxt s) p ps \<and> pbuf_inv sizes a s \<and> live sizes a s = live sizes a s0 \<union> Pair Pool ` set ps
     \<and> Pair Pool ` set ps \<inter> live sizes a s0 = {} \<and> (\<forall>x\<in>set ps. pool_pbuf sizes a s x) \<and> tot_rem s rm ps
     \<and> (\<forall>x. x \<notin> set ps \<longrightarrow> pbufs s x = pbufs s0 x) \<and> bytes s = bytes s0 \<and> rm < 65535"

lemma free_count_all: "\<forall>x\<in>set ps. ref s x = 1 \<Longrightarrow> free_count s ps = length ps"
  by (induction ps) auto

text \<open>Out of memory: the chain built so far goes back, and nothing stays allocated.\<close>

lemma tail_abort:
  assumes inv: "tail_inv sizes a s0 s p ps rm"
    and m: "memp_inv sizes a m" "\<And>t. t < MEMP_MAX \<Longrightarrow> memp_live sizes a t m = memp_live sizes a t (pools s)"
  shows "\<exists>c s'. pbuf_free cf p (pbuf_pool_is_empty (s\<lparr>pools := m\<rparr>)) = Some (c, s')
    \<and> pbuf_inv sizes a s' \<and> live sizes a s' = live sizes a s0 \<and> bytes s' = bytes s0"
proof -
  define s1 where "s1 = pbuf_pool_is_empty (s\<lparr>pools := m\<rparr>)"
  have pb: "pbufs s1 = pbufs s" "bytes s1 = bytes s" "heap s1 = heap s" "pools s1 = m"
    by (simp_all add: s1_def pbuf_pool_is_empty_def)
  note i = inv [unfolded tail_inv_def pool_pbuf_def]
  have lv: "live sizes a s1 = live sizes a s" by (simp add: live_def pb m(2))
  have k: "key s1 x = (Pool, x)" if "x \<in> set ps" for x
    using i that by (simp add: key_def pb store_of_def)
  have fc: "free_count s1 ps = length ps" using i by (intro free_count_all) (simp add: pb)
  have "\<exists>s'. pbuf_free_loop cf p 0 s1 = Some (to_u8 (0 + free_count s1 ps), s') \<and> pbuf_inv sizes a s'
      \<and> live sizes a s' = live sizes a s1 - key s1 ` set (take (free_count s1 ps) ps)
      \<and> pbufs s' = free_refs s1 ps \<and> bytes s' = bytes s1"
  proof (rule pbuf_free_loop_chain)
    show "chain (nxt s1) p ps" "pbuf_inv sizes a s1" "\<forall>x\<in>set ps. 1 \<le> ref s1 x \<and> ref s1 x < 65536"
      using i m(1) by (simp_all add: pb pbuf_inv_def)
    show "\<forall>x\<in>set (take (free_count s1 ps) ps). owned sizes a s1 x"
      using i k by (auto simp: owned_def lv fc) (simp add: pb)
  qed simp
  moreover have "live sizes a s1 - key s1 ` set ps = live sizes a s0"
    using i k lv by (auto simp: image_iff)
  moreover have "p \<noteq> NULL" using i by (cases ps) auto
  ultimately show ?thesis
    using i fc unfolding pbuf_free_def s1_def [symmetric] by (auto simp: pb)
qed

text \<open>One more pbuf at the end of the chain.\<close>

lemma tail_step:
  assumes inv: "tail_inv sizes a s0 s p ps rm" and rm: "0 < rm"
    and q: "q \<noteq> NULL" "q \<in> set (pool_elems sizes a MEMP_PBUF_POOL)" "q \<notin> memp_live sizes a MEMP_PBUF_POOL (pools s)"
    and m: "memp_inv sizes a m" "\<And>t. t < MEMP_MAX \<Longrightarrow> memp_live sizes a t m =
       (if t = MEMP_PBUF_POOL then insert q (memp_live sizes a MEMP_PBUF_POOL (pools s)) else memp_live sizes a t (pools s))"
    and s': "s' = s\<lparr>pools := m, pbufs := (pbufs s)(last ps := (pbufs s (last ps))\<lparr>pb_next := q\<rparr>,
        q := (pbufs s q)\<lparr>pb_type := PBUF_POOL, pb_flags := 0, pb_next := NULL, pb_tot_len := rm,
               pb_len := min rm PBUF_POOL_BUFSIZE_ALIGNED, pb_payload := q + SIZEOF_STRUCT_PBUF, pb_ref := 1\<rparr>)\<rparr>"
  shows "tail_inv sizes a s0 s' p (ps @ [q]) (rm - min rm PBUF_POOL_BUFSIZE_ALIGNED)"
proof -
  note i = inv [unfolded tail_inv_def]
  have c: "chain (nxt s) p ps" "ps \<noteq> []" using i by auto
  have fresh: "(Pool, q) \<notin> live sizes a s" using q(3) by (simp add: live_iff)
  then have notin: "q \<notin> set ps" "(Pool, q) \<notin> live sizes a s0" using i by auto
  define l where "l = last ps"
  obtain ks where ps: "ps = ks @ [l]" using c(2) by (metis append_butlast_last_id l_def)
  have l: "l \<notin> set ks" "l \<noteq> q" "l \<noteq> NULL"
    using chain_distinct [OF c(1)] notin(1) chain_NULL_notin [OF c(1)] ps by auto
  have "chain_to (nxt s) p ks l" using c(1) unfolding ps chain_append by auto
  then have "chain_to (nxt s') p ks l"
    using l notin(1) ps by (subst chain_to_cong [where nxt = "nxt s"]) (auto simp: s' l_def [symmetric])
  moreover have "nxt s' l = q" "nxt s' q = NULL" using l by (simp_all add: s' l_def [symmetric])
  ultimately have "chain (nxt s') p (ps @ [q])"
    unfolding ps append_assoc chain_append using l q(1) by auto
  moreover have "pbuf_inv sizes a s'" using i m(1) by (simp add: s' pbuf_inv_def)
  moreover have "live sizes a s' = live sizes a s0 \<union> Pair Pool ` set (ps @ [q])"
  proof -
    have "live sizes a s' = insert (Pool, q) (live sizes a s)"
      by (intro live_eqI) (auto simp: live_iff s' m(2))
    then show ?thesis using i by auto
  qed
  moreover have "Pair Pool ` set (ps @ [q]) \<inter> live sizes a s0 = {}" using i notin(2) by auto
  moreover have "\<forall>x\<in>set (ps @ [q]). pool_pbuf sizes a s' x"
    using i notin q(2) by (auto simp: pool_pbuf_def s' l_def [symmetric])
  moreover have "tot_rem s' (rm - min rm 592) (ps @ [q])"
  proof -
    have "tot_rem s' rm ps = tot_rem s rm ps"
      using notin(1) by (intro tot_rem_cong) (auto simp: s')
    then show ?thesis using i by (simp add: tot_rem_snoc) (simp add: s')
  qed
  moreover have "\<forall>x. x \<notin> set (ps @ [q]) \<longrightarrow> pbufs s' x = pbufs s0 x"
    using i ps by (auto simp: s' l_def [symmetric])
  moreover have "bytes s' = bytes s0" "rm - min rm 592 < 65535" using i by (auto simp: s')
  ultimately show ?thesis unfolding tail_inv_def by blast
qed

lemma pbuf_pool_tail_correct:
  assumes "tail_inv sizes a s0 s p ps rm"
  shows "\<exists>ok s'. pbuf_pool_tail cf p (last ps) rm s = Some (ok, s')
    \<and> (if ok then (\<exists>qs. tail_inv sizes a s0 s' p (ps @ qs) 0)
            \<and> (\<forall>x\<in>set ps. payload s' x = payload s x \<and> tot_len s' x = tot_len s x)
       else pbuf_inv sizes a s' \<and> live sizes a s' = live sizes a s0 \<and> bytes s' = bytes s0)"
  using assms
proof (induction rm arbitrary: s ps rule: less_induct)
  case (less rm)
  note i = less.prems [unfolded tail_inv_def]
  have mi: "memp_inv sizes a (pools s)" using i by (simp add: pbuf_inv_def)
  show ?case
  proof (cases "rm = 0")
    case True
    then have "tail_inv sizes a s0 s p (ps @ []) 0" using less.prems by simp
    then show ?thesis
      using True pbuf_pool_tail.simps [of cf p "last ps" rm s] by (intro exI [of _ True] exI [of _ s]) (auto intro: exI [of _ "[]"])
  next
    case False
    have "(9::nat) < 10" by simp
    from mi this show ?thesis
    proof (rule memp_malloc_live)
      fix m assume m: "memp_malloc MEMP_PBUF_POOL (pools s) = Some (NULL, m)" "memp_inv sizes a m"
        "\<And>t'. t' < MEMP_MAX \<Longrightarrow> memp_live sizes a t' m = memp_live sizes a t' (pools s)"
      obtain c s' where s': "pbuf_free cf p (pbuf_pool_is_empty (s\<lparr>pools := m\<rparr>)) = Some (c, s')"
        "pbuf_inv sizes a s'" "live sizes a s' = live sizes a s0" "bytes s' = bytes s0"
        using tail_abort [OF less.prems m(2,3)] by blast
      have "pbuf_pool_tail cf p (last ps) rm s = Some (False, s')"
        using False m(1) s'(1) by (simp add: pbuf_pool_tail.simps [of cf p "last ps" rm s])
      then show ?thesis using s' by auto
    next
      fix q m assume m: "memp_malloc MEMP_PBUF_POOL (pools s) = Some (q, m)" "q \<noteq> NULL" "q mod MEM_ALIGNMENT = 0"
        "memp_inv sizes a m" "q \<notin> memp_live sizes a MEMP_PBUF_POOL (pools s)"
        "q \<in> set (pool_elems sizes a MEMP_PBUF_POOL)"
        "\<And>t'. t' < MEMP_MAX \<Longrightarrow> memp_live sizes a t' m =
          (if t' = MEMP_PBUF_POOL then insert q (memp_live sizes a MEMP_PBUF_POOL (pools s)) else memp_live sizes a t' (pools s))"
      define l where "l = last ps"
      define k where "k = min rm PBUF_POOL_BUFSIZE_ALIGNED"
      define s' where "s' = s\<lparr>pools := m, pbufs := (pbufs s)(l := (pbufs s l)\<lparr>pb_next := q\<rparr>,
        q := (pbufs s q)\<lparr>pb_type := PBUF_POOL, pb_flags := 0, pb_next := NULL, pb_tot_len := rm,
               pb_len := min rm PBUF_POOL_BUFSIZE_ALIGNED, pb_payload := q + SIZEOF_STRUCT_PBUF, pb_ref := 1\<rparr>)\<rparr>"
      have inv': "tail_inv sizes a s0 s' p (ps @ [q]) (rm - k)" unfolding k_def
        by (rule tail_step [OF less.prems _ m(2,6,5,4,7) s'_def [unfolded l_def]]) (use False in simp_all)
      have rm: "rm < 65535" "to_u16 rm = rm" using i by auto
      have ql: "q \<noteq> l" "q \<noteq> p" "p \<in> set ps"
      proof -
        show ps: "p \<in> set ps" using i by (cases ps) auto
        have "l \<in> set ps" using i by (simp add: l_def)
        then show "q \<noteq> l" "q \<noteq> p" using m(5) i ps by (auto simp: live_iff [symmetric])
      qed
      have head: "payload s p + len s p \<le> p + 24 + 592" using i ql(3) by (auto simp: pool_pbuf_def)
      have "pbuf_pool_tail cf p l rm s = pbuf_pool_tail cf p q (rm - k) s'"
      proof -
        have "(q + 24) mod 4 = 0" using m(3) by (simp add: mod_add_eq [symmetric])
        then show ?thesis
          unfolding pbuf_pool_tail.simps [of cf p l rm s] m(1)
          using False m(2) rm ql head
          by (cases "p = l") (auto simp: Let_def upd_def s'_def k_def fun_upd_twist)
      qed
      moreover have "rm - k < rm" using False by (simp add: k_def)
      then obtain ok s'' where "pbuf_pool_tail cf p (last (ps @ [q])) (rm - k) s' = Some (ok, s'')"
        "if ok then (\<exists>qs. tail_inv sizes a s0 s'' p ((ps @ [q]) @ qs) 0)
            \<and> (\<forall>x\<in>set (ps @ [q]). payload s'' x = payload s' x \<and> tot_len s'' x = tot_len s' x)
         else pbuf_inv sizes a s'' \<and> live sizes a s'' = live sizes a s0 \<and> bytes s'' = bytes s0"
        using less.IH [OF _ inv'] by blast
      moreover have "payload s' x = payload s x" "tot_len s' x = tot_len s x" if "x \<in> set ps" for x
        using that m(5) i by (auto simp: s'_def live_iff [symmetric])
      ultimately show ?thesis
        unfolding l_def by (intro exI [of _ ok] exI [of _ s'']) (auto split: if_splits)
    qed
  qed
qed

text \<open>The header room of each layer, rounded up as the payload pointer is.\<close>

lemma layer_offset_aligned:
  assumes "p mod MEM_ALIGNMENT = 0"
  shows "LWIP_MEM_ALIGN_SIZE (p + (SIZEOF_STRUCT_PBUF + layer_offset l)) = p + SIZEOF_STRUCT_PBUF + LWIP_MEM_ALIGN_SIZE (layer_offset l)"
    and "LWIP_MEM_ALIGN_SIZE (layer_offset l) \<le> 56" "LWIP_MEM_ALIGN_SIZE (layer_offset l) mod MEM_ALIGNMENT = 0"
proof -
  from assms obtain k where k: "p = 4 * k" by auto
  show "LWIP_MEM_ALIGN_SIZE (p + (24 + layer_offset l)) = p + 24 + LWIP_MEM_ALIGN_SIZE (layer_offset l)"
    unfolding k by (cases l) (simp_all add: LWIP_MEM_ALIGN_SIZE_def layer_offset_def)
  show "LWIP_MEM_ALIGN_SIZE (layer_offset l) \<le> 56" "LWIP_MEM_ALIGN_SIZE (layer_offset l) mod 4 = 0"
    by (cases l; simp add: LWIP_MEM_ALIGN_SIZE_def layer_offset_def)+
qed

text \<open>
  A chain from the pool: either all of it is allocated, or \<^verbatim>\<open>NULL\<close> is returned and nothing stays
  allocated. The second case frees a head whose flags \<^verbatim>\<open>pbuf_alloc\<close> has not set yet: it needs the
  flags left in the pool's memory to be without \<^verbatim>\<open>PBUF_FLAG_IS_CUSTOM\<close>.
\<close>

lemma pbuf_alloc_pool_correct:
  assumes inv: "pbuf_inv sizes a s" and n: "n < 65536"
    and stale: "\<forall>x\<in>set (pool_elems sizes a MEMP_PBUF_POOL). pb_flags (pbufs s x) AND PBUF_FLAG_IS_CUSTOM = 0"
  shows "\<exists>p s'. pbuf_alloc cf layer n PBUF_POOL s = Some (p, s') \<and> pbuf_inv sizes a s' \<and> bytes s' = bytes s
    \<and> (if p = NULL then live sizes a s' = live sizes a s
       else \<exists>ps. packet s' p ps \<and> tot_len s' p = n \<and> (\<forall>x\<in>set ps. pool_pbuf sizes a s' x)
         \<and> payload s' p = p + SIZEOF_STRUCT_PBUF + LWIP_MEM_ALIGN_SIZE (layer_offset layer)
         \<and> Pair Pool ` set ps \<inter> live sizes a s = {} \<and> live sizes a s' = live sizes a s \<union> Pair Pool ` set ps
         \<and> (\<forall>x. x \<notin> set ps \<longrightarrow> pbufs s' x = pbufs s x))"
proof -
  have mi: "memp_inv sizes a (pools s)" using inv by (simp add: pbuf_inv_def)
  have "(9::nat) < 10" by simp
  from mi this show ?thesis
  proof (rule memp_malloc_live)
    fix m assume m: "memp_malloc MEMP_PBUF_POOL (pools s) = Some (NULL, m)" "memp_inv sizes a m"
      "\<And>t'. t' < MEMP_MAX \<Longrightarrow> memp_live sizes a t' m = memp_live sizes a t' (pools s)"
    have "live sizes a (pbuf_pool_is_empty (s\<lparr>pools := m\<rparr>)) = live sizes a s"
      by (simp add: live_def pbuf_pool_is_empty_def m(3))
    then show ?thesis
      using m inv by (simp add: pbuf_alloc_def Let_def pbuf_inv_def pbuf_pool_is_empty_def)
  next
    fix p m assume m: "memp_malloc MEMP_PBUF_POOL (pools s) = Some (p, m)" "p \<noteq> NULL" "p mod MEM_ALIGNMENT = 0"
      "memp_inv sizes a m" "p \<notin> memp_live sizes a MEMP_PBUF_POOL (pools s)"
      "p \<in> set (pool_elems sizes a MEMP_PBUF_POOL)"
      "\<And>t'. t' < MEMP_MAX \<Longrightarrow> memp_live sizes a t' m =
        (if t' = MEMP_PBUF_POOL then insert p (memp_live sizes a MEMP_PBUF_POOL (pools s)) else memp_live sizes a t' (pools s))"
    define off where "off = LWIP_MEM_ALIGN_SIZE (layer_offset layer)"
    have off: "LWIP_MEM_ALIGN_SIZE (p + (24 + layer_offset layer)) = p + 24 + off" "off \<le> 56" "off mod 4 = 0"
      using layer_offset_aligned [OF m(3)] by (simp_all add: off_def)
    define k where "k = min n (592 - off)"
    define s1 where "s1 = s\<lparr>pools := m, pbufs := (pbufs s)(p := (pbufs s p)\<lparr>pb_type := PBUF_POOL, pb_next := NULL,
      pb_payload := p + 24 + off, pb_tot_len := n, pb_len := k, pb_ref := 1\<rparr>)\<rparr>"
    have fresh: "(Pool, p) \<notin> live sizes a s" using m(5) by (simp add: live_iff)
    have "live sizes a s1 = insert (Pool, p) (live sizes a s)"
      by (intro live_eqI) (auto simp: live_iff s1_def m(7))
    then have t1: "tail_inv sizes a s s1 p [p] (n - k)"
      using inv m n off(2) stale fresh unfolding tail_inv_def
      by (auto simp: s1_def pbuf_inv_def pool_pbuf_def k_def)
    obtain ok s2 where tail: "pbuf_pool_tail cf p p (n - k) s1 = Some (ok, s2)"
      "if ok then (\<exists>qs. tail_inv sizes a s s2 p ([p] @ qs) 0)
            \<and> (\<forall>x\<in>set [p]. payload s2 x = payload s1 x \<and> tot_len s2 x = tot_len s1 x)
       else pbuf_inv sizes a s2 \<and> live sizes a s2 = live sizes a s \<and> bytes s2 = bytes s"
      using pbuf_pool_tail_correct [OF t1, of cf] by auto
    have "(p + 24 + off) mod 4 = 0" using m(3) off(3) by (simp add: mod_add_eq [symmetric])
    then have alloc: "pbuf_alloc cf layer n PBUF_POOL s =
        (if ok then Some (p, upd p (\<lambda>x. x\<lparr>pb_ref := 1, pb_flags := 0\<rparr>) s2) else Some (NULL, s2))"
      using m(1,2) off tail(1) unfolding pbuf_alloc_def
      by (simp add: Let_def upd_def k_def s1_def off_def)
    show ?thesis
    proof (cases ok)
      case False
      then show ?thesis using alloc tail(2) by auto
    next
      case True
      then obtain qs where t2: "tail_inv sizes a s s2 p (p # qs) 0" using tail(2) by auto
      have head: "payload s2 p = p + 24 + off" "tot_len s2 p = n" using tail(2) True by (auto simp: s1_def)
      define s' where "s' = upd p (\<lambda>x. x\<lparr>pb_ref := 1, pb_flags := 0\<rparr>) s2"
      note i = t2 [unfolded tail_inv_def]
      have "tot_ok s' (p # qs)" using i tot_rem_0 [of s2] tot_ok_cong [of "p # qs" s' s2] by (auto simp: s'_def)
      moreover have "chain (nxt s') p (p # qs)" using i by (subst chain_cong [where nxt = "nxt s2"]) (auto simp: s'_def)
      ultimately have packet: "packet s' p (p # qs)" unfolding packet_def by simp
      have lv: "live sizes a s' = live sizes a s \<union> Pair Pool ` set (p # qs)" "pbuf_inv sizes a s'" "bytes s' = bytes s"
        using i by (simp_all add: s'_def live_def pbuf_inv_def)
      have pool: "\<forall>x\<in>set (p # qs). pool_pbuf sizes a s' x" using i by (auto simp: pool_pbuf_def s'_def)
      have fields: "tot_len s' p = n" "payload s' p = p + 24 + off" using head by (simp_all add: s'_def)
      have frame: "\<forall>x. x \<notin> set (p # qs) \<longrightarrow> pbufs s' x = pbufs s x" using i by (auto simp: s'_def)
      have disj: "Pair Pool ` set (p # qs) \<inter> live sizes a s = {}" using i by blast
      have "pbuf_alloc cf layer n PBUF_POOL s = Some (p, s')" using alloc True by (simp add: s'_def)
      then show ?thesis
        using packet lv pool fields frame disj m(2) unfolding off_def [symmetric]
        by (intro exI [of _ p] exI [of _ s']) (simp only: if_False, blast)
    qed
  qed
qed

section \<open>Properties\<close>

text \<open>
  A state for the witnesses: a packet of 5 bytes at 100 and 200, one of 4 bytes at 300, the
  string \<open>aab\<close> at 4000.
\<close>

definition pb0 :: "addr \<Rightarrow> addr \<Rightarrow> nat \<Rightarrow> nat \<Rightarrow> pbuf" where
  "pb0 q pl t l = \<lparr>pb_next = q, pb_payload = pl, pb_tot_len = t, pb_len = l, pb_type = PBUF_RAM, pb_flags = 0, pb_ref = 1\<rparr>"

definition ex0 :: pbuf_state where
  "ex0 = \<lparr>pbufs = (\<lambda>_. pb0 0 0 0 0)(100 := pb0 200 1000 5 3, 200 := pb0 0 2000 2 2, 300 := pb0 0 3000 4 4),
     bytes = (\<lambda>_. 98)(3000 := 97, 3001 := 97, 3002 := 97, 4000 := 97, 4001 := 97),
     heap = heap0, pools = pools0, pbuf_free_ooseq_pending = False\<rparr>"

lemma ex0_packets: "packet ex0 100 [100, 200]" "packet ex0 300 [300]"
  by (simp_all add: packet_def ex0_def pb0_def)

lemma ex0_data: "data ex0 [100, 200] = [98, 98, 98, 98, 98]" "data ex0 [300] = [97, 97, 97, 98]"
  by (simp_all add: data_def pdata_def mem_bytes_def ex0_def pb0_def upt_rec)

lemma ex0_inv: "pbuf_inv sizes0 4 ex0"
  using pools0_inv heap0_inv unfolding pbuf_inv_def mem_inv_def by (auto simp: ex0_def)

text \<open>
  C10. \<^verbatim>\<open>pbuf_copy\<close> returns, trips none of its assertions and puts the data of the source packet at the
  front of the target packet, however the two are cut into pbufs; the rest of the target and the
  source keep their data, and no struct changes. (Neither packet may end in empty pbufs, the
  payloads of the target may overlap neither each other nor the source.)
\<close>

theorem pbuf_copy_data:
  assumes "packet s p_to ts" "packet s p_from fs" "solid s ts" "solid s fs"
    and "payloads_disjoint s ts" "all_apart s ts fs" "tot_len s p_from \<le> tot_len s p_to"
  shows "\<exists>s'. pbuf_copy p_to p_from s = Some (ERR_OK, s')
    \<and> data s' ts = data s fs @ drop (length (data s fs)) (data s ts) \<and> data s' fs = data s fs
    \<and> pbufs s' = pbufs s \<and> heap s' = heap s \<and> pools s' = pools s"
proof -
  obtain ts' where ts: "ts = p_to # ts'" using assms(1) by (cases ts) (auto simp: packet_def)
  obtain fs' where fs: "fs = p_from # fs'" using assms(2) by (cases fs) (auto simp: packet_def)
  have len: "length (data s fs) \<le> length (data s ts)"
    using packet_length [OF assms(1)] packet_length [OF assms(2)] assms(7) by simp
  have "copied_ok s ts 0 (data s fs) (pbuf_copy_loop p_to p_from 0 0 s)"
    using pbuf_copy_loop_correct [of s p_to ts' p_from fs' 0 0] assms(1-6) len
    unfolding packet_def ts fs by simp
  then obtain b where b: "pbuf_copy_loop p_to p_from 0 0 s = Some (s\<lparr>bytes := b\<rparr>)"
    "data (s\<lparr>bytes := b\<rparr>) ts = data s fs @ drop (length (data s fs)) (data s ts)"
    "\<forall>a. (\<forall>x\<in>set ts. \<not> in_payload s x a) \<longrightarrow> b a = bytes s a"
    unfolding copied_ok_def by auto
  have "data (s\<lparr>bytes := b\<rparr>) fs = data s fs"
  proof (rule data_cong)
    fix y assume y: "y \<in> set fs"
    have "b (payload s y + i) = bytes s (payload s y + i)" if "i < len s y" for i
    proof -
      have "\<not> in_payload s x (payload s y + i)" if "x \<in> set ts" for x
      proof -
        have "apart (payload s x) (len s x) (payload s y) (len s y)"
          using assms(6) y that by (simp add: all_apart_def payload_apart_def)
        then show ?thesis using \<open>i < len s y\<close> by (auto simp: apart_def in_payload_def)
      qed
      then show ?thesis using b(3) by blast
    qed
    then show "pdata (s\<lparr>bytes := b\<rparr>) y = pdata s y" by (auto simp: pdata_def intro: mem_bytes_cong)
  qed
  then show ?thesis
    using b packet_nonNULL [OF assms(1)] packet_nonNULL [OF assms(2)] assms(7)
    unfolding pbuf_copy_def by auto
qed

theorem pbuf_copy_data_witness:
  "\<exists>s'. pbuf_copy 100 300 ex0 = Some (ERR_OK, s') \<and> data s' [100, 200] = [97, 97, 97, 98, 98]"
proof -
  have "solid ex0 [100, 200]" "solid ex0 [300]" "payloads_disjoint ex0 [100, 200]"
    "all_apart ex0 [100, 200] [300]" "tot_len ex0 300 \<le> tot_len ex0 100"
    by (simp_all add: ex0_def pb0_def payload_apart_def apart_def all_apart_def)
  from pbuf_copy_data [OF ex0_packets this] show ?thesis by (auto simp only: ex0_data) simp
qed

text \<open>
  Writing a buffer into a packet with \<^verbatim>\<open>pbuf_take\<close> and reading it back with
  \<^verbatim>\<open>pbuf_copy_partial\<close> gives the same bytes, and \<^verbatim>\<open>pbuf_take\<close> leaves the packet's other bytes alone.
\<close>

theorem pbuf_take_copy_roundtrip:
  assumes "packet s p ps" "payloads_disjoint s ps" "n \<le> tot_len s p" "src \<noteq> NULL" "dst \<noteq> NULL"
    and "\<forall>x\<in>set ps. payload_apart s x src n" "\<forall>x\<in>set ps. payload_apart s x dst n"
  shows "\<exists>s1 s2. pbuf_take p src n s = Some (ERR_OK, s1)
    \<and> data s1 ps = mem_bytes (bytes s) src n @ drop n (data s ps)
    \<and> pbuf_copy_partial p dst n 0 s1 = Some (n, s2)
    \<and> mem_bytes (bytes s2) dst n = mem_bytes (bytes s) src n"
proof -
  have len: "tot_len s p = length (data s ps)" "length (data s ps) < 65536" "p \<noteq> NULL" "chain (nxt s) p ps"
    using packet_length [OF assms(1)] packet_nonNULL [OF assms(1)] packet_chain [OF assms(1)] by auto
  have fits: "n \<le> length (data s ps)" "0 + n < 65536" using assms(3) len(1,2) by auto
  obtain b where b: "pbuf_take_loop p src n 0 s = Some (s\<lparr>bytes := b\<rparr>)"
    "data (s\<lparr>bytes := b\<rparr>) ps = mem_bytes (bytes s) src n @ drop n (data s ps)"
    using pbuf_take_loop_chain [OF len(4) assms(2) fits(1), of src 0] assms(6) fits(2) by auto
  define s1 where "s1 = s\<lparr>bytes := b\<rparr>"
  have d1: "length (data s1 ps) = length (data s ps)" using b(2) fits(1) by (simp add: s1_def)
  have s1: "chain (nxt s1) p ps" "\<forall>x\<in>set ps. payload_apart s1 x dst (0 + n)"
    using len(4) assms(7) by (simp_all add: s1_def payload_apart_def)
  from pbuf_copy_partial_loop_chain [OF s1 fits(2) refl, of 0] obtain b' where
    "pbuf_copy_partial_loop p dst n 0 0 0 s1 = Some (n, s1\<lparr>bytes := b'\<rparr>)"
    "mem_bytes b' dst n = take n (data s1 ps)"
    using fits(1) d1 by (auto simp: min_absorb1)
  then show ?thesis
    using b fits(1) len assms(3-5) unfolding pbuf_take_def pbuf_copy_partial_def
    by (auto simp: s1_def)
qed

theorem pbuf_take_copy_roundtrip_witness:
  "\<exists>s1 s2. pbuf_take 100 4000 5 ex0 = Some (ERR_OK, s1) \<and> pbuf_copy_partial 100 5000 5 0 s1 = Some (5, s2)
    \<and> mem_bytes (bytes s2) 5000 5 = [97, 97, 98, 98, 98]"
proof -
  have "payloads_disjoint ex0 [100, 200]" "5 \<le> tot_len ex0 100"
    "\<forall>x\<in>set [100, 200]. payload_apart ex0 x 4000 5" "\<forall>x\<in>set [100, 200]. payload_apart ex0 x 5000 5"
    by (simp_all add: ex0_def pb0_def payload_apart_def apart_def)
  moreover have "mem_bytes (bytes ex0) 4000 5 = [97, 97, 98, 98, 98]"
    by (simp add: mem_bytes_def ex0_def upt_rec)
  ultimately show ?thesis
    using pbuf_take_copy_roundtrip [OF ex0_packets(1), of 5 4000 5000] by auto
qed

text \<open>
  \<^verbatim>\<open>pbuf_copy_partial\<close> copies exactly the bytes from the given offset on, at most the number asked
  for and never beyond the packet, returns their number, and writes nowhere else.
\<close>

theorem pbuf_copy_partial_bytes:
  assumes "packet s p ps" "dst \<noteq> NULL" "n < 65536" "\<forall>x\<in>set ps. payload_apart s x dst n"
  shows "\<exists>s'. pbuf_copy_partial p dst n off s = Some (length (take n (drop off (data s ps))), s')
    \<and> mem_bytes (bytes s') dst (length (take n (drop off (data s ps)))) = take n (drop off (data s ps))
    \<and> (\<forall>a. \<not> (dst \<le> a \<and> a < dst + n) \<longrightarrow> bytes s' a = bytes s a) \<and> pbufs s' = pbufs s"
proof -
  have s: "chain (nxt s) p ps" "p \<noteq> NULL" using packet_chain [OF assms(1)] packet_nonNULL [OF assms(1)] by auto
  have "\<forall>x\<in>set ps. payload_apart s x dst (0 + n)" "0 + n < 65536" using assms(3,4) by auto
  from pbuf_copy_partial_loop_chain [OF s(1) this refl, of off] show ?thesis
    using s(2) assms(2) unfolding pbuf_copy_partial_def by (auto simp: min.commute)
qed

theorem pbuf_copy_partial_bytes_witness:
  "\<exists>s'. pbuf_copy_partial 300 5000 10 2 ex0 = Some (2, s') \<and> mem_bytes (bytes s') 5000 2 = [97, 98]"
proof -
  have "\<forall>x\<in>set [300]. payload_apart ex0 x 5000 10"
    by (simp add: ex0_def pb0_def payload_apart_def apart_def)
  from pbuf_copy_partial_bytes [OF ex0_packets(2) _ _ this, of 2] show ?thesis
    unfolding ex0_data by (auto simp: numeral_2_eq_2)
qed

text \<open>
  \<^verbatim>\<open>pbuf_cat\<close> of two packets that share no pbuf gives one packet with the data of both, and keeps
  the invariant on \<^verbatim>\<open>tot_len\<close> in every pbuf, as long as the sum fits 16 bits.
\<close>

theorem pbuf_cat_concatenates:
  assumes "packet s h hs" "packet s t ts" "set hs \<inter> set ts = {}" "tot_len s h + tot_len s t < 65536"
  shows "\<exists>s'. pbuf_cat h t s = Some s' \<and> packet s' h (hs @ ts)
    \<and> data s' (hs @ ts) = data s hs @ data s ts \<and> tot_len s' h = tot_len s h + tot_len s t
    \<and> (\<forall>x. ref s' x = ref s x)"
proof -
  have len: "length (data s hs) + length (data s ts) < 65536"
    using assms(4) packet_length [OF assms(1)] packet_length [OF assms(2)] by simp
  obtain s' where s': "pbuf_cat h t s = Some s'" "packet s' h (hs @ ts)"
    "data s' (hs @ ts) = data s hs @ data s ts" "\<forall>x. ref s' x = ref s x"
    using pbuf_cat_packet [OF assms(1-3) len] by blast
  have "tot_len s' h = tot_len s h + tot_len s t"
    using packet_length [OF s'(2)] packet_length [OF assms(1)] packet_length [OF assms(2)]
    unfolding s'(3) by simp
  then show ?thesis using s' by blast
qed

theorem pbuf_cat_concatenates_witness:
  "\<exists>s'. pbuf_cat 300 100 ex0 = Some s' \<and> data s' [300, 100, 200] = [97, 97, 97, 98, 98, 98, 98, 98, 98]
    \<and> tot_len s' 300 = 9"
proof -
  have "tot_len ex0 300 = 4" "tot_len ex0 100 = 5" by (simp_all add: ex0_def pb0_def)
  then show ?thesis
    using pbuf_cat_concatenates [OF ex0_packets(2,1)] unfolding ex0_data by auto
qed

text \<open>
  Hiding a header with \<^verbatim>\<open>pbuf_header\<close> drops its bytes from the packet's data and keeps the packet
  invariant; revealing it again restores the packet exactly.
\<close>

theorem pbuf_header_roundtrip:
  assumes "packet s p (p # ps)" "0 < n" "n \<le> len s p"
    and "pb_type (pbufs s p) = PBUF_RAM \<or> pb_type (pbufs s p) = PBUF_POOL" "p + SIZEOF_STRUCT_PBUF \<le> payload s p"
  shows "\<exists>s'. pbuf_header p (- int n) s = Some (0, s') \<and> packet s' p (p # ps)
    \<and> data s' (p # ps) = drop n (data s (p # ps)) \<and> pbuf_header p (int n) s' = Some (0, s)"
proof -
  have tot: "len s p \<le> tot_len s p" "tot_len s p < 65536" using assms(1) by (auto simp: packet_def)
  obtain s' where s': "pbuf_header p (- int n) s = Some (0, s')" "packet s' p (p # ps)"
    "data s' (p # ps) = drop n (data s (p # ps))" "bytes s' = bytes s"
    "pbufs s' = (pbufs s)(p := (pbufs s p)\<lparr>pb_payload := payload s p + n, pb_len := len s p - n,
                                   pb_tot_len := tot_len s p - n\<rparr>)"
    using pbuf_header_hide [OF assms(1-3)] assms(5) by blast
  have "s' = s\<lparr>pbufs := pbufs s'\<rparr>"
    using s'(1) by (auto simp: pbuf_header_def Let_def upd_def split: if_splits)
  moreover have "pbuf_header p (int n) s' = Some (0, s'\<lparr>pbufs := (pbufs s')(p := (pbufs s' p)\<lparr>pb_payload := payload s' p - n,
           pb_len := len s' p + n, pb_tot_len := tot_len s' p + n\<rparr>)\<rparr>)"
    using assms(2-5) packet_nonNULL [OF assms(1)] tot by (intro pbuf_header_reveal) (auto simp: s'(5))
  moreover have "(pbufs s')(p := (pbufs s' p)\<lparr>pb_payload := payload s' p - n,
      pb_len := len s' p + n, pb_tot_len := tot_len s' p + n\<rparr>) = pbufs s"
    using assms(2,3) tot unfolding s'(5) by auto
  ultimately have "pbuf_header p (int n) s' = Some (0, s)" by (metis pbuf_state.surjective pbuf_state.update_convs(1))
  then show ?thesis using s' by blast
qed

theorem pbuf_header_roundtrip_witness:
  "\<exists>s'. pbuf_header 100 (-2) ex0 = Some (0, s') \<and> data s' [100, 200] = [98, 98, 98]
    \<and> pbuf_header 100 2 s' = Some (0, ex0)"
proof -
  have "pb_type (pbufs ex0 100) = PBUF_RAM" "100 + 24 \<le> payload ex0 100" "2 \<le> len ex0 100"
    by (simp_all add: ex0_def pb0_def)
  then show ?thesis using pbuf_header_roundtrip [OF ex0_packets(1), of 2] unfolding ex0_data by auto
qed

text \<open>
  \<^verbatim>\<open>pbuf_free\<close> drops one reference along the chain: it gives the pbufs at the head that had just one
  reference back to the heap or pool they came from, and only those, takes one reference from
  the first that had more, and touches nothing behind it. It returns the number it freed.
\<close>

theorem pbuf_free_references:
  assumes "chain (nxt s) p ps" "p \<noteq> NULL" "pbuf_inv sizes a s" "\<forall>x\<in>set ps. 1 \<le> ref s x \<and> ref s x < 65536"
    and "\<forall>x\<in>set (take (free_count s ps) ps). owned sizes a s x"
  shows "\<exists>s'. pbuf_free cf p s = Some (to_u8 (free_count s ps), s') \<and> pbuf_inv sizes a s'
    \<and> live sizes a s' = live sizes a s - key s ` set (take (free_count s ps) ps)
    \<and> pbufs s' = (\<lambda>x. if x \<in> set (take (Suc (free_count s ps)) ps)
                      then (pbufs s x)\<lparr>pb_ref := ref s x - 1\<rparr> else pbufs s x)
    \<and> bytes s' = bytes s"
  using pbuf_free_loop_chain [OF assms(1,3-5), of 0 cf] assms(2)
  unfolding pbuf_free_def free_refs_def by simp

text \<open>An element of the pool, taken, and a pbuf in it.\<close>

lemma pool_taken:
  assumes "t < MEMP_MAX" "0 < memp_num t"
  shows "\<exists>m p. memp_inv sizes0 4 m \<and> p \<in> memp_live sizes0 4 t m \<and> p \<noteq> NULL"
  using pools0_inv assms(1)
proof (rule memp_malloc_live)
  fix m assume m: "memp_malloc t pools0 = Some (NULL, m)"
  have "length (rev (pool_elems sizes0 4 t)) = memp_num t" by (simp add: pool_elems_def)
  then obtain x xs where el: "rev (pool_elems sizes0 4 t) = x # xs"
    using assms(2) by (cases "rev (pool_elems sizes0 4 t)") auto
  then have "x \<in> set (pool_elems sizes0 4 t)" by (metis list.set_intros(1) set_rev)
  then have "x \<noteq> NULL" using pool_elems_aligned [OF sizes0_ok, of 4 t x] assms(1) by simp
  then show ?thesis using m memp_malloc_pop [OF pools0_rep assms(1), of x xs] el by auto
next
  fix p m
  assume m: "p \<noteq> NULL" "memp_inv sizes0 4 m"
    and live: "\<And>t'. t' < MEMP_MAX \<Longrightarrow> memp_live sizes0 4 t' m =
      (if t' = t then insert p (memp_live sizes0 4 t pools0) else memp_live sizes0 4 t' pools0)"
  have "p \<in> memp_live sizes0 4 t m" using live [OF assms(1)] by (simp only: if_True refl insertI1)
  then show ?thesis using m by blast
qed

lemma pools0_taken: "\<exists>m p. memp_inv sizes0 4 m \<and> p \<in> memp_live sizes0 4 MEMP_PBUF_POOL m \<and> p \<noteq> NULL"
  by (rule pool_taken) (simp_all add: memp_num_def)

theorem pbuf_free_references_witness:
  "\<exists>s s' p. pbuf_free (\<lambda>_ _. None) p s = Some (1, s') \<and> live sizes0 4 s' = live sizes0 4 s - {(Pool, p)}
     \<and> (Pool, p) \<in> live sizes0 4 s"
proof -
  obtain m p where m: "memp_inv sizes0 4 m" "p \<in> memp_live sizes0 4 MEMP_PBUF_POOL m" "p \<noteq> NULL"
    using pools0_taken by blast
  define s where "s = ex0\<lparr>pbufs := (\<lambda>_. (pb0 0 0 0 0)\<lparr>pb_type := PBUF_POOL\<rparr>), pools := m\<rparr>"
  have s: "chain (nxt s) p [p]" "pbuf_inv sizes0 4 s" "\<forall>x\<in>set [p]. 1 \<le> ref s x \<and> ref s x < 65536"
    "free_count s [p] = 1" "key s p = (Pool, p)" "(Pool, p) \<in> live sizes0 4 s"
    using ex0_inv m by (auto simp: s_def pb0_def pbuf_inv_def key_def store_of_def live_iff)
  have "owned sizes0 4 s p" using s by (simp add: owned_def) (simp add: s_def pb0_def)
  then show ?thesis
    using pbuf_free_references [OF s(1) m(3) s(2,3), of "\<lambda>_ _. None"] s(4-6) by auto
qed

text \<open>
  \<^verbatim>\<open>pbuf_alloc\<close> from the pool either returns a chain with the length asked for, every pbuf in a fresh
  element of the pool with its payload inside that element and the packet invariant in place, or
  returns \<^verbatim>\<open>NULL\<close> with everything it had taken given back. The second case reads the \<^verbatim>\<open>flags\<close> of a
  head that have not been set yet: it needs them not to say \<^verbatim>\<open>PBUF_FLAG_IS_CUSTOM\<close>.
\<close>

theorem pbuf_alloc_pool:
  assumes "pbuf_inv sizes a s" "n < 65536"
    and "\<forall>x\<in>set (pool_elems sizes a MEMP_PBUF_POOL). pb_flags (pbufs s x) AND PBUF_FLAG_IS_CUSTOM = 0"
  shows "\<exists>p s'. pbuf_alloc cf layer n PBUF_POOL s = Some (p, s') \<and> pbuf_inv sizes a s' \<and> bytes s' = bytes s
    \<and> (if p = NULL then live sizes a s' = live sizes a s
       else \<exists>ps. packet s' p ps \<and> tot_len s' p = n \<and> (\<forall>x\<in>set ps. pool_pbuf sizes a s' x)
         \<and> payload s' p = p + SIZEOF_STRUCT_PBUF + LWIP_MEM_ALIGN_SIZE (layer_offset layer)
         \<and> Pair Pool ` set ps \<inter> live sizes a s = {} \<and> live sizes a s' = live sizes a s \<union> Pair Pool ` set ps
         \<and> (\<forall>x. x \<notin> set ps \<longrightarrow> pbufs s' x = pbufs s x))"
  using pbuf_alloc_pool_correct [OF assms] .

theorem pbuf_alloc_pool_witness:
  "\<exists>p s'. pbuf_alloc (\<lambda>_ _. None) PBUF_TRANSPORT 1500 PBUF_POOL ex0 = Some (p, s') \<and> pbuf_inv sizes0 4 s'
    \<and> (p \<noteq> NULL \<longrightarrow> tot_len s' p = 1500)"
proof -
  have "\<forall>x\<in>set (pool_elems sizes0 4 MEMP_PBUF_POOL). pb_flags (pbufs ex0 x) AND PBUF_FLAG_IS_CUSTOM = 0"
    by (simp add: ex0_def pb0_def)
  from pbuf_alloc_pool [OF ex0_inv _ this, of 1500 "\<lambda>_ _. None" PBUF_TRANSPORT] show ?thesis
    by (auto split: if_splits)
qed

text \<open>
  \<^verbatim>\<open>pbuf_get_at\<close> reads the byte at an offset of the packet's data, and zero beyond its end;
  \<^verbatim>\<open>pbuf_memcmp\<close> returns one more than the offset of the first difference, zero when there is none,
  and \<^verbatim>\<open>0xffff\<close> when the start offset is beyond the packet. Past the end of the packet it compares
  against zeros, so it does not notice that the packet is too short.
\<close>

theorem pbuf_reading:
  assumes "packet s p ps" "off + n < 65536"
  shows "pbuf_get_at p off s = Some (if off < tot_len s p then data s ps ! off else 0)
    \<and> pbuf_memcmp p off s2 n s =
        Some (if off < tot_len s p then first_diff (padded (data s ps) off n) (mem_bytes (bytes s) s2 n) else 0xffff)"
  using pbuf_get_at_chain [OF packet_chain [OF assms(1)], of off] pbuf_memcmp_packet [OF assms]
    packet_length [OF assms(1)] by simp

theorem pbuf_reading_witness:
  "pbuf_get_at 100 4 ex0 = Some 98 \<and> pbuf_get_at 100 7 ex0 = Some 0 \<and> pbuf_memcmp 300 0 4000 3 ex0 = Some 3"
proof -
  have tot: "tot_len ex0 100 = 5" "tot_len ex0 300 = 4" by (simp_all add: ex0_def pb0_def)
  have "padded [97, 97, 97, 98] 0 3 = [97, 97, 97]" "mem_bytes (bytes ex0) 4000 3 = [97, 97, 98]"
    by (simp_all add: padded_def mem_bytes_def ex0_def upt_rec)
  then show ?thesis
    using pbuf_reading [OF ex0_packets(1), of 4 0] pbuf_reading [OF ex0_packets(1), of 7 0]
      pbuf_reading [OF ex0_packets(2), of 0 3 4000] unfolding tot ex0_data by simp
qed

text \<open>
  \<^verbatim>\<open>pbuf_memfind\<close> always returns, and when it returns an index other than \<^verbatim>\<open>0xFFFF\<close> the bytes looked for
  are in the packet at that index.
\<close>

theorem pbuf_memfind_sound:
  assumes "packet s p ps" "0 < n" "n < 65536" "start < 65536"
  shows "\<exists>r. pbuf_memfind p mem n start s = Some r
    \<and> (r = 0xFFFF \<or> start \<le> r \<and> r + n \<le> tot_len s p
         \<and> take n (drop r (data s ps)) = mem_bytes (bytes s) mem n)"
proof (cases "n + start \<le> tot_len s p")
  case True
  have len: "tot_len s p = length (data s ps)" "length (data s ps) < 65536" using packet_length [OF assms(1)] by auto
  then have "to_u16 (tot_len s p + 65536 - n) = length (data s ps) - n" using True by (simp add: to_u16_sub)
  then show ?thesis
    using pbuf_memfind_loop_sound [OF assms(1,2), of "length (data s ps) - n" mem start] True len
      packet_nonNULL [OF assms(1)] by (simp add: pbuf_memfind_def Let_def)
next
  case False
  then show ?thesis using packet_nonNULL [OF assms(1)] by (simp add: pbuf_memfind_def Let_def)
qed

theorem pbuf_memfind_sound_witness:
  "\<exists>r. pbuf_memfind 300 4000 2 1 ex0 = Some r \<and> (r = 0xFFFF \<or> 1 \<le> r \<and> r + 2 \<le> 4)"
proof -
  have "tot_len ex0 300 = 4" by (simp add: ex0_def pb0_def)
  then show ?thesis using pbuf_memfind_sound [OF ex0_packets(2), of 2 1 4000] by auto
qed

text \<open>
  \<^verbatim>\<open>pbuf_memfind\<close> is not complete: after a partial match it skips ahead past the first difference,
  and misses an occurrence that starts in between. The string \<open>aab\<close> is in the packet \<open>aaab\<close> at
  offset 1, and is reported as not found.
\<close>

theorem pbuf_memfind_misses:
  "take 3 (drop 1 (data ex0 [300])) = mem_bytes (bytes ex0) 4000 3 \<and> packet ex0 300 [300]
   \<and> pbuf_memfind 300 4000 3 0 ex0 = Some 0xFFFF"
proof -
  have tot: "tot_len ex0 300 = 4" by (simp add: ex0_def pb0_def)
  have mem: "mem_bytes (bytes ex0) 4000 3 = [97, 97, 98]" by (simp add: mem_bytes_def ex0_def upt_rec)
  have "padded [97, 97, 97, 98] 0 3 = [97, 97, 97]" by (simp add: padded_def upt_rec)
  then have "pbuf_memcmp 300 0 4000 3 ex0 = Some 3"
    using pbuf_memcmp_packet [OF ex0_packets(2), of 0 3 4000] unfolding ex0_data mem by simp
  then have "pbuf_memfind_loop 300 4000 3 1 0 ex0 = Some 0xFFFF"
    by (subst pbuf_memfind_loop.simps, simp, subst pbuf_memfind_loop.simps, simp)
  then show ?thesis
    using ex0_packets(2) unfolding ex0_data mem by (simp add: pbuf_memfind_def tot to_u16_def)
qed

text \<open>
  \<^verbatim>\<open>pbuf_alloc\<close> of type \<^verbatim>\<open>PBUF_RAM\<close> computes the size of its memory in the 16-bit \<^verbatim>\<open>mem_size_t\<close>. When
  the size with header and alignment exceeds 65535 it wraps: for 65530 bytes at the raw layer
  20 bytes are requested, and the pbuf returned claims 65530 bytes of payload.
\<close>

theorem pbuf_alloc_ram_wraps:
  "\<exists>p s'. pbuf_alloc cf PBUF_RAW 65530 PBUF_RAM ex0 = Some (p, s') \<and> p \<noteq> NULL \<and> len s' p = 65530
     \<and> heap_inv (heap s') [(0, 28, True), (28, 16000, False)]"
proof -
  obtain m where m: "mem_malloc 20 heap0 = Some (12, m)" "heap_inv m [(0, 28, True), (28, 16000, False)]"
    using mem_malloc_Some [OF heap0_inv, of 20]
    by (auto simp: heap0_ram norm_size_def LWIP_MEM_ALIGN_SIZE_def Let_def)
  have "pbuf_alloc cf PBUF_RAW 65530 PBUF_RAM ex0 =
      Some (12, upd 12 (\<lambda>x. x\<lparr>pb_ref := 1, pb_flags := 0\<rparr>) (upd 12 (\<lambda>x. x\<lparr>pb_payload := 36, pb_tot_len := 65530,
        pb_len := 65530, pb_next := NULL, pb_type := PBUF_RAM\<rparr>) (ex0\<lparr>heap := m\<rparr>)))"
    using m(1) by (simp add: pbuf_alloc_def layer_offset_def LWIP_MEM_ALIGN_SIZE_def to_u16_def Let_def)
      (simp add: ex0_def LWIP_MEM_ALIGN_SIZE_def)
  then show ?thesis using m(2) by auto
qed

end
