(* ===== verification/Asn1.thy ===== *)
theory Asn1
  imports Pbuf
begin

unbundle bit_operations_syntax

text \<open>
  ASN.1 coding for SNMP: \<^verbatim>\<open>core/snmp/asn1_enc.c\<close> and \<^verbatim>\<open>core/snmp/asn1_dec.c\<close>. Both work on a chain of pbufs
  through the same three variables, kept here in a cursor: the pbuf, the pointer into its
  payload, the offset in the packet and the end of the pbuf in the packet, both 16 bits wide. A chain that does not
  end is \<open>None\<close>; the result of every function is an \<^verbatim>\<open>err_t\<close> and what it writes.
  Signed 32-bit numbers are words; their shifts are arithmetic.
\<close>

section \<open>The cursor\<close>

record cursor =
  cu_p :: addr
  cu_ptr :: addr
  cu_ofs :: nat
  cu_plen :: nat

text \<open>The loop that looks for the pbuf with the offset; the inner \<open>None\<close> is the end of the chain, where all functions return \<^verbatim>\<open>ERR_ARG\<close>.\<close>

partial_function (option) asn_seek :: "pbuf_state \<Rightarrow> addr \<Rightarrow> nat \<Rightarrow> nat \<Rightarrow> cursor option option" where
  "asn_seek s p ofs plen =
     (if p = NULL then Some None
      else
        let base = plen; plen = to_u16 (plen + len s p)
        in if ofs < plen
           then Some (Some \<lparr>cu_p = p, cu_ptr = payload s p + (ofs - base), cu_ofs = ofs, cu_plen = plen\<rparr>)
           else asn_seek s (nxt s p) ofs plen)"

text \<open>On to the next octet, in the same or the next pbuf; \<open>None\<close> at the end of the chain.\<close>

definition asn_next :: "pbuf_state \<Rightarrow> cursor \<Rightarrow> cursor option" where
  "asn_next s c =
     (let ofs = to_u16 (cu_ofs c + 1)
      in if ofs \<ge> cu_plen c
         then
           let p = nxt s (cu_p c)
           in if p = NULL then None
              else Some \<lparr>cu_p = p, cu_ptr = payload s p, cu_ofs = ofs, cu_plen = to_u16 (cu_plen c + len s p)\<rparr>
         else Some (c\<lparr>cu_ptr := cu_ptr c + 1, cu_ofs := ofs\<rparr>))"

definition put :: "cursor \<Rightarrow> u8_t \<Rightarrow> pbuf_state \<Rightarrow> pbuf_state" where
  "put c x s = s\<lparr>bytes := (bytes s)(cu_ptr c := x)\<rparr>"

abbreviation get :: "pbuf_state \<Rightarrow> cursor \<Rightarrow> u8_t" where
  "get s c \<equiv> bytes s (cu_ptr c)"

text \<open>The frame of every function: seek, then work from the cursor.\<close>

definition at_offset :: "(cursor \<Rightarrow> 'r) \<Rightarrow> 'r \<Rightarrow> pbuf_state \<Rightarrow> addr \<Rightarrow> nat \<Rightarrow> 'r option" where
  "at_offset f err s p ofs = map_option (\<lambda>c. case c of None \<Rightarrow> err | Some c \<Rightarrow> f c) (asn_seek s p ofs 0)"

section \<open>Octets needed\<close>

definition snmp_asn1_enc_length_cnt :: "nat \<Rightarrow> nat" where
  "snmp_asn1_enc_length_cnt l = (if l < 0x80 then 1 else if l < 0x100 then 2 else 3)"

definition snmp_asn1_enc_u32t_cnt :: "u32_t \<Rightarrow> nat" where
  "snmp_asn1_enc_u32t_cnt value =
     (if value < 0x80 then 1 else if value < 0x8000 then 2 else if value < 0x800000 then 3
      else if value < 0x80000000 then 4 else 5)"

definition snmp_asn1_enc_s32t_cnt :: "u32_t \<Rightarrow> nat" where
  "snmp_asn1_enc_s32t_cnt value =
     (let value = (if sint value < 0 then NOT value else value)
      in if sint value < 0x80 then 1 else if sint value < 0x8000 then 2 else if sint value < 0x800000 then 3 else 4)"

text \<open>The loop that counts the groups of seven bits after the first.\<close>

function subid_cnt :: "u32_t \<Rightarrow> nat \<Rightarrow> nat" where
  "subid_cnt sub_id cnt = (if sint sub_id > 0 then subid_cnt (signed_drop_bit 7 sub_id) (to_u8 (cnt + 1)) else cnt)"
  by pat_completeness auto
termination
  by (relation "measure (\<lambda>(x, n). nat (sint x))") (auto simp: sint_signed_drop_bit_eq drop_bit_eq_div)

declare subid_cnt.simps [simp del]

fun oid_cnt_loop :: "u32_t list \<Rightarrow> nat \<Rightarrow> nat" where
  "oid_cnt_loop [] cnt = cnt"
| "oid_cnt_loop (x # ident) cnt = oid_cnt_loop ident (subid_cnt (signed_drop_bit 7 x) (to_u8 (cnt + 1)))"

definition snmp_asn1_enc_oid_cnt :: "u32_t list \<Rightarrow> nat" where
  "snmp_asn1_enc_oid_cnt ident = (if length ident > 1 then oid_cnt_loop (drop 2 ident) 1 else oid_cnt_loop ident 0)"

section \<open>Encoding\<close>

definition snmp_asn1_enc_type :: "addr \<Rightarrow> nat \<Rightarrow> u8_t \<Rightarrow> pbuf_state \<Rightarrow> (err_t \<times> pbuf_state) option" where
  "snmp_asn1_enc_type p ofs type s = at_offset (\<lambda>c. (ERR_OK, put c type s)) (ERR_ARG, s) s p ofs"

text \<open>
  The octets \<open>oct n\<close>, \dots, \<open>oct 0\<close> in this order: the loops \<^verbatim>\<open>while (octets_needed > 1)\<close> and the octet after them,
  with \<open>n = octets_needed - 1\<close>.
\<close>

fun enc_octets :: "(nat \<Rightarrow> u8_t) \<Rightarrow> nat \<Rightarrow> cursor \<Rightarrow> pbuf_state \<Rightarrow> err_t \<times> pbuf_state" where
  "enc_octets oct 0 c s = (ERR_OK, put c (oct 0) s)"
| "enc_octets oct (Suc n) c s =
     (let s = put c (oct (Suc n)) s
      in case asn_next s c of None \<Rightarrow> (ERR_ARG, s) | Some c \<Rightarrow> enc_octets oct n c s)"

definition snmp_asn1_enc_length :: "addr \<Rightarrow> nat \<Rightarrow> nat \<Rightarrow> pbuf_state \<Rightarrow> (err_t \<times> pbuf_state) option" where
  "snmp_asn1_enc_length p ofs l s =
     at_offset (\<lambda>c.
       if l < 0x80 then (ERR_OK, put c (of_nat l) s)
       else if l < 0x100
       then let s = put c 0x81 s
            in case asn_next s c of None \<Rightarrow> (ERR_ARG, s) | Some c \<Rightarrow> (ERR_OK, put c (of_nat l) s)
       else let s = put c 0x82 s
            in case asn_next s c of None \<Rightarrow> (ERR_ARG, s)
               | Some c \<Rightarrow> enc_octets (\<lambda>i. if i = 0 then of_nat l else of_nat (l div 256)) 1 c s)
       (ERR_ARG, s) s p ofs"

definition snmp_asn1_enc_u32t :: "addr \<Rightarrow> nat \<Rightarrow> nat \<Rightarrow> u32_t \<Rightarrow> pbuf_state \<Rightarrow> (err_t \<times> pbuf_state) option" where
  "snmp_asn1_enc_u32t p ofs octets_needed value s =
     at_offset (\<lambda>c.
       if octets_needed = 5
       then let s = put c 0x00 s
            in case asn_next s c of None \<Rightarrow> (ERR_ARG, s)
               | Some c \<Rightarrow> enc_octets (\<lambda>i. ucast (drop_bit (8 * i) value)) 3 c s
       else enc_octets (\<lambda>i. ucast (drop_bit (8 * i) value)) (octets_needed - 1) c s)
       (ERR_ARG, s) s p ofs"

definition snmp_asn1_enc_s32t :: "addr \<Rightarrow> nat \<Rightarrow> nat \<Rightarrow> u32_t \<Rightarrow> pbuf_state \<Rightarrow> (err_t \<times> pbuf_state) option" where
  "snmp_asn1_enc_s32t p ofs octets_needed value s =
     at_offset (\<lambda>c. enc_octets (\<lambda>i. ucast (signed_drop_bit (8 * i) value)) (octets_needed - 1) c s) (ERR_ARG, s) s p ofs"

text \<open>
  One sub-identifier: the loop over the groups of seven bits above the lowest, leading zero groups
  left out, and the loop over the sub-identifiers.
\<close>

function enc_groups :: "u32_t \<Rightarrow> nat \<Rightarrow> bool \<Rightarrow> cursor \<Rightarrow> pbuf_state \<Rightarrow> cursor option \<times> pbuf_state" where
  "enc_groups sub_id shift tail c s =
     (if \<not> shift > 0 then (Some c, s)
      else
        let code = ucast (signed_drop_bit shift sub_id) :: u8_t
        in if code \<noteq> 0 \<or> tail
           then
             let s = put c (code OR 0x80) s
             in case asn_next s c of None \<Rightarrow> (None, s) | Some c \<Rightarrow> enc_groups sub_id (shift - 7) True c s
           else enc_groups sub_id (shift - 7) tail c s)"
  by pat_completeness auto
termination
  by (relation "measure (\<lambda>(sub_id, shift, tail, c, s). shift)") auto

declare enc_groups.simps [simp del]

fun enc_subids :: "u32_t list \<Rightarrow> cursor \<Rightarrow> pbuf_state \<Rightarrow> err_t \<times> pbuf_state" where
  "enc_subids [] c s = (ERR_OK, s)"
| "enc_subids (x # ident) c s =
     (case enc_groups x 28 False c s of
        (None, s) \<Rightarrow> (ERR_ARG, s)
      | (Some c, s) \<Rightarrow>
          let s = put c (ucast x AND 0x7f) s
          in if ident \<noteq> []
             then case asn_next s c of None \<Rightarrow> (ERR_ARG, s) | Some c \<Rightarrow> enc_subids ident c s
             else (ERR_OK, s))"

definition snmp_asn1_enc_oid :: "addr \<Rightarrow> nat \<Rightarrow> u32_t list \<Rightarrow> pbuf_state \<Rightarrow> (err_t \<times> pbuf_state) option" where
  "snmp_asn1_enc_oid p ofs ident s =
     at_offset (\<lambda>c.
       if length ident > 1
       then
         let s = put c (if ident ! 0 = 1 \<and> ident ! 1 = 3 then 0x2b else ucast (ident ! 0 * 40 + ident ! 1)) s
         in case asn_next s c of None \<Rightarrow> (ERR_ARG, s) | Some c \<Rightarrow> enc_subids (drop 2 ident) c s
       else (ERR_ARG, s))
       (ERR_ARG, s) s p ofs"

fun enc_raw_loop :: "u8_t list \<Rightarrow> cursor \<Rightarrow> pbuf_state \<Rightarrow> err_t \<times> pbuf_state" where
  "enc_raw_loop [] c s = (ERR_OK, s)"
| "enc_raw_loop [x] c s = (ERR_OK, put c x s)"
| "enc_raw_loop (x # y # raw) c s =
     (let s = put c x s
      in case asn_next s c of None \<Rightarrow> (ERR_ARG, s) | Some c \<Rightarrow> enc_raw_loop (y # raw) c s)"

definition snmp_asn1_enc_raw :: "addr \<Rightarrow> nat \<Rightarrow> u8_t list \<Rightarrow> pbuf_state \<Rightarrow> (err_t \<times> pbuf_state) option" where
  "snmp_asn1_enc_raw p ofs raw s = at_offset (\<lambda>c. enc_raw_loop raw c s) (ERR_ARG, s) s p ofs"

section \<open>Decoding\<close>

definition snmp_asn1_dec_type :: "addr \<Rightarrow> nat \<Rightarrow> pbuf_state \<Rightarrow> (err_t \<times> u8_t option) option" where
  "snmp_asn1_dec_type p ofs s = at_offset (\<lambda>c. (ERR_OK, Some (get s c))) (ERR_ARG, None) s p ofs"

text \<open>
  The indefinite form ends with two zero octets. (The counter \<^verbatim>\<open>i\<close> of the source groups the turns of
  the inner loop by two; the outer loop starts it again until \<^verbatim>\<open>zeros\<close> is 2.)
\<close>

partial_function (option) dec_indefinite :: "pbuf_state \<Rightarrow> cursor \<Rightarrow> nat \<Rightarrow> nat \<Rightarrow> (err_t \<times> nat) option" where
  "dec_indefinite s c zeros n =
     (if zeros = 2 then Some (ERR_OK, n)
      else
        let n = to_u16 (n + 1)
        in case asn_next s c of
             None \<Rightarrow> Some (ERR_ARG, n)
           | Some c \<Rightarrow> dec_indefinite s c (if get s c = 0 then zeros + 1 else 0) n)"

text \<open>The result: error, \<^verbatim>\<open>*octets_used\<close> and \<^verbatim>\<open>*length\<close>, \<open>None\<close> for what is not written.\<close>

definition dec_length_at :: "pbuf_state \<Rightarrow> cursor \<Rightarrow> (err_t \<times> nat option \<times> nat option) option" where
  "dec_length_at s c =
     (let b = get s c
      in if b < 0x80 then Some (ERR_OK, Some 1, Some (unat b))
         else if b = 0x80
         then map_option (\<lambda>(e, n). (e, if e = ERR_OK then Some 1 else None, Some n)) (dec_indefinite s c 0 0)
         else if b = 0x81
         then Some (case asn_next s c of
                None \<Rightarrow> (ERR_ARG, None, None)
              | Some c \<Rightarrow> (ERR_OK, Some 2, Some (unat (get s c))))
         else if b = 0x82
         then Some (case asn_next s c of
                None \<Rightarrow> (ERR_ARG, None, None)
              | Some c \<Rightarrow>
                  let hi = 256 * unat (get s c)
                  in case asn_next s c of
                       None \<Rightarrow> (ERR_ARG, None, Some hi)
                     | Some c \<Rightarrow> (ERR_OK, Some 3, Some (hi + unat (get s c))))
         else Some (ERR_ARG, Some (1 + unat (b AND 0x7f)), None))"

definition snmp_asn1_dec_length :: "addr \<Rightarrow> nat \<Rightarrow> pbuf_state \<Rightarrow> (err_t \<times> nat option \<times> nat option) option" where
  "snmp_asn1_dec_length p ofs s =
     (case at_offset (dec_length_at s) (Some (ERR_ARG, None, None)) s p ofs of None \<Rightarrow> None | Some r \<Rightarrow> r)"

fun dec_u32_loop :: "pbuf_state \<Rightarrow> nat \<Rightarrow> cursor \<Rightarrow> u32_t \<Rightarrow> err_t \<times> u32_t" where
  "dec_u32_loop s 0 c value = (ERR_OK, value OR ucast (get s c))"
| "dec_u32_loop s (Suc n) c value =
     (let value = push_bit 8 (value OR ucast (get s c))
      in case asn_next s c of None \<Rightarrow> (ERR_ARG, value) | Some c \<Rightarrow> dec_u32_loop s n c value)"

definition snmp_asn1_dec_u32t :: "addr \<Rightarrow> nat \<Rightarrow> nat \<Rightarrow> pbuf_state \<Rightarrow> (err_t \<times> u32_t option) option" where
  "snmp_asn1_dec_u32t p ofs n s =
     at_offset (\<lambda>c.
       if n > 0 \<and> n < 6
       then if get s c AND 0x80 \<noteq> 0 then (ERR_ARG, Some 0)
            else if n > 1 \<and> get s c = 0
            then case asn_next s c of
                   None \<Rightarrow> (ERR_ARG, Some 0)
                 | Some c \<Rightarrow> apsnd Some (dec_u32_loop s (n - 2) c 0)
            else apsnd Some (dec_u32_loop s (n - 1) c 0)
       else (ERR_ARG, None))
       (ERR_ARG, None) s p ofs"

text \<open>\<^verbatim>\<open>*lsb_ptr &= b\<close> and \<^verbatim>\<open>*lsb_ptr |= b\<close> on the lowest byte of the value.\<close>

definition lsb_and :: "u32_t \<Rightarrow> u8_t \<Rightarrow> u32_t" where
  "lsb_and value b = value AND (0xffffff00 OR ucast b)"

fun dec_s32_loop :: "pbuf_state \<Rightarrow> bool \<Rightarrow> nat \<Rightarrow> cursor \<Rightarrow> u32_t \<Rightarrow> err_t \<times> u32_t" where
  "dec_s32_loop s sign 0 c value = (ERR_OK, if sign then lsb_and value (get s c) else value OR ucast (get s c))"
| "dec_s32_loop s sign (Suc n) c value =
     (let value = (if sign then push_bit 8 (lsb_and value (get s c)) OR 255 else push_bit 8 (value OR ucast (get s c)))
      in case asn_next s c of None \<Rightarrow> (ERR_ARG, value) | Some c \<Rightarrow> dec_s32_loop s sign n c value)"

definition snmp_asn1_dec_s32t :: "addr \<Rightarrow> nat \<Rightarrow> nat \<Rightarrow> pbuf_state \<Rightarrow> (err_t \<times> u32_t option) option" where
  "snmp_asn1_dec_s32t p ofs n s =
     at_offset (\<lambda>c.
       if n > 0 \<and> n < 5
       then if get s c AND 0x80 \<noteq> 0 then apsnd Some (dec_s32_loop s True (n - 1) c (- 1))
            else apsnd Some (dec_s32_loop s False (n - 1) c 0)
       else (ERR_ARG, None))
       (ERR_ARG, None) s p ofs"

abbreviation (input) LWIP_SNMP_OBJ_ID_LEN :: nat where "LWIP_SNMP_OBJ_ID_LEN \<equiv> 32"

record snmp_obj_id =
  oid_len :: nat
  oid_id :: "u32_t list"

text \<open>
  The inner loop over the octets of a sub-identifier with the high bit set: \<open>n\<close> is what is left of \<^verbatim>\<open>len\<close>. The first component
  is \<open>None\<close> where the function returns \<^verbatim>\<open>ERR_ARG\<close>.
\<close>

fun dec_groups :: "pbuf_state \<Rightarrow> nat \<Rightarrow> cursor \<Rightarrow> u32_t \<Rightarrow> (nat \<times> cursor \<times> u32_t) option" where
  "dec_groups s (Suc (Suc n)) c sub_id =
     (if get s c AND 0x80 \<noteq> 0
      then case asn_next s c of
             None \<Rightarrow> None
           | Some c' \<Rightarrow> dec_groups s (Suc n) c' (push_bit 7 sub_id + ucast (get s c AND 0x7f))
      else Some (Suc (Suc n), c, sub_id))"
| "dec_groups s n c sub_id = Some (n, c, sub_id)"

text \<open>One turn of the loop over the sub-identifiers, without the step to the next octet.\<close>

definition dec_subid :: "pbuf_state \<Rightarrow> nat \<Rightarrow> cursor \<Rightarrow> snmp_obj_id \<Rightarrow> (nat \<times> cursor \<times> snmp_obj_id) option" where
  "dec_subid s n c oid =
     (if get s c AND 0x80 \<noteq> 0
      then case dec_groups s n c 0 of
             None \<Rightarrow> None
           | Some (n, c, sub_id) \<Rightarrow>
               if get s c AND 0x80 = 0 \<and> n > 0
               then Some (n - 1, c, oid\<lparr>oid_id := (oid_id oid)[oid_len oid := push_bit 7 sub_id + ucast (get s c)]\<rparr>)
               else Some (n, c, oid)
      else Some (n - 1, c, oid\<lparr>oid_id := (oid_id oid)[oid_len oid := ucast (get s c)]\<rparr>))"

function dec_oid_loop :: "pbuf_state \<Rightarrow> nat \<Rightarrow> cursor \<Rightarrow> snmp_obj_id \<Rightarrow> err_t \<times> snmp_obj_id" where
  "dec_oid_loop s n c oid =
     (if n > 0 \<and> oid_len oid < LWIP_SNMP_OBJ_ID_LEN
      then case dec_subid s n c oid of
             None \<Rightarrow> (ERR_ARG, oid)
           | Some (n, c, oid') \<Rightarrow>
               if n > 0
               then case asn_next s c of
                      None \<Rightarrow> (ERR_ARG, oid')
                    | Some c \<Rightarrow> dec_oid_loop s n c (oid'\<lparr>oid_len := oid_len oid + 1\<rparr>)
               else dec_oid_loop s n c (oid'\<lparr>oid_len := oid_len oid + 1\<rparr>)
      else (if n = 0 then ERR_OK else ERR_ARG, oid))"
  by pat_completeness auto
termination
  by (relation "measure (\<lambda>(s, n, c, oid). LWIP_SNMP_OBJ_ID_LEN - oid_len oid)") auto

declare dec_oid_loop.simps [simp del]

definition oid_prefix :: "u8_t \<Rightarrow> u32_t \<times> u32_t" where
  "oid_prefix b = (if b = 0x2b then (1, 3) else if b < 40 then (0, ucast b) else if b < 80 then (1, ucast b - 40)
     else (2, ucast b - 80))"

definition snmp_asn1_dec_oid :: "addr \<Rightarrow> nat \<Rightarrow> nat \<Rightarrow> snmp_obj_id \<Rightarrow> pbuf_state \<Rightarrow> (err_t \<times> snmp_obj_id) option" where
  "snmp_asn1_dec_oid p ofs n oid s =
     at_offset (\<lambda>c.
       let oid = oid\<lparr>oid_len := 0\<rparr>
       in if n > 0
          then
            let (x, y) = oid_prefix (get s c);
                oid = oid\<lparr>oid_id := (oid_id oid)[0 := x, 1 := y], oid_len := 2\<rparr>
            in if n - 1 > 0
               then case asn_next s c of
                      None \<Rightarrow> (ERR_ARG, oid)
                    | Some c \<Rightarrow> dec_oid_loop s (n - 1) c oid
               else dec_oid_loop s (n - 1) c oid
          else (ERR_OK, oid))
       (ERR_ARG, oid) s p ofs"

fun dec_raw_loop :: "pbuf_state \<Rightarrow> nat \<Rightarrow> cursor \<Rightarrow> u8_t list \<Rightarrow> err_t \<times> u8_t list" where
  "dec_raw_loop s 0 c raw = (ERR_OK, raw @ [get s c])"
| "dec_raw_loop s (Suc n) c raw =
     (case asn_next s c of None \<Rightarrow> (ERR_ARG, raw @ [get s c]) | Some c' \<Rightarrow> dec_raw_loop s n c' (raw @ [get s c]))"

text \<open>The octets written to \<^verbatim>\<open>raw\<close>, which has room for \<^verbatim>\<open>raw_len\<close>.\<close>

definition snmp_asn1_dec_raw :: "addr \<Rightarrow> nat \<Rightarrow> nat \<Rightarrow> nat \<Rightarrow> pbuf_state \<Rightarrow> (err_t \<times> u8_t list) option" where
  "snmp_asn1_dec_raw p ofs n raw_len s =
     (if n > 0
      then at_offset (\<lambda>c. if raw_len \<ge> n then dec_raw_loop s (n - 1) c [] else (ERR_ARG, [])) (ERR_ARG, []) s p ofs
      else Some (ERR_OK, []))"

end
