(* ===== verification/Asn1_Props.thy ===== *)
theory Asn1_Props
  imports Asn1
begin

unbundle bit_operations_syntax

text \<open>
  The ASN.1 coding of \<^verbatim>\<open>core/snmp\<close> on the bytes of a packet: a cursor stands for an index into the data, writing
  through it overwrites that byte of the data, and what the encoders write the decoders read back.
\<close>

section \<open>Cursors as indices\<close>

text \<open>A packet whose pbufs are not empty and do not share memory.\<close>

definition message :: "pbuf_state \<Rightarrow> addr \<Rightarrow> addr list \<Rightarrow> bool" where
  "message s p ps \<longleftrightarrow> packet s p ps \<and> (\<forall>x\<in>set ps. 0 < len s x) \<and> payloads_disjoint s ps"

definition at :: "pbuf_state \<Rightarrow> addr list \<Rightarrow> cursor \<Rightarrow> nat \<Rightarrow> bool" where
  "at s ps c i \<longleftrightarrow> (\<exists>pre x post k. ps = pre @ x # post \<and> k < len s x \<and> i = length (data s pre) + k
     \<and> c = \<lparr>cu_p = x, cu_ptr = payload s x + k, cu_ofs = i, cu_plen = length (data s pre) + len s x\<rparr>)"

lemma length_data_bytes [simp]: "length (data (s\<lparr>bytes := b\<rparr>) ps) = length (data s ps)"
  by (induction ps) simp_all

lemma at_bytes [simp]: "at (s\<lparr>bytes := b\<rparr>) ps c i = at s ps c i"
  by (simp add: at_def)

lemma message_bytes [simp]: "message (s\<lparr>bytes := b\<rparr>) p ps = message s p ps"
  by (simp add: message_def)

lemma message_length: "message s p ps \<Longrightarrow> length (data s ps) < 65536"
  using packet_length unfolding message_def by blast

lemma at_less: "at s ps c i \<Longrightarrow> i < length (data s ps)"
  by (auto simp: at_def)

lemma seek_at:
  assumes "chain (nxt s) q qs" "length (data s (pre @ qs)) < 65536" "length (data s pre) \<le> ofs"
  shows "if ofs < length (data s (pre @ qs))
    then \<exists>c. asn_seek s q ofs (length (data s pre)) = Some (Some c) \<and> at s (pre @ qs) c ofs
    else asn_seek s q ofs (length (data s pre)) = Some None"
  using assms
proof (induction qs arbitrary: q pre)
  case Nil
  then show ?case by (simp add: asn_seek.simps [of s 0])
next
  case (Cons x qs)
  then have x: "q = x" "x \<noteq> NULL" "chain (nxt s) (nxt s x) qs" by auto
  have plen: "to_u16 (length (data s pre) + len s x) = length (data s pre) + len s x" using Cons.prems(2) by simp
  show ?case
  proof (cases "ofs < length (data s pre) + len s x")
    case True
    define k where "k = ofs - length (data s pre)"
    have k: "k < len s x" "ofs = length (data s pre) + k" using True Cons.prems(3) by (auto simp: k_def)
    have "at s (pre @ x # qs) \<lparr>cu_p = x, cu_ptr = payload s x + k, cu_ofs = ofs, cu_plen = length (data s pre) + len s x\<rparr> ofs"
      unfolding at_def using k by blast
    then show ?thesis using x True k by (simp add: asn_seek.simps [of s x] Let_def plen k_def [symmetric])
  next
    case False
    then have "asn_seek s q ofs (length (data s pre)) = asn_seek s (nxt s x) ofs (length (data s (pre @ [x])))"
      using x by (simp add: asn_seek.simps [of s x] Let_def plen)
    then show ?thesis using Cons.IH [OF x(3), of "pre @ [x]"] Cons.prems(2) False by (auto split: if_splits)
  qed
qed

lemma at_offset_eq:
  assumes "message s p ps"
  shows "if ofs < length (data s ps) then \<exists>c. at s ps c ofs \<and> at_offset f err s p ofs = Some (f c)
    else at_offset f err s p ofs = Some err"
proof -
  have "chain (nxt s) p ps" using assms by (simp add: message_def packet_def)
  from seek_at [OF this, of "[]" ofs] message_length [OF assms] show ?thesis
    by (auto simp: at_offset_def split: if_splits)
qed

lemma at_offset_ok:
  assumes "message s p ps" "ofs < length (data s ps)"
  obtains c where "at s ps c ofs" "\<And>(f :: cursor \<Rightarrow> 'r) err. at_offset f err s p ofs = Some (f c)"
proof -
  have "chain (nxt s) p ps" using assms by (simp add: message_def packet_def)
  from seek_at [OF this, of "[]" ofs] message_length [OF assms(1)] assms(2)
  obtain c where "asn_seek s p ofs 0 = Some (Some c)" "at s ps c ofs" by auto
  then show thesis using that by (simp add: at_offset_def)
qed

lemma next_at:
  assumes m: "message s p ps" and c: "at s ps c i"
  shows "if Suc i < length (data s ps) then \<exists>c'. asn_next s c = Some c' \<and> at s ps c' (Suc i) else asn_next s c = None"
proof -
  obtain pre x post k where ps: "ps = pre @ x # post" and k: "k < len s x" "i = length (data s pre) + k"
    and cu: "c = \<lparr>cu_p = x, cu_ptr = payload s x + k, cu_ofs = i, cu_plen = length (data s pre) + len s x\<rparr>"
    using c by (auto simp: at_def)
  have len: "length (data s ps) < 65536" using message_length [OF m] .
  then have ofs: "to_u16 (i + 1) = Suc i" using at_less [OF c] by simp
  have "chain (nxt s) p (pre @ x # post)" using m ps by (simp add: message_def packet_def)
  then have nx: "chain (nxt s) (nxt s x) post" using chain_suffix by fastforce
  show ?thesis
  proof (cases "Suc k < len s x")
    case True
    have "at s ps (c\<lparr>cu_ptr := cu_ptr c + 1, cu_ofs := Suc i\<rparr>) (Suc i)"
      unfolding at_def using ps True k cu by (intro exI [of _ pre] exI [of _ x] exI [of _ post] exI [of _ "Suc k"]) simp
    then show ?thesis using True k ofs ps by (simp add: asn_next_def Let_def cu)
  next
    case last: False
    show ?thesis
    proof (cases post)
      case Nil
      then show ?thesis using last k ofs ps nx by (simp add: asn_next_def Let_def cu)
    next
      case (Cons y qs)
      then have y: "nxt s x = y" "y \<noteq> NULL" using nx by auto
      have pos: "0 < len s y" using m ps Cons by (simp add: message_def)
      have plen: "to_u16 (length (data s pre) + len s x + len s y) = length (data s pre) + len s x + len s y"
        using len ps Cons by simp
      have "at s ps \<lparr>cu_p = y, cu_ptr = payload s y, cu_ofs = Suc i, cu_plen = length (data s pre) + len s x + len s y\<rparr> (Suc i)"
        unfolding at_def using ps Cons last k pos
        by (intro exI [of _ "pre @ [x]"] exI [of _ y] exI [of _ qs] exI [of _ 0]) simp
      then show ?thesis using last k ofs ps y Cons pos plen by (simp add: asn_next_def Let_def cu)
    qed
  qed
qed

lemma get_at: "at s ps c i \<Longrightarrow> get s c = data s ps ! i"
  by (auto simp: at_def nth_append pdata_def)

lemma disjoint_mid:
  "payloads_disjoint s (pre @ x # post) \<Longrightarrow> y \<in> set pre \<union> set post \<Longrightarrow> payload_apart s y (payload s x) (len s x)"
  by (induction pre) (auto simp: payload_apart_def apart_sym)

lemma put_at:
  assumes m: "message s p ps" and c: "at s ps c i"
  shows "data (put c v s) ps = (data s ps)[i := v]"
proof -
  obtain pre x post k where ps: "ps = pre @ x # post" and k: "k < len s x" "i = length (data s pre) + k"
    and cu: "cu_ptr c = payload s x + k" using c by (auto simp: at_def)
  have frame: "pdata (put c v s) y = pdata s y" if "y \<in> set pre \<union> set post" for y
  proof -
    have "payload_apart s y (payload s x) (len s x)" using disjoint_mid [of s pre x post] m ps that by (simp add: message_def)
    then show ?thesis using k(1) unfolding pdata_def
      by (auto simp: put_def cu payload_apart_def apart_def intro!: mem_bytes_cong)
  qed
  have "pdata (put c v s) x = (pdata s x)[k := v]"
    unfolding pdata_def by (rule nth_equalityI) (auto simp: put_def cu nth_list_update)
  moreover have "data (put c v s) pre = data s pre" "data (put c v s) post = data s post"
    using frame by (auto intro: data_cong)
  ultimately show ?thesis using k ps by (simp add: list_update_append)
qed

section \<open>Writing\<close>

text \<open>What an encoder promises: it stores \<open>xs\<close> at index \<open>i\<close> and nothing else, or fails for lack of room.\<close>

definition stores :: "pbuf_state \<Rightarrow> addr list \<Rightarrow> nat \<Rightarrow> u8_t list \<Rightarrow> err_t \<times> pbuf_state \<Rightarrow> bool" where
  "stores s ps i xs r \<longleftrightarrow> (\<exists>b. snd r = s\<lparr>bytes := b\<rparr>)
     \<and> (if i + length xs \<le> length (data s ps) then fst r = ERR_OK \<and> data (snd r) ps = overwrite i xs (data s ps)
        else fst r = ERR_ARG)"

lemma stores_put: "message s p ps \<Longrightarrow> at s ps c i \<Longrightarrow> stores s ps i [x] (ERR_OK, put c x s)"
  using put_at [of s p ps c i x] at_less [of s ps c i] by (auto simp: stores_def put_def overwrite_one)

text \<open>One octet, then the rest.\<close>

lemma stores_step:
  assumes m: "message s p ps" and c: "at s ps c i" and "xs \<noteq> []"
    and rest: "\<And>c'. asn_next (put c x s) c = Some c' \<Longrightarrow> at s ps c' (Suc i) \<Longrightarrow> stores (put c x s) ps (Suc i) xs (f c' (put c x s))"
  shows "stores s ps i (x # xs) (case asn_next (put c x s) c of None \<Rightarrow> (ERR_ARG, put c x s) | Some c' \<Rightarrow> f c' (put c x s))"
proof -
  obtain b where s1: "put c x s = s\<lparr>bytes := b\<rparr>" by (simp add: put_def)
  have m1: "message (put c x s) p ps" "at (put c x s) ps c i" using m c s1 by simp_all
  show ?thesis
  proof (cases "Suc i < length (data s ps)")
    case False
    then have "asn_next (put c x s) c = None" using next_at [OF m1] s1 by simp
    then show ?thesis using False assms(3) s1 by (cases xs) (auto simp: stores_def)
  next
    case True
    then obtain c' where c': "asn_next (put c x s) c = Some c'" "at s ps c' (Suc i)" using next_at [OF m1] s1 by auto
    from rest [OF c'] show ?thesis
      using c'(1) put_at [OF m c, of x] at_less [OF c] s1 by (auto simp: stores_def overwrite_Cons)
  qed
qed

lemma stores_octets:
  "message s p ps \<Longrightarrow> at s ps c i \<Longrightarrow> stores s ps i (map oct (rev [0..<Suc n])) (enc_octets oct n c s)"
proof (induction n arbitrary: c i s)
  case 0
  then show ?case by (simp add: stores_put)
next
  case (Suc n)
  have "stores (put c (oct (Suc n)) s) ps (Suc i) (map oct (rev [0..<Suc n])) (enc_octets oct n c' (put c (oct (Suc n)) s))"
    if "at s ps c' (Suc i)" for c'
    using Suc.IH [of "put c (oct (Suc n)) s" c' "Suc i"] Suc.prems(1) that by (simp add: put_def)
  from stores_step [OF Suc.prems, where x = "oct (Suc n)" and f = "enc_octets oct n", OF _ this] show ?case
    by (simp add: Let_def)
qed

lemma stores_raw:
  "message s p ps \<Longrightarrow> at s ps c i \<Longrightarrow> raw \<noteq> [] \<Longrightarrow> stores s ps i raw (enc_raw_loop raw c s)"
proof (induction raw c s arbitrary: i rule: enc_raw_loop.induct)
  case (3 x y raw c s)
  have "stores (put c x s) ps (Suc i) (y # raw) (enc_raw_loop (y # raw) c' (put c x s))"
    if "asn_next (put c x s) c = Some c'" "at s ps c' (Suc i)" for c'
    using "3.IH" [OF refl that(1), of "Suc i"] "3.prems" that(2) by (simp add: put_def)
  from stores_step [OF "3.prems"(1,2), where x = x and f = "enc_raw_loop (y # raw)", OF _ this] show ?case by (simp add: Let_def)
qed (auto simp: stores_put)

lemma stores_at_offset:
  assumes "message s p ps" "xs \<noteq> []" "\<And>c. at s ps c ofs \<Longrightarrow> stores s ps ofs xs (f c)"
  shows "\<exists>r. at_offset f (ERR_ARG, s) s p ofs = Some r \<and> stores s ps ofs xs r"
proof (cases "ofs < length (data s ps)")
  case True
  then obtain c where "at s ps c ofs" "at_offset f (ERR_ARG, s) s p ofs = Some (f c)"
    using at_offset_eq [OF assms(1), of ofs f "(ERR_ARG, s)"] by auto
  then show ?thesis using assms(3) by blast
next
  case False
  then have "\<not> ofs + length xs \<le> length (data s ps)" using assms(2) by (cases xs) auto
  then show ?thesis
    using at_offset_eq [OF assms(1), of ofs f "(ERR_ARG, s)"] False
    by (auto simp: stores_def intro: exI [of _ "bytes s"])
qed

section \<open>The codes\<close>

definition be_octets :: "u32_t \<Rightarrow> nat \<Rightarrow> u8_t list" where
  "be_octets v n = map (\<lambda>i. ucast (drop_bit (8 * i) v)) (rev [0..<n])"

definition length_code :: "nat \<Rightarrow> u8_t list" where
  "length_code l = (if l < 0x80 then [of_nat l] else if l < 0x100 then [0x81, of_nat l]
     else [0x82, of_nat (l div 256), of_nat l])"

definition u32_code :: "u32_t \<Rightarrow> u8_t list" where
  "u32_code v = (if snmp_asn1_enc_u32t_cnt v = 5 then 0 # be_octets v 4 else be_octets v (snmp_asn1_enc_u32t_cnt v))"

definition s32_code :: "u32_t \<Rightarrow> u8_t list" where
  "s32_code v = be_octets v (snmp_asn1_enc_s32t_cnt v)"

lemma length_codes [simp]:
  "length (length_code l) = snmp_asn1_enc_length_cnt l" "length (u32_code v) = snmp_asn1_enc_u32t_cnt v"
  "length (s32_code v) = snmp_asn1_enc_s32t_cnt v"
  by (simp_all add: length_code_def snmp_asn1_enc_length_cnt_def u32_code_def snmp_asn1_enc_u32t_cnt_def s32_code_def be_octets_def)

lemma cnt_pos: "0 < snmp_asn1_enc_length_cnt l" "0 < snmp_asn1_enc_u32t_cnt v" "0 < snmp_asn1_enc_s32t_cnt v"
  by (simp_all add: snmp_asn1_enc_length_cnt_def snmp_asn1_enc_u32t_cnt_def snmp_asn1_enc_s32t_cnt_def Let_def)

lemma cnt_le: "snmp_asn1_enc_u32t_cnt v \<le> 5" "snmp_asn1_enc_s32t_cnt v \<le> 4"
  by (simp_all add: snmp_asn1_enc_u32t_cnt_def snmp_asn1_enc_s32t_cnt_def Let_def)

lemma octet_of_signed: "i < 4 \<Longrightarrow> ucast (signed_drop_bit (8 * i) v) = (ucast (drop_bit (8 * i) v) :: u8_t)" for v :: u32_t
  by (rule bit_word_eqI) (auto simp: bit_simps)

lemma enc_length_stores:
  assumes "message s p ps"
  shows "\<exists>r. snmp_asn1_enc_length p ofs l s = Some r \<and> stores s ps ofs (length_code l) r"
  unfolding snmp_asn1_enc_length_def
proof (rule stores_at_offset [OF assms])
  show "length_code l \<noteq> []" by (simp add: length_code_def)
  fix c assume c: "at s ps c ofs"
  consider "l < 0x80" | "\<not> l < 0x80" "l < 0x100" | "\<not> l < 0x80" "\<not> l < 0x100" by blast
  then show "stores s ps ofs (length_code l)
      (if l < 128 then (ERR_OK, put c (of_nat l) s)
       else if l < 256
       then let s = put c 129 s in case asn_next s c of None \<Rightarrow> (ERR_ARG, s) | Some c \<Rightarrow> (ERR_OK, put c (of_nat l) s)
       else let s = put c 130 s
            in case asn_next s c of None \<Rightarrow> (ERR_ARG, s)
               | Some c \<Rightarrow> enc_octets (\<lambda>i. if i = 0 then of_nat l else of_nat (l div 256)) 1 c s)"
  proof cases
    case 1
    then show ?thesis using stores_put [OF assms c] by (simp add: length_code_def)
  next
    case 2
    have "stores (put c 0x81 s) ps (Suc ofs) [of_nat l] (ERR_OK, put c' (of_nat l) (put c 0x81 s))" if "at s ps c' (Suc ofs)" for c'
      using stores_put [of "put c 0x81 s" p ps c'] assms that by (simp add: put_def)
    from stores_step [OF assms c, where x = "0x81" and f = "\<lambda>c s. (ERR_OK, put c (of_nat l) s)", OF _ this] show ?thesis
      using 2 by (simp add: length_code_def Let_def)
  next
    case 3
    let ?o = "\<lambda>i. if i = 0 then of_nat l else of_nat (l div 256) :: u8_t"
    have "stores (put c 0x82 s) ps (Suc ofs) [of_nat (l div 256), of_nat l] (enc_octets ?o 1 c' (put c 0x82 s))"
      if "at s ps c' (Suc ofs)" for c'
      using stores_octets [of "put c 0x82 s" p ps c' "Suc ofs" ?o 1] assms that by (simp add: put_def)
    from stores_step [OF assms c, where x = "0x82" and f = "enc_octets ?o 1", OF _ this] show ?thesis
      using 3 by (simp add: length_code_def Let_def)
  qed
qed

lemma be_octets_Suc: "be_octets v (Suc n) = map (\<lambda>i. ucast (drop_bit (8 * i) v)) (rev [0..<Suc n])"
  by (simp add: be_octets_def)

lemma enc_u32_stores:
  assumes "message s p ps"
  shows "\<exists>r. snmp_asn1_enc_u32t p ofs (snmp_asn1_enc_u32t_cnt v) v s = Some r \<and> stores s ps ofs (u32_code v) r"
  unfolding snmp_asn1_enc_u32t_def
proof (rule stores_at_offset [OF assms])
  let ?n = "snmp_asn1_enc_u32t_cnt v" and ?o = "\<lambda>i. ucast (drop_bit (8 * i) v) :: u8_t"
  show "u32_code v \<noteq> []" using cnt_pos(2) [of v] length_codes(2) [of v] by (metis length_greater_0_conv)
  fix c assume c: "at s ps c ofs"
  show "stores s ps ofs (u32_code v)
      (if ?n = 5 then let s = put c 0 s in case asn_next s c of None \<Rightarrow> (ERR_ARG, s) | Some c \<Rightarrow> enc_octets ?o 3 c s
       else enc_octets ?o (?n - 1) c s)"
  proof (cases "?n = 5")
    case True
    have "stores (put c 0 s) ps (Suc ofs) (map ?o (rev [0..<Suc 3])) (enc_octets ?o 3 c' (put c 0 s))" if "at s ps c' (Suc ofs)" for c'
      using stores_octets [of "put c 0 s" p ps c' "Suc ofs" ?o 3] assms that by (simp add: put_def)
    from stores_step [OF assms c, where x = 0 and f = "enc_octets ?o 3", OF _ this] show ?thesis
      using True by (simp add: u32_code_def Let_def be_octets_def)
  next
    case False
    have n: "Suc (?n - 1) = ?n" using cnt_pos(2) [of v] by simp
    show ?thesis using stores_octets [OF assms c, of ?o "?n - 1"] False unfolding n by (simp add: u32_code_def be_octets_def)
  qed
qed

lemma enc_s32_stores:
  assumes "message s p ps"
  shows "\<exists>r. snmp_asn1_enc_s32t p ofs (snmp_asn1_enc_s32t_cnt v) v s = Some r \<and> stores s ps ofs (s32_code v) r"
  unfolding snmp_asn1_enc_s32t_def
proof (rule stores_at_offset [OF assms])
  let ?n = "snmp_asn1_enc_s32t_cnt v"
  show "s32_code v \<noteq> []" using cnt_pos(3) [of v] length_codes(3) [of v] by (metis length_greater_0_conv)
  fix c assume c: "at s ps c ofs"
  have n: "Suc (?n - 1) = ?n" using cnt_pos(3) [of v] by simp
  have "map (\<lambda>i. ucast (signed_drop_bit (8 * i) v)) (rev [0..<?n]) = s32_code v"
    using cnt_le(2) [of v] by (auto simp: s32_code_def be_octets_def intro!: octet_of_signed)
  then show "stores s ps ofs (s32_code v) (enc_octets (\<lambda>i. ucast (signed_drop_bit (8 * i) v)) (?n - 1) c s)"
    using stores_octets [OF assms c, of "\<lambda>i. ucast (signed_drop_bit (8 * i) v)" "?n - 1"] unfolding n by simp
qed

section \<open>Reading\<close>

text \<open>What the loops compute from the octets they pass.\<close>

fun be_val :: "u32_t \<Rightarrow> u8_t list \<Rightarrow> u32_t" where
  "be_val v [] = v"
| "be_val v [b] = v OR ucast b"
| "be_val v (b # bs) = be_val (push_bit 8 (v OR ucast b)) bs"

fun neg_val :: "u32_t \<Rightarrow> u8_t list \<Rightarrow> u32_t" where
  "neg_val v [] = v"
| "neg_val v [b] = lsb_and v b"
| "neg_val v (b # bs) = neg_val (push_bit 8 (lsb_and v b) OR 255) bs"

lemma take_octets: "i < length d \<Longrightarrow> take (Suc n) (drop i d) = d ! i # take n (drop (Suc i) d)"
  by (simp add: Cons_nth_drop_Suc [symmetric])

lemma take_octets_ne: "Suc i < length d \<Longrightarrow> take (Suc n) (drop (Suc i) d) \<noteq> []"
  by simp

lemma dec_u32_loop_at:
  "message s p ps \<Longrightarrow> at s ps c i \<Longrightarrow> i + n < length (data s ps) \<Longrightarrow>
   dec_u32_loop s n c v = (ERR_OK, be_val v (take (Suc n) (drop i (data s ps))))"
proof (induction n arbitrary: c i v)
  case 0
  then show ?case by (simp add: take_octets get_at)
next
  case (Suc n)
  obtain c' where c': "asn_next s c = Some c'" "at s ps c' (Suc i)" using next_at [OF Suc.prems(1,2)] Suc.prems(3) by auto
  obtain y ys where ys: "take (Suc n) (drop (Suc i) (data s ps)) = y # ys"
    using take_octets_ne [of i "data s ps" n] Suc.prems(3) by (cases "take (Suc n) (drop (Suc i) (data s ps))") auto
  show ?case
    using Suc.IH [OF Suc.prems(1) c'(2)] Suc.prems(3) c'(1) get_at [OF Suc.prems(2)] ys
    by (simp add: Let_def take_octets [of i _ "Suc n"])
qed

lemma dec_s32_loop_at:
  "message s p ps \<Longrightarrow> at s ps c i \<Longrightarrow> i + n < length (data s ps) \<Longrightarrow>
   dec_s32_loop s sign n c v = (ERR_OK, (if sign then neg_val else be_val) v (take (Suc n) (drop i (data s ps))))"
proof (induction n arbitrary: c i v)
  case 0
  then show ?case by (simp add: take_octets get_at)
next
  case (Suc n)
  obtain c' where c': "asn_next s c = Some c'" "at s ps c' (Suc i)" using next_at [OF Suc.prems(1,2)] Suc.prems(3) by auto
  obtain y ys where ys: "take (Suc n) (drop (Suc i) (data s ps)) = y # ys"
    using take_octets_ne [of i "data s ps" n] Suc.prems(3) by (cases "take (Suc n) (drop (Suc i) (data s ps))") auto
  show ?case
    using Suc.IH [OF Suc.prems(1) c'(2)] Suc.prems(3) c'(1) get_at [OF Suc.prems(2)] ys
    by (simp add: Let_def take_octets [of i _ "Suc n"])
qed

text \<open>The octets of a value give the value back, up to the bits above them.\<close>

lemma be_octets_step: "be_octets v (Suc n) = ucast (drop_bit (8 * n) v) # be_octets v n"
  by (simp add: be_octets_def)

lemma be_step: "push_bit 8 (take_bit (8 * m) (drop_bit 8 w)) OR ucast (ucast w :: u8_t) = take_bit (8 * Suc m) w" for w :: u32_t
  by (rule bit_word_eqI) (auto simp: bit_simps)

lemma neg_step:
  "lsb_and (push_bit 8 (drop_bit 8 w OR NOT (mask (8 * m))) OR 255) (ucast w) = w OR NOT (mask (8 * Suc m))" for w :: u32_t
proof -
  have e: "(255 :: u32_t) = mask 8" "(0xffffff00 :: u32_t) = NOT (mask 8)" by (simp_all add: mask_eq_exp_minus_1)
  show ?thesis unfolding lsb_and_def e by (rule bit_word_eqI) (auto simp: bit_simps)
qed

lemma drop_8: "drop_bit 8 (drop_bit (8 * n) v) = drop_bit (8 * Suc n) v" for v :: u32_t
  by (simp add: drop_bit_drop_bit add.commute)

lemma be_val_from:
  "be_val (push_bit 8 (take_bit (8 * m) (drop_bit (8 * Suc n) v))) (be_octets v (Suc n)) = take_bit (8 * (m + Suc n)) v"
proof (induction n arbitrary: m)
  case 0
  then show ?case using be_step [of m v] by (simp add: be_octets_def)
next
  case (Suc n)
  have "be_val (push_bit 8 (take_bit (8 * m) (drop_bit (8 * Suc (Suc n)) v))) (be_octets v (Suc (Suc n)))
      = be_val (push_bit 8 (take_bit (8 * Suc m) (drop_bit (8 * Suc n) v))) (be_octets v (Suc n))"
    unfolding be_octets_step [of v "Suc n"] be_step [of m "drop_bit (8 * Suc n) v", symmetric] drop_8
    by (simp only: be_octets_step [of v n] be_val.simps)
  then show ?case using Suc.IH [of "Suc m"] by simp
qed

lemma neg_val_from:
  "neg_val (push_bit 8 (drop_bit (8 * Suc n) v OR NOT (mask (8 * m))) OR 255) (be_octets v (Suc n)) = v OR NOT (mask (8 * (m + Suc n)))"
proof (induction n arbitrary: m)
  case 0
  then show ?case using neg_step [of v m] by (simp add: be_octets_def)
next
  case (Suc n)
  have "neg_val (push_bit 8 (drop_bit (8 * Suc (Suc n)) v OR NOT (mask (8 * m))) OR 255) (be_octets v (Suc (Suc n)))
      = neg_val (push_bit 8 (drop_bit (8 * Suc n) v OR NOT (mask (8 * Suc m))) OR 255) (be_octets v (Suc n))"
    unfolding be_octets_step [of v "Suc n"] neg_step [of "drop_bit (8 * Suc n) v" m, symmetric] drop_8
    by (simp only: be_octets_step [of v n] neg_val.simps)
  then show ?case using Suc.IH [of "Suc m"] by simp
qed

lemma be_val_octets:
  assumes "0 < n"
  shows "be_val 0 (be_octets v n) = take_bit (8 * n) v" "neg_val (- 1) (be_octets v n) = v OR NOT (mask (8 * n))"
proof -
  obtain k where k: "n = Suc k" using assms by (cases n) auto
  have e: "(255 :: u32_t) = mask 8" by (simp add: mask_eq_exp_minus_1)
  have "push_bit 8 (- 1) OR 255 = (- 1 :: u32_t)" unfolding e by (rule bit_word_eqI) (auto simp: bit_simps)
  then show "be_val 0 (be_octets v n) = take_bit (8 * n) v" "neg_val (- 1) (be_octets v n) = v OR NOT (mask (8 * n))"
    using be_val_from [of 0 k v] neg_val_from [of k v 0] k by simp_all
qed

lemma be_val_zero: "bs \<noteq> [] \<Longrightarrow> be_val 0 (0 # bs) = be_val 0 bs"
  by (cases bs) simp_all

lemma dec_u32_at:
  assumes m: "message s p ps" and n: "0 < n" "n < 6" "ofs + n \<le> length (data s ps)"
    and code: "take n (drop ofs (data s ps)) = b # bs" "b AND 0x80 = 0"
  shows "snmp_asn1_dec_u32t p ofs n s = Some (ERR_OK, Some (be_val 0 (b # bs)))"
proof -
  obtain k where k: "n = Suc k" using n(1) by (cases n) auto
  have ofs: "ofs < length (data s ps)" using n by simp
  obtain c where c: "at s ps c ofs"
    and f: "\<And>(f :: cursor \<Rightarrow> err_t \<times> u32_t option) err. at_offset f err s p ofs = Some (f c)"
    using at_offset_ok [OF m ofs] by blast
  have b: "get s c = b" "take k (drop (Suc ofs) (data s ps)) = bs" using code(1) k take_octets [OF ofs, of k] get_at [OF c] by auto
  show ?thesis
  proof (cases "n > 1 \<and> b = 0")
    case False
    then show ?thesis using n b(1) code k dec_u32_loop_at [OF m c, of k 0] by (auto simp: snmp_asn1_dec_u32t_def f)
  next
    case True
    then obtain j where j: "k = Suc j" using k by (cases k) auto
    obtain c' where c': "asn_next s c = Some c'" "at s ps c' (Suc ofs)" using next_at [OF m c] n k j by auto
    have "bs \<noteq> []" using b(2) j n k by auto
    then show ?thesis
      using n b True k j c'(1) dec_u32_loop_at [OF m c'(2), of j 0] be_val_zero [of bs] by (simp add: snmp_asn1_dec_u32t_def f)
  qed
qed

lemma dec_s32_at:
  assumes m: "message s p ps" and n: "0 < n" "n < 5" "ofs + n \<le> length (data s ps)"
    and code: "take n (drop ofs (data s ps)) = b # bs"
  shows "snmp_asn1_dec_s32t p ofs n s
    = Some (ERR_OK, Some (if b AND 0x80 \<noteq> 0 then neg_val (- 1) (b # bs) else be_val 0 (b # bs)))"
proof -
  obtain k where k: "n = Suc k" using n(1) by (cases n) auto
  have ofs: "ofs < length (data s ps)" using n by simp
  obtain c where c: "at s ps c ofs"
    and f: "\<And>(f :: cursor \<Rightarrow> err_t \<times> u32_t option) err. at_offset f err s p ofs = Some (f c)"
    using at_offset_ok [OF m ofs] by blast
  have b: "get s c = b" using code k take_octets [OF ofs, of k] get_at [OF c] by auto
  show ?thesis
    using n b code k dec_s32_loop_at [OF m c, of k True "- 1"] dec_s32_loop_at [OF m c, of k False 0]
    by (auto simp: snmp_asn1_dec_s32t_def f)
qed

section \<open>Values survive\<close>

lemma small_bits: "v < 2 ^ n \<Longrightarrow> bit v j \<Longrightarrow> j < n" for v :: u32_t
proof (rule ccontr)
  assume v: "v < 2 ^ n" "bit v j" "\<not> j < n"
  have "unat v < 2 ^ n" using v(1) by (metis of_nat_numeral of_nat_power unat_of_nat word_less_nat_alt mod_less_eq_dividend order_less_le_trans)
  also have "(2 :: nat) ^ n \<le> 2 ^ j" using v(3) by simp
  finally have "unat v div 2 ^ j = 0" by simp
  then have "\<not> bit (unat v) j" by (simp add: bit_iff_odd)
  then show False using v(2) by (simp add: bit_unsigned_iff bit_imp_le_length)
qed

lemma small_sbits: "sint w < 2 ^ n \<Longrightarrow> \<not> sint w < 0 \<Longrightarrow> bit w j \<Longrightarrow> j < n" for w :: u32_t
proof (rule ccontr)
  assume w: "sint w < 2 ^ n" "\<not> sint w < 0" "bit w j" "\<not> j < n"
  have "(2 :: int) ^ n \<le> 2 ^ j" using w(4) by (intro power_increasing) simp_all
  then have "sint w div 2 ^ j = 0" using w(1,2) by (intro div_pos_pos_trivial) linarith+
  then have "\<not> bit (sint w) j" by (simp add: bit_iff_odd)
  then show False using w(3) bit_imp_le_length [OF w(3)] by (simp add: bit_sint_iff)
qed

lemma sign_octet: "b AND 0x80 = 0 \<longleftrightarrow> \<not> bit b 7" for b :: u8_t
  using and_exp_eq_0_iff_not_bit [of b 7] by simp

lemma first_octet: "0 < n \<Longrightarrow> n \<le> 4 \<Longrightarrow> be_octets v n = b # bs \<Longrightarrow> bit b 7 \<longleftrightarrow> bit v (8 * n - 1)"
proof -
  assume n: "0 < n" "n \<le> 4" and b: "be_octets v n = b # bs"
  obtain k where k: "n = Suc k" using n(1) by (cases n) auto
  then have "b = ucast (drop_bit (8 * k) v)" using b be_octets_step [of v k] by simp
  then show ?thesis using n k by (simp add: bit_simps add.commute)
qed

lemma u32_code_value:
  assumes "u32_code v = b # bs"
  shows "b AND 0x80 = 0" "be_val 0 (b # bs) = v"
proof -
  define n where "n = snmp_asn1_enc_u32t_cnt v"
  have small: "bit v j \<Longrightarrow> j < 8 * n - 1" for j
    using small_bits [of v 7] small_bits [of v 15] small_bits [of v 23] small_bits [of v 31] bit_imp_le_length [of v j]
    by (auto simp: n_def snmp_asn1_enc_u32t_cnt_def split: if_splits)
  have n: "0 < n" "n \<le> 5" using cnt_pos(2) [of v] cnt_le(1) [of v] by (auto simp: n_def)
  show "b AND 0x80 = 0"
  proof (cases "n = 5")
    case True
    then show ?thesis using assms by (simp add: u32_code_def n_def)
  next
    case False
    then have "be_octets v n = b # bs" using assms by (simp add: u32_code_def n_def)
    then show ?thesis using first_octet [of n v b bs] n False small [of "8 * n - 1"] unfolding sign_octet by auto
  qed
  have "take_bit (8 * n) v = v" by (rule bit_word_eqI) (use small n in \<open>fastforce simp: bit_simps\<close>)
  moreover have "take_bit 32 v = v" by (rule bit_word_eqI) (auto simp: bit_simps)
  ultimately show "be_val 0 (b # bs) = v"
    using assms be_val_octets(1) [of n v] be_val_octets(1) [of 4 v] be_val_zero [of "be_octets v 4"] n
    by (cases "n = 5") (auto simp: u32_code_def n_def be_octets_def)
qed

lemma s32_code_value:
  assumes "s32_code v = b # bs"
  shows "(if b AND 0x80 \<noteq> 0 then neg_val (- 1) (b # bs) else be_val 0 (b # bs)) = v"
proof -
  define n where "n = snmp_asn1_enc_s32t_cnt v"
  define w where "w = (if sint v < 0 then NOT v else v)"
  have n: "0 < n" "n \<le> 4" using cnt_pos(3) [of v] cnt_le(2) [of v] by (auto simp: n_def)
  have sign: "sint v < 0 \<longleftrightarrow> bit v 31" using bit_last_iff [of v] by simp
  have w31: "\<not> bit w 31" using sign by (auto simp: w_def bit_simps)
  have pos: "\<not> sint w < 0" using w31 bit_last_iff [of w] by simp
  have small: "j < 8 * n - 1" if "bit w j" for j
  proof -
    have "j < 32" "j \<noteq> 31" using bit_imp_le_length [OF that] that w31 by auto
    then show ?thesis
      using small_sbits [of w 7 j] small_sbits [of w 15 j] small_sbits [of w 23 j] pos that
      by (auto simp: n_def snmp_asn1_enc_s32t_cnt_def Let_def w_def [symmetric] split: if_splits)
  qed
  have bits: "bit v j \<longleftrightarrow> sint v < 0" if "8 * n - 1 \<le> j" "j < 32" for j
  proof -
    have "\<not> bit w j" using small [of j] that by auto
    then show ?thesis using that(2) by (cases "sint v < 0") (auto simp: w_def bit_simps)
  qed
  have code: "be_octets v n = b # bs" using assms by (simp add: s32_code_def n_def)
  have b: "b AND 0x80 \<noteq> 0 \<longleftrightarrow> sint v < 0"
    unfolding sign_octet using first_octet [OF n code] bits [of "8 * n - 1"] n by auto
  have "v OR NOT (mask (8 * n)) = v" if "sint v < 0"
    by (rule bit_word_eqI) (use bits that n in \<open>auto simp: bit_simps\<close>)
  moreover have "take_bit (8 * n) v = v" if "\<not> sint v < 0"
  proof (rule bit_word_eqI)
    fix j assume "j < LENGTH(32)"
    then have "bit v j \<Longrightarrow> j < 8 * n" using bits [of j] that n by (cases "8 * n - 1 \<le> j") auto
    then show "bit (take_bit (8 * n) v) j = bit v j" by (auto simp: bit_simps)
  qed
  ultimately show ?thesis using be_val_octets [OF n(1), of v] code b by auto
qed

section \<open>Object identifiers\<close>

function groups_code :: "u32_t \<Rightarrow> nat \<Rightarrow> bool \<Rightarrow> u8_t list" where
  "groups_code x shift tail =
     (if \<not> shift > 0 then []
      else
        let code = ucast (signed_drop_bit shift x) :: u8_t
        in if code \<noteq> 0 \<or> tail then (code OR 0x80) # groups_code x (shift - 7) True else groups_code x (shift - 7) tail)"
  by pat_completeness auto
termination
  by (relation "measure (\<lambda>(x, shift, tail). shift)") auto

declare groups_code.simps [simp del]

definition subid_code :: "u32_t \<Rightarrow> u8_t list" where
  "subid_code x = groups_code x 28 False @ [ucast x AND 0x7f]"

definition subids_code :: "u32_t list \<Rightarrow> u8_t list" where
  "subids_code ids = concat (map subid_code ids)"

definition prefix_code :: "u32_t \<Rightarrow> u32_t \<Rightarrow> u8_t" where
  "prefix_code x y = (if x = 1 \<and> y = 3 then 0x2b else ucast (x * 40 + y))"

definition oid_code :: "u32_t list \<Rightarrow> u8_t list" where
  "oid_code ident = prefix_code (ident ! 0) (ident ! 1) # subids_code (drop 2 ident)"

text \<open>What the inner loop promises: the octets stored and the cursor behind them, or no room for one more octet.\<close>

definition moves :: "pbuf_state \<Rightarrow> addr list \<Rightarrow> nat \<Rightarrow> u8_t list \<Rightarrow> cursor option \<times> pbuf_state \<Rightarrow> bool" where
  "moves s ps i xs r \<longleftrightarrow> (\<exists>b. snd r = s\<lparr>bytes := b\<rparr>)
     \<and> (if i + length xs < length (data s ps)
        then (\<exists>c'. fst r = Some c' \<and> at s ps c' (i + length xs)) \<and> data (snd r) ps = overwrite i xs (data s ps)
        else fst r = None)"

lemma moves_step:
  assumes m: "message s p ps" and c: "at s ps c i"
    and rest: "\<And>c'. asn_next (put c x s) c = Some c' \<Longrightarrow> at s ps c' (Suc i) \<Longrightarrow> moves (put c x s) ps (Suc i) xs (f c' (put c x s))"
  shows "moves s ps i (x # xs) (case asn_next (put c x s) c of None \<Rightarrow> (None, put c x s) | Some c' \<Rightarrow> f c' (put c x s))"
proof -
  obtain b where s1: "put c x s = s\<lparr>bytes := b\<rparr>" by (simp add: put_def)
  have m1: "message (put c x s) p ps" "at (put c x s) ps c i" using m c s1 by simp_all
  show ?thesis
  proof (cases "Suc i < length (data s ps)")
    case False
    then have "asn_next (put c x s) c = None" using next_at [OF m1] s1 by simp
    then show ?thesis using False s1 by (auto simp: moves_def)
  next
    case True
    then obtain c' where c': "asn_next (put c x s) c = Some c'" "at s ps c' (Suc i)" using next_at [OF m1] s1 by auto
    from rest [OF c'] show ?thesis
      using c'(1) put_at [OF m c, of x] at_less [OF c] s1 by (auto simp: moves_def overwrite_Cons)
  qed
qed

lemma moves_groups:
  "message s p ps \<Longrightarrow> at s ps c i \<Longrightarrow> moves s ps i (groups_code x shift tail) (enc_groups x shift tail c s)"
proof (induction x shift tail c s arbitrary: i rule: enc_groups.induct)
  case (1 x shift tail c s)
  show ?case
  proof (cases "shift > 0")
    case False
    then have z: "shift = 0" by simp
    have "enc_groups x shift tail c s = (Some c, s)" "groups_code x shift tail = []"
      unfolding z by (subst enc_groups.simps, simp, subst groups_code.simps, simp)
    then show ?thesis
      using "1.prems"(2) at_less [OF "1.prems"(2)] by (auto simp: moves_def intro: exI [of _ "bytes s"])
  next
    case True
    define code where "code = (ucast (signed_drop_bit shift x) :: u8_t)"
    show ?thesis
    proof (cases "code \<noteq> 0 \<or> tail")
      case False
      then show ?thesis
        using "1.IH"(2) [OF _ code_def False "1.prems"] True
        by (simp add: enc_groups.simps [of x shift] groups_code.simps [of x shift] Let_def code_def [symmetric])
    next
      case put: True
      have "moves (put c (code OR 0x80) s) ps (Suc i) (groups_code x (shift - 7) True)
          (enc_groups x (shift - 7) True c' (put c (code OR 0x80) s))"
        if "asn_next (put c (code OR 0x80) s) c = Some c'" "at s ps c' (Suc i)" for c'
        using "1.IH"(1) [OF _ code_def put refl that(1), of "Suc i"] True "1.prems"(1) that(2) by (simp add: put_def)
      from moves_step [OF "1.prems", where x = "code OR 0x80" and f = "enc_groups x (shift - 7) True", OF this] show ?thesis
        using True put by (simp add: enc_groups.simps [of x shift] groups_code.simps [of x shift] Let_def code_def [symmetric])
    qed
  qed
qed

lemma stores_subids:
  "message s p ps \<Longrightarrow> at s ps c i \<Longrightarrow> ids \<noteq> [] \<Longrightarrow> stores s ps i (subids_code ids) (enc_subids ids c s)"
proof (induction ids c s arbitrary: i rule: enc_subids.induct)
  case (2 x ids c s)
  obtain r s1 where g: "enc_groups x 28 False c s = (r, s1)" by fastforce
  let ?g = "groups_code x 28 False" and ?last = "ucast x AND 0x7f :: u8_t"
  have mv: "moves s ps i ?g (r, s1)" using moves_groups [OF "2.prems"(1,2), of x 28 False] g by simp
  then obtain b where s1: "s1 = s\<lparr>bytes := b\<rparr>" by (auto simp: moves_def)
  show ?case
  proof (cases r)
    case None
    then have "\<not> i + length ?g < length (data s ps)" using mv by (auto simp: moves_def split: if_splits)
    then show ?thesis
      using None g s1 by (auto simp: stores_def subids_code_def subid_code_def)
  next
    case (Some c1)
    then have room: "i + length ?g < length (data s ps)" and c1: "at s ps c1 (i + length ?g)"
      and d1: "data s1 ps = overwrite i ?g (data s ps)" using mv by (auto simp: moves_def split: if_splits)
    have m1: "message s1 p ps" "at s1 ps c1 (i + length ?g)" using "2.prems"(1) c1 s1 by simp_all
    have join: "stores s ps i (?g @ ys) q" if "stores s1 ps (i + length ?g) ys q" for ys q
    proof -
      have "length (data s1 ps) = length (data s ps)" by (simp add: s1)
      then show ?thesis
        using that room d1 overwrite_append [of i ?g "data s ps" ys] s1 by (auto simp: stores_def add.assoc)
    qed
    show ?thesis
    proof (cases "ids = []")
      case True
      then show ?thesis
        using join [OF stores_put [OF m1, of ?last]] g Some by (simp add: subids_code_def subid_code_def)
    next
      case False
      have "stores (put c1 ?last s1) ps (Suc (i + length ?g)) (subids_code ids) (enc_subids ids c' (put c1 ?last s1))"
        if "asn_next (put c1 ?last s1) c1 = Some c'" "at s1 ps c' (Suc (i + length ?g))" for c'
        using "2.IH" [OF g [symmetric] Some refl False that(1), of "Suc (i + length ?g)"] m1(1) that(2) False by (simp add: put_def)
      moreover have "subids_code ids \<noteq> []" using False by (cases ids) (auto simp: subids_code_def subid_code_def)
      ultimately have "stores s1 ps (i + length ?g) (?last # subids_code ids)
          (case asn_next (put c1 ?last s1) c1 of None \<Rightarrow> (ERR_ARG, put c1 ?last s1) | Some c' \<Rightarrow> enc_subids ids c' (put c1 ?last s1))"
        using stores_step [OF m1, where x = ?last and f = "enc_subids ids"] by blast
      from join [OF this] show ?thesis using False g Some by (simp add: subids_code_def subid_code_def Let_def)
    qed
  qed
qed simp

lemma enc_oid_stores:
  assumes m: "message s p ps" and "2 < length ident"
  shows "\<exists>r. snmp_asn1_enc_oid p ofs ident s = Some r \<and> stores s ps ofs (oid_code ident) r"
  unfolding snmp_asn1_enc_oid_def
proof (rule stores_at_offset [OF m])
  show "oid_code ident \<noteq> []" by (simp add: oid_code_def)
  fix c assume c: "at s ps c ofs"
  let ?b = "prefix_code (ident ! 0) (ident ! 1)"
  have ids: "drop 2 ident \<noteq> []" using assms(2) by simp
  then obtain x xs where "drop 2 ident = x # xs" by (cases "drop 2 ident") auto
  then have "subids_code (drop 2 ident) \<noteq> []" by (simp add: subids_code_def subid_code_def)
  moreover have "stores (put c ?b s) ps (Suc ofs) (subids_code (drop 2 ident)) (enc_subids (drop 2 ident) c' (put c ?b s))"
    if "at s ps c' (Suc ofs)" for c'
    using stores_subids [of "put c ?b s" p ps c' "Suc ofs" "drop 2 ident"] m that ids by (simp add: put_def)
  ultimately have "stores s ps ofs (oid_code ident)
      (case asn_next (put c ?b s) c of None \<Rightarrow> (ERR_ARG, put c ?b s) | Some c' \<Rightarrow> enc_subids (drop 2 ident) c' (put c ?b s))"
    using stores_step [OF m c, where x = ?b and f = "enc_subids (drop 2 ident)"] unfolding oid_code_def by blast
  then show "stores s ps ofs (oid_code ident)
      (if 1 < length ident
       then let s = put c (if ident ! 0 = 1 \<and> ident ! 1 = 3 then 43 else ucast (ident ! 0 * 40 + ident ! 1)) s
            in case asn_next s c of None \<Rightarrow> (ERR_ARG, s) | Some c \<Rightarrow> enc_subids (drop 2 ident) c s
       else (ERR_ARG, s))"
    using assms(2) unfolding Let_def prefix_code_def [symmetric] by simp
qed

text \<open>Sub-identifiers that are not negative.\<close>

lemma signed_drop_nonneg: "\<not> bit x 31 \<Longrightarrow> signed_drop_bit n x = drop_bit n x" for x :: u32_t
  by (rule bit_word_eqI) (auto simp: bit_simps dest: bit_imp_le_length)

lemma group_octet:
  fixes x :: u32_t
  shows "((ucast x :: u8_t) OR 0x80) AND 0x80 \<noteq> 0" "ucast (((ucast x :: u8_t) OR 0x80) AND 0x7f) = take_bit 7 x"
    "(ucast x AND 0x7f :: u8_t) AND 0x80 = 0" "ucast (ucast x AND 0x7f :: u8_t) = take_bit 7 x"
proof -
  have m: "(0x7f :: u8_t) = mask 7" by (simp add: mask_eq_exp_minus_1)
  have "bit (0x80 :: u8_t) 7" by simp
  then show "((ucast x :: u8_t) OR 0x80) AND 0x80 \<noteq> 0" unfolding sign_octet by (simp add: bit_or_iff)
  show "(ucast x AND 0x7f :: u8_t) AND 0x80 = 0" unfolding sign_octet m by (simp add: bit_simps)
  show low: "ucast (ucast x AND 0x7f :: u8_t) = take_bit 7 x" unfolding m by (rule bit_word_eqI) (auto simp: bit_simps)
  have "((ucast x :: u8_t) OR 0x80) AND 0x7f = ucast x AND 0x7f"
    by (simp add: bit.conj_disj_distrib2)
  then show "ucast (((ucast x :: u8_t) OR 0x80) AND 0x7f) = take_bit 7 x" using low by simp
qed

lemma next_group: "push_bit 7 (drop_bit (n + 7) x) + take_bit 7 (drop_bit n x) = drop_bit n x" for x :: u32_t
  using bits_ident [of 7 "drop_bit n x"] by (simp add: drop_bit_drop_bit add.commute [of 7])

lemma zero_group:
  fixes x :: u32_t
  assumes "drop_bit (n + 7) x = 0" "(ucast (drop_bit n x) :: u8_t) = 0"
  shows "drop_bit n x = 0"
proof -
  have "take_bit 7 (drop_bit n x) = take_bit 7 (ucast (ucast (drop_bit n x) :: u8_t))" by (rule bit_word_eqI) (auto simp: bit_simps)
  then show ?thesis using next_group [of n x] assms by simp
qed

lemma dec_groups_at:
  assumes "message s p ps" "at s ps c i" "drop i (data s ps) = groups_code x (7 * k) tail @ b # rest" "b AND 0x80 = 0"
    and "length (groups_code x (7 * k) tail) < n" "\<not> bit x 31" "tail \<or> drop_bit (7 * k + 7) x = 0"
  shows "\<exists>c'. dec_groups s n c (drop_bit (7 * k + 7) x) = Some (n - length (groups_code x (7 * k) tail), c', drop_bit 7 x)
    \<and> at s ps c' (i + length (groups_code x (7 * k) tail))"
  using assms
proof (induction k arbitrary: c i n tail)
  case 0
  have nil: "groups_code x (7 * 0) tail = []" by (subst groups_code.simps) simp
  have g: "get s c = b" using get_at [OF 0(2)] 0(3) nil nth_via_drop [of i "data s ps"] by simp
  have "dec_groups s n c (drop_bit 7 x) = Some (n, c, drop_bit 7 x)"
    using g 0(4,5) by (cases "(s, n, c, drop_bit 7 x)" rule: dec_groups.cases) auto
  then show ?case using nil 0(2) by simp
next
  case (Suc k)
  define code where "code = (ucast (drop_bit (7 * Suc k) x) :: u8_t)"
  have sd: "signed_drop_bit (7 * Suc k) x = drop_bit (7 * Suc k) x" using signed_drop_nonneg [OF Suc.prems(6)] .
  have gc: "groups_code x (7 * Suc k) tail
      = (if code \<noteq> 0 \<or> tail then (code OR 0x80) # groups_code x (7 * k) True else groups_code x (7 * k) tail)"
    by (subst groups_code.simps) (simp only: sd code_def [symmetric] Let_def, simp)
  show ?case
  proof (cases "code \<noteq> 0 \<or> tail")
    case False
    then have "drop_bit (7 * Suc k) x = 0" "drop_bit (7 * Suc k + 7) x = 0"
      using zero_group [of "7 * Suc k" x] Suc.prems(7) by (auto simp: code_def)
    then show ?thesis using Suc.IH [of c i tail n] Suc.prems gc False by (simp add: add.commute)
  next
    case True
    let ?g = "groups_code x (7 * k) True"
    have d: "drop i (data s ps) = (code OR 0x80) # ?g @ b # rest" using Suc.prems(3) gc True by simp
    have g: "get s c = code OR 0x80" using get_at [OF Suc.prems(2)] nth_via_drop [OF d] by simp
    have d': "drop (Suc i) (data s ps) = ?g @ b # rest" using d by (metis drop_Suc list.sel(3) tl_drop)
    then have "Suc i < length (data s ps)" by (metis drop_eq_Nil append_is_Nil_conv list.distinct(1) not_le)
    then obtain c' where c': "asn_next s c = Some c'" "at s ps c' (Suc i)" using next_at [OF Suc.prems(1,2)] by auto
    obtain m where m: "n = Suc (Suc m)" "length ?g < Suc m" using Suc.prems(5) gc True by (cases n; cases "n - 1") auto
    have acc: "push_bit 7 (drop_bit (7 * Suc k + 7) x) + ucast ((code OR 0x80) AND 0x7f) = drop_bit (7 * k + 7) x"
      using next_group [of "7 * Suc k" x] group_octet(2) [of "drop_bit (7 * Suc k) x"] by (simp add: code_def add.commute)
    have "dec_groups s n c (drop_bit (7 * Suc k + 7) x) = dec_groups s (Suc m) c' (drop_bit (7 * k + 7) x)"
      using c'(1) g group_octet(1) [of "drop_bit (7 * Suc k) x"] acc by (simp add: m(1) code_def [symmetric] del: mult_Suc_right)
    then show ?thesis
      using Suc.IH [OF Suc.prems(1) c'(2) d' Suc.prems(4) m(2) Suc.prems(6), of] gc True m by auto
  qed
qed

lemma groups_high: "groups_code x shift tail = b # bs \<Longrightarrow> b AND 0x80 \<noteq> 0"
proof (induction x shift tail arbitrary: b bs rule: groups_code.induct)
  case (1 x shift tail)
  define code where "code = (ucast (signed_drop_bit shift x) :: u8_t)"
  have "shift > 0" using "1.prems" by (subst (asm) groups_code.simps) (auto split: if_splits)
  then show ?case
    using "1.prems" "1.IH"(2) [OF _ code_def] group_octet(1) [of "signed_drop_bit shift x"]
    by (auto simp: groups_code.simps [of x shift] Let_def code_def [symmetric] split: if_splits)
qed

lemma dec_subid_at:
  assumes m: "message s p ps" and c: "at s ps c i" and d: "drop i (data s ps) = subid_code x @ rest"
    and n: "length (subid_code x) \<le> n" and x: "\<not> bit x 31"
  shows "\<exists>c'. dec_subid s n c oid = Some (n - length (subid_code x), c', oid\<lparr>oid_id := (oid_id oid)[oid_len oid := x]\<rparr>)
    \<and> at s ps c' (i + length (subid_code x) - 1)"
proof -
  let ?g = "groups_code x 28 False" and ?last = "ucast x AND 0x7f :: u8_t"
  have d': "drop i (data s ps) = groups_code x (7 * 4) False @ ?last # rest" using d by (simp add: subid_code_def)
  have top: "drop_bit (7 * 4 + 7) x = 0" by (rule bit_word_eqI) (auto simp: bit_simps dest: bit_imp_le_length)
  obtain c' where c': "dec_groups s n c 0 = Some (n - length ?g, c', drop_bit 7 x)" "at s ps c' (i + length ?g)"
    using dec_groups_at [OF m c d' group_octet(3), of n] n x top by (auto simp: subid_code_def)
  have whole: "push_bit 7 (drop_bit 7 x) + ucast ?last = x" using next_group [of 0 x] group_octet(4) [of x] by simp
  have "drop (i + length ?g) (data s ps) = ?last # rest" using d' by (simp add: drop_drop [symmetric] add.commute [of i])
  then have "data s ps ! (i + length ?g) = ?last" by (rule nth_via_drop)
  then have gl: "get s c' = ?last" using get_at [OF c'(2)] by simp
  show ?thesis
  proof (cases ?g)
    case Nil
    then have gc: "get s c = ?last" using get_at [OF c] nth_via_drop [of i "data s ps" ?last rest] d' by simp
    then have "dec_groups s n c 0 = Some (n, c, 0)"
      using group_octet(3) [of x] by (cases "(s, n, c, 0 :: u32_t)" rule: dec_groups.cases) auto
    then have "ucast ?last = x" using c'(1) whole by simp
    then show ?thesis using Nil gc group_octet(3) [of x] c by (simp add: dec_subid_def subid_code_def)
  next
    case (Cons b bs)
    then have "get s c = b" using get_at [OF c] nth_via_drop [of i "data s ps" b "bs @ ?last # rest"] d' by simp
    moreover have "b AND 0x80 \<noteq> 0" using groups_high [OF Cons] .
    ultimately show ?thesis
      using c' gl group_octet(3) [of x] whole n by (auto simp: dec_subid_def subid_code_def)
  qed
qed

end
