(* ===== verification/Asn1_Claims.thy ===== *)
theory Asn1_Claims
  imports Asn1_Props
begin

unbundle bit_operations_syntax

text \<open>
  What the ASN.1 encoders write the decoders read back: lengths, unsigned and signed numbers, octet strings and
  object identifiers, with the octet counts that the senders compute first.
\<close>

section \<open>From the octets stored to the octets read\<close>

lemma stored:
  assumes "message s p ps" "\<exists>r. enc = Some r \<and> stores s ps ofs code r" "ofs + length code \<le> length (data s ps)"
  obtains s' where "enc = Some (ERR_OK, s')" "message s' p ps" "data s' ps = overwrite ofs code (data s ps)"
    "length (data s' ps) = length (data s ps)" "take (length code) (drop ofs (data s' ps)) = code"
proof -
  obtain r where r: "enc = Some r" "stores s ps ofs code r" using assms(2) by blast
  then have "fst r = ERR_OK" "data (snd r) ps = overwrite ofs code (data s ps)" "message (snd r) p ps"
    using assms(1,3) by (auto simp: stores_def)
  then show thesis using that [of "snd r"] r(1) assms(3) by (cases r) (simp add: drop_overwrite)
qed

lemma dec_length_back:
  assumes m: "message s p ps" and l: "l < 65536" and room: "ofs + length (length_code l) \<le> length (data s ps)"
    and code: "take (length (length_code l)) (drop ofs (data s ps)) = length_code l"
  shows "snmp_asn1_dec_length p ofs s = Some (ERR_OK, Some (snmp_asn1_enc_length_cnt l), Some l)"
proof -
  have cnt: "0 < snmp_asn1_enc_length_cnt l" by (rule cnt_pos)
  then have ofs: "ofs < length (data s ps)" using room by simp
  have oct: "data s ps ! (ofs + k) = length_code l ! k" if "k < snmp_asn1_enc_length_cnt l" for k
    using arg_cong [OF code, of "\<lambda>xs. xs ! k"] that room by simp
  obtain c where c: "at s ps c ofs"
    and f: "\<And>(f :: cursor \<Rightarrow> (err_t \<times> nat option \<times> nat option) option) err. at_offset f err s p ofs = Some (f c)"
    using at_offset_ok [OF m ofs] by blast
  have g: "get s c = length_code l ! 0" using get_at [OF c] oct [OF cnt] by simp
  have small: "unat (of_nat l :: u8_t) = l mod 256" "unat (of_nat (l div 256) :: u8_t) = l div 256" using l
    by (simp_all add: unat_of_nat)
  have next_octet: "\<exists>c'. asn_next s c = Some c' \<and> at s ps c' (ofs + Suc k) \<and> get s c' = length_code l ! Suc k"
    if "at s ps c (ofs + k)" "Suc k < snmp_asn1_enc_length_cnt l" for c k
    using next_at [OF m that(1)] oct [OF that(2)] get_at [of s ps _ "ofs + Suc k"] room that(2) by auto
  consider "l < 0x80" | "\<not> l < 0x80" "l < 0x100" | "\<not> l < 0x100" by blast
  then have "dec_length_at s c = Some (ERR_OK, Some (snmp_asn1_enc_length_cnt l), Some l)"
  proof cases
    case 1
    then have "(of_nat l :: u8_t) < 0x80" using small(1) by (simp add: word_less_nat_alt)
    then show ?thesis using 1 g small(1) by (simp add: dec_length_at_def length_code_def snmp_asn1_enc_length_cnt_def)
  next
    case 2
    then obtain c1 where c1: "asn_next s c = Some c1" "get s c1 = of_nat l"
      using next_octet [of c 0] c by (auto simp: snmp_asn1_enc_length_cnt_def length_code_def)
    then show ?thesis using 2 g small(1) by (simp add: dec_length_at_def length_code_def snmp_asn1_enc_length_cnt_def)
  next
    case 3
    then have n: "snmp_asn1_enc_length_cnt l = 3" by (simp add: snmp_asn1_enc_length_cnt_def)
    obtain c1 where c1: "asn_next s c = Some c1" "at s ps c1 (ofs + Suc 0)" "get s c1 = of_nat (l div 256)"
      using next_octet [of c 0] c 3 n by (auto simp: length_code_def)
    obtain c2 where c2: "asn_next s c1 = Some c2" "get s c2 = of_nat l"
      using next_octet [OF c1(2)] 3 n by (auto simp: length_code_def)
    show ?thesis using 3 g c1 c2 small n by (simp add: dec_length_at_def length_code_def Let_def)
  qed
  then show ?thesis by (simp add: snmp_asn1_dec_length_def f)
qed

lemma dec_raw_loop_at:
  "message s p ps \<Longrightarrow> at s ps c i \<Longrightarrow> i + n < length (data s ps) \<Longrightarrow>
   dec_raw_loop s n c acc = (ERR_OK, acc @ take (Suc n) (drop i (data s ps)))"
proof (induction n arbitrary: c i acc)
  case 0
  then show ?case by (simp add: take_octets get_at)
next
  case (Suc n)
  obtain c' where c': "asn_next s c = Some c'" "at s ps c' (Suc i)" using next_at [OF Suc.prems(1,2)] Suc.prems(3) by auto
  show ?case
    using Suc.IH [OF Suc.prems(1) c'(2)] Suc.prems(3) c'(1) get_at [OF Suc.prems(2)]
    by (simp add: take_octets [of i _ "Suc n"])
qed

lemma dec_raw_at:
  assumes m: "message s p ps" and n: "0 < n" "ofs + n \<le> length (data s ps)" "n \<le> raw_len"
  shows "snmp_asn1_dec_raw p ofs n raw_len s = Some (ERR_OK, take n (drop ofs (data s ps)))"
proof -
  have ofs: "ofs < length (data s ps)" using n by simp
  obtain c where c: "at s ps c ofs" and f: "\<And>(f :: cursor \<Rightarrow> err_t \<times> u8_t list) err. at_offset f err s p ofs = Some (f c)"
    using at_offset_ok [OF m ofs] by blast
  show ?thesis using n dec_raw_loop_at [OF m c, of "n - 1" "[]"] by (simp add: snmp_asn1_dec_raw_def f)
qed

lemma enc_raw_stores:
  assumes "message s p ps" "raw \<noteq> []"
  shows "\<exists>r. snmp_asn1_enc_raw p ofs raw s = Some r \<and> stores s ps ofs raw r"
  unfolding snmp_asn1_enc_raw_def by (rule stores_at_offset [OF assms]) (rule stores_raw [OF assms(1) _ assms(2)])

section \<open>Object identifiers\<close>

lemma subid_code_ne: "0 < length (subid_code x)"
  by (simp add: subid_code_def)

lemma dec_oid_loop_at:
  assumes "message s p ps" "ids \<noteq> [] \<Longrightarrow> at s ps c i" "drop i (data s ps) = subids_code ids @ rest"
    and "\<forall>x\<in>set ids. \<not> bit x 31" "oid_len oid + length ids \<le> 32" "length (oid_id oid) = 32"
  shows "dec_oid_loop s (length (subids_code ids)) c oid
    = (ERR_OK, oid\<lparr>oid_len := oid_len oid + length ids, oid_id := overwrite (oid_len oid) ids (oid_id oid)\<rparr>)"
  using assms
proof (induction ids arbitrary: c i oid)
  case Nil
  then show ?case by (simp add: dec_oid_loop.simps subids_code_def)
next
  case (Cons x ids)
  let ?n = "length (subids_code (x # ids))" and ?oid = "oid\<lparr>oid_id := (oid_id oid)[oid_len oid := x]\<rparr>"
  have split: "subids_code (x # ids) = subid_code x @ subids_code ids" by (simp add: subids_code_def)
  have c: "at s ps c i" using Cons.prems(2) by simp
  have d: "drop i (data s ps) = subid_code x @ (subids_code ids @ rest)" using Cons.prems(3) split by simp
  have x: "\<not> bit x 31" and n: "length (subid_code x) \<le> ?n" using Cons.prems(4) split by simp_all
  obtain c1 where sub: "dec_subid s ?n c oid = Some (length (subids_code ids), c1, ?oid)"
    and c1: "at s ps c1 (i + length (subid_code x) - 1)"
    using dec_subid_at [OF Cons.prems(1) c d n x, of oid] split by auto
  have d1: "drop (i + length (subid_code x)) (data s ps) = subids_code ids @ rest"
    using d by (simp add: drop_drop [symmetric] add.commute [of i])
  have IH: "dec_oid_loop s (length (subids_code ids)) c2 (?oid\<lparr>oid_len := oid_len oid + 1\<rparr>)
      = (ERR_OK, oid\<lparr>oid_len := oid_len oid + length (x # ids), oid_id := overwrite (oid_len oid) (x # ids) (oid_id oid)\<rparr>)"
    if "ids \<noteq> [] \<Longrightarrow> at s ps c2 (i + length (subid_code x))" for c2
    using Cons.IH [OF Cons.prems(1) that d1, of "?oid\<lparr>oid_len := oid_len oid + 1\<rparr>"] Cons.prems(4-6)
    by (simp add: overwrite_Cons)
  have go: "0 < ?n \<and> oid_len oid < 32" using split subid_code_ne [of x] Cons.prems(5) by simp
  show ?case
  proof (cases "ids = []")
    case True
    then have "length (subids_code ids) = 0" by (simp add: subids_code_def)
    then show ?thesis using IH [of c1] sub go True by (subst dec_oid_loop.simps) simp
  next
    case False
    then have pos: "0 < length (subids_code ids)" using subid_code_ne by (cases ids) (auto simp: subids_code_def)
    then have "Suc (i + length (subid_code x) - 1) < length (data s ps)"
      using arg_cong [OF d1, of length] subid_code_ne [of x] unfolding length_drop length_append by linarith
    then obtain c2 where "asn_next s c1 = Some c2" "at s ps c2 (i + length (subid_code x))"
      using next_at [OF Cons.prems(1) c1] subid_code_ne [of x] by auto
    then show ?thesis using IH [of c2] sub go pos by (subst dec_oid_loop.simps) simp
  qed
qed

text \<open>The first two identifiers share an octet.\<close>

definition oid_root :: "u32_t \<Rightarrow> u32_t \<Rightarrow> bool" where
  "oid_root x y \<longleftrightarrow> (x = 0 \<or> x = 1) \<and> y < 40 \<or> x = 2 \<and> y < 176"

lemma unat_octet: "unat (ucast x :: u8_t) = unat x mod 256" for x :: u32_t
  by (simp add: unsigned_ucast_eq take_bit_eq_mod)

lemma unat_of_octet: "unat (ucast b :: u32_t) = unat b" for b :: u8_t
proof -
  have "unat b < 2 ^ LENGTH(8)" by (rule unsigned_less)
  then show ?thesis by (simp add: unsigned_ucast_eq take_bit_eq_mod)
qed

lemma prefix_back: "oid_root x y \<Longrightarrow> oid_prefix (prefix_code x y) = (x, y)"
proof -
  assume "oid_root x y"
  then consider "x = 0" "y < 40" | "x = 1" "y < 40" | "x = 2" "y < 176" by (auto simp: oid_root_def)
  then show ?thesis
    by cases
      (auto simp: oid_prefix_def prefix_code_def word_less_nat_alt word_unat_eq_iff unat_octet unat_of_octet
        unat_word_ariths unat_sub_if')
qed

text \<open>The octets counted before an identifier is written are the octets written.\<close>

lemma length_groups_tail: "length (groups_code x (7 * k) True) = k"
proof (induction k)
  case 0
  then show ?case by (subst groups_code.simps) simp
next
  case (Suc k)
  then show ?case by (subst groups_code.simps) (simp add: Let_def)
qed

lemma sint_pos: "\<not> bit y 31 \<Longrightarrow> 0 < sint y \<longleftrightarrow> y \<noteq> 0" for y :: u32_t
proof -
  have "sint y = 0 \<longleftrightarrow> y = 0" by (metis signed_0 signed_word_eqI)
  then show "\<not> bit y 31 \<Longrightarrow> ?thesis" using bit_last_iff [of y] by auto
qed

lemma subid_cnt_zero: "subid_cnt 0 cnt = cnt"
  by (subst subid_cnt.simps) simp

lemma subid_cnt_groups:
  "\<not> bit y 31 \<Longrightarrow> drop_bit (7 * j) y \<noteq> 0 \<Longrightarrow> drop_bit (7 * j + 7) y = 0 \<Longrightarrow> cnt + j < 255 \<Longrightarrow> subid_cnt y cnt = cnt + Suc j"
proof (induction j arbitrary: y cnt)
  case 0
  then show ?case
    using subid_cnt.simps [of y cnt] signed_drop_nonneg [of y 7] sint_pos [of y] by (simp add: subid_cnt_zero)
next
  case (Suc j)
  have y: "y \<noteq> 0" using Suc.prems(2) by auto
  have "drop_bit (7 * j) (drop_bit 7 y) \<noteq> 0" "drop_bit (7 * j + 7) (drop_bit 7 y) = 0"
    using Suc.prems(2,3) by (simp_all add: drop_bit_drop_bit ac_simps)
  moreover have "\<not> bit (drop_bit 7 y) 31" by (auto simp: bit_simps dest: bit_imp_le_length)
  ultimately have "subid_cnt (drop_bit 7 y) (cnt + 1) = cnt + 1 + Suc j" using Suc.IH Suc.prems(4) by simp
  then show ?case
    using subid_cnt.simps [of y cnt] signed_drop_nonneg [of y 7] sint_pos [of y] Suc.prems(1,4) y by simp
qed

lemma subid_cnt_code:
  "\<not> bit x 31 \<Longrightarrow> drop_bit (7 * k + 7) x = 0 \<Longrightarrow> cnt + k < 256 \<Longrightarrow>
   subid_cnt (signed_drop_bit 7 x) cnt = cnt + length (groups_code x (7 * k) False)"
proof (induction k)
  case 0
  then show ?case using groups_code.simps [of x 0] signed_drop_nonneg [of x 7] by (simp add: subid_cnt_zero)
next
  case (Suc k)
  have sd: "signed_drop_bit n x = drop_bit n x" for n using signed_drop_nonneg [OF Suc.prems(1)] .
  show ?case
  proof (cases "(ucast (drop_bit (7 * k + 7) x) :: u8_t) = 0")
    case True
    then have "drop_bit (7 * k + 7) x = 0" using zero_group [of "7 * k + 7" x] Suc.prems(2) by (simp add: ac_simps)
    then show ?thesis using Suc.IH Suc.prems True groups_code.simps [of x "7 * Suc k" False] by (simp add: sd Let_def ac_simps)
  next
    case False
    then have "drop_bit (7 * k + 7) x \<noteq> 0" by auto
    moreover have "\<not> bit (drop_bit 7 x) 31" by (auto simp: bit_simps dest: bit_imp_le_length)
    ultimately have "subid_cnt (drop_bit 7 x) cnt = cnt + Suc k"
      using subid_cnt_groups [of "drop_bit 7 x" k cnt] Suc.prems by (simp add: drop_bit_drop_bit ac_simps)
    then show ?thesis
      using False groups_code.simps [of x "7 * Suc k" False] length_groups_tail [of x k] by (simp add: sd Let_def ac_simps)
  qed
qed

lemma length_groups: "length (groups_code x (7 * k) tail) \<le> k"
proof (induction k arbitrary: tail)
  case 0
  then show ?case by (subst groups_code.simps) simp
next
  case (Suc k)
  show ?case using groups_code.simps [of x "7 * Suc k" tail] Suc [of tail] Suc [of True] by (cases tail) (simp_all add: Let_def)
qed

lemma oid_cnt_code:
  "\<forall>x\<in>set ids. \<not> bit x 31 \<Longrightarrow> cnt + 5 * length ids < 256 \<Longrightarrow> oid_cnt_loop ids cnt = cnt + length (subids_code ids)"
proof (induction ids arbitrary: cnt)
  case Nil
  then show ?case by (simp add: subids_code_def)
next
  case (Cons x ids)
  have "drop_bit (7 * 4 + 7) x = 0" by (rule bit_word_eqI) (auto simp: bit_simps dest: bit_imp_le_length)
  then have "subid_cnt (signed_drop_bit 7 x) (cnt + 1) = cnt + length (subid_code x)"
    using subid_cnt_code [of x 4 "cnt + 1"] Cons.prems by (simp add: subid_code_def)
  moreover have "length (subid_code x) \<le> 5" using length_groups [of x 4 False] by (simp add: subid_code_def)
  ultimately show ?case using Cons by (simp add: subids_code_def)
qed

lemma enc_oid_cnt_code:
  assumes "2 \<le> length ident" "length ident \<le> 32" "\<forall>x\<in>set (drop 2 ident). \<not> bit x 31"
  shows "snmp_asn1_enc_oid_cnt ident = length (oid_code ident)"
  using oid_cnt_code [OF assms(3), of 1] assms(1,2) by (simp add: snmp_asn1_enc_oid_cnt_def oid_code_def)

lemma dec_oid_back:
  assumes m: "message s p ps" and ident: "2 < length ident" "length ident \<le> 32" and root: "oid_root (ident ! 0) (ident ! 1)"
    and pos: "\<forall>x\<in>set (drop 2 ident). \<not> bit x 31" and oid: "length (oid_id oid) = 32"
    and d: "drop ofs (data s ps) = oid_code ident @ rest"
  shows "snmp_asn1_dec_oid p ofs (length (oid_code ident)) oid s
    = Some (ERR_OK, oid\<lparr>oid_len := length ident, oid_id := overwrite 0 ident (oid_id oid)\<rparr>)"
proof -
  let ?b = "prefix_code (ident ! 0) (ident ! 1)" and ?ids = "drop 2 ident"
  let ?oid = "oid\<lparr>oid_id := (oid_id oid)[0 := ident ! 0, 1 := ident ! 1], oid_len := 2\<rparr>"
  have d': "drop ofs (data s ps) = ?b # subids_code ?ids @ rest" using d by (simp add: oid_code_def)
  then have ofs: "ofs < length (data s ps)" by (metis drop_eq_Nil list.distinct(1) not_le)
  obtain c where c: "at s ps c ofs" and f: "\<And>(f :: cursor \<Rightarrow> err_t \<times> snmp_obj_id) err. at_offset f err s p ofs = Some (f c)"
    using at_offset_ok [OF m ofs] by blast
  have g: "get s c = ?b" using get_at [OF c] nth_via_drop [OF d'] by simp
  have d1: "drop (Suc ofs) (data s ps) = subids_code ?ids @ rest" using d' by (metis drop_Suc list.sel(3) tl_drop)
  have ne: "?ids \<noteq> []" "0 < length (subids_code ?ids)"
    using ident(1) subid_code_ne by (cases ?ids; auto simp: subids_code_def)+
  have "Suc ofs < length (data s ps)" using arg_cong [OF d1, of length] ne(2) unfolding length_drop length_append by linarith
  then obtain c' where c': "asn_next s c = Some c'" "at s ps c' (Suc ofs)" using next_at [OF m c] by auto
  have "dec_oid_loop s (length (subids_code ?ids)) c' ?oid
      = (ERR_OK, ?oid\<lparr>oid_len := length ident, oid_id := overwrite 2 ?ids (oid_id ?oid)\<rparr>)"
    using dec_oid_loop_at [OF m c'(2) d1 pos, of ?oid] ident oid by simp
  moreover have "overwrite 2 ?ids (oid_id ?oid) = overwrite 0 ident (oid_id oid)"
  proof -
    obtain x y zs where "ident = x # y # zs" using ident(1) by (cases ident; cases "tl ident") auto
    then show ?thesis using overwrite_Cons [of 0 "oid_id oid" "y # zs" x] overwrite_Cons [of 1 "(oid_id oid)[0 := x]" zs y] oid
      by (simp add: numeral_2_eq_2)
  qed
  ultimately show ?thesis
    using ne(2) c'(1) ident(1) prefix_back [OF root] by (simp add: snmp_asn1_dec_oid_def f g oid_code_def Let_def)
qed

section \<open>Round trips\<close>

lemma ex0_message: "message ex0 100 [100, 200]"
  using ex0_packets(1) by (simp add: message_def ex0_def pb0_def payload_apart_def apart_def)

lemma u32_roundtrip:
  assumes "message s p ps" and room: "ofs + snmp_asn1_enc_u32t_cnt v \<le> length (data s ps)"
  shows "\<exists>s'. snmp_asn1_enc_u32t p ofs (snmp_asn1_enc_u32t_cnt v) v s = Some (ERR_OK, s')
    \<and> data s' ps = overwrite ofs (u32_code v) (data s ps)
    \<and> snmp_asn1_dec_u32t p ofs (snmp_asn1_enc_u32t_cnt v) s' = Some (ERR_OK, Some v)"
proof -
  obtain s' where s': "snmp_asn1_enc_u32t p ofs (snmp_asn1_enc_u32t_cnt v) v s = Some (ERR_OK, s')" "message s' p ps"
      "data s' ps = overwrite ofs (u32_code v) (data s ps)" "length (data s' ps) = length (data s ps)"
      "take (snmp_asn1_enc_u32t_cnt v) (drop ofs (data s' ps)) = u32_code v"
    using stored [OF assms(1) enc_u32_stores [OF assms(1)]] room by (metis length_codes(2))
  obtain b bs where code: "u32_code v = b # bs" using cnt_pos(2) [of v] length_codes(2) [of v] by (cases "u32_code v") auto
  show ?thesis
    using dec_u32_at [OF s'(2) cnt_pos(2)] u32_code_value [OF code] s' code room cnt_le(1) [of v]
    by (intro exI [of _ s'] conjI) simp_all
qed

lemma s32_roundtrip:
  assumes "message s p ps" and room: "ofs + snmp_asn1_enc_s32t_cnt v \<le> length (data s ps)"
  shows "\<exists>s'. snmp_asn1_enc_s32t p ofs (snmp_asn1_enc_s32t_cnt v) v s = Some (ERR_OK, s')
    \<and> data s' ps = overwrite ofs (s32_code v) (data s ps)
    \<and> snmp_asn1_dec_s32t p ofs (snmp_asn1_enc_s32t_cnt v) s' = Some (ERR_OK, Some v)"
proof -
  obtain s' where s': "snmp_asn1_enc_s32t p ofs (snmp_asn1_enc_s32t_cnt v) v s = Some (ERR_OK, s')" "message s' p ps"
      "data s' ps = overwrite ofs (s32_code v) (data s ps)" "length (data s' ps) = length (data s ps)"
      "take (snmp_asn1_enc_s32t_cnt v) (drop ofs (data s' ps)) = s32_code v"
    using stored [OF assms(1) enc_s32_stores [OF assms(1)]] room by (metis length_codes(3))
  obtain b bs where code: "s32_code v = b # bs" using cnt_pos(3) [of v] length_codes(3) [of v] by (cases "s32_code v") auto
  show ?thesis
    using dec_s32_at [OF s'(2) cnt_pos(3)] s32_code_value [OF code] s' code room cnt_le(2) [of v]
    by (intro exI [of _ s'] conjI) simp_all
qed

lemma length_roundtrip:
  assumes "message s p ps" and l: "l < 65536" and room: "ofs + snmp_asn1_enc_length_cnt l \<le> length (data s ps)"
  shows "\<exists>s'. snmp_asn1_enc_length p ofs l s = Some (ERR_OK, s')
    \<and> data s' ps = overwrite ofs (length_code l) (data s ps)
    \<and> snmp_asn1_dec_length p ofs s' = Some (ERR_OK, Some (snmp_asn1_enc_length_cnt l), Some l)"
proof -
  obtain s' where s': "snmp_asn1_enc_length p ofs l s = Some (ERR_OK, s')" "message s' p ps"
      "data s' ps = overwrite ofs (length_code l) (data s ps)" "length (data s' ps) = length (data s ps)"
      "take (length (length_code l)) (drop ofs (data s' ps)) = length_code l"
    using stored [OF assms(1) enc_length_stores [OF assms(1)]] room by (metis length_codes(1))
  then show ?thesis
    using dec_length_back [OF s'(2) l] room by (intro exI [of _ s'] conjI) simp_all
qed

lemma raw_roundtrip:
  assumes "message s p ps" and raw: "raw \<noteq> []" "length raw \<le> raw_len" and room: "ofs + length raw \<le> length (data s ps)"
  shows "\<exists>s'. snmp_asn1_enc_raw p ofs raw s = Some (ERR_OK, s')
    \<and> data s' ps = overwrite ofs raw (data s ps)
    \<and> snmp_asn1_dec_raw p ofs (length raw) raw_len s' = Some (ERR_OK, raw)"
proof -
  obtain s' where s': "snmp_asn1_enc_raw p ofs raw s = Some (ERR_OK, s')" "message s' p ps"
      "data s' ps = overwrite ofs raw (data s ps)" "length (data s' ps) = length (data s ps)"
      "take (length raw) (drop ofs (data s' ps)) = raw"
    using stored [OF assms(1) enc_raw_stores [OF assms(1) raw(1)]] room by metis
  then show ?thesis
    using dec_raw_at [OF s'(2), of "length raw" ofs raw_len] raw room by (intro exI [of _ s'] conjI) simp_all
qed

text \<open>
  C21. A number, a length or an octet string written into a packet with the number of octets its count function asks for is read back:
  the encoder returns and stores the octets at the offset and nowhere else in the data, and the decoder, given the
  same offset and count, returns the value, wherever the pbufs of the packet are cut. This holds of all unsigned 32-bit
  numbers, all signed 32-bit numbers, all lengths of 16 bits and all octet strings that are not empty.
\<close>

theorem asn1_values_roundtrip:
  assumes "message s p ps"
  shows "(ofs + snmp_asn1_enc_u32t_cnt v \<le> length (data s ps) \<longrightarrow>
      (\<exists>s'. snmp_asn1_enc_u32t p ofs (snmp_asn1_enc_u32t_cnt v) v s = Some (ERR_OK, s')
        \<and> data s' ps = overwrite ofs (u32_code v) (data s ps)
        \<and> snmp_asn1_dec_u32t p ofs (snmp_asn1_enc_u32t_cnt v) s' = Some (ERR_OK, Some v)))
    \<and> (ofs + snmp_asn1_enc_s32t_cnt v \<le> length (data s ps) \<longrightarrow>
      (\<exists>s'. snmp_asn1_enc_s32t p ofs (snmp_asn1_enc_s32t_cnt v) v s = Some (ERR_OK, s')
        \<and> data s' ps = overwrite ofs (s32_code v) (data s ps)
        \<and> snmp_asn1_dec_s32t p ofs (snmp_asn1_enc_s32t_cnt v) s' = Some (ERR_OK, Some v)))
    \<and> (l < 65536 \<and> ofs + snmp_asn1_enc_length_cnt l \<le> length (data s ps) \<longrightarrow>
      (\<exists>s'. snmp_asn1_enc_length p ofs l s = Some (ERR_OK, s')
        \<and> data s' ps = overwrite ofs (length_code l) (data s ps)
        \<and> snmp_asn1_dec_length p ofs s' = Some (ERR_OK, Some (snmp_asn1_enc_length_cnt l), Some l)))
    \<and> (raw \<noteq> [] \<and> length raw \<le> raw_len \<and> ofs + length raw \<le> length (data s ps) \<longrightarrow>
      (\<exists>s'. snmp_asn1_enc_raw p ofs raw s = Some (ERR_OK, s')
        \<and> data s' ps = overwrite ofs raw (data s ps)
        \<and> snmp_asn1_dec_raw p ofs (length raw) raw_len s' = Some (ERR_OK, raw)))"
  by (intro conjI impI; (elim conjE)?) (rule u32_roundtrip s32_roundtrip length_roundtrip raw_roundtrip; (rule assms)?; assumption)+

theorem asn1_values_roundtrip_witness:
  "(\<exists>s'. snmp_asn1_enc_u32t 100 1 (snmp_asn1_enc_u32t_cnt 0x8000) 0x8000 ex0 = Some (ERR_OK, s')
      \<and> data s' [100, 200] = [98, 0, 0x80, 0, 98]
      \<and> snmp_asn1_dec_u32t 100 1 3 s' = Some (ERR_OK, Some 0x8000))
   \<and> (\<exists>s'. snmp_asn1_enc_length 100 1 0x1234 ex0 = Some (ERR_OK, s')
      \<and> data s' [100, 200] = [98, 0x82, 0x12, 0x34, 98]
      \<and> snmp_asn1_dec_length 100 1 s' = Some (ERR_OK, Some 3, Some 0x1234))"
proof -
  have "snmp_asn1_enc_u32t_cnt 0x8000 = 3" "snmp_asn1_enc_length_cnt 0x1234 = 3"
    by (simp_all add: snmp_asn1_enc_u32t_cnt_def snmp_asn1_enc_length_cnt_def)
  moreover have "u32_code 0x8000 = [0, 0x80, 0]" "length_code 0x1234 = [0x82, 0x12, 0x34]"
    by (simp_all add: u32_code_def be_octets_def snmp_asn1_enc_u32t_cnt_def length_code_def upt_rec)
  moreover have "overwrite 1 [0, 0x80, 0] (data ex0 [100, 200]) = [98, 0, 0x80, 0, 98]"
    "overwrite 1 [0x82, 0x12, 0x34] (data ex0 [100, 200]) = [98, 0x82, 0x12, 0x34, 98]" "length (data ex0 [100, 200]) = 5"
    unfolding ex0_data by (simp_all add: overwrite_def)
  ultimately show ?thesis using asn1_values_roundtrip [OF ex0_message, of 1 "0x8000" "0x1234"] by simp
qed

text \<open>
  C20. An object identifier of three to 32 identifiers, the first two with a joint octet and the others
  not negative as 32-bit numbers, is read back from the packet it was written to: \<^verbatim>\<open>snmp_asn1_enc_oid_cnt\<close> gives the exact number
  of octets, the encoder stores them at the offset and nowhere else in the data, and the decoder finds all identifiers in
  them and leaves the rest of its array alone. (With two identifiers the encoder steps on after the joint octet, and fails when the
  packet ends there.)
\<close>

theorem asn1_oid_roundtrip:
  assumes "message s p ps" "2 < length ident" "length ident \<le> 32" "oid_root (ident ! 0) (ident ! 1)"
    and "\<forall>x\<in>set (drop 2 ident). \<not> bit x 31" "ofs + snmp_asn1_enc_oid_cnt ident \<le> length (data s ps)"
    and "length (oid_id oid) = 32"
  shows "\<exists>s'. snmp_asn1_enc_oid p ofs ident s = Some (ERR_OK, s')
    \<and> data s' ps = overwrite ofs (oid_code ident) (data s ps)
    \<and> snmp_asn1_dec_oid p ofs (snmp_asn1_enc_oid_cnt ident) oid s'
      = Some (ERR_OK, oid\<lparr>oid_len := length ident, oid_id := overwrite 0 ident (oid_id oid)\<rparr>)"
proof -
  have cnt: "snmp_asn1_enc_oid_cnt ident = length (oid_code ident)" using enc_oid_cnt_code assms(2,3,5) by simp
  then have room: "ofs + length (oid_code ident) \<le> length (data s ps)" using assms(6) by simp
  obtain s' where s': "snmp_asn1_enc_oid p ofs ident s = Some (ERR_OK, s')" "message s' p ps"
      "data s' ps = overwrite ofs (oid_code ident) (data s ps)"
    using stored [OF assms(1) enc_oid_stores [OF assms(1,2)] room] by metis
  have "drop ofs (data s' ps) = oid_code ident @ drop (ofs + length (oid_code ident)) (data s ps)"
    unfolding s'(3) by (rule drop_overwrite [OF room])
  from dec_oid_back [OF s'(2) assms(2-5,7) this] show ?thesis using s'(1,3) cnt by (intro exI [of _ s'] conjI) simp_all
qed

theorem asn1_oid_roundtrip_witness:
  "\<exists>s'. snmp_asn1_enc_oid 100 1 [1, 3, 6, 300] ex0 = Some (ERR_OK, s') \<and> data s' [100, 200] = [98, 0x2b, 6, 0x82, 0x2c]
    \<and> snmp_asn1_dec_oid 100 1 4 \<lparr>oid_len = 0, oid_id = replicate 32 0\<rparr> s'
      = Some (ERR_OK, \<lparr>oid_len = 4, oid_id = [1, 3, 6, 300] @ replicate 28 0\<rparr>)"
proof -
  have four: "Suc (Suc (Suc (Suc 0))) = 4" by simp
  have code: "oid_code [1, 3, 6, 300] = [0x2b, 6, 0x82, 0x2c]"
    by (simp add: oid_code_def prefix_code_def subids_code_def subid_code_def groups_code.simps Let_def)
  have "snmp_asn1_enc_oid_cnt [1, 3, 6, 300] = length (oid_code [1, 3, 6, 300])" by (rule enc_oid_cnt_code) simp_all
  then have "snmp_asn1_enc_oid_cnt [1, 3, 6, 300] = 4" using code by simp
  moreover have "length (data ex0 [100, 200]) = 5" "overwrite 1 [0x2b, 6, 0x82, 0x2c] (data ex0 [100, 200]) = [98, 0x2b, 6, 0x82, 0x2c]"
    "overwrite 0 [1, 3, 6, 300] (replicate 32 0) = [1, 3, 6, 300] @ replicate 28 (0 :: u32_t)"
    unfolding ex0_data by (simp_all add: overwrite_def)
  ultimately show ?thesis
    using asn1_oid_roundtrip [OF ex0_message, of "[1, 3, 6, 300]" 1 "\<lparr>oid_len = 0, oid_id = replicate 32 0\<rparr>"] code four
    by (simp add: oid_root_def)
qed

text \<open>
  Two identifiers, such as zeroDotZero, need one octet, but the encoder steps on behind it before it sees that none is
  left: it writes the octet and then fails when the packet ends there.
\<close>

lemma enc_oid_two_fails:
  assumes m: "message s p ps" and "Suc ofs = length (data s ps)"
  shows "snmp_asn1_enc_oid_cnt [x, y] = 1 \<and> (\<exists>s'. snmp_asn1_enc_oid p ofs [x, y] s = Some (ERR_ARG, s')
    \<and> data s' ps = overwrite ofs [prefix_code x y] (data s ps))"
proof -
  have ofs: "ofs < length (data s ps)" using assms(2) by simp
  obtain c where c: "at s ps c ofs" and f: "\<And>(f :: cursor \<Rightarrow> err_t \<times> pbuf_state) err. at_offset f err s p ofs = Some (f c)"
    using at_offset_ok [OF m ofs] by blast
  obtain b where s1: "put c (prefix_code x y) s = s\<lparr>bytes := b\<rparr>" by (simp add: put_def)
  then have "asn_next (put c (prefix_code x y) s) c = None"
    using next_at [of "put c (prefix_code x y) s" p ps c ofs] m c assms(2) by simp
  then have "snmp_asn1_enc_oid p ofs [x, y] s = Some (ERR_ARG, put c (prefix_code x y) s)"
    unfolding prefix_code_def by (auto simp: snmp_asn1_enc_oid_def f Let_def split: if_splits)
  then show ?thesis
    using put_at [OF m c] overwrite_one [OF ofs] by (simp add: snmp_asn1_enc_oid_cnt_def)
qed

text \<open>
  A coded identifier of two octets whose second still announces another one: the decoder reads the octet behind the
  coded length, leaves the array element for the unfinished sub-identifier as it was, and returns \<^verbatim>\<open>ERR_OK\<close>.
\<close>

lemma dec_oid_unterminated:
  "snmp_asn1_dec_oid 100 0 2 \<lparr>oid_len = 0, oid_id = replicate 32 7\<rparr> (ex0\<lparr>bytes := (\<lambda>a. if a = 1001 then 0x81 else 5)\<rparr>)
    = Some (ERR_OK, \<lparr>oid_len = 4, oid_id = (replicate 32 7)[0 := 0, 1 := 5, 3 := 5]\<rparr>)"
proof -
  define s where "s = ex0\<lparr>bytes := (\<lambda>a. if a = 1001 then 0x81 else 5)\<rparr>"
  define c where "c = (\<lambda>k. \<lparr>cu_p = 100, cu_ptr = 1000 + k, cu_ofs = k, cu_plen = 3\<rparr>)"
  let ?oid = "\<lambda>n xs. \<lparr>oid_len = n, oid_id = xs\<rparr>"
  have seek: "asn_seek s 100 0 0 = Some (Some (c 0))"
    by (subst asn_seek.simps) (simp add: s_def c_def ex0_def pb0_def Let_def)
  have nx: "asn_next s (c 0) = Some (c 1)" "asn_next s (c 1) = Some (c 2)"
    by (simp_all add: asn_next_def s_def c_def ex0_def pb0_def Let_def)
  have g: "get s (c 0) = 5" "get s (c 1) = 0x81" "get s (c 2) = 5" by (simp_all add: s_def c_def)
  have two: "dec_oid_loop s 1 (c 2) (?oid 3 xs) = (ERR_OK, ?oid 4 (xs[3 := 5]))" for xs
    by (subst dec_oid_loop.simps, simp add: dec_subid_def g, subst dec_oid_loop.simps, simp)
  have "dec_groups s 1 (c 1) 0 = Some (1, c 1, 0)" by (simp add: One_nat_def)
  then have sub: "dec_subid s 1 (c 1) (?oid 2 xs) = Some (1, c 1, ?oid 2 xs)" for xs using g(2) by (simp add: dec_subid_def)
  have one: "dec_oid_loop s 1 (c 1) (?oid 2 xs) = (ERR_OK, ?oid 4 (xs[3 := 5]))" for xs
    by (subst dec_oid_loop.simps) (simp add: sub [unfolded One_nat_def] nx [unfolded One_nat_def] two [unfolded One_nat_def])
  have "oid_prefix 5 = (0, 5)" by (simp add: oid_prefix_def)
  then show ?thesis
    unfolding s_def [symmetric]
    by (simp add: snmp_asn1_dec_oid_def at_offset_def seek g nx Let_def one [unfolded One_nat_def])
qed

end
