(* ===== verification/Pbuf_Refs.thy ===== *)
theory Pbuf_Refs
  imports Pbuf "HOL-Library.Multiset"
begin

text \<open>
  Reference counting of pbufs. Whoever keeps a pointer to a pbuf owns one of the references its
  \<^verbatim>\<open>ref\<close> field counts: the multiset \<open>R\<close> lists the pointers kept outside the pbufs (queues, variables of
  the callers), every \<^verbatim>\<open>next\<close> field is one more. The locale is the contract the other components
  rely on, and \<^verbatim>\<open>pbuf_free\<close> and \<^verbatim>\<open>pbuf_ref\<close> of \<^verbatim>\<open>core/pbuf.c\<close> implement it.
\<close>

section \<open>The contract\<close>

fun free_all :: "(addr \<Rightarrow> 's \<Rightarrow> (nat \<times> 's) option) \<Rightarrow> addr list \<Rightarrow> 's \<Rightarrow> 's option" where
  "free_all free [] s = Some s"
| "free_all free (p # ps) s = (case free p s of None \<Rightarrow> None | Some (n, s') \<Rightarrow> free_all free ps s')"

locale reference_counting =
  fixes free :: "addr \<Rightarrow> 's \<Rightarrow> (nat \<times> 's) option"
    and share :: "addr \<Rightarrow> 's \<Rightarrow> 's"
    and holds :: "'s \<Rightarrow> addr multiset \<Rightarrow> bool"
    and room :: "'s \<Rightarrow> addr \<Rightarrow> bool"
  assumes free_law: "holds s (add_mset p R) \<Longrightarrow> \<exists>n s'. free p s = Some (n, s') \<and> holds s' R"
    and share_law: "holds s (add_mset p R) \<Longrightarrow> room s p \<Longrightarrow> holds (share p s) (add_mset p (add_mset p R))"
begin

text \<open>References can be given back in any order.\<close>

lemma free_all_law: "holds s (mset ps + R) \<Longrightarrow> \<exists>s'. free_all free ps s = Some s' \<and> holds s' R"
proof (induction ps arbitrary: s)
  case (Cons p ps)
  then have "holds s (add_mset p (mset ps + R))" by simp
  from free_law [OF this] obtain n s' where "free p s = Some (n, s')" "holds s' (mset ps + R)" by blast
  then show ?case using Cons.IH by simp
qed simp

lemma share_free:
  assumes "holds s (add_mset p R)" "room s p"
  shows "\<exists>n s'. free p (share p s) = Some (n, s') \<and> holds s' (add_mset p R)"
  using free_law [OF share_law [OF assms]] .

end

section \<open>The counts\<close>

text \<open>
  \<open>L\<close> is the set of pbufs in use: they own their memory, their \<^verbatim>\<open>next\<close> pointers stay within \<open>L\<close>, and
  each count is the number of pointers to the pbuf.
\<close>

definition counted :: "(memp_t \<Rightarrow> nat) \<Rightarrow> addr \<Rightarrow> addr set \<Rightarrow> pbuf_state \<Rightarrow> addr multiset \<Rightarrow> bool" where
  "counted sizes a L s R \<longleftrightarrow> finite L \<and> NULL \<notin> L \<and> pbuf_inv sizes a s \<and> set_mset R \<subseteq> L
     \<and> (\<forall>x\<in>L. owned sizes a s x \<and> nxt s x \<in> insert NULL L \<and> ref s x < 65536
          \<and> ref s x = count R x + card {y \<in> L. nxt s y = x})"

definition refs_ok :: "(memp_t \<Rightarrow> nat) \<Rightarrow> addr \<Rightarrow> pbuf_state \<Rightarrow> addr multiset \<Rightarrow> bool" where
  "refs_ok sizes a s R \<longleftrightarrow> (\<exists>L. counted sizes a L s R)"

lemma countedD:
  assumes "counted sizes a L s R" "x \<in> L"
  shows "owned sizes a s x" "nxt s x \<in> insert NULL L" "ref s x < 65536"
    "ref s x = count R x + card {y \<in> L. nxt s y = x}"
  using assms by (auto simp: counted_def)

text \<open>Only the structs and the allocators matter.\<close>

lemma refs_ok_cong:
  "pbufs s' = pbufs s \<Longrightarrow> heap s' = heap s \<Longrightarrow> pools s' = pools s \<Longrightarrow> refs_ok sizes a s' R = refs_ok sizes a s R"
  by (simp add: refs_ok_def counted_def pbuf_inv_def owned_def key_def live_def)

lemma counted_nonNULL: "counted sizes a L s R \<Longrightarrow> x \<in> L \<Longrightarrow> x \<noteq> NULL"
  unfolding counted_def by metis

lemma counted_mem: "counted sizes a L s R \<Longrightarrow> x \<in># R \<Longrightarrow> x \<in> L"
  unfolding counted_def by blast

lemma refs_ok_nonNULL: "refs_ok sizes a s R \<Longrightarrow> x \<in># R \<Longrightarrow> x \<noteq> NULL"
  unfolding refs_ok_def using counted_mem counted_nonNULL by blast

text \<open>A field other than \<^verbatim>\<open>next\<close>, \<^verbatim>\<open>ref\<close>, the type and the flags may change.\<close>

lemma counted_upd:
  assumes "counted sizes a L s R" "\<And>x. pb_next (f x) = pb_next x \<and> pb_type (f x) = pb_type x
    \<and> pb_flags (f x) = pb_flags x \<and> pb_ref (f x) = pb_ref x"
  shows "counted sizes a L (upd p f s) R"
proof -
  have same: "nxt (upd p f s) y = nxt s y" "ref (upd p f s) y = ref s y"
    "owned sizes a (upd p f s) y = owned sizes a s y" for y
    using assms(2) by (auto simp: owned_def key_def live_def)
  show ?thesis using assms(1) unfolding counted_def same by (auto simp: pbuf_inv_def)
qed

text \<open>Dropping a reference that is not the last one.\<close>

lemma counted_drop:
  assumes c: "counted sizes a L s (add_mset p R)"
  shows "counted sizes a L (upd p (\<lambda>x. x\<lparr>pb_ref := ref s p - 1\<rparr>) s) R"
proof -
  define s' where "s' = upd p (\<lambda>x. x\<lparr>pb_ref := ref s p - 1\<rparr>) s"
  have same: "nxt s' y = nxt s y" "owned sizes a s' y = owned sizes a s y" for y
    by (auto simp: s'_def owned_def key_def live_def)
  have ref: "ref s' y = (if y = p then ref s p - 1 else ref s y)" for y by (simp add: s'_def)
  have "counted sizes a L s' R"
    using c unfolding counted_def same ref by (auto simp: s'_def pbuf_inv_def)
  then show ?thesis by (simp add: s'_def)
qed

text \<open>The last reference: the pbuf leaves, and the reference its \<^verbatim>\<open>next\<close> field held is in our hands.\<close>

lemma counted_dealloc:
  assumes c: "counted sizes a L s R" and p: "p \<in> L" "ref s p = 0"
  shows "\<exists>s'. pbuf_dealloc cf p s = Some s' \<and> pbufs s' = pbufs s \<and> bytes s' = bytes s
    \<and> counted sizes a (L - {p}) s' (if nxt s p = NULL then R else add_mset (nxt s p) R)"
proof -
  have fin: "finite L" "NULL \<notin> L" "pbuf_inv sizes a s" "set_mset R \<subseteq> L" using c by (auto simp: counted_def)
  have zero: "count R p = 0" "card {y \<in> L. nxt s y = p} = 0" using countedD(4) [OF c p(1)] p(2) by auto
  then have none: "p \<notin># R" "\<And>y. y \<in> L \<Longrightarrow> nxt s y \<noteq> p" using fin(1) by (auto simp: count_eq_zero_iff)
  obtain s' where s': "pbuf_dealloc cf p s = Some s'" "pbuf_inv sizes a s'"
      "live sizes a s' = live sizes a s - {key s p}" "pbufs s' = pbufs s" "bytes s' = bytes s"
    using pbuf_dealloc_owned [OF fin(3) countedD(1) [OF c p(1)], of cf] by blast
  let ?R = "if nxt s p = NULL then R else add_mset (nxt s p) R"
  have "counted sizes a (L - {p}) s' ?R"
    unfolding counted_def
  proof (intro conjI ballI)
    show "set_mset ?R \<subseteq> L - {p}" using fin(4) none countedD(2) [OF c p(1)] p(1) by auto
    fix x assume x: "x \<in> L - {p}"
    have "key s x \<noteq> key s p" using x by (simp add: key_def)
    then show "owned sizes a s' x" using countedD(1) [OF c, of x] x s'(3,4) by (auto simp: owned_def key_def)
    show "nxt s' x \<in> insert NULL (L - {p})" using countedD(2) [OF c, of x] x none(2) [of x] s'(4) by auto
    show "ref s' x < 65536" using countedD(3) [OF c, of x] x s'(4) by simp
    have split: "{y \<in> L. nxt s y = x} = {y \<in> L - {p}. nxt s y = x} \<union> (if nxt s p = x then {p} else {})"
      using p(1) by auto
    have "card {y \<in> L. nxt s y = x} = card {y \<in> L - {p}. nxt s y = x} + (if nxt s p = x then 1 else 0)"
      unfolding split using fin(1) by (subst card_Un_disjoint) auto
    moreover have "x \<noteq> NULL" using x counted_nonNULL [OF c] by auto
    ultimately show "ref s' x = count ?R x + card {y \<in> L - {p}. nxt s' y = x}"
      using countedD(4) [OF c, of x] x s'(4) by auto
  qed (use fin s' in auto)
  then show ?thesis using s' by blast
qed

section \<open>pbuf\_free and pbuf\_ref\<close>

text \<open>States that differ in reference counts and allocators only.\<close>

definition same_data :: "pbuf_state \<Rightarrow> pbuf_state \<Rightarrow> bool" where
  "same_data b b' \<longleftrightarrow> bytes b' = bytes b \<and> (\<forall>x. \<exists>r. pbufs b' x = (pbufs b x)\<lparr>pb_ref := r\<rparr>)"

lemma same_data_refl [simp]: "same_data b b"
  unfolding same_data_def by (metis pbuf.surjective pbuf.update_convs(7))

lemma same_dataD:
  assumes "same_data b b'"
  shows "bytes b' = bytes b" "payload b' p = payload b p" "len b' p = len b p" "pdata b' p = pdata b p"
proof -
  obtain r where "pbufs b' p = (pbufs b p)\<lparr>pb_ref := r\<rparr>" using assms by (auto simp: same_data_def)
  then show "bytes b' = bytes b" "payload b' p = payload b p" "len b' p = len b p" "pdata b' p = pdata b p"
    using assms by (simp_all add: same_data_def pdata_def)
qed

text \<open>
  Each turn of the loop gives one reference back and, when the pbuf goes with it, takes over the
  one the \<^verbatim>\<open>next\<close> field held. The set of pbufs in use shrinks, so the loop ends.
\<close>

lemma pbuf_free_loop_counted:
  assumes "counted sizes a L s (if p = NULL then R else add_mset p R)"
  shows "\<exists>n s'. pbuf_free_loop cf p k s = Some (n, s') \<and> refs_ok sizes a s' R \<and> bytes s' = bytes s
    \<and> (\<forall>x. \<exists>r. pbufs s' x = (pbufs s x)\<lparr>pb_ref := r\<rparr>)"
  using assms
proof (induction "card L" arbitrary: L s p k rule: less_induct)
  case less
  show ?case
  proof (cases "p = NULL")
    case True
    then have "refs_ok sizes a s R" using less.prems by (auto simp: refs_ok_def)
    moreover have "\<forall>x. \<exists>r. pbufs s x = (pbufs s x)\<lparr>pb_ref := r\<rparr>" by (metis pbuf.surjective pbuf.update_convs(7))
    ultimately show ?thesis using True by (simp add: pbuf_free_loop.simps [of cf 0])
  next
    case False
    then have c: "counted sizes a L s (add_mset p R)" using less.prems by simp
    then have p: "p \<in> L" "finite L" by (auto simp: counted_def)
    define s1 where "s1 = upd p (\<lambda>x. x\<lparr>pb_ref := ref s p - 1\<rparr>) s"
    have r: "0 < ref s p" "ref s p < 65536" using countedD [OF c p(1)] by auto
    have c1: "counted sizes a L s1 R" using counted_drop [OF c] by (simp add: s1_def)
    have s1: "ref s1 p = ref s p - 1" "nxt s1 p = nxt s p" "bytes s1 = bytes s" by (simp_all add: s1_def)
    have s1e: "upd p (\<lambda>x. x\<lparr>pb_ref := to_u16 (ref s p - 1)\<rparr>) s = s1" using r by (simp add: s1_def)
    have frame: "\<exists>r. pbufs s1 x = (pbufs s x)\<lparr>pb_ref := r\<rparr>" for x
      by (cases "x = p") (auto simp: s1_def intro: exI [of _ "ref s x"])
    show ?thesis
    proof (cases "ref s p = 1")
      case False
      then have "pbuf_free_loop cf p k s = Some (k, s1)"
        unfolding pbuf_free_loop.simps [of cf p k s] Let_def s1e using \<open>p \<noteq> NULL\<close> r by simp
      then show ?thesis using c1 s1(3) frame unfolding refs_ok_def by blast
    next
      case True
      obtain s2 where s2: "pbuf_dealloc cf p s1 = Some s2" "pbufs s2 = pbufs s1" "bytes s2 = bytes s1"
          "counted sizes a (L - {p}) s2 (if nxt s p = NULL then R else add_mset (nxt s p) R)"
        using counted_dealloc [OF c1 p(1), of cf] True unfolding s1 by auto
      have "card (L - {p}) < card L" using p by (intro psubset_card_mono) auto
      from less.hyps [OF this s2(4)] obtain n s' where s': "pbuf_free_loop cf (nxt s p) (to_u8 (k + 1)) s2 = Some (n, s')"
          "refs_ok sizes a s' R" "bytes s' = bytes s2" "\<forall>x. \<exists>r. pbufs s' x = (pbufs s2 x)\<lparr>pb_ref := r\<rparr>" by blast
      have "pbuf_free_loop cf p k s = Some (n, s')"
        unfolding pbuf_free_loop.simps [of cf p k s] Let_def s1e s1(2) s2(1) using \<open>p \<noteq> NULL\<close> r True s'(1) by simp
      moreover have "\<exists>r. pbufs s' x = (pbufs s x)\<lparr>pb_ref := r\<rparr>" for x
      proof -
        obtain r where "pbufs s' x = (pbufs s1 x)\<lparr>pb_ref := r\<rparr>" using s'(4) s2(2) by auto
        moreover obtain r' where "pbufs s1 x = (pbufs s x)\<lparr>pb_ref := r'\<rparr>" using frame by blast
        ultimately show ?thesis by auto
      qed
      ultimately show ?thesis using s' s2(3) s1(3) by auto
    qed
  qed
qed

lemma pbuf_free_counted:
  assumes "refs_ok sizes a s (add_mset p R)"
  shows "\<exists>n s'. pbuf_free cf p s = Some (n, s') \<and> refs_ok sizes a s' R \<and> bytes s' = bytes s
    \<and> (\<forall>x. \<exists>r. pbufs s' x = (pbufs s x)\<lparr>pb_ref := r\<rparr>)"
proof -
  obtain L where L: "counted sizes a L s (add_mset p R)" using assms by (auto simp: refs_ok_def)
  have p: "p \<noteq> NULL" using counted_nonNULL [OF L counted_mem [OF L]] by simp
  with L have "counted sizes a L s (if p = NULL then R else add_mset p R)" by simp
  from pbuf_free_loop_counted [OF this, of cf 0] show ?thesis using p by (simp add: pbuf_free_def)
qed

lemma pbuf_ref_counted:
  assumes "refs_ok sizes a s (add_mset p R)" and room: "ref s p < 65535"
  shows "refs_ok sizes a (pbuf_ref p s) (add_mset p (add_mset p R))"
proof -
  obtain L where L: "counted sizes a L s (add_mset p R)" using assms by (auto simp: refs_ok_def)
  define s' where "s' = pbuf_ref p s"
  have p: "p \<in> L" "p \<noteq> NULL" using counted_mem [OF L, of p] counted_nonNULL [OF L] by auto
  have same: "nxt s' y = nxt s y" "owned sizes a s' y = owned sizes a s y" for y
    by (auto simp: s'_def pbuf_ref_def owned_def key_def live_def)
  have ref: "ref s' y = (if y = p then ref s p + 1 else ref s y)" for y
    using room p by (simp add: s'_def pbuf_ref_def)
  have inv: "pbuf_inv sizes a s' = pbuf_inv sizes a s" using p by (simp add: s'_def pbuf_ref_def pbuf_inv_def)
  have "counted sizes a L s' (add_mset p (add_mset p R))"
    using L room p(1) unfolding counted_def same ref inv by auto
  then show ?thesis unfolding refs_ok_def s'_def by blast
qed

interpretation pbuf_refs: reference_counting "pbuf_free cf" pbuf_ref "refs_ok sizes a" "\<lambda>s p. ref s p < 65535"
  by unfold_locales (use pbuf_free_counted in blast, rule pbuf_ref_counted)

section \<open>Properties\<close>

text \<open>
  C4. Reference counts are exact. If every count is the number of pointers to the pbuf, kept by callers or by
  the \<^verbatim>\<open>next\<close> fields, then callers can give their references back in any order: no call of
  \<^verbatim>\<open>pbuf_free\<close> aborts on a zero count or runs on memory already freed, whatever the chains share,
  and what remains is again counted exactly. An extra reference taken with \<^verbatim>\<open>pbuf_ref\<close> and given back
  changes nothing.
\<close>

theorem pbuf_counts_exact:
  assumes "refs_ok sizes a s (mset ps + R)" "p \<in># R" "ref s p < 65535"
  shows "\<exists>n s1 s2. pbuf_free cf p (pbuf_ref p s) = Some (n, s1) \<and> refs_ok sizes a s1 (mset ps + R)
    \<and> free_all (pbuf_free cf) ps s1 = Some s2 \<and> refs_ok sizes a s2 R"
proof -
  obtain R' where R: "mset ps + R = add_mset p (mset ps + R')" using assms(2) by (metis mset_add union_mset_add_mset_right)
  then obtain n s1 where s1: "pbuf_free cf p (pbuf_ref p s) = Some (n, s1)" "refs_ok sizes a s1 (mset ps + R)"
    using pbuf_refs.share_free [of sizes a s p "mset ps + R'" cf] assms by auto
  then show ?thesis using pbuf_refs.free_all_law [OF s1(2), of cf] by blast
qed

text \<open>A pbuf of the pool with two owners.\<close>

lemma shared_pbuf:
  "\<exists>s p. refs_ok sizes0 4 s {#p, p#} \<and> ref s p = 2 \<and> (Pool, p) \<in> live sizes0 4 s \<and> len s p = 60 \<and> payload s p = 0"
proof -
  obtain m p where m: "memp_inv sizes0 4 m" "p \<in> memp_live sizes0 4 MEMP_PBUF_POOL m" "p \<noteq> NULL"
    using pools0_taken by blast
  define s where "s = ex0\<lparr>pbufs := (\<lambda>_. (pb0 0 0 60 60)\<lparr>pb_type := PBUF_POOL, pb_ref := 2\<rparr>), pools := m\<rparr>"
  have "owned sizes0 4 s p" using m(2) by (simp add: owned_def s_def pb0_def key_def store_of_def live_iff)
  moreover have "pbuf_inv sizes0 4 s" using ex0_inv m(1) by (simp add: s_def pbuf_inv_def)
  moreover have "{y \<in> {p}. nxt s y = p} = {}" using m(3) by (auto simp: s_def pb0_def)
  ultimately have "counted sizes0 4 {p} s {#p, p#}" using m(3) by (simp add: counted_def) (simp add: s_def pb0_def)
  then have "refs_ok sizes0 4 s {#p, p#} \<and> ref s p = 2 \<and> (Pool, p) \<in> live sizes0 4 s \<and> len s p = 60 \<and> payload s p = 0"
    using m(2) by (auto simp: refs_ok_def live_iff) (simp_all add: s_def pb0_def)
  then show ?thesis by blast
qed

theorem pbuf_counts_exact_witness:
  "\<exists>s p n s1 s2. pbuf_free (\<lambda>_ _. None) p (pbuf_ref p s) = Some (n, s1)
    \<and> pbuf_free (\<lambda>_ _. None) p s1 = Some (0, s2) \<and> refs_ok sizes0 4 s2 {#p#}"
proof -
  obtain s p where s: "refs_ok sizes0 4 s {#p, p#}" "ref s p = 2" using shared_pbuf by blast
  obtain n s1 s2 where s1: "pbuf_free (\<lambda>_ _. None) p (pbuf_ref p s) = Some (n, s1)" "refs_ok sizes0 4 s1 {#p, p#}"
      "free_all (pbuf_free (\<lambda>_ _. None)) [p] s1 = Some s2" "refs_ok sizes0 4 s2 {#p#}"
    using pbuf_counts_exact [of sizes0 4 s "[p]" "{#p#}" p "\<lambda>_ _. None"] s by (auto simp del: free_all.simps)
  obtain L where L: "counted sizes0 4 L s1 {#p, p#}" using s1(2) by (auto simp: refs_ok_def)
  have p: "p \<in> L" "p \<noteq> NULL" using counted_mem [OF L, of p] counted_nonNULL [OF L] by auto
  have r: "2 \<le> ref s1 p" "ref s1 p < 65536" using countedD(3,4) [OF L p(1)] by auto
  then have "pbuf_free (\<lambda>_ _. None) p s1 = Some (0, s2)"
    using s1(3) p(2) pbuf_free_loop.simps [of "\<lambda>_ _. None" p 0 s1]
    by (simp add: pbuf_free_def Let_def split: option.splits)
  then show ?thesis using s1 by blast
qed

end
