(* ===== verification/Byte_Order.thy ===== *)
theory Byte_Order
  imports Lwip_Prelude
begin

text \<open>
  Byte order: \<^verbatim>\<open>core/def.c\<close> on a little-endian host (\<^verbatim>\<open>BYTE_ORDER == LITTLE_ENDIAN\<close> and
  \<^verbatim>\<open>LWIP_PLATFORM_BYTESWAP == 0\<close>, as \<^verbatim>\<open>arch/cc.h\<close> sets them). The conversions are bit for bit
  those of the source; \<open>bytes_of_u16\<close> and \<open>bytes_of_u32\<close> give the bytes of a value in
  the order in which that host stores them.
\<close>

section \<open>Conversions of def.c\<close>

definition lwip_htons :: "u16_t \<Rightarrow> u16_t" where
  "lwip_htons n = push_bit 8 (n AND 0xff) OR drop_bit 8 (n AND 0xff00)"

definition lwip_ntohs :: "u16_t \<Rightarrow> u16_t" where
  "lwip_ntohs n = lwip_htons n"

definition lwip_htonl :: "u32_t \<Rightarrow> u32_t" where
  "lwip_htonl n = push_bit 24 (n AND 0xff) OR push_bit 8 (n AND 0xff00)
     OR drop_bit 8 (n AND 0xff0000) OR drop_bit 24 (n AND 0xff000000)"

definition lwip_ntohl :: "u32_t \<Rightarrow> u32_t" where
  "lwip_ntohl n = lwip_htonl n"

section \<open>The bytes of a value in memory order\<close>

definition bytes_of_u16 :: "u16_t \<Rightarrow> u8_t list" where
  "bytes_of_u16 n = [ucast n, ucast (drop_bit 8 n)]"

definition bytes_of_u32 :: "u32_t \<Rightarrow> u8_t list" where
  "bytes_of_u32 n = [ucast n, ucast (drop_bit 8 n), ucast (drop_bit 16 n), ucast (drop_bit 24 n)]"

section \<open>Arithmetic reading\<close>

lemma unat_lwip_htons [word_nat]:
  "unat (lwip_htons n) = unat n mod 256 * 256 + unat n div 256"
proof -
  have hi: "unat (push_bit 8 (n AND 0xff)) = unat n mod 256 * 256"
    by (simp only: and_mask_numerals unat_push_bit unat_and_mask) simp
  have "drop_bit 8 (n AND 0xff00) = drop_bit 8 n"
    by (simp only: byte_masks, rule bit_word_eqI)
      (auto simp: bit_simps dest: bit_imp_le_length)
  then have lo: "unat (drop_bit 8 (n AND 0xff00)) = unat n div 256"
    by (simp add: word_nat)
  have "unat (lwip_htons n) = unat (push_bit 8 (n AND 0xff)) + unat (drop_bit 8 (n AND 0xff00))"
    unfolding lwip_htons_def
    by (rule unat_or_disjoint [where n = 8]) (use hi lo unat_u16_less [of n] in \<open>auto simp: div_less_iff_less_mult\<close>)
  then show ?thesis using hi lo by simp
qed



text \<open>A 32-bit value is determined by its bytes.\<close>

lemma unat_bytes_of_u32:
  "unat n = unat (bytes_of_u32 n ! 0) + 256 * unat (bytes_of_u32 n ! 1)
     + 65536 * unat (bytes_of_u32 n ! 2) + 16777216 * unat (bytes_of_u32 n ! 3)"
proof -
  have top: "unat n div 16777216 < 256"
    using unat_u32_less [of n] by (simp add: div_less_iff_less_mult)
  have "unat n = unat n mod 256 + 256 * (unat n div 256 mod 256
      + 256 * (unat n div 65536 mod 256 + 256 * (unat n div 16777216)))"
    using div_mult2_eq [of "unat n" 256 256] div_mult2_eq [of "unat n" 65536 256] by simp
  with top show ?thesis
    by (simp add: bytes_of_u32_def unsigned_ucast_eq take_bit_eq_mod unat_drop_bit)
qed

lemma bytes_of_u32_inject: "bytes_of_u32 m = bytes_of_u32 n \<Longrightarrow> m = n"
  by (metis unat_bytes_of_u32 unsigned_word_eqI)

lemma bytes_of_htonl: "bytes_of_u32 (lwip_htonl n) = rev (bytes_of_u32 n)"
  unfolding lwip_htonl_def bytes_of_u32_def byte_masks
  by simp (intro conjI bit_word_eqI; auto simp: bit_simps)

lemma lwip_htons_htons: "lwip_htons (lwip_htons n) = n"
  unfolding lwip_htons_def byte_masks by (rule bit_word_eqI) (auto simp: bit_simps)

section \<open>Properties\<close>

text \<open>
  Host-to-network conversion reverses the bytes of a 32-bit value in memory, and
  converting back from network order restores every 16-bit and every 32-bit value.
\<close>

theorem byte_order_roundtrip:
  "bytes_of_u32 (lwip_htonl n) = rev (bytes_of_u32 n)
   \<and> lwip_ntohl (lwip_htonl n) = n \<and> lwip_ntohs (lwip_htons h) = h"
proof (intro conjI)
  show "bytes_of_u32 (lwip_htonl n) = rev (bytes_of_u32 n)" by (rule bytes_of_htonl)
  show "lwip_ntohl (lwip_htonl n) = n"
    by (rule bytes_of_u32_inject) (simp add: lwip_ntohl_def bytes_of_htonl)
  show "lwip_ntohs (lwip_htons h) = h" by (simp add: lwip_ntohs_def lwip_htons_htons)
qed

end
