(* ===== verification/Netif_Data.thy ===== *)
theory Netif_Data
  imports Byte_Order
begin

text \<open>
  The data of a network interface, \<^verbatim>\<open>struct netif\<close> of \<^verbatim>\<open>include/lwip/netif.h\<close>, with the fields the
  configuration of the build has. Function pointers and the driver's \<^verbatim>\<open>state\<close> are addresses.
  IP addresses are the 32-bit words the code holds, in network byte order.
\<close>

record struct_netif =
  nif_next :: addr
  nif_ip_addr :: u32_t
  nif_netmask :: u32_t
  nif_gw :: u32_t
  nif_input :: addr
  nif_output :: addr
  nif_linkoutput :: addr
  nif_state :: addr
  nif_mtu :: nat
  nif_hwaddr_len :: nat
  nif_hwaddr :: "u8_t list"
  nif_flags :: u8_t
  nif_name :: "u8_t \<times> u8_t"
  nif_num :: nat

abbreviation (input) NETIF_FLAG_UP :: u8_t where "NETIF_FLAG_UP \<equiv> 0x01"
abbreviation (input) NETIF_FLAG_BROADCAST :: u8_t where "NETIF_FLAG_BROADCAST \<equiv> 0x02"
abbreviation (input) NETIF_FLAG_LINK_UP :: u8_t where "NETIF_FLAG_LINK_UP \<equiv> 0x10"
abbreviation (input) NETIF_FLAG_ETHARP :: u8_t where "NETIF_FLAG_ETHARP \<equiv> 0x20"

end
