(* ===== verification/Ip_Addr.thy ===== *)
theory Ip_Addr
  imports Netif_Data
begin

text \<open>
  IPv4 addresses: \<^verbatim>\<open>core/ipv4/ip_addr.c\<close> and the macros of \<^verbatim>\<open>ip_addr.h\<close>. Strings are lists of bytes;
  a list that ends stands for the terminating zero. The theorems: the netmask test accepts exactly
  the contiguous masks, the broadcast test, the bounds of the printer, and that the parser undoes
  the printer.
\<close>

section \<open>Macros of ip\_addr.h\<close>

abbreviation (input) IPADDR_ANY :: u32_t where "IPADDR_ANY \<equiv> 0"
abbreviation (input) IPADDR_NONE :: u32_t where "IPADDR_NONE \<equiv> 0xffffffff"
abbreviation (input) IPADDR_BROADCAST :: u32_t where "IPADDR_BROADCAST \<equiv> 0xffffffff"

definition IP4_ADDR :: "u8_t \<Rightarrow> u8_t \<Rightarrow> u8_t \<Rightarrow> u8_t \<Rightarrow> u32_t" where
  "IP4_ADDR a b c d = push_bit 24 (ucast d) OR push_bit 16 (ucast c) OR push_bit 8 (ucast b) OR ucast a"

definition ip_addr_netcmp :: "u32_t \<Rightarrow> u32_t \<Rightarrow> u32_t \<Rightarrow> bool" where
  "ip_addr_netcmp addr1 addr2 nm \<longleftrightarrow> addr1 AND nm = addr2 AND nm"

definition ip_addr_ismulticast :: "u32_t \<Rightarrow> bool" where
  "ip_addr_ismulticast a \<longleftrightarrow> a AND lwip_htonl 0xf0000000 = lwip_htonl 0xe0000000"

definition ip_addr_islinklocal :: "u32_t \<Rightarrow> bool" where
  "ip_addr_islinklocal a \<longleftrightarrow> a AND lwip_htonl 0xffff0000 = lwip_htonl 0xa9fe0000"

section \<open>Broadcast addresses and netmasks\<close>

definition ip4_addr_isbroadcast :: "u32_t \<Rightarrow> struct_netif \<Rightarrow> bool" where
  "ip4_addr_isbroadcast a netif =
     (if NOT a = IPADDR_ANY \<or> a = IPADDR_ANY then True
      else if nif_flags netif AND NETIF_FLAG_BROADCAST = 0 then False
      else if a = nif_ip_addr netif then False
      else if ip_addr_netcmp a (nif_ip_addr netif) (nif_netmask netif)
              \<and> a AND NOT (nif_netmask netif) = IPADDR_BROADCAST AND NOT (nif_netmask netif) then True
      else False)"

text \<open>The two loops of \<^verbatim>\<open>ip4_addr_netmask_valid\<close>: to the first zero, and on to a one after it.\<close>

lemma unat_half: "x \<noteq> 0 \<Longrightarrow> unat (drop_bit (Suc 0) x) < unat x" for x :: u32_t
  by (simp add: unat_drop_bit unat_gt_0)

function first_zero :: "u32_t \<Rightarrow> u32_t \<Rightarrow> u32_t" where
  "first_zero nm m = (if m = 0 then m else if nm AND m = 0 then m else first_zero nm (drop_bit 1 m))"
  by pat_completeness auto
termination by (relation "measure (\<lambda>(nm, m). unat m)") (auto simp: unat_half)

function no_one :: "u32_t \<Rightarrow> u32_t \<Rightarrow> bool" where
  "no_one nm m = (if m = 0 then True else if nm AND m \<noteq> 0 then False else no_one nm (drop_bit 1 m))"
  by pat_completeness auto
termination by (relation "measure (\<lambda>(nm, m). unat m)") (auto simp: unat_half)

declare first_zero.simps [simp del] no_one.simps [simp del]

definition ip4_addr_netmask_valid :: "u32_t \<Rightarrow> bool" where
  "ip4_addr_netmask_valid netmask =
     (let nm_hostorder = lwip_htonl netmask
      in no_one nm_hostorder (first_zero nm_hostorder (push_bit 31 1)))"

section \<open>Parsing\<close>

definition in_range :: "u8_t \<Rightarrow> u8_t \<Rightarrow> u8_t \<Rightarrow> bool" where
  "in_range c lo up \<longleftrightarrow> lo \<le> c \<and> c \<le> up"

definition isdigit :: "u8_t \<Rightarrow> bool" where "isdigit c = in_range c 0x30 0x39"

definition isxdigit :: "u8_t \<Rightarrow> bool" where
  "isxdigit c \<longleftrightarrow> isdigit c \<or> in_range c 0x61 0x66 \<or> in_range c 0x41 0x46"

definition islower :: "u8_t \<Rightarrow> bool" where "islower c = in_range c 0x61 0x7a"

definition isspace :: "u8_t \<Rightarrow> bool" where
  "isspace c \<longleftrightarrow> c = 0x20 \<or> c = 0x0c \<or> c = 0x0a \<or> c = 0x0d \<or> c = 0x09 \<or> c = 0x0b"

text \<open>\<open>deref cp\<close> is \<^verbatim>\<open>*cp\<close>; moving on by one byte is \<open>tl\<close>.\<close>

definition deref :: "u8_t list \<Rightarrow> u8_t" where
  "deref cp = (case cp of [] \<Rightarrow> 0 | c # _ \<Rightarrow> c)"

fun aton_digits :: "u32_t \<Rightarrow> u32_t \<Rightarrow> u8_t list \<Rightarrow> u32_t \<times> u8_t list" where
  "aton_digits base val [] = (val, [])"
| "aton_digits base val (c # cp) =
     (if isdigit c then aton_digits base (val * base + (ucast c - 0x30)) cp
      else if base = 16 \<and> isxdigit c
      then aton_digits base (push_bit 4 val OR (ucast c + 10 - (if islower c then 0x61 else 0x41))) cp
      else (val, c # cp))"

text \<open>One number: decimal, hexadecimal after \<^verbatim>\<open>0x\<close>, octal after \<^verbatim>\<open>0\<close>.\<close>

definition aton_number :: "u8_t list \<Rightarrow> (u32_t \<times> u8_t list) option" where
  "aton_number cp =
     (if \<not> isdigit (deref cp) then None
      else if deref cp = 0x30
      then let cp = tl cp
           in if deref cp = 0x78 \<or> deref cp = 0x58 then Some (aton_digits 16 0 (tl cp))
              else Some (aton_digits 8 0 cp)
      else Some (aton_digits 10 0 cp))"

text \<open>The outer loop: \<open>parts\<close> are the numbers before a dot.\<close>

function aton_parts :: "u32_t list \<Rightarrow> u8_t list \<Rightarrow> (u32_t list \<times> u32_t \<times> u8_t list) option" where
  "aton_parts parts cp =
     (case aton_number cp of
        None \<Rightarrow> None
      | Some (val, cp) \<Rightarrow>
          if deref cp = 0x2e
          then if length parts \<ge> 3 then None else aton_parts (parts @ [val]) (tl cp)
          else Some (parts, val, cp))"
  by pat_completeness auto
termination by (relation "measure (\<lambda>(parts, cp). 3 - length parts)") auto

declare aton_parts.simps [simp del]

text \<open>
  \<open>ipaddr_aton cp\<close> is \<open>None\<close> when the function returns 0, and otherwise what it stores through
  its second argument.
\<close>

definition ipaddr_aton :: "u8_t list \<Rightarrow> u32_t option" where
  "ipaddr_aton cp =
     (case aton_parts [] cp of
        None \<Rightarrow> None
      | Some (parts, val, cp) \<Rightarrow>
          if deref cp \<noteq> 0 \<and> \<not> isspace (deref cp) then None
          else case parts of
            [] \<Rightarrow> Some (lwip_htonl val)
          | [a] \<Rightarrow> if val > 0xffffff then None else Some (lwip_htonl (val OR push_bit 24 a))
          | [a, b] \<Rightarrow> if val > 0xffff then None else Some (lwip_htonl (val OR (push_bit 24 a OR push_bit 16 b)))
          | [a, b, c] \<Rightarrow> if val > 0xff then None
                        else Some (lwip_htonl (val OR (push_bit 24 a OR push_bit 16 b OR push_bit 8 c)))
          | _ \<Rightarrow> None)"

definition ipaddr_addr :: "u8_t list \<Rightarrow> u32_t" where
  "ipaddr_addr cp = (case ipaddr_aton cp of Some a \<Rightarrow> a | None \<Rightarrow> IPADDR_NONE)"

section \<open>Printing\<close>

text \<open>The digits of a byte, least significant first: what the inner loop leaves in \<^verbatim>\<open>inv\<close>.\<close>

function inv_digits :: "u8_t \<Rightarrow> u8_t list" where
  "inv_digits b = (0x30 + b mod 10) # (if b div 10 \<noteq> 0 then inv_digits (b div 10) else [])"
  by pat_completeness auto
termination
proof (relation "measure unat", goal_cases)
  case (2 b)
  then have "0 < unat b" by (auto simp: unat_gt_0)
  then show ?case by (simp add: unat_div)
qed simp

declare inv_digits.simps [simp del]

text \<open>
  Storing characters: \<open>len\<close> is the counter, \<open>out\<close> what has been stored in the buffer. The flag is
  false when the function returns \<^verbatim>\<open>NULL\<close>.
\<close>

fun ntoa_put :: "int \<Rightarrow> u8_t list \<Rightarrow> int \<Rightarrow> u8_t list \<Rightarrow> bool \<times> int \<times> u8_t list" where
  "ntoa_put buflen [] n out = (True, n, out)"
| "ntoa_put buflen (c # cs) n out =
     (if n \<ge> buflen then (False, n + 1, out) else ntoa_put buflen cs (n + 1) (out @ [c]))"

fun ntoa_bytes :: "int \<Rightarrow> u8_t list \<Rightarrow> int \<Rightarrow> u8_t list \<Rightarrow> bool \<times> u8_t list" where
  "ntoa_bytes buflen [] n out = (True, out)"
| "ntoa_bytes buflen (b # bs) n out =
     (case ntoa_put buflen (rev (inv_digits b)) n out of
        (False, n, out) \<Rightarrow> (False, out)
      | (True, n, out) \<Rightarrow>
          if n \<ge> buflen then (False, out) else ntoa_bytes buflen bs (n + 1) (out @ [0x2e]))"

definition ipaddr_ntoa_r :: "u32_t \<Rightarrow> int \<Rightarrow> bool \<times> u8_t list" where
  "ipaddr_ntoa_r a buflen =
     (case ntoa_bytes buflen (bytes_of_u32 a) 0 [] of
        (False, out) \<Rightarrow> (False, out)
      | (True, out) \<Rightarrow> (True, butlast out @ [0]))"

definition ipaddr_ntoa :: "u32_t \<Rightarrow> bool \<times> u8_t list" where
  "ipaddr_ntoa a = ipaddr_ntoa_r a 16"

section \<open>Netmasks\<close>

text \<open>The masks the loops run through, counted by the bits that are left.\<close>

definition mask_at :: "nat \<Rightarrow> u32_t" where
  "mask_at n = (if n = 0 then 0 else push_bit (n - 1) 1)"

lemma mask_at_0 [simp]: "n \<le> 32 \<Longrightarrow> mask_at n = 0 \<longleftrightarrow> n = 0"
  by (auto simp: mask_at_def push_bit_eq_mult)

lemma mask_at_bit: "n < 32 \<Longrightarrow> (x AND mask_at (Suc n) = 0) \<longleftrightarrow> \<not> bit x n"
  by (simp add: mask_at_def push_bit_eq_mult and_exp_eq_0_iff_not_bit)

lemma mask_at_half: "n < 32 \<Longrightarrow> drop_bit 1 (mask_at (Suc n)) = mask_at n"
  by (cases n) (simp_all add: mask_at_def, rule bit_word_eqI, auto simp: bit_simps)

lemma no_one_iff: "n \<le> 32 \<Longrightarrow> no_one x (mask_at n) \<longleftrightarrow> (\<forall>i<n. \<not> bit x i)"
proof (induction n)
  case (Suc n)
  then show ?case
    by (subst no_one.simps) (auto simp: mask_at_bit mask_at_half [unfolded One_nat_def] less_Suc_eq)
qed (simp add: mask_at_def no_one.simps)

lemma first_zero_at:
  "n \<le> 32 \<Longrightarrow> \<exists>k\<le>n. first_zero x (mask_at n) = mask_at k \<and> (\<forall>i<n. k \<le> i \<longrightarrow> bit x i) \<and> (k \<noteq> 0 \<longrightarrow> \<not> bit x (k - 1))"
proof (induction n)
  case (Suc n)
  show ?case
  proof (cases "bit x n")
    case True
    then have "first_zero x (mask_at (Suc n)) = first_zero x (mask_at n)"
      using Suc.prems by (subst first_zero.simps) (simp add: mask_at_bit mask_at_half [unfolded One_nat_def])
    moreover obtain k where "k \<le> n" "first_zero x (mask_at n) = mask_at k"
      "\<forall>i<n. k \<le> i \<longrightarrow> bit x i" "k \<noteq> 0 \<longrightarrow> \<not> bit x (k - 1)"
      using Suc.IH Suc.prems by auto
    ultimately show ?thesis using True by (intro exI [of _ k]) (auto simp: less_Suc_eq)
  next
    case False
    then have "first_zero x (mask_at (Suc n)) = mask_at (Suc n)"
      using Suc.prems by (subst first_zero.simps) (simp add: mask_at_bit)
    then show ?thesis using False by (intro exI [of _ "Suc n"]) auto
  qed
qed (simp add: mask_at_def first_zero.simps)

lemma netmask_bits: "ip4_addr_netmask_valid nm \<longleftrightarrow> (\<exists>k\<le>32. \<forall>i<32. bit (lwip_htonl nm) i \<longleftrightarrow> k \<le> i)"
proof -
  define x where "x = lwip_htonl nm"
  obtain k where k: "k \<le> 32" "first_zero x (mask_at 32) = mask_at k" "\<forall>i<32. k \<le> i \<longrightarrow> bit x i"
    "k \<noteq> 0 \<longrightarrow> \<not> bit x (k - 1)"
    using first_zero_at [of 32 x] by auto
  have "ip4_addr_netmask_valid nm \<longleftrightarrow> (\<forall>i<k. \<not> bit x i)"
    using k no_one_iff [of k x] by (simp add: ip4_addr_netmask_valid_def x_def mask_at_def)
  also have "\<dots> \<longleftrightarrow> (\<exists>k\<le>32. \<forall>i<32. bit x i \<longleftrightarrow> k \<le> i)"
  proof
    assume "\<forall>i<k. \<not> bit x i"
    then show "\<exists>k\<le>32. \<forall>i<32. bit x i \<longleftrightarrow> k \<le> i" using k(1,3) leI by blast
  next
    assume "\<exists>k\<le>32. \<forall>i<32. bit x i \<longleftrightarrow> k \<le> i"
    then obtain j where j: "j \<le> 32" "\<forall>i<32. bit x i \<longleftrightarrow> j \<le> i" by blast
    have "k \<le> j"
    proof (rule ccontr)
      assume "\<not> k \<le> j"
      then have "k \<noteq> 0" "j \<le> k - 1" "k - 1 < 32" using k(1) by auto
      then show False using j(2) k(4) by blast
    qed
    then show "\<forall>i<k. \<not> bit x i" using j(2) k(1) by auto
  qed
  finally show ?thesis by (simp add: x_def)
qed


lemma netmask_iff: "ip4_addr_netmask_valid nm \<longleftrightarrow> (\<exists>k\<le>32. lwip_htonl nm = NOT (mask k))"
proof -
  have "lwip_htonl nm = NOT (mask k) \<longleftrightarrow> (\<forall>i<32. bit (lwip_htonl nm) i \<longleftrightarrow> k \<le> i)" for k
  proof
    assume "lwip_htonl nm = NOT (mask k)"
    then show "\<forall>i<32. bit (lwip_htonl nm) i \<longleftrightarrow> k \<le> i" by (simp add: bit_simps not_less)
  next
    assume "\<forall>i<32. bit (lwip_htonl nm) i \<longleftrightarrow> k \<le> i"
    then show "lwip_htonl nm = NOT (mask k)" by (intro bit_word_eqI) (simp add: bit_simps not_less)
  qed
  then show ?thesis unfolding netmask_bits by simp
qed

section \<open>Decimal digits\<close>

definition digit :: "nat \<Rightarrow> u8_t" where
  "digit d = of_nat (48 + d)"

function decimal :: "nat \<Rightarrow> u8_t list" where
  "decimal n = (if n < 10 then [digit n] else decimal (n div 10) @ [digit (n mod 10)])"
  by pat_completeness auto
termination by (relation "measure id") auto

declare decimal.simps [simp del]

lemma unat_digit: "d < 10 \<Longrightarrow> unat (digit d) = 48 + d"
  unfolding digit_def by (simp only: unat_of_nat) simp

lemma isdigit_iff: "isdigit c \<longleftrightarrow> 48 \<le> unat c \<and> unat c \<le> 57"
  by (simp add: isdigit_def in_range_def word_le_nat_alt)

lemma isdigit_digit [simp]: "d < 10 \<Longrightarrow> isdigit (digit d)"
  by (simp add: isdigit_iff unat_digit)

lemma digit_zero: "d < 10 \<Longrightarrow> digit d = 0x30 \<longleftrightarrow> d = 0"
  by (simp add: word_unat_eq_iff unat_digit)

lemma digit_value: "d < 10 \<Longrightarrow> ucast (digit d) - 0x30 = (of_nat d :: u32_t)"
proof -
  assume "d < 10"
  then have "ucast (digit d) = (of_nat (48 + d) :: u32_t)"
    by (simp add: word_unat_eq_iff unat_digit unat_of_nat del: of_nat_add)
  then show ?thesis by simp
qed

lemma u8_digit: "0x30 + b mod 10 = digit (unat b mod 10)" for b :: u8_t
  by (simp add: word_unat_eq_iff unat_digit unat_word_ariths)

lemma inv_digits_decimal: "rev (inv_digits b) = decimal (unat b)"
proof (induction b rule: inv_digits.induct)
  case (1 b)
  show ?case
  proof (cases "unat b < 10")
    case True
    then have "b div 10 = 0" by (simp add: word_unat_eq_iff unat_div)
    then show ?thesis
      using True by (subst inv_digits.simps, subst decimal.simps) (simp add: u8_digit)
  next
    case False
    then have "b div 10 \<noteq> 0" by (auto simp: word_unat_eq_iff unat_div)
    then show ?thesis
      using False 1 by (subst inv_digits.simps, subst decimal.simps) (simp add: u8_digit unat_div)
  qed
qed

lemma decimal_length: "n < 256 \<Longrightarrow> length (decimal n) \<le> 3"
  by (subst decimal.simps, subst decimal.simps, subst decimal.simps) (auto simp: div_less_iff_less_mult)

lemma decimal_hd: "\<exists>c cs. decimal n = c # cs \<and> isdigit c \<and> (c = 0x30 \<longleftrightarrow> n = 0)"
proof (induction n rule: decimal.induct)
  case (1 n)
  show ?case
  proof (cases "n < 10")
    case True
    then show ?thesis by (subst decimal.simps) (simp add: digit_zero)
  next
    case False
    then have "n div 10 \<noteq> 0" by simp
    then obtain c cs where "decimal (n div 10) = c # cs" "isdigit c" "c \<noteq> 0x30"
      using 1 [OF False] by metis
    then show ?thesis using False by (subst decimal.simps) auto
  qed
qed

lemma aton_digits_decimal:
  "aton_digits 10 0 (decimal n @ rest) = aton_digits 10 (of_nat n) rest"
proof (induction n arbitrary: rest rule: decimal.induct)
  case (1 n)
  show ?case
  proof (cases "n < 10")
    case True
    then show ?thesis by (subst decimal.simps) (simp add: digit_value)
  next
    case False
    have "aton_digits 10 0 (decimal n @ rest) = aton_digits 10 (of_nat (n div 10) * 10 + of_nat (n mod 10)) rest"
      using 1 [OF False, of "digit (n mod 10) # rest"] False by (subst decimal.simps) (simp add: digit_value)
    also have "of_nat (n div 10) * 10 + of_nat (n mod 10) = (of_nat (n div 10 * 10 + n mod 10) :: u32_t)"
      by (simp only: of_nat_add of_nat_mult of_nat_numeral)
    finally show ?thesis by simp
  qed
qed

lemma aton_digits_stop: "\<not> isdigit (deref rest) \<Longrightarrow> base \<noteq> 16 \<Longrightarrow> aton_digits base v rest = (v, rest)"
  by (cases rest) (auto simp: deref_def)

lemma aton_number_decimal:
  assumes "\<not> isdigit (deref rest)" "deref rest \<noteq> 0x78" "deref rest \<noteq> 0x58"
  shows "aton_number (decimal n @ rest) = Some (of_nat n, rest)"
proof (cases "n = 0")
  case True
  then show ?thesis
    using assms aton_digits_stop [of rest 8 0] by (simp add: aton_number_def decimal.simps deref_def isdigit_iff digit_zero [THEN iffD2])
next
  case False
  obtain c cs where "decimal n = c # cs" "isdigit c" "c \<noteq> 0x30" using decimal_hd [of n] False by blast
  then show ?thesis
    using aton_digits_decimal [of n rest] aton_digits_stop [OF assms(1), of 10]
    by (simp add: aton_number_def deref_def)
qed


section \<open>The printer\<close>

definition dotted :: "u32_t \<Rightarrow> u8_t list" where
  "dotted a = (let d = (\<lambda>i. decimal (unat (bytes_of_u32 a ! i)))
               in d 0 @ 0x2e # d 1 @ 0x2e # d 2 @ 0x2e # d 3)"

lemma dotted_length: "length (dotted a) \<le> 15"
proof -
  have "length (decimal (unat (bytes_of_u32 a ! i))) \<le> 3" for i by (rule decimal_length) simp
  from this [of 0] this [of 1] this [of 2] this [of 3] show ?thesis
    unfolding dotted_def Let_def by simp
qed

lemma ntoa_put_result:
  assumes "length out \<le> nat buflen"
  shows "ntoa_put buflen cs (int (length out)) out =
    (if length out + length cs \<le> nat buflen then (True, int (length out + length cs), out @ cs)
     else (False, int (Suc (nat buflen)), take (nat buflen) (out @ cs)))"
  using assms
proof (induction cs arbitrary: out)
  case (Cons c cs)
  show ?case
  proof (cases "length out < nat buflen")
    case True
    moreover from this have "\<not> buflen \<le> int (length out)" by linarith
    ultimately show ?thesis using Cons.IH [of "out @ [c]"] by (simp add: add.commute)
  next
    case False
    then have "length out = nat buflen" using Cons.prems by simp
    then show ?thesis by simp
  qed
qed simp

lemma ntoa_bytes_result:
  assumes "length out \<le> nat buflen"
  shows "ntoa_bytes buflen bs (int (length out)) out =
    (let full = out @ concat (map (\<lambda>b. decimal (unat b) @ [0x2e]) bs)
     in if length full \<le> nat buflen then (True, full) else (False, take (nat buflen) full))"
  using assms
proof (induction bs arbitrary: out)
  case (Cons b bs)
  let ?d = "decimal (unat b)"
  show ?case
  proof (cases "length out + length ?d < nat buflen")
    case True
    then show ?thesis
      using Cons.IH [of "out @ ?d @ [0x2e]"] ntoa_put_result [OF Cons.prems, of ?d]
      by (simp add: inv_digits_decimal Let_def add.commute add.left_commute)
  next
    case False
    then show ?thesis
      using Cons.prems ntoa_put_result [OF Cons.prems, of ?d] by (auto simp: inv_digits_decimal Let_def)
  qed
qed simp

lemma dotted_concat: "concat (map (\<lambda>b. decimal (unat b) @ [0x2e]) (bytes_of_u32 a)) = dotted a @ [0x2e]"
  by (simp add: dotted_def bytes_of_u32_def Let_def)

lemma ipaddr_ntoa_r_result:
  "ipaddr_ntoa_r a buflen =
     (if int (length (dotted a)) < buflen then (True, dotted a @ [0])
      else (False, take (nat buflen) (dotted a @ [0x2e])))"
proof -
  have "ntoa_bytes buflen (bytes_of_u32 a) 0 [] =
    (if Suc (length (dotted a)) \<le> nat buflen then (True, dotted a @ [0x2e])
     else (False, take (nat buflen) (dotted a @ [0x2e])))"
    using ntoa_bytes_result [of "[]" buflen "bytes_of_u32 a"] unfolding dotted_concat by (simp add: Let_def)
  moreover have "Suc (length (dotted a)) \<le> nat buflen \<longleftrightarrow> int (length (dotted a)) < buflen" by auto
  ultimately show ?thesis by (simp add: ipaddr_ntoa_r_def)
qed

section \<open>The parser on dotted addresses\<close>

lemma concoct_address:
  "lwip_htonl (ucast (bytes_of_u32 a ! 3) OR (push_bit 24 (ucast (bytes_of_u32 a ! 0))
     OR push_bit 16 (ucast (bytes_of_u32 a ! 1)) OR push_bit 8 (ucast (bytes_of_u32 a ! 2)))) = a"
proof (rule bytes_of_u32_inject)
  let ?v = "ucast (bytes_of_u32 a ! 3) OR (push_bit 24 (ucast (bytes_of_u32 a ! 0))
     OR push_bit 16 (ucast (bytes_of_u32 a ! 1)) OR push_bit 8 (ucast (bytes_of_u32 a ! 2))) :: u32_t"
  have "bytes_of_u32 ?v = rev (bytes_of_u32 a)"
    by (simp add: bytes_of_u32_def, intro conjI bit_word_eqI; auto simp: bit_simps)
  then show "bytes_of_u32 (lwip_htonl ?v) = bytes_of_u32 a" unfolding bytes_of_htonl by simp
qed

lemma aton_parts_dot:
  "length parts < 3 \<Longrightarrow> aton_parts parts (decimal n @ 0x2e # cp) = aton_parts (parts @ [of_nat n]) cp"
  by (subst aton_parts.simps, subst aton_number_decimal) (auto simp: deref_def isdigit_iff)

lemma aton_parts_last:
  "aton_parts parts (decimal n @ 0 # cp) = Some (parts, of_nat n, 0 # cp)"
  by (subst aton_parts.simps, subst aton_number_decimal) (auto simp: deref_def isdigit_iff)

lemma ipaddr_aton_dotted: "ipaddr_aton (dotted a @ 0 # junk) = Some a"
proof -
  define b where "b = (\<lambda>i. bytes_of_u32 a ! i)"
  have "aton_parts [] (dotted a @ 0 # junk) =
      Some ([of_nat (unat (b 0)), of_nat (unat (b 1)), of_nat (unat (b 2))], of_nat (unat (b 3)), 0 # junk)"
    by (simp add: dotted_def b_def Let_def aton_parts_dot aton_parts_last)
  moreover have "of_nat (unat x) = (ucast x :: u32_t)" for x :: u8_t by simp
  moreover have "\<not> (0xff :: u32_t) < ucast x" for x :: u8_t
    using unat_u8_le [of x] by (simp add: word_less_nat_alt not_less)
  ultimately have "ipaddr_aton (dotted a @ 0 # junk) =
      Some (lwip_htonl (ucast (b 3) OR (push_bit 24 (ucast (b 0)) OR push_bit 16 (ucast (b 1)) OR push_bit 8 (ucast (b 2)))))"
    by (simp add: ipaddr_aton_def deref_def)
  then show ?thesis unfolding b_def concoct_address .
qed

lemma isbroadcast_iff:
  "ip4_addr_isbroadcast a nif \<longleftrightarrow>
     a = 0 \<or> a = 0xffffffff
     \<or> nif_flags nif AND NETIF_FLAG_BROADCAST \<noteq> 0 \<and> a \<noteq> nif_ip_addr nif
        \<and> a = nif_ip_addr nif OR NOT (nif_netmask nif)"
proof -
  have ones: "NOT a = 0 \<longleftrightarrow> a = 0xffffffff"
  proof -
    have "(0xffffffff :: u32_t) = NOT 0" by simp
    then show ?thesis by (metis bit.double_compl)
  qed
  have "(a AND m = i AND m \<and> a AND NOT m = 0xffffffff AND NOT m) \<longleftrightarrow> a = i OR NOT m" for i m :: u32_t
  proof
    assume h: "a AND m = i AND m \<and> a AND NOT m = 0xffffffff AND NOT m"
    have "(0xffffffff :: u32_t) = NOT 0" by simp
    then have h2: "a AND NOT m = NOT m" using h by (metis and.comm_neutral and.commute bit.compl_zero)
    show "a = i OR NOT m"
    proof (rule bit_word_eqI)
      fix n assume "n < LENGTH(32)"
      moreover have "bit (a AND m) n = bit (i AND m) n" "bit (a AND NOT m) n = bit (NOT m) n" using h h2 by auto
      ultimately show "bit a n = bit (i OR NOT m) n" by (auto simp: bit_simps)
    qed
  next
    assume h: "a = i OR NOT m"
    have "(0xffffffff :: u32_t) = - 1" by simp
    then have "(0xffffffff :: u32_t) AND NOT m = NOT m" by (simp only: and.left_neutral)
    moreover have "a AND m = i AND m" "a AND NOT m = NOT m"
      unfolding h by (auto intro!: bit_word_eqI simp: bit_simps)
    ultimately show "a AND m = i AND m \<and> a AND NOT m = 0xffffffff AND NOT m" by simp
  qed
  then show ?thesis
    unfolding ip4_addr_isbroadcast_def ip_addr_netcmp_def ones by auto
qed

section \<open>Properties\<close>

text \<open>
  C39. Printing an address with \<^verbatim>\<open>ipaddr_ntoa\<close> succeeds for every address, and \<^verbatim>\<open>ipaddr_aton\<close> reads the
  printed string back as the same address, whatever follows the terminating zero in memory.
\<close>

theorem ipaddr_ntoa_aton:
  "ipaddr_ntoa a = (True, dotted a @ [0]) \<and> ipaddr_aton (dotted a @ 0 # junk) = Some a"
  using dotted_length [of a] by (simp add: ipaddr_ntoa_def ipaddr_ntoa_r_result ipaddr_aton_dotted)

text \<open>
  C40. \<^verbatim>\<open>ipaddr_ntoa_r\<close> never stores more than \<^verbatim>\<open>buflen\<close> bytes, returns \<^verbatim>\<open>NULL\<close> exactly when the string
  with its terminator does not fit, and 16 bytes are always enough.
\<close>

theorem ipaddr_ntoa_r_bounds:
  "ipaddr_ntoa_r a buflen =
     (if int (length (dotted a)) < buflen then (True, dotted a @ [0])
      else (False, take (nat buflen) (dotted a @ [0x2e])))
   \<and> int (length (snd (ipaddr_ntoa_r a buflen))) \<le> max 0 buflen \<and> fst (ipaddr_ntoa_r a 16)"
  using dotted_length [of a] unfolding ipaddr_ntoa_r_result by auto

text \<open>
  \<^verbatim>\<open>ip4_addr_netmask_valid\<close> accepts exactly the masks that are, in host order, ones followed by zeros.
\<close>

theorem netmask_valid_contiguous:
  "ip4_addr_netmask_valid nm \<longleftrightarrow> (\<exists>k\<le>32. lwip_htonl nm = NOT (mask k))"
  by (rule netmask_iff)

text \<open>
  \<^verbatim>\<open>ip4_addr_isbroadcast\<close> holds of the two limited broadcast addresses on every interface, and of the
  address of the interface with all host bits set, on interfaces that support broadcast, unless
  the interface itself has that address.
\<close>

theorem isbroadcast_addresses:
  "ip4_addr_isbroadcast a nif \<longleftrightarrow>
     a = 0 \<or> a = 0xffffffff
     \<or> nif_flags nif AND NETIF_FLAG_BROADCAST \<noteq> 0 \<and> a \<noteq> nif_ip_addr nif
        \<and> a = nif_ip_addr nif OR NOT (nif_netmask nif)"
  by (rule isbroadcast_iff)

text \<open>
  Only the last number of an address is checked for its range: \<open>256.2.3.4\<close> is accepted as \<open>0.2.3.4\<close>,
  and a leading zero makes a number octal but admits the digits 8 and 9.
\<close>

lemma aton_accepts_256:
  "ipaddr_aton [0x32, 0x35, 0x36, 0x2e, 0x32, 0x2e, 0x33, 0x2e, 0x34] = Some (lwip_htonl 0x00020304)"
  by (simp add: ipaddr_aton_def aton_parts.simps aton_number_def deref_def isdigit_iff)
    (rule arg_cong [of _ _ lwip_htonl], simp)

lemma aton_octal_digits: "ipaddr_aton [0x30, 0x39] = Some (lwip_htonl 9)"
  by (simp add: ipaddr_aton_def aton_parts.simps aton_number_def deref_def isdigit_iff)

end
