(* ===== verification/Etharp.thy ===== *)
theory Etharp
  imports Pbuf_Refs Ip_Addr Option_Wp
begin

unbundle bit_operations_syntax

text \<open>
  Address resolution for Ethernet: \<^verbatim>\<open>netif/etharp.c\<close> with the options of the build (one queued packet per
  entry, static entries supported, a global hint for the last entry used, no VLAN, no SNMP). The state
  holds the table, the pbufs, the interfaces and the counters; a failed assertion is \<open>None\<close>.

  The driver behind \<^verbatim>\<open>netif->linkoutput\<close> is the parameter \<open>lo\<close>: it copies the frame out before it
  returns, leaves the pbufs as they are, and reports an \<^verbatim>\<open>err_t\<close>. \<open>frames\<close> records what it was given: interface,
  pbuf, and the bytes of the first pbuf, which hold all the headers. \<open>cf\<close> is the free function of
  custom pbufs.
\<close>

section \<open>Data\<close>

datatype etharp_state =
  ETHARP_STATE_EMPTY | ETHARP_STATE_PENDING | ETHARP_STATE_STABLE | ETHARP_STATE_STABLE_REREQUESTING
| ETHARP_STATE_STATIC

primrec state_code :: "etharp_state \<Rightarrow> nat" where
  "state_code ETHARP_STATE_EMPTY = 0"
| "state_code ETHARP_STATE_PENDING = 1"
| "state_code ETHARP_STATE_STABLE = 2"
| "state_code ETHARP_STATE_STABLE_REREQUESTING = 3"
| "state_code ETHARP_STATE_STATIC = 4"

lemma state_code_inj: "state_code x = state_code y \<longleftrightarrow> x = y"
  by (cases x; cases y) simp_all

instantiation etharp_state :: linorder
begin

definition less_eq_etharp_state :: "etharp_state \<Rightarrow> etharp_state \<Rightarrow> bool" where
  "less_eq_etharp_state x y \<longleftrightarrow> state_code x \<le> state_code y"

definition less_etharp_state :: "etharp_state \<Rightarrow> etharp_state \<Rightarrow> bool" where
  "less_etharp_state x y \<longleftrightarrow> state_code x < state_code y"

instance
  by standard (auto simp: less_eq_etharp_state_def less_etharp_state_def state_code_inj)

end

record etharp_entry =
  ae_q :: addr
  ae_ipaddr :: u32_t
  ae_netif :: addr
  ae_ethaddr :: "u8_t list"
  ae_state :: etharp_state
  ae_ctime :: nat

record stats_proto =
  sp_xmit :: nat
  sp_recv :: nat
  sp_fw :: nat
  sp_drop :: nat
  sp_chkerr :: nat
  sp_lenerr :: nat
  sp_memerr :: nat
  sp_rterr :: nat
  sp_proterr :: nat
  sp_opterr :: nat
  sp_err :: nat
  sp_cachehit :: nat

record arp_state =
  arp_table :: "etharp_entry list"
  etharp_cached_entry :: nat
  bufs :: pbuf_state
  netifs :: "addr \<Rightarrow> struct_netif"
  netif_list :: addr
  netif_default :: addr
  etharp_stats :: stats_proto
  link_stats :: stats_proto
  ip_stats :: stats_proto
  frames :: "(addr \<times> addr \<times> u8_t list) list"

type_synonym custom_free = "addr \<Rightarrow> pbuf_state \<Rightarrow> pbuf_state option"
type_synonym linkoutput_fn = "addr \<Rightarrow> addr \<Rightarrow> pbuf_state \<Rightarrow> err_t"

abbreviation (input) ARP_TABLE_SIZE :: nat where "ARP_TABLE_SIZE \<equiv> 10"
abbreviation (input) ARP_MAXAGE :: nat where "ARP_MAXAGE \<equiv> 240"
abbreviation (input) ARP_AGE_REREQUEST_USED :: nat where "ARP_AGE_REREQUEST_USED \<equiv> 228"
abbreviation (input) ARP_MAXPENDING :: nat where "ARP_MAXPENDING \<equiv> 2"
abbreviation (input) ETHARP_FLAG_TRY_HARD :: u8_t where "ETHARP_FLAG_TRY_HARD \<equiv> 1"
abbreviation (input) ETHARP_FLAG_FIND_ONLY :: u8_t where "ETHARP_FLAG_FIND_ONLY \<equiv> 2"
abbreviation (input) ETHARP_FLAG_STATIC_ENTRY :: u8_t where "ETHARP_FLAG_STATIC_ENTRY \<equiv> 4"
abbreviation (input) ETHARP_HWADDR_LEN :: nat where "ETHARP_HWADDR_LEN \<equiv> 6"
abbreviation (input) SIZEOF_ETH_HDR :: nat where "SIZEOF_ETH_HDR \<equiv> 14"
abbreviation (input) SIZEOF_ETHARP_PACKET :: nat where "SIZEOF_ETHARP_PACKET \<equiv> 42"
abbreviation (input) HWTYPE_ETHERNET :: u16_t where "HWTYPE_ETHERNET \<equiv> 1"
abbreviation (input) ETHTYPE_ARP :: u16_t where "ETHTYPE_ARP \<equiv> 0x0806"
abbreviation (input) ETHTYPE_IP :: u16_t where "ETHTYPE_IP \<equiv> 0x0800"
abbreviation (input) ARP_REQUEST :: u16_t where "ARP_REQUEST \<equiv> 1"
abbreviation (input) ARP_REPLY :: u16_t where "ARP_REPLY \<equiv> 2"

definition ethbroadcast :: "u8_t list" where "ethbroadcast = replicate 6 0xff"

definition ethzero :: "u8_t list" where "ethzero = replicate 6 0"

text \<open>One entry of the table; \<^verbatim>\<open>arp_table[i]\<close> as the code reads and writes it.\<close>

abbreviation entry :: "arp_state \<Rightarrow> nat \<Rightarrow> etharp_entry" where "entry s i \<equiv> arp_table s ! i"

definition set_entry :: "nat \<Rightarrow> (etharp_entry \<Rightarrow> etharp_entry) \<Rightarrow> arp_state \<Rightarrow> arp_state" where
  "set_entry i f s = s\<lparr>arp_table := (arp_table s)[i := f (entry s i)]\<rparr>"

text \<open>Header fields in the bytes of a packet: 16-bit reads and the copies of the source's macros.\<close>

definition get_u16 :: "(addr \<Rightarrow> u8_t) \<Rightarrow> addr \<Rightarrow> u16_t" where
  "get_u16 b a = ucast (b a) OR push_bit 8 (ucast (b (a + 1)))"

definition get_u32 :: "(addr \<Rightarrow> u8_t) \<Rightarrow> addr \<Rightarrow> u32_t" where
  "get_u32 b a = ucast (b a) OR push_bit 8 (ucast (b (a + 1))) OR push_bit 16 (ucast (b (a + 2)))
     OR push_bit 24 (ucast (b (a + 3)))"

definition put_bytes :: "addr \<Rightarrow> u8_t list \<Rightarrow> (addr \<Rightarrow> u8_t) \<Rightarrow> addr \<Rightarrow> u8_t" where
  "put_bytes a xs b = (\<lambda>x. if a \<le> x \<and> x < a + length xs then xs ! (x - a) else b x)"

definition poke :: "addr \<Rightarrow> u8_t list \<Rightarrow> arp_state \<Rightarrow> arp_state" where
  "poke a xs s = s\<lparr>bufs := (bufs s)\<lparr>bytes := put_bytes a xs (bytes (bufs s))\<rparr>\<rparr>"

abbreviation peek :: "arp_state \<Rightarrow> addr \<Rightarrow> nat \<Rightarrow> u8_t list" where
  "peek s a n \<equiv> mem_bytes (bytes (bufs s)) a n"

text \<open>The counters wrap at 16 bits.\<close>

definition ETHARP_STATS_INC :: "((nat \<Rightarrow> nat) \<Rightarrow> stats_proto \<Rightarrow> stats_proto) \<Rightarrow> arp_state \<Rightarrow> arp_state" where
  "ETHARP_STATS_INC f s = s\<lparr>etharp_stats := f (\<lambda>n. to_u16 (n + 1)) (etharp_stats s)\<rparr>"

definition LINK_STATS_INC :: "((nat \<Rightarrow> nat) \<Rightarrow> stats_proto \<Rightarrow> stats_proto) \<Rightarrow> arp_state \<Rightarrow> arp_state" where
  "LINK_STATS_INC f s = s\<lparr>link_stats := f (\<lambda>n. to_u16 (n + 1)) (link_stats s)\<rparr>"

definition IP_STATS_INC :: "((nat \<Rightarrow> nat) \<Rightarrow> stats_proto \<Rightarrow> stats_proto) \<Rightarrow> arp_state \<Rightarrow> arp_state" where
  "IP_STATS_INC f s = s\<lparr>ip_stats := f (\<lambda>n. to_u16 (n + 1)) (ip_stats s)\<rparr>"

text \<open>\<^verbatim>\<open>netif->linkoutput(netif, p)\<close>, and the pbuf layer called on the pbufs of the state.\<close>

definition linkoutput :: "linkoutput_fn \<Rightarrow> addr \<Rightarrow> addr \<Rightarrow> arp_state \<Rightarrow> err_t \<times> arp_state" where
  "linkoutput lo netif p s =
     (lo netif p (bufs s), s\<lparr>frames := frames s @ [(netif, p, pdata (bufs s) p)]\<rparr>)"

definition free_pbuf :: "custom_free \<Rightarrow> addr \<Rightarrow> arp_state \<Rightarrow> arp_state option" where
  "free_pbuf cf p s = map_option (\<lambda>(_, b). s\<lparr>bufs := b\<rparr>) (pbuf_free cf p (bufs s))"

section \<open>The table\<close>

definition etharp_free_entry :: "custom_free \<Rightarrow> nat \<Rightarrow> arp_state \<Rightarrow> arp_state option" where
  "etharp_free_entry cf i s = do {
     s \<leftarrow> (if ae_q (entry s i) \<noteq> NULL
          then map_option (set_entry i (\<lambda>e. e\<lparr>ae_q := NULL\<rparr>)) (free_pbuf cf (ae_q (entry s i)) s)
          else Some s);
     Some (set_entry i (\<lambda>e. e\<lparr>ae_state := ETHARP_STATE_EMPTY\<rparr>) s)
   }"

definition tmr_entry :: "custom_free \<Rightarrow> nat \<Rightarrow> arp_state \<Rightarrow> arp_state option" where
  "tmr_entry cf i s =
     (if ae_state (entry s i) \<noteq> ETHARP_STATE_EMPTY \<and> ae_state (entry s i) \<noteq> ETHARP_STATE_STATIC
      then
        let s = set_entry i (\<lambda>e. e\<lparr>ae_ctime := to_u8 (ae_ctime e + 1)\<rparr>) s
        in if ae_ctime (entry s i) \<ge> ARP_MAXAGE
              \<or> ae_state (entry s i) = ETHARP_STATE_PENDING \<and> ae_ctime (entry s i) \<ge> ARP_MAXPENDING
           then etharp_free_entry cf i s
           else if ae_state (entry s i) = ETHARP_STATE_STABLE_REREQUESTING
           then Some (set_entry i (\<lambda>e. e\<lparr>ae_state := ETHARP_STATE_STABLE\<rparr>) s)
           else Some s
      else Some s)"

text \<open>A loop over the table in which each turn works on the entry \<open>i\<close>.\<close>

fun for_entries :: "(nat \<Rightarrow> arp_state \<Rightarrow> arp_state option) \<Rightarrow> nat list \<Rightarrow> arp_state \<Rightarrow> arp_state option" where
  "for_entries f [] s = Some s"
| "for_entries f (i # is) s = f i s \<bind> for_entries f is"

definition etharp_tmr :: "custom_free \<Rightarrow> arp_state \<Rightarrow> arp_state option" where
  "etharp_tmr cf s = for_entries (tmr_entry cf) [0..<ARP_TABLE_SIZE] s"

text \<open>
  \<^verbatim>\<open>etharp_find_entry\<close>: its local variables, the search sweep (the index of a match, or the variables at
  the end of the sweep), and the choice of an entry to recycle.
\<close>

record find_vars =
  old_pending :: nat
  old_stable :: nat
  empty :: nat
  age_pending :: nat
  age_stable :: nat
  old_queue :: nat
  age_queue :: nat

definition find_vars0 :: find_vars where
  "find_vars0 = \<lparr>old_pending = ARP_TABLE_SIZE, old_stable = ARP_TABLE_SIZE, empty = ARP_TABLE_SIZE,
     age_pending = 0, age_stable = 0, old_queue = ARP_TABLE_SIZE, age_queue = 0\<rparr>"

definition find_note :: "nat \<Rightarrow> etharp_entry \<Rightarrow> find_vars \<Rightarrow> find_vars" where
  "find_note i e v =
     (if ae_state e = ETHARP_STATE_PENDING
      then if ae_q e \<noteq> NULL
           then if ae_ctime e \<ge> age_queue v then v\<lparr>old_queue := i, age_queue := ae_ctime e\<rparr> else v
           else if ae_ctime e \<ge> age_pending v then v\<lparr>old_pending := i, age_pending := ae_ctime e\<rparr> else v
      else if ae_state e \<ge> ETHARP_STATE_STABLE
      then if ae_state e < ETHARP_STATE_STATIC
           then if ae_ctime e \<ge> age_stable v then v\<lparr>old_stable := i, age_stable := ae_ctime e\<rparr> else v
           else v
      else v)"

fun find_sweep :: "u32_t option \<Rightarrow> nat \<Rightarrow> etharp_entry list \<Rightarrow> find_vars \<Rightarrow> (nat + find_vars) option" where
  "find_sweep ipaddr i [] v = Some (Inr v)"
| "find_sweep ipaddr i (e # es) v =
     (if empty v = ARP_TABLE_SIZE \<and> ae_state e = ETHARP_STATE_EMPTY
      then find_sweep ipaddr (i + 1) es (v\<lparr>empty := i\<rparr>)
      else if ae_state e \<noteq> ETHARP_STATE_EMPTY
      then if \<not> (ae_state e = ETHARP_STATE_PENDING \<or> ae_state e \<ge> ETHARP_STATE_STABLE) then None
           else if ipaddr = Some (ae_ipaddr e) then Some (Inl i)
           else find_sweep ipaddr (i + 1) es (find_note i e v)
      else find_sweep ipaddr (i + 1) es v)"

definition find_recycle :: "custom_free \<Rightarrow> find_vars \<Rightarrow> arp_state \<Rightarrow> (err_t + nat \<times> arp_state) option" where
  "find_recycle cf v s =
     (let recycle = (\<lambda>i. if \<not> i < ARP_TABLE_SIZE then None
                         else map_option (\<lambda>s. Inr (i, s)) (etharp_free_entry cf i s))
      in if old_stable v < ARP_TABLE_SIZE
         then if \<not> ae_q (entry s (old_stable v)) = NULL then None else recycle (old_stable v)
         else if old_pending v < ARP_TABLE_SIZE then recycle (old_pending v)
         else if old_queue v < ARP_TABLE_SIZE then recycle (old_queue v)
         else Some (Inl ERR_MEM))"

definition etharp_find_entry ::
  "custom_free \<Rightarrow> u32_t option \<Rightarrow> u8_t \<Rightarrow> arp_state \<Rightarrow> ((err_t + nat) \<times> arp_state) option" where
  "etharp_find_entry cf ipaddr flags s = do {
     found \<leftarrow> find_sweep ipaddr 0 (arp_table s) find_vars0;
     (case found of
        Inl i \<Rightarrow> Some (Inr i, s)
      | Inr v \<Rightarrow>
          if flags AND ETHARP_FLAG_FIND_ONLY \<noteq> 0
             \<or> empty v = ARP_TABLE_SIZE \<and> flags AND ETHARP_FLAG_TRY_HARD = 0
          then Some (Inl ERR_MEM, s)
          else do {
            slot \<leftarrow> (if empty v < ARP_TABLE_SIZE then Some (Inr (empty v, s)) else find_recycle cf v s);
            (case slot of
               Inl e \<Rightarrow> Some (Inl e, s)
             | Inr (i, s) \<Rightarrow>
                 if \<not> i < ARP_TABLE_SIZE \<or> \<not> ae_state (entry s i) = ETHARP_STATE_EMPTY then None
                 else
                   let s = (case ipaddr of Some ip \<Rightarrow> set_entry i (\<lambda>e. e\<lparr>ae_ipaddr := ip\<rparr>) s | None \<Rightarrow> s)
                   in Some (Inr i, set_entry i (\<lambda>e. e\<lparr>ae_ctime := 0\<rparr>) s))
          })
   }"

section \<open>Sending\<close>

definition etharp_send_ip ::
  "linkoutput_fn \<Rightarrow> addr \<Rightarrow> addr \<Rightarrow> u8_t list \<Rightarrow> u8_t list \<Rightarrow> arp_state \<Rightarrow> (err_t \<times> arp_state) option" where
  "etharp_send_ip lo netif p src dst s =
     (let ethhdr = payload (bufs s) p
      in if \<not> nif_hwaddr_len (netifs s netif) = ETHARP_HWADDR_LEN then None
         else
           let s = poke ethhdr dst s;
               s = poke (ethhdr + 6) src s;
               s = poke (ethhdr + 12) (bytes_of_u16 (lwip_htons ETHTYPE_IP)) s
           in Some (linkoutput lo netif p s))"

definition etharp_update_arp_entry ::
  "custom_free \<Rightarrow> linkoutput_fn \<Rightarrow> addr \<Rightarrow> u32_t \<Rightarrow> u8_t list \<Rightarrow> u8_t \<Rightarrow> arp_state \<Rightarrow> (err_t \<times> arp_state) option" where
  "etharp_update_arp_entry cf lo netif ipaddr ethaddr flags s =
     (if \<not> nif_hwaddr_len (netifs s netif) = ETHARP_HWADDR_LEN then None
      else if ipaddr = IPADDR_ANY \<or> ip4_addr_isbroadcast ipaddr (netifs s netif) \<or> ip_addr_ismulticast ipaddr
      then Some (ERR_ARG, s)
      else do {
        (r, s) \<leftarrow> etharp_find_entry cf (Some ipaddr) flags s;
        (case r of
           Inl e \<Rightarrow> Some (e, s)
         | Inr i \<Rightarrow>
             let s = set_entry i (\<lambda>e. e\<lparr>ae_state := (if flags AND ETHARP_FLAG_STATIC_ENTRY \<noteq> 0
                        then ETHARP_STATE_STATIC else ETHARP_STATE_STABLE)\<rparr>) s;
                 s = set_entry i (\<lambda>e. e\<lparr>ae_netif := netif\<rparr>) s;
                 s = set_entry i (\<lambda>e. e\<lparr>ae_ethaddr := ethaddr\<rparr>) s;
                 s = set_entry i (\<lambda>e. e\<lparr>ae_ctime := 0\<rparr>) s
             in if ae_q (entry s i) \<noteq> NULL
                then do {
                  let p = ae_q (entry s i);
                  let s = set_entry i (\<lambda>e. e\<lparr>ae_q := NULL\<rparr>) s;
                  (_, s) \<leftarrow> etharp_send_ip lo netif p (nif_hwaddr (netifs s netif)) ethaddr s;
                  s \<leftarrow> free_pbuf cf p s;
                  Some (ERR_OK, s)
                }
                else Some (ERR_OK, s))
      })"

text \<open>\<^verbatim>\<open>ip_route\<close> of \<^verbatim>\<open>core/ipv4/ip.c\<close>: the loop over the interfaces, and the default interface.\<close>

definition netif_is_up :: "struct_netif \<Rightarrow> bool" where
  "netif_is_up n \<longleftrightarrow> nif_flags n AND NETIF_FLAG_UP \<noteq> 0"

partial_function (option) ip_route_loop :: "u32_t \<Rightarrow> addr \<Rightarrow> arp_state \<Rightarrow> addr option" where
  "ip_route_loop dest netif s =
     (if netif = NULL then Some NULL
      else if netif_is_up (netifs s netif)
           \<and> ip_addr_netcmp dest (nif_ip_addr (netifs s netif)) (nif_netmask (netifs s netif))
      then Some netif
      else ip_route_loop dest (nif_next (netifs s netif)) s)"

definition ip_route :: "u32_t \<Rightarrow> arp_state \<Rightarrow> (addr \<times> arp_state) option" where
  "ip_route dest s = do {
     netif \<leftarrow> ip_route_loop dest (netif_list s) s;
     if netif \<noteq> NULL then Some (netif, s)
     else if netif_default s = NULL \<or> \<not> netif_is_up (netifs s (netif_default s))
     then Some (NULL, IP_STATS_INC sp_rterr_update s)
     else Some (netif_default s, s)
   }"

definition etharp_add_static_entry ::
  "custom_free \<Rightarrow> linkoutput_fn \<Rightarrow> u32_t \<Rightarrow> u8_t list \<Rightarrow> arp_state \<Rightarrow> (err_t \<times> arp_state) option" where
  "etharp_add_static_entry cf lo ipaddr ethaddr s = do {
     (netif, s) \<leftarrow> ip_route ipaddr s;
     if netif = NULL then Some (ERR_RTE, s)
     else etharp_update_arp_entry cf lo netif ipaddr ethaddr (ETHARP_FLAG_TRY_HARD OR ETHARP_FLAG_STATIC_ENTRY) s
   }"

definition etharp_remove_static_entry :: "custom_free \<Rightarrow> u32_t \<Rightarrow> arp_state \<Rightarrow> (err_t \<times> arp_state) option" where
  "etharp_remove_static_entry cf ipaddr s = do {
     (r, s) \<leftarrow> etharp_find_entry cf (Some ipaddr) ETHARP_FLAG_FIND_ONLY s;
     (case r of
        Inl e \<Rightarrow> Some (e, s)
      | Inr i \<Rightarrow>
          if ae_state (entry s i) \<noteq> ETHARP_STATE_STATIC then Some (ERR_ARG, s)
          else map_option (Pair ERR_OK) (etharp_free_entry cf i s))
   }"

definition etharp_cleanup_netif :: "custom_free \<Rightarrow> addr \<Rightarrow> arp_state \<Rightarrow> arp_state option" where
  "etharp_cleanup_netif cf netif s =
     for_entries (\<lambda>i s. if ae_state (entry s i) \<noteq> ETHARP_STATE_EMPTY \<and> ae_netif (entry s i) = netif
                        then etharp_free_entry cf i s else Some s) [0..<ARP_TABLE_SIZE] s"

text \<open>\<^verbatim>\<open>etharp_find_addr\<close>: \<open>None\<close> inside is the result \<^verbatim>\<open>-1\<close>; the two pointers returned are those of the entry.\<close>

definition etharp_find_addr :: "custom_free \<Rightarrow> u32_t \<Rightarrow> arp_state \<Rightarrow> (nat option \<times> arp_state) option" where
  "etharp_find_addr cf ipaddr s = do {
     (r, s) \<leftarrow> etharp_find_entry cf (Some ipaddr) ETHARP_FLAG_FIND_ONLY s;
     (case r of
        Inl e \<Rightarrow> Some (None, s)
      | Inr i \<Rightarrow> Some (if ae_state (entry s i) \<ge> ETHARP_STATE_STABLE then Some i else None, s))
   }"

section \<open>Received ARP packets\<close>

text \<open>
  The reply is written over the request: \<open>e\<close> points to the Ethernet header, \<open>e + 14\<close> to the ARP header.
\<close>

definition arp_reply_in_place :: "addr \<Rightarrow> addr \<Rightarrow> u8_t list \<Rightarrow> arp_state \<Rightarrow> arp_state option" where
  "arp_reply_in_place netif e ethaddr s =
     (let hdr = e + SIZEOF_ETH_HDR;
          s = poke (hdr + 6) (bytes_of_u16 (lwip_htons ARP_REPLY)) s;
          s = poke (hdr + 24) (peek s (hdr + 14) 4) s;
          s = poke (hdr + 14) (bytes_of_u32 (nif_ip_addr (netifs s netif))) s
      in if \<not> nif_hwaddr_len (netifs s netif) = ETHARP_HWADDR_LEN then None
         else
           let s = poke (hdr + 18) (peek s (hdr + 8) 6) s;
               s = poke e (peek s (hdr + 8) 6) s;
               s = poke (hdr + 8) ethaddr s
           in Some (poke (e + 6) ethaddr s))"

text \<open>The checks of RFC 826, and the \<^verbatim>\<open>switch\<close> on the opcode.\<close>

definition arp_hdr_ok :: "(addr \<Rightarrow> u8_t) \<Rightarrow> addr \<Rightarrow> bool" where
  "arp_hdr_ok b hdr \<longleftrightarrow> \<not> (get_u16 b hdr \<noteq> lwip_htons HWTYPE_ETHERNET \<or> b (hdr + 4) \<noteq> 6 \<or> b (hdr + 5) \<noteq> 4
     \<or> get_u16 b (hdr + 2) \<noteq> lwip_htons ETHTYPE_IP)"

definition arp_act ::
  "linkoutput_fn \<Rightarrow> addr \<Rightarrow> u8_t list \<Rightarrow> addr \<Rightarrow> addr \<Rightarrow> bool \<Rightarrow> arp_state \<Rightarrow> arp_state option" where
  "arp_act lo netif ethaddr p ethhdr for_us s =
     (let opcode = get_u16 (bytes (bufs s)) (ethhdr + SIZEOF_ETH_HDR + 6)
      in if opcode = lwip_htons ARP_REQUEST
         then if for_us
              then map_option (\<lambda>s. snd (linkoutput lo netif p s)) (arp_reply_in_place netif ethhdr ethaddr s)
              else Some s
         else if opcode = lwip_htons ARP_REPLY then Some s
         else Some (ETHARP_STATS_INC sp_err_update s))"

definition etharp_arp_input ::
  "custom_free \<Rightarrow> linkoutput_fn \<Rightarrow> addr \<Rightarrow> u8_t list \<Rightarrow> addr \<Rightarrow> arp_state \<Rightarrow> arp_state option" where
  "etharp_arp_input cf lo netif ethaddr p s =
     (if netif = NULL then None
      else if len (bufs s) p < SIZEOF_ETHARP_PACKET
      then free_pbuf cf p (ETHARP_STATS_INC sp_drop_update (ETHARP_STATS_INC sp_lenerr_update s))
      else
        let ethhdr = payload (bufs s) p; hdr = ethhdr + SIZEOF_ETH_HDR; b = bytes (bufs s)
        in if \<not> arp_hdr_ok b hdr
           then free_pbuf cf p (ETHARP_STATS_INC sp_drop_update (ETHARP_STATS_INC sp_proterr_update s))
           else
             let s = ETHARP_STATS_INC sp_recv_update s;
                 sipaddr = get_u32 b (hdr + 14);
                 dipaddr = get_u32 b (hdr + 24);
                 for_us = nif_ip_addr (netifs s netif) \<noteq> IPADDR_ANY \<and> dipaddr = nif_ip_addr (netifs s netif)
             in do {
               (_, s) \<leftarrow> etharp_update_arp_entry cf lo netif sipaddr (peek s (hdr + 8) 6)
                          (if for_us then ETHARP_FLAG_TRY_HARD else ETHARP_FLAG_FIND_ONLY) s;
               s \<leftarrow> arp_act lo netif ethaddr p ethhdr for_us s;
               free_pbuf cf p s
             })"

section \<open>Requests and outgoing packets\<close>

definition etharp_raw ::
  "custom_free \<Rightarrow> linkoutput_fn \<Rightarrow> addr \<Rightarrow> u8_t list \<Rightarrow> u8_t list \<Rightarrow> u8_t list \<Rightarrow> u32_t \<Rightarrow> u8_t list \<Rightarrow> u32_t \<Rightarrow>
   u16_t \<Rightarrow> arp_state \<Rightarrow> (err_t \<times> arp_state) option" where
  "etharp_raw cf lo netif ethsrc ethdst hwsrc ipsrc hwdst ipdst opcode s =
     (if netif = NULL then None
      else do {
        (p, b) \<leftarrow> pbuf_alloc cf PBUF_RAW SIZEOF_ETHARP_PACKET PBUF_RAM (bufs s);
        let s = s\<lparr>bufs := b\<rparr>;
        if p = NULL then Some (ERR_MEM, ETHARP_STATS_INC sp_memerr_update s)
        else if \<not> len (bufs s) p \<ge> SIZEOF_ETHARP_PACKET then None
        else
          let ethhdr = payload (bufs s) p; hdr = ethhdr + SIZEOF_ETH_HDR;
              s = poke (hdr + 6) (bytes_of_u16 (lwip_htons opcode)) s
          in if \<not> nif_hwaddr_len (netifs s netif) = ETHARP_HWADDR_LEN then None
             else do {
               let s = poke (hdr + 8) hwsrc s;
               let s = poke (hdr + 18) hwdst s;
               let s = poke ethhdr ethdst s;
               let s = poke (ethhdr + 6) ethsrc s;
               let s = poke (hdr + 14) (bytes_of_u32 ipsrc) s;
               let s = poke (hdr + 24) (bytes_of_u32 ipdst) s;
               let s = poke hdr (bytes_of_u16 (lwip_htons HWTYPE_ETHERNET)) s;
               let s = poke (hdr + 2) (bytes_of_u16 (lwip_htons ETHTYPE_IP)) s;
               let s = poke (hdr + 4) [6] s;
               let s = poke (hdr + 5) [4] s;
               let s = poke (ethhdr + 12) (bytes_of_u16 (lwip_htons ETHTYPE_ARP)) s;
               let (result, s) = linkoutput lo netif p s;
               let s = ETHARP_STATS_INC sp_xmit_update s;
               s \<leftarrow> free_pbuf cf p s;
               Some (result, s)
             }
      })"

definition etharp_request ::
  "custom_free \<Rightarrow> linkoutput_fn \<Rightarrow> addr \<Rightarrow> u32_t \<Rightarrow> arp_state \<Rightarrow> (err_t \<times> arp_state) option" where
  "etharp_request cf lo netif ipaddr s =
     etharp_raw cf lo netif (nif_hwaddr (netifs s netif)) ethbroadcast (nif_hwaddr (netifs s netif))
       (nif_ip_addr (netifs s netif)) ethzero ipaddr ARP_REQUEST s"

definition etharp_output_to_arp_index ::
  "custom_free \<Rightarrow> linkoutput_fn \<Rightarrow> addr \<Rightarrow> addr \<Rightarrow> nat \<Rightarrow> arp_state \<Rightarrow> (err_t \<times> arp_state) option" where
  "etharp_output_to_arp_index cf lo netif q arp_idx s =
     (if \<not> ae_state (entry s arp_idx) \<ge> ETHARP_STATE_STABLE then None
      else do {
        s \<leftarrow> (if ae_state (entry s arp_idx) = ETHARP_STATE_STABLE
                 \<and> ae_ctime (entry s arp_idx) \<ge> ARP_AGE_REREQUEST_USED
              then do {
                (r, s) \<leftarrow> etharp_request cf lo netif (ae_ipaddr (entry s arp_idx)) s;
                Some (if r = ERR_OK
                      then set_entry arp_idx (\<lambda>e. e\<lparr>ae_state := ETHARP_STATE_STABLE_REREQUESTING\<rparr>) s else s)
              }
              else Some s);
        etharp_send_ip lo netif q (nif_hwaddr (netifs s netif)) (ae_ethaddr (entry s arp_idx)) s
      })"

text \<open>Packets waiting for an answer are copied unless all their pbufs are in ROM.\<close>

partial_function (option) copy_needed :: "pbuf_state \<Rightarrow> addr \<Rightarrow> (bool \<times> addr) option" where
  "copy_needed b p =
     (if p = NULL then Some (False, p)
      else if \<not> (len b p \<noteq> tot_len b p \<or> nxt b p = NULL) then None
      else if pb_type (pbufs b p) \<noteq> PBUF_ROM then Some (True, p)
      else copy_needed b (nxt b p))"

definition packet_to_queue :: "custom_free \<Rightarrow> addr \<Rightarrow> pbuf_state \<Rightarrow> (addr \<times> pbuf_state) option" where
  "packet_to_queue cf q b = do {
     (needed, p) \<leftarrow> copy_needed b q;
     if needed
     then do {
       (p, b) \<leftarrow> pbuf_alloc cf PBUF_RAW (tot_len b p) PBUF_RAM b;
       if p \<noteq> NULL
       then do {
         (r, b) \<leftarrow> pbuf_copy p q b;
         if r \<noteq> ERR_OK then map_option (\<lambda>(_, b). (NULL, b)) (pbuf_free cf p b) else Some (p, b)
       }
       else Some (NULL, b)
     }
     else Some (q, pbuf_ref q b)
   }"

definition queue_packet :: "custom_free \<Rightarrow> nat \<Rightarrow> addr \<Rightarrow> arp_state \<Rightarrow> (err_t \<times> arp_state) option" where
  "queue_packet cf i q s = do {
     (p, b) \<leftarrow> packet_to_queue cf q (bufs s);
     let s = s\<lparr>bufs := b\<rparr>;
     if p \<noteq> NULL
     then do {
       s \<leftarrow> (if ae_q (entry s i) \<noteq> NULL then free_pbuf cf (ae_q (entry s i)) s else Some s);
       Some (ERR_OK, set_entry i (\<lambda>e. e\<lparr>ae_q := p\<rparr>) s)
     }
     else Some (ERR_MEM, ETHARP_STATS_INC sp_memerr_update s)
   }"

text \<open>The part of \<^verbatim>\<open>etharp_query\<close> from the entry on, which is pending or stable by then.\<close>

definition query_entry ::
  "custom_free \<Rightarrow> linkoutput_fn \<Rightarrow> addr \<Rightarrow> u32_t \<Rightarrow> addr \<Rightarrow> nat \<Rightarrow> arp_state \<Rightarrow> (err_t \<times> arp_state) option" where
  "query_entry cf lo netif ipaddr q i s =
     (if \<not> (ae_state (entry s i) = ETHARP_STATE_PENDING \<or> ae_state (entry s i) \<ge> ETHARP_STATE_STABLE) then None
      else do {
        (result, s) \<leftarrow>
          (if ae_state (entry s i) = ETHARP_STATE_PENDING \<or> q = NULL
           then etharp_request cf lo netif ipaddr s else Some (ERR_MEM, s));
        if q = NULL then Some (result, s)
        else if ae_state (entry s i) \<ge> ETHARP_STATE_STABLE
        then etharp_send_ip lo netif q (nif_hwaddr (netifs s netif)) (ae_ethaddr (entry s i))
               (s\<lparr>etharp_cached_entry := i\<rparr>)
        else if ae_state (entry s i) = ETHARP_STATE_PENDING then queue_packet cf i q s
        else Some (result, s)
      })"

definition etharp_query ::
  "custom_free \<Rightarrow> linkoutput_fn \<Rightarrow> addr \<Rightarrow> u32_t \<Rightarrow> addr \<Rightarrow> arp_state \<Rightarrow> (err_t \<times> arp_state) option" where
  "etharp_query cf lo netif ipaddr q s =
     (if ip4_addr_isbroadcast ipaddr (netifs s netif) \<or> ip_addr_ismulticast ipaddr \<or> ipaddr = IPADDR_ANY
      then Some (ERR_ARG, s)
      else do {
        (r, s) \<leftarrow> etharp_find_entry cf (Some ipaddr) ETHARP_FLAG_TRY_HARD s;
        (case r of
           Inl e \<Rightarrow> Some (e, if q \<noteq> NULL then ETHARP_STATS_INC sp_memerr_update s else s)
         | Inr i \<Rightarrow>
             query_entry cf lo netif ipaddr q i
               (if ae_state (entry s i) = ETHARP_STATE_EMPTY
                then set_entry i (\<lambda>e. e\<lparr>ae_state := ETHARP_STATE_PENDING\<rparr>) s else s))
      })"

text \<open>The search for a stable entry on the path of every packet sent.\<close>

fun find_stable :: "u32_t \<Rightarrow> nat \<Rightarrow> etharp_entry list \<Rightarrow> nat option" where
  "find_stable ip i [] = None"
| "find_stable ip i (e # es) =
     (if ae_state e \<ge> ETHARP_STATE_STABLE \<and> ip = ae_ipaddr e then Some i else find_stable ip (i + 1) es)"

definition output_unicast ::
  "custom_free \<Rightarrow> linkoutput_fn \<Rightarrow> addr \<Rightarrow> addr \<Rightarrow> u32_t \<Rightarrow> arp_state \<Rightarrow> (err_t \<times> arp_state) option" where
  "output_unicast cf lo netif q dst s =
     (if ae_state (entry s (etharp_cached_entry s)) \<ge> ETHARP_STATE_STABLE
         \<and> dst = ae_ipaddr (entry s (etharp_cached_entry s))
      then etharp_output_to_arp_index cf lo netif q (etharp_cached_entry s) (ETHARP_STATS_INC sp_cachehit_update s)
      else case find_stable dst 0 (arp_table s) of
        Some i \<Rightarrow> etharp_output_to_arp_index cf lo netif q i (s\<lparr>etharp_cached_entry := i\<rparr>)
      | None \<Rightarrow> etharp_query cf lo netif dst q s)"

definition etharp_output ::
  "custom_free \<Rightarrow> linkoutput_fn \<Rightarrow> addr \<Rightarrow> addr \<Rightarrow> u32_t \<Rightarrow> arp_state \<Rightarrow> (err_t \<times> arp_state) option" where
  "etharp_output cf lo netif q ipaddr s =
     (if netif = NULL \<or> q = NULL then None
      else do {
        (r, b) \<leftarrow> pbuf_header q 14 (bufs s);
        let s = s\<lparr>bufs := b\<rparr>;
        let n = netifs s netif;
        if r \<noteq> 0 then Some (ERR_BUF, LINK_STATS_INC sp_lenerr_update s)
        else if ip4_addr_isbroadcast ipaddr n
        then etharp_send_ip lo netif q (nif_hwaddr n) ethbroadcast s
        else if ip_addr_ismulticast ipaddr
        then etharp_send_ip lo netif q (nif_hwaddr n)
               [0x01, 0x00, 0x5e, bytes_of_u32 ipaddr ! 1 AND 0x7f, bytes_of_u32 ipaddr ! 2, bytes_of_u32 ipaddr ! 3] s
        else if \<not> ip_addr_netcmp ipaddr (nif_ip_addr n) (nif_netmask n) \<and> \<not> ip_addr_islinklocal ipaddr
        then if nif_gw n \<noteq> IPADDR_ANY then output_unicast cf lo netif q (nif_gw n) s else Some (ERR_RTE, s)
        else output_unicast cf lo netif q ipaddr s
      })"

end
