(* ===== verification/Inet_Chksum.thy ===== *)
theory Inet_Chksum
  imports Byte_Order
begin

text \<open>
  The Internet checksum over a block of memory: \<^verbatim>\<open>core/ipv4/inet_chksum.c\<close>. All three
  implementations that \<^verbatim>\<open>LWIP_CHKSUM_ALGORITHM\<close> selects are modelled (the build uses number 2),
  with their 32-bit accumulator and 16-bit loads from a little-endian host. A block is its
  address \<open>a\<close> (the code looks at its alignment) and the list of its bytes. The specification
  is the ones-complement sum of RFC 1071, \<open>oc (csum False bs)\<close>.
\<close>

section \<open>Macros of inet\_chksum.h\<close>

definition SWAP_BYTES_IN_WORD :: "u32_t \<Rightarrow> u32_t" where
  "SWAP_BYTES_IN_WORD w = push_bit 8 (w AND 0xff) OR drop_bit 8 (w AND 0xff00)"

definition FOLD_U32T :: "u32_t \<Rightarrow> u32_t" where
  "FOLD_U32T u = drop_bit 16 u + (u AND 0xffff)"

section \<open>Loads and byte stores of the host\<close>

definition le16 :: "u8_t \<Rightarrow> u8_t \<Rightarrow> u16_t" where
  "le16 b0 b1 = push_bit 8 (ucast b1) OR ucast b0"

definition le32 :: "u8_t \<Rightarrow> u8_t \<Rightarrow> u8_t \<Rightarrow> u8_t \<Rightarrow> u32_t" where
  "le32 b0 b1 b2 b3 = push_bit 16 (ucast (le16 b2 b3)) OR ucast (le16 b0 b1)"

text \<open>\<^verbatim>\<open>((u8_t *)&t)[0] = b\<close> and \<^verbatim>\<open>((u8_t *)&t)[1] = b\<close>.\<close>

definition set_byte0 :: "u16_t \<Rightarrow> u8_t \<Rightarrow> u16_t" where
  "set_byte0 t b = (t AND 0xff00) OR ucast b"

definition set_byte1 :: "u16_t \<Rightarrow> u8_t \<Rightarrow> u16_t" where
  "set_byte1 t b = push_bit 8 (ucast b) OR (t AND 0xff)"

section \<open>The three algorithms\<close>

text \<open>Version 1: octet pairs in network order. Its length parameter has 16 bits, so the length of a longer block is cut.\<close>

fun chksum1_loop :: "u32_t \<Rightarrow> u8_t list \<Rightarrow> u32_t" where
  "chksum1_loop acc (o1 # o2 # octets) =
     chksum1_loop (acc + ucast ((push_bit 8 (ucast o1) OR ucast o2) :: u16_t)) octets"
| "chksum1_loop acc [o1] = acc + ucast (push_bit 8 (ucast o1) :: u16_t)"
| "chksum1_loop acc [] = acc"

definition lwip_standard_chksum1 :: "u8_t list \<Rightarrow> u16_t" where
  "lwip_standard_chksum1 octets =
     (let len = (of_nat (length octets) :: u16_t);
          acc = chksum1_loop 0 (take (unat len) octets);
          acc = drop_bit 16 acc + (acc AND 0xffff);
          acc = (if acc AND 0xffff0000 \<noteq> 0 then drop_bit 16 acc + (acc AND 0xffff) else acc)
      in lwip_htons (ucast acc))"

text \<open>Version 2: aligned 16-bit loads, the unaligned ends gathered in \<open>t\<close>.\<close>

fun chksum_words :: "u32_t \<Rightarrow> u8_t list \<Rightarrow> u32_t \<times> u8_t list" where
  "chksum_words sm (b0 # b1 # ps) = chksum_words (sm + ucast (le16 b0 b1)) ps"
| "chksum_words sm ps = (sm, ps)"

definition lwip_standard_chksum2 :: "addr \<Rightarrow> u8_t list \<Rightarrow> u16_t" where
  "lwip_standard_chksum2 dataptr bytes =
     (let odd = (dataptr mod 2 = 1);
          (t, pb) = (if odd \<and> bytes \<noteq> [] then (set_byte1 0 (hd bytes), tl bytes) else (0, bytes));
          (sm, ps) = chksum_words 0 pb;
          t = (if ps \<noteq> [] then set_byte0 t (hd ps) else t);
          sm = sm + ucast t;
          sm = FOLD_U32T sm;
          sm = FOLD_U32T sm;
          sm = (if odd then SWAP_BYTES_IN_WORD sm else sm)
      in ucast sm)"

text \<open>Version 3: the inner loop adds two 32-bit words with their carries.\<close>

definition add_back_carry :: "u32_t \<Rightarrow> u32_t \<Rightarrow> u32_t" where
  "add_back_carry sm v = (let tmp = sm + v in if tmp < sm then tmp + 1 else tmp)"

fun chksum_longs :: "u32_t \<Rightarrow> u8_t list \<Rightarrow> u32_t \<times> u8_t list" where
  "chksum_longs sm (b0 # b1 # b2 # b3 # b4 # b5 # b6 # b7 # pl) =
     (let tmp = add_back_carry sm (le32 b0 b1 b2 b3);
          sm = add_back_carry tmp (le32 b4 b5 b6 b7)
      in chksum_longs sm pl)"
| "chksum_longs sm pl = (sm, pl)"

definition lwip_standard_chksum3 :: "addr \<Rightarrow> u8_t list \<Rightarrow> u16_t" where
  "lwip_standard_chksum3 dataptr bytes =
     (let odd = (dataptr mod 2 = 1);
          (t, pb, ps) = (if odd \<and> bytes \<noteq> []
                         then (set_byte1 0 (hd bytes), tl bytes, dataptr + 1)
                         else (0, bytes, dataptr));
          (sm, pb) = (if ps mod 4 \<noteq> 0 \<and> length pb > 1
                       then (ucast (le16 (pb ! 0) (pb ! 1)), drop 2 pb) else (0, pb));
          (sm, pl) = chksum_longs sm pb;
          sm = FOLD_U32T sm;
          (sm, ps) = chksum_words sm pl;
          t = (if ps \<noteq> [] then set_byte0 t (hd ps) else t);
          sm = sm + ucast t;
          sm = FOLD_U32T sm;
          sm = FOLD_U32T sm;
          sm = (if odd then SWAP_BYTES_IN_WORD sm else sm)
      in ucast sm)"

text \<open>\<^verbatim>\<open>LWIP_CHKSUM\<close> is version 2, the default of the build.\<close>

abbreviation LWIP_CHKSUM :: "addr \<Rightarrow> u8_t list \<Rightarrow> u16_t" where
  "LWIP_CHKSUM \<equiv> lwip_standard_chksum2"

definition inet_chksum :: "addr \<Rightarrow> u8_t list \<Rightarrow> u16_t" where
  "inet_chksum dataptr bytes = NOT (LWIP_CHKSUM dataptr bytes)"

section \<open>The ones-complement sum\<close>

text \<open>
  \<open>csum hi bs\<close> adds the bytes of \<open>bs\<close> with alternating weights 1 and 256, the first weight
  being 256 when \<open>hi\<close>. \<open>oc n\<close> is the 16-bit ones-complement representative of \<open>n\<close>: the
  number in \<open>1..65535\<close> congruent to a nonzero \<open>n\<close>, and 0 for 0.
\<close>

fun csum :: "bool \<Rightarrow> u8_t list \<Rightarrow> nat" where
  "csum hi [] = 0"
| "csum hi (b # bs) = unat b * (if hi then 256 else 1) + csum (\<not> hi) bs"

definition oc :: "nat \<Rightarrow> nat" where
  "oc n = (if n = 0 then 0 else (n - 1) mod 65535 + 1)"

text \<open>Two sums are equivalent when no ones-complement arithmetic tells them apart.\<close>

definition oceq :: "nat \<Rightarrow> nat \<Rightarrow> bool" where
  "oceq m n \<longleftrightarrow> m mod 65535 = n mod 65535 \<and> (m = 0 \<longleftrightarrow> n = 0)"

section \<open>Arithmetic reading of the operations\<close>

lemma unat_le16 [word_nat]: "unat (le16 b0 b1) = 256 * unat b1 + unat b0"
  unfolding le16_def by (subst unat_or_disjoint [where n = 8]) simp_all

lemma unat_le32 [word_nat]:
  "unat (le32 b0 b1 b2 b3) = unat (le16 b0 b1) + 65536 * unat (le16 b2 b3)"
  unfolding le32_def by (subst unat_or_disjoint [where n = 16]) simp_all

lemma unat_set_byte0 [word_nat]: "unat (set_byte0 t b) = unat t div 256 * 256 + unat b"
proof -
  have "t AND 0xff00 = push_bit 8 (drop_bit 8 t)"
    by (simp only: byte_masks, rule bit_word_eqI) (auto simp: bit_simps)
  moreover have "unat t div 256 * 256 < 65536"
    using unat_u16_less [of t] div_times_less_eq_dividend [of "unat t" 256] by linarith
  ultimately have "unat (t AND 0xff00) = unat t div 256 * 256"
    by (simp add: unat_push_bit unat_drop_bit)
  then show ?thesis
    unfolding set_byte0_def by (subst unat_or_disjoint [where n = 8]) simp_all
qed

lemma unat_set_byte1 [word_nat]: "unat (set_byte1 t b) = 256 * unat b + unat t mod 256"
proof -
  have "unat (t AND 0xff) = unat t mod 256"
    by (simp only: and_mask_numerals unat_and_mask) simp
  then show ?thesis
    unfolding set_byte1_def by (subst unat_or_disjoint [where n = 8]) simp_all
qed

lemma unat_FOLD_U32T [word_nat]: "unat (FOLD_U32T u) = unat u div 65536 + unat u mod 65536"
proof -
  have "unat u div 65536 < 65536"
    using unat_u32_less [of u] by (simp add: div_less_iff_less_mult)
  moreover have "unat (u AND 0xffff) = unat u mod 65536"
    by (simp only: and_mask_numerals unat_and_mask) simp
  moreover have "unat u mod 65536 < 65536" by simp
  ultimately show ?thesis
    unfolding FOLD_U32T_def by (subst unat_word_ariths(1)) (simp add: unat_drop_bit)
qed

lemma unat_SWAP_BYTES [word_nat]:
  "unat (SWAP_BYTES_IN_WORD w) = unat w mod 256 * 256 + unat w div 256 mod 256"
proof -
  have "unat (w AND 0xff) = unat w mod 256"
    by (simp only: and_mask_numerals unat_and_mask) simp
  then have hi: "unat (push_bit 8 (w AND 0xff)) = unat w mod 256 * 256"
    by (simp only: unat_push_bit) (simp add: mod_less less_trans [of _ 65536])
  have "drop_bit 8 (w AND 0xff00) = drop_bit 8 w AND mask 8"
    by (simp only: byte_masks, rule bit_word_eqI) (auto simp: bit_simps)
  then have lo: "unat (drop_bit 8 (w AND 0xff00)) = unat w div 256 mod 256"
    by (simp only: unat_and_mask unat_drop_bit) simp
  have "unat (SWAP_BYTES_IN_WORD w) = unat (push_bit 8 (w AND 0xff)) + unat (drop_bit 8 (w AND 0xff00))"
    unfolding SWAP_BYTES_IN_WORD_def
    by (rule unat_or_disjoint [where n = 8]) (simp_all only: hi lo, simp_all)
  then show ?thesis by (simp only: hi lo)
qed

section \<open>Ones-complement arithmetic\<close>

lemma oceq_refl [simp, intro]: "oceq n n"
  by (simp add: oceq_def)

lemma oceq_sym: "oceq m n \<Longrightarrow> oceq n m"
  by (auto simp: oceq_def)

lemma oceq_trans [trans]: "oceq k m \<Longrightarrow> oceq m n \<Longrightarrow> oceq k n"
  by (auto simp: oceq_def)

lemma oceq_add: "oceq a b \<Longrightarrow> oceq c d \<Longrightarrow> oceq (a + c) (b + d)"
  unfolding oceq_def by (metis add_is_0 mod_add_cong)

lemma oceq_mult: "oceq a b \<Longrightarrow> oceq (k * a) (k * b)"
  unfolding oceq_def by (metis mod_mult_cong mult_is_0)

lemma oceq_oc: "oceq (oc n) n"
proof (cases "n = 0")
  case False
  then have "((n - 1) mod 65535 + 1) mod 65535 = n mod 65535"
    by (metis One_nat_def Suc_eq_plus1 Suc_pred mod_Suc_eq not_gr_zero)
  with False show ?thesis by (simp add: oceq_def oc_def)
qed (simp add: oc_def)

lemma oc_le: "oc n \<le> 65535"
  by (simp add: oc_def Suc_le_eq)

lemma oc_unique: "m \<le> 65535 \<Longrightarrow> oceq m n \<Longrightarrow> m = oc n"
proof -
  assume m: "m \<le> 65535" and eq: "oceq m n"
  then have "oceq m (oc n)" using oceq_oc oceq_sym oceq_trans by blast
  with m oc_le [of n] show ?thesis
    unfolding oceq_def by (cases "m = 65535"; cases "oc n = 65535") auto
qed

lemma oc_cong: "oceq m n \<Longrightarrow> oc m = oc n"
  by (metis oc_le oc_unique oceq_oc oceq_trans)

lemma oceq_fold: "oceq (n div 65536 + n mod 65536) n"
proof -
  have "n = n div 65536 * 65536 + n mod 65536" by simp
  moreover have "n div 65536 * 65536 + n mod 65536 =
      (n div 65536 + n mod 65536) + n div 65536 * 65535"
    by simp
  ultimately have "n mod 65535 = (n div 65536 + n mod 65536) mod 65535"
    by (metis mod_mult_self1)
  then show ?thesis by (auto simp: oceq_def)
qed

lemma oceq_swap: "n < 65536 \<Longrightarrow> oceq (n mod 256 * 256 + n div 256 mod 256) (256 * n)"
proof -
  assume n: "n < 65536"
  then have "n div 256 mod 256 = n div 256" by (simp add: div_less_iff_less_mult)
  moreover have "256 * n = (n mod 256 * 256 + n div 256) + n div 256 * 65535"
    using div_mult_mod_eq [of n 256] by linarith
  ultimately have "256 * n mod 65535 = (n mod 256 * 256 + n div 256 mod 256) mod 65535"
    by (metis mod_mult_self1)
  moreover have "n mod 256 * 256 + n div 256 = 0 \<longleftrightarrow> n = 0"
    by (metis add_is_0 div_mult_mod_eq mult_is_0 zero_neq_numeral mod_0 div_0)
  ultimately show ?thesis
    using \<open>n div 256 mod 256 = n div 256\<close> by (auto simp: oceq_def)
qed

lemma csum_append: "csum hi (xs @ ys) = csum hi xs + csum (hi \<noteq> odd (length xs)) ys"
  by (induction xs arbitrary: hi) (auto simp: add.assoc intro: arg_cong2 [where f = csum])

lemma csum_le: "csum hi bs \<le> 65535 * ((length bs + 1) div 2)"
proof (induction bs arbitrary: hi rule: induct_list012)
  case (2 b)
  show ?case using unat_u8_le [of b] by (cases hi) simp_all
next
  case (3 a b bs)
  have "csum hi (a # b # bs) = csum hi bs + unat a * (if hi then 256 else 1)
      + unat b * (if hi then 1 else 256)" by (cases hi) simp_all
  moreover have "unat a * (if hi then 256 else 1) + unat b * (if hi then 1 else 256) \<le> 65535"
    using unat_u8_le [of a] unat_u8_le [of b] by (cases hi) simp_all
  moreover have "csum hi bs \<le> 65535 * ((length bs + 1) div 2)" by (rule "3.IH")
  moreover have "(length (a # b # bs) + 1) div 2 = (length bs + 1) div 2 + 1" by simp
  ultimately show ?case by linarith
qed simp

text \<open>Reading a block from an odd boundary multiplies its sum by 256.\<close>

lemma csum_swap: "oceq (csum (\<not> hi) bs) (256 * csum hi bs)"
proof (induction bs arbitrary: hi)
  case (Cons b bs)
  have one: "oceq (unat b * (if \<not> hi then 256 else 1)) (256 * (unat b * (if hi then 256 else 1)))"
  proof (cases hi)
    case True
    have "256 * (unat b * 256) = unat b + unat b * 65535" by simp
    then have "256 * (unat b * 256) mod 65535 = unat b mod 65535" by (metis mod_mult_self1)
    with True show ?thesis by (simp add: oceq_def)
  qed (simp add: mult.commute)
  show ?case
    using oceq_add [OF one Cons.IH [of "\<not> hi"]] by (simp add: distrib_left)
qed simp

section \<open>Correctness of the algorithms\<close>

lemma chksum1_loop_csum:
  "unat acc + csum True bs < 4294967296 \<Longrightarrow> unat (chksum1_loop acc bs) = unat acc + csum True bs"
proof (induction acc bs rule: chksum1_loop.induct)
  case (1 acc o1 o2 bs)
  have pair: "unat (push_bit 8 (ucast o1) OR ucast o2 :: u16_t) = 256 * unat o1 + unat o2"
    by (subst unat_or_disjoint [where n = 8]) simp_all
  have "unat (acc + ucast (push_bit 8 (ucast o1) OR ucast o2 :: u16_t)) =
      unat acc + (256 * unat o1 + unat o2)"
    using "1.prems" by (subst unat_word_ariths(1)) (simp add: pair)
  with "1.IH" "1.prems" show ?case by simp
next
  case (2 acc o1)
  then show ?case by (simp add: unat_word_ariths(1) mult.commute)
qed simp

lemma chksum_words_csum:
  assumes "chksum_words acc bs = (acc', bs')" and "unat acc + csum False bs < 4294967296"
  shows "unat acc' + csum False bs' = unat acc + csum False bs \<and> length bs' = length bs mod 2"
  using assms
proof (induction acc bs rule: chksum_words.induct)
  case (1 acc b0 b1 bs)
  have "unat (acc + ucast (le16 b0 b1)) = unat acc + (256 * unat b1 + unat b0)"
    using "1.prems"(2) by (subst unat_word_ariths(1)) (simp add: unat_le16)
  with 1 show ?case by simp
qed auto

text \<open>End-around carry addition as the long loop performs it.\<close>

lemma add_carry_oceq: "oceq (unat (add_back_carry s v)) (unat s + unat v)"
proof (cases "unat s + unat v < 4294967296")
  case True
  then have "unat (s + v) = unat s + unat v" by (simp add: unat_word_ariths(1))
  then show ?thesis by (simp add: add_back_carry_def word_less_nat_alt)
next
  case False
  define t where "t = s + v"
  from False have "(unat s + unat v) mod 4294967296 = unat s + unat v - 4294967296"
    using unat_u32_le [of s] unat_u32_le [of v] le_mod_geq [of 4294967296 "unat s + unat v"]
    by simp
  then have t: "unat t + 4294967296 = unat s + unat v"
    using False by (simp add: t_def unat_word_ariths(1))
  then have "unat t < unat s" using unat_u32_le [of v] by linarith
  moreover have "unat (t + 1) = unat t + 1"
    using t unat_u32_le [of s] unat_u32_le [of v] by (simp add: unat_word_ariths(1))
  moreover have "unat s + unat v = (unat t + 1) + 65537 * 65535" using t by simp
  then have "(unat s + unat v) mod 65535 = (unat t + 1) mod 65535" by (metis mod_mult_self1)
  ultimately show ?thesis
    using t by (auto simp: oceq_def word_less_nat_alt add_back_carry_def simp flip: t_def)
qed

lemma chksum_longs_csum:
  "chksum_longs acc bs = (acc', bs') \<Longrightarrow>
   oceq (unat acc' + csum False bs') (unat acc + csum False bs) \<and> length bs' \<le> 7
   \<and> even (length bs') = even (length bs)"
proof (induction acc bs rule: chksum_longs.induct)
  case (1 acc b0 b1 b2 b3 b4 b5 b6 b7 bs)
  define u where "u = add_back_carry (add_back_carry acc (le32 b0 b1 b2 b3)) (le32 b4 b5 b6 b7)"
  have half: "oceq (65536 * k) k" for k
    using oceq_fold [of "65536 * k"] oceq_sym by simp
  have long: "oceq (unat (le32 c0 c1 c2 c3)) (csum False [c0, c1, c2, c3])" for c0 c1 c2 c3
    using oceq_add [OF oceq_refl half, of "unat (le16 c0 c1)" "unat (le16 c2 c3)"]
    by (simp add: unat_le32 unat_le16 ac_simps)
  have "oceq (unat u) (unat acc + csum False [b0, b1, b2, b3] + csum False [b4, b5, b6, b7])"
    unfolding u_def
    by (meson add_carry_oceq long oceq_add oceq_refl oceq_trans)
  from oceq_add [OF this oceq_refl, of "csum False bs"]
  have "oceq (unat u + csum False bs) (unat acc + csum False (b0 # b1 # b2 # b3 # b4 # b5 # b6 # b7 # bs))"
    by (simp add: ac_simps)
  moreover have "chksum_longs u bs = (acc', bs')"
    using "1.prems" by (simp add: u_def Let_def)
  ultimately show ?case
    using "1.IH" [OF refl refl, folded u_def] by (auto intro: oceq_trans)
qed auto

text \<open>What the algorithms do with their accumulator: fold it twice, swap it on odd alignment.\<close>

lemma fold_twice: "unat (FOLD_U32T (FOLD_U32T s)) = oc (unat s)"
proof (rule oc_unique)
  have "unat s div 65536 \<le> 65535"
    using div_le_mono [OF unat_u32_le [of s], of 65536] by simp
  then have one: "unat s div 65536 + unat s mod 65536 \<le> 131070"
    using mod_less_divisor [of 65536 "unat s"] by linarith
  show "unat (FOLD_U32T (FOLD_U32T s)) \<le> 65535"
  proof (cases "unat (FOLD_U32T s) < 65536")
    case False
    then have "unat (FOLD_U32T s) div 65536 = 1"
      using one by (simp add: unat_FOLD_U32T div_nat_eqI)
    moreover have "unat (FOLD_U32T s) = unat (FOLD_U32T s) div 65536 * 65536 + unat (FOLD_U32T s) mod 65536"
      by simp
    ultimately show ?thesis
      using one unat_FOLD_U32T [of s] unat_FOLD_U32T [of "FOLD_U32T s"] by linarith
  qed (simp add: unat_FOLD_U32T [of "FOLD_U32T s"])
  show "oceq (unat (FOLD_U32T (FOLD_U32T s))) (unat s)"
    unfolding unat_FOLD_U32T by (rule oceq_trans [OF oceq_fold oceq_fold])
qed

lemma swap_oc: "unat s \<le> 65535 \<Longrightarrow> unat (SWAP_BYTES_IN_WORD s) = oc (256 * unat s)"
proof (rule oc_unique)
  assume s: "unat s \<le> 65535"
  show "unat (SWAP_BYTES_IN_WORD s) \<le> 65535"
    using mod_less_divisor [of 256 "unat s"] mod_less_divisor [of 256 "unat s div 256"]
    unfolding unat_SWAP_BYTES by linarith
  show "oceq (unat (SWAP_BYTES_IN_WORD s)) (256 * unat s)"
    using s oceq_swap [of "unat s"] by (simp add: unat_SWAP_BYTES)
qed

text \<open>The tail of versions 2 and 3: from the total in the accumulator to the result.\<close>

lemma chksum_finish:
  assumes "oceq (unat s) (csum hi bs)"
  shows "ucast (if hi then SWAP_BYTES_IN_WORD (FOLD_U32T (FOLD_U32T s)) else FOLD_U32T (FOLD_U32T s))
     = (of_nat (oc (csum False bs)) :: u16_t)"
proof (rule unsigned_word_eqI)
  have oc16: "unat (of_nat (oc n) :: u16_t) = oc n" for n
    using oc_le [of n] by (simp add: unsigned_of_nat take_bit_eq_mod)
  have small: "unat (FOLD_U32T (FOLD_U32T s)) \<le> 65535" by (simp add: fold_twice oc_le)
  have "unat (if hi then SWAP_BYTES_IN_WORD (FOLD_U32T (FOLD_U32T s)) else FOLD_U32T (FOLD_U32T s))
      = oc (csum False bs)"
  proof (cases hi)
    case True
    have "oceq (256 * oc (unat s)) (256 * csum True bs)"
      using oceq_mult [OF oceq_trans [OF oceq_oc assms]] True by simp
    also have "oceq (256 * csum True bs) (csum False bs)"
      using csum_swap [of True bs] by (simp add: oceq_sym)
    finally show ?thesis using True small by (simp add: swap_oc fold_twice oc_cong)
  next
    case False
    then show ?thesis using assms by (simp add: fold_twice oc_cong)
  qed
  then show "unat (ucast (if hi then SWAP_BYTES_IN_WORD (FOLD_U32T (FOLD_U32T s))
      else FOLD_U32T (FOLD_U32T s)) :: u16_t) = unat (of_nat (oc (csum False bs)) :: u16_t)"
    using oc_le [of "csum False bs"] by (simp only: unat_ucast_mod oc16) simp
qed

lemma csum_block_bound: "length bs \<le> 0x20000 \<Longrightarrow> csum hi bs < 4294967296"
proof -
  assume "length bs \<le> 0x20000"
  then have "(length bs + 1) div 2 \<le> 65536" by simp
  then show ?thesis using csum_le [of hi bs] by linarith
qed

lemma chksum2_correct:
  assumes "length bs \<le> 0x20000"
  shows "lwip_standard_chksum2 a bs = of_nat (oc (csum False bs))"
proof -
  define od where "od = (a mod 2 = 1)"
  define t where "t = (if od \<and> bs \<noteq> [] then set_byte1 0 (hd bs) else 0)"
  define pb where "pb = (if od \<and> bs \<noteq> [] then tl bs else bs)"
  have ends: "(if od \<and> bs \<noteq> [] then (set_byte1 0 (hd bs), tl bs) else (0, bs)) = (t, pb)"
    by (simp add: t_def pb_def)
  obtain s ps where w: "chksum_words 0 pb = (s, ps)" by fastforce
  define t' where "t' = (if ps \<noteq> [] then set_byte0 t (hd ps) else t)"
  have tot: "unat t + csum False pb = csum od bs" and t256: "unat t mod 256 = 0"
    by (cases bs; auto simp: t_def pb_def unat_set_byte1)+
  then have bound: "csum False pb < 4294967296"
    using csum_block_bound [OF assms, of od] by linarith
  have sp: "unat s + csum False ps = csum False pb" and "length ps < 2"
    using chksum_words_csum [OF w] bound by auto
  then have "unat t' + unat s = csum od bs"
    using tot t256 by (cases ps) (auto simp: t'_def unat_set_byte0)
  then have "oceq (unat (s + ucast t')) (csum od bs)"
    using csum_block_bound [OF assms, of od] by (simp add: unat_word_ariths(1) add.commute [of "unat s"])
  from chksum_finish [OF this] show ?thesis
    unfolding lwip_standard_chksum2_def Let_def od_def [symmetric] ends
    by (simp add: w split: if_splits flip: t'_def)
qed

lemma fold_small: "x AND 0xffff0000 = 0 \<Longrightarrow> FOLD_U32T x = x"
proof -
  assume x: "x AND 0xffff0000 = 0"
  have m: "(0xffff0000 :: u32_t) = push_bit 16 (mask 16)"
    by (simp add: mask_eq_exp_minus_1 push_bit_eq_mult)
  have hi: "\<not> bit x (16 + n)" if "n < 16" for n
  proof -
    have "\<not> bit (x AND push_bit 16 (mask 16)) (16 + n)" using x m by simp
    with that show ?thesis by (simp add: bit_simps)
  qed
  have "\<not> bit (drop_bit 16 x) n" for n
    using hi [of n] bit_imp_le_length [of x "16 + n"] by (cases "n < 16") (auto simp: bit_simps)
  then have "drop_bit 16 x = 0" by (intro bit_word_eqI) simp
  moreover from this have "x AND 0xffff = x"
    by (simp only: and_mask_numerals flip: take_bit_eq_mask) (simp add: take_bit_eq_self_iff_drop_bit_eq_0)
  ultimately show ?thesis by (simp add: FOLD_U32T_def)
qed

lemma chksum1_correct: "lwip_standard_chksum1 octets = of_nat (oc (csum False (take (length octets mod 65536) octets)))"
proof -
  define bs where "bs = take (length octets mod 65536) octets"
  have cut: "take (unat (of_nat (length octets) :: u16_t)) octets = bs" by (simp add: bs_def unat_of_nat)
  have len: "length bs \<le> 0x20000"
    using mod_less_divisor [of 65536 "length octets"] by (simp add: bs_def)
  define s where "s = chksum1_loop 0 bs"
  have s: "unat s = csum True bs"
    using csum_block_bound [OF len, of True] by (simp add: s_def chksum1_loop_csum)
  have fold: "drop_bit 16 x + (x AND 0xffff) = FOLD_U32T x" for x
    by (simp add: FOLD_U32T_def)
  have "lwip_standard_chksum1 octets = lwip_htons (ucast (FOLD_U32T (FOLD_U32T s)))"
    unfolding lwip_standard_chksum1_def Let_def cut fold s_def [symmetric] by (simp add: fold_small)
  also have "\<dots> = ucast (SWAP_BYTES_IN_WORD (FOLD_U32T (FOLD_U32T s)))"
  proof (rule unsigned_word_eqI)
    have "unat (FOLD_U32T (FOLD_U32T s)) < 65536"
      using oc_le [of "unat s"] by (simp add: fold_twice)
    then show "unat (lwip_htons (ucast (FOLD_U32T (FOLD_U32T s)))) =
        unat (ucast (SWAP_BYTES_IN_WORD (FOLD_U32T (FOLD_U32T s))) :: u16_t)"
      using oc_le [of "256 * unat (FOLD_U32T (FOLD_U32T s))"]
      by (simp add: unat_lwip_htons unat_ucast_mod unat_SWAP_BYTES div_less_iff_less_mult)
  qed
  also have "\<dots> = of_nat (oc (csum False bs))"
    using chksum_finish [of s True bs] s by simp
  finally show ?thesis unfolding bs_def .
qed

lemma chksum3_correct: "lwip_standard_chksum3 a bs = of_nat (oc (csum False bs))"
proof -
  define od where "od = (a mod 2 = 1)"
  define t where "t = (if od \<and> bs \<noteq> [] then set_byte1 0 (hd bs) else 0)"
  define pb where "pb = (if od \<and> bs \<noteq> [] then tl bs else bs)"
  define pa where "pa = (if od \<and> bs \<noteq> [] then a + 1 else a)"
  have ends: "(if od \<and> bs \<noteq> [] then (set_byte1 0 (hd bs), tl bs, a + 1) else (0, bs, a)) = (t, pb, pa)"
    by (simp add: t_def pb_def pa_def)
  define s0 :: u32_t where "s0 = (if pa mod 4 \<noteq> 0 \<and> length pb > 1 then ucast (le16 (pb ! 0) (pb ! 1)) else 0)"
  define pl where "pl = (if pa mod 4 \<noteq> 0 \<and> length pb > 1 then drop 2 pb else pb)"
  have aligned: "(if pa mod 4 \<noteq> 0 \<and> length pb > 1
      then (ucast (le16 (pb ! 0) (pb ! 1)), drop 2 pb) else (0, pb)) = (s0, pl)"
    by (simp add: s0_def pl_def)
  obtain s1 pm where l: "chksum_longs s0 pl = (s1, pm)" by fastforce
  obtain s2 ps where w: "chksum_words (FOLD_U32T s1) pm = (s2, ps)" by fastforce
  define t' where "t' = (if ps \<noteq> [] then set_byte0 t (hd ps) else t)"
  have tot: "unat t + csum False pb = csum od bs" and t256: "unat t mod 256 = 0"
    by (cases bs; auto simp: t_def pb_def unat_set_byte1)+
  have "unat s0 + csum False pl = csum False pb"
    unfolding s0_def pl_def
    by (cases pb; cases "tl pb") (auto simp: unat_le16)
  then have longs: "oceq (unat s1 + csum False pm) (csum False pb)" and pm: "length pm \<le> 7"
    using chksum_longs_csum [OF l] by auto
  have "unat (FOLD_U32T s1) \<le> 131070"
    using div_le_mono [OF unat_u32_le [of s1], of 65536] mod_less_divisor [of 65536 "unat s1"]
    unfolding unat_FOLD_U32T by linarith
  moreover have "csum False pm \<le> 65535 * 4"
    using csum_le [of False pm] pm by simp
  ultimately have small: "unat (FOLD_U32T s1) + csum False pm \<le> 393210" by linarith
  then have sp: "unat s2 + csum False ps = unat (FOLD_U32T s1) + csum False pm" and "length ps < 2"
    using chksum_words_csum [OF w] by auto
  then have "unat t' + unat s2 = unat t + (unat (FOLD_U32T s1) + csum False pm)"
    using t256 by (cases ps) (auto simp: t'_def unat_set_byte0)
  moreover have "unat t' + unat s2 < 4294967296"
    using small sp unat_u16_le [of t'] by linarith
  ultimately have "unat (s2 + ucast t') = unat t + (unat (FOLD_U32T s1) + csum False pm)"
    by (simp add: unat_word_ariths(1) add.commute [of "unat s2"])
  moreover have "oceq (unat t + (unat (FOLD_U32T s1) + csum False pm)) (csum od bs)"
    unfolding tot [symmetric] unat_FOLD_U32T
    by (intro oceq_add oceq_refl oceq_trans [OF oceq_add [OF oceq_fold oceq_refl] longs])
  ultimately have "oceq (unat (s2 + ucast t')) (csum od bs)" by simp
  from chksum_finish [OF this] show ?thesis
    unfolding lwip_standard_chksum3_def Let_def od_def [symmetric] ends prod.case aligned
    by (simp add: l w split: if_splits flip: t'_def)
qed

section \<open>Verifying and detecting with the checksum\<close>

lemma unat_inet_chksum:
  "length bs \<le> 0x20000 \<Longrightarrow> unat (inet_chksum a bs) = 65535 - oc (csum False bs)"
proof -
  assume "length bs \<le> 0x20000"
  then have "unat (LWIP_CHKSUM a bs) = oc (csum False bs)"
    using oc_le [of "csum False bs"] by (simp add: chksum2_correct unsigned_of_nat take_bit_eq_mod)
  then show ?thesis by (simp add: inet_chksum_def unat_NOT_u16)
qed

lemma csum_bytes_of_u16: "csum False (bytes_of_u16 c) = unat c"
proof -
  have "unat c div 256 < 256" using unat_u16_less [of c] by (simp add: div_less_iff_less_mult)
  then show ?thesis
    by (simp add: bytes_of_u16_def unat_ucast_mod unat_drop_bit)
qed

lemma csum_set_field:
  "even (length xs) \<Longrightarrow>
   csum False (xs @ bytes_of_u16 c @ ys) = csum False (xs @ [0, 0] @ ys) + unat c"
  using csum_bytes_of_u16 [of c] by (simp add: csum_append bytes_of_u16_def)

lemma csum_change_byte:
  "oceq (csum False (xs @ b # ys)) (csum False (xs @ b' # ys)) \<Longrightarrow> b = b'"
proof -
  define k :: nat where "k = (if odd (length xs) then 256 else 1)"
  define r where "r = csum False xs + csum (even (length xs)) ys"
  have c: "csum False (xs @ c # ys) = unat c * k + r" for c
    by (simp add: csum_append k_def r_def)
  assume "oceq (csum False (xs @ b # ys)) (csum False (xs @ b' # ys))"
  then have "int ((unat b * k + r) mod 65535) = int ((unat b' * k + r) mod 65535)"
    unfolding oceq_def c by simp
  then have "int (unat b * k + r) mod 65535 = int (unat b' * k + r) mod 65535"
    by (simp only: of_nat_mod) simp
  then have dvd: "65535 dvd int (unat b * k) - int (unat b' * k)"
    by (simp add: mod_eq_dvd_iff)
  have "unat c * k \<le> 65280" for c :: u8_t
    using unat_u8_le [of c] by (auto simp: k_def)
  from this [of b] this [of b'] have "\<bar>int (unat b * k) - int (unat b' * k)\<bar> < 65535" by linarith
  then have "unat b * k = unat b' * k"
    using dvd_imp_le_int [OF _ dvd] by linarith
  then show ?thesis by (auto simp: k_def word_unat_eq_iff split: if_splits)
qed

lemma stored_chksum_zero:
  assumes "length (xs @ [0, 0] @ ys) \<le> 0x20000" and "even (length xs)"
  shows "inet_chksum a' (xs @ bytes_of_u16 (inet_chksum a (xs @ [0, 0] @ ys)) @ ys) = 0"
proof (rule unsigned_word_eqI)
  define s where "s = csum False (xs @ [0, 0] @ ys)"
  define bs where "bs = xs @ bytes_of_u16 (inet_chksum a (xs @ [0, 0] @ ys)) @ ys"
  have len: "length bs \<le> 0x20000" using assms(1) by (simp add: bs_def bytes_of_u16_def)
  have "csum False bs = s + (65535 - oc s)"
    unfolding bs_def s_def using assms by (simp only: csum_set_field unat_inet_chksum)
  moreover have "oceq (s + (65535 - oc s)) (oc s + (65535 - oc s))"
    by (intro oceq_add oceq_refl oceq_sym [OF oceq_oc])
  ultimately have "oceq 65535 (csum False bs)" using oc_le [of s] by (simp add: oceq_sym)
  then have "oc (csum False bs) = 65535" by (simp flip: oc_unique)
  then show "unat (inet_chksum a' bs) = unat (0 :: u16_t)" by (simp add: unat_inet_chksum [OF len])
qed

section \<open>Properties\<close>

text \<open>
  C38. Versions 2 and 3 of the checksum agree with the RFC 1071 ones-complement sum, and so with
  one another, at every alignment of the block and for every length up to the documented
  \<^verbatim>\<open>0x20000\<close> bytes. So does version 1 up to 65535 bytes, the range of its 16-bit length; of a longer block it sums
  only as many bytes as are left of the length modulo 65536.
\<close>

theorem chksum_algorithms_agree:
  assumes "length bs \<le> 0x20000"
  shows "lwip_standard_chksum2 a bs = of_nat (oc (csum False bs))
    \<and> lwip_standard_chksum3 a bs = lwip_standard_chksum2 a bs
    \<and> (length bs < 0x10000 \<longrightarrow> lwip_standard_chksum1 bs = lwip_standard_chksum2 a bs)
    \<and> lwip_standard_chksum1 bs = of_nat (oc (csum False (take (length bs mod 0x10000) bs)))"
  using assms by (simp add: chksum1_correct chksum2_correct chksum3_correct)

theorem chksum_algorithms_agree_witness:
  "length [0x45, 0x00, 0x73 :: u8_t] \<le> 0x20000
   \<and> lwip_standard_chksum2 1 [0x45, 0x00, 0x73] = 0xb8
   \<and> lwip_standard_chksum1 [0x45, 0x00, 0x73] = 0xb8"
proof -
  have h: "length [0x45, 0x00, 0x73 :: u8_t] \<le> 0x20000" by simp
  show ?thesis using h chksum_algorithms_agree [OF h, of 1] by (simp add: oc_def)
qed

text \<open>
  Storing the checksum of a block into its zeroed checksum field (at an even offset) makes the
  block verify: the checksum over the stored block is zero, whatever the alignment it is read at.
\<close>

theorem chksum_stored_verifies:
  assumes "length (xs @ [0, 0] @ ys) \<le> 0x20000" and "even (length xs)"
  shows "inet_chksum a' (xs @ bytes_of_u16 (inet_chksum a (xs @ [0, 0] @ ys)) @ ys) = 0"
  using assms by (rule stored_chksum_zero)

theorem chksum_stored_verifies_witness:
  "inet_chksum 7 ([0x08, 0x00 :: u8_t] @ bytes_of_u16 (inet_chksum 4 ([0x08, 0x00] @ [0, 0] @ [0x12])) @ [0x12]) = 0"
  by (rule chksum_stored_verifies) simp_all

text \<open>
  Every change of a single byte is detected: two blocks that differ in one byte have different
  checksums.
\<close>

theorem chksum_detects_byte_change:
  assumes "length (xs @ b # ys) \<le> 0x20000" and "b \<noteq> b'"
  shows "inet_chksum a (xs @ b # ys) \<noteq> inet_chksum a' (xs @ b' # ys)"
proof
  assume "inet_chksum a (xs @ b # ys) = inet_chksum a' (xs @ b' # ys)"
  then have "65535 - oc (csum False (xs @ b # ys)) = 65535 - oc (csum False (xs @ b' # ys))"
    using assms(1) by (metis length_append length_Cons unat_inet_chksum)
  then have "oc (csum False (xs @ b # ys)) = oc (csum False (xs @ b' # ys))"
    using oc_le [of "csum False (xs @ b # ys)"] oc_le [of "csum False (xs @ b' # ys)"] by linarith
  then have "oceq (csum False (xs @ b # ys)) (csum False (xs @ b' # ys))"
    by (metis oceq_oc oceq_sym oceq_trans)
  with assms(2) show False by (simp add: csum_change_byte)
qed

theorem chksum_detects_byte_change_witness:
  "inet_chksum 0 ([0x45] @ 0x10 # [0x54]) \<noteq> inet_chksum 1 ([0x45] @ 0x11 # [0x54])"
  by (rule chksum_detects_byte_change) simp_all

end
