(* ===== verification/Inet_Chksum_Pbuf.thy ===== *)
theory Inet_Chksum_Pbuf
  imports Inet_Chksum Pbuf
begin

text \<open>
  The checksums over pbuf chains of \<^verbatim>\<open>core/ipv4/inet_chksum.c\<close>: plain, with the pseudo header of
  TCP and UDP, over a part of the chain, and the copy that sums as it goes, with its one caller
  \<^verbatim>\<open>pbuf_fill_chksum\<close>. Each pbuf is summed on its own and the sum is byte-swapped whenever a pbuf
  has an odd length; the theorems show that this gives the checksum of the concatenated data.
\<close>

section \<open>Operations\<close>

text \<open>The loop of \<^verbatim>\<open>inet_chksum_pbuf\<close> and \<^verbatim>\<open>inet_chksum_pseudo\<close>.\<close>

partial_function (option) chksum_pbuf_loop :: "pbuf_state \<Rightarrow> addr \<Rightarrow> u32_t \<Rightarrow> bool \<Rightarrow> (u32_t \<times> bool) option" where
  "chksum_pbuf_loop s q acc swapped =
     (if q \<noteq> NULL
      then
        let acc = acc + ucast (LWIP_CHKSUM (payload s q) (pdata s q));
            acc = FOLD_U32T acc;
            (swapped, acc) = (if len s q mod 2 \<noteq> 0 then (\<not> swapped, SWAP_BYTES_IN_WORD acc) else (swapped, acc))
        in chksum_pbuf_loop s (nxt s q) acc swapped
      else Some (acc, swapped))"

definition inet_chksum_pbuf :: "addr \<Rightarrow> pbuf_state \<Rightarrow> u16_t option" where
  "inet_chksum_pbuf p s =
     (case chksum_pbuf_loop s p 0 False of
        None \<Rightarrow> None
      | Some (acc, swapped) \<Rightarrow>
          let acc = (if swapped then SWAP_BYTES_IN_WORD acc else acc)
          in Some (ucast (NOT (acc AND 0xffff))))"

text \<open>
  The end of both pseudo-header sums. \<open>src\<close> and \<open>dest\<close> are the addresses as the code holds them,
  in network byte order.
\<close>

definition chksum_pseudo_finish :: "u32_t \<Rightarrow> bool \<Rightarrow> u32_t \<Rightarrow> u32_t \<Rightarrow> u8_t \<Rightarrow> u16_t \<Rightarrow> u16_t" where
  "chksum_pseudo_finish acc swapped src dest proto proto_len =
     (let acc = (if swapped then SWAP_BYTES_IN_WORD acc else acc);
          acc = acc + (src AND 0xffff);
          acc = acc + (drop_bit 16 src AND 0xffff);
          acc = acc + (dest AND 0xffff);
          acc = acc + (drop_bit 16 dest AND 0xffff);
          acc = acc + ucast (lwip_htons (ucast proto));
          acc = acc + ucast (lwip_htons proto_len);
          acc = FOLD_U32T acc;
          acc = FOLD_U32T acc
      in ucast (NOT (acc AND 0xffff)))"

definition inet_chksum_pseudo :: "addr \<Rightarrow> u32_t \<Rightarrow> u32_t \<Rightarrow> u8_t \<Rightarrow> u16_t \<Rightarrow> pbuf_state \<Rightarrow> u16_t option" where
  "inet_chksum_pseudo p src dest proto proto_len s =
     (case chksum_pbuf_loop s p 0 False of
        None \<Rightarrow> None
      | Some (acc, swapped) \<Rightarrow> Some (chksum_pseudo_finish acc swapped src dest proto proto_len))"

partial_function (option) chksum_partial_loop ::
  "pbuf_state \<Rightarrow> addr \<Rightarrow> nat \<Rightarrow> u32_t \<Rightarrow> bool \<Rightarrow> (u32_t \<times> bool) option" where
  "chksum_partial_loop s q chksum_len acc swapped =
     (if q \<noteq> NULL \<and> chksum_len > 0
      then
        let chklen = (if len s q > chksum_len then chksum_len else len s q);
            acc = acc + ucast (LWIP_CHKSUM (payload s q) (mem_bytes (bytes s) (payload s q) chklen));
            chksum_len = chksum_len - chklen
        in if \<not> chksum_len < 0x7fff then None
           else
             let acc = FOLD_U32T acc;
                 (swapped, acc) = (if len s q mod 2 \<noteq> 0 then (\<not> swapped, SWAP_BYTES_IN_WORD acc) else (swapped, acc))
             in chksum_partial_loop s (nxt s q) chksum_len acc swapped
      else Some (acc, swapped))"

definition inet_chksum_pseudo_partial ::
  "addr \<Rightarrow> u32_t \<Rightarrow> u32_t \<Rightarrow> u8_t \<Rightarrow> u16_t \<Rightarrow> nat \<Rightarrow> pbuf_state \<Rightarrow> u16_t option" where
  "inet_chksum_pseudo_partial p src dest proto proto_len chksum_len s =
     (case chksum_partial_loop s p chksum_len 0 False of
        None \<Rightarrow> None
      | Some (acc, swapped) \<Rightarrow> Some (chksum_pseudo_finish acc swapped src dest proto proto_len))"

definition lwip_chksum_copy :: "addr \<Rightarrow> addr \<Rightarrow> nat \<Rightarrow> pbuf_state \<Rightarrow> u16_t \<times> pbuf_state" where
  "lwip_chksum_copy dst src n s =
     (let s = s\<lparr>bytes := MEMCPY dst src n (bytes s)\<rparr>
      in (LWIP_CHKSUM dst (mem_bytes (bytes s) dst n), s))"

definition pbuf_fill_chksum ::
  "addr \<Rightarrow> nat \<Rightarrow> addr \<Rightarrow> nat \<Rightarrow> u16_t \<Rightarrow> pbuf_state \<Rightarrow> (err_t \<times> u16_t \<times> pbuf_state) option" where
  "pbuf_fill_chksum p start_offset dataptr n chksum s =
     (if p = NULL \<or> dataptr = NULL \<or> n = 0 then None
      else if start_offset \<ge> len s p \<or> start_offset + n > len s p then Some (ERR_ARG, chksum, s)
      else
        let dst_ptr = payload s p + start_offset;
            (copy_chksum, s) = lwip_chksum_copy dst_ptr dataptr n s;
            copy_chksum = (if start_offset mod 2 \<noteq> 0 then ucast (SWAP_BYTES_IN_WORD (ucast copy_chksum)) else copy_chksum);
            acc = ucast chksum + ucast copy_chksum
        in Some (ERR_OK, ucast (FOLD_U32T acc), s))"

section \<open>The running sum\<close>

lemma fold_once:
  assumes "unat acc \<le> 65535" "unat v \<le> 65535"
  shows "unat (FOLD_U32T (acc + v)) = oc (unat acc + unat v)"
proof (rule oc_unique)
  have add: "unat (acc + v) = unat acc + unat v"
    using assms by (intro unat_plus_simple [THEN iffD1]) (simp add: word_le_nat_alt unat_word_ariths)
  show "oceq (unat (FOLD_U32T (acc + v))) (unat acc + unat v)"
    unfolding unat_FOLD_U32T add by (rule oceq_fold)
  show "unat (FOLD_U32T (acc + v)) \<le> 65535"
  proof (cases "unat acc + unat v < 65536")
    case True
    then show ?thesis unfolding unat_FOLD_U32T add by simp
  next
    case False
    then have "(unat acc + unat v) div 65536 = 1" "(unat acc + unat v) mod 65536 = unat acc + unat v - 65536"
      using assms by (auto simp: div_nat_eqI mod_if)
    then show ?thesis unfolding unat_FOLD_U32T add using assms by simp
  qed
qed

text \<open>The sum after the data \<open>d\<close>: in 16 bits, with the weights turned round when swapped.\<close>

definition sums :: "u32_t \<Rightarrow> bool \<Rightarrow> u8_t list \<Rightarrow> bool" where
  "sums acc swapped d \<longleftrightarrow> unat acc \<le> 65535 \<and> oceq (unat acc) (csum swapped d)"

lemma sums_step:
  assumes "sums acc (odd (length d)) d" "length x \<le> 0x20000"
    and "acc1 = FOLD_U32T (acc + ucast (LWIP_CHKSUM a x))"
  shows "sums (if o1 then SWAP_BYTES_IN_WORD acc1 else acc1) (odd (length d) \<noteq> o1) (d @ x)"
proof -
  have x: "unat (ucast (LWIP_CHKSUM a x) :: u32_t) = oc (csum False x)"
    using chksum2_correct [OF assms(2), of a] oc_le [of "csum False x"]
    by (simp add: unat_ucast_up unat_of_nat take_bit_nat_eq_self)
  have acc1: "unat acc1 = oc (unat acc + oc (csum False x))" "unat acc1 \<le> 65535"
    using assms(1,3) fold_once [of acc "ucast (LWIP_CHKSUM a x)"] oc_le x by (auto simp: sums_def)
  have eq: "oceq (unat acc1) (csum (odd (length d)) (d @ x))"
  proof -
    have "oceq (unat acc1) (unat acc + oc (csum False x))" unfolding acc1(1) by (rule oceq_oc)
    also have "oceq (unat acc + oc (csum False x)) (csum (odd (length d)) d + csum False x)"
      using assms(1) by (intro oceq_add oceq_oc) (simp add: sums_def)
    finally show ?thesis by (simp add: csum_append)
  qed
  show ?thesis
  proof (cases o1)
    case True
    have "oceq (256 * unat acc1) (csum (\<not> odd (length d)) (d @ x))"
      using oceq_mult [OF eq, of 256] csum_swap oceq_sym oceq_trans by blast
    then have "oceq (oc (256 * unat acc1)) (csum (\<not> odd (length d)) (d @ x))"
      using oceq_trans [OF oceq_oc] by blast
    then show ?thesis using True swap_oc [OF acc1(2)] oc_le by (simp add: sums_def)
  qed (use eq acc1(2) in \<open>simp add: sums_def\<close>)
qed

lemma sums_unswap:
  assumes "sums acc swapped d"
  shows "unat (if swapped then SWAP_BYTES_IN_WORD acc else acc) = oc (csum False d)"
proof (cases swapped)
  case True
  then have "oceq (256 * unat acc) (csum False d)"
    using assms oceq_mult [of _ _ 256] csum_swap [of True d] oceq_sym oceq_trans
    unfolding sums_def by (metis (full_types))
  then show ?thesis using True assms swap_oc oc_cong by (simp add: sums_def)
next
  case False
  then show ?thesis using assms oc_unique by (simp add: sums_def)
qed

lemma chksum_pbuf_loop_chain:
  assumes "chain (nxt s) q qs" "sums acc (odd (length d)) d" "\<forall>x\<in>set qs. len s x < 65536"
  shows "\<exists>acc' sw. chksum_pbuf_loop s q acc (odd (length d)) = Some (acc', sw) \<and> sums acc' sw (d @ data s qs)"
  using assms
proof (induction qs arbitrary: q acc d)
  case Nil
  then show ?case by (simp add: chksum_pbuf_loop.simps)
next
  case (Cons x qs)
  have x: "q = x" "x \<noteq> NULL" "chain (nxt s) (nxt s x) qs" using Cons.prems(1) by auto
  define acc1 where "acc1 = FOLD_U32T (acc + ucast (LWIP_CHKSUM (payload s x) (pdata s x)))"
  define acc2 where "acc2 = (if odd (len s x) then SWAP_BYTES_IN_WORD acc1 else acc1)"
  have par: "odd (length (d @ pdata s x)) = (odd (length d) \<noteq> odd (len s x))" by auto
  have "sums acc2 (odd (length (d @ pdata s x))) (d @ pdata s x)"
    unfolding acc2_def par using Cons.prems(2,3) by (intro sums_step [OF _ _ acc1_def]) auto
  from Cons.IH [OF x(3) this] Cons.prems(3) obtain acc' sw where
    IH: "chksum_pbuf_loop s (nxt s x) acc2 (odd (length (d @ pdata s x))) = Some (acc', sw)"
      "sums acc' sw ((d @ pdata s x) @ data s qs)" by auto
  have "chksum_pbuf_loop s q acc (odd (length d)) = chksum_pbuf_loop s (nxt s x) acc2 (odd (length (d @ pdata s x)))"
    unfolding par using x by (auto simp: chksum_pbuf_loop.simps [of s x] acc1_def acc2_def Let_def odd_iff_mod_2_eq_one)
  then show ?case using IH by auto
qed

lemma sums_0: "sums 0 False []"
  by (simp add: sums_def)

lemma packet_lens: "packet s p ps \<Longrightarrow> \<forall>x\<in>set ps. len s x < 65536"
proof
  fix x assume p: "packet s p ps" and "x \<in> set ps"
  then obtain xs ys where "ps = xs @ x # ys" by (meson split_list)
  then have "len s x \<le> length (data s ps)" by simp
  then show "len s x < 65536" using packet_length [OF p] by simp
qed

lemma chksum_pbuf_loop_packet:
  assumes "packet s p ps"
  obtains acc sw where "chksum_pbuf_loop s p 0 False = Some (acc, sw)" "sums acc sw (data s ps)"
  using chksum_pbuf_loop_chain [OF packet_chain [OF assms], of 0 "[]"] sums_0 packet_lens [OF assms] by auto

text \<open>The complement at the end, for a sum that fits 16 bits.\<close>

lemma ucast_NOT_fold:
  fixes acc :: u32_t
  assumes "unat acc = oc n"
  shows "unat (ucast (NOT (acc AND 0xffff)) :: u16_t) = 65535 - oc n"
proof -
  have "ucast (NOT (acc AND 0xffff)) = (NOT (ucast acc) :: u16_t)"
    by (simp only: byte_masks, rule bit_word_eqI) (auto simp: bit_simps dest: bit_imp_le_length)
  moreover have "unat (ucast acc :: u16_t) = oc n"
    using assms oc_le [of n] by (simp add: unat_ucast_mod)
  ultimately show ?thesis by (simp add: unat_NOT_u16)
qed

lemma inet_chksum_pbuf_packet:
  assumes "packet s p ps"
  shows "inet_chksum_pbuf p s = Some (inet_chksum a (data s ps))"
proof -
  from assms obtain acc sw where l: "chksum_pbuf_loop s p 0 False = Some (acc, sw)" "sums acc sw (data s ps)"
    by (rule chksum_pbuf_loop_packet)
  have "length (data s ps) \<le> 0x20000" using packet_length [OF assms] by simp
  then have "unat (ucast (NOT ((if sw then SWAP_BYTES_IN_WORD acc else acc) AND 0xffff)) :: u16_t)
      = unat (inet_chksum a (data s ps))"
    unfolding ucast_NOT_fold [OF sums_unswap [OF l(2)]] by (simp add: unat_inet_chksum)
  then show ?thesis using l(1) by (simp add: inet_chksum_pbuf_def word_unat_eq_iff Let_def)
qed

section \<open>The pseudo header\<close>

text \<open>The pseudo header of RFC 768 and RFC 793 as it would lie in memory.\<close>

definition pseudo_header :: "u32_t \<Rightarrow> u32_t \<Rightarrow> u8_t \<Rightarrow> u16_t \<Rightarrow> u8_t list" where
  "pseudo_header src dest proto proto_len =
     bytes_of_u32 src @ bytes_of_u32 dest @ [0, proto] @ bytes_of_u16 (lwip_htons proto_len)"

lemma csum_bytes_of_u32: "csum False (bytes_of_u32 x) = unat (x AND 0xffff) + unat (drop_bit 16 x AND 0xffff)"
proof -
  have m: "unat (x AND 0xffff) = unat x mod 65536" "unat (drop_bit 16 x AND 0xffff) = unat x div 65536 mod 65536"
    by (simp_all only: and_mask_numerals unat_and_mask unat_drop_bit) simp_all
  have hi: "unat x div 65536 mod 65536 = unat x div 65536 mod 256 + 256 * (unat x div 16777216 mod 256)"
    using mod_mult2_eq [of "unat x div 65536" 256 256] by (simp add: div_mult2_eq [symmetric])
  have lo: "unat x mod 65536 = unat x mod 256 + 256 * (unat x div 256 mod 256)"
    using mod_mult2_eq [of "unat x" 256 256] by simp
  show ?thesis unfolding m hi lo by (simp add: bytes_of_u32_def unat_ucast_mod unat_drop_bit)
qed

lemma csum_pseudo_header:
  "csum False (pseudo_header src dest proto proto_len @ d) =
     unat (src AND 0xffff) + unat (drop_bit 16 src AND 0xffff) + unat (dest AND 0xffff)
     + unat (drop_bit 16 dest AND 0xffff) + unat (lwip_htons (ucast proto)) + unat (lwip_htons proto_len)
     + csum False d"
proof -
  have "unat proto mod 256 = unat proto" "unat proto div 256 = 0" using unat_u8_less [of proto] by simp_all
  then have "unat (lwip_htons (ucast proto)) = 256 * unat proto" by (simp add: unat_lwip_htons)
  moreover have "length (bytes_of_u32 x) = 4" for x by (simp add: bytes_of_u32_def)
  moreover have "length (bytes_of_u16 x) = 2" for x by (simp add: bytes_of_u16_def)
  ultimately show ?thesis
    by (simp add: pseudo_header_def csum_append csum_bytes_of_u32 csum_bytes_of_u16)
qed

lemma unat_add_u32: "unat a + unat b < 4294967296 \<Longrightarrow> unat (a + b) = unat a + unat b" for a b :: u32_t
  by (simp add: unat_word_ariths(1))

lemma unat_half_le: "unat (x AND 0xffff :: u32_t) \<le> 65535"
  unfolding and_mask_numerals unat_and_mask by simp

lemma chksum_pseudo_finish_correct:
  assumes "sums acc sw d"
  shows "unat (chksum_pseudo_finish acc sw src dest proto proto_len)
    = 65535 - oc (csum False (pseudo_header src dest proto proto_len @ d))"
proof -
  define a0 where "a0 = (if sw then SWAP_BYTES_IN_WORD acc else acc)"
  define v1 v2 v3 v4 where "v1 = src AND 0xffff" and "v2 = drop_bit 16 src AND 0xffff"
    and "v3 = dest AND 0xffff" and "v4 = drop_bit 16 dest AND 0xffff"
  define v5 v6 :: u32_t where "v5 = ucast (lwip_htons (ucast proto))" and "v6 = ucast (lwip_htons proto_len)"
  have a0: "unat a0 = oc (csum False d)" using sums_unswap [OF assms] by (simp add: a0_def)
  have le: "unat a0 \<le> 65535" "unat v1 \<le> 65535" "unat v2 \<le> 65535" "unat v3 \<le> 65535" "unat v4 \<le> 65535"
    "unat v5 \<le> 65535" "unat v6 \<le> 65535"
    using oc_le a0 unat_half_le unat_u16_le by (simp_all add: v1_def v2_def v3_def v4_def v5_def v6_def)
  define t where "t = a0 + v1 + v2 + v3 + v4 + v5 + v6"
  have t: "unat t = unat a0 + unat v1 + unat v2 + unat v3 + unat v4 + unat v5 + unat v6"
    using le by (simp add: t_def unat_add_u32)
  have "oceq (unat t) (csum False (pseudo_header src dest proto proto_len @ d))"
    unfolding t csum_pseudo_header a0
    using oceq_add [OF oceq_oc [of "csum False d"] oceq_refl [of "unat v1 + unat v2 + unat v3 + unat v4 + unat v5 + unat v6"]]
    by (simp add: v1_def v2_def v3_def v4_def v5_def v6_def add.commute add.left_commute add.assoc)
  then have "unat (FOLD_U32T (FOLD_U32T t)) = oc (csum False (pseudo_header src dest proto proto_len @ d))"
    unfolding fold_twice by (rule oc_cong)
  from ucast_NOT_fold [OF this] show ?thesis
    by (simp add: chksum_pseudo_finish_def Let_def t_def a0_def v1_def v2_def v3_def v4_def v5_def v6_def)
qed

lemma pseudo_header_length [simp]: "length (pseudo_header src dest proto proto_len) = 12"
  by (simp add: pseudo_header_def bytes_of_u32_def bytes_of_u16_def)

lemma chksum_pseudo_eq:
  assumes "sums acc sw d" "length d < 65536"
  shows "chksum_pseudo_finish acc sw src dest proto proto_len = inet_chksum a (pseudo_header src dest proto proto_len @ d)"
  using chksum_pseudo_finish_correct [OF assms(1), of src dest proto proto_len] assms(2)
  by (simp add: word_unat_eq_iff unat_inet_chksum)

text \<open>The partial sum. The last pbuf may be cut short; its own length still decides the swap.\<close>

lemma chksum_partial_loop_chain:
  assumes "chain (nxt s) q qs" "sums acc (odd (length d)) d" "\<forall>x\<in>set qs. len s x < 65536" "n < 0x7fff"
  shows "\<exists>acc' sw. chksum_partial_loop s q n acc (odd (length d)) = Some (acc', sw)
    \<and> sums acc' sw (d @ take n (data s qs))"
  using assms
proof (induction qs arbitrary: q acc d n)
  case Nil
  then show ?case by (simp add: chksum_partial_loop.simps)
next
  case (Cons x qs)
  have x: "q = x" "x \<noteq> NULL" "chain (nxt s) (nxt s x) qs" using Cons.prems(1) by auto
  show ?case
  proof (cases "n = 0")
    case True
    then show ?thesis using Cons.prems(2) by (simp add: chksum_partial_loop.simps [of s q])
  next
    case n: False
    define k where "k = (if len s x > n then n else len s x)"
    define y where "y = mem_bytes (bytes s) (payload s x) k"
    define acc1 where "acc1 = FOLD_U32T (acc + ucast (LWIP_CHKSUM (payload s x) y))"
    define acc2 where "acc2 = (if odd (len s x) then SWAP_BYTES_IN_WORD acc1 else acc1)"
    have y: "y = take n (pdata s x)" by (simp add: y_def k_def pdata_def min_def)
    have step: "chksum_partial_loop s q n acc (odd (length d))
        = chksum_partial_loop s (nxt s x) (n - k) acc2 (odd (length d) \<noteq> odd (len s x))"
      using x n Cons.prems(4)
      by (auto simp: chksum_partial_loop.simps [of s x] acc1_def acc2_def y_def k_def Let_def odd_iff_mod_2_eq_one)
    have "length y \<le> 0x20000" using Cons.prems(4) by (simp add: y_def k_def)
    then have s2: "sums acc2 (odd (length d) \<noteq> odd (len s x)) (d @ y)"
      unfolding acc2_def by (intro sums_step [OF Cons.prems(2) _ acc1_def])
    show ?thesis
    proof (cases "len s x \<ge> n")
      case True
      then have "n - k = 0" "take n (data s (x # qs)) = y" by (auto simp: k_def y)
      then show ?thesis using step s2 by (simp add: chksum_partial_loop.simps [of s "nxt s x"])
    next
      case False
      then have yx: "y = pdata s x" "k = len s x" by (simp_all add: y k_def)
      have par: "odd (length (d @ y)) = (odd (length d) \<noteq> odd (len s x))" by (auto simp: yx)
      have "n - k < 0x7fff" using Cons.prems(4) by simp
      with Cons.IH [OF x(3), of acc2 "d @ y" "n - k"] s2 Cons.prems(3) obtain acc' sw where
        "chksum_partial_loop s (nxt s x) (n - k) acc2 (odd (length (d @ y))) = Some (acc', sw)"
        "sums acc' sw ((d @ y) @ take (n - k) (data s qs))"
        unfolding par by auto
      then show ?thesis using step False unfolding par by (simp add: yx)
    qed
  qed
qed

section \<open>Properties\<close>

text \<open>
  C11. The checksum of a packet does not depend on how it is cut into pbufs: \<^verbatim>\<open>inet_chksum_pbuf\<close> returns, and
  returns what \<^verbatim>\<open>inet_chksum\<close> returns on the packet's bytes in one piece.
\<close>

theorem chksum_pbuf_is_chksum:
  assumes "packet s p ps"
  shows "inet_chksum_pbuf p s = Some (inet_chksum a (data s ps))"
  by (rule inet_chksum_pbuf_packet [OF assms])

theorem chksum_pbuf_is_chksum_witness:
  "inet_chksum_pbuf 100 ex0 = Some (inet_chksum 0 [98, 98, 98, 98, 98])"
  using chksum_pbuf_is_chksum [OF ex0_packets(1), of 0] unfolding ex0_data .

text \<open>
  The checksum with pseudo header is that of the pseudo header of the RFCs followed by the packet's
  bytes, and the partial checksum covers the first \<^verbatim>\<open>chksum_len\<close> bytes, wherever that cuts a pbuf
  (up to the 32766 bytes its assertion allows).
\<close>

theorem chksum_pseudo_is_chksum:
  assumes "packet s p ps" "n < 0x7fff"
  shows "inet_chksum_pseudo p src dest proto proto_len s
      = Some (inet_chksum a (pseudo_header src dest proto proto_len @ data s ps))
    \<and> inet_chksum_pseudo_partial p src dest proto proto_len n s
      = Some (inet_chksum a (pseudo_header src dest proto proto_len @ take n (data s ps)))"
proof
  have len: "length (data s ps) < 65536" using packet_length [OF assms(1)] by simp
  from assms(1) obtain acc sw where l: "chksum_pbuf_loop s p 0 False = Some (acc, sw)" "sums acc sw (data s ps)"
    by (rule chksum_pbuf_loop_packet)
  show "inet_chksum_pseudo p src dest proto proto_len s
      = Some (inet_chksum a (pseudo_header src dest proto proto_len @ data s ps))"
    using l(1) chksum_pseudo_eq [OF l(2) len, of src dest proto proto_len a]
    by (simp add: inet_chksum_pseudo_def)
  obtain acc' sw' where l': "chksum_partial_loop s p n 0 False = Some (acc', sw')" "sums acc' sw' (take n (data s ps))"
    using chksum_partial_loop_chain [OF packet_chain [OF assms(1)], of 0 "[]" n] sums_0
      packet_lens [OF assms(1)] assms(2) by auto
  have "length (take n (data s ps)) < 65536" using len by simp
  then show "inet_chksum_pseudo_partial p src dest proto proto_len n s
      = Some (inet_chksum a (pseudo_header src dest proto proto_len @ take n (data s ps)))"
    using l'(1) chksum_pseudo_eq [OF l'(2), of src dest proto proto_len a]
    by (simp add: inet_chksum_pseudo_partial_def)
qed

theorem chksum_pseudo_is_chksum_witness:
  "inet_chksum_pseudo_partial 100 0x0100007f 0x0200007f 17 9 4 ex0
     = Some (inet_chksum 0 (pseudo_header 0x0100007f 0x0200007f 17 9 @ [98, 98, 98, 98]))"
  using chksum_pseudo_is_chksum [OF ex0_packets(1), of 4 "0x0100007f" "0x0200007f" 17 9 0] unfolding ex0_data by simp

text \<open>
  \<^verbatim>\<open>pbuf_fill_chksum\<close> copies the data to its place and keeps a running sum: the new value is the
  ones-complement sum of the old one and of the bytes copied, weighted by their position.
\<close>

theorem pbuf_fill_chksum_sum:
  assumes "p \<noteq> NULL" "dataptr \<noteq> NULL" "0 < n" "off + n \<le> len s p" "n < 65536"
    and "payload_apart s p dataptr n"
  shows "\<exists>c s'. pbuf_fill_chksum p off dataptr n chksum s = Some (ERR_OK, c, s')
    \<and> pdata s' p = take off (pdata s p) @ mem_bytes (bytes s) dataptr n @ drop (off + n) (pdata s p)
    \<and> unat c = oc (unat chksum + csum (odd off) (mem_bytes (bytes s) dataptr n))"
proof -
  define d where "d = mem_bytes (bytes s) dataptr n"
  define s' where "s' = s\<lparr>bytes := MEMCPY (payload s p + off) dataptr n (bytes s)\<rparr>"
  have ap: "apart (payload s p + off) n dataptr n"
    using assms(4,6) by (auto simp: payload_apart_def apart_def)
  then have src: "mem_bytes (bytes s') (payload s p + off) n = d" by (simp add: s'_def d_def)
  define k where "k = LWIP_CHKSUM (payload s p + off) d"
  define k' :: u16_t where "k' = (if off mod 2 \<noteq> 0 then ucast (SWAP_BYTES_IN_WORD (ucast k)) else k)"
  have k: "unat k = oc (csum False d)"
    using chksum2_correct [of d] oc_le [of "csum False d"] assms(5)
    by (simp add: k_def d_def unsigned_of_nat take_bit_nat_eq_self)
  have "unat k' = oc (csum (odd off) d)"
  proof (cases "odd off")
    case True
    have "unat (ucast k :: u32_t) \<le> 65535" using unat_u16_le by simp
    then have "unat (SWAP_BYTES_IN_WORD (ucast k)) = oc (256 * unat k)" by (simp add: swap_oc)
    moreover have "oceq (256 * unat k) (csum True d)"
      using oceq_mult [OF oceq_oc [of "csum False d"], of 256] csum_swap [of False d] oceq_sym oceq_trans
      unfolding k by (metis (full_types))
    ultimately have "unat (SWAP_BYTES_IN_WORD (ucast k)) = oc (csum True d)" using oc_cong by simp
    then show ?thesis
      using True oc_le [of "csum True d"] by (simp add: k'_def odd_iff_mod_2_eq_one unat_ucast_mod)
  qed (simp add: k'_def k odd_iff_mod_2_eq_one)
  then have "unat (FOLD_U32T (ucast chksum + ucast k')) = oc (unat chksum + csum (odd off) d)"
    using fold_once [of "ucast chksum" "ucast k'"] unat_u16_le oc_le [of "csum (odd off) d"] oc_cong [OF oceq_add [OF oceq_refl oceq_oc]] by simp
  then have c: "unat (ucast (FOLD_U32T (ucast chksum + ucast k')) :: u16_t) = oc (unat chksum + csum (odd off) d)"
    using oc_le [of "unat chksum + csum (odd off) d"] by (simp add: unat_ucast_mod)
  have "pbuf_fill_chksum p off dataptr n chksum s = Some (ERR_OK, ucast (FOLD_U32T (ucast chksum + ucast k')), s')"
    using assms(1-4) src unfolding pbuf_fill_chksum_def lwip_chksum_copy_def
    by (simp add: Let_def k_def k'_def s'_def)
  moreover have "pdata s' p = take off (pdata s p) @ d @ drop (off + n) (pdata s p)"
  proof -
    have "mem_bytes (bytes s') (payload s p) off = mem_bytes (bytes s) (payload s p) off"
      "mem_bytes (bytes s') (payload s p + off + n) (len s p - off - n) = mem_bytes (bytes s) (payload s p + off + n) (len s p - off - n)"
      unfolding s'_def by (simp, intro mem_bytes_MEMCPY_apart, simp add: apart_def)+
    moreover have "len s p = off + (n + (len s p - off - n))" using assms(4) by simp
    then have "pdata s' p = mem_bytes (bytes s') (payload s p) off @ mem_bytes (bytes s') (payload s p + off) n
      @ mem_bytes (bytes s') (payload s p + off + n) (len s p - off - n)"
      unfolding pdata_def by (simp add: mem_bytes_append [symmetric]) (simp add: s'_def)
    ultimately show ?thesis using src assms(4) by (simp add: pdata_def min_def add.assoc)
  qed
  ultimately show ?thesis using c unfolding d_def by auto
qed

theorem pbuf_fill_chksum_sum_witness:
  "\<exists>c s'. pbuf_fill_chksum 300 1 4000 2 0 ex0 = Some (ERR_OK, c, s') \<and> pdata s' 300 = [97, 97, 97, 98]
    \<and> unat c = oc (csum True [97, 97])"
proof -
  have "payload_apart ex0 300 4000 2" "1 + 2 \<le> len ex0 300"
    by (simp_all add: ex0_def pb0_def payload_apart_def apart_def)
  moreover have "mem_bytes (bytes ex0) 4000 2 = [97, 97]" "pdata ex0 300 = [97, 97, 97, 98]"
    by (simp_all add: mem_bytes_def pdata_def ex0_def pb0_def upt_rec)
  ultimately show ?thesis using pbuf_fill_chksum_sum [of 300 4000 2 1 ex0 0] by simp
qed

end
