(* ===== verification/Ip_Data.thy ===== *)
theory Ip_Data
  imports Etharp Inet_Chksum_Pbuf
begin

unbundle bit_operations_syntax

text \<open>
  The data of the IPv4 layer and the accessors of \<^verbatim>\<open>include/ipv4/lwip/ip.h\<close>. The state \<open>ip_state\<close> adds to the state of the
  link layer (table of addresses, interfaces, pbufs) the variables of \<^verbatim>\<open>ip.c\<close>, \<^verbatim>\<open>ip_frag.c\<close> and \<^verbatim>\<open>icmp.c\<close>.

  Functions that the source calls through \<^verbatim>\<open>netif->output\<close> are the parameter \<open>out\<close> of the definitions; with Ethernet it is
  \<open>etharp_output\<close>. As in \<open>Etharp\<close>, \<open>cf\<close> is the free function of custom pbufs and \<open>None\<close> a failed assertion
  or a loop that does not end.
\<close>

section \<open>State\<close>

text \<open>
  One datagram being reassembled, and the struct that takes the place of the IP header in each queued fragment. The header
  bytes under it are not read while the fragment is queued, so the helpers are kept apart, by the address of the
  payload they are written to.
\<close>

record ip_reassdata =
  rd_next :: addr
  rd_p :: addr
  rd_iphdr :: "u8_t list"
  rd_datagram_len :: nat
  rd_flags :: u8_t
  rd_timer :: nat

record ip_reass_helper =
  rh_next_pbuf :: addr
  rh_start :: nat
  rh_end :: nat

text \<open>\<open>pcr_original\<close> is the field \<^verbatim>\<open>original\<close> of each \<^verbatim>\<open>struct pbuf_custom_ref\<close>.\<close>

record ip_state =
  lower :: arp_state
  ip_id :: nat
  current_netif :: addr
  current_header :: addr
  current_iphdr_src :: u32_t
  current_iphdr_dest :: u32_t
  reassdatagrams :: addr
  reassdata :: "addr \<Rightarrow> ip_reassdata"
  helpers :: "addr \<Rightarrow> ip_reass_helper"
  ip_reass_pbufcount :: nat
  pcr_original :: "addr \<Rightarrow> addr"
  ipfrag_stats :: stats_proto
  icmp_stats :: stats_proto

type_synonym output_fn = "addr \<Rightarrow> addr \<Rightarrow> u32_t \<Rightarrow> arp_state \<Rightarrow> (err_t \<times> arp_state) option"

abbreviation ibufs :: "ip_state \<Rightarrow> pbuf_state" where "ibufs s \<equiv> bufs (lower s)"
abbreviation ibytes :: "ip_state \<Rightarrow> addr \<Rightarrow> u8_t" where "ibytes s \<equiv> bytes (bufs (lower s))"

abbreviation (input) MEMP_REASSDATA :: memp_t where "MEMP_REASSDATA \<equiv> 5"
abbreviation (input) MEMP_FRAG_PBUF :: memp_t where "MEMP_FRAG_PBUF \<equiv> 6"
abbreviation (input) IP_HLEN :: nat where "IP_HLEN \<equiv> 20"
abbreviation (input) IP_MF :: u16_t where "IP_MF \<equiv> 0x2000"
abbreviation (input) IP_OFFMASK :: u16_t where "IP_OFFMASK \<equiv> 0x1fff"
abbreviation (input) IP_PROTO_ICMP :: u8_t where "IP_PROTO_ICMP \<equiv> 1"
abbreviation (input) IP_PROTO_TCP :: u8_t where "IP_PROTO_TCP \<equiv> 6"
abbreviation (input) IP_PROTO_UDP :: u8_t where "IP_PROTO_UDP \<equiv> 17"

section \<open>The layers below\<close>

definition set_bufs :: "pbuf_state \<Rightarrow> ip_state \<Rightarrow> ip_state" where
  "set_bufs b s = s\<lparr>lower := (lower s)\<lparr>bufs := b\<rparr>\<rparr>"

text \<open>A call of the pbuf layer with a result, of the link layer, and \<^verbatim>\<open>pbuf_free\<close>.\<close>

definition on_bufs :: "(pbuf_state \<Rightarrow> ('a \<times> pbuf_state) option) \<Rightarrow> ip_state \<Rightarrow> ('a \<times> ip_state) option" where
  "on_bufs f s = map_option (\<lambda>(r, b). (r, set_bufs b s)) (f (ibufs s))"

definition on_lower :: "(arp_state \<Rightarrow> ('a \<times> arp_state) option) \<Rightarrow> ip_state \<Rightarrow> ('a \<times> ip_state) option" where
  "on_lower f s = map_option (\<lambda>(r, a). (r, s\<lparr>lower := a\<rparr>)) (f (lower s))"

definition ip_free :: "custom_free \<Rightarrow> addr \<Rightarrow> ip_state \<Rightarrow> ip_state option" where
  "ip_free cf p s = map_option snd (on_bufs (pbuf_free cf p) s)"

text \<open>Assignment to bytes of memory, and the counters.\<close>

definition store :: "addr \<Rightarrow> u8_t list \<Rightarrow> ip_state \<Rightarrow> ip_state" where
  "store a xs s = s\<lparr>lower := poke a xs (lower s)\<rparr>"

definition ip_stats_inc :: "((nat \<Rightarrow> nat) \<Rightarrow> stats_proto \<Rightarrow> stats_proto) \<Rightarrow> ip_state \<Rightarrow> ip_state" where
  "ip_stats_inc f s = s\<lparr>lower := IP_STATS_INC f (lower s)\<rparr>"

definition IPFRAG_STATS_INC :: "((nat \<Rightarrow> nat) \<Rightarrow> stats_proto \<Rightarrow> stats_proto) \<Rightarrow> ip_state \<Rightarrow> ip_state" where
  "IPFRAG_STATS_INC f s = s\<lparr>ipfrag_stats := f (\<lambda>n. to_u16 (n + 1)) (ipfrag_stats s)\<rparr>"

definition ICMP_STATS_INC :: "((nat \<Rightarrow> nat) \<Rightarrow> stats_proto \<Rightarrow> stats_proto) \<Rightarrow> ip_state \<Rightarrow> ip_state" where
  "ICMP_STATS_INC f s = s\<lparr>icmp_stats := f (\<lambda>n. to_u16 (n + 1)) (icmp_stats s)\<rparr>"

section \<open>Header fields\<close>

text \<open>The macros \<^verbatim>\<open>IPH_...\<close> on the bytes at \<open>h\<close>; 16-bit fields are read as the host reads them.\<close>

definition IPH_V :: "(addr \<Rightarrow> u8_t) \<Rightarrow> addr \<Rightarrow> u8_t" where "IPH_V b h = drop_bit 4 (b h)"
definition IPH_HL :: "(addr \<Rightarrow> u8_t) \<Rightarrow> addr \<Rightarrow> nat" where "IPH_HL b h = unat (b h AND 0x0f)"
definition IPH_LEN :: "(addr \<Rightarrow> u8_t) \<Rightarrow> addr \<Rightarrow> u16_t" where "IPH_LEN b h = get_u16 b (h + 2)"
definition IPH_ID :: "(addr \<Rightarrow> u8_t) \<Rightarrow> addr \<Rightarrow> u16_t" where "IPH_ID b h = get_u16 b (h + 4)"
definition IPH_OFFSET :: "(addr \<Rightarrow> u8_t) \<Rightarrow> addr \<Rightarrow> u16_t" where "IPH_OFFSET b h = get_u16 b (h + 6)"
definition IPH_PROTO :: "(addr \<Rightarrow> u8_t) \<Rightarrow> addr \<Rightarrow> u8_t" where "IPH_PROTO b h = b (h + 9)"
definition iph_src :: "(addr \<Rightarrow> u8_t) \<Rightarrow> addr \<Rightarrow> u32_t" where "iph_src b h = get_u32 b (h + 12)"
definition iph_dest :: "(addr \<Rightarrow> u8_t) \<Rightarrow> addr \<Rightarrow> u32_t" where "iph_dest b h = get_u32 b (h + 16)"

text \<open>\<^verbatim>\<open>inet_chksum(ptr, n)\<close> on memory.\<close>

definition mem_chksum :: "(addr \<Rightarrow> u8_t) \<Rightarrow> addr \<Rightarrow> nat \<Rightarrow> u16_t" where
  "mem_chksum b a n = inet_chksum a (mem_bytes b a n)"

definition LWIP_MAKE_U16 :: "u8_t \<Rightarrow> u8_t \<Rightarrow> u32_t" where
  "LWIP_MAKE_U16 a b = push_bit 8 (ucast a) OR ucast b"

end
