(* ===== verification/Ip_Output.thy ===== *)
theory Ip_Output
  imports Ip_Data
begin

unbundle bit_operations_syntax

text \<open>
  Outgoing IP packets: \<^verbatim>\<open>ip_frag\<close> of \<^verbatim>\<open>core/ipv4/ip_frag.c\<close> and \<^verbatim>\<open>ip_output_if\<close>, \<^verbatim>\<open>ip_output\<close> of \<^verbatim>\<open>core/ipv4/ip.c\<close>. In this build
  fragments are chains of a pbuf for the headers and of custom pbufs that refer to the original packet, the header
  checksum is summed up while the header is written, and there are no options and no loopback interface.
\<close>

section \<open>Fragmentation\<close>

definition ipfrag_free_pbuf_custom :: "custom_free \<Rightarrow> (addr \<Rightarrow> addr) \<Rightarrow> addr \<Rightarrow> pbuf_state \<Rightarrow> pbuf_state option" where
  "ipfrag_free_pbuf_custom cf original p b =
     (if p = NULL then None
      else do {
        b \<leftarrow> (if original p \<noteq> NULL then map_option snd (pbuf_free cf (original p) b) else Some b);
        m \<leftarrow> memp_free MEMP_FRAG_PBUF p (pools b);
        Some (b\<lparr>pools := m\<rparr>)
      })"

text \<open>Freeing the chain of a fragment: its custom pbufs are those of \<^verbatim>\<open>ip_frag\<close>.\<close>

definition free_fragment :: "custom_free \<Rightarrow> addr \<Rightarrow> ip_state \<Rightarrow> ip_state option" where
  "free_fragment cf p s = ip_free (ipfrag_free_pbuf_custom cf (pcr_original s)) p s"

text \<open>
  The loop that mirrors \<^verbatim>\<open>left_to_copy\<close> bytes of the packet from \<open>p\<close> on. The result \<open>Inl\<close> is an early return; otherwise the pbuf
  the last piece is in and the length of that piece.
\<close>

partial_function (option) frag_copy_loop ::
  "custom_free \<Rightarrow> addr \<Rightarrow> addr \<Rightarrow> nat \<Rightarrow> nat \<Rightarrow> ip_state \<Rightarrow> ((err_t + addr \<times> nat) \<times> ip_state) option" where
  "frag_copy_loop cf rambuf p left_to_copy newpbuflen s =
     (if left_to_copy = 0 then Some (Inr (p, newpbuflen), s)
      else if p = NULL then None
      else
        let newpbuflen = (if left_to_copy < len (ibufs s) p then left_to_copy else len (ibufs s) p)
        in if newpbuflen = 0 then frag_copy_loop cf rambuf (nxt (ibufs s) p) left_to_copy newpbuflen s
           else do {
             (pcr, m) \<leftarrow> memp_malloc MEMP_FRAG_PBUF (pools (ibufs s));
             let s = set_bufs ((ibufs s)\<lparr>pools := m\<rparr>) s;
             if pcr = NULL then map_option (Pair (Inl ERR_MEM)) (free_fragment cf rambuf s)
             else
               let (newpbuf, b) = pbuf_alloced_custom PBUF_RAW newpbuflen PBUF_REF pcr (payload (ibufs s) p) newpbuflen (ibufs s)
               in if newpbuf = NULL
                  then do {
                    m \<leftarrow> memp_free MEMP_FRAG_PBUF pcr (pools (ibufs s));
                    map_option (Pair (Inl ERR_MEM)) (free_fragment cf rambuf (set_bufs ((ibufs s)\<lparr>pools := m\<rparr>) s))
                  }
                  else do {
                    let s = set_bufs (pbuf_ref p b) s;
                    let s = s\<lparr>pcr_original := (pcr_original s)(pcr := p)\<rparr>;
                    b \<leftarrow> pbuf_cat rambuf newpbuf (ibufs s);
                    let s = set_bufs b s;
                    let left_to_copy = left_to_copy - newpbuflen;
                    frag_copy_loop cf rambuf (if left_to_copy \<noteq> 0 then nxt (ibufs s) p else p) left_to_copy newpbuflen s
                  }
           })"

text \<open>The header of a fragment: a copy of the original with its own offset, length and checksum.\<close>

definition frag_header :: "addr \<Rightarrow> u16_t \<Rightarrow> nat \<Rightarrow> ip_state \<Rightarrow> ip_state" where
  "frag_header iphdr tmp cop s =
     (let s = store (iphdr + 6) (bytes_of_u16 (lwip_htons tmp)) s;
          s = store (iphdr + 2) (bytes_of_u16 (lwip_htons (of_nat (cop + IP_HLEN)))) s;
          s = store (iphdr + 10) (bytes_of_u16 0) s
      in store (iphdr + 10) (bytes_of_u16 (mem_chksum (ibytes s) iphdr IP_HLEN)) s)"

text \<open>
  One turn of the loop: send the next fragment, of \<open>cop\<close> bytes with the offset field \<open>tmp\<close>. \<open>p\<close> is advanced by \<open>poff\<close> first.
\<close>

definition send_fragment ::
  "custom_free \<Rightarrow> output_fn \<Rightarrow> addr \<Rightarrow> u32_t \<Rightarrow> addr \<Rightarrow> addr \<Rightarrow> nat \<Rightarrow> u16_t \<Rightarrow> nat \<Rightarrow> ip_state \<Rightarrow>
   ((err_t + addr \<times> nat) \<times> ip_state) option" where
  "send_fragment cf out netif dest original_iphdr p poff tmp cop s = do {
     (rambuf, s) \<leftarrow> on_bufs (pbuf_alloc cf PBUF_LINK IP_HLEN PBUF_RAM) s;
     if rambuf = NULL then Some (Inl ERR_MEM, s)
     else if \<not> len (ibufs s) p \<ge> IP_HLEN then None
     else do {
       let iphdr = payload (ibufs s) rambuf;
       let s = store iphdr (mem_bytes (ibytes s) original_iphdr IP_HLEN) s;
       let s = set_bufs (upd p (\<lambda>x. x\<lparr>pb_payload := pb_payload x + poff, pb_len := to_u16 (pb_len x + 65536 - poff)\<rparr>) (ibufs s)) s;
       (r, s) \<leftarrow> frag_copy_loop cf rambuf p cop 0 s;
       (case r of
          Inl e \<Rightarrow> Some (Inl e, s)
        | Inr (p, newpbuflen) \<Rightarrow> do {
            let s = frag_header iphdr tmp cop s;
            (_, s) \<leftarrow> on_lower (out netif rambuf dest) s;
            let s = IPFRAG_STATS_INC sp_xmit_update s;
            s \<leftarrow> free_fragment cf rambuf s;
            Some (Inr (p, newpbuflen), s)
          })
     }
   }"

partial_function (option) ip_frag_loop ::
  "custom_free \<Rightarrow> output_fn \<Rightarrow> addr \<Rightarrow> u32_t \<Rightarrow> addr \<Rightarrow> nat \<Rightarrow> nat \<Rightarrow> u16_t \<Rightarrow> addr \<Rightarrow> nat \<Rightarrow> nat \<Rightarrow> nat \<Rightarrow> ip_state \<Rightarrow>
   (err_t \<times> ip_state) option" where
  "ip_frag_loop cf out netif dest original_iphdr mtu nfb omf p poff left ofo s =
     (if left = 0 then Some (ERR_OK, s)
      else
        let last = (int left \<le> int mtu - 20);
            tmp = omf OR (IP_OFFMASK AND of_nat ofo);
            tmp = (if last then tmp else tmp OR IP_MF);
            cop = (if last then left else to_u16 (nfb * 8))
        in do {
          (r, s) \<leftarrow> send_fragment cf out netif dest original_iphdr p poff tmp cop s;
          (case r of
             Inl e \<Rightarrow> Some (e, s)
           | Inr (p, poff) \<Rightarrow>
               ip_frag_loop cf out netif dest original_iphdr mtu nfb omf p poff (to_u16 (left + 65536 - cop)) (to_u16 (ofo + nfb)) s)
        })"

text \<open>\<^verbatim>\<open>(mtu - IP_HLEN) / 8\<close> is a division of a signed number that is then cut to 16 bits.\<close>

definition ip_frag :: "custom_free \<Rightarrow> output_fn \<Rightarrow> addr \<Rightarrow> addr \<Rightarrow> u32_t \<Rightarrow> ip_state \<Rightarrow> (err_t \<times> ip_state) option" where
  "ip_frag cf out p netif dest s =
     (let mtu = nif_mtu (netifs (lower s) netif);
          iphdr = payload (ibufs s) p;
          tmp = lwip_ntohs (IPH_OFFSET (ibytes s) iphdr);
          nfb = (if mtu \<ge> IP_HLEN then (mtu - IP_HLEN) div 8 else to_u16 (65536 - (IP_HLEN - mtu) div 8))
      in ip_frag_loop cf out netif dest iphdr mtu nfb (tmp AND IP_MF) p IP_HLEN (to_u16 (tot_len (ibufs s) p + 65536 - IP_HLEN))
           (unat (tmp AND IP_OFFMASK)) s)"

section \<open>Sending\<close>

text \<open>
  The header written into the 20 bytes before the data, and the running sum: \<^verbatim>\<open>chk_sum\<close> has 32 bits and is folded at the end.
\<close>

definition fold_chk_sum :: "u32_t \<Rightarrow> u16_t" where
  "fold_chk_sum c =
     (let c = drop_bit 16 c + (c AND 0xFFFF);
          c = drop_bit 16 c + c
      in ucast (NOT c))"

definition ip_write_header ::
  "addr \<Rightarrow> u32_t option \<Rightarrow> u32_t \<Rightarrow> u8_t \<Rightarrow> u8_t \<Rightarrow> u8_t \<Rightarrow> addr \<Rightarrow> ip_state \<Rightarrow> ip_state" where
  "ip_write_header p src dest ttl tos proto netif s =
     (let iphdr = payload (ibufs s) p;
          s = store (iphdr + 8) [ttl] s;
          s = store (iphdr + 9) [proto] s;
          chk_sum = LWIP_MAKE_U16 proto ttl;
          s = store (iphdr + 16) (bytes_of_u32 dest) s;
          chk_sum = chk_sum + (dest AND 0xFFFF);
          chk_sum = chk_sum + drop_bit 16 dest;
          s = store iphdr [0x45] s;
          s = store (iphdr + 1) [tos] s;
          chk_sum = chk_sum + LWIP_MAKE_U16 tos 0x45;
          n = lwip_htons (of_nat (tot_len (ibufs s) p));
          s = store (iphdr + 2) (bytes_of_u16 n) s;
          chk_sum = chk_sum + ucast n;
          s = store (iphdr + 6) (bytes_of_u16 0) s;
          ident = lwip_htons (of_nat (ip_id s));
          s = store (iphdr + 4) (bytes_of_u16 ident) s;
          chk_sum = chk_sum + ucast ident;
          s = s\<lparr>ip_id := to_u16 (ip_id s + 1)\<rparr>;
          from = (case src of None \<Rightarrow> nif_ip_addr (netifs (lower s) netif)
                  | Some a \<Rightarrow> if a = IPADDR_ANY then nif_ip_addr (netifs (lower s) netif) else a);
          s = store (iphdr + 12) (bytes_of_u32 from) s;
          chk_sum = chk_sum + (from AND 0xFFFF);
          chk_sum = chk_sum + drop_bit 16 from
      in store (iphdr + 10) (bytes_of_u16 (fold_chk_sum chk_sum)) s)"

text \<open>\<open>dest = None\<close> is \<^verbatim>\<open>IP_HDRINCL\<close>: the packet has its header already. \<open>src = None\<close> is a null pointer.\<close>

definition ip_output_if ::
  "custom_free \<Rightarrow> output_fn \<Rightarrow> addr \<Rightarrow> u32_t option \<Rightarrow> u32_t option \<Rightarrow> u8_t \<Rightarrow> u8_t \<Rightarrow> u8_t \<Rightarrow> addr \<Rightarrow> ip_state \<Rightarrow>
   (err_t \<times> ip_state) option" where
  "ip_output_if cf out p src dest ttl tos proto netif s =
     (if \<not> ref (ibufs s) p = 1 then None
      else
        let send = (\<lambda>dest s.
              let s = ip_stats_inc sp_xmit_update s; mtu = nif_mtu (netifs (lower s) netif)
              in if mtu \<noteq> 0 \<and> tot_len (ibufs s) p > mtu then ip_frag cf out p netif dest s
                 else on_lower (out netif p dest) s)
        in case dest of
             None \<Rightarrow> send (iph_dest (ibytes s) (payload (ibufs s) p)) s
           | Some dest \<Rightarrow> do {
               (r, s) \<leftarrow> on_bufs (pbuf_header p (int IP_HLEN)) s;
               if r \<noteq> 0 then Some (ERR_BUF, ip_stats_inc sp_err_update s)
               else if \<not> len (ibufs s) p \<ge> IP_HLEN then None
               else send dest (ip_write_header p src dest ttl tos proto netif s)
             })"

definition ip_output ::
  "custom_free \<Rightarrow> output_fn \<Rightarrow> addr \<Rightarrow> u32_t option \<Rightarrow> u32_t \<Rightarrow> u8_t \<Rightarrow> u8_t \<Rightarrow> u8_t \<Rightarrow> ip_state \<Rightarrow> (err_t \<times> ip_state) option" where
  "ip_output cf out p src dest ttl tos proto s =
     (if \<not> ref (ibufs s) p = 1 then None
      else do {
        (netif, s) \<leftarrow> on_lower (ip_route dest) s;
        if netif = NULL then Some (ERR_RTE, ip_stats_inc sp_rterr_update s)
        else ip_output_if cf out p src (Some dest) ttl tos proto netif s
      })"

end
