(* ===== verification/Icmp.thy ===== *)
theory Icmp
  imports Ip_Output
begin

unbundle bit_operations_syntax

text \<open>
  ICMP: \<^verbatim>\<open>core/ipv4/icmp.c\<close>. Echo requests are turned into replies in place, or in a copy when the pbuf has no room for the link
  header; errors are reported with the header and eight bytes of the packet concerned. The options are those of the
  build: no answer to broadcast or multicast, the input pbuf is checked for room.
\<close>

abbreviation (input) ICMP_ER :: u8_t where "ICMP_ER \<equiv> 0"
abbreviation (input) ICMP_DUR :: u8_t where "ICMP_DUR \<equiv> 3"
abbreviation (input) ICMP_ECHO :: u8_t where "ICMP_ECHO \<equiv> 8"
abbreviation (input) ICMP_TE :: u8_t where "ICMP_TE \<equiv> 11"
abbreviation (input) ICMP_DUR_PROTO :: u8_t where "ICMP_DUR_PROTO \<equiv> 2"
abbreviation (input) ICMP_TE_FRAG :: u8_t where "ICMP_TE_FRAG \<equiv> 1"
abbreviation (input) ICMP_TTL :: u8_t where "ICMP_TTL \<equiv> 255"
abbreviation (input) SIZEOF_ICMP_ECHO_HDR :: nat where "SIZEOF_ICMP_ECHO_HDR \<equiv> 8"
abbreviation (input) ICMP_DEST_UNREACH_DATASIZE :: nat where "ICMP_DEST_UNREACH_DATASIZE \<equiv> 8"
abbreviation (input) PBUF_IP_LINK_HLEN :: nat where "PBUF_IP_LINK_HLEN \<equiv> 34"

section \<open>Errors\<close>

definition icmp_send_response :: "custom_free \<Rightarrow> output_fn \<Rightarrow> addr \<Rightarrow> u8_t \<Rightarrow> u8_t \<Rightarrow> ip_state \<Rightarrow> ip_state option" where
  "icmp_send_response cf out p type code s = do {
     (q, s) \<leftarrow> on_bufs (pbuf_alloc cf PBUF_IP (SIZEOF_ICMP_ECHO_HDR + IP_HLEN + ICMP_DEST_UNREACH_DATASIZE) PBUF_RAM) s;
     if q = NULL then Some s
     else if \<not> len (ibufs s) q \<ge> SIZEOF_ICMP_ECHO_HDR + IP_HLEN + ICMP_DEST_UNREACH_DATASIZE then None
     else do {
       let iphdr = payload (ibufs s) p;
       let icmphdr = payload (ibufs s) q;
       let s = store icmphdr [type] s;
       let s = store (icmphdr + 1) [code] s;
       let s = store (icmphdr + 4) (bytes_of_u16 0) s;
       let s = store (icmphdr + 6) (bytes_of_u16 0) s;
       let s = store (icmphdr + SIZEOF_ICMP_ECHO_HDR) (mem_bytes (ibytes s) iphdr (IP_HLEN + ICMP_DEST_UNREACH_DATASIZE)) s;
       let s = store (icmphdr + 2) (bytes_of_u16 0) s;
       let s = store (icmphdr + 2) (bytes_of_u16 (mem_chksum (ibytes s) icmphdr (len (ibufs s) q))) s;
       let s = ICMP_STATS_INC sp_xmit_update s;
       (_, s) \<leftarrow> ip_output cf out q None (iph_src (ibytes s) iphdr) ICMP_TTL 0 IP_PROTO_ICMP s;
       ip_free cf q s
     }
   }"

definition icmp_dest_unreach :: "custom_free \<Rightarrow> output_fn \<Rightarrow> addr \<Rightarrow> u8_t \<Rightarrow> ip_state \<Rightarrow> ip_state option" where
  "icmp_dest_unreach cf out p t s = icmp_send_response cf out p ICMP_DUR t s"

definition icmp_time_exceeded :: "custom_free \<Rightarrow> output_fn \<Rightarrow> addr \<Rightarrow> u8_t \<Rightarrow> ip_state \<Rightarrow> ip_state option" where
  "icmp_time_exceeded cf out p t s = icmp_send_response cf out p ICMP_TE t s"

section \<open>Echo\<close>

text \<open>The change of the checksum that goes with the change of the type from 8 to 0.\<close>

definition adjust_chksum :: "u16_t \<Rightarrow> u16_t" where
  "adjust_chksum c =
     (if c \<ge> lwip_htons (0xffff - push_bit 8 8) then c + (lwip_htons (push_bit 8 8) + 1) else c + lwip_htons (push_bit 8 8))"

text \<open>
  From the checked request in \<open>p\<close>, payload at the ICMP header, with the IP header at \<open>iphdr\<close>, to the end: the packet is turned into
  a reply and sent.
\<close>

definition icmp_echo_reply ::
  "custom_free \<Rightarrow> output_fn \<Rightarrow> addr \<Rightarrow> addr \<Rightarrow> nat \<Rightarrow> addr \<Rightarrow> ip_state \<Rightarrow> ip_state option" where
  "icmp_echo_reply cf out p iphdr hlen inp s =
     (let iecho = payload (ibufs s) p;
          s = store (iphdr + 12) (bytes_of_u32 (current_iphdr_dest s)) s;
          s = store (iphdr + 16) (bytes_of_u32 (current_iphdr_src s)) s;
          s = store iecho [ICMP_ER] s;
          s = store (iecho + 2) (bytes_of_u16 (adjust_chksum (get_u16 (ibytes s) (iecho + 2)))) s;
          s = store (iphdr + 8) [ICMP_TTL] s;
          s = store (iphdr + 10) (bytes_of_u16 0) s;
          s = store (iphdr + 10) (bytes_of_u16 (mem_chksum (ibytes s) iphdr IP_HLEN)) s;
          s = ICMP_STATS_INC sp_xmit_update s
      in do {
        (r, s) \<leftarrow> on_bufs (pbuf_header p (int hlen)) s;
        if r \<noteq> 0 then None
        else do {
          (_, s) \<leftarrow> ip_output_if cf out p (Some (current_iphdr_dest s)) None ICMP_TTL 0 IP_PROTO_ICMP inp s;
          ip_free cf p s
        }
      })"

text \<open>
  Room for the link header: keep the pbuf, or copy the packet. The result is the pbuf and the address of the IP header; \<open>Inl\<close> is the
  label \<^verbatim>\<open>memerr\<close>.
\<close>

definition echo_room ::
  "custom_free \<Rightarrow> addr \<Rightarrow> addr \<Rightarrow> nat \<Rightarrow> ip_state \<Rightarrow> ((addr + addr \<times> addr) \<times> ip_state) option" where
  "echo_room cf p iphdr hlen s = do {
     (r, s) \<leftarrow> on_bufs (pbuf_header p (int PBUF_IP_LINK_HLEN)) s;
     if r \<noteq> 0
     then do {
       (r, s) \<leftarrow> on_bufs (pbuf_header p (int hlen)) s;
       if r \<noteq> 0 then None
       else do {
         (q, s) \<leftarrow> on_bufs (pbuf_alloc cf PBUF_LINK (tot_len (ibufs s) p) PBUF_RAM) s;
         if q = NULL then Some (Inl p, s)
         else if \<not> len (ibufs s) q \<ge> hlen + SIZEOF_ICMP_ECHO_HDR then None
         else do {
           (e, s) \<leftarrow> on_bufs (pbuf_copy q p) s;
           if e \<noteq> ERR_OK then None
           else do {
             let iphdr = payload (ibufs s) q;
             (r, s) \<leftarrow> on_bufs (pbuf_header q (- int hlen)) s;
             if r \<noteq> 0 then None
             else map_option (Pair (Inr (q, iphdr))) (ip_free cf p s)
           }
         }
       }
     }
     else do {
       (r, s) \<leftarrow> on_bufs (pbuf_header p (- int PBUF_IP_LINK_HLEN)) s;
       if r \<noteq> 0 then None else Some (Inr (p, iphdr), s)
     }
   }"

definition icmp_echo ::
  "custom_free \<Rightarrow> output_fn \<Rightarrow> addr \<Rightarrow> addr \<Rightarrow> nat \<Rightarrow> addr \<Rightarrow> ip_state \<Rightarrow> ip_state option" where
  "icmp_echo cf out p iphdr hlen inp s =
     (if ip_addr_ismulticast (current_iphdr_dest s)
         \<or> ip4_addr_isbroadcast (current_iphdr_dest s) (netifs (lower s) inp)
      then ip_free cf p (ICMP_STATS_INC sp_err_update s)
      else if tot_len (ibufs s) p < SIZEOF_ICMP_ECHO_HDR
      then map_option (ICMP_STATS_INC sp_lenerr_update) (ip_free cf p s)
      else do {
        c \<leftarrow> inet_chksum_pbuf p (ibufs s);
        if c \<noteq> 0 then map_option (ICMP_STATS_INC sp_chkerr_update) (ip_free cf p s)
        else do {
          (r, s) \<leftarrow> echo_room cf p iphdr hlen s;
          (case r of
             Inl p \<Rightarrow> map_option (ICMP_STATS_INC sp_err_update) (ip_free cf p s)
           | Inr (p, iphdr) \<Rightarrow> icmp_echo_reply cf out p iphdr hlen inp s)
        }
      })"

definition icmp_input :: "custom_free \<Rightarrow> output_fn \<Rightarrow> addr \<Rightarrow> addr \<Rightarrow> ip_state \<Rightarrow> ip_state option" where
  "icmp_input cf out p inp s = do {
     let s = ICMP_STATS_INC sp_recv_update s;
     let iphdr = payload (ibufs s) p;
     let hlen = IPH_HL (ibytes s) iphdr * 4;
     (r, s) \<leftarrow> on_bufs (pbuf_header p (- int hlen)) s;
     if r \<noteq> 0 \<or> tot_len (ibufs s) p < 4 then map_option (ICMP_STATS_INC sp_lenerr_update) (ip_free cf p s)
     else
       let type = ibytes s (payload (ibufs s) p)
       in if type = ICMP_ER then ip_free cf p s
          else if type = ICMP_ECHO then icmp_echo cf out p iphdr hlen inp s
          else ip_free cf p (ICMP_STATS_INC sp_drop_update (ICMP_STATS_INC sp_proterr_update s))
   }"

end
