(* ===== verification/Ip_Reass.thy ===== *)
theory Ip_Reass
  imports Icmp
begin

unbundle bit_operations_syntax

text \<open>
  Reassembly of fragments: the first half of \<^verbatim>\<open>core/ipv4/ip_frag.c\<close>. Datagrams are a linked list of pool elements; the fragments
  of one datagram are linked by the helper structs that replace their IP headers, sorted by offset. The build checks for
  overlaps and drops the oldest datagram when the buffers run out.
\<close>

abbreviation (input) IP_REASS_FLAG_LASTFRAG :: u8_t where "IP_REASS_FLAG_LASTFRAG \<equiv> 1"
abbreviation (input) IP_REASS_MAXAGE :: nat where "IP_REASS_MAXAGE \<equiv> 3"
abbreviation (input) IP_REASS_MAX_PBUFS :: nat where "IP_REASS_MAX_PBUFS \<equiv> 10"

definition set_rd :: "addr \<Rightarrow> (ip_reassdata \<Rightarrow> ip_reassdata) \<Rightarrow> ip_state \<Rightarrow> ip_state" where
  "set_rd r f s = s\<lparr>reassdata := (reassdata s)(r := f (reassdata s r))\<rparr>"

definition set_helper :: "addr \<Rightarrow> (ip_reass_helper \<Rightarrow> ip_reass_helper) \<Rightarrow> ip_state \<Rightarrow> ip_state" where
  "set_helper h f s = s\<lparr>helpers := (helpers s)(h := f (helpers s h))\<rparr>"

text \<open>The helper of a queued fragment.\<close>

abbreviation helper_of :: "ip_state \<Rightarrow> addr \<Rightarrow> ip_reass_helper" where
  "helper_of s q \<equiv> helpers s (payload (ibufs s) q)"

definition IP_ADDRESSES_AND_ID_MATCH :: "u8_t list \<Rightarrow> (addr \<Rightarrow> u8_t) \<Rightarrow> addr \<Rightarrow> bool" where
  "IP_ADDRESSES_AND_ID_MATCH hdr b h \<longleftrightarrow>
     iph_src (nth hdr) 0 = iph_src b h \<and> iph_dest (nth hdr) 0 = iph_dest b h \<and> IPH_ID (nth hdr) 0 = IPH_ID b h"

definition frag_offset :: "(addr \<Rightarrow> u8_t) \<Rightarrow> addr \<Rightarrow> nat" where
  "frag_offset b h = to_u16 (unat (lwip_ntohs (IPH_OFFSET b h) AND IP_OFFMASK) * 8)"

definition frag_len :: "(addr \<Rightarrow> u8_t) \<Rightarrow> addr \<Rightarrow> nat" where
  "frag_len b h = to_u16 (unat (lwip_ntohs (IPH_LEN b h)) + 65536 - IPH_HL b h * 4)"

section \<open>Dropping datagrams\<close>

definition ip_reass_dequeue_datagram :: "addr \<Rightarrow> addr \<Rightarrow> ip_state \<Rightarrow> ip_state option" where
  "ip_reass_dequeue_datagram ipr prev s = do {
     s \<leftarrow> (if reassdatagrams s = ipr then Some (s\<lparr>reassdatagrams := rd_next (reassdata s ipr)\<rparr>)
          else if prev = NULL then None
          else Some (set_rd prev (\<lambda>r. r\<lparr>rd_next := rd_next (reassdata s ipr)\<rparr>) s));
     m \<leftarrow> memp_free MEMP_REASSDATA ipr (pools (ibufs s));
     Some (set_bufs ((ibufs s)\<lparr>pools := m\<rparr>) s)
   }"

text \<open>Free one queued fragment and add its pbufs to the count.\<close>

definition free_queued :: "custom_free \<Rightarrow> addr \<Rightarrow> nat \<Rightarrow> ip_state \<Rightarrow> (nat \<times> ip_state) option" where
  "free_queued cf p pbufs_freed s = do {
     clen \<leftarrow> pbuf_clen p (ibufs s);
     if \<not> pbufs_freed + clen \<le> 0xffff then None
     else map_option (Pair (pbufs_freed + clen)) (ip_free cf p s)
   }"

partial_function (option) free_fragments :: "custom_free \<Rightarrow> addr \<Rightarrow> nat \<Rightarrow> ip_state \<Rightarrow> (nat \<times> ip_state) option" where
  "free_fragments cf p pbufs_freed s =
     (if p = NULL then Some (pbufs_freed, s)
      else
        let next_pbuf = rh_next_pbuf (helper_of s p)
        in free_queued cf p pbufs_freed s \<bind> (\<lambda>(pbufs_freed, s). free_fragments cf next_pbuf pbufs_freed s))"

definition ip_reass_free_complete_datagram ::
  "custom_free \<Rightarrow> output_fn \<Rightarrow> addr \<Rightarrow> addr \<Rightarrow> ip_state \<Rightarrow> (nat \<times> ip_state) option" where
  "ip_reass_free_complete_datagram cf out ipr prev s =
     (if prev = ipr \<or> prev \<noteq> NULL \<and> rd_next (reassdata s prev) \<noteq> ipr then None
      else if rd_p (reassdata s ipr) = NULL then None
      else
        let p = rd_p (reassdata s ipr)
        in do {
          (pbufs_freed, s) \<leftarrow>
            (if rh_start (helper_of s p) = 0
             then do {
               let s = set_rd ipr (\<lambda>r. r\<lparr>rd_p := rh_next_pbuf (helper_of s p)\<rparr>) s;
               let s = store (payload (ibufs s) p) (rd_iphdr (reassdata s ipr)) s;
               s \<leftarrow> icmp_time_exceeded cf out p ICMP_TE_FRAG s;
               free_queued cf p 0 s
             }
             else Some (0, s));
          (pbufs_freed, s) \<leftarrow> free_fragments cf (rd_p (reassdata s ipr)) pbufs_freed s;
          s \<leftarrow> ip_reass_dequeue_datagram ipr prev s;
          if \<not> ip_reass_pbufcount s \<ge> pbufs_freed then None
          else Some (pbufs_freed, s\<lparr>ip_reass_pbufcount := ip_reass_pbufcount s - pbufs_freed\<rparr>)
        })"

partial_function (option) ip_reass_tmr_loop :: "custom_free \<Rightarrow> output_fn \<Rightarrow> addr \<Rightarrow> addr \<Rightarrow> ip_state \<Rightarrow> ip_state option" where
  "ip_reass_tmr_loop cf out r prev s =
     (if r = NULL then Some s
      else if rd_timer (reassdata s r) > 0
      then
        let s = set_rd r (\<lambda>x. x\<lparr>rd_timer := rd_timer x - 1\<rparr>) s
        in ip_reass_tmr_loop cf out (rd_next (reassdata s r)) r s
      else
        let next_r = rd_next (reassdata s r)
        in ip_reass_free_complete_datagram cf out r prev s \<bind> (\<lambda>(_, s). ip_reass_tmr_loop cf out next_r prev s))"

definition ip_reass_tmr :: "custom_free \<Rightarrow> output_fn \<Rightarrow> ip_state \<Rightarrow> ip_state option" where
  "ip_reass_tmr cf out s = ip_reass_tmr_loop cf out (reassdatagrams s) NULL s"

text \<open>
  \<^verbatim>\<open>ip_reass_remove_oldest_datagram\<close>: one pass over the list with its variables \<^verbatim>\<open>oldest\<close>, \<^verbatim>\<open>prev\<close> and \<^verbatim>\<open>other_datagrams\<close>, and the
  loop around it. \<open>fraghdr\<close> is the address of the header of the new fragment.
\<close>

partial_function (option) oldest_pass ::
  "addr \<Rightarrow> ip_state \<Rightarrow> addr \<Rightarrow> addr \<Rightarrow> addr \<Rightarrow> nat \<Rightarrow> (addr \<times> addr \<times> nat) option" where
  "oldest_pass fraghdr s r oldest prev other =
     (if r = NULL then Some (oldest, prev, other)
      else
        let d = reassdata s r;
            mine = IP_ADDRESSES_AND_ID_MATCH (rd_iphdr d) (ibytes s) fraghdr;
            other = (if mine then other else other + 1);
            oldest = (if mine then oldest
                      else if oldest = NULL \<or> rd_timer d \<le> rd_timer (reassdata s oldest) then r else oldest);
            prev = (if rd_next d \<noteq> NULL then r else prev)
        in oldest_pass fraghdr s (rd_next d) oldest prev other)"

partial_function (option) remove_oldest_loop ::
  "custom_free \<Rightarrow> output_fn \<Rightarrow> addr \<Rightarrow> nat \<Rightarrow> nat \<Rightarrow> ip_state \<Rightarrow> (nat \<times> ip_state) option" where
  "remove_oldest_loop cf out fraghdr pbufs_needed pbufs_freed s = do {
     (oldest, prev, other) \<leftarrow> oldest_pass fraghdr s (reassdatagrams s) NULL NULL 0;
     (freed, s) \<leftarrow> (if oldest \<noteq> NULL then ip_reass_free_complete_datagram cf out oldest prev s else Some (0, s));
     let pbufs_freed = pbufs_freed + freed;
     if pbufs_freed < pbufs_needed \<and> other > 1 then remove_oldest_loop cf out fraghdr pbufs_needed pbufs_freed s
     else Some (pbufs_freed, s)
   }"

definition ip_reass_remove_oldest_datagram ::
  "custom_free \<Rightarrow> output_fn \<Rightarrow> addr \<Rightarrow> nat \<Rightarrow> ip_state \<Rightarrow> (nat \<times> ip_state) option" where
  "ip_reass_remove_oldest_datagram cf out fraghdr pbufs_needed s = remove_oldest_loop cf out fraghdr pbufs_needed 0 s"

section \<open>Queueing fragments\<close>

definition alloc_reassdata :: "ip_state \<Rightarrow> (addr \<times> ip_state) option" where
  "alloc_reassdata s =
     map_option (\<lambda>(ipr, m). (ipr, set_bufs ((ibufs s)\<lparr>pools := m\<rparr>) s)) (memp_malloc MEMP_REASSDATA (pools (ibufs s)))"

definition ip_reass_enqueue_new_datagram ::
  "custom_free \<Rightarrow> output_fn \<Rightarrow> addr \<Rightarrow> nat \<Rightarrow> ip_state \<Rightarrow> (addr \<times> ip_state) option" where
  "ip_reass_enqueue_new_datagram cf out fraghdr clen s = do {
     (ipr, s) \<leftarrow> alloc_reassdata s;
     (ipr, s) \<leftarrow>
       (if ipr = NULL
        then do {
          (n, s) \<leftarrow> ip_reass_remove_oldest_datagram cf out fraghdr clen s;
          if n \<ge> clen then alloc_reassdata s else Some (NULL, s)
        }
        else Some (ipr, s));
     if ipr = NULL then Some (NULL, IPFRAG_STATS_INC sp_memerr_update s)
     else
       let s = set_rd ipr (\<lambda>_. \<lparr>rd_next = reassdatagrams s, rd_p = NULL, rd_iphdr = mem_bytes (ibytes s) fraghdr IP_HLEN,
                 rd_datagram_len = 0, rd_flags = 0, rd_timer = IP_REASS_MAXAGE\<rparr>) s
       in Some (ipr, s\<lparr>reassdatagrams := ipr\<rparr>)
   }"

text \<open>
  The loop that finds the place of a new fragment. \<open>prev\<close> is the helper of the fragment before \<open>q\<close>. The result \<open>None\<close> is the label
  \<^verbatim>\<open>freepbuf\<close>; otherwise \<open>q\<close>, \<open>prev\<close> and \<open>valid\<close> behind the loop.
\<close>

partial_function (option) chain_frag_loop ::
  "addr \<Rightarrow> addr \<Rightarrow> addr \<Rightarrow> addr \<Rightarrow> bool \<Rightarrow> ip_state \<Rightarrow> ((addr \<times> addr \<times> bool) option \<times> ip_state) option" where
  "chain_frag_loop ipr new_p q prev valid s =
     (if q = NULL then Some (Some (q, prev, valid), s)
      else
        let iprh = payload (ibufs s) new_p; tmp = payload (ibufs s) q; new = helpers s iprh; this = helpers s tmp
        in if rh_start new < rh_start this
           then
             let s = set_helper iprh (\<lambda>h. h\<lparr>rh_next_pbuf := q\<rparr>) s
             in if prev \<noteq> NULL
                then if rh_start new < rh_end (helpers s prev) \<or> rh_end new > rh_start this then Some (None, s)
                     else Some (Some (q, prev, valid), set_helper prev (\<lambda>h. h\<lparr>rh_next_pbuf := new_p\<rparr>) s)
                else Some (Some (q, prev, valid), set_rd ipr (\<lambda>r. r\<lparr>rd_p := new_p\<rparr>) s)
           else if rh_start new = rh_start this \<or> rh_start new < rh_end this then Some (None, s)
           else
             chain_frag_loop ipr new_p (rh_next_pbuf this) tmp
               (valid \<and> \<not> (prev \<noteq> NULL \<and> rh_end (helpers s prev) \<noteq> rh_start this)) s)"

text \<open>The rest of the list is checked for holes: whether there are none, and the last helper looked at.\<close>

partial_function (option) no_holes_loop :: "ip_state \<Rightarrow> addr \<Rightarrow> addr \<Rightarrow> (bool \<times> addr) option" where
  "no_holes_loop s prev q =
     (if q = NULL then Some (True, prev)
      else
        let iprh = payload (ibufs s) q
        in if rh_end (helpers s prev) \<noteq> rh_start (helpers s iprh) then Some (False, iprh)
           else no_holes_loop s iprh (rh_next_pbuf (helpers s iprh)))"

definition validate_datagram :: "addr \<Rightarrow> addr \<Rightarrow> bool \<Rightarrow> ip_state \<Rightarrow> bool option" where
  "validate_datagram ipr iprh valid s =
     (let d = reassdata s ipr
      in if rd_flags d AND IP_REASS_FLAG_LASTFRAG \<noteq> 0
         then
           if \<not> valid \<or> rh_start (helper_of s (rd_p d)) \<noteq> 0 then Some False
           else do {
             (valid, iprh) \<leftarrow> no_holes_loop s iprh (rh_next_pbuf (helpers s iprh));
             if valid \<and> (rd_p d = NULL \<or> payload (ibufs s) (rd_p d) = iprh \<or> rh_next_pbuf (helpers s iprh) \<noteq> NULL
                  \<or> rh_end (helpers s iprh) \<noteq> rd_datagram_len d)
             then None
             else Some valid
           }
         else Some False)"

definition ip_reass_chain_frag_into_datagram_and_validate ::
  "custom_free \<Rightarrow> addr \<Rightarrow> addr \<Rightarrow> ip_state \<Rightarrow> (bool \<times> ip_state) option" where
  "ip_reass_chain_frag_into_datagram_and_validate cf ipr new_p s = do {
     let iprh = payload (ibufs s) new_p;
     let offset = frag_offset (ibytes s) iprh;
     let s = set_helper iprh (\<lambda>_. \<lparr>rh_next_pbuf = NULL, rh_start = offset,
               rh_end = to_u16 (offset + frag_len (ibytes s) iprh)\<rparr>) s;
     (place, s) \<leftarrow> chain_frag_loop ipr new_p (rd_p (reassdata s ipr)) NULL True s;
     (case place of
        None \<Rightarrow> do {
          clen \<leftarrow> pbuf_clen new_p (ibufs s);
          let s = s\<lparr>ip_reass_pbufcount := to_u16 (ip_reass_pbufcount s + 65536 - clen)\<rparr>;
          map_option (Pair False) (ip_free cf new_p s)
        }
      | Some (q, prev, valid) \<Rightarrow> do {
          (valid, s) \<leftarrow>
            (if q \<noteq> NULL then Some (valid, s)
             else if prev \<noteq> NULL
             then if \<not> rh_end (helpers s prev) \<le> rh_start (helpers s iprh) then None
                  else Some (valid \<and> rh_end (helpers s prev) = rh_start (helpers s iprh),
                             set_helper prev (\<lambda>h. h\<lparr>rh_next_pbuf := new_p\<rparr>) s)
             else if rd_p (reassdata s ipr) \<noteq> NULL then None
             else Some (valid, set_rd ipr (\<lambda>r. r\<lparr>rd_p := new_p\<rparr>) s));
          valid \<leftarrow> validate_datagram ipr iprh valid s;
          Some (valid, s)
        })
   }"

section \<open>A fragment arrives\<close>

text \<open>Look for the datagram of a fragment: the element found, or \<^verbatim>\<open>NULL\<close>, and the one before it.\<close>

partial_function (option) find_datagram :: "addr \<Rightarrow> ip_state \<Rightarrow> addr \<Rightarrow> addr \<Rightarrow> (addr \<times> addr) option" where
  "find_datagram fraghdr s ipr prev =
     (if ipr = NULL then Some (NULL, prev)
      else if IP_ADDRESSES_AND_ID_MATCH (rd_iphdr (reassdata s ipr)) (ibytes s) fraghdr then Some (ipr, prev)
      else find_datagram fraghdr s (rd_next (reassdata s ipr)) ipr)"

text \<open>The pbufs of a complete datagram are chained behind the first.\<close>

partial_function (option) chain_fragments :: "addr \<Rightarrow> addr \<Rightarrow> ip_state \<Rightarrow> ip_state option" where
  "chain_fragments p r s =
     (if r = NULL then Some s
      else
        let iprh = payload (ibufs s) r
        in do {
          (_, s) \<leftarrow> on_bufs (pbuf_header r (- int IP_HLEN)) s;
          b \<leftarrow> pbuf_cat p r (ibufs s);
          chain_fragments p (rh_next_pbuf (helpers s iprh)) (set_bufs b s)
        })"

definition reass_complete :: "addr \<Rightarrow> addr \<Rightarrow> ip_state \<Rightarrow> (addr \<times> ip_state) option" where
  "reass_complete ipr ipr_prev s = do {
     let s = set_rd ipr (\<lambda>r. r\<lparr>rd_datagram_len := to_u16 (rd_datagram_len r + IP_HLEN)\<rparr>) s;
     let d = reassdata s ipr;
     let p = rd_p d;
     let r = rh_next_pbuf (helper_of s p);
     let fraghdr = payload (ibufs s) p;
     let s = store fraghdr (rd_iphdr d) s;
     let s = store (fraghdr + 2) (bytes_of_u16 (lwip_htons (of_nat (rd_datagram_len d)))) s;
     let s = store (fraghdr + 6) (bytes_of_u16 0) s;
     let s = store (fraghdr + 10) (bytes_of_u16 0) s;
     let s = store (fraghdr + 10) (bytes_of_u16 (mem_chksum (ibytes s) fraghdr IP_HLEN)) s;
     s \<leftarrow> chain_fragments p r s;
     s \<leftarrow> ip_reass_dequeue_datagram ipr ipr_prev s;
     clen \<leftarrow> pbuf_clen p (ibufs s);
     Some (p, s\<lparr>ip_reass_pbufcount := to_u16 (ip_reass_pbufcount s + 65536 - clen)\<rparr>)
   }"

text \<open>The label \<^verbatim>\<open>nullreturn\<close>, and the part of \<^verbatim>\<open>ip_reass\<close> behind the search for the datagram.\<close>

definition reass_null :: "custom_free \<Rightarrow> addr \<Rightarrow> ip_state \<Rightarrow> (addr \<times> ip_state) option" where
  "reass_null cf p s = map_option (Pair NULL) (ip_free cf p (IPFRAG_STATS_INC sp_drop_update s))"

definition reass_add ::
  "custom_free \<Rightarrow> addr \<Rightarrow> addr \<Rightarrow> addr \<Rightarrow> nat \<Rightarrow> ip_state \<Rightarrow> (addr \<times> ip_state) option" where
  "reass_add cf ipr ipr_prev p clen s = do {
     let fraghdr = payload (ibufs s) p;
     let s = s\<lparr>ip_reass_pbufcount := to_u16 (ip_reass_pbufcount s + clen)\<rparr>;
     let s = (if IPH_OFFSET (ibytes s) fraghdr AND lwip_ntohs IP_MF = 0
              then set_rd ipr (\<lambda>r. r\<lparr>rd_flags := rd_flags r OR IP_REASS_FLAG_LASTFRAG,
                     rd_datagram_len := to_u16 (frag_offset (ibytes s) fraghdr + frag_len (ibytes s) fraghdr)\<rparr>) s
              else s);
     (valid, s) \<leftarrow> ip_reass_chain_frag_into_datagram_and_validate cf ipr p s;
     if valid then reass_complete ipr ipr_prev s else Some (NULL, s)
   }"

definition ip_reass :: "custom_free \<Rightarrow> output_fn \<Rightarrow> addr \<Rightarrow> ip_state \<Rightarrow> (addr \<times> ip_state) option" where
  "ip_reass cf out p s = do {
     let s = IPFRAG_STATS_INC sp_recv_update s;
     let fraghdr = payload (ibufs s) p;
     if IPH_HL (ibytes s) fraghdr * 4 \<noteq> IP_HLEN then reass_null cf p (IPFRAG_STATS_INC sp_err_update s)
     else do {
       clen \<leftarrow> pbuf_clen p (ibufs s);
       (full, s) \<leftarrow>
         (if ip_reass_pbufcount s + clen > IP_REASS_MAX_PBUFS
          then do {
            (n, s) \<leftarrow> ip_reass_remove_oldest_datagram cf out fraghdr clen s;
            Some (n = 0 \<or> ip_reass_pbufcount s + clen > IP_REASS_MAX_PBUFS, s)
          }
          else Some (False, s));
       if full then reass_null cf p (IPFRAG_STATS_INC sp_memerr_update s)
       else do {
         (ipr, ipr_prev) \<leftarrow> find_datagram fraghdr s (reassdatagrams s) NULL;
         if ipr = NULL
         then do {
           (ipr, s) \<leftarrow> ip_reass_enqueue_new_datagram cf out fraghdr clen s;
           if ipr = NULL then reass_null cf p s else reass_add cf ipr ipr_prev p clen s
         }
         else do {
           let s = IPFRAG_STATS_INC sp_cachehit_update s;
           let s = (if lwip_ntohs (IPH_OFFSET (ibytes s) fraghdr) AND IP_OFFMASK = 0
                       \<and> lwip_ntohs (IPH_OFFSET (nth (rd_iphdr (reassdata s ipr))) 0) AND IP_OFFMASK \<noteq> 0
                    then set_rd ipr (\<lambda>r. r\<lparr>rd_iphdr := mem_bytes (ibytes s) fraghdr IP_HLEN\<rparr>) s
                    else s);
           reass_add cf ipr ipr_prev p clen s
         }
       }
     }
   }"

end
