(* ===== verification/Ip_Input.thy ===== *)
theory Ip_Input
  imports Ip_Reass
begin

unbundle bit_operations_syntax

text \<open>
  Incoming IP packets: \<^verbatim>\<open>ip_input\<close> of \<^verbatim>\<open>core/ipv4/ip.c\<close>, with reassembly and without forwarding, options allowed, as the build has
  it. The protocols above IP other than ICMP are the parameter \<open>up\<close>: raw sockets report whether they took the packet.
  In this build \<^verbatim>\<open>cwrap/lwip_stubs.c\<close> takes their place; \<open>stubs\<close> models it.
\<close>

record upper =
  raw_input :: "addr \<Rightarrow> addr \<Rightarrow> ip_state \<Rightarrow> (nat \<times> ip_state) option"
  udp_input :: "addr \<Rightarrow> addr \<Rightarrow> ip_state \<Rightarrow> ip_state option"
  tcp_input :: "addr \<Rightarrow> addr \<Rightarrow> ip_state \<Rightarrow> ip_state option"

definition stubs :: upper where
  "stubs = \<lparr>raw_input = (\<lambda>p inp s. Some (0, s)), udp_input = (\<lambda>p inp s. Some s), tcp_input = (\<lambda>p inp s. Some s)\<rparr>"

text \<open>The interface a packet is for: the one it came in on first, then the others in the order of the list.\<close>

definition accepts :: "struct_netif \<Rightarrow> u32_t \<Rightarrow> bool" where
  "accepts n dest \<longleftrightarrow> netif_is_up n \<and> nif_ip_addr n \<noteq> IPADDR_ANY \<and> (dest = nif_ip_addr n \<or> ip4_addr_isbroadcast dest n)"

partial_function (option) input_netif_loop :: "u32_t \<Rightarrow> addr \<Rightarrow> addr \<Rightarrow> bool \<Rightarrow> arp_state \<Rightarrow> addr option" where
  "input_netif_loop dest inp netif first s =
     (if accepts (netifs s netif) dest then Some netif
      else
        let netif = (if first then netif_list s else nif_next (netifs s netif));
            netif = (if netif = inp then nif_next (netifs s netif) else netif)
        in if netif = NULL then Some NULL else input_netif_loop dest inp netif False s)"

text \<open>A packet that is dropped: free it, then count it.\<close>

definition ip_drop ::
  "custom_free \<Rightarrow> addr \<Rightarrow> ((nat \<Rightarrow> nat) \<Rightarrow> stats_proto \<Rightarrow> stats_proto) \<Rightarrow> ip_state \<Rightarrow> ip_state option" where
  "ip_drop cf p f s = map_option (\<lambda>s. ip_stats_inc sp_drop_update (ip_stats_inc f s)) (ip_free cf p s)"

text \<open>The \<^verbatim>\<open>switch\<close> on the protocol.\<close>

definition ip_deliver :: "custom_free \<Rightarrow> output_fn \<Rightarrow> upper \<Rightarrow> addr \<Rightarrow> addr \<Rightarrow> addr \<Rightarrow> ip_state \<Rightarrow> ip_state option" where
  "ip_deliver cf out up p iphdr inp s = do {
     (taken, s) \<leftarrow> raw_input up p inp s;
     if taken \<noteq> 0 then Some s
     else if IPH_PROTO (ibytes s) iphdr = IP_PROTO_UDP then udp_input up p inp s
     else if IPH_PROTO (ibytes s) iphdr = IP_PROTO_TCP then tcp_input up p inp s
     else if IPH_PROTO (ibytes s) iphdr = IP_PROTO_ICMP then icmp_input cf out p inp s
     else do {
       s \<leftarrow> (if \<not> ip4_addr_isbroadcast (current_iphdr_dest s) (netifs (lower s) inp)
                \<and> \<not> ip_addr_ismulticast (current_iphdr_dest s)
             then icmp_dest_unreach cf out p ICMP_DUR_PROTO
                    (set_bufs (upd p (\<lambda>x. x\<lparr>pb_payload := iphdr\<rparr>) (ibufs s)) s)
             else Some s);
       ip_drop cf p sp_proterr_update s
     }
   }"

text \<open>From the accepted packet on: reassembly, delivery, and the reset of the current packet.\<close>

definition ip_accept :: "custom_free \<Rightarrow> output_fn \<Rightarrow> upper \<Rightarrow> addr \<Rightarrow> addr \<Rightarrow> ip_state \<Rightarrow> ip_state option" where
  "ip_accept cf out up p inp s = do {
     (p, s) \<leftarrow> (if IPH_OFFSET (ibytes s) (payload (ibufs s) p) AND lwip_htons (IP_OFFMASK OR IP_MF) \<noteq> 0
                then ip_reass cf out p s else Some (p, s));
     if p = NULL then Some s
     else do {
       let iphdr = payload (ibufs s) p;
       s \<leftarrow> ip_deliver cf out up p iphdr inp (s\<lparr>current_netif := inp, current_header := iphdr\<rparr>);
       Some (s\<lparr>current_netif := NULL, current_header := NULL, current_iphdr_src := IPADDR_ANY, current_iphdr_dest := IPADDR_ANY\<rparr>)
     }
   }"

definition ip_input :: "custom_free \<Rightarrow> output_fn \<Rightarrow> upper \<Rightarrow> addr \<Rightarrow> addr \<Rightarrow> ip_state \<Rightarrow> (err_t \<times> ip_state) option" where
  "ip_input cf out up p inp s = map_option (Pair ERR_OK)
     (let s = ip_stats_inc sp_recv_update s;
          iphdr = payload (ibufs s) p;
          b = ibytes s
      in if IPH_V b iphdr \<noteq> 4 then ip_drop cf p sp_err_update s
         else
           let iphdr_hlen = IPH_HL b iphdr * 4;
               iphdr_len = unat (lwip_ntohs (IPH_LEN b iphdr))
           in if iphdr_hlen > len (ibufs s) p \<or> iphdr_len > tot_len (ibufs s) p then ip_drop cf p sp_lenerr_update s
              else if mem_chksum b iphdr iphdr_hlen \<noteq> 0 then ip_drop cf p sp_chkerr_update s
              else do {
                bufs' \<leftarrow> pbuf_realloc cf p iphdr_len (ibufs s);
                let s = set_bufs bufs' s;
                let s = s\<lparr>current_iphdr_dest := iph_dest (ibytes s) iphdr, current_iphdr_src := iph_src (ibytes s) iphdr\<rparr>;
                netif \<leftarrow> input_netif_loop (current_iphdr_dest s) inp inp True (lower s);
                if ip4_addr_isbroadcast (current_iphdr_src s) (netifs (lower s) inp) \<or> ip_addr_ismulticast (current_iphdr_src s)
                then map_option (ip_stats_inc sp_drop_update) (ip_free cf p s)
                else if netif = NULL then ip_free cf p s
                else ip_accept cf out up p inp s
              })"

end
