(* ===== verification/Ethernet.thy ===== *)
theory Ethernet
  imports Ip_Input
begin

unbundle bit_operations_syntax

text \<open>
  Received Ethernet frames: \<^verbatim>\<open>ethernet_input\<close> of \<^verbatim>\<open>netif/etharp.c\<close>, without VLAN tags and PPPoE, as the build has it. It hands packets to ARP and
  to IP, whose \<^verbatim>\<open>netif->output\<close> is \<^verbatim>\<open>etharp_output\<close>.
\<close>

abbreviation (input) PBUF_FLAG_LLBCAST :: u8_t where "PBUF_FLAG_LLBCAST \<equiv> 0x08"
abbreviation (input) PBUF_FLAG_LLMCAST :: u8_t where "PBUF_FLAG_LLMCAST \<equiv> 0x10"

definition eth_stats_inc :: "((nat \<Rightarrow> nat) \<Rightarrow> stats_proto \<Rightarrow> stats_proto) \<Rightarrow> ip_state \<Rightarrow> ip_state" where
  "eth_stats_inc f s = s\<lparr>lower := ETHARP_STATS_INC f (lower s)\<rparr>"

text \<open>The flag for frames to a multicast address or to everyone.\<close>

definition mark_frame :: "addr \<Rightarrow> u8_t list \<Rightarrow> ip_state \<Rightarrow> ip_state" where
  "mark_frame p dest s =
     (let mark = (\<lambda>f. set_bufs (upd p (\<lambda>x. x\<lparr>pb_flags := pb_flags x OR f\<rparr>) (ibufs s)) s)
      in if dest ! 0 AND 1 \<noteq> 0
         then if dest ! 0 = 0x01
              then if dest ! 1 = 0x00 \<and> dest ! 2 = 0x5e then mark PBUF_FLAG_LLMCAST else s
              else if dest = ethbroadcast then mark PBUF_FLAG_LLBCAST else s
         else s)"

definition ethernet_input ::
  "custom_free \<Rightarrow> linkoutput_fn \<Rightarrow> upper \<Rightarrow> addr \<Rightarrow> addr \<Rightarrow> ip_state \<Rightarrow> (err_t \<times> ip_state) option" where
  "ethernet_input cf lo up p netif s = map_option (Pair ERR_OK)
     (if len (ibufs s) p \<le> SIZEOF_ETH_HDR
      then ip_free cf p (eth_stats_inc sp_drop_update (eth_stats_inc sp_proterr_update s))
      else
        let ethhdr = payload (ibufs s) p;
            type = get_u16 (ibytes s) (ethhdr + 12);
            s = mark_frame p (mem_bytes (ibytes s) ethhdr 6) s
        in if type = lwip_htons ETHTYPE_IP
           then if nif_flags (netifs (lower s) netif) AND NETIF_FLAG_ETHARP = 0 then ip_free cf p s
                else do {
                  (r, s) \<leftarrow> on_bufs (pbuf_header p (- int SIZEOF_ETH_HDR)) s;
                  if r \<noteq> 0 then None
                  else map_option snd (ip_input cf (etharp_output cf lo) up p netif s)
                }
           else if type = lwip_htons ETHTYPE_ARP
           then if nif_flags (netifs (lower s) netif) AND NETIF_FLAG_ETHARP = 0 then ip_free cf p s
                else map_option (\<lambda>a. s\<lparr>lower := a\<rparr>)
                       (etharp_arp_input cf lo netif (nif_hwaddr (netifs (lower s) netif)) p (lower s))
           else ip_free cf p (eth_stats_inc sp_drop_update (eth_stats_inc sp_proterr_update s)))"

end
