(* ===== verification/Etharp_Table.thy ===== *)
theory Etharp_Table
  imports Etharp
begin

text \<open>
  The ARP table of \<^verbatim>\<open>netif/etharp.c\<close>: what the search and the timer do to it, the invariant that every operation
  keeps, and the references its packet queues own.
\<close>

section \<open>Invariant\<close>

text \<open>Packets wait on pending entries only, and no entry outlives its age.\<close>

definition entry_ok :: "etharp_entry \<Rightarrow> bool" where
  "entry_ok e \<longleftrightarrow> (ae_q e \<noteq> NULL \<longrightarrow> ae_state e = ETHARP_STATE_PENDING)
     \<and> (case ae_state e of
          ETHARP_STATE_EMPTY \<Rightarrow> True
        | ETHARP_STATE_PENDING \<Rightarrow> ae_ctime e < ARP_MAXPENDING
        | ETHARP_STATE_STABLE \<Rightarrow> ae_ctime e < ARP_MAXAGE
        | ETHARP_STATE_STABLE_REREQUESTING \<Rightarrow> ARP_AGE_REREQUEST_USED \<le> ae_ctime e \<and> ae_ctime e < ARP_MAXAGE
        | ETHARP_STATE_STATIC \<Rightarrow> ae_ctime e = 0)"

text \<open>No address has two entries.\<close>

definition table_inv :: "etharp_entry list \<Rightarrow> bool" where
  "table_inv t \<longleftrightarrow> length t = ARP_TABLE_SIZE \<and> (\<forall>e\<in>set t. entry_ok e)
     \<and> (\<forall>i < ARP_TABLE_SIZE. \<forall>j < ARP_TABLE_SIZE. i \<noteq> j \<longrightarrow> ae_state (t ! i) \<noteq> ETHARP_STATE_EMPTY
          \<longrightarrow> ae_state (t ! j) \<noteq> ETHARP_STATE_EMPTY \<longrightarrow> ae_ipaddr (t ! i) \<noteq> ae_ipaddr (t ! j))"

definition arp_inv :: "arp_state \<Rightarrow> bool" where
  "arp_inv s \<longleftrightarrow> table_inv (arp_table s) \<and> etharp_cached_entry s < ARP_TABLE_SIZE"

text \<open>The references to pbufs that the table owns, and all references: the table's and \<open>R\<close>.\<close>

definition queues :: "etharp_entry list \<Rightarrow> addr multiset" where
  "queues t = filter_mset (\<lambda>q. q \<noteq> NULL) (mset (map ae_q t))"

definition arp_refs :: "(memp_t \<Rightarrow> nat) \<Rightarrow> addr \<Rightarrow> arp_state \<Rightarrow> addr multiset \<Rightarrow> bool" where
  "arp_refs sizes a s R \<longleftrightarrow> refs_ok sizes a (bufs s) (queues (arp_table s) + R)"

lemma table_invD:
  assumes "table_inv t"
  shows "length t = 10" "i < 10 \<Longrightarrow> entry_ok (t ! i)"
  using assms by (auto simp: table_inv_def)

lemma table_inv_unique:
  assumes "table_inv t" "i < 10" "j < 10" "ae_state (t ! i) \<noteq> ETHARP_STATE_EMPTY" "ae_state (t ! j) \<noteq> ETHARP_STATE_EMPTY"
    "ae_ipaddr (t ! i) = ae_ipaddr (t ! j)"
  shows "i = j"
  using assms unfolding table_inv_def by blast

text \<open>Replacing one entry keeps the invariant when its address stays or is new.\<close>

lemma table_inv_update:
  assumes "table_inv t" "i < 10" "entry_ok e"
    and "ae_state e \<noteq> ETHARP_STATE_EMPTY \<Longrightarrow>
      \<forall>j<10. j \<noteq> i \<longrightarrow> ae_state (t ! j) \<noteq> ETHARP_STATE_EMPTY \<longrightarrow> ae_ipaddr (t ! j) \<noteq> ae_ipaddr e"
  shows "table_inv (t[i := e])"
  using assms unfolding table_inv_def
  by (auto simp: nth_list_update dest!: subsetD [OF set_update_subset_insert])

lemma table_inv_update_same:
  assumes "table_inv t" "i < 10" "entry_ok e" "ae_state (t ! i) \<noteq> ETHARP_STATE_EMPTY" "ae_ipaddr e = ae_ipaddr (t ! i)"
  shows "table_inv (t[i := e])"
  using assms by (intro table_inv_update) (auto dest: table_inv_unique)

text \<open>The same for an operation on every entry.\<close>

lemma table_inv_map:
  assumes "table_inv t" "\<And>e. entry_ok e \<Longrightarrow> entry_ok (g e) \<and> ae_ipaddr (g e) = ae_ipaddr e
    \<and> (ae_state (g e) \<noteq> ETHARP_STATE_EMPTY \<longrightarrow> ae_state e \<noteq> ETHARP_STATE_EMPTY)"
  shows "table_inv (map g t)"
  using assms unfolding table_inv_def by simp

lemma queues_split:
  assumes "i < length t"
  shows "queues t = (if ae_q (t ! i) = NULL then {#} else {#ae_q (t ! i)#}) + queues (take i t @ drop (Suc i) t)"
    "queues (t[i := e]) = (if ae_q e = NULL then {#} else {#ae_q e#}) + queues (take i t @ drop (Suc i) t)"
proof -
  have t: "t = take i t @ t ! i # drop (Suc i) t" using assms by (rule id_take_nth_drop)
  show "queues t = (if ae_q (t ! i) = NULL then {#} else {#ae_q (t ! i)#}) + queues (take i t @ drop (Suc i) t)"
    by (subst t) (simp add: queues_def)
  show "queues (t[i := e]) = (if ae_q e = NULL then {#} else {#ae_q e#}) + queues (take i t @ drop (Suc i) t)"
    using assms by (simp add: upd_conv_take_nth_drop queues_def)
qed

lemma queues_same: "i < length t \<Longrightarrow> ae_q e = ae_q (t ! i) \<Longrightarrow> queues (t[i := e]) = queues t"
  by (simp add: queues_split)

section \<open>The state around the table\<close>

lemma set_entry_table [simp]:
  "arp_table (set_entry i f s) = (arp_table s)[i := f (entry s i)]"
  by (simp add: set_entry_def)

lemma set_entry_eq: "set_entry i f s = s\<lparr>arp_table := (arp_table s)[i := f (entry s i)]\<rparr>"
  by (simp add: set_entry_def)

text \<open>An operation on the table: it replaces the pbufs and the table, nothing else.\<close>

definition cleared :: "etharp_entry \<Rightarrow> etharp_entry" where
  "cleared e = e\<lparr>ae_q := NULL, ae_state := ETHARP_STATE_EMPTY\<rparr>"

lemma free_entry_shape:
  assumes "etharp_free_entry cf i s = Some s'" "i < length (arp_table s)"
  shows "\<exists>b. s' = s\<lparr>bufs := b, arp_table := (arp_table s)[i := cleared (entry s i)]\<rparr>"
proof (cases "ae_q (entry s i) = NULL")
  case True
  then have "cleared (entry s i) = (entry s i)\<lparr>ae_state := ETHARP_STATE_EMPTY\<rparr>"
    by (cases "entry s i") (simp add: cleared_def)
  then show ?thesis
    using assms True by (auto simp: etharp_free_entry_def set_entry_def intro!: exI [of _ "bufs s"])
next
  case False
  with assms show ?thesis
    by (auto simp: etharp_free_entry_def set_entry_def free_pbuf_def cleared_def Option.bind_eq_Some_conv)
qed

lemma free_pbuf_refs:
  assumes "refs_ok sizes a (bufs s) (add_mset p R)"
  shows "\<exists>b. free_pbuf cf p s = Some (s\<lparr>bufs := b\<rparr>) \<and> refs_ok sizes a b R \<and> same_data (bufs s) b"
  using pbuf_free_counted [OF assms, of cf] by (auto simp: free_pbuf_def same_data_def)

lemma free_entry_total:
  assumes refs: "arp_refs sizes a s R" and i: "i < length (arp_table s)"
  shows "\<exists>s'. etharp_free_entry cf i s = Some s' \<and> arp_refs sizes a s' R \<and> same_data (bufs s) (bufs s')"
proof (cases "ae_q (entry s i) = NULL")
  case True
  then show ?thesis
    using refs i by (simp add: etharp_free_entry_def arp_refs_def queues_same) (simp add: set_entry_def)
next
  case False
  define q where "q = ae_q (entry s i)"
  let ?rest = "queues (take i (arp_table s) @ drop (Suc i) (arp_table s)) + R"
  have "refs_ok sizes a (bufs s) (add_mset q ?rest)"
    using refs False i queues_split(1) [OF i] by (simp add: arp_refs_def q_def)
  from free_pbuf_refs [OF this, of cf] obtain b where b: "free_pbuf cf q s = Some (s\<lparr>bufs := b\<rparr>)" "refs_ok sizes a b ?rest"
    "same_data (bufs s) b" by blast
  have "queues ((arp_table s)[i := (entry s i)\<lparr>ae_q := NULL, ae_state := ETHARP_STATE_EMPTY\<rparr>]) + R = ?rest"
    using queues_split(2) [OF i] by simp
  then show ?thesis
    using b False i by (simp add: etharp_free_entry_def q_def [symmetric] arp_refs_def) (simp add: set_entry_def)
qed

section \<open>Loops over the table\<close>

lemma for_entries_append: "for_entries f (is @ js) s = for_entries f is s \<bind> for_entries f js"
proof (induction "is" arbitrary: s)
  case (Cons i "is")
  then show ?case by (cases "f i s") auto
qed simp

text \<open>A turn that works on its own entry only makes the loop a map over the table.\<close>

lemma for_entries_map:
  assumes turn: "\<And>i s s'. i < length (arp_table s) \<Longrightarrow> f i s = Some s' \<Longrightarrow>
      \<exists>b. s' = s\<lparr>bufs := b, arp_table := (arp_table s)[i := g (entry s i)]\<rparr>"
    and run: "for_entries f [0..<n] s = Some s'" "n \<le> length (arp_table s)"
  shows "\<exists>b. s' = s\<lparr>bufs := b, arp_table := map g (take n (arp_table s)) @ drop n (arp_table s)\<rparr>"
  using run
proof (induction n arbitrary: s')
  case 0
  then show ?case by (auto intro: exI [of _ "bufs s"])
next
  case (Suc n)
  then obtain s1 where s1: "for_entries f [0..<n] s = Some s1" "f n s1 = Some s'"
    by (auto simp: for_entries_append Option.bind_eq_Some_conv)
  from Suc.IH [OF s1(1)] Suc.prems(2) obtain b where
    b: "s1 = s\<lparr>bufs := b, arp_table := map g (take n (arp_table s)) @ drop n (arp_table s)\<rparr>" by auto
  have n: "n < length (arp_table s)" using Suc.prems(2) by simp
  then have e: "entry s1 n = entry s n" by (simp add: b nth_append)
  have "(map g (take n (arp_table s)) @ drop n (arp_table s))[n := g (entry s n)]
      = map g (take (Suc n) (arp_table s)) @ drop (Suc n) (arp_table s)"
    using n by (simp add: list_update_append take_Suc_conv_app_nth Cons_nth_drop_Suc [symmetric])
  then show ?case using turn [OF _ s1(2)] n e by (auto simp: b)
qed

lemma for_entries_total:
  assumes "\<And>i s. i < k \<Longrightarrow> length (arp_table s) = k \<Longrightarrow> arp_refs sizes a s R \<Longrightarrow>
      \<exists>s'. f i s = Some s' \<and> arp_refs sizes a s' R \<and> length (arp_table s') = k"
    and "n \<le> k" "length (arp_table s) = k" "arp_refs sizes a s R"
  shows "\<exists>s'. for_entries f [0..<n] s = Some s' \<and> arp_refs sizes a s' R \<and> length (arp_table s') = k"
  using assms(2-)
proof (induction n)
  case (Suc n)
  then obtain s1 where s1: "for_entries f [0..<n] s = Some s1" "arp_refs sizes a s1 R" "length (arp_table s1) = k" by auto
  then show ?case using assms(1) [of n s1] Suc.prems by (auto simp: for_entries_append)
qed simp

section \<open>The timer and interfaces that go away\<close>

text \<open>What one tick does to an entry.\<close>

definition tick :: "etharp_entry \<Rightarrow> etharp_entry" where
  "tick e =
     (if ae_state e = ETHARP_STATE_EMPTY \<or> ae_state e = ETHARP_STATE_STATIC then e
      else
        let e = e\<lparr>ae_ctime := to_u8 (ae_ctime e + 1)\<rparr>
        in if ae_ctime e \<ge> ARP_MAXAGE \<or> ae_state e = ETHARP_STATE_PENDING \<and> ae_ctime e \<ge> ARP_MAXPENDING then cleared e
           else if ae_state e = ETHARP_STATE_STABLE_REREQUESTING then e\<lparr>ae_state := ETHARP_STATE_STABLE\<rparr>
           else e)"

definition drop_netif :: "addr \<Rightarrow> etharp_entry \<Rightarrow> etharp_entry" where
  "drop_netif netif e = (if ae_state e \<noteq> ETHARP_STATE_EMPTY \<and> ae_netif e = netif then cleared e else e)"

lemma set_entry_same: "s\<lparr>bufs := bufs s, arp_table := (arp_table s)[i := entry s i]\<rparr> = s"
  by simp

lemma tmr_entry_shape:
  assumes "tmr_entry cf i s = Some s'" "i < length (arp_table s)"
  shows "\<exists>b. s' = s\<lparr>bufs := b, arp_table := (arp_table s)[i := tick (entry s i)]\<rparr>"
proof (cases "ae_state (entry s i) = ETHARP_STATE_EMPTY \<or> ae_state (entry s i) = ETHARP_STATE_STATIC")
  case True
  then have "s' = s" "tick (entry s i) = entry s i" using assms by (auto simp: tmr_entry_def tick_def)
  then show ?thesis by (intro exI [of _ "bufs s"]) simp
next
  case False
  define e where "e = (entry s i)\<lparr>ae_ctime := to_u8 (ae_ctime (entry s i) + 1)\<rparr>"
  define s1 where "s1 = set_entry i (\<lambda>e. e\<lparr>ae_ctime := to_u8 (ae_ctime e + 1)\<rparr>) s"
  have s1: "s1 = s\<lparr>arp_table := (arp_table s)[i := e]\<rparr>" "entry s1 i = e"
    using assms(2) by (simp_all add: s1_def set_entry_def e_def)
  have st: "ae_state e = ae_state (entry s i)" by (simp add: e_def)
  show ?thesis
  proof (cases "ae_ctime e \<ge> ARP_MAXAGE \<or> ae_state e = ETHARP_STATE_PENDING \<and> ae_ctime e \<ge> ARP_MAXPENDING")
    case True
    then have "etharp_free_entry cf i s1 = Some s'"
      using assms(1) False s1(2) unfolding tmr_entry_def Let_def s1_def [symmetric] by simp
    moreover have "tick (entry s i) = cleared e"
      using False True unfolding tick_def Let_def e_def [symmetric] by simp
    ultimately show ?thesis using free_entry_shape [of cf i s1 s'] s1 assms(2) by auto
  next
    case young: False
    then have "tick (entry s i) = (if ae_state e = ETHARP_STATE_STABLE_REREQUESTING then e\<lparr>ae_state := ETHARP_STATE_STABLE\<rparr> else e)"
      using False unfolding tick_def Let_def e_def [symmetric] by auto
    then have "s' = s\<lparr>arp_table := (arp_table s)[i := tick (entry s i)]\<rparr>"
      using assms(1) False s1 young unfolding tmr_entry_def Let_def s1_def [symmetric]
      by (auto simp: set_entry_def split: if_splits)
    then show ?thesis by (intro exI [of _ "bufs s"]) simp
  qed
qed

lemma arp_refs_same_queue:
  "i < length (arp_table s) \<Longrightarrow> ae_q e = ae_q (entry s i) \<Longrightarrow> arp_refs sizes a (s\<lparr>arp_table := (arp_table s)[i := e]\<rparr>) R = arp_refs sizes a s R"
  by (simp add: arp_refs_def queues_same)

lemma tmr_entry_total:
  assumes "arp_refs sizes a s R" "i < length (arp_table s)"
  shows "\<exists>s'. tmr_entry cf i s = Some s' \<and> arp_refs sizes a s' R"
proof -
  define s1 where "s1 = set_entry i (\<lambda>e. e\<lparr>ae_ctime := to_u8 (ae_ctime e + 1)\<rparr>) s"
  have "arp_refs sizes a s1 R" using assms by (simp add: s1_def set_entry_def arp_refs_same_queue)
  moreover have i: "i < length (arp_table s1)" using assms(2) by (simp add: s1_def)
  ultimately obtain s2 where "etharp_free_entry cf i s1 = Some s2" "arp_refs sizes a s2 R"
    using free_entry_total by blast
  moreover have "arp_refs sizes a (set_entry i (\<lambda>e. e\<lparr>ae_state := ETHARP_STATE_STABLE\<rparr>) s1) R"
    using \<open>arp_refs sizes a s1 R\<close> i by (simp add: set_entry_def arp_refs_same_queue)
  ultimately show ?thesis
    using assms(1) \<open>arp_refs sizes a s1 R\<close> unfolding tmr_entry_def Let_def s1_def [symmetric] by auto
qed

lemma etharp_tmr_shape:
  assumes "etharp_tmr cf s = Some s'" "length (arp_table s) = 10"
  shows "\<exists>b. s' = s\<lparr>bufs := b, arp_table := map tick (arp_table s)\<rparr>"
  using for_entries_map [of "tmr_entry cf" tick 10 s s'] tmr_entry_shape assms by (auto simp: etharp_tmr_def)

lemma etharp_tmr_total:
  assumes "arp_refs sizes a s R" "length (arp_table s) = 10"
  shows "\<exists>s'. etharp_tmr cf s = Some s' \<and> arp_refs sizes a s' R"
proof -
  have "\<exists>s'. tmr_entry cf i s = Some s' \<and> arp_refs sizes a s' R \<and> length (arp_table s') = 10"
    if i: "i < 10" and t: "length (arp_table s) = 10" "arp_refs sizes a s R" for i s
  proof -
    obtain s' where "tmr_entry cf i s = Some s'" "arp_refs sizes a s' R" using tmr_entry_total [OF t(2)] i t(1) by auto
    with tmr_entry_shape [OF this(1)] i t show ?thesis by auto
  qed
  from for_entries_total [where f = "tmr_entry cf", OF this le_refl assms(2,1)] show ?thesis by (auto simp: etharp_tmr_def)
qed

lemma cleanup_shape:
  assumes "etharp_cleanup_netif cf netif s = Some s'" "length (arp_table s) = 10"
  shows "\<exists>b. s' = s\<lparr>bufs := b, arp_table := map (drop_netif netif) (arp_table s)\<rparr>"
proof -
  define f where "f = (\<lambda>i s. if ae_state (entry s i) \<noteq> ETHARP_STATE_EMPTY \<and> ae_netif (entry s i) = netif
    then etharp_free_entry cf i s else Some s)"
  have turn: "\<exists>b. t' = t\<lparr>bufs := b, arp_table := (arp_table t)[i := drop_netif netif (entry t i)]\<rparr>"
    if "i < length (arp_table t)" "f i t = Some t'" for i t t'
  proof (cases "ae_state (entry t i) \<noteq> ETHARP_STATE_EMPTY \<and> ae_netif (entry t i) = netif")
    case True
    then show ?thesis using free_entry_shape [of cf i t t'] that by (auto simp: f_def drop_netif_def)
  next
    case False
    then have "t' = t" "drop_netif netif (entry t i) = entry t i" using that by (auto simp: f_def drop_netif_def)
    then show ?thesis by (intro exI [of _ "bufs t"]) simp
  qed
  show ?thesis
    using for_entries_map [of f "drop_netif netif" 10 s s', OF turn] assms
    by (simp add: etharp_cleanup_netif_def f_def [symmetric])
qed

lemma entry_ok_cleared [simp]: "entry_ok (cleared e)"
  by (simp add: entry_ok_def cleared_def)

lemma tick_ok:
  assumes "entry_ok e"
  shows "entry_ok (tick e) \<and> ae_ipaddr (tick e) = ae_ipaddr e
    \<and> (ae_state (tick e) \<noteq> ETHARP_STATE_EMPTY \<longrightarrow> ae_state e \<noteq> ETHARP_STATE_EMPTY)"
  using assms by (auto simp: tick_def Let_def cleared_def) (auto simp: entry_ok_def split: etharp_state.splits)

section \<open>The search\<close>

text \<open>The order in which entries are given up: free ones first, static ones never.\<close>

definition rank :: "etharp_entry \<Rightarrow> nat" where
  "rank e = (case ae_state e of
       ETHARP_STATE_EMPTY \<Rightarrow> 0
     | ETHARP_STATE_PENDING \<Rightarrow> if ae_q e = NULL then 2 else 3
     | ETHARP_STATE_STABLE \<Rightarrow> 1
     | ETHARP_STATE_STABLE_REREQUESTING \<Rightarrow> 1
     | ETHARP_STATE_STATIC \<Rightarrow> 4)"

lemma rank_le: "rank e \<le> 4"
  by (cases "ae_state e") (simp_all add: rank_def)

lemma rank_0 [simp]: "rank e = 0 \<longleftrightarrow> ae_state e = ETHARP_STATE_EMPTY"
  by (cases "ae_state e") (simp_all add: rank_def)

lemma rank_4 [simp]: "rank e = 4 \<longleftrightarrow> ae_state e = ETHARP_STATE_STATIC"
  by (cases "ae_state e") (simp_all add: rank_def)

text \<open>The oldest of the first \<open>n\<close> entries of a rank.\<close>

definition oldest :: "nat \<Rightarrow> nat \<Rightarrow> etharp_entry list \<Rightarrow> nat \<Rightarrow> nat \<Rightarrow> bool" where
  "oldest r n t old age \<longleftrightarrow>
     (if \<exists>j<n. rank (t ! j) = r
      then old < n \<and> rank (t ! old) = r \<and> age = ae_ctime (t ! old) \<and> (\<forall>j<n. rank (t ! j) = r \<longrightarrow> ae_ctime (t ! j) \<le> age)
      else old = ARP_TABLE_SIZE \<and> age = 0)"

lemma oldest_skip: "rank (t ! n) \<noteq> r \<Longrightarrow> oldest r n t old age \<Longrightarrow> oldest r (Suc n) t old age"
  by (auto simp: oldest_def less_Suc_eq split: if_splits)

lemma oldest_take:
  "rank (t ! n) = r \<Longrightarrow> ae_ctime (t ! n) \<ge> age \<Longrightarrow> oldest r n t old age \<Longrightarrow> oldest r (Suc n) t n (ae_ctime (t ! n))"
  by (fastforce simp: oldest_def less_Suc_eq split: if_splits)

lemma oldest_keep:
  "rank (t ! n) = r \<Longrightarrow> \<not> ae_ctime (t ! n) \<ge> age \<Longrightarrow> oldest r n t old age \<Longrightarrow> oldest r (Suc n) t old age"
  by (auto simp: oldest_def less_Suc_eq split: if_splits)

definition first_empty :: "nat \<Rightarrow> etharp_entry list \<Rightarrow> nat \<Rightarrow> bool" where
  "first_empty n t k \<longleftrightarrow>
     (if \<exists>j<n. rank (t ! j) = 0 then k < n \<and> rank (t ! k) = 0 \<and> (\<forall>j<k. rank (t ! j) \<noteq> 0) else k = ARP_TABLE_SIZE)"

definition no_match :: "u32_t option \<Rightarrow> nat \<Rightarrow> etharp_entry list \<Rightarrow> bool" where
  "no_match ip n t \<longleftrightarrow> (\<forall>j<n. ae_state (t ! j) \<noteq> ETHARP_STATE_EMPTY \<longrightarrow> ip \<noteq> Some (ae_ipaddr (t ! j)))"

text \<open>The variables after \<open>n\<close> entries.\<close>

definition swept :: "nat \<Rightarrow> etharp_entry list \<Rightarrow> find_vars \<Rightarrow> bool" where
  "swept n t v \<longleftrightarrow> first_empty n t (empty v) \<and> oldest 1 n t (old_stable v) (age_stable v)
     \<and> oldest 2 n t (old_pending v) (age_pending v) \<and> oldest 3 n t (old_queue v) (age_queue v)"

lemma swept_0: "swept 0 t find_vars0"
  by (simp add: swept_def find_vars0_def first_empty_def oldest_def)

lemma swept_note:
  assumes "swept n t v" "ae_state (t ! n) \<noteq> ETHARP_STATE_EMPTY"
  shows "swept (Suc n) t (find_note n (t ! n) v)"
proof -
  have "first_empty (Suc n) t (empty v)"
    using assms by (auto simp: swept_def first_empty_def less_Suc_eq split: if_splits)
  then show ?thesis
    using assms by (cases "ae_state (t ! n)")
      (auto simp: swept_def find_note_def less_eq_etharp_state_def less_etharp_state_def rank_def
        intro: oldest_skip oldest_take oldest_keep)
qed

lemma swept_empty:
  assumes "swept n t v" "ae_state (t ! n) = ETHARP_STATE_EMPTY" "n < 10"
  shows "swept (Suc n) t (if empty v = ARP_TABLE_SIZE then v\<lparr>empty := n\<rparr> else v)"
proof -
  have r: "rank (t ! n) = 0" using assms(2) by simp
  have "first_empty (Suc n) t (if empty v = ARP_TABLE_SIZE then n else empty v)"
    using assms r by (auto simp: swept_def first_empty_def less_Suc_eq split: if_splits)
  then show ?thesis using assms(1,2) by (auto simp: swept_def rank_def intro!: oldest_skip)
qed

lemma find_sweep_result:
  assumes "swept n t v" "no_match ip n t" "n \<le> length t" "length t = 10"
  shows "(\<exists>i<10. find_sweep ip n (drop n t) v = Some (Inl i)
            \<and> ae_state (t ! i) \<noteq> ETHARP_STATE_EMPTY \<and> ip = Some (ae_ipaddr (t ! i)))
    \<or> (\<exists>v'. find_sweep ip n (drop n t) v = Some (Inr v') \<and> swept 10 t v' \<and> no_match ip 10 t)"
  using assms
proof (induction "10 - n" arbitrary: n v)
  case 0
  then show ?case by auto
next
  case (Suc k)
  then have n: "n < 10" "drop n t = t ! n # drop (Suc n) t" by (auto simp: Cons_nth_drop_Suc)
  let ?e = "t ! n"
  show ?case
  proof (cases "ae_state ?e = ETHARP_STATE_EMPTY")
    case True
    then have "no_match ip (Suc n) t" using Suc.prems(2) by (auto simp: no_match_def less_Suc_eq)
    moreover have "find_sweep ip n (drop n t) v
        = find_sweep ip (Suc n) (drop (Suc n) t) (if empty v = ARP_TABLE_SIZE then v\<lparr>empty := n\<rparr> else v)"
      using True by (simp add: n(2))
    ultimately show ?thesis
      using Suc.hyps(1) [of "Suc n"] Suc.hyps(2) swept_empty [OF Suc.prems(1) True n(1)] Suc.prems n(1) by simp
  next
    case False
    have ok: "ae_state ?e = ETHARP_STATE_PENDING \<or> ae_state ?e \<ge> ETHARP_STATE_STABLE"
      using False by (cases "ae_state ?e") (simp_all add: less_eq_etharp_state_def)
    show ?thesis
    proof (cases "ip = Some (ae_ipaddr ?e)")
      case True
      then show ?thesis using False ok n by auto
    next
      case other: False
      then have "no_match ip (Suc n) t" using Suc.prems(2) by (auto simp: no_match_def less_Suc_eq)
      moreover have "find_sweep ip n (drop n t) v = find_sweep ip (Suc n) (drop (Suc n) t) (find_note n ?e v)"
        using False ok other by (auto simp: n(2))
      ultimately show ?thesis
        using Suc.hyps(1) [of "Suc n"] Suc.hyps(2) swept_note [OF Suc.prems(1) False] Suc.prems n(1) by simp
    qed
  qed
qed

lemmas find_sweep_cases = find_sweep_result [of 0 _ find_vars0, OF swept_0, simplified]

text \<open>
  The entry to recycle: the lowest rank there is, the oldest entry of that rank. \<open>fresh ip e\<close> is what
  becomes of it.
\<close>

definition victim :: "etharp_entry list \<Rightarrow> nat \<Rightarrow> bool" where
  "victim t i \<longleftrightarrow> i < ARP_TABLE_SIZE \<and> rank (t ! i) < 4 \<and> (\<forall>j < ARP_TABLE_SIZE. rank (t ! i) \<le> rank (t ! j))
     \<and> (\<forall>j < ARP_TABLE_SIZE. rank (t ! j) = rank (t ! i) \<and> rank (t ! i) \<noteq> 0 \<longrightarrow> ae_ctime (t ! j) \<le> ae_ctime (t ! i))
     \<and> (rank (t ! i) = 0 \<longrightarrow> (\<forall>j<i. rank (t ! j) \<noteq> 0))"

definition fresh :: "u32_t \<Rightarrow> etharp_entry \<Rightarrow> etharp_entry" where
  "fresh ip e = e\<lparr>ae_q := NULL, ae_state := ETHARP_STATE_EMPTY, ae_ipaddr := ip, ae_ctime := 0\<rparr>"

text \<open>When no entry can be had.\<close>

definition refused :: "u8_t \<Rightarrow> etharp_entry list \<Rightarrow> bool" where
  "refused flags t \<longleftrightarrow> flags AND ETHARP_FLAG_FIND_ONLY \<noteq> 0
     \<or> (\<forall>j < ARP_TABLE_SIZE. rank (t ! j) \<noteq> 0)
       \<and> (flags AND ETHARP_FLAG_TRY_HARD = 0 \<or> (\<forall>j < ARP_TABLE_SIZE. rank (t ! j) = 4))"

definition sweep_choice :: "find_vars \<Rightarrow> nat" where
  "sweep_choice v = (if empty v < 10 then empty v else if old_stable v < 10 then old_stable v
     else if old_pending v < 10 then old_pending v else old_queue v)"

lemma first_emptyD:
  assumes "first_empty 10 t k"
  shows "k < 10 \<Longrightarrow> rank (t ! k) = 0 \<and> (\<forall>j<k. rank (t ! j) \<noteq> 0)" "\<not> k < 10 \<Longrightarrow> k = 10 \<and> (\<forall>j<10. rank (t ! j) \<noteq> 0)"
  using assms by (auto simp: first_empty_def split: if_splits)

lemma oldestD:
  assumes "oldest r 10 t k age"
  shows "k < 10 \<Longrightarrow> rank (t ! k) = r \<and> (\<forall>j<10. rank (t ! j) = r \<longrightarrow> ae_ctime (t ! j) \<le> ae_ctime (t ! k))"
    "\<not> k < 10 \<Longrightarrow> \<forall>j<10. rank (t ! j) \<noteq> r"
  using assms by (auto simp: oldest_def split: if_splits)

lemma rank_cases:
  obtains "rank e = 0" | "rank e = 1" | "rank e = 2" | "rank e = 3" | "rank e = 4"
proof -
  have "rank e = 0 \<or> rank e = 1 \<or> rank e = 2 \<or> rank e = 3 \<or> rank e = 4" using rank_le [of e] by linarith
  then show thesis using that by blast
qed

lemma sweep_choice_victim:
  assumes "swept 10 t v"
  shows "if sweep_choice v < 10 then victim t (sweep_choice v) else \<forall>j<10. rank (t ! j) = 4"
proof -
  note s = assms [unfolded swept_def]
  have above: "rank (t ! j) \<noteq> 0 \<Longrightarrow> 1 \<le> rank (t ! j)" for j by (simp del: rank_0)
  consider "empty v < 10" | "\<not> empty v < 10" "old_stable v < 10" | "\<not> empty v < 10" "\<not> old_stable v < 10" "old_pending v < 10"
    | "\<not> empty v < 10" "\<not> old_stable v < 10" "\<not> old_pending v < 10" by blast
  then show ?thesis
  proof cases
    case 1
    then show ?thesis using first_emptyD(1) [of t "empty v"] s by (auto simp: sweep_choice_def victim_def simp del: rank_0)
  next
    case 2
    have r: "rank (t ! old_stable v) = 1" "\<forall>j<10. rank (t ! j) = 1 \<longrightarrow> ae_ctime (t ! j) \<le> ae_ctime (t ! old_stable v)"
      using oldestD(1) [of 1 t "old_stable v"] s 2(2) by auto
    have "\<forall>j<10. 1 \<le> rank (t ! j)" using first_emptyD(2) [of t "empty v"] s 2(1) above by blast
    then show ?thesis using 2 r by (auto simp: sweep_choice_def victim_def simp del: rank_0)
  next
    case 3
    have r: "rank (t ! old_pending v) = 2" "\<forall>j<10. rank (t ! j) = 2 \<longrightarrow> ae_ctime (t ! j) \<le> ae_ctime (t ! old_pending v)"
      using oldestD(1) [of 2 t "old_pending v"] s 3(3) by auto
    have no: "rank (t ! j) \<noteq> 0 \<and> rank (t ! j) \<noteq> 1" if "j < 10" for j
      using that first_emptyD(2) [of t "empty v"] oldestD(2) [of 1 t "old_stable v"] s 3 by blast
    have "2 \<le> rank (t ! j)" if "j < 10" for j using no [OF that] by (cases "t ! j" rule: rank_cases) (auto simp del: rank_0 rank_4)
    then show ?thesis using 3 r by (auto simp: sweep_choice_def victim_def simp del: rank_0)
  next
    case 4
    have no: "rank (t ! j) \<noteq> 0 \<and> rank (t ! j) \<noteq> 1 \<and> rank (t ! j) \<noteq> 2" if "j < 10" for j
      using that first_emptyD(2) [of t "empty v"] oldestD(2) [of 1 t "old_stable v"] oldestD(2) [of 2 t "old_pending v"] s 4 by blast
    have three: "3 \<le> rank (t ! j)" if "j < 10" for j using no [OF that] by (cases "t ! j" rule: rank_cases) (auto simp del: rank_0 rank_4)
    show ?thesis
    proof (cases "old_queue v < 10")
      case True
      then have "rank (t ! old_queue v) = 3" "\<forall>j<10. rank (t ! j) = 3 \<longrightarrow> ae_ctime (t ! j) \<le> ae_ctime (t ! old_queue v)"
        using oldestD(1) [of 3 t "old_queue v"] s by auto
      then show ?thesis using 4 True three by (auto simp: sweep_choice_def victim_def simp del: rank_0)
    next
      case False
      then have "\<forall>j<10. rank (t ! j) \<noteq> 3" using oldestD(2) [of 3 t "old_queue v"] s by blast
      then have "rank (t ! j) = 4" if "j < 10" for j using no [OF that] that by (cases "t ! j" rule: rank_cases) (auto simp del: rank_0 rank_4)
      then show ?thesis using 4 False by (simp add: sweep_choice_def del: rank_4)
    qed
  qed
qed

text \<open>Recycling an entry, when there is no empty one.\<close>

lemma find_recycle_eq:
  assumes "swept 10 (arp_table s) v" "table_inv (arp_table s)" "\<not> empty v < 10"
  shows "find_recycle cf v s = (if sweep_choice v < 10
    then map_option (\<lambda>s. Inr (sweep_choice v, s)) (etharp_free_entry cf (sweep_choice v) s) else Some (Inl ERR_MEM))"
proof -
  have "ae_q (entry s (old_stable v)) = NULL" if "old_stable v < 10"
  proof -
    have "rank (entry s (old_stable v)) = 1" using oldestD(1) [of 1 _ "old_stable v"] assms(1) that by (auto simp: swept_def)
    then have "ae_state (entry s (old_stable v)) \<noteq> ETHARP_STATE_PENDING" by (auto simp: rank_def split: if_splits)
    then show ?thesis using table_invD(2) [OF assms(2) that] by (auto simp: entry_ok_def)
  qed
  then show ?thesis using assms(3) by (simp add: find_recycle_def sweep_choice_def Let_def)
qed

text \<open>Claiming the entry that the sweep chose.\<close>

definition claim_slot :: "custom_free \<Rightarrow> nat \<Rightarrow> u32_t \<Rightarrow> arp_state \<Rightarrow> arp_state option" where
  "claim_slot cf i ip s = map_option (\<lambda>s. set_entry i (\<lambda>e. e\<lparr>ae_ipaddr := ip, ae_ctime := 0\<rparr>) s)
     (if rank (entry s i) = 0 then Some s else etharp_free_entry cf i s)"

lemma claim_slot_shape:
  assumes "claim_slot cf i ip s = Some s'" "table_inv (arp_table s)" "i < 10"
  shows "\<exists>b. s' = s\<lparr>bufs := b, arp_table := (arp_table s)[i := fresh ip (entry s i)]\<rparr>"
proof (cases "rank (entry s i) = 0")
  case True
  then have "ae_q (entry s i) = NULL" "ae_state (entry s i) = ETHARP_STATE_EMPTY"
    using table_invD(2) [OF assms(2,3)] by (auto simp: entry_ok_def)
  then have "fresh ip (entry s i) = (entry s i)\<lparr>ae_ipaddr := ip, ae_ctime := 0\<rparr>" by (simp add: fresh_def)
  then show ?thesis using assms(1) True by (auto simp: claim_slot_def set_entry_def intro!: exI [of _ "bufs s"])
next
  case False
  have i: "i < length (arp_table s)" using assms(3) table_invD(1) [OF assms(2)] by simp
  obtain s1 where s1: "etharp_free_entry cf i s = Some s1" "s' = set_entry i (\<lambda>e. e\<lparr>ae_ipaddr := ip, ae_ctime := 0\<rparr>) s1"
    using assms(1) False by (auto simp: claim_slot_def)
  from free_entry_shape [OF s1(1) i] obtain b where
    "s1 = s\<lparr>bufs := b, arp_table := (arp_table s)[i := cleared (entry s i)]\<rparr>" by blast
  then show ?thesis using s1(2) i by (intro exI [of _ b]) (simp add: set_entry_def fresh_def cleared_def)
qed

lemma claim_slot_total:
  assumes "arp_refs sizes a s R" "i < length (arp_table s)"
  shows "\<exists>s'. claim_slot cf i ip s = Some s' \<and> arp_refs sizes a s' R \<and> same_data (bufs s) (bufs s')"
proof -
  obtain s1 where s1: "(if rank (entry s i) = 0 then Some s else etharp_free_entry cf i s) = Some s1" "arp_refs sizes a s1 R"
      "same_data (bufs s) (bufs s1)"
    using assms free_entry_total [OF assms] by (cases "rank (entry s i) = 0") auto
  have "i < length (arp_table s1)"
    using s1(1) assms(2) free_entry_shape [of cf i s s1] by (auto split: if_splits)
  then show ?thesis using s1 by (simp add: claim_slot_def set_entry_def arp_refs_same_queue)
qed

text \<open>The whole of \<^verbatim>\<open>etharp_find_entry\<close>, as a specification.\<close>

lemma find_entry_eq:
  assumes inv: "table_inv (arp_table s)"
  shows "(\<exists>i<10. etharp_find_entry cf (Some ip) flags s = Some (Inr i, s) \<and> ae_state (entry s i) \<noteq> ETHARP_STATE_EMPTY
            \<and> ae_ipaddr (entry s i) = ip)
    \<or> (no_match (Some ip) 10 (arp_table s) \<and> refused flags (arp_table s)
       \<and> etharp_find_entry cf (Some ip) flags s = Some (Inl ERR_MEM, s))
    \<or> (\<exists>i. no_match (Some ip) 10 (arp_table s) \<and> \<not> refused flags (arp_table s) \<and> victim (arp_table s) i
       \<and> etharp_find_entry cf (Some ip) flags s = map_option (Pair (Inr i)) (claim_slot cf i ip s))"
proof -
  note len = table_invD(1) [OF inv]
  have "no_match (Some ip) 0 (arp_table s)" by (simp add: no_match_def)
  from find_sweep_cases [OF this len] show ?thesis
  proof (elim disjE exE conjE)
    fix i assume "i < 10" "find_sweep (Some ip) 0 (arp_table s) find_vars0 = Some (Inl i)"
      "ae_state (entry s i) \<noteq> ETHARP_STATE_EMPTY" "Some ip = Some (ae_ipaddr (entry s i))"
    then show ?thesis by (auto simp: etharp_find_entry_def)
  next
    fix v assume v: "find_sweep (Some ip) 0 (arp_table s) find_vars0 = Some (Inr v)" "swept 10 (arp_table s) v"
      "no_match (Some ip) 10 (arp_table s)"
    define i where "i = sweep_choice v"
    have choice: "if i < 10 then victim (arp_table s) i else \<forall>j<10. rank (entry s j) = 4"
      using sweep_choice_victim [OF v(2)] by (simp add: i_def)
    have full: "\<not> empty v < 10 \<longleftrightarrow> (\<forall>j<10. rank (entry s j) \<noteq> 0)" "\<not> empty v < 10 \<Longrightarrow> empty v = 10"
      using first_emptyD [of "arp_table s" "empty v"] v(2) by (auto simp: swept_def simp del: rank_0)
    show ?thesis
    proof (cases "refused flags (arp_table s)")
      case True
      have "etharp_find_entry cf (Some ip) flags s = Some (Inl ERR_MEM, s)"
      proof (cases "flags AND ETHARP_FLAG_FIND_ONLY \<noteq> 0 \<or> empty v = ARP_TABLE_SIZE \<and> flags AND ETHARP_FLAG_TRY_HARD = 0")
        case True
        then show ?thesis using v(1) by (simp add: etharp_find_entry_def)
      next
        case False
        have ref: "(\<forall>j<10. rank (entry s j) \<noteq> 0) \<and> (flags AND ETHARP_FLAG_TRY_HARD = 0 \<or> (\<forall>j<10. rank (entry s j) = 4))"
          using \<open>refused flags (arp_table s)\<close> False unfolding refused_def by (elim disjE) simp_all
        have four: "\<not> empty v < 10" "\<forall>j<10. rank (entry s j) = 4"
          using ref full False by metis+
        have "\<not> victim (arp_table s) i" using four(2) by (auto simp: victim_def simp del: rank_4)
        then have "\<not> i < 10" using choice by metis
        then show ?thesis
          using False four(1) v(1) find_recycle_eq [OF v(2) inv four(1), of cf]
          by (simp add: etharp_find_entry_def i_def)
      qed
      then show ?thesis using True v(3) by blast
    next
      case False
      then have fl: "\<not> (flags AND ETHARP_FLAG_FIND_ONLY \<noteq> 0 \<or> empty v = ARP_TABLE_SIZE \<and> flags AND ETHARP_FLAG_TRY_HARD = 0)"
        using full(1) unfolding refused_def by auto
      have i: "i < 10"
      proof (rule ccontr)
        assume "\<not> i < 10"
        then have "\<forall>j<10. rank (entry s j) = 4" "\<not> empty v < 10" using choice by (auto simp: i_def sweep_choice_def split: if_splits)
        then show False using False full(1) unfolding refused_def by blast
      qed
      have slot: "(if empty v < ARP_TABLE_SIZE then Some (Inr (empty v, s)) else find_recycle cf v s)
          = map_option (\<lambda>s. Inr (i, s)) (if rank (entry s i) = 0 then Some s else etharp_free_entry cf i s)"
      proof (cases "empty v < 10")
        case True
        then have "i = empty v" "rank (entry s i) = 0"
          using first_emptyD(1) [of "arp_table s" "empty v"] v(2) by (auto simp: i_def sweep_choice_def swept_def simp del: rank_0)
        then show ?thesis using True by simp
      next
        case nonempty: False
        then have "rank (entry s i) \<noteq> 0" using full(1) i by blast
        then show ?thesis using nonempty find_recycle_eq [OF v(2) inv nonempty, of cf] i by (simp add: i_def)
      qed
      have "etharp_find_entry cf (Some ip) flags s = map_option (Pair (Inr i)) (claim_slot cf i ip s)"
      proof (cases "if rank (entry s i) = 0 then Some s else etharp_free_entry cf i s")
        case None
        then show ?thesis using v(1) fl slot by (simp add: etharp_find_entry_def claim_slot_def)
      next
        case (Some s1)
        have len1: "i < length (arp_table s1)" "ae_state (entry s1 i) = ETHARP_STATE_EMPTY"
          using Some free_entry_shape [of cf i s s1] i len by (auto simp: cleared_def split: if_splits)
        have "etharp_find_entry cf (Some ip) flags s
            = Some (Inr i, set_entry i (\<lambda>e. e\<lparr>ae_ctime := 0\<rparr>) (set_entry i (\<lambda>e. e\<lparr>ae_ipaddr := ip\<rparr>) s1))"
          using v(1) fl slot i len1(2) unfolding Some by (simp add: etharp_find_entry_def)
        then show ?thesis using Some len1(1) by (simp add: claim_slot_def set_entry_def)
      qed
      then show ?thesis using False v(3) choice i by auto
    qed
  qed
qed

end
