(* ===== verification/Etharp_Props.thy ===== *)
theory Etharp_Props
  imports Etharp_Table
begin

text \<open>
  The operations of \<^verbatim>\<open>netif/etharp.c\<close>: the table invariant over every sequence of calls, the references to
  queued packets, what an update and the timer do, and the reply to an ARP request.
\<close>

section \<open>The search, as its callers see it\<close>

lemma find_entry_cases:
  assumes "etharp_find_entry cf (Some ip) flags s = Some (r, s')" "table_inv (arp_table s)"
  obtains (hit) i where "r = Inr i" "s' = s" "i < 10" "ae_state (entry s i) \<noteq> ETHARP_STATE_EMPTY" "ae_ipaddr (entry s i) = ip"
  | (miss) "r = Inl ERR_MEM" "s' = s" "no_match (Some ip) 10 (arp_table s)" "refused flags (arp_table s)"
  | (fresh) i b where "r = Inr i" "i < 10" "no_match (Some ip) 10 (arp_table s)" "\<not> refused flags (arp_table s)"
      "victim (arp_table s) i" "s' = s\<lparr>bufs := b, arp_table := (arp_table s)[i := fresh ip (entry s i)]\<rparr>"
proof -
  consider (1) i where "i < 10" "r = Inr i" "s' = s" "ae_state (entry s i) \<noteq> ETHARP_STATE_EMPTY" "ae_ipaddr (entry s i) = ip"
    | (2) "no_match (Some ip) 10 (arp_table s)" "refused flags (arp_table s)" "r = Inl ERR_MEM" "s' = s"
    | (3) i where "no_match (Some ip) 10 (arp_table s)" "\<not> refused flags (arp_table s)" "victim (arp_table s) i"
        "r = Inr i" "claim_slot cf i ip s = Some s'"
    using find_entry_eq [OF assms(2), of cf ip flags] unfolding assms(1)
    by (auto dest!: sym [of "Some (r, s')"])
  then show thesis
  proof cases
    case 1
    then show thesis using hit by blast
  next
    case 2
    then show thesis using miss by blast
  next
    case 3
    then have "i < 10" by (simp add: victim_def)
    from claim_slot_shape [OF 3(5) assms(2) this] obtain b where
      "s' = s\<lparr>bufs := b, arp_table := (arp_table s)[i := fresh ip (entry s i)]\<rparr>" by blast
    then show thesis using fresh 3 \<open>i < 10\<close> by blast
  qed
qed

lemma find_entry_total:
  assumes "table_inv (arp_table s)" "arp_refs sizes a s R"
  shows "\<exists>r s'. etharp_find_entry cf (Some ip) flags s = Some (r, s') \<and> arp_refs sizes a s' R \<and> same_data (bufs s) (bufs s')"
proof -
  have "\<exists>s'. claim_slot cf i ip s = Some s' \<and> arp_refs sizes a s' R \<and> same_data (bufs s) (bufs s')" if "victim (arp_table s) i" for i
    using claim_slot_total [OF assms(2)] that table_invD(1) [OF assms(1)] by (simp add: victim_def)
  then show ?thesis using find_entry_eq [OF assms(1), of cf ip flags] assms(2) by fastforce
qed

lemma find_only: "refused ETHARP_FLAG_FIND_ONLY t"
  by (simp add: refused_def)

lemma find_only_same:
  "etharp_find_entry cf (Some ip) ETHARP_FLAG_FIND_ONLY s = Some (r, s') \<Longrightarrow> table_inv (arp_table s) \<Longrightarrow> s' = s"
  by (erule find_entry_cases) (auto simp: find_only)

section \<open>Operations that leave the table alone\<close>

text \<open>The part of the state the invariant is about.\<close>

definition table_view :: "arp_state \<Rightarrow> etharp_entry list \<times> nat" where
  "table_view s = (arp_table s, etharp_cached_entry s)"

lemma table_view_simps [simp]:
  "table_view (s\<lparr>bufs := b\<rparr>) = table_view s"
  "table_view (s\<lparr>frames := fs\<rparr>) = table_view s"
  "table_view (poke x xs s) = table_view s"
  "table_view (ETHARP_STATS_INC f s) = table_view s"
  "table_view (LINK_STATS_INC f s) = table_view s"
  "table_view (IP_STATS_INC f s) = table_view s"
  by (simp_all add: table_view_def poke_def ETHARP_STATS_INC_def LINK_STATS_INC_def IP_STATS_INC_def)

lemma arp_inv_iff: "arp_inv s \<longleftrightarrow> table_inv (fst (table_view s)) \<and> snd (table_view s) < 10"
  by (simp add: table_view_def arp_inv_def)

lemma arp_inv_view: "table_view s' = table_view s \<Longrightarrow> arp_inv s \<Longrightarrow> arp_inv s'"
  by (simp add: arp_inv_iff)

lemma free_pbuf_view: "free_pbuf cf p s = Some s' \<Longrightarrow> table_view s' = table_view s"
  by (auto simp: free_pbuf_def)

lemma send_ip_view: "etharp_send_ip lo netif p src dst s = Some (r, s') \<Longrightarrow> table_view s' = table_view s"
  by (auto simp: etharp_send_ip_def linkoutput_def Let_def split: if_splits)

lemma raw_view:
  "etharp_raw cf lo netif src dst hwsrc ipsrc hwdst ipdst opcode s = Some (r, s') \<Longrightarrow> table_view s' = table_view s"
  by (auto simp: etharp_raw_def linkoutput_def Let_def Option.bind_eq_Some_conv split: if_splits prod.splits
      dest!: free_pbuf_view)

lemma request_view: "etharp_request cf lo netif ip s = Some (r, s') \<Longrightarrow> table_view s' = table_view s"
  unfolding etharp_request_def by (rule raw_view)

lemma ip_route_view: "ip_route dest s = Some (n, s') \<Longrightarrow> table_view s' = table_view s"
  by (auto simp: ip_route_def Option.bind_eq_Some_conv split: if_splits)

lemma reply_view: "arp_reply_in_place netif e mac s = Some s' \<Longrightarrow> table_view s' = table_view s"
  by (auto simp: arp_reply_in_place_def Let_def split: if_splits)

lemma arp_act_view: "arp_act lo netif mac p e for_us s = Some s' \<Longrightarrow> table_view s' = table_view s"
  by (auto simp: arp_act_def Let_def linkoutput_def split: if_splits dest!: reply_view)

lemma table_of_view: "table_view s' = table_view s \<Longrightarrow> arp_table s' = arp_table s \<and> etharp_cached_entry s' = etharp_cached_entry s"
  by (simp add: table_view_def)

section \<open>Updating an entry\<close>

text \<open>An entry once its hardware address is known.\<close>

definition resolved :: "addr \<Rightarrow> u32_t \<Rightarrow> u8_t list \<Rightarrow> u8_t \<Rightarrow> etharp_entry" where
  "resolved netif ip mac flags = \<lparr>ae_q = NULL, ae_ipaddr = ip, ae_netif = netif, ae_ethaddr = mac,
     ae_state = (if flags AND ETHARP_FLAG_STATIC_ENTRY \<noteq> 0 then ETHARP_STATE_STATIC else ETHARP_STATE_STABLE),
     ae_ctime = 0\<rparr>"

definition non_unicast :: "u32_t \<Rightarrow> struct_netif \<Rightarrow> bool" where
  "non_unicast ip n \<longleftrightarrow> ip = IPADDR_ANY \<or> ip4_addr_isbroadcast ip n \<or> ip_addr_ismulticast ip"

lemma entry_ok_resolved [simp]: "entry_ok (resolved netif ip mac flags)"
  by (simp add: entry_ok_def resolved_def)

text \<open>The last part of \<^verbatim>\<open>etharp_update_arp_entry\<close>: sending the packet that waits on the entry, if any.\<close>

definition send_queued ::
  "custom_free \<Rightarrow> linkoutput_fn \<Rightarrow> addr \<Rightarrow> u8_t list \<Rightarrow> addr \<Rightarrow> arp_state \<Rightarrow> (err_t \<times> arp_state) option" where
  "send_queued cf lo netif mac q s =
     (if q \<noteq> NULL
      then do {
        (_, s) \<leftarrow> etharp_send_ip lo netif q (nif_hwaddr (netifs s netif)) mac s;
        s \<leftarrow> free_pbuf cf q s;
        Some (ERR_OK, s)
      }
      else Some (ERR_OK, s))"

definition set_table :: "nat \<Rightarrow> etharp_entry \<Rightarrow> arp_state \<Rightarrow> arp_state" where
  "set_table i e s = s\<lparr>arp_table := (arp_table s)[i := e]\<rparr>"

lemma update_eq:
  assumes "\<not> non_unicast ip (netifs s netif)" "nif_hwaddr_len (netifs s netif) = 6"
    and find: "etharp_find_entry cf (Some ip) flags s = Some (Inr i, s1)"
    and i: "i < length (arp_table s1)" "ae_ipaddr (entry s1 i) = ip"
  shows "etharp_update_arp_entry cf lo netif ip mac flags s
    = send_queued cf lo netif mac (ae_q (entry s1 i)) (set_table i (resolved netif ip mac flags) s1)"
proof -
  obtain q n m st c where e: "entry s1 i = \<lparr>ae_q = q, ae_ipaddr = ip, ae_netif = n, ae_ethaddr = m, ae_state = st, ae_ctime = c\<rparr>"
    using i(2) by (cases "entry s1 i") auto
  show ?thesis
    using assms(1,2) find i(1)
    by (simp add: etharp_update_arp_entry_def non_unicast_def Let_def set_entry_def send_queued_def set_table_def
        resolved_def e)
qed

lemma send_queued_view: "send_queued cf lo netif mac q s = Some (r, s') \<Longrightarrow> table_view s' = table_view s \<and> r = ERR_OK"
  by (auto simp: send_queued_def Option.bind_eq_Some_conv split: if_splits dest!: send_ip_view free_pbuf_view)

lemma update_cases:
  assumes "etharp_update_arp_entry cf lo netif ip mac flags s = Some (r, s')" "table_inv (arp_table s)"
  obtains (refused) "s' = s" "r = ERR_ARG \<and> non_unicast ip (netifs s netif)
      \<or> r = ERR_MEM \<and> no_match (Some ip) 10 (arp_table s) \<and> refused flags (arp_table s)"
  | (stored) i where "r = ERR_OK" "i < 10" "arp_table s' = (arp_table s)[i := resolved netif ip mac flags]"
      "etharp_cached_entry s' = etharp_cached_entry s" "\<not> non_unicast ip (netifs s netif)"
      "ae_state (entry s i) \<noteq> ETHARP_STATE_EMPTY \<and> ae_ipaddr (entry s i) = ip
       \<or> no_match (Some ip) 10 (arp_table s) \<and> \<not> refused flags (arp_table s) \<and> victim (arp_table s) i"
proof (cases "non_unicast ip (netifs s netif)")
  case True
  then show thesis using assms refused by (auto simp: etharp_update_arp_entry_def non_unicast_def split: if_splits)
next
  case False
  have hw: "nif_hwaddr_len (netifs s netif) = 6" using assms(1) by (auto simp: etharp_update_arp_entry_def split: if_splits)
  obtain x s1 where find: "etharp_find_entry cf (Some ip) flags s = Some (x, s1)"
    using assms(1) False hw by (auto simp: etharp_update_arp_entry_def non_unicast_def Option.bind_eq_Some_conv)
  have len: "length (arp_table s) = 10" using assms(2) by (rule table_invD)
  from find assms(2) show thesis
  proof (cases rule: find_entry_cases)
    case (hit i)
    then have "send_queued cf lo netif mac (ae_q (entry s i)) (set_table i (resolved netif ip mac flags) s) = Some (r, s')"
      using assms(1) update_eq [OF False hw, of cf flags i s lo mac] find len by simp
    from send_queued_view [OF this] show thesis using stored [of i] hit False by (auto simp: table_view_def set_table_def)
  next
    case miss
    then show thesis
      using refused assms(1) find False hw by (auto simp: etharp_update_arp_entry_def non_unicast_def)
  next
    case (fresh i b)
    then have "send_queued cf lo netif mac (ae_q (entry s1 i)) (set_table i (resolved netif ip mac flags) s1) = Some (r, s')"
      using assms(1) update_eq [OF False hw, of cf flags i s1 lo mac] find len by (simp add: Etharp_Table.fresh_def)
    from send_queued_view [OF this] show thesis using stored [of i] fresh False by (auto simp: table_view_def set_table_def)
  qed
qed

lemma update_inv:
  assumes "etharp_update_arp_entry cf lo netif ip mac flags s = Some (r, s')" "arp_inv s"
  shows "arp_inv s'"
proof -
  have t: "table_inv (arp_table s)" using assms(2) by (simp add: arp_inv_def)
  from assms(1) t show ?thesis
  proof (cases rule: update_cases)
    case refused
    then show ?thesis using assms(2) by simp
  next
    case (stored i)
    have "table_inv ((arp_table s)[i := resolved netif ip mac flags])"
    proof (rule table_inv_update [OF t stored(2)])
      show "\<forall>j<10. j \<noteq> i \<longrightarrow> ae_state (entry s j) \<noteq> ETHARP_STATE_EMPTY \<longrightarrow>
          ae_ipaddr (entry s j) \<noteq> ae_ipaddr (resolved netif ip mac flags)"
        using stored(2,6) table_inv_unique [OF t] by (auto simp: resolved_def no_match_def)
    qed simp
    then show ?thesis using stored assms(2) by (simp add: arp_inv_def)
  qed
qed

section \<open>Every operation keeps the invariant\<close>

lemma arp_inv_entry:
  assumes "arp_inv s" "i < 10" "entry_ok (f (entry s i))" "ae_ipaddr (f (entry s i)) = ae_ipaddr (entry s i)"
    "ae_state (entry s i) \<noteq> ETHARP_STATE_EMPTY"
  shows "arp_inv (set_entry i f s)"
  using assms table_inv_update_same [of "arp_table s" i "f (entry s i)"] by (simp add: arp_inv_def set_entry_def)

lemma arp_inv_cached: "arp_inv s \<Longrightarrow> i < 10 \<Longrightarrow> arp_inv (s\<lparr>etharp_cached_entry := i\<rparr>)"
  by (simp add: arp_inv_def)

lemma tmr_inv: "etharp_tmr cf s = Some s' \<Longrightarrow> arp_inv s \<Longrightarrow> arp_inv s'"
  using etharp_tmr_shape [of cf s s'] table_inv_map [of "arp_table s" tick, OF _ tick_ok]
    table_invD(1) [of "arp_table s"]
  unfolding arp_inv_def by auto

lemma drop_netif_ok:
  "entry_ok e \<Longrightarrow> entry_ok (drop_netif netif e) \<and> ae_ipaddr (drop_netif netif e) = ae_ipaddr e
     \<and> (ae_state (drop_netif netif e) \<noteq> ETHARP_STATE_EMPTY \<longrightarrow> ae_state e \<noteq> ETHARP_STATE_EMPTY)"
  by (auto simp: drop_netif_def) (auto simp: cleared_def)

lemma cleanup_inv: "etharp_cleanup_netif cf netif s = Some s' \<Longrightarrow> arp_inv s \<Longrightarrow> arp_inv s'"
  using cleanup_shape [of cf netif s s'] table_inv_map [of "arp_table s" "drop_netif netif", OF _ drop_netif_ok]
    table_invD(1) [of "arp_table s"]
  unfolding arp_inv_def by auto

lemma remove_inv:
  assumes "etharp_remove_static_entry cf ip s = Some (r, s')" "arp_inv s"
  shows "arp_inv s'"
proof -
  have t: "table_inv (arp_table s)" using assms(2) by (simp add: arp_inv_def)
  obtain x where x: "etharp_find_entry cf (Some ip) ETHARP_FLAG_FIND_ONLY s = Some (x, s)"
    using assms(1) find_only_same [OF _ t] by (auto simp: etharp_remove_static_entry_def Option.bind_eq_Some_conv)
  from x t show ?thesis
  proof (cases rule: find_entry_cases)
    case (hit i)
    then have len: "i < length (arp_table s)" using table_invD(1) [OF t] by simp
    show ?thesis
    proof (cases "ae_state (entry s i) = ETHARP_STATE_STATIC")
      case True
      then have "etharp_free_entry cf i s = Some s'" using assms(1) x hit(1) by (auto simp: etharp_remove_static_entry_def)
      from free_entry_shape [OF this len] show ?thesis
        using assms(2) table_inv_update [OF t hit(3), of "cleared (entry s i)"] by (auto simp: arp_inv_def) (auto simp: cleared_def)
    qed (use assms x hit(1) in \<open>auto simp: etharp_remove_static_entry_def\<close>)
  qed (use assms x find_only in \<open>auto simp: etharp_remove_static_entry_def\<close>)
qed

lemma add_static_inv:
  "etharp_add_static_entry cf lo ip mac s = Some (r, s') \<Longrightarrow> arp_inv s \<Longrightarrow> arp_inv s'"
  by (auto simp: etharp_add_static_entry_def Option.bind_eq_Some_conv split: if_splits
      dest!: ip_route_view update_inv intro: arp_inv_view)

lemma free_pbuf_inv: "free_pbuf cf p s = Some s' \<Longrightarrow> arp_inv s \<Longrightarrow> arp_inv s'"
  using arp_inv_view [OF free_pbuf_view] .

lemma stats_inv: "arp_inv s \<Longrightarrow> arp_inv (ETHARP_STATS_INC f s)"
  by (simp add: arp_inv_iff)

text \<open>The ways \<^verbatim>\<open>etharp_arp_input\<close> ends: all of them free the packet.\<close>

lemma arp_input_cases:
  assumes "etharp_arp_input cf lo netif mac p s = Some s'"
  obtains (dropped) f where
      "free_pbuf cf p (ETHARP_STATS_INC sp_drop_update (ETHARP_STATS_INC f s)) = Some s'"
  | (taken) ip m fl r s1 s2 where
      "etharp_update_arp_entry cf lo netif ip m fl (ETHARP_STATS_INC sp_recv_update s) = Some (r, s1)"
      "table_view s2 = table_view s1" "free_pbuf cf p s2 = Some s'"
proof (cases "len (bufs s) p < SIZEOF_ETHARP_PACKET")
  case True
  then show thesis using assms dropped by (simp add: etharp_arp_input_def split: if_splits)
next
  case False
  show thesis
  proof (cases "arp_hdr_ok (bytes (bufs s)) (payload (bufs s) p + SIZEOF_ETH_HDR)")
    case bad: False
    then show thesis using assms False dropped by (simp add: etharp_arp_input_def Let_def split: if_splits)
  next
    case True
    obtain ip m fl r s1 for_us s2 where
      s1: "etharp_update_arp_entry cf lo netif ip m fl (ETHARP_STATS_INC sp_recv_update s) = Some (r, s1)"
      and s2: "arp_act lo netif mac p (payload (bufs s) p) for_us s1 = Some s2" "free_pbuf cf p s2 = Some s'"
    proof -
      from assms False True show thesis
        unfolding etharp_arp_input_def Let_def
        by (simp only: if_False simp_thms split: if_splits)
          (auto simp only: Option.bind_eq_Some_conv prod.case intro: that)
    qed
    then show thesis using taken arp_act_view by blast
  qed
qed

lemma arp_input_inv:
  assumes "etharp_arp_input cf lo netif mac p s = Some s'" "arp_inv s"
  shows "arp_inv s'"
  using assms(1)
proof (cases rule: arp_input_cases)
  case dropped
  then show ?thesis using assms(2) free_pbuf_inv stats_inv by blast
next
  case (taken ip m fl r s1 s2)
  have "arp_inv s1" using update_inv [OF taken(1)] assms(2) stats_inv by blast
  then show ?thesis using taken(2,3) arp_inv_view free_pbuf_inv by blast
qed

lemma queue_packet_inv:
  assumes "queue_packet cf i q s = Some (r, s')" "arp_inv s" "i < 10" "ae_state (entry s i) = ETHARP_STATE_PENDING"
  shows "arp_inv s'"
proof -
  obtain p b where pb: "packet_to_queue cf q (bufs s) = Some (p, b)"
    using assms(1) by (auto simp: queue_packet_def Option.bind_eq_Some_conv)
  show ?thesis
  proof (cases "p = NULL")
    case True
    then show ?thesis using assms(1,2) pb by (auto simp: queue_packet_def arp_inv_iff)
  next
    case False
    define s0 where "s0 = s\<lparr>bufs := b\<rparr>"
    from False obtain s1 where step: "(if ae_q (entry s0 i) \<noteq> NULL then free_pbuf cf (ae_q (entry s0 i)) s0 else Some s0) = Some s1"
      and s': "s' = set_entry i (\<lambda>e. e\<lparr>ae_q := p\<rparr>) s1"
      using assms(1) pb unfolding queue_packet_def Let_def s0_def by (auto simp: Option.bind_eq_Some_conv)
    have s1: "table_view s1 = table_view (s\<lparr>bufs := b\<rparr>)" "s' = set_entry i (\<lambda>e. e\<lparr>ae_q := p\<rparr>) s1"
      using step s' free_pbuf_view [of cf _ s0 s1] by (auto simp: s0_def split: if_splits)
    then have "arp_inv s1" "entry s1 i = entry s i" using assms(2) by (auto simp: arp_inv_def table_view_def)
    then show ?thesis
      using arp_inv_entry [of s1 i "\<lambda>e. e\<lparr>ae_q := p\<rparr>"] assms(3,4) s1(2) table_invD(2) [of "arp_table s1" i]
      by (simp add: arp_inv_def entry_ok_def)
  qed
qed

lemma output_to_arp_index_inv:
  assumes "etharp_output_to_arp_index cf lo netif q i s = Some (r, s')" "arp_inv s" "i < 10"
  shows "arp_inv s'"
proof (cases "ae_state (entry s i) = ETHARP_STATE_STABLE \<and> ae_ctime (entry s i) \<ge> ARP_AGE_REREQUEST_USED")
  case False
  then show ?thesis
    using assms by (auto simp: etharp_output_to_arp_index_def split: if_splits dest!: send_ip_view intro: arp_inv_view)
next
  case True
  then obtain x s1 s2 where s1: "etharp_request cf lo netif (ae_ipaddr (entry s i)) s = Some (x, s1)"
    and s2: "s2 = (if x = ERR_OK then set_entry i (\<lambda>e. e\<lparr>ae_state := ETHARP_STATE_STABLE_REREQUESTING\<rparr>) s1 else s1)"
    and s': "etharp_send_ip lo netif q (nif_hwaddr (netifs s2 netif)) (ae_ethaddr (entry s2 i)) s2 = Some (r, s')"
    using assms(1) by (auto simp: etharp_output_to_arp_index_def Option.bind_eq_Some_conv split: if_splits)
  have v: "arp_inv s1" "entry s1 i = entry s i"
    using request_view [OF s1] assms(2) by (auto simp: arp_inv_def table_view_def)
  have "arp_inv s2"
    using arp_inv_entry [of s1 i "\<lambda>e. e\<lparr>ae_state := ETHARP_STATE_STABLE_REREQUESTING\<rparr>"] v assms(3) True
      table_invD(2) [of "arp_table s1" i] by (auto simp: s2 arp_inv_def entry_ok_def)
  then show ?thesis using arp_inv_view [OF send_ip_view [OF s']] by blast
qed

text \<open>What the search leaves once the caller has marked a new entry as pending.\<close>

lemma mark_pending_inv:
  assumes "etharp_find_entry cf (Some ip) flags s = Some (Inr i, s1)" "arp_inv s"
    and s2: "s2 = (if ae_state (entry s1 i) = ETHARP_STATE_EMPTY
      then set_entry i (\<lambda>e. e\<lparr>ae_state := ETHARP_STATE_PENDING\<rparr>) s1 else s1)"
  shows "arp_inv s2" "i < 10" "ae_state (entry s2 i) \<noteq> ETHARP_STATE_EMPTY"
proof -
  have t: "table_inv (arp_table s)" using assms(2) by (simp add: arp_inv_def)
  have "arp_inv s2 \<and> i < 10 \<and> ae_state (entry s2 i) \<noteq> ETHARP_STATE_EMPTY"
    using assms(1) t
  proof (cases rule: find_entry_cases)
    case (hit j)
    then show ?thesis using s2 assms(2) by simp
  next
    case (fresh j b)
    define e where "e = (Etharp_Table.fresh ip (entry s i))\<lparr>ae_state := ETHARP_STATE_PENDING\<rparr>"
    have i: "i = j" "i < 10" "i < length (arp_table s)" using fresh(1,2) table_invD(1) [OF t] by auto
    have "arp_table s2 = (arp_table s)[i := e]" "etharp_cached_entry s2 = etharp_cached_entry s"
      using fresh(6) i s2 by (auto simp: e_def Etharp_Table.fresh_def set_entry_def)
    moreover have "table_inv ((arp_table s)[i := e])"
      using fresh(3) by (intro table_inv_update [OF t i(2)]) (auto simp: e_def Etharp_Table.fresh_def entry_ok_def no_match_def)
    ultimately show ?thesis using assms(2) i by (simp add: arp_inv_def e_def)
  qed simp
  then show "arp_inv s2" "i < 10" "ae_state (entry s2 i) \<noteq> ETHARP_STATE_EMPTY" by auto
qed

lemma query_entry_inv:
  assumes "query_entry cf lo netif ip q i s = Some (r, s')" "arp_inv s" "i < 10"
  shows "arp_inv s'"
proof -
  obtain result s3 where s3: "(if ae_state (entry s i) = ETHARP_STATE_PENDING \<or> q = NULL
      then etharp_request cf lo netif ip s else Some (ERR_MEM, s)) = Some (result, s3)"
    and rest: "(if q = NULL then Some (result, s3)
           else if ae_state (entry s3 i) \<ge> ETHARP_STATE_STABLE
           then etharp_send_ip lo netif q (nif_hwaddr (netifs s3 netif)) (ae_ethaddr (entry s3 i))
                  (s3\<lparr>etharp_cached_entry := i\<rparr>)
           else if ae_state (entry s3 i) = ETHARP_STATE_PENDING then queue_packet cf i q s3
           else Some (result, s3)) = Some (r, s')"
    using assms(1) unfolding query_entry_def by (simp split: if_split_asm) (auto simp: Option.bind_eq_Some_conv)
  have "table_view s3 = table_view s" using s3 request_view by (auto split: if_splits)
  then have s3i: "arp_inv s3" using assms(2) arp_inv_view by blast
  then have "arp_inv (s3\<lparr>etharp_cached_entry := i\<rparr>)" using assms(3) arp_inv_cached by blast
  then show ?thesis
    using rest s3i assms(3) by (auto split: if_splits dest: arp_inv_view [OF send_ip_view] queue_packet_inv)
qed

lemma query_inv:
  assumes "etharp_query cf lo netif ip q s = Some (r, s')" "arp_inv s"
  shows "arp_inv s'"
proof (cases "non_unicast ip (netifs s netif)")
  case True
  then show ?thesis using assms by (auto simp: etharp_query_def non_unicast_def)
next
  case uni: False
  have t: "table_inv (arp_table s)" using assms(2) by (simp add: arp_inv_def)
  obtain x s1 where find: "etharp_find_entry cf (Some ip) ETHARP_FLAG_TRY_HARD s = Some (x, s1)"
    using assms(1) uni by (auto simp: etharp_query_def non_unicast_def Option.bind_eq_Some_conv)
  show ?thesis
  proof (cases x)
    case (Inl e)
    then have "s1 = s" using find t by (auto elim: find_entry_cases)
    then show ?thesis using assms uni find Inl stats_inv by (auto simp: etharp_query_def non_unicast_def split: if_splits)
  next
    case (Inr i)
    define s2 where "s2 = (if ae_state (entry s1 i) = ETHARP_STATE_EMPTY
      then set_entry i (\<lambda>e. e\<lparr>ae_state := ETHARP_STATE_PENDING\<rparr>) s1 else s1)"
    note m = mark_pending_inv [OF find [unfolded Inr] assms(2) s2_def]
    have "query_entry cf lo netif ip q i s2 = Some (r, s')"
      using assms(1) uni find unfolding etharp_query_def non_unicast_def Inr s2_def by simp
    then show ?thesis using query_entry_inv m by blast
  qed
qed

lemma output_inv:
  assumes "etharp_output cf lo netif q ip s = Some (r, s')" "arp_inv s"
  shows "arp_inv s'"
proof -
  have uni: "arp_inv s2" if "output_unicast cf lo netif q dst s1 = Some (x, s2)" "arp_inv s1" for dst s1 x s2
  proof -
    have stable: "i < 10" if "find_stable dst 0 (arp_table s1) = Some i" for i
    proof -
      have "find_stable dst k es = Some i \<Longrightarrow> i < k + length es" for k es by (induction dst k es rule: find_stable.induct) (auto split: if_splits)
      from this [OF that] show ?thesis using \<open>arp_inv s1\<close> by (simp add: arp_inv_def table_inv_def)
    qed
    have "etharp_cached_entry s1 < 10" using \<open>arp_inv s1\<close> by (simp add: arp_inv_def)
    then show ?thesis
      using that stats_inv [OF that(2)] stable arp_inv_cached [OF that(2)]
      by (auto simp: output_unicast_def split: if_splits option.splits dest: output_to_arp_index_inv query_inv)
  qed
  obtain k b where hdr: "pbuf_header q 14 (bufs s) = Some (k, b)"
    using assms(1) by (auto simp: etharp_output_def Option.bind_eq_Some_conv split: if_splits)
  have inv: "arp_inv (s\<lparr>bufs := b\<rparr>)" "arp_inv (LINK_STATS_INC f (s\<lparr>bufs := b\<rparr>))" for f
    using assms(2) by (simp_all add: arp_inv_iff)
  show ?thesis
    using assms(1) hdr inv unfolding etharp_output_def Let_def
    by (auto split: if_splits dest: uni [OF _ inv(1)] arp_inv_view [OF send_ip_view])
qed

section \<open>Operations return, and give back what they own\<close>

lemma poke_simps [simp]:
  "netifs (poke x xs s) = netifs s" "pbufs (bufs (poke x xs s)) = pbufs (bufs s)" "heap (bufs (poke x xs s)) = heap (bufs s)"
  "pools (bufs (poke x xs s)) = pools (bufs s)" "frames (poke x xs s) = frames s"
  "bytes (bufs (poke x xs s)) = put_bytes x xs (bytes (bufs s))"
  by (simp_all add: poke_def)

lemma refs_ok_poke [simp]: "refs_ok sizes a (bufs (poke x xs s)) R = refs_ok sizes a (bufs s) R"
  by (rule refs_ok_cong) simp_all

text \<open>An Ethernet frame with the header filled in.\<close>

definition eth_frame :: "u8_t list \<Rightarrow> u8_t list \<Rightarrow> u8_t list \<Rightarrow> u8_t list" where
  "eth_frame dst src d = dst @ src @ [0x08, 0x00] @ drop 14 d"

lemma put_bytes_outside: "x + n \<le> a \<or> a + length xs \<le> x \<Longrightarrow> mem_bytes (put_bytes a xs b) x n = mem_bytes b x n"
  by (rule mem_bytes_cong) (auto simp: put_bytes_def)

lemma put_bytes_exact: "length xs = n \<Longrightarrow> mem_bytes (put_bytes a xs b) a n = xs"
  by (rule nth_equalityI) (auto simp: put_bytes_def)

lemma ethtype_ip_bytes: "bytes_of_u16 (lwip_htons ETHTYPE_IP) = [0x08, 0x00]"
  by (simp add: bytes_of_u16_def lwip_htons_def)

lemma eth_header_bytes:
  assumes "length dst = 6" "length src = 6" "14 \<le> n"
  shows "mem_bytes (put_bytes (e + 12) [0x08, 0x00] (put_bytes (e + 6) src (put_bytes e dst b))) e n
    = eth_frame dst src (mem_bytes b e n)"
proof -
  let ?b = "put_bytes (e + 12) [0x08, 0x00] (put_bytes (e + 6) src (put_bytes e dst b))"
  obtain k where "n = 14 + k" using assms(3) le_iff_add by blast
  then have n: "n = 6 + (6 + (2 + k))" by simp
  have "mem_bytes ?b e n = mem_bytes ?b e 6 @ mem_bytes ?b (e + 6) 6 @ mem_bytes ?b (e + 6 + 6) 2 @ mem_bytes ?b (e + 6 + 6 + 2) k"
    unfolding n by (simp only: mem_bytes_append)
  moreover have "e + 6 + 6 = e + 12" "e + 6 + 6 + 2 = e + 14" by simp_all
  moreover have "mem_bytes ?b e 6 = dst" "mem_bytes ?b (e + 6) 6 = src" "mem_bytes ?b (e + 12) 2 = [0x08, 0x00]"
    "mem_bytes ?b (e + 14) k = mem_bytes b (e + 14) k"
    using assms by (simp_all add: put_bytes_outside put_bytes_exact)
  ultimately have "mem_bytes ?b e n = dst @ src @ [0x08, 0x00] @ mem_bytes b (e + 14) k" by metis
  then show ?thesis unfolding eth_frame_def n by simp
qed

text \<open>At most the 14 bytes at \<open>e\<close> and the reference counts have changed.\<close>

definition header_only :: "addr \<Rightarrow> pbuf_state \<Rightarrow> pbuf_state \<Rightarrow> bool" where
  "header_only e b b' \<longleftrightarrow> (\<forall>x. x < e \<or> e + 14 \<le> x \<longrightarrow> bytes b' x = bytes b x)
     \<and> (\<forall>x. \<exists>r. pbufs b' x = (pbufs b x)\<lparr>pb_ref := r\<rparr>)"

lemma header_only_same: "same_data b b' \<Longrightarrow> header_only e b b'"
  by (simp add: header_only_def same_data_def)

lemma header_only_trans:
  assumes "header_only e b b'" "header_only e b' b''"
  shows "header_only e b b''"
proof -
  have "\<exists>r. pbufs b'' x = (pbufs b x)\<lparr>pb_ref := r\<rparr>" for x
  proof -
    obtain r r' where "pbufs b' x = (pbufs b x)\<lparr>pb_ref := r\<rparr>" "pbufs b'' x = (pbufs b' x)\<lparr>pb_ref := r'\<rparr>"
      using assms unfolding header_only_def by metis
    then show ?thesis by auto
  qed
  then show ?thesis using assms by (simp add: header_only_def)
qed

lemma header_onlyD:
  assumes "header_only e b b'"
  shows "payload b' p = payload b p" "len b' p = len b p"
    "x + n \<le> e \<or> e + 14 \<le> x \<Longrightarrow> mem_bytes (bytes b') x n = mem_bytes (bytes b) x n"
proof -
  obtain r where "pbufs b' p = (pbufs b p)\<lparr>pb_ref := r\<rparr>" using assms by (auto simp: header_only_def)
  then show "payload b' p = payload b p" "len b' p = len b p" by simp_all
  show "x + n \<le> e \<or> e + 14 \<le> x \<Longrightarrow> mem_bytes (bytes b') x n = mem_bytes (bytes b) x n"
    using assms by (intro mem_bytes_cong) (auto simp: header_only_def)
qed

lemma send_ip_eq:
  assumes "nif_hwaddr_len (netifs s netif) = 6"
  shows "\<exists>s1. etharp_send_ip lo netif p src dst s = Some (lo netif p (bufs s1), s1\<lparr>frames := frames s @ [(netif, p, pdata (bufs s1) p)]\<rparr>)
    \<and> table_view s1 = table_view s \<and> netifs s1 = netifs s \<and> pbufs (bufs s1) = pbufs (bufs s)
    \<and> (\<forall>sizes a R. refs_ok sizes a (bufs s1) R = refs_ok sizes a (bufs s) R)
    \<and> (length src = 6 \<and> length dst = 6 \<and> 14 \<le> len (bufs s) p \<longrightarrow> pdata (bufs s1) p = eth_frame dst src (pdata (bufs s) p))
    \<and> (length src = 6 \<and> length dst = 6 \<longrightarrow> header_only (payload (bufs s) p) (bufs s) (bufs s1))"
proof -
  define e where "e = payload (bufs s) p"
  define s1 where "s1 = poke (e + 12) (bytes_of_u16 (lwip_htons ETHTYPE_IP)) (poke (e + 6) src (poke e dst s))"
  have "etharp_send_ip lo netif p src dst s = Some (lo netif p (bufs s1), s1\<lparr>frames := frames s @ [(netif, p, pdata (bufs s1) p)]\<rparr>)"
    using assms by (simp add: etharp_send_ip_def Let_def linkoutput_def s1_def e_def)
  moreover have "pdata (bufs s1) p = eth_frame dst src (pdata (bufs s) p)"
    if "length src = 6" "length dst = 6" "14 \<le> len (bufs s) p"
    using eth_header_bytes [OF that(2,1,3), of "payload (bufs s) p" "bytes (bufs s)"]
    unfolding pdata_def s1_def ethtype_ip_bytes by (simp add: e_def)
  moreover have "header_only e (bufs s) (bufs s1)" if "length src = 6" "length dst = 6"
  proof -
    have "\<exists>r. x = x\<lparr>pb_ref := r\<rparr>" for x :: pbuf by (metis pbuf.surjective pbuf.update_convs(7))
    then show ?thesis using that by (simp add: header_only_def s1_def poke_def ethtype_ip_bytes put_bytes_def)
  qed
  ultimately show ?thesis unfolding e_def by (intro exI [of _ s1]) (simp add: s1_def)
qed

lemma send_queued_total:
  assumes "nif_hwaddr_len (netifs s netif) = 6"
    and "refs_ok sizes a (bufs s) ((if q = NULL then {#} else {#q#}) + R)"
  shows "\<exists>s'. send_queued cf lo netif mac q s = Some (ERR_OK, s') \<and> refs_ok sizes a (bufs s') R
    \<and> table_view s' = table_view s \<and> netifs s' = netifs s
    \<and> (q = NULL \<longrightarrow> s' = s)
    \<and> (length mac = 6 \<and> length (nif_hwaddr (netifs s netif)) = 6 \<longrightarrow> header_only (payload (bufs s) q) (bufs s) (bufs s'))
    \<and> (q \<noteq> NULL \<and> length mac = 6 \<and> length (nif_hwaddr (netifs s netif)) = 6 \<and> 14 \<le> len (bufs s) q \<longrightarrow>
       frames s' = frames s @ [(netif, q, eth_frame mac (nif_hwaddr (netifs s netif)) (pdata (bufs s) q))])"
proof (cases "q = NULL")
  case True
  then show ?thesis using assms(2) by (simp add: send_queued_def header_only_same)
next
  case False
  obtain s1 where s1: "etharp_send_ip lo netif q (nif_hwaddr (netifs s netif)) mac s
      = Some (lo netif q (bufs s1), s1\<lparr>frames := frames s @ [(netif, q, pdata (bufs s1) q)]\<rparr>)"
    "table_view s1 = table_view s" "netifs s1 = netifs s" "refs_ok sizes a (bufs s1) X = refs_ok sizes a (bufs s) X"
    "length (nif_hwaddr (netifs s netif)) = 6 \<and> length mac = 6 \<and> 14 \<le> len (bufs s) q \<longrightarrow>
       pdata (bufs s1) q = eth_frame mac (nif_hwaddr (netifs s netif)) (pdata (bufs s) q)"
    "length (nif_hwaddr (netifs s netif)) = 6 \<and> length mac = 6 \<longrightarrow> header_only (payload (bufs s) q) (bufs s) (bufs s1)" for X
    using send_ip_eq [OF assms(1)] by metis
  define s2 where "s2 = s1\<lparr>frames := frames s @ [(netif, q, pdata (bufs s1) q)]\<rparr>"
  have "refs_ok sizes a (bufs s2) (add_mset q R)" using assms(2) False s1(4) by (simp add: s2_def)
  from free_pbuf_refs [OF this, of cf] obtain b where "free_pbuf cf q s2 = Some (s2\<lparr>bufs := b\<rparr>)" "refs_ok sizes a b R" "same_data (bufs s1) b"
    by (auto simp: s2_def)
  then have "send_queued cf lo netif mac q s = Some (ERR_OK, s2\<lparr>bufs := b\<rparr>)" "refs_ok sizes a (bufs (s2\<lparr>bufs := b\<rparr>)) R"
      "header_only e (bufs s1) b" for e
    using False s1(1) header_only_same by (simp_all add: send_queued_def s2_def)
  then show ?thesis using False s1(2,3,5,6) header_only_trans [of "payload (bufs s) q" "bufs s" "bufs s1" b]
    by (intro exI [of _ "s2\<lparr>bufs := b\<rparr>"]) (simp add: s2_def)
qed

text \<open>\<open>waiting s ip\<close> is the packet that waits for the address \<open>ip\<close>.\<close>

definition waiting :: "arp_state \<Rightarrow> u32_t \<Rightarrow> addr" where
  "waiting s ip = (case List.find (\<lambda>e. ae_state e \<noteq> ETHARP_STATE_EMPTY \<and> ae_ipaddr e = ip) (arp_table s) of
     Some e \<Rightarrow> ae_q e | None \<Rightarrow> NULL)"

lemma waiting_hit:
  assumes "table_inv (arp_table s)" "i < 10" "ae_state (entry s i) \<noteq> ETHARP_STATE_EMPTY" "ae_ipaddr (entry s i) = ip"
  shows "waiting s ip = ae_q (entry s i)"
proof -
  let ?P = "\<lambda>e. ae_state e \<noteq> ETHARP_STATE_EMPTY \<and> ae_ipaddr e = ip"
  have len: "length (arp_table s) = 10" using table_invD(1) [OF assms(1)] .
  then have "List.find ?P (arp_table s) \<noteq> None" using assms(2-4) unfolding find_None_iff by (metis nth_mem)
  then obtain e where e: "List.find ?P (arp_table s) = Some e" by blast
  then obtain j where "j < 10" "?P (entry s j)" "e = entry s j" using len unfolding find_Some_iff by auto
  then show ?thesis using table_inv_unique [OF assms(1), of j i] assms(2-4) e by (simp add: waiting_def)
qed

lemma waiting_none: "no_match (Some ip) 10 (arp_table s) \<Longrightarrow> length (arp_table s) = 10 \<Longrightarrow> waiting s ip = NULL"
proof -
  assume "no_match (Some ip) 10 (arp_table s)" "length (arp_table s) = 10"
  then have "List.find (\<lambda>e. ae_state e \<noteq> ETHARP_STATE_EMPTY \<and> ae_ipaddr e = ip) (arp_table s) = None"
    unfolding find_None_iff by (auto simp: no_match_def in_set_conv_nth)
  then show ?thesis by (simp add: waiting_def)
qed

lemma update_total:
  assumes inv: "table_inv (arp_table s)" and refs: "arp_refs sizes a s R" and hw: "nif_hwaddr_len (netifs s netif) = 6"
  shows "\<exists>r s'. etharp_update_arp_entry cf lo netif ip mac flags s = Some (r, s') \<and> arp_refs sizes a s' R
    \<and> netifs s' = netifs s
    \<and> (waiting s ip = NULL \<or> non_unicast ip (netifs s netif) \<longrightarrow> frames s' = frames s \<and> same_data (bufs s) (bufs s'))
    \<and> (waiting s ip \<noteq> NULL \<and> r = ERR_OK \<and> length mac = 6 \<and> length (nif_hwaddr (netifs s netif)) = 6
         \<and> 14 \<le> len (bufs s) (waiting s ip) \<longrightarrow>
       frames s' = frames s @ [(netif, waiting s ip, eth_frame mac (nif_hwaddr (netifs s netif)) (pdata (bufs s) (waiting s ip)))])
    \<and> (waiting s ip \<noteq> NULL \<and> \<not> non_unicast ip (netifs s netif) \<longrightarrow> r = ERR_OK)
    \<and> (length mac = 6 \<and> length (nif_hwaddr (netifs s netif)) = 6 \<longrightarrow>
       header_only (payload (bufs s) (waiting s ip)) (bufs s) (bufs s'))"
proof (cases "non_unicast ip (netifs s netif)")
  case True
  then show ?thesis using refs hw header_only_same [OF same_data_refl] by (simp add: etharp_update_arp_entry_def non_unicast_def)
next
  case False
  obtain x s1 where find: "etharp_find_entry cf (Some ip) flags s = Some (x, s1)" "arp_refs sizes a s1 R"
      "same_data (bufs s) (bufs s1)" using find_entry_total [OF inv refs] by blast
  have len: "length (arp_table s) = 10" using table_invD(1) [OF inv] .
  have finish: ?thesis
    if i: "x = Inr i" "i < length (arp_table s1)" "ae_ipaddr (entry s1 i) = ip" "ae_q (entry s1 i) = waiting s ip"
      and same: "netifs s1 = netifs s" "frames s1 = frames s" for i
  proof -
    let ?q = "waiting s ip" and ?s2 = "set_table i (resolved netif ip mac flags) s1"
    have "refs_ok sizes a (bufs ?s2) ((if ?q = NULL then {#} else {#?q#}) + (queues (arp_table ?s2) + R))"
      using find(2) queues_split [OF i(2)] i(4)
      by (cases "?q = NULL") (simp_all add: arp_refs_def set_table_def resolved_def)
    moreover have "nif_hwaddr_len (netifs ?s2 netif) = 6" using hw same by (simp add: set_table_def)
    ultimately obtain s' where s': "send_queued cf lo netif mac ?q ?s2 = Some (ERR_OK, s')"
        "refs_ok sizes a (bufs s') (queues (arp_table ?s2) + R)" "table_view s' = table_view ?s2" "netifs s' = netifs ?s2"
        "?q = NULL \<longrightarrow> s' = ?s2"
        "length mac = 6 \<and> length (nif_hwaddr (netifs ?s2 netif)) = 6 \<longrightarrow> header_only (payload (bufs ?s2) ?q) (bufs ?s2) (bufs s')"
        "?q \<noteq> NULL \<and> length mac = 6 \<and> length (nif_hwaddr (netifs ?s2 netif)) = 6 \<and> 14 \<le> len (bufs ?s2) ?q \<longrightarrow>
          frames s' = frames ?s2 @ [(netif, ?q, eth_frame mac (nif_hwaddr (netifs ?s2 netif)) (pdata (bufs ?s2) ?q))]"
      using send_queued_total by blast
    moreover have "arp_refs sizes a s' R" using s'(2,3) by (simp add: arp_refs_def table_view_def)
    moreover have "etharp_update_arp_entry cf lo netif ip mac flags s = Some (ERR_OK, s')"
      using update_eq [OF False hw find(1) [unfolded i(1)] i(2,3), of lo mac] s'(1) i(4) by simp
    moreover have "bufs ?s2 = bufs s1" "netifs ?s2 = netifs s" "frames ?s2 = frames s" using same by (simp_all add: set_table_def)
    ultimately show ?thesis
      using find(3) same_dataD [OF find(3)] header_only_trans [OF header_only_same [OF find(3)]] False
      by (intro exI [of _ ERR_OK] exI [of _ s']) auto
  qed
  from find(1) inv show ?thesis
  proof (cases rule: find_entry_cases)
    case (hit i)
    then show ?thesis using finish [of i] waiting_hit [OF inv hit(3-5)] len by simp
  next
    case miss
    then have "etharp_update_arp_entry cf lo netif ip mac flags s = Some (ERR_MEM, s)"
      using find(1) False hw by (simp add: etharp_update_arp_entry_def non_unicast_def)
    then show ?thesis using refs waiting_none [OF miss(3) len] header_only_same [OF same_data_refl] by simp
  next
    case (fresh i b)
    then show ?thesis using finish [of i] waiting_none len by (simp add: Etharp_Table.fresh_def)
  qed
qed

section \<open>Answering a request\<close>

text \<open>The reply that takes the place of a request: \<open>sha\<close> and \<open>spa\<close> are the sender's addresses in the request.\<close>

definition arp_reply_frame :: "u8_t list \<Rightarrow> u32_t \<Rightarrow> u8_t list \<Rightarrow> u8_t list" where
  "arp_reply_frame mac ip d =
     (let sha = take 6 (drop 22 d); spa = take 4 (drop 28 d)
      in sha @ mac @ take 2 (drop 12 d) @ take 6 (drop 14 d) @ [0, 2] @ mac @ bytes_of_u32 ip @ sha @ spa @ drop 42 d)"

lemma reply_bytes:
  assumes "length mac = 6" "length ipb = 4" "42 \<le> n"
    and b1: "b1 = put_bytes (e + 14 + 6) [0, 2] b"
    and b2: "b2 = put_bytes (e + 14 + 24) (mem_bytes b1 (e + 14 + 14) 4) b1"
    and b3: "b3 = put_bytes (e + 14 + 14) ipb b2"
    and b4: "b4 = put_bytes (e + 14 + 18) (mem_bytes b3 (e + 14 + 8) 6) b3"
    and b5: "b5 = put_bytes e (mem_bytes b4 (e + 14 + 8) 6) b4"
    and b6: "b6 = put_bytes (e + 14 + 8) mac b5"
    and b7: "b7 = put_bytes (e + 6) mac b6"
  shows "mem_bytes b7 e n = mem_bytes b (e + 22) 6 @ mac @ mem_bytes b (e + 12) 2 @ mem_bytes b (e + 14) 6 @ [0, 2] @ mac @ ipb
    @ mem_bytes b (e + 22) 6 @ mem_bytes b (e + 28) 4 @ mem_bytes b (e + 42) (n - 42)"
proof -
  obtain k where k: "n = 42 + k" using assms(3) le_iff_add by blast
  then have n: "n = 6 + (6 + (2 + (6 + (2 + (6 + (4 + (6 + (4 + k))))))))" by simp
  have pos: "e + 6 + 6 = e + 12" "e + 12 + 2 = e + 14" "e + 14 + 6 = e + 20" "e + 20 + 2 = e + 22" "e + 22 + 6 = e + 28"
    "e + 28 + 4 = e + 32" "e + 32 + 6 = e + 38" "e + 38 + 4 = e + 42" "e + 14 + 14 = e + 28" "e + 14 + 24 = e + 38"
    "e + 14 + 18 = e + 32" "e + 14 + 8 = e + 22" by simp_all
  have split: "mem_bytes b7 e n = mem_bytes b7 e 6 @ mem_bytes b7 (e + 6) 6 @ mem_bytes b7 (e + 12) 2 @ mem_bytes b7 (e + 14) 6
    @ mem_bytes b7 (e + 20) 2 @ mem_bytes b7 (e + 22) 6 @ mem_bytes b7 (e + 28) 4 @ mem_bytes b7 (e + 32) 6 @ mem_bytes b7 (e + 38) 4
    @ mem_bytes b7 (e + 42) k"
    unfolding n by (simp only: mem_bytes_append pos)
  note out = put_bytes_outside and ex = put_bytes_exact
  have spa: "mem_bytes b1 (e + 28) 4 = mem_bytes b (e + 28) 4" unfolding b1 pos by (simp add: out)
  have sha3: "mem_bytes b3 (e + 22) 6 = mem_bytes b (e + 22) 6" unfolding b3 b2 b1 pos by (simp add: out assms)
  have sha4: "mem_bytes b4 (e + 22) 6 = mem_bytes b (e + 22) 6" unfolding b4 pos by (simp add: out sha3)
  have 7: "mem_bytes b7 (e + 6) 6 = mac" unfolding b7 by (simp add: ex assms)
  have 6: "mem_bytes b7 (e + 22) 6 = mac" unfolding b7 b6 pos by (simp add: out ex assms)
  have 5: "mem_bytes b7 e 6 = mem_bytes b (e + 22) 6" unfolding b7 b6 b5 pos sha4 by (simp add: out ex assms)
  have 4: "mem_bytes b7 (e + 32) 6 = mem_bytes b (e + 22) 6" unfolding b7 b6 b5 b4 pos sha3 by (simp add: out ex assms)
  have 3: "mem_bytes b7 (e + 28) 4 = ipb" unfolding b7 b6 b5 b4 b3 pos by (simp add: out ex assms)
  have 2: "mem_bytes b7 (e + 38) 4 = mem_bytes b (e + 28) 4" unfolding b7 b6 b5 b4 b3 b2 pos spa by (simp add: out ex assms)
  have 1: "mem_bytes b7 (e + 20) 2 = [0, 2]" unfolding b7 b6 b5 b4 b3 b2 b1 pos by (simp add: out ex assms)
  have 0: "mem_bytes b7 (e + 12) 2 = mem_bytes b (e + 12) 2" "mem_bytes b7 (e + 14) 6 = mem_bytes b (e + 14) 6"
    "mem_bytes b7 (e + 42) k = mem_bytes b (e + 42) k"
    unfolding b7 b6 b5 b4 b3 b2 b1 pos by (simp_all add: out assms)
  show ?thesis unfolding split 0 1 2 3 4 5 6 7 using k by simp
qed

lemma length_bytes_of_u32 [simp]: "length (bytes_of_u32 x) = 4"
  by (simp add: bytes_of_u32_def)

lemma arp_reply_bytes: "bytes_of_u16 (lwip_htons ARP_REPLY) = [0, 2]"
  by (simp add: bytes_of_u16_def lwip_htons_def)

lemma reply_in_place_eq:
  assumes "nif_hwaddr_len (netifs s netif) = 6" "length mac = 6" "42 \<le> len (bufs s) p"
  shows "\<exists>s'. arp_reply_in_place netif (payload (bufs s) p) mac s = Some s'
    \<and> netifs s' = netifs s \<and> frames s' = frames s \<and> arp_table s' = arp_table s
    \<and> (\<forall>sizes a R. refs_ok sizes a (bufs s') R = refs_ok sizes a (bufs s) R)
    \<and> pdata (bufs s') p = arp_reply_frame mac (nif_ip_addr (netifs s netif)) (pdata (bufs s) p)"
proof -
  define e where "e = payload (bufs s) p"
  define s1 where "s1 = poke (e + 14 + 6) (bytes_of_u16 (lwip_htons ARP_REPLY)) s"
  define s2 where "s2 = poke (e + 14 + 24) (peek s1 (e + 14 + 14) 4) s1"
  define s3 where "s3 = poke (e + 14 + 14) (bytes_of_u32 (nif_ip_addr (netifs s netif))) s2"
  define s4 where "s4 = poke (e + 14 + 18) (peek s3 (e + 14 + 8) 6) s3"
  define s5 where "s5 = poke e (peek s4 (e + 14 + 8) 6) s4"
  define s6 where "s6 = poke (e + 14 + 8) mac s5"
  define s7 where "s7 = poke (e + 6) mac s6"
  note defs = s1_def s2_def s3_def s4_def s5_def s6_def s7_def
  have n: "netifs s2 = netifs s" "netifs s3 = netifs s" by (simp_all add: defs)
  have "arp_reply_in_place netif e mac s = Some s7"
    using assms(1) n unfolding arp_reply_in_place_def Let_def
    unfolding s1_def [symmetric] s2_def [symmetric] n s3_def [symmetric] s4_def [symmetric] s5_def [symmetric] s6_def [symmetric] s7_def [symmetric]
    by simp
  moreover have "mem_bytes (bytes (bufs s7)) e (len (bufs s) p) = arp_reply_frame mac (nif_ip_addr (netifs s netif)) (pdata (bufs s) p)"
    unfolding arp_reply_frame_def pdata_def Let_def
    by (subst reply_bytes [where b = "bytes (bufs s)" and ipb = "bytes_of_u32 (nif_ip_addr (netifs s netif))" and mac = mac
          and ?b1.0 = "bytes (bufs s1)" and ?b2.0 = "bytes (bufs s2)" and ?b3.0 = "bytes (bufs s3)" and ?b4.0 = "bytes (bufs s4)"
          and ?b5.0 = "bytes (bufs s5)" and ?b6.0 = "bytes (bufs s6)"])
      (use assms in \<open>simp_all add: defs arp_reply_bytes e_def\<close>)
  ultimately show ?thesis
    by (intro exI [of _ s7]) (simp add: e_def defs pdata_def, simp add: poke_def)
qed

lemma reply_total:
  assumes "nif_hwaddr_len (netifs s netif) = 6"
  shows "\<exists>s'. arp_reply_in_place netif e mac s = Some s' \<and> arp_table s' = arp_table s
    \<and> (\<forall>sizes a R. refs_ok sizes a (bufs s') R = refs_ok sizes a (bufs s) R)"
  using assms by (simp add: arp_reply_in_place_def Let_def) (simp add: poke_def refs_ok_def counted_def pbuf_inv_def owned_def key_def live_def)

lemma arp_refs_stats [simp]: "arp_refs sizes a (ETHARP_STATS_INC f s) R = arp_refs sizes a s R"
  by (simp add: arp_refs_def ETHARP_STATS_INC_def)

lemma stats_simps [simp]:
  "arp_table (ETHARP_STATS_INC f s) = arp_table s" "netifs (ETHARP_STATS_INC f s) = netifs s" "bufs (ETHARP_STATS_INC f s) = bufs s"
  "frames (ETHARP_STATS_INC f s) = frames s" "waiting (ETHARP_STATS_INC f s) = waiting s"
  by (simp_all add: ETHARP_STATS_INC_def waiting_def fun_eq_iff)

lemma arp_act_total:
  assumes "nif_hwaddr_len (netifs s netif) = 6" "arp_refs sizes a s R"
  shows "\<exists>s'. arp_act lo netif mac p e for_us s = Some s' \<and> arp_refs sizes a s' R"
  using assms(2) reply_total [OF assms(1), of e mac]
  by (auto simp: arp_act_def Let_def linkoutput_def arp_refs_def)

lemma free_pbuf_total:
  assumes "arp_refs sizes a s (add_mset p R)"
  shows "\<exists>b. free_pbuf cf p s = Some (s\<lparr>bufs := b\<rparr>) \<and> arp_refs sizes a (s\<lparr>bufs := b\<rparr>) R"
  using free_pbuf_refs [of sizes a s p "queues (arp_table s) + R" cf] assms by (auto simp: arp_refs_def)

text \<open>The body of \<^verbatim>\<open>etharp_arp_input\<close> on a well-formed packet.\<close>

lemma arp_input_eq:
  assumes "netif \<noteq> NULL" "\<not> len (bufs s) p < SIZEOF_ETHARP_PACKET" "e = payload (bufs s) p" "arp_hdr_ok (bytes (bufs s)) (e + 14)"
    and "n = netifs s netif"
    and "for_us \<longleftrightarrow> nif_ip_addr n \<noteq> IPADDR_ANY \<and> get_u32 (bytes (bufs s)) (e + 14 + 24) = nif_ip_addr n"
  shows "etharp_arp_input cf lo netif mac p s =
    etharp_update_arp_entry cf lo netif (get_u32 (bytes (bufs s)) (e + 14 + 14)) (mem_bytes (bytes (bufs s)) (e + 14 + 8) 6)
      (if for_us then ETHARP_FLAG_TRY_HARD else ETHARP_FLAG_FIND_ONLY) (ETHARP_STATS_INC sp_recv_update s)
    \<bind> (\<lambda>(_, s). arp_act lo netif mac p e for_us s \<bind> free_pbuf cf p)"
  using assms(1,2,4) unfolding etharp_arp_input_def Let_def assms(3,5,6) stats_simps by simp

lemma arp_input_total:
  assumes inv: "arp_inv s" and refs: "arp_refs sizes a s (add_mset p R)"
    and "netif \<noteq> NULL" and hw: "nif_hwaddr_len (netifs s netif) = 6"
  shows "\<exists>s'. etharp_arp_input cf lo netif mac p s = Some s' \<and> arp_refs sizes a s' R"
proof -
  consider (short) "len (bufs s) p < SIZEOF_ETHARP_PACKET"
    | (bad) "\<not> len (bufs s) p < SIZEOF_ETHARP_PACKET" "\<not> arp_hdr_ok (bytes (bufs s)) (payload (bufs s) p + 14)"
    | (good) "\<not> len (bufs s) p < SIZEOF_ETHARP_PACKET" "arp_hdr_ok (bytes (bufs s)) (payload (bufs s) p + 14)" by blast
  then show ?thesis
  proof cases
    case short
    then show ?thesis
      using free_pbuf_total [of sizes a "ETHARP_STATS_INC sp_drop_update (ETHARP_STATS_INC sp_lenerr_update s)" p R cf] refs assms(3)
      by (auto simp: etharp_arp_input_def)
  next
    case bad
    then show ?thesis
      using free_pbuf_total [of sizes a "ETHARP_STATS_INC sp_drop_update (ETHARP_STATS_INC sp_proterr_update s)" p R cf] refs assms(3)
      by (auto simp: etharp_arp_input_def Let_def)
  next
    case good
    define e where "e = payload (bufs s) p"
    define n where "n = netifs s netif"
    define for_us where "for_us \<longleftrightarrow> nif_ip_addr n \<noteq> IPADDR_ANY \<and> get_u32 (bytes (bufs s)) (e + 14 + 24) = nif_ip_addr n"
    note eq = arp_input_eq [OF assms(3) good(1) e_def good(2) [folded e_def] n_def for_us_def, of cf lo mac]
    have "table_inv (arp_table (ETHARP_STATS_INC sp_recv_update s))" "arp_refs sizes a (ETHARP_STATS_INC sp_recv_update s) (add_mset p R)"
      "nif_hwaddr_len (netifs (ETHARP_STATS_INC sp_recv_update s) netif) = 6"
      using inv refs hw by (simp_all add: arp_inv_def)
    from update_total [OF this] obtain r s1 where
      s1: "etharp_update_arp_entry cf lo netif (get_u32 (bytes (bufs s)) (e + 14 + 14)) (mem_bytes (bytes (bufs s)) (e + 14 + 8) 6)
        (if for_us then ETHARP_FLAG_TRY_HARD else ETHARP_FLAG_FIND_ONLY) (ETHARP_STATS_INC sp_recv_update s) = Some (r, s1)"
      "arp_refs sizes a s1 (add_mset p R)" "netifs s1 = netifs s" unfolding stats_simps by blast
    moreover obtain s2 where s2: "arp_act lo netif mac p e for_us s1 = Some s2" "arp_refs sizes a s2 (add_mset p R)"
      using arp_act_total [OF _ s1(2), of netif lo mac p e for_us] s1(3) hw by auto
    ultimately show ?thesis using free_pbuf_total [OF s2(2), of cf] eq by auto
  qed
qed

end
