(* ===== verification/Ip_Output_Props.thy ===== *)
theory Ip_Output_Props
  imports Ip_Output Etharp_Props
begin

unbundle bit_operations_syntax

text \<open>
  Outgoing packets: the header that \<^verbatim>\<open>ip_output_if\<close> writes, its checksum, and what reaches \<^verbatim>\<open>netif->output\<close>.
\<close>

section \<open>The header as bytes\<close>

text \<open>A header without options; the checksum is given, or the right one.\<close>

definition ip_hdr_bytes ::
  "u8_t \<Rightarrow> u16_t \<Rightarrow> u16_t \<Rightarrow> u16_t \<Rightarrow> u8_t \<Rightarrow> u8_t \<Rightarrow> u16_t \<Rightarrow> u32_t \<Rightarrow> u32_t \<Rightarrow> u8_t list" where
  "ip_hdr_bytes tos n ident off ttl proto c src dest =
     [0x45, tos] @ bytes_of_u16 (lwip_htons n) @ bytes_of_u16 (lwip_htons ident) @ bytes_of_u16 (lwip_htons off)
     @ [ttl, proto] @ bytes_of_u16 c @ bytes_of_u32 src @ bytes_of_u32 dest"

definition ip_header :: "u8_t \<Rightarrow> u16_t \<Rightarrow> u16_t \<Rightarrow> u16_t \<Rightarrow> u8_t \<Rightarrow> u8_t \<Rightarrow> u32_t \<Rightarrow> u32_t \<Rightarrow> u8_t list" where
  "ip_header tos n ident off ttl proto src dest =
     ip_hdr_bytes tos n ident off ttl proto (inet_chksum 0 (ip_hdr_bytes tos n ident off ttl proto 0 src dest)) src dest"

lemma length_ip_hdr_bytes [simp]: "length (ip_hdr_bytes tos n ident off ttl proto c src dest) = 20"
  by (simp add: ip_hdr_bytes_def bytes_of_u16_def bytes_of_u32_def)

lemma length_ip_header [simp]: "length (ip_header tos n ident off ttl proto src dest) = 20"
  by (simp add: ip_header_def)

lemma bytes_of_u16_0: "bytes_of_u16 0 = [0, 0]"
  by (simp add: bytes_of_u16_def)

lemma ip_header_verifies: "inet_chksum a (ip_header tos n ident off ttl proto src dest) = 0"
proof -
  let ?xs = "[0x45, tos] @ bytes_of_u16 (lwip_htons n) @ bytes_of_u16 (lwip_htons ident) @ bytes_of_u16 (lwip_htons off) @ [ttl, proto]"
  let ?ys = "bytes_of_u32 src @ bytes_of_u32 dest"
  have "length (?xs @ [0, 0] @ ?ys) \<le> 0x20000" "even (length ?xs)" by (simp_all add: bytes_of_u16_def bytes_of_u32_def)
  from stored_chksum_zero [OF this, of a 0] show ?thesis
    by (simp add: ip_header_def ip_hdr_bytes_def bytes_of_u16_0)
qed

text \<open>The checksum does not depend on where the bytes are.\<close>

lemma inet_chksum_any: "length bs \<le> 0x20000 \<Longrightarrow> inet_chksum a bs = inet_chksum b bs"
  by (simp add: word_unat_eq_iff unat_inet_chksum)

section \<open>The running sum\<close>

lemma unat_MAKE_U16: "unat (LWIP_MAKE_U16 a b) = 256 * unat a + unat b"
proof -
  have "unat (push_bit 8 (ucast a) :: u32_t) = 256 * unat a"
    using unat_u8_le [of a] by (simp add: unat_push_bit mult.commute)
  then show ?thesis
    unfolding LWIP_MAKE_U16_def by (subst unat_or_disjoint [where n = 8]) simp_all
qed

lemma fold_chk_sum_oc: "unat (fold_chk_sum c) = 65535 - oc (unat c)"
proof -
  define d where "d = FOLD_U32T c"
  have low: "ucast (d AND 0xFFFF) = (ucast d :: u16_t)"
    unfolding byte_masks by (rule bit_word_eqI) (auto simp: bit_simps)
  have add: "ucast (x + y) = (ucast x + ucast y :: u16_t)" for x y :: u32_t
    by (simp add: word_unat_eq_iff unat_ucast_mod unat_word_ariths mod_add_eq mod_mod_cancel)
  have "ucast (drop_bit 16 d + d) = (ucast (FOLD_U32T d) :: u16_t)"
    by (simp add: FOLD_U32T_def add low)
  moreover have "ucast (NOT x) = (NOT (ucast x) :: u16_t)" for x :: u32_t
    by (rule bit_word_eqI) (auto simp: bit_simps)
  ultimately have "fold_chk_sum c = NOT (ucast (FOLD_U32T d))"
    by (simp add: fold_chk_sum_def Let_def d_def FOLD_U32T_def)
  moreover have "unat (ucast (FOLD_U32T d) :: u16_t) = oc (unat c)"
    using fold_twice [of c] oc_le [of "unat c"] by (simp add: d_def unat_ucast_mod)
  ultimately show ?thesis by (simp add: unat_NOT_u16)
qed

lemma unat_hi_half: "unat (drop_bit 16 x AND 0xffff) = unat (drop_bit 16 x)" for x :: u32_t
proof -
  have "drop_bit 16 x AND 0xffff = drop_bit 16 x"
    unfolding byte_masks by (rule bit_word_eqI) (auto simp: bit_simps dest: bit_imp_le_length)
  then show ?thesis by simp
qed

lemma csum_pair: "csum False [x, y] = unat x + 256 * unat y"
  by simp

lemma csum_hdr_bytes:
  "csum False (ip_hdr_bytes tos n ident off ttl proto c src dest) =
     unat (LWIP_MAKE_U16 tos 0x45) + unat (lwip_htons n) + unat (lwip_htons ident) + unat (lwip_htons off)
     + unat (LWIP_MAKE_U16 proto ttl) + unat c
     + unat (src AND 0xffff) + unat (drop_bit 16 src) + unat (dest AND 0xffff) + unat (drop_bit 16 dest)"
proof -
  have even: "csum (odd (length (bytes_of_u16 x))) ys = csum False ys" "csum (odd (length (bytes_of_u32 z))) ys = csum False ys" for x z ys
    by (simp_all add: bytes_of_u16_def bytes_of_u32_def)
  have split: "csum False (xs @ ys) = csum False xs + csum False ys" if "even (length xs)" for xs ys
    using that by (simp add: csum_append)
  have len: "even (length (bytes_of_u16 x))" "even (length (bytes_of_u32 z))" "even (length [b0, b1 :: u8_t])" for x z b0 b1
    by (simp_all add: bytes_of_u16_def bytes_of_u32_def)
  show ?thesis
    unfolding ip_hdr_bytes_def
    by (simp only: split len csum_pair csum_bytes_of_u16 csum_bytes_of_u32 unat_hi_half unat_MAKE_U16)
qed

section \<open>Writing the header\<close>

lemma mem_bytes_put: "i + length xs \<le> n \<Longrightarrow> mem_bytes (put_bytes (h + i) xs b) h n = overwrite i xs (mem_bytes b h n)"
  by (rule nth_equalityI) (auto simp: put_bytes_def overwrite_def nth_append)

lemma mem_bytes_put0: "length xs \<le> n \<Longrightarrow> mem_bytes (put_bytes h xs b) h n = overwrite 0 xs (mem_bytes b h n)"
  using mem_bytes_put [of 0 xs n h b] by simp

lemma mem_bytes_put_Suc:
  "Suc (length xs) \<le> n \<Longrightarrow> mem_bytes (put_bytes (Suc h) xs b) h n = overwrite 1 xs (mem_bytes b h n)"
  "Suc (Suc (length xs)) \<le> n \<Longrightarrow> mem_bytes (put_bytes (Suc (Suc h)) xs b) h n = overwrite 2 xs (mem_bytes b h n)"
  using mem_bytes_put [of 1 xs n h b] mem_bytes_put [of 2 xs n h b] by simp_all

lemma put_bytes_other: "x < a \<or> a + length xs \<le> x \<Longrightarrow> put_bytes a xs b x = b x"
  by (auto simp: put_bytes_def)

lemma list_20:
  "length d = 20 \<Longrightarrow> \<exists>a0 a1 a2 a3 a4 a5 a6 a7 a8 a9 b0 b1 b2 b3 b4 b5 b6 b7 b8 b9.
     d = [a0, a1, a2, a3, a4, a5, a6, a7, a8, a9, b0, b1, b2, b3, b4, b5, b6, b7, b8, b9]"
  by (auto simp: numeral_eq_Suc length_Suc_conv)

lemma store_bufs: "store a xs s = set_bufs ((ibufs s)\<lparr>bytes := put_bytes a xs (ibytes s)\<rparr>) s"
  by (simp add: store_def poke_def set_bufs_def)

lemma set_bufs_simps [simp]:
  "ibufs (set_bufs b s) = b" "set_bufs b (set_bufs b' s) = set_bufs b s" "netifs (lower (set_bufs b s)) = netifs (lower s)"
  "ip_id (set_bufs b s) = ip_id s" "lower (set_bufs b s) = (lower s)\<lparr>bufs := b\<rparr>"
  "current_iphdr_dest (set_bufs b s) = current_iphdr_dest s" "current_iphdr_src (set_bufs b s) = current_iphdr_src s"
  "set_bufs b (s\<lparr>ip_id := i\<rparr>) = (set_bufs b s)\<lparr>ip_id := i\<rparr>"
  by (simp_all add: set_bufs_def)

lemma ip_stats_inc_simps [simp]:
  "ibufs (ip_stats_inc f s) = ibufs s" "netifs (lower (ip_stats_inc f s)) = netifs (lower s)" "ip_id (ip_stats_inc f s) = ip_id s"
  by (simp_all add: ip_stats_inc_def IP_STATS_INC_def)

definition src_or_own :: "u32_t option \<Rightarrow> struct_netif \<Rightarrow> u32_t" where
  "src_or_own src n = (case src of None \<Rightarrow> nif_ip_addr n | Some a \<Rightarrow> if a = IPADDR_ANY then nif_ip_addr n else a)"

text \<open>The stores of the header, in their order, give these 20 bytes and touch no others.\<close>

definition hdr_stores ::
  "addr \<Rightarrow> u8_t \<Rightarrow> u16_t \<Rightarrow> u16_t \<Rightarrow> u8_t \<Rightarrow> u8_t \<Rightarrow> u16_t \<Rightarrow> u32_t \<Rightarrow> u32_t \<Rightarrow> (addr \<Rightarrow> u8_t) \<Rightarrow> addr \<Rightarrow> u8_t" where
  "hdr_stores h tos n ident ttl proto c src dest b =
     put_bytes (h + 10) (bytes_of_u16 c) (put_bytes (h + 12) (bytes_of_u32 src) (put_bytes (h + 4) (bytes_of_u16 (lwip_htons ident))
    (put_bytes (h + 6) (bytes_of_u16 0) (put_bytes (h + 2) (bytes_of_u16 (lwip_htons n)) (put_bytes (h + 1) [tos] (put_bytes h [0x45]
    (put_bytes (h + 16) (bytes_of_u32 dest) (put_bytes (h + 9) [proto] (put_bytes (h + 8) [ttl] b)))))))))"

lemma header_stores:
  "mem_bytes (hdr_stores h tos n ident ttl proto c src dest b) h 20 = ip_hdr_bytes tos n ident 0 ttl proto c src dest"
  "x < h \<or> h + 20 \<le> x \<Longrightarrow> hdr_stores h tos n ident ttl proto c src dest b x = b x"
proof -
  have "lwip_htons 0 = 0" by (simp add: lwip_htons_def)
  then show "mem_bytes (hdr_stores h tos n ident ttl proto c src dest b) h 20 = ip_hdr_bytes tos n ident 0 ttl proto c src dest"
    using list_20 [OF length_mem_bytes, of b h] unfolding hdr_stores_def
    by - (elim exE, simp add: mem_bytes_put mem_bytes_put0 mem_bytes_put_Suc overwrite_def bytes_of_u16_def bytes_of_u32_def ip_hdr_bytes_def)
  show "x < h \<or> h + 20 \<le> x \<Longrightarrow> hdr_stores h tos n ident ttl proto c src dest b x = b x"
    unfolding hdr_stores_def by (elim disjE) (simp_all add: put_bytes_other bytes_of_u16_def bytes_of_u32_def)
qed

lemma running_sum:
  fixes n ident :: u16_t and src dest :: u32_t
  shows "fold_chk_sum (LWIP_MAKE_U16 proto ttl + (dest AND 0xFFFF) + drop_bit 16 dest + LWIP_MAKE_U16 tos 0x45 + ucast (lwip_htons n)
      + ucast (lwip_htons ident) + (src AND 0xFFFF) + drop_bit 16 src)
    = inet_chksum 0 (ip_hdr_bytes tos n ident 0 ttl proto 0 src dest)"
proof -
  define a1 a2 a3 a4 a5 a6 a7 a8 where "a1 = LWIP_MAKE_U16 proto ttl" and "a2 = dest AND 0xFFFF" and "a3 = drop_bit 16 dest"
    and "a4 = LWIP_MAKE_U16 tos 0x45" and "a5 = (ucast (lwip_htons n) :: u32_t)" and "a6 = (ucast (lwip_htons ident) :: u32_t)"
    and "a7 = src AND 0xFFFF" and "a8 = drop_bit 16 src"
  have mk: "unat (LWIP_MAKE_U16 a b) \<le> 65535" for a b using unat_u8_le [of a] unat_u8_le [of b] by (simp add: unat_MAKE_U16)
  have hi: "unat (drop_bit 16 x) \<le> 65535" for x :: u32_t using unat_half_le [of "drop_bit 16 x"] unat_hi_half [of x] by simp
  have le: "unat a1 \<le> 65535" "unat a2 \<le> 65535" "unat a3 \<le> 65535" "unat a4 \<le> 65535" "unat a5 \<le> 65535" "unat a6 \<le> 65535"
    "unat a7 \<le> 65535" "unat a8 \<le> 65535"
    unfolding a1_def a2_def a3_def a4_def a5_def a6_def a7_def a8_def
    using mk hi unat_half_le unat_u16_le by simp_all
  have "unat (a1 + a2 + a3 + a4 + a5 + a6 + a7 + a8) = unat a1 + unat a2 + unat a3 + unat a4 + unat a5 + unat a6 + unat a7 + unat a8"
    using le by (simp add: unat_add_u32)
  moreover have "lwip_htons 0 = 0" by (simp add: lwip_htons_def)
  ultimately have "unat (a1 + a2 + a3 + a4 + a5 + a6 + a7 + a8) = csum False (ip_hdr_bytes tos n ident 0 ttl proto 0 src dest)"
    unfolding csum_hdr_bytes by (simp add: a1_def a2_def a3_def a4_def a5_def a6_def a7_def a8_def)
  then have "unat (fold_chk_sum (a1 + a2 + a3 + a4 + a5 + a6 + a7 + a8)) = unat (inet_chksum 0 (ip_hdr_bytes tos n ident 0 ttl proto 0 src dest))"
    by (simp add: fold_chk_sum_oc unat_inet_chksum)
  then show ?thesis unfolding word_unat_eq_iff by (simp only: a1_def a2_def a3_def a4_def a5_def a6_def a7_def a8_def)
qed

lemma write_header_eq:
  fixes s p
  defines "h \<equiv> payload (ibufs s) p"
  shows "\<exists>B. ip_write_header p src dest ttl tos proto netif s
      = (set_bufs ((ibufs s)\<lparr>bytes := B\<rparr>) s)\<lparr>ip_id := to_u16 (ip_id s + 1)\<rparr>
    \<and> mem_bytes B h 20 = ip_header tos (of_nat (tot_len (ibufs s) p)) (of_nat (ip_id s)) 0 ttl proto
        (src_or_own src (netifs (lower s) netif)) dest
    \<and> (\<forall>x. x < h \<or> h + 20 \<le> x \<longrightarrow> B x = ibytes s x)"
proof -
  let ?n = "of_nat (tot_len (ibufs s) p) :: u16_t" and ?i = "of_nat (ip_id s) :: u16_t"
  let ?src = "src_or_own src (netifs (lower s) netif)"
  let ?B = "hdr_stores h tos ?n ?i ttl proto (inet_chksum 0 (ip_hdr_bytes tos ?n ?i 0 ttl proto 0 ?src dest)) ?src dest (ibytes s)"
  have "ip_write_header p src dest ttl tos proto netif s = (set_bufs ((ibufs s)\<lparr>bytes := ?B\<rparr>) s)\<lparr>ip_id := to_u16 (ip_id s + 1)\<rparr>"
    unfolding ip_write_header_def Let_def src_or_own_def [symmetric] hdr_stores_def running_sum [symmetric]
    by (simp add: store_bufs h_def set_bufs_def src_or_own_def)
  then show ?thesis by (intro exI [of _ ?B]) (simp add: ip_header_def header_stores)
qed

section \<open>Sending a packet\<close>

text \<open>A pbuf with room for the header: the 20 bytes before the payload are its own.\<close>

definition has_room :: "pbuf_state \<Rightarrow> addr \<Rightarrow> nat \<Rightarrow> bool" where
  "has_room s p n \<longleftrightarrow> (pb_type (pbufs s p) = PBUF_RAM \<or> pb_type (pbufs s p) = PBUF_POOL)
     \<and> p + SIZEOF_STRUCT_PBUF + n \<le> payload s p"

lemma reveal_packet:
  assumes p: "packet s p (p # ps)" and room: "has_room s p n" "0 < n" "tot_len s p + n < 65536"
  defines "x \<equiv> (pbufs s p)\<lparr>pb_payload := payload s p - n, pb_len := len s p + n, pb_tot_len := tot_len s p + n\<rparr>"
  shows "pbuf_header p (int n) s = Some (0, s\<lparr>pbufs := (pbufs s)(p := x)\<rparr>)"
    and "packet (s\<lparr>pbufs := (pbufs s)(p := x)\<rparr>) p (p # ps)"
    and "data (s\<lparr>pbufs := (pbufs s)(p := x)\<rparr>) (p # ps) = mem_bytes (bytes s) (payload s p - n) n @ data s (p # ps)"
proof -
  have c: "chain (nxt s) p (p # ps)" and tot: "tot_ok s (p # ps)" using p by (auto simp: packet_def)
  have np: "p \<noteq> NULL" "p \<notin> set ps" using packet_nonNULL [OF p] chain_hd_notin [OF c] by auto
  have le: "len s p \<le> tot_len s p" using tot by simp
  show "pbuf_header p (int n) s = Some (0, s\<lparr>pbufs := (pbufs s)(p := x)\<rparr>)"
    using pbuf_header_reveal [of p s n] np(1) room le unfolding has_room_def x_def by auto
  let ?s = "s\<lparr>pbufs := (pbufs s)(p := x)\<rparr>"
  have "tot_ok ?s ps = tot_ok s ps" using np by (intro tot_ok_cong) auto
  moreover have "(case ps of [] \<Rightarrow> 0 | y # _ \<Rightarrow> tot_len ?s y) = (case ps of [] \<Rightarrow> 0 | y # _ \<Rightarrow> tot_len s y)"
    using np by (cases ps) auto
  moreover have "chain (nxt ?s) p (p # ps)" using c by (subst chain_cong [where nxt = "nxt s"]) (auto simp: x_def)
  moreover have "tot_len ?s p = tot_len s p + n" "len ?s p = len s p + n" by (simp_all add: x_def)
  ultimately show "packet ?s p (p # ps)" using tot room(3) unfolding packet_def by simp
  have "data ?s ps = data s ps" using np by (intro data_cong) (auto simp: pdata_def)
  moreover have "payload s p - n + n = payload s p" using room(1) by (simp add: has_room_def)
  then have "pdata ?s p = mem_bytes (bytes s) (payload s p - n) n @ pdata s p"
    using mem_bytes_append [of "bytes s" "payload s p - n" n "len s p"] by (simp add: pdata_def x_def add.commute)
  ultimately show "data ?s (p # ps) = mem_bytes (bytes s) (payload s p - n) n @ data s (p # ps)" by simp
qed

text \<open>Bytes outside the payloads of a chain do not matter to its data.\<close>

lemma data_apart:
  assumes "\<forall>x\<in>set ps. payload_apart s x a n" "\<forall>x. x < a \<or> a + n \<le> x \<longrightarrow> B x = bytes s x"
  shows "data (s\<lparr>bytes := B\<rparr>) ps = data s ps"
proof (rule data_cong)
  fix x assume "x \<in> set ps"
  then have "payload s x + i < a \<or> a + n \<le> payload s x + i" if "i < len s x" for i
    using assms(1) that by (fastforce simp: payload_apart_def apart_def)
  then show "pdata (s\<lparr>bytes := B\<rparr>) x = pdata s x" unfolding pdata_def using assms(2) by (auto intro!: mem_bytes_cong)
qed

text \<open>Overwriting the first bytes of a packet whose other pbufs lie elsewhere.\<close>

lemma data_front:
  assumes "n \<le> len s p" "mem_bytes B (payload s p) n = xs" "\<forall>x. x < payload s p \<or> payload s p + n \<le> x \<longrightarrow> B x = bytes s x"
    and "\<forall>x\<in>set ps. payload_apart s x (payload s p) n"
  shows "data (s\<lparr>bytes := B\<rparr>) (p # ps) = xs @ drop n (data s (p # ps))"
proof -
  have rest: "data (s\<lparr>bytes := B\<rparr>) ps = data s ps" by (rule data_apart [OF assms(4,3)])
  obtain k where k: "len s p = n + k" using assms(1) le_iff_add by blast
  have "mem_bytes B (payload s p + n) k = mem_bytes (bytes s) (payload s p + n) k"
    using assms(3) by (intro mem_bytes_cong) simp
  then have "pdata (s\<lparr>bytes := B\<rparr>) p = xs @ drop n (pdata s p)"
    using assms(2) by (simp add: pdata_def k mem_bytes_append)
  then show ?thesis using rest assms(1) by simp
qed

end
