(* ===== verification/Icmp_Props.thy ===== *)
theory Icmp_Props
  imports Icmp Ip_Output_Props
begin

unbundle bit_operations_syntax

text \<open>
  Reading the header of a packet, and the answer to an echo request: which bytes are sent, and that their checksums are right.
\<close>

section \<open>Reading header fields\<close>

lemma get_u16I:
  fixes b :: "addr \<Rightarrow> u8_t"
  shows "b a = ucast x \<Longrightarrow> b (a + 1) = ucast (drop_bit 8 x) \<Longrightarrow> get_u16 b a = x"
  unfolding get_u16_def by (intro bit_word_eqI) (auto simp: bit_simps)

lemma get_u32I:
  fixes b :: "addr \<Rightarrow> u8_t" and x :: u32_t
  assumes "b a = ucast x" "b (a + 1) = ucast (drop_bit 8 x)" "b (a + 2) = ucast (drop_bit 16 x)" "b (a + 3) = ucast (drop_bit 24 x)"
  shows "get_u32 b a = x"
  unfolding get_u32_def assms
proof (rule bit_word_eqI)
  fix n assume "n < LENGTH(32)"
  then consider "n < 8" | "8 \<le> n" "n < 16" | "16 \<le> n" "n < 24" | "24 \<le> n" "n < 32" by fastforce
  then show "bit (ucast (ucast x :: u8_t) OR push_bit 8 (ucast (ucast (drop_bit 8 x) :: u8_t))
      OR push_bit 16 (ucast (ucast (drop_bit 16 x) :: u8_t)) OR push_bit 24 (ucast (ucast (drop_bit 24 x) :: u8_t)) :: u32_t) n = bit x n"
    by cases (auto simp: bit_simps)
qed

lemma header_reads:
  assumes "mem_bytes b h 20 = ip_hdr_bytes tos n ident off ttl proto c src dest"
  shows "IPH_V b h = 4" "IPH_HL b h = 5" "IPH_LEN b h = lwip_htons n" "IPH_ID b h = lwip_htons ident"
    "IPH_OFFSET b h = lwip_htons off" "IPH_PROTO b h = proto" "iph_src b h = src" "iph_dest b h = dest"
proof -
  have nth: "b (h + i) = ip_hdr_bytes tos n ident off ttl proto c src dest ! i" if "i < 20" for i
    using assms nth_mem_bytes [OF that, of b h] by simp
  have at: "b (h + k + i) = ip_hdr_bytes tos n ident off ttl proto c src dest ! (k + i)" if "k + i < 20" for k i
    using nth [OF that] by (simp add: add.assoc)
  note hdr = ip_hdr_bytes_def bytes_of_u16_def bytes_of_u32_def
  have "b h = 0x45" using nth [of 0] by (simp add: hdr)
  then show "IPH_V b h = 4" "IPH_HL b h = 5" by (simp_all add: IPH_V_def IPH_HL_def)
  show "IPH_LEN b h = lwip_htons n" unfolding IPH_LEN_def
    by (rule get_u16I) (use nth [of 2] at [of 2 1] in \<open>simp_all add: hdr\<close>)
  show "IPH_ID b h = lwip_htons ident" unfolding IPH_ID_def
    by (rule get_u16I) (use nth [of 4] at [of 4 1] in \<open>simp_all add: hdr\<close>)
  show "IPH_OFFSET b h = lwip_htons off" unfolding IPH_OFFSET_def
    by (rule get_u16I) (use nth [of 6] at [of 6 1] in \<open>simp_all add: hdr\<close>)
  show "IPH_PROTO b h = proto" using nth [of 9] by (simp add: IPH_PROTO_def hdr)
  show "iph_src b h = src" unfolding iph_src_def
    by (rule get_u32I) (use nth [of 12] at [of 12 1] at [of 12 2] at [of 12 3] in \<open>simp_all add: hdr\<close>)
  show "iph_dest b h = dest" unfolding iph_dest_def
    by (rule get_u32I) (use nth [of 16] at [of 16 1] at [of 16 2] at [of 16 3] in \<open>simp_all add: hdr\<close>)
qed

section \<open>The adjusted checksum\<close>

lemma csum_0: "csum hi bs = 0 \<longleftrightarrow> (\<forall>x\<in>set bs. x = 0)"
  by (induction bs arbitrary: hi) (auto simp: unat_eq_0)

definition icmp_msg :: "u8_t \<Rightarrow> u8_t \<Rightarrow> u16_t \<Rightarrow> u8_t list \<Rightarrow> u8_t list" where
  "icmp_msg type code c rest = [type, code] @ bytes_of_u16 c @ rest"

lemma length_icmp_msg: "length (icmp_msg type code c rest) = 4 + length rest"
  by (simp add: icmp_msg_def bytes_of_u16_def)

lemma csum_icmp_msg: "csum False (icmp_msg type code c rest) = unat type + 256 * unat code + unat c + csum False rest"
proof -
  have "csum False ([type, code] @ bytes_of_u16 c @ rest) = csum False [type, code] + csum False (bytes_of_u16 c @ rest)"
    by (subst csum_append) simp
  moreover have "csum False (bytes_of_u16 c @ rest) = csum False (bytes_of_u16 c) + csum False rest"
    by (subst csum_append) (simp add: bytes_of_u16_def)
  ultimately show ?thesis by (simp only: icmp_msg_def csum_pair csum_bytes_of_u16 add.assoc)
qed

lemma unat_adjust: "unat (adjust_chksum c) = (if unat c \<ge> 65527 then unat c + 9 - 65536 else unat c + 8)"
proof -
  have h: "lwip_htons (0xffff - push_bit 8 8) = 65527" "lwip_htons (push_bit 8 8) = 8"
    by (simp_all add: lwip_htons_def push_bit_eq_mult)
  show ?thesis
  proof (cases "unat c \<ge> 65527")
    case True
    moreover have "unat c - 65527 < 65536" using unat_u16_less [of c] by linarith
    ultimately have "(unat c + 9) mod 65536 = unat c + 9 - 65536" by (simp add: le_mod_geq)
    then show ?thesis using True unfolding adjust_chksum_def h by (simp add: word_le_nat_alt unat_word_ariths)
  next
    case False
    then show ?thesis unfolding adjust_chksum_def h by (simp add: word_le_nat_alt unat_word_ariths)
  qed
qed

lemma reply_chksum:
  assumes "length (icmp_msg 8 code c rest) \<le> 0x20000" "inet_chksum a (icmp_msg 8 code c rest) = 0"
    and "\<exists>x\<in>set (icmp_msg 0 code (adjust_chksum c) rest). x \<noteq> 0"
  shows "inet_chksum a' (icmp_msg 0 code (adjust_chksum c) rest) = 0"
proof -
  define t t' where "t = csum False (icmp_msg 8 code c rest)" and "t' = csum False (icmp_msg 0 code (adjust_chksum c) rest)"
  have len: "length (icmp_msg 0 code (adjust_chksum c) rest) \<le> 0x20000" using assms(1) by (simp add: icmp_msg_def bytes_of_u16_def)
  have "oc t = 65535" using assms(2) oc_le [of t] by (simp add: word_unat_eq_iff unat_inet_chksum [OF assms(1)] t_def)
  then have t: "oceq 65535 t" using oceq_oc [of t] by simp
  have "t = t' \<or> t = t' + 65535"
    using unat_u16_less [of c] by (auto simp: t_def t'_def csum_icmp_msg unat_adjust)
  moreover have "t' \<noteq> 0" using assms(3) unfolding t'_def csum_0 by blast
  ultimately have "oceq 65535 t'" using t by (auto simp: oceq_def)
  then have "oc t' = 65535" by (simp flip: oc_unique)
  then show ?thesis by (simp add: word_unat_eq_iff unat_inet_chksum [OF len] t'_def)
qed

text \<open>The all-zero reply is the exception: its checksum field is zero, where the sum of nothing calls for \<open>0xffff\<close>.\<close>

lemma zero_reply_bad:
  "inet_chksum 0 (icmp_msg 8 0 0xfff7 (replicate 4 0)) = 0"
  "adjust_chksum 0xfff7 = 0" "inet_chksum 0 (icmp_msg 0 0 (adjust_chksum 0xfff7) (replicate 4 0)) = 0xffff"
proof -
  have z: "csum False (replicate 4 0) = 0" by (subst csum_0) simp
  show a: "adjust_chksum 0xfff7 = 0" using unat_adjust [of "0xfff7"] by (simp add: word_unat_eq_iff)
  have "unat (inet_chksum 0 (icmp_msg 8 0 0xfff7 (replicate 4 0))) = 65535 - oc (csum False (icmp_msg 8 0 0xfff7 (replicate 4 0)))"
    by (rule unat_inet_chksum) (simp add: icmp_msg_def bytes_of_u16_def)
  moreover have "csum False (icmp_msg 8 0 0xfff7 (replicate 4 0)) = 65535"
    unfolding csum_icmp_msg z by simp
  ultimately show "inet_chksum 0 (icmp_msg 8 0 0xfff7 (replicate 4 0)) = 0" by (simp add: word_unat_eq_iff oc_def)
  have "unat (inet_chksum 0 (icmp_msg 0 0 0 (replicate 4 0))) = 65535 - oc (csum False (icmp_msg 0 0 0 (replicate 4 0)))"
    by (rule unat_inet_chksum) (simp add: icmp_msg_def bytes_of_u16_def)
  moreover have "csum False (icmp_msg 0 0 0 (replicate 4 0)) = 0" unfolding csum_icmp_msg z by simp
  ultimately show "inet_chksum 0 (icmp_msg 0 0 (adjust_chksum 0xfff7) (replicate 4 0)) = 0xffff"
    unfolding a by (simp add: word_unat_eq_iff oc_def)
qed

section \<open>The reply in place\<close>

lemma reveal_then_hide:
  assumes p: "packet s p (p # ps)" and room: "has_room s p n" "0 < n" "tot_len s p + n < 65536"
  obtains s1 where "pbuf_header p (int n) s = Some (0, s1)" "pbuf_header p (- int n) s1 = Some (0, s)"
proof -
  define s1 where "s1 = s\<lparr>pbufs := (pbufs s)(p := (pbufs s p)\<lparr>pb_payload := payload s p - n, pb_len := len s p + n, pb_tot_len := tot_len s p + n\<rparr>)\<rparr>"
  have le: "len s p \<le> tot_len s p" and np: "p \<noteq> NULL" using p packet_nonNULL [OF p] by (auto simp: packet_def)
  have h: "n + p + SIZEOF_STRUCT_PBUF \<le> payload s p" using room(1) by (simp add: has_room_def)
  have "nat (int (payload s p - n) + int n) = payload s p" using h by simp
  moreover have "(int (len s p) mod 65536) = int (len s p)" "(int (tot_len s p) mod 65536) = int (tot_len s p)"
    using le room(3) by simp_all
  ultimately have "pbuf_header p (- int n) s1 = Some (0, s)"
    using np room h unfolding pbuf_header_def has_room_def s1_def
    by (auto simp: Let_def upd_def)
  moreover have "pbuf_header p (int n) s = Some (0, s1)" unfolding s1_def by (rule reveal_packet [OF p room])
  ultimately show thesis using that by blast
qed

text \<open>The stores of the reply, at the header \<open>h\<close> without options.\<close>

definition reply_stores :: "addr \<Rightarrow> u32_t \<Rightarrow> u32_t \<Rightarrow> u16_t \<Rightarrow> u16_t \<Rightarrow> (addr \<Rightarrow> u8_t) \<Rightarrow> addr \<Rightarrow> u8_t" where
  "reply_stores h src dest c c' b = put_bytes (h + 10) (bytes_of_u16 c) (put_bytes (h + 10) (bytes_of_u16 0) (put_bytes (h + 8) [255]
     (put_bytes (h + 22) (bytes_of_u16 c') (put_bytes (h + 20) [0] (put_bytes (h + 16) (bytes_of_u32 dest)
     (put_bytes (h + 12) (bytes_of_u32 src) b))))))"

lemma reply_stores_bytes:
  assumes "mem_bytes b h 24 = ip_hdr_bytes tos n ident off ttl proto c0 s0 d0 @ [8, code] @ bytes_of_u16 k"
  shows "mem_bytes (reply_stores h src dest c c' b) h 24
    = ip_hdr_bytes tos n ident off 255 proto c src dest @ [0, code] @ bytes_of_u16 c'"
  using assms unfolding reply_stores_def
  by (simp add: mem_bytes_put overwrite_def bytes_of_u16_def bytes_of_u32_def ip_hdr_bytes_def)

lemma reply_stores_other: "x < h \<or> h + 24 \<le> x \<Longrightarrow> reply_stores h src dest c c' b x = b x"
  unfolding reply_stores_def by (elim disjE) (simp_all add: put_bytes_other bytes_of_u16_def bytes_of_u32_def)

lemma ICMP_STATS_INC_simps [simp]: "lower (ICMP_STATS_INC f s) = lower s"
  by (simp add: ICMP_STATS_INC_def)

text \<open>The request at \<open>h\<close>, the payload of \<open>p\<close> already at its ICMP header: the bytes of the reply.\<close>

lemma echo_reply_eq:
  fixes s p h
  defines "b \<equiv> ibytes s"
  assumes "mem_bytes b h 24 = ip_hdr_bytes tos n ident off ttl proto c0 s0 d0 @ [8, code] @ bytes_of_u16 k"
    and "payload (ibufs s) p = h + 20" "current_iphdr_src s = src" "current_iphdr_dest s = dest"
  obtains B where "mem_bytes B h 24 = ip_header tos n ident off 255 proto dest src @ [0, code] @ bytes_of_u16 (adjust_chksum k)"
    "\<forall>x. x < h \<or> h + 24 \<le> x \<longrightarrow> B x = b x"
    "icmp_echo_reply cf out p h 20 inp s = do {
        (r, s) \<leftarrow> on_bufs (pbuf_header p 20) (ICMP_STATS_INC sp_xmit_update (set_bufs ((ibufs s)\<lparr>bytes := B\<rparr>) s));
        if r \<noteq> 0 then None
        else do {
          (_, s) \<leftarrow> ip_output_if cf out p (Some dest) None 255 0 1 inp s;
          ip_free cf p s
        }
      }"
proof -
  let ?B0 = "put_bytes (h + 10) (bytes_of_u16 0) (put_bytes (h + 8) [255]
     (put_bytes (h + 22) (bytes_of_u16 (adjust_chksum k)) (put_bytes (h + 20) [0] (put_bytes (h + 16) (bytes_of_u32 src)
     (put_bytes (h + 12) (bytes_of_u32 dest) b)))))"
  have k: "get_u16 (put_bytes (h + 20) [0] (put_bytes (h + 16) (bytes_of_u32 src) (put_bytes (h + 12) (bytes_of_u32 dest) b))) (h + 22) = k"
  proof (rule get_u16I)
    have at: "b (h + 22) = bytes_of_u16 k ! 0" "b (h + 22 + 1) = bytes_of_u16 k ! 1"
      using arg_cong [OF assms(2), of "\<lambda>xs. xs ! 22"] arg_cong [OF assms(2), of "\<lambda>xs. xs ! 23"] by (simp_all add: nth_append add.commute)
    show "put_bytes (h + 20) [0] (put_bytes (h + 16) (bytes_of_u32 src) (put_bytes (h + 12) (bytes_of_u32 dest) b)) (h + 22) = ucast k"
      "put_bytes (h + 20) [0] (put_bytes (h + 16) (bytes_of_u32 src) (put_bytes (h + 12) (bytes_of_u32 dest) b)) (h + 22 + 1) = ucast (drop_bit 8 k)"
      using at by (simp_all add: put_bytes_other bytes_of_u32_def bytes_of_u16_def)
  qed
  have "mem_bytes ?B0 h 24 = ip_hdr_bytes tos n ident off 255 proto 0 dest src @ [0, code] @ bytes_of_u16 (adjust_chksum k)"
    using assms(2)
    by (simp add: mem_bytes_put overwrite_def bytes_of_u16_def bytes_of_u32_def ip_hdr_bytes_def)
  from arg_cong [OF this, of "take 20"] have "mem_bytes ?B0 h 20 = ip_hdr_bytes tos n ident off 255 proto 0 dest src"
    by simp
  then have c: "mem_chksum ?B0 h 20 = inet_chksum 0 (ip_hdr_bytes tos n ident off 255 proto 0 dest src)"
    unfolding mem_chksum_def by (simp add: inet_chksum_any [of _ h 0])
  show thesis
  proof (rule that [of "reply_stores h dest src (mem_chksum ?B0 h 20) (adjust_chksum k) b"])
    show "mem_bytes (reply_stores h dest src (mem_chksum ?B0 h 20) (adjust_chksum k) b) h 24
        = ip_header tos n ident off 255 proto dest src @ [0, code] @ bytes_of_u16 (adjust_chksum k)"
      unfolding c ip_header_def by (rule reply_stores_bytes [OF assms(2)])
    show "\<forall>x. x < h \<or> h + 24 \<le> x \<longrightarrow> reply_stores h dest src (mem_chksum ?B0 h 20) (adjust_chksum k) b x = b x"
      using reply_stores_other by blast
  qed (use assms(3-5) k in \<open>auto simp: icmp_echo_reply_def Let_def store_bufs reply_stores_def b_def ICMP_STATS_INC_def
      add.commute [of 22 h] on_bufs_def bind_map_option intro!: Option.bind_cong\<close>)
qed

text \<open>Removing a header, changing bytes, and restoring the header.\<close>

lemma hide_then_reveal:
  assumes p: "packet b p (p # ps)" and room: "has_room b p m" and n: "0 < n" "n \<le> len b p"
  obtains b1 where "pbuf_header p (- int n) b = Some (0, b1)" "packet b1 p (p # ps)" "data b1 (p # ps) = drop n (data b (p # ps))"
    "has_room b1 p (m + n)" "bytes b1 = bytes b" "payload b1 p = payload b p + n" "tot_len b1 p = tot_len b p - n" "n \<le> tot_len b p"
    "\<And>B. pbuf_header p (int n) (b1\<lparr>bytes := B\<rparr>) = Some (0, b\<lparr>bytes := B\<rparr>)" "\<And>B. packet (b\<lparr>bytes := B\<rparr>) p (p # ps)"
proof -
  have own: "p + SIZEOF_STRUCT_PBUF \<le> payload b p" using room by (simp add: has_room_def)
  obtain b1 where b1: "pbuf_header p (- int n) b = Some (0, b1)" "packet b1 p (p # ps)" "data b1 (p # ps) = drop n (data b (p # ps))"
      "bytes b1 = bytes b" "pbufs b1 = (pbufs b)(p := (pbufs b p)\<lparr>pb_payload := payload b p + n, pb_len := len b p - n,
        pb_tot_len := tot_len b p - n\<rparr>)"
    using pbuf_header_hide [OF p n] own by blast
  have le: "n \<le> tot_len b p" "len b p \<le> tot_len b p" "tot_len b p < 65536" using p n(2) by (auto simp: packet_def)
  have pk: "packet (b\<lparr>bytes := B\<rparr>) p (p # ps)" "packet (b1\<lparr>bytes := B\<rparr>) p (p # ps)" for B
    using p b1(2) by simp_all
  have room1: "has_room b1 p (m + n)" using room by (simp add: has_room_def b1(5))
  have eq: "b1 = b\<lparr>pbufs := pbufs b1\<rparr>" using b1(1) by (auto simp: pbuf_header_def Let_def upd_def split: if_splits)
  have restored: "b1\<lparr>bytes := B, pbufs := pbufs b\<rparr> = b\<lparr>bytes := B\<rparr>" for B by (subst eq) simp
  have "pbuf_header p (int n) (b1\<lparr>bytes := B\<rparr>) = Some (0, b1\<lparr>bytes := B, pbufs := (pbufs b)\<rparr>)" for B
  proof -
    have "has_room (b1\<lparr>bytes := B\<rparr>) p n" using room1 by (simp add: has_room_def)
    from reveal_packet(1) [OF pk(2) this n(1)] show ?thesis using le n by (simp add: b1(5) fun_upd_idem)
  qed
  then have "pbuf_header p (int n) (b1\<lparr>bytes := B\<rparr>) = Some (0, b\<lparr>bytes := B\<rparr>)" for B
    unfolding restored .
  then show thesis using that b1 pk room1 le by (simp add: b1(5))
qed

lemma set_bufs_more [simp]:
  "set_bufs b (ICMP_STATS_INC f s) = ICMP_STATS_INC f (set_bufs b s)" "set_bufs b (ip_stats_inc f s) = ip_stats_inc f (set_bufs b s)"
  "current_iphdr_src (ICMP_STATS_INC f s) = current_iphdr_src s" "current_iphdr_dest (ICMP_STATS_INC f s) = current_iphdr_dest s"
  by (simp_all add: set_bufs_def ICMP_STATS_INC_def ip_stats_inc_def IP_STATS_INC_def)

lemma echo_in_place:
  fixes s p
  defines "b \<equiv> ibufs s"
  assumes p: "packet b p (p # ps)" "has_room b p 14" "ref b p = 1" "28 \<le> len b p" "tot_len b p + 14 < 65536"
    and d: "data b (p # ps) = ip_hdr_bytes tos n ident off ttl 1 c0 s0 d0 @ icmp_msg 8 code k rest"
    and cs: "inet_chksum 0 (icmp_msg 8 code k rest) = 0"
    and apart: "\<forall>x\<in>set ps. payload_apart b x (payload b p) 24"
    and uni: "\<not> ip_addr_ismulticast dest" "\<not> ip4_addr_isbroadcast dest (netifs (lower s) inp)"
    and cur: "current_iphdr_src s = src" "current_iphdr_dest s = dest"
    and mtu: "nif_mtu (netifs (lower s) inp) = 0 \<or> tot_len b p \<le> nif_mtu (netifs (lower s) inp)"
  obtains B where "icmp_input cf out p inp s = Option.bind
      (on_lower (out inp p src) (ip_stats_inc sp_xmit_update (ICMP_STATS_INC sp_xmit_update (ICMP_STATS_INC sp_recv_update
        (set_bufs (b\<lparr>bytes := B\<rparr>) s))))) (\<lambda>(_, s). ip_free cf p s)"
    "packet (b\<lparr>bytes := B\<rparr>) p (p # ps)"
    "data (b\<lparr>bytes := B\<rparr>) (p # ps) = ip_header tos n ident off 255 1 dest src @ icmp_msg 0 code (adjust_chksum k) rest"
proof -
  define h where "h = payload b p"
  have len: "length (data b (p # ps)) = tot_len b p" "len b p \<le> tot_len b p" using packet_length [OF p(1)] p(1) by (auto simp: packet_def)
  have at: "mem_bytes (bytes b) h 24 = ip_hdr_bytes tos n ident off ttl 1 c0 s0 d0 @ [8, code] @ bytes_of_u16 k"
  proof -
    have "take 24 (data b (p # ps)) = mem_bytes (bytes b) h 24" using p(4) by (simp add: pdata_def h_def)
    moreover have "take 24 (data b (p # ps)) = ip_hdr_bytes tos n ident off ttl 1 c0 s0 d0 @ [8, code] @ bytes_of_u16 k"
      unfolding d by (simp add: icmp_msg_def bytes_of_u16_def)
    ultimately show ?thesis by simp
  qed
  from arg_cong [OF at, of "take 20"] have at20: "mem_bytes (bytes b) h 20 = ip_hdr_bytes tos n ident off ttl 1 c0 s0 d0" by simp
  have n: "(0::nat) < 20" "20 \<le> len b p" using p(4) by simp_all
  obtain b1 where b1: "pbuf_header p (- int 20) b = Some (0, b1)" "packet b1 p (p # ps)" "data b1 (p # ps) = drop 20 (data b (p # ps))"
      "has_room b1 p (14 + 20)" "bytes b1 = bytes b" "payload b1 p = h + 20" "tot_len b1 p = tot_len b p - 20" "20 \<le> tot_len b p"
    and restore: "\<And>B. pbuf_header p (int 20) (b1\<lparr>bytes := B\<rparr>) = Some (0, b\<lparr>bytes := B\<rparr>)" "\<And>B. packet (b\<lparr>bytes := B\<rparr>) p (p # ps)"
    by (rule hide_then_reveal [OF p(1,2) n, folded h_def]) (rule that)
  obtain b2 where b2: "pbuf_header p (int 34) b1 = Some (0, b2)" "pbuf_header p (- int 34) b2 = Some (0, b1)"
    using reveal_then_hide [OF b1(2), of 34] b1(4,7) p(5) len p(4) by auto
  have chk: "inet_chksum_pbuf p b1 = Some 0"
    using inet_chksum_pbuf_packet [OF b1(2), of 0] cs unfolding b1(3) d by simp
  have type: "bytes b (h + 20) = 8" using arg_cong [OF at, of "\<lambda>xs. xs ! 20"] by (simp add: nth_append)
  define s1 where "s1 = set_bufs b1 (ICMP_STATS_INC sp_recv_update s)"
  obtain B where B: "mem_bytes B h 24 = ip_header tos n ident off 255 1 dest src @ [0, code] @ bytes_of_u16 (adjust_chksum k)"
      "\<forall>x. x < h \<or> h + 24 \<le> x \<longrightarrow> B x = bytes b x"
    and r: "icmp_echo_reply cf out p h 20 inp s1 = do {
        (r, s) \<leftarrow> on_bufs (pbuf_header p 20) (ICMP_STATS_INC sp_xmit_update (set_bufs (b1\<lparr>bytes := B\<rparr>) s1));
        if r \<noteq> 0 then None
        else do {
          (_, s) \<leftarrow> ip_output_if cf out p (Some dest) None 255 0 1 inp s;
          ip_free cf p s
        }
      }"
    by (rule echo_reply_eq [of s1 h tos n ident off ttl 1 c0 s0 d0 code k p src dest cf out inp])
      (use at b1 cur in \<open>auto simp: s1_def\<close>)
  have big: "\<not> tot_len b1 p < 8" "\<not> tot_len b1 p < 4" using b1(7) len(2) p(4) by simp_all
  have input: "icmp_input cf out p inp s = icmp_echo_reply cf out p h 20 inp s1"
    using b1(1,5,6) b2 chk type uni cur big header_reads(2) [OF at20] unfolding b_def h_def
    by (simp add: icmp_input_def icmp_echo_def echo_room_def on_bufs_def Let_def s1_def)
  from arg_cong [OF B(1), of "take 20"] have B20: "mem_bytes B h 20 = ip_header tos n ident off 255 1 dest src" by simp
  have "iph_dest B h = src" using header_reads(8) [OF B20 [unfolded ip_header_def]] .
  then have "icmp_input cf out p inp s = Option.bind
      (on_lower (out inp p src) (ip_stats_inc sp_xmit_update (ICMP_STATS_INC sp_xmit_update (ICMP_STATS_INC sp_recv_update
        (set_bufs (b\<lparr>bytes := B\<rparr>) s))))) (\<lambda>(_, s). ip_free cf p s)"
    using restore(1) [of B] p(3) mtu unfolding input r
    by (auto simp: on_bufs_def s1_def ip_output_if_def Let_def h_def)
  moreover have "data (b\<lparr>bytes := B\<rparr>) (p # ps) = ip_header tos n ident off 255 1 dest src @ icmp_msg 0 code (adjust_chksum k) rest"
    using data_front [of 24 b p B _ ps] p(4) B apart unfolding h_def d
    by (simp add: icmp_msg_def bytes_of_u16_def)
  ultimately show thesis using that restore(2) by blast
qed

end
