(* ===== verification/Ip_Input_Props.thy ===== *)
theory Ip_Input_Props
  imports Ip_Input Icmp_Props
begin

unbundle bit_operations_syntax

text \<open>
  Incoming packets: which packets are delivered, and the answer to an echo request from \<^verbatim>\<open>ip_input\<close> to \<^verbatim>\<open>netif->output\<close>.
\<close>

section \<open>Delivery\<close>

lemma set_bufs_self [simp]: "set_bufs (ibufs s) s = s"
  by (simp add: set_bufs_def)

lemma htons_and: "lwip_htons a AND lwip_htons b = lwip_htons (a AND b)"
  unfolding lwip_htons_def byte_masks by (rule bit_word_eqI) (auto simp: bit_simps)

lemma htons_0_iff: "lwip_htons a = 0 \<longleftrightarrow> a = 0"
  using lwip_htons_htons [of a] by (auto simp: lwip_htons_def [of 0])

text \<open>The state in which the protocol handlers run, and the state after them.\<close>

definition with_packet :: "addr \<Rightarrow> addr \<Rightarrow> u32_t \<Rightarrow> u32_t \<Rightarrow> ip_state \<Rightarrow> ip_state" where
  "with_packet inp iphdr src dest s = s\<lparr>current_iphdr_dest := dest, current_iphdr_src := src, current_netif := inp, current_header := iphdr\<rparr>"

definition no_packet :: "ip_state \<Rightarrow> ip_state" where
  "no_packet s = s\<lparr>current_netif := NULL, current_header := NULL, current_iphdr_src := IPADDR_ANY, current_iphdr_dest := IPADDR_ANY\<rparr>"

lemma ip_input_delivers:
  fixes s p
  defines "b \<equiv> ibufs s"
  assumes p: "packet b p (p # ps)" "20 \<le> len b p"
    and d: "data b (p # ps) = ip_header tos (of_nat (tot_len b p)) ident off ttl proto src dest @ xs"
    and whole: "off AND 0x3fff = 0"
    and src: "\<not> ip4_addr_isbroadcast src (netifs (lower s) inp)" "\<not> ip_addr_ismulticast src"
    and dest: "accepts (netifs (lower s) inp) dest" and inp: "inp \<noteq> NULL"
  shows "ip_input cf out up p inp s = map_option (\<lambda>s. (ERR_OK, no_packet s))
    (ip_deliver cf out up p (payload b p) inp (with_packet inp (payload b p) src dest (ip_stats_inc sp_recv_update s)))"
proof -
  define h where "h = payload b p"
  let ?n = "of_nat (tot_len b p) :: u16_t"
  have lens: "tot_len b p < 65536" "len b p \<le> tot_len b p" using packet_length [OF p(1)] p(1) by (auto simp: packet_def)
  have "take 20 (data b (p # ps)) = mem_bytes (bytes b) h 20" using p(2) by (simp add: pdata_def h_def)
  then have at: "mem_bytes (bytes b) h 20 = ip_header tos ?n ident off ttl proto src dest" unfolding d by simp
  note reads = header_reads [OF at [unfolded ip_header_def]]
  have n: "unat (lwip_ntohs (lwip_htons ?n)) = tot_len b p" using lens by (simp add: lwip_ntohs_def lwip_htons_htons unat_of_nat)
  have chk: "mem_chksum (bytes b) h 20 = 0" unfolding mem_chksum_def at by (rule ip_header_verifies)
  have frag: "IPH_OFFSET (bytes b) h AND lwip_htons (IP_OFFMASK OR IP_MF) = 0"
    using whole unfolding reads(5) htons_and htons_0_iff by simp
  have realloc: "pbuf_realloc cf p (tot_len b p) b = Some b" using packet_nonNULL [OF p(1)] by (simp add: pbuf_realloc_def)
  have netif: "input_netif_loop dest inp inp True l = Some inp" if "netifs l = netifs (lower s)" for l
    using dest that by (subst input_netif_loop.simps) simp
  show ?thesis
    using p(2) lens reads n chk frag realloc netif src packet_nonNULL [OF p(1)] inp unfolding b_def h_def
    by (simp add: ip_input_def ip_accept_def with_packet_def no_packet_def Let_def map_conv_bind_option comp_def)
qed

section \<open>Echo requests\<close>

lemma with_packet_simps [simp]:
  "lower (with_packet inp h src dest s) = lower s" "current_iphdr_src (with_packet inp h src dest s) = src"
  "current_iphdr_dest (with_packet inp h src dest s) = dest"
  by (simp_all add: with_packet_def)

lemma ping_reply:
  fixes s p
  defines "b \<equiv> ibufs s"
  assumes p: "packet b p (p # ps)" "has_room b p 14" "ref b p = 1" "28 \<le> len b p" "tot_len b p + 14 < 65536"
    and d: "data b (p # ps) = ip_header tos (of_nat (tot_len b p)) ident off ttl IP_PROTO_ICMP src dest @ icmp_msg 8 code k rest"
    and cs: "inet_chksum 0 (icmp_msg 8 code k rest) = 0"
    and whole: "off AND 0x3fff = 0"
    and apart: "\<forall>x\<in>set ps. payload_apart b x (payload b p) 24"
    and src: "\<not> ip4_addr_isbroadcast src (netifs (lower s) inp)" "\<not> ip_addr_ismulticast src"
    and dest: "accepts (netifs (lower s) inp) dest" "\<not> ip4_addr_isbroadcast dest (netifs (lower s) inp)" "\<not> ip_addr_ismulticast dest"
    and inp: "inp \<noteq> NULL"
    and mtu: "nif_mtu (netifs (lower s) inp) = 0 \<or> tot_len b p \<le> nif_mtu (netifs (lower s) inp)"
  shows "\<exists>s'. ip_input cf out stubs p inp s = map_option (\<lambda>s. (ERR_OK, no_packet s))
        (Option.bind (on_lower (out inp p src) s') (\<lambda>(_, s). ip_free cf p s))
    \<and> packet (ibufs s') p (p # ps)
    \<and> data (ibufs s') (p # ps) = ip_header tos (of_nat (tot_len b p)) ident off 255 IP_PROTO_ICMP dest src
        @ icmp_msg 0 code (adjust_chksum k) rest
    \<and> (\<exists>B st. lower s' = (lower s)\<lparr>bufs := b\<lparr>bytes := B\<rparr>, ip_stats := st\<rparr>)
    \<and> inet_chksum 0 (ip_header tos (of_nat (tot_len b p)) ident off 255 IP_PROTO_ICMP dest src) = 0
    \<and> (icmp_msg 0 code (adjust_chksum k) rest = replicate (tot_len b p - 20) 0 \<or> inet_chksum 0 (icmp_msg 0 code (adjust_chksum k) rest) = 0)"
proof -
  let ?s = "with_packet inp (payload b p) src dest (ip_stats_inc sp_recv_update s)"
  have s: "ibufs ?s = b" "netifs (lower ?s) = netifs (lower s)" by (simp_all add: b_def)
  have hdr: "data b (p # ps) = ip_hdr_bytes tos (of_nat (tot_len b p)) ident off ttl 1
      (inet_chksum 0 (ip_hdr_bytes tos (of_nat (tot_len b p)) ident off ttl 1 0 src dest)) src dest @ icmp_msg 8 code k rest"
    using d by (simp add: ip_header_def)
  obtain B where B: "icmp_input cf out p inp ?s = Option.bind
      (on_lower (out inp p src) (ip_stats_inc sp_xmit_update (ICMP_STATS_INC sp_xmit_update (ICMP_STATS_INC sp_recv_update
        (set_bufs (b\<lparr>bytes := B\<rparr>) ?s))))) (\<lambda>(_, s). ip_free cf p s)"
    "packet (b\<lparr>bytes := B\<rparr>) p (p # ps)"
    "data (b\<lparr>bytes := B\<rparr>) (p # ps) = ip_header tos (of_nat (tot_len b p)) ident off 255 1 dest src @ icmp_msg 0 code (adjust_chksum k) rest"
    by (rule echo_in_place [of ?s p ps tos "of_nat (tot_len b p)" ident off ttl _ src dest code k rest dest inp src cf out, unfolded s])
      (use p hdr cs apart dest mtu in \<open>simp_all\<close>)
  have "take 20 (data b (p # ps)) = mem_bytes (bytes b) (payload b p) 20" using p(4) by (simp add: pdata_def)
  then have at: "mem_bytes (bytes b) (payload b p) 20 = ip_header tos (of_nat (tot_len b p)) ident off ttl 1 src dest" unfolding d by simp
  have "ip_deliver cf out stubs p (payload b p) inp ?s = icmp_input cf out p inp ?s"
    using header_reads(6) [OF at [unfolded ip_header_def]] by (simp add: ip_deliver_def stubs_def b_def)
  then have "ip_input cf out stubs p inp s = map_option (\<lambda>s. (ERR_OK, no_packet s)) (icmp_input cf out p inp ?s)"
    using ip_input_delivers [of s p ps tos ident off ttl 1 src dest _ inp cf out stubs] p d whole src dest inp unfolding b_def by simp
  moreover have "inet_chksum 0 (icmp_msg 0 code (adjust_chksum k) rest) = 0"
    if "icmp_msg 0 code (adjust_chksum k) rest \<noteq> replicate (tot_len b p - 20) 0"
  proof (rule reply_chksum [OF _ cs])
    have len: "tot_len b p = 20 + length (icmp_msg 8 code k rest)" "length (icmp_msg 8 code k rest) < 65536"
      using packet_length [OF p(1)] unfolding d by auto
    then show "length (icmp_msg 8 code k rest) \<le> 0x20000" by simp
    show "\<exists>x\<in>set (icmp_msg 0 code (adjust_chksum k) rest). x \<noteq> 0"
      using that len(1) by (metis add_diff_cancel_left' replicate_eqI length_icmp_msg)
  qed
  moreover have "\<exists>st. lower (ip_stats_inc sp_xmit_update (ICMP_STATS_INC sp_xmit_update (ICMP_STATS_INC sp_recv_update
      (set_bufs (b\<lparr>bytes := B\<rparr>) ?s)))) = (lower s)\<lparr>bufs := b\<lparr>bytes := B\<rparr>, ip_stats := st\<rparr>"
    by (rule exI [of _ "ip_stats (lower (ip_stats_inc sp_xmit_update ?s))"])
      (simp add: ip_stats_inc_def IP_STATS_INC_def set_bufs_def ICMP_STATS_INC_def with_packet_def)
  ultimately show ?thesis
    using B by (intro exI [of _ "ip_stats_inc sp_xmit_update (ICMP_STATS_INC sp_xmit_update (ICMP_STATS_INC sp_recv_update
        (set_bufs (b\<lparr>bytes := B\<rparr>) ?s)))"]) (auto simp: ip_header_verifies)
qed

end
