(* ===== verification/Etharp_Claims.thy ===== *)
theory Etharp_Claims
  imports Etharp_Props
begin

text \<open>
  What \<^verbatim>\<open>netif/etharp.c\<close> promises: its table over every sequence of calls, the choice of the entry to
  recycle, updates and look-ups, ageing, and the answer to an ARP request.
\<close>

section \<open>Sequences of calls\<close>

definition entry0 :: etharp_entry where
  "entry0 = \<lparr>ae_q = NULL, ae_ipaddr = 0, ae_netif = NULL, ae_ethaddr = replicate 6 0,
     ae_state = ETHARP_STATE_EMPTY, ae_ctime = 0\<rparr>"

text \<open>
  The states that calls of the public functions reach from the zero-initialised table, in any order and with
  any arguments. In between, other parts of the stack change what is not static data of the file.
\<close>

inductive arp_reach :: "custom_free \<Rightarrow> linkoutput_fn \<Rightarrow> arp_state \<Rightarrow> bool" for cf lo where
  init: "arp_table s = replicate ARP_TABLE_SIZE entry0 \<Longrightarrow> etharp_cached_entry s = 0 \<Longrightarrow> arp_reach cf lo s"
| others: "arp_reach cf lo s \<Longrightarrow> arp_table s' = arp_table s \<Longrightarrow> etharp_cached_entry s' = etharp_cached_entry s \<Longrightarrow>
    arp_reach cf lo s'"
| timer: "arp_reach cf lo s \<Longrightarrow> etharp_tmr cf s = Some s' \<Longrightarrow> arp_reach cf lo s'"
| cleanup: "arp_reach cf lo s \<Longrightarrow> etharp_cleanup_netif cf netif s = Some s' \<Longrightarrow> arp_reach cf lo s'"
| add_static: "arp_reach cf lo s \<Longrightarrow> etharp_add_static_entry cf lo ip mac s = Some (r, s') \<Longrightarrow> arp_reach cf lo s'"
| remove_static: "arp_reach cf lo s \<Longrightarrow> etharp_remove_static_entry cf ip s = Some (r, s') \<Longrightarrow> arp_reach cf lo s'"
| arp_input: "arp_reach cf lo s \<Longrightarrow> etharp_arp_input cf lo netif mac p s = Some s' \<Longrightarrow> arp_reach cf lo s'"
| send: "arp_reach cf lo s \<Longrightarrow> etharp_output cf lo netif q ip s = Some (r, s') \<Longrightarrow> arp_reach cf lo s'"
| query: "arp_reach cf lo s \<Longrightarrow> etharp_query cf lo netif ip q s = Some (r, s') \<Longrightarrow> arp_reach cf lo s'"
| request: "arp_reach cf lo s \<Longrightarrow> etharp_request cf lo netif ip s = Some (r, s') \<Longrightarrow> arp_reach cf lo s'"

lemma table_inv_init: "table_inv (replicate ARP_TABLE_SIZE entry0)"
  by (simp add: table_inv_def entry0_def entry_ok_def)

lemma reach_inv: "arp_reach cf lo s \<Longrightarrow> arp_inv s"
proof (induction rule: arp_reach.induct)
  case (init s)
  then show ?case using table_inv_init by (simp add: arp_inv_def)
next
  case (others s s')
  then show ?case by (simp add: arp_inv_def)
next
  case (request s netif ip r s')
  then show ?case using arp_inv_view [OF request_view] by blast
qed (blast intro: tmr_inv cleanup_inv add_static_inv remove_inv arp_input_inv output_inv query_inv)+

section \<open>Ageing\<close>

fun ticks :: "custom_free \<Rightarrow> nat \<Rightarrow> arp_state \<Rightarrow> arp_state option" where
  "ticks cf 0 s = Some s"
| "ticks cf (Suc n) s = etharp_tmr cf s \<bind> ticks cf n"

text \<open>The ticks an entry that is not refreshed has left.\<close>

definition lifetime :: "etharp_entry \<Rightarrow> nat" where
  "lifetime e = (case ae_state e of
       ETHARP_STATE_EMPTY \<Rightarrow> 0
     | ETHARP_STATE_PENDING \<Rightarrow> ARP_MAXPENDING - ae_ctime e
     | _ \<Rightarrow> ARP_MAXAGE - ae_ctime e)"

lemma ticks_total:
  assumes "length (arp_table s) = 10" "arp_refs sizes a s R"
  shows "\<exists>s'. ticks cf n s = Some s' \<and> arp_refs sizes a s' R \<and> arp_table s' = map (tick ^^ n) (arp_table s)"
  using assms
proof (induction n arbitrary: s)
  case (Suc n)
  obtain s1 where s1: "etharp_tmr cf s = Some s1" "arp_refs sizes a s1 R"
    using etharp_tmr_total [OF Suc.prems(2,1)] by blast
  then have t: "arp_table s1 = map tick (arp_table s)" using etharp_tmr_shape [OF s1(1) Suc.prems(1)] by auto
  then have "length (arp_table s1) = 10" using Suc.prems by simp
  from Suc.IH [OF this s1(2)] show ?case using s1(1) t by (auto simp: funpow_swap1)
qed simp

lemma tick_static [simp]: "ae_state e = ETHARP_STATE_STATIC \<Longrightarrow> tick e = e"
  by (simp add: tick_def)

lemma tick_lifetime:
  assumes "entry_ok e" "ae_state e \<noteq> ETHARP_STATE_STATIC"
  shows "lifetime (tick e) = lifetime e - 1" "ae_state (tick e) \<noteq> ETHARP_STATE_STATIC"
    "ae_ethaddr (tick e) = ae_ethaddr e"
  using assms by (auto simp: tick_def Let_def cleared_def entry_ok_def lifetime_def split: etharp_state.splits)

lemma lifetime_0: "entry_ok e \<Longrightarrow> lifetime e = 0 \<longleftrightarrow> ae_state e = ETHARP_STATE_EMPTY"
  by (auto simp: lifetime_def entry_ok_def split: etharp_state.splits)

lemma funpow_tick:
  assumes "entry_ok e" "ae_state e \<noteq> ETHARP_STATE_STATIC"
  shows "entry_ok ((tick ^^ n) e)" "lifetime ((tick ^^ n) e) = lifetime e - n"
    "ae_ipaddr ((tick ^^ n) e) = ae_ipaddr e" "ae_ethaddr ((tick ^^ n) e) = ae_ethaddr e"
    "ae_state ((tick ^^ n) e) \<noteq> ETHARP_STATE_STATIC"
  using assms by (induction n) (simp_all add: tick_ok tick_lifetime)

lemma funpow_tick_static: "ae_state e = ETHARP_STATE_STATIC \<Longrightarrow> (tick ^^ n) e = e"
  by (induction n) simp_all

lemma queues_empty: "queues t = {#} \<longleftrightarrow> (\<forall>e\<in>set t. ae_q e = NULL)"
  by (induction t) (simp_all add: queues_def)

text \<open>
  A static entry is not protected from the network: any ARP packet about its address, also one
  that is not for us, overwrites its hardware address and makes it an entry that expires.
\<close>

lemma static_entry_demoted:
  assumes "arp_inv s" "i < ARP_TABLE_SIZE" "ae_state (entry s i) = ETHARP_STATE_STATIC" "ae_ipaddr (entry s i) = ip"
    and "\<not> non_unicast ip (netifs s netif)" "nif_hwaddr_len (netifs s netif) = ETHARP_HWADDR_LEN"
  shows "\<exists>s'. etharp_update_arp_entry cf lo netif ip mac ETHARP_FLAG_FIND_ONLY s = Some (ERR_OK, s')
    \<and> ae_state (entry s' i) = ETHARP_STATE_STABLE \<and> ae_ethaddr (entry s' i) = mac"
proof -
  have t: "table_inv (arp_table s)" using assms(1) by (simp add: arp_inv_def)
  have "\<not> no_match (Some ip) 10 (arp_table s)" using assms(2-4) by (auto simp: no_match_def)
  then obtain j where j: "j < 10" "etharp_find_entry cf (Some ip) ETHARP_FLAG_FIND_ONLY s = Some (Inr j, s)"
      "ae_state (entry s j) \<noteq> ETHARP_STATE_EMPTY" "ae_ipaddr (entry s j) = ip"
    using find_entry_eq [OF t, of cf ip ETHARP_FLAG_FIND_ONLY] by blast
  then have "j = i" using table_inv_unique [OF t, of j i] assms(2-4) by simp
  moreover have "ae_q (entry s i) = NULL" using table_invD(2) [OF t assms(2)] assms(3) by (auto simp: entry_ok_def)
  moreover have "length (arp_table s) = 10" using table_invD(1) [OF t] .
  ultimately show ?thesis
    using update_eq [OF assms(5,6) j(2) _ j(4), of lo mac] assms(2)
    by (simp add: send_queued_def set_table_def resolved_def)
qed

section \<open>Properties\<close>

text \<open>
  C5. Whatever sequence of calls is made, an IP address has at most one entry in use, packets wait on pending entries
  only, a pending entry is younger than \<^verbatim>\<open>ARP_MAXPENDING\<close> and a stable one younger than \<^verbatim>\<open>ARP_MAXAGE\<close>,
  one that is being requested again is within its last minute, static entries have age zero, and
  the cached index is an index of the table. The table never grows or shrinks.
\<close>

theorem arp_table_invariant:
  assumes "arp_reach cf lo s"
  shows "length (arp_table s) = ARP_TABLE_SIZE \<and> etharp_cached_entry s < ARP_TABLE_SIZE
    \<and> (\<forall>i < ARP_TABLE_SIZE. entry_ok (entry s i))
    \<and> (\<forall>i < ARP_TABLE_SIZE. \<forall>j < ARP_TABLE_SIZE. i \<noteq> j \<longrightarrow> ae_state (entry s i) \<noteq> ETHARP_STATE_EMPTY
      \<longrightarrow> ae_state (entry s j) \<noteq> ETHARP_STATE_EMPTY \<longrightarrow> ae_ipaddr (entry s i) \<noteq> ae_ipaddr (entry s j))"
  using reach_inv [OF assms] by (auto simp: arp_inv_def table_inv_def)

text \<open>
  C12. \<^verbatim>\<open>etharp_find_entry\<close> returns the entry of the address when there is one and changes nothing. Otherwise it
  takes the entry that is least missed: the first empty one, else the oldest stable one, else the oldest
  pending one without a packet, else the oldest pending one with a packet, which it frees; never a static
  one. It fails with \<^verbatim>\<open>ERR_MEM\<close>, changing nothing, exactly when it may only search, or when the table is full and
  it must not recycle or has only static entries. No assertion of the function fails.
\<close>

theorem find_entry_choice:
  assumes "arp_inv s" "arp_refs sizes a s R"
  shows "\<exists>r s'. etharp_find_entry cf (Some ip) flags s = Some (r, s') \<and> arp_refs sizes a s' R
    \<and> (case r of
         Inl e \<Rightarrow> e = ERR_MEM \<and> s' = s \<and> no_match (Some ip) ARP_TABLE_SIZE (arp_table s) \<and> refused flags (arp_table s)
       | Inr i \<Rightarrow> i < ARP_TABLE_SIZE \<and> ae_ipaddr (entry s' i) = ip
           \<and> (s' = s \<and> ae_state (entry s i) \<noteq> ETHARP_STATE_EMPTY
              \<or> no_match (Some ip) ARP_TABLE_SIZE (arp_table s) \<and> \<not> refused flags (arp_table s) \<and> victim (arp_table s) i
                \<and> arp_table s' = (arp_table s)[i := fresh ip (entry s i)]))"
proof -
  have t: "table_inv (arp_table s)" using assms(1) by (simp add: arp_inv_def)
  obtain r s' where r: "etharp_find_entry cf (Some ip) flags s = Some (r, s')" "arp_refs sizes a s' R"
    using find_entry_total [OF t assms(2)] by blast
  from r(1) t show ?thesis
    by (cases rule: find_entry_cases) (use r table_invD(1) [OF t] in \<open>auto simp: fresh_def\<close>)
qed

text \<open>
  C9. After a successful \<^verbatim>\<open>etharp_update_arp_entry\<close> a look-up of the address finds the hardware address stored, as a
  stable entry of age zero on that interface (static if so asked), and every other entry is as it was, up to one that
  was recycled. A packet that waited for the address is sent with the Ethernet header filled in,
  and its reference released. The call fails, changing nothing, only for addresses that are not unicast
  and where \<^verbatim>\<open>etharp_find_entry\<close> fails.
\<close>

theorem update_then_find:
  assumes "arp_inv s" "arp_refs sizes a s R" "nif_hwaddr_len (netifs s netif) = ETHARP_HWADDR_LEN"
    and "length mac = 6" "length (nif_hwaddr (netifs s netif)) = 6"
    and "waiting s ip \<noteq> NULL \<longrightarrow> 14 \<le> len (bufs s) (waiting s ip)"
  shows "\<exists>r s'. etharp_update_arp_entry cf lo netif ip mac flags s = Some (r, s') \<and> arp_refs sizes a s' R
    \<and> (if r = ERR_OK
       then (\<exists>i < ARP_TABLE_SIZE. etharp_find_addr cf ip s' = Some (Some i, s')
               \<and> entry s' i = resolved netif ip mac flags
               \<and> (\<forall>j < ARP_TABLE_SIZE. j \<noteq> i \<longrightarrow> entry s' j = entry s j))
            \<and> frames s' = frames s @ (if waiting s ip = NULL then []
                 else [(netif, waiting s ip, eth_frame mac (nif_hwaddr (netifs s netif)) (pdata (bufs s) (waiting s ip)))])
       else s' = s \<and> (r = ERR_ARG \<and> non_unicast ip (netifs s netif)
            \<or> r = ERR_MEM \<and> no_match (Some ip) ARP_TABLE_SIZE (arp_table s) \<and> refused flags (arp_table s)))"
proof -
  have t: "table_inv (arp_table s)" using assms(1) by (simp add: arp_inv_def)
  obtain r s' where u: "etharp_update_arp_entry cf lo netif ip mac flags s = Some (r, s')" "arp_refs sizes a s' R"
    and quiet: "waiting s ip = NULL \<Longrightarrow> frames s' = frames s"
    and sent: "waiting s ip \<noteq> NULL \<Longrightarrow> r = ERR_OK \<Longrightarrow> frames s' = frames s
      @ [(netif, waiting s ip, eth_frame mac (nif_hwaddr (netifs s netif)) (pdata (bufs s) (waiting s ip)))]"
    using update_total [OF t assms(2,3), of cf lo ip mac flags] assms(4-6) by blast
  from u(1) t show ?thesis
  proof (cases rule: update_cases)
    case refused
    then show ?thesis using u by auto
  next
    case (stored i)
    have len: "length (arp_table s) = 10" using table_invD(1) [OF t] .
    have e: "entry s' i = resolved netif ip mac flags" using stored(2,3) len by simp
    have t': "table_inv (arp_table s')" using update_inv [OF u(1) assms(1)] by (simp add: arp_inv_def)
    have "etharp_find_entry cf (Some ip) ETHARP_FLAG_FIND_ONLY s' = Some (Inr i, s')"
    proof -
      have st: "ae_state (entry s' i) \<noteq> ETHARP_STATE_EMPTY" "ae_ipaddr (entry s' i) = ip" by (simp_all add: e resolved_def)
      then have "\<not> no_match (Some ip) 10 (arp_table s')" using stored(2) by (auto simp: no_match_def)
      then obtain j where "j < 10" "etharp_find_entry cf (Some ip) ETHARP_FLAG_FIND_ONLY s' = Some (Inr j, s')"
          "ae_state (entry s' j) \<noteq> ETHARP_STATE_EMPTY" "ae_ipaddr (entry s' j) = ip"
        using find_entry_eq [OF t', of cf ip ETHARP_FLAG_FIND_ONLY] by blast
      then show ?thesis using table_inv_unique [OF t', of j i] stored(2) st by simp
    qed
    then have "etharp_find_addr cf ip s' = Some (Some i, s')"
      using e by (simp add: etharp_find_addr_def resolved_def less_eq_etharp_state_def)
    then show ?thesis using u stored len e quiet sent by (auto intro!: exI [of _ i])
  qed
qed

text \<open>
  C32. \<^verbatim>\<open>etharp_tmr\<close> ages the table: an entry that is not refreshed disappears after exactly the ticks its
  state and age leave it, two for a pending and 240 for a stable one at most, and is kept with its addresses until then;
  static entries stay as they are. The calls return, and the packets that waited on entries that disappear
  are released: once they are all gone, only the references kept elsewhere are counted.
\<close>

theorem arp_entries_expire:
  assumes "arp_inv s" "arp_refs sizes a s R"
  shows "\<exists>s'. ticks cf n s = Some s' \<and> arp_refs sizes a s' R
    \<and> (\<forall>i < ARP_TABLE_SIZE. if ae_state (entry s i) = ETHARP_STATE_STATIC then entry s' i = entry s i
         else (ae_state (entry s' i) = ETHARP_STATE_EMPTY \<longleftrightarrow> lifetime (entry s i) \<le> n)
           \<and> ae_ipaddr (entry s' i) = ae_ipaddr (entry s i) \<and> ae_ethaddr (entry s' i) = ae_ethaddr (entry s i))
    \<and> (ARP_MAXAGE \<le> n \<longrightarrow> refs_ok sizes a (bufs s') R)"
proof -
  have t: "table_inv (arp_table s)" using assms(1) by (simp add: arp_inv_def)
  note len = table_invD(1) [OF t]
  obtain s' where s': "ticks cf n s = Some s'" "arp_refs sizes a s' R" "arp_table s' = map (tick ^^ n) (arp_table s)"
    using ticks_total [OF len assms(2)] by blast
  have e: "entry s' i = (tick ^^ n) (entry s i)" "entry_ok (entry s i)" if "i < 10" for i
    using that len s'(3) table_invD(2) [OF t that] by auto
  have "refs_ok sizes a (bufs s') R" if n: "240 \<le> n"
  proof -
    have "ae_q (entry s' i) = NULL" if i: "i < 10" for i
    proof (cases "ae_state (entry s i) = ETHARP_STATE_STATIC")
      case True
      then show ?thesis using e [OF i] by (simp add: funpow_tick_static entry_ok_def)
    next
      case False
      have "lifetime (entry s i) \<le> 240" by (auto simp: lifetime_def split: etharp_state.splits)
      then have "lifetime (entry s' i) = 0" using funpow_tick(2) [OF e(2) False] e(1) i n by simp
      then have "ae_state (entry s' i) = ETHARP_STATE_EMPTY" using lifetime_0 funpow_tick(1) [OF e(2) False] e(1) i by simp
      then show ?thesis using funpow_tick(1) [OF e(2) [OF i] False, of n] e(1) [OF i] by (auto simp: entry_ok_def)
    qed
    then have "queues (arp_table s') = {#}" using s'(3) len unfolding queues_empty by (auto simp: in_set_conv_nth)
    then show ?thesis using s'(2) by (simp add: arp_refs_def)
  qed
  moreover have "if ae_state (entry s i) = ETHARP_STATE_STATIC then entry s' i = entry s i
         else (ae_state (entry s' i) = ETHARP_STATE_EMPTY \<longleftrightarrow> lifetime (entry s i) \<le> n)
           \<and> ae_ipaddr (entry s' i) = ae_ipaddr (entry s i) \<and> ae_ethaddr (entry s' i) = ae_ethaddr (entry s i)" if i: "i < 10" for i
    using e [OF i] funpow_tick [of "entry s i" n] lifetime_0 [of "entry s' i"] by (auto simp: funpow_tick_static)
  ultimately show ?thesis using s' by blast
qed

text \<open>
  Storing an address sends the packet that waits for it and leaves the data of a pbuf alone that lies apart from that packet's
  Ethernet header.
\<close>

lemma update_beside:
  assumes t: "table_inv (arp_table s)" "arp_refs sizes a s R" "nif_hwaddr_len (netifs s netif) = 6"
    and q: "q = waiting s ip" "q \<noteq> NULL \<longrightarrow> 14 \<le> len (bufs s) q \<and> payload_apart (bufs s) p (payload (bufs s) q) 14
        \<and> length (nif_hwaddr (netifs s netif)) = 6" and mac: "length mac = 6"
  obtains r s1 where "etharp_update_arp_entry cf lo netif ip mac flags s = Some (r, s1)" "netifs s1 = netifs s"
    "frames s1 = frames s @ (if q = NULL \<or> non_unicast ip (netifs s netif) then []
       else [(netif, q, eth_frame mac (nif_hwaddr (netifs s netif)) (pdata (bufs s) q))])"
    "payload (bufs s1) p = payload (bufs s) p" "len (bufs s1) p = len (bufs s) p" "pdata (bufs s1) p = pdata (bufs s) p"
    "\<forall>x. payload (bufs s) p \<le> x \<and> x < payload (bufs s) p + len (bufs s) p \<longrightarrow> bytes (bufs s1) x = bytes (bufs s) x"
proof -
  obtain r s1 where u: "etharp_update_arp_entry cf lo netif ip mac flags s = Some (r, s1)" and n: "netifs s1 = netifs s"
    and still: "q = NULL \<or> non_unicast ip (netifs s netif) \<Longrightarrow> frames s1 = frames s \<and> same_data (bufs s) (bufs s1)"
    and sent: "q \<noteq> NULL \<Longrightarrow> r = ERR_OK \<Longrightarrow> length (nif_hwaddr (netifs s netif)) = 6 \<Longrightarrow> 14 \<le> len (bufs s) q \<Longrightarrow>
      frames s1 = frames s @ [(netif, q, eth_frame mac (nif_hwaddr (netifs s netif)) (pdata (bufs s) q))]"
    and ok: "q \<noteq> NULL \<Longrightarrow> \<not> non_unicast ip (netifs s netif) \<Longrightarrow> r = ERR_OK"
    and only: "length (nif_hwaddr (netifs s netif)) = 6 \<Longrightarrow> header_only (payload (bufs s) q) (bufs s) (bufs s1)"
    using update_total [OF t, of cf lo ip mac flags] mac unfolding q(1) by blast
  show thesis
  proof (cases "q = NULL \<or> non_unicast ip (netifs s netif)")
    case True
    note still = still [OF True]
    show thesis by (rule that [OF u n]) (use True still in \<open>simp_all add: same_dataD [OF conjunct2 [OF still]]\<close>)
  next
    case False
    then have far: "payload_apart (bufs s) p (payload (bufs s) q) 14" and len: "14 \<le> len (bufs s) q"
      and h: "header_only (payload (bufs s) q) (bufs s) (bufs s1)" and hw: "length (nif_hwaddr (netifs s netif)) = 6"
      using q(2) only by auto
    note d = header_onlyD [OF h]
    have same: "bytes (bufs s1) x = bytes (bufs s) x" if "payload (bufs s) p \<le> x" "x < payload (bufs s) p + len (bufs s) p" for x
      using h far that by (auto simp: header_only_def payload_apart_def apart_def)
    have "pdata (bufs s1) p = pdata (bufs s) p" unfolding pdata_def d(1,2) by (rule mem_bytes_cong) (use same in auto)
    then show thesis using False same d(1,2) sent [OF _ _ hw len] ok by (intro that [OF u n]) auto
  qed
qed

text \<open>
  C33. An ARP packet that comes in is freed exactly once, whatever it says: dropped because it is too short
  or malformed, taken as a request, a reply or with an unknown opcode. The call returns. A well-formed request for the
  address of the interface is answered: a frame is sent, in the pbuf of the request, back to the
  sender and from the interface, an ARP reply with the addresses swapped and the
  interface's own filled in; and the sender is in the table afterwards, unless its address is not
  unicast or there is no entry to be had. When a packet waited for the sender's address (it has room for the Ethernet
  header, which does not lie in the request's buffer), it is sent first, to the hardware address in the request; no other
  frame is sent.
\<close>

theorem arp_request_answered:
  assumes "arp_inv s" "arp_refs sizes a s (add_mset p R)" "netif \<noteq> NULL"
    and "nif_hwaddr_len (netifs s netif) = ETHARP_HWADDR_LEN" "length mac = 6"
    and "e = payload (bufs s) p" "b = bytes (bufs s)" "sip = get_u32 b (e + 28)" "q = waiting s sip"
  shows "\<exists>s'. etharp_arp_input cf lo netif mac p s = Some s' \<and> arp_refs sizes a s' R
    \<and> (SIZEOF_ETHARP_PACKET \<le> len (bufs s) p \<and> arp_hdr_ok b (e + 14) \<and> get_u16 b (e + 20) = lwip_htons ARP_REQUEST
         \<and> nif_ip_addr (netifs s netif) \<noteq> IPADDR_ANY \<and> get_u32 b (e + 38) = nif_ip_addr (netifs s netif)
         \<and> (q \<noteq> NULL \<longrightarrow> 14 \<le> len (bufs s) q \<and> payload_apart (bufs s) p (payload (bufs s) q) 14
               \<and> length (nif_hwaddr (netifs s netif)) = 6) \<longrightarrow>
       frames s' = frames s
           @ (if q = NULL \<or> non_unicast sip (netifs s netif) then []
              else [(netif, q, eth_frame (mem_bytes b (e + 22) 6) (nif_hwaddr (netifs s netif)) (pdata (bufs s) q))])
           @ [(netif, p, arp_reply_frame mac (nif_ip_addr (netifs s netif)) (pdata (bufs s) p))]
       \<and> (non_unicast sip (netifs s netif) \<or> refused ETHARP_FLAG_TRY_HARD (arp_table s)
          \<or> (\<exists>i < ARP_TABLE_SIZE. entry s' i = resolved netif sip (mem_bytes b (e + 22) 6) ETHARP_FLAG_TRY_HARD)))"
proof -
  obtain s' where s': "etharp_arp_input cf lo netif mac p s = Some s'" "arp_refs sizes a s' R"
    using arp_input_total [OF assms(1-4)] by blast
  define sent where "sent = (if q = NULL \<or> non_unicast sip (netifs s netif) then []
      else [(netif, q, eth_frame (mem_bytes b (e + 22) 6) (nif_hwaddr (netifs s netif)) (pdata (bufs s) q))])"
  have answer: "frames s' = frames s @ sent @ [(netif, p, arp_reply_frame mac (nif_ip_addr (netifs s netif)) (pdata (bufs s) p))]
       \<and> (non_unicast sip (netifs s netif) \<or> refused ETHARP_FLAG_TRY_HARD (arp_table s)
          \<or> (\<exists>i<10. entry s' i = resolved netif sip (mem_bytes b (e + 22) 6) ETHARP_FLAG_TRY_HARD))"
    if h: "SIZEOF_ETHARP_PACKET \<le> len (bufs s) p" "arp_hdr_ok b (e + 14)" "get_u16 b (e + 20) = lwip_htons ARP_REQUEST"
      and us: "nif_ip_addr (netifs s netif) \<noteq> IPADDR_ANY" "get_u32 b (e + 38) = nif_ip_addr (netifs s netif)"
      and wait: "q \<noteq> NULL \<longrightarrow> 14 \<le> len (bufs s) q \<and> payload_apart (bufs s) p (payload (bufs s) q) 14
               \<and> length (nif_hwaddr (netifs s netif)) = 6"
  proof -
    let ?s = "ETHARP_STATS_INC sp_recv_update s"
    have t: "table_inv (arp_table ?s)" using assms(1) by (simp add: arp_inv_def)
    have pos: "e + 14 + 24 = e + 38" "e + 14 + 14 = e + 28" "e + 14 + 8 = e + 22" "e + 14 + 6 = e + 20" by simp_all
    have "\<not> len (bufs s) p < SIZEOF_ETHARP_PACKET" using h(1) by simp
    note eq = arp_input_eq [OF assms(3) this assms(6) h(2) [unfolded assms(7)] refl, of True cf lo mac,
        unfolded pos assms(7) [symmetric] assms(8) [symmetric]]
    have hw: "arp_refs sizes a ?s (add_mset p R)" "nif_hwaddr_len (netifs ?s netif) = 6" using assms(2,4) by simp_all
    have mac6: "length (mem_bytes b (e + 22) 6) = 6" by simp
    obtain r s1 where s1: "etharp_update_arp_entry cf lo netif sip (mem_bytes b (e + 22) 6) ETHARP_FLAG_TRY_HARD ?s = Some (r, s1)"
        "netifs s1 = netifs s" "frames s1 = frames s @ sent" "payload (bufs s1) p = e" "len (bufs s1) p = len (bufs s) p"
        "pdata (bufs s1) p = pdata (bufs s) p" "\<forall>x. e \<le> x \<and> x < e + len (bufs s) p \<longrightarrow> bytes (bufs s1) x = b x"
      using update_beside [OF t hw _ _ mac6, of q sip p cf lo ETHARP_FLAG_TRY_HARD, unfolded stats_simps,
          folded assms(6,7) sent_def, OF assms(9) wait] .
    have op: "get_u16 (bytes (bufs s1)) (e + 20) = get_u16 b (e + 20)" using s1(7) h(1) by (simp add: get_u16_def)
    obtain s2 where s2: "arp_reply_in_place netif e mac s1 = Some s2" "frames s2 = frames s @ sent" "arp_table s2 = arp_table s1"
        "pdata (bufs s2) p = arp_reply_frame mac (nif_ip_addr (netifs s netif)) (pdata (bufs s) p)"
      using reply_in_place_eq [of s1 netif mac p] assms(4,5) h(1) unfolding s1(2-6) by blast
    have act: "arp_act lo netif mac p e True s1 = Some (snd (linkoutput lo netif p s2))"
      using h(3) s2(1) unfolding arp_act_def Let_def pos op by simp
    have "True = (nif_ip_addr (netifs s netif) \<noteq> IPADDR_ANY \<and> get_u32 b (e + 38) = nif_ip_addr (netifs s netif))"
      using us by simp
    from s'(1) [unfolded eq [OF this]] have "free_pbuf cf p (snd (linkoutput lo netif p s2)) = Some s'"
      by (simp only: if_True s1(1) act Option.bind.simps prod.case)
    then have f: "frames s' = frames s @ sent @ [(netif, p, arp_reply_frame mac (nif_ip_addr (netifs s netif)) (pdata (bufs s) p))]"
        "arp_table s' = arp_table s1"
      using s2 by (auto simp: linkoutput_def free_pbuf_def)
    from s1(1) t show ?thesis
    proof (cases rule: update_cases)
      case refused
      then show ?thesis unfolding f(1) stats_simps by blast
    next
      case (stored i)
      have "entry s' i = resolved netif sip (mem_bytes b (e + 22) 6) ETHARP_FLAG_TRY_HARD"
        unfolding f(2) stored(3) using stored(2) table_invD(1) [OF t] by simp
      then show ?thesis unfolding f(1) using stored(2) by blast
    qed
  qed
  show ?thesis by (intro exI [of _ s'] conjI [OF s'(1) conjI [OF s'(2)]] impI, unfold sent_def [symmetric],
      elim conjE, rule answer)
qed

section \<open>Witnesses\<close>

text \<open>An interface 192.168.0.1/24, and a table in which the packet \<open>p\<close> waits for 192.168.0.2.\<close>

definition nif0 :: struct_netif where
  "nif0 = \<lparr>nif_next = NULL, nif_ip_addr = 0x0100a8c0, nif_netmask = 0x00ffffff, nif_gw = 0, nif_input = 0, nif_output = 0,
     nif_linkoutput = 0, nif_state = 0, nif_mtu = 1500, nif_hwaddr_len = 6, nif_hwaddr = [2, 0, 0, 0, 0, 1],
     nif_flags = 0x33, nif_name = (0x65, 0x6e), nif_num = 0\<rparr>"

definition stats0 :: stats_proto where
  "stats0 = \<lparr>sp_xmit = 0, sp_recv = 0, sp_fw = 0, sp_drop = 0, sp_chkerr = 0, sp_lenerr = 0, sp_memerr = 0, sp_rterr = 0,
     sp_proterr = 0, sp_opterr = 0, sp_err = 0, sp_cachehit = 0\<rparr>"

definition arp1 :: "pbuf_state \<Rightarrow> addr \<Rightarrow> arp_state" where
  "arp1 b p = \<lparr>arp_table = entry0\<lparr>ae_q := p, ae_ipaddr := 0x0200a8c0, ae_state := ETHARP_STATE_PENDING\<rparr> # replicate 9 entry0,
     etharp_cached_entry = 0, bufs = b, netifs = \<lambda>_. nif0, netif_list = 1, netif_default = 1, etharp_stats = stats0,
     link_stats = stats0, ip_stats = stats0, frames = []\<rparr>"

lemma arp1_inv: "arp_inv (arp1 b p)"
  by (auto simp: arp_inv_def table_inv_def arp1_def entry_ok_def entry0_def nth_Cons')

lemma arp1_refs: "refs_ok sizes a b (add_mset p R) \<Longrightarrow> arp_refs sizes a (arp1 b p) R"
proof -
  assume r: "refs_ok sizes a b (add_mset p R)"
  have "queues (replicate 9 entry0) = {#}" by (simp add: queues_empty entry0_def)
  moreover have "p \<noteq> NULL" using refs_ok_nonNULL [OF r, of p] by simp
  ultimately have "queues (arp_table (arp1 b p)) = {#p#}" by (simp add: arp1_def queues_def)
  then show ?thesis using r by (simp add: arp_refs_def) (simp add: arp1_def)
qed

lemma arp1_waiting: "waiting (arp1 b p) 0x0200a8c0 = p"
  by (simp add: waiting_def arp1_def)

theorem arp_table_invariant_witness:
  "length (arp_table ((arp1 ex0 0)\<lparr>arp_table := replicate ARP_TABLE_SIZE entry0\<rparr>)) = ARP_TABLE_SIZE"
proof -
  have "arp_reach (\<lambda>_ _. None) (\<lambda>_ _ _. ERR_OK) ((arp1 ex0 0)\<lparr>arp_table := replicate ARP_TABLE_SIZE entry0\<rparr>)"
    by (rule arp_reach.init) (simp_all add: arp1_def)
  from arp_table_invariant [OF this] show ?thesis by blast
qed

theorem find_entry_choice_witness:
  "\<exists>b p i s'. etharp_find_entry (\<lambda>_ _. None) (Some 0x0200a8c0) ETHARP_FLAG_FIND_ONLY (arp1 b p) = Some (Inr i, s')
    \<and> arp_refs sizes0 4 s' {#p#}"
proof -
  obtain b p where b: "refs_ok sizes0 4 b {#p, p#}" using shared_pbuf by blast
  have "\<not> no_match (Some 0x0200a8c0) 10 (arp_table (arp1 b p))" by (auto simp: no_match_def arp1_def intro: exI [of _ 0])
  then show ?thesis
    using find_entry_choice [OF arp1_inv arp1_refs [OF b], of "\<lambda>_ _. None" "0x0200a8c0" ETHARP_FLAG_FIND_ONLY]
    by (fastforce split: sum.splits)
qed

theorem update_then_find_witness:
  "\<exists>b p i s'. etharp_find_addr (\<lambda>_ _. None) 0x0200a8c0 s' = Some (Some i, s') \<and> ae_ethaddr (entry s' i) = [2, 0, 0, 0, 0, 2]
    \<and> frames s' = [(1, p, eth_frame [2, 0, 0, 0, 0, 2] [2, 0, 0, 0, 0, 1] (pdata b p))]"
proof -
  obtain b p where b: "refs_ok sizes0 4 b {#p, p#}" "len b p = 60" using shared_pbuf by blast
  have p: "p \<noteq> NULL" using refs_ok_nonNULL [OF b(1), of p] by simp
  have n: "netifs (arp1 b p) = (\<lambda>_. nif0)" "bufs (arp1 b p) = b" "frames (arp1 b p) = []" by (simp_all add: arp1_def)
  have uni: "\<not> non_unicast 0x0200a8c0 nif0"
    by (simp add: non_unicast_def nif0_def ip4_addr_isbroadcast_def ip_addr_ismulticast_def ip_addr_netcmp_def
        lwip_htonl_def)
  have m: "\<not> no_match (Some 0x0200a8c0) 10 (arp_table (arp1 b p))" by (auto simp: no_match_def arp1_def intro: exI [of _ 0])
  have "nif_hwaddr_len (netifs (arp1 b p) 1) = 6" "length (nif_hwaddr (netifs (arp1 b p) 1)) = 6" by (simp_all add: n nif0_def)
  from update_then_find [OF arp1_inv arp1_refs [OF b(1)] this(1) _ this(2), of "[2, 0, 0, 0, 0, 2]" "0x0200a8c0" "\<lambda>_ _. None"
      "\<lambda>_ _ _. ERR_OK" 0] b(2) obtain s' i where
    "etharp_find_addr (\<lambda>_ _. None) 0x0200a8c0 s' = Some (Some i, s')" "entry s' i = resolved 1 0x0200a8c0 [2, 0, 0, 0, 0, 2] 0"
    "frames s' = [(1, p, eth_frame [2, 0, 0, 0, 0, 2] (nif_hwaddr nif0) (pdata b p))]"
    using uni m p unfolding n arp1_waiting by (auto split: if_splits)
  then show ?thesis by (intro exI [of _ b] exI [of _ p] exI [of _ i] exI [of _ s']) (simp add: resolved_def nif0_def)
qed

theorem arp_entries_expire_witness:
  "\<exists>b p s'. ticks (\<lambda>_ _. None) 2 (arp1 b p) = Some s' \<and> ae_state (entry s' 0) = ETHARP_STATE_EMPTY \<and> arp_refs sizes0 4 s' {#p#}"
proof -
  obtain b p where b: "refs_ok sizes0 4 b {#p, p#}" using shared_pbuf by blast
  have "ae_state (entry (arp1 b p) 0) \<noteq> ETHARP_STATE_STATIC" "lifetime (entry (arp1 b p) 0) \<le> 2"
    by (simp_all add: arp1_def lifetime_def)
  then show ?thesis
    using arp_entries_expire [OF arp1_inv arp1_refs [OF b], of "\<lambda>_ _. None" 2] by (metis zero_less_numeral)
qed

text \<open>A request from 192.168.0.9 for our address.\<close>

definition request0 :: "u8_t list" where
  "request0 = [255, 255, 255, 255, 255, 255, 2, 0, 0, 0, 0, 9, 8, 6, 0, 1, 8, 0, 6, 4,
     0, 1, 2, 0, 0, 0, 0, 9, 192, 168, 0, 9, 0, 0, 0, 0, 0, 0, 192, 168,
     0, 1, 0, 0, 0, 0, 0, 0, 0, 0, 0, 0, 0, 0, 0, 0, 0, 0, 0, 0]"

theorem arp_request_answered_witness:
  "\<exists>s p s'. etharp_arp_input (\<lambda>_ _. None) (\<lambda>_ _ _. ERR_OK) 1 [2, 0, 0, 0, 0, 1] p s = Some s'
    \<and> frames s' = [(1, p, [2, 0, 0, 0, 0, 9, 2, 0, 0, 0, 0, 1, 8, 6, 0, 1, 8, 0, 6, 4, 0, 2, 2, 0, 0, 0, 0, 1, 192, 168, 0, 1, 2, 0, 0, 0, 0, 9,
        192, 168, 0, 9, 0, 0, 0, 0, 0, 0, 0, 0, 0, 0, 0, 0, 0, 0, 0, 0, 0, 0])]"
proof -
  obtain b0 p where b0: "refs_ok sizes0 4 b0 {#p, p#}" "len b0 p = 60" "payload b0 p = 0" using shared_pbuf by blast
  define b where "b = b0\<lparr>bytes := (\<lambda>x. request0 ! x)\<rparr>"
  have b: "refs_ok sizes0 4 b {#p, p#}" "len b p = 60" "payload b p = 0" "bytes b = (\<lambda>x. request0 ! x)"
    using b0 refs_ok_cong [of b b0 sizes0 4] by (simp_all add: b_def)
  have data: "pdata b p = request0"
    unfolding pdata_def b by (rule nth_equalityI) (simp_all add: request0_def)
  have n: "netifs (arp1 b p) = (\<lambda>_. nif0)" "bufs (arp1 b p) = b" "frames (arp1 b p) = []" by (simp_all add: arp1_def)
  have sip: "get_u32 (\<lambda>x. request0 ! x) 28 = 0x0900a8c0" "get_u32 (\<lambda>x. request0 ! x) 38 = 0x0100a8c0"
    by (simp_all add: get_u32_def request0_def)
  have hdr: "arp_hdr_ok (\<lambda>x. request0 ! x) 14" "get_u16 (\<lambda>x. request0 ! x) 20 = lwip_htons ARP_REQUEST"
    by (simp_all add: arp_hdr_ok_def get_u16_def request0_def lwip_htons_def)
  have wait: "waiting (arp1 b p) 0x0900a8c0 = NULL"
    by (rule waiting_none) (auto simp: no_match_def arp1_def entry0_def nth_Cons')
  have hw: "nif_hwaddr_len (netifs (arp1 b p) 1) = 6" by (simp add: n nif0_def)
  have reply: "arp_reply_frame [2, 0, 0, 0, 0, 1] (nif_ip_addr nif0) request0
    = [2, 0, 0, 0, 0, 9, 2, 0, 0, 0, 0, 1, 8, 6, 0, 1, 8, 0, 6, 4, 0, 2, 2, 0, 0, 0, 0, 1, 192, 168, 0, 1, 2, 0, 0, 0, 0, 9,
        192, 168, 0, 9, 0, 0, 0, 0, 0, 0, 0, 0, 0, 0, 0, 0, 0, 0, 0, 0, 0, 0]"
    by (simp add: arp_reply_frame_def request0_def nif0_def bytes_of_u32_def Let_def)
  have one: "(1::nat) \<noteq> NULL" "length [2, 0, 0, 0, 0, 1 :: u8_t] = 6" by simp_all
  obtain s' where s': "etharp_arp_input (\<lambda>_ _. None) (\<lambda>_ _ _. ERR_OK) 1 [2, 0, 0, 0, 0, 1] p (arp1 b p) = Some s'"
    "frames s' = frames (arp1 b p) @ [(1, p, arp_reply_frame [2, 0, 0, 0, 0, 1] (nif_ip_addr nif0) request0)]"
    using arp_request_answered [OF arp1_inv arp1_refs [OF b(1)] one(1) hw one(2) refl refl refl refl, of "\<lambda>_ _. None" "\<lambda>_ _ _. ERR_OK"]
      hdr wait b(2) unfolding n b(3,4) data add_0 sip by (auto simp: nif0_def)
  show ?thesis using s' unfolding n reply by (intro exI [of _ "arp1 b p"] exI [of _ p] exI [of _ s']) simp
qed

end
