(* ===== verification/Ip_Claims.thy ===== *)
theory Ip_Claims
  imports Ip_Input_Props Etharp_Claims
begin

unbundle bit_operations_syntax

text \<open>
  What \<^verbatim>\<open>core/ipv4/ip.c\<close> and \<^verbatim>\<open>icmp.c\<close> promise: the packet that leaves with a header that verifies, and the answer to an echo request.
\<close>

section \<open>Output\<close>

text \<open>
  C22. \<^verbatim>\<open>ip_output_if\<close> of a packet that fits the MTU calls \<^verbatim>\<open>netif->output\<close> once, with the packet behind a header of 20 bytes: version and
  length, type of service, total length, the next identification, no fragment bits, time to live, protocol, the right checksum,
  the source (or the address of the interface) and the destination. The identification counter wraps at 16 bits.
\<close>

theorem ip_output_if_sends:
  fixes s p
  defines "b \<equiv> ibufs s"
  assumes "packet b p (p # ps)" "has_room b p 20" "ref b p = 1" "tot_len b p + 20 < 65536" "ip_id s < 65536"
    and "\<forall>x\<in>set ps. payload_apart b x (payload b p - 20) 20"
    and mtu: "nif_mtu (netifs (lower s) netif) = 0 \<or> tot_len b p + 20 \<le> nif_mtu (netifs (lower s) netif)"
  shows "\<exists>s'. ip_output_if cf out p src (Some dest) ttl tos proto netif s = on_lower (out netif p dest) s'
    \<and> packet (ibufs s') p (p # ps)
    \<and> data (ibufs s') (p # ps) = ip_header tos (of_nat (tot_len b p + 20)) (of_nat (ip_id s)) 0 ttl proto
        (src_or_own src (netifs (lower s) netif)) dest @ data b (p # ps)
    \<and> ip_id s' = (ip_id s + 1) mod 65536 \<and> ref (ibufs s') p = 1 \<and> netifs (lower s') = netifs (lower s)"
proof -
  define x where "x = (pbufs b p)\<lparr>pb_payload := payload b p - 20, pb_len := len b p + 20, pb_tot_len := tot_len b p + 20\<rparr>"
  define b1 where "b1 = b\<lparr>pbufs := (pbufs b)(p := x)\<rparr>"
  have n: "(0::nat) < 20" "tot_len b p + 20 < 65536" using assms(5) by simp_all
  note r = reveal_packet [OF assms(2,3) n, folded x_def, folded b1_def]
  obtain B where B: "ip_write_header p src dest ttl tos proto netif (set_bufs b1 s)
        = (set_bufs (b1\<lparr>bytes := B\<rparr>) s)\<lparr>ip_id := to_u16 (ip_id s + 1)\<rparr>"
      "mem_bytes B (payload b1 p) 20 = ip_header tos (of_nat (tot_len b1 p)) (of_nat (ip_id s)) 0 ttl proto
        (src_or_own src (netifs (lower s) netif)) dest"
      "\<forall>x. x < payload b1 p \<or> payload b1 p + 20 \<le> x \<longrightarrow> B x = bytes b1 x"
    using write_header_eq [of p src dest ttl tos proto netif "set_bufs b1 s"] by auto
  define s' where "s' = ip_stats_inc sp_xmit_update ((set_bufs (b1\<lparr>bytes := B\<rparr>) s)\<lparr>ip_id := to_u16 (ip_id s + 1)\<rparr>)"
  have b1: "payload b1 p = payload b p - 20" "len b1 p = len b p + 20" "tot_len b1 p = tot_len b p + 20" "ref b1 p = 1"
    using assms(4) by (simp_all add: b1_def x_def)
  have np: "p \<notin> set ps" using chain_hd_notin [of "nxt b" p ps] assms(2) by (auto simp: packet_def)
  have s': "ibufs s' = b1\<lparr>bytes := B\<rparr>" "netifs (lower s') = netifs (lower s)" "ip_id s' = (ip_id s + 1) mod 65536"
    by (simp_all add: s'_def ip_stats_inc_def IP_STATS_INC_def to_u16_def)
  have out: "ip_output_if cf out p src (Some dest) ttl tos proto netif s = on_lower (out netif p dest) s'"
    using assms(4) r(1) b1 mtu B(1) unfolding b_def
    by (auto simp: ip_output_if_def on_bufs_def Let_def s'_def)
  have "\<forall>x\<in>set ps. payload_apart b1 x (payload b1 p) 20"
    using assms(7) np by (auto simp: b1_def x_def payload_apart_def)
  from data_front [OF _ B(2,3) this] have "data (b1\<lparr>bytes := B\<rparr>) (p # ps)
      = ip_header tos (of_nat (tot_len b p + 20)) (of_nat (ip_id s)) 0 ttl proto (src_or_own src (netifs (lower s) netif)) dest
        @ data b (p # ps)"
    unfolding r(3) using b1(2,3) by simp
  then show ?thesis using out r(2) s' b1(4) by (intro exI [of _ s']) simp
qed

section \<open>Echo\<close>

text \<open>
  An echo request for the address of the interface, with right checksums and room for the link header, is answered by
  \<^verbatim>\<open>ip_input\<close> through \<^verbatim>\<open>icmp_input\<close> with one call of \<^verbatim>\<open>netif->output\<close>: the same identifier, sequence number and data go back with the addresses
  exchanged and type 0, in the same pbufs. The header's checksum verifies, and so does the checksum of the message, which is only
  adjusted, unless every byte of the message is zero.
\<close>

theorem ping_answered:
  fixes s p
  defines "b \<equiv> ibufs s"
  assumes p: "packet b p (p # ps)" "has_room b p 14" "ref b p = 1" "28 \<le> len b p" "tot_len b p + 14 < 65536"
    and d: "data b (p # ps) = ip_header tos (of_nat (tot_len b p)) ident off ttl IP_PROTO_ICMP src dest @ icmp_msg 8 code k rest"
    and cs: "inet_chksum 0 (icmp_msg 8 code k rest) = 0"
    and whole: "off AND 0x3fff = 0"
    and apart: "\<forall>x\<in>set ps. payload_apart b x (payload b p) 24"
    and src: "\<not> ip4_addr_isbroadcast src (netifs (lower s) inp)" "\<not> ip_addr_ismulticast src"
    and dest: "accepts (netifs (lower s) inp) dest" "\<not> ip4_addr_isbroadcast dest (netifs (lower s) inp)" "\<not> ip_addr_ismulticast dest"
    and inp: "inp \<noteq> NULL"
    and mtu: "nif_mtu (netifs (lower s) inp) = 0 \<or> tot_len b p \<le> nif_mtu (netifs (lower s) inp)"
  shows "\<exists>s'. ip_input cf out stubs p inp s = map_option (\<lambda>s. (ERR_OK, no_packet s))
        (Option.bind (on_lower (out inp p src) s') (\<lambda>(_, s). ip_free cf p s))
    \<and> packet (ibufs s') p (p # ps)
    \<and> data (ibufs s') (p # ps) = ip_header tos (of_nat (tot_len b p)) ident off 255 IP_PROTO_ICMP dest src
        @ icmp_msg 0 code (adjust_chksum k) rest
    \<and> (\<exists>B st. lower s' = (lower s)\<lparr>bufs := b\<lparr>bytes := B\<rparr>, ip_stats := st\<rparr>)
    \<and> inet_chksum 0 (ip_header tos (of_nat (tot_len b p)) ident off 255 IP_PROTO_ICMP dest src) = 0
    \<and> (icmp_msg 0 code (adjust_chksum k) rest = replicate (tot_len b p - 20) 0 \<or> inet_chksum 0 (icmp_msg 0 code (adjust_chksum k) rest) = 0)"
  using assms(2-) unfolding b_def by (rule ping_reply)

section \<open>Witnesses\<close>

text \<open>The interface of \<open>arp1\<close> and one pbuf at 100 with the bytes \<open>xs\<close> as its payload at 200.\<close>

definition bufs0 :: "u8_t list \<Rightarrow> pbuf_state" where
  "bufs0 xs = ex0\<lparr>pbufs := \<lambda>_. pb0 0 200 (length xs) (length xs),
     bytes := \<lambda>x. if 200 \<le> x \<and> x < 200 + length xs then xs ! (x - 200) else 0\<rparr>"

definition ip0 :: "u8_t list \<Rightarrow> ip_state" where
  "ip0 xs = \<lparr>lower = arp1 (bufs0 xs) 0, ip_id = 65535, current_netif = 0, current_header = 0, current_iphdr_src = 0,
     current_iphdr_dest = 0, reassdatagrams = 0, reassdata = \<lambda>_. \<lparr>rd_next = 0, rd_p = 0, rd_iphdr = [], rd_datagram_len = 0, rd_flags = 0,
     rd_timer = 0\<rparr>, helpers = \<lambda>_. \<lparr>rh_next_pbuf = 0, rh_start = 0, rh_end = 0\<rparr>, ip_reass_pbufcount = 0, pcr_original = \<lambda>_. 0,
     ipfrag_stats = stats0, icmp_stats = stats0\<rparr>"

lemma ip0_simps:
  "ibufs (ip0 xs) = bufs0 xs" "netifs (lower (ip0 xs)) = (\<lambda>_. nif0)" "ip_id (ip0 xs) = 65535"
  "payload (bufs0 xs) p = 200" "len (bufs0 xs) p = length xs" "tot_len (bufs0 xs) p = length xs" "ref (bufs0 xs) p = 1"
  by (simp_all add: ip0_def arp1_def bufs0_def pb0_def)

lemma bufs0_packet: "length xs < 65536 \<Longrightarrow> packet (bufs0 xs) 100 [100]"
  by (simp add: packet_def bufs0_def pb0_def)

lemma bufs0_data: "data (bufs0 xs) [100] = xs"
  by (simp add: pdata_def) (rule nth_equalityI; simp add: bufs0_def pb0_def)

lemma bufs0_room: "n \<le> 60 \<Longrightarrow> has_room (bufs0 xs) 100 n"
  by (simp add: has_room_def bufs0_def pb0_def)

theorem ip_output_if_sends_witness:
  "\<exists>s'. ip_output_if (\<lambda>_ _. None) (\<lambda>_ _ _ s. Some (ERR_OK, s)) 100 None (Some 0x0200a8c0) 64 0 17 1 (ip0 [1, 2, 3]) = Some (ERR_OK, s')
    \<and> data (ibufs s') [100] = ip_header 0 23 65535 0 64 17 0x0100a8c0 0x0200a8c0 @ [1, 2, 3] \<and> ip_id s' = 0"
  using ip_output_if_sends [of "ip0 [1, 2, 3]" 100 "[]" 1 "\<lambda>_ _. None" "\<lambda>_ _ _ s. Some (ERR_OK, s)" None "0x0200a8c0" 64 0 17]
    bufs0_packet [of "[1, 2, 3]"] bufs0_room [of 20 "[1, 2, 3]"] bufs0_data [of "[1, 2, 3]"]
  unfolding ip0_simps by (auto simp: nif0_def on_lower_def src_or_own_def)

text \<open>An echo request from 192.168.0.9.\<close>

definition ping0 :: "u8_t list" where
  "ping0 = ip_header 0 28 5 0 64 1 0x0900a8c0 0x0100a8c0 @ icmp_msg 8 0 65015 [0, 1, 0, 1]"

lemma ping0_chksum: "inet_chksum 0 (icmp_msg 8 0 65015 [0, 1, 0, 1]) = 0"
proof -
  have "unat (inet_chksum 0 (icmp_msg 8 0 65015 [0, 1, 0, 1])) = 65535 - oc (csum False (icmp_msg 8 0 65015 [0, 1, 0, 1]))"
    by (rule unat_inet_chksum) (simp add: length_icmp_msg)
  moreover have "csum False (icmp_msg 8 0 65015 [0, 1, 0, 1]) = 65535" unfolding csum_icmp_msg by simp
  ultimately show ?thesis by (simp add: word_unat_eq_iff oc_def)
qed

theorem ping_answered_witness:
  "\<exists>s'. ip_input (\<lambda>_ _. None) (\<lambda>_ _ _ s. Some (ERR_OK, s)) stubs 100 1 (ip0 ping0)
      = map_option (\<lambda>s. (ERR_OK, no_packet s)) (ip_free (\<lambda>_ _. None) 100 s')
    \<and> data (ibufs s') [100] = ip_header 0 28 5 0 255 1 0x0100a8c0 0x0900a8c0 @ icmp_msg 0 0 65023 [0, 1, 0, 1]"
proof -
  have len: "length ping0 = 28" by (simp add: ping0_def length_icmp_msg)
  have adj: "adjust_chksum 65015 = 65023" using unat_adjust [of 65015] by (simp add: word_unat_eq_iff)
  have addr: "\<not> ip4_addr_isbroadcast 0x0900a8c0 nif0" "\<not> ip_addr_ismulticast 0x0900a8c0" "accepts nif0 0x0100a8c0"
      "\<not> ip4_addr_isbroadcast 0x0100a8c0 nif0" "\<not> ip_addr_ismulticast 0x0100a8c0" "nif_mtu nif0 = 1500"
    by (simp_all add: nif0_def ip4_addr_isbroadcast_def ip_addr_ismulticast_def ip_addr_netcmp_def lwip_htonl_def accepts_def
        netif_is_up_def)
  have "data (bufs0 ping0) [100] = ip_header 0 (of_nat 28) 5 0 64 1 0x0900a8c0 0x0100a8c0 @ icmp_msg 8 0 65015 [0, 1, 0, 1]"
    unfolding bufs0_data by (simp add: ping0_def)
  from ping_answered [of "ip0 ping0" 100 "[]" 0 5 0 64 "0x0900a8c0" "0x0100a8c0" 0 65015 "[0, 1, 0, 1]" 1 "\<lambda>_ _. None"
      "\<lambda>_ _ _ s. Some (ERR_OK, s)", unfolded ip0_simps len, OF _ _ _ _ _ this ping0_chksum]
  show ?thesis
    using bufs0_packet [of ping0] bufs0_room [of 14 ping0] addr len by (auto simp: adj on_lower_def)
qed

end
