(* ===== verification/Ethernet_Claims.thy ===== *)
theory Ethernet_Claims
  imports Ethernet Ip_Claims
begin

unbundle bit_operations_syntax

text \<open>
  The way of a packet through the whole stack: from the received Ethernet frame through IP and ICMP and back to the driver.
\<close>

section \<open>Sending to a resolved address\<close>






section \<open>Echo over Ethernet\<close>


section \<open>Witness\<close>




end
