(* ===== verification/Ip_Reass_Props.thy ===== *)
theory Ip_Reass_Props
  imports Ip_Input Ip_Input_Props
begin

unbundle bit_operations_syntax

text \<open>
  The queue of fragments of one datagram: where a new fragment goes, when the datagram counts as complete, and the packet that comes out.
\<close>

section \<open>Queues of intervals\<close>

text \<open>The bytes a queued fragment covers, from the helper over its header.\<close>

definition span :: "ip_state \<Rightarrow> addr \<Rightarrow> nat \<times> nat" where
  "span s q = (rh_start (helper_of s q), rh_end (helper_of s q))"

fun contig :: "(nat \<times> nat) list \<Rightarrow> bool" where
  "contig (x # y # zs) \<longleftrightarrow> snd x = fst y \<and> contig (y # zs)"
| "contig _ \<longleftrightarrow> True"

lemma contig_Cons: "contig (x # ys) \<longleftrightarrow> contig ys \<and> (ys \<noteq> [] \<longrightarrow> snd x = fst (hd ys))"
  by (cases ys) auto

lemma contig_append: "contig (xs @ ys) \<longleftrightarrow> contig xs \<and> contig ys \<and> (xs \<noteq> [] \<longrightarrow> ys \<noteq> [] \<longrightarrow> snd (last xs) = fst (hd ys))"
  by (induction xs) (auto simp: contig_Cons hd_append)

text \<open>The fragments before and behind a new one that starts at \<open>a\<close>, and whether the new one is kept.\<close>

definition before :: "nat \<Rightarrow> ('a \<Rightarrow> nat \<times> nat) \<Rightarrow> 'a list \<Rightarrow> 'a list" where
  "before a sp qs = takeWhile (\<lambda>q. fst (sp q) < a) qs"

definition behind :: "nat \<Rightarrow> ('a \<Rightarrow> nat \<times> nat) \<Rightarrow> 'a list \<Rightarrow> 'a list" where
  "behind a sp qs = dropWhile (\<lambda>q. fst (sp q) < a) qs"

lemma before_behind: "before a sp qs @ behind a sp qs = qs"
  by (simp add: before_def behind_def)

definition fits :: "nat \<Rightarrow> nat \<Rightarrow> ('a \<Rightarrow> nat \<times> nat) \<Rightarrow> 'a list \<Rightarrow> 'a list \<Rightarrow> bool" where
  "fits a b sp bef aft \<longleftrightarrow> (\<forall>q\<in>set bef. snd (sp q) \<le> a)
     \<and> (aft \<noteq> [] \<longrightarrow> a < fst (sp (hd aft)) \<and> (bef \<noteq> [] \<longrightarrow> b \<le> fst (sp (hd aft))))"

section \<open>The search\<close>

abbreviation hnext :: "ip_state \<Rightarrow> addr \<Rightarrow> addr" where "hnext s q \<equiv> rh_next_pbuf (helper_of s q)"

definition prev_of :: "ip_state \<Rightarrow> addr list \<Rightarrow> addr" where
  "prev_of s qs = (if qs = [] then NULL else payload (ibufs s) (last qs))"

text \<open>The pointers after the new fragment is put between \<open>bef\<close> and \<open>aft\<close>.\<close>

definition link_frag :: "addr \<Rightarrow> addr \<Rightarrow> addr list \<Rightarrow> addr list \<Rightarrow> ip_state \<Rightarrow> ip_state" where
  "link_frag ipr p bef aft s =
     (let s = set_helper (payload (ibufs s) p) (\<lambda>h. h\<lparr>rh_next_pbuf := (if aft = [] then NULL else hd aft)\<rparr>) s
      in if bef = [] then set_rd ipr (\<lambda>r. r\<lparr>rd_p := p\<rparr>) s
         else set_helper (prev_of s bef) (\<lambda>h. h\<lparr>rh_next_pbuf := p\<rparr>) s)"

lemma set_helper_simps [simp]:
  "lower (set_helper h f s) = lower s" "reassdata (set_helper h f s) = reassdata s" "helpers (set_helper h f s) = (helpers s)(h := f (helpers s h))"
  "lower (set_rd r g s) = lower s" "helpers (set_rd r g s) = helpers s" "reassdata (set_rd r g s) = (reassdata s)(r := g (reassdata s r))"
  by (simp_all add: set_helper_def set_rd_def)

lemma chain_frag_loop_eq:
  fixes s p
  defines "sp \<equiv> span s"
  assumes "chain (hnext s) q qs" "\<forall>x\<in>set (pre @ qs). payload (ibufs s) x \<noteq> NULL" "span s p = (a, b)"
    and "\<forall>x\<in>set pre. snd (sp x) \<le> a"
  shows "if fits a b sp (pre @ before a sp qs) (behind a sp qs)
    then chain_frag_loop ipr p q (prev_of s pre) v s = Some (Some (if behind a sp qs = [] then NULL else hd (behind a sp qs),
           prev_of s (pre @ before a sp qs), v \<and> contig (map sp ((if pre = [] then [] else [last pre]) @ before a sp qs))),
           if behind a sp qs = [] then s else link_frag ipr p (pre @ before a sp qs) (behind a sp qs) s)
    else \<exists>f. chain_frag_loop ipr p q (prev_of s pre) v s = Some (None, set_helper (payload (ibufs s) p) f s)"
  using assms(2-)
proof (induction qs arbitrary: q pre v)
  case Nil
  then show ?case
    by (subst chain_frag_loop.simps) (auto simp: before_def behind_def fits_def)
next
  case (Cons x qs)
  let ?loop = "chain_frag_loop ipr p q (prev_of s pre) v s"
  have q: "q = x" "x \<noteq> NULL" "chain (hnext s) (hnext s x) qs" using Cons.prems(1) by auto
  have new: "rh_start (helper_of s p) = a" "rh_end (helper_of s p) = b" using Cons.prems(3) by (auto simp: span_def)
  have prev: "pre \<noteq> [] \<Longrightarrow> prev_of s pre \<noteq> NULL \<and> rh_end (helpers s (prev_of s pre)) \<le> a" "prev_of s pre = NULL \<longleftrightarrow> pre = []"
    using Cons.prems(2,4) by (auto simp: prev_of_def sp_def span_def)
  consider "a < fst (sp x)" | "fst (sp x) = a" | "fst (sp x) < a" "a < snd (sp x)" | "fst (sp x) < a" "snd (sp x) \<le> a" by linarith
  then show ?case
  proof cases
    case 1
    have lists: "before a sp (x # qs) = []" "behind a sp (x # qs) = x # qs" using 1 by (simp_all add: before_def behind_def)
    have start: "rh_start (helper_of s x) = fst (sp x)" by (simp add: sp_def span_def)
    show ?thesis
    proof (cases "pre \<noteq> [] \<and> \<not> b \<le> fst (sp x)")
      case True
      then have "?loop = Some (None, set_helper (payload (ibufs s) p) (\<lambda>h. h\<lparr>rh_next_pbuf := x\<rparr>) s)"
        using q(2) new prev 1 start unfolding q(1) by (subst chain_frag_loop.simps) (simp add: Let_def)
      then show ?thesis using True by (auto simp: lists fits_def)
    next
      case False
      have "fits a b sp pre (x # qs)" using False 1 Cons.prems(4) by (auto simp: fits_def)
      moreover have "?loop = Some (Some (x, prev_of s pre, v), link_frag ipr p pre (x # qs) s)"
        using q(2) new prev 1 start False unfolding q(1)
        by (subst chain_frag_loop.simps) (auto simp: Let_def link_frag_def prev_of_def)
      ultimately show ?thesis unfolding lists by simp
    qed
  next
    case 2
    then have "?loop = Some (None, set_helper (payload (ibufs s) p) (\<lambda>h. h) s)"
      using q(2) new unfolding q(1) by (subst chain_frag_loop.simps) (auto simp: sp_def span_def set_helper_def)
    then show ?thesis using 2 by (auto simp: before_def behind_def fits_def)
  next
    case 3
    then have "?loop = Some (None, set_helper (payload (ibufs s) p) (\<lambda>h. h) s)"
      using q(2) new unfolding q(1) by (subst chain_frag_loop.simps) (auto simp: sp_def span_def set_helper_def)
    then show ?thesis using 3 by (auto simp: before_def behind_def fits_def)
  next
    case 4
    define w where "w \<longleftrightarrow> v \<and> \<not> (prev_of s pre \<noteq> NULL \<and> rh_end (helpers s (prev_of s pre)) \<noteq> rh_start (helper_of s x))"
    have loop: "?loop = chain_frag_loop ipr p (hnext s x) (prev_of s (pre @ [x])) w s"
      using q(2) new 4 unfolding q(1) w_def by (subst chain_frag_loop.simps) (auto simp: sp_def span_def prev_of_def Let_def)
    have lists: "before a sp (x # qs) = x # before a sp qs" "behind a sp (x # qs) = behind a sp qs"
      using 4 by (simp_all add: before_def behind_def)
    have verdict: "(w \<and> contig (sp x # map sp (before a sp qs)))
        = (v \<and> contig (map sp (if pre = [] then [] else [last pre]) @ sp x # map sp (before a sp qs)))"
      using prev(2) by (auto simp: w_def prev_of_def sp_def span_def)
    show ?thesis
      using Cons.IH [of "hnext s x" "pre @ [x]" w] q(3) Cons.prems(2-4) 4 unfolding loop lists
      by (simp add: verdict)
  qed
qed

section \<open>The queue\<close>

text \<open>The fragments \<open>qs\<close> of the datagram \<open>ipr\<close>, linked through their helpers in the order of their offsets.\<close>

definition frag_queue :: "ip_state \<Rightarrow> addr \<Rightarrow> addr list \<Rightarrow> bool" where
  "frag_queue s ipr qs \<longleftrightarrow> chain (hnext s) (rd_p (reassdata s ipr)) qs \<and> inj_on (payload (ibufs s)) (set qs)
     \<and> (\<forall>q\<in>set qs. payload (ibufs s) q \<noteq> NULL) \<and> sorted_wrt (<) (map (fst \<circ> span s) qs)"

lemma link_frag_simps [simp]:
  "lower (link_frag ipr p bef aft s) = lower s"
  "rd_datagram_len (reassdata (link_frag ipr p bef aft s) x) = rd_datagram_len (reassdata s x)"
  "rd_flags (reassdata (link_frag ipr p bef aft s) x) = rd_flags (reassdata s x)"
  "rd_iphdr (reassdata (link_frag ipr p bef aft s) x) = rd_iphdr (reassdata s x)"
  "rd_next (reassdata (link_frag ipr p bef aft s) x) = rd_next (reassdata s x)"
  "reassdatagrams (link_frag ipr p bef aft s) = reassdatagrams s" "ip_reass_pbufcount (link_frag ipr p bef aft s) = ip_reass_pbufcount s"
  "span (link_frag ipr p bef aft s) q = span s q"
  by (auto simp: link_frag_def Let_def span_def set_rd_def set_helper_def)

lemma link_frag_queue:
  fixes s qs a
  defines "bef \<equiv> before a (span s) qs" and "aft \<equiv> behind a (span s) qs"
  assumes q: "frag_queue s ipr qs" and p: "p \<noteq> NULL" "p \<notin> set qs" "payload (ibufs s) p \<notin> payload (ibufs s) ` set qs"
      "payload (ibufs s) p \<noteq> NULL"
    and sp: "span s p = (a, b)" and fit: "fits a b (span s) bef aft"
  shows "frag_queue (link_frag ipr p bef aft s) ipr (bef @ p # aft)"
proof -
  let ?s = "link_frag ipr p bef aft s" and ?pl = "payload (ibufs s)"
  have qs: "qs = bef @ aft" by (simp add: bef_def aft_def before_behind)
  note q = q [unfolded frag_queue_def qs] and p = p [unfolded qs]
  have pl: "?pl x = ?pl y \<longleftrightarrow> x = y" if "x \<in> set (bef @ aft)" "y \<in> set (bef @ aft)" for x y
    using q that by (meson inj_on_eq_iff)
  have "chain (hnext ?s) (if bef = [] then p else rd_p (reassdata s ipr)) (bef @ p # aft)"
  proof (rule chain_insert)
    show "chain (hnext s) (rd_p (reassdata s ipr)) (bef @ aft)" using q by simp
    show "hnext ?s p = (if aft = [] then NULL else hd aft)"
      using p(3) by (auto simp: link_frag_def Let_def prev_of_def)
    show "hnext ?s (last bef) = p" if "bef \<noteq> []" using that by (simp add: link_frag_def Let_def prev_of_def)
    show "hnext ?s x = hnext s x" if "x \<in> set (bef @ aft)" "bef = [] \<or> x \<noteq> last bef" for x
    proof -
      have "?pl x \<noteq> ?pl p" using p(3) that(1) by (metis imageI)
      moreover have "bef \<noteq> [] \<Longrightarrow> ?pl x \<noteq> ?pl (last bef)" using pl [OF that(1), of "last bef"] that(2) by auto
      ultimately show ?thesis by (auto simp: link_frag_def Let_def prev_of_def)
    qed
  qed (use p in auto)
  moreover have "rd_p (reassdata ?s ipr) = (if bef = [] then p else rd_p (reassdata s ipr))"
    by (simp add: link_frag_def Let_def)
  moreover have "inj_on ?pl (set (bef @ p # aft))"
  proof -
    have "set (bef @ p # aft) = insert p (set (bef @ aft))" by simp
    then show ?thesis using q p(2,3) by (simp only: inj_on_insert) simp
  qed
  moreover have "sorted_wrt (<) (map (fst \<circ> span ?s) (bef @ p # aft))"
  proof -
    have lo: "\<forall>x\<in>set bef. fst (span s x) < a" by (auto simp: bef_def before_def dest: set_takeWhileD)
    have "sorted_wrt (<) (map (fst \<circ> span s) aft)" using q by (simp add: sorted_wrt_append)
    then have hi: "\<forall>x\<in>set aft. a < fst (span s x)" using fit by (cases aft) (auto simp: fits_def)
    have "span ?s = span s" by (rule ext) simp
    then show ?thesis using q lo hi sp by (auto simp: sorted_wrt_append dest: less_trans)
  qed
  ultimately show ?thesis using q p(4) by (auto simp: frag_queue_def)
qed

text \<open>The check for holes behind the new fragment.\<close>

lemma no_holes_eq:
  assumes "chain (hnext s) q qs"
  shows "\<exists>z. no_holes_loop s prev q = Some (contig ((rh_start (helpers s prev), rh_end (helpers s prev)) # map (span s) qs), z)
    \<and> (contig ((rh_start (helpers s prev), rh_end (helpers s prev)) # map (span s) qs) \<longrightarrow> z = (if qs = [] then prev else payload (ibufs s) (last qs)))"
  using assms
proof (induction qs arbitrary: q prev)
  case Nil
  then show ?case by (subst no_holes_loop.simps) simp
next
  case (Cons x qs)
  then have x: "q = x" "x \<noteq> NULL" "chain (hnext s) (hnext s x) qs" by auto
  show ?case
    using Cons.IH [OF x(3), of "payload (ibufs s) x"] x(2) unfolding x(1)
    by (subst no_holes_loop.simps) (auto simp: Let_def span_def [of s x])
qed

section \<open>A fragment is queued\<close>

text \<open>
  The verdict of the code: the last fragment has come, the first starts at 0, there are no holes before the new fragment and none behind
  it. A hole right before the new fragment counts only if nothing is behind it.
\<close>

definition whole :: "bool \<Rightarrow> (nat \<times> nat) list \<Rightarrow> nat \<times> nat \<Rightarrow> (nat \<times> nat) list \<Rightarrow> bool" where
  "whole lastfrag bef new aft \<longleftrightarrow> lastfrag \<and> fst (hd (bef @ [new])) = 0 \<and> contig bef \<and> contig (new # aft)
     \<and> (aft = [] \<longrightarrow> contig (bef @ [new]))"

lemma frag_queue_first:
  assumes "frag_queue s ipr (bef @ p # aft)"
  shows "rh_start (helper_of s (rd_p (reassdata s ipr))) = fst (hd (map (span s) bef @ [span s p]))" "rd_p (reassdata s ipr) \<noteq> NULL"
    "rd_p (reassdata s ipr) = hd (bef @ p # aft)"
  using assms by (cases bef; simp add: frag_queue_def span_def)+

lemma frag_queue_inner:
  assumes "frag_queue s ipr (bef @ p # aft)"
  shows "chain (hnext s) (hnext s p) aft" "hnext s (last (p # aft)) = NULL"
proof -
  have c: "chain (hnext s) p (p # aft)" 
    by (rule chain_suffix [OF assms [unfolded frag_queue_def, THEN conjunct1]])
  then show "chain (hnext s) (hnext s p) aft" by simp
  have "butlast (p # aft) @ [last (p # aft)] = p # aft" by (rule append_butlast_last_id) simp
  then have "chain (hnext s) p (butlast (p # aft) @ [last (p # aft)])" using c by (simp only:)
  then have "chain (hnext s) (last (p # aft)) [last (p # aft)]" by (rule chain_suffix)
  then show "hnext s (last (p # aft)) = NULL" by simp
qed

lemma validate_eq:
  fixes s ipr bef p aft
  defines "done \<equiv> whole (rd_flags (reassdata s ipr) AND IP_REASS_FLAG_LASTFRAG \<noteq> 0) (map (span s) bef) (span s p) (map (span s) aft)"
  assumes q: "frag_queue s ipr (bef @ p # aft)"
  shows "validate_datagram ipr (payload (ibufs s) p) (contig (map (span s) bef) \<and> (aft = [] \<longrightarrow> contig (map (span s) (bef @ [p])))) s
    = (if done \<and> (bef @ aft = [] \<or> snd (span s (last (p # aft))) \<noteq> rd_datagram_len (reassdata s ipr)) then None else Some done)"
proof -
  note first = frag_queue_first [OF q] and inner = frag_queue_inner [OF q]
  obtain z where z: "no_holes_loop s (payload (ibufs s) p) (hnext s p) = Some (contig (span s p # map (span s) aft), z)"
      "contig (span s p # map (span s) aft) \<Longrightarrow> z = payload (ibufs s) (last (p # aft))"
    using no_holes_eq [OF inner(1), of "payload (ibufs s) p"] by (auto simp: span_def [of s p])
  have single: "payload (ibufs s) (hd (bef @ p # aft)) = payload (ibufs s) (last (p # aft)) \<longleftrightarrow> bef @ aft = []"
  proof -
    have "inj_on (payload (ibufs s)) (set (bef @ p # aft))" "distinct (bef @ p # aft)"
      using q unfolding frag_queue_def by (blast intro: chain_distinct)+
    moreover have "hd (bef @ p # aft) \<in> set (bef @ p # aft)" "last (p # aft) \<in> set (bef @ p # aft)" by (cases bef; simp)+
    ultimately have "payload (ibufs s) (hd (bef @ p # aft)) = payload (ibufs s) (last (p # aft)) \<longleftrightarrow> hd (bef @ p # aft) = last (p # aft)"
      by (metis inj_on_eq_iff)
    also have "\<dots> \<longleftrightarrow> bef @ aft = []" using \<open>distinct (bef @ p # aft)\<close> last_in_set [of "p # aft"] by (cases bef) auto
    finally show ?thesis .
  qed
  have e: "rh_end (helper_of s (last (p # aft))) = snd (span s (last (p # aft)))" by (simp add: span_def)
  show ?thesis
  proof (cases "contig (span s p # map (span s) aft)")
    case True
    then show ?thesis
      using z first inner(2) single e unfolding validate_datagram_def done_def whole_def Let_def
      by (auto simp del: last.simps)
  next
    case False
    then show ?thesis
      using z(1) first(1) unfolding validate_datagram_def done_def whole_def Let_def by auto
  qed
qed

lemma frag_queue_cong:
  assumes "lower s' = lower s" "rd_p (reassdata s' ipr) = rd_p (reassdata s ipr)" "\<forall>q\<in>set qs. helper_of s' q = helper_of s q"
  shows "frag_queue s' ipr qs \<longleftrightarrow> frag_queue s ipr qs"
proof -
  have spans: "map (fst \<circ> span s') qs = map (fst \<circ> span s) qs" using assms(1,3) by (auto simp: span_def)
  have "chain (hnext s') h qs \<longleftrightarrow> chain (hnext s) h qs" for h using assms(1,3) by (intro chain_cong) simp
  then show ?thesis unfolding frag_queue_def spans assms(2) unfolding assms(1) by simp
qed

text \<open>The state of the datagram's other fields.\<close>

definition same_rd :: "ip_state \<Rightarrow> ip_state \<Rightarrow> bool" where
  "same_rd s s' \<longleftrightarrow> lower s' = lower s \<and> reassdatagrams s' = reassdatagrams s \<and> ip_reass_pbufcount s' = ip_reass_pbufcount s
     \<and> (\<forall>x. (reassdata s' x)\<lparr>rd_p := NULL\<rparr> = (reassdata s x)\<lparr>rd_p := NULL\<rparr>)"

lemma chain_frag_fits:
  fixes s p ipr qs
  defines "h \<equiv> payload (ibufs s) p"
  defines "a \<equiv> frag_offset (ibytes s) h"
  defines "b \<equiv> to_u16 (a + frag_len (ibytes s) h)"
  defines "bef \<equiv> before a (span s) qs" and "aft \<equiv> behind a (span s) qs"
  defines "lastfrag \<equiv> rd_flags (reassdata s ipr) AND IP_REASS_FLAG_LASTFRAG \<noteq> 0"
  defines "done \<equiv> whole lastfrag (map (span s) bef) (a, b) (map (span s) aft)"
  assumes q: "frag_queue s ipr qs" and p: "p \<noteq> NULL" "p \<notin> set qs" "h \<notin> payload (ibufs s) ` set qs" "h \<noteq> NULL"
    and fit: "fits a b (span s) bef aft"
  shows "\<exists>s'. ip_reass_chain_frag_into_datagram_and_validate cf ipr p s
      = (if done \<and> (qs = [] \<or> snd (last ((a, b) # map (span s) aft)) \<noteq> rd_datagram_len (reassdata s ipr)) then None else Some (done, s'))
    \<and> frag_queue s' ipr (bef @ p # aft) \<and> (\<forall>x\<in>set qs. span s' x = span s x) \<and> span s' p = (a, b) \<and> same_rd s s'"
proof -
  define s1 where "s1 = set_helper h (\<lambda>_. \<lparr>rh_next_pbuf = NULL, rh_start = a, rh_end = b\<rparr>) s"
  define s' where "s' = link_frag ipr p bef aft s1"
  have same: "helper_of s1 x = helper_of s x" "span s1 x = span s x" if "x \<in> set qs" for x
    using p(3) that by (auto simp: s1_def span_def)
  have low: "lower s1 = lower s" "reassdata s1 = reassdata s" "span s1 p = (a, b)" by (simp_all add: s1_def span_def h_def)
  have lists: "before a (span s1) qs = bef" "behind a (span s1) qs = aft" "qs = bef @ aft"
    unfolding bef_def aft_def before_def behind_def using same(2) by (auto cong: takeWhile_cong dropWhile_cong)
  have maps: "map (span s1) bef = map (span s) bef" "map (span s1) aft = map (span s) aft" using same(2) lists(3) by auto
  have q1: "frag_queue s1 ipr qs" using q frag_queue_cong [of s1 s ipr qs] same(1) low by simp
  have fit1: "fits a b (span s1) bef aft" using fit same(2) lists(3) by (cases aft) (auto simp: fits_def)
  have q': "frag_queue s' ipr (bef @ p # aft)"
    using link_frag_queue [OF q1 p(1,2) _ _ low(3)] p(3,4) fit1 unfolding lists(1,2) s'_def low(1) h_def by simp
  have chain: "chain (hnext s1) (rd_p (reassdata s ipr)) qs" "\<forall>x\<in>set ([] @ qs). payload (ibufs s1) x \<noteq> NULL"
    using q1 by (auto simp: frag_queue_def low)
  have loop: "chain_frag_loop ipr p (rd_p (reassdata s1 ipr)) NULL True s1
      = Some (Some (if aft = [] then NULL else hd aft, prev_of s1 bef, contig (map (span s) bef)), if aft = [] then s1 else s')"
    using chain_frag_loop_eq [OF chain low(3), of ipr True, unfolded lists(1,2)] fit1 maps
    by (simp add: low s'_def prev_of_def [of _ "[]"])
  have spans: "span s' = span s1" by (rule ext) (simp add: s'_def)
  have m: "map (span s') bef = map (span s) bef" "map (span s') aft = map (span s) aft" "span s' p = (a, b)"
    unfolding spans by (rule maps low)+
  have e: "span s' (last (p # aft)) = last ((a, b) # map (span s) aft)"
    unfolding m(2,3) [symmetric] list.map [symmetric] by (rule last_map [symmetric]) simp
  have f: "rd_flags (reassdata s' ipr) = rd_flags (reassdata s ipr)" "rd_datagram_len (reassdata s' ipr) = rd_datagram_len (reassdata s ipr)"
      "lower s' = lower s"
    by (simp_all add: s'_def low)
  have val: "validate_datagram ipr h (contig (map (span s) bef) \<and> (aft = [] \<longrightarrow> contig (map (span s) bef @ [(a, b)]))) s'
      = (if done \<and> (qs = [] \<or> snd (last ((a, b) # map (span s) aft)) \<noteq> rd_datagram_len (reassdata s ipr)) then None else Some done)"
    using validate_eq [OF q'] unfolding map_append list.map m e f lists(3) [symmetric] h_def done_def lastfrag_def by (simp only: f)
  have idem: "set_helper h (\<lambda>x. x\<lparr>rh_next_pbuf := NULL\<rparr>) s1 = s1" by (simp add: s1_def set_helper_def)
  have new: "rh_start (helpers s1 h) = a" "payload (ibufs s) p = h" "bytes (ibufs s1) = ibytes s" by (simp_all add: s1_def h_def)
  have "ip_reass_chain_frag_into_datagram_and_validate cf ipr p s
      = map_option (\<lambda>v. (v, s')) (validate_datagram ipr h (contig (map (span s) bef) \<and> (aft = [] \<longrightarrow> contig (map (span s) bef @ [(a, b)]))) s')"
  proof (cases "aft = []")
    case False
    then have "hd aft \<noteq> NULL" using chain_NULL_notin [OF chain(1)] lists(3) by (cases aft) auto
    then show ?thesis
      using loop False unfolding ip_reass_chain_frag_into_datagram_and_validate_def Let_def new(2)
      by (simp add: s1_def [symmetric] a_def [symmetric] b_def [symmetric] map_conv_bind_option comp_def)
  next
    case aft: True
    show ?thesis
    proof (cases "bef = []")
      case True
      then have "rd_p (reassdata s1 ipr) = NULL" "s' = set_rd ipr (\<lambda>r. r\<lparr>rd_p := p\<rparr>) s1"
        using chain(1) lists(3) aft idem by (simp_all add: low s'_def link_frag_def h_def)
      then show ?thesis
        using loop aft True unfolding ip_reass_chain_frag_into_datagram_and_validate_def Let_def new(2)
        by (simp add: s1_def [symmetric] a_def [symmetric] b_def [symmetric] map_conv_bind_option comp_def prev_of_def)
    next
      case False
      define z where "z = payload (ibufs s) (last bef)"
      have z: "z \<noteq> NULL" "prev_of s1 bef = z" "rh_end (helpers s1 z) = snd (span s (last bef))" "snd (span s (last bef)) \<le> a"
        using False chain(2) lists(3) fit same(1) [of "last bef"]
        by (auto simp: z_def prev_of_def low fits_def span_def)
      have "s' = set_helper z (\<lambda>x. x\<lparr>rh_next_pbuf := p\<rparr>) s1" using False aft idem z(2) by (simp add: s'_def link_frag_def h_def low)
      moreover have "contig (map (span s) bef @ [(a, b)]) \<longleftrightarrow> contig (map (span s) bef) \<and> snd (span s (last bef)) = a"
        using False by (simp add: contig_append last_map)
      ultimately show ?thesis
        using loop aft False z new(1) unfolding ip_reass_chain_frag_into_datagram_and_validate_def Let_def new(2)
        by (simp add: s1_def [symmetric] a_def [symmetric] b_def [symmetric] map_conv_bind_option comp_def)
    qed
  qed
  moreover have "same_rd s s'" unfolding same_rd_def s'_def by (auto simp: link_frag_def Let_def s1_def set_helper_def set_rd_def)
  ultimately show ?thesis
    using q' same(2) m(3) unfolding val by (intro exI [of _ s']) (auto simp: spans)
qed

lemma chain_frag_rejected:
  fixes s p ipr qs
  defines "h \<equiv> payload (ibufs s) p"
  defines "a \<equiv> frag_offset (ibytes s) h"
  defines "b \<equiv> to_u16 (a + frag_len (ibytes s) h)"
  assumes q: "frag_queue s ipr qs" and p: "h \<notin> payload (ibufs s) ` set qs"
    and fit: "\<not> fits a b (span s) (before a (span s) qs) (behind a (span s) qs)"
  shows "\<exists>s'. ip_reass_chain_frag_into_datagram_and_validate cf ipr p s = do {
      clen \<leftarrow> pbuf_clen p (ibufs s);
      map_option (Pair False) (ip_free cf p (s'\<lparr>ip_reass_pbufcount := to_u16 (ip_reass_pbufcount s + 65536 - clen)\<rparr>))
    } \<and> frag_queue s' ipr qs \<and> (\<forall>x\<in>set qs. span s' x = span s x) \<and> same_rd s s'"
proof -
  define s1 where "s1 = set_helper h (\<lambda>_. \<lparr>rh_next_pbuf = NULL, rh_start = a, rh_end = b\<rparr>) s"
  have same: "helper_of s1 x = helper_of s x" "span s1 x = span s x" if "x \<in> set qs" for x
    using p that by (auto simp: s1_def span_def)
  have low: "lower s1 = lower s" "reassdata s1 = reassdata s" "span s1 p = (a, b)" "ip_reass_pbufcount s1 = ip_reass_pbufcount s"
    by (simp_all add: s1_def span_def h_def set_helper_def)
  have lists: "before a (span s1) qs = before a (span s) qs" "behind a (span s1) qs = behind a (span s) qs"
    unfolding before_def behind_def using same(2) by (auto cong: takeWhile_cong dropWhile_cong)
  have q1: "frag_queue s1 ipr qs" using q frag_queue_cong [of s1 s ipr qs] same(1) low by simp
  have chain: "chain (hnext s1) (rd_p (reassdata s ipr)) qs" "\<forall>x\<in>set ([] @ qs). payload (ibufs s1) x \<noteq> NULL"
    using q1 by (auto simp: frag_queue_def low)
  have "\<forall>x\<in>set (before a (span s) qs @ behind a (span s) qs). span s1 x = span s x" using same(2) by (simp add: before_behind)
  then have "\<not> fits a b (span s1) (before a (span s) qs) (behind a (span s) qs)"
    using fit by (cases "behind a (span s) qs") (auto simp: fits_def)
  then obtain f where loop: "chain_frag_loop ipr p (rd_p (reassdata s ipr)) NULL True s1 = Some (None, set_helper h f s1)"
    using chain_frag_loop_eq [OF chain low(3), of ipr True, unfolded lists] low(1) by (auto simp: prev_of_def h_def)
  define s' where "s' = set_helper h f s1"
  have same': "helper_of s' x = helper_of s x" "span s' x = span s x" if "x \<in> set qs" for x
    using p that by (auto simp: s'_def s1_def span_def)
  have low': "lower s' = lower s" "reassdata s' = reassdata s" "same_rd s s'" "ip_reass_pbufcount s' = ip_reass_pbufcount s"
    by (simp_all add: s'_def low same_rd_def) (simp_all add: s1_def set_helper_def)
  have "frag_queue s' ipr qs" using q frag_queue_cong [of s' s ipr qs] same'(1) low' by simp
  moreover have "ip_reass_chain_frag_into_datagram_and_validate cf ipr p s = do {
      clen \<leftarrow> pbuf_clen p (ibufs s);
      map_option (Pair False) (ip_free cf p (s'\<lparr>ip_reass_pbufcount := to_u16 (ip_reass_pbufcount s + 65536 - clen)\<rparr>))
    }"
    using loop low(1,2) low'(1,4) unfolding ip_reass_chain_frag_into_datagram_and_validate_def Let_def h_def [symmetric]
    by (simp add: s1_def [symmetric] a_def [symmetric] b_def [symmetric] s'_def [symmetric])
  ultimately show ?thesis using same'(2) low'(3) by (intro exI [of _ s']) simp
qed

end
