(* ===== verification/Ip_Reass_Packet.thy ===== *)
theory Ip_Reass_Packet
  imports Ip_Reass_Props
begin

unbundle bit_operations_syntax

text \<open>
  The packet that comes out of reassembly: the fragments' pbufs chained without their headers, behind a header rebuilt from the first
  fragment's.
\<close>

section \<open>Chaining the fragments\<close>

text \<open>A queued fragment: the packet \<open>q # ct q\<close>, its IP header in the first pbuf.\<close>

definition fragment :: "(addr \<Rightarrow> addr list) \<Rightarrow> pbuf_state \<Rightarrow> addr \<Rightarrow> bool" where
  "fragment ct b q \<longleftrightarrow> packet b q (q # ct q) \<and> 20 \<le> len b q
     \<and> (pb_type (pbufs b q) = PBUF_RAM \<or> pb_type (pbufs b q) = PBUF_POOL \<longrightarrow> q + SIZEOF_STRUCT_PBUF \<le> payload b q)"

definition pbufs_of :: "(addr \<Rightarrow> addr list) \<Rightarrow> addr list \<Rightarrow> addr list" where
  "pbufs_of ct rs = concat (map (\<lambda>q. q # ct q) rs)"

definition frag_data :: "(addr \<Rightarrow> addr list) \<Rightarrow> pbuf_state \<Rightarrow> addr \<Rightarrow> u8_t list" where
  "frag_data ct b q = drop 20 (data b (q # ct q))"

lemma pbufs_of_simps [simp]: "pbufs_of ct [] = []" "pbufs_of ct (x # rs) = x # ct x @ pbufs_of ct rs"
  by (simp_all add: pbufs_of_def)

lemma pbufs_of_mem: "q \<in> set rs \<Longrightarrow> set (q # ct q) \<subseteq> set (pbufs_of ct rs)"
  by (auto simp: pbufs_of_def)

lemma fragment_cong:
  "\<forall>x\<in>set (q # ct q). pbufs b' x = pbufs b x \<Longrightarrow> bytes b' = bytes b \<Longrightarrow>
    fragment ct b' q = fragment ct b q \<and> frag_data ct b' q = frag_data ct b q"
proof -
  assume same: "\<forall>x\<in>set (q # ct q). pbufs b' x = pbufs b x" "bytes b' = bytes b"
  then have "data b' (q # ct q) = data b (q # ct q)" by (intro data_cong) (auto simp: pdata_def)
  then show ?thesis
    using packet_cong [OF same(1)] same(1) by (simp add: fragment_def frag_data_def del: data_Cons)
qed

text \<open>One step: remove the header of the next fragment and append it.\<close>

lemma append_fragment:
  assumes p: "packet b p ps" and x: "fragment ct b x" and disj: "set ps \<inter> set (x # ct x) = {}"
    and len: "length (data b ps) + length (frag_data ct b x) < 65536"
  obtains b1 b2 where "pbuf_header x (- int 20) b = Some (0, b1)" "pbuf_cat p x b1 = Some b2"
    "packet b2 p (ps @ x # ct x)" "data b2 (ps @ x # ct x) = data b ps @ frag_data ct b x"
    "bytes b2 = bytes b" "pools b2 = pools b" "\<forall>y. y \<notin> set ps \<and> y \<noteq> x \<longrightarrow> pbufs b2 y = pbufs b y"
    "\<forall>y. y \<noteq> x \<longrightarrow> payload b2 y = payload b y" "\<forall>y. ref b2 y = ref b y"
proof -
  have n: "(0::nat) < 20" "20 \<le> len b x" using x by (simp_all add: fragment_def)
  obtain b1 where b1: "pbuf_header x (- int 20) b = Some (0, b1)" "packet b1 x (x # ct x)"
      "data b1 (x # ct x) = frag_data ct b x" "bytes b1 = bytes b"
      "pbufs b1 = (pbufs b)(x := (pbufs b x)\<lparr>pb_payload := payload b x + 20, pb_len := len b x - 20, pb_tot_len := tot_len b x - 20\<rparr>)"
    using pbuf_header_hide [OF _ n] x unfolding fragment_def frag_data_def by blast
  have other: "pools b1 = pools b" using b1(1) by (auto simp: pbuf_header_def Let_def upd_def split: if_splits)
  have same: "\<forall>y\<in>set ps. pbufs b1 y = pbufs b y" using disj by (auto simp: b1(5))
  then have p1: "packet b1 p ps" "data b1 ps = data b ps"
    using p packet_cong [OF same] b1(4) by (auto simp: pdata_def intro!: data_cong)
  have "x \<noteq> NULL" using packet_nonNULL [OF b1(2)] .
  moreover have "x \<notin> set ps" using disj by auto
  ultimately have cat: "pbuf_cat p x b1 = Some (b1\<lparr>pbufs := cat_pbufs ps x b1\<rparr>)" by (rule pbuf_cat_result [OF p1(1)])
  obtain b2 where b2: "pbuf_cat p x b1 = Some b2" "packet b2 p (ps @ x # ct x)"
      "data b2 (ps @ x # ct x) = data b1 ps @ data b1 (x # ct x)"
    using pbuf_cat_packet [OF p1(1) b1(2) disj] len unfolding p1(2) b1(3) by blast
  have eq: "b2 = b1\<lparr>pbufs := cat_pbufs ps x b1\<rparr>" using b2(1) cat by simp
  show thesis
    by (rule that [OF b1(1) b2(1,2)]) (use b2(3) p1(2) b1(3,4) other in \<open>auto simp: eq b1(5) cat_pbufs_def\<close>)
qed

lemma chain_fragments_packet:
  assumes "chain (hnext s) r rs" "packet (ibufs s) p ps" "\<forall>q\<in>set rs. fragment ct (ibufs s) q"
    and "distinct (ps @ pbufs_of ct rs)"
    and "length (data (ibufs s) ps) + length (concat (map (frag_data ct (ibufs s)) rs)) < 65536"
  obtains b where "chain_fragments p r s = Some (set_bufs b s)" "packet b p (ps @ pbufs_of ct rs)"
    "data b (ps @ pbufs_of ct rs) = data (ibufs s) ps @ concat (map (frag_data ct (ibufs s)) rs)"
    "pools b = pools (ibufs s)" "\<forall>y. ref b y = ref (ibufs s) y"
proof -
  have "\<exists>b. chain_fragments p r s = Some (set_bufs b s) \<and> packet b p (ps @ pbufs_of ct rs)
    \<and> data b (ps @ pbufs_of ct rs) = data (ibufs s) ps @ concat (map (frag_data ct (ibufs s)) rs)
    \<and> pools b = pools (ibufs s) \<and> (\<forall>y. ref b y = ref (ibufs s) y)"
    using assms
  proof (induction rs arbitrary: r s ps)
    case Nil
    then show ?case by (intro exI [of _ "ibufs s"]) (simp add: chain_fragments.simps)
  next
    case (Cons x rs)
    let ?b = "ibufs s"
    have r: "r = x" "x \<noteq> NULL" "chain (hnext s) (hnext s x) rs" using Cons.prems(1) by auto
    have disj: "set ps \<inter> set (x # ct x) = {}" "distinct (ps @ x # ct x)" "set (ps @ x # ct x) \<inter> set (pbufs_of ct rs) = {}"
        "distinct (pbufs_of ct rs)"
      using Cons.prems(4) by auto
    have x: "fragment ct ?b x" and len: "length (data ?b ps) + length (frag_data ct ?b x) < 65536"
      using Cons.prems(3,5) by auto
    obtain b1 b2 where b: "pbuf_header x (- int 20) ?b = Some (0, b1)" "pbuf_cat p x b1 = Some b2"
        "packet b2 p (ps @ x # ct x)" "data b2 (ps @ x # ct x) = data ?b ps @ frag_data ct ?b x"
        "bytes b2 = bytes ?b" "pools b2 = pools ?b" "\<forall>y. y \<notin> set ps \<and> y \<noteq> x \<longrightarrow> pbufs b2 y = pbufs ?b y"
        "\<forall>y. y \<noteq> x \<longrightarrow> payload b2 y = payload ?b y" "\<forall>y. ref b2 y = ref ?b y"
      by (rule append_fragment [OF Cons.prems(2) x disj(1) len]) (rule that)
    have later: "fragment ct b2 q = fragment ct ?b q \<and> frag_data ct b2 q = frag_data ct ?b q" if "q \<in> set rs" for q
      using pbufs_of_mem [OF that, of ct] disj(3) b(7) by (intro fragment_cong b(5)) auto
    have maps: "map (frag_data ct b2) rs = map (frag_data ct ?b) rs" using later by simp
    have pl: "payload b2 q = payload ?b q" if "q \<in> set rs" for q
      using b(8) pbufs_of_mem [OF that, of ct] disj(3) by auto
    let ?s = "set_bufs b2 s"
    have bufs: "ibufs ?s = b2" by simp
    have "\<exists>b. chain_fragments p (hnext s x) ?s = Some (set_bufs b ?s) \<and> packet b p ((ps @ x # ct x) @ pbufs_of ct rs)
      \<and> data b ((ps @ x # ct x) @ pbufs_of ct rs) = data b2 (ps @ x # ct x) @ concat (map (frag_data ct b2) rs)
      \<and> pools b = pools b2 \<and> (\<forall>y. ref b y = ref b2 y)"
    proof (rule Cons.IH [of ?s "hnext s x" "ps @ x # ct x", unfolded bufs])
      have "hnext ?s q = hnext s q" if "q \<in> set rs" for q using pl [OF that] by (simp add: set_bufs_def)
      then show "chain (\<lambda>q. rh_next_pbuf (helpers ?s (payload b2 q))) (hnext s x) rs"
        using r(3) chain_cong [of rs "hnext ?s" "hnext s" "hnext s x"] by simp
      show "\<forall>q\<in>set rs. fragment ct b2 q" using later Cons.prems(3) by simp
      show "distinct ((ps @ x # ct x) @ pbufs_of ct rs)" using Cons.prems(4) by simp
      show "length (data b2 (ps @ x # ct x)) + length (concat (map (frag_data ct b2) rs)) < 65536"
        using Cons.prems(5) unfolding b(4) maps by simp
    qed (rule b(3))
    moreover have "chain_fragments p r s = chain_fragments p (hnext s x) ?s"
      using b(1,2) r(2) unfolding r(1) by (subst chain_fragments.simps) (simp add: on_bufs_def Let_def set_bufs_def)
    ultimately show ?case unfolding b(4,6) maps using b(9) by auto
  qed
  then show thesis using that by blast
qed

section \<open>The header of the datagram\<close>

definition whole_stores :: "addr \<Rightarrow> u8_t list \<Rightarrow> u16_t \<Rightarrow> (addr \<Rightarrow> u8_t) \<Rightarrow> addr \<Rightarrow> u8_t" where
  "whole_stores h hdr n b = put_bytes (h + 10) (bytes_of_u16 0) (put_bytes (h + 6) (bytes_of_u16 0)
     (put_bytes (h + 2) (bytes_of_u16 (lwip_htons n)) (put_bytes h hdr b)))"

lemma whole_header:
  fixes h b n tos m ident off ttl proto c src dest
  defines "B0 \<equiv> whole_stores h (ip_hdr_bytes tos m ident off ttl proto c src dest) n b"
  defines "B \<equiv> put_bytes (h + 10) (bytes_of_u16 (mem_chksum B0 h 20)) B0"
  shows "mem_bytes B h 20 = ip_header tos n ident 0 ttl proto src dest" "x < h \<or> h + 20 \<le> x \<Longrightarrow> B x = b x"
proof -
  have z: "lwip_htons 0 = 0" by (simp add: lwip_htons_def)
  have "overwrite 0 (ip_hdr_bytes tos m ident off ttl proto c src dest) (mem_bytes b h 20) = ip_hdr_bytes tos m ident off ttl proto c src dest"
    by (simp add: overwrite_def)
  then have B0: "mem_bytes B0 h 20 = ip_hdr_bytes tos n ident 0 ttl proto 0 src dest"
    unfolding B0_def whole_stores_def
    by (simp add: mem_bytes_put mem_bytes_put0 mem_bytes_put_Suc bytes_of_u16_def)
      (simp add: ip_hdr_bytes_def overwrite_def bytes_of_u16_def bytes_of_u32_def z)
  then have "mem_chksum B0 h 20 = inet_chksum 0 (ip_hdr_bytes tos n ident 0 ttl proto 0 src dest)"
    unfolding mem_chksum_def by (simp add: inet_chksum_any [of _ h 0])
  then show "mem_bytes B h 20 = ip_header tos n ident 0 ttl proto src dest"
    unfolding B_def ip_header_def using B0
    by (simp add: mem_bytes_put ip_hdr_bytes_def overwrite_def bytes_of_u16_def bytes_of_u32_def)
  show "x < h \<or> h + 20 \<le> x \<Longrightarrow> B x = b x"
    unfolding B_def B0_def whole_stores_def by (elim disjE) (simp_all add: put_bytes_other bytes_of_u16_def)
qed

section \<open>A complete datagram\<close>

definition reass_hdr :: "ip_state \<Rightarrow> addr \<Rightarrow> addr \<Rightarrow> pbuf_state" where
  "reass_hdr s ipr p = (let h = payload (ibufs s) p; B0 = whole_stores h (rd_iphdr (reassdata s ipr))
      (of_nat (to_u16 (rd_datagram_len (reassdata s ipr) + 20))) (ibytes s)
    in (ibufs s)\<lparr>bytes := put_bytes (h + 10) (bytes_of_u16 (mem_chksum B0 h 20)) B0\<rparr>)"

lemma reass_complete_eq:
  assumes "frag_queue s ipr (p # rs)"
  shows "reass_complete ipr prev s = do {
     s \<leftarrow> chain_fragments p (hnext s p) (set_bufs (reass_hdr s ipr p)
       (set_rd ipr (\<lambda>r. r\<lparr>rd_datagram_len := to_u16 (rd_datagram_len r + IP_HLEN)\<rparr>) s));
     s \<leftarrow> ip_reass_dequeue_datagram ipr prev s;
     clen \<leftarrow> pbuf_clen p (ibufs s);
     Some (p, s\<lparr>ip_reass_pbufcount := to_u16 (ip_reass_pbufcount s + 65536 - clen)\<rparr>)
   }"
proof -
  have "rd_p (reassdata s ipr) = p" using assms by (simp add: frag_queue_def)
  then show ?thesis
    unfolding reass_complete_def Let_def by (simp add: store_bufs reass_hdr_def whole_stores_def Let_def)
qed

lemma reass_complete_packet:
  fixes s ipr p rs ct
  defines "b \<equiv> ibufs s"
  defines "d \<equiv> concat (map (frag_data ct b) (p # rs))"
  assumes q: "frag_queue s ipr (p # rs)" and frags: "\<forall>q\<in>set (p # rs). fragment ct b q" "distinct (pbufs_of ct (p # rs))"
    and apart: "\<forall>x\<in>set (ct p @ pbufs_of ct rs). payload_apart b x (payload b p) 20"
    and hdr: "rd_iphdr (reassdata s ipr) = ip_hdr_bytes tos n ident off ttl proto c src dest"
    and len: "rd_datagram_len (reassdata s ipr) = length d" "length d + 20 < 65536"
    and pool: "memp_inv sizes a (pools b)" "ipr \<in> memp_live sizes a MEMP_REASSDATA (pools b)"
    and prev: "reassdatagrams s = ipr \<or> prev \<noteq> NULL"
  shows "\<exists>s'. reass_complete ipr prev s = Some (p, s') \<and> packet (ibufs s') p (pbufs_of ct (p # rs))
    \<and> data (ibufs s') (pbufs_of ct (p # rs)) = ip_header tos (of_nat (length d + 20)) ident 0 ttl proto src dest @ d
    \<and> (\<forall>y. ref (ibufs s') y = ref b y)
    \<and> (if reassdatagrams s = ipr then reassdatagrams s' = rd_next (reassdata s ipr)
       else reassdatagrams s' = reassdatagrams s \<and> rd_next (reassdata s' prev) = rd_next (reassdata s ipr))"
proof -
  define h where "h = payload b p"
  define b1 where "b1 = reass_hdr s ipr p"
  obtain B where B: "b1 = b\<lparr>bytes := B\<rparr>" "mem_bytes B h 20 = ip_header tos (of_nat (length d + 20)) ident 0 ttl proto src dest"
      "\<forall>x. x < h \<or> h + 20 \<le> x \<longrightarrow> B x = bytes b x"
    using whole_header [where h = h and b = "bytes b" and n = "of_nat (length d + 20)" and tos = tos and m = n and ident = ident
        and off = off and ttl = ttl and proto = proto and c = c and src = src and dest = dest] len(2)
    unfolding b1_def reass_hdr_def hdr Let_def h_def b_def len(1) by (simp add: to_u16_def)
  have fr: "fragment ct b1 x" if "x \<in> set (p # rs)" for x using frags(1) that by (auto simp: fragment_def B(1))
  have p20: "20 \<le> len b p" using frags(1) by (simp add: fragment_def)
  have first: "data b1 (p # ct p) = ip_header tos (of_nat (length d + 20)) ident 0 ttl proto src dest @ frag_data ct b p"
    unfolding B(1) frag_data_def by (rule data_front [OF p20 B(2,3) [unfolded h_def]]) (use apart in auto)
  have later: "frag_data ct b1 x = frag_data ct b x" if "x \<in> set rs" for x
  proof -
    have "data b1 (x # ct x) = data b (x # ct x)"
      unfolding B(1) by (rule data_apart [OF _ B(3)]) (use apart pbufs_of_mem [OF that, of ct] in \<open>auto simp: h_def\<close>)
    then show ?thesis by (simp only: frag_data_def)
  qed
  then have maps: "map (frag_data ct b1) rs = map (frag_data ct b) rs" by simp
  have data: "data b1 (p # ct p) @ concat (map (frag_data ct b1) rs)
      = ip_header tos (of_nat (length d + 20)) ident 0 ttl proto src dest @ d"
    unfolding first maps by (simp add: d_def)
  let ?s1 = "set_bufs b1 (set_rd ipr (\<lambda>r. r\<lparr>rd_datagram_len := to_u16 (rd_datagram_len r + IP_HLEN)\<rparr>) s)"
  have s1: "ibufs ?s1 = b1" by simp
  obtain b2 where b2: "chain_fragments p (hnext s p) ?s1 = Some (set_bufs b2 ?s1)" "packet b2 p ((p # ct p) @ pbufs_of ct rs)"
    "data b2 ((p # ct p) @ pbufs_of ct rs) = data b1 (p # ct p) @ concat (map (frag_data ct b1) rs)"
    "pools b2 = pools b1" "\<forall>y. ref b2 y = ref b1 y"
  proof (rule chain_fragments_packet [of ?s1 "hnext s p" rs p "p # ct p" ct, unfolded s1])
    have "chain (hnext s) (hnext s p) rs" using frag_queue_inner(1) [of s ipr "[]" p rs] q by simp
    moreover have "hnext ?s1 x = hnext s x" for x by (simp add: B(1) set_bufs_def b_def)
    ultimately show "chain (\<lambda>x. rh_next_pbuf (helpers ?s1 (payload b1 x))) (hnext s p) rs" by simp
    show "packet b1 p (p # ct p)" "\<forall>q\<in>set rs. fragment ct b1 q" using fr by (auto simp: fragment_def)
    show "distinct ((p # ct p) @ pbufs_of ct rs)" using frags(2) by simp
    have "length (data b1 (p # ct p) @ concat (map (frag_data ct b1) rs)) < 65536" unfolding data using len(2) by simp
    then show "length (data b1 (p # ct p)) + length (concat (map (frag_data ct b1) rs)) < 65536" by (simp only: length_append)
  qed (rule that)
  have "pools b2 = pools b" using b2(4) B(1) by simp
  then obtain m where m: "memp_free MEMP_REASSDATA ipr (pools b2) = Some m"
    by (auto intro: memp_free_live [OF pool(1) _ pool(2)])
  let ?b = "b2\<lparr>pools := m\<rparr>"
  obtain k where k: "pbuf_clen p ?b = Some k"
    using clen_chain [of ?b p "(p # ct p) @ pbufs_of ct rs" 0] b2(2) unfolding packet_def pbuf_clen_def by auto
  have dat: "data ?b xs = data b2 xs" for xs by (rule data_cong) (simp add: pdata_def)
  have pk: "packet ?b p (pbufs_of ct (p # rs))" "data ?b (pbufs_of ct (p # rs)) = data b2 ((p # ct p) @ pbufs_of ct rs)" "\<forall>y. ref ?b y = ref b y"
    using b2(2,5) packet_cong [of "(p # ct p) @ pbufs_of ct rs" ?b b2] by (simp_all add: B(1) dat pdata_def)
  show ?thesis
    using b2(1) m k prev pk b2(3) data unfolding reass_complete_eq [OF q] b1_def [symmetric]
    by (auto simp: ip_reass_dequeue_datagram_def set_bufs_def set_rd_def)
qed

section \<open>Fragments of one datagram\<close>

definition part :: "u8_t list \<Rightarrow> nat \<times> nat \<Rightarrow> u8_t list" where
  "part d i = take (snd i - fst i) (drop (fst i) d)"

lemma contig_mono:
  assumes "contig xs" "\<forall>i\<in>set xs. fst i \<le> snd i" "x \<in> set xs"
  shows "fst (hd xs) \<le> fst x \<and> snd x \<le> snd (last xs)"
  using assms
proof (induction xs arbitrary: x)
  case (Cons y xs)
  show ?case
  proof (cases "xs = []")
    case False
    then have c: "contig xs" "snd y = fst (hd xs)" "\<forall>i\<in>set xs. fst i \<le> snd i" "fst y \<le> snd y"
      using Cons.prems(1,2) by (simp_all add: contig_Cons)
    have "hd xs \<in> set xs" using False by simp
    then have "fst (hd xs) \<le> snd (last xs)" using Cons.IH [OF c(1,3), of "hd xs"] c(3) le_trans by blast
    then show ?thesis using Cons.IH [OF c(1,3), of x] Cons.prems(3) c(2,4) False by auto
  qed (use Cons.prems in auto)
qed simp

lemma concat_slices:
  assumes "contig xs" "xs \<noteq> []" "\<forall>i\<in>set xs. fst i \<le> snd i"
  shows "concat (map (part d) xs) = part d (fst (hd xs), snd (last xs))"
  using assms
proof (induction xs)
  case (Cons x xs)
  show ?case
  proof (cases "xs = []")
    case False
    then have c: "contig xs" "snd x = fst (hd xs)" using Cons.prems(1) by (simp_all add: contig_Cons)
    have e: "fst (hd xs) \<le> snd (last xs)" "fst x \<le> snd x"
      using contig_mono [OF c(1), of "hd xs"] Cons.prems(3) False hd_in_set [OF False] by (auto intro: le_trans)
    have "take (snd x - fst x) (drop (fst x) d) @ take (snd (last xs) - snd x) (drop (snd x) d)
        = take (snd (last xs) - fst x) (drop (fst x) d)"
      using e c(2) take_add [of "snd x - fst x" "snd (last xs) - snd x" "drop (fst x) d"] by simp
    then show ?thesis using Cons.IH [OF c(1) False] Cons.prems(3) c(2) False by (simp add: part_def)
  qed simp
qed simp

lemma find_datagram_chain:
  assumes "chain (\<lambda>r. rd_next (reassdata s r)) r (ds @ ipr # es)"
    and "\<forall>x\<in>set ds. \<not> IP_ADDRESSES_AND_ID_MATCH (rd_iphdr (reassdata s x)) (ibytes s) h"
    and "IP_ADDRESSES_AND_ID_MATCH (rd_iphdr (reassdata s ipr)) (ibytes s) h"
  shows "find_datagram h s r prev = Some (ipr, if ds = [] then prev else last ds)"
  using assms
proof (induction ds arbitrary: r prev)
  case Nil
  then show ?case by (subst find_datagram.simps) auto
next
  case (Cons x ds)
  have "find_datagram h s (rd_next (reassdata s x)) x = Some (ipr, if ds = [] then x else last ds)"
    using Cons.prems by (intro Cons.IH) auto
  then show ?case using Cons.prems by (subst find_datagram.simps) auto
qed

text \<open>A new fragment that fills the last hole is taken where it belongs.\<close>

lemma contig_fits:
  assumes "contig (map sp bef @ (a, b) # map sp aft)" "\<forall>q\<in>set (bef @ aft). fst (sp q) \<le> snd (sp q)" "a < b"
  shows "fits a b sp bef aft"
proof -
  have c: "contig (map sp bef @ [(a, b)])" "aft \<noteq> [] \<Longrightarrow> b = fst (sp (hd aft))"
    using assms(1) by (auto simp: contig_append contig_Cons hd_map)
  have "snd (sp q) \<le> a" if "q \<in> set bef" for q
  proof -
    have "bef \<noteq> []" using that by auto
    then have "contig (map sp bef)" "snd (last (map sp bef)) = a" using c(1) by (auto simp: contig_append)
    then show ?thesis using contig_mono [of "map sp bef" "sp q"] assms(2) that by auto
  qed
  then show ?thesis using c(2) assms(3) by (auto simp: fits_def)
qed

text \<open>The fragments \<open>qs\<close> of the datagram \<open>d\<close> that have come so far, in the pbufs \<open>pbufs_of ct qs\<close>.\<close>

definition parts_of :: "u8_t list \<Rightarrow> (addr \<Rightarrow> addr list) \<Rightarrow> ip_state \<Rightarrow> addr \<Rightarrow> addr list \<Rightarrow> bool" where
  "parts_of d ct s ipr qs \<longleftrightarrow> frag_queue s ipr qs \<and> (\<forall>q\<in>set qs. fragment ct (ibufs s) q
     \<and> frag_data ct (ibufs s) q = part d (span s q) \<and> fst (span s q) \<le> snd (span s q))"

text \<open>The header of each fragment lies apart from all other pbufs' payloads.\<close>

definition headers_apart :: "(addr \<Rightarrow> addr list) \<Rightarrow> pbuf_state \<Rightarrow> addr list \<Rightarrow> bool" where
  "headers_apart ct b qs \<longleftrightarrow> (\<forall>q\<in>set qs. \<forall>x\<in>set (pbufs_of ct qs). x \<noteq> q \<longrightarrow> payload_apart b x (payload b q) 20)"

lemma frag_fields:
  assumes "mem_bytes b h 20 = ip_hdr_bytes tos n ident off ttl proto c src dest" "20 \<le> unat n"
    and "8 * unat (off AND 0x1fff) + (unat n - 20) < 65536"
  shows "frag_offset b h = 8 * unat (off AND 0x1fff)" "frag_len b h = unat n - 20"
    "to_u16 (8 * unat (off AND 0x1fff) + (unat n - 20)) = 8 * unat (off AND 0x1fff) + (unat n - 20)"
proof -
  have "unat n - 20 < 65536" using unat_u16_less [of n] by linarith
  then have "(65516 + unat n) mod 65536 = unat n - 20"
    using assms(2) le_mod_geq [of 65536 "65516 + unat n"] by simp
  then show "frag_offset b h = 8 * unat (off AND 0x1fff)" "frag_len b h = unat n - 20"
      "to_u16 (8 * unat (off AND 0x1fff) + (unat n - 20)) = 8 * unat (off AND 0x1fff) + (unat n - 20)"
    using assms(2,3) header_reads(2,3,5) [OF assms(1)]
    by (simp_all add: frag_offset_def frag_len_def lwip_ntohs_def lwip_htons_htons to_u16_def mult.commute)
qed

lemma parts_span_cong:
  "lower s' = lower s \<Longrightarrow> helpers s' = helpers s \<Longrightarrow> span s' = span s"
  by (rule ext) (simp add: span_def)

lemma parts_of_cong:
  assumes "lower s' = lower s" "helpers s' = helpers s" "rd_p (reassdata s' ipr) = rd_p (reassdata s ipr)"
  shows "parts_of d ct s' ipr qs = parts_of d ct s ipr qs"
  unfolding parts_of_def parts_span_cong [OF assms(1,2)] using frag_queue_cong [of s' s ipr qs] assms by simp

lemma pbufs_of_perm: "mset qs = mset rs \<Longrightarrow> mset (pbufs_of ct qs) = mset (pbufs_of ct rs)"
  unfolding pbufs_of_def by (simp add: mset_concat flip: sum_mset_sum_list)

lemma queue_completes:
  fixes s p ipr qs ct d
  defines "b \<equiv> ibufs s"
  assumes parts: "parts_of d ct s ipr (x # rs)" "distinct (pbufs_of ct (x # rs))" "headers_apart ct b (x # rs)"
    and whole: "contig (map (span s) (x # rs))" "fst (span s x) = 0" "snd (last (map (span s) (x # rs))) = length d"
    and len: "rd_datagram_len (reassdata s ipr) = length d" "length d + 20 < 65536"
    and hdr: "rd_iphdr (reassdata s ipr) = ip_hdr_bytes tos n ident off ttl proto c src dest"
    and pool: "memp_inv sizes a (pools b)" "ipr \<in> memp_live sizes a MEMP_REASSDATA (pools b)"
    and prev: "reassdatagrams s = ipr \<or> prev \<noteq> NULL"
  shows "\<exists>s'. reass_complete ipr prev s = Some (x, s') \<and> packet (ibufs s') x (pbufs_of ct (x # rs))
    \<and> data (ibufs s') (pbufs_of ct (x # rs)) = ip_header tos (of_nat (length d + 20)) ident 0 ttl proto src dest @ d
    \<and> (\<forall>y. ref (ibufs s') y = ref b y)
    \<and> (if reassdatagrams s = ipr then reassdatagrams s' = rd_next (reassdata s ipr)
       else reassdatagrams s' = reassdatagrams s \<and> rd_next (reassdata s' prev) = rd_next (reassdata s ipr))"
proof -
  have q: "frag_queue s ipr (x # rs)" "\<forall>q\<in>set (x # rs). fragment ct b q" using parts(1) by (auto simp: parts_of_def b_def)
  have eq: "map (frag_data ct b) (x # rs) = map (part d) (map (span s) (x # rs))" using parts(1) by (simp add: parts_of_def b_def)
  have "concat (map (frag_data ct b) (x # rs)) = part d (0, length d)"
    unfolding eq using concat_slices [OF whole(1), of d] parts(1) whole(2,3) by (simp add: parts_of_def del: concat.simps)
  then have d: "concat (map (frag_data ct b) (x # rs)) = d" by (simp add: part_def)
  have "\<forall>y\<in>set (ct x @ pbufs_of ct rs). payload_apart b y (payload b x) 20"
    using parts(2,3) by (auto simp: headers_apart_def)
  from reass_complete_packet [of s ipr x rs ct, folded b_def, unfolded d, OF q parts(2) this hdr len pool prev]
  show ?thesis .
qed

section \<open>The last missing fragment arrives\<close>

lemma same_rdD:
  assumes "same_rd s s'"
  shows "lower s' = lower s" "reassdatagrams s' = reassdatagrams s" "rd_iphdr (reassdata s' x) = rd_iphdr (reassdata s x)"
    "rd_datagram_len (reassdata s' x) = rd_datagram_len (reassdata s x)" "rd_next (reassdata s' x) = rd_next (reassdata s x)"
proof -
  have "(reassdata s' x)\<lparr>rd_p := NULL\<rparr> = (reassdata s x)\<lparr>rd_p := NULL\<rparr>" using assms by (simp add: same_rd_def)
  from arg_cong [OF this, of rd_iphdr] arg_cong [OF this, of rd_datagram_len] arg_cong [OF this, of rd_next]
  show "rd_iphdr (reassdata s' x) = rd_iphdr (reassdata s x)" "rd_datagram_len (reassdata s' x) = rd_datagram_len (reassdata s x)"
    "rd_next (reassdata s' x) = rd_next (reassdata s x)" by simp_all
qed (use assms in \<open>simp_all add: same_rd_def\<close>)

lemma reass_add_completes:
  fixes s p ipr qs ct d clen
  defines "b \<equiv> ibufs s" and "h \<equiv> payload (ibufs s) p"
  fixes n off a e bef aft
  defines "a \<equiv> 8 * unat (off AND (0x1fff :: u16_t))"
  defines "e \<equiv> a + (unat (n :: u16_t) - 20)"
  defines "bef \<equiv> before a (span s) qs" and "aft \<equiv> behind a (span s) qs"
  assumes parts: "parts_of d ct s ipr qs" "qs \<noteq> []" "distinct (pbufs_of ct (p # qs))" "headers_apart ct b (p # qs)"
    and new: "fragment ct b p" "frag_data ct b p = part d (a, e)" "h \<notin> payload b ` set qs" "h \<noteq> NULL"
      "mem_bytes (bytes b) h 20 = ip_hdr_bytes tos n ident off ttl proto c src dest" "20 < unat n"
    and fill: "contig (map (span s) bef @ (a, e) # map (span s) aft)" "fst (hd (map (span s) bef @ [(a, e)])) = 0"
      "snd (last ((a, e) # map (span s) aft)) = length d" "length d + 20 < 65536"
    and lastfrag: "if off AND 0x2000 = 0 then e = length d
      else rd_flags (reassdata s ipr) AND 1 \<noteq> 0 \<and> rd_datagram_len (reassdata s ipr) = length d"
    and hdr: "rd_iphdr (reassdata s ipr) = ip_hdr_bytes tos' n' ident off' ttl' proto' c' src dest"
    and pool: "memp_inv sizes m (pools b)" "ipr \<in> memp_live sizes m MEMP_REASSDATA (pools b)"
    and prev: "reassdatagrams s = ipr \<or> prev \<noteq> NULL"
  shows "\<exists>s'. reass_add cf ipr prev p clen s = Some (hd (bef @ [p]), s')
    \<and> packet (ibufs s') (hd (bef @ [p])) (pbufs_of ct (bef @ p # aft))
    \<and> data (ibufs s') (pbufs_of ct (bef @ p # aft)) = ip_header tos' (of_nat (length d + 20)) ident 0 ttl' proto' src dest @ d
    \<and> (\<forall>y. ref (ibufs s') y = ref b y)
    \<and> (if reassdatagrams s = ipr then reassdatagrams s' = rd_next (reassdata s ipr)
       else reassdatagrams s' = reassdatagrams s \<and> rd_next (reassdata s' prev) = rd_next (reassdata s ipr))"
proof -
  have lists: "qs = bef @ aft" by (simp add: bef_def aft_def before_behind)
  have le: "\<forall>q\<in>set (bef @ aft). fst (span s q) \<le> snd (span s q)" using parts(1) lists by (simp add: parts_of_def)
  have ae: "a < e" using new(6) by (simp add: e_def)
  have ends: "e \<le> length d"
    using contig_mono [OF fill(1), of "(a, e)"] le ae fill(3) by (auto simp: last_append)
  have fields: "frag_offset (bytes b) h = a" "frag_len (bytes b) h = unat n - 20" "to_u16 e = e"
    using frag_fields [OF new(5)] ends fill(4) new(6) by (simp_all add: a_def e_def)
  have mf: "IPH_OFFSET (bytes b) h AND lwip_ntohs IP_MF = 0 \<longleftrightarrow> off AND 0x2000 = 0"
    unfolding header_reads(5) [OF new(5)] lwip_ntohs_def htons_and htons_0_iff ..
  define s1 where "s1 = (let s = s\<lparr>ip_reass_pbufcount := to_u16 (ip_reass_pbufcount s + clen)\<rparr>
    in if off AND 0x2000 = 0 then set_rd ipr (\<lambda>r. r\<lparr>rd_flags := rd_flags r OR 1, rd_datagram_len := e\<rparr>) s else s)"
  have s1: "lower s1 = lower s" "helpers s1 = helpers s" "rd_p (reassdata s1 ipr) = rd_p (reassdata s ipr)" "rd_iphdr (reassdata s1 ipr) = rd_iphdr (reassdata s ipr)"
      "reassdatagrams s1 = reassdatagrams s" "rd_next (reassdata s1 ipr) = rd_next (reassdata s ipr)"
    by (simp_all add: s1_def set_rd_def Let_def)
  have or1: "(f OR 1) AND 1 \<noteq> (0 :: u8_t)" for f
  proof
    assume "(f OR 1) AND 1 = 0"
    then have "bit ((f OR 1) AND 1) 0 = bit (0 :: u8_t) 0" by simp
    then show False by (simp add: bit_simps)
  qed
  have flag: "rd_flags (reassdata s1 ipr) AND 1 \<noteq> 0" "rd_datagram_len (reassdata s1 ipr) = length d"
    using lastfrag or1 by (auto simp: s1_def set_rd_def Let_def split: if_splits)
  have sp: "span s1 = span s" by (rule parts_span_cong [OF s1(1,2)])
  have p: "p \<noteq> NULL" "p \<notin> set qs" using new(1) packet_nonNULL parts(3) by (auto simp: fragment_def pbufs_of_def)
  have "parts_of d ct s1 ipr qs" using parts(1) parts_of_cong [OF s1(1-3)] by blast
  then have q1: "frag_queue s1 ipr qs" by (simp add: parts_of_def)
  have fit: "fits a e (span s) bef aft" by (rule contig_fits [OF fill(1) le ae])
  have wh: "whole True (map (span s) bef) (a, e) (map (span s) aft)"
    using fill(1,2) by (auto simp: whole_def contig_append contig_Cons)
  obtain s2 where s2: "ip_reass_chain_frag_into_datagram_and_validate cf ipr p s1 = Some (True, s2)"
      "frag_queue s2 ipr (bef @ p # aft)" "\<forall>x\<in>set qs. span s2 x = span s x" "span s2 p = (a, e)" "same_rd s1 s2"
    using chain_frag_fits [OF q1 p, of cf] fit wh new(3,4) flag fill(3) parts(2) fields
    unfolding s1(1) sp h_def b_def bef_def aft_def e_def by auto
  note r = same_rdD [OF s2(5)]
  obtain x rs where xs: "bef @ p # aft = x # rs" "x = hd (bef @ [p])" by (cases bef) auto
  have all: "mset (pbufs_of ct (x # rs)) = mset (pbufs_of ct (p # qs))"
    unfolding xs(1) [symmetric] by (rule pbufs_of_perm) (simp add: lists)
  have sets: "set (x # rs) = set (p # qs)" "set (pbufs_of ct (x # rs)) = set (pbufs_of ct (p # qs))"
    using mset_eq_setD [OF all] unfolding xs(1) [symmetric] lists by auto
  have maps: "map (span s2) (x # rs) = map (span s) bef @ (a, e) # map (span s) aft"
    using s2(3,4) unfolding xs(1) [symmetric] lists by simp
  have parts2: "parts_of d ct s2 ipr (x # rs)"
  proof -
    have "fragment ct b q \<and> frag_data ct b q = part d (span s2 q) \<and> fst (span s2 q) \<le> snd (span s2 q)" if "q \<in> set (p # qs)" for q
      using that new(1,2) parts(1) s2(3,4) ae by (auto simp: parts_of_def b_def)
    then show ?thesis using s2(2) unfolding xs(1) parts_of_def sets(1) r(1) s1(1) b_def by blast
  qed
  have dist: "distinct (pbufs_of ct (x # rs))" using mset_eq_imp_distinct_iff [OF all] parts(3) by blast
  have hap: "headers_apart ct b (x # rs)" using parts(4) unfolding headers_apart_def sets .
  have first: "fst (span s2 x) = 0" using maps fill(2) by (cases bef) auto
  have lst: "snd (last (map (span s2) (x # rs))) = length d" unfolding maps using fill(3) by (simp add: last_append)
  have "\<exists>s'. reass_complete ipr prev s2 = Some (x, s') \<and> packet (ibufs s') x (pbufs_of ct (x # rs))
    \<and> data (ibufs s') (pbufs_of ct (x # rs)) = ip_header tos' (of_nat (length d + 20)) ident 0 ttl' proto' src dest @ d
    \<and> (\<forall>y. ref (ibufs s') y = ref b y)
    \<and> (if reassdatagrams s2 = ipr then reassdatagrams s' = rd_next (reassdata s2 ipr)
       else reassdatagrams s' = reassdatagrams s2 \<and> rd_next (reassdata s' prev) = rd_next (reassdata s2 ipr))"
    using queue_completes [OF parts2 dist _ _ first lst, of tos' n' ident off' ttl' proto' c' src dest sizes m prev]
      hap fill(1,4) flag(2) hdr pool prev unfolding r s1 b_def maps by blast
  moreover have "reass_add cf ipr prev p clen s = reass_complete ipr prev s2"
    using s2(1) mf fields unfolding reass_add_def Let_def s1_def b_def h_def e_def by (simp split: if_splits)
  ultimately show ?thesis unfolding xs r s1 by simp
qed

end
