(* ===== verification/Ip_Reass_Claims.thy ===== *)
theory Ip_Reass_Claims
  imports Ip_Reass_Packet Ip_Claims
begin

unbundle bit_operations_syntax

text \<open>
  What the reassembly of \<^verbatim>\<open>core/ipv4/ip_frag.c\<close> promises: the place of a fragment in the queue and the verdict on the datagram, the packet that
  comes out when the last missing fragment arrives, and the hole that the verdict does not see.
\<close>

section \<open>The queue\<close>

text \<open>
  C23. A fragment that overlaps no queued fragment is put into the queue of its datagram at its offset, and the queue stays sorted. The datagram
  counts as complete when its last fragment has come, the first starts at 0 and there are no holes before the new fragment and none behind
  it. A fragment is freed, and the queue stays as it is, when it repeats an offset, when it starts inside a queued fragment, and when it is put between two
  fragments and overlaps the one behind it; a fragment that starts before all others is not compared with those behind it and is queued even when it
  overlaps them. Completion with a single fragment or with a last fragment that does not end at the length of the datagram fails an assertion.
\<close>

theorem frag_queue_step:
  fixes s p ipr qs
  defines "h \<equiv> payload (ibufs s) p"
  defines "a \<equiv> frag_offset (ibytes s) h"
  defines "b \<equiv> to_u16 (a + frag_len (ibytes s) h)"
  defines "bef \<equiv> before a (span s) qs" and "aft \<equiv> behind a (span s) qs"
  defines "done \<equiv> whole (rd_flags (reassdata s ipr) AND IP_REASS_FLAG_LASTFRAG \<noteq> 0) (map (span s) bef) (a, b) (map (span s) aft)"
  assumes q: "frag_queue s ipr qs" and p: "p \<noteq> NULL" "p \<notin> set qs" "h \<notin> payload (ibufs s) ` set qs" "h \<noteq> NULL"
  shows "\<exists>s'. frag_queue s' ipr (if fits a b (span s) bef aft then bef @ p # aft else qs)
    \<and> (\<forall>x\<in>set qs. span s' x = span s x) \<and> (fits a b (span s) bef aft \<longrightarrow> span s' p = (a, b)) \<and> lower s' = lower s
    \<and> ip_reass_chain_frag_into_datagram_and_validate cf ipr p s
      = (if \<not> fits a b (span s) bef aft
         then do {
           clen \<leftarrow> pbuf_clen p (ibufs s);
           map_option (Pair False) (ip_free cf p (s'\<lparr>ip_reass_pbufcount := to_u16 (ip_reass_pbufcount s + 65536 - clen)\<rparr>))
         }
         else if done \<and> (qs = [] \<or> snd (last ((a, b) # map (span s) aft)) \<noteq> rd_datagram_len (reassdata s ipr)) then None
         else Some (done, s'))"
proof (cases "fits a b (span s) bef aft")
  case True
  from chain_frag_fits [OF q p [unfolded h_def], folded h_def, folded a_def, folded b_def, folded bef_def aft_def, folded done_def, OF True, of cf]
  obtain s' where s': "ip_reass_chain_frag_into_datagram_and_validate cf ipr p s
        = (if done \<and> (qs = [] \<or> snd (last ((a, b) # map (span s) aft)) \<noteq> rd_datagram_len (reassdata s ipr)) then None else Some (done, s'))"
      "frag_queue s' ipr (bef @ p # aft)" "\<forall>x\<in>set qs. span s' x = span s x" "span s' p = (a, b)" "same_rd s s'" by blast
  show ?thesis using True s'(2-4) same_rdD(1) [OF s'(5)] unfolding s'(1) by (intro exI [of _ s']) simp
next
  case False
  from chain_frag_rejected [OF q p(3) [unfolded h_def], folded h_def, folded a_def, folded b_def, folded bef_def aft_def, OF False, of cf]
  obtain s' where s': "ip_reass_chain_frag_into_datagram_and_validate cf ipr p s = do {
        clen \<leftarrow> pbuf_clen p (ibufs s);
        map_option (Pair False) (ip_free cf p (s'\<lparr>ip_reass_pbufcount := to_u16 (ip_reass_pbufcount s + 65536 - clen)\<rparr>))
      }" "frag_queue s' ipr qs" "\<forall>x\<in>set qs. span s' x = span s x" "same_rd s s'" by blast
  show ?thesis using False s'(2,3) same_rdD(1) [OF s'(4)] unfolding s'(1) by (intro exI [of _ s']) simp
qed

section \<open>The datagram\<close>

text \<open>
  C2. When a fragment arrives that fills the last hole of its datagram \<open>d\<close>, in whatever order the others came, \<^verbatim>\<open>ip_reass\<close> returns the
  chained pbufs of all fragments as one packet: a header with the total length, no fragment bits and the right checksum,
  followed by exactly \<open>d\<close>. The datagram is taken off the list.
\<close>

theorem reass_last_fragment:
  fixes s p ipr qs ct d
  defines "b \<equiv> ibufs s" and "h \<equiv> payload (ibufs s) p"
  fixes n off off' a e bef aft
  defines "a \<equiv> 8 * unat (off AND (0x1fff :: u16_t))"
  defines "e \<equiv> a + (unat (n :: u16_t) - 20)"
  defines "bef \<equiv> before a (span s) qs" and "aft \<equiv> behind a (span s) qs"
  defines "lead \<equiv> off AND 0x1fff = 0 \<and> off' AND (0x1fff :: u16_t) \<noteq> 0"
  assumes parts: "parts_of d ct s ipr qs" "qs \<noteq> []" "distinct (pbufs_of ct (p # qs))" "headers_apart ct b (p # qs)"
    and new: "fragment ct b p" "frag_data ct b p = part d (a, e)" "h \<notin> payload b ` set qs" "h \<noteq> NULL"
      "mem_bytes (bytes b) h 20 = ip_hdr_bytes tos n ident off ttl proto c src dest" "20 < unat n"
    and fill: "contig (map (span s) bef @ (a, e) # map (span s) aft)" "fst (hd (map (span s) bef @ [(a, e)])) = 0"
      "snd (last ((a, e) # map (span s) aft)) = length d" "length d + 20 < 65536"
    and lastfrag: "if off AND 0x2000 = 0 then e = length d
      else rd_flags (reassdata s ipr) AND 1 \<noteq> 0 \<and> rd_datagram_len (reassdata s ipr) = length d"
    and hdr: "rd_iphdr (reassdata s ipr) = ip_hdr_bytes tos' n' ident off' ttl' proto' c' src dest"
    and pool: "memp_inv sizes m (pools b)" "ipr \<in> memp_live sizes m MEMP_REASSDATA (pools b)"
    and listed: "chain (\<lambda>r. rd_next (reassdata s r)) (reassdatagrams s) (ds @ ipr # es)"
      "\<forall>x\<in>set ds. \<not> IP_ADDRESSES_AND_ID_MATCH (rd_iphdr (reassdata s x)) (bytes b) h"
    and room: "pbuf_clen p b = Some clen" "ip_reass_pbufcount s + clen \<le> IP_REASS_MAX_PBUFS"
  shows "\<exists>s'. ip_reass cf out p s = Some (hd (bef @ [p]), s')
    \<and> packet (ibufs s') (hd (bef @ [p])) (pbufs_of ct (bef @ p # aft))
    \<and> data (ibufs s') (pbufs_of ct (bef @ p # aft))
      = ip_header (if lead then tos else tos') (of_nat (length d + 20)) ident 0 (if lead then ttl else ttl')
          (if lead then proto else proto') src dest @ d
    \<and> (\<forall>y. ref (ibufs s') y = ref b y)
    \<and> (if ds = [] then reassdatagrams s' = rd_next (reassdata s ipr)
       else reassdatagrams s' = reassdatagrams s \<and> rd_next (reassdata s' (last ds)) = rd_next (reassdata s ipr))"
proof -
  define prev where "prev = (if ds = [] then NULL else last ds)"
  define s1 where "s1 = IPFRAG_STATS_INC sp_cachehit_update (IPFRAG_STATS_INC sp_recv_update s)"
  define s2 where "s2 = (if lead then set_rd ipr (\<lambda>r. r\<lparr>rd_iphdr := mem_bytes (bytes b) h 20\<rparr>) s1 else s1)"
  note reads = header_reads [OF new(5)]
  have "mem_bytes (nth (rd_iphdr (reassdata s ipr))) 0 20 = ip_hdr_bytes tos' n' ident off' ttl' proto' c' src dest"
    by (rule nth_equalityI) (simp_all add: hdr)
  note stored = header_reads [OF this]
  have match: "IP_ADDRESSES_AND_ID_MATCH (rd_iphdr (reassdata s ipr)) (bytes b) h"
    unfolding IP_ADDRESSES_AND_ID_MATCH_def using reads stored by simp
  have found: "find_datagram h s' (reassdatagrams s) NULL = Some (ipr, prev)" if "reassdata s' = reassdata s" "ibytes s' = bytes b" for s'
    using find_datagram_chain [of s' "reassdatagrams s" ds ipr es h NULL] listed match that by (simp add: prev_def)
  have first: "reassdatagrams s = ipr \<longleftrightarrow> ds = []" "ipr \<noteq> NULL" "ds \<noteq> [] \<Longrightarrow> prev \<noteq> NULL"
  proof -
    have d: "ipr \<notin> set ds" "0 \<notin> set ds" "ipr \<noteq> NULL"
      using chain_distinct [OF listed(1)] chain_NULL_notin [OF listed(1)] by auto
    show "reassdatagrams s = ipr \<longleftrightarrow> ds = []" using listed(1) d(1) by (cases ds) auto
    show "ds \<noteq> [] \<Longrightarrow> prev \<noteq> NULL" using d(2) last_in_set [of ds] unfolding prev_def by metis
    show "ipr \<noteq> NULL" by (rule d(3))
  qed
  have frag0: "(lwip_ntohs (lwip_htons off) AND 0x1fff = 0 \<and> lwip_ntohs (lwip_htons off') AND 0x1fff \<noteq> 0) = lead"
    by (simp add: lead_def lwip_ntohs_def lwip_htons_htons)
  have "ip_reass cf out p s = reass_add cf ipr prev p clen s2"
    using room found [of "IPFRAG_STATS_INC sp_recv_update s"] first(2) reads(2) reads(5) stored(5) frag0
    unfolding b_def h_def by (simp add: ip_reass_def IPFRAG_STATS_INC_def s2_def s1_def Let_def b_def h_def)
  have s2: "lower s2 = lower s" "helpers s2 = helpers s" "rd_p (reassdata s2 ipr) = rd_p (reassdata s ipr)"
      "rd_flags (reassdata s2 ipr) = rd_flags (reassdata s ipr)" "rd_datagram_len (reassdata s2 ipr) = rd_datagram_len (reassdata s ipr)"
      "reassdatagrams s2 = reassdatagrams s" "rd_next (reassdata s2 ipr) = rd_next (reassdata s ipr)"
    by (simp_all add: s2_def s1_def IPFRAG_STATS_INC_def set_rd_def)
  have sp: "span s2 = span s" by (rule parts_span_cong [OF s2(1,2)])
  have parts2: "parts_of d ct s2 ipr qs" using parts(1) parts_of_cong [OF s2(1-3)] by blast
  have hdr2: "rd_iphdr (reassdata s2 ipr) = ip_hdr_bytes (if lead then tos else tos') (if lead then n else n') ident
      (if lead then off else off') (if lead then ttl else ttl') (if lead then proto else proto') (if lead then c else c') src dest"
    using hdr new(5) by (simp add: s2_def s1_def IPFRAG_STATS_INC_def)
  have prev2: "reassdatagrams s = ipr \<or> prev \<noteq> NULL" using first by blast
  from reass_add_completes [where s = s2 and off = off and n = n and d = d and ct = ct and qs = qs and prev = prev and ipr = ipr and p = p,
      unfolded s2 sp, folded b_def h_def, folded a_def, folded e_def, folded bef_def aft_def,
      OF parts2 parts(2-4) new fill lastfrag hdr2 pool prev2, of cf clen]
  show ?thesis unfolding \<open>ip_reass cf out p s = _\<close> first(1) by (auto simp: prev_def split: if_splits)
qed

section \<open>The hole\<close>

text \<open>
  C24. With the fragments \<open>[0, x)\<close> and \<open>[y, z)\<close> of a datagram of \<open>z\<close> bytes queued, the last among them, a fragment \<open>[a, y)\<close> with \<open>x < a\<close> completes the
  datagram for the code, although the bytes from \<open>x\<close> to \<open>a\<close> have not come.
\<close>

theorem reass_hole_undetected:
  assumes "frag_queue s ipr [q, r]" "span s q = (0, x)" "span s r = (y, z)" "x < a" "a < y"
    and "rd_flags (reassdata s ipr) AND IP_REASS_FLAG_LASTFRAG \<noteq> 0" "rd_datagram_len (reassdata s ipr) = z"
    and "p \<noteq> NULL" "p \<notin> set [q, r]" "payload (ibufs s) p \<notin> payload (ibufs s) ` set [q, r]" "payload (ibufs s) p \<noteq> NULL"
    and "frag_offset (ibytes s) (payload (ibufs s) p) = a" "to_u16 (a + frag_len (ibytes s) (payload (ibufs s) p)) = y"
  shows "\<exists>s'. ip_reass_chain_frag_into_datagram_and_validate cf ipr p s = Some (True, s')
    \<and> frag_queue s' ipr [q, p, r] \<and> map (span s') [q, p, r] = [(0, x), (a, y), (y, z)]"
proof -
  have lists: "before a (span s) [q, r] = [q]" "behind a (span s) [q, r] = [r]"
    using assms(2-5) by (simp_all add: before_def behind_def)
  have "fits a y (span s) [q] [r]" "whole True (map (span s) [q]) (a, y) (map (span s) [r])"
    using assms(2-5) by (simp_all add: fits_def whole_def)
  with chain_frag_fits [OF assms(1,8-11), of cf, unfolded assms(12,13) lists] assms(2,3,6,7)
  obtain s' where "ip_reass_chain_frag_into_datagram_and_validate cf ipr p s = Some (True, s')"
      "frag_queue s' ipr [q, p, r]" "\<forall>x\<in>set [q, r]. span s' x = span s x" "span s' p = (a, y)" by auto
  then show ?thesis using assms(2,3) by (intro exI [of _ s']) simp
qed

section \<open>Witnesses\<close>

text \<open>Pbufs at 100, 200 and 300 of 28 bytes each; the first two carry \<open>xs\<close> and \<open>ys\<close>.\<close>

definition frags0 :: "memp_state \<Rightarrow> u8_t list \<Rightarrow> u8_t list \<Rightarrow> pbuf_state" where
  "frags0 m xs ys = ex0\<lparr>pbufs := \<lambda>q. pb0 0 (10 * q) 28 28, bytes := \<lambda>x. if 1000 \<le> x \<and> x < 1028 then xs ! (x - 1000)
     else if 2000 \<le> x \<and> x < 2028 then ys ! (x - 2000) else 0, pools := m\<rparr>"

definition reass0 :: "addr \<Rightarrow> pbuf_state \<Rightarrow> ip_reassdata \<Rightarrow> (addr \<Rightarrow> ip_reass_helper) \<Rightarrow> ip_state" where
  "reass0 r b d hs = (ip0 [])\<lparr>lower := arp1 b 0, reassdatagrams := r, reassdata := \<lambda>_. d, helpers := hs\<rparr>"

definition hdr0 :: "u16_t \<Rightarrow> u8_t list" where
  "hdr0 off = ip_hdr_bytes 0 28 5 off 64 17 0 0x0900a8c0 0x0100a8c0"

lemma reass0_simps:
  "ibufs (reass0 r b d hs) = b" "reassdatagrams (reass0 r b d hs) = r" "reassdata (reass0 r b d hs) x = d" "helpers (reass0 r b d hs) = hs"
  "ip_reass_pbufcount (reass0 r b d hs) = 0"
  "payload (frags0 m xs ys) q = 10 * q" "len (frags0 m xs ys) q = 28" "nxt (frags0 m xs ys) q = 0" "pools (frags0 m xs ys) = m"
  by (simp_all add: reass0_def ip0_def arp1_def frags0_def pb0_def)

lemma frags0_data:
  "length xs = 28 \<Longrightarrow> data (frags0 m xs ys) [100] = xs" "length ys = 28 \<Longrightarrow> data (frags0 m xs ys) [200] = ys"
  by (simp_all add: pdata_def) (rule nth_equalityI; simp add: frags0_def pb0_def)+

lemma frags0_fragment: "3 \<le> q \<Longrightarrow> fragment (\<lambda>_. []) (frags0 m xs ys) q"
  by (simp add: fragment_def packet_def frags0_def pb0_def)

text \<open>The fragments \<open>[0, 8)\<close> and \<open>[24, 32)\<close> are queued, \<open>[16, 24)\<close> arrives.\<close>

definition hole0 :: ip_state where
  "hole0 = reass0 4 (frags0 pools0 (hdr0 0x2000 @ replicate 8 1) (hdr0 0x2002 @ replicate 8 2))
     \<lparr>rd_next = 0, rd_p = 100, rd_iphdr = hdr0 0x2000, rd_datagram_len = 32, rd_flags = 1, rd_timer = 3\<rparr>
     (\<lambda>h. if h = 1000 then \<lparr>rh_next_pbuf = 300, rh_start = 0, rh_end = 8\<rparr> else \<lparr>rh_next_pbuf = 0, rh_start = 24, rh_end = 32\<rparr>)"

lemma hole0:
  "frag_queue hole0 4 [100, 300]" "span hole0 100 = (0, 8)" "span hole0 300 = (24, 32)"
  "frag_offset (ibytes hole0) (payload (ibufs hole0) 200) = 16" "frag_len (ibytes hole0) (payload (ibufs hole0) 200) = 8"
proof -
  show sp: "span hole0 100 = (0, 8)" "span hole0 300 = (24, 32)" by (simp_all add: hole0_def span_def reass0_simps)
  show "frag_queue hole0 4 [100, 300]" using sp by (simp add: frag_queue_def) (simp add: hole0_def reass0_simps)
  have "data (ibufs hole0) [200] = hdr0 0x2002 @ replicate 8 2"
    unfolding hole0_def reass0_simps by (rule frags0_data) (simp add: hdr0_def)
  from arg_cong [OF this, of "take 20"] have "mem_bytes (ibytes hole0) (payload (ibufs hole0) 200) 20 = hdr0 0x2002"
    by (simp add: pdata_def hdr0_def) (simp add: hole0_def reass0_simps)
  from frag_fields [OF this [unfolded hdr0_def]]
  show "frag_offset (ibytes hole0) (payload (ibufs hole0) 200) = 16" "frag_len (ibytes hole0) (payload (ibufs hole0) 200) = 8"
    by simp_all
qed

lemma hole0_fields:
  "rd_flags (reassdata hole0 4) = 1" "rd_datagram_len (reassdata hole0 4) = 32" "payload (ibufs hole0) q = 10 * q" "to_u16 (16 + 8) = 24"
  by (simp_all add: to_u16_def hole0_def reass0_simps)

theorem reass_hole_undetected_witness:
  "\<exists>s'. ip_reass_chain_frag_into_datagram_and_validate (\<lambda>_ _. None) 4 200 hole0 = Some (True, s')
    \<and> map (span s') [100, 200, 300] = [(0, 8), (16, 24), (24, 32)]"
proof -
  have "\<exists>s'. ip_reass_chain_frag_into_datagram_and_validate (\<lambda>_ _. None) 4 200 hole0 = Some (True, s')
      \<and> frag_queue s' 4 [100, 200, 300] \<and> map (span s') [100, 200, 300] = [(0, 8), (16, 24), (24, 32)]"
  proof (rule reass_hole_undetected [OF hole0(1-3)])
    show "to_u16 (16 + frag_len (ibytes hole0) (payload (ibufs hole0) 200)) = 24" unfolding hole0(5) hole0_fields(4) ..
  qed (rule hole0(4) | simp add: hole0_fields(1-3))+
  then show ?thesis by (elim exE conjE) (intro exI conjI)
qed

theorem frag_queue_step_witness:
  "\<exists>s'. frag_queue s' 4 [100, 200, 300] \<and> ip_reass_chain_frag_into_datagram_and_validate (\<lambda>_ _. None) 4 200 hole0 = Some (True, s')"
proof -
  have lists: "before 16 (span hole0) [100, 300] = [100]" "behind 16 (span hole0) [100, 300] = [300]"
    using hole0(2,3) by (simp_all add: before_def behind_def)
  have fits: "fits 16 24 (span hole0) [100] [300]" "whole True (map (span hole0) [100]) (16, 24) (map (span hole0) [300])"
    using hole0(2,3) by (simp_all add: fits_def whole_def)
  from frag_queue_step [OF hole0(1), of 200 "\<lambda>_ _. None", unfolded hole0(4,5), unfolded hole0_fields lists] fits hole0(3)
  show ?thesis by auto
qed

text \<open>The fragment \<open>[0, 8)\<close> is queued, the last fragment \<open>[8, 16)\<close> arrives.\<close>

definition last0 :: "addr \<Rightarrow> memp_state \<Rightarrow> ip_state" where
  "last0 r m = reass0 r (frags0 m (hdr0 0x2000 @ [1, 2, 3, 4, 5, 6, 7, 8]) (hdr0 1 @ [9, 10, 11, 12, 13, 14, 15, 16]))
     \<lparr>rd_next = 0, rd_p = 100, rd_iphdr = hdr0 0x2000, rd_datagram_len = 0, rd_flags = 0, rd_timer = 3\<rparr>
     (\<lambda>_. \<lparr>rh_next_pbuf = 0, rh_start = 0, rh_end = 8\<rparr>)"

theorem reass_last_fragment_witness:
  "\<exists>s p s'. ip_reass (\<lambda>_ _. None) (\<lambda>_ _ _ s. Some (ERR_OK, s)) 200 s = Some (p, s')
    \<and> data (ibufs s') [100, 200] = ip_header 0 36 5 0 64 17 0x0900a8c0 0x0100a8c0 @ [1, 2, 3, 4, 5, 6, 7, 8, 9, 10, 11, 12, 13, 14, 15, 16]"
proof -
  obtain m r where m: "memp_inv sizes0 4 m" "r \<in> memp_live sizes0 4 MEMP_REASSDATA m" "r \<noteq> NULL"
    using pool_taken [of MEMP_REASSDATA] by (auto simp: memp_num_def)
  define s where "s = last0 r m"
  let ?d = "[1, 2, 3, 4, 5, 6, 7, 8, 9, 10, 11, 12, 13, 14, 15, 16] :: u8_t list" and ?ct = "\<lambda>_ :: addr. [] :: addr list"
  let ?b = "frags0 m (hdr0 0x2000 @ [1, 2, 3, 4, 5, 6, 7, 8]) (hdr0 1 @ [9, 10, 11, 12, 13, 14, 15, 16])"
  have b: "ibufs s = ?b" by (simp add: s_def last0_def reass0_simps)
  have f: "reassdatagrams s = r" "rd_next (reassdata s x) = 0" "rd_p (reassdata s x) = 100" "rd_iphdr (reassdata s x) = hdr0 0x2000"
      "ip_reass_pbufcount s = 0" "helpers s x = \<lparr>rh_next_pbuf = 0, rh_start = 0, rh_end = 8\<rparr>" for x
    by (simp_all add: s_def last0_def reass0_simps)
  have sp: "span s = (\<lambda>_. (0, 8))" by (rule ext) (simp add: span_def f)
  have hl: "length (hdr0 off) = 20" for off by (simp add: hdr0_def)
  have dat: "frag_data ?ct ?b 100 = [1, 2, 3, 4, 5, 6, 7, 8]" "frag_data ?ct ?b 200 = [9, 10, 11, 12, 13, 14, 15, 16]"
    unfolding frag_data_def by (subst frags0_data; simp add: hl)+
  have mem: "mem_bytes (bytes ?b) (payload ?b 200) 20 = ip_hdr_bytes 0 28 5 1 64 17 0 0x0900a8c0 0x0100a8c0"
  proof -
    have "data ?b [200] = hdr0 1 @ [9, 10, 11, 12, 13, 14, 15, 16]" by (rule frags0_data) (simp add: hl)
    from arg_cong [OF this, of "take 20"] show ?thesis by (simp add: pdata_def hl reass0_simps) (simp add: hdr0_def)
  qed
  have parts: "parts_of ?d ?ct s r [100]"
    unfolding parts_of_def b by (simp add: frag_queue_def b f sp reass0_simps frags0_fragment dat part_def)
  have lists: "before 8 (\<lambda>_. (0, 8)) [100] = [100 :: addr]" "behind 8 (\<lambda>_. (0, 8)) [100] = ([] :: addr list)"
    by (simp_all add: before_def behind_def)
  have clen: "pbuf_clen 200 ?b = Some 1"
    by (simp add: pbuf_clen_def pbuf_clen_loop.simps reass0_simps to_u8_def)
  have hdr: "rd_iphdr (reassdata s r) = ip_hdr_bytes 0 28 5 0x2000 64 17 0 0x0900a8c0 0x0100a8c0" by (simp add: f hdr0_def)
  have pool: "memp_inv sizes0 4 (pools ?b)" "r \<in> memp_live sizes0 4 MEMP_REASSDATA (pools ?b)" using m by (simp_all add: reass0_simps)
  have ap: "headers_apart ?ct ?b [200, 100]" by (simp add: headers_apart_def payload_apart_def apart_def reass0_simps)
  have "\<exists>s'. ip_reass (\<lambda>_ _. None) (\<lambda>_ _ _ s. Some (ERR_OK, s)) 200 s = Some (hd ([100] @ [200]), s')
      \<and> packet (ibufs s') (hd ([100] @ [200])) (pbufs_of ?ct ([100] @ 200 # []))
      \<and> data (ibufs s') (pbufs_of ?ct ([100] @ 200 # [])) = ip_header 0 (of_nat (length ?d + 20)) 5 0 64 17 0x0900a8c0 0x0100a8c0 @ ?d"
    using reass_last_fragment [where s = s and p = 200 and ipr = r and qs = "[100]" and ct = ?ct and d = ?d and n = 28 and off = 1
        and off' = "0x2000" and ds = "[]" and es = "[]" and clen = 1 and cf = "\<lambda>_ _. None" and out = "\<lambda>_ _ _ s. Some (ERR_OK, s)",
        unfolded b sp, OF parts _ _ ap frags0_fragment _ _ _ mem _ _ _ _ _ _ hdr pool]
    by (auto simp: dat lists part_def f m(3) clen reass0_simps)
  then show ?thesis by auto
qed

end
