(* ===== verification/Pbuf_Alloc.thy ===== *)
theory Pbuf_Alloc
  imports Pbuf_Refs
begin

text \<open>
  Allocation of a pbuf from the heap, as its callers see it: the reference counts stay exact, nothing else
  changes, and the new pbuf is not one of those in use. The pools and the heap are separate arrays.
\<close>

section \<open>Heap and pools\<close>

definition stores_apart :: "(memp_t \<Rightarrow> nat) \<Rightarrow> addr \<Rightarrow> pbuf_state \<Rightarrow> bool" where
  "stores_apart sizes a s \<longleftrightarrow> (\<forall>t\<in>{MEMP_PBUF, MEMP_PBUF_POOL}. \<forall>x\<in>set (pool_elems sizes a t).
     x < ram (heap s) \<or> ram (heap s) + MEM_SIZE_ALIGNED \<le> x)"

lemma mem_malloc_place:
  assumes "mem_inv s" "mem_malloc k s = Some (p, s')" "p \<noteq> NULL"
  shows "p mod MEM_ALIGNMENT = 0" "ram s \<le> p" "p < ram s + MEM_SIZE_ALIGNED"
proof -
  obtain bl where inv: "heap_inv s bl" using assms(1) by (auto simp: mem_inv_def)
  from inv assms(2,3) obtain b bl' where b: "alloc_spec (norm_size k) bl = Some (b, bl')" "p = ram s + b + 8"
    by (rule mem_malloc_nonnull)
  obtain xs e ys where "bl = xs @ (b, e, False) # ys" using alloc_spec_Some [OF b(1)] by blast
  then have e: "(b, e, False) \<in> set bl" by simp
  have r: "rep (mems s) 0 bl 16000" "ram s mod 4 = 0" using inv by (auto simp: heap_inv_def)
  have "b + 20 \<le> e" "e \<le> 16000" "b mod 4 = 0" using rep_bounds [OF r(1) e] by auto
  then show "p mod MEM_ALIGNMENT = 0" "ram s \<le> p" "p < ram s + MEM_SIZE_ALIGNED"
    using r(2) b(2) by presburger+
qed

lemma mem_malloc_ram:
  assumes "mem_inv s" "mem_malloc k s = Some (p, s')"
  shows "ram s' = ram s"
proof -
  obtain bl where inv: "heap_inv s bl" using assms(1) by (auto simp: mem_inv_def)
  show ?thesis
  proof (cases "p = NULL")
    case False
    from inv assms(2) this show ?thesis by (rule mem_malloc_nonnull)
  next
    case True
    show ?thesis
    proof (cases "k = 0 \<or> alloc_spec (norm_size k) bl = None")
      case True
      then show ?thesis using mem_malloc_None [OF inv, of k] assms(2) by (auto simp: mem_malloc_def)
    next
      case False
      then obtain b bl' where "alloc_spec (norm_size k) bl = Some (b, bl')" "0 < k" by auto
      then show ?thesis using mem_malloc_Some [OF inv, of k b bl'] assms(2) by auto
    qed
  qed
qed

text \<open>A pbuf in use is never at an address of the heap that is free.\<close>

lemma fresh_not_counted:
  assumes "counted sizes a L s R" "stores_apart sizes a s" "p \<notin> mem_live (heap s)"
    and "ram (heap s) \<le> p" "p < ram (heap s) + MEM_SIZE_ALIGNED"
  shows "p \<notin> L"
proof
  assume "p \<in> L"
  then have "owned sizes a s p" using countedD(1) [OF assms(1)] by blast
  then have "\<exists>t\<in>{MEMP_PBUF, MEMP_PBUF_POOL}. p \<in> set (pool_elems sizes a t)"
    using assms(3) by (auto simp: owned_def key_def live_def memp_live_def)
  then show False using assms(2,4,5) unfolding stores_apart_def by fastforce
qed

section \<open>pbuf\_alloc with PBUF\_RAM\<close>

definition ram_pbuf :: "addr \<Rightarrow> pbuf_layer \<Rightarrow> nat \<Rightarrow> pbuf" where
  "ram_pbuf p layer n = \<lparr>pb_next = NULL, pb_payload = LWIP_MEM_ALIGN_SIZE (p + SIZEOF_STRUCT_PBUF + layer_offset layer),
     pb_tot_len = n, pb_len = n, pb_type = PBUF_RAM, pb_flags = 0, pb_ref = 1\<rparr>"

lemma counted_insert:
  assumes c: "counted sizes a L s R" and p: "p \<notin> L" "p \<noteq> NULL"
    and s': "pbuf_inv sizes a s'" "live sizes a s \<subseteq> live sizes a s'" "\<forall>x\<in>L. pbufs s' x = pbufs s x"
      "owned sizes a s' p" "nxt s' p = NULL" "ref s' p = 1"
  shows "counted sizes a (insert p L) s' (add_mset p R)"
proof -
  have fin: "finite L" "NULL \<notin> L" "set_mset R \<subseteq> L" using c by (auto simp: counted_def)
  have "nxt s' y \<noteq> p" if "y \<in> L" for y using that p s'(3) countedD(2) [OF c that] by auto
  then have at_p: "{y \<in> insert p L. nxt s' y = p} = {}" using p s'(5) by auto
  have at: "{y \<in> insert p L. nxt s' y = x} = {y \<in> L. nxt s y = x}" if "x \<in> L" for x
    using that s'(3,5) fin(2) by auto
  have "count R p = 0" using p(1) fin(3) by (auto simp: count_eq_zero_iff)
  then have head: "ref s' p = count (add_mset p R) p + card {y \<in> insert p L. nxt s' y = p}"
    using s'(6) unfolding at_p by simp
  have rest: "owned sizes a s' x" "nxt s' x \<in> insert NULL (insert p L)" "ref s' x < 65536"
      "ref s' x = count (add_mset p R) x + card {y \<in> insert p L. nxt s' y = x}" if x: "x \<in> L" for x
  proof -
    have "x \<noteq> p" using x p(1) by blast
    then show "owned sizes a s' x" "nxt s' x \<in> insert NULL (insert p L)" "ref s' x < 65536"
        "ref s' x = count (add_mset p R) x + card {y \<in> insert p L. nxt s' y = x}"
      using countedD [OF c x] s'(2,3) x unfolding at [OF x] by (auto simp: owned_def key_def)
  qed
  show ?thesis
    unfolding counted_def
  proof (intro conjI ballI)
    fix x assume "x \<in> insert p L"
    then consider "x = p" | "x \<in> L" by blast
    then show "owned sizes a s' x" "nxt s' x \<in> insert NULL (insert p L)" "ref s' x < 65536"
        "ref s' x = count (add_mset p R) x + card {y \<in> insert p L. nxt s' y = x}"
      using rest head s'(4-6) by (cases; simp)+
  qed (use fin p s'(1) in auto)
qed

lemma pbuf_alloc_ram:
  assumes refs: "refs_ok sizes a s R" and apart: "stores_apart sizes a s"
  obtains (none) h where "pbuf_alloc cf layer n PBUF_RAM s = Some (NULL, s\<lparr>heap := h\<rparr>)"
      "refs_ok sizes a (s\<lparr>heap := h\<rparr>) R" "ram h = ram (heap s)"
  | (some) p h where "pbuf_alloc cf layer n PBUF_RAM s = Some (p, s\<lparr>heap := h, pbufs := (pbufs s)(p := ram_pbuf p layer n)\<rparr>)"
      "refs_ok sizes a (s\<lparr>heap := h, pbufs := (pbufs s)(p := ram_pbuf p layer n)\<rparr>) (add_mset p R)"
      "p \<noteq> NULL" "\<forall>L. counted sizes a L s R \<longrightarrow> p \<notin> L" "p mod MEM_ALIGNMENT = 0" "ram h = ram (heap s)"
proof -
  define k where "k = to_u16 (LWIP_MEM_ALIGN_SIZE (SIZEOF_STRUCT_PBUF + layer_offset layer) + LWIP_MEM_ALIGN_SIZE n)"
  obtain L where L: "counted sizes a L s R" using refs by (auto simp: refs_ok_def)
  have inv: "mem_inv (heap s)" "memp_inv sizes a (pools s)" using L by (auto simp: counted_def pbuf_inv_def)
  obtain p h where m: "mem_malloc k (heap s) = Some (p, h)" "mem_inv h"
      "p = NULL \<and> mem_live h = mem_live (heap s)
        \<or> p \<noteq> NULL \<and> p \<notin> mem_live (heap s) \<and> mem_live h = insert p (mem_live (heap s))"
    using heap.malloc_law [OF inv(1), of k] by blast
  have rm: "ram h = ram (heap s)" using mem_malloc_ram [OF inv(1) m(1)] .
  show thesis
  proof (cases "p = NULL")
    case True
    then have lv: "live sizes a (s\<lparr>heap := h\<rparr>) = live sizes a s" using m(3) by (simp add: live_def)
    have "owned sizes a (s\<lparr>heap := h\<rparr>) x = owned sizes a s x" for x by (simp add: owned_def key_def lv)
    then have "counted sizes a L (s\<lparr>heap := h\<rparr>) R"
      using L m(2) by (auto simp: counted_def pbuf_inv_def)
    then have "refs_ok sizes a (s\<lparr>heap := h\<rparr>) R" by (auto simp: refs_ok_def)
    then show thesis using none rm m(1) True unfolding pbuf_alloc_def Let_def k_def by simp
  next
    case False
    define s' where "s' = s\<lparr>heap := h, pbufs := (pbufs s)(p := ram_pbuf p layer n)\<rparr>"
    have place: "p mod 4 = 0" "ram (heap s) \<le> p" "p < ram (heap s) + 16000"
      using mem_malloc_place [OF inv(1) m(1) False] by auto
    have fresh: "p \<notin> L'" if "counted sizes a L' s R" for L'
      using fresh_not_counted [OF that apart] m(3) False place by simp
    have lv: "live sizes a s' = insert (Heap, p) (live sizes a s)"
      using m(3) False by (auto simp: live_def s'_def)
    have "counted sizes a (insert p L) s' (add_mset p R)"
    proof (rule counted_insert [OF L fresh [OF L] False])
      show "pbuf_inv sizes a s'" using inv m(2) by (simp add: s'_def pbuf_inv_def)
      show "\<forall>x\<in>L. pbufs s' x = pbufs s x" using fresh [OF L] by (auto simp: s'_def)
      show "owned sizes a s' p" by (simp add: owned_def key_def lv) (simp add: s'_def ram_pbuf_def store_of_def)
      show "live sizes a s \<subseteq> live sizes a s'" unfolding lv by blast
    qed (simp_all add: s'_def ram_pbuf_def)
    then have ok: "refs_ok sizes a s' (add_mset p R)" by (auto simp: refs_ok_def)
    have "LWIP_MEM_ALIGN_SIZE x mod 4 = 0" for x by (simp add: LWIP_MEM_ALIGN_SIZE_def)
    moreover have "x\<lparr>pb_payload := LWIP_MEM_ALIGN_SIZE (p + 24 + layer_offset layer), pb_tot_len := n, pb_len := n,
        pb_next := 0, pb_type := PBUF_RAM, pb_ref := Suc 0, pb_flags := 0\<rparr> = ram_pbuf p layer n" for x
      by (rule pbuf.equality) (simp_all add: ram_pbuf_def)
    ultimately have "pbuf_alloc cf layer n PBUF_RAM s = Some (p, s')"
      using m(1) False unfolding pbuf_alloc_def Let_def k_def by (simp add: upd_def s'_def)
    then show thesis using some [of p h] ok False fresh place(1) rm unfolding s'_def by blast
  qed
qed

lemma ram_pbuf_simps [simp]:
  "pb_next (ram_pbuf p layer n) = NULL" "pb_tot_len (ram_pbuf p layer n) = n" "pb_len (ram_pbuf p layer n) = n"
  "pb_type (ram_pbuf p layer n) = PBUF_RAM" "pb_flags (ram_pbuf p layer n) = 0" "pb_ref (ram_pbuf p layer n) = 1"
  by (simp_all add: ram_pbuf_def)

lemma ram_pbuf_payload: "p mod MEM_ALIGNMENT = 0 \<Longrightarrow>
  pb_payload (ram_pbuf p layer n) = p + SIZEOF_STRUCT_PBUF + LWIP_MEM_ALIGN_SIZE (layer_offset layer)"
  using layer_offset_aligned(1) [of p layer] by (simp add: ram_pbuf_def add.assoc)

text \<open>A state for the witnesses: all pools full, the heap empty and behind them.\<close>

definition heap1 :: mem_state where
  "heap1 = mem_init 20000 \<lparr>ram = 0, mems = (\<lambda>_. \<lparr>m_next = 0, m_prev = 0, m_used = False\<rparr>), lfree = 0,
     mem_stats = \<lparr>st_avail = 0, st_used = 0, st_max = 0, st_err = 0, st_illegal = 0\<rparr>\<rparr>"

definition ex1 :: pbuf_state where
  "ex1 = ex0\<lparr>heap := heap1\<rparr>"

lemma heap1_inv: "heap_inv heap1 [(0, 16000, False)]"
  unfolding heap1_def by (rule mem_init_inv) simp_all

lemma ex1_refs: "refs_ok sizes0 4 ex1 {#}"
proof -
  have "pbuf_inv sizes0 4 ex1" using heap1_inv pools0_inv by (auto simp: ex1_def ex0_def pbuf_inv_def mem_inv_def)
  then have "counted sizes0 4 {} ex1 {#}" by (simp add: counted_def)
  then show ?thesis by (auto simp: refs_ok_def)
qed

lemma ex1_apart: "stores_apart sizes0 4 ex1"
proof -
  have "ram (heap ex1) = 20000" by (simp add: ex1_def heap1_def mem_init_def Let_def LWIP_MEM_ALIGN_SIZE_def set_field_defs)
  moreover have "x < 20000" if "t \<in> {8, 9}" "x \<in> set (pool_elems sizes0 4 t)" for t x
  proof -
    have "pool_base sizes0 4 9 \<le> 20000" "pool_base sizes0 4 10 \<le> 20000"
      by (simp_all add: pool_base_def memp_num_def sizes0_def lessThan_nat_numeral lessThan_Suc)
    then show ?thesis using that pool_elems_bounds [OF that(2)] by (auto simp: sizes0_def)
  qed
  ultimately show ?thesis by (auto simp: stores_apart_def)
qed

end
