(* ===== verification/Etharp_Request.thy ===== *)
theory Etharp_Request
  imports Etharp_Props Pbuf_Alloc
begin

unbundle bit_operations_syntax

text \<open>
  Sending ARP requests: \<^verbatim>\<open>etharp_raw\<close> and \<^verbatim>\<open>etharp_request\<close> of \<^verbatim>\<open>netif/etharp.c\<close> return, either without memory
  for the packet or after handing the driver one frame, and give the memory back.
\<close>

section \<open>The frame\<close>

definition arp_frame :: "u8_t list \<Rightarrow> u8_t list \<Rightarrow> u16_t \<Rightarrow> u8_t list \<Rightarrow> u32_t \<Rightarrow> u8_t list \<Rightarrow> u32_t \<Rightarrow> u8_t list" where
  "arp_frame dst src opcode sha spa tha tpa =
     dst @ src @ [0x08, 0x06] @ [0, 1] @ [0x08, 0x00] @ [6, 4] @ bytes_of_u16 (lwip_htons opcode)
     @ sha @ bytes_of_u32 spa @ tha @ bytes_of_u32 tpa"

lemma raw_stores:
  assumes "length dst = 6" "length src = 6" "length sha = 6" "length tha = 6" "length spa = 4" "length tpa = 4" "length opb = 2"
    and b: "b' = put_bytes (e + 12) [0x08, 0x06] (put_bytes (e + 14 + 5) [4] (put_bytes (e + 14 + 4) [6]
      (put_bytes (e + 14 + 2) [0x08, 0x00] (put_bytes (e + 14) [0, 1] (put_bytes (e + 14 + 24) tpa (put_bytes (e + 14 + 14) spa
      (put_bytes (e + 6) src (put_bytes e dst (put_bytes (e + 14 + 18) tha (put_bytes (e + 14 + 8) sha (put_bytes (e + 14 + 6) opb b)))))))))))"
  shows "mem_bytes b' e 42 = dst @ src @ [0x08, 0x06] @ [0, 1] @ [0x08, 0x00] @ [6, 4] @ opb @ sha @ spa @ tha @ tpa"
proof -
  have n: "(42::nat) = 6 + (6 + (2 + (2 + (2 + (1 + (1 + (2 + (6 + (4 + (6 + 4))))))))))" by simp
  have pos: "e + 6 + 6 = e + 12" "e + 12 + 2 = e + 14" "e + 14 + 2 = e + 16" "e + 16 + 2 = e + 18" "e + 18 + 1 = e + 19"
    "e + 19 + 1 = e + 20" "e + 20 + 2 = e + 22" "e + 22 + 6 = e + 28" "e + 28 + 4 = e + 32" "e + 32 + 6 = e + 38"
    "e + 14 + 5 = e + 19" "e + 14 + 4 = e + 18" "e + 14 + 24 = e + 38" "e + 14 + 14 = e + 28" "e + 14 + 18 = e + 32"
    "e + 14 + 8 = e + 22" "e + 14 + 6 = e + 20" by simp_all
  have "mem_bytes b' e 42 = mem_bytes b' e 6 @ mem_bytes b' (e + 6) 6 @ mem_bytes b' (e + 12) 2 @ mem_bytes b' (e + 14) 2
    @ mem_bytes b' (e + 16) 2 @ mem_bytes b' (e + 18) 1 @ mem_bytes b' (e + 19) 1 @ mem_bytes b' (e + 20) 2 @ mem_bytes b' (e + 22) 6
    @ mem_bytes b' (e + 28) 4 @ mem_bytes b' (e + 32) 6 @ mem_bytes b' (e + 38) 4"
    unfolding n by (simp only: mem_bytes_append pos)
  moreover have "mem_bytes b' e 6 = dst" "mem_bytes b' (e + 6) 6 = src" "mem_bytes b' (e + 12) 2 = [0x08, 0x06]"
    "mem_bytes b' (e + 14) 2 = [0, 1]" "mem_bytes b' (e + 16) 2 = [0x08, 0x00]" "mem_bytes b' (e + 18) 1 = [6]"
    "mem_bytes b' (e + 19) 1 = [4]" "mem_bytes b' (e + 20) 2 = opb" "mem_bytes b' (e + 22) 6 = sha"
    "mem_bytes b' (e + 28) 4 = spa" "mem_bytes b' (e + 32) 6 = tha" "mem_bytes b' (e + 38) 4 = tpa"
    unfolding b pos by (simp_all add: put_bytes_outside put_bytes_exact assms)
  ultimately show ?thesis by (simp only:) simp
qed

lemma arp_constants:
  "bytes_of_u16 (lwip_htons HWTYPE_ETHERNET) = [0, 1]" "bytes_of_u16 (lwip_htons ETHTYPE_ARP) = [0x08, 0x06]"
  "length (bytes_of_u16 x) = 2"
  by (simp_all add: bytes_of_u16_def lwip_htons_def)

section \<open>Sending it\<close>

text \<open>What a call that only sends leaves alone.\<close>

definition sent_only :: "arp_state \<Rightarrow> arp_state \<Rightarrow> bool" where
  "sent_only s s' \<longleftrightarrow> table_view s' = table_view s \<and> netifs s' = netifs s \<and> netif_list s' = netif_list s
     \<and> netif_default s' = netif_default s"

lemma netif_list_simps [simp]:
  "netif_list (poke x xs s) = netif_list s" "netif_default (poke x xs s) = netif_default s"
  "netif_list (ETHARP_STATS_INC f s) = netif_list s" "netif_default (ETHARP_STATS_INC f s) = netif_default s"
  by (simp_all add: poke_def ETHARP_STATS_INC_def)

lemma etharp_raw_sends:
  assumes refs: "arp_refs sizes a s R" and apart: "stores_apart sizes a (bufs s)" and netif: "netif \<noteq> NULL"
    and hw: "nif_hwaddr_len (netifs s netif) = 6"
    and lens: "length ethsrc = 6" "length ethdst = 6" "length hwsrc = 6" "length hwdst = 6"
  shows "\<exists>p b r s'. pbuf_alloc cf PBUF_RAW SIZEOF_ETHARP_PACKET PBUF_RAM (bufs s) = Some (p, b)
    \<and> etharp_raw cf lo netif ethsrc ethdst hwsrc ipsrc hwdst ipdst opcode s = Some (r, s')
    \<and> arp_refs sizes a s' R \<and> sent_only s s' \<and> (p = NULL \<longrightarrow> r = ERR_MEM)
    \<and> frames s' = frames s @ (if p = NULL then [] else [(netif, p, arp_frame ethdst ethsrc opcode hwsrc ipsrc hwdst ipdst)])"
proof -
  have refs': "refs_ok sizes a (bufs s) (queues (arp_table s) + R)" using refs by (simp add: arp_refs_def)
  from refs' apart show ?thesis
  proof (cases rule: pbuf_alloc_ram [where cf = cf and layer = PBUF_RAW and n = 42])
    case (none h)
    then have "etharp_raw cf lo netif ethsrc ethdst hwsrc ipsrc hwdst ipdst opcode s
        = Some (ERR_MEM, ETHARP_STATS_INC sp_memerr_update (s\<lparr>bufs := (bufs s)\<lparr>heap := h\<rparr>\<rparr>))"
      using netif by (simp add: etharp_raw_def)
    then show ?thesis
      using none by (intro exI [of _ NULL] exI [of _ "(bufs s)\<lparr>heap := h\<rparr>"]) (simp add: arp_refs_def sent_only_def)
  next
    case (some p h)
    define s0 where "s0 = s\<lparr>bufs := (bufs s)\<lparr>heap := h, pbufs := (pbufs (bufs s))(p := ram_pbuf p PBUF_RAW 42)\<rparr>\<rparr>"
    define e where "e = payload (bufs s0) p"
    define s1 where "s1 = poke (e + 12) [0x08, 0x06] (poke (e + 14 + 5) [4] (poke (e + 14 + 4) [6]
      (poke (e + 14 + 2) [0x08, 0x00] (poke (e + 14) [0, 1] (poke (e + 14 + 24) (bytes_of_u32 ipdst)
      (poke (e + 14 + 14) (bytes_of_u32 ipsrc) (poke (e + 6) ethsrc (poke e ethdst (poke (e + 14 + 18) hwdst
      (poke (e + 14 + 8) hwsrc (poke (e + 14 + 6) (bytes_of_u16 (lwip_htons opcode)) s0)))))))))))"
    define s2 where "s2 = ETHARP_STATS_INC sp_xmit_update (s1\<lparr>frames := frames s @ [(netif, p, pdata (bufs s1) p)]\<rparr>)"
    have s0: "payload (bufs s0) p = e" "len (bufs s0) p = 42" by (simp_all add: s0_def e_def)
    have raw: "etharp_raw cf lo netif ethsrc ethdst hwsrc ipsrc hwdst ipdst opcode s
        = map_option (Pair (lo netif p (bufs s1))) (free_pbuf cf p s2)"
      using netif some(1,3) hw unfolding etharp_raw_def Let_def
      by (simp add: s0_def [symmetric] s0) (simp add: s0_def linkoutput_def arp_constants ethtype_ip_bytes
          s2_def s1_def split_def map_option_case split: option.splits)
    have "pdata (bufs s1) p = arp_frame ethdst ethsrc opcode hwsrc ipsrc hwdst ipdst"
      using raw_stores [OF lens(2,1,3,4) _ _ _ refl, of "bytes_of_u32 ipsrc" "bytes_of_u32 ipdst" "bytes_of_u16 (lwip_htons opcode)" e "bytes (bufs s0)"]
      by (simp add: pdata_def s1_def s0 arp_constants arp_frame_def)
    moreover have "arp_refs sizes a s2 (add_mset p R)"
      using some(2) unfolding arp_refs_def s2_def s1_def s0_def by (simp, simp add: poke_def)
    from free_pbuf_total [OF this, of cf] obtain b where
      b: "free_pbuf cf p s2 = Some (s2\<lparr>bufs := b\<rparr>)" "arp_refs sizes a (s2\<lparr>bufs := b\<rparr>) R" by blast
    moreover have "sent_only s (s2\<lparr>bufs := b\<rparr>)" by (simp add: sent_only_def s2_def s1_def s0_def)
    moreover have "frames (s2\<lparr>bufs := b\<rparr>) = frames s @ [(netif, p, pdata (bufs s1) p)]" by (simp add: s2_def)
    ultimately show ?thesis
      using raw some(1,3) by (intro exI [of _ p] exI exI [of _ "lo netif p (bufs s1)"] exI [of _ "s2\<lparr>bufs := b\<rparr>"]) simp
  qed
qed

end
