(* ===== verification/Netif.thy ===== *)
theory Netif
  imports Etharp_Request
begin

unbundle bit_operations_syntax

text \<open>
  The list of network interfaces: \<^verbatim>\<open>core/netif.c\<close> with the options of the build (no SNMP, IGMP, DHCP,
  AUTOIP, loopback or callbacks, whose hooks are empty there). The interfaces themselves are in the state
  that the ARP layer shares; this theory adds the number of the next interface and the part of the TCP
  control blocks that \<^verbatim>\<open>netif_set_ipaddr\<close> reads: the lists of active and listening blocks and the local
  address of each.

  \<open>abort\<close> stands for \<^verbatim>\<open>tcp_abort\<close>, which is an empty stub in \<^verbatim>\<open>cwrap/lwip_stubs.c\<close>, and \<open>init\<close> for the
  function a driver passes to \<^verbatim>\<open>netif_add\<close>. An address argument is \<open>None\<close> when the pointer is null.
  A null interface that is followed is \<open>None\<close>, as is a failed assertion.
\<close>

section \<open>Data\<close>

record netif_state =
  arp :: arp_state
  netif_num :: nat
  tcp_active_pcbs :: addr
  tcp_listen_pcbs :: addr
  pcb_next :: "addr \<Rightarrow> addr"
  pcb_local_ip :: "addr \<Rightarrow> u32_t"

type_synonym abort_fn = "addr \<Rightarrow> netif_state \<Rightarrow> netif_state option"
type_synonym netif_init_fn = "addr \<Rightarrow> netif_state \<Rightarrow> (err_t \<times> netif_state) option"

abbreviation nif :: "netif_state \<Rightarrow> addr \<Rightarrow> struct_netif" where "nif s n \<equiv> netifs (arp s) n"

definition set_nif :: "addr \<Rightarrow> (struct_netif \<Rightarrow> struct_netif) \<Rightarrow> netif_state \<Rightarrow> netif_state" where
  "set_nif n f s = s\<lparr>arp := (arp s)\<lparr>netifs := (netifs (arp s))(n := f (nif s n))\<rparr>\<rparr>"

text \<open>The macro \<^verbatim>\<open>ip_addr_set\<close> stores 0 for a null source.\<close>

definition ip_addr_set :: "u32_t option \<Rightarrow> u32_t" where
  "ip_addr_set src = (case src of None \<Rightarrow> 0 | Some a \<Rightarrow> a)"

section \<open>Addresses\<close>

text \<open>The two loops of \<^verbatim>\<open>netif_set_ipaddr\<close>: connections of the old address are aborted, listeners move to the new one.\<close>

partial_function (option) abort_pcbs :: "abort_fn \<Rightarrow> addr \<Rightarrow> addr \<Rightarrow> netif_state \<Rightarrow> netif_state option" where
  "abort_pcbs abort netif pcb s =
     (if pcb = NULL then Some s
      else if pcb_local_ip s pcb = nif_ip_addr (nif s netif)
      then let nx = pcb_next s pcb
           in case abort pcb s of None \<Rightarrow> None | Some s \<Rightarrow> abort_pcbs abort netif nx s
      else abort_pcbs abort netif (pcb_next s pcb) s)"

partial_function (option) move_listeners :: "addr \<Rightarrow> u32_t \<Rightarrow> addr \<Rightarrow> netif_state \<Rightarrow> netif_state option" where
  "move_listeners netif ip lpcb s =
     (if lpcb = NULL then Some s
      else
        let s = (if pcb_local_ip s lpcb \<noteq> 0 \<and> pcb_local_ip s lpcb = nif_ip_addr (nif s netif)
                 then s\<lparr>pcb_local_ip := (pcb_local_ip s)(lpcb := ip)\<rparr> else s)
        in move_listeners netif ip (pcb_next s lpcb) s)"

definition netif_set_ipaddr :: "abort_fn \<Rightarrow> addr \<Rightarrow> u32_t option \<Rightarrow> netif_state \<Rightarrow> netif_state option" where
  "netif_set_ipaddr abort netif ipaddr s =
     (if netif = NULL then None
      else do {
        s \<leftarrow> (case ipaddr of
               None \<Rightarrow> Some s
             | Some ip \<Rightarrow>
                 if ip \<noteq> nif_ip_addr (nif s netif)
                 then do {
                   s \<leftarrow> abort_pcbs abort netif (tcp_active_pcbs s) s;
                   move_listeners netif ip (tcp_listen_pcbs s) s
                 }
                 else Some s);
        Some (set_nif netif (\<lambda>x. x\<lparr>nif_ip_addr := ip_addr_set ipaddr\<rparr>) s)
      })"

definition netif_set_gw :: "addr \<Rightarrow> u32_t option \<Rightarrow> netif_state \<Rightarrow> netif_state option" where
  "netif_set_gw netif gw s =
     (if netif = NULL then None else Some (set_nif netif (\<lambda>x. x\<lparr>nif_gw := ip_addr_set gw\<rparr>) s))"

definition netif_set_netmask :: "addr \<Rightarrow> u32_t option \<Rightarrow> netif_state \<Rightarrow> netif_state option" where
  "netif_set_netmask netif netmask s =
     (if netif = NULL then None else Some (set_nif netif (\<lambda>x. x\<lparr>nif_netmask := ip_addr_set netmask\<rparr>) s))"

definition netif_set_addr ::
  "abort_fn \<Rightarrow> addr \<Rightarrow> u32_t option \<Rightarrow> u32_t option \<Rightarrow> u32_t option \<Rightarrow> netif_state \<Rightarrow> netif_state option" where
  "netif_set_addr abort netif ipaddr netmask gw s = do {
     s \<leftarrow> netif_set_ipaddr abort netif ipaddr s;
     s \<leftarrow> netif_set_netmask netif netmask s;
     netif_set_gw netif gw s
   }"

section \<open>Up and down\<close>

definition etharp_gratuitous :: "custom_free \<Rightarrow> linkoutput_fn \<Rightarrow> addr \<Rightarrow> netif_state \<Rightarrow> netif_state option" where
  "etharp_gratuitous cf lo netif s =
     map_option (\<lambda>(_, t). s\<lparr>arp := t\<rparr>) (etharp_request cf lo netif (nif_ip_addr (nif s netif)) (arp s))"

definition netif_set_up :: "custom_free \<Rightarrow> linkoutput_fn \<Rightarrow> addr \<Rightarrow> netif_state \<Rightarrow> netif_state option" where
  "netif_set_up cf lo netif s =
     (if netif = NULL then None
      else if nif_flags (nif s netif) AND NETIF_FLAG_UP \<noteq> 0 then Some s
      else
        let s = set_nif netif (\<lambda>x. x\<lparr>nif_flags := nif_flags x OR NETIF_FLAG_UP\<rparr>) s
        in if nif_flags (nif s netif) AND NETIF_FLAG_LINK_UP \<noteq> 0 \<and> nif_flags (nif s netif) AND NETIF_FLAG_ETHARP \<noteq> 0
           then etharp_gratuitous cf lo netif s
           else Some s)"

definition netif_set_down :: "custom_free \<Rightarrow> addr \<Rightarrow> netif_state \<Rightarrow> netif_state option" where
  "netif_set_down cf netif s =
     (if netif = NULL then None
      else if nif_flags (nif s netif) AND NETIF_FLAG_UP = 0 then Some s
      else
        let s = set_nif netif (\<lambda>x. x\<lparr>nif_flags := nif_flags x AND NOT NETIF_FLAG_UP\<rparr>) s
        in if nif_flags (nif s netif) AND NETIF_FLAG_ETHARP \<noteq> 0
           then map_option (\<lambda>t. s\<lparr>arp := t\<rparr>) (etharp_cleanup_netif cf netif (arp s))
           else Some s)"

definition netif_set_link_up :: "custom_free \<Rightarrow> linkoutput_fn \<Rightarrow> addr \<Rightarrow> netif_state \<Rightarrow> netif_state option" where
  "netif_set_link_up cf lo netif s =
     (if netif = NULL then None
      else if nif_flags (nif s netif) AND NETIF_FLAG_LINK_UP \<noteq> 0 then Some s
      else
        let s = set_nif netif (\<lambda>x. x\<lparr>nif_flags := nif_flags x OR NETIF_FLAG_LINK_UP\<rparr>) s
        in if nif_flags (nif s netif) AND NETIF_FLAG_UP \<noteq> 0 \<and> nif_flags (nif s netif) AND NETIF_FLAG_ETHARP \<noteq> 0
           then etharp_gratuitous cf lo netif s
           else Some s)"

definition netif_set_link_down :: "addr \<Rightarrow> netif_state \<Rightarrow> netif_state option" where
  "netif_set_link_down netif s =
     (if netif = NULL then None
      else if nif_flags (nif s netif) AND NETIF_FLAG_LINK_UP = 0 then Some s
      else Some (set_nif netif (\<lambda>x. x\<lparr>nif_flags := nif_flags x AND NOT NETIF_FLAG_LINK_UP\<rparr>) s))"

section \<open>The list\<close>

definition netif_set_default :: "addr \<Rightarrow> netif_state \<Rightarrow> netif_state" where
  "netif_set_default netif s = s\<lparr>arp := (arp s)\<lparr>netif_default := netif\<rparr>\<rparr>"

text \<open>\<^verbatim>\<open>netif_add\<close> returns the interface, or null when \<open>init\<close> fails; the number is used up all the same.\<close>

definition netif_add ::
  "abort_fn \<Rightarrow> addr \<Rightarrow> u32_t option \<Rightarrow> u32_t option \<Rightarrow> u32_t option \<Rightarrow> addr \<Rightarrow> netif_init_fn option \<Rightarrow> addr \<Rightarrow>
   netif_state \<Rightarrow> (addr \<times> netif_state) option" where
  "netif_add abort netif ipaddr netmask gw state init input s =
     (case init of
        None \<Rightarrow> None
      | Some init \<Rightarrow>
          if netif = NULL then None
          else do {
            let s = set_nif netif (\<lambda>x. x\<lparr>nif_ip_addr := 0, nif_netmask := 0, nif_gw := 0, nif_flags := 0,
                                         nif_state := state, nif_num := netif_num s, nif_input := input\<rparr>) s;
            let s = s\<lparr>netif_num := to_u8 (netif_num s + 1)\<rparr>;
            s \<leftarrow> netif_set_addr abort netif ipaddr netmask gw s;
            (e, s) \<leftarrow> init netif s;
            if e \<noteq> ERR_OK then Some (NULL, s)
            else
              let s = set_nif netif (\<lambda>x. x\<lparr>nif_next := netif_list (arp s)\<rparr>) s
              in Some (netif, s\<lparr>arp := (arp s)\<lparr>netif_list := netif\<rparr>\<rparr>)
          })"

text \<open>The search of \<^verbatim>\<open>netif_remove\<close> for the predecessor; the result tells whether there is one.\<close>

partial_function (option) netif_unlink :: "addr \<Rightarrow> addr \<Rightarrow> netif_state \<Rightarrow> (bool \<times> netif_state) option" where
  "netif_unlink netif t s =
     (if t = NULL then Some (False, s)
      else if nif_next (nif s t) = netif
      then Some (True, set_nif t (\<lambda>x. x\<lparr>nif_next := nif_next (nif s netif)\<rparr>) s)
      else netif_unlink netif (nif_next (nif s t)) s)"

definition netif_remove :: "custom_free \<Rightarrow> addr \<Rightarrow> netif_state \<Rightarrow> netif_state option" where
  "netif_remove cf netif s =
     (if netif = NULL then Some s
      else do {
        s \<leftarrow> (if netif_is_up (nif s netif) then netif_set_down cf netif s else Some s);
        (found, s) \<leftarrow> (if netif_list (arp s) = netif
                        then Some (True, s\<lparr>arp := (arp s)\<lparr>netif_list := nif_next (nif s netif)\<rparr>\<rparr>)
                        else netif_unlink netif (netif_list (arp s)) s);
        Some (if found \<and> netif_default (arp s) = netif then netif_set_default NULL s else s)
      })"

text \<open>\<^verbatim>\<open>netif_find\<close>: the name is two characters and one digit, \<open>None\<close> when the pointer is null.\<close>

partial_function (option) netif_find_loop :: "u8_t \<Rightarrow> u8_t \<Rightarrow> nat \<Rightarrow> addr \<Rightarrow> netif_state \<Rightarrow> addr option" where
  "netif_find_loop c0 c1 num netif s =
     (if netif = NULL then Some NULL
      else if num = nif_num (nif s netif) \<and> nif_name (nif s netif) = (c0, c1) then Some netif
      else netif_find_loop c0 c1 num (nif_next (nif s netif)) s)"

definition netif_find :: "(u8_t \<times> u8_t \<times> u8_t) option \<Rightarrow> netif_state \<Rightarrow> addr option" where
  "netif_find name s =
     (case name of
        None \<Rightarrow> Some NULL
      | Some (c0, c1, c2) \<Rightarrow> netif_find_loop c0 c1 (unat (c2 - 0x30)) (netif_list (arp s)) s)"

end
