(* ===== verification/Netif_Props.thy ===== *)
theory Netif_Props
  imports Netif
begin

unbundle bit_operations_syntax

text \<open>
  The list of interfaces of \<^verbatim>\<open>core/netif.c\<close> refines a list of addresses: what \<^verbatim>\<open>netif_add\<close>, \<^verbatim>\<open>netif_remove\<close> and
  \<^verbatim>\<open>netif_find\<close> do to it, what \<^verbatim>\<open>ip_route\<close> chooses from it, and how an interface that goes up or away shows in
  the ARP layer.
\<close>

section \<open>Specification\<close>

definition registered :: "netif_state \<Rightarrow> addr list \<Rightarrow> bool" where
  "registered s xs \<longleftrightarrow> chain (\<lambda>n. nif_next (nif s n)) (netif_list (arp s)) xs"

text \<open>The TCP control blocks form two separate lists.\<close>

definition pcbs_ok :: "netif_state \<Rightarrow> addr list \<Rightarrow> addr list \<Rightarrow> bool" where
  "pcbs_ok s as ls \<longleftrightarrow> chain (pcb_next s) (tcp_active_pcbs s) as \<and> chain (pcb_next s) (tcp_listen_pcbs s) ls
     \<and> set as \<inter> set ls = {}"

definition same_netifs :: "netif_state \<Rightarrow> netif_state \<Rightarrow> bool" where
  "same_netifs s s' \<longleftrightarrow> netifs (arp s') = netifs (arp s) \<and> netif_list (arp s') = netif_list (arp s)
     \<and> netif_default (arp s') = netif_default (arp s) \<and> netif_num s' = netif_num s"

text \<open>
  What the code relies on of \<^verbatim>\<open>tcp_abort\<close>: it returns, and touches neither the interfaces nor a control block
  other than the one aborted and its predecessor. Of a driver's \<open>init\<close>: it returns, and fills in fields of its
  own interface, but not the addresses and the number, nor the list.
\<close>

definition abort_ok :: "abort_fn \<Rightarrow> bool" where
  "abort_ok abort \<longleftrightarrow> (\<forall>p s. p \<noteq> NULL \<longrightarrow> (\<exists>s'. abort p s = Some s' \<and> same_netifs s s' \<and> tcp_listen_pcbs s' = tcp_listen_pcbs s
     \<and> (\<forall>q. q \<noteq> p \<and> pcb_next s q \<noteq> p \<longrightarrow> pcb_next s' q = pcb_next s q \<and> pcb_local_ip s' q = pcb_local_ip s q)))"

definition init_ok :: "netif_init_fn \<Rightarrow> bool" where
  "init_ok init \<longleftrightarrow> (\<forall>n s. \<exists>e s'. init n s = Some (e, s') \<and> netif_list (arp s') = netif_list (arp s)
     \<and> netif_default (arp s') = netif_default (arp s) \<and> netif_num s' = netif_num s
     \<and> (\<forall>m. m \<noteq> n \<longrightarrow> nif s' m = nif s m)
     \<and> nif_ip_addr (nif s' n) = nif_ip_addr (nif s n) \<and> nif_netmask (nif s' n) = nif_netmask (nif s n)
     \<and> nif_gw (nif s' n) = nif_gw (nif s n) \<and> nif_num (nif s' n) = nif_num (nif s n))"

section \<open>Addresses\<close>

lemma set_nif_simps [simp]:
  "nif (set_nif n f s) m = (if m = n then f (nif s n) else nif s m)"
  "netif_list (arp (set_nif n f s)) = netif_list (arp s)" "netif_default (arp (set_nif n f s)) = netif_default (arp s)"
  "bufs (arp (set_nif n f s)) = bufs (arp s)" "arp_table (arp (set_nif n f s)) = arp_table (arp s)"
  "etharp_cached_entry (arp (set_nif n f s)) = etharp_cached_entry (arp s)" "frames (arp (set_nif n f s)) = frames (arp s)"
  "netif_num (set_nif n f s) = netif_num s" "pcb_next (set_nif n f s) = pcb_next s"
  "pcb_local_ip (set_nif n f s) = pcb_local_ip s" "tcp_active_pcbs (set_nif n f s) = tcp_active_pcbs s"
  "tcp_listen_pcbs (set_nif n f s) = tcp_listen_pcbs s"
  by (simp_all add: set_nif_def)

lemma same_netifs_refl [simp]: "same_netifs s s"
  by (simp add: same_netifs_def)

lemma same_netifs_trans: "same_netifs s s' \<Longrightarrow> same_netifs s' s'' \<Longrightarrow> same_netifs s s''"
  by (simp add: same_netifs_def)

lemma abort_pcbs_total:
  assumes "abort_ok abort" "chain (pcb_next s) p as" "set as \<inter> set ls = {}" "chain (pcb_next s) h ls"
  shows "\<exists>s'. abort_pcbs abort netif p s = Some s' \<and> same_netifs s s' \<and> tcp_listen_pcbs s' = tcp_listen_pcbs s
    \<and> chain (pcb_next s') h ls \<and> (\<forall>l\<in>set ls. pcb_local_ip s' l = pcb_local_ip s l)"
  using assms(2-4)
proof (induction as arbitrary: p s)
  case Nil
  then show ?case by (simp add: abort_pcbs.simps)
next
  case (Cons q as)
  then have p: "p = q" "q \<noteq> NULL" "chain (pcb_next s) (pcb_next s q) as" by auto
  show ?case
  proof (cases "pcb_local_ip s q = nif_ip_addr (nif s netif)")
    case False
    then show ?thesis using Cons p by (simp add: abort_pcbs.simps [of abort netif q s])
  next
    case True
    obtain s1 where s1: "abort q s = Some s1" "same_netifs s s1" "tcp_listen_pcbs s1 = tcp_listen_pcbs s"
        "\<forall>x. x \<noteq> q \<and> pcb_next s x \<noteq> q \<longrightarrow> pcb_next s1 x = pcb_next s x \<and> pcb_local_ip s1 x = pcb_local_ip s x"
      using assms(1) p(2) unfolding abort_ok_def by blast
    have d: "q \<notin> set as" using chain_hd_notin [of "pcb_next s" q as] p by simp
    have far: "x \<noteq> q \<and> pcb_next s x \<noteq> q" if "chain (pcb_next s) h' xs" "q \<notin> set xs" "x \<in> set xs" for x h' xs
      using that p(2)
    proof (induction xs arbitrary: h')
      case (Cons y ys)
      then show ?case by (cases ys) auto
    qed simp
    have "chain (pcb_next s1) (pcb_next s q) as"
      using p(3) s1(4) far [OF p(3) d] by (subst chain_cong [where nxt = "pcb_next s"]) auto
    moreover have q: "q \<notin> set ls" using Cons.prems(2) by auto
    have "chain (pcb_next s1) h ls"
      using Cons.prems(3) s1(4) far [OF Cons.prems(3) q] by (subst chain_cong [where nxt = "pcb_next s"]) auto
    ultimately obtain s' where s': "abort_pcbs abort netif (pcb_next s q) s1 = Some s'" "same_netifs s1 s'"
        "tcp_listen_pcbs s' = tcp_listen_pcbs s1" "chain (pcb_next s') h ls" "\<forall>l\<in>set ls. pcb_local_ip s' l = pcb_local_ip s1 l"
      using Cons.IH [of s1 "pcb_next s q"] Cons.prems(2) by auto
    then show ?thesis
      using p(1,2) True s1 far [OF Cons.prems(3) q] same_netifs_trans [OF s1(2) s'(2)]
      by (intro exI [of _ s']) (simp add: abort_pcbs.simps [of abort netif q s] Let_def)
  qed
qed

lemma move_listeners_total:
  assumes "chain (pcb_next s) p ls"
  shows "move_listeners netif ip p s = Some (s\<lparr>pcb_local_ip := (\<lambda>l. if l \<in> set ls \<and> pcb_local_ip s l \<noteq> 0
    \<and> pcb_local_ip s l = nif_ip_addr (nif s netif) then ip else pcb_local_ip s l)\<rparr>)"
  using assms
proof (induction ls arbitrary: p s)
  case Nil
  then show ?case by (simp add: move_listeners.simps)
next
  case (Cons q ls)
  then have p: "p = q" "q \<noteq> NULL" "chain (pcb_next s) (pcb_next s q) ls" "q \<notin> set ls"
    using chain_distinct [OF Cons.prems] by auto
  define s1 where "s1 = (if pcb_local_ip s q \<noteq> 0 \<and> pcb_local_ip s q = nif_ip_addr (nif s netif)
    then s\<lparr>pcb_local_ip := (pcb_local_ip s)(q := ip)\<rparr> else s)"
  have upd: "s1\<lparr>pcb_local_ip := g\<rparr> = s\<lparr>pcb_local_ip := g\<rparr>" for g by (simp add: s1_def)
  have fn: "(\<lambda>l. if l \<in> set ls \<and> pcb_local_ip s1 l \<noteq> 0 \<and> pcb_local_ip s1 l = nif_ip_addr (nif s1 netif) then ip else pcb_local_ip s1 l)
    = (\<lambda>l. if l \<in> set (q # ls) \<and> pcb_local_ip s l \<noteq> 0 \<and> pcb_local_ip s l = nif_ip_addr (nif s netif) then ip else pcb_local_ip s l)"
    by (rule ext) (use p(4) in \<open>auto simp: s1_def\<close>)
  have "pcb_next s1 = pcb_next s" by (simp add: s1_def)
  then have "move_listeners netif ip p s = move_listeners netif ip (pcb_next s q) s1"
    unfolding p(1) move_listeners.simps [of netif ip q s] Let_def s1_def [symmetric] using p(2) by simp
  also have "\<dots> = Some (s1\<lparr>pcb_local_ip := (\<lambda>l. if l \<in> set ls \<and> pcb_local_ip s1 l \<noteq> 0
      \<and> pcb_local_ip s1 l = nif_ip_addr (nif s1 netif) then ip else pcb_local_ip s1 l)\<rparr>)"
    using Cons.IH [of s1 "pcb_next s q"] p(3) \<open>pcb_next s1 = pcb_next s\<close> by simp
  also have "\<dots> = Some (s\<lparr>pcb_local_ip := (\<lambda>l. if l \<in> set (q # ls) \<and> pcb_local_ip s l \<noteq> 0
      \<and> pcb_local_ip s l = nif_ip_addr (nif s netif) then ip else pcb_local_ip s l)\<rparr>)"
    unfolding upd fn ..
  finally show ?case .
qed

lemma set_ipaddr_total:
  assumes "pcbs_ok s as ls" "abort_ok abort" "netif \<noteq> NULL"
  shows "\<exists>s1. netif_set_ipaddr abort netif (Some ip) s = Some (set_nif netif (\<lambda>x. x\<lparr>nif_ip_addr := ip\<rparr>) s1)
    \<and> same_netifs s s1
    \<and> (\<forall>l\<in>set ls. pcb_local_ip s1 l = (if pcb_local_ip s l \<noteq> 0 \<and> pcb_local_ip s l = nif_ip_addr (nif s netif) then ip else pcb_local_ip s l))"
proof (cases "ip = nif_ip_addr (nif s netif)")
  case True
  then show ?thesis using assms(3) by (intro exI [of _ s]) (simp add: netif_set_ipaddr_def ip_addr_set_def)
next
  case False
  obtain s1 where s1: "abort_pcbs abort netif (tcp_active_pcbs s) s = Some s1" "same_netifs s s1"
      "tcp_listen_pcbs s1 = tcp_listen_pcbs s" "chain (pcb_next s1) (tcp_listen_pcbs s) ls"
      "\<forall>l\<in>set ls. pcb_local_ip s1 l = pcb_local_ip s l"
    using abort_pcbs_total [OF assms(2), of s "tcp_active_pcbs s" as ls "tcp_listen_pcbs s" netif] assms(1)
    by (auto simp: pcbs_ok_def)
  have "nif s1 netif = nif s netif" using s1(2) by (simp add: same_netifs_def)
  then show ?thesis
    using s1 False assms(3) move_listeners_total [OF s1(4), of netif ip]
    by (simp add: netif_set_ipaddr_def ip_addr_set_def) (intro exI conjI, rule refl, simp_all add: same_netifs_def)
qed

lemma set_addr_total:
  assumes "pcbs_ok s as ls" "abort_ok abort" "netif \<noteq> NULL"
  shows "\<exists>s1. netif_set_addr abort netif (Some ip) (Some msk) (Some gw) s
      = Some (set_nif netif (\<lambda>x. x\<lparr>nif_ip_addr := ip, nif_netmask := msk, nif_gw := gw\<rparr>) s1) \<and> same_netifs s s1"
  using set_ipaddr_total [OF assms, of ip] assms(3)
  by (auto simp: netif_set_addr_def netif_set_netmask_def netif_set_gw_def ip_addr_set_def set_nif_def)

section \<open>The list\<close>

lemma registered_same: "same_netifs s s' \<Longrightarrow> registered s' xs = registered s xs"
  by (simp add: registered_def same_netifs_def)

lemma registered_cong:
  assumes "netif_list (arp s') = netif_list (arp s)" "\<And>m. m \<in> set xs \<Longrightarrow> nif_next (nif s' m) = nif_next (nif s m)"
  shows "registered s' xs = registered s xs"
  unfolding registered_def assms(1) using assms(2) by (rule chain_cong)

lemma registered_set_nif [simp]:
  "(\<And>x. nif_next (f x) = nif_next x) \<Longrightarrow> registered (set_nif n f s) xs = registered s xs"
  by (rule registered_cong) auto

lemma netif_add_list:
  assumes reg: "registered s xs" and n: "netif \<notin> set xs" "netif \<noteq> NULL"
    and ok: "pcbs_ok s as ls" "abort_ok abort" "init_ok init"
  shows "\<exists>s1 e s2 r s'. init netif s1 = Some (e, s2)
    \<and> nif s1 netif = (nif s netif)\<lparr>nif_ip_addr := ip, nif_netmask := msk, nif_gw := gw, nif_flags := 0, nif_state := st,
          nif_num := netif_num s, nif_input := input\<rparr>
    \<and> netif_list (arp s1) = netif_list (arp s)
    \<and> netif_add abort netif (Some ip) (Some msk) (Some gw) st (Some init) input s = Some (r, s')
    \<and> (if e = ERR_OK then r = netif \<and> registered s' (netif # xs) \<and> nif s' netif = (nif s2 netif)\<lparr>nif_next := netif_list (arp s)\<rparr>
       else r = NULL \<and> s' = s2 \<and> registered s' xs)
    \<and> nif_ip_addr (nif s' netif) = ip \<and> nif_netmask (nif s' netif) = msk \<and> nif_gw (nif s' netif) = gw
    \<and> nif_num (nif s' netif) = netif_num s \<and> netif_num s' = to_u8 (netif_num s + 1)
    \<and> netif_default (arp s') = netif_default (arp s) \<and> (\<forall>m. m \<noteq> netif \<longrightarrow> nif s' m = nif s m)"
proof -
  define s0 where "s0 = (set_nif netif (\<lambda>x. x\<lparr>nif_ip_addr := 0, nif_netmask := 0, nif_gw := 0, nif_flags := 0,
    nif_state := st, nif_num := netif_num s, nif_input := input\<rparr>) s)\<lparr>netif_num := to_u8 (netif_num s + 1)\<rparr>"
  have "pcbs_ok s0 as ls" using ok(1) by (simp add: pcbs_ok_def s0_def)
  from set_addr_total [OF this ok(2) n(2), of ip msk gw] obtain s1 where
    s1: "netif_set_addr abort netif (Some ip) (Some msk) (Some gw) s0
      = Some (set_nif netif (\<lambda>x. x\<lparr>nif_ip_addr := ip, nif_netmask := msk, nif_gw := gw\<rparr>) s1)" "same_netifs s0 s1" by blast
  define s2 where "s2 = set_nif netif (\<lambda>x. x\<lparr>nif_ip_addr := ip, nif_netmask := msk, nif_gw := gw\<rparr>) s1"
  have f1: "netifs (arp s1) = netifs (arp s0)" "netif_list (arp s1) = netif_list (arp s)"
    "netif_default (arp s1) = netif_default (arp s)" "netif_num s1 = to_u8 (netif_num s + 1)"
    using s1(2) by (auto simp: same_netifs_def s0_def)
  have s2: "netif_list (arp s2) = netif_list (arp s)" "netif_default (arp s2) = netif_default (arp s)"
    "netif_num s2 = to_u8 (netif_num s + 1)" "\<And>m. m \<noteq> netif \<Longrightarrow> nif s2 m = nif s m" "nif_num (nif s2 netif) = netif_num s"
    "nif_ip_addr (nif s2 netif) = ip" "nif_netmask (nif s2 netif) = msk" "nif_gw (nif s2 netif) = gw"
    using f1 by (auto simp: s2_def) (auto simp: s0_def)
  have n2: "nif s2 netif = (nif s netif)\<lparr>nif_ip_addr := ip, nif_netmask := msk, nif_gw := gw, nif_flags := 0, nif_state := st,
          nif_num := netif_num s, nif_input := input\<rparr>"
    by (simp add: s2_def f1(1)) (simp add: s0_def)
  obtain e s3 where s3: "init netif s2 = Some (e, s3)" "netif_list (arp s3) = netif_list (arp s2)"
      "netif_default (arp s3) = netif_default (arp s2)" "netif_num s3 = netif_num s2" "\<forall>m. m \<noteq> netif \<longrightarrow> nif s3 m = nif s2 m"
      "nif_ip_addr (nif s3 netif) = nif_ip_addr (nif s2 netif)" "nif_netmask (nif s3 netif) = nif_netmask (nif s2 netif)"
      "nif_gw (nif s3 netif) = nif_gw (nif s2 netif)" "nif_num (nif s3 netif) = nif_num (nif s2 netif)"
    using ok(3) [unfolded init_ok_def, THEN spec, THEN spec, of netif s2] by (elim exE conjE) (rule that)
  have add: "netif_add abort netif (Some ip) (Some msk) (Some gw) st (Some init) input s =
      (if e \<noteq> ERR_OK then Some (NULL, s3)
       else let s = set_nif netif (\<lambda>x. x\<lparr>nif_next := netif_list (arp s3)\<rparr>) s3 in Some (netif, s\<lparr>arp := (arp s)\<lparr>netif_list := netif\<rparr>\<rparr>))"
  proof -
    have "netif_add abort netif (Some ip) (Some msk) (Some gw) st (Some init) input s =
      netif_set_addr abort netif (Some ip) (Some msk) (Some gw) s0 \<bind> (\<lambda>s. init netif s \<bind> (\<lambda>(e, s).
        if e \<noteq> ERR_OK then Some (NULL, s)
        else let s = set_nif netif (\<lambda>x. x\<lparr>nif_next := netif_list (arp s)\<rparr>) s in Some (netif, s\<lparr>arp := (arp s)\<lparr>netif_list := netif\<rparr>\<rparr>)))"
      using n(2) by (simp add: netif_add_def s0_def Let_def)
    then show ?thesis unfolding s1(1) s2_def [symmetric] by (simp add: s3(1))
  qed
  have far: "nif s3 m = nif s m" if "m \<noteq> netif" for m using that s3(5) s2(4) by simp
  have r3: "registered s3 xs"
  proof (subst registered_cong [of _ s])
    show "nif_next (nif s3 m) = nif_next (nif s m)" if "m \<in> set xs" for m using that far [of m] n(1) by metis
  qed (use reg s3(2) s2(1) in auto)
  show ?thesis
  proof (cases "e = ERR_OK")
    case False
    then show ?thesis using add r3 s2 n2 s3 by (intro exI [of _ s2] exI [of _ e] exI [of _ s3] exI [of _ NULL]) simp
  next
    case True
    define s4 where "s4 = (let s = set_nif netif (\<lambda>x. x\<lparr>nif_next := netif_list (arp s3)\<rparr>) s3 in s\<lparr>arp := (arp s)\<lparr>netif_list := netif\<rparr>\<rparr>)"
    have "chain (\<lambda>m. nif_next (nif s4 m)) (netif_list (arp s3)) xs"
      using r3 n(1) unfolding registered_def by (subst chain_cong [where nxt = "\<lambda>m. nif_next (nif s3 m)"]) (auto simp: s4_def Let_def)
    then have "registered s4 (netif # xs)" using n(2) by (simp add: registered_def) (simp add: s4_def Let_def)
    then show ?thesis
      using add True s2 n2 s3 by (intro exI [of _ s2] exI [of _ e] exI [of _ s3] exI [of _ netif] exI [of _ s4]) (simp add: s4_def Let_def)
  qed
qed

lemma netif_find_loop_list:
  "chain (\<lambda>n. nif_next (nif s n)) p xs \<Longrightarrow>
   netif_find_loop c0 c1 k p s = Some (case find (\<lambda>n. k = nif_num (nif s n) \<and> nif_name (nif s n) = (c0, c1)) xs of None \<Rightarrow> NULL | Some n \<Rightarrow> n)"
  by (induction xs arbitrary: p) (auto simp: netif_find_loop.simps)

lemma ip_route_loop_list:
  "chain (\<lambda>n. nif_next (netifs s n)) p xs \<Longrightarrow>
   ip_route_loop dest p s = Some (case find (\<lambda>n. netif_is_up (netifs s n)
       \<and> ip_addr_netcmp dest (nif_ip_addr (netifs s n)) (nif_netmask (netifs s n))) xs of None \<Rightarrow> NULL | Some n \<Rightarrow> n)"
  by (induction xs arbitrary: p) (auto simp: ip_route_loop.simps)

text \<open>The search for the predecessor, and the list without the interface.\<close>

lemma netif_unlink_list:
  assumes "chain (\<lambda>n. nif_next (nif s n)) p xs" "netif \<noteq> NULL" "p \<noteq> netif"
  shows "if netif \<in> set xs
    then \<exists>t. netif_unlink netif p s = Some (True, set_nif t (\<lambda>x. x\<lparr>nif_next := nif_next (nif s netif)\<rparr>) s)
      \<and> chain (\<lambda>n. nif_next (nif (set_nif t (\<lambda>x. x\<lparr>nif_next := nif_next (nif s netif)\<rparr>) s) n)) p (remove1 netif xs) \<and> t \<in> set xs \<and> t \<noteq> netif
    else netif_unlink netif p s = Some (False, s)"
  using assms
proof (induction xs arbitrary: p)
  case Nil
  then show ?case by (simp add: netif_unlink.simps)
next
  case (Cons y ys)
  then have y: "p = y" "y \<noteq> NULL" "y \<noteq> netif" "chain (\<lambda>n. nif_next (nif s n)) (nif_next (nif s y)) ys" by auto
  have d: "y \<notin> set ys" using chain_hd_notin [of "\<lambda>n. nif_next (nif s n)" y ys] y by simp
  show ?case
  proof (cases "nif_next (nif s y) = netif")
    case True
    then obtain zs where ys: "ys = netif # zs" "chain (\<lambda>n. nif_next (nif s n)) (nif_next (nif s netif)) zs"
      using y(4) Cons.prems(2) by (cases ys) auto
    define s' where "s' = set_nif y (\<lambda>x. x\<lparr>nif_next := nif_next (nif s netif)\<rparr>) s"
    have "chain (\<lambda>n. nif_next (nif s' n)) (nif_next (nif s netif)) zs"
      using ys d by (subst chain_cong [where nxt = "\<lambda>n. nif_next (nif s n)"]) (auto simp: s'_def)
    then have "chain (\<lambda>n. nif_next (nif s' n)) y (y # zs)" using y by (simp add: s'_def)
    moreover have "netif_unlink netif p s = Some (True, s')"
      using y True by (simp add: netif_unlink.simps [of netif y s] s'_def)
    ultimately show ?thesis using ys y by (auto simp: s'_def)
  next
    case False
    have step: "netif_unlink netif p s = netif_unlink netif (nif_next (nif s y)) s"
      using y False by (simp add: netif_unlink.simps [of netif y s])
    show ?thesis
    proof (cases "netif \<in> set ys")
      case True
      from Cons.IH [OF y(4) Cons.prems(2) False] True obtain t where
        t: "netif_unlink netif (nif_next (nif s y)) s = Some (True, set_nif t (\<lambda>x. x\<lparr>nif_next := nif_next (nif s netif)\<rparr>) s)"
          "chain (\<lambda>n. nif_next (nif (set_nif t (\<lambda>x. x\<lparr>nif_next := nif_next (nif s netif)\<rparr>) s) n)) (nif_next (nif s y)) (remove1 netif ys)"
          "t \<in> set ys" "t \<noteq> netif" by auto
      have "y \<noteq> t" using t(3) d by blast
      then show ?thesis using t step y True by (intro if_splits(1) [THEN iffD2]) auto
    next
      case notin: False
      then show ?thesis using Cons.IH [OF y(4) Cons.prems(2) False] step y by simp
    qed
  qed
qed

end
