(* ===== verification/Netif_Claims.thy ===== *)
theory Netif_Claims
  imports Netif_Props Etharp_Claims
begin

unbundle bit_operations_syntax

text \<open>
  Properties of \<^verbatim>\<open>core/netif.c\<close> together with \<^verbatim>\<open>ip_route\<close> of \<^verbatim>\<open>core/ipv4/ip.c\<close> and the ARP layer: what an
  interface is for the rest of the stack between \<^verbatim>\<open>netif_add\<close> and \<^verbatim>\<open>netif_remove\<close>.
\<close>

section \<open>Going up and down\<close>

lemma cleanup_total:
  assumes "arp_refs sizes a s R" "length (arp_table s) = 10"
  shows "\<exists>b. etharp_cleanup_netif cf netif s = Some (s\<lparr>bufs := b, arp_table := map (drop_netif netif) (arp_table s)\<rparr>)
    \<and> arp_refs sizes a (s\<lparr>bufs := b, arp_table := map (drop_netif netif) (arp_table s)\<rparr>) R"
proof -
  have "\<exists>s'. (if ae_state (entry s i) \<noteq> ETHARP_STATE_EMPTY \<and> ae_netif (entry s i) = netif then etharp_free_entry cf i s else Some s) = Some s'
      \<and> arp_refs sizes a s' R \<and> length (arp_table s') = 10"
    if i: "i < 10" "length (arp_table s) = 10" "arp_refs sizes a s R" for i s
  proof -
    obtain s' where "etharp_free_entry cf i s = Some s'" "arp_refs sizes a s' R" using free_entry_total [OF i(3), of i] i by auto
    with free_entry_shape [OF this(1)] i show ?thesis by auto
  qed
  from for_entries_total [where f = "\<lambda>i s. if ae_state (entry s i) \<noteq> ETHARP_STATE_EMPTY \<and> ae_netif (entry s i) = netif
      then etharp_free_entry cf i s else Some s", OF this le_refl assms(2,1)]
  obtain s' where s': "etharp_cleanup_netif cf netif s = Some s'" "arp_refs sizes a s' R"
    by (auto simp: etharp_cleanup_netif_def)
  with cleanup_shape [OF s'(1) assms(2)] show ?thesis by auto
qed

text \<open>No entry of the table belongs to the interface.\<close>

definition forgotten :: "addr \<Rightarrow> etharp_entry list \<Rightarrow> bool" where
  "forgotten netif t \<longleftrightarrow> (\<forall>e\<in>set t. ae_state e \<noteq> ETHARP_STATE_EMPTY \<longrightarrow> ae_netif e \<noteq> netif)"

lemma forgotten_drop: "forgotten netif (map (drop_netif netif) t)"
proof -
  have "ae_state (drop_netif netif e) \<noteq> ETHARP_STATE_EMPTY \<Longrightarrow> ae_netif (drop_netif netif e) \<noteq> netif" for e
    by (cases "ae_netif e = netif"; cases "ae_state e = ETHARP_STATE_EMPTY") (simp_all add: drop_netif_def cleared_def)
  then show ?thesis by (simp add: forgotten_def)
qed

lemma not_up: "NOT 1 AND 1 = (0::u8_t)" "NOT 1 AND 0x20 = (0x20::u8_t)"
  by simp_all

lemma down_flags: "(fl AND NOT 1) AND 1 = 0" "(fl AND NOT 1) AND 0x20 = fl AND 0x20" for fl :: u8_t
  unfolding and.assoc by (simp_all only: not_up and_zero_eq)

lemma up_flags: "(fl OR 1) AND 1 \<noteq> 0" "(fl OR 1) AND 0x20 = fl AND 0x20" "(fl OR 1) AND 0x10 = fl AND 0x10" for fl :: u8_t
  by (simp_all add: bit.conj_disj_distrib2)

lemma set_down_total:
  assumes "netif \<noteq> NULL" "arp_inv (arp s)" "arp_refs sizes a (arp s) R" "netif_is_up (nif s netif)"
  shows "\<exists>s'. netif_set_down cf netif s = Some s' \<and> arp_inv (arp s') \<and> arp_refs sizes a (arp s') R
    \<and> \<not> netif_is_up (nif s' netif) \<and> (\<forall>m. nif_next (nif s' m) = nif_next (nif s m)) \<and> (\<forall>m. m \<noteq> netif \<longrightarrow> nif s' m = nif s m)
    \<and> netif_list (arp s') = netif_list (arp s) \<and> netif_default (arp s') = netif_default (arp s)
    \<and> (nif_flags (nif s netif) AND NETIF_FLAG_ETHARP \<noteq> 0 \<longrightarrow> forgotten netif (arp_table (arp s')))"
proof -
  define s1 where "s1 = set_nif netif (\<lambda>x. x\<lparr>nif_flags := nif_flags x AND NOT NETIF_FLAG_UP\<rparr>) s"
  have s1: "arp_inv (arp s1)" "arp_refs sizes a (arp s1) R" "netif_list (arp s1) = netif_list (arp s)"
      "netif_default (arp s1) = netif_default (arp s)" "nif_flags (nif s1 netif) = nif_flags (nif s netif) AND NOT 1"
      "\<And>m. nif_next (nif s1 m) = nif_next (nif s m)" "\<And>m. m \<noteq> netif \<Longrightarrow> nif s1 m = nif s m"
    using assms(2,3) by (auto simp: s1_def arp_inv_def arp_refs_def)
  have down: "\<not> netif_is_up (nif s1 netif)" unfolding netif_is_up_def s1(5) down_flags by (rule notI) (erule notE, rule refl)
  have run: "netif_set_down cf netif s = (if nif_flags (nif s netif) AND 0x20 \<noteq> 0
      then map_option (\<lambda>t. s1\<lparr>arp := t\<rparr>) (etharp_cleanup_netif cf netif (arp s1)) else Some s1)"
    using assms(1,4) unfolding netif_set_down_def Let_def s1_def [symmetric] s1(5) down_flags(2) netif_is_up_def by simp
  show ?thesis
  proof (cases "nif_flags (nif s netif) AND 0x20 = 0")
    case True
    then show ?thesis using run s1(1-4,6,7) down by (intro exI [of _ s1]) simp
  next
    case False
    have len: "length (arp_table (arp s1)) = 10" using s1(1) table_invD(1) by (simp add: arp_inv_def)
    obtain b where b: "etharp_cleanup_netif cf netif (arp s1) = Some ((arp s1)\<lparr>bufs := b, arp_table := map (drop_netif netif) (arp_table (arp s1))\<rparr>)"
        "arp_refs sizes a ((arp s1)\<lparr>bufs := b, arp_table := map (drop_netif netif) (arp_table (arp s1))\<rparr>) R"
      using cleanup_total [OF s1(2) len, of cf netif] by blast
    moreover have "arp_inv ((arp s1)\<lparr>bufs := b, arp_table := map (drop_netif netif) (arp_table (arp s1))\<rparr>)"
      using cleanup_inv [OF b(1) s1(1)] .
    ultimately show ?thesis using run False s1(3,4,6,7) down forgotten_drop by simp
  qed
qed

lemma set_up_total:
  assumes "netif \<noteq> NULL" "arp_refs sizes a (arp s) R" "stores_apart sizes a (bufs (arp s))" "\<not> netif_is_up (nif s netif)"
    and hw: "nif_hwaddr_len (nif s netif) = 6" "length (nif_hwaddr (nif s netif)) = 6"
  shows "\<exists>s'. netif_set_up cf lo netif s = Some s' \<and> arp_refs sizes a (arp s') R
    \<and> netifs (arp s') = (netifs (arp s))(netif := (nif s netif)\<lparr>nif_flags := nif_flags (nif s netif) OR NETIF_FLAG_UP\<rparr>)
    \<and> netif_list (arp s') = netif_list (arp s) \<and> netif_default (arp s') = netif_default (arp s)
    \<and> table_view (arp s') = table_view (arp s)
    \<and> (\<exists>q b. pbuf_alloc cf PBUF_RAW SIZEOF_ETHARP_PACKET PBUF_RAM (bufs (arp s)) = Some (q, b)
       \<and> frames (arp s') = frames (arp s) @
         (if nif_flags (nif s netif) AND NETIF_FLAG_LINK_UP \<noteq> 0 \<and> nif_flags (nif s netif) AND NETIF_FLAG_ETHARP \<noteq> 0 \<and> q \<noteq> NULL
          then [(netif, q, arp_frame ethbroadcast (nif_hwaddr (nif s netif)) ARP_REQUEST (nif_hwaddr (nif s netif)) (nif_ip_addr (nif s netif)) ethzero (nif_ip_addr (nif s netif)))]
          else []))"
proof -
  define s1 where "s1 = set_nif netif (\<lambda>x. x\<lparr>nif_flags := nif_flags x OR NETIF_FLAG_UP\<rparr>) s"
  define n where "n = nif s netif"
  have s1: "netifs (arp s1) = (netifs (arp s))(netif := n\<lparr>nif_flags := nif_flags n OR 1\<rparr>)" "arp_refs sizes a (arp s1) R"
      "stores_apart sizes a (bufs (arp s1))" "netif_list (arp s1) = netif_list (arp s)"
      "netif_default (arp s1) = netif_default (arp s)" "table_view (arp s1) = table_view (arp s)" "frames (arp s1) = frames (arp s)"
      "bufs (arp s1) = bufs (arp s)"
    using assms(2,3) by (simp_all add: s1_def n_def arp_refs_def table_view_def) (simp add: set_nif_def)
  have run: "netif_set_up cf lo netif s = (if nif_flags n AND 0x10 \<noteq> 0 \<and> nif_flags n AND 0x20 \<noteq> 0
      then etharp_gratuitous cf lo netif s1 else Some s1)"
    using assms(1,4) s1(1) up_flags [of "nif_flags n"] by (simp add: netif_set_up_def Let_def s1_def [symmetric] netif_is_up_def n_def)
  show ?thesis
  proof (cases "nif_flags n AND 0x10 \<noteq> 0 \<and> nif_flags n AND 0x20 \<noteq> 0")
    case False
    have "refs_ok sizes a (bufs (arp s)) (queues (arp_table (arp s)) + R)" using assms(2) by (simp add: arp_refs_def)
    then have "\<exists>q b. pbuf_alloc cf PBUF_RAW 42 PBUF_RAM (bufs (arp s)) = Some (q, b)"
      by (cases rule: pbuf_alloc_ram [OF _ assms(3), where cf = cf and layer = PBUF_RAW and n = 42]) auto
    then show ?thesis using run s1 False by (intro exI [of _ s1]) (auto simp: n_def)
  next
    case True
    have "length ethbroadcast = 6" "length ethzero = 6" by (simp_all add: ethbroadcast_def ethzero_def)
    then obtain q b r t where t: "etharp_request cf lo netif (nif_ip_addr n) (arp s1) = Some (r, t)" "arp_refs sizes a t R"
        "sent_only (arp s1) t" "pbuf_alloc cf PBUF_RAW 42 PBUF_RAM (bufs (arp s1)) = Some (q, b)"
        "frames t = frames (arp s1) @ (if q = NULL then [] else [(netif, q, arp_frame ethbroadcast (nif_hwaddr n)
          ARP_REQUEST (nif_hwaddr n) (nif_ip_addr n) ethzero (nif_ip_addr n))])"
      using etharp_raw_sends [OF s1(2,3) assms(1), of "nif_hwaddr n" ethbroadcast "nif_hwaddr n" ethzero cf lo "nif_ip_addr n" "nif_ip_addr n" ARP_REQUEST]
        hw s1(1) by (auto simp: etharp_request_def n_def)
    have "netif_set_up cf lo netif s = Some (s1\<lparr>arp := t\<rparr>)"
      using run True t(1) s1(1) by (simp add: etharp_gratuitous_def)
    then show ?thesis
      using t(2-5) s1 True by (intro exI [of _ "s1\<lparr>arp := t\<rparr>"]) (auto simp: sent_only_def n_def)
  qed
qed

section \<open>Routing\<close>

text \<open>The interface \<^verbatim>\<open>ip_route\<close> returns, over the list.\<close>

definition route_spec :: "u32_t \<Rightarrow> arp_state \<Rightarrow> addr list \<Rightarrow> addr" where
  "route_spec dest s xs =
     (case find (\<lambda>n. netif_is_up (netifs s n) \<and> ip_addr_netcmp dest (nif_ip_addr (netifs s n)) (nif_netmask (netifs s n))) xs of
        Some n \<Rightarrow> n
      | None \<Rightarrow> if netif_default s \<noteq> NULL \<and> netif_is_up (netifs s (netif_default s)) then netif_default s else NULL)"

lemma find_mem: "find P xs = Some n \<Longrightarrow> n \<in> set xs"
  by (auto simp: find_Some_iff)

lemma route_spec_in: "route_spec dest s xs \<in> {NULL, netif_default s} \<union> set xs"
  unfolding route_spec_def by (auto dest: find_mem split: option.split)

lemma ip_route_list:
  assumes "registered s xs"
  shows "\<exists>t. ip_route dest (arp s) = Some (route_spec dest (arp s) xs, t)"
proof -
  define P where "P = (\<lambda>n. netif_is_up (nif s n) \<and> ip_addr_netcmp dest (nif_ip_addr (nif s n)) (nif_netmask (nif s n)))"
  have loop: "ip_route_loop dest (netif_list (arp s)) (arp s) = Some (case find P xs of None \<Rightarrow> NULL | Some n \<Rightarrow> n)"
    using ip_route_loop_list [of "arp s" "netif_list (arp s)" xs dest] assms unfolding registered_def P_def by blast
  show ?thesis
  proof (cases "find P xs")
    case None
    then show ?thesis by (simp add: ip_route_def loop route_spec_def P_def [symmetric])
  next
    case (Some n)
    then have "n \<in> set xs" by (rule find_mem)
    then have "n \<noteq> NULL" using assms chain_NULL_notin unfolding registered_def by metis
    then show ?thesis using Some by (simp add: ip_route_def loop route_spec_def P_def [symmetric])
  qed
qed

section \<open>Properties\<close>

text \<open>
  C29. Registration refines a list of interfaces. \<^verbatim>\<open>netif_add\<close> calls the driver's \<open>init\<close> with the interface filled in:
  the addresses given, no flags, and the next number, which wraps at 256. When \<open>init\<close> returns \<^verbatim>\<open>ERR_OK\<close> the
  interface is returned and put in front of the list as \<open>init\<close> left it, and is found under its name and number (up to
  207, the number being one character); when \<open>init\<close> returns anything else the result is \<^verbatim>\<open>NULL\<close> and the state, with the
  list as before, is the one \<open>init\<close> left. Other interfaces are untouched. (The driver fills in fields of its own
  interface, but not its addresses and number, nor the list.)
\<close>

theorem netif_add_then_find:
  assumes "registered s xs" "netif \<notin> set xs" "netif \<noteq> NULL" "pcbs_ok s as ls" "abort_ok abort" "init_ok init"
    and "netif_num s < 208"
  shows "\<exists>s1 e s2 r s'. init netif s1 = Some (e, s2)
    \<and> nif s1 netif = (nif s netif)\<lparr>nif_ip_addr := ip, nif_netmask := msk, nif_gw := gw, nif_flags := 0, nif_state := st,
          nif_num := netif_num s, nif_input := input\<rparr>
    \<and> netif_add abort netif (Some ip) (Some msk) (Some gw) st (Some init) input s = Some (r, s')
    \<and> (if e = ERR_OK then r = netif \<and> registered s' (netif # xs) \<and> nif s' netif = (nif s2 netif)\<lparr>nif_next := netif_list (arp s)\<rparr>
         \<and> netif_find (Some (fst (nif_name (nif s' netif)), snd (nif_name (nif s' netif)), word_of_nat (48 + netif_num s))) s' = Some netif
       else r = NULL \<and> s' = s2 \<and> registered s' xs)
    \<and> nif_ip_addr (nif s' netif) = ip \<and> nif_netmask (nif s' netif) = msk \<and> nif_gw (nif s' netif) = gw
    \<and> nif_num (nif s' netif) = netif_num s \<and> netif_num s' = to_u8 (netif_num s + 1)
    \<and> (\<forall>m. m \<noteq> netif \<longrightarrow> nif s' m = nif s m)"
proof -
  obtain s1 e s2 r s' where s': "netif_add abort netif (Some ip) (Some msk) (Some gw) st (Some init) input s = Some (r, s')"
      "if e = ERR_OK then r = netif \<and> registered s' (netif # xs) \<and> nif s' netif = (nif s2 netif)\<lparr>nif_next := netif_list (arp s)\<rparr>
       else r = NULL \<and> s' = s2 \<and> registered s' xs"
      "nif_ip_addr (nif s' netif) = ip" "nif_netmask (nif s' netif) = msk" "nif_gw (nif s' netif) = gw"
      "nif_num (nif s' netif) = netif_num s" "netif_num s' = to_u8 (netif_num s + 1)" "\<forall>m. m \<noteq> netif \<longrightarrow> nif s' m = nif s m"
      "init netif s1 = Some (e, s2)" "nif s1 netif = (nif s netif)\<lparr>nif_ip_addr := ip, nif_netmask := msk, nif_gw := gw, nif_flags := 0, nif_state := st,
          nif_num := netif_num s, nif_input := input\<rparr>"
    using netif_add_list [OF assms(1-6), where ip = ip and msk = msk and gw = gw and st = st and input = input] by (elim exE conjE) (rule that)
  have "unat (word_of_nat (48 + netif_num s) - 0x30 :: u8_t) = netif_num s"
    using assms(7) by (simp add: unat_of_nat)
  then have "netif_find (Some (fst (nif_name (nif s' netif)), snd (nif_name (nif s' netif)), word_of_nat (48 + netif_num s))) s' = Some netif"
    if "registered s' (netif # xs)"
    using that netif_find_loop_list [of s' "netif_list (arp s')" "netif # xs"] s'(6)
    by (simp add: netif_find_def registered_def)
  note found = this
  show ?thesis
    by (rule exI [of _ s1], rule exI [of _ e], rule exI [of _ s2], rule exI [of _ r], rule exI [of _ s'])
      (use s' found in \<open>cases "e = ERR_OK"; simp\<close>)
qed

text \<open>
  C30. Bringing an Ethernet interface up makes it reachable and announces it: \<^verbatim>\<open>netif_set_up\<close> returns with the
  flag set and the ARP table and all reference counts as before; from then on \<^verbatim>\<open>ip_route\<close> gives this interface
  for an address of its network unless one before it in the list matches too. When the link is up, the
  interface uses ARP and \<^verbatim>\<open>pbuf_alloc\<close> finds room for it in the heap, the driver is handed exactly one frame, a
  gratuitous ARP request for the interface's own address, in the pbuf allocated; otherwise no frame is sent.
\<close>

theorem netif_up_routes:
  assumes "registered s (ys @ netif # xs)" "arp_refs sizes a (arp s) R" "stores_apart sizes a (bufs (arp s))"
    and "\<not> netif_is_up (nif s netif)" "nif_hwaddr_len (nif s netif) = 6" "length (nif_hwaddr (nif s netif)) = 6"
    and "n = nif s netif"
  shows "\<exists>s'. netif_set_up cf lo netif s = Some s' \<and> registered s' (ys @ netif # xs) \<and> arp_refs sizes a (arp s') R
    \<and> netif_is_up (nif s' netif) \<and> table_view (arp s') = table_view (arp s)
    \<and> (\<forall>dest. ip_addr_netcmp dest (nif_ip_addr n) (nif_netmask n)
         \<and> (\<forall>m\<in>set ys. netif_is_up (nif s m) \<longrightarrow> \<not> ip_addr_netcmp dest (nif_ip_addr (nif s m)) (nif_netmask (nif s m)))
         \<longrightarrow> (\<exists>t. ip_route dest (arp s') = Some (netif, t)))
    \<and> (\<exists>q b. pbuf_alloc cf PBUF_RAW SIZEOF_ETHARP_PACKET PBUF_RAM (bufs (arp s)) = Some (q, b)
       \<and> frames (arp s') = frames (arp s) @
         (if nif_flags n AND NETIF_FLAG_LINK_UP \<noteq> 0 \<and> nif_flags n AND NETIF_FLAG_ETHARP \<noteq> 0 \<and> q \<noteq> NULL
          then [(netif, q, arp_frame ethbroadcast (nif_hwaddr n) ARP_REQUEST (nif_hwaddr n) (nif_ip_addr n) ethzero (nif_ip_addr n))]
          else []))"
proof -
  have d: "distinct (ys @ netif # xs)" using assms(1) chain_distinct unfolding registered_def by blast
  have n: "netif \<noteq> NULL" using assms(1) chain_NULL_notin [of _ _ "ys @ netif # xs"] unfolding registered_def by fastforce
  from set_up_total [OF n assms(2-6), of cf lo] obtain s' where s': "netif_set_up cf lo netif s = Some s'"
      "arp_refs sizes a (arp s') R" "netifs (arp s') = (netifs (arp s))(netif := n\<lparr>nif_flags := nif_flags n OR 1\<rparr>)"
      "netif_list (arp s') = netif_list (arp s)" "table_view (arp s') = table_view (arp s)"
      "\<exists>q b. pbuf_alloc cf PBUF_RAW SIZEOF_ETHARP_PACKET PBUF_RAM (bufs (arp s)) = Some (q, b)
       \<and> frames (arp s') = frames (arp s) @
         (if nif_flags n AND NETIF_FLAG_LINK_UP \<noteq> 0 \<and> nif_flags n AND NETIF_FLAG_ETHARP \<noteq> 0 \<and> q \<noteq> NULL
          then [(netif, q, arp_frame ethbroadcast (nif_hwaddr n) ARP_REQUEST (nif_hwaddr n) (nif_ip_addr n) ethzero (nif_ip_addr n))]
          else [])" unfolding assms(7) by blast
  have reg: "registered s' (ys @ netif # xs)"
    using assms(1,7) s'(3,4) by (subst registered_cong [of _ s]) auto
  have up: "netif_is_up (nif s' netif)" using up_flags(1) [of "nif_flags n"] by (simp add: s'(3) netif_is_up_def)
  have "\<exists>t. ip_route dest (arp s') = Some (netif, t)"
    if dest: "ip_addr_netcmp dest (nif_ip_addr n) (nif_netmask n)"
      "\<forall>m\<in>set ys. netif_is_up (nif s m) \<longrightarrow> \<not> ip_addr_netcmp dest (nif_ip_addr (nif s m)) (nif_netmask (nif s m))" for dest
  proof -
    have "find P (ys @ netif # xs) = Some netif" if "\<forall>m\<in>set ys. \<not> P m" "P netif" for P
      using that by (induction ys) auto
    moreover have "nif s' m = nif s m" if "m \<in> set ys" for m using that d by (auto simp: s'(3))
    moreover have "nif_ip_addr (nif s' netif) = nif_ip_addr n" "nif_netmask (nif s' netif) = nif_netmask n" by (simp_all add: s'(3))
    ultimately have "find (\<lambda>m. netif_is_up (nif s' m) \<and> ip_addr_netcmp dest (nif_ip_addr (nif s' m)) (nif_netmask (nif s' m))) (ys @ netif # xs) = Some netif"
      using dest up by simp
    then have "route_spec dest (arp s') (ys @ netif # xs) = netif" by (simp add: route_spec_def)
    then show ?thesis using ip_route_list [OF reg, of dest] by simp
  qed
  then show ?thesis using s' reg up by (intro exI [of _ s'] conjI) auto
qed

lemma arp_of_parts:
  "arp_inv (s\<lparr>netif_list := l\<rparr>) = arp_inv s" "arp_inv (s\<lparr>netif_default := d\<rparr>) = arp_inv s" "arp_inv (s\<lparr>netifs := ns\<rparr>) = arp_inv s"
  "arp_refs sizes a (s\<lparr>netif_list := l\<rparr>) R = arp_refs sizes a s R" "arp_refs sizes a (s\<lparr>netif_default := d\<rparr>) R = arp_refs sizes a s R"
  "arp_refs sizes a (s\<lparr>netifs := ns\<rparr>) R = arp_refs sizes a s R"
  by (simp_all add: arp_inv_def arp_refs_def)

text \<open>The part of \<^verbatim>\<open>netif_remove\<close> that takes the interface off the list.\<close>

lemma take_off_list:
  assumes "registered s xs" "netif \<in> set xs"
  shows "\<exists>s'. (if netif_list (arp s) = netif then Some (True, s\<lparr>arp := (arp s)\<lparr>netif_list := nif_next (nif s netif)\<rparr>\<rparr>)
      else netif_unlink netif (netif_list (arp s)) s) = Some (True, s')
    \<and> registered s' (remove1 netif xs) \<and> (\<forall>R. arp_refs sizes a (arp s') R = arp_refs sizes a (arp s) R)
    \<and> arp_inv (arp s') = arp_inv (arp s) \<and> arp_table (arp s') = arp_table (arp s) \<and> netif_default (arp s') = netif_default (arp s)"
proof -
  have ch: "chain (\<lambda>n. nif_next (nif s n)) (netif_list (arp s)) xs" using assms(1) by (simp add: registered_def)
  have n: "netif \<noteq> NULL" using chain_NULL_notin [OF ch] assms(2) by metis
  show ?thesis
  proof (cases "netif_list (arp s) = netif")
    case True
    then obtain ys where "xs = netif # ys" "chain (\<lambda>n. nif_next (nif s n)) (nif_next (nif s netif)) ys"
      using ch n assms(2) by (cases xs) auto
    then show ?thesis using True by (auto simp: registered_def arp_of_parts)
  next
    case False
    then obtain t where t: "netif_unlink netif (netif_list (arp s)) s = Some (True, set_nif t (\<lambda>x. x\<lparr>nif_next := nif_next (nif s netif)\<rparr>) s)"
        "chain (\<lambda>n. nif_next (nif (set_nif t (\<lambda>x. x\<lparr>nif_next := nif_next (nif s netif)\<rparr>) s) n)) (netif_list (arp s)) (remove1 netif xs)"
      using netif_unlink_list [OF ch n] assms(2) by auto
    then show ?thesis using False by (simp add: registered_def) (simp add: set_nif_def arp_of_parts)
  qed
qed

text \<open>
  C19. \<^verbatim>\<open>netif_remove\<close> returns and makes the stack forget the interface: the list is the old one without it, it is
  not the default interface any more, and \<^verbatim>\<open>ip_route\<close> never returns it. When it was up and uses ARP, no entry of
  the ARP table refers to it and the packets waiting on such entries are released; the invariant of the
  table and exact reference counts are kept.
\<close>

theorem netif_remove_forgets:
  assumes "registered s xs" "netif \<in> set xs" "arp_inv (arp s)" "arp_refs sizes a (arp s) R"
  shows "\<exists>s'. netif_remove cf netif s = Some s' \<and> registered s' (remove1 netif xs)
    \<and> arp_inv (arp s') \<and> arp_refs sizes a (arp s') R \<and> netif_default (arp s') \<noteq> netif
    \<and> (\<forall>dest. \<exists>n t. ip_route dest (arp s') = Some (n, t) \<and> n \<noteq> netif)
    \<and> (netif_is_up (nif s netif) \<and> nif_flags (nif s netif) AND NETIF_FLAG_ETHARP \<noteq> 0 \<longrightarrow> forgotten netif (arp_table (arp s')))"
proof -
  have ch: "chain (\<lambda>n. nif_next (nif s n)) (netif_list (arp s)) xs" using assms(1) by (simp add: registered_def)
  have n: "netif \<noteq> NULL" using chain_NULL_notin [OF ch] assms(2) by metis
  obtain s1 where s1: "(if netif_is_up (nif s netif) then netif_set_down cf netif s else Some s) = Some s1"
      "arp_inv (arp s1)" "arp_refs sizes a (arp s1) R" "registered s1 xs"
      "netif_is_up (nif s netif) \<and> nif_flags (nif s netif) AND NETIF_FLAG_ETHARP \<noteq> 0 \<longrightarrow> forgotten netif (arp_table (arp s1))"
  proof (cases "netif_is_up (nif s netif)")
    case False
    then show thesis using that [of s] assms by simp
  next
    case True
    from set_down_total [OF n assms(3,4) this, of cf] obtain s1 where "netif_set_down cf netif s = Some s1"
        "arp_inv (arp s1)" "arp_refs sizes a (arp s1) R" "\<forall>m. nif_next (nif s1 m) = nif_next (nif s m)"
        "netif_list (arp s1) = netif_list (arp s)"
        "nif_flags (nif s netif) AND NETIF_FLAG_ETHARP \<noteq> 0 \<longrightarrow> forgotten netif (arp_table (arp s1))" by blast
    moreover from this have "registered s1 xs" using assms(1) by (subst registered_cong [of s1 s]) auto
    ultimately show thesis using that [of s1] True by simp
  qed
  from take_off_list [OF s1(4) assms(2), of sizes a] obtain s2 where
    s2: "(if netif_list (arp s1) = netif then Some (True, s1\<lparr>arp := (arp s1)\<lparr>netif_list := nif_next (nif s1 netif)\<rparr>\<rparr>)
      else netif_unlink netif (netif_list (arp s1)) s1) = Some (True, s2)" "registered s2 (remove1 netif xs)"
      "\<forall>R. arp_refs sizes a (arp s2) R = arp_refs sizes a (arp s1) R" "arp_inv (arp s2) = arp_inv (arp s1)"
      "arp_table (arp s2) = arp_table (arp s1)" by blast
  define s3 where "s3 = (if netif_default (arp s2) = netif then netif_set_default NULL s2 else s2)"
  have run: "netif_remove cf netif s = Some s3"
    unfolding netif_remove_def s1(1) Option.bind.bind_lunit s2(1) using n by (simp add: s3_def)
  have s3: "registered s3 (remove1 netif xs)" "arp_inv (arp s3)" "arp_refs sizes a (arp s3) R"
    "netif_default (arp s3) \<noteq> netif" "arp_table (arp s3) = arp_table (arp s1)"
    using s2 s1 n by (auto simp: s3_def netif_set_default_def arp_of_parts registered_def)
  have "netif \<notin> set (remove1 netif xs)" using chain_distinct [OF ch] by simp
  then have "route_spec dest (arp s3) (remove1 netif xs) \<noteq> netif" for dest
    using s3(4) n route_spec_in [of dest "arp s3" "remove1 netif xs"] by auto
  then show ?thesis using run s3 s1(5) ip_route_list [OF s3(1)] by (intro exI [of _ s3]) (auto, blast)
qed

section \<open>Witnesses\<close>

text \<open>An Ethernet interface at address 1, down with its link up, and no TCP control blocks.\<close>

definition net1 :: "u8_t \<Rightarrow> netif_state" where
  "net1 fl = \<lparr>arp = (arp1 ex1 0)\<lparr>arp_table := replicate 10 entry0, netifs := (\<lambda>_. nif0\<lparr>nif_flags := fl\<rparr>)\<rparr>,
     netif_num = 1, tcp_active_pcbs = NULL, tcp_listen_pcbs = NULL, pcb_next = (\<lambda>_. NULL), pcb_local_ip = (\<lambda>_. 0)\<rparr>"

lemma net1_simps:
  "nif (net1 fl) n = nif0\<lparr>nif_flags := fl\<rparr>" "netif_list (arp (net1 fl)) = 1" "bufs (arp (net1 fl)) = ex1"
  "netif_num (net1 fl) = 1" "frames (arp (net1 fl)) = []" "arp_table (arp (net1 fl)) = replicate 10 entry0"
  by (simp_all add: net1_def arp1_def)

lemma net1_reg: "registered (net1 fl) [1]" "pcbs_ok (net1 fl) [] []"
  by (simp_all add: registered_def net1_simps nif0_def) (simp add: pcbs_ok_def net1_def)

lemma net1_refs: "arp_refs sizes0 4 (arp (net1 fl)) {#}" "arp_inv (arp (net1 fl))"
proof -
  have "queues (replicate 10 entry0) = {#}" by (simp add: queues_empty entry0_def)
  then show "arp_refs sizes0 4 (arp (net1 fl)) {#}" using ex1_refs by (simp add: arp_refs_def net1_simps)
  show "arp_inv (arp (net1 fl))" using table_inv_init by (simp add: arp_inv_def net1_simps) (simp add: net1_def arp1_def)
qed

text \<open>The stub of \<^verbatim>\<open>tcp_abort\<close>, and a driver that names its interface and gives it an MTU.\<close>

definition stub_abort :: abort_fn where
  "stub_abort pcb s = Some s"

definition init1 :: netif_init_fn where
  "init1 n s = Some (ERR_OK, set_nif n (\<lambda>x. x\<lparr>nif_name := (0x65, 0x6e), nif_mtu := 1500\<rparr>) s)"

lemma stub_abort_ok: "abort_ok stub_abort"
  by (auto simp: abort_ok_def stub_abort_def)

lemma init1_ok: "init_ok init1"
  by (auto simp: init_ok_def init1_def)

theorem netif_add_then_find_witness:
  "\<exists>s'. netif_add stub_abort 2 (Some 5) (Some 7) (Some 9) 0 (Some init1) 0 (net1 0) = Some (2, s')
    \<and> netif_find (Some (0x65, 0x6e, 0x31)) s' = Some 2"
proof -
  have pre: "(2::nat) \<notin> set [1]" "(2::nat) \<noteq> NULL" "netif_num (net1 0) < 208" by (simp_all add: net1_simps(4))
  obtain s1 e s2 r s' where s': "init1 2 s1 = Some (e, s2)"
      "netif_add stub_abort 2 (Some 5) (Some 7) (Some 9) 0 (Some init1) 0 (net1 0) = Some (r, s')"
      "if e = ERR_OK then r = 2 \<and> registered s' [2, 1] \<and> nif s' 2 = (nif s2 2)\<lparr>nif_next := netif_list (arp (net1 0))\<rparr>
         \<and> netif_find (Some (fst (nif_name (nif s' 2)), snd (nif_name (nif s' 2)), word_of_nat (48 + netif_num (net1 0)))) s' = Some 2
       else r = NULL \<and> s' = s2 \<and> registered s' [1]"
    using netif_add_then_find [OF net1_reg(1) pre(1,2) net1_reg(2) stub_abort_ok init1_ok pre(3), where ip = 5 and msk = 7 and gw = 9 and st = 0 and input = 0]
    by (elim exE conjE) (rule that)
  then have "e = ERR_OK" "nif_name (nif s2 2) = (0x65, 0x6e)" by (auto simp: init1_def)
  then show ?thesis using s'(2,3) by (auto simp: net1_simps(4))
qed

lemma ex1_alloc:
  assumes "pbuf_alloc cf PBUF_RAW 42 PBUF_RAM ex1 = Some (q, b)"
  shows "q = 20008"
proof -
  have "ram heap1 = 20000" by (simp add: heap1_def mem_init_def Let_def LWIP_MEM_ALIGN_SIZE_def set_field_defs)
  then have "\<exists>h. mem_malloc (to_u16 (LWIP_MEM_ALIGN_SIZE SIZEOF_STRUCT_PBUF + LWIP_MEM_ALIGN_SIZE 42)) heap1 = Some (20008, h)"
    using mem_malloc_Some [OF heap1_inv, of "to_u16 (LWIP_MEM_ALIGN_SIZE SIZEOF_STRUCT_PBUF + LWIP_MEM_ALIGN_SIZE 42)"]
    by (auto simp: norm_size_def LWIP_MEM_ALIGN_SIZE_def Let_def)
  then obtain h where "mem_malloc 68 heap1 = Some (20008, h)" by (auto simp: LWIP_MEM_ALIGN_SIZE_def)
  then show ?thesis
    using assms by (auto simp: pbuf_alloc_def ex1_def Let_def LWIP_MEM_ALIGN_SIZE_def layer_offset_def split: if_splits)
qed

theorem netif_up_routes_witness:
  "\<exists>s' t. netif_set_up (\<lambda>_ _. None) (\<lambda>_ _ _. ERR_OK) 1 (net1 0x30) = Some s' \<and> ip_route 0x0900a8c0 (arp s') = Some (1, t)
    \<and> frames (arp s') = [(1, 20008, arp_frame (replicate 6 255) [2, 0, 0, 0, 0, 1] 1 [2, 0, 0, 0, 0, 1] 0x0100a8c0 (replicate 6 0) 0x0100a8c0)]"
proof -
  have "nif_hwaddr_len nif0 = 6" "length (nif_hwaddr nif0) = 6" by (simp_all add: nif0_def)
  moreover have "ip_addr_netcmp 0x0900a8c0 (nif_ip_addr nif0) (nif_netmask nif0)" by (simp add: ip_addr_netcmp_def nif0_def)
  ultimately obtain s' t q b where s': "netif_set_up (\<lambda>_ _. None) (\<lambda>_ _ _. ERR_OK) 1 (net1 0x30) = Some s'"
      "ip_route 0x0900a8c0 (arp s') = Some (1, t)" "pbuf_alloc (\<lambda>_ _. None) PBUF_RAW 42 PBUF_RAM ex1 = Some (q, b)"
      "frames (arp s') = (if q \<noteq> NULL then [(1, q, arp_frame ethbroadcast (nif_hwaddr nif0) 1 (nif_hwaddr nif0) (nif_ip_addr nif0) ethzero (nif_ip_addr nif0))] else [])"
    using netif_up_routes [of "net1 0x30" "[]" 1 "[]" sizes0 4 "{#}" _ "\<lambda>_ _. None" "\<lambda>_ _ _. ERR_OK", OF _ net1_refs(1) _ _ _ _ refl]
      net1_reg(1) ex1_apart
    by (auto simp: net1_simps netif_is_up_def)
  then have "frames (arp s') = [(1, 20008, arp_frame ethbroadcast (nif_hwaddr nif0) 1 (nif_hwaddr nif0) (nif_ip_addr nif0) ethzero (nif_ip_addr nif0))]"
    using ex1_alloc [OF s'(3)] by simp
  then show ?thesis using s'(1,2) unfolding ethbroadcast_def ethzero_def by (simp add: nif0_def)
qed

theorem netif_remove_forgets_witness:
  "\<exists>s'. netif_remove (\<lambda>_ _. None) 1 (net1 0x31) = Some s' \<and> registered s' [] \<and> forgotten 1 (arp_table (arp s'))"
  using netif_remove_forgets [OF net1_reg(1) _ net1_refs(2,1), of 1 "\<lambda>_ _. None" "0x31"]
  by (auto simp: net1_simps netif_is_up_def)

end
