(* ===== verification/Pbuf_Realloc.thy ===== *)
theory Pbuf_Realloc
  imports Pbuf_Alloc
begin

unbundle bit_operations_syntax

text \<open>
  \<^verbatim>\<open>pbuf_realloc\<close> of \<^verbatim>\<open>core/pbuf.c\<close> on a packet whose pbufs have one owner: the packet afterwards holds the
  first bytes of its data, the pbufs behind them are given back, and a heap pbuf that got shorter is
  trimmed by \<^verbatim>\<open>mem_trim\<close>.
\<close>

section \<open>The loop\<close>

definition shorten :: "nat \<Rightarrow> addr list \<Rightarrow> pbuf_state \<Rightarrow> pbuf_state" where
  "shorten d xs s = s\<lparr>pbufs := (\<lambda>x. if x \<in> set xs then (pbufs s x)\<lparr>pb_tot_len := tot_len s x - d\<rparr> else pbufs s x)\<rparr>"

lemma shorten_Nil [simp]: "shorten d [] s = s"
  by (simp add: shorten_def)

lemma shorten_simps [simp]:
  "bytes (shorten d xs s) = bytes s" "heap (shorten d xs s) = heap s" "pools (shorten d xs s) = pools s"
  "nxt (shorten d xs s) x = nxt s x" "len (shorten d xs s) x = len s x" "payload (shorten d xs s) x = payload s x"
  "pb_type (pbufs (shorten d xs s) x) = pb_type (pbufs s x)" "ref (shorten d xs s) x = ref s x"
  "pb_flags (pbufs (shorten d xs s) x) = pb_flags (pbufs s x)"
  "tot_len (shorten d xs s) x = (if x \<in> set xs then tot_len s x - d else tot_len s x)"
  by (simp_all add: shorten_def)

lemma realloc_loop_chain:
  assumes "chain (nxt s) p ps" "tot_ok s ps" "ps \<noteq> []" "length (data s ps) = d + n" "0 < d"
  shows "\<exists>xs q ys. ps = xs @ q # ys \<and> length (data s xs) \<le> n \<and> n - length (data s xs) \<le> len s q
    \<and> pbuf_realloc_loop d p n s = Some (q, n - length (data s xs), shorten d xs s)"
  using assms
proof (induction ps arbitrary: p n s)
  case (Cons x ps)
  have x: "p = x" "x \<noteq> NULL" "chain (nxt s) (nxt s x) ps" "x \<notin> set ps"
    using Cons.prems(1) chain_distinct [OF Cons.prems(1)] by auto
  show ?case
  proof (cases "len s x < n")
    case False
    then have "pbuf_realloc_loop d p n s = Some (x, n, s)" using x by (simp add: pbuf_realloc_loop.simps)
    then show ?thesis using False by (intro exI [of _ "[]"] exI [of _ x] exI [of _ ps]) simp
  next
    case True
    have tot: "tot_len s x = d + n" "d + n < 65536" using tot_ok_length [OF Cons.prems(2)] Cons.prems(2,4) by auto
    have ps: "length (data s ps) = d + (n - len s x)" "ps \<noteq> []" using Cons.prems(4,5) True by auto
    define s1 where "s1 = upd x (\<lambda>y. y\<lparr>pb_tot_len := n\<rparr>) s"
    have same: "pbufs s1 y = pbufs s y" if "y \<in> set ps" for y using that x(4) by (auto simp: s1_def)
    have ch: "chain (nxt s1) (nxt s x) ps" using x(3) by (subst chain_cong [where nxt = "nxt s"]) (auto simp: s1_def)
    have to: "tot_ok s1 ps" using Cons.prems(2) same by (subst tot_ok_cong [of ps s1 s]) auto
    have dt: "data s1 zs = data s zs" "len s1 z = len s z" for zs z by (rule data_cong) (auto simp: pdata_def s1_def)
    obtain xs q ys where q: "ps = xs @ q # ys" "length (data s xs) \<le> n - len s x"
        "n - len s x - length (data s xs) \<le> len s q"
        "pbuf_realloc_loop d (nxt s x) (n - len s x) s1 = Some (q, n - len s x - length (data s xs), shorten d xs s1)"
      using Cons.IH [OF ch to ps(2) _ Cons.prems(5), of "n - len s x"] unfolding dt using ps(1) by (elim meta_impE exE conjE) (assumption, rule that)
    have "nxt s x \<noteq> NULL" using x(3) ps(2) by (cases ps) auto
    moreover have "to_u16 (tot_len s x + 65536 - d) = n"
      using to_u16_sub [of d "tot_len s x"] tot by simp
    ultimately have "pbuf_realloc_loop d p n s = pbuf_realloc_loop d (nxt s x) (n - len s x) s1"
      using True x(1) by (subst pbuf_realloc_loop.simps) (simp add: Let_def s1_def upd_def)
    moreover have "shorten d xs s1 = shorten d (x # xs) s"
      by (rule pbuf_state.equality) (use x(4) q(1) tot(1) in \<open>auto simp: shorten_def s1_def upd_def fun_eq_iff\<close>)
    ultimately show ?thesis
      using q True x(4) by (intro exI [of _ "x # xs"] exI [of _ q] exI [of _ ys]) (auto simp: s1_def)
  qed
qed simp

section \<open>Trimming\<close>

text \<open>A heap pbuf and its payload lie in one block of the heap.\<close>

definition in_block :: "pbuf_state \<Rightarrow> addr \<Rightarrow> bool" where
  "in_block s q \<longleftrightarrow> (\<exists>bl b e. heap_inv (heap s) bl \<and> (b, e, True) \<in> set bl \<and> q = ram (heap s) + b + SIZEOF_STRUCT_MEM
     \<and> q \<le> payload s q \<and> payload s q + len s q \<le> ram (heap s) + e)"

lemma used_starts_Cons: "used_starts ((x, e, u) # bl) = (if u then insert x (used_starts bl) else used_starts bl)"
  by (auto simp: used_starts_def)

lemma used_starts_trim:
  "used_starts (trim_spec b n bl) = used_starts bl"
proof (induction bl)
  case (Cons x bl)
  obtain y e u where x: "x = (y, e, u)" by (cases x)
  show ?case
  proof (cases bl)
    case Nil
    then show ?thesis by (simp add: x used_starts_Cons)
  next
    case (Cons z bl')
    obtain y' e' u' where "z = (y', e', u')" by (cases z)
    then show ?thesis using Cons.IH Cons by (cases u') (simp_all add: x used_starts_Cons del: trim_spec.simps(1))
  qed
qed simp

lemma rep_end_aligned: "rep h p bl q \<Longrightarrow> q mod 4 = 0 \<Longrightarrow> (b, e, u) \<in> set bl \<Longrightarrow> e mod 4 = 0"
proof (induction bl arbitrary: p)
  case (Cons x bl)
  obtain b' e' u' where x: "x = (b', e', u')" by (cases x)
  show ?case
  proof (cases "(b, e, u) = x")
    case True
    then show ?thesis using Cons.prems x by (cases bl) (auto dest: rep_bounds)
  next
    case False
    then show ?thesis using Cons x by auto
  qed
qed simp

lemma trim_in_block:
  assumes "in_block s q" "k \<le> len s q"
  shows "\<exists>h. mem_trim q (to_u16 (to_u16 (payload s q - q) + k)) (heap s) = Some (q, h) \<and> mem_inv h
    \<and> mem_live h = mem_live (heap s) \<and> ram h = ram (heap s)"
proof -
  obtain bl b e where inv: "heap_inv (heap s) bl" and b: "(b, e, True) \<in> set bl" "q = ram (heap s) + b + 8"
      "q \<le> payload s q" "payload s q + len s q \<le> ram (heap s) + e"
    using assms(1) by (auto simp: in_block_def)
  have r: "rep (mems (heap s)) 0 bl 16000" using inv by (simp add: heap_inv_def)
  have bd: "b + 20 \<le> e" "e \<le> 16000" "b mod 4 = 0" using rep_bounds [OF r b(1)] by auto
  have e4: "e mod 4 = 0" using rep_end_aligned [OF r _ b(1)] by simp
  define n where "n = payload s q - q + k"
  have n: "n \<le> e - b - 8" using b assms(2) bd by (simp add: n_def)
  have "to_u16 (to_u16 (payload s q - q) + k) = n" using n bd by (simp add: n_def)
  moreover have "norm_size n \<le> e - b - 8"
  proof -
    have "(e - b - 8) mod 4 = 0" using e4 bd by presburger
    moreover have "LWIP_MEM_ALIGN_SIZE n = 4 * ((n + 3) div 4)" by (simp add: LWIP_MEM_ALIGN_SIZE_def)
    ultimately have "LWIP_MEM_ALIGN_SIZE n \<le> e - b - 8" using n by presburger
    moreover have "12 \<le> e - b - 8" using bd(1) by linarith
    ultimately show ?thesis using bd by (simp add: norm_size_def Let_def)
  qed
  ultimately obtain h where h: "mem_trim q (to_u16 (to_u16 (payload s q - q) + k)) (heap s) = Some (q, h)"
      "heap_inv h (trim_spec b (norm_size n) bl)" "ram h = ram (heap s)"
    using mem_trim_refines [OF inv b(1), of n] b(2) by auto
  then show ?thesis using mem_live_eq [OF h(2)] mem_live_eq [OF inv] used_starts_trim by (auto simp: mem_inv_def)
qed

section \<open>The whole\<close>

lemma tot_ok_cut:
  assumes "tot_ok s (xs @ q # ys)" "distinct (xs @ q # ys)" "tot_len s q = k + d"
    and "\<And>x. x \<in> set xs \<Longrightarrow> tot_len s' x = tot_len s x - d \<and> len s' x = len s x"
    and "tot_len s' q = k" "len s' q = k"
  shows "tot_ok s' (xs @ [q]) \<and> d \<le> tot_len s (hd (xs @ [q]))"
  using assms
proof (induction xs)
  case Nil
  then show ?case by auto
next
  case (Cons x xs)
  have ih: "tot_ok s' (xs @ [q])" "d \<le> tot_len s (hd (xs @ [q]))" using Cons.IH Cons.prems by auto
  have y: "tot_len s' (hd (xs @ [q])) = tot_len s (hd (xs @ [q])) - d"
    using Cons.prems(3-5) by (cases xs) auto
  have "tot_len s x = len s x + tot_len s (hd (xs @ [q]))" "tot_len s x < 65536"
    using Cons.prems(1) by (cases xs; auto)+
  moreover have "(case xs @ [q] of [] \<Rightarrow> 0 | y # _ \<Rightarrow> tot_len s' y) = tot_len s' (hd (xs @ [q]))" by (cases xs) auto
  ultimately show ?case using ih y Cons.prems(4) [of x] by auto
qed

text \<open>The two steps behind the loop: the heap memory of the last pbuf kept, and the pbufs behind it.\<close>

lemma trim_kept:
  assumes "pb_type (pbufs s q) = PBUF_RAM \<longrightarrow> in_block s q" "k \<le> len s q" "pbuf_inv sizes a s"
  shows "\<exists>h. (if pb_type (pbufs s q) = PBUF_RAM \<and> k \<noteq> len s q
        then map_option (\<lambda>(q, m). (q, (shorten d xs s)\<lparr>heap := m\<rparr>)) (mem_trim q (to_u16 (to_u16 (payload s q - q) + k)) (heap s))
        else Some (q, shorten d xs s)) = Some (q, (shorten d xs s)\<lparr>heap := h\<rparr>)
    \<and> mem_inv h \<and> mem_live h = mem_live (heap s)"
proof (cases "pb_type (pbufs s q) = PBUF_RAM \<and> k \<noteq> len s q")
  case True
  then show ?thesis using trim_in_block [of s q k] assms(1,2) by auto
next
  case False
  have "(shorten d xs s)\<lparr>heap := heap s\<rparr> = shorten d xs s" by (simp add: shorten_def)
  then show ?thesis using False assms(3) by (intro exI [of _ "heap s"]) (auto simp: pbuf_inv_def)
qed

lemma free_tail:
  assumes "chain (nxt s) r ys" "pbuf_inv sizes a s" "\<And>x. x \<in> set ys \<Longrightarrow> ref s x = 1 \<and> owned sizes a s x"
  shows "\<exists>s'. (if r \<noteq> NULL then map_option snd (pbuf_free cf r s) else Some s) = Some s' \<and> pbuf_inv sizes a s'
    \<and> live sizes a s' = live sizes a s - key s ` set ys \<and> bytes s' = bytes s \<and> (\<forall>x. x \<notin> set ys \<longrightarrow> pbufs s' x = pbufs s x)"
proof (cases "r = NULL")
  case True
  then show ?thesis using assms by simp
next
  case False
  have fc: "free_count s ys = length ys" using assms(3) by (intro free_count_all) simp
  then obtain s2 where "pbuf_free_loop cf r 0 s = Some (to_u8 (length ys), s2)" "pbuf_inv sizes a s2"
      "live sizes a s2 = live sizes a s - key s ` set ys" "pbufs s2 = free_refs s ys" "bytes s2 = bytes s"
    using pbuf_free_loop_chain [OF assms(1,2), of 0 cf] assms(3) by auto
  then show ?thesis using False fc by (auto simp: pbuf_free_def free_refs_def)
qed

lemma pbuf_realloc_cut:
  assumes pk: "packet s p ps" and n: "n \<le> tot_len s p" and inv: "pbuf_inv sizes a s"
    and one: "\<forall>x\<in>set ps. ref s x = 1 \<and> owned sizes a s x \<and> (pb_type (pbufs s x) = PBUF_RAM \<longrightarrow> in_block s x)"
  shows "\<exists>s' qs rs. pbuf_realloc cf p n s = Some s' \<and> ps = qs @ rs \<and> packet s' p qs \<and> data s' qs = take n (data s ps)
    \<and> (\<forall>x\<in>set qs. payload s' x = payload s x \<and> pb_type (pbufs s' x) = pb_type (pbufs s x) \<and> ref s' x = 1)
    \<and> bytes s' = bytes s \<and> pbuf_inv sizes a s' \<and> live sizes a s' = live sizes a s - key s ` set rs
    \<and> (\<forall>x. x \<notin> set ps \<longrightarrow> pbufs s' x = pbufs s x)"
proof (cases "n = tot_len s p")
  case True
  then have "pbuf_realloc cf p n s = Some s" using packet_nonNULL [OF pk] by (simp add: pbuf_realloc_def)
  moreover have "take n (data s ps) = data s ps" using packet_length [OF pk] True by simp
  ultimately show ?thesis using pk inv one by (intro exI [of _ s] exI [of _ ps] exI [of _ "[]"]) simp
next
  case False
  define d where "d = tot_len s p - n"
  have p: "p \<noteq> NULL" "chain (nxt s) p ps" "tot_ok s ps" "ps \<noteq> []" using pk packet_nonNULL by (auto simp: packet_def)
  have dn: "length (data s ps) = d + n" "0 < d" using packet_length [OF pk] n False by (auto simp: d_def)
  from realloc_loop_chain [OF p(2-4) dn] obtain xs q ys where
    q: "ps = xs @ q # ys" "length (data s xs) \<le> n" "n - length (data s xs) \<le> len s q"
      "pbuf_realloc_loop d p n s = Some (q, n - length (data s xs), shorten d xs s)" by blast
  define k where "k = n - length (data s xs)"
  have dist: "distinct (xs @ q # ys)" using chain_distinct [OF p(2)] q(1) by simp
  have ch: "chain_to (nxt s) p xs q" "q \<noteq> NULL" "chain (nxt s) (nxt s q) ys"
    using p(2) unfolding q(1) chain_append by auto
  have totq: "tot_len s q = k + d"
    using tot_ok_length [OF tot_ok_append [of s xs "q # ys"]] p(3) dn(1) q(1,2) by (simp add: k_def)
  have lv: "live sizes a (shorten d xs s) = live sizes a s" "key (shorten d xs s) = key s"
    by (simp_all add: live_def key_def fun_eq_iff)
  obtain h where h: "(if pb_type (pbufs s q) = PBUF_RAM \<and> k \<noteq> len s q
        then map_option (\<lambda>(q, m). (q, (shorten d xs s)\<lparr>heap := m\<rparr>)) (mem_trim q (to_u16 (to_u16 (payload s q - q) + k)) (heap s))
        else Some (q, shorten d xs s)) = Some (q, (shorten d xs s)\<lparr>heap := h\<rparr>)"
      "mem_inv h" "mem_live h = mem_live (heap s)"
    using trim_kept [of s q k sizes a d xs] one q(1,3) inv by (auto simp: k_def)
  define s1 where "s1 = upd q (\<lambda>x. x\<lparr>pb_len := k, pb_tot_len := k\<rparr>) ((shorten d xs s)\<lparr>heap := h\<rparr>)"
  have s1: "bytes s1 = bytes s" "pbuf_inv sizes a s1" "live sizes a s1 = live sizes a s" "nxt s1 = nxt s"
      "\<And>x. pbufs s1 x = (if x = q then (pbufs s q)\<lparr>pb_len := k, pb_tot_len := k\<rparr> else pbufs (shorten d xs s) x)"
    using inv h(2,3) dist by (auto simp: s1_def pbuf_inv_def live_def fun_eq_iff)
  have ys1: "pbufs s1 y = pbufs s y" if "y \<in> set ys" for y using that dist by (auto simp: s1(5) shorten_def)
  obtain s2 where s2: "(if nxt s q \<noteq> NULL then map_option snd (pbuf_free cf (nxt s q) s1) else Some s1) = Some s2"
      "pbuf_inv sizes a s2" "live sizes a s2 = live sizes a s - key s ` set ys" "bytes s2 = bytes s"
      "\<And>x. x \<notin> set ys \<Longrightarrow> pbufs s2 x = pbufs s1 x"
  proof -
    have "chain (nxt s1) (nxt s q) ys" using ch(3) unfolding s1(4) .
    moreover have "ref s1 x = 1 \<and> owned sizes a s1 x" if "x \<in> set ys" for x
      using one q(1) that ys1 [OF that] s1(3) by (auto simp: owned_def key_def)
    moreover have "key s1 ` set ys = key s ` set ys" using ys1 by (auto simp: key_def)
    ultimately show thesis using free_tail [of s1 "nxt s q" ys sizes a cf] s1(1-3) that by auto
  qed
  define s' where "s' = upd q (\<lambda>x. x\<lparr>pb_next := NULL\<rparr>) s2"
  have run: "pbuf_realloc cf p n s = Some s'"
  proof -
    have nx: "nxt s1 q = nxt s q" using s1(4) by (rule fun_cong)
    show ?thesis
      using p(1) n False ch(2)
      unfolding pbuf_realloc_def d_def [symmetric] q(4) k_def [symmetric] option.case prod.case shorten_simps h(1)
        Let_def s1_def [symmetric] nx s2(1)
      by (simp add: s'_def)
  qed
  have fq: "pbufs s' q = (pbufs s q)\<lparr>pb_len := k, pb_tot_len := k, pb_next := NULL\<rparr>"
    using dist s2(5) [of q] by (simp add: s'_def s1(5))
  have fx: "pbufs s' x = (pbufs s x)\<lparr>pb_tot_len := tot_len s x - d\<rparr>" if "x \<in> set xs" for x
  proof -
    have "x \<notin> set ys" "x \<noteq> q" using that dist by auto
    then show ?thesis using that s2(5) [of x] by (simp add: s'_def s1(5) shorten_def)
  qed
  have "chain_to (nxt s') p xs q" using ch(1) fx by (subst chain_to_cong [where nxt = "nxt s"]) simp_all
  then have "chain (nxt s') p (xs @ [q])" unfolding chain_append using ch(2) by (intro exI [of _ q]) (simp add: fq)
  moreover have "tot_ok s' (xs @ [q])"
    using tot_ok_cut [of s xs q ys k d s'] p(3) q(1) dist totq fx fq by simp
  moreover have "data s' (xs @ [q]) = take n (data s ps)"
  proof -
    have "bytes s' = bytes s" using s2(4) by (simp add: s'_def)
    then have "data s' xs = data s xs" "pdata s' q = take k (pdata s q)"
      using fx fq q(3) by (auto simp: pdata_def k_def intro!: data_cong)
    then show ?thesis using q(1-3) by (simp add: k_def)
  qed
  moreover have "\<forall>x. x \<notin> set ps \<longrightarrow> pbufs s' x = pbufs s x"
    using s2(5) q(1) by (auto simp: s'_def s1(5) shorten_def)
  moreover have "pbuf_inv sizes a s'" "live sizes a s' = live sizes a s - key s ` set ys" "bytes s' = bytes s"
    using s2 by (simp_all add: s'_def pbuf_inv_def live_def)
  ultimately show ?thesis
    using run q(1) one fx fq
    by (intro exI [of _ s'] exI [of _ "xs @ [q]"] exI [of _ ys]) (auto simp: packet_def)
qed

section \<open>Properties\<close>

text \<open>
  C27. \<^verbatim>\<open>pbuf_realloc\<close> on a packet with a single owner, to a length not above its own, returns and trips no
  assertion. The packet then consists of the first pbufs of the old chain, is well formed and holds exactly
  the first \<open>n\<close> bytes of the old data; the pbufs behind are given back to their allocators and nothing else
  is; no byte of memory and no pbuf outside the packet changes.
\<close>

theorem pbuf_realloc_truncates:
  assumes "packet s p ps" "n \<le> tot_len s p" "pbuf_inv sizes a s"
    and "\<forall>x\<in>set ps. ref s x = 1 \<and> owned sizes a s x \<and> (pb_type (pbufs s x) = PBUF_RAM \<longrightarrow> in_block s x)"
  shows "\<exists>s' qs rs. pbuf_realloc cf p n s = Some s' \<and> ps = qs @ rs \<and> packet s' p qs \<and> data s' qs = take n (data s ps)
    \<and> (\<forall>x\<in>set qs. payload s' x = payload s x \<and> pb_type (pbufs s' x) = pb_type (pbufs s x) \<and> ref s' x = 1)
    \<and> bytes s' = bytes s \<and> pbuf_inv sizes a s' \<and> live sizes a s' = live sizes a s - key s ` set rs
    \<and> (\<forall>x. x \<notin> set ps \<longrightarrow> pbufs s' x = pbufs s x)"
  using assms by (rule pbuf_realloc_cut)

theorem pbuf_realloc_truncates_witness:
  "\<exists>s p s' qs. pbuf_realloc (\<lambda>_ _. None) p 3 s = Some s' \<and> packet s' p qs \<and> data s' qs = [98, 98, 98]"
proof -
  obtain m p where m: "memp_inv sizes0 4 m" "p \<in> memp_live sizes0 4 MEMP_PBUF_POOL m" "p \<noteq> NULL"
    using pools0_taken by blast
  define s where "s = ex0\<lparr>pbufs := (\<lambda>_. (pb0 0 0 60 60)\<lparr>pb_type := PBUF_POOL\<rparr>), pools := m\<rparr>"
  have "packet s p [p]" using m(3) by (simp add: packet_def s_def pb0_def)
  moreover have "pbuf_inv sizes0 4 s" using ex0_inv m(1) by (simp add: s_def pbuf_inv_def)
  moreover have "ref s p = 1 \<and> owned sizes0 4 s p \<and> pb_type (pbufs s p) \<noteq> PBUF_RAM"
    using m(2) by (simp add: owned_def s_def pb0_def key_def store_of_def live_iff)
  ultimately obtain s' qs where "pbuf_realloc (\<lambda>_ _. None) p 3 s = Some s'" "packet s' p qs" "data s' qs = take 3 (data s [p])"
    using pbuf_realloc_truncates [of s p "[p]" 3 sizes0 4 "\<lambda>_ _. None"] by (auto simp: s_def pb0_def)
  moreover have "take 3 (data s [p]) = [98, 98, 98]"
    by (simp add: data_def pdata_def mem_bytes_def s_def ex0_def pb0_def upt_rec)
  ultimately show ?thesis by (intro exI [of _ s] exI [of _ p] exI [of _ s'] exI [of _ qs]) simp
qed

end
