(* ===== verification/Slipif.thy ===== *)
theory Slipif
  imports Etharp Pbuf_Realloc
begin

text \<open>
  The SLIP interface of \<^verbatim>\<open>netif/slipif.c\<close>. The state holds the pbufs, the private data of one interface, the
  bytes handed to \<^verbatim>\<open>sio_send\<close> so far, and the link counters. The serial line is outside: \<open>line\<close> records what is
  sent, and the bytes that \<^verbatim>\<open>sio_tryread\<close> delivers are an argument of \<^verbatim>\<open>slipif_poll\<close>. \<open>cf\<close> is the free function
  of custom pbufs, \<open>input\<close> stands for \<^verbatim>\<open>netif->input\<close>.

  The functions of \<^verbatim>\<open>SLIP_RX_FROM_ISR\<close> are modelled with \<^verbatim>\<open>SLIP_RX_QUEUE\<close>, its default.
  A failed assertion is \<open>None\<close>.
\<close>

section \<open>Data\<close>

datatype slipif_recv_state = SLIP_RECV_NORMAL | SLIP_RECV_ESCAPE

record slipif_priv =
  sl_sd :: addr
  sl_p :: addr
  sl_q :: addr
  sl_state :: slipif_recv_state
  sl_i :: nat
  sl_recved :: nat
  sl_rxpackets :: addr

record slip_state =
  sbufs :: pbuf_state
  priv :: slipif_priv
  line :: "u8_t list"
  slink :: stats_proto

abbreviation (input) SLIP_END :: u8_t where "SLIP_END \<equiv> 0xC0"
abbreviation (input) SLIP_ESC :: u8_t where "SLIP_ESC \<equiv> 0xDB"
abbreviation (input) SLIP_ESC_END :: u8_t where "SLIP_ESC_END \<equiv> 0xDC"
abbreviation (input) SLIP_ESC_ESC :: u8_t where "SLIP_ESC_ESC \<equiv> 0xDD"
abbreviation (input) SLIP_MAX_SIZE :: nat where "SLIP_MAX_SIZE \<equiv> 1500"
abbreviation (input) PBUF_POOL_BUFSIZE :: nat where "PBUF_POOL_BUFSIZE \<equiv> 592"
abbreviation (input) PBUF_LINK_HLEN :: nat where "PBUF_LINK_HLEN \<equiv> 14"

abbreviation (input) NETIF_FLAG_POINTTOPOINT :: u8_t where "NETIF_FLAG_POINTTOPOINT \<equiv> 0x04"

type_synonym slip_input_fn = "addr \<Rightarrow> slip_state \<Rightarrow> (err_t \<times> slip_state) option"

definition set_priv :: "(slipif_priv \<Rightarrow> slipif_priv) \<Rightarrow> slip_state \<Rightarrow> slip_state" where
  "set_priv f s = s\<lparr>priv := f (priv s)\<rparr>"

definition sio_send :: "u8_t \<Rightarrow> slip_state \<Rightarrow> slip_state" where
  "sio_send c s = s\<lparr>line := line s @ [c]\<rparr>"

definition SLIP_STATS_INC :: "((nat \<Rightarrow> nat) \<Rightarrow> stats_proto \<Rightarrow> stats_proto) \<Rightarrow> slip_state \<Rightarrow> slip_state" where
  "SLIP_STATS_INC f s = s\<lparr>slink := f (\<lambda>n. to_u16 (n + 1)) (slink s)\<rparr>"

section \<open>Sending\<close>

text \<open>The inner loop of \<^verbatim>\<open>slipif_output\<close>, over the bytes of one pbuf, and the outer one over the chain.\<close>

fun slip_send_bytes :: "u8_t list \<Rightarrow> slip_state \<Rightarrow> slip_state" where
  "slip_send_bytes [] s = s"
| "slip_send_bytes (c # cs) s =
     slip_send_bytes cs
       (if c = SLIP_END then sio_send SLIP_ESC_END (sio_send SLIP_ESC s)
        else if c = SLIP_ESC then sio_send SLIP_ESC_ESC (sio_send SLIP_ESC s)
        else sio_send c s)"

partial_function (option) slip_send_chain :: "addr \<Rightarrow> slip_state \<Rightarrow> slip_state option" where
  "slip_send_chain q s =
     (if q = NULL then Some s
      else slip_send_chain (nxt (sbufs s) q) (slip_send_bytes (pdata (sbufs s) q) s))"

definition slipif_output :: "addr \<Rightarrow> slip_state \<Rightarrow> (err_t \<times> slip_state) option" where
  "slipif_output p s =
     (if p = NULL then None
      else do {
        s \<leftarrow> slip_send_chain p (sio_send SLIP_END s);
        Some (ERR_OK, sio_send SLIP_END s)
      })"

section \<open>Receiving\<close>

text \<open>The end of \<^verbatim>\<open>slipif_rxbyte\<close>: make sure there is a pbuf, and store one byte.\<close>

definition slip_alloc :: "custom_free \<Rightarrow> slip_state \<Rightarrow> slip_state option" where
  "slip_alloc cf s = do {
     (p, b) \<leftarrow> pbuf_alloc cf PBUF_LINK (PBUF_POOL_BUFSIZE - PBUF_LINK_HLEN) PBUF_POOL (sbufs s);
     let s = set_priv (\<lambda>x. x\<lparr>sl_p := p\<rparr>) (s\<lparr>sbufs := b\<rparr>);
     if p = NULL then Some (SLIP_STATS_INC sp_drop_update s)
     else if sl_q (priv s) \<noteq> NULL
     then map_option (\<lambda>b. s\<lparr>sbufs := b\<rparr>) (pbuf_cat (sl_q (priv s)) p (sbufs s))
     else Some (set_priv (\<lambda>x. x\<lparr>sl_q := p\<rparr>) s)
   }"

definition slip_store :: "u8_t \<Rightarrow> slip_state \<Rightarrow> slip_state" where
  "slip_store c s =
     (let v = priv s; p = sl_p v
      in if p \<noteq> NULL \<and> sl_recved v \<le> SLIP_MAX_SIZE
         then
           let b = sbufs s;
               b = b\<lparr>bytes := (bytes b)(payload b p + sl_i v := c)\<rparr>;
               i = to_u16 (sl_i v + 1);
               v = v\<lparr>sl_recved := to_u16 (sl_recved v + 1), sl_i := i\<rparr>;
               v = (if i \<ge> len b p
                    then v\<lparr>sl_i := 0,
                            sl_p := (if nxt b p \<noteq> NULL \<and> len b (nxt b p) > 0 then nxt b p else NULL)\<rparr>
                    else v)
           in s\<lparr>sbufs := b, priv := v\<rparr>
         else s)"

definition slip_put :: "custom_free \<Rightarrow> u8_t \<Rightarrow> slip_state \<Rightarrow> (addr \<times> slip_state) option" where
  "slip_put cf c s = do {
     s \<leftarrow> (if sl_p (priv s) = NULL then slip_alloc cf s else Some s);
     if sl_p (priv s) = NULL then Some (NULL, s) else Some (NULL, slip_store c s)
   }"

definition slipif_rxbyte :: "custom_free \<Rightarrow> u8_t \<Rightarrow> slip_state \<Rightarrow> (addr \<times> slip_state) option" where
  "slipif_rxbyte cf c s =
     (case sl_state (priv s) of
        SLIP_RECV_NORMAL \<Rightarrow>
          if c = SLIP_END
          then if sl_recved (priv s) > 0
               then do {
                 b \<leftarrow> pbuf_realloc cf (sl_q (priv s)) (sl_recved (priv s)) (sbufs s);
                 let s = SLIP_STATS_INC sp_recv_update (s\<lparr>sbufs := b\<rparr>);
                 Some (sl_q (priv s), set_priv (\<lambda>x. x\<lparr>sl_p := NULL, sl_q := NULL, sl_i := 0, sl_recved := 0\<rparr>) s)
               }
               else Some (NULL, s)
          else if c = SLIP_ESC then Some (NULL, set_priv (\<lambda>x. x\<lparr>sl_state := SLIP_RECV_ESCAPE\<rparr>) s)
          else slip_put cf c s
      | SLIP_RECV_ESCAPE \<Rightarrow>
          slip_put cf (if c = SLIP_ESC_END then SLIP_END else if c = SLIP_ESC_ESC then SLIP_ESC else c)
            (set_priv (\<lambda>x. x\<lparr>sl_state := SLIP_RECV_NORMAL\<rparr>) s))"

definition slip_free :: "custom_free \<Rightarrow> addr \<Rightarrow> slip_state \<Rightarrow> slip_state option" where
  "slip_free cf p s = map_option (\<lambda>(_, b). s\<lparr>sbufs := b\<rparr>) (pbuf_free cf p (sbufs s))"

definition slipif_rxbyte_input :: "custom_free \<Rightarrow> slip_input_fn \<Rightarrow> u8_t \<Rightarrow> slip_state \<Rightarrow> slip_state option" where
  "slipif_rxbyte_input cf input c s = do {
     (p, s) \<leftarrow> slipif_rxbyte cf c s;
     if p \<noteq> NULL
     then do {
       (e, s) \<leftarrow> input p s;
       if e \<noteq> ERR_OK then slip_free cf p s else Some s
     }
     else Some s
   }"

text \<open>\<^verbatim>\<open>slipif_poll\<close>, when the line has the bytes \<open>cs\<close> ready.\<close>

fun slipif_poll :: "custom_free \<Rightarrow> slip_input_fn \<Rightarrow> u8_t list \<Rightarrow> slip_state \<Rightarrow> slip_state option" where
  "slipif_poll cf input [] s = Some s"
| "slipif_poll cf input (c # cs) s = slipif_rxbyte_input cf input c s \<bind> slipif_poll cf input cs"

section \<open>Initialisation\<close>

text \<open>
  \<^verbatim>\<open>slipif_init\<close> fills the private data at the address the heap returns. \<open>sio_open\<close> is the driver's: it maps a
  port number to a descriptor, null when the port cannot be opened. The port number is read through
  \<^verbatim>\<open>netif->state\<close> when that is not null.
\<close>

definition slipif_init :: "(nat \<Rightarrow> addr) \<Rightarrow> addr \<Rightarrow> struct_netif \<Rightarrow> slip_state \<Rightarrow> (err_t \<times> struct_netif \<times> slip_state) option" where
  "slipif_init sio_open output n s =
     (case mem_malloc 40 (heap (sbufs s)) of
        None \<Rightarrow> None
      | Some (pr, m) \<Rightarrow>
          let s = s\<lparr>sbufs := (sbufs s)\<lparr>heap := m\<rparr>\<rparr>
          in if pr = NULL then Some (ERR_MEM, n, s)
             else
               let n = n\<lparr>nif_name := (0x73, 0x6c), nif_output := output, nif_mtu := SLIP_MAX_SIZE,
                          nif_flags := nif_flags n OR NETIF_FLAG_POINTTOPOINT\<rparr>;
                   sio_num = (if nif_state n \<noteq> NULL then unat (bytes (sbufs s) (nif_state n)) else nif_num n);
                   sd = sio_open sio_num
               in if sd = NULL
                  then map_option (\<lambda>m. (ERR_IF, n, s\<lparr>sbufs := (sbufs s)\<lparr>heap := m\<rparr>\<rparr>)) (mem_free pr (heap (sbufs s)))
                  else Some (ERR_OK, n\<lparr>nif_state := pr\<rparr>,
                         s\<lparr>priv := \<lparr>sl_sd = sd, sl_p = NULL, sl_q = NULL, sl_state = SLIP_RECV_NORMAL, sl_i = 0,
                                    sl_recved = 0, sl_rxpackets = NULL\<rparr>\<rparr>))"

section \<open>Receiving from an interrupt\<close>

text \<open>The search for the last pbuf of the first packet on the queue, and for the last pbuf of a chain.\<close>

partial_function (option) slip_packet_end :: "pbuf_state \<Rightarrow> addr \<Rightarrow> addr option" where
  "slip_packet_end b q =
     (if len b q \<noteq> tot_len b q \<and> nxt b q \<noteq> NULL then slip_packet_end b (nxt b q) else Some q)"

partial_function (option) slip_chain_end :: "pbuf_state \<Rightarrow> addr \<Rightarrow> addr option" where
  "slip_chain_end b q = (if nxt b q \<noteq> NULL then slip_chain_end b (nxt b q) else Some q)"

partial_function (option) slipif_process_rxqueue :: "custom_free \<Rightarrow> slip_input_fn \<Rightarrow> slip_state \<Rightarrow> slip_state option" where
  "slipif_process_rxqueue cf input s =
     (let p = sl_rxpackets (priv s)
      in if p = NULL then Some s
         else case slip_packet_end (sbufs s) p of
           None \<Rightarrow> None
         | Some q \<Rightarrow>
             let s = set_priv (\<lambda>x. x\<lparr>sl_rxpackets := nxt (sbufs s) q\<rparr>) s;
                 s = s\<lparr>sbufs := upd q (\<lambda>x. x\<lparr>pb_next := NULL\<rparr>) (sbufs s)\<rparr>
             in case input p s of
                  None \<Rightarrow> None
                | Some (e, s) \<Rightarrow>
                    (case (if e \<noteq> ERR_OK then slip_free cf p s else Some s) of
                       None \<Rightarrow> None
                     | Some s \<Rightarrow> slipif_process_rxqueue cf input s))"

definition slipif_rxbyte_enqueue :: "custom_free \<Rightarrow> u8_t \<Rightarrow> slip_state \<Rightarrow> slip_state option" where
  "slipif_rxbyte_enqueue cf c s = do {
     (p, s) \<leftarrow> slipif_rxbyte cf c s;
     if p \<noteq> NULL
     then if sl_rxpackets (priv s) \<noteq> NULL
          then do {
            q \<leftarrow> slip_chain_end (sbufs s) p;
            Some (s\<lparr>sbufs := upd q (\<lambda>x. x\<lparr>pb_next := p\<rparr>) (sbufs s)\<rparr>)
          }
          else Some (set_priv (\<lambda>x. x\<lparr>sl_rxpackets := p\<rparr>) s)
     else Some s
   }"

definition slipif_received_byte :: "custom_free \<Rightarrow> u8_t \<Rightarrow> slip_state \<Rightarrow> slip_state option" where
  "slipif_received_byte cf c s = slipif_rxbyte_enqueue cf c s"

fun slipif_received_bytes :: "custom_free \<Rightarrow> u8_t list \<Rightarrow> slip_state \<Rightarrow> slip_state option" where
  "slipif_received_bytes cf [] s = Some s"
| "slipif_received_bytes cf (c # cs) s = slipif_rxbyte_enqueue cf c s \<bind> slipif_received_bytes cf cs"

end
