(* ===== verification/Slipif_Props.thy ===== *)
theory Slipif_Props
  imports Slipif
begin

unbundle bit_operations_syntax

text \<open>
  What \<^verbatim>\<open>slipif_output\<close> sends, and what \<^verbatim>\<open>slipif_rxbyte\<close> makes of it: the invariant of a packet being received, kept
  by every byte as long as the pool has pbufs left.
\<close>

section \<open>The code on the line\<close>

definition slip_escape :: "u8_t \<Rightarrow> u8_t list" where
  "slip_escape c = (if c = SLIP_END then [SLIP_ESC, SLIP_ESC_END] else if c = SLIP_ESC then [SLIP_ESC, SLIP_ESC_ESC] else [c])"

definition slip_encode :: "u8_t list \<Rightarrow> u8_t list" where
  "slip_encode d = SLIP_END # concat (map slip_escape d) @ [SLIP_END]"

lemma slip_send_bytes_line: "slip_send_bytes cs s = s\<lparr>line := line s @ concat (map slip_escape cs)\<rparr>"
  by (induction cs arbitrary: s) (auto simp: sio_send_def slip_escape_def)

lemma slip_send_chain_line:
  "chain (nxt (sbufs s)) q qs \<Longrightarrow> slip_send_chain q s = Some (s\<lparr>line := line s @ concat (map slip_escape (data (sbufs s) qs))\<rparr>)"
proof (induction qs arbitrary: q s)
  case Nil
  then show ?case by (simp add: slip_send_chain.simps)
next
  case (Cons x qs)
  then show ?case by (simp add: slip_send_chain.simps [of x] slip_send_bytes_line)
qed

lemma slipif_output_line:
  assumes "packet (sbufs s) p ps"
  shows "slipif_output p s = Some (ERR_OK, s\<lparr>line := line s @ slip_encode (data (sbufs s) ps)\<rparr>)"
  using slip_send_chain_line [of "sio_send SLIP_END s" p ps] assms packet_nonNULL [OF assms]
  by (simp add: slipif_output_def slip_encode_def sio_send_def packet_def)

section \<open>A fresh pair of pbufs\<close>

text \<open>
  The length asked for is 578, the pool's pbufs hold 576 bytes behind the aligned link header: every
  allocation takes two of them, the second for two bytes.
\<close>

definition slip_pair :: "addr \<Rightarrow> addr \<Rightarrow> pbuf_state \<Rightarrow> addr \<Rightarrow> pbuf" where
  "slip_pair x y b = (pbufs b)(
     x := \<lparr>pb_next = y, pb_payload = x + 40, pb_tot_len = 578, pb_len = 576, pb_type = PBUF_POOL, pb_flags = 0, pb_ref = 1\<rparr>,
     y := \<lparr>pb_next = NULL, pb_payload = y + 24, pb_tot_len = 2, pb_len = 2, pb_type = PBUF_POOL, pb_flags = 0, pb_ref = 1\<rparr>)"

lemma slip_alloc_pair:
  assumes r: "memp_rep sizes a (pools b) free" and fr: "free MEMP_PBUF_POOL = x # y # zs"
  shows "\<exists>m. pbuf_alloc cf PBUF_LINK 578 PBUF_POOL b = Some (x, b\<lparr>pools := m, pbufs := slip_pair x y b\<rparr>)
    \<and> memp_rep sizes a m (free(MEMP_PBUF_POOL := zs))"
proof -
  have t: "(9::nat) < 10" by simp
  obtain m1 where m1: "memp_malloc 9 (pools b) = Some (x, m1)" "memp_rep sizes a m1 (free(9 := y # zs))"
    using memp_malloc_pop [OF r t fr] by blast
  obtain m2 where m2: "memp_malloc 9 m1 = Some (y, m2)" "memp_rep sizes a m2 (free(9 := zs))"
    using memp_malloc_pop [OF m1(2) t, of y zs] by auto
  have ok: "sizes_ok sizes" "a mod 4 = 0" "0 < a" and ch: "chain (memp_next (pools b)) (memp_tab (pools b) 9) (x # y # zs)"
      and el: "x \<in> set (pool_elems sizes a 9)" "y \<in> set (pool_elems sizes a 9)"
    using r fr unfolding memp_rep_def by (auto dest!: spec [of _ "9::nat"])
  have x: "x mod 4 = 0" "x \<noteq> 0" "y mod 4 = 0" "y \<noteq> 0" "x \<noteq> y"
    using pool_elems_aligned [OF ok t el(1)] pool_elems_aligned [OF ok t el(2)] chain_distinct [OF ch] by auto
  have al: "LWIP_MEM_ALIGN_SIZE (x + (24 + layer_offset PBUF_LINK)) = x + 40" "LWIP_MEM_ALIGN_SIZE (layer_offset PBUF_LINK) = 16"
    using layer_offset_aligned(1) [OF x(1), of PBUF_LINK] by (simp_all add: LWIP_MEM_ALIGN_SIZE_def layer_offset_def)
  define b1 where "b1 = b\<lparr>pools := m1, pbufs := (pbufs b)(x := (pbufs b x)\<lparr>pb_type := PBUF_POOL, pb_next := NULL,
    pb_payload := x + 40, pb_tot_len := 578, pb_len := 576, pb_ref := 1\<rparr>)\<rparr>"
  define b2 where "b2 = b\<lparr>pools := m2, pbufs := slip_pair x y b\<rparr>"
  have al2: "(x + 40) mod 4 = 0" "(y + 24) mod 4 = 0" using x by presburger+
  have stop: "pbuf_pool_tail cf p q 0 b' = Some (True, b')" for p q b' by (simp add: pbuf_pool_tail.simps)
  have tail: "pbuf_pool_tail cf x x 2 b1 = Some (True, upd x (\<lambda>p. p\<lparr>pb_flags := pb_flags (pbufs b x)\<rparr>) b2)"
    using x al2 m2(1) unfolding pbuf_pool_tail.simps [of cf x x 2 b1]
    by (cases "pbufs b x"; cases "pbufs b y") (simp add: b1_def b2_def slip_pair_def Let_def upd_def stop fun_upd_twist)
  have fin: "upd x (\<lambda>p. p\<lparr>pb_ref := 1, pb_flags := 0\<rparr>) (upd x (\<lambda>p. p\<lparr>pb_flags := pb_flags (pbufs b x)\<rparr>) b2) = b2"
    using x by (simp add: b2_def upd_def slip_pair_def fun_upd_twist)
  have "pbuf_alloc cf PBUF_LINK 578 PBUF_POOL b = Some (x, b2)"
    using m1(1) x al al2 tail fin unfolding pbuf_alloc_def by (simp add: Let_def upd_def b1_def)
  then show ?thesis using m2(2) by (auto simp: b2_def)
qed


section \<open>A packet being received\<close>

text \<open>
  \<open>d\<close> are the bytes received so far, \<open>ps\<close> the pbufs they are in, \<open>free\<close> the free lists of the pools. The cursor
  stands in one of the pbufs, or is null when all of them are full.
\<close>

definition cursor :: "slip_state \<Rightarrow> addr list \<Rightarrow> u8_t list \<Rightarrow> bool" where
  "cursor s ps d \<longleftrightarrow>
     (if sl_p (priv s) = NULL then sl_i (priv s) = 0 \<and> d = data (sbufs s) ps
      else \<exists>xs ys. ps = xs @ sl_p (priv s) # ys \<and> sl_i (priv s) < len (sbufs s) (sl_p (priv s))
        \<and> d = data (sbufs s) xs @ take (sl_i (priv s)) (pdata (sbufs s) (sl_p (priv s)))
        \<and> (\<forall>y\<in>set ys. 0 < len (sbufs s) y))"

definition recv_inv ::
  "(memp_t \<Rightarrow> nat) \<Rightarrow> addr \<Rightarrow> (memp_t \<Rightarrow> addr list) \<Rightarrow> addr list \<Rightarrow> u8_t list \<Rightarrow> slip_state \<Rightarrow> bool" where
  "recv_inv sizes a free ps d s \<longleftrightarrow>
     memp_rep sizes a (pools (sbufs s)) free \<and> mem_inv (heap (sbufs s))
     \<and> sl_recved (priv s) = length d \<and> length d \<le> SLIP_MAX_SIZE + 1
     \<and> (\<forall>x\<in>set ps. pool_pbuf sizes a (sbufs s) x \<and> x \<notin> set (free MEMP_PBUF_POOL))
     \<and> (if ps = [] then sl_q (priv s) = NULL else packet (sbufs s) (sl_q (priv s)) ps)
     \<and> length (data (sbufs s) ps) \<le> length d + 578 \<and> cursor s ps d"

text \<open>The bytes there is room for.\<close>

definition room :: "(memp_t \<Rightarrow> addr list) \<Rightarrow> addr list \<Rightarrow> u8_t list \<Rightarrow> slip_state \<Rightarrow> nat" where
  "room free ps d s = length (data (sbufs s) ps) - length d + 578 * (length (free MEMP_PBUF_POOL) div 2)"

lemma cursor_length: "cursor s ps d \<Longrightarrow> length d \<le> length (data (sbufs s) ps)"
  by (auto simp: cursor_def split: if_splits)

lemma pool_apart:
  assumes "x \<in> set (pool_elems sizes a t)" "y \<in> set (pool_elems sizes a t)" "x \<noteq> y"
  shows "x + sizes t \<le> y \<or> y + sizes t \<le> x"
proof -
  obtain i j where ij: "x = pool_base sizes a t + i * sizes t" "y = pool_base sizes a t + j * sizes t"
    using assms(1,2) by (auto simp: pool_elems_def)
  then have "i \<noteq> j" using assms(3) by auto
  then consider "Suc i \<le> j" | "Suc j \<le> i" by linarith
  then show ?thesis
  proof cases
    case 1
    then have "Suc i * sizes t \<le> j * sizes t" by (rule mult_le_mono1)
    then show ?thesis using ij by simp
  next
    case 2
    then have "Suc j * sizes t \<le> i * sizes t" by (rule mult_le_mono1)
    then show ?thesis using ij by simp
  qed
qed

lemma cursorI:
  assumes "sl_p (priv s) \<noteq> NULL" "ps = xs @ sl_p (priv s) # ys" "sl_i (priv s) < len (sbufs s) (sl_p (priv s))"
    and "d = data (sbufs s) xs @ take (sl_i (priv s)) (pdata (sbufs s) (sl_p (priv s)))" "\<forall>y\<in>set ys. 0 < len (sbufs s) y"
  shows "cursor s ps d"
  using assms unfolding cursor_def by auto

text \<open>The pair of pbufs beside the ones the packet has.\<close>

lemma slip_pair_fresh:
  assumes inv: "recv_inv sizes a free ps d s" and fr: "free MEMP_PBUF_POOL = x # y # zs"
    and b1: "b1 = (sbufs s)\<lparr>pools := m, pbufs := slip_pair x y (sbufs s)\<rparr>"
  shows "x \<noteq> NULL" "y \<noteq> NULL" "x \<noteq> y" "x \<notin> set ps" "y \<notin> set ps" "\<forall>z\<in>set (ps @ [x, y]). pool_pbuf sizes a b1 z \<and> z \<notin> set zs"
    and "packet b1 x [x, y]" "len b1 x = 576" "len b1 y = 2" "length (data b1 [x, y]) = 578" "data b1 ps = data (sbufs s) ps"
    and "ps \<noteq> [] \<Longrightarrow> packet b1 (sl_q (priv s)) ps"
proof -
  have r: "memp_rep sizes a (pools (sbufs s)) free" and pp: "\<forall>x\<in>set ps. pool_pbuf sizes a (sbufs s) x \<and> x \<notin> set (free 9)"
    and pk: "ps \<noteq> [] \<Longrightarrow> packet (sbufs s) (sl_q (priv s)) ps"
    using inv by (auto simp: recv_inv_def)
  have t: "(9::nat) < 10" by simp
  have ok: "sizes_ok sizes" "a mod 4 = 0" "0 < a"
      and ch: "chain (memp_next (pools (sbufs s))) (memp_tab (pools (sbufs s)) 9) (x # y # zs)"
      and el: "x \<in> set (pool_elems sizes a 9)" "y \<in> set (pool_elems sizes a 9)"
    using r fr unfolding memp_rep_def by (auto dest!: spec [of _ "9::nat"])
  show xy: "x \<noteq> NULL" "y \<noteq> NULL" "x \<noteq> y"
    using pool_elems_aligned [OF ok t el(1)] pool_elems_aligned [OF ok t el(2)] chain_distinct [OF ch] by auto
  show new: "x \<notin> set ps" "y \<notin> set ps" using pp fr by auto
  have old: "pbufs b1 z = pbufs (sbufs s) z" if "z \<in> set ps" for z using that new by (auto simp: b1 slip_pair_def)
  show "packet b1 x [x, y]" "len b1 x = 576" "len b1 y = 2" "length (data b1 [x, y]) = 578"
    using xy by (simp_all add: packet_def b1 slip_pair_def)
  show "data b1 ps = data (sbufs s) ps" using old by (intro data_cong) (auto simp: pdata_def b1)
  have "pool_pbuf sizes a b1 x" "pool_pbuf sizes a b1 y" using el xy by (auto simp: pool_pbuf_def b1 slip_pair_def)
  moreover have "\<forall>z\<in>set ps. pool_pbuf sizes a b1 z" using pp old by (auto simp: pool_pbuf_def)
  ultimately show "\<forall>z\<in>set (ps @ [x, y]). pool_pbuf sizes a b1 z \<and> z \<notin> set zs" using pp fr chain_distinct [OF ch] by auto
  show "packet b1 (sl_q (priv s)) ps" if "ps \<noteq> []"
    using pk [OF that] old by (subst packet_cong [of ps b1 "sbufs s"]) auto
qed

lemma slip_alloc_step:
  assumes inv: "recv_inv sizes a free ps d s" and p: "sl_p (priv s) = NULL" and two: "2 \<le> length (free MEMP_PBUF_POOL)"
    and d: "length d \<le> SLIP_MAX_SIZE"
  shows "\<exists>s' free' ps'. slip_alloc cf s = Some s' \<and> recv_inv sizes a free' ps' d s' \<and> sl_p (priv s') \<noteq> NULL
    \<and> sl_state (priv s') = sl_state (priv s) \<and> room free' ps' d s' = room free ps d s"
proof -
  define b where "b = sbufs s"
  have r: "memp_rep sizes a (pools b) free" "mem_inv (heap b)"
    and pk: "if ps = [] then sl_q (priv s) = NULL else packet b (sl_q (priv s)) ps"
    and cur: "sl_i (priv s) = 0" "d = data b ps" "sl_recved (priv s) = length d"
    using inv p by (auto simp: recv_inv_def cursor_def b_def)
  obtain x y zs where fr: "free 9 = x # y # zs" using two by (cases "free 9" rule: list.exhaust; cases "tl (free 9)") auto
  obtain m where m: "pbuf_alloc cf PBUF_LINK 578 PBUF_POOL b = Some (x, b\<lparr>pools := m, pbufs := slip_pair x y b\<rparr>)"
      "memp_rep sizes a m (free(9 := zs))"
    using slip_alloc_pair [OF r(1), of x y zs cf] fr by auto
  define b1 where "b1 = b\<lparr>pools := m, pbufs := slip_pair x y b\<rparr>"
  note fresh = slip_pair_fresh [OF inv fr b1_def [unfolded b_def]]
  show ?thesis
  proof (cases "ps = []")
    case True
    define s' where "s' = set_priv (\<lambda>v. v\<lparr>sl_q := x\<rparr>) (set_priv (\<lambda>v. v\<lparr>sl_p := x\<rparr>) (s\<lparr>sbufs := b1\<rparr>))"
    have s': "sbufs s' = b1" "priv s' = (priv s)\<lparr>sl_p := x, sl_q := x\<rparr>" by (simp_all add: s'_def set_priv_def)
    have run: "slip_alloc cf s = Some s'"
      using m(1) fresh(1) pk True by (simp add: slip_alloc_def b_def [symmetric] b1_def [symmetric] s'_def set_priv_def)
    have "cursor s' [x, y] d"
      by (rule cursorI [where xs = "[]" and ys = "[y]"]) (use cur fresh True in \<open>simp_all add: s'\<close>)
    then have "recv_inv sizes a (free(9 := zs)) [x, y] d s'"
      using m(2) r(2) cur True fresh d unfolding recv_inv_def s' by (simp, simp add: b1_def)
    moreover have "room (free(9 := zs)) [x, y] d s' = room free ps d s"
      using fresh(10) True fr cur(2) by (simp add: room_def s' b_def)
    ultimately show ?thesis using run fresh(1) by (intro exI [of _ s'] exI conjI) (auto simp: s')
  next
    case False
    define b2 where "b2 = b1\<lparr>pbufs := cat_pbufs ps x b1\<rparr>"
    define s' where "s' = (set_priv (\<lambda>v. v\<lparr>sl_p := x\<rparr>) (s\<lparr>sbufs := b2\<rparr>))"
    have s': "sbufs s' = b2" "priv s' = (priv s)\<lparr>sl_p := x\<rparr>" by (simp_all add: s'_def set_priv_def)
    have cat: "pbuf_cat (sl_q (priv s)) x b1 = Some b2" using pbuf_cat_result [OF fresh(12) [OF False] fresh(1,4)] by (simp add: b2_def)
    have "length (data b1 ps) + length (data b1 [x, y]) < 65536" using d cur(2) fresh(10,11) by (simp add: b_def)
    then have b2: "packet b2 (sl_q (priv s)) (ps @ [x, y])" "data b2 (ps @ [x, y]) = data b1 ps @ data b1 [x, y]"
      using pbuf_cat_packet [OF fresh(12) [OF False] fresh(7)] fresh(4,5) cat by auto
    have same: "payload b2 z = payload b1 z" "len b2 z = len b1 z" "pb_type (pbufs b2 z) = pb_type (pbufs b1 z)"
        "pb_flags (pbufs b2 z) = pb_flags (pbufs b1 z)" "ref b2 z = ref b1 z" "bytes b2 = bytes b1" for z
      by (simp_all add: b2_def cat_pbufs_def)
    have run: "slip_alloc cf s = Some s'"
      using m(1) cat fresh(1) pk False packet_nonNULL [of b "sl_q (priv s)" ps]
      by (simp add: slip_alloc_def b_def [symmetric] b1_def [symmetric] set_priv_def s'_def)
    have pools2: "\<forall>z\<in>set (ps @ [x, y]). pool_pbuf sizes a b2 z \<and> z \<notin> set zs" using fresh(6) same by (auto simp: pool_pbuf_def)
    have "data b2 ps = d" using same fresh(11) cur(2) by (subst data_cong [of ps b2 b1]) (auto simp: pdata_def b_def)
    then have "cursor s' (ps @ [x, y]) d"
      by (intro cursorI [where xs = ps and ys = "[y]"]) (use cur fresh same in \<open>simp_all add: s'\<close>)
    then have "recv_inv sizes a (free(9 := zs)) (ps @ [x, y]) d s'"
      using m(2) r(2) cur b2 pools2 fresh(10,11) d unfolding recv_inv_def s'
      by (simp add: b_def, simp add: b1_def b2_def b_def)
    moreover have "room (free(9 := zs)) (ps @ [x, y]) d s' = room free ps d s"
      using b2(2) fresh(10,11) fr cur(2) by (simp add: room_def s' b_def)
    ultimately show ?thesis using run fresh(1) by (intro exI [of _ s'] exI conjI) (auto simp: s')
  qed
qed


text \<open>One byte goes into the pbuf at the cursor and into no other.\<close>

lemma store_byte:
  assumes pp: "\<forall>x\<in>set ps. pool_pbuf sizes a b x" and size: "616 \<le> sizes MEMP_PBUF_POOL"
    and p: "p \<in> set ps" "i < len b p" and b': "b' = b\<lparr>bytes := (bytes b)(payload b p + i := c)\<rparr>"
  shows "pdata b' p = (pdata b p)[i := c]" "x \<in> set ps \<Longrightarrow> x \<noteq> p \<Longrightarrow> pdata b' x = pdata b x"
proof -
  show "pdata b' p = (pdata b p)[i := c]"
    by (rule nth_equalityI) (use p(2) in \<open>auto simp: pdata_def b' nth_list_update\<close>)
  assume x: "x \<in> set ps" "x \<noteq> p"
  have xp: "pool_pbuf sizes a b x" "pool_pbuf sizes a b p" using pp x(1) p(1) by auto
  then have "x + sizes 9 \<le> p \<or> p + sizes 9 \<le> x" using pool_apart [of x sizes a 9 p] x(2) by (simp add: pool_pbuf_def)
  then have "payload b p + i < payload b x \<or> payload b x + len b x \<le> payload b p + i"
    using xp p(2) size by (auto simp: pool_pbuf_def)
  then show "pdata b' x = pdata b x" by (auto simp: pdata_def b' intro!: mem_bytes_cong)
qed

lemma slip_store_step:
  assumes inv: "recv_inv sizes a free ps d s" and p: "sl_p (priv s) \<noteq> NULL" and d: "length d \<le> SLIP_MAX_SIZE"
    and size: "616 \<le> sizes MEMP_PBUF_POOL"
  shows "recv_inv sizes a free ps (d @ [c]) (slip_store c s) \<and> sl_state (priv (slip_store c s)) = sl_state (priv s)
    \<and> length (data (sbufs (slip_store c s)) ps) = length (data (sbufs s) ps)"
proof -
  define b p i where "b = sbufs s" and "p = sl_p (priv s)" and "i = sl_i (priv s)"
  define b' where "b' = b\<lparr>bytes := (bytes b)(payload b p + i := c)\<rparr>"
  from inv p obtain xs ys where xs: "ps = xs @ p # ys" "i < len b p" "d = data b xs @ take i (pdata b p)" "\<forall>y\<in>set ys. 0 < len b y"
    and pp: "\<forall>x\<in>set ps. pool_pbuf sizes a b x" and pk: "packet b (sl_q (priv s)) ps"
    and rc: "sl_recved (priv s) = length d" and dl: "length (data b ps) \<le> length d + 578"
    by (auto simp: recv_inv_def cursor_def b_def p_def i_def)
  have pin: "p \<in> set ps" using xs(1) by simp
  note st = store_byte [OF pp size pin xs(2) b'_def]
  have dist: "distinct ps" using pk chain_distinct by (auto simp: packet_def)
  have struct: "pbufs b' = pbufs b" "pools b' = pools b" "heap b' = heap b" by (simp_all add: b'_def)
  have dxs: "data b' xs = data b xs" using st(2) dist xs(1) by (intro data_cong) auto
  have len16: "i + 1 < 65536" "length d + 1 < 65536"
  proof -
    have "len b p \<le> 592" using pp pin by (auto simp: pool_pbuf_def)
    then show "i + 1 < 65536" "length d + 1 < 65536" using xs(2) d by auto
  qed
  define v where "v = (if len b p \<le> i + 1 then (priv s)\<lparr>sl_recved := length d + 1, sl_i := 0,
      sl_p := (if nxt b p \<noteq> NULL \<and> len b (nxt b p) > 0 then nxt b p else NULL)\<rparr>
    else (priv s)\<lparr>sl_recved := length d + 1, sl_i := i + 1\<rparr>)"
  have run: "slip_store c s = s\<lparr>sbufs := b', priv := v\<rparr>"
    using p d rc len16 unfolding slip_store_def Let_def b_def [symmetric] p_def [symmetric] i_def [symmetric] v_def
    by (simp add: b'_def)
  have byte: "take (Suc i) (pdata b' p) = take i (pdata b p) @ [c]"
    using st(1) xs(2) by (simp add: take_Suc_conv_app_nth)
  have whole: "data b' (xs @ [p]) = d @ [c]" if "len b p \<le> i + 1"
  proof -
    have "length (pdata b' p) = Suc i" using xs(2) that struct by simp
    then have "pdata b' p = take (Suc i) (pdata b' p)" by simp
    then show ?thesis using byte dxs xs(3) by simp
  qed
  have nx: "nxt b p = (if ys = [] then NULL else hd ys)"
    using pk unfolding packet_def xs(1) chain_append by (cases ys) auto
  have cur: "cursor (s\<lparr>sbufs := b', priv := v\<rparr>) ps (d @ [c])"
  proof (cases "len b p \<le> i + 1")
    case False
    then show ?thesis
      using p xs struct byte dxs by (intro cursorI [where xs = xs and ys = ys]) (simp_all add: v_def p_def)
  next
    case True
    show ?thesis
    proof (cases ys)
      case Nil
      then show ?thesis using True whole xs(1) nx unfolding cursor_def by (simp add: v_def)
    next
      case (Cons y zs)
      have "0 \<notin> set ps" using chain_NULL_notin [OF packet_chain [OF pk]] .
      then have y: "y \<noteq> NULL" "0 < len b y" "nxt b p = y" using nx xs Cons by auto
      then show ?thesis
        using True whole xs Cons struct
        by (intro cursorI [where xs = "xs @ [p]" and ys = zs]) (simp_all add: v_def)
    qed
  qed
  have same: "length (data b' zs) = length (data b zs)" for zs using struct by (induction zs) auto
  have "packet b' (sl_q (priv s)) ps" using pk struct by (subst packet_cong [of ps b' b]) auto
  then have "recv_inv sizes a free ps (d @ [c]) (s\<lparr>sbufs := b', priv := v\<rparr>)"
    using inv cur d dl struct same [of ps] xs(1) unfolding recv_inv_def
    by (auto simp: v_def b_def [symmetric] pool_pbuf_def)
  then show ?thesis using run same [of ps] by (simp add: v_def b_def)
qed


section \<open>Bytes and packets\<close>

lemma slip_put_step:
  assumes inv: "recv_inv sizes a free ps d s" and rm: "0 < room free ps d s" and d: "length d \<le> SLIP_MAX_SIZE"
    and size: "616 \<le> sizes MEMP_PBUF_POOL"
  shows "\<exists>s' free' ps'. slip_put cf c s = Some (NULL, s') \<and> recv_inv sizes a free' ps' (d @ [c]) s'
    \<and> sl_state (priv s') = sl_state (priv s) \<and> Suc (room free' ps' (d @ [c]) s') = room free ps d s"
proof -
  obtain s1 free1 ps1 where s1: "(if sl_p (priv s) = NULL then slip_alloc cf s else Some s) = Some s1"
      "recv_inv sizes a free1 ps1 d s1" "sl_p (priv s1) \<noteq> NULL" "sl_state (priv s1) = sl_state (priv s)"
      "room free1 ps1 d s1 = room free ps d s"
  proof (cases "sl_p (priv s) = NULL")
    case False
    then show thesis using that [of s free ps] inv by simp
  next
    case True
    then have "length (data (sbufs s) ps) = length d" using inv by (simp add: recv_inv_def cursor_def)
    then have "2 \<le> length (free 9)" using rm by (simp add: room_def)
    from slip_alloc_step [OF inv True this d, of cf] show thesis using that True by auto
  qed
  have run: "slip_put cf c s = Some (NULL, slip_store c s1)"
    unfolding slip_put_def s1(1) using s1(3) by simp
  note st = slip_store_step [OF s1(2,3) d size, of c]
  have "cursor (slip_store c s1) ps1 (d @ [c])" using st by (simp add: recv_inv_def)
  from cursor_length [OF this] have "Suc (room free1 ps1 (d @ [c]) (slip_store c s1)) = room free ps d s"
    using st s1(5) by (simp add: room_def)
  then show ?thesis using run st s1(4) by (intro exI [of _ "slip_store c s1"] exI [of _ free1] exI [of _ ps1]) simp
qed

lemma recv_inv_state:
  "recv_inv sizes a free ps d (set_priv (\<lambda>v. v\<lparr>sl_state := st\<rparr>) s) = recv_inv sizes a free ps d s"
  "room free ps d (set_priv (\<lambda>v. v\<lparr>sl_state := st\<rparr>) s) = room free ps d s"
  by (simp_all add: recv_inv_def cursor_def room_def set_priv_def)

text \<open>The code of one byte of data, whichever it is, appends this byte.\<close>

lemma poll_escape:
  assumes inv: "recv_inv sizes a free ps d s" and rm: "0 < room free ps d s" and d: "length d \<le> SLIP_MAX_SIZE"
    and size: "616 \<le> sizes MEMP_PBUF_POOL" and st: "sl_state (priv s) = SLIP_RECV_NORMAL"
  shows "\<exists>s' free' ps'. (\<forall>cs. slipif_poll cf input (slip_escape c @ cs) s = slipif_poll cf input cs s')
    \<and> recv_inv sizes a free' ps' (d @ [c]) s' \<and> sl_state (priv s') = SLIP_RECV_NORMAL
    \<and> Suc (room free' ps' (d @ [c]) s') = room free ps d s"
proof (cases "c = SLIP_END \<or> c = SLIP_ESC")
  case False
  from slip_put_step [OF inv rm d size, of cf c] obtain s' free' ps' where s': "slip_put cf c s = Some (NULL, s')"
      "recv_inv sizes a free' ps' (d @ [c]) s'" "sl_state (priv s') = sl_state (priv s)"
      "Suc (room free' ps' (d @ [c]) s') = room free ps d s" by blast
  then have "slipif_rxbyte_input cf input c s = Some s'"
    using False st by (simp add: slipif_rxbyte_input_def slipif_rxbyte_def)
  then show ?thesis using s' False st by (intro exI [of _ s'] exI [of _ free'] exI [of _ ps']) (simp add: slip_escape_def)
next
  case True
  define s1 where "s1 = set_priv (\<lambda>v. v\<lparr>sl_state := SLIP_RECV_ESCAPE\<rparr>) s"
  define s2 where "s2 = set_priv (\<lambda>v. v\<lparr>sl_state := SLIP_RECV_NORMAL\<rparr>) s1"
  define e where "e = (if c = SLIP_END then SLIP_ESC_END else SLIP_ESC_ESC)"
  have first: "slipif_rxbyte_input cf input SLIP_ESC s = Some s1"
    using st by (simp add: slipif_rxbyte_input_def slipif_rxbyte_def s1_def)
  have inv2: "recv_inv sizes a free ps d s2" "0 < room free ps d s2"
    using inv rm unfolding s2_def s1_def recv_inv_state by auto
  from slip_put_step [OF inv2 d size, of cf c] obtain s' free' ps' where s': "slip_put cf c s2 = Some (NULL, s')"
      "recv_inv sizes a free' ps' (d @ [c]) s'" "sl_state (priv s') = SLIP_RECV_NORMAL"
      "Suc (room free' ps' (d @ [c]) s') = room free ps d s2" by (auto simp: s2_def set_priv_def)
  have "slipif_rxbyte_input cf input e s1 = Some s'"
    using s'(1) True unfolding slipif_rxbyte_input_def slipif_rxbyte_def s2_def by (auto simp: s1_def set_priv_def e_def)
  moreover have "slip_escape c = [SLIP_ESC, e]" using True by (auto simp: slip_escape_def e_def)
  moreover have "room free ps d s2 = room free ps d s" unfolding s2_def s1_def recv_inv_state ..
  ultimately show ?thesis using first s' by (intro exI [of _ s'] exI [of _ free'] exI [of _ ps']) simp
qed

lemma poll_escapes:
  assumes "recv_inv sizes a free ps d s" "length e \<le> room free ps d s" "length d + length e \<le> SLIP_MAX_SIZE + 1"
    and size: "616 \<le> sizes MEMP_PBUF_POOL" and "sl_state (priv s) = SLIP_RECV_NORMAL"
  shows "\<exists>s' free' ps'. (\<forall>cs. slipif_poll cf input (concat (map slip_escape e) @ cs) s = slipif_poll cf input cs s')
    \<and> recv_inv sizes a free' ps' (d @ e) s' \<and> sl_state (priv s') = SLIP_RECV_NORMAL"
  using assms(1-3,5)
proof (induction e arbitrary: d s free ps)
  case Nil
  then show ?case by auto
next
  case (Cons c e)
  have "0 < room free ps d s" "length d \<le> 1500" using Cons.prems by auto
  from poll_escape [OF Cons.prems(1) this size Cons.prems(4), of cf input c] obtain s1 free1 ps1 where
    s1: "\<forall>cs. slipif_poll cf input (slip_escape c @ cs) s = slipif_poll cf input cs s1"
      "recv_inv sizes a free1 ps1 (d @ [c]) s1" "sl_state (priv s1) = SLIP_RECV_NORMAL"
      "Suc (room free1 ps1 (d @ [c]) s1) = room free ps d s" by blast
  from Cons.IH [OF s1(2) _ _ s1(3)] Cons.prems(2,3) s1(4) obtain s' free' ps' where
    "\<forall>cs. slipif_poll cf input (concat (map slip_escape e) @ cs) s1 = slipif_poll cf input cs s'"
      "recv_inv sizes a free' ps' ((d @ [c]) @ e) s'" "sl_state (priv s') = SLIP_RECV_NORMAL" by auto
  then show ?case using s1(1) by (intro exI [of _ s'] exI [of _ free'] exI [of _ ps']) simp
qed


text \<open>The delimiter behind the data hands the packet on.\<close>

lemma cursor_take: "cursor s ps d \<Longrightarrow> d = take (length d) (data (sbufs s) ps)"
  by (auto simp: cursor_def split: if_splits)

lemma rxbyte_end:
  assumes inv: "recv_inv sizes a free ps d s" and "d \<noteq> []" and st: "sl_state (priv s) = SLIP_RECV_NORMAL"
  shows "\<exists>s' qs. slipif_rxbyte cf SLIP_END s = Some (sl_q (priv s), s') \<and> sl_q (priv s) \<noteq> NULL
    \<and> packet (sbufs s') (sl_q (priv s)) qs \<and> data (sbufs s') qs = d \<and> pbuf_inv sizes a (sbufs s')
    \<and> (\<forall>x\<in>set qs. ref (sbufs s') x = 1 \<and> pb_type (pbufs (sbufs s') x) = PBUF_POOL)
    \<and> priv s' = (priv s)\<lparr>sl_p := NULL, sl_q := NULL, sl_i := 0, sl_recved := 0\<rparr>"
proof -
  define b where "b = sbufs s"
  have r: "memp_rep sizes a (pools b) free" "mem_inv (heap b)" and pp: "\<forall>x\<in>set ps. pool_pbuf sizes a b x \<and> x \<notin> set (free 9)"
    and rc: "sl_recved (priv s) = length d" and cur: "cursor s ps d"
    using inv by (auto simp: recv_inv_def b_def)
  have "ps \<noteq> []" using cursor_length [OF cur] assms(2) by auto
  then have pk: "packet b (sl_q (priv s)) ps" using inv by (simp add: recv_inv_def b_def)
  have pinv: "pbuf_inv sizes a b" using r by (auto simp: pbuf_inv_def memp_inv_def)
  have lv: "memp_live sizes a 9 (pools b) = set (pool_elems sizes a 9) - set (free 9)" using memp_live_eq [OF r(1)] by simp
  have own: "\<forall>x\<in>set ps. ref b x = 1 \<and> owned sizes a b x \<and> (pb_type (pbufs b x) = PBUF_RAM \<longrightarrow> in_block b x)"
    using pp by (auto simp: pool_pbuf_def owned_def key_def store_of_def live_iff lv)
  have n: "length d \<le> tot_len b (sl_q (priv s))" using cursor_length [OF cur] packet_length [OF pk] by (simp add: b_def)
  from pbuf_realloc_cut [OF pk n pinv own, of cf] obtain b' qs rs where
    b': "pbuf_realloc cf (sl_q (priv s)) (length d) b = Some b'" "ps = qs @ rs" "packet b' (sl_q (priv s)) qs"
      "data b' qs = take (length d) (data b ps)" "pbuf_inv sizes a b'"
      "\<forall>x\<in>set qs. payload b' x = payload b x \<and> pb_type (pbufs b' x) = pb_type (pbufs b x) \<and> ref b' x = 1" by blast
  define s' where "s' = set_priv (\<lambda>x. x\<lparr>sl_p := NULL, sl_q := NULL, sl_i := 0, sl_recved := 0\<rparr>) (SLIP_STATS_INC sp_recv_update (s\<lparr>sbufs := b'\<rparr>))"
  have s': "sbufs s' = b'" "priv s' = (priv s)\<lparr>sl_p := NULL, sl_q := NULL, sl_i := 0, sl_recved := 0\<rparr>"
    by (simp_all add: s'_def set_priv_def SLIP_STATS_INC_def)
  have "slipif_rxbyte cf SLIP_END s = Some (sl_q (priv s), s')"
    using st assms(2) b'(1) unfolding slipif_rxbyte_def rc s'_def b_def [symmetric] by (simp add: Let_def SLIP_STATS_INC_def)
  moreover have "data b' qs = d" using b'(4) cursor_take [OF cur] by (simp add: b_def)
  moreover have "\<forall>x\<in>set qs. pb_type (pbufs b' x) = PBUF_POOL" using b'(2,6) pp by (auto simp: pool_pbuf_def)
  ultimately show ?thesis
    using b' packet_nonNULL [OF pk] by (intro exI [of _ s'] exI [of _ qs]) (simp add: s')
qed

text \<open>Nothing received yet.\<close>

definition idle :: "slip_state \<Rightarrow> bool" where
  "idle s \<longleftrightarrow> sl_p (priv s) = NULL \<and> sl_q (priv s) = NULL \<and> sl_i (priv s) = 0 \<and> sl_recved (priv s) = 0
     \<and> sl_state (priv s) = SLIP_RECV_NORMAL"

lemma poll_encoded:
  assumes "idle s" "memp_rep sizes a (pools (sbufs s)) free" "mem_inv (heap (sbufs s))" "616 \<le> sizes MEMP_PBUF_POOL"
    and "d \<noteq> []" "length d \<le> SLIP_MAX_SIZE + 1" "length d \<le> 578 * (length (free MEMP_PBUF_POOL) div 2)"
  shows "\<exists>s' t qs. slipif_poll cf input (slip_encode d) s
      = (do { (e, s) \<leftarrow> input t s'; if e \<noteq> ERR_OK then slip_free cf t s else Some s })
    \<and> packet (sbufs s') t qs \<and> data (sbufs s') qs = d \<and> pbuf_inv sizes a (sbufs s') \<and> idle s'
    \<and> (\<forall>x\<in>set qs. ref (sbufs s') x = 1 \<and> pb_type (pbufs (sbufs s') x) = PBUF_POOL)"
proof -
  have inv: "recv_inv sizes a free [] [] s" "room free [] [] s = 578 * (length (free 9) div 2)" "sl_state (priv s) = SLIP_RECV_NORMAL"
    using assms(1-3) by (auto simp: recv_inv_def cursor_def room_def idle_def)
  have first: "slipif_rxbyte_input cf input SLIP_END s = Some s"
    using assms(1) by (simp add: slipif_rxbyte_input_def slipif_rxbyte_def idle_def)
  from poll_escapes [OF inv(1) _ _ assms(4) inv(3), of d cf input] assms(6,7) inv(2) obtain s1 free1 ps1 where
    s1: "\<forall>cs. slipif_poll cf input (concat (map slip_escape d) @ cs) s = slipif_poll cf input cs s1"
      "recv_inv sizes a free1 ps1 d s1" "sl_state (priv s1) = SLIP_RECV_NORMAL" by auto
  from rxbyte_end [OF s1(2) assms(5) s1(3), of cf] obtain s' qs where
    s': "slipif_rxbyte cf SLIP_END s1 = Some (sl_q (priv s1), s')" "sl_q (priv s1) \<noteq> NULL"
      "packet (sbufs s') (sl_q (priv s1)) qs" "data (sbufs s') qs = d" "pbuf_inv sizes a (sbufs s')"
      "\<forall>x\<in>set qs. ref (sbufs s') x = 1 \<and> pb_type (pbufs (sbufs s') x) = PBUF_POOL"
      "priv s' = (priv s1)\<lparr>sl_p := NULL, sl_q := NULL, sl_i := 0, sl_recved := 0\<rparr>" by blast
  have "slipif_poll cf input [SLIP_END] s1 = slipif_rxbyte_input cf input SLIP_END s1"
    by (simp add: bind_eq_None_conv split: option.splits) (cases "slipif_rxbyte_input cf input SLIP_END s1"; simp)
  then have "slipif_poll cf input (slip_encode d) s = slipif_rxbyte_input cf input SLIP_END s1"
    using first s1(1) by (simp add: slip_encode_def)
  then show ?thesis
    using s' s1(3) by (intro exI [of _ s'] exI [of _ "sl_q (priv s1)"] exI [of _ qs]) (simp add: slipif_rxbyte_input_def idle_def)
qed

end
