(* ===== verification/Slipif_Claims.thy ===== *)
theory Slipif_Claims
  imports Slipif_Props
begin

unbundle bit_operations_syntax

text \<open>
  Properties of the SLIP interface: packets survive the serial line, and what the receive queue of the
  interrupt mode does to the second packet on it.
\<close>

section \<open>Properties\<close>

text \<open>
  C18. A packet sent by \<^verbatim>\<open>slipif_output\<close> arrives. Whatever its bytes and however it is cut into pbufs, the bytes
  put on the line, read by \<^verbatim>\<open>slipif_poll\<close> of an idle receiver with enough free pbufs, make it call
  \<^verbatim>\<open>netif->input\<close> exactly once, with a well-formed packet of pool pbufs, one reference each, that holds the same
  bytes; the receiver is idle again. This holds up to 1501 bytes, one more than \<^verbatim>\<open>SLIP_MAX_SIZE\<close>.
\<close>

theorem slip_roundtrip:
  assumes "packet (sbufs tx) p ps" "d = data (sbufs tx) ps" "d \<noteq> []" "length d \<le> SLIP_MAX_SIZE + 1"
    and "idle rx" "memp_rep sizes a (pools (sbufs rx)) free" "mem_inv (heap (sbufs rx))" "616 \<le> sizes MEMP_PBUF_POOL"
    and "length d \<le> 578 * (length (free MEMP_PBUF_POOL) div 2)"
  shows "\<exists>tx' cs. slipif_output p tx = Some (ERR_OK, tx') \<and> line tx' = line tx @ cs
    \<and> (\<exists>rx' t qs. slipif_poll cf input cs rx
          = (do { (e, s) \<leftarrow> input t rx'; if e \<noteq> ERR_OK then slip_free cf t s else Some s })
        \<and> packet (sbufs rx') t qs \<and> data (sbufs rx') qs = d \<and> idle rx' \<and> pbuf_inv sizes a (sbufs rx')
        \<and> (\<forall>x\<in>set qs. ref (sbufs rx') x = 1 \<and> pb_type (pbufs (sbufs rx') x) = PBUF_POOL))"
proof -
  have "slipif_output p tx = Some (ERR_OK, tx\<lparr>line := line tx @ slip_encode d\<rparr>)"
    using slipif_output_line [OF assms(1)] assms(2) by simp
  moreover obtain rx' t qs where "slipif_poll cf input (slip_encode d) rx
          = (do { (e, s) \<leftarrow> input t rx'; if e \<noteq> ERR_OK then slip_free cf t s else Some s })"
      "packet (sbufs rx') t qs" "data (sbufs rx') qs = d" "idle rx'" "pbuf_inv sizes a (sbufs rx')"
      "\<forall>x\<in>set qs. ref (sbufs rx') x = 1 \<and> pb_type (pbufs (sbufs rx') x) = PBUF_POOL"
    using poll_encoded [OF assms(5-8,3,4,9), of cf input] by blast
  ultimately show ?thesis
    by (intro exI [of _ "tx\<lparr>line := line tx @ slip_encode d\<rparr>"] exI [of _ "slip_encode d"] conjI exI [of _ rx'] exI [of _ t] exI [of _ qs])
      simp_all
qed

text \<open>A chain whose last pbuf points back to the first never ends.\<close>

lemma ring_cyclic:
  assumes "chain nx p ps" "ps \<noteq> []"
  shows "cyclic (nx(last ps := p)) p"
proof -
  define f where "f = nx(last ps := p)"
  have nz: "0 \<notin> set ps" and hd: "p = hd ps" using assms chain_NULL_notin by (auto, cases ps) auto
  have dist: "distinct ps" using assms(1) by (rule chain_distinct)
  have step: "f (ps ! i) = ps ! (Suc i)" if "Suc i < length ps" for i
  proof -
    have "ps ! i \<noteq> last ps" using dist that assms(2) by (simp add: last_conv_nth nth_eq_iff_index_eq)
    moreover have "nx (ps ! i) = ps ! Suc i"
      using assms(1) that by (induction ps arbitrary: p i) (auto simp: nth_Cons' split: if_splits, case_tac ps, auto)
    ultimately show ?thesis by (simp add: f_def)
  qed
  have run: "(f ^^ i) p = ps ! i" if "i < length ps" for i
    using that
  proof (induction i)
    case 0
    then show ?case using hd by (simp add: hd_conv_nth)
  next
    case (Suc i)
    then have "(f ^^ i) p = ps ! i" by simp
    then have "(f ^^ Suc i) p = f (ps ! i)" by (simp only: funpow.simps comp_apply)
    then show ?case using step [of i] Suc.prems by simp
  qed
  define n where "n = length ps"
  have n: "0 < n" using assms(2) by (simp add: n_def)
  have lap: "(f ^^ n) p = p"
  proof -
    have "(f ^^ (n - 1)) p = last ps" using run [of "n - 1"] n assms(2) by (simp add: n_def last_conv_nth)
    moreover have "(f ^^ n) p = f ((f ^^ (n - 1)) p)" using n by (cases n) simp_all
    moreover have "f (last ps) = p" by (simp add: f_def)
    ultimately show ?thesis by simp
  qed
  have "(f ^^ k) p \<noteq> NULL" for k
  proof -
    have "(f ^^ k) p = (f ^^ (k mod n)) p" using lap by (rule funpow_mod_eq [symmetric])
    moreover have "k mod n < length ps" using n by (simp add: n_def)
    ultimately have "(f ^^ k) p \<in> set ps" using run by simp
    then show ?thesis using nz by metis
  qed
  moreover have "(f ^^ (0 + n)) p = (f ^^ 0) p" using lap by simp
  ultimately show ?thesis unfolding cyclic_def f_def [symmetric] using n by blast
qed

lemma chain_end_last: "chain (nxt b) p ps \<Longrightarrow> ps \<noteq> [] \<Longrightarrow> slip_chain_end b p = Some (last ps)"
proof (induction ps arbitrary: p)
  case (Cons x ps)
  then show ?case by (cases ps) (auto simp: slip_chain_end.simps [of b x])
qed simp

text \<open>
  C37. When a packet is complete while another waits on the receive queue, \<^verbatim>\<open>slipif_rxbyte_enqueue\<close> does not append
  it: it closes the new packet into a ring (its last pbuf points to its own first) and leaves the queue as
  it was, so that the packet is neither delivered nor freed, and a walk along it would not end.
\<close>

theorem slip_queue_ring:
  assumes "slipif_rxbyte cf c s = Some (p, s1)" "p \<noteq> NULL" "sl_rxpackets (priv s1) \<noteq> NULL" "packet (sbufs s1) p ps"
  shows "\<exists>s'. slipif_rxbyte_enqueue cf c s = Some s' \<and> priv s' = priv s1 \<and> cyclic (nxt (sbufs s')) p
    \<and> (\<forall>x. x \<notin> set ps \<longrightarrow> pbufs (sbufs s') x = pbufs (sbufs s1) x)"
proof -
  have ps: "chain (nxt (sbufs s1)) p ps" "ps \<noteq> []" using assms(4) by (auto simp: packet_def)
  define s' where "s' = s1\<lparr>sbufs := upd (last ps) (\<lambda>x. x\<lparr>pb_next := p\<rparr>) (sbufs s1)\<rparr>"
  have "slipif_rxbyte_enqueue cf c s = Some s'"
    using assms(1-3) chain_end_last [OF ps] by (simp add: slipif_rxbyte_enqueue_def s'_def)
  moreover have "nxt (sbufs s') = (nxt (sbufs s1))(last ps := p)" by (auto simp: s'_def)
  ultimately show ?thesis using ring_cyclic [OF ps] ps(2) by (auto simp: s'_def)
qed

section \<open>Witnesses\<close>

definition slip0 :: slip_state where
  "slip0 = \<lparr>sbufs = ex0, priv = \<lparr>sl_sd = 1, sl_p = NULL, sl_q = NULL, sl_state = SLIP_RECV_NORMAL, sl_i = 0, sl_recved = 0,
     sl_rxpackets = 300\<rparr>, line = [], slink = \<lparr>sp_xmit = 0, sp_recv = 0, sp_fw = 0, sp_drop = 0, sp_chkerr = 0, sp_lenerr = 0,
     sp_memerr = 0, sp_rterr = 0, sp_proterr = 0, sp_opterr = 0, sp_err = 0, sp_cachehit = 0\<rparr>\<rparr>"

theorem slip_roundtrip_witness:
  "\<exists>tx' rx' t qs. slipif_output 300 slip0 = Some (ERR_OK, tx') \<and> slipif_poll (\<lambda>_ _. None) (\<lambda>_ s. Some (ERR_OK, s)) (line tx') slip0 = Some rx'
    \<and> packet (sbufs rx') t qs \<and> data (sbufs rx') qs = [97, 97, 97, 98]"
proof -
  have e: "sbufs slip0 = ex0" "line slip0 = []" "idle slip0" by (simp_all add: slip0_def idle_def)
  have pk: "packet (sbufs slip0) 300 [300]" "[97, 97, 97, 98] = data (sbufs slip0) [300]"
    using ex0_packets ex0_data unfolding e by simp_all
  have rep: "memp_rep sizes0 4 (pools (sbufs slip0)) (\<lambda>t. rev (pool_elems sizes0 4 t))" "mem_inv (heap (sbufs slip0))"
    using pools0_rep heap0_inv unfolding e by (auto simp: ex0_def mem_inv_def)
  have room: "length (rev (pool_elems sizes0 4 9)) = 16" by (simp add: pool_elems_def memp_num_def)
  show ?thesis
    using slip_roundtrip [OF pk _ _ e(3) rep, of "\<lambda>_ _. None" "\<lambda>_ s. Some (ERR_OK, s)"] room e(2) by (auto simp: sizes0_def)
qed

text \<open>A packet of two pbufs is complete while another one waits.\<close>

definition slip1 :: slip_state where
  "slip1 = slip0\<lparr>priv := (priv slip0)\<lparr>sl_q := 100, sl_recved := 5\<rparr>\<rparr>"

theorem slip_queue_ring_witness:
  "\<exists>s'. slipif_received_byte (\<lambda>_ _. None) SLIP_END slip1 = Some s' \<and> cyclic (nxt (sbufs s')) 100"
proof -
  have "slipif_rxbyte (\<lambda>_ _. None) SLIP_END slip1 = Some (100, SLIP_STATS_INC sp_recv_update (slip0\<lparr>sbufs := ex0\<rparr>))"
    by (simp add: slipif_rxbyte_def slip1_def slip0_def pbuf_realloc_def ex0_def pb0_def set_priv_def SLIP_STATS_INC_def)
  then show ?thesis
    using slip_queue_ring [of "\<lambda>_ _. None" SLIP_END slip1 100 _ "[100, 200]"] ex0_packets(1)
    by (auto simp: slipif_received_byte_def SLIP_STATS_INC_def) (auto simp: slip0_def)
qed

end
