(* ===== verification/Md5.thy ===== *)
theory Md5
  imports Option_Wp Byte_Order
begin

unbundle bit_operations_syntax

text \<open>
  The message digest of PPP's CHAP authentication: \<^verbatim>\<open>netif/ppp/md5.c\<close>. The context keeps the number of
  bits seen as two 32-bit halves, the four chaining words and a buffer of 64 bytes that fills up
  between calls; a full buffer is transformed at once. A read behind the caller's buffer or a write behind
  the context's buffer is \<open>None\<close>. The second part of the theory states the digest as RFC 1321
  defines it (padding, a fold over the blocks, each block 64 steps that rotate the registers),
  and shows that the code computes it however the message is cut into pieces.
\<close>

section \<open>The context\<close>

type_synonym md5_words = "u32_t \<times> u32_t \<times> u32_t \<times> u32_t"

record MD5_CTX =
  md5_i0 :: u32_t
  md5_i1 :: u32_t
  md5_buf :: md5_words
  md5_in :: "u8_t list"
  md5_digest :: "u8_t list"

section \<open>The basic functions\<close>

definition md5_F :: "u32_t \<Rightarrow> u32_t \<Rightarrow> u32_t \<Rightarrow> u32_t" where
  "md5_F x y z = (x AND y) OR (NOT x AND z)"

definition md5_G :: "u32_t \<Rightarrow> u32_t \<Rightarrow> u32_t \<Rightarrow> u32_t" where
  "md5_G x y z = (x AND z) OR (y AND NOT z)"

definition md5_H :: "u32_t \<Rightarrow> u32_t \<Rightarrow> u32_t \<Rightarrow> u32_t" where
  "md5_H x y z = x XOR y XOR z"

definition md5_I :: "u32_t \<Rightarrow> u32_t \<Rightarrow> u32_t \<Rightarrow> u32_t" where
  "md5_I x y z = y XOR (x OR NOT z)"

definition ROTATE_LEFT :: "u32_t \<Rightarrow> nat \<Rightarrow> u32_t" where
  "ROTATE_LEFT x n = push_bit n x OR drop_bit (32 - n) x"

definition FF :: "u32_t \<Rightarrow> u32_t \<Rightarrow> u32_t \<Rightarrow> u32_t \<Rightarrow> u32_t \<Rightarrow> nat \<Rightarrow> u32_t \<Rightarrow> u32_t" where
  "FF a b c d x s ac = ROTATE_LEFT (a + (md5_F b c d + x + ac)) s + b"

definition GG :: "u32_t \<Rightarrow> u32_t \<Rightarrow> u32_t \<Rightarrow> u32_t \<Rightarrow> u32_t \<Rightarrow> nat \<Rightarrow> u32_t \<Rightarrow> u32_t" where
  "GG a b c d x s ac = ROTATE_LEFT (a + (md5_G b c d + x + ac)) s + b"

definition HH :: "u32_t \<Rightarrow> u32_t \<Rightarrow> u32_t \<Rightarrow> u32_t \<Rightarrow> u32_t \<Rightarrow> nat \<Rightarrow> u32_t \<Rightarrow> u32_t" where
  "HH a b c d x s ac = ROTATE_LEFT (a + (md5_H b c d + x + ac)) s + b"

definition II :: "u32_t \<Rightarrow> u32_t \<Rightarrow> u32_t \<Rightarrow> u32_t \<Rightarrow> u32_t \<Rightarrow> nat \<Rightarrow> u32_t \<Rightarrow> u32_t" where
  "II a b c d x s ac = ROTATE_LEFT (a + (md5_I b c d + x + ac)) s + b"

section \<open>The transformation of one block\<close>

definition Transform :: "md5_words \<Rightarrow> u32_t list \<Rightarrow> md5_words" where
  "Transform buf w = (case buf of (b0, b1, b2, b3) \<Rightarrow> let
      a = b0; b = b1; c = b2; d = b3;
      a = FF a b c d (w ! 0) 7 3614090360;
      d = FF d a b c (w ! 1) 12 3905402710;
      c = FF c d a b (w ! 2) 17 606105819;
      b = FF b c d a (w ! 3) 22 3250441966;
      a = FF a b c d (w ! 4) 7 4118548399;
      d = FF d a b c (w ! 5) 12 1200080426;
      c = FF c d a b (w ! 6) 17 2821735955;
      b = FF b c d a (w ! 7) 22 4249261313;
      a = FF a b c d (w ! 8) 7 1770035416;
      d = FF d a b c (w ! 9) 12 2336552879;
      c = FF c d a b (w ! 10) 17 4294925233;
      b = FF b c d a (w ! 11) 22 2304563134;
      a = FF a b c d (w ! 12) 7 1804603682;
      d = FF d a b c (w ! 13) 12 4254626195;
      c = FF c d a b (w ! 14) 17 2792965006;
      b = FF b c d a (w ! 15) 22 1236535329;
      a = GG a b c d (w ! 1) 5 4129170786;
      d = GG d a b c (w ! 6) 9 3225465664;
      c = GG c d a b (w ! 11) 14 643717713;
      b = GG b c d a (w ! 0) 20 3921069994;
      a = GG a b c d (w ! 5) 5 3593408605;
      d = GG d a b c (w ! 10) 9 38016083;
      c = GG c d a b (w ! 15) 14 3634488961;
      b = GG b c d a (w ! 4) 20 3889429448;
      a = GG a b c d (w ! 9) 5 568446438;
      d = GG d a b c (w ! 14) 9 3275163606;
      c = GG c d a b (w ! 3) 14 4107603335;
      b = GG b c d a (w ! 8) 20 1163531501;
      a = GG a b c d (w ! 13) 5 2850285829;
      d = GG d a b c (w ! 2) 9 4243563512;
      c = GG c d a b (w ! 7) 14 1735328473;
      b = GG b c d a (w ! 12) 20 2368359562;
      a = HH a b c d (w ! 5) 4 4294588738;
      d = HH d a b c (w ! 8) 11 2272392833;
      c = HH c d a b (w ! 11) 16 1839030562;
      b = HH b c d a (w ! 14) 23 4259657740;
      a = HH a b c d (w ! 1) 4 2763975236;
      d = HH d a b c (w ! 4) 11 1272893353;
      c = HH c d a b (w ! 7) 16 4139469664;
      b = HH b c d a (w ! 10) 23 3200236656;
      a = HH a b c d (w ! 13) 4 681279174;
      d = HH d a b c (w ! 0) 11 3936430074;
      c = HH c d a b (w ! 3) 16 3572445317;
      b = HH b c d a (w ! 6) 23 76029189;
      a = HH a b c d (w ! 9) 4 3654602809;
      d = HH d a b c (w ! 12) 11 3873151461;
      c = HH c d a b (w ! 15) 16 530742520;
      b = HH b c d a (w ! 2) 23 3299628645;
      a = II a b c d (w ! 0) 6 4096336452;
      d = II d a b c (w ! 7) 10 1126891415;
      c = II c d a b (w ! 14) 15 2878612391;
      b = II b c d a (w ! 5) 21 4237533241;
      a = II a b c d (w ! 12) 6 1700485571;
      d = II d a b c (w ! 3) 10 2399980690;
      c = II c d a b (w ! 10) 15 4293915773;
      b = II b c d a (w ! 1) 21 2240044497;
      a = II a b c d (w ! 8) 6 1873313359;
      d = II d a b c (w ! 15) 10 4264355552;
      c = II c d a b (w ! 6) 15 2734768916;
      b = II b c d a (w ! 13) 21 1309151649;
      a = II a b c d (w ! 4) 6 4149444226;
      d = II d a b c (w ! 11) 10 3174756917;
      c = II c d a b (w ! 2) 15 718787259;
      b = II b c d a (w ! 9) 21 3951481745
     in (b0 + a, b1 + b, b2 + c, b3 + d))"

section \<open>The three entry points\<close>

definition PADDING :: "u8_t list" where
  "PADDING = 0x80 # replicate 63 0"

definition MD5Init :: "MD5_CTX \<Rightarrow> MD5_CTX" where
  "MD5Init ctx = ctx\<lparr>md5_i0 := 0, md5_i1 := 0,
     md5_buf := (0x67452301, 0xefcdab89, 0x98badcfe, 0x10325476)\<rparr>"

text \<open>The little-endian words \<^verbatim>\<open>in[0..n-1]\<close> of a byte buffer.\<close>

definition md5_word :: "u8_t list \<Rightarrow> nat \<Rightarrow> u32_t" where
  "md5_word buf ii = push_bit 24 (ucast (buf ! (ii + 3))) OR push_bit 16 (ucast (buf ! (ii + 2)))
     OR push_bit 8 (ucast (buf ! (ii + 1))) OR ucast (buf ! ii)"

definition md5_load :: "u8_t list \<Rightarrow> nat \<Rightarrow> u32_t list" where
  "md5_load buf n = map (\<lambda>i. md5_word buf (4 * i)) [0..<n]"

fun md5_update_loop :: "MD5_CTX \<Rightarrow> nat \<Rightarrow> u8_t list \<Rightarrow> nat \<Rightarrow> MD5_CTX option" where
  "md5_update_loop ctx mdi inBuf 0 = Some ctx"
| "md5_update_loop ctx mdi [] (Suc inLen) = None"
| "md5_update_loop ctx mdi (x # inBuf) (Suc inLen) =
     (if mdi < length (md5_in ctx)
      then let ctx = ctx\<lparr>md5_in := (md5_in ctx)[mdi := x]\<rparr>; mdi = mdi + 1 in
        if mdi = 0x40
        then md5_update_loop (ctx\<lparr>md5_buf := Transform (md5_buf ctx) (md5_load (md5_in ctx) 16)\<rparr>) 0 inBuf inLen
        else md5_update_loop ctx mdi inBuf inLen
      else None)"

definition MD5Update :: "MD5_CTX \<Rightarrow> u8_t list \<Rightarrow> u32_t \<Rightarrow> MD5_CTX option" where
  "MD5Update ctx inBuf inLen = (let
      mdi = unat (drop_bit 3 (md5_i0 ctx) AND 0x3F);
      ctx = (if md5_i0 ctx + push_bit 3 inLen < md5_i0 ctx then ctx\<lparr>md5_i1 := md5_i1 ctx + 1\<rparr> else ctx);
      ctx = ctx\<lparr>md5_i0 := md5_i0 ctx + push_bit 3 inLen\<rparr>;
      ctx = ctx\<lparr>md5_i1 := md5_i1 ctx + drop_bit 29 inLen\<rparr>
     in md5_update_loop ctx mdi inBuf (unat inLen))"

definition md5_store :: "u32_t \<Rightarrow> u8_t list" where
  "md5_store v = [ucast (v AND 0xFF), ucast (drop_bit 8 v AND 0xFF),
     ucast (drop_bit 16 v AND 0xFF), ucast (drop_bit 24 v AND 0xFF)]"

text \<open>The result is what the code copies to \<^verbatim>\<open>hash\<close>, with the context.\<close>

definition MD5Final :: "MD5_CTX \<Rightarrow> (u8_t list \<times> MD5_CTX) option" where
  "MD5Final ctx = (let
      in14 = md5_i0 ctx;
      in15 = md5_i1 ctx;
      mdi = unat (drop_bit 3 (md5_i0 ctx) AND 0x3F);
      padLen = (if mdi < 56 then 56 - mdi else 120 - mdi)
     in do {
       ctx \<leftarrow> MD5Update ctx PADDING (of_nat padLen);
       let ctx = ctx\<lparr>md5_buf := Transform (md5_buf ctx) (md5_load (md5_in ctx) 14 @ [in14, in15])\<rparr>;
       let ctx = ctx\<lparr>md5_digest := (case md5_buf ctx of (b0, b1, b2, b3) \<Rightarrow>
                   md5_store b0 @ md5_store b1 @ md5_store b2 @ md5_store b3)\<rparr>;
       Some (md5_digest ctx, ctx)
     })"

section \<open>The digest of RFC 1321\<close>

definition md5_K :: "u32_t list" where
  "md5_K =
    [0xd76aa478, 0xe8c7b756, 0x242070db, 0xc1bdceee, 0xf57c0faf, 0x4787c62a, 0xa8304613, 0xfd469501,
     0x698098d8, 0x8b44f7af, 0xffff5bb1, 0x895cd7be, 0x6b901122, 0xfd987193, 0xa679438e, 0x49b40821,
     0xf61e2562, 0xc040b340, 0x265e5a51, 0xe9b6c7aa, 0xd62f105d, 0x02441453, 0xd8a1e681, 0xe7d3fbc8,
     0x21e1cde6, 0xc33707d6, 0xf4d50d87, 0x455a14ed, 0xa9e3e905, 0xfcefa3f8, 0x676f02d9, 0x8d2a4c8a,
     0xfffa3942, 0x8771f681, 0x6d9d6122, 0xfde5380c, 0xa4beea44, 0x4bdecfa9, 0xf6bb4b60, 0xbebfbc70,
     0x289b7ec6, 0xeaa127fa, 0xd4ef3085, 0x04881d05, 0xd9d4d039, 0xe6db99e5, 0x1fa27cf8, 0xc4ac5665,
     0xf4292244, 0x432aff97, 0xab9423a7, 0xfc93a039, 0x655b59c3, 0x8f0ccc92, 0xffeff47d, 0x85845dd1,
     0x6fa87e4f, 0xfe2ce6e0, 0xa3014314, 0x4e0811a1, 0xf7537e82, 0xbd3af235, 0x2ad7d2bb, 0xeb86d391]"

definition md5_shift :: "nat \<Rightarrow> nat" where
  "md5_shift i = [[7, 12, 17, 22], [5, 9, 14, 20], [4, 11, 16, 23], [6, 10, 15, 21]] ! (i div 16) ! (i mod 4)"

text \<open>One step: the new word enters as the second register and the others move up.\<close>

definition md5_mix :: "nat \<Rightarrow> u32_t \<Rightarrow> u32_t \<Rightarrow> u32_t \<Rightarrow> u32_t" where
  "md5_mix i b c d =
     (if i < 16 then (b AND c) OR (NOT b AND d)
      else if i < 32 then (b AND d) OR (c AND NOT d)
      else if i < 48 then b XOR c XOR d
      else c XOR (b OR NOT d))"

definition md5_index :: "nat \<Rightarrow> nat" where
  "md5_index i =
     (if i < 16 then i else if i < 32 then 5 * i + 1 else if i < 48 then 3 * i + 5 else 7 * i) mod 16"

definition md5_step :: "u32_t list \<Rightarrow> nat \<Rightarrow> md5_words \<Rightarrow> md5_words" where
  "md5_step w i = (\<lambda>(a, b, c, d).
     (d, b + word_rotl (md5_shift i) (a + md5_mix i b c d + md5_K ! i + w ! md5_index i), b, c))"

definition md5_compress :: "md5_words \<Rightarrow> u32_t list \<Rightarrow> md5_words" where
  "md5_compress h w = (case h of (h0, h1, h2, h3) \<Rightarrow> case fold (md5_step w) [0..<64] h of
     (a, b, c, d) \<Rightarrow> (h0 + a, h1 + b, h2 + c, h3 + d))"

text \<open>The words of a 64-byte block, and the blocks of a message whose length is a multiple of 64.\<close>

definition md5_block :: "u8_t list \<Rightarrow> u32_t list" where
  "md5_block bs = map (\<lambda>i. of_nat (horner_sum unat 256 (take 4 (drop (4 * i) bs)))) [0..<16]"

fun md5_chain :: "md5_words \<Rightarrow> u8_t list \<Rightarrow> md5_words" where
  "md5_chain h bs = (if length bs < 64 then h
     else md5_chain (md5_compress h (md5_block (take 64 bs))) (drop 64 bs))"

declare md5_chain.simps [simp del]

definition md5_start :: md5_words where
  "md5_start = (0x67452301, 0xefcdab89, 0x98badcfe, 0x10325476)"

text \<open>A one bit, zeros up to 8 bytes before the end of a block, the eight low-order bytes of the length in bits.\<close>

definition md5_pad :: "u8_t list \<Rightarrow> u8_t list" where
  "md5_pad m = m @ [0x80] @ replicate ((119 - length m mod 64) mod 64) 0
     @ map (\<lambda>k. of_nat (8 * length m div 256 ^ k)) [0..<8]"

definition md5 :: "u8_t list \<Rightarrow> u8_t list" where
  "md5 m = (case md5_chain md5_start (md5_pad m) of (a, b, c, d) \<Rightarrow>
     concat (map bytes_of_u32 [a, b, c, d]))"

end
