(* ===== verification/Md5_Props.thy ===== *)
theory Md5_Props
  imports Md5
begin

unbundle bit_operations_syntax

lemma let_step: "(\<And>v. v = e \<Longrightarrow> B v = C) \<Longrightarrow> Let e B = C"
  by (simp add: Let_def)

lemma ROTATE_LEFT_rotl:
  assumes "n < 32"
  shows "ROTATE_LEFT x n = word_rotl n x"
proof (rule bit_word_eqI)
  fix k assume k: "k < LENGTH(32)"
  show "bit (ROTATE_LEFT x n) k \<longleftrightarrow> bit (word_rotl n x) k"
  proof (cases "n \<le> k")
    case True
    then have "(k + 32 - n) mod 32 = k - n" using k by (simp add: mod_if)
    moreover have "\<not> bit x (32 - n + k)" using True k by (auto dest: bit_imp_le_length)
    ultimately show ?thesis using True k assms by (simp add: ROTATE_LEFT_def bit_simps)
  next
    case False
    then show ?thesis using k assms by (simp add: ROTATE_LEFT_def bit_simps add.commute [of k])
  qed
qed

lemma md5_shift_less: "i < 64 \<Longrightarrow> md5_shift i < 32"
proof -
  assume "i < 64"
  then have "i div 16 \<in> {0, 1, 2, 3}" "i mod 4 \<in> {0, 1, 2, 3}" by auto
  then show ?thesis unfolding md5_shift_def by (elim insertE emptyE; simp only:) simp_all
qed

lemma md5_step_FF: "i < 16 \<Longrightarrow> md5_step w i (a, b, c, d)
    = (d, FF a b c d (w ! md5_index i) (md5_shift i) (md5_K ! i), b, c)"
  by (simp add: md5_step_def FF_def ROTATE_LEFT_rotl md5_shift_less md5_mix_def md5_F_def ac_simps)

lemma md5_step_GG: "16 \<le> i \<Longrightarrow> i < 32 \<Longrightarrow> md5_step w i (a, b, c, d)
    = (d, GG a b c d (w ! md5_index i) (md5_shift i) (md5_K ! i), b, c)"
  by (simp add: md5_step_def GG_def ROTATE_LEFT_rotl md5_shift_less md5_mix_def md5_G_def ac_simps)

lemma md5_step_HH: "32 \<le> i \<Longrightarrow> i < 48 \<Longrightarrow> md5_step w i (a, b, c, d)
    = (d, HH a b c d (w ! md5_index i) (md5_shift i) (md5_K ! i), b, c)"
  by (simp add: md5_step_def HH_def ROTATE_LEFT_rotl md5_shift_less md5_mix_def md5_H_def ac_simps)

lemma md5_step_II: "48 \<le> i \<Longrightarrow> i < 64 \<Longrightarrow> md5_step w i (a, b, c, d)
    = (d, II a b c d (w ! md5_index i) (md5_shift i) (md5_K ! i), b, c)"
  by (simp add: md5_step_def II_def ROTATE_LEFT_rotl md5_shift_less md5_mix_def md5_I_def ac_simps)

lemmas md5_steps = md5_step_FF md5_step_GG md5_step_HH md5_step_II

lemma upt_64: "[0..<64] =
    [0, 1, 2, 3, 4, 5, 6, 7, 8, 9, 10, 11, 12, 13, 14, 15,
     16, 17, 18, 19, 20, 21, 22, 23, 24, 25, 26, 27, 28, 29, 30, 31,
     32, 33, 34, 35, 36, 37, 38, 39, 40, 41, 42, 43, 44, 45, 46, 47,
     48, 49, 50, 51, 52, 53, 54, 55, 56, 57, 58, 59, 60, 61, 62, 63]"
  by code_simp

lemma Transform_compress: "Transform h w = md5_compress h w"
proof (cases h)
  case (fields b0 b1 b2 b3)
  show ?thesis
    unfolding fields Transform_def prod.case
    apply (rule let_step)+
    subgoal premises p
      by (simp add: md5_compress_def md5_steps md5_index_def md5_shift_def md5_K_def
          upt_64 p [symmetric] del: One_nat_def)
    done
qed

section \<open>Words and bytes\<close>

lemma le_word:
  "(push_bit 24 (ucast d) OR push_bit 16 (ucast c) OR push_bit 8 (ucast b) OR ucast a :: u32_t)
     = of_nat (horner_sum unat 256 [a :: u8_t, b, c, d])"
proof -
  let ?d = "push_bit 24 (ucast d) :: u32_t" and ?c = "push_bit 16 (ucast c) :: u32_t"
    and ?b = "push_bit 8 (ucast b) :: u32_t" and ?a = "ucast a :: u32_t"
  have bounds: "unat a \<le> 255" "unat b \<le> 255" "unat c \<le> 255" "unat d \<le> 255"
    by (rule unat_u8_le)+
  have d: "unat ?d = 16777216 * unat d" and c: "unat ?c = 65536 * unat c" and b: "unat ?b = 256 * unat b"
  proof -
    have "unat d * 16777216 < 4294967296" "unat c * 65536 < 4294967296" "unat b * 256 < 4294967296"
      using bounds by linarith+
    then show "unat ?d = 16777216 * unat d" "unat ?c = 65536 * unat c" "unat ?b = 256 * unat b"
      by (simp_all only: unat_push_bit unat_ucast_up len_of_numeral_defs) simp_all
  qed
  have ba: "unat (?b OR ?a) = 256 * unat b + unat a"
    by (subst unat_or_disjoint [where n = 8]) (use b bounds in simp_all)
  have cba: "unat (?c OR ?b OR ?a) = 65536 * unat c + unat (?b OR ?a)"
    unfolding or.assoc by (subst unat_or_disjoint [where n = 16]) (use c ba bounds in simp_all)
  have "unat (?d OR ?c OR ?b OR ?a) = 16777216 * unat d + unat (?c OR ?b OR ?a)"
    unfolding or.assoc
    by (subst unat_or_disjoint [where n = 24]) (use d cba ba bounds in \<open>simp_all add: or.assoc\<close>)
  then have "unat (?d OR ?c OR ?b OR ?a) = horner_sum unat 256 [a, b, c, d]"
    using cba ba by simp
  then have "of_nat (unat (?d OR ?c OR ?b OR ?a)) = (of_nat (horner_sum unat 256 [a, b, c, d]) :: u32_t)"
    by (rule arg_cong)
  then show ?thesis by (simp only: of_nat_unat ucast_id)
qed

lemma take4_drop: "k + 4 \<le> length bs \<Longrightarrow> take 4 (drop k bs) = [bs ! k, bs ! (k + 1), bs ! (k + 2), bs ! (k + 3)]"
  by (rule nth_equalityI) (auto simp: less_Suc_eq numeral_eq_Suc)

lemma md5_load_words:
  assumes "4 * n \<le> length bs"
  shows "md5_load bs n = map (\<lambda>i. of_nat (horner_sum unat 256 (take 4 (drop (4 * i) bs)))) [0..<n]"
  unfolding md5_load_def
proof (rule map_cong [OF refl])
  fix i assume "i \<in> set [0..<n]"
  then have "4 * i + 4 \<le> length bs" using assms by simp
  then show "md5_word bs (4 * i) = of_nat (horner_sum unat 256 (take 4 (drop (4 * i) bs)))"
    by (simp only: take4_drop md5_word_def le_word)
qed

lemma md5_load_block: "length bs = 64 \<Longrightarrow> md5_load bs 16 = md5_block bs"
  by (simp add: md5_load_words md5_block_def)

lemma md5_store_bytes: "md5_store v = bytes_of_u32 v"
  unfolding md5_store_def bytes_of_u32_def
  by (auto intro!: bit_word_eqI simp: bit_simps and_mask_numerals)

section \<open>The chain of blocks\<close>

lemma md5_chain_short [simp]: "length t < 64 \<Longrightarrow> md5_chain h t = h"
  by (simp add: md5_chain.simps)

lemma md5_chain_block: "length b = 64 \<Longrightarrow> md5_chain h (b @ t) = md5_chain (md5_compress h (md5_block b)) t"
  by (subst md5_chain.simps) simp

lemma md5_chain_append:
  "64 dvd length xs \<Longrightarrow> md5_chain h (xs @ ys) = md5_chain (md5_chain h xs) ys"
proof (induction h xs rule: md5_chain.induct)
  case (1 h xs)
  show ?case
  proof (cases "length xs < 64")
    case True
    then have "xs = []" using "1.prems" by (auto dest: dvd_imp_le)
    then show ?thesis by simp
  next
    case False
    then have b: "length (take 64 xs) = 64" "64 dvd length (drop 64 xs)"
      using "1.prems" by (auto intro: dvd_diff_nat)
    have "md5_chain h (xs @ ys) = md5_chain h (take 64 xs @ (drop 64 xs @ ys))"
      by (simp only: append_assoc [symmetric] append_take_drop_id)
    also have "\<dots> = md5_chain (md5_chain (md5_compress h (md5_block (take 64 xs))) (drop 64 xs)) ys"
      using "1.IH" [OF False b(2)] by (simp only: md5_chain_block [OF b(1)])
    also have "md5_chain (md5_compress h (md5_block (take 64 xs))) (drop 64 xs) = md5_chain h xs"
      using False by (simp add: md5_chain.simps [of h xs])
    finally show ?thesis .
  qed
qed

section \<open>What the context has absorbed\<close>

text \<open>
  \<open>md5_buffered ctx m\<close>: the chaining words are those of the full blocks of \<open>m\<close> and the buffer starts with
  the bytes of \<open>m\<close> that do not fill a block; \<open>md5_absorbed\<close> adds the two halves of the bit counter.
\<close>

definition md5_buffered :: "MD5_CTX \<Rightarrow> u8_t list \<Rightarrow> bool" where
  "md5_buffered ctx m \<longleftrightarrow> length (md5_in ctx) = 64 \<and> md5_buf ctx = md5_chain md5_start m
     \<and> take (length m mod 64) (md5_in ctx) = drop (64 * (length m div 64)) m"

definition md5_absorbed :: "MD5_CTX \<Rightarrow> u8_t list \<Rightarrow> bool" where
  "md5_absorbed ctx m \<longleftrightarrow> md5_buffered ctx m
     \<and> unat (md5_i0 ctx) = 8 * length m mod 4294967296
     \<and> unat (md5_i1 ctx) = 8 * length m div 4294967296 mod 4294967296"

lemma md5_chain_split:
  "md5_chain h m = md5_chain h (take (64 * (length m div 64)) m)"
proof -
  let ?k = "64 * (length m div 64)"
  have "length (take ?k m) = ?k" and "length (drop ?k m) < 64"
    by (simp_all add: min_absorb2 minus_mult_div_eq_mod)
  then have "md5_chain h (take ?k m @ drop ?k m) = md5_chain h (take ?k m)"
    by (subst md5_chain_append) auto
  then show ?thesis by simp
qed

lemma take_drop_snoc:
  "k \<le> length m \<Longrightarrow> take k (m @ [x]) = take k m \<and> drop k (m @ [x]) = drop k m @ [x]"
  by simp

lemma md5_chain_snoc_partial:
  assumes "length m mod 64 < 63"
  shows "length (m @ [x]) div 64 = length m div 64" and "length (m @ [x]) mod 64 = Suc (length m mod 64)"
    and "md5_chain h (m @ [x]) = md5_chain h m"
proof -
  show d: "length (m @ [x]) div 64 = length m div 64" and "length (m @ [x]) mod 64 = Suc (length m mod 64)"
    using assms by (auto simp: div_Suc mod_Suc)
  show "md5_chain h (m @ [x]) = md5_chain h m"
    unfolding md5_chain_split [of h "m @ [x]"] md5_chain_split [of h m] d
    by simp
qed

lemma md5_chain_snoc_full:
  assumes "length m mod 64 = 63"
  shows "length (m @ [x]) div 64 = Suc (length m div 64)" and "length (m @ [x]) mod 64 = 0"
    and "md5_chain h (m @ [x])
      = md5_compress (md5_chain h m) (md5_block (drop (64 * (length m div 64)) m @ [x]))"
proof -
  let ?k = "64 * (length m div 64)"
  show "length (m @ [x]) div 64 = Suc (length m div 64)" "length (m @ [x]) mod 64 = 0"
    using assms by (auto simp: div_Suc mod_Suc)
  have l: "length (take ?k m) = ?k" "length (drop ?k m @ [x]) = 64"
    using assms by (simp_all add: min_absorb2 minus_mult_div_eq_mod)
  have "md5_chain h (m @ [x]) = md5_chain h (take ?k m @ ((drop ?k m @ [x]) @ []))"
    by (simp only: append_assoc [symmetric] append_take_drop_id append_Nil2)
  also have "\<dots> = md5_chain (md5_chain h (take ?k m)) ((drop ?k m @ [x]) @ [])"
    by (rule md5_chain_append) (simp add: l(1))
  also have "\<dots> = md5_compress (md5_chain h (take ?k m)) (md5_block (drop ?k m @ [x]))"
    by (simp only: md5_chain_block [OF l(2)]) simp
  finally show "md5_chain h (m @ [x]) = md5_compress (md5_chain h m) (md5_block (drop ?k m @ [x]))"
    by (simp only: md5_chain_split [of h m, symmetric])
qed

lemma md5_loop_absorbs:
  "n \<le> length p \<Longrightarrow> md5_buffered ctx m \<Longrightarrow> mdi = length m mod 64 \<Longrightarrow>
   \<exists>ctx'. md5_update_loop ctx mdi p n = Some ctx' \<and> md5_buffered ctx' (m @ take n p)
     \<and> md5_i0 ctx' = md5_i0 ctx \<and> md5_i1 ctx' = md5_i1 ctx"
proof (induction ctx mdi p n arbitrary: m rule: md5_update_loop.induct)
  case (3 ctx mdi x p n)
  define c1 where "c1 = ctx\<lparr>md5_in := (md5_in ctx)[mdi := x]\<rparr>"
  have mdi: "mdi < 64" "mdi < length (md5_in ctx)" using "3.prems" by (auto simp: md5_buffered_def)
  have buffer: "take (Suc mdi) (md5_in c1) = drop (64 * (length m div 64)) m @ [x]"
    using "3.prems" mdi by (simp add: c1_def md5_buffered_def take_Suc_conv_app_nth)
  show ?case
  proof (cases "mdi = 63")
    case True
    have full: "length m mod 64 = 63" using True "3.prems" by simp
    define c2 where "c2 = c1\<lparr>md5_buf := Transform (md5_buf c1) (md5_load (md5_in c1) 16)\<rparr>"
    have c1: "length (md5_in c1) = 64" "md5_buf c1 = md5_chain md5_start m"
      using "3.prems" by (simp_all add: c1_def md5_buffered_def)
    then have "md5_in c1 = drop (64 * (length m div 64)) m @ [x]" using buffer True by simp
    then have "md5_buffered c2 (m @ [x])"
      using c1 md5_chain_snoc_full [OF full, where x = x]
      by (simp add: md5_buffered_def c2_def Transform_compress md5_load_block)
    moreover have "0 = length (m @ [x]) mod 64" using md5_chain_snoc_full(2) [OF full, of x] by simp
    ultimately have "\<exists>ctx'. md5_update_loop c2 0 p n = Some ctx' \<and> md5_buffered ctx' ((m @ [x]) @ take n p)
        \<and> md5_i0 ctx' = md5_i0 c2 \<and> md5_i1 ctx' = md5_i1 c2"
      using "3.IH"(1) [OF mdi(2) c1_def refl, where m = "m @ [x]"] "3.prems"(1) True by (simp add: c2_def)
    then show ?thesis using True mdi by (simp add: c1_def c2_def)
  next
    case False
    have part: "length m mod 64 < 63" using False mdi "3.prems" by simp
    have "md5_buffered c1 (m @ [x])"
      using "3.prems" buffer md5_chain_snoc_partial [OF part, where x = x]
      by (simp add: md5_buffered_def c1_def)
    moreover have "mdi + 1 = length (m @ [x]) mod 64"
      using md5_chain_snoc_partial(2) [OF part, of x] "3.prems" by simp
    ultimately have "\<exists>ctx'. md5_update_loop c1 (mdi + 1) p n = Some ctx' \<and> md5_buffered ctx' ((m @ [x]) @ take n p)
        \<and> md5_i0 ctx' = md5_i0 c1 \<and> md5_i1 ctx' = md5_i1 c1"
      using "3.IH"(2) [OF mdi(2) c1_def refl, where m = "m @ [x]"] "3.prems"(1) False by simp
    then show ?thesis using False mdi by (simp add: c1_def)
  qed
qed simp_all

section \<open>The bit counter\<close>

lemma u32_add_carry: "x + y < x \<longleftrightarrow> 4294967296 \<le> unat x + unat y" for x y :: u32_t
proof (cases "unat x + unat y < 4294967296")
  case True
  then have "unat (x + y) = unat x + unat y" by (simp only: unat_word_ariths) simp
  then show ?thesis using True by (simp add: word_less_nat_alt)
next
  case False
  have "unat x + unat y - 4294967296 < 4294967296"
    using unat_u32_less [of x] unat_u32_less [of y] by linarith
  then have "unat (x + y) = unat x + unat y - 4294967296"
    using False by (simp only: unat_word_ariths len_of_numeral_defs) (simp add: le_mod_geq)
  then show ?thesis using False unat_u32_less [of y] by (simp only: word_less_nat_alt) linarith
qed

lemma md5_bytes_mod_64:
  assumes "unat x = 8 * n mod 4294967296"
  shows "unat (drop_bit 3 x AND 0x3F :: u32_t) = n mod 64"
proof -
  have "8 * n mod 4294967296 div 8 = n mod 536870912"
    using mult_mod_right [of 8 n 536870912] by simp
  then have "unat x div 8 mod 64 = n mod 64"
    using assms mod_mod_cancel [of 64 536870912 n] by simp
  then show ?thesis
    using unat_and_mask [of "drop_bit 3 x" 6] by (simp add: mask_eq_exp_minus_1 unat_drop_bit)
qed

lemma md5_counter:
  fixes lo hi inLen :: u32_t
  assumes lo: "unat lo = 8 * n mod 4294967296" and hi: "unat hi = 8 * n div 4294967296 mod 4294967296"
  defines "n' \<equiv> n + unat inLen"
  shows "unat (lo + push_bit 3 inLen) = 8 * n' mod 4294967296"
    and "unat ((if lo + push_bit 3 inLen < lo then hi + 1 else hi) + drop_bit 29 inLen)
      = 8 * n' div 4294967296 mod 4294967296"
proof -
  let ?B = "4294967296 :: nat" and ?k = "8 * unat inLen"
  have push: "unat (push_bit 3 inLen) = ?k mod ?B"
    by (simp add: unat_push_bit mult.commute)
  have drop: "unat (drop_bit 29 inLen) = ?k div ?B"
    by (simp add: unat_drop_bit)
  have sum8: "8 * n' = 8 * n + ?k" by (simp add: n'_def)
  show "unat (lo + push_bit 3 inLen) = 8 * n' mod ?B"
    by (simp add: unat_word_ariths push lo sum8 mod_simps)
  define carry where "carry = (8 * n mod ?B + ?k mod ?B) div ?B"
  have div: "8 * n' div ?B = 8 * n div ?B + ?k div ?B + carry"
    unfolding sum8 carry_def by (rule div_add1_eq)
  have "8 * n mod ?B < ?B" "?k mod ?B < ?B" by simp_all
  then have "carry = (if ?B \<le> 8 * n mod ?B + ?k mod ?B then 1 else 0)"
    unfolding carry_def by (auto simp: div_if)
  then have c: "carry = (if lo + push_bit 3 inLen < lo then 1 else 0)"
    by (simp only: u32_add_carry push lo)
  show "unat ((if lo + push_bit 3 inLen < lo then hi + 1 else hi) + drop_bit 29 inLen) = 8 * n' div ?B mod ?B"
  proof (cases "lo + push_bit 3 inLen < lo")
    case True
    then have "unat (hi + 1 + drop_bit 29 inLen) = (8 * n div ?B + 1 + ?k div ?B) mod ?B"
      by (simp add: unat_word_ariths drop hi mod_add_left_eq mod_Suc_eq del: word_arith_nat_defs)
    then show ?thesis using True by (simp add: div c add_ac)
  next
    case False
    then have "unat (hi + drop_bit 29 inLen) = (8 * n div ?B + ?k div ?B) mod ?B"
      by (simp add: unat_word_ariths drop hi mod_add_left_eq)
    then show ?thesis using False by (simp add: div c)
  qed
qed

section \<open>The entry points\<close>

lemma md5_init_absorbed: "length (md5_in ctx) = 64 \<Longrightarrow> md5_absorbed (MD5Init ctx) []"
  by (simp add: md5_absorbed_def md5_buffered_def MD5Init_def md5_start_def)

lemma md5_update_absorbs:
  assumes "md5_absorbed ctx m" "unat inLen \<le> length p"
  obtains ctx' where "MD5Update ctx p inLen = Some ctx'" "md5_absorbed ctx' (m @ take (unat inLen) p)"
proof -
  let ?i1 = "if md5_i0 ctx + push_bit 3 inLen < md5_i0 ctx then md5_i1 ctx + 1 else md5_i1 ctx"
  define c where "c = ctx\<lparr>md5_i0 := md5_i0 ctx + push_bit 3 inLen, md5_i1 := ?i1 + drop_bit 29 inLen\<rparr>"
  have cnt: "unat (md5_i0 ctx) = 8 * length m mod 4294967296"
    "unat (md5_i1 ctx) = 8 * length m div 4294967296 mod 4294967296"
    using assms by (simp_all add: md5_absorbed_def)
  have upd: "MD5Update ctx p inLen = md5_update_loop c (length m mod 64) p (unat inLen)"
    using md5_bytes_mod_64 [OF cnt(1)] by (simp add: MD5Update_def Let_def c_def)
  have "md5_buffered c m" using assms by (simp add: md5_absorbed_def md5_buffered_def c_def)
  from md5_loop_absorbs [OF assms(2) this refl] obtain ctx' where
    ctx': "md5_update_loop c (length m mod 64) p (unat inLen) = Some ctx'"
      "md5_buffered ctx' (m @ take (unat inLen) p)" "md5_i0 ctx' = md5_i0 c" "md5_i1 ctx' = md5_i1 c"
    by blast
  have len: "length (m @ take (unat inLen) p) = length m + unat inLen" using assms by simp
  have "md5_absorbed ctx' (m @ take (unat inLen) p)"
    unfolding md5_absorbed_def len using ctx'(2-4) md5_counter [OF cnt, of inLen]
    by (simp add: c_def)
  with that show thesis using upd ctx'(1) by simp
qed

text \<open>The last block: what the code builds from its buffer and the counter is what the padding prescribes.\<close>

definition md5_length_bytes :: "nat \<Rightarrow> u8_t list" where
  "md5_length_bytes n = map (\<lambda>k. of_nat (8 * n div 256 ^ k)) [0..<8]"

lemma le32_mod:
  "n mod 256 + 256 * (n div 256 mod 256 + 256 * (n div 65536 mod 256 + 256 * (n div 16777216 mod 256)))
     = n mod 4294967296" for n :: nat
proof -
  have "n mod (256 * m) = n mod 256 + 256 * (n div 256 mod m)" for n m :: nat
    by (simp add: mod_mult2_eq add.commute)
  from this [of n 16777216] this [of "n div 256" 65536] this [of "n div 65536" 256]
  show ?thesis by (simp add: div_mult2_eq [symmetric])
qed

lemma length_words:
  assumes lo: "unat lo = 8 * n mod 4294967296" and hi: "unat hi = 8 * n div 4294967296 mod 4294967296"
  shows "of_nat (horner_sum unat 256 (take 4 (md5_length_bytes n))) = (lo :: u32_t)"
    and "of_nat (horner_sum unat 256 (take 4 (drop 4 (md5_length_bytes n)))) = (hi :: u32_t)"
proof -
  have upt8: "[0..<8] = [0, 1, 2, 3, 4, 5, 6, 7 :: nat]" by code_simp
  have "horner_sum unat 256 (take 4 (md5_length_bytes n)) = unat lo"
    using le32_mod [of "8 * n"] by (simp add: md5_length_bytes_def upt8 unat_of_nat lo del: of_nat_mult of_nat_numeral)
  then show "of_nat (horner_sum unat 256 (take 4 (md5_length_bytes n))) = lo"
    by (simp only: of_nat_unat ucast_id)
  have "horner_sum unat 256 (take 4 (drop 4 (md5_length_bytes n))) = unat hi"
    using le32_mod [of "8 * n div 4294967296"]
    by (simp add: md5_length_bytes_def upt8 unat_of_nat hi div_mult2_eq [symmetric] del: of_nat_mult of_nat_numeral)
  then show "of_nat (horner_sum unat 256 (take 4 (drop 4 (md5_length_bytes n)))) = hi"
    by (simp only: of_nat_unat ucast_id)
qed

lemma md5_last_block:
  assumes "length t = 56" "length bs = 64" "take 56 bs = t"
    and "unat lo = 8 * n mod 4294967296" "unat hi = 8 * n div 4294967296 mod 4294967296"
  shows "md5_load bs 14 @ [lo, hi] = md5_block (t @ md5_length_bytes n)"
proof -
  have upt: "[0..<16] = [0..<14] @ [14, 15 :: nat]" by code_simp
  have "take 4 (drop (4 * i) bs) = take 4 (drop (4 * i) (t @ md5_length_bytes n))" if "i < 14" for i
  proof -
    have "take 4 (drop (4 * i) xs) = take 4 (drop (4 * i) (take 56 xs))" for xs :: "u8_t list"
      using that by (simp add: drop_take)
    from this [of bs] this [of "t @ md5_length_bytes n"] show ?thesis using assms by simp
  qed
  then have "map (\<lambda>i. of_nat (horner_sum unat 256 (take 4 (drop (4 * i) bs))) :: u32_t) [0..<14]
      = map (\<lambda>i. of_nat (horner_sum unat 256 (take 4 (drop (4 * i) (t @ md5_length_bytes n))))) [0..<14]"
    by (intro map_cong) auto
  then show ?thesis
    using assms length_words [OF assms(4,5)]
    by (simp only: md5_load_words md5_block_def upt map_append list.map append.assoc) simp
qed

lemma md5_pad_split:
  defines "k m \<equiv> if length m mod 64 < 56 then 56 - length m mod 64 else 120 - length m mod 64"
  shows "md5_pad m = (m @ take (k m) PADDING) @ md5_length_bytes (length m)"
    and "k m \<le> 64" and "(length m + k m) mod 64 = 56"
proof -
  have r: "length m mod 64 < 64" by simp
  have pad_mod: "(119 - j) mod 64 = (if j < 56 then 55 - j else 119 - j)" if "j < 64" for j :: nat
    using that by (auto simp: le_mod_geq)
  have k: "k m = Suc ((119 - length m mod 64) mod 64)" and k64: "k m \<le> 64"
    using r unfolding pad_mod [OF r] by (auto simp: k_def)
  then have "take (k m) PADDING = [0x80] @ replicate ((119 - length m mod 64) mod 64) 0"
    by (simp add: PADDING_def min_def)
  then show "md5_pad m = (m @ take (k m) PADDING) @ md5_length_bytes (length m)" and "k m \<le> 64"
    using k64 by (simp_all add: md5_pad_def md5_length_bytes_def)
  have "(length m mod 64 + k m) mod 64 = 56" using r by (auto simp: k_def)
  then show "(length m + k m) mod 64 = 56" by (simp add: mod_add_left_eq)
qed

lemma md5_final_digest:
  assumes "md5_absorbed ctx m"
  obtains ctx' where "MD5Final ctx = Some (md5 m, ctx')" "md5_digest ctx' = md5 m"
    "length (md5_in ctx') = 64"
proof -
  define k where "k = (if length m mod 64 < 56 then 56 - length m mod 64 else 120 - length m mod 64)"
  define m' where "m' = m @ take k PADDING"
  note pad = md5_pad_split [of m, folded k_def]
  have cnt: "unat (md5_i0 ctx) = 8 * length m mod 4294967296"
    "unat (md5_i1 ctx) = 8 * length m div 4294967296 mod 4294967296"
    using assms by (simp_all add: md5_absorbed_def)
  have u: "unat (of_nat k :: u32_t) = k" using pad(2) by (simp add: unat_of_nat)
  have P: "length PADDING = 64" by (simp add: PADDING_def)
  from md5_update_absorbs [OF assms, of "of_nat k" PADDING] obtain c where
    c: "MD5Update ctx PADDING (of_nat k) = Some c" "md5_absorbed c m'"
    unfolding u m'_def P using pad(2) by blast
  have len: "length m' mod 64 = 56" using pad(2,3) P by (simp add: m'_def)
  define t where "t = drop (64 * (length m' div 64)) m'"
  have t: "length t = 56" using len by (simp add: t_def minus_mult_div_eq_mod)
  have buf: "length (md5_in c) = 64" "md5_buf c = md5_chain md5_start m'" "take 56 (md5_in c) = t"
    using c(2) len by (simp_all add: md5_absorbed_def md5_buffered_def t_def)
  have "md5_chain md5_start (md5_pad m) = md5_chain md5_start (take (64 * (length m' div 64)) m'
      @ ((t @ md5_length_bytes (length m)) @ []))"
    unfolding pad(1) m'_def [symmetric] t_def append_assoc [symmetric] append_take_drop_id by simp
  also have "\<dots> = md5_compress (md5_chain md5_start m') (md5_block (t @ md5_length_bytes (length m)))"
    using t by (subst md5_chain_append, simp add: min_absorb2, subst md5_chain_block)
      (simp_all add: md5_length_bytes_def md5_chain_split [of md5_start m', symmetric])
  also have "\<dots> = Transform (md5_buf c) (md5_load (md5_in c) 14 @ [md5_i0 ctx, md5_i1 ctx])"
    by (simp only: Transform_compress buf(2) md5_last_block [OF t buf(1,3) cnt])
  finally have tr: "Transform (md5_buf c) (md5_load (md5_in c) 14 @ [md5_i0 ctx, md5_i1 ctx])
      = md5_chain md5_start (md5_pad m)" ..
  define c1 where "c1 = c\<lparr>md5_buf := md5_chain md5_start (md5_pad m)\<rparr>"
  define c2 where "c2 = c1\<lparr>md5_digest := md5 m\<rparr>"
  have "MD5Final ctx = Some (md5 m, c2)"
    using c(1) unfolding MD5Final_def Let_def md5_bytes_mod_64 [OF cnt(1)] k_def [symmetric]
    by (simp add: tr c2_def c1_def md5_def md5_store_bytes split: prod.split)
  then show thesis using that buf by (simp add: c2_def c1_def)
qed

end
