(* ===== verification/Randm.thy ===== *)
theory Randm
  imports Md5_Props
begin

unbundle bit_operations_syntax

text \<open>
  PPP's random numbers, \<^verbatim>\<open>netif/ppp/randm.c\<close> with \<^verbatim>\<open>MD5_SUPPORT\<close> (the variant that rests on
  \<^verbatim>\<open>md5.c\<close>), and \<^verbatim>\<open>netif/ppp/magic.c\<close>. The pool is 16 bytes and the counter a 64-bit \<^verbatim>\<open>long\<close>, hashed in the
  order in which a little-endian host stores it. What the code leaves uninitialised on its stack is an argument:
  the context \<open>md5\<close> before \<^verbatim>\<open>MD5Init\<close> and the one byte of \<^verbatim>\<open>sysData\<close>.
\<close>

section \<open>The interface of a digest\<close>

text \<open>
  A digest is computed by a context that is started, fed with pieces of the message and finished.
  \<open>holds c m\<close> says that the context \<open>c\<close> has been fed with \<open>m\<close>; a piece the feeding takes is \<open>short\<close>.
\<close>

fun feeds :: "('c \<Rightarrow> 'a list \<Rightarrow> 'c option) \<Rightarrow> 'c \<Rightarrow> 'a list list \<Rightarrow> 'c option" where
  "feeds feed c [] = Some c"
| "feeds feed c (p # ps) = do { c \<leftarrow> feed c p; feeds feed c ps }"

locale stream_digest =
  fixes ready :: "'c \<Rightarrow> bool"
    and start :: "'c \<Rightarrow> 'c"
    and feed :: "'c \<Rightarrow> 'a list \<Rightarrow> 'c option"
    and finish :: "'c \<Rightarrow> ('b \<times> 'c) option"
    and holds :: "'c \<Rightarrow> 'a list \<Rightarrow> bool"
    and short :: "'a list \<Rightarrow> bool"
    and digest :: "'a list \<Rightarrow> 'b"
  assumes start_holds: "ready c \<Longrightarrow> holds (start c) []"
    and feed_holds: "holds c m \<Longrightarrow> short p \<Longrightarrow> \<exists>c'. feed c p = Some c' \<and> holds c' (m @ p)"
    and finish_digest: "holds c m \<Longrightarrow> \<exists>c'. finish c = Some (digest m, c') \<and> ready c'"
begin

lemma feeds_hold:
  "holds c m \<Longrightarrow> list_all short ps \<Longrightarrow> \<exists>c'. feeds feed c ps = Some c' \<and> holds c' (m @ concat ps)"
proof (induction ps arbitrary: c m)
  case (Cons p ps)
  from feed_holds [OF Cons.prems(1)] Cons.prems(2)
  obtain c1 where "feed c p = Some c1" "holds c1 (m @ p)" by auto
  with Cons.IH [OF this(2)] Cons.prems(2) show ?case by simp
qed simp

lemma digest_of_pieces:
  assumes "ready c" "list_all short ps"
  shows "\<exists>c'. feeds feed (start c) ps \<bind> finish = Some (digest (concat ps), c') \<and> ready c'"
  using feeds_hold [OF start_holds [OF assms(1)] assms(2)] finish_digest by fastforce

end

text \<open>\<^verbatim>\<open>MD5Update\<close> called with the length of the buffer, and the interface it implements.\<close>

definition md5_feed :: "MD5_CTX \<Rightarrow> u8_t list \<Rightarrow> MD5_CTX option" where
  "md5_feed ctx p = MD5Update ctx p (of_nat (length p))"

definition md5_ready :: "MD5_CTX \<Rightarrow> bool" where
  "md5_ready ctx \<longleftrightarrow> length (md5_in ctx) = 64"

definition md5_short :: "u8_t list \<Rightarrow> bool" where
  "md5_short p \<longleftrightarrow> length p < 4294967296"

interpretation md5: stream_digest md5_ready MD5Init md5_feed MD5Final md5_absorbed md5_short md5
proof
  show "md5_ready c \<Longrightarrow> md5_absorbed (MD5Init c) []" for c
    by (simp add: md5_ready_def md5_init_absorbed)
  show "\<exists>c'. md5_feed c p = Some c' \<and> md5_absorbed c' (m @ p)" if "md5_absorbed c m" "md5_short p" for c m p
  proof -
    have u: "unat (of_nat (length p) :: u32_t) = length p"
      using that(2) by (simp add: md5_short_def unat_of_nat)
    from md5_update_absorbs [OF that(1), of "of_nat (length p)" p] show ?thesis
      unfolding md5_feed_def u by auto
  qed
  show "\<exists>c'. MD5Final c = Some (md5 m, c') \<and> md5_ready c'" if "md5_absorbed c m" for c m
    using md5_final_digest [OF that] unfolding md5_ready_def by metis
qed

lemma length_md5 [simp]: "length (md5 m) = 16"
  by (simp add: md5_def bytes_of_u32_def split: prod.split)

section \<open>The generator\<close>

record rand_state =
  randPool :: "u8_t list"
  randCount :: "64 word"

abbreviation (input) RANDPOOLSZ :: nat where "RANDPOOLSZ \<equiv> 16"

definition avChurnRand ::
  "MD5_CTX \<Rightarrow> u8_t \<Rightarrow> u8_t list option \<Rightarrow> u32_t \<Rightarrow> 'a rand_state_scheme \<Rightarrow> 'a rand_state_scheme option" where
  "avChurnRand md5_0 sysData randData randLen s = do {
     let md5 = MD5Init md5_0;
     md5 \<leftarrow> MD5Update md5 (randPool s) 16;
     md5 \<leftarrow> (case randData of
         Some p \<Rightarrow> MD5Update md5 p randLen
       | None \<Rightarrow> MD5Update md5 [sysData] 1);
     (hash, md5) \<leftarrow> MD5Final md5;
     Some (s\<lparr>randPool := hash\<rparr>) }"

definition avRandomInit :: "MD5_CTX \<Rightarrow> u8_t \<Rightarrow> 'a rand_state_scheme \<Rightarrow> 'a rand_state_scheme option" where
  "avRandomInit md5_0 sysData s = avChurnRand md5_0 sysData None 0 s"

definition bytes_of_long :: "64 word \<Rightarrow> u8_t list" where
  "bytes_of_long n = map (\<lambda>k. ucast (drop_bit (8 * k) n)) [0..<8]"

function avGenRand ::
  "MD5_CTX \<Rightarrow> u8_t list \<Rightarrow> nat \<Rightarrow> nat \<Rightarrow> 'a rand_state_scheme \<Rightarrow> (u8_t list \<times> 'a rand_state_scheme) option" where
  "avGenRand md5_0 mem buf bufLen s =
     (if bufLen > 0
      then let n = min bufLen RANDPOOLSZ in do {
        let md5 = MD5Init md5_0;
        md5 \<leftarrow> MD5Update md5 (randPool s) 16;
        md5 \<leftarrow> MD5Update md5 (bytes_of_long (randCount s)) 8;
        (tmp, md5) \<leftarrow> MD5Final md5;
        let s = s\<lparr>randCount := randCount s + 1\<rparr>;
        if buf + n \<le> length mem
        then avGenRand md5 (overwrite buf (take n tmp) mem) (buf + n) (bufLen - n) s
        else None }
      else Some (mem, s))"
  by pat_completeness auto

termination avGenRand
  by (relation "measure (\<lambda>(_, _, _, bufLen, _). bufLen)") (auto simp: Let_def)

declare avGenRand.simps [simp del]

text \<open>The four bytes at \<open>newRand\<close> are read as a little-endian word.\<close>

definition avRandom :: "MD5_CTX \<Rightarrow> u8_t list \<Rightarrow> 'a rand_state_scheme \<Rightarrow> (u32_t \<times> 'a rand_state_scheme) option" where
  "avRandom md5_0 newRand s = do {
     (newRand, s) \<leftarrow> avGenRand md5_0 newRand 0 4 s;
     Some (md5_word newRand 0, s) }"

definition magic :: "MD5_CTX \<Rightarrow> u8_t list \<Rightarrow> 'a rand_state_scheme \<Rightarrow> (u32_t \<times> 'a rand_state_scheme) option" where
  "magic md5_0 newRand s = avRandom md5_0 newRand s"

end
