(* ===== verification/Chap.thy ===== *)
theory Chap
  imports Fsm Randm
begin

unbundle bit_operations_syntax

text \<open>
  The challenge handshake authentication of PPP, \<^verbatim>\<open>netif/ppp/chap.c\<close> (without Microsoft's variant,
  \<^verbatim>\<open>MSCHAP_SUPPORT\<close>), and the lookup of a secret in \<^verbatim>\<open>netif/ppp/auth.c\<close>. The state of the one unit extends the state of the timers;
  the random pool is a field, the packets given to \<^verbatim>\<open>pppWrite\<close> are collected in \<open>chap_sent\<close>. The entry
  points of \<^verbatim>\<open>auth.c\<close> that the protocol reports to are a record of functions, since they may
  act on the whole link. C strings are the lists of bytes before their terminator, a null pointer is
  \<open>None\<close>. \<open>None\<close> as a result stands for an abort in the timer list, a null pointer read, or an access
  outside a buffer.
\<close>

section \<open>Data\<close>

datatype chap_client =
  CHAPCS_INITIAL | CHAPCS_CLOSED | CHAPCS_PENDING | CHAPCS_LISTEN | CHAPCS_RESPONSE | CHAPCS_OPEN

datatype chap_server =
  CHAPSS_INITIAL | CHAPSS_CLOSED | CHAPSS_PENDING | CHAPSS_INITIAL_CHAL | CHAPSS_OPEN | CHAPSS_RECHALLENGE
| CHAPSS_BADAUTH

record chap_state = timer_state +
  c_addr :: addr
  clientstate :: chap_client
  serverstate :: chap_server
  challenge :: "u8_t list"
  chal_len :: u8_t
  chal_id :: u8_t
  chal_type :: u8_t
  c_id :: u8_t
  chal_name :: "u8_t list option"
  chal_interval :: int
  timeouttime :: int
  max_transmits :: int
  chal_transmits :: int
  resp_transmits :: int
  response :: "u8_t list"
  resp_length :: u8_t
  resp_id :: u8_t
  resp_type :: u8_t
  resp_name :: "u8_t list option"
  chap_rand :: rand_state
  chap_sent :: "u8_t list list"

text \<open>
  The fields of \<^verbatim>\<open>ppp_settings\<close> that are read, and what the stack holds where a function declares a variable: a digest context
  and the four bytes of \<^verbatim>\<open>newRand\<close>.
\<close>

record ppp_env =
  ppp_user :: "u8_t list"
  ppp_passwd :: "u8_t list"
  ppp_remote_name :: "u8_t list"
  ppp_explicit_remote :: bool
  stack_md5 :: MD5_CTX
  stack_word :: "u8_t list"

record 's auth_calls =
  auth_peer_fail :: "'s \<Rightarrow> 's option"
  auth_peer_success :: "u8_t list \<Rightarrow> 's \<Rightarrow> 's option"
  auth_withpeer_fail :: "'s \<Rightarrow> 's option"
  auth_withpeer_success :: "'s \<Rightarrow> 's option"

abbreviation (input) CHAP_HEADERLEN :: nat where "CHAP_HEADERLEN \<equiv> 4"
abbreviation (input) CHAP_DIGEST_MD5 :: u8_t where "CHAP_DIGEST_MD5 \<equiv> 5"
abbreviation (input) MD5_SIGNATURE_SIZE :: nat where "MD5_SIGNATURE_SIZE \<equiv> 16"
abbreviation (input) CHAP_CHALLENGE :: u8_t where "CHAP_CHALLENGE \<equiv> 1"
abbreviation (input) CHAP_RESPONSE :: u8_t where "CHAP_RESPONSE \<equiv> 2"
abbreviation (input) CHAP_SUCCESS :: u8_t where "CHAP_SUCCESS \<equiv> 3"
abbreviation (input) CHAP_FAILURE :: u8_t where "CHAP_FAILURE \<equiv> 4"
abbreviation (input) MIN_CHALLENGE_LENGTH :: u32_t where "MIN_CHALLENGE_LENGTH \<equiv> 32"
abbreviation (input) MAX_CHALLENGE_LENGTH :: u32_t where "MAX_CHALLENGE_LENGTH \<equiv> 64"
abbreviation (input) MAXSECRETLEN :: nat where "MAXSECRETLEN \<equiv> 256"
abbreviation (input) PPP_MRU :: nat where "PPP_MRU \<equiv> 1500"

text \<open>The numbers that stand for the three handlers in the timer list.\<close>

abbreviation (input) CHAP_CHALLENGE_TIMEOUT :: nat where "CHAP_CHALLENGE_TIMEOUT \<equiv> 2"
abbreviation (input) CHAP_RESPONSE_TIMEOUT :: nat where "CHAP_RESPONSE_TIMEOUT \<equiv> 3"
abbreviation (input) CHAP_RECHALLENGE :: nat where "CHAP_RECHALLENGE \<equiv> 4"

section \<open>Timers, strings, secrets\<close>

definition chap_untimeout :: "nat \<Rightarrow> 'a chap_state_scheme \<Rightarrow> 'a chap_state_scheme option" where
  "chap_untimeout h s = sys_untimeout h (c_addr s) s"

definition chap_timeout :: "nat \<Rightarrow> int \<Rightarrow> 'a chap_state_scheme \<Rightarrow> 'a chap_state_scheme option" where
  "chap_timeout h t s = do {
     s \<leftarrow> sys_untimeout h (c_addr s) s;
     sys_timeout (nat (t * 1000 mod 4294967296)) h (c_addr s) s }"

definition c_string :: "u8_t list \<Rightarrow> u8_t list" where
  "c_string bs = takeWhile (\<lambda>b. b \<noteq> 0) bs"

text \<open>\<open>None\<close> for the result 0, otherwise the secret.\<close>

definition get_secret :: "ppp_env \<Rightarrow> u8_t list option \<Rightarrow> u8_t list option" where
  "get_secret env client =
     (case client of
        None \<Rightarrow> None
      | Some name \<Rightarrow>
          if name = [] \<or> name \<noteq> ppp_user env then None
          else Some (take (min (length (ppp_passwd env)) MAXSECRETLEN) (ppp_passwd env)))"

section \<open>Sending\<close>

text \<open>A packet in \<^verbatim>\<open>outpacket_buf\<close>, whose size bounds it, with the header that \<^verbatim>\<open>MAKEHEADER\<close> pastes in.\<close>

definition chap_write :: "u8_t \<Rightarrow> u8_t \<Rightarrow> u8_t list \<Rightarrow> 'a chap_state_scheme \<Rightarrow> 'a chap_state_scheme option" where
  "chap_write code i body s =
     (let outlen = CHAP_HEADERLEN + length body
      in if outlen + PPP_HDRLEN \<le> PPP_MRU + PPP_HDRLEN
         then Some (s\<lparr>chap_sent := chap_sent s @ [[0xff, 0x03, 0xc2, 0x23] @ [code, i] @ PUTSHORT outlen @ body]\<rparr>)
         else None)"

definition ChapSendChallenge :: "'a chap_state_scheme \<Rightarrow> 'a chap_state_scheme option" where
  "ChapSendChallenge s = do {
     name \<leftarrow> chal_name s;
     chal \<leftarrow> (if unat (chal_len s) \<le> length (challenge s) then Some (take (unat (chal_len s)) (challenge s)) else None);
     s \<leftarrow> chap_write CHAP_CHALLENGE (chal_id s) ([chal_len s] @ chal @ name) s;
     s \<leftarrow> chap_timeout CHAP_CHALLENGE_TIMEOUT (timeouttime s) s;
     Some (s\<lparr>chal_transmits := chal_transmits s + 1\<rparr>) }"

definition ChapSendStatus :: "u8_t \<Rightarrow> 'a chap_state_scheme \<Rightarrow> 'a chap_state_scheme option" where
  "ChapSendStatus code s =
     (let msg = (if code = CHAP_SUCCESS then ''Welcome!'' else ''I don't like you.  Go 'way.'')
      in chap_write code (chal_id s) (map of_char msg) s)"

text \<open>The loop that fills the challenge with random bytes.\<close>

fun gen_challenge_loop :: "ppp_env \<Rightarrow> nat \<Rightarrow> nat \<Rightarrow> 'a chap_state_scheme \<Rightarrow> 'a chap_state_scheme option" where
  "gen_challenge_loop env i 0 s = Some s"
| "gen_challenge_loop env i (Suc n) s = do {
     (r, g) \<leftarrow> magic (stack_md5 env) (stack_word env) (chap_rand s);
     s \<leftarrow> (if i < length (challenge s)
          then Some (s\<lparr>chap_rand := g, challenge := (challenge s)[i := ucast (r AND 0xff)]\<rparr>) else None);
     gen_challenge_loop env (i + 1) n s }"

definition ChapGenChallenge :: "ppp_env \<Rightarrow> 'a chap_state_scheme \<Rightarrow> 'a chap_state_scheme option" where
  "ChapGenChallenge env s = do {
     (r, g) \<leftarrow> magic (stack_md5 env) (stack_word env) (chap_rand s);
     s \<leftarrow> Some (s\<lparr>chap_rand := g\<rparr>);
     let len = drop_bit 16 (drop_bit 16 r * (MAX_CHALLENGE_LENGTH - MIN_CHALLENGE_LENGTH)) + MIN_CHALLENGE_LENGTH;
     if unat len \<le> 0xffff
     then gen_challenge_loop env 0 (unat len)
            (s\<lparr>chal_len := ucast len, c_id := c_id s + 1, chal_id := c_id s + 1, chal_transmits := 0\<rparr>)
     else None }"

definition ChapSendResponse :: "'a chap_state_scheme \<Rightarrow> 'a chap_state_scheme option" where
  "ChapSendResponse s = do {
     name \<leftarrow> resp_name s;
     md \<leftarrow> (if unat (resp_length s) \<le> length (response s) then Some (take (unat (resp_length s)) (response s)) else None);
     s \<leftarrow> chap_write CHAP_RESPONSE (resp_id s) ([resp_length s] @ md @ name) s;
     s \<leftarrow> chap_timeout CHAP_RESPONSE_TIMEOUT (timeouttime s) (s\<lparr>clientstate := CHAPCS_RESPONSE\<rparr>);
     Some (s\<lparr>resp_transmits := resp_transmits s + 1\<rparr>) }"

section \<open>Opening, closing, timeouts\<close>

definition ChapInit :: "'a chap_state_scheme \<Rightarrow> 'a chap_state_scheme" where
  "ChapInit s = s\<lparr>clientstate := CHAPCS_INITIAL, serverstate := CHAPSS_INITIAL, challenge := replicate 64 0,
     chal_len := 0, chal_id := 0, chal_type := 0, c_id := 0, chal_name := None, chal_interval := 0,
     timeouttime := 6, max_transmits := 10, chal_transmits := 0, resp_transmits := 0,
     response := replicate 64 0, resp_length := 0, resp_id := 0, resp_type := 0, resp_name := None\<rparr>"

definition ChapAuthWithPeer :: "u8_t list \<Rightarrow> u8_t \<Rightarrow> 'a chap_state_scheme \<Rightarrow> 'a chap_state_scheme" where
  "ChapAuthWithPeer our_name dig s =
     (let s = s\<lparr>resp_name := Some our_name, resp_type := dig\<rparr>
      in if clientstate s = CHAPCS_INITIAL \<or> clientstate s = CHAPCS_PENDING
         then s\<lparr>clientstate := CHAPCS_PENDING\<rparr>
         else s\<lparr>clientstate := CHAPCS_LISTEN\<rparr>)"

definition ChapAuthPeer :: "ppp_env \<Rightarrow> u8_t list \<Rightarrow> u8_t \<Rightarrow> 'a chap_state_scheme \<Rightarrow> 'a chap_state_scheme option" where
  "ChapAuthPeer env our_name dig s =
     (let s = s\<lparr>chal_name := Some our_name, chal_type := dig\<rparr>
      in if serverstate s = CHAPSS_INITIAL \<or> serverstate s = CHAPSS_PENDING
         then Some (s\<lparr>serverstate := CHAPSS_PENDING\<rparr>)
         else do {
           s \<leftarrow> ChapGenChallenge env s;
           s \<leftarrow> ChapSendChallenge s;
           Some (s\<lparr>serverstate := CHAPSS_INITIAL_CHAL\<rparr>) })"

definition ChapChallengeTimeout ::
  "'a chap_state_scheme auth_calls \<Rightarrow> 'a chap_state_scheme \<Rightarrow> 'a chap_state_scheme option" where
  "ChapChallengeTimeout auth s =
     (if serverstate s \<noteq> CHAPSS_INITIAL_CHAL \<and> serverstate s \<noteq> CHAPSS_RECHALLENGE then Some s
      else if chal_transmits s \<ge> max_transmits s
      then auth_peer_fail auth (s\<lparr>serverstate := CHAPSS_BADAUTH\<rparr>)
      else ChapSendChallenge s)"

definition ChapResponseTimeout :: "'a chap_state_scheme \<Rightarrow> 'a chap_state_scheme option" where
  "ChapResponseTimeout s = (if clientstate s \<noteq> CHAPCS_RESPONSE then Some s else ChapSendResponse s)"

definition ChapRechallenge :: "ppp_env \<Rightarrow> 'a chap_state_scheme \<Rightarrow> 'a chap_state_scheme option" where
  "ChapRechallenge env s =
     (if serverstate s \<noteq> CHAPSS_OPEN then Some s
      else do {
        s \<leftarrow> ChapGenChallenge env s;
        s \<leftarrow> ChapSendChallenge s;
        Some (s\<lparr>serverstate := CHAPSS_RECHALLENGE\<rparr>) })"

definition ChapLowerUp :: "ppp_env \<Rightarrow> 'a chap_state_scheme \<Rightarrow> 'a chap_state_scheme option" where
  "ChapLowerUp env s =
     (let s = (if clientstate s = CHAPCS_INITIAL then s\<lparr>clientstate := CHAPCS_CLOSED\<rparr>
               else if clientstate s = CHAPCS_PENDING then s\<lparr>clientstate := CHAPCS_LISTEN\<rparr>
               else s)
      in if serverstate s = CHAPSS_INITIAL then Some (s\<lparr>serverstate := CHAPSS_CLOSED\<rparr>)
         else if serverstate s = CHAPSS_PENDING
         then do {
           s \<leftarrow> ChapGenChallenge env s;
           s \<leftarrow> ChapSendChallenge s;
           Some (s\<lparr>serverstate := CHAPSS_INITIAL_CHAL\<rparr>) }
         else Some s)"

definition ChapLowerDown :: "'a chap_state_scheme \<Rightarrow> 'a chap_state_scheme option" where
  "ChapLowerDown s = do {
     s \<leftarrow> (if serverstate s = CHAPSS_INITIAL_CHAL \<or> serverstate s = CHAPSS_RECHALLENGE
          then chap_untimeout CHAP_CHALLENGE_TIMEOUT s
          else if serverstate s = CHAPSS_OPEN \<and> chal_interval s \<noteq> 0 then chap_untimeout CHAP_RECHALLENGE s
          else Some s);
     s \<leftarrow> (if clientstate s = CHAPCS_RESPONSE then chap_untimeout CHAP_RESPONSE_TIMEOUT s else Some s);
     Some (s\<lparr>clientstate := CHAPCS_INITIAL, serverstate := CHAPSS_INITIAL\<rparr>) }"

definition ChapProtocolReject ::
  "'a chap_state_scheme auth_calls \<Rightarrow> 'a chap_state_scheme \<Rightarrow> 'a chap_state_scheme option" where
  "ChapProtocolReject auth s = do {
     s \<leftarrow> (if serverstate s \<noteq> CHAPSS_INITIAL \<and> serverstate s \<noteq> CHAPSS_CLOSED then auth_peer_fail auth s else Some s);
     s \<leftarrow> (if clientstate s \<noteq> CHAPCS_INITIAL \<and> clientstate s \<noteq> CHAPCS_CLOSED then auth_withpeer_fail auth s else Some s);
     ChapLowerDown s }"

section \<open>Receiving\<close>

text \<open>The digest that both sides compute: of the identifier, the secret and the challenge.\<close>

definition chap_hash :: "ppp_env \<Rightarrow> u8_t \<Rightarrow> u8_t list \<Rightarrow> u8_t list \<Rightarrow> nat \<Rightarrow> u8_t list option" where
  "chap_hash env i secret chal len = do {
     let ctx = MD5Init (stack_md5 env);
     ctx \<leftarrow> MD5Update ctx [i] 1;
     ctx \<leftarrow> MD5Update ctx secret (of_nat (length secret));
     ctx \<leftarrow> MD5Update ctx chal (of_nat len);
     (hash, ctx) \<leftarrow> MD5Final ctx;
     Some hash }"

text \<open>
  \<open>inp\<close> is the data of the packet, of the length that the code passes as \<^verbatim>\<open>len\<close>. The name of the peer is cut to
  the 255 bytes that \<^verbatim>\<open>rhostname\<close> has room for; on this side it is only given to \<^verbatim>\<open>get_secret\<close>,
  which does not use it.
\<close>

definition ChapReceiveChallenge ::
  "ppp_env \<Rightarrow> u8_t \<Rightarrow> u8_t list \<Rightarrow> 'a chap_state_scheme \<Rightarrow> 'a chap_state_scheme option" where
  "ChapReceiveChallenge env i inp s =
     (if clientstate s = CHAPCS_CLOSED \<or> clientstate s = CHAPCS_PENDING then Some s
      else case inp of
        n # m # rest \<Rightarrow>
          let rchallenge_len = unat n;
              inp = m # rest
          in if length inp < rchallenge_len then Some s
             else do {
               let rchallenge = take rchallenge_len inp;
               let secret = (case get_secret env (resp_name s) of None \<Rightarrow> [] | Some x \<Rightarrow> x);
               s \<leftarrow> (if clientstate s = CHAPCS_RESPONSE then chap_untimeout CHAP_RESPONSE_TIMEOUT s else Some s);
               s \<leftarrow> Some (s\<lparr>resp_id := i, resp_transmits := 0\<rparr>);
               if resp_type s = CHAP_DIGEST_MD5
               then do {
                 hash \<leftarrow> chap_hash env (resp_id s) secret rchallenge rchallenge_len;
                 ChapSendResponse (s\<lparr>response := overwrite 0 hash (response s), resp_length := 16\<rparr>) }
               else Some s }
      | _ \<Rightarrow> Some s)"

definition ChapReceiveResponse ::
  "ppp_env \<Rightarrow> 'a chap_state_scheme auth_calls \<Rightarrow> u8_t \<Rightarrow> u8_t list \<Rightarrow> 'a chap_state_scheme \<Rightarrow> 'a chap_state_scheme option" where
  "ChapReceiveResponse env auth i inp s =
     (if serverstate s = CHAPSS_CLOSED \<or> serverstate s = CHAPSS_PENDING then Some s
      else if i \<noteq> chal_id s then Some s
      else if serverstate s = CHAPSS_OPEN then ChapSendStatus CHAP_SUCCESS s
      else if serverstate s = CHAPSS_BADAUTH then ChapSendStatus CHAP_FAILURE s
      else case inp of
        n # m # rest \<Rightarrow>
          let remmd_len = unat n;
              inp = m # rest
          in if length inp < remmd_len then Some s
             else do {
               let remmd = take remmd_len inp;
               s \<leftarrow> chap_untimeout CHAP_CHALLENGE_TIMEOUT s;
               let rhostname = take 255 (drop remmd_len inp);
               code \<leftarrow> (case get_secret env (Some (c_string rhostname)) of
                   None \<Rightarrow> Some CHAP_FAILURE
                 | Some secret \<Rightarrow>
                     if chal_type s = CHAP_DIGEST_MD5 \<and> remmd_len = MD5_SIGNATURE_SIZE
                     then do {
                       hash \<leftarrow> chap_hash env (chal_id s) secret (challenge s) (unat (chal_len s));
                       Some (if hash = remmd then CHAP_SUCCESS else CHAP_FAILURE) }
                     else Some CHAP_FAILURE);
               s \<leftarrow> ChapSendStatus code s;
               if code = CHAP_SUCCESS
               then do {
                 let old_state = serverstate s;
                 s \<leftarrow> (if old_state = CHAPSS_INITIAL_CHAL
                      then auth_peer_success auth rhostname (s\<lparr>serverstate := CHAPSS_OPEN\<rparr>)
                      else Some (s\<lparr>serverstate := CHAPSS_OPEN\<rparr>));
                 if chal_interval s \<noteq> 0 then chap_timeout CHAP_RECHALLENGE (chal_interval s) s else Some s }
               else auth_peer_fail auth (s\<lparr>serverstate := CHAPSS_BADAUTH\<rparr>) }
      | _ \<Rightarrow> Some s)"

definition ChapReceiveSuccess ::
  "'a chap_state_scheme auth_calls \<Rightarrow> 'a chap_state_scheme \<Rightarrow> 'a chap_state_scheme option" where
  "ChapReceiveSuccess auth s =
     (if clientstate s = CHAPCS_OPEN then Some s
      else if clientstate s \<noteq> CHAPCS_RESPONSE then Some s
      else do {
        s \<leftarrow> chap_untimeout CHAP_RESPONSE_TIMEOUT s;
        auth_withpeer_success auth (s\<lparr>clientstate := CHAPCS_OPEN\<rparr>) })"

definition ChapReceiveFailure ::
  "'a chap_state_scheme auth_calls \<Rightarrow> 'a chap_state_scheme \<Rightarrow> 'a chap_state_scheme option" where
  "ChapReceiveFailure auth s =
     (if clientstate s \<noteq> CHAPCS_RESPONSE then Some s
      else do {
        s \<leftarrow> chap_untimeout CHAP_RESPONSE_TIMEOUT s;
        auth_withpeer_fail auth s })"

text \<open>The header is parsed as \<^verbatim>\<open>fsm_input\<close> does.\<close>

definition ChapInput ::
  "ppp_env \<Rightarrow> 'a chap_state_scheme auth_calls \<Rightarrow> u8_t list \<Rightarrow> 'a chap_state_scheme \<Rightarrow> 'a chap_state_scheme option" where
  "ChapInput env auth inpacket s =
     (case fsm_header inpacket of
        None \<Rightarrow> Some s
      | Some (code, i, inp) \<Rightarrow>
          if code = CHAP_CHALLENGE then ChapReceiveChallenge env i inp s
          else if code = CHAP_RESPONSE then ChapReceiveResponse env auth i inp s
          else if code = CHAP_FAILURE then ChapReceiveFailure auth s
          else if code = CHAP_SUCCESS then ChapReceiveSuccess auth s
          else Some s)"

end
