(* ===== verification/Md5_Claims.thy ===== *)
theory Md5_Claims
  imports Randm
begin

text \<open>
  The claims on \<^verbatim>\<open>md5.c\<close> and \<^verbatim>\<open>randm.c\<close>: the digest does not depend on how the message arrives, and the random
  generator's output is a stream of digests of the pool and a counter.
\<close>

section \<open>The stream of random bytes\<close>

definition rand_block :: "'a rand_state_scheme \<Rightarrow> nat \<Rightarrow> u8_t list" where
  "rand_block s j = md5 (randPool s @ bytes_of_long (randCount s + of_nat j))"

definition rand_bytes :: "'a rand_state_scheme \<Rightarrow> nat \<Rightarrow> u8_t list" where
  "rand_bytes s n = take n (concat (map (rand_block s) [0..<(n + 15) div 16]))"

lemma length_rand_blocks: "length (concat (map (rand_block s) [0..<k])) = 16 * k"
  by (induction k) (simp_all add: rand_block_def)

lemma length_rand_bytes [simp]: "length (rand_bytes s n) = n"
  by (simp add: rand_bytes_def length_rand_blocks)

lemma length_bytes_of_long [simp]: "length (bytes_of_long n) = 8"
  by (simp add: bytes_of_long_def)

text \<open>The first block and the rest, which starts at the next count.\<close>

lemma rand_bytes_step:
  assumes "0 < n"
  shows "rand_bytes s n = take (min n 16) (rand_block s 0) @ rand_bytes (s\<lparr>randCount := randCount s + 1\<rparr>) (n - min n 16)"
proof -
  define k where "k = (n - min n 16 + 15) div 16"
  have k: "(n + 15) div 16 = Suc k" using assms by (auto simp: k_def min_def div_if)
  have shift: "rand_block s \<circ> Suc = rand_block (s\<lparr>randCount := randCount s + 1\<rparr>)"
    by (rule ext) (simp add: rand_block_def add.assoc)
  have "map (rand_block s) [0..<Suc k] = rand_block s 0 # map (rand_block (s\<lparr>randCount := randCount s + 1\<rparr>)) [0..<k]"
    by (simp only: upt_conv_Cons map_Suc_upt [symmetric] map_map shift list.map zero_less_Suc)
  then show ?thesis
    unfolding rand_bytes_def k k_def [symmetric] by (simp add: rand_block_def min_def)
qed

lemma md5_two_pieces:
  assumes "md5_ready c" "length a < 4294967296" "length b < 4294967296"
  obtains c1 c2 c3 where "MD5Update (MD5Init c) a (of_nat (length a)) = Some c1"
    "MD5Update c1 b (of_nat (length b)) = Some c2" "MD5Final c2 = Some (md5 (a @ b), c3)" "md5_ready c3"
proof -
  have "list_all md5_short [a, b]" using assms by (simp add: md5_short_def)
  from md5.digest_of_pieces [OF assms(1) this] that show thesis
    by (auto simp: md5_feed_def bind_eq_Some_conv)
qed

lemma avGenRand_bytes:
  "md5_ready c \<Longrightarrow> length (randPool s) = 16 \<Longrightarrow> buf + n \<le> length mem \<Longrightarrow>
   avGenRand c mem buf n s = Some (overwrite buf (rand_bytes s n) mem,
     s\<lparr>randCount := randCount s + of_nat ((n + 15) div 16)\<rparr>)"
proof (induction c mem buf n s rule: avGenRand.induct)
  case (1 c mem buf n s)
  show ?case
  proof (cases "0 < n")
    case False
    then show ?thesis by (simp add: avGenRand.simps rand_bytes_def)
  next
    case True
    let ?n = "min n 16" and ?s = "s\<lparr>randCount := randCount s + 1\<rparr>"
    obtain c1 c2 c3 where c: "MD5Update (MD5Init c) (randPool s) 16 = Some c1"
      "MD5Update c1 (bytes_of_long (randCount s)) 8 = Some c2" "MD5Final c2 = Some (rand_block s 0, c3)" "md5_ready c3"
      using md5_two_pieces [OF "1.prems"(1), of "randPool s" "bytes_of_long (randCount s)"] "1.prems"(2)
      by (auto simp: rand_block_def)
    define mem' where "mem' = overwrite buf (take ?n (rand_block s 0)) mem"
    have len: "buf + ?n \<le> length mem" using "1.prems"(3) by simp
    have step: "avGenRand c mem buf n s = avGenRand c3 mem' (buf + ?n) (n - ?n) ?s"
      using True len by (subst avGenRand.simps) (simp add: Let_def c mem'_def)
    have "length mem' = length mem" using len by (simp add: mem'_def rand_block_def)
    then have IH: "avGenRand c3 mem' (buf + ?n) (n - ?n) ?s = Some (overwrite (buf + ?n) (rand_bytes ?s (n - ?n)) mem',
        ?s\<lparr>randCount := randCount ?s + of_nat ((n - ?n + 15) div 16)\<rparr>)"
      using "1.IH" [OF True refl refl c(1,2,3) refl refl len, folded mem'_def] c(4) "1.prems"
      by simp
    have "overwrite (buf + ?n) (rand_bytes ?s (n - ?n)) mem' = overwrite buf (rand_bytes s n) mem"
      unfolding rand_bytes_step [OF True] mem'_def
      using overwrite_append [of buf "take ?n (rand_block s 0)"] "1.prems"(3) by (simp add: rand_block_def)
    moreover have "of_nat ((n + 15) div 16) = (1 + of_nat ((n - ?n + 15) div 16) :: 64 word)"
      using True by (auto simp: min_def div_if)
    ultimately show ?thesis unfolding step IH by (simp add: add.assoc)
  qed
qed

lemma avChurnRand_pool:
  assumes "md5_ready c" "length (randPool s) = 16" "length d < 4294967296"
  shows "avChurnRand c x (Some d) (of_nat (length d)) s = Some (s\<lparr>randPool := md5 (randPool s @ d)\<rparr>)"
proof -
  have "length (randPool s) < 4294967296" using assms(2) by simp
  from md5_two_pieces [OF assms(1) this assms(3)] obtain c1 c2 c3 where
    "MD5Update (MD5Init c) (randPool s) (of_nat (length (randPool s))) = Some c1"
    "MD5Update c1 d (of_nat (length d)) = Some c2" "MD5Final c2 = Some (md5 (randPool s @ d), c3)" .
  then show ?thesis using assms(2) by (simp add: avChurnRand_def)
qed

section \<open>Claims\<close>

definition md5_ctx0 :: MD5_CTX where
  "md5_ctx0 = \<lparr>md5_i0 = 7, md5_i1 = 9, md5_buf = (1, 2, 3, 4), md5_in = replicate 64 0xff, md5_digest = []\<rparr>"

lemma md5_ctx0_ready [simp]: "md5_ready md5_ctx0"
  by (simp add: md5_ready_def md5_ctx0_def)

text \<open>
  C17. The message digest code computes the digest of RFC 1321 however the message is cut into pieces: from any
  context whose buffer has its 64 bytes, \<^verbatim>\<open>MD5Init\<close>, one call of \<^verbatim>\<open>MD5Update\<close> for each piece (also empty
  pieces and pieces that end in the middle of a block) and \<^verbatim>\<open>MD5Final\<close> return, without an access outside a buffer, the digest of
  the concatenation of the pieces: the unrolled \<^verbatim>\<open>Transform\<close> is the loop of 64 rotating steps, the two-word bit
  counter with its carry is the length modulo \<open>2^64\<close>, and the padding is the prescribed one.
\<close>

theorem md5_any_pieces:
  assumes "length (md5_in ctx) = 64" and "\<forall>p \<in> set pieces. length p < 2 ^ 32"
  shows "\<exists>ctx'. do { ctx \<leftarrow> feeds (\<lambda>c p. MD5Update c p (of_nat (length p))) (MD5Init ctx) pieces; MD5Final ctx }
      = Some (md5 (concat pieces), ctx') \<and> md5_digest ctx' = md5 (concat pieces)"
proof -
  have "md5_absorbed (MD5Init ctx) []" and "list_all md5_short pieces"
    using assms by (simp_all add: md5_init_absorbed md5_short_def list_all_iff)
  from md5.feeds_hold [OF this] obtain c where
    "feeds md5_feed (MD5Init ctx) pieces = Some c" "md5_absorbed c (concat pieces)" by auto
  moreover from this(2) obtain c' where "MD5Final c = Some (md5 (concat pieces), c')" "md5_digest c' = md5 (concat pieces)"
    by (rule md5_final_digest)
  moreover have "md5_feed = (\<lambda>c p. MD5Update c p (of_nat (length p)))"
    by (rule ext)+ (rule md5_feed_def)
  ultimately show ?thesis by simp
qed

theorem md5_any_pieces_witness:
  "length (md5_in md5_ctx0) = 64 \<and>
   (\<exists>ctx'. do { ctx \<leftarrow> feeds (\<lambda>c p. MD5Update c p (of_nat (length p))) (MD5Init md5_ctx0) [[97], [], replicate 70 98]; MD5Final ctx }
      = Some (md5 (97 # replicate 70 98), ctx') \<and> md5_digest ctx' = md5 (97 # replicate 70 98))"
  using md5_any_pieces [of md5_ctx0 "[[97], [], replicate 70 98]"] by (simp add: md5_ctx0_def)

text \<open>
  The random generator: after the pool has been churned with the data \<open>d\<close>, \<^verbatim>\<open>avGenRand\<close> ends for every length, stays inside
  the caller's buffer, and fills exactly its \<open>n\<close> bytes with the stream of the 16-byte digests of the new pool
  followed by the running 64-bit counter; the counter moves on by the number of digests, so that no
  count is used twice by successive calls, and the pool itself is not handed out.
\<close>

theorem avGenRand_stream:
  assumes "length (md5_in c) = 64" "length (md5_in c') = 64" "length (randPool s) = 16"
    and "length d < 2 ^ 32" "buf + n \<le> length mem"
  defines "s1 \<equiv> s\<lparr>randPool := md5 (randPool s @ d)\<rparr>"
  shows "do { s \<leftarrow> avChurnRand c x (Some d) (of_nat (length d)) s; avGenRand c' mem buf n s }
    = Some (take buf mem @ take n (concat (map (\<lambda>j. md5 (randPool s1 @ bytes_of_long (randCount s + of_nat j)))
              [0..<(n + 15) div 16])) @ drop (buf + n) mem,
            s1\<lparr>randCount := randCount s + of_nat ((n + 15) div 16)\<rparr>)"
proof -
  have "avChurnRand c x (Some d) (of_nat (length d)) s = Some s1"
    unfolding s1_def using assms by (intro avChurnRand_pool) (simp_all add: md5_ready_def)
  moreover have "avGenRand c' mem buf n s1 = Some (overwrite buf (rand_bytes s1 n) mem,
      s1\<lparr>randCount := randCount s1 + of_nat ((n + 15) div 16)\<rparr>)"
    using assms by (intro avGenRand_bytes) (simp_all add: md5_ready_def)
  moreover have "rand_block s1 = (\<lambda>j. md5 (randPool s1 @ bytes_of_long (randCount s + of_nat j)))"
    by (rule ext) (simp add: rand_block_def s1_def)
  ultimately show ?thesis
    by (simp add: overwrite_def) (simp add: rand_bytes_def s1_def)
qed

theorem avGenRand_stream_witness:
  "let s = \<lparr>randPool = replicate 16 3, randCount = 5\<rparr> in
   do { s \<leftarrow> avChurnRand md5_ctx0 0 (Some [1, 2]) 2 s; avGenRand md5_ctx0 (replicate 21 0) 1 20 s }
    = Some ([0] @ take 20 (concat (map (\<lambda>j. md5 (md5 (replicate 16 3 @ [1, 2]) @ bytes_of_long (5 + of_nat j))) [0..<2])),
            \<lparr>randPool = md5 (replicate 16 3 @ [1, 2]), randCount = 7\<rparr>)"
  using avGenRand_stream [of md5_ctx0 md5_ctx0 "\<lparr>randPool = replicate 16 3, randCount = 5\<rparr>" "[1, 2]" 1 20 "replicate 21 0" 0]
  by (simp add: md5_ctx0_def)

end
