(* ===== verification/Chap_Props.thy ===== *)
theory Chap_Props
  imports Chap Md5_Claims
begin

unbundle bit_operations_syntax

text \<open>
  Lemmas on the challenge handshake: its timers, the digest both sides compute, the packets and how they are parsed, and what each
  handler does in the states of the handshake.
\<close>

section \<open>Timers and packets\<close>

lemma chap_untimeout_ok:
  assumes "timer_rep sizes a s es"
  obtains s' where "chap_untimeout h s = Some s'" "timers_only s s'" "timer_rep sizes a s' (cancel_timer h (c_addr s) es)"
  using timers.cancel_law [OF assms, of h "c_addr s"] sys_untimeout_frame that unfolding chap_untimeout_def by blast

lemma chap_untimeout_frame: "chap_untimeout h s = Some s' \<Longrightarrow> timers_only s s'"
  unfolding chap_untimeout_def by (rule sys_untimeout_frame)

lemma length_cancel_timer: "length (cancel_timer h arg es) \<le> length es"
  by (induction es) auto

lemma chap_timeout_ok:
  assumes "timer_rep sizes a s es" "length es < memp_num MEMP_SYS_TIMEOUT"
  obtains s' where "chap_timeout h t s = Some s'" "timers_only s s'"
    "timer_rep sizes a s' (insert_timer (nat (t * 1000 mod 4294967296)) h (c_addr s) (cancel_timer h (c_addr s) es))"
proof -
  define d where "d = nat (t * 1000 mod 4294967296)"
  have d: "d < 4294967296" unfolding d_def by (simp add: nat_less_iff)
  obtain s1 where s1: "sys_untimeout h (c_addr s) s = Some s1" "timers_only s s1"
      "timer_rep sizes a s1 (cancel_timer h (c_addr s) es)"
    using timers.cancel_law [OF assms(1), of h "c_addr s"] sys_untimeout_frame by blast
  have c1: "c_addr s1 = c_addr s" using s1(2) by (auto simp: timers_only_def)
  have "length (cancel_timer h (c_addr s) es) < memp_num MEMP_SYS_TIMEOUT"
    using length_cancel_timer [of h "c_addr s" es] assms(2) by simp
  then obtain s2 where s2: "sys_timeout d h (c_addr s) s1 = Some s2"
      "timer_rep sizes a s2 (insert_timer d h (c_addr s) (cancel_timer h (c_addr s) es))"
    using timers.set_law [OF s1(3) d, of h "c_addr s"] by auto
  show thesis
    using s1(1) s2 timers_only_trans [OF s1(2) sys_timeout_frame [OF s2(1)]] c1
    by (intro that [of s2]) (simp_all add: chap_timeout_def d_def)
qed

lemma timers_only_fields:
  fixes s s' :: "'a chap_state_scheme"
  assumes "timers_only s s'"
  shows "c_addr s' = c_addr s" "clientstate s' = clientstate s" "serverstate s' = serverstate s"
    "challenge s' = challenge s" "chal_len s' = chal_len s" "chal_id s' = chal_id s" "chal_type s' = chal_type s"
    "c_id s' = c_id s" "chal_name s' = chal_name s" "chal_interval s' = chal_interval s" "timeouttime s' = timeouttime s"
    "max_transmits s' = max_transmits s" "chal_transmits s' = chal_transmits s" "resp_transmits s' = resp_transmits s"
    "response s' = response s" "resp_length s' = resp_length s" "resp_id s' = resp_id s" "resp_type s' = resp_type s"
    "resp_name s' = resp_name s" "chap_rand s' = chap_rand s" "chap_sent s' = chap_sent s"
  using assms by (auto simp: timers_only_def)

text \<open>The packet that \<^verbatim>\<open>chap_write\<close> puts in the buffer, and its header behind the PPP header.\<close>

definition chap_packet :: "u8_t \<Rightarrow> u8_t \<Rightarrow> u8_t list \<Rightarrow> u8_t list" where
  "chap_packet code i body = [code, i] @ PUTSHORT (CHAP_HEADERLEN + length body) @ body"

lemma chap_write_ok: "length body \<le> 1496 \<Longrightarrow>
    chap_write code i body s = Some (s\<lparr>chap_sent := chap_sent s @ [[0xff, 0x03, 0xc2, 0x23] @ chap_packet code i body]\<rparr>)"
  by (simp add: chap_write_def chap_packet_def)

lemma GETSHORT_of_PUTSHORT: "n < 65536 \<Longrightarrow> PUTSHORT n = [hi, lo] \<Longrightarrow> GETSHORT hi lo = n"
  by (auto simp: PUTSHORT_def GETSHORT_def unat_of_nat)

lemma chap_header_packet:
  assumes "length body \<le> 1496"
  shows "fsm_header (chap_packet code i body) = Some (code, i, body)"
proof -
  obtain hi lo where put: "PUTSHORT (4 + length body) = [hi, lo]" by (simp add: PUTSHORT_def)
  then have "GETSHORT hi lo = 4 + length body" using assms by (intro GETSHORT_of_PUTSHORT) auto
  then show ?thesis by (simp add: fsm_header_def chap_packet_def put)
qed

section \<open>The digest\<close>

lemma chap_hash_md5:
  assumes "md5_ready (stack_md5 env)" "length secret \<le> 256" "len \<le> length chal" "len \<le> 255"
  shows "chap_hash env i secret chal len = Some (md5 (i # secret @ take len chal))"
proof -
  have u: "unat (1 :: u32_t) = 1" "unat (of_nat (length secret) :: u32_t) = length secret" "unat (of_nat len :: u32_t) = len"
    using assms by (simp_all add: unat_of_nat)
  obtain c1 where c1: "MD5Update (MD5Init (stack_md5 env)) [i] 1 = Some c1" "md5_absorbed c1 [i]"
    using md5_update_absorbs [OF md5.start_holds [OF assms(1)], of 1 "[i]"] by (auto simp: u)
  obtain c2 where c2: "MD5Update c1 secret (of_nat (length secret)) = Some c2" "md5_absorbed c2 ([i] @ secret)"
    using md5_update_absorbs [OF c1(2), of "of_nat (length secret)" secret] by (auto simp: u(2))
  obtain c3 where c3: "MD5Update c2 chal (of_nat len) = Some c3" "md5_absorbed c3 (([i] @ secret) @ take len chal)"
    using md5_update_absorbs [OF c2(2), of "of_nat len" chal] assms(3) by (auto simp: u(3))
  obtain c4 where c4: "MD5Final c3 = Some (md5 (([i] @ secret) @ take len chal), c4)"
    using c3(2) by (rule md5_final_digest)
  show ?thesis unfolding chap_hash_def Let_def by (simp add: c1(1) c2(1) c3(1) c4)
qed

text \<open>The secret shared under a name, and the value that proves it.\<close>

definition chap_secret :: "ppp_env \<Rightarrow> u8_t list" where
  "chap_secret env = take 256 (ppp_passwd env)"

definition chap_proof :: "ppp_env \<Rightarrow> u8_t \<Rightarrow> u8_t list \<Rightarrow> u8_t list" where
  "chap_proof env i chal = md5 (i # chap_secret env @ chal)"

lemma get_secret_eq:
  "get_secret env (Some name) = (if name \<noteq> [] \<and> name = ppp_user env then Some (chap_secret env) else None)"
  by (auto simp: get_secret_def chap_secret_def min_def)

lemma length_chap_secret [simp]: "length (chap_secret env) \<le> 256"
  by (simp add: chap_secret_def)

section \<open>What a response must hold to open the link\<close>

text \<open>
  What the server relies on: a report of the protocol to the layer above may change the link, but none of them
  declares the peer authenticated in the place of the protocol.
\<close>

definition auth_honest :: "'a chap_state_scheme auth_calls \<Rightarrow> bool" where
  "auth_honest auth \<longleftrightarrow> (\<forall>f \<in> {auth_peer_fail auth, auth_withpeer_fail auth, auth_withpeer_success auth}.
     \<forall>s s'. f s = Some s' \<longrightarrow> serverstate s \<noteq> CHAPSS_OPEN \<longrightarrow> serverstate s' \<noteq> CHAPSS_OPEN)"

lemma auth_honestD:
  assumes "auth_honest auth" "serverstate s \<noteq> CHAPSS_OPEN"
  shows "auth_peer_fail auth s = Some s' \<Longrightarrow> serverstate s' \<noteq> CHAPSS_OPEN"
    "auth_withpeer_fail auth s = Some s' \<Longrightarrow> serverstate s' \<noteq> CHAPSS_OPEN"
    "auth_withpeer_success auth s = Some s' \<Longrightarrow> serverstate s' \<noteq> CHAPSS_OPEN"
  using assms unfolding auth_honest_def by auto

lemma chap_write_frame:
  "chap_write code i body s = Some s' \<Longrightarrow> s' = s\<lparr>chap_sent := chap_sent s'\<rparr>"
  by (auto simp: chap_write_def Let_def split: if_splits)

lemma chap_write_server [simp]:
  "chap_write code i body s = Some s' \<Longrightarrow> serverstate s' = serverstate s"
  by (auto simp: chap_write_def Let_def split: if_splits)

lemma ChapSendStatus_server: "ChapSendStatus code s = Some s' \<Longrightarrow> serverstate s' = serverstate s"
  unfolding ChapSendStatus_def Let_def by (rule chap_write_server)

lemma chap_timeout_frame: "chap_timeout h t s = Some s' \<Longrightarrow> timers_only s s'"
  unfolding chap_timeout_def
  by (auto simp: bind_eq_Some_conv dest!: sys_untimeout_frame sys_timeout_frame intro: timers_only_trans)

lemma ChapSendResponse_server: "ChapSendResponse s = Some s' \<Longrightarrow> serverstate s' = serverstate s"
  unfolding ChapSendResponse_def
  by (auto simp: bind_eq_Some_conv dest!: chap_timeout_frame chap_write_server timers_only_fields(3))

lemma ChapReceiveChallenge_server: "ChapReceiveChallenge env i inp s = Some s' \<Longrightarrow> serverstate s' = serverstate s"
  unfolding ChapReceiveChallenge_def
  by (auto simp: bind_eq_Some_conv Let_def split: if_splits list.splits
      dest!: ChapSendResponse_server chap_untimeout_frame timers_only_fields(3))

lemma ChapReceiveStatus_server:
  assumes "auth_honest auth" "serverstate s \<noteq> CHAPSS_OPEN"
  shows "ChapReceiveSuccess auth s = Some s' \<Longrightarrow> serverstate s' \<noteq> CHAPSS_OPEN"
    and "ChapReceiveFailure auth s = Some s' \<Longrightarrow> serverstate s' \<noteq> CHAPSS_OPEN"
proof -
  have keeps: "serverstate s1 \<noteq> CHAPSS_OPEN" if "chap_untimeout n s = Some s1" for n s1
    using timers_only_fields(3) [OF chap_untimeout_frame [OF that]] assms(2) by simp
  show "serverstate s' \<noteq> CHAPSS_OPEN" if "ChapReceiveSuccess auth s = Some s'"
  proof (cases "clientstate s = CHAPCS_RESPONSE")
    case True
    with that obtain s1 where s1: "chap_untimeout CHAP_RESPONSE_TIMEOUT s = Some s1"
      "auth_withpeer_success auth (s1\<lparr>clientstate := CHAPCS_OPEN\<rparr>) = Some s'"
      by (auto simp: ChapReceiveSuccess_def bind_eq_Some_conv)
    show ?thesis by (rule auth_honestD(3) [OF assms(1) _ s1(2)]) (simp add: keeps [OF s1(1)])
  qed (use that assms(2) in \<open>auto simp: ChapReceiveSuccess_def split: if_splits\<close>)
  show "serverstate s' \<noteq> CHAPSS_OPEN" if "ChapReceiveFailure auth s = Some s'"
  proof (cases "clientstate s = CHAPCS_RESPONSE")
    case True
    with that obtain s1 where s1: "chap_untimeout CHAP_RESPONSE_TIMEOUT s = Some s1" "auth_withpeer_fail auth s1 = Some s'"
      by (auto simp: ChapReceiveFailure_def bind_eq_Some_conv)
    show ?thesis by (rule auth_honestD(2) [OF assms(1) _ s1(2)]) (rule keeps [OF s1(1)])
  qed (use that assms(2) in \<open>auto simp: ChapReceiveFailure_def\<close>)
qed

definition chap_answer :: "ppp_env \<Rightarrow> 'a chap_state_scheme \<Rightarrow> u8_t list \<Rightarrow> u8_t list" where
  "chap_answer env s name = 16 # chap_proof env (chal_id s) (take (unat (chal_len s)) (challenge s)) @ name"

definition chap_frame :: "u8_t \<Rightarrow> u8_t \<Rightarrow> u8_t list \<Rightarrow> u8_t list" where
  "chap_frame code i body = [0xff, 0x03, 0xc2, 0x23] @ chap_packet code i body"

abbreviation (input) welcome_msg :: "u8_t list" where
  "welcome_msg \<equiv> map of_char ''Welcome!''"

abbreviation (input) go_away_msg :: "u8_t list" where
  "go_away_msg \<equiv> map of_char ''I don't like you.  Go 'way.''"

lemma ChapSendStatus_failure:
  "ChapSendStatus CHAP_FAILURE s = Some (s\<lparr>chap_sent := chap_sent s @ [chap_frame CHAP_FAILURE (chal_id s) go_away_msg]\<rparr>)"
  unfolding ChapSendStatus_def Let_def by (subst chap_write_ok) (simp_all add: chap_frame_def)

text \<open>The value and the name that a response starts with; a shorter packet is dropped.\<close>

definition response_whole :: "u8_t list \<Rightarrow> bool" where
  "response_whole inp \<longleftrightarrow> (case inp of n # m # rest \<Rightarrow> unat n \<le> length (m # rest) | _ \<Rightarrow> False)"

definition proves_secret :: "ppp_env \<Rightarrow> 'a chap_state_scheme \<Rightarrow> u8_t list \<Rightarrow> bool" where
  "proves_secret env s inp \<longleftrightarrow> chal_type s = CHAP_DIGEST_MD5 \<and> ppp_user env \<noteq> []
     \<and> (\<exists>name. inp = chap_answer env s name \<and> c_string (take 255 name) = ppp_user env)"

lemma ChapReceiveResponse_dropped:
  assumes "serverstate s \<noteq> CHAPSS_OPEN"
    and "serverstate s \<in> {CHAPSS_CLOSED, CHAPSS_PENDING} \<or> i \<noteq> chal_id s \<or> serverstate s \<noteq> CHAPSS_BADAUTH \<and> \<not> response_whole inp"
  shows "ChapReceiveResponse env auth i inp s = Some s"
proof (cases "serverstate s \<in> {CHAPSS_CLOSED, CHAPSS_PENDING} \<or> i \<noteq> chal_id s")
  case True
  then show ?thesis unfolding ChapReceiveResponse_def by (elim disjE insertE) simp_all
next
  case False
  then have st: "serverstate s \<noteq> CHAPSS_BADAUTH" "\<not> response_whole inp" using assms(2) by blast+
  consider "inp = []" | n where "inp = [n]" | n m rest where "inp = n # m # rest" by (metis list.exhaust)
  then show ?thesis
  proof cases
    case (3 n m rest)
    then show ?thesis using False st assms(1) by (simp add: ChapReceiveResponse_def Let_def response_whole_def)
  qed (use False st assms(1) in \<open>simp_all add: ChapReceiveResponse_def\<close>)
qed

lemma ChapReceiveResponse_bad:
  assumes run: "ChapReceiveResponse env auth (chal_id s) inp s = Some s'"
    and st: "serverstate s \<notin> {CHAPSS_CLOSED, CHAPSS_PENDING, CHAPSS_OPEN, CHAPSS_BADAUTH}"
    and whole: "response_whole inp"
    and env: "md5_ready (stack_md5 env)" "unat (chal_len s) \<le> length (challenge s)"
    and bad: "\<not> proves_secret env s inp"
  shows "\<exists>t. auth_peer_fail auth t = Some s' \<and> serverstate t = CHAPSS_BADAUTH
    \<and> chap_sent t = chap_sent s @ [chap_frame CHAP_FAILURE (chal_id s) go_away_msg]"
proof -
  obtain n m rest where inp: "inp = n # m # rest" and long: "unat n \<le> length (m # rest)"
    using whole by (auto simp: response_whole_def split: list.splits)
  define remmd where "remmd = take (unat n) (m # rest)"
  define name where "name = drop (unat n) (m # rest)"
  obtain s1 where s1: "chap_untimeout 2 s = Some s1"
    using run st inp long by (auto simp: ChapReceiveResponse_def Let_def bind_eq_Some_conv)
  note s1f = timers_only_fields [OF chap_untimeout_frame [OF s1]]
  define code :: "u8_t option" where "code = (case get_secret env (Some (c_string (take 255 name))) of None \<Rightarrow> Some 4 | Some secret \<Rightarrow>
          if chal_type s = 5 \<and> unat n = 16
          then do { hash \<leftarrow> chap_hash env (chal_id s) secret (challenge s) (unat (chal_len s));
                    Some (if hash = remmd then 3 else 4) }
          else Some 4)"
  have hash: "chap_hash env (chal_id s) (chap_secret env) (challenge s) (unat (chal_len s))
      = Some (chap_proof env (chal_id s) (take (unat (chal_len s)) (challenge s)))"
    unfolding chap_proof_def using env unat_u8_le [of "chal_len s"]
    by (intro chap_hash_md5) auto
  have "\<not> (c_string (take 255 name) \<noteq> [] \<and> c_string (take 255 name) = ppp_user env \<and> chal_type s = 5
      \<and> unat n = 16 \<and> chap_proof env (chal_id s) (take (unat (chal_len s)) (challenge s)) = remmd)"
  proof
    assume good: "c_string (take 255 name) \<noteq> [] \<and> c_string (take 255 name) = ppp_user env \<and> chal_type s = 5
      \<and> unat n = 16 \<and> chap_proof env (chal_id s) (take (unat (chal_len s)) (challenge s)) = remmd"
    then have "n = 16" by (simp add: word_unat_eq_iff)
    then have "inp = chap_answer env s name"
      using good unfolding inp chap_answer_def name_def remmd_def by (metis append_take_drop_id)
    then show False using good bad unfolding proves_secret_def by metis
  qed
  then have fail: "code = Some 4" by (auto simp: code_def get_secret_eq hash)
  have "do { code \<leftarrow> code; t \<leftarrow> ChapSendStatus code s1;
      if code = 3
      then do {
        t \<leftarrow> (if serverstate t = CHAPSS_INITIAL_CHAL then auth_peer_success auth (take 255 name) (t\<lparr>serverstate := CHAPSS_OPEN\<rparr>)
             else Some (t\<lparr>serverstate := CHAPSS_OPEN\<rparr>));
        if chal_interval t \<noteq> 0 then chap_timeout 4 (chal_interval t) t else Some t }
      else auth_peer_fail auth (t\<lparr>serverstate := CHAPSS_BADAUTH\<rparr>) } = Some s'"
    using run st inp long s1
    by (simp add: ChapReceiveResponse_def Let_def remmd_def name_def s1f code_def cong: option.case_cong if_cong)
  then have "auth_peer_fail auth (s1\<lparr>chap_sent := chap_sent s1 @ [chap_frame CHAP_FAILURE (chal_id s1) go_away_msg],
      serverstate := CHAPSS_BADAUTH\<rparr>) = Some s'"
    by (simp add: fail ChapSendStatus_failure)
  then show ?thesis
    by (intro exI [of _ "s1\<lparr>chap_sent := chap_sent s1 @ [chap_frame CHAP_FAILURE (chal_id s1) go_away_msg],
      serverstate := CHAPSS_BADAUTH\<rparr>"]) (simp add: s1f)
qed

lemma ChapReceiveResponse_badauth:
  "serverstate s = CHAPSS_BADAUTH \<Longrightarrow> ChapReceiveResponse env auth (chal_id s) inp s
    = Some (s\<lparr>chap_sent := chap_sent s @ [chap_frame CHAP_FAILURE (chal_id s) go_away_msg]\<rparr>)"
  by (simp add: ChapReceiveResponse_def ChapSendStatus_failure)

lemma ChapReceiveResponse_opens:
  assumes run: "ChapReceiveResponse env auth i inp s = Some s'"
    and st: "serverstate s \<noteq> CHAPSS_OPEN" "serverstate s' = CHAPSS_OPEN"
    and env: "md5_ready (stack_md5 env)" "unat (chal_len s) \<le> length (challenge s)" "auth_honest auth"
  shows "i = chal_id s \<and> serverstate s \<in> {CHAPSS_INITIAL, CHAPSS_INITIAL_CHAL, CHAPSS_RECHALLENGE} \<and> proves_secret env s inp"
proof -
  have st1: "serverstate s \<notin> {CHAPSS_CLOSED, CHAPSS_PENDING, CHAPSS_OPEN, CHAPSS_BADAUTH}" and i: "i = chal_id s"
    using run st by (auto simp: ChapReceiveResponse_def split: if_splits dest!: ChapSendStatus_server)
  have whole: "response_whole inp"
    using ChapReceiveResponse_dropped [of s i inp env auth] run st st1 by auto
  have "proves_secret env s inp"
  proof (rule ccontr)
    assume "\<not> proves_secret env s inp"
    from ChapReceiveResponse_bad [OF run [unfolded i] st1 whole env(1,2) this] obtain t where
      "auth_peer_fail auth t = Some s'" "serverstate t = CHAPSS_BADAUTH" by blast
    then show False using auth_honestD(1) [OF env(3), of t s'] st(2) by simp
  qed
  then show ?thesis using i st1 by (cases "serverstate s") auto
qed

section \<open>The challenge\<close>

text \<open>What the generator needs: the digest context and the word on the stack have their sizes, and so has the pool.\<close>

definition rand_ok :: "ppp_env \<Rightarrow> 'a chap_state_scheme \<Rightarrow> bool" where
  "rand_ok env s \<longleftrightarrow> md5_ready (stack_md5 env) \<and> length (stack_word env) = 4 \<and> length (randPool (chap_rand s)) = 16"

lemma magic_ok:
  assumes "rand_ok env s"
  obtains r g where "magic (stack_md5 env) (stack_word env) (chap_rand s) = Some (r, g)" "length (randPool g) = 16"
proof -
  have "avGenRand (stack_md5 env) (stack_word env) 0 4 (chap_rand s)
      = Some (overwrite 0 (rand_bytes (chap_rand s) 4) (stack_word env),
              (chap_rand s)\<lparr>randCount := randCount (chap_rand s) + of_nat ((4 + 15) div 16)\<rparr>)"
    using assms by (intro avGenRand_bytes) (simp_all add: rand_ok_def)
  then show thesis using that assms by (simp add: magic_def avRandom_def rand_ok_def)
qed

lemma gen_challenge_loop_ok:
  "rand_ok env s \<Longrightarrow> i + n \<le> length (challenge s) \<Longrightarrow>
   \<exists>g ch. gen_challenge_loop env i n s = Some (s\<lparr>chap_rand := g, challenge := ch\<rparr>)
     \<and> length ch = length (challenge s) \<and> length (randPool g) = 16"
proof (induction n arbitrary: i s)
  case 0
  then show ?case
    by (intro exI [of _ "chap_rand s"] exI [of _ "challenge s"]) (simp add: rand_ok_def)
next
  case (Suc n)
  obtain r g where r: "magic (stack_md5 env) (stack_word env) (chap_rand s) = Some (r, g)" "length (randPool g) = 16"
    using magic_ok [OF Suc.prems(1)] .
  define s1 where "s1 = s\<lparr>chap_rand := g, challenge := (challenge s)[i := ucast (r AND 0xff)]\<rparr>"
  have "rand_ok env s1" using Suc.prems(1) r(2) by (simp add: rand_ok_def s1_def)
  moreover have "i + 1 + n \<le> length (challenge s1)" using Suc.prems(2) by (simp add: s1_def)
  ultimately obtain g' ch where g': "gen_challenge_loop env (i + 1) n s1 = Some (s1\<lparr>chap_rand := g', challenge := ch\<rparr>)"
    "length ch = length (challenge s1)" "length (randPool g') = 16" using Suc.IH by blast
  have "gen_challenge_loop env i (Suc n) s = gen_challenge_loop env (i + 1) n s1"
    using r(1) Suc.prems(2) by (simp add: s1_def)
  then show ?case using g' by (intro exI [of _ g'] exI [of _ ch]) (simp add: s1_def)
qed

lemma challenge_length_bounds:
  fixes r :: u32_t
  defines "len \<equiv> drop_bit 16 (drop_bit 16 r * 32) + 32"
  shows "32 \<le> unat len" "unat len \<le> 63"
proof -
  have "unat r div 65536 < 65536" using unat_u32_less [of r] by (simp add: div_less_iff_less_mult)
  then have m: "unat (drop_bit 16 r * 32 :: u32_t) = unat r div 65536 * 32"
    by (simp add: unat_word_ariths unat_drop_bit)
  then have "unat (drop_bit 16 (drop_bit 16 r * 32) :: u32_t) < 32"
    using \<open>unat r div 65536 < 65536\<close> by (simp add: unat_drop_bit div_less_iff_less_mult)
  then have "unat len = unat (drop_bit 16 (drop_bit 16 r * 32) :: u32_t) + 32"
    unfolding len_def by (simp add: unat_word_ariths)
  then show "32 \<le> unat len" "unat len \<le> 63"
    using \<open>unat (drop_bit 16 (drop_bit 16 r * 32) :: u32_t) < 32\<close> by simp_all
qed

lemma ChapGenChallenge_ok:
  assumes "rand_ok env s" "length (challenge s) = 64"
  obtains g ch len where "ChapGenChallenge env s = Some (s\<lparr>chap_rand := g, challenge := ch, chal_len := len,
      c_id := c_id s + 1, chal_id := c_id s + 1, chal_transmits := 0\<rparr>)"
    "length ch = 64" "32 \<le> unat len" "unat len \<le> 63" "length (randPool g) = 16"
proof -
  obtain r g0 where r: "magic (stack_md5 env) (stack_word env) (chap_rand s) = Some (r, g0)" "length (randPool g0) = 16"
    using magic_ok [OF assms(1)] .
  define len where "len = drop_bit 16 (drop_bit 16 r * 32) + 32"
  note bounds = challenge_length_bounds [of r, folded len_def]
  define s1 where "s1 = s\<lparr>chap_rand := g0, chal_len := ucast len, c_id := c_id s + 1, chal_id := c_id s + 1, chal_transmits := 0\<rparr>"
  have "rand_ok env s1" "0 + unat len \<le> length (challenge s1)"
    using assms r(2) bounds by (simp_all add: rand_ok_def s1_def)
  from gen_challenge_loop_ok [OF this] obtain g ch where
    g: "gen_challenge_loop env 0 (unat len) s1 = Some (s1\<lparr>chap_rand := g, challenge := ch\<rparr>)"
      "length ch = 64" "length (randPool g) = 16" using assms(2) by (auto simp: s1_def)
  have u: "unat (ucast len :: u8_t) = unat len" using bounds by (simp add: unat_ucast_mod)
  have "ChapGenChallenge env s = gen_challenge_loop env 0 (unat len) s1"
    using r(1) bounds by (simp add: ChapGenChallenge_def len_def [symmetric] s1_def)
  then have "ChapGenChallenge env s = Some (s\<lparr>chap_rand := g, challenge := ch, chal_len := ucast len,
      c_id := c_id s + 1, chal_id := c_id s + 1, chal_transmits := 0\<rparr>)"
    using g(1) by (simp add: s1_def)
  then show thesis using that g bounds u by simp
qed

section \<open>The handshake, step by step\<close>

lemma chap_frame_header: "length body \<le> 1496 \<Longrightarrow> fsm_header (drop 4 (chap_frame code i body)) = Some (code, i, body)"
  by (simp add: chap_frame_def chap_header_packet)

text \<open>A pending timer list with room for one more timer.\<close>

definition chap_timers :: "(memp_t \<Rightarrow> nat) \<Rightarrow> addr \<Rightarrow> 'a timer_state_scheme \<Rightarrow> nat \<Rightarrow> bool" where
  "chap_timers sizes a s n \<longleftrightarrow> (\<exists>es. timer_rep sizes a s es \<and> length es + n \<le> memp_num MEMP_SYS_TIMEOUT)"

lemma chap_timers_cong:
  "next_timeout s' = next_timeout s \<Longrightarrow> timeos s' = timeos s \<Longrightarrow> timer_pools s' = timer_pools s \<Longrightarrow>
   chap_timers sizes a s' n = chap_timers sizes a s n"
  unfolding chap_timers_def using timer_rep_cong [of s' s sizes a] by simp

lemma chap_timeout_step:
  assumes "chap_timers sizes a s 1"
  obtains s' where "chap_timeout h t s = Some s'" "timers_only s s'" "chap_timers sizes a s' 0"
proof -
  obtain es where es: "timer_rep sizes a s es" "length es < memp_num MEMP_SYS_TIMEOUT"
    using assms by (auto simp: chap_timers_def)
  obtain s' where s': "chap_timeout h t s = Some s'" "timers_only s s'"
    "timer_rep sizes a s' (insert_timer (nat (t * 1000 mod 4294967296)) h (c_addr s) (cancel_timer h (c_addr s) es))"
    by (rule chap_timeout_ok [OF es])
  have "chap_timers sizes a s' 0"
    unfolding chap_timers_def
    by (rule exI, rule conjI, rule s'(3)) (use es(2) length_cancel_timer [of h "c_addr s" es] in simp)
  with s'(1,2) show thesis by (rule that)
qed

lemma chap_untimeout_step:
  assumes "chap_timers sizes a s n"
  obtains s' where "chap_untimeout h s = Some s'" "timers_only s s'" "chap_timers sizes a s' n"
proof -
  obtain es where es: "timer_rep sizes a s es" "length es + n \<le> memp_num MEMP_SYS_TIMEOUT"
    using assms by (auto simp: chap_timers_def)
  obtain s' where s': "chap_untimeout h s = Some s'" "timers_only s s'"
    "timer_rep sizes a s' (cancel_timer h (c_addr s) es)"
    by (rule chap_untimeout_ok [OF es(1)])
  have "chap_timers sizes a s' n"
    unfolding chap_timers_def
    by (rule exI, rule conjI, rule s'(3)) (use es(2) length_cancel_timer [of h "c_addr s" es] in simp)
  with s'(1,2) show thesis by (rule that)
qed

lemma timers_only_update:
  fixes s s' :: "'a chap_state_scheme"
  assumes "timers_only s s'"
  shows "timers_only (s\<lparr>chal_transmits := v\<rparr>) (s'\<lparr>chal_transmits := v\<rparr>)"
    "timers_only (s\<lparr>resp_transmits := v\<rparr>) (s'\<lparr>resp_transmits := v\<rparr>)"
    "timers_only (s\<lparr>serverstate := st\<rparr>) (s'\<lparr>serverstate := st\<rparr>)"
proof -
  obtain q f m where s': "s' = s\<lparr>next_timeout := q, timeos := f, timer_pools := m\<rparr>"
    using assms by (auto simp: timers_only_def)
  show "timers_only (s\<lparr>chal_transmits := v\<rparr>) (s'\<lparr>chal_transmits := v\<rparr>)"
    "timers_only (s\<lparr>resp_transmits := v\<rparr>) (s'\<lparr>resp_transmits := v\<rparr>)"
    "timers_only (s\<lparr>serverstate := st\<rparr>) (s'\<lparr>serverstate := st\<rparr>)"
    unfolding timers_only_def s'
    by (rule exI [of _ q], rule exI [of _ f], rule exI [of _ m], rule chap_state.equality, simp_all)+
qed

lemma ChapSendChallenge_ok:
  assumes t: "chap_timers sizes a s 1"
    and s: "chal_name s = Some name" "length name \<le> 1400" "unat (chal_len s) \<le> 63" "length (challenge s) = 64"
  defines "pkt \<equiv> chap_frame CHAP_CHALLENGE (chal_id s) (chal_len s # take (unat (chal_len s)) (challenge s) @ name)"
  obtains s' where "ChapSendChallenge s = Some s'"
    "timers_only (s\<lparr>chap_sent := chap_sent s @ [pkt], chal_transmits := chal_transmits s + 1\<rparr>) s'"
    "chap_timers sizes a s' 0"
proof -
  define s1 where "s1 = s\<lparr>chap_sent := chap_sent s @ [pkt]\<rparr>"
  have "length (chal_len s # take (unat (chal_len s)) (challenge s) @ name) \<le> 1496" using s by simp
  then have w: "chap_write CHAP_CHALLENGE (chal_id s) (chal_len s # take (unat (chal_len s)) (challenge s) @ name) s = Some s1"
    by (simp add: chap_write_ok s1_def pkt_def chap_frame_def)
  have "chap_timers sizes a s1 1" using t chap_timers_cong [of s1 s sizes a 1] by (simp add: s1_def)
  then obtain s2 where s2: "chap_timeout CHAP_CHALLENGE_TIMEOUT (timeouttime s1) s1 = Some s2" "timers_only s1 s2" "chap_timers sizes a s2 0"
    by (rule chap_timeout_step)
  define s3 where "s3 = s2\<lparr>chal_transmits := chal_transmits s2 + 1\<rparr>"
  have "ChapSendChallenge s = Some s3"
    using s w s2(1) by (simp add: ChapSendChallenge_def s3_def)
  moreover have "timers_only (s\<lparr>chap_sent := chap_sent s @ [pkt], chal_transmits := chal_transmits s + 1\<rparr>) s3"
    using timers_only_update [OF s2(2)] timers_only_fields(13) [OF s2(2)] by (simp add: s3_def s1_def)
  moreover have "chap_timers sizes a s3 0" using s2(3) chap_timers_cong [of s3 s2 sizes a 0] by (simp add: s3_def)
  ultimately show thesis by (rule that)
qed

lemma ChapAuthPeer_ok:
  assumes t: "chap_timers sizes a s 1" and r: "rand_ok env s" "length (challenge s) = 64" "length name \<le> 1400"
    and st: "serverstate s \<notin> {CHAPSS_INITIAL, CHAPSS_PENDING}"
  obtains s' where "ChapAuthPeer env name dig s = Some s'"
    "serverstate s' = CHAPSS_INITIAL_CHAL" "chal_name s' = Some name" "chal_type s' = dig"
    "chal_interval s' = chal_interval s" "chal_id s' = c_id s + 1"
    "length (challenge s') = 64" "32 \<le> unat (chal_len s')" "unat (chal_len s') \<le> 63"
    "chap_sent s' = chap_sent s @ [chap_frame CHAP_CHALLENGE (chal_id s')
        (chal_len s' # take (unat (chal_len s')) (challenge s') @ name)]"
    "chap_timers sizes a s' 0" "chal_transmits s' = 1" "max_transmits s' = max_transmits s"
proof -
  define s1 where "s1 = s\<lparr>chal_name := Some name, chal_type := dig\<rparr>"
  have "rand_ok env s1" "length (challenge s1) = 64" using r by (simp_all add: rand_ok_def s1_def)
  then obtain g ch len where gen: "ChapGenChallenge env s1 = Some (s1\<lparr>chap_rand := g, challenge := ch, chal_len := len,
      c_id := c_id s1 + 1, chal_id := c_id s1 + 1, chal_transmits := 0\<rparr>)"
    "length ch = 64" "32 \<le> unat len" "unat len \<le> 63" by (rule ChapGenChallenge_ok)
  define s2 where "s2 = s1\<lparr>chap_rand := g, challenge := ch, chal_len := len, c_id := c_id s1 + 1,
      chal_id := c_id s1 + 1, chal_transmits := 0\<rparr>"
  have "chap_timers sizes a s2 1" using t chap_timers_cong [of s2 s sizes a 1] by (simp add: s2_def s1_def)
  moreover have "chal_name s2 = Some name" "unat (chal_len s2) \<le> 63" "length (challenge s2) = 64"
    using gen by (simp_all add: s2_def s1_def)
  ultimately obtain s3 where s3: "ChapSendChallenge s2 = Some s3"
    "timers_only (s2\<lparr>chap_sent := chap_sent s2 @ [chap_frame CHAP_CHALLENGE (chal_id s2)
        (chal_len s2 # take (unat (chal_len s2)) (challenge s2) @ name)], chal_transmits := chal_transmits s2 + 1\<rparr>) s3"
    "chap_timers sizes a s3 0"
    using ChapSendChallenge_ok r(3) by blast
  define s4 where "s4 = s3\<lparr>serverstate := CHAPSS_INITIAL_CHAL\<rparr>"
  have run: "ChapAuthPeer env name dig s = Some s4"
    using st gen(1) s3(1) unfolding ChapAuthPeer_def Let_def s1_def [symmetric]
    by (simp add: s2_def [symmetric] s4_def) (simp add: s1_def)
  have "chap_timers sizes a s4 0" using s3(3) chap_timers_cong [of s4 s3 sizes a 0] by (simp add: s4_def)
  then show thesis
    using gen timers_only_fields [OF s3(2)]
    by (intro that [OF run]) (simp_all add: s4_def s2_def s1_def)
qed

lemma ChapSendResponse_ok:
  assumes t: "chap_timers sizes a s 1"
    and s: "resp_name s = Some name" "length name \<le> 1400" "resp_length s = 16" "length md = 16" "take 16 (response s) = md"
  obtains s' where "ChapSendResponse s = Some s'" "clientstate s' = CHAPCS_RESPONSE" "chap_timers sizes a s' 0"
    "chap_sent s' = chap_sent s @ [chap_frame CHAP_RESPONSE (resp_id s) (16 # md @ name)]" "serverstate s' = serverstate s"
proof -
  define s1 where "s1 = s\<lparr>chap_sent := chap_sent s @ [chap_frame CHAP_RESPONSE (resp_id s) (16 # md @ name)]\<rparr>"
  have w: "chap_write CHAP_RESPONSE (resp_id s) (16 # md @ name) s = Some s1"
    using s by (subst chap_write_ok) (simp_all add: s1_def chap_frame_def)
  define s2 where "s2 = s1\<lparr>clientstate := CHAPCS_RESPONSE\<rparr>"
  have "chap_timers sizes a s2 1" using t chap_timers_cong [of s2 s sizes a 1] by (simp add: s2_def s1_def)
  then obtain s3 where s3: "chap_timeout CHAP_RESPONSE_TIMEOUT (timeouttime s1) s2 = Some s3" "timers_only s2 s3" "chap_timers sizes a s3 0"
    by (rule chap_timeout_step)
  define s4 where "s4 = s3\<lparr>resp_transmits := resp_transmits s3 + 1\<rparr>"
  have "16 \<le> length (response s)" using s(4,5) by (metis length_take min.cobounded1)
  then have run: "ChapSendResponse s = Some s4"
    using s w s3(1) by (simp add: ChapSendResponse_def s2_def s4_def)
  have "chap_timers sizes a s4 0" using s3(3) chap_timers_cong [of s4 s3 sizes a 0] by (simp add: s4_def)
  then show thesis
    using timers_only_fields [OF s3(2)] by (intro that [OF run]) (simp_all add: s4_def s2_def s1_def)
qed

lemma ChapReceiveChallenge_ok:
  assumes t: "chap_timers sizes a s 1" and env: "md5_ready (stack_md5 env)"
    and s: "clientstate s \<in> {CHAPCS_INITIAL, CHAPCS_LISTEN, CHAPCS_OPEN}" "resp_type s = CHAP_DIGEST_MD5" "length (response s) = 64"
    and name: "resp_name s = Some (ppp_user env)" "ppp_user env \<noteq> []" "length (ppp_user env) \<le> 1400"
    and chal: "length chal = unat n" "0 < unat n"
  obtains s' where "ChapReceiveChallenge env i (n # chal @ peer) s = Some s'" "clientstate s' = CHAPCS_RESPONSE"
    "chap_timers sizes a s' 0"
    "chap_sent s' = chap_sent s @ [chap_frame CHAP_RESPONSE i (16 # chap_proof env i chal @ ppp_user env)]"
proof -
  obtain m rest where mr: "chal @ peer = m # rest" using chal by (cases "chal @ peer") auto
  have len: "unat n \<le> length (m # rest)" "take (unat n) (m # rest) = chal"
    unfolding mr [symmetric] using chal by simp_all
  define s1 where "s1 = s\<lparr>resp_id := i, resp_transmits := 0, response := overwrite 0 (chap_proof env i chal) (response s), resp_length := 16\<rparr>"
  have hash: "chap_hash env i (chap_secret env) chal (unat n) = Some (chap_proof env i chal)"
    unfolding chap_proof_def using env chal unat_u8_le [of n]
    by (subst chap_hash_md5) auto
  have run: "ChapReceiveChallenge env i (n # chal @ peer) s = ChapSendResponse s1"
    using s name len hash unfolding mr
    by (auto simp: ChapReceiveChallenge_def Let_def get_secret_eq s1_def)
  have "chap_timers sizes a s1 1" using t chap_timers_cong [of s1 s sizes a 1] by (simp add: s1_def)
  moreover have "resp_name s1 = Some (ppp_user env)" "resp_length s1 = 16" "length (chap_proof env i chal) = 16"
    "take 16 (response s1) = chap_proof env i chal"
    using name s by (simp_all add: s1_def chap_proof_def overwrite_def)
  ultimately obtain s2 where "ChapSendResponse s1 = Some s2" "clientstate s2 = CHAPCS_RESPONSE" "chap_timers sizes a s2 0"
    "chap_sent s2 = chap_sent s1 @ [chap_frame CHAP_RESPONSE (resp_id s1) (16 # chap_proof env i chal @ ppp_user env)]"
    using ChapSendResponse_ok name(3) by blast
  then show thesis using run by (intro that [of s2]) (simp_all add: s1_def)
qed

lemma ChapReceiveResponse_ok:
  assumes t: "chap_timers sizes a s k" and env: "md5_ready (stack_md5 env)"
    and s: "serverstate s \<in> {CHAPSS_INITIAL, CHAPSS_INITIAL_CHAL, CHAPSS_RECHALLENGE}" "chal_type s = CHAP_DIGEST_MD5" "length (challenge s) = 64" "unat (chal_len s) \<le> 63"
    and name: "ppp_user env \<noteq> []" "c_string (take 255 name) = ppp_user env"
  obtains s1 where "ChapReceiveResponse env auth (chal_id s) (chap_answer env s name) s
      = do { s \<leftarrow> (if serverstate s = CHAPSS_INITIAL_CHAL then auth_peer_success auth (take 255 name) s1 else Some s1);
             if chal_interval s \<noteq> 0 then chap_timeout CHAP_RECHALLENGE (chal_interval s) s else Some s }"
    "timers_only (s\<lparr>serverstate := CHAPSS_OPEN,
        chap_sent := chap_sent s @ [chap_frame CHAP_SUCCESS (chal_id s) welcome_msg]\<rparr>) s1"
    "chap_timers sizes a s1 k"
proof -
  define md where "md = chap_proof env (chal_id s) (take (unat (chal_len s)) (challenge s))"
  have md16: "length md = 16" by (simp add: md_def chap_proof_def)
  obtain m rest where mr: "md @ name = m # rest" using md16 by (cases "md @ name") auto
  have len: "unat (16 :: u8_t) \<le> length (m # rest)" "take 16 (m # rest) = md" "drop 16 (m # rest) = name"
    unfolding mr [symmetric] using md16 by simp_all
  obtain s1 where s1: "chap_untimeout CHAP_CHALLENGE_TIMEOUT s = Some s1" "timers_only s s1" "chap_timers sizes a s1 k"
    by (rule chap_untimeout_step [OF t])
  note s1f = timers_only_fields [OF s1(2)]
  have hash: "chap_hash env (chal_id s) (chap_secret env) (challenge s) (unat (chal_len s)) = Some md"
    unfolding md_def chap_proof_def using env s(3,4) by (intro chap_hash_md5) auto
  define s2 where "s2 = s1\<lparr>chap_sent := chap_sent s1 @ [chap_frame CHAP_SUCCESS (chal_id s) welcome_msg]\<rparr>"
  have st: "ChapSendStatus CHAP_SUCCESS s1 = Some s2"
    unfolding ChapSendStatus_def Let_def by (subst chap_write_ok) (simp_all add: s2_def chap_frame_def s1f)
  define s3 where "s3 = s2\<lparr>serverstate := CHAPSS_OPEN\<rparr>"
  have run: "ChapReceiveResponse env auth (chal_id s) (chap_answer env s name) s
      = do { s \<leftarrow> (if serverstate s = CHAPSS_INITIAL_CHAL then auth_peer_success auth (take 255 name) s3 else Some s3);
             if chal_interval s \<noteq> 0 then chap_timeout CHAP_RECHALLENGE (chal_interval s) s else Some s }"
    unfolding chap_answer_def md_def [symmetric] mr
    using s s1(1) len st hash name
    by (auto simp: ChapReceiveResponse_def Let_def get_secret_eq s1f s3_def s2_def)
  have "chap_timers sizes a s3 k" using s1(3) chap_timers_cong [of s3 s1 sizes a k] by (simp add: s3_def s2_def)
  moreover have "timers_only (s\<lparr>serverstate := CHAPSS_OPEN,
        chap_sent := chap_sent s @ [chap_frame CHAP_SUCCESS (chal_id s) welcome_msg]\<rparr>) s3"
  proof -
    obtain q f m where s': "s1 = s\<lparr>next_timeout := q, timeos := f, timer_pools := m\<rparr>"
      using s1(2) by (auto simp: timers_only_def)
    show ?thesis unfolding timers_only_def s3_def s2_def s'
      by (rule exI [of _ q], rule exI [of _ f], rule exI [of _ m], rule chap_state.equality) simp_all
  qed
  ultimately show thesis using run by (intro that [of s3])
qed

lemma ChapReceiveSuccess_ok:
  assumes "chap_timers sizes a s k" "clientstate s = CHAPCS_RESPONSE"
  obtains s1 where "ChapReceiveSuccess auth s = auth_withpeer_success auth s1" "clientstate s1 = CHAPCS_OPEN"
    "chap_timers sizes a s1 k"
proof -
  obtain s1 where s1: "chap_untimeout CHAP_RESPONSE_TIMEOUT s = Some s1" "timers_only s s1" "chap_timers sizes a s1 k"
    by (rule chap_untimeout_step [OF assms(1)])
  define s2 where "s2 = s1\<lparr>clientstate := CHAPCS_OPEN\<rparr>"
  have "chap_timers sizes a s2 k" using s1(3) chap_timers_cong [of s2 s1 sizes a k] by (simp add: s2_def)
  then show thesis using assms(2) s1(1) by (intro that [of s2]) (simp_all add: ChapReceiveSuccess_def s2_def)
qed

end
