(* ===== verification/Chap_Claims.thy ===== *)
theory Chap_Claims
  imports Chap_Props
begin

text \<open>The claims on the challenge handshake.\<close>

section \<open>A silent peer\<close>

text \<open>
  \<open>challenge_timer sizes a s n\<close>: the timers of others leave room for one more, and the challenge timer is pending at most
  once; \<open>n\<close> tells how often.
\<close>

definition challenge_timer :: "(memp_t \<Rightarrow> nat) \<Rightarrow> addr \<Rightarrow> 'a chap_state_scheme \<Rightarrow> nat \<Rightarrow> bool" where
  "challenge_timer sizes a s n \<longleftrightarrow> n \<le> 1 \<and> (\<exists>es. timer_rep sizes a s es
     \<and> length (filter (\<lambda>e. snd e \<noteq> (CHAP_CHALLENGE_TIMEOUT, c_addr s)) es) < memp_num MEMP_SYS_TIMEOUT
     \<and> length (filter (\<lambda>e. snd e = (CHAP_CHALLENGE_TIMEOUT, c_addr s)) es) = n)"

text \<open>The expiry of the challenge timer: it leaves the list and its handler runs.\<close>

definition challenge_expires ::
  "'a chap_state_scheme auth_calls \<Rightarrow> 'a chap_state_scheme \<Rightarrow> 'a chap_state_scheme option" where
  "challenge_expires auth s = do { s \<leftarrow> chap_untimeout CHAP_CHALLENGE_TIMEOUT s; ChapChallengeTimeout auth s }"

fun challenge_expires_times ::
  "'a chap_state_scheme auth_calls \<Rightarrow> nat \<Rightarrow> 'a chap_state_scheme \<Rightarrow> 'a chap_state_scheme option" where
  "challenge_expires_times auth 0 s = Some s"
| "challenge_expires_times auth (Suc n) s = do { s \<leftarrow> challenge_expires auth s; challenge_expires_times auth n s }"

lemma challenge_timer_off:
  assumes "challenge_timer sizes a s n"
  obtains s' where "chap_untimeout CHAP_CHALLENGE_TIMEOUT s = Some s'" "timers_only s s'" "challenge_timer sizes a s' 0"
proof -
  obtain es where es: "timer_rep sizes a s es" "n \<le> 1"
    "length (filter (\<lambda>e. snd e \<noteq> (CHAP_CHALLENGE_TIMEOUT, c_addr s)) es) < memp_num MEMP_SYS_TIMEOUT"
    "length (filter (\<lambda>e. snd e = (CHAP_CHALLENGE_TIMEOUT, c_addr s)) es) = n"
    using assms unfolding challenge_timer_def by blast
  obtain s' where s': "chap_untimeout CHAP_CHALLENGE_TIMEOUT s = Some s'" "timers_only s s'"
    "timer_rep sizes a s' (cancel_timer CHAP_CHALLENGE_TIMEOUT (c_addr s) es)" by (rule chap_untimeout_ok [OF es(1)])
  have "challenge_timer sizes a s' 0"
    unfolding challenge_timer_def timers_only_fields(1) [OF s'(2)] using es
    by (intro conjI exI [of _ "cancel_timer CHAP_CHALLENGE_TIMEOUT (c_addr s) es"]) (simp_all add: s'(3) filter_cancel_timer)
  with s'(1,2) show thesis by (rule that)
qed

lemma challenge_timer_on:
  assumes "challenge_timer sizes a s 0"
  obtains s' where "chap_timeout CHAP_CHALLENGE_TIMEOUT t s = Some s'" "timers_only s s'" "challenge_timer sizes a s' 1"
proof -
  obtain es where es: "timer_rep sizes a s es"
    "length (filter (\<lambda>e. snd e \<noteq> (CHAP_CHALLENGE_TIMEOUT, c_addr s)) es) < memp_num MEMP_SYS_TIMEOUT"
    "length (filter (\<lambda>e. snd e = (CHAP_CHALLENGE_TIMEOUT, c_addr s)) es) = 0"
    using assms unfolding challenge_timer_def by blast
  then have "length es < memp_num MEMP_SYS_TIMEOUT"
    using length_filters [of es "\<lambda>e. snd e = (CHAP_CHALLENGE_TIMEOUT, c_addr s)"] by simp
  then obtain s' where s': "chap_timeout CHAP_CHALLENGE_TIMEOUT t s = Some s'" "timers_only s s'"
    "timer_rep sizes a s' (insert_timer (nat (t * 1000 mod 4294967296)) CHAP_CHALLENGE_TIMEOUT (c_addr s)
        (cancel_timer CHAP_CHALLENGE_TIMEOUT (c_addr s) es))" by (rule chap_timeout_ok [OF es(1)])
  have "challenge_timer sizes a s' 1"
    unfolding challenge_timer_def timers_only_fields(1) [OF s'(2)] using es
    by (intro conjI exI [of _ "insert_timer (nat (t * 1000 mod 4294967296)) CHAP_CHALLENGE_TIMEOUT (c_addr s)
          (cancel_timer CHAP_CHALLENGE_TIMEOUT (c_addr s) es)"])
      (simp_all add: s'(3) filter_insert_timer filter_cancel_timer)
  with s'(1,2) show thesis by (rule that)
qed

lemma challenge_timer_cong:
  "next_timeout s' = next_timeout s \<Longrightarrow> timeos s' = timeos s \<Longrightarrow> timer_pools s' = timer_pools s \<Longrightarrow> c_addr s' = c_addr s \<Longrightarrow>
   challenge_timer sizes a s' n = challenge_timer sizes a s n"
  unfolding challenge_timer_def using timer_rep_cong [of s' s sizes a] by simp

definition challenge_packet :: "'a chap_state_scheme \<Rightarrow> u8_t list \<Rightarrow> u8_t list" where
  "challenge_packet s name = chap_frame CHAP_CHALLENGE (chal_id s) (chal_len s # take (unat (chal_len s)) (challenge s) @ name)"

text \<open>What a challenge needs, and what stays as it is when it is sent again.\<close>

definition challenging :: "'a chap_state_scheme \<Rightarrow> u8_t list \<Rightarrow> bool" where
  "challenging s name \<longleftrightarrow> serverstate s \<in> {CHAPSS_INITIAL_CHAL, CHAPSS_RECHALLENGE} \<and> chal_name s = Some name
     \<and> length name \<le> 1400 \<and> unat (chal_len s) \<le> 63 \<and> length (challenge s) = 64"

lemma challenge_expires_again:
  assumes "challenge_timer sizes a s n" "challenging s name" "chal_transmits s < max_transmits s"
  obtains s' where "challenge_expires auth s = Some s'" "challenge_timer sizes a s' 1" "challenging s' name"
    "chap_sent s' = chap_sent s @ [challenge_packet s name]" "challenge_packet s' name = challenge_packet s name"
    "chal_transmits s' = chal_transmits s + 1" "max_transmits s' = max_transmits s"
proof -
  obtain s1 where s1: "chap_untimeout CHAP_CHALLENGE_TIMEOUT s = Some s1" "timers_only s s1" "challenge_timer sizes a s1 0"
    by (rule challenge_timer_off [OF assms(1)])
  note f1 = timers_only_fields [OF s1(2)]
  define s2 where "s2 = s1\<lparr>chap_sent := chap_sent s1 @ [challenge_packet s name]\<rparr>"
  have w: "chap_write CHAP_CHALLENGE (chal_id s) (chal_len s # take (unat (chal_len s)) (challenge s) @ name) s1 = Some s2"
    using assms(2) by (subst chap_write_ok) (simp_all add: challenging_def s2_def challenge_packet_def chap_frame_def)
  have "challenge_timer sizes a s2 0" using s1(3) challenge_timer_cong [of s2 s1 sizes a 0] by (simp add: s2_def)
  then obtain s3 where s3: "chap_timeout CHAP_CHALLENGE_TIMEOUT (timeouttime s2) s2 = Some s3" "timers_only s2 s3"
    "challenge_timer sizes a s3 1" by (rule challenge_timer_on)
  note f3 = timers_only_fields [OF s3(2)]
  define s4 where "s4 = s3\<lparr>chal_transmits := chal_transmits s3 + 1\<rparr>"
  have "ChapSendChallenge s1 = Some s4"
    using assms(2) w s3(1) by (simp add: ChapSendChallenge_def challenging_def f1 s4_def)
  then have run: "challenge_expires auth s = Some s4"
    using assms(2,3) s1(1) by (auto simp: challenge_expires_def ChapChallengeTimeout_def challenging_def f1)
  have "challenge_timer sizes a s4 1" using s3(3) challenge_timer_cong [of s4 s3 sizes a 1] by (simp add: s4_def)
  then show thesis
    using assms(2) by (intro that [OF run]) (simp_all add: challenging_def challenge_packet_def s4_def f3 s2_def f1)
qed

lemma challenge_expires_last:
  assumes "challenge_timer sizes a s n" "challenging s name" "max_transmits s \<le> chal_transmits s"
  obtains t where "challenge_expires auth s = auth_peer_fail auth t" "serverstate t = CHAPSS_BADAUTH"
    "chap_sent t = chap_sent s" "challenge_timer sizes a t 0"
proof -
  obtain s1 where s1: "chap_untimeout CHAP_CHALLENGE_TIMEOUT s = Some s1" "timers_only s s1" "challenge_timer sizes a s1 0"
    by (rule challenge_timer_off [OF assms(1)])
  note f1 = timers_only_fields [OF s1(2)]
  define t where "t = s1\<lparr>serverstate := CHAPSS_BADAUTH\<rparr>"
  have "challenge_timer sizes a t 0" using s1(3) challenge_timer_cong [of t s1 sizes a 0] by (simp add: t_def)
  then show thesis
    using assms(2,3) s1(1) f1
    by (intro that [of t]) (auto simp: challenge_expires_def ChapChallengeTimeout_def challenging_def t_def)
qed

lemma challenge_expires_all:
  "challenge_timer sizes a s 1 \<Longrightarrow> challenging s name \<Longrightarrow> n = nat (max_transmits s - chal_transmits s) \<Longrightarrow>
   (\<forall>k \<le> n. \<exists>t. challenge_expires_times auth k s = Some t \<and> challenge_timer sizes a t 1
       \<and> chap_sent t = chap_sent s @ replicate k (challenge_packet s name))
   \<and> (\<exists>t. challenge_expires_times auth (Suc n) s = auth_peer_fail auth t \<and> serverstate t = CHAPSS_BADAUTH
     \<and> chap_sent t = chap_sent s @ replicate n (challenge_packet s name) \<and> challenge_timer sizes a t 0)"
proof (induction n arbitrary: s)
  case 0
  then have "max_transmits s \<le> chal_transmits s" by simp
  from challenge_expires_last [OF 0(1,2) this] obtain t where
    "challenge_expires auth s = auth_peer_fail auth t" "serverstate t = CHAPSS_BADAUTH"
    "chap_sent t = chap_sent s" "challenge_timer sizes a t 0" .
  moreover have "challenge_expires_times auth 0 = Some" by (rule ext) simp
  ultimately show ?case by (intro conjI exI [of _ t]) (use 0(1) in simp_all)
next
  case (Suc n)
  then have "chal_transmits s < max_transmits s" by linarith
  from challenge_expires_again [OF Suc.prems(1,2) this] obtain s' where
    s': "challenge_expires auth s = Some s'" "challenge_timer sizes a s' 1" "challenging s' name"
      "chap_sent s' = chap_sent s @ [challenge_packet s name]" "challenge_packet s' name = challenge_packet s name"
      "chal_transmits s' = chal_transmits s + 1" "max_transmits s' = max_transmits s" .
  have "n = nat (max_transmits s' - chal_transmits s')" using Suc.prems(3) s'(6,7) by simp
  note IH = Suc.IH [OF s'(2,3) this, unfolded s'(4,5)]
  have step: "challenge_expires_times auth (Suc k) s = challenge_expires_times auth k s'" for k using s'(1) by simp
  have "\<exists>t. challenge_expires_times auth k s = Some t \<and> challenge_timer sizes a t 1
       \<and> chap_sent t = chap_sent s @ replicate k (challenge_packet s name)" if "k \<le> Suc n" for k
  proof (cases k)
    case 0
    then show ?thesis using Suc.prems(1) by simp
  next
    case (Suc j)
    then have "j \<le> n" using that by simp
    then show ?thesis using IH unfolding Suc step by (simp del: challenge_expires_times.simps)
  qed
  moreover have "\<exists>t. challenge_expires_times auth (Suc (Suc n)) s = auth_peer_fail auth t \<and> serverstate t = CHAPSS_BADAUTH
     \<and> chap_sent t = chap_sent s @ replicate (Suc n) (challenge_packet s name) \<and> challenge_timer sizes a t 0"
    using IH unfolding step [of "Suc n"] by (simp del: challenge_expires_times.simps)
  ultimately show ?case by blast
qed

section \<open>Two peers for the witnesses\<close>

definition ppp_env0 :: ppp_env where
  "ppp_env0 = \<lparr>ppp_user = [97, 98], ppp_passwd = [115, 116], ppp_remote_name = [], ppp_explicit_remote = False,
     stack_md5 = md5_ctx0, stack_word = [1, 2, 3, 4]\<rparr>"

text \<open>The field behind the protocol's state collects the reports to the layer above.\<close>

definition auth_log :: "nat list chap_state_scheme auth_calls" where
  "auth_log = \<lparr>auth_peer_fail = (\<lambda>s. Some (s\<lparr>chap_state.more := 1 # chap_state.more s\<rparr>)),
     auth_peer_success = (\<lambda>_ s. Some (s\<lparr>chap_state.more := 2 # chap_state.more s\<rparr>)),
     auth_withpeer_fail = (\<lambda>s. Some (s\<lparr>chap_state.more := 3 # chap_state.more s\<rparr>)),
     auth_withpeer_success = (\<lambda>s. Some (s\<lparr>chap_state.more := 4 # chap_state.more s\<rparr>))\<rparr>"

definition chap0 :: "nat list chap_state_scheme" where
  "chap0 = \<lparr>next_timeout = next_timeout timers0, timeouts_last_time = timeouts_last_time timers0,
     timeos = timeos timers0, timer_pools = timer_pools timers0, c_addr = 9, clientstate = CHAPCS_LISTEN,
     serverstate = CHAPSS_CLOSED, challenge = replicate 64 7, chal_len = 32, chal_id = 0, chal_type = 5, c_id = 0,
     chal_name = Some [120], chal_interval = 0, timeouttime = 6, max_transmits = 10, chal_transmits = 1, resp_transmits = 0,
     response = replicate 64 0, resp_length = 0, resp_id = 0, resp_type = 5, resp_name = Some [97, 98],
     chap_rand = \<lparr>randPool = replicate 16 3, randCount = 5\<rparr>, chap_sent = [], \<dots> = []\<rparr>"

lemma chap0_rep: "timer_rep sizes0 4 chap0 []"
  using timers0_rep timer_rep_def timer_list_def
  unfolding timer_rep_def timer_list_def by (simp add: chap0_def)

lemma chap0_timers: "chap_timers sizes0 4 chap0 1"
  using chap0_rep by (auto simp: chap_timers_def memp_num_timeouts intro!: exI [of _ "[]"])

lemma chap0_rand: "rand_ok ppp_env0 chap0"
  by (simp add: rand_ok_def ppp_env0_def chap0_def)

section \<open>Claims\<close>

text \<open>
  C15. The whole handshake. A server that starts to authenticate its peer sends a challenge of 32 to 63 random bytes; when the
  peer holds the same name and password, the packet the peer's code answers with makes the server report the
  peer's name as authenticated, open, and send Success; and that packet makes the peer open and report its own success.
  Each packet is taken as the other side's code wrote it, behind the four bytes of the PPP header.
\<close>

theorem chap_handshake:
  assumes server: "chap_timers sizes a s 1" "rand_ok env s" "length (challenge s) = 64" "chal_interval s = 0"
      "serverstate s \<notin> {CHAPSS_INITIAL, CHAPSS_PENDING}" "length name \<le> 1400"
    and server_auth: "\<And>nm t. \<exists>t'. auth_peer_success auth nm t = Some t' \<and> serverstate t' = serverstate t
      \<and> chal_interval t' = chal_interval t \<and> chap_sent t' = chap_sent t"
    and client: "chap_timers sizes' a' k 1" "clientstate k = CHAPCS_LISTEN" "resp_type k = CHAP_DIGEST_MD5"
      "length (response k) = 64" "resp_name k = Some (ppp_user env')" "md5_ready (stack_md5 env')"
    and client_auth: "\<And>t. \<exists>t'. auth_withpeer_success auth' t = Some t' \<and> clientstate t' = clientstate t"
    and shared: "ppp_user env' = ppp_user env" "ppp_passwd env' = ppp_passwd env"
      "ppp_user env \<noteq> []" "0 \<notin> set (ppp_user env)" "length (ppp_user env) \<le> 255"
  shows "\<exists>s1 chal k1 resp t s2 ok t' k2.
      ChapAuthPeer env name CHAP_DIGEST_MD5 s = Some s1 \<and> chap_sent s1 = chap_sent s @ [chal]
      \<and> 32 \<le> unat (chal_len s1) \<and> unat (chal_len s1) \<le> 63
      \<and> ChapInput env' auth' (drop 4 chal) k = Some k1 \<and> chap_sent k1 = chap_sent k @ [resp]
      \<and> ChapInput env auth (drop 4 resp) s1 = Some s2
      \<and> serverstate t = CHAPSS_OPEN \<and> auth_peer_success auth (ppp_user env) t = Some s2
      \<and> serverstate s2 = CHAPSS_OPEN \<and> chap_sent s2 = chap_sent s1 @ [ok]
      \<and> ChapInput env' auth' (drop 4 ok) k1 = Some k2
      \<and> clientstate t' = CHAPCS_OPEN \<and> auth_withpeer_success auth' t' = Some k2 \<and> clientstate k2 = CHAPCS_OPEN"
proof -
  obtain s1 where s1: "ChapAuthPeer env name CHAP_DIGEST_MD5 s = Some s1"
    "serverstate s1 = CHAPSS_INITIAL_CHAL" "chal_name s1 = Some name" "chal_type s1 = CHAP_DIGEST_MD5"
    "chal_interval s1 = chal_interval s" "length (challenge s1) = 64" "32 \<le> unat (chal_len s1)" "unat (chal_len s1) \<le> 63"
    "chap_sent s1 = chap_sent s @ [challenge_packet s1 name]" "chap_timers sizes a s1 0"
    unfolding challenge_packet_def by (rule ChapAuthPeer_ok [OF server(1-3,6,5)])
  define chal where "chal = take (unat (chal_len s1)) (challenge s1)"
  have lc: "length chal = unat (chal_len s1)" "0 < unat (chal_len s1)" using s1 by (simp_all add: chal_def)
  have len': "length (ppp_user env') \<le> 1400" "ppp_user env' \<noteq> []" "clientstate k \<in> {CHAPCS_INITIAL, CHAPCS_LISTEN, CHAPCS_OPEN}"
    using shared client(2) by simp_all
  obtain k1 where k1: "ChapReceiveChallenge env' (chal_id s1) (chal_len s1 # chal @ name) k = Some k1"
    "clientstate k1 = CHAPCS_RESPONSE" "chap_timers sizes' a' k1 0"
    "chap_sent k1 = chap_sent k @ [chap_frame CHAP_RESPONSE (chal_id s1) (16 # chap_proof env' (chal_id s1) chal @ ppp_user env')]"
    by (rule ChapReceiveChallenge_ok [OF client(1,6) len'(3) client(3,4,5) len'(2,1) lc])
  have body: "16 # chap_proof env' (chal_id s1) chal @ ppp_user env' = chap_answer env s1 (ppp_user env)"
    using shared(1,2) by (simp add: chap_answer_def chap_proof_def chap_secret_def chal_def)
  have nm: "take 255 (ppp_user env) = ppp_user env" "c_string (take 255 (ppp_user env)) = ppp_user env"
    using shared(4,5) by (auto simp: c_string_def takeWhile_eq_all_conv)
  have md: "md5_ready (stack_md5 env)" using server(2) by (simp add: rand_ok_def)
  have in1: "serverstate s1 \<in> {CHAPSS_INITIAL, CHAPSS_INITIAL_CHAL, CHAPSS_RECHALLENGE}" using s1(2) by simp
  obtain t where t: "ChapReceiveResponse env auth (chal_id s1) (chap_answer env s1 (ppp_user env)) s1
      = do { s \<leftarrow> (if serverstate s1 = CHAPSS_INITIAL_CHAL then auth_peer_success auth (take 255 (ppp_user env)) t else Some t);
             if chal_interval s \<noteq> 0 then chap_timeout CHAP_RECHALLENGE (chal_interval s) s else Some s }"
    "timers_only (s1\<lparr>serverstate := CHAPSS_OPEN, chap_sent := chap_sent s1 @ [chap_frame CHAP_SUCCESS (chal_id s1) welcome_msg]\<rparr>) t"
    by (rule ChapReceiveResponse_ok [OF s1(10) md in1 s1(4,6,8) shared(3) nm(2)])
  note tf = timers_only_fields [OF t(2)]
  obtain s2 where s2: "auth_peer_success auth (ppp_user env) t = Some s2" "serverstate s2 = CHAPSS_OPEN"
    "chal_interval s2 = 0" "chap_sent s2 = chap_sent s1 @ [chap_frame CHAP_SUCCESS (chal_id s1) welcome_msg]"
    using server_auth [of "ppp_user env" t] tf(3,10,21) s1(5) server(4) by auto
  obtain t' where t': "ChapReceiveSuccess auth' k1 = auth_withpeer_success auth' t'" "clientstate t' = CHAPCS_OPEN"
    by (rule ChapReceiveSuccess_ok [OF k1(3,2)])
  obtain k2 where k2: "auth_withpeer_success auth' t' = Some k2" "clientstate k2 = CHAPCS_OPEN"
    using client_auth [of t'] t'(2) by auto
  have i1: "ChapInput env' auth' (drop 4 (challenge_packet s1 name)) k = Some k1"
    using k1(1) s1(6,8) server(6) unfolding ChapInput_def challenge_packet_def
    by (subst chap_frame_header) (simp_all add: chal_def)
  have i2: "ChapInput env auth (drop 4 (chap_frame CHAP_RESPONSE (chal_id s1) (chap_answer env s1 (ppp_user env)))) s1 = Some s2"
    using t(1) s1(2) s2 nm shared(5) unfolding ChapInput_def
    by (subst chap_frame_header) (simp_all add: chap_answer_def chap_proof_def)
  have i3: "ChapInput env' auth' (drop 4 (chap_frame CHAP_SUCCESS (chal_id s1) welcome_msg)) k1 = Some k2"
    using t'(1) k2(1) unfolding ChapInput_def by (subst chap_frame_header) simp_all
  show ?thesis
    using s1(1,7,8,9) i1 k1(4) i2 s2 i3 t'(2) k2 tf(3) unfolding body
    by (intro exI [of _ s1] exI [of _ "challenge_packet s1 name"] exI [of _ k1]
        exI [of _ "chap_frame CHAP_RESPONSE (chal_id s1) (chap_answer env s1 (ppp_user env))"] exI [of _ t] exI [of _ s2]
        exI [of _ "chap_frame CHAP_SUCCESS (chal_id s1) welcome_msg"] exI [of _ t'] exI [of _ k2]) simp
qed

lemma auth_log_quiet:
  "\<exists>t'. auth_peer_success auth_log nm t = Some t' \<and> serverstate t' = serverstate t
      \<and> chal_interval t' = chal_interval t \<and> chap_sent t' = chap_sent t"
  "\<exists>t'. auth_withpeer_success auth_log t = Some t' \<and> clientstate t' = clientstate t"
  by (simp_all add: auth_log_def)

theorem chap_handshake_witness:
  "\<exists>s1 chal k1 resp t s2 ok t' k2.
      ChapAuthPeer ppp_env0 [120] 5 chap0 = Some s1 \<and> chap_sent s1 = chap_sent chap0 @ [chal]
      \<and> 32 \<le> unat (chal_len s1) \<and> unat (chal_len s1) \<le> 63
      \<and> ChapInput ppp_env0 auth_log (drop 4 chal) chap0 = Some k1 \<and> chap_sent k1 = chap_sent chap0 @ [resp]
      \<and> ChapInput ppp_env0 auth_log (drop 4 resp) s1 = Some s2
      \<and> serverstate t = CHAPSS_OPEN \<and> auth_peer_success auth_log (ppp_user ppp_env0) t = Some s2
      \<and> serverstate s2 = CHAPSS_OPEN \<and> chap_sent s2 = chap_sent s1 @ [ok]
      \<and> ChapInput ppp_env0 auth_log (drop 4 ok) k1 = Some k2
      \<and> clientstate t' = CHAPCS_OPEN \<and> auth_withpeer_success auth_log t' = Some k2 \<and> clientstate k2 = CHAPCS_OPEN"
  by (rule chap_handshake [OF chap0_timers chap0_rand _ _ _ _ auth_log_quiet(1) chap0_timers _ _ _ _ _ auth_log_quiet(2)])
    (simp_all add: chap0_def ppp_env0_def)

text \<open>
  The Response that lets a peer in: with the identifier of the last challenge, of type MD5 and 16 bytes, whose value is the digest of
  that identifier, the secret and the challenge, under the user's name.
\<close>

definition right_response :: "ppp_env \<Rightarrow> 'a chap_state_scheme \<Rightarrow> u8_t list \<Rightarrow> bool" where
  "right_response env s packet \<longleftrightarrow> chal_type s = CHAP_DIGEST_MD5 \<and> ppp_user env \<noteq> []
     \<and> (\<exists>name. fsm_header packet = Some (CHAP_RESPONSE, chal_id s,
            16 # md5 (chal_id s # take 256 (ppp_passwd env) @ take (unat (chal_len s)) (challenge s)) @ name)
          \<and> c_string (take 255 name) = ppp_user env)"

lemma right_response_iff:
  "fsm_header packet = Some (CHAP_RESPONSE, chal_id s, inp) \<Longrightarrow> right_response env s packet = proves_secret env s inp"
  by (auto simp: right_response_def proves_secret_def chap_answer_def chap_proof_def chap_secret_def)

text \<open>
  C16. No packet opens a server that is not open, but the right Response in a state that waits for one: without the
  secret's digest no peer is let in. Any other Response is dropped, with nothing changed, when the server is closed or not yet started, when
  its identifier is not that of the last challenge, or when it is too short for the value it announces; otherwise exactly one packet, a
  Failure, is sent, the server is in state \<^verbatim>\<open>CHAPSS_BADAUTH\<close>, and the failure is reported, unless it has been before. No Success is
  sent. (The layer above may react to a report in any way, except by declaring the peer authenticated itself.)
\<close>

theorem chap_opens_only_for_secret:
  assumes run: "ChapInput env auth packet s = Some s'"
    and closed: "serverstate s \<noteq> CHAPSS_OPEN"
    and env: "md5_ready (stack_md5 env)" "unat (chal_len s) \<le> length (challenge s)" "auth_honest auth"
  shows "(serverstate s' = CHAPSS_OPEN \<longrightarrow>
      right_response env s packet \<and> serverstate s \<in> {CHAPSS_INITIAL, CHAPSS_INITIAL_CHAL, CHAPSS_RECHALLENGE})
    \<and> (\<forall>i inp. fsm_header packet = Some (CHAP_RESPONSE, i, inp) \<and> \<not> right_response env s packet \<longrightarrow>
        (if serverstate s \<in> {CHAPSS_CLOSED, CHAPSS_PENDING} \<or> i \<noteq> chal_id s
            \<or> serverstate s \<noteq> CHAPSS_BADAUTH \<and> \<not> response_whole inp
         then s' = s
         else \<exists>t. chap_sent t = chap_sent s @ [chap_frame CHAP_FAILURE (chal_id s) (map of_char ''I don't like you.  Go 'way.'')]
           \<and> serverstate t = CHAPSS_BADAUTH
           \<and> (if serverstate s = CHAPSS_BADAUTH then s' = t else auth_peer_fail auth t = Some s')))"
proof (intro conjI impI allI)
  assume opened: "serverstate s' = CHAPSS_OPEN"
  obtain code i inp where h: "fsm_header packet = Some (code, i, inp)"
    using run closed opened by (cases "fsm_header packet") (auto simp: ChapInput_def)
  have "ChapReceiveSuccess auth s \<noteq> Some s'" "ChapReceiveFailure auth s \<noteq> Some s'" "ChapReceiveChallenge env i inp s \<noteq> Some s'"
    using closed opened ChapReceiveStatus_server [OF env(3) closed, of s'] ChapReceiveChallenge_server [of env i inp s s'] by auto
  then have r: "code = CHAP_RESPONSE" "ChapReceiveResponse env auth i inp s = Some s'"
    using run closed opened by (auto simp: ChapInput_def h split: if_splits)
  note good = ChapReceiveResponse_opens [OF r(2) closed opened env]
  then show "right_response env s packet" using right_response_iff h r(1) by blast
  show "serverstate s \<in> {CHAPSS_INITIAL, CHAPSS_INITIAL_CHAL, CHAPSS_RECHALLENGE}" using good by blast
next
  fix i inp
  assume "fsm_header packet = Some (CHAP_RESPONSE, i, inp) \<and> \<not> right_response env s packet"
  then have h: "fsm_header packet = Some (CHAP_RESPONSE, i, inp)" and wrong: "\<not> right_response env s packet" by simp_all
  have r: "ChapReceiveResponse env auth i inp s = Some s'" using run by (simp add: ChapInput_def h)
  let ?drop = "serverstate s \<in> {CHAPSS_CLOSED, CHAPSS_PENDING} \<or> i \<noteq> chal_id s \<or> serverstate s \<noteq> CHAPSS_BADAUTH \<and> \<not> response_whole inp"
  let ?fail = "\<lambda>t. chap_sent t = chap_sent s @ [chap_frame CHAP_FAILURE (chal_id s) (map of_char ''I don't like you.  Go 'way.'')]
           \<and> serverstate t = CHAPSS_BADAUTH \<and> (if serverstate s = CHAPSS_BADAUTH then s' = t else auth_peer_fail auth t = Some s')"
  have "s' = s" if ?drop using ChapReceiveResponse_dropped [OF closed that, of env auth] r by simp
  moreover have "\<exists>t. ?fail t" if "\<not> ?drop"
  proof (cases "serverstate s = CHAPSS_BADAUTH")
    case True
    then show ?thesis using that ChapReceiveResponse_badauth [OF True, of env auth inp] r by (intro exI [of _ s']) auto
  next
    case False
    with that closed have st: "serverstate s \<notin> {CHAPSS_CLOSED, CHAPSS_PENDING, CHAPSS_OPEN, CHAPSS_BADAUTH}"
      and w: "response_whole inp" and i: "i = chal_id s" by blast+
    have "\<not> proves_secret env s inp" using wrong right_response_iff h i by blast
    from ChapReceiveResponse_bad [OF r [unfolded i] st w env(1,2) this] obtain t where
      "auth_peer_fail auth t = Some s'" "serverstate t = CHAPSS_BADAUTH"
      "chap_sent t = chap_sent s @ [chap_frame CHAP_FAILURE (chal_id s) go_away_msg]" by blast
    then show ?thesis using False by (intro exI [of _ t]) simp
  qed
  ultimately show "if ?drop then s' = s else \<exists>t. ?fail t" by argo
qed

lemma auth_log_honest: "auth_honest auth_log"
  by (simp add: auth_honest_def auth_log_def)

definition chap_waiting :: "nat list chap_state_scheme" where
  "chap_waiting = chap0\<lparr>serverstate := CHAPSS_INITIAL_CHAL\<rparr>"

lemma chap_waiting_timers: "chap_timers sizes0 4 chap_waiting 1"
  using chap0_timers chap_timers_cong [of chap_waiting chap0 sizes0 4 1] by (simp add: chap_waiting_def)

lemma chap_waiting_accepts:
  "\<exists>s'. ChapInput ppp_env0 auth_log (drop 4 (chap_frame 2 0 (chap_answer ppp_env0 chap_waiting [97, 98]))) chap_waiting = Some s'
    \<and> serverstate s' = CHAPSS_OPEN"
proof -
  obtain t where t: "ChapReceiveResponse ppp_env0 auth_log (chal_id chap_waiting) (chap_answer ppp_env0 chap_waiting [97, 98]) chap_waiting
      = do { s \<leftarrow> (if serverstate chap_waiting = CHAPSS_INITIAL_CHAL then auth_peer_success auth_log (take 255 [97, 98]) t else Some t);
             if chal_interval s \<noteq> 0 then chap_timeout CHAP_RECHALLENGE (chal_interval s) s else Some s }"
    "timers_only (chap_waiting\<lparr>serverstate := CHAPSS_OPEN,
        chap_sent := chap_sent chap_waiting @ [chap_frame CHAP_SUCCESS (chal_id chap_waiting) welcome_msg]\<rparr>) t"
    by (rule ChapReceiveResponse_ok [OF chap_waiting_timers, of ppp_env0 "[97, 98]" auth_log])
      (simp_all add: chap_waiting_def chap0_def ppp_env0_def c_string_def)
  note tf = timers_only_fields [OF t(2)]
  have "ChapReceiveResponse ppp_env0 auth_log 0 (chap_answer ppp_env0 chap_waiting [97, 98]) chap_waiting
      = Some (t\<lparr>chap_state.more := 2 # chap_state.more t\<rparr>)"
    using t(1) tf(10) by (simp add: auth_log_def chap_waiting_def chap0_def)
  then show ?thesis
    using tf(3) unfolding ChapInput_def
    by (subst chap_frame_header) (simp_all add: chap_answer_def chap_proof_def)
qed

text \<open>A Response with a value of a single byte and no name: the server refuses it.\<close>

definition wrong_packet :: "u8_t list" where
  "wrong_packet = chap_packet 2 0 [1, 0]"

lemma wrong_header: "fsm_header wrong_packet = Some (2, 0, [1, 0])"
  unfolding wrong_packet_def by (rule chap_header_packet) simp

lemma chap_waiting_env:
  "serverstate chap_waiting \<noteq> CHAPSS_OPEN" "md5_ready (stack_md5 ppp_env0)" "unat (chal_len chap_waiting) \<le> length (challenge chap_waiting)"
  "chal_id chap_waiting = 0" "chap_sent chap_waiting = []"
  by (simp_all add: chap_waiting_def chap0_def ppp_env0_def)

lemma chap_waiting_returns: "\<exists>s'. ChapInput ppp_env0 auth_log wrong_packet chap_waiting = Some s'"
proof -
  obtain s1 where s1: "chap_untimeout CHAP_CHALLENGE_TIMEOUT chap_waiting = Some s1"
    using chap_untimeout_step [OF chap_waiting_timers] by blast
  have "c_string [] = []" by (simp add: c_string_def)
  then show ?thesis
    unfolding ChapInput_def wrong_header
    using chap_waiting_env(1,4)
    by (simp add: ChapReceiveResponse_def Let_def s1 get_secret_eq ChapSendStatus_failure auth_log_def)
qed

theorem chap_opens_only_for_secret_witness:
  "(\<exists>packet s'. ChapInput ppp_env0 auth_log packet chap_waiting = Some s' \<and> serverstate s' = CHAPSS_OPEN
      \<and> right_response ppp_env0 chap_waiting packet)
    \<and> (\<exists>s' t. ChapInput ppp_env0 auth_log wrong_packet chap_waiting = Some s' \<and> auth_peer_fail auth_log t = Some s'
      \<and> chap_sent t = [chap_frame 4 0 (map of_char ''I don't like you.  Go 'way.'')])"
proof -
  obtain s' where s': "ChapInput ppp_env0 auth_log (drop 4 (chap_frame 2 0 (chap_answer ppp_env0 chap_waiting [97, 98]))) chap_waiting = Some s'"
    "serverstate s' = CHAPSS_OPEN" using chap_waiting_accepts by blast
  note good = chap_opens_only_for_secret [OF s'(1) chap_waiting_env(1-3) auth_log_honest]
  obtain u where u: "ChapInput ppp_env0 auth_log wrong_packet chap_waiting = Some u" using chap_waiting_returns by blast
  have "\<not> right_response ppp_env0 chap_waiting wrong_packet"
    by (simp add: right_response_def wrong_header)
  moreover have "response_whole [1, 0]" by (simp add: response_whole_def)
  moreover have "serverstate chap_waiting = CHAPSS_INITIAL_CHAL" by (simp add: chap_waiting_def)
  ultimately obtain t where t: "auth_peer_fail auth_log t = Some u"
      "chap_sent t = [] @ [chap_frame 4 0 (map of_char ''I don't like you.  Go 'way.'')]"
    using conjunct2 [OF chap_opens_only_for_secret [OF u chap_waiting_env(1-3) auth_log_honest], rule_format, OF conjI, OF wrong_header]
    unfolding chap_waiting_env(4,5) by (auto simp only: if_True if_False simp_thms chap_server.distinct insert_iff empty_iff)
  from good s'(2) have "right_response ppp_env0 chap_waiting (drop 4 (chap_frame 2 0 (chap_answer ppp_env0 chap_waiting [97, 98])))" by blast
  with s' have "\<exists>packet s'. ChapInput ppp_env0 auth_log packet chap_waiting = Some s' \<and> serverstate s' = CHAPSS_OPEN
      \<and> right_response ppp_env0 chap_waiting packet" by (intro exI conjI)
  moreover have "\<exists>s' t. ChapInput ppp_env0 auth_log wrong_packet chap_waiting = Some s' \<and> auth_peer_fail auth_log t = Some s'
      \<and> chap_sent t = [chap_frame 4 0 (map of_char ''I don't like you.  Go 'way.'')]"
    by (rule exI [of _ u], rule exI [of _ t]) (use u t in \<open>simp only: append_Nil simp_thms\<close>)
  ultimately show ?thesis by (rule conjI)
qed

text \<open>
  C28. A silent peer does not hold the server up. While its timer list has room and the challenge timer is pending, each expiry sends
  the same challenge once more and leaves the timer pending again, until \<^verbatim>\<open>max_transmits\<close> have been sent; the next expiry
  makes the server report the failure, in state \<^verbatim>\<open>CHAPSS_BADAUTH\<close> and with its timer off.
\<close>

theorem chap_server_gives_up:
  assumes "challenge_timer sizes a s 1" "challenging s name"
  defines "n \<equiv> nat (max_transmits s - chal_transmits s)"
  shows "(\<forall>k \<le> n. \<exists>t. challenge_expires_times auth k s = Some t \<and> challenge_timer sizes a t 1
       \<and> chap_sent t = chap_sent s @ replicate k (challenge_packet s name))
    \<and> (\<exists>t. challenge_expires_times auth (Suc n) s = auth_peer_fail auth t \<and> serverstate t = CHAPSS_BADAUTH
       \<and> chap_sent t = chap_sent s @ replicate n (challenge_packet s name) \<and> challenge_timer sizes a t 0)"
  using challenge_expires_all [OF assms(1,2)] unfolding n_def by blast

theorem chap_server_gives_up_witness:
  "\<exists>s t u. challenge_timer sizes0 4 s 1 \<and> challenge_expires_times auth_log 9 s = Some t \<and> challenge_timer sizes0 4 t 1
     \<and> challenge_expires_times auth_log 10 s = auth_peer_fail auth_log u \<and> serverstate u = CHAPSS_BADAUTH
     \<and> length (chap_sent u) = 9 \<and> challenge_timer sizes0 4 u 0"
proof -
  have "challenge_timer sizes0 4 chap_waiting 0"
    using chap0_rep timer_rep_cong [of chap_waiting chap0 sizes0 4]
    by (auto simp: challenge_timer_def memp_num_timeouts chap_waiting_def intro!: exI [of _ "[]"])
  then obtain s where s: "timers_only chap_waiting s" "challenge_timer sizes0 4 s 1" by (rule challenge_timer_on [where t = 6])
  note f = timers_only_fields [OF s(1)]
  have c: "challenging s [120]" by (simp add: challenging_def f chap_waiting_def chap0_def)
  have n: "nat (max_transmits s - chal_transmits s) = 9" "chap_sent s = []" by (simp_all add: f chap_waiting_def chap0_def)
  from chap_server_gives_up [OF s(2) c, of auth_log, unfolded n]
  obtain t u where "challenge_expires_times auth_log 9 s = Some t" "challenge_timer sizes0 4 t 1"
      "challenge_expires_times auth_log (Suc 9) s = auth_peer_fail auth_log u" "serverstate u = CHAPSS_BADAUTH"
      "chap_sent u = [] @ replicate 9 (challenge_packet s [120])" "challenge_timer sizes0 4 u 0" by blast
  moreover have "Suc 9 = 10" by simp
  ultimately show ?thesis using s(2)
    by (intro exI [of _ s] exI [of _ t] exI [of _ u]) (simp del: challenge_expires_times.simps replicate.simps)
qed

text \<open>
  C36. A response to a challenge is accepted once more after the link has gone down: \<^verbatim>\<open>ChapReceiveResponse\<close> drops packets in the states
  \<^verbatim>\<open>CHAPSS_CLOSED\<close> and \<^verbatim>\<open>CHAPSS_PENDING\<close> but not in \<^verbatim>\<open>CHAPSS_INITIAL\<close>, and \<^verbatim>\<open>ChapLowerDown\<close> keeps the identifier and the challenge;
  the recorded packet answers the old challenge, and the server is open while the layer below is down.
\<close>

theorem chap_replay_after_down:
  assumes t: "chap_timers sizes a s k" and env: "md5_ready (stack_md5 env)"
    and s: "chal_type s = CHAP_DIGEST_MD5" "length (challenge s) = 64" "unat (chal_len s) \<le> 63" "chal_interval s = 0"
    and name: "ppp_user env \<noteq> []" "c_string (take 255 name) = ppp_user env" "length name \<le> 1400"
  shows "\<exists>s1 s2. ChapLowerDown s = Some s1 \<and> serverstate s1 = CHAPSS_INITIAL
    \<and> ChapInput env auth (chap_packet CHAP_RESPONSE (chal_id s) (chap_answer env s name)) s1 = Some s2
    \<and> serverstate s2 = CHAPSS_OPEN"
proof -
  obtain u where u: "(if serverstate s = CHAPSS_INITIAL_CHAL \<or> serverstate s = CHAPSS_RECHALLENGE
          then chap_untimeout CHAP_CHALLENGE_TIMEOUT s
          else if serverstate s = CHAPSS_OPEN \<and> chal_interval s \<noteq> 0 then chap_untimeout CHAP_RECHALLENGE s
          else Some s) = Some u" "timers_only s u" "chap_timers sizes a u k"
    using chap_untimeout_step [OF t] t s(4) timers_only_intros(1) by (metis (no_types, lifting))
  obtain v where v: "(if clientstate u = CHAPCS_RESPONSE then chap_untimeout CHAP_RESPONSE_TIMEOUT u else Some u) = Some v"
    "timers_only u v" "chap_timers sizes a v k"
    using chap_untimeout_step [OF u(3)] u(3) timers_only_intros(1) by (metis (no_types, lifting))
  note f = timers_only_fields [OF timers_only_trans [OF u(2) v(2)]]
  define s1 where "s1 = v\<lparr>clientstate := CHAPCS_INITIAL, serverstate := CHAPSS_INITIAL\<rparr>"
  have down: "ChapLowerDown s = Some s1" unfolding ChapLowerDown_def u(1) by (simp add: v(1) s1_def)
  have "chap_timers sizes a s1 k" using v(3) chap_timers_cong [of s1 v sizes a k] by (simp add: s1_def)
  moreover have s1: "serverstate s1 = CHAPSS_INITIAL" "chal_type s1 = CHAP_DIGEST_MD5" "length (challenge s1) = 64"
    "unat (chal_len s1) \<le> 63" "chal_interval s1 = 0" "chal_id s1 = chal_id s" "chap_answer env s1 name = chap_answer env s name"
    using s f by (simp_all add: s1_def chap_answer_def)
  ultimately obtain t1 where t1: "ChapReceiveResponse env auth (chal_id s) (chap_answer env s name) s1
      = do { s \<leftarrow> Some t1; if chal_interval s \<noteq> 0 then chap_timeout CHAP_RECHALLENGE (chal_interval s) s else Some s }"
    "timers_only (s1\<lparr>serverstate := CHAPSS_OPEN,
        chap_sent := chap_sent s1 @ [chap_frame CHAP_SUCCESS (chal_id s1) welcome_msg]\<rparr>) t1"
    using ChapReceiveResponse_ok [of sizes a s1 k env name auth] env name(1,2) by (auto simp del: bind.bind_lunit)
  have "ChapReceiveResponse env auth (chal_id s) (chap_answer env s name) s1 = Some t1" "serverstate t1 = CHAPSS_OPEN"
    using t1(1) timers_only_fields(3,10) [OF t1(2)] s1(5) by simp_all
  then show ?thesis
    using down s1(1) name(3) unfolding ChapInput_def
    by (subst chap_header_packet) (simp_all add: chap_answer_def chap_proof_def)
qed

theorem chap_replay_after_down_witness:
  "\<exists>s1 s2. ChapLowerDown chap_waiting = Some s1 \<and> serverstate s1 = CHAPSS_INITIAL
    \<and> ChapInput ppp_env0 auth_log (chap_packet 2 (chal_id chap_waiting) (chap_answer ppp_env0 chap_waiting [97, 98])) s1 = Some s2
    \<and> serverstate s2 = CHAPSS_OPEN"
  by (rule chap_replay_after_down [OF chap_waiting_timers]) (simp_all add: chap_waiting_def chap0_def ppp_env0_def c_string_def)

end
