(* ===== verification/Udp.thy ===== *)
theory Udp
  imports Icmp
begin

unbundle bit_operations_syntax

text \<open>
  UDP: \<^verbatim>\<open>core/udp.c\<close> with the default options (no UDP-Lite, no \<^verbatim>\<open>SO_REUSE\<close>, no DHCP, no IGMP, checksums generated and checked). The state is the
  state of the layers below, \<open>net\<close>, with the protocol control blocks: a linked list of elements of the pool \<^verbatim>\<open>MEMP_UDP_PCB\<close>, the last
  automatic port, and the counters. What a receiver does with a datagram is the parameter \<open>recv\<close>: it is called with the function pointer and
  argument kept in the block, a null pointer being 0. A null pointer given for an address has the effect of
  \<^verbatim>\<open>IP_ADDR_ANY\<close>, the address 0. \<open>None\<close> is a failed assertion or a list without end.
\<close>

section \<open>State\<close>

record struct_udp_pcb =
  u_local_ip :: u32_t
  u_remote_ip :: u32_t
  u_so_options :: u8_t
  u_tos :: u8_t
  u_ttl :: u8_t
  u_next :: addr
  u_flags :: u8_t
  u_local_port :: u16_t
  u_remote_port :: u16_t
  u_recv :: nat
  u_recv_arg :: addr

record udp_state =
  net :: ip_state
  udp_pcbs :: addr
  udp_mem :: "addr \<Rightarrow> struct_udp_pcb"
  udp_port :: u16_t
  udp_stats :: stats_proto

type_synonym udp_recv_fn = "nat \<Rightarrow> addr \<Rightarrow> addr \<Rightarrow> addr \<Rightarrow> u32_t \<Rightarrow> u16_t \<Rightarrow> udp_state \<Rightarrow> udp_state option"

abbreviation (input) MEMP_UDP_PCB :: memp_t where "MEMP_UDP_PCB \<equiv> 1"
abbreviation (input) UDP_HLEN :: nat where "UDP_HLEN \<equiv> 8"
abbreviation (input) UDP_TTL :: u8_t where "UDP_TTL \<equiv> 255"
abbreviation (input) UDP_FLAGS_NOCHKSUM :: u8_t where "UDP_FLAGS_NOCHKSUM \<equiv> 0x01"
abbreviation (input) UDP_FLAGS_CONNECTED :: u8_t where "UDP_FLAGS_CONNECTED \<equiv> 0x04"
abbreviation (input) UDP_LOCAL_PORT_RANGE_START :: u16_t where "UDP_LOCAL_PORT_RANGE_START \<equiv> 0xc000"
abbreviation (input) UDP_LOCAL_PORT_RANGE_END :: u16_t where "UDP_LOCAL_PORT_RANGE_END \<equiv> 0xffff"
abbreviation (input) ICMP_DUR_PORT :: u8_t where "ICMP_DUR_PORT \<equiv> 3"

definition UDP_STATS_INC :: "((nat \<Rightarrow> nat) \<Rightarrow> stats_proto \<Rightarrow> stats_proto) \<Rightarrow> udp_state \<Rightarrow> udp_state" where
  "UDP_STATS_INC f s = s\<lparr>udp_stats := f (\<lambda>n. to_u16 (n + 1)) (udp_stats s)\<rparr>"

definition set_pcb :: "addr \<Rightarrow> (struct_udp_pcb \<Rightarrow> struct_udp_pcb) \<Rightarrow> udp_state \<Rightarrow> udp_state" where
  "set_pcb pcb f s = s\<lparr>udp_mem := (udp_mem s)(pcb := f (udp_mem s pcb))\<rparr>"

text \<open>A call of the layers below, and of the pbuf layer.\<close>

definition on_net :: "(ip_state \<Rightarrow> ('r \<times> ip_state) option) \<Rightarrow> udp_state \<Rightarrow> ('r \<times> udp_state) option" where
  "on_net f s = map_option (\<lambda>(r, n). (r, s\<lparr>net := n\<rparr>)) (f (net s))"

definition net_bufs :: "(pbuf_state \<Rightarrow> ('r \<times> pbuf_state) option) \<Rightarrow> udp_state \<Rightarrow> ('r \<times> udp_state) option" where
  "net_bufs f s = on_net (on_bufs f) s"

definition udp_free :: "custom_free \<Rightarrow> addr \<Rightarrow> udp_state \<Rightarrow> udp_state option" where
  "udp_free cf p s = map_option (\<lambda>n. s\<lparr>net := n\<rparr>) (ip_free cf p (net s))"

definition udp_store :: "addr \<Rightarrow> u8_t list \<Rightarrow> udp_state \<Rightarrow> udp_state" where
  "udp_store a xs s = s\<lparr>net := store a xs (net s)\<rparr>"

section \<open>Ports\<close>

text \<open>The loop over the blocks that looks for the port.\<close>

partial_function (option) port_in_use :: "u16_t \<Rightarrow> addr \<Rightarrow> (addr \<Rightarrow> struct_udp_pcb) \<Rightarrow> bool option" where
  "port_in_use port pcb m =
     (if pcb = NULL then Some False
      else if u_local_port (m pcb) = port then Some True
      else port_in_use port (u_next (m pcb)) m)"

text \<open>From the label \<^verbatim>\<open>again\<close>; \<open>n\<close> counts the ports found in use.\<close>

function new_port_loop :: "nat \<Rightarrow> udp_state \<Rightarrow> (u16_t \<times> udp_state) option" where
  "new_port_loop n s =
     (let s = (if udp_port s = UDP_LOCAL_PORT_RANGE_END then s\<lparr>udp_port := UDP_LOCAL_PORT_RANGE_START\<rparr>
               else s\<lparr>udp_port := udp_port s + 1\<rparr>)
      in case port_in_use (udp_port s) (udp_pcbs s) (udp_mem s) of
           None \<Rightarrow> None
         | Some False \<Rightarrow> Some (udp_port s, s)
         | Some True \<Rightarrow> if n + 1 > 0xffff - 0xc000 then Some (0, s) else new_port_loop (n + 1) s)"
  by pat_completeness auto

termination new_port_loop
  by (relation "measure (\<lambda>(n, s). 0x4000 - n)") auto

declare new_port_loop.simps [simp del]

definition udp_new_port :: "udp_state \<Rightarrow> (u16_t \<times> udp_state) option" where
  "udp_new_port s = new_port_loop 0 s"

section \<open>Control blocks\<close>

definition zero_pcb :: struct_udp_pcb where
  "zero_pcb = \<lparr>u_local_ip = 0, u_remote_ip = 0, u_so_options = 0, u_tos = 0, u_ttl = 0, u_next = NULL, u_flags = 0,
     u_local_port = 0, u_remote_port = 0, u_recv = NULL, u_recv_arg = NULL\<rparr>"

definition udp_new :: "udp_state \<Rightarrow> (addr \<times> udp_state) option" where
  "udp_new s = do {
     (pcb, s) \<leftarrow> net_bufs (\<lambda>b. map_option (\<lambda>(p, m). (p, b\<lparr>pools := m\<rparr>)) (memp_malloc MEMP_UDP_PCB (pools b))) s;
     Some (pcb, if pcb \<noteq> NULL then set_pcb pcb (\<lambda>_. zero_pcb\<lparr>u_ttl := UDP_TTL\<rparr>) s else s) }"

text \<open>The loop of \<^verbatim>\<open>udp_bind\<close>: the result is the flag \<^verbatim>\<open>rebind\<close>, or the error.\<close>

partial_function (option) bind_loop ::
  "addr \<Rightarrow> u32_t \<Rightarrow> u16_t \<Rightarrow> bool \<Rightarrow> addr \<Rightarrow> (addr \<Rightarrow> struct_udp_pcb) \<Rightarrow> (err_t + bool) option" where
  "bind_loop pcb ipaddr port rebind ipcb m =
     (if ipcb = NULL then Some (Inr rebind)
      else if pcb = ipcb
      then if rebind then None else bind_loop pcb ipaddr port True (u_next (m ipcb)) m
      else if u_local_port (m ipcb) = port
           \<and> (u_local_ip (m ipcb) = IPADDR_ANY \<or> ipaddr = IPADDR_ANY \<or> u_local_ip (m ipcb) = ipaddr)
      then Some (Inl ERR_USE)
      else bind_loop pcb ipaddr port rebind (u_next (m ipcb)) m)"

definition udp_bind :: "addr \<Rightarrow> u32_t \<Rightarrow> u16_t \<Rightarrow> udp_state \<Rightarrow> (err_t \<times> udp_state) option" where
  "udp_bind pcb ipaddr port s = do {
     r \<leftarrow> bind_loop pcb ipaddr port False (udp_pcbs s) (udp_mem s);
     (case r of
        Inl e \<Rightarrow> Some (e, s)
      | Inr rebind \<Rightarrow> do {
          let s = set_pcb pcb (\<lambda>x. x\<lparr>u_local_ip := ipaddr\<rparr>) s;
          (port, s) \<leftarrow> (if port = 0 then udp_new_port s else Some (port, s));
          if port = 0 then Some (ERR_USE, s)
          else do {
            let s = set_pcb pcb (\<lambda>x. x\<lparr>u_local_port := port\<rparr>) s;
            Some (ERR_OK, if \<not> rebind then (set_pcb pcb (\<lambda>x. x\<lparr>u_next := udp_pcbs s\<rparr>) s)\<lparr>udp_pcbs := pcb\<rparr> else s)
          }
        })
   }"

partial_function (option) on_list :: "addr \<Rightarrow> addr \<Rightarrow> (addr \<Rightarrow> struct_udp_pcb) \<Rightarrow> bool option" where
  "on_list pcb ipcb m =
     (if ipcb = NULL then Some False else if pcb = ipcb then Some True else on_list pcb (u_next (m ipcb)) m)"

definition udp_connect :: "addr \<Rightarrow> u32_t \<Rightarrow> u16_t \<Rightarrow> udp_state \<Rightarrow> (err_t \<times> udp_state) option" where
  "udp_connect pcb ipaddr port s = do {
     (err, s) \<leftarrow> (if u_local_port (udp_mem s pcb) = 0
                 then udp_bind pcb (u_local_ip (udp_mem s pcb)) (u_local_port (udp_mem s pcb)) s
                 else Some (ERR_OK, s));
     if err \<noteq> ERR_OK then Some (err, s)
     else do {
       let s = set_pcb pcb (\<lambda>x. x\<lparr>u_remote_ip := ipaddr, u_remote_port := port, u_flags := u_flags x OR UDP_FLAGS_CONNECTED\<rparr>) s;
       found \<leftarrow> on_list pcb (udp_pcbs s) (udp_mem s);
       Some (ERR_OK, if found then s else (set_pcb pcb (\<lambda>x. x\<lparr>u_next := udp_pcbs s\<rparr>) s)\<lparr>udp_pcbs := pcb\<rparr>)
     }
   }"

definition udp_disconnect :: "addr \<Rightarrow> udp_state \<Rightarrow> udp_state" where
  "udp_disconnect pcb s =
     set_pcb pcb (\<lambda>x. x\<lparr>u_remote_ip := IPADDR_ANY, u_remote_port := 0, u_flags := u_flags x AND NOT UDP_FLAGS_CONNECTED\<rparr>) s"

definition udp_recv :: "addr \<Rightarrow> nat \<Rightarrow> addr \<Rightarrow> udp_state \<Rightarrow> udp_state" where
  "udp_recv pcb recv recv_arg s = set_pcb pcb (\<lambda>x. x\<lparr>u_recv := recv, u_recv_arg := recv_arg\<rparr>) s"

text \<open>The loop of \<^verbatim>\<open>udp_remove\<close>, which runs to the end of the list.\<close>

partial_function (option) remove_loop :: "addr \<Rightarrow> addr \<Rightarrow> (addr \<Rightarrow> struct_udp_pcb) \<Rightarrow> (addr \<Rightarrow> struct_udp_pcb) option" where
  "remove_loop pcb pcb2 m =
     (if pcb2 = NULL then Some m
      else
        let m = (if u_next (m pcb2) \<noteq> NULL \<and> u_next (m pcb2) = pcb
                 then m(pcb2 := (m pcb2)\<lparr>u_next := u_next (m pcb)\<rparr>) else m)
        in remove_loop pcb (u_next (m pcb2)) m)"

definition udp_remove :: "addr \<Rightarrow> udp_state \<Rightarrow> udp_state option" where
  "udp_remove pcb s = do {
     s \<leftarrow> (if udp_pcbs s = pcb then Some (s\<lparr>udp_pcbs := u_next (udp_mem s (udp_pcbs s))\<rparr>)
          else map_option (\<lambda>m. s\<lparr>udp_mem := m\<rparr>) (remove_loop pcb (udp_pcbs s) (udp_mem s)));
     (_, s) \<leftarrow> net_bufs (\<lambda>b. map_option (\<lambda>m. ((), b\<lparr>pools := m\<rparr>)) (memp_free MEMP_UDP_PCB pcb (pools b))) s;
     Some s }"

section \<open>Input\<close>

text \<open>The comparison of a block with the addresses and ports of a datagram.\<close>

definition local_match :: "bool \<Rightarrow> u32_t \<Rightarrow> u32_t \<Rightarrow> u16_t \<Rightarrow> struct_udp_pcb \<Rightarrow> bool" where
  "local_match broadcast netmask to dest x \<longleftrightarrow> u_local_port x = dest
     \<and> (\<not> broadcast \<and> u_local_ip x = IPADDR_ANY \<or> u_local_ip x = to
        \<or> broadcast \<and> (u_local_ip x = IPADDR_ANY \<or> u_local_ip x AND netmask = to AND netmask))"

definition remote_match :: "u32_t \<Rightarrow> u16_t \<Rightarrow> struct_udp_pcb \<Rightarrow> bool" where
  "remote_match from src x \<longleftrightarrow> u_remote_port x = src \<and> (u_remote_ip x = IPADDR_ANY \<or> u_remote_ip x = from)"

text \<open>
  The loop of \<^verbatim>\<open>udp_input\<close>, for the predicates \<open>lm\<close> and \<open>rm\<close> above. The result is the block found, or the first unconnected one; a full match is moved to the
  front of the list.
\<close>

partial_function (option) demux_loop ::
  "(struct_udp_pcb \<Rightarrow> bool) \<Rightarrow> (struct_udp_pcb \<Rightarrow> bool) \<Rightarrow> addr \<Rightarrow> addr \<Rightarrow> addr \<Rightarrow> udp_state \<Rightarrow> (addr \<times> udp_state) option" where
  "demux_loop lm rm prev pcb uncon s =
     (if pcb = NULL then Some (uncon, s)
      else
        let x = udp_mem s pcb;
            uncon = (if lm x \<and> uncon = NULL \<and> u_flags x AND UDP_FLAGS_CONNECTED = 0 then pcb else uncon)
        in if lm x \<and> rm x
           then Some (pcb,
             if prev \<noteq> NULL
             then
               let s = set_pcb prev (\<lambda>y. y\<lparr>u_next := u_next x\<rparr>) s;
                   s = set_pcb pcb (\<lambda>y. y\<lparr>u_next := udp_pcbs s\<rparr>) s
               in s\<lparr>udp_pcbs := pcb\<rparr>
             else UDP_STATS_INC sp_cachehit_update s)
           else demux_loop lm rm pcb (u_next x) uncon s)"

definition udp_drop ::
  "custom_free \<Rightarrow> addr \<Rightarrow> ((nat \<Rightarrow> nat) \<Rightarrow> stats_proto \<Rightarrow> stats_proto) \<Rightarrow> udp_state \<Rightarrow> udp_state option" where
  "udp_drop cf p f s = udp_free cf p (UDP_STATS_INC sp_drop_update (UDP_STATS_INC f s))"

text \<open>No block wants the datagram: tell the sender, unless it was sent to many.\<close>

definition udp_no_port ::
  "custom_free \<Rightarrow> output_fn \<Rightarrow> addr \<Rightarrow> addr \<Rightarrow> nat \<Rightarrow> bool \<Rightarrow> udp_state \<Rightarrow> udp_state option" where
  "udp_no_port cf out p iphdr hlen broadcast s = do {
     s \<leftarrow> (if \<not> broadcast \<and> \<not> ip_addr_ismulticast (current_iphdr_dest (net s))
          then do {
            (_, s) \<leftarrow> net_bufs (pbuf_header p (int (hlen + UDP_HLEN))) s;
            if payload (ibufs (net s)) p \<noteq> iphdr then None
            else map_option (\<lambda>n. s\<lparr>net := n\<rparr>) (icmp_dest_unreach cf out p ICMP_DUR_PORT (net s))
          }
          else Some s);
     udp_drop cf p sp_proterr_update s }"

text \<open>From the checked datagram, payload at the UDP header, to its receiver.\<close>

definition udp_hand_over ::
  "custom_free \<Rightarrow> output_fn \<Rightarrow> udp_recv_fn \<Rightarrow> addr \<Rightarrow> addr \<Rightarrow> nat \<Rightarrow> bool \<Rightarrow> u16_t \<Rightarrow> addr \<Rightarrow> udp_state \<Rightarrow> udp_state option" where
  "udp_hand_over cf out recv p iphdr hlen broadcast src pcb s = do {
     (r, s) \<leftarrow> net_bufs (pbuf_header p (- int UDP_HLEN)) s;
     if r \<noteq> 0 then None
     else if pcb \<noteq> NULL
     then let x = udp_mem s pcb
          in if u_recv x \<noteq> NULL
             then recv (u_recv x) (u_recv_arg x) pcb p (current_iphdr_src (net s)) src s
             else udp_free cf p s
     else udp_no_port cf out p iphdr hlen broadcast s }"

definition udp_input :: "custom_free \<Rightarrow> output_fn \<Rightarrow> udp_recv_fn \<Rightarrow> addr \<Rightarrow> addr \<Rightarrow> udp_state \<Rightarrow> udp_state option" where
  "udp_input cf out recv p inp s = do {
     let s = UDP_STATS_INC sp_recv_update s;
     let iphdr = payload (ibufs (net s)) p;
     let hlen = IPH_HL (ibytes (net s)) iphdr * 4;
     (short, s) \<leftarrow> (if tot_len (ibufs (net s)) p < hlen + UDP_HLEN then Some (True, s)
                   else map_option (\<lambda>(r, s). (r \<noteq> 0, s)) (net_bufs (pbuf_header p (- int hlen)) s));
     if short then udp_drop cf p sp_lenerr_update s
     else do {
       let udphdr = payload (ibufs (net s)) p;
       let nif = netifs (lower (net s)) inp;
       let broadcast = ip4_addr_isbroadcast (current_iphdr_dest (net s)) nif;
       let src = lwip_ntohs (get_u16 (ibytes (net s)) udphdr);
       let dest = lwip_ntohs (get_u16 (ibytes (net s)) (udphdr + 2));
       (pcb, s) \<leftarrow> demux_loop (local_match broadcast (nif_netmask nif) (current_iphdr_dest (net s)) dest)
                    (remote_match (current_iphdr_src (net s)) src) NULL (udp_pcbs s) NULL s;
       if pcb \<noteq> NULL \<or> nif_ip_addr nif = current_iphdr_dest (net s)
       then do {
         good \<leftarrow> (if get_u16 (ibytes (net s)) (udphdr + 6) \<noteq> 0
                 then map_option (\<lambda>c. c = 0) (inet_chksum_pseudo p (current_iphdr_src (net s)) (current_iphdr_dest (net s))
                        IP_PROTO_UDP (of_nat (tot_len (ibufs (net s)) p)) (ibufs (net s)))
                 else Some True);
         if \<not> good then udp_drop cf p sp_chkerr_update s
         else udp_hand_over cf out recv p iphdr hlen broadcast src pcb s
       }
       else udp_free cf p s
     }
   }"

section \<open>Output\<close>

text \<open>The pbuf that starts with the UDP header: \<open>p\<close> itself when it has room, else a new one in front of it. \<open>Inl\<close> is an error return.\<close>

definition udp_header_pbuf :: "custom_free \<Rightarrow> addr \<Rightarrow> udp_state \<Rightarrow> ((err_t + addr) \<times> udp_state) option" where
  "udp_header_pbuf cf p s = do {
     (r, s) \<leftarrow> net_bufs (pbuf_header p (int UDP_HLEN)) s;
     if r \<noteq> 0
     then do {
       (q, s) \<leftarrow> net_bufs (pbuf_alloc cf PBUF_IP UDP_HLEN PBUF_RAM) s;
       if q = NULL then Some (Inl ERR_MEM, s)
       else if tot_len (ibufs (net s)) p \<noteq> 0
       then do { (_, s) \<leftarrow> net_bufs (\<lambda>b. map_option (Pair ()) (pbuf_chain q p b)) s; Some (Inr q, s) }
       else Some (Inr q, s) }
     else Some (Inr p, s) }"

text \<open>The header pbuf is freed, when there is one.\<close>

definition udp_free_header :: "custom_free \<Rightarrow> addr \<Rightarrow> addr \<Rightarrow> udp_state \<Rightarrow> udp_state option" where
  "udp_free_header cf p q s = (if q \<noteq> p then udp_free cf q s else Some s)"

definition udp_checksum :: "addr \<Rightarrow> u8_t \<Rightarrow> u32_t \<Rightarrow> u32_t \<Rightarrow> udp_state \<Rightarrow> udp_state option" where
  "udp_checksum q flags src_ip dst_ip s =
     (if flags AND UDP_FLAGS_NOCHKSUM = 0
      then do {
        c \<leftarrow> inet_chksum_pseudo q src_ip dst_ip IP_PROTO_UDP (of_nat (tot_len (ibufs (net s)) q)) (ibufs (net s));
        Some (udp_store (payload (ibufs (net s)) q + 6) (bytes_of_u16 (if c = 0 then 0xffff else c)) s) }
      else Some s)"

definition udp_sendto_if ::
  "custom_free \<Rightarrow> output_fn \<Rightarrow> addr \<Rightarrow> addr \<Rightarrow> u32_t \<Rightarrow> u16_t \<Rightarrow> addr \<Rightarrow> udp_state \<Rightarrow> (err_t \<times> udp_state) option" where
  "udp_sendto_if cf out pcb p dst_ip dst_port netif s = do {
     (err, s) \<leftarrow> (if u_local_port (udp_mem s pcb) = 0
                 then udp_bind pcb (u_local_ip (udp_mem s pcb)) (u_local_port (udp_mem s pcb)) s
                 else Some (ERR_OK, s));
     if err \<noteq> ERR_OK then Some (err, s)
     else do {
       (q, s) \<leftarrow> udp_header_pbuf cf p s;
       (case q of
          Inl err \<Rightarrow> Some (err, s)
        | Inr q \<Rightarrow>
            if \<not> len (ibufs (net s)) q \<ge> UDP_HLEN then None
            else do {
              let udphdr = payload (ibufs (net s)) q;
              let s = udp_store udphdr (bytes_of_u16 (lwip_htons (u_local_port (udp_mem s pcb)))) s;
              let s = udp_store (udphdr + 2) (bytes_of_u16 (lwip_htons dst_port)) s;
              let s = udp_store (udphdr + 6) (bytes_of_u16 0) s;
              let x = udp_mem s pcb;
              let nif = netifs (lower (net s)) netif;
              if u_local_ip x \<noteq> IPADDR_ANY \<and> u_local_ip x \<noteq> nif_ip_addr nif
              then map_option (Pair ERR_VAL) (udp_free_header cf p q s)
              else do {
                let src_ip = (if u_local_ip x = IPADDR_ANY then nif_ip_addr nif else u_local_ip x);
                let s = udp_store (udphdr + 4) (bytes_of_u16 (lwip_htons (of_nat (tot_len (ibufs (net s)) q)))) s;
                s \<leftarrow> udp_checksum q (u_flags x) src_ip dst_ip s;
                (err, s) \<leftarrow> on_net (ip_output_if cf out q (Some src_ip) (Some dst_ip) (u_ttl x) (u_tos x) IP_PROTO_UDP netif) s;
                s \<leftarrow> udp_free_header cf p q s;
                Some (err, UDP_STATS_INC sp_xmit_update s)
              }
            })
     }
   }"

definition udp_sendto ::
  "custom_free \<Rightarrow> output_fn \<Rightarrow> addr \<Rightarrow> addr \<Rightarrow> u32_t \<Rightarrow> u16_t \<Rightarrow> udp_state \<Rightarrow> (err_t \<times> udp_state) option" where
  "udp_sendto cf out pcb p dst_ip dst_port s = do {
     (netif, s) \<leftarrow> on_net (on_lower (ip_route dst_ip)) s;
     if netif = NULL then Some (ERR_RTE, UDP_STATS_INC sp_rterr_update s)
     else udp_sendto_if cf out pcb p dst_ip dst_port netif s }"

definition udp_send :: "custom_free \<Rightarrow> output_fn \<Rightarrow> addr \<Rightarrow> addr \<Rightarrow> udp_state \<Rightarrow> (err_t \<times> udp_state) option" where
  "udp_send cf out pcb p s = udp_sendto cf out pcb p (u_remote_ip (udp_mem s pcb)) (u_remote_port (udp_mem s pcb)) s"

end
