(* ===== verification/Udp_Props.thy ===== *)
theory Udp_Props
  imports Udp
begin

unbundle bit_operations_syntax

text \<open>
  The control blocks of UDP as a list: what the loops of \<^verbatim>\<open>udp.c\<close> compute on it, the invariant of the bindings, and that every operation
  on a live block keeps it.
\<close>

section \<open>Ports\<close>

abbreviation unext :: "(addr \<Rightarrow> struct_udp_pcb) \<Rightarrow> addr \<Rightarrow> addr" where
  "unext m \<equiv> (\<lambda>x. u_next (m x))"

lemma port_in_use_chain:
  "chain (unext m) p xs \<Longrightarrow> port_in_use port p m = Some (\<exists>x\<in>set xs. u_local_port (m x) = port)"
proof (induction xs arbitrary: p)
  case Nil
  then show ?case by (simp add: port_in_use.simps)
next
  case (Cons x xs)
  then show ?case by (subst port_in_use.simps) auto
qed

text \<open>The automatic ports in a ring: number \<open>k\<close> of the 16384.\<close>

definition ring_port :: "nat \<Rightarrow> u16_t" where
  "ring_port k = 0xc000 + of_nat (k mod 16384)"

lemma unat_ring_port: "unat (ring_port k) = 0xc000 + k mod 16384"
proof -
  have "k mod 16384 < 16384" by simp
  then have "0xc000 + k mod 16384 < 65536" by linarith
  then have "unat (of_nat (0xc000 + k mod 16384) :: u16_t) = 0xc000 + k mod 16384"
    by (simp add: unat_of_nat del: of_nat_add)
  moreover have "ring_port k = of_nat (0xc000 + k mod 16384)" by (simp add: ring_port_def)
  ultimately show ?thesis by simp
qed

lemma ring_port_next:
  "(if ring_port k = UDP_LOCAL_PORT_RANGE_END then UDP_LOCAL_PORT_RANGE_START else ring_port k + 1) = ring_port (Suc k)"
proof -
  have "k mod 16384 < 16384" by simp
  then show ?thesis
    by (auto simp: word_unat_eq_iff unat_ring_port unat_word_ariths mod_Suc)
qed

lemma ring_port_range: "0xc000 \<le> ring_port k" "ring_port k \<noteq> 0"
  by (simp_all add: word_le_nat_alt word_unat_eq_iff unat_ring_port)

lemma ring_port_exists:
  assumes "0xc000 \<le> p"
  shows "\<exists>k < 16384. p = ring_port k"
proof -
  define k where "k = unat p - 0xc000"
  have u: "0xc000 \<le> unat p" using assms by (simp add: word_le_nat_alt)
  then have k: "k < 16384" "unat p = 0xc000 + k" using unat_u16_le [of p] unfolding k_def by linarith+
  then have "p = ring_port k" by (simp add: word_unat_eq_iff unat_ring_port)
  with k(1) show ?thesis by blast
qed

definition port_taken :: "udp_state \<Rightarrow> addr list \<Rightarrow> u16_t \<Rightarrow> bool" where
  "port_taken s xs port \<longleftrightarrow> (\<exists>x\<in>set xs. u_local_port (udp_mem s x) = port)"

lemma new_port_step:
  assumes "chain (unext (udp_mem s)) (udp_pcbs s) xs" "udp_port s = ring_port i"
  shows "new_port_loop n s =
    (let s' = s\<lparr>udp_port := ring_port (Suc i)\<rparr>
     in if \<not> port_taken s xs (ring_port (Suc i)) then Some (ring_port (Suc i), s')
        else if n \<ge> 16383 then Some (0, s') else new_port_loop (n + 1) s')"
proof -
  have "(if udp_port s = UDP_LOCAL_PORT_RANGE_END then s\<lparr>udp_port := UDP_LOCAL_PORT_RANGE_START\<rparr>
         else s\<lparr>udp_port := udp_port s + 1\<rparr>) = s\<lparr>udp_port := ring_port (Suc i)\<rparr>"
    using ring_port_next [of i] assms(2) by (auto split: if_splits)
  then show ?thesis
    using port_in_use_chain [OF assms(1), of "ring_port (Suc i)"]
    by (subst new_port_loop.simps) (auto simp: Let_def port_taken_def)
qed

lemma new_port_loop_spec:
  assumes "chain (unext (udp_mem s)) (udp_pcbs s) xs" "udp_port s = ring_port i" "n + m = 16384" "0 < m"
  shows "if \<forall>k\<in>{1..m}. port_taken s xs (ring_port (i + k))
         then new_port_loop n s = Some (0, s\<lparr>udp_port := ring_port (i + m)\<rparr>)
         else \<exists>j. new_port_loop n s = Some (ring_port j, s\<lparr>udp_port := ring_port j\<rparr>) \<and> \<not> port_taken s xs (ring_port j)"
  using assms
proof (induction m arbitrary: n i s)
  case (Suc m)
  note step = new_port_step [OF Suc.prems(1,2), of n]
  show ?case
  proof (cases "port_taken s xs (ring_port (Suc i))")
    case False
    then have "\<not> (\<forall>k\<in>{1..Suc m}. port_taken s xs (ring_port (i + k)))" by (auto intro!: bexI [of _ 1])
    then show ?thesis using step False by (auto simp: Let_def)
  next
    case True
    show ?thesis
    proof (cases "m = 0")
      case True
      then show ?thesis using step \<open>port_taken s xs (ring_port (Suc i))\<close> Suc.prems(3) by (auto simp: Let_def)
    next
      case False
      let ?s = "s\<lparr>udp_port := ring_port (Suc i)\<rparr>"
      have eq: "new_port_loop n s = new_port_loop (n + 1) ?s"
        using step True False Suc.prems(3) by (simp add: Let_def)
      have IH: "if \<forall>k\<in>{1..m}. port_taken ?s xs (ring_port (Suc i + k))
         then new_port_loop (n + 1) ?s = Some (0, ?s\<lparr>udp_port := ring_port (Suc i + m)\<rparr>)
         else \<exists>j. new_port_loop (n + 1) ?s = Some (ring_port j, ?s\<lparr>udp_port := ring_port j\<rparr>) \<and> \<not> port_taken ?s xs (ring_port j)"
        using Suc.prems False by (intro Suc.IH) auto
      have taken: "port_taken ?s xs p = port_taken s xs p" for p by (simp add: port_taken_def)
      have all: "(\<forall>k\<in>{1..Suc m}. port_taken s xs (ring_port (i + k))) \<longleftrightarrow> (\<forall>k\<in>{1..m}. port_taken s xs (ring_port (Suc i + k)))"
      proof
        assume *: "\<forall>k\<in>{1..m}. port_taken s xs (ring_port (Suc i + k))"
        show "\<forall>k\<in>{1..Suc m}. port_taken s xs (ring_port (i + k))"
        proof
          fix k assume k: "k \<in> {1..Suc m}"
          show "port_taken s xs (ring_port (i + k))"
          proof (cases "k = 1")
            case False
            then have "k - 1 \<in> {1..m}" "Suc i + (k - 1) = i + k" using k by auto
            then show ?thesis using * by metis
          qed (simp add: True)
        qed
      next
        assume *: "\<forall>k\<in>{1..Suc m}. port_taken s xs (ring_port (i + k))"
        show "\<forall>k\<in>{1..m}. port_taken s xs (ring_port (Suc i + k))"
          using bspec [OF *, of "Suc _"] by auto
      qed
      show ?thesis
      proof (cases "\<forall>k\<in>{1..m}. port_taken s xs (ring_port (Suc i + k))")
        case True
        then show ?thesis using IH unfolding eq taken all if_P [OF True] by simp
      next
        case False
        then show ?thesis using IH unfolding eq taken all if_not_P [OF False] by simp
      qed
    qed
  qed
qed simp

lemma all_ring_ports:
  "(\<forall>k\<in>{1..16384}. P (ring_port (i + k))) \<longleftrightarrow> (\<forall>p \<ge> 0xc000. P p)"
proof
  assume *: "\<forall>k\<in>{1..16384}. P (ring_port (i + k))"
  show "\<forall>p \<ge> 0xc000. P p"
  proof (intro allI impI)
    fix p :: u16_t assume "0xc000 \<le> p"
    then obtain j where j: "j < 16384" "p = ring_port j" using ring_port_exists by blast
    define r where "r = i mod 16384"
    define k where "k = (if r < j then j - r else j + 16384 - r)"
    have r: "r < 16384" by (simp add: r_def)
    have "(i + k) mod 16384 = (r + k) mod 16384" by (simp add: r_def mod_add_left_eq)
    also have "\<dots> = j" using r j(1) by (auto simp: k_def)
    finally have "p = ring_port (i + k)" using j by (simp add: ring_port_def)
    moreover have "k \<in> {1..16384}" using r j(1) by (auto simp: k_def)
    ultimately show "P p" using * by blast
  qed
qed (auto simp: ring_port_range)

text \<open>The search ends; it finds a port that no block has, and gives 0 only when every automatic port is taken.\<close>

lemma udp_new_port_spec:
  assumes "chain (unext (udp_mem s)) (udp_pcbs s) xs" "0xc000 \<le> udp_port s"
  shows "if \<forall>p \<ge> 0xc000. port_taken s xs p
         then \<exists>q. udp_new_port s = Some (0, s\<lparr>udp_port := q\<rparr>) \<and> 0xc000 \<le> q
         else \<exists>p. udp_new_port s = Some (p, s\<lparr>udp_port := p\<rparr>) \<and> 0xc000 \<le> p \<and> \<not> port_taken s xs p"
proof -
  obtain i where i: "udp_port s = ring_port i" using ring_port_exists assms(2) by blast
  have "if \<forall>k\<in>{1..16384}. port_taken s xs (ring_port (i + k))
         then new_port_loop 0 s = Some (0, s\<lparr>udp_port := ring_port (i + 16384)\<rparr>)
         else \<exists>j. new_port_loop 0 s = Some (ring_port j, s\<lparr>udp_port := ring_port j\<rparr>) \<and> \<not> port_taken s xs (ring_port j)"
    by (rule new_port_loop_spec [OF assms(1) i]) simp_all
  then show ?thesis
    unfolding udp_new_port_def all_ring_ports using ring_port_range by (auto split: if_splits)
qed

text \<open>With fewer blocks than ports the search succeeds.\<close>

lemma ports_left:
  assumes "length xs < 16384"
  shows "\<not> (\<forall>p \<ge> 0xc000. port_taken s xs p)"
proof
  assume all: "\<forall>p \<ge> 0xc000. port_taken s xs p"
  have "ring_port ` {..<16384} \<subseteq> (\<lambda>x. u_local_port (udp_mem s x)) ` set xs"
  proof (rule image_subsetI)
    fix k :: nat
    have "port_taken s xs (ring_port k)" using all ring_port_range(1) by blast
    then show "ring_port k \<in> (\<lambda>x. u_local_port (udp_mem s x)) ` set xs" unfolding port_taken_def by (elim bexE) (rule image_eqI, rule sym)
  qed
  then have "card (ring_port ` {..<16384}) \<le> card (set xs)"
    by (meson card_image_le card_mono finite_imageI List.finite_set le_trans)
  moreover have "inj_on ring_port {..<16384}"
    by (rule inj_onI) (auto simp: word_unat_eq_iff unat_ring_port)
  ultimately show False using assms card_length [of xs] by (simp add: card_image)
qed

section \<open>The list of bound blocks\<close>

text \<open>Two bindings get in each other's way: the same port, and the same address or one of them any address.\<close>

definition clash :: "struct_udp_pcb \<Rightarrow> u32_t \<Rightarrow> u16_t \<Rightarrow> bool" where
  "clash x ip port \<longleftrightarrow> u_local_port x = port \<and> (u_local_ip x = IPADDR_ANY \<or> ip = IPADDR_ANY \<or> u_local_ip x = ip)"

definition clashes :: "udp_state \<Rightarrow> addr list \<Rightarrow> addr \<Rightarrow> u32_t \<Rightarrow> u16_t \<Rightarrow> bool" where
  "clashes s xs pcb ip port \<longleftrightarrow> (\<exists>x\<in>set xs. x \<noteq> pcb \<and> clash (udp_mem s x) ip port)"

lemma bind_loop_chain:
  "chain (unext m) p xs \<Longrightarrow> (rebind \<Longrightarrow> pcb \<notin> set xs) \<Longrightarrow>
   bind_loop pcb ip port rebind p m =
     Some (if \<exists>x\<in>set xs. x \<noteq> pcb \<and> clash (m x) ip port then Inl ERR_USE else Inr (rebind \<or> pcb \<in> set xs))"
proof (induction xs arbitrary: p rebind)
  case Nil
  then show ?case by (simp add: bind_loop.simps)
next
  case (Cons x xs)
  have notin: "x \<notin> set xs" using chain_distinct [OF Cons.prems(1)] by simp
  have px: "p = x" "x \<noteq> NULL" "chain (unext m) (u_next (m x)) xs" using Cons.prems(1) by auto
  show ?case
  proof (cases "pcb = x")
    case True
    then have "\<not> rebind" using Cons.prems(2) by auto
    then show ?thesis
      using Cons.IH [OF px(3), of True] True notin px(1,2) by (subst bind_loop.simps) auto
  next
    case False
    have "bind_loop pcb ip port rebind p m = (if clash (m x) ip port then Some (Inl ERR_USE)
        else bind_loop pcb ip port rebind (u_next (m x)) m)"
      using False px(1,2) by (subst bind_loop.simps) (auto simp: clash_def)
    moreover have "bind_loop pcb ip port rebind (u_next (m x)) m =
        Some (if \<exists>x\<in>set xs. x \<noteq> pcb \<and> clash (m x) ip port then Inl ERR_USE else Inr (rebind \<or> pcb \<in> set xs))"
      by (rule Cons.IH [OF px(3)]) (use Cons.prems(2) in auto)
    ultimately show ?thesis using False by auto
  qed
qed

lemma on_list_chain: "chain (unext m) p xs \<Longrightarrow> on_list pcb p m = Some (pcb \<in> set xs)"
proof (induction xs arbitrary: p)
  case Nil
  then show ?case by (simp add: on_list.simps)
next
  case (Cons x xs)
  then show ?case by (subst on_list.simps) auto
qed

section \<open>The invariant\<close>

abbreviation upools :: "udp_state \<Rightarrow> memp_state" where "upools s \<equiv> pools (ibufs (net s))"

abbreviation udp_live :: "(memp_t \<Rightarrow> nat) \<Rightarrow> addr \<Rightarrow> udp_state \<Rightarrow> addr set" where
  "udp_live sizes a s \<equiv> memp_live sizes a MEMP_UDP_PCB (upools s)"

text \<open>
  The list ends, its members are blocks handed out by the pool, every one is bound to a port and no two of them clash; a block
  outside the list is not bound.
\<close>

definition udp_inv :: "(memp_t \<Rightarrow> nat) \<Rightarrow> addr \<Rightarrow> udp_state \<Rightarrow> addr list \<Rightarrow> bool" where
  "udp_inv sizes a s xs \<longleftrightarrow>
     chain (unext (udp_mem s)) (udp_pcbs s) xs
     \<and> (\<forall>x\<in>set xs. u_local_port (udp_mem s x) \<noteq> 0)
     \<and> (\<forall>x\<in>set xs. \<forall>y\<in>set xs. x \<noteq> y \<longrightarrow> \<not> clash (udp_mem s x) (u_local_ip (udp_mem s y)) (u_local_port (udp_mem s y)))
     \<and> 0xc000 \<le> udp_port s
     \<and> memp_inv sizes a (upools s) \<and> set xs \<subseteq> udp_live sizes a s
     \<and> (\<forall>x \<in> udp_live sizes a s - set xs. u_local_port (udp_mem s x) = 0)"

lemma udp_invD:
  assumes "udp_inv sizes a s xs"
  shows "chain (unext (udp_mem s)) (udp_pcbs s) xs" "\<And>x. x \<in> set xs \<Longrightarrow> u_local_port (udp_mem s x) \<noteq> 0"
    "\<And>x y. x \<in> set xs \<Longrightarrow> y \<in> set xs \<Longrightarrow> x \<noteq> y \<Longrightarrow> \<not> clash (udp_mem s x) (u_local_ip (udp_mem s y)) (u_local_port (udp_mem s y))"
    "0xc000 \<le> udp_port s" "memp_inv sizes a (upools s)" "set xs \<subseteq> udp_live sizes a s"
    "\<And>x. x \<in> udp_live sizes a s \<Longrightarrow> x \<notin> set xs \<Longrightarrow> u_local_port (udp_mem s x) = 0" "distinct xs"
  using assms chain_distinct unfolding udp_inv_def by auto

lemma udp_live_nonNULL:
  assumes "memp_inv sizes a (upools s)" "p \<in> udp_live sizes a s"
  shows "p \<noteq> NULL"
proof -
  obtain free where r: "memp_rep sizes a (upools s) free" using assms(1) by (auto simp: memp_inv_def)
  have "p \<in> set (pool_elems sizes a MEMP_UDP_PCB)" using assms(2) by (simp add: memp_live_def)
  moreover have "sizes_ok sizes" "0 < a" "a mod 4 = 0" using r by (auto simp: memp_rep_def)
  ultimately show ?thesis using pool_elems_aligned [of sizes a MEMP_UDP_PCB p] by simp
qed

lemma udp_inv_length:
  assumes "udp_inv sizes a s xs"
  shows "length xs \<le> 4"
proof -
  have "set xs \<subseteq> set (pool_elems sizes a MEMP_UDP_PCB)"
    using udp_invD(6) [OF assms] by (auto simp: memp_live_def)
  then have "card (set xs) \<le> length (pool_elems sizes a MEMP_UDP_PCB)"
    by (meson card_length card_mono List.finite_set le_trans)
  also have "\<dots> = 4" by (simp add: pool_elems_def memp_num_def)
  finally show ?thesis using distinct_card [OF udp_invD(8) [OF assms]] by simp
qed

text \<open>A change of one block that keeps its binding and its link, and one that changes neither the list nor the blocks.\<close>

lemma udp_inv_same:
  assumes "udp_inv sizes a s xs" "udp_pcbs s' = udp_pcbs s" "udp_port s' = udp_port s" "upools s' = upools s"
    and "\<And>x. u_next (udp_mem s' x) = u_next (udp_mem s x)" "\<And>x. u_local_port (udp_mem s' x) = u_local_port (udp_mem s x)"
    "\<And>x. u_local_ip (udp_mem s' x) = u_local_ip (udp_mem s x)"
  shows "udp_inv sizes a s' xs"
  using assms(1) unfolding udp_inv_def clash_def assms(2-7) .

text \<open>A new binding of one block, which enters the list unless it is there.\<close>

lemma udp_inv_bound:
  assumes inv: "udp_inv sizes a s xs" and live: "pcb \<in> udp_live sizes a s"
    and x: "u_local_port x \<noteq> 0" "\<not> clashes s xs pcb (u_local_ip x) (u_local_port x)"
    and s': "udp_mem s' = (udp_mem s)(pcb := x)" "upools s' = upools s" "0xc000 \<le> udp_port s'"
    and link: "if pcb \<in> set xs then u_next x = u_next (udp_mem s pcb) \<and> udp_pcbs s' = udp_pcbs s
               else u_next x = udp_pcbs s \<and> udp_pcbs s' = pcb"
  shows "udp_inv sizes a s' (if pcb \<in> set xs then xs else pcb # xs)"
proof -
  note I = udp_invD [OF inv]
  let ?ys = "if pcb \<in> set xs then xs else pcb # xs"
  have nn: "pcb \<noteq> NULL" using udp_live_nonNULL [OF I(5) live] .
  have "chain (unext (udp_mem s')) (udp_pcbs s') ?ys"
  proof (cases "pcb \<in> set xs")
    case True
    then have "unext (udp_mem s') = unext (udp_mem s)" using link s'(1) by (auto simp: fun_eq_iff)
    then show ?thesis using I(1) True link by simp
  next
    case False
    have "chain (unext (udp_mem s')) (udp_pcbs s) xs \<longleftrightarrow> chain (unext (udp_mem s)) (udp_pcbs s) xs"
      using False by (intro chain_cong) (auto simp: s'(1))
    then show ?thesis using I(1) False link nn s'(1) by simp
  qed
  moreover have set: "set ?ys = insert pcb (set xs)" by auto
  moreover have "\<not> clash (udp_mem s' y) (u_local_ip (udp_mem s' z)) (u_local_port (udp_mem s' z))"
    if "y \<in> insert pcb (set xs)" "z \<in> insert pcb (set xs)" "y \<noteq> z" for y z
    using that I(3) [of y z] x(2) unfolding clashes_def s'(1) by (auto simp: clash_def)
  moreover have "\<forall>y\<in>insert pcb (set xs). u_local_port (udp_mem s' y) \<noteq> 0" using I(2) x(1) s'(1) by auto
  moreover have "\<forall>y \<in> udp_live sizes a s' - insert pcb (set xs). u_local_port (udp_mem s' y) = 0"
    using I(7) s'(1,2) by auto
  ultimately show ?thesis
    unfolding udp_inv_def set using I(5,6) live s'(2,3) by auto
qed

lemma udp_bind_spec:
  assumes inv: "udp_inv sizes a s xs" and live: "pcb \<in> udp_live sizes a s"
  shows "if clashes s xs pcb ip port then udp_bind pcb ip port s = Some (ERR_USE, s)
    else \<exists>port' s'. udp_bind pcb ip port s = Some (ERR_OK, s') \<and> udp_inv sizes a s' (if pcb \<in> set xs then xs else pcb # xs)
      \<and> (if port = 0 then 0xc000 \<le> port' \<and> \<not> port_taken s xs port' else port' = port)
      \<and> u_local_ip (udp_mem s' pcb) = ip \<and> u_local_port (udp_mem s' pcb) = port'
      \<and> net s' = net s \<and> (\<forall>x. x \<noteq> pcb \<longrightarrow> udp_mem s' x = udp_mem s x)"
proof (cases "clashes s xs pcb ip port")
  case True
  then show ?thesis
    using bind_loop_chain [OF udp_invD(1) [OF inv], of False pcb ip port] by (simp add: udp_bind_def clashes_def)
next
  case False
  note I = udp_invD [OF inv]
  have loop: "bind_loop pcb ip port False (udp_pcbs s) (udp_mem s) = Some (Inr (pcb \<in> set xs))"
    using bind_loop_chain [OF I(1), of False pcb ip port] False by (auto simp: clashes_def)
  define s1 where "s1 = set_pcb pcb (\<lambda>x. x\<lparr>u_local_ip := ip\<rparr>) s"
  have taken1: "port_taken s1 xs q = port_taken s xs q" for q
    unfolding port_taken_def by (rule bex_cong) (auto simp: s1_def set_pcb_def)
  have un1: "unext (udp_mem s1) = unext (udp_mem s)" by (auto simp: s1_def set_pcb_def)
  obtain port' q where port': "(if port = 0 then udp_new_port s1 else Some (port, s1)) = Some (port', s1\<lparr>udp_port := q\<rparr>)"
    "0xc000 \<le> q" "if port = 0 then 0xc000 \<le> port' \<and> \<not> port_taken s xs port' else port' = port"
  proof (cases "port = 0")
    case True
    have "chain (unext (udp_mem s1)) (udp_pcbs s1) xs" "0xc000 \<le> udp_port s1"
      unfolding un1 using I(1,4) by (simp_all add: s1_def set_pcb_def)
    from udp_new_port_spec [OF this] ports_left [of xs s1] udp_inv_length [OF inv] obtain p where
      "udp_new_port s1 = Some (p, s1\<lparr>udp_port := p\<rparr>)" "0xc000 \<le> p" "\<not> port_taken s1 xs p" by (auto split: if_splits)
    then show thesis using that [of p p] True taken1 by simp
  next
    case False
    then show thesis using that [of port "udp_port s1"] I(4) by (simp add: s1_def set_pcb_def)
  qed
  have nz: "port' \<noteq> 0" using port'(3) by (auto split: if_splits)
  have nc: "\<not> clashes s xs pcb ip port'"
    using False port'(3) by (auto simp: clashes_def clash_def port_taken_def split: if_splits)
  define x where "x = (udp_mem s pcb)\<lparr>u_local_ip := ip, u_local_port := port',
      u_next := (if pcb \<in> set xs then u_next (udp_mem s pcb) else udp_pcbs s)\<rparr>"
  define s' where "s' = s\<lparr>udp_mem := (udp_mem s)(pcb := x), udp_port := q, udp_pcbs := (if pcb \<in> set xs then udp_pcbs s else pcb)\<rparr>"
  have run: "udp_bind pcb ip port s = Some (ERR_OK, s')"
    unfolding udp_bind_def loop by (simp add: s1_def [symmetric] port'(1) nz) (simp add: s1_def set_pcb_def s'_def x_def)
  have "udp_inv sizes a s' (if pcb \<in> set xs then xs else pcb # xs)"
    by (rule udp_inv_bound [OF inv live, of x]) (use nz nc port'(2) in \<open>simp_all add: s'_def x_def\<close>)
  then show ?thesis
    using False run port'(3) by (auto simp: s'_def x_def intro!: exI [of _ port'] exI [of _ s'])
qed

section \<open>The other operations\<close>

lemma udp_inv_update:
  assumes "udp_inv sizes a s xs"
    and "\<And>x. u_next (f x) = u_next x" "\<And>x. u_local_port (f x) = u_local_port x" "\<And>x. u_local_ip (f x) = u_local_ip x"
  shows "udp_inv sizes a (set_pcb pcb f s) xs"
  by (rule udp_inv_same [OF assms(1)]) (auto simp: set_pcb_def assms(2-4))

lemma udp_connect_spec:
  assumes inv: "udp_inv sizes a s xs" and live: "pcb \<in> udp_live sizes a s"
  shows "\<exists>s'. udp_connect pcb ip port s = Some (ERR_OK, s') \<and> udp_inv sizes a s' (if pcb \<in> set xs then xs else pcb # xs)
    \<and> u_remote_ip (udp_mem s' pcb) = ip \<and> u_remote_port (udp_mem s' pcb) = port
    \<and> u_flags (udp_mem s' pcb) AND UDP_FLAGS_CONNECTED \<noteq> 0 \<and> net s' = net s"
proof -
  note I = udp_invD [OF inv]
  let ?f = "\<lambda>x. x\<lparr>u_remote_ip := ip, u_remote_port := port, u_flags := u_flags x OR UDP_FLAGS_CONNECTED\<rparr>"
  have flag: "(w OR 4) AND 4 \<noteq> (0 :: u8_t)" for w
    by (simp only: word_ao_absorbs) simp
  obtain s1 where s1: "(if u_local_port (udp_mem s pcb) = 0
        then udp_bind pcb (u_local_ip (udp_mem s pcb)) (u_local_port (udp_mem s pcb)) s else Some (ERR_OK, s)) = Some (ERR_OK, s1)"
    "udp_inv sizes a s1 (if pcb \<in> set xs then xs else pcb # xs)" "net s1 = net s"
  proof (cases "u_local_port (udp_mem s pcb) = 0")
    case True
    have "\<not> clashes s xs pcb (u_local_ip (udp_mem s pcb)) 0" using I(2) by (auto simp: clashes_def clash_def)
    then show thesis using that True udp_bind_spec [OF inv live, of "u_local_ip (udp_mem s pcb)" 0] by auto
  next
    case False
    then have "pcb \<in> set xs" using I(7) [OF live] by auto
    then show thesis using that [of s] False inv by simp
  qed
  define s2 where "s2 = set_pcb pcb ?f s1"
  have inv2: "udp_inv sizes a s2 (if pcb \<in> set xs then xs else pcb # xs)"
    unfolding s2_def by (rule udp_inv_update [OF s1(2)]) simp_all
  have "on_list pcb (udp_pcbs s2) (udp_mem s2) = Some True"
    using on_list_chain [OF udp_invD(1) [OF inv2], of pcb] by (simp split: if_splits)
  then have "udp_connect pcb ip port s = Some (ERR_OK, s2)"
    unfolding udp_connect_def s1(1) by (simp add: s2_def [symmetric])
  then show ?thesis using inv2 s1(3) flag by (auto simp: s2_def set_pcb_def)
qed

text \<open>\<^verbatim>\<open>udp_remove\<close>: the block leaves the list and the pool takes it back.\<close>

lemma tl_subset: "x \<notin> set xs \<Longrightarrow> x \<notin> set (tl xs)"
  by (cases xs) auto

lemma remove_loop_absent:
  "chain (unext m) p xs \<Longrightarrow> pcb \<notin> set (tl xs) \<Longrightarrow> remove_loop pcb p m = Some m"
proof (induction xs arbitrary: p)
  case Nil
  then show ?case by (simp add: remove_loop.simps)
next
  case (Cons x xs)
  then have "\<not> (u_next (m x) \<noteq> NULL \<and> u_next (m x) = pcb)" by (cases xs) auto
  moreover have "remove_loop pcb (u_next (m x)) m = Some m"
    using Cons.prems by (intro Cons.IH) (auto simp: tl_subset)
  ultimately show ?case using Cons.prems by (subst remove_loop.simps) (auto simp: Let_def)
qed

lemma remove_loop_present:
  "chain (unext m) p (ys @ y # pcb # zs) \<Longrightarrow>
   remove_loop pcb p m = Some (m(y := (m y)\<lparr>u_next := u_next (m pcb)\<rparr>))"
proof (induction ys arbitrary: p)
  case Nil
  let ?m = "m(y := (m y)\<lparr>u_next := u_next (m pcb)\<rparr>)"
  have c: "p = y" "y \<noteq> NULL" "u_next (m y) = pcb" "pcb \<noteq> NULL" "chain (unext m) (u_next (m pcb)) zs" "y \<notin> set zs" "pcb \<notin> set zs"
    using Nil chain_distinct [OF Nil] by auto
  have "chain (unext ?m) (u_next (m pcb)) zs \<longleftrightarrow> chain (unext m) (u_next (m pcb)) zs"
    using c(6) by (intro chain_cong) auto
  then have "remove_loop pcb (u_next (m pcb)) ?m = Some ?m"
    using c by (intro remove_loop_absent [of _ _ zs]) (auto simp: tl_subset)
  then show ?case using c by (subst remove_loop.simps) (auto simp: Let_def)
next
  case (Cons x ys)
  have d: "distinct (x # ys @ y # pcb # zs)" using chain_distinct [OF Cons.prems] by simp
  have "u_next (m x) \<noteq> pcb" using Cons.prems d by (cases ys) auto
  then show ?case using Cons.prems Cons.IH [of "u_next (m x)"] by (subst remove_loop.simps) (auto simp: Let_def)
qed

lemma chain_unlink:
  assumes "chain (unext m) p (ys @ y # pcb # zs)"
  shows "chain (unext (m(y := (m y)\<lparr>u_next := u_next (m pcb)\<rparr>))) p (ys @ y # zs)"
  using assms
proof (induction ys arbitrary: p)
  case Nil
  have "y \<notin> set zs" using chain_distinct [OF Nil] by simp
  then have "chain (unext (m(y := (m y)\<lparr>u_next := u_next (m pcb)\<rparr>))) (u_next (m pcb)) zs
      \<longleftrightarrow> chain (unext m) (u_next (m pcb)) zs" by (intro chain_cong) auto
  then show ?case using Nil by auto
next
  case (Cons x ys)
  have "x \<noteq> y" using chain_distinct [OF Cons.prems] by simp
  then show ?case using Cons.prems Cons.IH by auto
qed

lemma udp_unlink_spec:
  assumes c: "chain (unext (udp_mem s)) (udp_pcbs s) xs"
  obtains s' where "(if udp_pcbs s = pcb then Some (s\<lparr>udp_pcbs := u_next (udp_mem s (udp_pcbs s))\<rparr>)
          else map_option (\<lambda>m. s\<lparr>udp_mem := m\<rparr>) (remove_loop pcb (udp_pcbs s) (udp_mem s))) = Some s'"
    "pcb \<noteq> NULL \<Longrightarrow> chain (unext (udp_mem s')) (udp_pcbs s') (remove1 pcb xs)" "net s' = net s" "udp_port s' = udp_port s"
    "\<And>x. u_local_port (udp_mem s' x) = u_local_port (udp_mem s x)" "\<And>x. u_local_ip (udp_mem s' x) = u_local_ip (udp_mem s x)"
proof (cases "udp_pcbs s = pcb")
  case True
  have "pcb \<noteq> NULL \<Longrightarrow> chain (unext (udp_mem s)) (u_next (udp_mem s pcb)) (remove1 pcb xs)"
    using c True by (cases xs) auto
  then show thesis using True by (intro that [of "s\<lparr>udp_pcbs := u_next (udp_mem s (udp_pcbs s))\<rparr>"]) simp_all
next
  case False
  show thesis
  proof (cases "pcb \<in> set xs")
    case True
    then obtain us zs where xs: "xs = us @ pcb # zs" by (meson split_list)
    then obtain ys y where us: "us = ys @ [y]" using c False by (cases us rule: rev_cases) auto
    let ?m = "(udp_mem s)(y := (udp_mem s y)\<lparr>u_next := u_next (udp_mem s pcb)\<rparr>)"
    have c': "chain (unext (udp_mem s)) (udp_pcbs s) (ys @ y # pcb # zs)" using c xs us by simp
    have "pcb \<notin> set (ys @ [y])" using chain_distinct [OF c'] by auto
    then have r1: "remove1 pcb xs = ys @ y # zs" using xs us by (simp add: remove1_append)
    show thesis
      using False remove_loop_present [OF c'] chain_unlink [OF c'] r1
      by (intro that [of "s\<lparr>udp_mem := ?m\<rparr>"]) simp_all
  next
    case absent: False
    then have "pcb \<notin> set (tl xs)" by (rule tl_subset)
    then show thesis
      using False remove_loop_absent [OF c] c absent by (intro that [of s]) (simp_all add: remove1_idem)
  qed
qed

lemma udp_remove_spec:
  assumes inv: "udp_inv sizes a s xs" and live: "pcb \<in> udp_live sizes a s"
  shows "\<exists>s'. udp_remove pcb s = Some s' \<and> udp_inv sizes a s' (remove1 pcb xs) \<and> udp_live sizes a s' = udp_live sizes a s - {pcb}"
proof -
  note I = udp_invD [OF inv]
  have nn: "pcb \<noteq> NULL" using udp_live_nonNULL [OF I(5) live] .
  obtain s1 where s1: "(if udp_pcbs s = pcb then Some (s\<lparr>udp_pcbs := u_next (udp_mem s (udp_pcbs s))\<rparr>)
          else map_option (\<lambda>m. s\<lparr>udp_mem := m\<rparr>) (remove_loop pcb (udp_pcbs s) (udp_mem s))) = Some s1"
    "chain (unext (udp_mem s1)) (udp_pcbs s1) (remove1 pcb xs)" "net s1 = net s" "udp_port s1 = udp_port s"
    "\<And>x. u_local_port (udp_mem s1 x) = u_local_port (udp_mem s x)" "\<And>x. u_local_ip (udp_mem s1 x) = u_local_ip (udp_mem s x)"
    using udp_unlink_spec [OF I(1), of pcb] nn by metis
  obtain m where m: "memp_free MEMP_UDP_PCB pcb (upools s1) = Some m" "memp_inv sizes a m"
    "memp_live sizes a MEMP_UDP_PCB m = udp_live sizes a s - {pcb}"
    by (rule memp_free_live [of sizes a "upools s1" MEMP_UDP_PCB pcb]) (use I(5) live in \<open>simp_all add: s1(3)\<close>)
  define s2 where "s2 = s1\<lparr>net := set_bufs ((ibufs (net s1))\<lparr>pools := m\<rparr>) (net s1)\<rparr>"
  have run: "udp_remove pcb s = Some s2"
    unfolding udp_remove_def s1(1) by (simp add: net_bufs_def on_net_def on_bufs_def m(1) [unfolded One_nat_def] s2_def)
  have pools: "upools s2 = m" by (simp add: s2_def set_bufs_def)
  have set: "set (remove1 pcb xs) = set xs - {pcb}" using I(8) by simp
  have mem: "u_local_port (udp_mem s2 x) = u_local_port (udp_mem s x)" "u_local_ip (udp_mem s2 x) = u_local_ip (udp_mem s x)"
    "udp_mem s2 = udp_mem s1" "udp_pcbs s2 = udp_pcbs s1" "udp_port s2 = udp_port s" for x
    using s1(4-6) by (simp_all add: s2_def)
  have "\<forall>x \<in> udp_live sizes a s - {pcb} - (set xs - {pcb}). u_local_port (udp_mem s x) = 0"
  proof
    fix x assume "x \<in> udp_live sizes a s - {pcb} - (set xs - {pcb})"
    then show "u_local_port (udp_mem s x) = 0" by (intro I(7)) auto
  qed
  moreover have "\<forall>x\<in>set xs - {pcb}. \<forall>y\<in>set xs - {pcb}. x \<noteq> y \<longrightarrow>
      \<not> clash (udp_mem s2 x) (u_local_ip (udp_mem s y)) (u_local_port (udp_mem s y))"
    using I(3) unfolding clash_def mem(1,2) by blast
  moreover have "\<forall>x\<in>set xs - {pcb}. u_local_port (udp_mem s x) \<noteq> 0" using I(2) by blast
  ultimately have "udp_inv sizes a s2 (remove1 pcb xs)"
    unfolding udp_inv_def pools m(3) set mem(1,2,4,5) using I(4,6) m(2) s1(2) unfolding mem(3) by blast
  then show ?thesis using run pools m(3) by auto
qed

lemma udp_new_spec:
  assumes inv: "udp_inv sizes a s xs"
  shows "\<exists>pcb s'. udp_new s = Some (pcb, s') \<and> udp_inv sizes a s' xs
    \<and> (if pcb = NULL then udp_live sizes a s' = udp_live sizes a s
       else pcb \<notin> udp_live sizes a s \<and> udp_live sizes a s' = insert pcb (udp_live sizes a s))"
proof -
  note I = udp_invD [OF inv]
  have t: "MEMP_UDP_PCB < MEMP_MAX" by simp
  show ?thesis
    using I(5) t
  proof (cases rule: memp_malloc_live)
    case (1 m)
    let ?s = "s\<lparr>net := set_bufs ((ibufs (net s))\<lparr>pools := m\<rparr>) (net s)\<rparr>"
    have "udp_new s = Some (NULL, ?s)"
      by (simp add: udp_new_def net_bufs_def on_net_def on_bufs_def 1(1) [unfolded One_nat_def])
    moreover have "udp_inv sizes a ?s xs"
      using inv 1(2) 1(3) [OF t] unfolding udp_inv_def by (simp add: set_bufs_def)
    ultimately show ?thesis using 1(3) [OF t] by (intro exI [of _ NULL] exI [of _ ?s]) (simp add: set_bufs_def)
  next
    case (2 p m)
    let ?x = "zero_pcb\<lparr>u_ttl := UDP_TTL\<rparr>"
    let ?s = "s\<lparr>net := set_bufs ((ibufs (net s))\<lparr>pools := m\<rparr>) (net s), udp_mem := (udp_mem s)(p := ?x)\<rparr>"
    have "udp_new s = Some (p, ?s)"
      using 2(2) by (simp add: udp_new_def net_bufs_def on_net_def on_bufs_def 2(1) [unfolded One_nat_def] set_pcb_def)
    moreover have fresh: "p \<notin> set xs" using I(6) 2(5) by auto
    have "chain (unext ((udp_mem s)(p := ?x))) (udp_pcbs s) xs \<longleftrightarrow> chain (unext (udp_mem s)) (udp_pcbs s) xs"
      using fresh by (intro chain_cong) auto
    then have "udp_inv sizes a ?s xs"
      using I 2(4) 2(7) [OF t] fresh unfolding udp_inv_def by (auto simp: set_bufs_def zero_pcb_def)
    ultimately show ?thesis using 2(2,5) 2(7) [OF t] by (intro exI [of _ p] exI [of _ ?s]) (simp add: set_bufs_def)
  qed
qed

section \<open>Which block a datagram is for\<close>

text \<open>
  The first block that matches both ends; else the first unconnected one that matches the local end; else none. A full match goes to the
  front of the list.
\<close>

definition unconnected :: "struct_udp_pcb \<Rightarrow> bool" where
  "unconnected x \<longleftrightarrow> u_flags x AND UDP_FLAGS_CONNECTED = 0"

definition find_or_NULL :: "(addr \<Rightarrow> bool) \<Rightarrow> addr list \<Rightarrow> addr" where
  "find_or_NULL P xs = (case find P xs of Some x \<Rightarrow> x | None \<Rightarrow> NULL)"

definition to_front :: "addr \<Rightarrow> addr list \<Rightarrow> addr list" where
  "to_front x xs = (if x \<in> set xs then x # remove1 x xs else xs)"

text \<open>The relinking that moves \<open>pcb\<close>, behind \<open>prev\<close>, to the front.\<close>

definition move_front :: "addr \<Rightarrow> addr \<Rightarrow> udp_state \<Rightarrow> udp_state" where
  "move_front prev pcb s =
     (let s1 = set_pcb prev (\<lambda>y. y\<lparr>u_next := u_next (udp_mem s pcb)\<rparr>) s
      in (set_pcb pcb (\<lambda>y. y\<lparr>u_next := udp_pcbs s\<rparr>) s1)\<lparr>udp_pcbs := pcb\<rparr>)"

lemma demux_loop_step:
  "pcb \<noteq> NULL \<Longrightarrow> demux_loop lm rm prev pcb uncon s =
     (if lm (udp_mem s pcb) \<and> rm (udp_mem s pcb)
      then Some (pcb, if prev \<noteq> NULL then move_front prev pcb s else UDP_STATS_INC sp_cachehit_update s)
      else demux_loop lm rm pcb (u_next (udp_mem s pcb))
             (if lm (udp_mem s pcb) \<and> uncon = NULL \<and> unconnected (udp_mem s pcb) then pcb else uncon) s)"
  by (subst demux_loop.simps) (simp add: Let_def move_front_def unconnected_def set_pcb_def)

lemma demux_loop_NULL: "demux_loop lm rm prev NULL uncon s = Some (uncon, s)"
  by (subst demux_loop.simps) simp

lemma demux_loop_none:
  "chain (unext (udp_mem s)) p ys \<Longrightarrow> find (\<lambda>x. lm (udp_mem s x) \<and> rm (udp_mem s x)) ys = None \<Longrightarrow>
   demux_loop lm rm prev p uncon s =
     Some (if uncon \<noteq> NULL then uncon else find_or_NULL (\<lambda>x. lm (udp_mem s x) \<and> unconnected (udp_mem s x)) ys, s)"
proof (induction ys arbitrary: prev p uncon)
  case Nil
  then show ?case by (simp add: demux_loop_NULL find_or_NULL_def)
next
  case (Cons y ys)
  then have y: "p = y" "y \<noteq> NULL" "chain (unext (udp_mem s)) (u_next (udp_mem s y)) ys"
    and nf: "\<not> (lm (udp_mem s y) \<and> rm (udp_mem s y))" "find (\<lambda>x. lm (udp_mem s x) \<and> rm (udp_mem s x)) ys = None"
    by (auto split: if_splits)
  let ?u = "if lm (udp_mem s y) \<and> uncon = NULL \<and> unconnected (udp_mem s y) then y else uncon"
  have "demux_loop lm rm prev p uncon s = demux_loop lm rm y (u_next (udp_mem s y)) ?u s"
    using demux_loop_step [OF y(2), of lm rm prev uncon s] nf(1) y(1) by (simp only: if_False)
  also have "\<dots> = Some (if ?u \<noteq> NULL then ?u else find_or_NULL (\<lambda>x. lm (udp_mem s x) \<and> unconnected (udp_mem s x)) ys, s)"
    by (rule Cons.IH [OF y(3) nf(2)])
  finally show ?case using y(2) by (auto simp: find_or_NULL_def)
qed

lemma demux_loop_found:
  "chain (unext (udp_mem s)) p (ys @ x # zs) \<Longrightarrow> lm (udp_mem s x) \<Longrightarrow> rm (udp_mem s x) \<Longrightarrow>
   \<forall>y\<in>set ys. \<not> (lm (udp_mem s y) \<and> rm (udp_mem s y)) \<Longrightarrow>
   demux_loop lm rm prev p uncon s =
     Some (x, if (if ys = [] then prev else last ys) \<noteq> NULL then move_front (if ys = [] then prev else last ys) x s
              else UDP_STATS_INC sp_cachehit_update s)"
proof (induction ys arbitrary: prev p uncon)
  case Nil
  then show ?case using demux_loop_step [of x lm rm prev uncon s] by auto
next
  case (Cons y ys)
  then have y: "p = y" "y \<noteq> NULL" "chain (unext (udp_mem s)) (u_next (udp_mem s y)) (ys @ x # zs)"
    and nf: "\<not> (lm (udp_mem s y) \<and> rm (udp_mem s y))" by auto
  let ?u = "if lm (udp_mem s y) \<and> uncon = NULL \<and> unconnected (udp_mem s y) then y else uncon"
  have "demux_loop lm rm prev p uncon s = demux_loop lm rm y (u_next (udp_mem s y)) ?u s"
    using demux_loop_step [OF y(2), of lm rm prev uncon s] nf y(1) by (simp only: if_False)
  also have "\<dots> = Some (x, if (if ys = [] then y else last ys) \<noteq> NULL then move_front (if ys = [] then y else last ys) x s
              else UDP_STATS_INC sp_cachehit_update s)"
    using Cons.prems(4) by (intro Cons.IH [OF y(3) Cons.prems(2,3)]) simp
  finally show ?case by simp
qed

lemma move_front_chain:
  assumes "chain (unext (udp_mem s)) (udp_pcbs s) (ys @ prev # x # zs)"
  shows "chain (unext (udp_mem (move_front prev x s))) (udp_pcbs (move_front prev x s)) (x # ys @ prev # zs)"
proof -
  have d: "x \<notin> set (ys @ prev # zs)" "x \<noteq> prev" using chain_distinct [OF assms] by auto
  have x: "x \<noteq> NULL" using chain_NULL_notin [OF assms] by auto
  let ?m = "(udp_mem s)(prev := (udp_mem s prev)\<lparr>u_next := u_next (udp_mem s x)\<rparr>)"
  have mem: "udp_mem (move_front prev x s) = ?m(x := (?m x)\<lparr>u_next := udp_pcbs s\<rparr>)" "udp_pcbs (move_front prev x s) = x"
    by (simp_all add: move_front_def Let_def set_pcb_def)
  have "chain (unext (udp_mem (move_front prev x s))) (udp_pcbs s) (ys @ prev # zs) \<longleftrightarrow> chain (unext ?m) (udp_pcbs s) (ys @ prev # zs)"
    using d unfolding mem by (intro chain_cong) auto
  then show ?thesis using chain_unlink [OF assms] x d unfolding mem by simp
qed

lemma move_front_fields:
  "u_local_ip (udp_mem (move_front prev x s) y) = u_local_ip (udp_mem s y)"
  "u_local_port (udp_mem (move_front prev x s) y) = u_local_port (udp_mem s y)"
  "(udp_mem (move_front prev x s) y)\<lparr>u_next := n\<rparr> = (udp_mem s y)\<lparr>u_next := n\<rparr>"
  "net (move_front prev x s) = net s" "udp_port (move_front prev x s) = udp_port s"
  by (simp_all add: move_front_def Let_def set_pcb_def)

lemma udp_inv_reorder:
  assumes inv: "udp_inv sizes a s xs" and c: "chain (unext (udp_mem s')) (udp_pcbs s') xs'" "set xs' = set xs"
    and same: "net s' = net s" "udp_port s' = udp_port s" "\<And>y. u_local_ip (udp_mem s' y) = u_local_ip (udp_mem s y)"
      "\<And>y. u_local_port (udp_mem s' y) = u_local_port (udp_mem s y)"
  shows "udp_inv sizes a s' xs'"
  using inv c(1) unfolding udp_inv_def clash_def c(2) same by blast

lemma demux_spec:
  fixes lm rm :: "struct_udp_pcb \<Rightarrow> bool"
  assumes inv: "udp_inv sizes a s xs"
  defines "full \<equiv> find_or_NULL (\<lambda>x. lm (udp_mem s x) \<and> rm (udp_mem s x)) xs"
    and "half \<equiv> find_or_NULL (\<lambda>x. lm (udp_mem s x) \<and> unconnected (udp_mem s x)) xs"
  shows "\<exists>s'. demux_loop lm rm NULL (udp_pcbs s) NULL s = Some (if full \<noteq> NULL then full else half, s')
    \<and> udp_inv sizes a s' (to_front full xs) \<and> net s' = net s
    \<and> (\<forall>x n. (udp_mem s' x)\<lparr>u_next := n\<rparr> = (udp_mem s x)\<lparr>u_next := n\<rparr>)"
proof (cases "find (\<lambda>x. lm (udp_mem s x) \<and> rm (udp_mem s x)) xs")
  case None
  have "full = NULL" by (simp add: full_def find_or_NULL_def None)
  moreover have "to_front NULL xs = xs" using chain_NULL_notin [OF udp_invD(1) [OF inv]] by (simp add: to_front_def)
  ultimately show ?thesis
    using demux_loop_none [OF udp_invD(1) [OF inv] None] inv by (intro exI [of _ s]) (simp add: half_def)
next
  case (Some x)
  then obtain i where i: "i < length xs" "lm (udp_mem s x)" "rm (udp_mem s x)" "x = xs ! i"
    "\<forall>j<i. \<not> (lm (udp_mem s (xs ! j)) \<and> rm (udp_mem s (xs ! j)))" by (auto simp: find_Some_iff)
  define ys where "ys = take i xs"
  define zs where "zs = drop (Suc i) xs"
  have xs: "xs = ys @ x # zs" using i by (simp add: ys_def zs_def id_take_nth_drop)
  have nf: "\<forall>y\<in>set ys. \<not> (lm (udp_mem s y) \<and> rm (udp_mem s y))"
    using i(1,5) by (auto simp: ys_def in_set_conv_nth)
  note c = udp_invD(1) [OF inv, unfolded xs]
  have nn: "x \<noteq> NULL" "x \<notin> set ys" using chain_NULL_notin [OF c] chain_distinct [OF c] by auto
  have full: "full = x" by (simp add: full_def find_or_NULL_def Some)
  have front: "to_front x xs = x # ys @ zs" using nn by (simp add: to_front_def xs remove1_append)
  show ?thesis
  proof (cases "ys = []")
    case True
    let ?s = "UDP_STATS_INC sp_cachehit_update s"
    have "udp_inv sizes a ?s xs" by (rule udp_inv_same [OF inv]) (simp_all add: UDP_STATS_INC_def)
    then show ?thesis
      using demux_loop_found [of s "udp_pcbs s" ys x zs lm rm NULL NULL] c i(2,3) nf True nn(1) full front xs
      by (intro exI [of _ ?s]) (simp add: UDP_STATS_INC_def)
  next
    case False
    then obtain us prev where us: "ys = us @ [prev]" by (cases ys rule: rev_cases) auto
    let ?s = "move_front prev x s"
    have c': "chain (unext (udp_mem s)) (udp_pcbs s) (us @ prev # x # zs)" using c us by simp
    have pn: "prev \<noteq> NULL" using chain_NULL_notin [OF c'] by auto
    have "udp_inv sizes a ?s (x # us @ prev # zs)"
      by (rule udp_inv_reorder [OF inv move_front_chain [OF c']]) (use us xs in \<open>auto simp: move_front_fields\<close>)
    then show ?thesis
      using demux_loop_found [OF c i(2,3) nf, of NULL NULL] us pn nn(1) full front
      by (intro exI [of _ ?s]) (simp add: move_front_fields)
  qed
qed

end
