(* ===== verification/Udp_Claims.thy ===== *)
theory Udp_Claims
  imports Udp_Props Ip_Claims
begin

unbundle bit_operations_syntax

text \<open>The claims on UDP: the bindings, the search for a port, and the way of a datagram to its receiver.\<close>

section \<open>A datagram\<close>

lemma inet_chksum_pseudo_packet:
  assumes "packet b p ps"
  shows "inet_chksum_pseudo p src dest proto n b = Some (inet_chksum 0 (pseudo_header src dest proto n @ data b ps))"
proof -
  have len: "length (data b ps) < 65536" using packet_length [OF assms] by simp
  from assms obtain acc sw where "chksum_pbuf_loop b p 0 False = Some (acc, sw)" "sums acc sw (data b ps)"
    by (rule chksum_pbuf_loop_packet)
  then show ?thesis
    using chksum_pseudo_eq [OF _ len, of acc sw src dest proto n 0] by (simp add: inet_chksum_pseudo_def)
qed

lemma pbuf_header_frame: "pbuf_header p inc b = Some (r, b') \<Longrightarrow> pools b' = pools b"
  by (auto simp: pbuf_header_def upd_def Let_def split: if_splits)

text \<open>Hiding \<open>n\<close> bytes of the datagram in \<open>p\<close>, on the whole state.\<close>

lemma net_header_hide:
  assumes "packet (ibufs (net s)) p (p # ps)" "0 < n" "n \<le> len (ibufs (net s)) p"
    and "pb_type (pbufs (ibufs (net s)) p) = PBUF_RAM \<or> pb_type (pbufs (ibufs (net s)) p) = PBUF_POOL \<Longrightarrow>
      p + SIZEOF_STRUCT_PBUF \<le> payload (ibufs (net s)) p"
  obtains b where "net_bufs (pbuf_header p (- int n)) s = Some (0, s\<lparr>net := set_bufs b (net s)\<rparr>)"
    "packet b p (p # ps)" "data b (p # ps) = drop n (data (ibufs (net s)) (p # ps))"
    "bytes b = ibytes (net s)" "pools b = pools (ibufs (net s))"
    "payload b p = payload (ibufs (net s)) p + n" "len b p = len (ibufs (net s)) p - n"
    "tot_len b p = tot_len (ibufs (net s)) p - n" "pb_type (pbufs b p) = pb_type (pbufs (ibufs (net s)) p)"
proof -
  obtain b where b: "pbuf_header p (- int n) (ibufs (net s)) = Some (0, b)" "packet b p (p # ps)"
    "data b (p # ps) = drop n (data (ibufs (net s)) (p # ps))" "bytes b = ibytes (net s)"
    "pbufs b = (pbufs (ibufs (net s)))(p := (pbufs (ibufs (net s)) p)\<lparr>pb_payload := payload (ibufs (net s)) p + n,
        pb_len := len (ibufs (net s)) p - n, pb_tot_len := tot_len (ibufs (net s)) p - n\<rparr>)"
    using pbuf_header_hide [OF assms] by blast
  show thesis
    using b pbuf_header_frame [OF b(1)] by (intro that [of b]) (simp_all add: net_bufs_def on_net_def on_bufs_def)
qed

text \<open>The parts of a datagram that \<^verbatim>\<open>udp_input\<close> reads, and the block it is for.\<close>

definition dg_hlen :: "addr \<Rightarrow> udp_state \<Rightarrow> nat" where
  "dg_hlen p s = IPH_HL (ibytes (net s)) (payload (ibufs (net s)) p) * 4"

definition dg_field :: "addr \<Rightarrow> nat \<Rightarrow> udp_state \<Rightarrow> u16_t" where
  "dg_field p i s = get_u16 (ibytes (net s)) (payload (ibufs (net s)) p + dg_hlen p s + i)"

definition dg_local :: "addr \<Rightarrow> addr \<Rightarrow> udp_state \<Rightarrow> struct_udp_pcb \<Rightarrow> bool" where
  "dg_local inp p s = local_match (ip4_addr_isbroadcast (current_iphdr_dest (net s)) (netifs (lower (net s)) inp))
     (nif_netmask (netifs (lower (net s)) inp)) (current_iphdr_dest (net s)) (lwip_ntohs (dg_field p 2 s))"

definition dg_remote :: "addr \<Rightarrow> udp_state \<Rightarrow> struct_udp_pcb \<Rightarrow> bool" where
  "dg_remote p s = remote_match (current_iphdr_src (net s)) (lwip_ntohs (dg_field p 0 s))"

definition dg_full :: "addr \<Rightarrow> addr \<Rightarrow> addr list \<Rightarrow> udp_state \<Rightarrow> addr" where
  "dg_full inp p xs s = find_or_NULL (\<lambda>x. dg_local inp p s (udp_mem s x) \<and> dg_remote p s (udp_mem s x)) xs"

definition dg_pcb :: "addr \<Rightarrow> addr \<Rightarrow> addr list \<Rightarrow> udp_state \<Rightarrow> addr" where
  "dg_pcb inp p xs s = (if dg_full inp p xs s \<noteq> NULL then dg_full inp p xs s
     else find_or_NULL (\<lambda>x. dg_local inp p s (udp_mem s x) \<and> unconnected (udp_mem s x)) xs)"

text \<open>The checksum is right: absent, or that of the pseudo header and the datagram.\<close>

definition dg_good :: "addr \<Rightarrow> addr list \<Rightarrow> udp_state \<Rightarrow> bool" where
  "dg_good p ps s \<longleftrightarrow> dg_field p 6 s = 0 \<or>
     inet_chksum 0 (pseudo_header (current_iphdr_src (net s)) (current_iphdr_dest (net s)) IP_PROTO_UDP
       (of_nat (tot_len (ibufs (net s)) p - dg_hlen p s)) @ drop (dg_hlen p s) (data (ibufs (net s)) ps)) = 0"

lemma udp_input_checked:
  assumes inv: "udp_inv sizes a s xs"
    and pk: "packet (ibufs (net s)) p (p # ps)" "0 < dg_hlen p s" "dg_hlen p s + 8 \<le> len (ibufs (net s)) p"
    and own: "pb_type (pbufs (ibufs (net s)) p) = PBUF_RAM \<or> pb_type (pbufs (ibufs (net s)) p) = PBUF_POOL \<Longrightarrow>
      p + SIZEOF_STRUCT_PBUF \<le> payload (ibufs (net s)) p"
    and pcb: "dg_pcb inp p xs s \<noteq> NULL"
  obtains s1 b where
    "Udp.udp_input cf out recv p inp s = (if \<not> dg_good p (p # ps) s then udp_drop cf p sp_chkerr_update s1
       else udp_hand_over cf out recv p (payload (ibufs (net s)) p) (dg_hlen p s)
         (ip4_addr_isbroadcast (current_iphdr_dest (net s)) (netifs (lower (net s)) inp)) (lwip_ntohs (dg_field p 0 s))
         (dg_pcb inp p xs s) s1)"
    "udp_inv sizes a s1 (to_front (dg_full inp p xs s) xs)" "net s1 = set_bufs b (net s)" "packet b p (p # ps)"
    "data b (p # ps) = drop (dg_hlen p s) (data (ibufs (net s)) (p # ps))" "len b p = len (ibufs (net s)) p - dg_hlen p s"
    "payload b p = payload (ibufs (net s)) p + dg_hlen p s" "pb_type (pbufs b p) = pb_type (pbufs (ibufs (net s)) p)"
    "\<And>x n. (udp_mem s1 x)\<lparr>u_next := n\<rparr> = (udp_mem s x)\<lparr>u_next := n\<rparr>"
proof -
  define h where "h = dg_hlen p s"
  define r where "r = UDP_STATS_INC sp_recv_update s"
  have r: "net r = net s" "udp_mem r = udp_mem s" "udp_pcbs r = udp_pcbs s" "udp_port r = udp_port s"
    by (simp_all add: r_def UDP_STATS_INC_def)
  have tot: "h + 8 \<le> tot_len (ibufs (net s)) p" using pk by (auto simp: packet_def h_def)
  obtain b where b: "net_bufs (pbuf_header p (- int h)) r = Some (0, r\<lparr>net := set_bufs b (net r)\<rparr>)"
    "packet b p (p # ps)" "data b (p # ps) = drop h (data (ibufs (net r)) (p # ps))"
    "bytes b = ibytes (net r)" "pools b = pools (ibufs (net r))"
    "payload b p = payload (ibufs (net r)) p + h" "len b p = len (ibufs (net r)) p - h"
    "tot_len b p = tot_len (ibufs (net r)) p - h" "pb_type (pbufs b p) = pb_type (pbufs (ibufs (net r)) p)"
    by (rule net_header_hide [of r p ps h]) (use pk own in \<open>simp_all add: r h_def\<close>)
  define t where "t = r\<lparr>net := set_bufs b (net s)\<rparr>"
  have t: "lower (net t) = (lower (net s))\<lparr>bufs := b\<rparr>" "current_iphdr_dest (net t) = current_iphdr_dest (net s)"
    "current_iphdr_src (net t) = current_iphdr_src (net s)" "udp_mem t = udp_mem s" "udp_pcbs t = udp_pcbs s"
    by (simp_all add: t_def set_bufs_def r)
  have invt: "udp_inv sizes a t xs"
    by (rule udp_inv_same [OF inv]) (simp_all add: t_def r set_bufs_def b(5))
  obtain s1 where s1: "demux_loop (dg_local inp p s) (dg_remote p s) NULL (udp_pcbs t) NULL t = Some (dg_pcb inp p xs s, s1)"
    "udp_inv sizes a s1 (to_front (dg_full inp p xs s) xs)" "net s1 = net t"
    "\<And>x n. (udp_mem s1 x)\<lparr>u_next := n\<rparr> = (udp_mem s x)\<lparr>u_next := n\<rparr>"
    using demux_spec [OF invt, of "dg_local inp p s" "dg_remote p s"] unfolding dg_pcb_def dg_full_def t(4) by blast
  have fields: "get_u16 b' (payload b p + i) = dg_field p i s" if "b' = ibytes (net s)" for b' i
    using that b(6) r by (simp add: dg_field_def h_def)
  have chk: "inet_chksum_pseudo p (current_iphdr_src (net s)) (current_iphdr_dest (net s)) IP_PROTO_UDP
      (of_nat (tot_len b p)) b = Some (inet_chksum 0 (pseudo_header (current_iphdr_src (net s)) (current_iphdr_dest (net s)) IP_PROTO_UDP
       (of_nat (tot_len (ibufs (net s)) p - h)) @ drop h (data (ibufs (net s)) (p # ps))))"
    using inet_chksum_pseudo_packet [OF b(2)] b(3,8) by (simp add: r)
  have lm: "local_match (ip4_addr_isbroadcast (current_iphdr_dest (net s)) (netifs (lower (net s)) inp))
      (nif_netmask (netifs (lower (net s)) inp)) (current_iphdr_dest (net s)) (lwip_ntohs (dg_field p 2 s)) = dg_local inp p s"
    "remote_match (current_iphdr_src (net s)) (lwip_ntohs (dg_field p 0 s)) = dg_remote p s"
    by (simp_all add: dg_local_def dg_remote_def)
  have run: "Udp.udp_input cf out recv p inp s = (if \<not> dg_good p (p # ps) s then udp_drop cf p sp_chkerr_update s1
       else udp_hand_over cf out recv p (payload (ibufs (net s)) p) h
         (ip4_addr_isbroadcast (current_iphdr_dest (net s)) (netifs (lower (net s)) inp)) (lwip_ntohs (dg_field p 0 s))
         (dg_pcb inp p xs s) s1)"
  proof -
    have nets: "lower (net s1) = (lower (net s))\<lparr>bufs := b\<rparr>" "current_iphdr_dest (net s1) = current_iphdr_dest (net s)"
      "current_iphdr_src (net s1) = current_iphdr_src (net s)" using s1(3) t by simp_all
    have f0: "get_u16 (ibytes (net s)) (payload b p) = dg_field p 0 s" using fields [of "ibytes (net s)" 0] by simp
    have f2: "get_u16 (ibytes (net s)) (Suc (Suc (payload b p))) = dg_field p 2 s"
      using fields [of "ibytes (net s)" 2] by simp
    have hl: "IPH_HL (ibytes (net s)) (payload (ibufs (net s)) p) * 4 = h" by (simp add: h_def dg_hlen_def)
    have short: "\<not> tot_len (ibufs (net s)) p < h + 8" using tot by simp
    have by4: "bytes b = ibytes (net s)" using b(4) r by simp
    show ?thesis
      unfolding Udp.udp_input_def Let_def r_def [symmetric] r(1) hl
      using short pcb b(1) s1(1)
      by (simp add: t_def [symmetric] r(1) t nets f0 f2 fields [OF refl] by4 lm chk dg_good_def h_def [symmetric])
  qed
  show thesis
    by (rule that [OF run [unfolded h_def] s1(2), of b]) (use s1(3,4) b r in \<open>simp_all add: t_def h_def\<close>)
qed

section \<open>Sequences of operations\<close>

datatype udp_op =
  New | Bind addr u32_t u16_t | Connect addr u32_t u16_t | Disconnect addr | Set_recv addr nat addr | Remove addr

fun udp_do :: "udp_op \<Rightarrow> udp_state \<Rightarrow> udp_state option" where
  "udp_do New s = map_option snd (udp_new s)"
| "udp_do (Bind pcb ip port) s = map_option snd (udp_bind pcb ip port s)"
| "udp_do (Connect pcb ip port) s = map_option snd (udp_connect pcb ip port s)"
| "udp_do (Disconnect pcb) s = Some (udp_disconnect pcb s)"
| "udp_do (Set_recv pcb f arg) s = Some (udp_recv pcb f arg s)"
| "udp_do (Remove pcb) s = udp_remove pcb s"

text \<open>The operation names a block that is handed out.\<close>

fun udp_ready :: "(memp_t \<Rightarrow> nat) \<Rightarrow> addr \<Rightarrow> udp_op \<Rightarrow> udp_state \<Rightarrow> bool" where
  "udp_ready sizes a New s \<longleftrightarrow> True"
| "udp_ready sizes a (Bind pcb ip port) s \<longleftrightarrow> pcb \<in> udp_live sizes a s"
| "udp_ready sizes a (Connect pcb ip port) s \<longleftrightarrow> pcb \<in> udp_live sizes a s"
| "udp_ready sizes a (Disconnect pcb) s \<longleftrightarrow> pcb \<in> udp_live sizes a s"
| "udp_ready sizes a (Set_recv pcb f arg) s \<longleftrightarrow> pcb \<in> udp_live sizes a s"
| "udp_ready sizes a (Remove pcb) s \<longleftrightarrow> pcb \<in> udp_live sizes a s"

inductive udp_runs :: "(memp_t \<Rightarrow> nat) \<Rightarrow> addr \<Rightarrow> udp_state \<Rightarrow> udp_state \<Rightarrow> bool" for sizes a s where
  start: "udp_runs sizes a s s"
| step: "udp_runs sizes a s t \<Longrightarrow> udp_ready sizes a op t \<Longrightarrow> udp_do op t = Some t' \<Longrightarrow> udp_runs sizes a s t'"

lemma udp_do_keeps:
  assumes inv: "udp_inv sizes a s xs" and "udp_ready sizes a op s"
  shows "\<exists>s' xs'. udp_do op s = Some s' \<and> udp_inv sizes a s' xs'"
proof (cases op)
  case New
  obtain pcb s' where "udp_new s = Some (pcb, s')" "udp_inv sizes a s' xs" using udp_new_spec [OF inv] by blast
  then show ?thesis using New by auto
next
  case (Bind pcb ip port)
  then have live: "pcb \<in> udp_live sizes a s" using assms(2) by simp
  show ?thesis
    using udp_bind_spec [OF inv live, of ip port] inv Bind
    by (cases "clashes s xs pcb ip port") (simp, blast, simp, blast)
next
  case (Connect pcb ip port)
  then have live: "pcb \<in> udp_live sizes a s" using assms(2) by simp
  obtain s' where "udp_connect pcb ip port s = Some (ERR_OK, s')" "udp_inv sizes a s' (if pcb \<in> set xs then xs else pcb # xs)"
    using udp_connect_spec [OF inv live, of ip port] by blast
  then show ?thesis using Connect by auto
next
  case (Disconnect pcb)
  have "udp_inv sizes a (udp_disconnect pcb s) xs" unfolding udp_disconnect_def by (rule udp_inv_update [OF inv]) simp_all
  then show ?thesis using Disconnect by auto
next
  case (Set_recv pcb f arg)
  have "udp_inv sizes a (udp_recv pcb f arg s) xs" unfolding udp_recv_def by (rule udp_inv_update [OF inv]) simp_all
  then show ?thesis using Set_recv by auto
next
  case (Remove pcb)
  then have live: "pcb \<in> udp_live sizes a s" using assms(2) by simp
  show ?thesis using udp_remove_spec [OF inv live] Remove by auto
qed

lemma udp_runs_inv: "udp_runs sizes a s s' \<Longrightarrow> \<exists>xs. udp_inv sizes a s xs \<Longrightarrow> \<exists>xs. udp_inv sizes a s' xs"
proof (induction rule: udp_runs.induct)
  case (step t op t')
  then obtain xs where "udp_inv sizes a t xs" by blast
  from udp_do_keeps [OF this step.hyps(2)] step.hyps(3) show ?case by auto
qed

section \<open>States for the witnesses\<close>

text \<open>One datagram from 192.168.0.9, port 1000, to 192.168.0.1, port 7, without checksum, in the pbuf at 100.\<close>

definition dg0 :: "u8_t list" where
  "dg0 = ip_header 0 30 5 0 64 17 0x0900a8c0 0x0100a8c0 @ [3, 0xe8, 0, 7, 0, 10, 0, 0] @ [42, 43]"

definition udp0 :: udp_state where
  "udp0 = \<lparr>net = (ip0 dg0)\<lparr>current_iphdr_src := 0x0900a8c0, current_iphdr_dest := 0x0100a8c0\<rparr>, udp_pcbs = NULL,
     udp_mem = (\<lambda>_. zero_pcb), udp_port = 0xc000, udp_stats = stats0\<rparr>"

lemma udp0_inv: "udp_inv sizes0 4 udp0 []"
  using pools0_inv pools0_live [of MEMP_UDP_PCB]
  by (simp add: udp_inv_def udp0_def ip0_def arp1_def bufs0_def ex0_def)

text \<open>The same with the block \<open>pcb\<close> bound to port 7 of any address, its receiver registered.\<close>

definition udp1 :: "addr \<Rightarrow> memp_state \<Rightarrow> udp_state" where
  "udp1 pcb m = udp0\<lparr>net := set_bufs ((ibufs (net udp0))\<lparr>pools := m\<rparr>) (net udp0), udp_pcbs := pcb,
     udp_mem := (\<lambda>_. zero_pcb)(pcb := zero_pcb\<lparr>u_local_port := 7, u_recv := 1\<rparr>)\<rparr>"

lemma udp1_exists: "\<exists>pcb m. udp_inv sizes0 4 (udp1 pcb m) [pcb] \<and> pcb \<noteq> NULL"
proof -
  have t: "MEMP_UDP_PCB < MEMP_MAX" by simp
  have "rev (pool_elems sizes0 4 MEMP_UDP_PCB) \<noteq> []" by (simp add: pool_elems_def memp_num_def)
  then obtain x zs where x: "rev (pool_elems sizes0 4 MEMP_UDP_PCB) = x # zs" by (meson neq_Nil_conv)
  obtain m where m: "memp_malloc MEMP_UDP_PCB pools0 = Some (x, m)"
    using memp_malloc_pop [OF pools0_rep t x] by blast
  have "x \<in> set (pool_elems sizes0 4 MEMP_UDP_PCB)" using x by (metis list.set_intros(1) set_rev)
  then have nn: "x \<noteq> NULL" using pool_elems_aligned [OF sizes0_ok _ _ t, of 4 x] by simp
  have "memp_inv sizes0 4 m \<and> memp_live sizes0 4 MEMP_UDP_PCB m = {x}"
    using pools0_inv t
  proof (cases rule: memp_malloc_live)
    case (2 q m')
    then show ?thesis using m pools0_live [OF t] by simp
  qed (use m nn in simp)
  then have "udp_inv sizes0 4 (udp1 x m) [x]"
    using nn by (simp add: udp_inv_def udp1_def udp0_def zero_pcb_def set_bufs_def)
  then show ?thesis using nn by blast
qed

lemma dg0_nth: "dg0 ! 0 = 0x45" "dg0 ! 20 = 3" "dg0 ! 21 = 0xe8" "dg0 ! 22 = 0" "dg0 ! 23 = 7" "dg0 ! 26 = 0" "dg0 ! 27 = 0" "length dg0 = 30"
  by (simp_all add: dg0_def nth_append) (simp add: ip_header_def ip_hdr_bytes_def)

lemma udp1_facts:
  "payload (ibufs (net (udp1 pcb m))) 100 = 200" "len (ibufs (net (udp1 pcb m))) 100 = 30"
  "ibytes (net (udp1 pcb m)) (200 + i) = (if i < 30 then dg0 ! i else 0)" "pb_type (pbufs (ibufs (net (udp1 pcb m))) 100) = PBUF_RAM"
  "packet (ibufs (net (udp1 pcb m))) 100 [100]" "data (ibufs (net (udp1 pcb m))) [100] = dg0"
  "udp_mem (udp1 pcb m) pcb = zero_pcb\<lparr>u_local_port := 7, u_recv := 1\<rparr>" "netifs (lower (net (udp1 pcb m))) = (\<lambda>_. nif0)"
  "current_iphdr_src (net (udp1 pcb m)) = 0x0900a8c0" "current_iphdr_dest (net (udp1 pcb m)) = 0x0100a8c0"
  using bufs0_data [of dg0] bufs0_packet [of dg0]
  by (simp_all add: udp1_def udp0_def ip0_simps set_bufs_def pdata_def packet_def dg0_nth)
    (simp_all add: ip0_def arp1_def bufs0_def pb0_def dg0_nth)

section \<open>Claims\<close>

text \<open>
  C14. The list of UDP blocks stays sound under every sequence of \<^verbatim>\<open>udp_new\<close>, \<^verbatim>\<open>udp_bind\<close>, \<^verbatim>\<open>udp_connect\<close>, \<^verbatim>\<open>udp_disconnect\<close>, \<^verbatim>\<open>udp_recv\<close> and \<^verbatim>\<open>udp_remove\<close>
  on blocks that are handed out: it ends, it holds handed-out blocks only, each is bound to a port, and no two of
  them are bound to the same port with the same address or one of them to any address. And no such operation aborts or runs
  forever.
\<close>

theorem udp_bindings_invariant:
  assumes "udp_inv sizes a s xs" "udp_runs sizes a s s'"
  shows "\<exists>xs'. udp_inv sizes a s' xs' \<and> (\<forall>op. udp_ready sizes a op s' \<longrightarrow> udp_do op s' \<noteq> None)"
proof -
  obtain xs' where xs': "udp_inv sizes a s' xs'" using udp_runs_inv [OF assms(2)] assms(1) by blast
  then show ?thesis using udp_do_keeps [OF xs'] by fastforce
qed

theorem udp_bindings_invariant_witness:
  "\<exists>s' xs'. udp_do New udp0 = Some s' \<and> udp_inv sizes0 4 s' xs' \<and> (\<forall>op. udp_ready sizes0 4 op s' \<longrightarrow> udp_do op s' \<noteq> None)"
proof -
  obtain s' where s': "udp_do New udp0 = Some s'" using udp_do_keeps [OF udp0_inv, of New] by auto
  have "udp_runs sizes0 4 udp0 s'" by (rule udp_runs.step [OF udp_runs.start _ s']) simp
  from udp_bindings_invariant [OF udp0_inv this] s' show ?thesis by blast
qed

text \<open>
  C26. \<^verbatim>\<open>udp_bind\<close> refuses a port exactly when another block in the list has it with the same address or one of the two is bound to any
  address, and then changes nothing; otherwise it succeeds: the block gets the address and the port, or an automatic port that no
  block has, and enters the list if it was not there; no other block changes.
\<close>

theorem udp_bind_exact:
  assumes "udp_inv sizes a s xs" "pcb \<in> udp_live sizes a s"
  shows "if \<exists>x\<in>set xs. x \<noteq> pcb \<and> u_local_port (udp_mem s x) = port
           \<and> (u_local_ip (udp_mem s x) = 0 \<or> ip = 0 \<or> u_local_ip (udp_mem s x) = ip)
    then udp_bind pcb ip port s = Some (ERR_USE, s)
    else \<exists>port' s'. udp_bind pcb ip port s = Some (ERR_OK, s') \<and> udp_inv sizes a s' (if pcb \<in> set xs then xs else pcb # xs)
      \<and> (if port = 0 then 0xc000 \<le> port' \<and> (\<forall>x\<in>set xs. u_local_port (udp_mem s x) \<noteq> port') else port' = port)
      \<and> u_local_ip (udp_mem s' pcb) = ip \<and> u_local_port (udp_mem s' pcb) = port'
      \<and> net s' = net s \<and> (\<forall>x. x \<noteq> pcb \<longrightarrow> udp_mem s' x = udp_mem s x)"
proof (cases "clashes s xs pcb ip port")
  case True
  moreover from this have "\<exists>x\<in>set xs. x \<noteq> pcb \<and> u_local_port (udp_mem s x) = port
      \<and> (u_local_ip (udp_mem s x) = 0 \<or> ip = 0 \<or> u_local_ip (udp_mem s x) = ip)"
    unfolding clashes_def clash_def by simp
  ultimately show ?thesis using udp_bind_spec [OF assms, of ip port] by (simp only: if_True)
next
  case False
  moreover from this have "\<not> (\<exists>x\<in>set xs. x \<noteq> pcb \<and> u_local_port (udp_mem s x) = port
      \<and> (u_local_ip (udp_mem s x) = 0 \<or> ip = 0 \<or> u_local_ip (udp_mem s x) = ip))"
    unfolding clashes_def clash_def by simp
  moreover have "\<not> port_taken s xs q \<longleftrightarrow> (\<forall>x\<in>set xs. u_local_port (udp_mem s x) \<noteq> q)" for q
    by (auto simp: port_taken_def)
  ultimately show ?thesis using udp_bind_spec [OF assms, of ip port] by (simp only: if_False)
qed

theorem udp_bind_exact_witness:
  "\<exists>pcb m s'. pcb \<noteq> NULL \<and> udp_bind pcb 0 9 (udp1 pcb m) = Some (ERR_OK, s') \<and> u_local_port (udp_mem s' pcb) = 9"
proof -
  obtain pcb m where inv: "udp_inv sizes0 4 (udp1 pcb m) [pcb]" "pcb \<noteq> NULL" using udp1_exists by blast
  have "pcb \<in> udp_live sizes0 4 (udp1 pcb m)" using udp_invD(6) [OF inv(1)] by simp
  from udp_bind_exact [OF inv(1) this, of 9 0] inv(2) show ?thesis by auto
qed

text \<open>
  C25. The search for an automatic port ends, also when its counter wraps from 65535 to 49152: when some port from 49152 up is free it returns
  one that no block is bound to, and it returns 0 only when every one of the 16384 ports is taken.
\<close>

theorem udp_new_port_ends:
  assumes "chain (\<lambda>x. u_next (udp_mem s x)) (udp_pcbs s) xs" "0xc000 \<le> udp_port s"
  shows "if \<forall>port \<ge> 0xc000. \<exists>x\<in>set xs. u_local_port (udp_mem s x) = port
    then \<exists>q. udp_new_port s = Some (0, s\<lparr>udp_port := q\<rparr>) \<and> 0xc000 \<le> q
    else \<exists>port. udp_new_port s = Some (port, s\<lparr>udp_port := port\<rparr>) \<and> 0xc000 \<le> port
      \<and> (\<forall>x\<in>set xs. u_local_port (udp_mem s x) \<noteq> port)"
proof -
  have "\<not> (\<exists>x\<in>set xs. u_local_port (udp_mem s x) = q) \<longleftrightarrow> (\<forall>x\<in>set xs. u_local_port (udp_mem s x) \<noteq> q)" for q by blast
  then show ?thesis using udp_new_port_spec [OF assms] unfolding port_taken_def by (simp only:)
qed

theorem udp_new_port_ends_witness:
  "\<exists>port. udp_new_port (udp0\<lparr>udp_port := 0xffff\<rparr>) = Some (port, udp0\<lparr>udp_port := port\<rparr>) \<and> 0xc000 \<le> port"
proof -
  have "\<not> (\<forall>port \<ge> (0xc000 :: u16_t). \<exists>x\<in>set []. u_local_port (udp_mem (udp0\<lparr>udp_port := 0xffff\<rparr>) x) = port)"
    by (auto intro!: exI [of _ "0xc000"])
  moreover have "chain (\<lambda>x. u_next (udp_mem (udp0\<lparr>udp_port := 0xffff\<rparr>) x)) (udp_pcbs (udp0\<lparr>udp_port := 0xffff\<rparr>)) []"
      "0xc000 \<le> udp_port (udp0\<lparr>udp_port := 0xffff\<rparr>)"
    by (simp_all add: udp0_def)
  ultimately have found: "\<exists>port. udp_new_port (udp0\<lparr>udp_port := 0xffff\<rparr>)
      = Some (port, (udp0\<lparr>udp_port := 0xffff\<rparr>)\<lparr>udp_port := port\<rparr>) \<and> 0xc000 \<le> port
      \<and> (\<forall>x\<in>set []. u_local_port (udp_mem (udp0\<lparr>udp_port := 0xffff\<rparr>) x) \<noteq> port)"
    using udp_new_port_ends [of "udp0\<lparr>udp_port := 0xffff\<rparr>" "[]"] by (simp only: if_False)
  then show ?thesis by auto
qed

text \<open>
  C13. A datagram that some block wants, with its headers in the first pbuf, goes to the right receiver: \<^verbatim>\<open>udp_input\<close> picks the first block that matches both
  ends, else the first unconnected one that matches the local end; a wrong checksum drops the datagram and counts it; otherwise the block's
  receive function is called once with the sender's address and port and with a packet that holds exactly the data behind the UDP header. A
  full match moves to the front of the list, which stays sound.
\<close>

theorem udp_input_delivers:
  assumes inv: "udp_inv sizes a s xs"
    and pk: "packet (ibufs (net s)) p (p # ps)" "0 < dg_hlen p s" "dg_hlen p s + 8 \<le> len (ibufs (net s)) p"
    and own: "pb_type (pbufs (ibufs (net s)) p) = PBUF_RAM \<or> pb_type (pbufs (ibufs (net s)) p) = PBUF_POOL \<Longrightarrow>
      p + SIZEOF_STRUCT_PBUF \<le> payload (ibufs (net s)) p"
    and pcb: "dg_pcb inp p xs s \<noteq> NULL" "u_recv (udp_mem s (dg_pcb inp p xs s)) \<noteq> NULL"
  shows "\<exists>s'. Udp.udp_input cf out recv p inp s =
      (if \<not> dg_good p (p # ps) s then udp_drop cf p sp_chkerr_update s'
       else recv (u_recv (udp_mem s (dg_pcb inp p xs s))) (u_recv_arg (udp_mem s (dg_pcb inp p xs s))) (dg_pcb inp p xs s) p
         (current_iphdr_src (net s)) (lwip_ntohs (dg_field p 0 s)) s')
    \<and> udp_inv sizes a s' (to_front (dg_full inp p xs s) xs) \<and> packet (ibufs (net s')) p (p # ps)
    \<and> (dg_good p (p # ps) s \<longrightarrow> data (ibufs (net s')) (p # ps) = drop (dg_hlen p s + 8) (data (ibufs (net s)) (p # ps)))"
proof -
  obtain s1 b where s1: "Udp.udp_input cf out recv p inp s = (if \<not> dg_good p (p # ps) s then udp_drop cf p sp_chkerr_update s1
       else udp_hand_over cf out recv p (payload (ibufs (net s)) p) (dg_hlen p s)
         (ip4_addr_isbroadcast (current_iphdr_dest (net s)) (netifs (lower (net s)) inp)) (lwip_ntohs (dg_field p 0 s))
         (dg_pcb inp p xs s) s1)"
    "udp_inv sizes a s1 (to_front (dg_full inp p xs s) xs)" "net s1 = set_bufs b (net s)" "packet b p (p # ps)"
    "data b (p # ps) = drop (dg_hlen p s) (data (ibufs (net s)) (p # ps))" "len b p = len (ibufs (net s)) p - dg_hlen p s"
    "payload b p = payload (ibufs (net s)) p + dg_hlen p s" "pb_type (pbufs b p) = pb_type (pbufs (ibufs (net s)) p)"
    "\<And>x n. (udp_mem s1 x)\<lparr>u_next := n\<rparr> = (udp_mem s x)\<lparr>u_next := n\<rparr>"
    using udp_input_checked [OF inv pk own pcb(1), of cf out recv] by metis
  have ib: "ibufs (net s1) = b" by (simp add: s1(3) set_bufs_def)
  show ?thesis
  proof (cases "dg_good p (p # ps) s")
    case False
    then show ?thesis using s1(1,2,4) ib by (intro exI [of _ s1]) simp
  next
    case True
    obtain b2 where b2: "net_bufs (pbuf_header p (- int 8)) s1 = Some (0, s1\<lparr>net := set_bufs b2 (net s1)\<rparr>)"
      "packet b2 p (p # ps)" "data b2 (p # ps) = drop 8 (data b (p # ps))" "pools b2 = pools b"
      by (rule net_header_hide [of s1 p ps 8]) (use s1(4,6-8) pk(3) own in \<open>auto simp: ib\<close>)
    define s2 where "s2 = s1\<lparr>net := set_bufs b2 (net s1)\<rparr>"
    have same: "u_recv (udp_mem s1 x) = u_recv (udp_mem s x)" "u_recv_arg (udp_mem s1 x) = u_recv_arg (udp_mem s x)" for x
      using s1(9) [where n = 0 and x = x] by (metis struct_udp_pcb.select_convs struct_udp_pcb.surjective struct_udp_pcb.update_convs)+
    have inv2: "udp_inv sizes a s2 (to_front (dg_full inp p xs s) xs)"
      by (rule udp_inv_same [OF s1(2)]) (simp_all add: s2_def set_bufs_def b2(4) ib)
    have "Udp.udp_input cf out recv p inp s = recv (u_recv (udp_mem s (dg_pcb inp p xs s))) (u_recv_arg (udp_mem s (dg_pcb inp p xs s)))
        (dg_pcb inp p xs s) p (current_iphdr_src (net s)) (lwip_ntohs (dg_field p 0 s)) s2"
      using s1(1) True b2(1) pcb same by (simp add: udp_hand_over_def s2_def s1(3) set_bufs_def)
    moreover have "data b2 (p # ps) = drop (dg_hlen p s + 8) (data (ibufs (net s)) (p # ps))"
      unfolding b2(3) s1(5) drop_drop by (simp only: add.commute)
    moreover have "ibufs (net s2) = b2" by (simp add: s2_def set_bufs_def)
    ultimately show ?thesis using True inv2 b2(2) by (intro exI [of _ s2]) simp
  qed
qed

theorem udp_input_delivers_witness:
  "\<exists>pcb m s'. Udp.udp_input (\<lambda>_ _. None) (\<lambda>_ _ _ s. Some (ERR_OK, s)) (\<lambda>f arg x p src port s. Some (s\<lparr>udp_port := port\<rparr>)) 100 1 (udp1 pcb m)
      = Some s' \<and> udp_port s' = 1000 \<and> data (ibufs (net s')) [100] = [42, 43]"
proof -
  obtain pcb m where inv: "udp_inv sizes0 4 (udp1 pcb m) [pcb]" and pcb: "pcb \<noteq> NULL" using udp1_exists by blast
  let ?s = "udp1 pcb m"
  note f = udp1_facts [of pcb m]
  have at: "ibytes (net ?s) 200 = 0x45" "ibytes (net ?s) 220 = 3" "ibytes (net ?s) 221 = 0xe8" "ibytes (net ?s) 222 = 0"
      "ibytes (net ?s) 223 = 7" "ibytes (net ?s) 226 = 0" "ibytes (net ?s) 227 = 0"
    using f(3) [of 0] f(3) [of 20] f(3) [of 21] f(3) [of 22] f(3) [of 23] f(3) [of 26] f(3) [of 27] by (simp_all add: dg0_nth)
  have hlen: "dg_hlen 100 ?s = 20" by (simp add: dg_hlen_def f(1) IPH_HL_def at)
  have dg: "dg_hlen 100 ?s = 20" "dg_field 100 0 ?s = 0xe803" "dg_field 100 2 ?s = 0x0700" "dg_field 100 6 ?s = 0"
    by (simp_all add: dg_field_def hlen f(1) get_u16_def at)
  have full: "dg_full 1 100 [pcb] ?s = NULL" and match: "dg_pcb 1 100 [pcb] ?s = pcb"
    by (simp_all add: dg_pcb_def dg_full_def find_or_NULL_def dg_local_def dg_remote_def local_match_def remote_match_def unconnected_def
        dg f lwip_ntohs_def lwip_htons_def zero_pcb_def nif0_def ip4_addr_isbroadcast_def)
  have good: "dg_good 100 [100] ?s" by (simp add: dg_good_def dg)
  from udp_input_delivers [OF inv, of 100 "[]" 1 "\<lambda>_ _. None" "\<lambda>_ _ _ s. Some (ERR_OK, s)" "\<lambda>f arg x p src port s. Some (s\<lparr>udp_port := port\<rparr>)"]
  obtain s' where s': "Udp.udp_input (\<lambda>_ _. None) (\<lambda>_ _ _ s. Some (ERR_OK, s)) (\<lambda>f arg x p src port s. Some (s\<lparr>udp_port := port\<rparr>)) 100 1 ?s
      = Some (s'\<lparr>udp_port := lwip_ntohs 0xe803\<rparr>)" "data (ibufs (net s')) [100] = drop 28 dg0"
    using good match pcb f(6) by (auto simp: dg f(1-5,7-))
  have "lwip_ntohs 0xe803 = 1000" by (simp add: lwip_ntohs_def lwip_htons_def)
  moreover have "drop 28 dg0 = [42, 43]" by (simp add: dg0_def)
  ultimately show ?thesis using s' by (intro exI [of _ pcb] exI [of _ m]) simp
qed

end
