(* ===== verification/Spec2Isabelle.thy ===== *)
theory Spec2Isabelle
  imports Fsm Asn1_Claims Ethernet_Claims Ip_Reass_Claims Netif_Claims Slipif_Claims Chap_Claims Udp_Claims
begin

text \<open>
  A verification of the lwIP TCP/IP stack, version 1.4.1, as this repository configures and builds it
  (\<^verbatim>\<open>src/lwip-1.4.1/src\<close> with the options of \<^verbatim>\<open>cwrap\<close>: \<^verbatim>\<open>NO_SYS\<close>, a heap of 16000 bytes, 4-byte alignment,
  a little-endian host with 64-bit pointers, statistics on, and \<^verbatim>\<open>LWIP_ASSERT\<close> and \<^verbatim>\<open>LWIP_ERROR\<close> that abort).

  \<^bold>\<open>The parts and how they interact.\<close> The heap (\<^verbatim>\<open>core/mem.c\<close>) and the pools (\<^verbatim>\<open>core/memp.c\<close>) hand out
  memory. Packets are chains of pbufs (\<^verbatim>\<open>core/pbuf.c\<close>), allocated from both and counted by references.
  The Internet checksum (\<^verbatim>\<open>core/ipv4/inet_chksum.c\<close>) sums bytes and chains of pbufs, using the byte order
  conversions of \<^verbatim>\<open>core/def.c\<close>. Timeouts (\<^verbatim>\<open>core/timers.c\<close>) are a list of pool elements; the automaton of the PPP
  control protocols (\<^verbatim>\<open>netif/ppp/fsm.c\<close>) sets and cancels them. Addresses are tested, parsed and printed by
  \<^verbatim>\<open>core/ipv4/ip_addr.c\<close>. Address resolution (\<^verbatim>\<open>netif/etharp.c\<close>) keeps a table of addresses, holds back
  packets until their destination is known, and answers requests. \<^verbatim>\<open>ethernet_input\<close> hands received frames to it or to IP (\<^verbatim>\<open>core/ipv4/ip.c\<close>),
  which checks, reassembles (\<^verbatim>\<open>core/ipv4/ip_frag.c\<close>) and delivers packets; ICMP (\<^verbatim>\<open>core/ipv4/icmp.c\<close>) answers echo requests and reports errors through
  \<^verbatim>\<open>ip_output_if\<close>, which writes the header, fragments what is too long and calls \<^verbatim>\<open>netif->output\<close>, that is \<^verbatim>\<open>etharp_output\<close>.
  Interfaces are added, configured and removed by \<^verbatim>\<open>core/netif.c\<close>, which announces an address through address resolution and cleans its table.
  UDP (\<^verbatim>\<open>core/udp.c\<close>) keeps a list of control blocks from a pool, hands received datagrams to one of them and sends through \<^verbatim>\<open>ip_output_if\<close>. SLIP
  (\<^verbatim>\<open>netif/slipif.c\<close>) carries packets over a serial line. Of PPP, the challenge handshake (\<^verbatim>\<open>netif/ppp/chap.c\<close>) uses the timers, the hash of
  \<^verbatim>\<open>md5.c\<close> and the random numbers of \<^verbatim>\<open>randm.c\<close>. The
  ASN.1 coding of SNMP (\<^verbatim>\<open>core/snmp/asn1_enc.c\<close>, \<^verbatim>\<open>asn1_dec.c\<close>) reads and writes values in chains of pbufs.

  \<^bold>\<open>Modelling.\<close> A struct is a record, a pointer an address (a natural number, 0 for \<^verbatim>\<open>NULL\<close>), memory
  a function from addresses. State is passed explicitly. A failed assertion, a null pointer
  followed and a loop that does not end are \<open>None\<close>, so a theorem with \<open>Some\<close> in its conclusion says that the
  code returns and aborts nowhere. Words are used where the code works on bits; elsewhere
  numbers are naturals, cut to the width of the C type at each assignment (\<open>to_u8\<close>, \<open>to_u16\<close>, \<open>to_u32\<close>). Function pointers,
  and with them the driver, the handlers of timeouts, the callbacks of the protocols over the automaton and the free
  function of custom pbufs, are parameters.

  \<^bold>\<open>The theories.\<close>
    \<^item> \<open>Lwip_Prelude\<close>: types, widths, collections of rewrite rules, facts on words and lists.
      \<open>Linked_List\<close>: chains through a \<^verbatim>\<open>next\<close> field. \<open>Option_Wp\<close>: a calculus for code that may abort.
    \<^item> \<open>Byte_Order\<close>: \<^verbatim>\<open>def.c\<close>. Conversions are involutions and put the most significant byte first.
    \<^item> \<open>Inet_Chksum\<close>, \<open>Inet_Chksum_Pbuf\<close>: the three summation routines agree (the first within its 16-bit length); a stored checksum verifies, a changed byte
      is noticed; the sum over a chain, and with a pseudo header, is the sum over the data.
    \<^item> \<open>Allocator\<close>: the contract of an allocator as a locale, with the theorem that no workload gets stuck;
      heap and pools are interpretations of it.
    \<^item> \<open>Mem\<close>: \<^verbatim>\<open>mem_init\<close>, \<^verbatim>\<open>mem_malloc\<close>, \<^verbatim>\<open>mem_free\<close>, \<^verbatim>\<open>mem_trim\<close>, \<^verbatim>\<open>mem_calloc\<close> on the doubly linked blocks in the heap
      array. They refine first-fit allocation on a list of blocks.
    \<^item> \<open>Memp\<close>: the pools as free lists, carved at initialisation; \<^verbatim>\<open>memp_sanity\<close>.
    \<^item> \<open>Pbuf\<close>: every operation of \<^verbatim>\<open>pbuf.c\<close> but the one that walks the TCP control blocks. Copying, taking, concatenating and
      hiding headers are described by the bytes of the packet; allocation and freeing by the memory
      owned. \<open>Pbuf_Refs\<close>: the contract of reference counting as a locale; counts are exact.
    \<^item> \<open>Netif_Data\<close>, \<open>Ip_Addr\<close>: the struct of an interface; \<^verbatim>\<open>ip_addr.c\<close>. Printing and parsing are inverse, the buffer is
      not overrun, netmasks are ones before zeros.
    \<^item> \<open>Timers\<close>: \<^verbatim>\<open>sys_timeout\<close>, \<^verbatim>\<open>sys_untimeout\<close>, \<^verbatim>\<open>sys_check_timeouts\<close>, a refinement of a list of deadlines (locale
      \<open>timer_queue\<close>); handlers may set and cancel timers, their own too (\<open>handlers_do\<close>). \<open>Fsm\<close>: \<^verbatim>\<open>fsm.c\<close>; no sequence of events makes the
      automaton abort or wait without a timer, it gives up on a silent peer, and drops malformed packets. Its callbacks may call the automaton
      again as long as they keep its invariant (\<open>orderly_callbacks\<close>); only those that build options leave it alone (\<open>quiet_options\<close>).
    \<^item> \<open>Etharp\<close>: \<^verbatim>\<open>etharp.c\<close> but \<^verbatim>\<open>ethernet_input\<close>, with \<^verbatim>\<open>ip_route\<close> of \<^verbatim>\<open>ip.c\<close>. \<open>Etharp_Table\<close>, \<open>Etharp_Props\<close>: the search and the
      timer as functions of the table, the invariant kept by each operation, the references the queues own.
      \<open>Etharp_Claims\<close>: the invariant over all sequences of calls, the choice of the entry to recycle, updates and
      look-ups, ageing, the answer to a request.
    \<^item> \<open>Ip_Data\<close>, \<open>Ip_Output\<close>, \<open>Icmp\<close>, \<open>Ip_Reass\<close>, \<open>Ip_Input\<close>, \<open>Ethernet\<close>: the IP layer as it is written, one state \<open>ip_state\<close> over that of the link
      layer. \<open>Ip_Output_Props\<close>, \<open>Icmp_Props\<close>, \<open>Ip_Input_Props\<close>: headers as lists of bytes, the running checksum, replies in place.
      \<open>Ip_Claims\<close>, \<open>Ethernet_Claims\<close>: what is sent; an echo request is answered, from \<^verbatim>\<open>ip_input\<close> to \<^verbatim>\<open>netif->output\<close> and from the received
      frame to the sent one.
    \<^item> \<open>Ip_Reass_Props\<close>, \<open>Ip_Reass_Packet\<close>, \<open>Ip_Reass_Claims\<close>: the queue of fragments as a sorted list of intervals, the packet that comes out of
      reassembly, and the hole that the check for completeness does not see.
    \<^item> \<open>Pbuf_Alloc\<close>, \<open>Pbuf_Realloc\<close>: allocation from the heap, and the shortening of packets. \<open>Etharp_Request\<close>: the frame of a request.
    \<^item> \<open>Netif\<close>, \<open>Netif_Props\<close>, \<open>Netif_Claims\<close>: \<^verbatim>\<open>netif.c\<close> over the state of the link layer. An added interface is found by its name, an interface that
      is up is a route and announces itself, and nothing refers to a removed one.
    \<^item> \<open>Slipif\<close>, \<open>Slipif_Props\<close>, \<open>Slipif_Claims\<close>: \<^verbatim>\<open>slipif.c\<close>. What is sent is received; the queue of the interrupt variant loses packets.
    \<^item> \<open>Md5\<close>, \<open>Md5_Props\<close>: \<^verbatim>\<open>md5.c\<close>, unrolled as it is, and MD5 by tables as the reference. \<open>Randm\<close>: a digest over pieces as a locale, interpreted by
      MD5; \<^verbatim>\<open>randm.c\<close>, \<^verbatim>\<open>magic.c\<close>. \<open>Md5_Claims\<close>: the hash of any pieces is the MD5 of their concatenation; the stream of random bytes.
    \<^item> \<open>Chap\<close>, \<open>Chap_Props\<close>, \<open>Chap_Claims\<close>: \<^verbatim>\<open>chap.c\<close>. Both sides reach success when they share the secret, the server opens for no other response, it
      gives up on a silent peer, and it accepts a replay after the link went down.
    \<^item> \<open>Udp\<close>, \<open>Udp_Props\<close>, \<open>Udp_Claims\<close>: \<^verbatim>\<open>udp.c\<close> over the IP layer. The list of blocks stays sound, ports are refused exactly on a conflict, the
      search for a port ends, and a datagram reaches the right receiver.
    \<^item> \<open>Asn1\<close>, \<open>Asn1_Props\<close>, \<open>Asn1_Claims\<close>: the ASN.1 encoder and decoder on a cursor over the pbufs; what is written is read back,
      wherever the packet is cut into pbufs.

  \<^bold>\<open>Loops.\<close> There is no fuel. Loops over data of known size are structural recursion or have a termination proof; loops over
  linked structures are partial functions of the option type, and the theorems prove that they return on
  well-formed structures (\<^verbatim>\<open>memp_sanity\<close> also on circular ones).

  \<^bold>\<open>Not modelled.\<close> TCP, raw sockets, DHCP, DNS, IGMP, AUTOIP, the SNMP agent, IPv6 and the sequential API are left out of the
  build or replaced by stubs; the stubs of the input functions are an instance of the parameter \<open>up\<close> of \<^verbatim>\<open>ip_input\<close>, and \<^verbatim>\<open>tcp_abort\<close> is a
  parameter of \<^verbatim>\<open>netif_set_ipaddr\<close>. Of \<^verbatim>\<open>netif.c\<close> the loopback queue and the callbacks are configured out, of \<^verbatim>\<open>timers.c\<close> the cyclic timers only call the
  modules and set themselves again. LCP, IPCP, PAP, the framing of PPP and header compression are not modelled: the automaton takes its protocol as a
  parameter. Of \<^verbatim>\<open>ip_frag\<close>, the dropping of datagrams, the error messages of ICMP and the sending of UDP there are definitions but no
  theorems. The overflow checks of the pools (\<^verbatim>\<open>MEMP_OVERFLOW_CHECK\<close>) are off.
  Printing for debugging has no effect on the state. The wrappers of \<^verbatim>\<open>cwrap\<close> only export functions or are empty.
\<close>

end
